(* ===== verification/Prelude.thy ===== *)
theory Prelude
  imports Main "HOL-Library.Word" "HOL-Library.Monad_Syntax"
begin

text \<open>
  Shared vocabulary of the development: the integer types of \<open>include/rtdef.h\<close>, the
  alignment macros, the error codes, the result type of calls that may suspend their caller,
  the lemma collections, and the generic facts on lists and words the components share.

  Conventions used by every theory:
    \<^item> a C call that can hit a failing \<open>RT_ASSERT\<close>, a dereference of \<open>RT_NULL\<close> or a loop
      that never ends has an option type; \<open>None\<close> means that the call never returns
      (\<open>rt_assert_handler\<close> ends in an endless loop);
    \<^item> pointers to kernel objects are 32 bit addresses, a pointer that may be \<open>RT_NULL\<close> and
      is tested for it is an option;
    \<^item> error codes are integers, \<open>- RT_ERROR\<close> and so on, as in the source;
    \<^item> \<open>rt_hw_interrupt_disable\<close> and \<open>rt_hw_interrupt_enable\<close> delimit what is one step of
      the model and have no effect of their own on the modelled state;
    \<^item> the hook pointers (\<open>RT_OBJECT_HOOK_CALL\<close>) have their initial value \<open>RT_NULL\<close>, and
      \<open>RT_DEBUG_LOG\<close> is compiled out, as \<open>rtdebug.h\<close> sets it.
\<close>

unbundle bit_operations_syntax

subsection \<open>Integer types and macros\<close>

type_synonym u8 = "8 word"
type_synonym u16 = "16 word"
type_synonym u32 = "32 word"
type_synonym addr = "32 word"
type_synonym rt_err = int

definition RT_ALIGN :: "u32 \<Rightarrow> u32 \<Rightarrow> u32" where
  "RT_ALIGN sz al = (sz + al - 1) AND NOT (al - 1)"

definition RT_ALIGN_DOWN :: "u32 \<Rightarrow> u32 \<Rightarrow> u32" where
  "RT_ALIGN_DOWN sz al = sz AND NOT (al - 1)"

abbreviation (input) RT_ALIGN_SIZE :: u32 where "RT_ALIGN_SIZE \<equiv> 4"
abbreviation (input) RT_TICK_MAX :: u32 where "RT_TICK_MAX \<equiv> 0xffffffff"

text \<open>\<open>RT_TICK_MAX / 2\<close>, an unsigned division.\<close>

abbreviation (input) RT_TICK_HALF :: u32 where "RT_TICK_HALF \<equiv> 0x7fffffff"

abbreviation (input) RT_EOK :: rt_err where "RT_EOK \<equiv> 0"
abbreviation (input) RT_ERROR :: rt_err where "RT_ERROR \<equiv> 1"
abbreviation (input) RT_ETIMEOUT :: rt_err where "RT_ETIMEOUT \<equiv> 2"
abbreviation (input) RT_EFULL :: rt_err where "RT_EFULL \<equiv> 3"
abbreviation (input) RT_EEMPTY :: rt_err where "RT_EEMPTY \<equiv> 4"
abbreviation (input) RT_ENOMEM :: rt_err where "RT_ENOMEM \<equiv> 5"
abbreviation (input) RT_ENOSYS :: rt_err where "RT_ENOSYS \<equiv> 6"
abbreviation (input) RT_EBUSY :: rt_err where "RT_EBUSY \<equiv> 7"

text \<open>
  A call that may give up the processor either runs to its end, \<open>Done\<close> with the value it
  returns, or has suspended its caller inside \<open>rt_schedule\<close>, \<open>Blocked\<close> with the local
  variables that are live across the context switch.
\<close>

datatype ('r, 'l) outcome = Done 'r | Blocked 'l

text \<open>\<open>RT_ASSERT\<close>: a failing assertion never returns.\<close>

definition rt_assert :: "bool \<Rightarrow> unit option" where
  "rt_assert b = (if b then Some () else None)"

lemma rt_assert_simps [simp]:
  "rt_assert True = Some ()" "rt_assert False = None"
  by (simp_all add: rt_assert_def)

lemma rt_assert_Some [simp]: "(rt_assert b = Some u) = b"
  by (simp add: rt_assert_def)

lemma bind_assert_Some [simp]:
  "((rt_assert b \<bind> f) = Some y) = (b \<and> f () = Some y)"
  by (simp add: rt_assert_def)

lemma bind_Some_conv: "((m \<bind> f) = Some y) = (\<exists>x. m = Some x \<and> f x = Some y)"
  by (cases m) auto

subsection \<open>Alignment\<close>

lemma and_not_3: "(w::u32) AND - 4 = push_bit 2 (drop_bit 2 w)"
proof -
  have "NOT (mask 2) AND w = push_bit 2 (drop_bit 2 w)"
    by (rule bit_word_eqI) (auto simp: bit_simps le_diff_conv2 elim!: back_subst [of "bit w"])
  moreover have "NOT (mask 2) = (- 4 :: u32)"
    by (simp add: mask_eq_exp_minus_1 not_eq_complement)
  ultimately show ?thesis by (simp add: and.commute)
qed

lemma unat_and_not_3: "unat ((w::u32) AND - 4) = 4 * (unat w div 4)"
proof -
  have b: "unat w < 2 ^ 32" using unsigned_less [of w, where ?'a = nat] by simp
  have "unat (push_bit 2 (drop_bit 2 w)) = (unat w div 4 * 4) mod 2 ^ 32"
    using b by (simp only: unsigned_push_bit_eq unsigned_drop_bit_eq)
      (simp add: push_bit_eq_mult drop_bit_eq_div take_bit_eq_mod)
  moreover have "unat w div 4 * 4 < 2 ^ 32" using b by linarith
  ultimately show ?thesis by (simp add: and_not_3)
qed

lemma unat_RT_ALIGN:
  assumes "unat w + 3 < 2 ^ 32"
  shows "unat (RT_ALIGN w 4) = 4 * ((unat w + 3) div 4)"
proof -
  have "unat (3 + w) = unat w + 3" using assms by (simp add: unat_word_ariths)
  then show ?thesis by (simp add: RT_ALIGN_def unat_and_not_3 add.commute)
qed

lemma unat_RT_ALIGN_DOWN: "unat (RT_ALIGN_DOWN w 4) = 4 * (unat w div 4)"
  by (simp add: RT_ALIGN_DOWN_def unat_and_not_3)

subsection \<open>C strings\<close>

text \<open>The C string at the beginning of a buffer; there is none if nothing ends it.\<close>

definition c_string :: "string \<Rightarrow> string option" where
  "c_string buf = (if CHR 0x00 \<in> set buf then Some (takeWhile (\<lambda>c. c \<noteq> CHR 0x00) buf) else None)"

end
