(* ===== verification/RtList.thy ===== *)
theory RtList
  imports Prelude
begin

text \<open>
  The intrusive, circular, doubly linked lists of \<open>include/rtservice.h\<close>: a store of \<open>next\<close>
  and \<open>prev\<close> pointers, the inline functions that update it, and the contract the kernel
  relies on, a locale over a store that represents disjoint sequences of nodes. The pointer
  functions are proved to satisfy the contract, and so are the sequences themselves, which are
  what the state of the kernel model holds.
\<close>

subsection \<open>Pointer lists\<close>

text \<open>
  A \<open>struct rt_list_node\<close> is the anchor of a list (\<open>Head\<close>) or embedded in an object that
  can be linked into one (\<open>Node\<close>).
\<close>

datatype ('h, 'n) node = Head 'h | Node 'n

record ('h, 'n) list_store =
  nxt :: "('h, 'n) node \<Rightarrow> ('h, 'n) node"
  prv :: "('h, 'n) node \<Rightarrow> ('h, 'n) node"

definition rt_list_init ::
  "('h, 'n) node \<Rightarrow> ('h, 'n) list_store \<Rightarrow> ('h, 'n) list_store" where
  "rt_list_init l s = s\<lparr>nxt := (nxt s)(l := l), prv := (prv s)(l := l)\<rparr>"

definition rt_list_insert_after ::
  "('h, 'n) node \<Rightarrow> ('h, 'n) node \<Rightarrow> ('h, 'n) list_store \<Rightarrow> ('h, 'n) list_store" where
  "rt_list_insert_after l n s =
     (let s1 = s\<lparr>prv := (prv s)(nxt s l := n)\<rparr>;
          s2 = s1\<lparr>nxt := (nxt s1)(n := nxt s1 l)\<rparr>;
          s3 = s2\<lparr>nxt := (nxt s2)(l := n)\<rparr>
      in s3\<lparr>prv := (prv s3)(n := l)\<rparr>)"

definition rt_list_insert_before ::
  "('h, 'n) node \<Rightarrow> ('h, 'n) node \<Rightarrow> ('h, 'n) list_store \<Rightarrow> ('h, 'n) list_store" where
  "rt_list_insert_before l n s =
     (let s1 = s\<lparr>nxt := (nxt s)(prv s l := n)\<rparr>;
          s2 = s1\<lparr>prv := (prv s1)(n := prv s1 l)\<rparr>;
          s3 = s2\<lparr>prv := (prv s2)(l := n)\<rparr>
      in s3\<lparr>nxt := (nxt s3)(n := l)\<rparr>)"

definition rt_list_remove ::
  "('h, 'n) node \<Rightarrow> ('h, 'n) list_store \<Rightarrow> ('h, 'n) list_store" where
  "rt_list_remove n s =
     (let s1 = s\<lparr>prv := (prv s)(nxt s n := prv s n)\<rparr>;
          s2 = s1\<lparr>nxt := (nxt s1)(prv s1 n := nxt s1 n)\<rparr>
      in s2\<lparr>nxt := (nxt s2)(n := n), prv := (prv s2)(n := n)\<rparr>)"

definition rt_list_isempty :: "('h, 'n) node \<Rightarrow> ('h, 'n) list_store \<Rightarrow> bool" where
  "rt_list_isempty l s = (nxt s l = l)"

text \<open>\<open>rt_list_entry(l->next, ...)\<close>: the object whose node follows the anchor.\<close>

definition rt_list_first_entry :: "'h \<Rightarrow> ('h, 'n) list_store \<Rightarrow> 'n option" where
  "rt_list_first_entry h s = (case nxt s (Head h) of Node n \<Rightarrow> Some n | Head _ \<Rightarrow> None)"

subsection \<open>Sequences\<close>

text \<open>What the pointers stand for: one sequence of objects for each anchor.\<close>

type_synonym ('h, 'n) lists = "'h \<Rightarrow> 'n list"

definition lists_insert_first :: "'h \<Rightarrow> 'n \<Rightarrow> ('h, 'n) lists \<Rightarrow> ('h, 'n) lists" where
  "lists_insert_first h n Q = Q(h := n # Q h)"

definition lists_insert_last :: "'h \<Rightarrow> 'n \<Rightarrow> ('h, 'n) lists \<Rightarrow> ('h, 'n) lists" where
  "lists_insert_last h n Q = Q(h := Q h @ [n])"

fun insert_elem_before :: "'n \<Rightarrow> 'n \<Rightarrow> 'n list \<Rightarrow> 'n list" where
  "insert_elem_before m n [] = []"
| "insert_elem_before m n (x # xs) =
     (if x = m then n # x # xs else x # insert_elem_before m n xs)"

definition lists_insert_before :: "'n \<Rightarrow> 'n \<Rightarrow> ('h, 'n) lists \<Rightarrow> ('h, 'n) lists" where
  "lists_insert_before m n Q = (\<lambda>h. insert_elem_before m n (Q h))"

definition lists_remove :: "'n \<Rightarrow> ('h, 'n) lists \<Rightarrow> ('h, 'n) lists" where
  "lists_remove n Q = (\<lambda>h. removeAll n (Q h))"

definition lists_first :: "'h \<Rightarrow> ('h, 'n) lists \<Rightarrow> 'n option" where
  "lists_first h Q = (case Q h of [] \<Rightarrow> None | n # _ \<Rightarrow> Some n)"

text \<open>A node is embedded once: it is in at most one list, at one place.\<close>

definition wf_lists :: "('h, 'n) lists \<Rightarrow> bool" where
  "wf_lists Q = ((\<forall>h. distinct (Q h)) \<and> (\<forall>h g n. n \<in> set (Q h) \<longrightarrow> n \<in> set (Q g) \<longrightarrow> h = g))"

definition unlinked :: "'n \<Rightarrow> ('h, 'n) lists \<Rightarrow> bool" where
  "unlinked n Q = (\<forall>h. n \<notin> set (Q h))"

lemma insert_elem_before_split:
  "distinct (xs @ m # ys) \<Longrightarrow> insert_elem_before m n (xs @ m # ys) = xs @ n # m # ys"
  by (induction xs) auto

lemma insert_elem_before_id [simp]: "m \<notin> set xs \<Longrightarrow> insert_elem_before m n xs = xs"
  by (induction xs) auto

lemma set_insert_elem_before:
  "set (insert_elem_before m n xs) = (if m \<in> set xs then insert n (set xs) else set xs)"
  by (induction xs) auto

lemma distinct_insert_elem_before:
  "distinct xs \<Longrightarrow> n \<notin> set xs \<Longrightarrow> distinct (insert_elem_before m n xs)"
  by (induction xs) (auto simp: set_insert_elem_before)

lemma removeAll_split: "distinct (xs @ n # ys) \<Longrightarrow> removeAll n (xs @ n # ys) = xs @ ys"
  by (simp add: removeAll_id)

lemma lists_remove_apply [simp]: "set (lists_remove n Q h) = set (Q h) - {n}"
  by (simp add: lists_remove_def)

lemma wf_lists_insert_first:
  "wf_lists Q \<Longrightarrow> unlinked n Q \<Longrightarrow> wf_lists (lists_insert_first h n Q)"
  by (auto simp: wf_lists_def unlinked_def lists_insert_first_def)

lemma wf_lists_insert_last:
  "wf_lists Q \<Longrightarrow> unlinked n Q \<Longrightarrow> wf_lists (lists_insert_last h n Q)"
  by (auto simp: wf_lists_def unlinked_def lists_insert_last_def)

lemma wf_lists_insert_before:
  "wf_lists Q \<Longrightarrow> unlinked n Q \<Longrightarrow> wf_lists (lists_insert_before m n Q)"
  unfolding wf_lists_def unlinked_def lists_insert_before_def
  by (auto simp: set_insert_elem_before distinct_insert_elem_before split: if_splits)

lemma wf_lists_remove: "wf_lists Q \<Longrightarrow> wf_lists (lists_remove n Q)"
  unfolding wf_lists_def by (auto simp: lists_remove_def distinct_removeAll)

lemma unlinked_remove: "unlinked n (lists_remove n Q)"
  by (simp add: unlinked_def)

subsection \<open>The representation relation\<close>

text \<open>Consecutive nodes point at each other.\<close>

fun linked :: "('h, 'n) list_store \<Rightarrow> ('h, 'n) node list \<Rightarrow> bool" where
  "linked s (x # y # zs) = (nxt s x = y \<and> prv s y = x \<and> linked s (y # zs))"
| "linked s _ = True"

definition ring :: "'h \<Rightarrow> 'n list \<Rightarrow> ('h, 'n) node list" where
  "ring h ns = Head h # map Node ns @ [Head h]"

definition represents :: "('h, 'n) list_store \<Rightarrow> ('h, 'n) lists \<Rightarrow> bool" where
  "represents s Q =
     (wf_lists Q \<and> (\<forall>h. linked s (ring h (Q h))) \<and>
      (\<forall>n. unlinked n Q \<longrightarrow> nxt s (Node n) = Node n \<and> prv s (Node n) = Node n))"

lemma linked_append: "linked s (xs @ y # zs) = (linked s (xs @ [y]) \<and> linked s (y # zs))"
proof (induction xs)
  case (Cons x xs)
  then show ?case by (cases xs) auto
qed simp

lemma linked_cong:
  assumes "\<And>x. x \<in> set (butlast xs) \<Longrightarrow> nxt s' x = nxt s x"
    and "\<And>y. y \<in> set (tl xs) \<Longrightarrow> prv s' y = prv s y"
  shows "linked s' xs = linked s xs"
  using assms
proof (induction xs rule: induct_list012)
  case (3 x y zs)
  have "linked s' (y # zs) = linked s (y # zs)"
    by (rule "3.IH"(2)) (use "3.prems" in auto)
  moreover have "nxt s' x = nxt s x" "prv s' y = prv s y" using "3.prems" by auto
  ultimately show ?case by simp
qed simp_all

lemma linked_pair: "linked s (ps @ a # b # qs) \<Longrightarrow> nxt s a = b \<and> prv s b = a"
  using linked_append [of s ps a "b # qs"] by simp

text \<open>The two neighbours of a position \<open>xs @ ys\<close> of a list.\<close>

definition left_of :: "'h \<Rightarrow> 'n list \<Rightarrow> ('h, 'n) node" where
  "left_of h xs = last (Head h # map Node xs)"

definition right_of :: "'h \<Rightarrow> 'n list \<Rightarrow> ('h, 'n) node" where
  "right_of h ys = hd (map Node ys @ [Head h])"

lemma left_of_simps [simp]:
  "left_of h [] = Head h" "left_of h (xs @ [x]) = Node x"
  by (simp_all add: left_of_def)

lemma right_of_simps [simp]:
  "right_of h [] = Head h" "right_of h (y # ys) = Node y"
  by (simp_all add: right_of_def)

lemma left_of_cases: "left_of h xs = Head h \<or> (\<exists>x \<in> set xs. left_of h xs = Node x)"
  by (cases xs rule: rev_cases) auto

lemma right_of_cases: "right_of h ys = Head h \<or> (\<exists>y \<in> set ys. right_of h ys = Node y)"
  by (cases ys) auto

lemma ring_split:
  "ring h (xs @ ys) =
     butlast (Head h # map Node xs) @ left_of h xs # right_of h ys # tl (map Node ys @ [Head h])"
proof -
  have "Head h # map Node xs = butlast (Head h # map Node xs) @ [left_of h xs]"
    by (simp add: left_of_def)
  moreover have "map Node ys @ [Head h] = right_of h ys # tl (map Node ys @ [Head h])"
    by (cases ys) (auto simp: right_of_def)
  ultimately show ?thesis
    by (metis (no_types, lifting) append.assoc append_Cons append_Nil map_append ring_def)
qed

text \<open>
  Linking a free node between two neighbours and unlinking a node, once for every operation:
  only the two neighbours and the node itself change.
\<close>

lemma ring_nodes:
  assumes "represents s Q" "Q h = xs @ ys"
  shows "nxt s (left_of h xs) = right_of h ys" "prv s (right_of h ys) = left_of h xs"
proof -
  have "linked s (ring h (xs @ ys))" using assms by (metis represents_def)
  then show "nxt s (left_of h xs) = right_of h ys" "prv s (right_of h ys) = left_of h xs"
    unfolding ring_split by (auto dest: linked_pair)
qed

lemma linked_other:
  assumes "linked s (ring g ns)"
    and "nxt s' (Head g) = nxt s (Head g)" "prv s' (Head g) = prv s (Head g)"
    and "\<And>n. n \<in> set ns \<Longrightarrow> nxt s' (Node n) = nxt s (Node n) \<and> prv s' (Node n) = prv s (Node n)"
  shows "linked s' (ring g ns)"
proof -
  have "linked s' (ring g ns) = linked s (ring g ns)"
    by (rule linked_cong) (use assms in \<open>auto simp: ring_def butlast_append\<close>)
  with assms(1) show ?thesis by simp
qed

lemma ring_halves:
  "ring h (xs @ ys) = (Head h # map Node xs) @ (map Node ys @ [Head h])"
  by (simp add: ring_def)

lemma linked_halves:
  assumes "represents s Q" "Q h = xs @ ys"
  shows "linked s (Head h # map Node xs)" "linked s (map Node ys @ [Head h])"
proof -
  let ?L = "butlast (Head h # map Node xs)" and ?R = "tl (map Node ys @ [Head h])"
  have L: "Head h # map Node xs = ?L @ [left_of h xs]" by (simp add: left_of_def)
  have R: "map Node ys @ [Head h] = right_of h ys # ?R" by (cases ys) (auto simp: right_of_def)
  have "linked s (ring h (xs @ ys))" using assms by (metis represents_def)
  then have l: "linked s (?L @ left_of h xs # right_of h ys # ?R)" by (simp only: ring_split)
  then have "linked s (?L @ [left_of h xs])" "linked s (left_of h xs # right_of h ys # ?R)"
    using linked_append [of s ?L "left_of h xs" "right_of h ys # ?R"] by blast+
  moreover from this(2) have "linked s (right_of h ys # ?R)" by (metis linked.simps(1))
  ultimately show "linked s (Head h # map Node xs)" "linked s (map Node ys @ [Head h])"
    using L R by metis+
qed

lemma linked_join:
  assumes "linked s (Head h # map Node xs)" "linked s (map Node ys @ [Head h])"
    and "nxt s (left_of h xs) = right_of h ys" "prv s (right_of h ys) = left_of h xs"
  shows "linked s (ring h (xs @ ys))"
proof -
  let ?L = "butlast (Head h # map Node xs)" and ?R = "tl (map Node ys @ [Head h])"
  have L: "Head h # map Node xs = ?L @ [left_of h xs]" by (simp add: left_of_def)
  have R: "map Node ys @ [Head h] = right_of h ys # ?R" by (cases ys) (auto simp: right_of_def)
  have "linked s (?L @ [left_of h xs])" using assms(1) L by metis
  moreover have "linked s (left_of h xs # right_of h ys # ?R)"
    using assms(2-4) R by (metis linked.simps(1))
  ultimately show ?thesis
    unfolding ring_split using linked_append [of s ?L "left_of h xs" "right_of h ys # ?R"] by blast
qed

lemma linked_join3:
  assumes "linked s (Head h # map Node xs)" "linked s (map Node ys @ [Head h])"
    and "nxt s (left_of h xs) = Node n" "prv s (Node n) = left_of h xs"
    and "nxt s (Node n) = right_of h ys" "prv s (right_of h ys) = Node n"
  shows "linked s (ring h (xs @ n # ys))"
proof (rule linked_join)
  show "linked s (map Node (n # ys) @ [Head h])"
    using assms(2,5,6) by (cases ys) (auto simp: right_of_def)
qed (use assms in auto)

lemma represents_link:
  assumes rep: "represents s Q" and Qh: "Q h = xs @ ys" and fresh: "unlinked n Q"
    and nx: "nxt s' = (nxt s)(left_of h xs := Node n, Node n := right_of h ys)"
    and pv: "prv s' = (prv s)(right_of h ys := Node n, Node n := left_of h xs)"
  shows "represents s' (Q(h := xs @ n # ys))"
proof -
  have wf: "wf_lists Q" using rep by (simp add: represents_def)
  have dist: "distinct (xs @ ys)" using wf Qh unfolding wf_lists_def by metis
  have n: "n \<notin> set (xs @ ys)" using fresh Qh unfolding unlinked_def by metis
  have nl: "Node n \<noteq> left_of h xs" "Node n \<noteq> right_of h ys"
    using left_of_cases [of h xs] right_of_cases [of h ys] n by auto
  have "linked s' (Head h # map Node xs) = linked s (Head h # map Node xs)"
  proof (rule linked_cong)
    fix x assume x: "x \<in> set (butlast (Head h # map Node xs))"
    have "distinct (butlast (Head h # map Node xs) @ [left_of h xs])"
      unfolding left_of_def using dist by (subst append_butlast_last_id) (auto simp: distinct_map inj_on_def)
    with x have "x \<noteq> left_of h xs" by auto
    moreover have "x \<noteq> Node n" using x n by (auto dest!: in_set_butlastD split: if_splits)
    ultimately show "nxt s' x = nxt s x" by (simp add: nx)
  next
    fix y assume "y \<in> set (tl (Head h # map Node xs))"
    then obtain a where "y = Node a" "a \<in> set xs" by auto
    then show "prv s' y = prv s y"
      using right_of_cases [of h ys] dist n by (auto simp: pv)
  qed
  moreover have "linked s' (map Node ys @ [Head h]) = linked s (map Node ys @ [Head h])"
  proof (rule linked_cong)
    fix x :: "('a, 'b) node" assume "x \<in> set (butlast (map Node ys @ [Head h]))"
    then obtain a where "x = Node a" "a \<in> set ys" by auto
    then show "nxt s' x = nxt s x"
      using left_of_cases [of h xs] dist n by (auto simp: nx)
  next
    fix y assume y: "y \<in> set (tl (map Node ys @ [Head h]))"
    then have "y \<noteq> right_of h ys" using dist
      by (cases ys) (auto simp: distinct_map inj_on_def)
    moreover have "y \<noteq> Node n" using y n by (cases ys) auto
    ultimately show "prv s' y = prv s y" by (simp add: pv)
  qed
  ultimately have "linked s' (ring h (xs @ n # ys))"
    using linked_halves [OF rep Qh] nl by (intro linked_join3) (auto simp: nx pv)
  moreover have "linked s' (ring g (Q g))" if "g \<noteq> h" for g
  proof (rule linked_other)
    show "linked s (ring g (Q g))" using rep by (simp add: represents_def)
    have "m \<notin> set (xs @ ys)" "m \<noteq> n" if "m \<in> set (Q g)" for m
      using that \<open>g \<noteq> h\<close> wf Qh fresh unfolding wf_lists_def unlinked_def by metis+
    then show "nxt s' (Node m) = nxt s (Node m) \<and> prv s' (Node m) = prv s (Node m)"
      if "m \<in> set (Q g)" for m
      using that left_of_cases [of h xs] right_of_cases [of h ys] by (auto simp: nx pv)
  qed (use that left_of_cases [of h xs] right_of_cases [of h ys] in \<open>auto simp: nx pv\<close>)
  moreover have "nxt s' (Node m) = Node m \<and> prv s' (Node m) = Node m"
    if "unlinked m (Q(h := xs @ n # ys))" for m
  proof -
    have "m \<noteq> n" "m \<notin> set xs" "m \<notin> set ys" using spec [OF that [unfolded unlinked_def], of h] by auto
    moreover have "unlinked m Q" unfolding unlinked_def
    proof
      fix g show "m \<notin> set (Q g)"
        using spec [OF that [unfolded unlinked_def], of g] Qh by (cases "g = h") auto
    qed
    ultimately show ?thesis using rep left_of_cases [of h xs] right_of_cases [of h ys]
      by (auto simp: nx pv represents_def)
  qed
  moreover have "wf_lists (Q(h := xs @ n # ys))"
  proof -
    have "set (xs @ n # ys) = insert n (set (Q h))" using Qh by auto
    then show ?thesis
      using wf fresh dist n by (simp add: wf_lists_def unlinked_def) blast
  qed
  ultimately show ?thesis by (auto simp: represents_def)
qed

lemma represents_unlink:
  assumes rep: "represents s Q" and Qh: "Q h = xs @ n # ys"
    and nx: "nxt s' = (nxt s)(left_of h xs := right_of h ys, Node n := Node n)"
    and pv: "prv s' = (prv s)(right_of h ys := left_of h xs, Node n := Node n)"
  shows "represents s' (Q(h := xs @ ys))"
proof -
  have wf: "wf_lists Q" using rep by (simp add: represents_def)
  have dist: "distinct (xs @ n # ys)" using wf Qh unfolding wf_lists_def by metis
  have nl: "Node n \<noteq> left_of h xs" "Node n \<noteq> right_of h ys"
    using left_of_cases [of h xs] right_of_cases [of h ys] dist by auto
  have "linked s' (Head h # map Node xs) = linked s (Head h # map Node xs)"
  proof (rule linked_cong)
    fix x assume x: "x \<in> set (butlast (Head h # map Node xs))"
    have "distinct (butlast (Head h # map Node xs) @ [left_of h xs])"
      unfolding left_of_def using dist by (subst append_butlast_last_id) (auto simp: distinct_map inj_on_def)
    with x have "x \<noteq> left_of h xs" by auto
    moreover have "x \<noteq> Node n" using x dist by (auto dest!: in_set_butlastD split: if_splits)
    ultimately show "nxt s' x = nxt s x" by (simp add: nx)
  next
    fix y assume "y \<in> set (tl (Head h # map Node xs))"
    then obtain a where "y = Node a" "a \<in> set xs" by auto
    then show "prv s' y = prv s y"
      using right_of_cases [of h ys] dist by (auto simp: pv)
  qed
  moreover have "linked s' (map Node ys @ [Head h]) = linked s (map Node ys @ [Head h])"
  proof (rule linked_cong)
    fix x :: "('a, 'b) node" assume "x \<in> set (butlast (map Node ys @ [Head h]))"
    then obtain a where "x = Node a" "a \<in> set ys" by auto
    then show "nxt s' x = nxt s x"
      using left_of_cases [of h xs] dist by (auto simp: nx)
  next
    fix y assume y: "y \<in> set (tl (map Node ys @ [Head h]))"
    then have "y \<noteq> right_of h ys" using dist
      by (cases ys) (auto simp: distinct_map inj_on_def)
    moreover have "y \<noteq> Node n" using y dist by (cases ys) auto
    ultimately show "prv s' y = prv s y" by (simp add: pv)
  qed
  moreover have "linked s (Head h # map Node xs)" using linked_halves(1) [of s Q h xs] rep Qh by auto
  moreover have "linked s (map Node ys @ [Head h])"
    using linked_halves(2) [of s Q h "xs @ [n]" ys] rep Qh by auto
  ultimately have "linked s' (ring h (xs @ ys))"
    using nl by (intro linked_join) (auto simp: nx pv)
  moreover have "linked s' (ring g (Q g))" if "g \<noteq> h" for g
  proof (rule linked_other)
    show "linked s (ring g (Q g))" using rep by (simp add: represents_def)
    have "m \<notin> set (xs @ n # ys)" if "m \<in> set (Q g)" for m
      using that \<open>g \<noteq> h\<close> wf Qh unfolding wf_lists_def by metis
    then show "nxt s' (Node m) = nxt s (Node m) \<and> prv s' (Node m) = prv s (Node m)"
      if "m \<in> set (Q g)" for m
      using that left_of_cases [of h xs] right_of_cases [of h ys] by (auto simp: nx pv)
  qed (use that left_of_cases [of h xs] right_of_cases [of h ys] in \<open>auto simp: nx pv\<close>)
  moreover have "nxt s' (Node m) = Node m \<and> prv s' (Node m) = Node m"
    if u: "unlinked m (Q(h := xs @ ys))" for m
  proof (cases "m = n")
    case False
    have "m \<notin> set xs" "m \<notin> set ys" using spec [OF u [unfolded unlinked_def], of h] by auto
    moreover have "unlinked m Q" unfolding unlinked_def
    proof
      fix g show "m \<notin> set (Q g)"
        using spec [OF u [unfolded unlinked_def], of g] Qh False by (cases "g = h") auto
    qed
    ultimately show ?thesis using rep left_of_cases [of h xs] right_of_cases [of h ys]
      by (auto simp: nx pv represents_def)
  qed (simp add: nx pv)
  moreover have "wf_lists (Q(h := xs @ ys))"
  proof -
    have "set (Q h) = insert n (set (xs @ ys))" using Qh by auto
    then show ?thesis using wf dist by (simp add: wf_lists_def) blast
  qed
  ultimately show ?thesis by (auto simp: represents_def)
qed

subsection \<open>The contract of a list store\<close>

text \<open>
  What the scheduler, the timers and the IPC objects rely on when they link and unlink
  objects. \<open>rep s Q\<close> says that the store \<open>s\<close> stands for the sequences \<open>Q\<close>.
\<close>

locale list_ops =
  fixes rep :: "'s \<Rightarrow> ('h, 'n) lists \<Rightarrow> bool"
    and ins_first :: "'h \<Rightarrow> 'n \<Rightarrow> 's \<Rightarrow> 's"
    and ins_last :: "'h \<Rightarrow> 'n \<Rightarrow> 's \<Rightarrow> 's"
    and ins_before :: "'n \<Rightarrow> 'n \<Rightarrow> 's \<Rightarrow> 's"
    and rem :: "'n \<Rightarrow> 's \<Rightarrow> 's"
    and is_empty :: "'h \<Rightarrow> 's \<Rightarrow> bool"
    and first :: "'h \<Rightarrow> 's \<Rightarrow> 'n option"
  assumes rep_wf: "rep s Q \<Longrightarrow> wf_lists Q"
    and rep_ins_first:
      "rep s Q \<Longrightarrow> unlinked n Q \<Longrightarrow> rep (ins_first h n s) (lists_insert_first h n Q)"
    and rep_ins_last:
      "rep s Q \<Longrightarrow> unlinked n Q \<Longrightarrow> rep (ins_last h n s) (lists_insert_last h n Q)"
    and rep_ins_before:
      "rep s Q \<Longrightarrow> unlinked n Q \<Longrightarrow> m \<in> set (Q h) \<Longrightarrow>
        rep (ins_before m n s) (lists_insert_before m n Q)"
    and rep_rem: "rep s Q \<Longrightarrow> rep (rem n s) (lists_remove n Q)"
    and rep_is_empty: "rep s Q \<Longrightarrow> is_empty h s = (Q h = [])"
    and rep_first: "rep s Q \<Longrightarrow> first h s = lists_first h Q"
begin

text \<open>A node taken off whatever list it is on can be put at the end of any list.\<close>

lemma rep_move_last:
  "rep s Q \<Longrightarrow> rep (ins_last h n (rem n s)) (lists_insert_last h n (lists_remove n Q))"
  by (intro rep_ins_last rep_rem unlinked_remove)

lemma rep_move_first:
  "rep s Q \<Longrightarrow> rep (ins_first h n (rem n s)) (lists_insert_first h n (lists_remove n Q))"
  by (intro rep_ins_first rep_rem unlinked_remove)

text \<open>First in, first out: taking the first node of a list leaves the rest, and a node put at
  the end stays behind those already there.\<close>

lemma rep_take_first:
  assumes "rep s Q" "Q h = m # ms"
  shows "first h s = Some m" "rep (rem m s) (Q(h := ms))"
proof -
  show "first h s = Some m" using assms by (simp add: rep_first lists_first_def)
  have wf: "wf_lists Q" using assms(1) by (rule rep_wf)
  have "lists_remove m Q = Q(h := ms)"
  proof
    fix g
    have d: "distinct (m # ms)" using wf assms(2) unfolding wf_lists_def by metis
    show "lists_remove m Q g = (Q(h := ms)) g"
    proof (cases "g = h")
      case True
      with d assms(2) show ?thesis by (simp add: lists_remove_def)
    next
      case False
      then have "m \<notin> set (Q g)" using wf assms(2) unfolding wf_lists_def by (metis list.set_intros(1))
      with False show ?thesis by (simp add: lists_remove_def)
    qed
  qed
  then show "rep (rem m s) (Q(h := ms))" using rep_rem [OF assms(1)] by metis
qed

lemma rep_fifo:
  assumes "rep s Q" "unlinked n Q" "Q h = m # ms"
  shows "first h (ins_last h n s) = Some m"
    and "rep (rem m (ins_last h n s)) (Q(h := ms @ [n]))"
proof -
  have r: "rep (ins_last h n s) (Q(h := m # (ms @ [n])))"
    using rep_ins_last [OF assms(1,2), of h] assms(3) by (simp add: lists_insert_last_def)
  show "first h (ins_last h n s) = Some m" using rep_take_first(1) [OF r, of h] by simp
  show "rep (rem m (ins_last h n s)) (Q(h := ms @ [n]))"
    using rep_take_first(2) [OF r, of h] by simp
qed

end

text \<open>The sequences themselves.\<close>

definition seq_rep :: "('h, 'n) lists \<Rightarrow> ('h, 'n) lists \<Rightarrow> bool" where
  "seq_rep s Q = (s = Q \<and> wf_lists Q)"

interpretation seqs: list_ops seq_rep lists_insert_first lists_insert_last lists_insert_before
  lists_remove "\<lambda>h Q. Q h = []" lists_first
  by unfold_locales
    (auto simp: seq_rep_def intro: wf_lists_insert_first wf_lists_insert_last
      wf_lists_insert_before wf_lists_remove)

text \<open>The pointer functions.\<close>

lemma represents_wf: "represents s Q \<Longrightarrow> wf_lists Q"
  by (simp add: represents_def)

lemma represents_insert_after:
  assumes "represents s Q" "unlinked n Q"
  shows "represents (rt_list_insert_after (Head h) (Node n) s) (lists_insert_first h n Q)"
  unfolding lists_insert_first_def
  by (rule represents_link [where xs = "[]", simplified])
    (use assms ring_nodes [of s Q h "[]"] in \<open>auto simp: rt_list_insert_after_def fun_upd_twist\<close>)

lemma represents_insert_before:
  assumes "represents s Q" "unlinked n Q"
  shows "represents (rt_list_insert_before (Head h) (Node n) s) (lists_insert_last h n Q)"
  unfolding lists_insert_last_def
  by (rule represents_link [where ys = "[]", simplified])
    (use assms ring_nodes [of s Q h _ "[]"] in \<open>auto simp: rt_list_insert_before_def fun_upd_twist\<close>)

lemma represents_insert_before_node:
  assumes rep: "represents s Q" and u: "unlinked n Q" and m: "m \<in> set (Q h)"
  shows "represents (rt_list_insert_before (Node m) (Node n) s) (lists_insert_before m n Q)"
proof -
  obtain xs ys where Qh: "Q h = xs @ m # ys" using m by (auto simp: in_set_conv_decomp)
  have wf: "wf_lists Q" using rep by (simp add: represents_def)
  have d: "distinct (xs @ m # ys)" using wf Qh unfolding wf_lists_def by metis
  have "lists_insert_before m n Q = Q(h := xs @ n # m # ys)"
  proof
    fix g
    have "m \<notin> set (Q g)" if "g \<noteq> h" using that wf m unfolding wf_lists_def by metis
    then show "lists_insert_before m n Q g = (Q(h := xs @ n # m # ys)) g"
      using d Qh unfolding lists_insert_before_def
      by (cases "g = h") (simp_all add: insert_elem_before_split)
  qed
  moreover have "represents (rt_list_insert_before (Node m) (Node n) s) (Q(h := xs @ n # m # ys))"
  proof -
    have "m \<noteq> n" using u m by (auto simp: unlinked_def)
    then show ?thesis
      by (intro represents_link [OF rep Qh u])
        (use ring_nodes [OF rep Qh] in \<open>auto simp: rt_list_insert_before_def fun_upd_twist\<close>)
  qed
  ultimately show ?thesis by simp
qed

lemma represents_remove:
  assumes rep: "represents s Q"
  shows "represents (rt_list_remove (Node n) s) (lists_remove n Q)"
proof (cases "unlinked n Q")
  case True
  then have "lists_remove n Q = Q" by (auto simp: lists_remove_def unlinked_def)
  moreover have "rt_list_remove (Node n) s = s"
    using True rep by (simp add: represents_def rt_list_remove_def Let_def fun_upd_idem)
  ultimately show ?thesis using rep by simp
next
  case False
  then obtain h xs ys where Qh: "Q h = xs @ n # ys"
    by (auto simp: unlinked_def in_set_conv_decomp)
  have wf: "wf_lists Q" using rep by (simp add: represents_def)
  have d: "distinct (xs @ n # ys)" using wf Qh unfolding wf_lists_def by metis
  have "lists_remove n Q = Q(h := xs @ ys)"
  proof
    fix g show "lists_remove n Q g = (Q(h := xs @ ys)) g"
    proof (cases "g = h")
      case True
      with d Qh show ?thesis by (simp add: lists_remove_def)
    next
      case False
      have "n \<in> set (Q h)" using Qh by simp
      with False have "n \<notin> set (Q g)" using wf unfolding wf_lists_def by metis
      with False show ?thesis by (simp add: lists_remove_def)
    qed
  qed
  moreover have "represents (rt_list_remove (Node n) s) (Q(h := xs @ ys))"
  proof (rule represents_unlink [OF rep Qh])
    have p: "prv s (Node n) = left_of h xs" using ring_nodes(2) [OF rep Qh] by simp
    have q: "nxt s (Node n) = right_of h ys"
      using ring_nodes(1) [of s Q h "xs @ [n]" ys] rep Qh by simp
    have "Node n \<noteq> left_of h xs" "Node n \<noteq> right_of h ys"
      using left_of_cases [of h xs] right_of_cases [of h ys] d by auto
    with p q show "nxt (rt_list_remove (Node n) s) =
        (nxt s)(left_of h xs := right_of h ys, Node n := Node n)"
      and "prv (rt_list_remove (Node n) s) =
        (prv s)(right_of h ys := left_of h xs, Node n := Node n)"
      by (auto simp: rt_list_remove_def Let_def)
  qed
  ultimately show ?thesis by simp
qed

lemma represents_isempty: "represents s Q \<Longrightarrow> rt_list_isempty (Head h) s = (Q h = [])"
  using ring_nodes(1) [of s Q h "[]" "Q h"] by (cases "Q h") (auto simp: rt_list_isempty_def)

lemma represents_first: "represents s Q \<Longrightarrow> rt_list_first_entry h s = lists_first h Q"
  using ring_nodes(1) [of s Q h "[]" "Q h"]
  by (cases "Q h") (auto simp: rt_list_first_entry_def lists_first_def)

interpretation rtlist: list_ops represents
  "\<lambda>h n. rt_list_insert_after (Head h) (Node n)" "\<lambda>h n. rt_list_insert_before (Head h) (Node n)"
  "\<lambda>m n. rt_list_insert_before (Node m) (Node n)" "\<lambda>n. rt_list_remove (Node n)"
  "\<lambda>h. rt_list_isempty (Head h)" rt_list_first_entry
  by unfold_locales
    (simp_all add: represents_wf represents_insert_after represents_insert_before
      represents_insert_before_node represents_remove represents_isempty represents_first)

text \<open>\<open>rt_list_init\<close> on an anchor of its own, or on an unlinked node, represents the same.\<close>

lemma represents_init_node:
  "represents s Q \<Longrightarrow> unlinked n Q \<Longrightarrow> represents (rt_list_init (Node n) s) Q"
  by (simp add: represents_def rt_list_init_def fun_upd_idem)

lemma represents_init_head:
  "represents s Q \<Longrightarrow> Q h = [] \<Longrightarrow> represents (rt_list_init (Head h) s) Q"
  using ring_nodes(1,2) [of s Q h "[]" "[]"] by (simp add: rt_list_init_def fun_upd_idem)

subsection \<open>Refinement\<close>

text \<open>C15. The pointer operations of \<open>rt_list_t\<close> implement sequences: on a store of nodes that
  represents a family of lists, inserting an unlinked node first, last or before another,
  unlinking a node, the test for emptiness and the first entry do what they do on sequences.\<close>

theorem rt_list_refines:
  assumes "represents s Q" "unlinked n Q"
  shows "represents (rt_list_insert_after (Head h) (Node n) s) (lists_insert_first h n Q) \<and>
    represents (rt_list_insert_before (Head h) (Node n) s) (lists_insert_last h n Q) \<and>
    (m \<in> set (Q g) \<longrightarrow>
      represents (rt_list_insert_before (Node m) (Node n) s) (lists_insert_before m n Q)) \<and>
    represents (rt_list_remove (Node x) s) (lists_remove x Q) \<and>
    rt_list_isempty (Head h) s = (Q h = []) \<and> rt_list_first_entry h s = lists_first h Q"
  using assms rtlist.rep_ins_before [of s Q n m g]
  by (simp add: rtlist.rep_ins_first rtlist.rep_ins_last rtlist.rep_rem rtlist.rep_is_empty rtlist.rep_first)

text \<open>A store in which every node is initialised represents empty lists.\<close>

lemma represents_empty: "represents \<lparr>nxt = id, prv = id\<rparr> (\<lambda>_. [])"
  by (simp add: represents_def wf_lists_def ring_def)

lemma rt_list_refines_witness:
  "represents (rt_list_insert_before (Head 0) (Node (7::nat)) \<lparr>nxt = id, prv = id\<rparr>)
     (\<lambda>h. if h = (0::nat) then [7] else [])"
proof -
  have "lists_insert_last 0 7 (\<lambda>_. []) = (\<lambda>h. if h = (0::nat) then [7::nat] else [])"
    by (auto simp: lists_insert_last_def)
  then show ?thesis
    using rt_list_refines [OF represents_empty, where n = "7::nat" and h = "0::nat"]
    by (simp add: unlinked_def)
qed

end
