(* ===== verification/Kservice.thy ===== *)
theory Kservice
  imports Prelude
begin

text \<open>
  The kernel service library of \<open>src/kservice.c\<close>: memory and string routines and the
  find-first-set function of the scheduler. Memory is a map from addresses to bytes; a string
  that is only read is the sequence of bytes from its pointer on. The optimised routines (word
  copies, the lookup table) are proved equal to their specifications.
\<close>

type_synonym mem = "addr \<Rightarrow> u8"
type_synonym cstr = "nat \<Rightarrow> u8"

subsection \<open>Find first set\<close>

definition lowest_bit_bitmap :: "nat list" where
  "lowest_bit_bitmap =
   [0, 0, 1, 0, 2, 0, 1, 0, 3, 0, 1, 0, 2, 0, 1, 0,
    4, 0, 1, 0, 2, 0, 1, 0, 3, 0, 1, 0, 2, 0, 1, 0,
    5, 0, 1, 0, 2, 0, 1, 0, 3, 0, 1, 0, 2, 0, 1, 0,
    4, 0, 1, 0, 2, 0, 1, 0, 3, 0, 1, 0, 2, 0, 1, 0,
    6, 0, 1, 0, 2, 0, 1, 0, 3, 0, 1, 0, 2, 0, 1, 0,
    4, 0, 1, 0, 2, 0, 1, 0, 3, 0, 1, 0, 2, 0, 1, 0,
    5, 0, 1, 0, 2, 0, 1, 0, 3, 0, 1, 0, 2, 0, 1, 0,
    4, 0, 1, 0, 2, 0, 1, 0, 3, 0, 1, 0, 2, 0, 1, 0,
    7, 0, 1, 0, 2, 0, 1, 0, 3, 0, 1, 0, 2, 0, 1, 0,
    4, 0, 1, 0, 2, 0, 1, 0, 3, 0, 1, 0, 2, 0, 1, 0,
    5, 0, 1, 0, 2, 0, 1, 0, 3, 0, 1, 0, 2, 0, 1, 0,
    4, 0, 1, 0, 2, 0, 1, 0, 3, 0, 1, 0, 2, 0, 1, 0,
    6, 0, 1, 0, 2, 0, 1, 0, 3, 0, 1, 0, 2, 0, 1, 0,
    4, 0, 1, 0, 2, 0, 1, 0, 3, 0, 1, 0, 2, 0, 1, 0,
    5, 0, 1, 0, 2, 0, 1, 0, 3, 0, 1, 0, 2, 0, 1, 0,
    4, 0, 1, 0, 2, 0, 1, 0, 3, 0, 1, 0, 2, 0, 1, 0]"

definition rt_ffs :: "u32 \<Rightarrow> nat" where
  "rt_ffs value =
     (if value = 0 then 0
      else if value AND 0xff \<noteq> 0 then lowest_bit_bitmap ! unat (value AND 0xff) + 1
      else if value AND 0xff00 \<noteq> 0
        then lowest_bit_bitmap ! unat (drop_bit 8 (value AND 0xff00)) + 9
      else if value AND 0xff0000 \<noteq> 0
        then lowest_bit_bitmap ! unat (drop_bit 16 (value AND 0xff0000)) + 17
      else lowest_bit_bitmap ! unat (drop_bit 24 (value AND 0xff000000)) + 25)"

text \<open>The table holds, for every byte but zero, the position of its lowest bit.\<close>

definition is_lowest_bit :: "int \<Rightarrow> nat \<Rightarrow> bool" where
  "is_lowest_bit n b = (b < 8 \<and> 2 ^ b dvd n \<and> odd (n div 2 ^ b))"

fun table_ok :: "int \<Rightarrow> nat list \<Rightarrow> bool" where
  "table_ok n [] = True"
| "table_ok n (b # bs) = (is_lowest_bit n b \<and> table_ok (n + 1) bs)"

lemma table_ok_nth: "table_ok n bs \<Longrightarrow> i < length bs \<Longrightarrow> is_lowest_bit (n + int i) (bs ! i)"
proof (induction n bs arbitrary: i rule: table_ok.induct)
  case (2 n b bs)
  show ?case
  proof (cases i)
    case (Suc j)
    with 2 have "is_lowest_bit (n + 1 + int j) (bs ! j)" by simp
    then show ?thesis using Suc by (simp add: algebra_simps)
  qed (use 2 in simp)
qed simp

lemma bitmap_table_ok: "table_ok 1 (tl lowest_bit_bitmap)"
  by (simp add: lowest_bit_bitmap_def is_lowest_bit_def)

lemma bitmap_correct:
  assumes "0 < n" "n < 256"
  shows "is_lowest_bit (int n) (lowest_bit_bitmap ! n)"
proof -
  have l: "length lowest_bit_bitmap = 256" by (simp add: lowest_bit_bitmap_def)
  then have "n - 1 < length (tl lowest_bit_bitmap)" using assms by simp
  from table_ok_nth [OF bitmap_table_ok this]
  have "is_lowest_bit (int n) (tl lowest_bit_bitmap ! (n - 1))"
    using assms by (simp add: of_nat_diff)
  moreover have "tl lowest_bit_bitmap ! (n - 1) = lowest_bit_bitmap ! n"
    using assms l by (simp add: nth_tl)
  ultimately show ?thesis by simp
qed

lemma lowest_bit_bits:
  assumes "is_lowest_bit (int n) b"
  shows "bit n b" "\<And>j. j < b \<Longrightarrow> \<not> bit n j"
proof -
  have "bit (int n) b" using assms by (simp add: is_lowest_bit_def bit_iff_odd)
  then show "bit n b" by (simp add: bit_of_nat_iff)
  fix j assume "j < b"
  moreover obtain c where "int n = 2 ^ b * c" using assms by (auto simp: is_lowest_bit_def dvd_def)
  then have "int n = push_bit b c" by (simp add: push_bit_eq_mult mult.commute)
  ultimately have "\<not> bit (int n) j" by (simp add: bit_simps)
  then show "\<not> bit n j" by (simp add: bit_of_nat_iff)
qed

lemma ff_mask: "(0xff :: u32) = mask 8"
  by (simp add: mask_eq_exp_minus_1)

lemma byte_of_word:
  "j < 8 \<Longrightarrow> i \<le> 24 \<Longrightarrow>
    bit (unat (drop_bit i (w AND push_bit i (mask 8)))) j = bit (w::u32) (i + j)"
  by (auto simp: bit_unsigned_iff bit_simps)

text \<open>The byte at bit position \<open>i\<close> is not zero and holds the lowest bit that is set.\<close>

lemma ffs_byte:
  assumes "i \<le> 24" and nz: "(w::u32) AND push_bit i (mask 8) \<noteq> 0"
    and low: "\<And>j. j < i \<Longrightarrow> \<not> bit w j"
  defines "b \<equiv> lowest_bit_bitmap ! unat (drop_bit i (w AND push_bit i (mask 8)))"
  shows "bit w (i + b) \<and> (\<forall>j < i + b. \<not> bit w j) \<and> b < 8"
proof -
  let ?n = "unat (drop_bit i (w AND push_bit i (mask 8)))"
  have "?n < 256"
  proof -
    have "drop_bit i (w AND push_bit i (mask 8)) = take_bit 8 (drop_bit i w)"
      using assms(1) by (intro bit_word_eqI) (auto simp: bit_simps)
    then show ?thesis
      using take_bit_nat_less_exp [of 8 "unat (drop_bit i w)"] by (simp add: unsigned_take_bit_eq)
  qed
  moreover have "?n \<noteq> 0"
  proof
    assume "?n = 0"
    then have "\<not> bit w (i + j)" if "j < 8" for j
      using byte_of_word [OF that assms(1), of w] by simp
    then have "\<not> bit w n" if "i \<le> n" "n - i < 8" for n
      using that by (metis le_add_diff_inverse)
    then have "w AND push_bit i (mask 8) = 0"
      using assms(1) by (intro bit_word_eqI) (auto simp: bit_simps)
    with nz show False by simp
  qed
  ultimately have l: "is_lowest_bit (int ?n) b" unfolding b_def by (intro bitmap_correct) auto
  then have b8: "b < 8" by (simp add: is_lowest_bit_def)
  have "bit w (i + b)" using lowest_bit_bits(1) [OF l] byte_of_word [OF b8 assms(1)] by simp
  moreover have "\<not> bit w j" if "j < i + b" for j
  proof (cases "j < i")
    case False
    with that have "j - i < b" "j - i < 8" "i + (j - i) = j" using b8 by auto
    then show ?thesis using lowest_bit_bits(2) [OF l] byte_of_word [OF _ assms(1)] by metis
  qed (rule low)
  ultimately show ?thesis using b8 by blast
qed

theorem rt_ffs_lowest:
  assumes "w \<noteq> 0"
  shows "0 < rt_ffs w \<and> rt_ffs w \<le> 32 \<and> bit w (rt_ffs w - 1) \<and> (\<forall>j < rt_ffs w - 1. \<not> bit w j)"
proof -
  have m: "(0xff00 :: u32) = push_bit 8 (mask 8)" "(0xff0000 :: u32) = push_bit 16 (mask 8)"
    "(0xff000000 :: u32) = push_bit 24 (mask 8)" "(0xff :: u32) = push_bit 0 (mask 8)"
    by (simp_all add: mask_eq_exp_minus_1 push_bit_eq_mult)
  have low: "\<not> bit w (i + j)" if "w AND push_bit i (mask 8) = 0" "j < 8" "i \<le> 24" for i j
    using byte_of_word [OF that(2,3), of w] that(1) by simp
  show ?thesis
  proof (cases "w AND push_bit 0 (mask 8) = 0")
    case False
    then show ?thesis using ffs_byte [of 0 w] assms
      by (simp add: rt_ffs_def m(4) del: push_bit_of_0)
  next
    case z0: True
    then have l8: "\<not> bit w j" if "j < 8" for j using low [of 0 j] that by simp
    show ?thesis
    proof (cases "w AND push_bit 8 (mask 8) = 0")
      case False
      then show ?thesis using ffs_byte [of 8 w] l8 assms z0 unfolding rt_ffs_def m by force
    next
      case z1: True
      then have l16: "\<not> bit w j" if "j < 16" for j
        using low [of 8 "j - 8"] l8 [of j] that by (cases "j < 8") auto
      show ?thesis
      proof (cases "w AND push_bit 16 (mask 8) = 0")
        case False
        then show ?thesis using ffs_byte [of 16 w] l16 assms z0 z1 unfolding rt_ffs_def m by force
      next
        case z2: True
        then have l24: "\<not> bit w j" if "j < 24" for j
          using low [of 16 "j - 16"] l16 [of j] that by (cases "j < 16") auto
        have "w AND push_bit 24 (mask 8) \<noteq> 0"
        proof
          assume "w AND push_bit 24 (mask 8) = 0"
          then have "\<not> bit w j" if "j < 32" for j
            using low [of 24 "j - 24"] l24 [of j] that by (cases "j < 24") auto
          then have "w = 0" by (intro bit_word_eqI) auto
          with assms show False by simp
        qed
        then show ?thesis using ffs_byte [of 24 w] l24 assms z0 z1 z2 unfolding rt_ffs_def m by force
      qed
    qed
  qed
qed

subsection \<open>Memory routines\<close>

text \<open>\<open>while (count--) *m++ = d;\<close>\<close>

fun fill_bytes :: "nat \<Rightarrow> addr \<Rightarrow> u8 \<Rightarrow> mem \<Rightarrow> mem" where
  "fill_bytes 0 p d m = m"
| "fill_bytes (Suc n) p d m = fill_bytes n (p + 1) d (m(p := d))"

text \<open>A 32 bit store of the replicated byte: \<open>*aligned_addr++ = buffer\<close>.\<close>

definition store_word :: "addr \<Rightarrow> u32 \<Rightarrow> mem \<Rightarrow> mem" where
  "store_word p b m =
     m(p := ucast b, p + 1 := ucast (drop_bit 8 b), p + 2 := ucast (drop_bit 16 b),
       p + 3 := ucast (drop_bit 24 b))"

text \<open>The two loops over words: four words at a time, then one.\<close>

fun fill_words4 :: "nat \<Rightarrow> addr \<Rightarrow> u32 \<Rightarrow> mem \<Rightarrow> nat \<times> addr \<times> mem" where
  "fill_words4 n p b m =
     (if n < 16 then (n, p, m)
      else fill_words4 (n - 16) (p + 16) b
        (store_word (p + 12) b (store_word (p + 8) b (store_word (p + 4) b (store_word p b m)))))"

fun fill_words :: "nat \<Rightarrow> addr \<Rightarrow> u32 \<Rightarrow> mem \<Rightarrow> nat \<times> addr \<times> mem" where
  "fill_words n p b m =
     (if n < 4 then (n, p, m) else fill_words (n - 4) (p + 4) b (store_word p b m))"

declare fill_words4.simps [simp del] fill_words.simps [simp del]

definition rt_memset :: "addr \<Rightarrow> u32 \<Rightarrow> u32 \<Rightarrow> mem \<Rightarrow> mem" where
  "rt_memset s c count m =
     (let d = c AND 0xff;
          (n, p, m) =
            (if \<not> count < 4 \<and> s AND 3 = 0 then
               (let b = push_bit 8 d OR d; b = b OR push_bit 16 b;
                    (n, p, m) = fill_words4 (unat count) s b m
                in fill_words n p b m)
             else (unat count, s, m))
      in fill_bytes n p (ucast d) m)"

text \<open>\<open>while (len--) *dst_ptr++ = *src_ptr++;\<close>\<close>

fun copy_bytes :: "nat \<Rightarrow> addr \<Rightarrow> addr \<Rightarrow> mem \<Rightarrow> mem" where
  "copy_bytes 0 d s m = m"
| "copy_bytes (Suc n) d s m = copy_bytes n (d + 1) (s + 1) (m(d := m s))"

text \<open>A 32 bit load and store: \<open>*aligned_dst++ = *aligned_src++\<close>.\<close>

definition copy_word :: "addr \<Rightarrow> addr \<Rightarrow> mem \<Rightarrow> mem" where
  "copy_word d s m =
     m(d := m s, d + 1 := m (s + 1), d + 2 := m (s + 2), d + 3 := m (s + 3))"

fun copy_words4 :: "nat \<Rightarrow> addr \<Rightarrow> addr \<Rightarrow> mem \<Rightarrow> nat \<times> addr \<times> addr \<times> mem" where
  "copy_words4 n d s m =
     (if n < 16 then (n, d, s, m)
      else copy_words4 (n - 16) (d + 16) (s + 16)
        (copy_word (d + 12) (s + 12) (copy_word (d + 8) (s + 8)
          (copy_word (d + 4) (s + 4) (copy_word d s m)))))"

fun copy_words :: "nat \<Rightarrow> addr \<Rightarrow> addr \<Rightarrow> mem \<Rightarrow> nat \<times> addr \<times> addr \<times> mem" where
  "copy_words n d s m =
     (if n < 4 then (n, d, s, m) else copy_words (n - 4) (d + 4) (s + 4) (copy_word d s m))"

declare copy_words4.simps [simp del] copy_words.simps [simp del]

definition rt_memcpy :: "addr \<Rightarrow> addr \<Rightarrow> u32 \<Rightarrow> mem \<Rightarrow> mem" where
  "rt_memcpy dst src count m =
     (let (n, d, s, m) =
        (if \<not> count < 16 \<and> (src AND 3) OR (dst AND 3) = 0 then
           (let (n, d, s, m) = copy_words4 (unat count) dst src m in copy_words n d s m)
         else (unat count, dst, src, m))
      in copy_bytes n d s m)"

text \<open>\<open>while (n--) *(--tmp) = *(--s);\<close>\<close>

fun copy_bytes_down :: "nat \<Rightarrow> addr \<Rightarrow> addr \<Rightarrow> mem \<Rightarrow> mem" where
  "copy_bytes_down 0 d s m = m"
| "copy_bytes_down (Suc n) d s m = copy_bytes_down n (d - 1) (s - 1) (m(d - 1 := m (s - 1)))"

definition rt_memmove :: "addr \<Rightarrow> addr \<Rightarrow> u32 \<Rightarrow> mem \<Rightarrow> mem" where
  "rt_memmove dest src n m =
     (if src < dest \<and> dest < src + n
      then copy_bytes_down (unat n) (dest + n) (src + n) m
      else copy_bytes (unat n) dest src m)"

fun rt_memcmp :: "cstr \<Rightarrow> cstr \<Rightarrow> nat \<Rightarrow> int" where
  "rt_memcmp cs ct 0 = 0"
| "rt_memcmp cs ct (Suc n) =
     (let res = uint (cs 0) - uint (ct 0)
      in if res \<noteq> 0 then res else rt_memcmp (\<lambda>i. cs (Suc i)) (\<lambda>i. ct (Suc i)) n)"

subsection \<open>String routines\<close>

text \<open>The bytes from a string literal on; what lies behind its end is not read.\<close>

definition cstr_of :: "string \<Rightarrow> cstr" where
  "cstr_of s i = (if i < length s then of_char (s ! i) else 0)"

text \<open>The bytes that \<open>rt_strncpy\<close> stores at \<open>dst\<close>.\<close>

fun rt_strncpy :: "cstr \<Rightarrow> nat \<Rightarrow> u8 list" where
  "rt_strncpy src 0 = []"
| "rt_strncpy src (Suc n) =
     (if src 0 = 0 then 0 # replicate n 0
      else src 0 # rt_strncpy (\<lambda>i. src (Suc i)) n)"

fun rt_strncmp :: "cstr \<Rightarrow> cstr \<Rightarrow> nat \<Rightarrow> int" where
  "rt_strncmp cs ct 0 = 0"
| "rt_strncmp cs ct (Suc n) =
     (let res = cs 0 - ct 0
      in if res \<noteq> 0 \<or> cs 0 = 0 then sint res
         else rt_strncmp (\<lambda>i. cs (Suc i)) (\<lambda>i. ct (Suc i)) n)"

text \<open>The loops without a bound run until they meet the terminating zero; a string without one
  is never left.\<close>

partial_function (option) rt_strcmp :: "cstr \<Rightarrow> cstr \<Rightarrow> int option" where
  "rt_strcmp cs ct =
     (if cs 0 \<noteq> 0 \<and> cs 0 = ct 0 then rt_strcmp (\<lambda>i. cs (Suc i)) (\<lambda>i. ct (Suc i))
      else Some (uint (cs 0) - uint (ct 0)))"

partial_function (option) strlen_from :: "cstr \<Rightarrow> nat \<Rightarrow> nat option" where
  "strlen_from s i = (if s i = 0 then Some i else strlen_from s (Suc i))"

definition rt_strlen :: "cstr \<Rightarrow> nat option" where
  "rt_strlen s = strlen_from s 0"

text \<open>\<open>rt_strstr\<close> returns the offset of the first occurrence, or \<open>None\<close> for \<open>RT_NULL\<close>.\<close>

function strstr_loop :: "cstr \<Rightarrow> cstr \<Rightarrow> nat \<Rightarrow> nat \<Rightarrow> nat \<Rightarrow> nat option" where
  "strstr_loop s1 s2 l1 l2 off =
     (if 0 < l2 \<and> l2 \<le> l1 then
        (if rt_memcmp (\<lambda>i. s1 (off + i)) s2 l2 = 0 then Some off
         else strstr_loop s1 s2 (l1 - 1) l2 (off + 1))
      else None)"
  by pat_completeness auto
termination
  by (relation "measure (\<lambda>(s1, s2, l1, l2, off). l1)") auto

declare strstr_loop.simps [simp del]

definition rt_strstr :: "cstr \<Rightarrow> cstr \<Rightarrow> nat option option" where
  "rt_strstr s1 s2 = do {
     l2 \<leftarrow> rt_strlen s2;
     (if l2 = 0 then Some (Some 0)
      else do {
        l1 \<leftarrow> rt_strlen s1;
        Some (strstr_loop s1 s2 l1 l2 0)
      })
   }"

definition to_lower :: "u8 \<Rightarrow> u8" where
  "to_lower c = (if 65 \<le> c \<and> c \<le> 90 then c + (97 - 65) else c)"

partial_function (option) rt_strcasecmp :: "cstr \<Rightarrow> cstr \<Rightarrow> u32 option" where
  "rt_strcasecmp a b =
     (let ca = to_lower (a 0); cb = to_lower (b 0)
      in if ca = cb \<and> ca \<noteq> 0 then rt_strcasecmp (\<lambda>i. a (Suc i)) (\<lambda>i. b (Suc i))
         else Some (ucast ca - ucast cb))"

subsection \<open>Copies and fills\<close>

text \<open>What a copy of \<open>n\<close> bytes means, all bytes read before any is written; and a fill.\<close>

definition blit :: "addr \<Rightarrow> addr \<Rightarrow> nat \<Rightarrow> mem \<Rightarrow> mem" where
  "blit d s n m = (\<lambda>a. if unat (a - d) < n then m (s + (a - d)) else m a)"

definition fill :: "addr \<Rightarrow> u8 \<Rightarrow> nat \<Rightarrow> mem \<Rightarrow> mem" where
  "fill p v n m = (\<lambda>a. if unat (a - p) < n then v else m a)"

text \<open>No byte is overwritten before it is read, copying upwards or downwards.\<close>

definition up_safe :: "addr \<Rightarrow> addr \<Rightarrow> nat \<Rightarrow> bool" where
  "up_safe d s n = (\<forall>i j. i < j \<longrightarrow> j < n \<longrightarrow> d + of_nat i \<noteq> s + of_nat j)"

definition down_safe :: "addr \<Rightarrow> addr \<Rightarrow> nat \<Rightarrow> bool" where
  "down_safe d s n = (\<forall>i j. j < i \<longrightarrow> i < n \<longrightarrow> d + of_nat i \<noteq> s + of_nat j)"

lemma unat_diff_of_nat:
  assumes "n < 2 ^ 32"
  shows "unat ((a::addr) - of_nat n) = (if n \<le> unat a then unat a - n else unat a + 2 ^ 32 - n)"
proof -
  have "unat (of_nat n :: addr) = n" using assms by (simp add: unat_of_nat)
  then show ?thesis by (simp add: unat_sub_if_size word_size)
qed

lemma unat_diff_0: "unat ((a::addr) - d) = 0 \<longleftrightarrow> a = d"
  by (metis right_minus_eq unat_eq_zero)

lemma blit_0 [simp]: "blit d s 0 m = m"
  by (simp add: blit_def)

lemma fill_0 [simp]: "fill p v 0 m = m"
  by (simp add: fill_def)

lemma blit_blit:
  assumes "k + n \<le> 2 ^ 32" and safe: "up_safe d s (k + n)"
  shows "blit (d + of_nat k) (s + of_nat k) n (blit d s k m) = blit d s (k + n) m"
proof (cases "n = 0")
  case False
  then have k: "k < 2 ^ 32" using assms(1) by linarith
  show ?thesis
  proof
    fix a
    let ?o = "unat (a - d)"
    have o32: "?o < 2 ^ 32" using unsigned_less [of "a - d", where ?'a = nat] by simp
    have diff: "unat (a - (d + of_nat k)) = (if k \<le> ?o then ?o - k else ?o + 2 ^ 32 - k)"
      using unat_diff_of_nat [OF k, of "a - d"] by (simp add: algebra_simps)
    have src: "s + of_nat k + (a - (d + of_nat k)) = s + (a - d)" by simp
    show "blit (d + of_nat k) (s + of_nat k) n (blit d s k m) a = blit d s (k + n) m a"
    proof (cases "k \<le> ?o \<and> ?o < k + n")
      case True
      have "\<not> unat (s + (a - d) - d) < k"
      proof
        assume lt: "unat (s + (a - d) - d) < k"
        have "d + of_nat (unat (s + (a - d) - d)) = s + of_nat ?o" by simp
        moreover have "unat (s + (a - d) - d) < ?o" using lt True by linarith
        ultimately show False using safe True unfolding up_safe_def by blast
      qed
      then show ?thesis using True diff src by (auto simp: blit_def)
    next
      case False
      then have "\<not> unat (a - (d + of_nat k)) < n" using diff assms(1) by (auto split: if_splits)
      then show ?thesis using False by (auto simp: blit_def)
    qed
  qed
qed simp

lemma up_safe_mono: "up_safe d s n \<Longrightarrow> k \<le> n \<Longrightarrow> up_safe d s k"
  by (auto simp: up_safe_def)

lemma up_safe_shift: "up_safe d s (k + n) \<Longrightarrow> up_safe (d + of_nat k) (s + of_nat k) n"
  unfolding up_safe_def
proof (intro allI impI)
  fix i j assume "\<forall>i j. i < j \<longrightarrow> j < k + n \<longrightarrow> d + of_nat i \<noteq> s + of_nat j" "i < j" "j < n"
  then have "d + of_nat (k + i) \<noteq> s + of_nat (k + j)" by (metis nat_add_left_cancel_less)
  then show "d + of_nat k + of_nat i \<noteq> s + of_nat k + of_nat j" by (simp add: add.assoc)
qed

lemma fill_fill:
  assumes "k + n \<le> 2 ^ 32"
  shows "fill (p + of_nat k) v n (fill p v k m) = fill p v (k + n) m"
proof (cases "n = 0")
  case False
  then have k: "k < 2 ^ 32" using assms(1) by linarith
  show ?thesis
  proof
    fix a
    have "unat (a - (p + of_nat k)) =
        (if k \<le> unat (a - p) then unat (a - p) - k else unat (a - p) + 2 ^ 32 - k)"
      using unat_diff_of_nat [OF k, of "a - p"] by (simp add: algebra_simps)
    then show "fill (p + of_nat k) v n (fill p v k m) a = fill p v (k + n) m a"
      using assms by (auto simp: fill_def)
  qed
qed simp

lemma blit_1: "m(d := m s) = blit d s 1 m"
  by (auto simp: blit_def fun_eq_iff unat_diff_0)

lemma fill_1: "m(p := v) = fill p v 1 m"
  by (auto simp: fill_def fun_eq_iff unat_diff_0)

lemma copy_bytes_blit:
  "n \<le> 2 ^ 32 \<Longrightarrow> up_safe d s n \<Longrightarrow> copy_bytes n d s m = blit d s n m"
proof (induction n arbitrary: d s m)
  case (Suc n)
  have "copy_bytes (Suc n) d s m = blit (d + of_nat 1) (s + of_nat 1) n (blit d s 1 m)"
    using Suc.prems Suc.IH [of "d + 1" "s + 1"] up_safe_shift [of d s 1 n]
    by (simp add: blit_1)
  also have "\<dots> = blit d s (1 + n) m"
    by (rule blit_blit) (use Suc.prems in auto)
  finally show ?case by simp
qed simp

lemma fill_bytes_fill: "n \<le> 2 ^ 32 \<Longrightarrow> fill_bytes n p v m = fill p v n m"
proof (induction n arbitrary: p m)
  case (Suc n)
  have "fill_bytes (Suc n) p v m = fill (p + of_nat 1) v n (fill p v 1 m)"
    using Suc.prems Suc.IH [of "p + 1"] by (simp add: fill_1)
  also have "\<dots> = fill p v (1 + n) m"
    by (rule fill_fill) (use Suc.prems in auto)
  finally show ?case by simp
qed simp

lemma up_safe_of_nat:
  assumes "unat d + n \<le> 2 ^ 32" "unat s + n \<le> 2 ^ 32" "\<not> (s < d \<and> unat d < unat s + n)"
  shows "up_safe d s n"
  unfolding up_safe_def
proof (intro allI impI notI)
  fix i j assume ij: "i < j" "j < n" and eq: "d + of_nat i = s + of_nat j"
  have "unat (d + of_nat i) = unat d + i" "unat (s + of_nat j) = unat s + j"
    using assms ij by (simp_all add: unat_word_ariths unat_of_nat)
  with eq ij assms(3) show False by (auto simp: word_less_nat_alt)
qed

lemma copy_bytes_down_blit:
  "n \<le> 2 ^ 32 \<Longrightarrow> down_safe d s n \<Longrightarrow>
    copy_bytes_down n (d + of_nat n) (s + of_nat n) m = blit d s n m"
proof (induction n arbitrary: m)
  case (Suc n)
  have "copy_bytes_down (Suc n) (d + of_nat (Suc n)) (s + of_nat (Suc n)) m
      = blit d s n (m(d + of_nat n := m (s + of_nat n)))"
    using Suc.prems Suc.IH by (simp add: algebra_simps down_safe_def)
  also have "\<dots> = blit d s (Suc n) m"
  proof
    fix a
    have n32: "unat (of_nat n :: addr) = n" using Suc.prems by (simp add: unat_of_nat)
    have eq: "a = d + of_nat n \<longleftrightarrow> unat (a - d) = n"
    proof
      assume "unat (a - d) = n"
      then have "of_nat n = a - d" by (metis of_nat_unat ucast_id)
      then show "a = d + of_nat n" by simp
    qed (use n32 in simp)
    show "blit d s n (m(d + of_nat n := m (s + of_nat n))) a = blit d s (Suc n) m a"
    proof (cases "unat (a - d) < n")
      case True
      then have "d + of_nat n \<noteq> s + of_nat (unat (a - d))"
        using Suc.prems(2) unfolding down_safe_def by blast
      then show ?thesis using True by (auto simp: blit_def)
    next
      case False
      then show ?thesis using eq by (auto simp: blit_def)
    qed
  qed
  finally show ?case .
qed simp

text \<open>A word store is four byte stores; the words hold the byte four times.\<close>

lemma store_word_fill:
  assumes "ucast b = v" "ucast (drop_bit 8 b) = v" "ucast (drop_bit 16 b) = v"
    "ucast (drop_bit 24 b) = v"
  shows "store_word p b m = fill p v 4 m"
proof -
  have "store_word p b m = fill_bytes 4 p v m"
    using assms by (simp add: store_word_def eval_nat_numeral add.commute)
  then show ?thesis by (simp add: fill_bytes_fill)
qed

lemma copy_word_blit:
  assumes "up_safe d s 4"
  shows "copy_word d s m = blit d s 4 m"
proof -
  have ne: "d + of_nat i \<noteq> s + of_nat j" if "i < j" "j < 4" for i j
    using assms that unfolding up_safe_def by blast
  have "copy_word d s m = copy_bytes 4 d s m"
    using ne [of 0 1] ne [of 0 2] ne [of 0 3] ne [of 1 2] ne [of 1 3] ne [of 2 3]
    by (simp add: copy_word_def eval_nat_numeral add.commute)
  then show ?thesis using assms by (simp add: copy_bytes_blit)
qed

text \<open>
  What the word loops leave of \<open>n\<close> bytes, \<open>n'\<close>, and that the bytes before are done.
\<close>

definition filled :: "nat \<Rightarrow> addr \<Rightarrow> u8 \<Rightarrow> mem \<Rightarrow> nat \<times> addr \<times> mem \<Rightarrow> bool" where
  "filled n p v m r =
     (case r of (n', p', m') \<Rightarrow>
        n' \<le> n \<and> p' = p + of_nat (n - n') \<and> m' = fill p v (n - n') m)"

definition copied ::
  "nat \<Rightarrow> addr \<Rightarrow> addr \<Rightarrow> mem \<Rightarrow> nat \<times> addr \<times> addr \<times> mem \<Rightarrow> bool" where
  "copied n d s m r =
     (case r of (n', d', s', m') \<Rightarrow>
        n' \<le> n \<and> d' = d + of_nat (n - n') \<and> s' = s + of_nat (n - n') \<and>
        m' = blit d s (n - n') m)"

lemma filled_0: "filled n p v m (n, p, m)"
  by (simp add: filled_def)

lemma copied_0: "copied n d s m (n, d, s, m)"
  by (simp add: copied_def)

lemma filled_step:
  assumes "filled (n - k) (p + of_nat k) v (fill p v k m) r" "k \<le> n" "n \<le> 2 ^ 32"
  shows "filled n p v m r"
proof -
  obtain n' p' m' where r: "r = (n', p', m')" by (cases r)
  have "fill (p + of_nat k) v (n - k - n') (fill p v k m) = fill p v (k + (n - k - n')) m"
    by (rule fill_fill) (use assms in linarith)
  moreover have "n' \<le> n - k" "k + (n - k - n') = n - n'" "p' = p + of_nat k + of_nat (n - k - n')"
    using assms r by (auto simp: filled_def)
  moreover from this have "p' = p + of_nat (n - n')" by (metis add.assoc of_nat_add)
  ultimately show ?thesis using assms r by (simp add: filled_def)
qed

lemma copied_step:
  assumes "copied (n - k) (d + of_nat k) (s + of_nat k) (blit d s k m) r"
    and "k \<le> n" "n \<le> 2 ^ 32" "up_safe d s n"
  shows "copied n d s m r"
proof -
  obtain n' d' s' m' where r: "r = (n', d', s', m')" by (cases r)
  have "blit (d + of_nat k) (s + of_nat k) (n - k - n') (blit d s k m)
      = blit d s (k + (n - k - n')) m"
    by (rule blit_blit) (use assms up_safe_mono [of d s n] in auto)
  moreover have "n' \<le> n - k" "k + (n - k - n') = n - n'" "d' = d + of_nat k + of_nat (n - k - n')"
    "s' = s + of_nat k + of_nat (n - k - n')"
    using assms r by (auto simp: copied_def)
  moreover from this have "d' = d + of_nat (n - n')" "s' = s + of_nat (n - n')"
    by (metis add.assoc of_nat_add)+
  ultimately show ?thesis using assms r by (simp add: copied_def)
qed

lemma up_safe_at:
  "up_safe d s n \<Longrightarrow> k \<le> n \<Longrightarrow> up_safe (d + of_nat k) (s + of_nat k) (n - k)"
  using up_safe_shift [of d s k "n - k"] by simp

lemma blit_words:
  assumes "up_safe d s n" "k + 4 \<le> n" "n \<le> 2 ^ 32"
  shows "copy_word (d + of_nat k) (s + of_nat k) (blit d s k m) = blit d s (k + 4) m"
proof -
  have "up_safe (d + of_nat k) (s + of_nat k) 4"
    using assms up_safe_at [of d s n k] up_safe_mono [of _ _ "n - k" 4] by simp
  then show ?thesis
    using blit_blit [of k 4 d s m] assms up_safe_mono [of d s n "k + 4"]
    by (simp add: copy_word_blit)
qed

lemma fill_words_filled:
  assumes w: "\<And>p m. store_word p b m = fill p v 4 m"
  shows "n \<le> 2 ^ 32 \<Longrightarrow> filled n p v m (fill_words n p b m)"
proof (induction n arbitrary: p m rule: less_induct)
  case (less n)
  show ?case
  proof (cases "n < 4")
    case False
    then have "fill_words n p b m = fill_words (n - 4) (p + of_nat 4) b (fill p v 4 m)"
      by (subst fill_words.simps) (simp add: w)
    moreover have "filled (n - 4) (p + of_nat 4) v (fill p v 4 m)
        (fill_words (n - 4) (p + of_nat 4) b (fill p v 4 m))"
      by (rule less.IH) (use False less.prems in linarith)+
    ultimately have "filled (n - 4) (p + of_nat 4) v (fill p v 4 m) (fill_words n p b m)"
      by (simp only:)
    then show ?thesis by (rule filled_step) (use False less.prems in auto)
  qed (simp add: fill_words.simps filled_0)
qed

lemma fill_words4_filled:
  assumes w: "\<And>p m. store_word p b m = fill p v 4 m"
  shows "n \<le> 2 ^ 32 \<Longrightarrow> filled n p v m (fill_words4 n p b m)"
proof (induction n arbitrary: p m rule: less_induct)
  case (less n)
  show ?case
  proof (cases "n < 16")
    case False
    have "fill (p + 4) v 4 (fill p v 4 m) = fill p v 8 m"
      "fill (p + 8) v 4 (fill p v 8 m) = fill p v 12 m"
      "fill (p + 12) v 4 (fill p v 12 m) = fill p v 16 m"
      using fill_fill [of 4 4 p v m] fill_fill [of 8 4 p v m] fill_fill [of 12 4 p v m] by simp_all
    then have "fill_words4 n p b m = fill_words4 (n - 16) (p + of_nat 16) b (fill p v 16 m)"
      using False by (subst fill_words4.simps) (simp add: w)
    moreover have "filled (n - 16) (p + of_nat 16) v (fill p v 16 m)
        (fill_words4 (n - 16) (p + of_nat 16) b (fill p v 16 m))"
      by (rule less.IH) (use False less.prems in linarith)+
    ultimately have "filled (n - 16) (p + of_nat 16) v (fill p v 16 m) (fill_words4 n p b m)"
      by (simp only:)
    then show ?thesis by (rule filled_step) (use False less.prems in auto)
  qed (simp add: fill_words4.simps filled_0)
qed

lemma copy_words_copied:
  "n \<le> 2 ^ 32 \<Longrightarrow> up_safe d s n \<Longrightarrow> copied n d s m (copy_words n d s m)"
proof (induction n arbitrary: d s m rule: less_induct)
  case (less n)
  show ?case
  proof (cases "n < 4")
    case False
    have "copy_word d s m = blit d s 4 m"
      using blit_words [of d s n 0 m] less.prems False by simp
    then have "copy_words n d s m =
        copy_words (n - 4) (d + of_nat 4) (s + of_nat 4) (blit d s 4 m)"
      using False by (subst copy_words.simps) simp
    moreover have "copied (n - 4) (d + of_nat 4) (s + of_nat 4) (blit d s 4 m)
        (copy_words (n - 4) (d + of_nat 4) (s + of_nat 4) (blit d s 4 m))"
      by (rule less.IH) (use False less.prems up_safe_at [of d s n 4] in auto)
    ultimately have
      "copied (n - 4) (d + of_nat 4) (s + of_nat 4) (blit d s 4 m) (copy_words n d s m)"
      by (simp only:)
    then show ?thesis by (rule copied_step) (use False less.prems in auto)
  qed (simp add: copy_words.simps copied_0)
qed

lemma copy_words4_copied:
  "n \<le> 2 ^ 32 \<Longrightarrow> up_safe d s n \<Longrightarrow> copied n d s m (copy_words4 n d s m)"
proof (induction n arbitrary: d s m rule: less_induct)
  case (less n)
  show ?case
  proof (cases "n < 16")
    case False
    have "copy_word d s m = blit d s 4 m"
      "copy_word (d + 4) (s + 4) (blit d s 4 m) = blit d s 8 m"
      "copy_word (d + 8) (s + 8) (blit d s 8 m) = blit d s 12 m"
      "copy_word (d + 12) (s + 12) (blit d s 12 m) = blit d s 16 m"
      using blit_words [of d s n 0 m] blit_words [of d s n 4 m] blit_words [of d s n 8 m]
        blit_words [of d s n 12 m] less.prems False by simp_all
    then have "copy_words4 n d s m =
        copy_words4 (n - 16) (d + of_nat 16) (s + of_nat 16) (blit d s 16 m)"
      using False by (subst copy_words4.simps) simp
    moreover have "copied (n - 16) (d + of_nat 16) (s + of_nat 16) (blit d s 16 m)
        (copy_words4 (n - 16) (d + of_nat 16) (s + of_nat 16) (blit d s 16 m))"
      by (rule less.IH) (use False less.prems up_safe_at [of d s n 16] in auto)
    ultimately have
      "copied (n - 16) (d + of_nat 16) (s + of_nat 16) (blit d s 16 m) (copy_words4 n d s m)"
      by (simp only:)
    then show ?thesis by (rule copied_step) (use False less.prems in auto)
  qed (simp add: copy_words4.simps copied_0)
qed

lemma fill_rest:
  assumes "filled n p v m (n', p', m')" "n \<le> 2 ^ 32"
  shows "fill_bytes n' p' v m' = fill p v n m"
  using assms fill_fill [of "n - n'" n' p v m] by (simp add: filled_def fill_bytes_fill)

lemma filled_trans:
  assumes "filled n p v m (n', p', m')" "filled n' p' v m' r" "n \<le> 2 ^ 32"
  shows "filled n p v m r"
  using assms filled_step [of n "n - n'" p v m r] by (simp add: filled_def)

lemma copied_rest:
  assumes "copied n d s m (n', d', s', m')" "n \<le> 2 ^ 32" "up_safe d s n"
  shows "copy_bytes n' d' s' m' = blit d s n m"
  using assms blit_blit [of "n - n'" n' d s m] up_safe_at [of d s n "n - n'"]
  by (simp add: copied_def copy_bytes_blit)

lemma copied_trans:
  assumes "copied n d s m (n', d', s', m')" "copied n' d' s' m' r" "n \<le> 2 ^ 32" "up_safe d s n"
  shows "copied n d s m r"
  using assms copied_step [of n "n - n'" d s m r] by (simp add: copied_def)

lemma word_of_bytes:
  fixes c :: u32
  defines "b \<equiv> push_bit 8 (c AND 0xff) OR (c AND 0xff)"
  defines "w \<equiv> b OR push_bit 16 b"
  shows "(ucast w :: u8) = ucast (c AND 0xff)" "(ucast (drop_bit 8 w) :: u8) = ucast (c AND 0xff)"
    "(ucast (drop_bit 16 w) :: u8) = ucast (c AND 0xff)"
    "(ucast (drop_bit 24 w) :: u8) = ucast (c AND 0xff)"
  unfolding w_def b_def ff_mask
  by (rule bit_word_eqI; auto simp: bit_simps)+

lemma unat_le_32: "unat (x::u32) \<le> 2 ^ 32"
  using unsigned_less [of x, where ?'a = nat] by simp

theorem rt_memset_fill: "rt_memset s c count m = fill s (ucast c) (unat count) m"
proof -
  let ?b = "push_bit 8 (c AND 0xff) OR (c AND 0xff)"
  let ?w = "?b OR push_bit 16 ?b"
  have u: "(ucast (c AND 0xff) :: u8) = ucast c"
    unfolding ff_mask by (rule bit_word_eqI) (auto simp: bit_simps)
  have st: "store_word p ?w m = fill p (ucast c) 4 m" for p m
    using word_of_bytes [of c] u by (intro store_word_fill) auto
  obtain n1 p1 m1 where r1: "fill_words4 (unat count) s ?w m = (n1, p1, m1)"
    by (metis prod_cases3)
  obtain n2 p2 m2 where r2: "fill_words n1 p1 ?w m1 = (n2, p2, m2)" by (metis prod_cases3)
  have f1: "filled (unat count) s (ucast c) m (n1, p1, m1)"
    using fill_words4_filled [OF st unat_le_32] r1 by metis
  then have "n1 \<le> 2 ^ 32" using unat_le_32 [of count] by (simp add: filled_def)
  then have "filled n1 p1 (ucast c) m1 (n2, p2, m2)" using fill_words_filled [OF st] r2 by metis
  then have "filled (unat count) s (ucast c) m (n2, p2, m2)"
    using f1 filled_trans unat_le_32 by blast
  then have "fill_bytes n2 p2 (ucast c) m2 = fill s (ucast c) (unat count) m"
    by (rule fill_rest) (rule unat_le_32)
  moreover have "fill_bytes (unat count) s (ucast c) m = fill s (ucast c) (unat count) m"
    by (rule fill_bytes_fill) (rule unat_le_32)
  ultimately show ?thesis
    unfolding rt_memset_def Let_def by (simp only: r1 r2 u prod.case split: if_split) blast
qed

theorem rt_memcpy_blit:
  assumes "up_safe dst src (unat count)"
  shows "rt_memcpy dst src count m = blit dst src (unat count) m"
proof -
  obtain n1 d1 s1 m1 where r1: "copy_words4 (unat count) dst src m = (n1, d1, s1, m1)"
    by (metis prod_cases4)
  obtain n2 d2 s2 m2 where r2: "copy_words n1 d1 s1 m1 = (n2, d2, s2, m2)" by (metis prod_cases4)
  have c1: "copied (unat count) dst src m (n1, d1, s1, m1)"
    using copy_words4_copied [OF unat_le_32 assms] r1 by metis
  moreover have "up_safe d1 s1 n1" "n1 \<le> 2 ^ 32"
    using c1 up_safe_at [OF assms, of "unat count - n1"] unat_le_32 [of count]
    by (auto simp: copied_def)
  then have "copied n1 d1 s1 m1 (n2, d2, s2, m2)" using copy_words_copied r2 by metis
  ultimately have "copied (unat count) dst src m (n2, d2, s2, m2)"
    using copied_trans unat_le_32 assms by blast
  then have "copy_bytes n2 d2 s2 m2 = blit dst src (unat count) m"
    by (rule copied_rest) (use assms unat_le_32 in auto)
  moreover have "copy_bytes (unat count) dst src m = blit dst src (unat count) m"
    by (rule copy_bytes_blit) (use assms unat_le_32 in auto)
  ultimately show ?thesis
    unfolding rt_memcpy_def Let_def by (simp only: r1 r2 prod.case split: if_split) blast
qed

theorem rt_memmove_blit:
  assumes "unat dest + unat n \<le> 2 ^ 32" "unat src + unat n < 2 ^ 32"
  shows "rt_memmove dest src n m = blit dest src (unat n) m"
proof -
  have "unat (src + n) = unat src + unat n" using assms by (simp add: unat_word_ariths)
  then have c: "src < dest \<and> dest < src + n \<longleftrightarrow> src < dest \<and> unat dest < unat src + unat n"
    by (simp add: word_less_nat_alt)
  show ?thesis
  proof (cases "src < dest \<and> dest < src + n")
    case True
    have "down_safe dest src (unat n)" unfolding down_safe_def
    proof (intro allI impI notI)
      fix i j assume ij: "j < i" "i < unat n" and eq: "dest + of_nat i = src + of_nat j"
      have "unat (dest + of_nat i) = unat dest + i" "unat (src + of_nat j) = unat src + j"
        using assms ij by (simp_all add: unat_word_ariths unat_of_nat)
      with eq ij True show False by (auto simp: word_less_nat_alt)
    qed
    then show ?thesis using True copy_bytes_down_blit [OF unat_le_32, of dest src n m]
      by (simp add: rt_memmove_def)
  next
    case False
    then have "up_safe dest src (unat n)"
      using assms c by (intro up_safe_of_nat) auto
    then have "copy_bytes (unat n) dest src m = blit dest src (unat n) m"
      by (rule copy_bytes_blit [OF unat_le_32])
    then show ?thesis using False by (auto simp: rt_memmove_def)
  qed
qed

text \<open>Names: what is copied compares equal to its source.\<close>

lemma length_rt_strncpy [simp]: "length (rt_strncpy s n) = n"
  by (induction s n rule: rt_strncpy.induct) auto

lemma rt_strncpy_nth:
  "i < n \<Longrightarrow> rt_strncpy s n ! i = (if \<exists>j \<le> i. s j = 0 then 0 else s i)"
proof (induction s n arbitrary: i rule: rt_strncpy.induct)
  case (2 s n)
  show ?case
  proof (cases i)
    case (Suc k)
    have e: "(\<exists>j \<le> Suc k. s j = 0) \<longleftrightarrow> s 0 = 0 \<or> (\<exists>j \<le> k. s (Suc j) = 0)"
      by (metis Suc_le_mono not0_implies_Suc zero_le)
    show ?thesis using 2 Suc by (auto simp: e)
  qed auto
qed simp

lemma rt_strncmp_Suc_0:
  "rt_strncmp a b (Suc n) = 0 \<longleftrightarrow>
     a 0 = b 0 \<and> (a 0 = 0 \<or> rt_strncmp (\<lambda>i. a (Suc i)) (\<lambda>i. b (Suc i)) n = 0)"
  by (simp add: Let_def signed_eq_0_iff) argo

lemma rt_strncmp_0:
  "rt_strncmp a b n = 0 \<longleftrightarrow> (\<forall>i < n. (\<forall>j < i. a j \<noteq> 0) \<longrightarrow> a i = b i)"
proof (induction n arbitrary: a b)
  case (Suc n)
  have "(\<forall>i < Suc n. (\<forall>j < i. a j \<noteq> 0) \<longrightarrow> a i = b i) \<longleftrightarrow>
      a 0 = b 0 \<and> (a 0 \<noteq> 0 \<longrightarrow> (\<forall>i < n. (\<forall>j < i. a (Suc j) \<noteq> 0) \<longrightarrow> a (Suc i) = b (Suc i)))"
    by (simp add: All_less_Suc2) blast
  then show ?case
    unfolding rt_strncmp_Suc_0 Suc.IH [of "\<lambda>i. a (Suc i)" "\<lambda>i. b (Suc i)"] by argo
qed simp

theorem rt_strncmp_strncpy:
  "rt_strncmp (nth (rt_strncpy s n)) t n = 0 \<longleftrightarrow> rt_strncmp s t n = 0"
proof -
  have nz: "(\<forall>j < i. rt_strncpy s n ! j \<noteq> 0) \<longleftrightarrow> (\<forall>j < i. s j \<noteq> 0)" if "i < n" for i
    using that by (auto simp: rt_strncpy_nth)
  have eq: "rt_strncpy s n ! i = s i" if "i < n" "\<forall>j < i. s j \<noteq> 0" for i
    using that by (auto simp: rt_strncpy_nth le_less)
  have "((\<forall>j < i. rt_strncpy s n ! j \<noteq> 0) \<longrightarrow> rt_strncpy s n ! i = t i) \<longleftrightarrow>
      ((\<forall>j < i. s j \<noteq> 0) \<longrightarrow> s i = t i)" if "i < n" for i
    using nz [OF that] eq [OF that] by argo
  then show ?thesis unfolding rt_strncmp_0 by blast
qed

subsection \<open>Properties\<close>

text \<open>The table look-up of \<open>__rt_ffs\<close> finds the lowest bit that is set, counted from 1, and
  returns 0 only for 0.\<close>

theorem rt_ffs_least: "rt_ffs w = (if w = 0 then 0 else Suc (LEAST j. bit w j))"
proof (cases "w = 0")
  case False
  note f = rt_ffs_lowest [OF False]
  have "(LEAST j. bit w j) = rt_ffs w - 1"
    using f by (intro Least_equality) (auto simp: not_less [symmetric])
  then show ?thesis using f False by simp
qed (simp add: rt_ffs_def)

text \<open>\<open>rt_memmove\<close> copies any two ranges that do not wrap around the address space, however
  they overlap: the destination gets the old bytes of the source, and nothing else changes.\<close>

theorem rt_memmove_copies:
  assumes "unat dest + unat n \<le> 2 ^ 32" "unat src + unat n < 2 ^ 32"
  shows "rt_memmove dest src n m a =
    (if unat (a - dest) < unat n then m (src + (a - dest)) else m a)"
  by (simp add: rt_memmove_blit [OF assms] blit_def)

lemma rt_memmove_copies_witness:
  "rt_memmove 102 100 8 (\<lambda>a. ucast a) 105 = 103 \<and> rt_memmove 102 100 8 (\<lambda>a. ucast a) 110 = 110"
  using rt_memmove_copies [of 102 8 100 "\<lambda>a. ucast a" 105]
    rt_memmove_copies [of 102 8 100 "\<lambda>a. ucast a" 110] by simp

text \<open>\<open>rt_memset\<close>, by bytes, words and runs of four words, writes the low byte of its argument to
  the \<open>count\<close> addresses from \<open>s\<close> on and to no other.\<close>

theorem rt_memset_fills:
  "rt_memset s c count m a = (if unat (a - s) < unat count then ucast c else m a)"
  by (simp add: rt_memset_fill fill_def)

text \<open>\<open>rt_memcpy\<close> copies ranges without wrap-around of which the destination does not begin
  inside the source, word by word or byte by byte as their alignment allows.\<close>

theorem rt_memcpy_copies:
  assumes "unat dst + unat count \<le> 2 ^ 32" "unat src + unat count \<le> 2 ^ 32"
    and "\<not> (src < dst \<and> unat dst < unat src + unat count)"
  shows "rt_memcpy dst src count m a =
    (if unat (a - dst) < unat count then m (src + (a - dst)) else m a)"
  by (simp add: rt_memcpy_blit [OF up_safe_of_nat [OF assms]] blit_def)

lemma rt_memcpy_copies_witness:
  "rt_memcpy 0x1000 0x2000 40 (\<lambda>a. if a = 0x2011 then 7 else 0) 0x1011 = 7"
  using rt_memcpy_copies [of "0x1000" 40 "0x2000" "\<lambda>a. if a = 0x2011 then 7 else 0" "0x1011"] by simp

text \<open>A name cut and padded by \<open>rt_strncpy\<close> compares equal under \<open>rt_strncmp\<close> to exactly the
  strings that its source compares equal to, so an object is found under the name it was given.\<close>

theorem rt_strncpy_strncmp:
  "length (rt_strncpy s n) = n \<and>
    (rt_strncmp (nth (rt_strncpy s n)) t n = 0 \<longleftrightarrow> (\<forall>i < n. (\<forall>j < i. s j \<noteq> 0) \<longrightarrow> s i = t i))"
  unfolding rt_strncmp_strncpy by (simp add: rt_strncmp_0)

lemma rt_strncpy_strncmp_witness:
  "rt_strncmp (nth (rt_strncpy (cstr_of ''timer12345'') 8)) (cstr_of ''timer123'') 8 = 0"
proof -
  have "cstr_of ''timer12345'' i = cstr_of ''timer123'' i" if "i < 8" for i
    using that by (auto simp: cstr_of_def less_Suc_eq numeral_eq_Suc)
  then show ?thesis
    using rt_strncpy_strncmp [of "cstr_of ''timer12345''" 8 "cstr_of ''timer123''"] by blast
qed

end
