(* ===== verification/Mem.thy ===== *)
theory Mem
  imports Kservice
begin

text \<open>
  The small-memory heap of \<open>src/mem.c\<close>: a doubly linked chain of block headers threaded
  through one memory region, first-fit allocation from the lowest free block, and merging of
  adjacent free blocks. Headers are kept by address, apart from the bytes of the blocks'
  payloads. The chain is proved to stay a partition of the region into blocks, no two adjacent
  ones free. Every operation here is the critical section that \<open>heap_sem\<close> protects; its
  take and release are the semaphore operations of the theory on semaphores, and the test that no
  interrupt is being served is made by the callers in the kernel model.
\<close>

subsection \<open>State and operations\<close>

record heap_mem =
  hm_magic :: u16
  hm_used :: u16
  hm_next :: u32
  hm_prev :: u32

record heap =
  heap_ptr :: addr
  heap_end :: addr
  lfree :: addr
  mem_size_aligned :: u32
  used_mem :: u32
  max_mem :: u32
  blk :: "addr \<Rightarrow> heap_mem"
  ram :: mem

abbreviation (input) HEAP_MAGIC :: u16 where "HEAP_MAGIC \<equiv> 0x1ea0"
abbreviation (input) MIN_SIZE :: u32 where "MIN_SIZE \<equiv> 12"

definition MIN_SIZE_ALIGNED :: u32 where
  "MIN_SIZE_ALIGNED = RT_ALIGN MIN_SIZE RT_ALIGN_SIZE"

text \<open>Two 16 bit and two 32 bit members: 12 bytes.\<close>

definition SIZEOF_STRUCT_MEM :: u32 where
  "SIZEOF_STRUCT_MEM = RT_ALIGN 12 RT_ALIGN_SIZE"

lemma heap_sizes [simp]: "MIN_SIZE_ALIGNED = 12" "SIZEOF_STRUCT_MEM = 12"
  by (simp_all add: MIN_SIZE_ALIGNED_def SIZEOF_STRUCT_MEM_def RT_ALIGN_def)

text \<open>Assignments to one member of the header at an address.\<close>

definition set_next :: "addr \<Rightarrow> u32 \<Rightarrow> heap \<Rightarrow> heap" where
  "set_next p v h = h\<lparr>blk := (blk h)(p := (blk h p)\<lparr>hm_next := v\<rparr>)\<rparr>"

definition set_prev :: "addr \<Rightarrow> u32 \<Rightarrow> heap \<Rightarrow> heap" where
  "set_prev p v h = h\<lparr>blk := (blk h)(p := (blk h p)\<lparr>hm_prev := v\<rparr>)\<rparr>"

definition set_used :: "addr \<Rightarrow> u16 \<Rightarrow> heap \<Rightarrow> heap" where
  "set_used p v h = h\<lparr>blk := (blk h)(p := (blk h p)\<lparr>hm_used := v\<rparr>)\<rparr>"

definition set_magic :: "addr \<Rightarrow> u16 \<Rightarrow> heap \<Rightarrow> heap" where
  "set_magic p v h = h\<lparr>blk := (blk h)(p := (blk h p)\<lparr>hm_magic := v\<rparr>)\<rparr>"

text \<open>The two halves of \<open>plug_holes\<close>: merging with the block behind and with the one before.\<close>

definition plug_forward :: "addr \<Rightarrow> heap \<Rightarrow> heap" where
  "plug_forward mem h =
     (let nmem = heap_ptr h + hm_next (blk h mem)
      in if mem \<noteq> nmem \<and> hm_used (blk h nmem) = 0 \<and> nmem \<noteq> heap_end h then
           (let h = (if lfree h = nmem then h\<lparr>lfree := mem\<rparr> else h);
                h = set_next mem (hm_next (blk h nmem)) h
            in set_prev (heap_ptr h + hm_next (blk h nmem)) (mem - heap_ptr h) h)
         else h)"

definition plug_backward :: "addr \<Rightarrow> heap \<Rightarrow> heap" where
  "plug_backward mem h =
     (let pmem = heap_ptr h + hm_prev (blk h mem)
      in if pmem \<noteq> mem \<and> hm_used (blk h pmem) = 0 then
           (let h = (if lfree h = mem then h\<lparr>lfree := pmem\<rparr> else h);
                h = set_next pmem (hm_next (blk h mem)) h
            in set_prev (heap_ptr h + hm_next (blk h mem)) (pmem - heap_ptr h) h)
         else h)"

definition plug_holes :: "addr \<Rightarrow> heap \<Rightarrow> heap option" where
  "plug_holes mem h = do {
     rt_assert (heap_ptr h \<le> mem);
     rt_assert (mem < heap_end h);
     rt_assert (hm_used (blk h mem) = 0);
     Some (plug_backward mem (plug_forward mem h))
   }"

definition rt_system_heap_init :: "addr \<Rightarrow> addr \<Rightarrow> heap \<Rightarrow> heap" where
  "rt_system_heap_init begin_addr end_addr h =
     (let begin_align = RT_ALIGN begin_addr RT_ALIGN_SIZE;
          end_align = RT_ALIGN_DOWN end_addr RT_ALIGN_SIZE
      in if 2 * SIZEOF_STRUCT_MEM < end_align \<and>
            begin_align \<le> end_align - 2 * SIZEOF_STRUCT_MEM
         then
           (let h = h\<lparr>mem_size_aligned := end_align - begin_align - 2 * SIZEOF_STRUCT_MEM,
                      heap_ptr := begin_align\<rparr>;
                first = \<lparr>hm_magic = HEAP_MAGIC, hm_used = 0,
                         hm_next = mem_size_aligned h + SIZEOF_STRUCT_MEM, hm_prev = 0\<rparr>;
                h = h\<lparr>blk := (blk h)(heap_ptr h := first)\<rparr>;
                h = h\<lparr>heap_end := heap_ptr h + hm_next first\<rparr>;
                last = \<lparr>hm_magic = HEAP_MAGIC, hm_used = 1,
                        hm_next = mem_size_aligned h + SIZEOF_STRUCT_MEM,
                        hm_prev = mem_size_aligned h + SIZEOF_STRUCT_MEM\<rparr>
            in h\<lparr>blk := (blk h)(heap_end h := last), lfree := heap_ptr h\<rparr>)
         else h)"

text \<open>The \<open>for\<close> loop of \<open>rt_malloc\<close> up to the block it takes, if there is one.\<close>

partial_function (option) malloc_search :: "heap \<Rightarrow> u32 \<Rightarrow> u32 \<Rightarrow> u32 option option" where
  "malloc_search h sz ptr =
     (if ptr < mem_size_aligned h - sz then
        (let m = blk h (heap_ptr h + ptr)
         in if hm_used m = 0 \<and> sz \<le> hm_next m - (ptr + SIZEOF_STRUCT_MEM)
            then Some (Some ptr) else malloc_search h sz (hm_next m))
      else Some None)"

text \<open>\<open>while (lfree->used && lfree != heap_end) lfree = lfree->next\<close>\<close>

partial_function (option) lfree_search :: "heap \<Rightarrow> addr \<Rightarrow> addr option" where
  "lfree_search h p =
     (if hm_used (blk h p) \<noteq> 0 \<and> p \<noteq> heap_end h
      then lfree_search h (heap_ptr h + hm_next (blk h p)) else Some p)"

definition add_used_mem :: "u32 \<Rightarrow> heap \<Rightarrow> heap" where
  "add_used_mem n h =
     (let h = h\<lparr>used_mem := used_mem h + n\<rparr>
      in if max_mem h < used_mem h then h\<lparr>max_mem := used_mem h\<rparr> else h)"

text \<open>A new free block at \<open>ptr2\<close> behind the block at \<open>ptr\<close>: shared by \<open>rt_malloc\<close> and
  \<open>rt_realloc\<close>, which have the same statements.\<close>

definition split_block :: "u32 \<Rightarrow> u32 \<Rightarrow> heap \<Rightarrow> heap" where
  "split_block ptr ptr2 h =
     (let mem = heap_ptr h + ptr;
          mem2 = heap_ptr h + ptr2;
          h = set_magic mem2 HEAP_MAGIC h;
          h = set_used mem2 0 h;
          h = set_next mem2 (hm_next (blk h mem)) h;
          h = set_prev mem2 ptr h;
          h = set_next mem ptr2 h
      in if hm_next (blk h mem2) \<noteq> mem_size_aligned h + SIZEOF_STRUCT_MEM
         then set_prev (heap_ptr h + hm_next (blk h mem2)) ptr2 h else h)"

text \<open>The body of the loop for the block that is taken: the block is split, or taken whole.\<close>

definition carve :: "u32 \<Rightarrow> u32 \<Rightarrow> heap \<Rightarrow> heap" where
  "carve sz ptr h =
     (let mem = heap_ptr h + ptr
      in if sz + SIZEOF_STRUCT_MEM + MIN_SIZE_ALIGNED
              \<le> hm_next (blk h mem) - (ptr + SIZEOF_STRUCT_MEM)
         then add_used_mem (sz + SIZEOF_STRUCT_MEM)
                (set_used mem 1 (split_block ptr (ptr + SIZEOF_STRUCT_MEM + sz) h))
         else (let h = set_used mem 1 h
               in add_used_mem (hm_next (blk h mem) - (mem - heap_ptr h)) h))"

definition malloc_take :: "u32 \<Rightarrow> u32 \<Rightarrow> heap \<Rightarrow> (addr option \<times> heap) option" where
  "malloc_take sz ptr h = do {
     let mem = heap_ptr h + ptr;
     let h = set_magic mem HEAP_MAGIC (carve sz ptr h);
     h \<leftarrow> (if mem = lfree h then do {
              p \<leftarrow> lfree_search h (lfree h);
              rt_assert (p = heap_end h \<or> hm_used (blk h p) = 0);
              Some (h\<lparr>lfree := p\<rparr>)
            } else Some h);
     rt_assert (mem + SIZEOF_STRUCT_MEM + sz \<le> heap_end h);
     rt_assert ((mem + SIZEOF_STRUCT_MEM) mod RT_ALIGN_SIZE = 0);
     rt_assert (mem AND (RT_ALIGN_SIZE - 1) = 0);
     Some (Some (mem + SIZEOF_STRUCT_MEM), h)
   }"

definition rt_malloc :: "u32 \<Rightarrow> heap \<Rightarrow> (addr option \<times> heap) option" where
  "rt_malloc sz h =
     (if sz = 0 then Some (None, h)
      else
        (let sz = RT_ALIGN sz RT_ALIGN_SIZE
         in if mem_size_aligned h < sz then Some (None, h)
            else
              (let sz = (if sz < MIN_SIZE_ALIGNED then MIN_SIZE_ALIGNED else sz)
               in do {
                 r \<leftarrow> malloc_search h sz (lfree h - heap_ptr h);
                 (case r of None \<Rightarrow> Some (None, h) | Some ptr \<Rightarrow> malloc_take sz ptr h)
               })))"

definition rt_free :: "addr option \<Rightarrow> heap \<Rightarrow> heap option" where
  "rt_free rm h =
     (case rm of
        None \<Rightarrow> Some h
      | Some rmem \<Rightarrow> do {
          rt_assert (rmem AND (RT_ALIGN_SIZE - 1) = 0);
          rt_assert (heap_ptr h \<le> rmem \<and> rmem < heap_end h);
          let mem = rmem - SIZEOF_STRUCT_MEM;
          rt_assert (hm_used (blk h mem) \<noteq> 0);
          rt_assert (hm_magic (blk h mem) = HEAP_MAGIC);
          let h = set_used mem 0 h;
          let h = set_magic mem HEAP_MAGIC h;
          let h = (if mem < lfree h then h\<lparr>lfree := mem\<rparr> else h);
          let h = h\<lparr>used_mem := used_mem h - (hm_next (blk h mem) - (mem - heap_ptr h))\<rparr>;
          plug_holes mem h
        })"

definition rt_realloc :: "addr option \<Rightarrow> u32 \<Rightarrow> heap \<Rightarrow> (addr option \<times> heap) option" where
  "rt_realloc rm newsize h =
     (let newsize = RT_ALIGN newsize RT_ALIGN_SIZE
      in if mem_size_aligned h < newsize then Some (None, h)
         else
           (case rm of
              None \<Rightarrow> rt_malloc newsize h
            | Some rmem \<Rightarrow>
                if rmem < heap_ptr h \<or> heap_end h \<le> rmem then Some (Some rmem, h)
                else
                  (let mem = rmem - SIZEOF_STRUCT_MEM;
                       ptr = mem - heap_ptr h;
                       sz = hm_next (blk h mem) - ptr - SIZEOF_STRUCT_MEM
                   in if sz = newsize then Some (Some rmem, h)
                      else if newsize + SIZEOF_STRUCT_MEM + MIN_SIZE < sz then do {
                        let h = h\<lparr>used_mem := used_mem h - (sz - newsize)\<rparr>;
                        let ptr2 = ptr + SIZEOF_STRUCT_MEM + newsize;
                        let h = split_block ptr ptr2 h;
                        h \<leftarrow> plug_holes (heap_ptr h + ptr2) h;
                        Some (Some rmem, h)
                      }
                      else do {
                        (nmem, h) \<leftarrow> rt_malloc newsize h;
                        (case nmem of
                           None \<Rightarrow> Some (None, h)
                         | Some p \<Rightarrow> do {
                             let h = h\<lparr>ram := rt_memcpy p rmem
                                        (if sz < newsize then sz else newsize) (ram h)\<rparr>;
                             h \<leftarrow> rt_free (Some rmem) h;
                             Some (Some p, h)
                           })
                      })))"

definition rt_calloc :: "u32 \<Rightarrow> u32 \<Rightarrow> heap \<Rightarrow> (addr option \<times> heap) option" where
  "rt_calloc cnt sz h = do {
     (p, h) \<leftarrow> rt_malloc (cnt * sz) h;
     (case p of
        None \<Rightarrow> Some (None, h)
      | Some a \<Rightarrow> Some (Some a, h\<lparr>ram := rt_memset a 0 (cnt * sz) (ram h)\<rparr>))
   }"

definition rt_memory_info :: "heap \<Rightarrow> u32 \<times> u32 \<times> u32" where
  "rt_memory_info h = (mem_size_aligned h, used_mem h, max_mem h)"

text \<open>\<open>rt_strdup\<close> of \<open>kservice.c\<close>; the string is read from memory.\<close>

definition rt_strdup :: "addr \<Rightarrow> heap \<Rightarrow> (addr option \<times> heap) option" where
  "rt_strdup s h = do {
     n \<leftarrow> rt_strlen (\<lambda>i. ram h (s + of_nat i));
     let len = of_nat n + 1;
     (p, h) \<leftarrow> rt_malloc len h;
     (case p of
        None \<Rightarrow> Some (None, h)
      | Some a \<Rightarrow> Some (Some a, h\<lparr>ram := rt_memcpy a s len (ram h)\<rparr>))
   }"

subsection \<open>Block lists\<close>

text \<open>
  What the headers stand for: the sequence of blocks, each with its length, header included, and
  whether it is used. \<open>hdr\<close> reads a header by its offset from \<open>heap_ptr\<close>.
\<close>

type_synonym blocks = "(nat \<times> bool) list"

definition total :: "blocks \<Rightarrow> nat" where
  "total bs = sum_list (map fst bs)"

definition used_bytes :: "blocks \<Rightarrow> nat" where
  "used_bytes bs = total (filter snd bs)"

definition hdr :: "heap \<Rightarrow> nat \<Rightarrow> heap_mem" where
  "hdr h x = (if x < 2 ^ 32 then blk h (heap_ptr h + of_nat x)
              else \<lparr>hm_magic = 0, hm_used = 0, hm_next = 0, hm_prev = 0\<rparr>)"

fun chain :: "(nat \<Rightarrow> heap_mem) \<Rightarrow> nat \<Rightarrow> nat \<Rightarrow> blocks \<Rightarrow> bool" where
  "chain f p x [] = True"
| "chain f p x ((n, u) # bs) =
     (f x = \<lparr>hm_magic = HEAP_MAGIC, hm_used = (if u then 1 else 0),
             hm_next = of_nat (x + n), hm_prev = of_nat p\<rparr> \<and>
      12 \<le> n \<and> 4 dvd n \<and> chain f x (x + n) bs)"

fun last_off :: "nat \<Rightarrow> nat \<Rightarrow> blocks \<Rightarrow> nat" where
  "last_off p x [] = p"
| "last_off p x ((n, u) # bs) = last_off x (x + n) bs"

fun free_at :: "nat \<Rightarrow> blocks \<Rightarrow> nat \<Rightarrow> bool" where
  "free_at x [] y = False"
| "free_at x ((n, u) # bs) y = (\<not> u \<and> y = x \<or> free_at (x + n) bs y)"

text \<open>The offsets and lengths of the used blocks.\<close>

fun live_at :: "nat \<Rightarrow> blocks \<Rightarrow> (nat \<times> nat) set" where
  "live_at x [] = {}"
| "live_at x ((n, u) # bs) = (if u then {(x, n)} else {}) \<union> live_at (x + n) bs"

fun no_adj :: "blocks \<Rightarrow> bool" where
  "no_adj (a # b # bs) = ((snd a \<or> snd b) \<and> no_adj (b # bs))"
| "no_adj _ = True"

definition heap_shape :: "heap \<Rightarrow> blocks \<Rightarrow> bool" where
  "heap_shape h bs =
     (total bs = unat (mem_size_aligned h) + 12 \<and> 12 \<le> unat (mem_size_aligned h) \<and>
      unat (heap_ptr h) + total bs + 12 < 2 ^ 32 \<and> 4 dvd unat (heap_ptr h) \<and>
      heap_end h = heap_ptr h + of_nat (total bs) \<and> hm_used (hdr h (total bs)) = 1 \<and>
      chain (hdr h) 0 0 bs)"

definition lfree_ok :: "heap \<Rightarrow> blocks \<Rightarrow> bool" where
  "lfree_ok h bs =
     (\<exists>x. lfree h = heap_ptr h + of_nat x \<and> (free_at 0 bs x \<or> x = total bs))"

text \<open>\<open>lfree\<close> is the lowest free block, as the comment at its declaration says.\<close>

definition lfree_lowest :: "heap \<Rightarrow> blocks \<Rightarrow> bool" where
  "lfree_lowest h bs = (\<forall>y. free_at 0 bs y \<longrightarrow> lfree h \<le> heap_ptr h + of_nat y)"

definition heap_wf :: "heap \<Rightarrow> blocks \<Rightarrow> bool" where
  "heap_wf h bs =
     (heap_shape h bs \<and> no_adj bs \<and> lfree_ok h bs \<and> used_mem h = of_nat (used_bytes bs))"

lemma total_simps [simp]:
  "total [] = 0" "total ((n, u) # bs) = n + total bs" "total (xs @ ys) = total xs + total ys"
  by (simp_all add: total_def)

lemma used_bytes_simps [simp]:
  "used_bytes [] = 0" "used_bytes ((n, u) # bs) = (if u then n else 0) + used_bytes bs"
  "used_bytes (xs @ ys) = used_bytes xs + used_bytes ys"
  by (simp_all add: used_bytes_def)

lemma chain_append:
  "chain f p x (xs @ ys) = (chain f p x xs \<and> chain f (last_off p x xs) (x + total xs) ys)"
  by (induction f p x xs rule: chain.induct) (auto simp: add.assoc)

lemma free_at_append: "free_at x (xs @ ys) y = (free_at x xs y \<or> free_at (x + total xs) ys y)"
  by (induction x xs y rule: free_at.induct) (auto simp: add.assoc)

lemma live_at_append: "live_at x (xs @ ys) = live_at x xs \<union> live_at (x + total xs) ys"
  by (induction x xs rule: live_at.induct) (auto simp: add.assoc)

lemma last_off_snoc [simp]: "last_off p x (xs @ [(n, u)]) = x + total xs"
  by (induction p x xs rule: last_off.induct) (auto simp: add.assoc)

lemma chain_cong:
  "(\<And>y. x \<le> y \<Longrightarrow> y < x + total bs \<Longrightarrow> g y = f y) \<Longrightarrow> chain g p x bs = chain f p x bs"
proof (induction f p x bs rule: chain.induct)
  case (2 f p x n u bs)
  have "chain g x (x + n) bs = chain f x (x + n) bs" by (rule 2) (use "2.prems" in auto)
  moreover have "12 \<le> n \<Longrightarrow> g x = f x" using "2.prems" by simp
  ultimately show ?case by auto
qed simp

lemma chain_upd [simp]:
  "y < x \<or> x + total bs \<le> y \<Longrightarrow> chain (f(y := v)) p x bs = chain f p x bs"
  by (rule chain_cong) auto

lemma free_at_bounds:
  "free_at x bs y \<Longrightarrow> chain f p x bs \<Longrightarrow> x \<le> y \<and> y + 12 \<le> x + total bs"
  by (induction x bs y arbitrary: p rule: free_at.induct) fastforce+

lemma live_at_bounds:
  "(y, n) \<in> live_at x bs \<Longrightarrow> chain f p x bs \<Longrightarrow> x \<le> y \<and> 12 \<le> n \<and> y + n \<le> x + total bs"
  by (induction x bs arbitrary: p rule: live_at.induct) (fastforce split: if_splits)+

text \<open>Used blocks do not overlap.\<close>

lemma live_at_disjoint:
  "(y, n) \<in> live_at x bs \<Longrightarrow> (z, m) \<in> live_at x bs \<Longrightarrow> chain f p x bs \<Longrightarrow>
    (y, n) = (z, m) \<or> y + n \<le> z \<or> z + m \<le> y"
proof (induction x bs arbitrary: p rule: live_at.induct)
  case (2 x k u bs)
  then show ?case
    using live_at_bounds [of y n "x + k" bs f x] live_at_bounds [of z m "x + k" bs f x]
    by (auto split: if_splits)
qed simp

lemma no_adj_Cons: "no_adj (a # bs) = ((bs \<noteq> [] \<longrightarrow> snd a \<or> snd (hd bs)) \<and> no_adj bs)"
  by (cases bs) auto

lemma no_adj_append:
  "no_adj (xs @ ys) =
    (no_adj xs \<and> no_adj ys \<and> (xs \<noteq> [] \<longrightarrow> ys \<noteq> [] \<longrightarrow> snd (last xs) \<or> snd (hd ys)))"
proof (induction xs)
  case (Cons a xs)
  then show ?case by (cases xs) (auto simp: no_adj_Cons)
qed simp

subsection \<open>Header updates\<close>

lemma word_of_nat_eq:
  "a < 2 ^ 32 \<Longrightarrow> b < 2 ^ 32 \<Longrightarrow> (of_nat a :: u32) = of_nat b \<longleftrightarrow> a = b"
  by (auto dest: arg_cong [where f = unat] simp: unat_of_nat)

lemma blk_hdr: "x < 2 ^ 32 \<Longrightarrow> blk h (heap_ptr h + of_nat x) = hdr h x"
  by (simp add: hdr_def)

lemma hdr_upd:
  assumes "x < 2 ^ 32"
  shows "hdr (h\<lparr>blk := (blk h)(heap_ptr h + of_nat x := v)\<rparr>) = (hdr h)(x := v)"
  using assms word_of_nat_eq [of _ x] by (auto simp: hdr_def fun_eq_iff)

lemma hdr_set:
  assumes "x < 2 ^ 32"
  shows "hdr (set_next (heap_ptr h + of_nat x) v h) = (hdr h)(x := (hdr h x)\<lparr>hm_next := v\<rparr>)"
    "hdr (set_prev (heap_ptr h + of_nat x) v h) = (hdr h)(x := (hdr h x)\<lparr>hm_prev := v\<rparr>)"
    "hdr (set_used (heap_ptr h + of_nat x) w h) = (hdr h)(x := (hdr h x)\<lparr>hm_used := w\<rparr>)"
    "hdr (set_magic (heap_ptr h + of_nat x) w h) = (hdr h)(x := (hdr h x)\<lparr>hm_magic := w\<rparr>)"
  using assms by (simp_all add: set_next_def set_prev_def set_used_def set_magic_def hdr_upd blk_hdr)

lemma set_sel [simp]:
  "heap_ptr (set_next p v h) = heap_ptr h" "heap_ptr (set_prev p v h) = heap_ptr h"
  "heap_ptr (set_used p w h) = heap_ptr h" "heap_ptr (set_magic p w h) = heap_ptr h"
  "heap_end (set_next p v h) = heap_end h" "heap_end (set_prev p v h) = heap_end h"
  "heap_end (set_used p w h) = heap_end h" "heap_end (set_magic p w h) = heap_end h"
  "lfree (set_next p v h) = lfree h" "lfree (set_prev p v h) = lfree h"
  "lfree (set_used p w h) = lfree h" "lfree (set_magic p w h) = lfree h"
  "mem_size_aligned (set_next p v h) = mem_size_aligned h"
  "mem_size_aligned (set_prev p v h) = mem_size_aligned h"
  "mem_size_aligned (set_used p w h) = mem_size_aligned h"
  "mem_size_aligned (set_magic p w h) = mem_size_aligned h"
  "used_mem (set_next p v h) = used_mem h" "used_mem (set_prev p v h) = used_mem h"
  "used_mem (set_used p w h) = used_mem h" "used_mem (set_magic p w h) = used_mem h"
  "ram (set_next p v h) = ram h" "ram (set_prev p v h) = ram h"
  "ram (set_used p w h) = ram h" "ram (set_magic p w h) = ram h"
  by (simp_all add: set_next_def set_prev_def set_used_def set_magic_def)

lemma hdr_other [simp]:
  "hdr (h\<lparr>lfree := p\<rparr>) = hdr h" "hdr (h\<lparr>used_mem := n\<rparr>) = hdr h"
  "hdr (h\<lparr>max_mem := n\<rparr>) = hdr h" "hdr (h\<lparr>ram := r\<rparr>) = hdr h"
  by (simp_all add: hdr_def fun_eq_iff)

text \<open>Splitting and joining blocks, and changing the flag of one.\<close>

lemma chain_mid:
  "chain f 0 0 (xs @ (n, u) # ys) \<Longrightarrow>
    f (total xs) = \<lparr>hm_magic = HEAP_MAGIC, hm_used = (if u then 1 else 0),
      hm_next = of_nat (total xs + n), hm_prev = of_nat (last_off 0 0 xs)\<rparr> \<and> 12 \<le> n \<and> 4 dvd n"
  by (simp add: chain_append)

lemma chain_flag:
  assumes "chain f 0 0 (xs @ (n, u) # ys)"
  shows "chain (f(total xs := (f (total xs))\<lparr>hm_used := (if v then 1 else 0)\<rparr>)) 0 0
    (xs @ (n, v) # ys)"
  using assms by (auto simp: chain_append)

lemma chain_prev:
  assumes "chain f p x bs" "bs \<noteq> []"
  shows "chain (f(x := (f x)\<lparr>hm_prev := of_nat q\<rparr>)) q x bs"
  using assms by (cases bs) auto

lemma chain_split:
  assumes "chain f 0 0 (xs @ (n, u) # ys)" "12 \<le> k" "k + 12 \<le> n" "4 dvd k"
    and q: "q = total xs"
    and g: "g = f(q + k := \<lparr>hm_magic = HEAP_MAGIC, hm_used = 0, hm_next = of_nat (q + n),
      hm_prev = of_nat q\<rparr>, q := (f q)\<lparr>hm_next := of_nat (q + k)\<rparr>)"
    and e: "e = (if ys = [] then g else g(q + n := (g (q + n))\<lparr>hm_prev := of_nat (q + k)\<rparr>))"
  shows "chain e 0 0 (xs @ (k, u) # (n - k, False) # ys)"
proof -
  have n: "k < n" "12 \<le> n" "4 dvd n" "chain f 0 0 xs"
    "f q = \<lparr>hm_magic = HEAP_MAGIC, hm_used = (if u then 1 else 0),
      hm_next = of_nat (q + n), hm_prev = of_nat (last_off 0 0 xs)\<rparr>"
    and ys: "chain f q (q + n) ys"
    using assms by (auto simp: chain_append)
  then have "chain e 0 0 xs" "e q = (f q)\<lparr>hm_next := of_nat (q + k)\<rparr>"
    "e (q + k) = \<lparr>hm_magic = HEAP_MAGIC, hm_used = 0, hm_next = of_nat (q + n),
      hm_prev = of_nat q\<rparr>"
    using assms(2,3) by (auto simp: e g q)
  moreover have "chain e (q + k) (q + n) ys"
  proof (cases "ys = []")
    case False
    have "chain g q (q + n) ys" using ys n by (simp add: g)
    then have "chain (g(q + n := (g (q + n))\<lparr>hm_prev := of_nat (q + k)\<rparr>)) (q + k) (q + n) ys"
      using False by (rule chain_prev)
    then show ?thesis using False by (simp add: e)
  qed simp
  moreover have "4 dvd n - k" using n assms(4) by simp
  ultimately show ?thesis using n assms(2-4) by (auto simp: chain_append q [symmetric])
qed

lemma chain_join:
  assumes c: "chain f 0 0 (xs @ (n, u) # (k, v) # ys)" and q: "q = total xs"
    and g: "g = f(q := (f q)\<lparr>hm_next := hm_next (f (q + n))\<rparr>)"
    and e: "e = g(q + n + k := (g (q + n + k))\<lparr>hm_prev := of_nat q\<rparr>)"
  shows "chain e 0 0 (xs @ (n + k, u) # ys)"
proof -
  have b: "12 \<le> n" "12 \<le> k" "4 dvd n" "4 dvd k" "chain f 0 0 xs"
    "hm_next (f (q + n)) = of_nat (q + n + k)"
    "f q = \<lparr>hm_magic = HEAP_MAGIC, hm_used = (if u then 1 else 0),
      hm_next = of_nat (q + n), hm_prev = of_nat (last_off 0 0 xs)\<rparr>"
    and ys: "chain f (q + n) (q + n + k) ys"
    using c by (auto simp: chain_append q)
  have "chain e 0 0 xs" "e q = (f q)\<lparr>hm_next := of_nat (q + n + k)\<rparr>"
    using b by (auto simp: e g q)
  moreover have "chain e q (q + n + k) ys"
  proof (cases "ys = []")
    case False
    have "chain g (q + n) (q + n + k) ys" using ys b by (simp add: g)
    then show ?thesis using False unfolding e by (rule chain_prev)
  qed simp
  ultimately show ?thesis using b by (auto simp: chain_append q [symmetric] add.assoc)
qed

lemma heap_shape_bound:
  "heap_shape h bs \<Longrightarrow> x \<le> total bs \<Longrightarrow> x < 2 ^ 32"
  unfolding heap_shape_def by linarith

text \<open>The order of block addresses is the order of their offsets.\<close>

lemma heap_ptr_less:
  assumes "heap_shape h bs" "x \<le> total bs" "y \<le> total bs"
  shows "heap_ptr h + of_nat x < heap_ptr h + of_nat y \<longleftrightarrow> x < y"
    "heap_ptr h + of_nat x \<le> heap_ptr h + of_nat y \<longleftrightarrow> x \<le> y"
    "unat (heap_ptr h + of_nat x) = unat (heap_ptr h) + x"
proof -
  have u: "unat (heap_ptr h + of_nat z) = unat (heap_ptr h) + z" if "z \<le> total bs" for z
    using that assms(1) by (simp add: heap_shape_def unat_word_ariths unat_of_nat)
  show "unat (heap_ptr h + of_nat x) = unat (heap_ptr h) + x" by (rule u [OF assms(2)])
  show "heap_ptr h + of_nat x < heap_ptr h + of_nat y \<longleftrightarrow> x < y"
    "heap_ptr h + of_nat x \<le> heap_ptr h + of_nat y \<longleftrightarrow> x \<le> y"
    using assms u by (simp_all add: word_less_nat_alt word_le_nat_alt)
qed

lemma heap_ptr_eq:
  assumes "heap_shape h bs" "x \<le> total bs" "y \<le> total bs"
  shows "heap_ptr h + of_nat x = heap_ptr h + of_nat y \<longleftrightarrow> x = y"
  using assms heap_shape_bound [OF assms(1)] by (simp add: word_of_nat_eq)

subsection \<open>Merging\<close>

fun join_next :: "nat \<Rightarrow> blocks \<Rightarrow> nat \<times> blocks" where
  "join_next n ((k, False) # ys) = (n + k, ys)"
| "join_next n ys = (n, ys)"

definition join_prev :: "blocks \<Rightarrow> nat \<Rightarrow> blocks \<times> nat" where
  "join_prev xs n =
     (if xs \<noteq> [] \<and> \<not> snd (last xs) then (butlast xs, fst (last xs) + n) else (xs, n))"

definition merge_free :: "blocks \<Rightarrow> nat \<Rightarrow> blocks \<Rightarrow> blocks" where
  "merge_free xs n ys =
     (let (m, zs) = join_next n ys; (ws, k) = join_prev xs m in ws @ (k, False) # zs)"

text \<open>What the steps that only rewrite headers and \<open>lfree\<close> leave alone.\<close>

definition same_base :: "heap \<Rightarrow> heap \<Rightarrow> bool" where
  "same_base h h' =
     (heap_ptr h' = heap_ptr h \<and> heap_end h' = heap_end h \<and>
      mem_size_aligned h' = mem_size_aligned h \<and> used_mem h' = used_mem h \<and> ram h' = ram h)"

lemma same_base_refl [simp]: "same_base h h"
  by (simp add: same_base_def)

lemma same_base_trans: "same_base h g \<Longrightarrow> same_base g k \<Longrightarrow> same_base h k"
  by (simp add: same_base_def)

lemma heap_shape_chain:
  "heap_shape h bs \<Longrightarrow> chain (hdr h) 0 0 bs"
  by (simp add: heap_shape_def)

lemma heap_shape_mid:
  assumes "heap_shape h (xs @ (n, u) # ys)"
  shows "blk h (heap_ptr h + of_nat (total xs)) =
      \<lparr>hm_magic = HEAP_MAGIC, hm_used = (if u then 1 else 0),
       hm_next = of_nat (total xs + n), hm_prev = of_nat (last_off 0 0 xs)\<rparr>"
    "12 \<le> n" "4 dvd n"
  using chain_mid [OF heap_shape_chain [OF assms]] heap_shape_bound [OF assms, of "total xs"]
  by (simp_all add: blk_hdr)

lemma heap_shape_end:
  assumes "heap_shape h bs"
  shows "hm_used (blk h (heap_ptr h + of_nat (total bs))) = 1"
proof -
  have "hm_used (hdr h (total bs)) = 1" using assms unfolding heap_shape_def by blast
  then show ?thesis using heap_shape_bound [OF assms, of "total bs"] by (simp only: blk_hdr)
qed

lemma heap_shape_end_hdr: "heap_shape h bs \<Longrightarrow> hm_used (hdr h (total bs)) = 1"
  unfolding heap_shape_def by blast

lemma heap_shape_heap_end:
  "heap_shape h bs \<Longrightarrow> heap_end h = heap_ptr h + of_nat (total bs)"
  unfolding heap_shape_def by blast

lemma heap_shape_base:
  assumes "heap_shape h bs" "same_base h h'" "total bs' = total bs"
    "hm_used (hdr h' (total bs)) = 1" "chain (hdr h') 0 0 bs'"
  shows "heap_shape h' bs'"
  using assms unfolding heap_shape_def same_base_def by metis

lemma hm_used_upd:
  "hm_used ((f(a := (f a)\<lparr>hm_next := v\<rparr>)) x) = hm_used (f x)"
  "hm_used ((f(a := (f a)\<lparr>hm_prev := v\<rparr>)) x) = hm_used (f x)"
  by simp_all

lemma plug_forward_ok:
  assumes s: "heap_shape h (xs @ (n, False) # ys)" and l: "lfree_ok h (xs @ (n, False) # ys)"
    and j: "join_next n ys = (m, zs)"
  defines "h' \<equiv> plug_forward (heap_ptr h + of_nat (total xs)) h"
  shows "heap_shape h' (xs @ (m, False) # zs) \<and> lfree_ok h' (xs @ (m, False) # zs) \<and>
    same_base h h' \<and> lfree h' \<le> lfree h"
proof -
  let ?q = "total xs"
  define e where "e = ?q + n"
  let ?t = "?q + n + total ys"
  note mid = heap_shape_mid [OF s]
  have t: "?t < 2 ^ 32" using heap_shape_bound [OF s, of ?t] by simp
  have end_used: "hm_used (blk h (heap_ptr h + of_nat ?t)) = 1"
    using heap_shape_end [OF s] by (simp add: add.assoc)
  have hend: "heap_end h = heap_ptr h + of_nat ?t"
    using heap_shape_heap_end [OF s] by (simp only: total_simps add.assoc)
  have nx: "hm_next (blk h (heap_ptr h + of_nat ?q)) = of_nat e" using mid by (simp add: e_def)
  have "(of_nat ?q :: addr) \<noteq> of_nat e"
    using t mid(2) by (subst word_of_nat_eq) (auto simp: e_def)
  then have ne: "heap_ptr h + of_nat ?q \<noteq> heap_ptr h + of_nat e" by simp
  show ?thesis
  proof (cases "\<exists>k zs'. ys = (k, False) # zs'")
    case False
    then have jn: "m = n" "zs = ys" using j by (cases "(n, ys)" rule: join_next.cases; auto)+
    have "hm_used (blk h (heap_ptr h + of_nat e)) = 1"
    proof (cases ys)
      case Nil
      then show ?thesis using end_used by (simp add: e_def)
    next
      case (Cons y zs')
      then obtain k where y: "ys = (k, True) # zs'" using False by (cases y) auto
      then show ?thesis using heap_shape_mid(1) [of h "xs @ [(n, False)]" k True zs'] s
        by (simp add: e_def)
    qed
    then have "h' = h" by (simp add: h'_def plug_forward_def nx Let_def)
    then show ?thesis using s l jn by simp
  next
    case True
    then obtain k where ys: "ys = (k, False) # zs" and m: "m = n + k" using j by auto
    have mid2: "blk h (heap_ptr h + of_nat e) = \<lparr>hm_magic = HEAP_MAGIC, hm_used = 0,
        hm_next = of_nat (e + k), hm_prev = of_nat ?q\<rparr>" "12 \<le> k"
      using heap_shape_mid [of h "xs @ [(n, False)]" k False zs] s ys by (simp_all add: e_def)
    have lt: "e < ?t" "e + k \<le> ?t" using mid2 ys by (simp_all add: e_def)
    have neq: "heap_ptr h + of_nat e \<noteq> heap_end h" using lt t by (simp add: hend word_of_nat_eq del: of_nat_add)
    define h1 where "h1 = (if lfree h = heap_ptr h + of_nat e
      then h\<lparr>lfree := heap_ptr h + of_nat ?q\<rparr> else h)"
    have h1: "heap_ptr h1 = heap_ptr h" "blk h1 = blk h" "hdr h1 = hdr h" "same_base h h1"
      by (simp_all add: h1_def same_base_def)
    define h2 where "h2 = set_next (heap_ptr h1 + of_nat ?q) (of_nat (e + k)) h1"
    have h': "h' = set_prev (heap_ptr h2 + of_nat (e + k)) (of_nat ?q) h2"
      using mid2 ne neq nx
      by (simp add: h'_def plug_forward_def h2_def h1_def set_next_def Let_def)
    have hdr2: "hdr h2 = (hdr h)(?q := (hdr h ?q)\<lparr>hm_next := of_nat (e + k)\<rparr>)"
      unfolding h2_def using t h1 by (subst hdr_set) auto
    have hdr': "hdr h' = (hdr h2)(e + k := (hdr h2 (e + k))\<lparr>hm_prev := of_nat ?q\<rparr>)"
      unfolding h' using t lt by (subst hdr_set) auto
    have "hm_next (hdr h e) = of_nat (e + k)" using mid2 lt t by (simp flip: blk_hdr)
    then have ch: "chain (hdr h') 0 0 (xs @ (m, False) # zs)"
      using chain_join [OF heap_shape_chain [OF s [unfolded ys]] refl refl refl] hdr2 hdr' m
      by (simp add: e_def add.assoc)
    have base: "same_base h h'" using h1 by (auto simp: h' h2_def same_base_def)
    have used: "hm_used (hdr h' ?t) = 1"
      using heap_shape_end_hdr [OF s]
      by (simp add: hdr' hdr2 hm_used_upd add.assoc del: fun_upd_apply)
    have shape: "heap_shape h' (xs @ (m, False) # zs)"
      by (rule heap_shape_base [OF s base]) (use ch ys m used in \<open>simp_all add: add.assoc\<close>)
    obtain x where x: "lfree h = heap_ptr h + of_nat x"
      "free_at 0 (xs @ (n, False) # ys) x \<or> x = total (xs @ (n, False) # ys)"
      using l by (auto simp: lfree_ok_def)
    have xt: "x \<le> ?t"
      using x(2) free_at_bounds [OF _ heap_shape_chain [OF s], of x] by (auto simp: add.assoc)
    have lf: "lfree h' = heap_ptr h + of_nat (if x = e then ?q else x)"
      using x xt lt t by (simp add: h' h2_def h1_def word_of_nat_eq)
    have ch2: "chain (hdr h) e (e + k) zs" "chain (hdr h) 0 0 xs"
      using heap_shape_chain [OF s] ys by (simp_all add: chain_append e_def)
    have "free_at 0 (xs @ (m, False) # zs) (if x = e then ?q else x) \<or>
        (if x = e then ?q else x) = total (xs @ (m, False) # zs)"
      using x(2) ys m mid2(2) free_at_bounds [OF _ ch2(1), of x]
      by (auto simp: free_at_append e_def add.assoc)
    then have "lfree_ok h' (xs @ (m, False) # zs)"
      using lf base by (auto simp: lfree_ok_def same_base_def)
    moreover have "lfree h' \<le> lfree h"
      using heap_ptr_less(2) [OF s, of "if x = e then ?q else x" x] xt lf x(1) mid(2)
      by (auto simp: e_def add.assoc)
    ultimately show ?thesis using shape base by blast
  qed
qed

lemma plug_backward_ok:
  assumes s: "heap_shape h (xs @ (n, False) # ys)" and l: "lfree_ok h (xs @ (n, False) # ys)"
    and j: "join_prev xs n = (ws, m)"
  defines "h' \<equiv> plug_backward (heap_ptr h + of_nat (total xs)) h"
  shows "heap_shape h' (ws @ (m, False) # ys) \<and> lfree_ok h' (ws @ (m, False) # ys) \<and>
    same_base h h' \<and> lfree h' \<le> lfree h"
proof -
  let ?e = "total xs"
  note mid = heap_shape_mid [OF s]
  show ?thesis
  proof (cases "xs \<noteq> [] \<and> \<not> snd (last xs)")
    case False
    then have jn: "m = n" "ws = xs" using j by (auto simp: join_prev_def)
    have "h' = h"
    proof (cases xs rule: rev_cases)
      case Nil
      then show ?thesis using mid by (simp add: h'_def plug_backward_def)
    next
      case (snoc vs v)
      then obtain k where v: "xs = vs @ [(k, True)]" using False by (cases v) auto
      then show ?thesis using heap_shape_mid(1) [of h vs k True "(n, False) # ys"] s mid
        by (simp add: h'_def plug_backward_def)
    qed
    then show ?thesis using s l jn by simp
  next
    case True
    then obtain k where xs: "xs = ws @ [(k, False)]" and m: "m = k + n"
      using j by (cases xs rule: rev_cases) (auto simp: join_prev_def)
    let ?q = "total ws"
    have s': "heap_shape h (ws @ (k, False) # (n, False) # ys)" using s xs by simp
    note mid2 = heap_shape_mid [OF s']
    have e: "?e = ?q + k" using xs by simp
    let ?t = "total (xs @ (n, False) # ys)"
    have t: "?t < 2 ^ 32" using heap_shape_bound [OF s, of ?t] by simp
    have lt: "?q < ?e" "?e + n \<le> ?t" "?e \<le> ?t" using mid2 e by simp_all
    have ne: "heap_ptr h + of_nat ?q \<noteq> heap_ptr h + of_nat ?e"
      using t lt by (simp add: word_of_nat_eq del: total_simps)
    have me: "blk h (heap_ptr h + of_nat ?e) = \<lparr>hm_magic = HEAP_MAGIC, hm_used = 0,
        hm_next = of_nat (?e + n), hm_prev = of_nat ?q\<rparr>"
      using mid(1) xs by simp
    define h1 where "h1 = (if lfree h = heap_ptr h + of_nat ?e
      then h\<lparr>lfree := heap_ptr h + of_nat ?q\<rparr> else h)"
    have h1: "heap_ptr h1 = heap_ptr h" "blk h1 = blk h" "hdr h1 = hdr h" "same_base h h1"
      by (simp_all add: h1_def same_base_def)
    define h2 where "h2 = set_next (heap_ptr h1 + of_nat ?q) (of_nat (?e + n)) h1"
    have h': "h' = set_prev (heap_ptr h2 + of_nat (?e + n)) (of_nat ?q) h2"
      using me ne mid2(1)
      by (simp add: h'_def plug_backward_def h2_def h1_def set_next_def Let_def)
    have hdr2: "hdr h2 = (hdr h)(?q := (hdr h ?q)\<lparr>hm_next := of_nat (?e + n)\<rparr>)"
      unfolding h2_def using t lt h1 by (subst hdr_set) auto
    have hdr': "hdr h' = (hdr h2)(?e + n := (hdr h2 (?e + n))\<lparr>hm_prev := of_nat ?q\<rparr>)"
      unfolding h' using t lt by (subst hdr_set) auto
    have "hm_next (hdr h ?e) = of_nat (?e + n)" using me lt t by (simp flip: blk_hdr)
    then have ch: "chain (hdr h') 0 0 (ws @ (m, False) # ys)"
      using chain_join [OF heap_shape_chain [OF s'] refl refl refl] hdr2 hdr' m e
      by (simp add: add.assoc)
    have base: "same_base h h'" using h1 by (auto simp: h' h2_def same_base_def)
    have used: "hm_used (hdr h' ?t) = 1"
      using heap_shape_end_hdr [OF s]
      by (simp add: hdr' hdr2 hm_used_upd del: fun_upd_apply total_simps)
    have tot: "total (ws @ (m, False) # ys) = ?t" using xs m by simp
    have shape: "heap_shape h' (ws @ (m, False) # ys)"
      by (rule heap_shape_base [OF s base tot used ch])
    obtain x where x: "lfree h = heap_ptr h + of_nat x"
      "free_at 0 (xs @ (n, False) # ys) x \<or> x = ?t"
      using l by (auto simp: lfree_ok_def)
    have xt: "x \<le> ?t"
      using x(2) free_at_bounds [OF _ heap_shape_chain [OF s], of x] by auto
    have lf: "lfree h' = heap_ptr h + of_nat (if x = ?e then ?q else x)"
      using x(1) xt lt t by (simp add: h' h2_def h1_def word_of_nat_eq del: total_simps)
    have "free_at 0 (ws @ (m, False) # ys) (if x = ?e then ?q else x) \<or>
        (if x = ?e then ?q else x) = ?t"
      using x(2) xs m by (auto simp: free_at_append add.assoc)
    then have "lfree_ok h' (ws @ (m, False) # ys)"
      using lf base unfolding lfree_ok_def same_base_def tot by metis
    moreover have "lfree h' \<le> lfree h"
      using heap_ptr_less(2) [OF s, of "if x = ?e then ?q else x" x] xt lf x(1) lt by auto
    ultimately show ?thesis using shape base by blast
  qed
qed

text \<open>Merging keeps the used blocks and leaves no two free blocks side by side.\<close>

lemma total_merge: "total (merge_free xs n ys) = total xs + n + total ys"
proof -
  obtain m zs where j: "join_next n ys = (m, zs)" by fastforce
  then have "m + total zs = n + total ys" by (cases "(n, ys)" rule: join_next.cases; auto)
  then show ?thesis
    by (cases xs rule: rev_cases) (auto simp: merge_free_def j join_prev_def)
qed

lemma merge_free_cases:
  obtains ws vs zs us k where "merge_free xs n ys = ws @ (k, False) # zs"
    "xs = ws @ vs" "ys = us @ zs" "\<forall>b \<in> set vs. \<not> snd b" "\<forall>b \<in> set us. \<not> snd b"
    "k = total vs + n + total us"
    "ws = [] \<or> vs \<noteq> [] \<or> snd (last ws)" "zs = [] \<or> us \<noteq> [] \<or> snd (hd zs)"
    "length vs \<le> 1" "length us \<le> 1"
proof -
  obtain zs us m where j: "join_next n ys = (m, zs)" "ys = us @ zs" "\<forall>b \<in> set us. \<not> snd b"
    "m = n + total us" "zs = [] \<or> us \<noteq> [] \<or> snd (hd zs)" "length us \<le> 1"
  proof (cases "ys \<noteq> [] \<and> \<not> snd (hd ys)")
    case True
    then obtain k zs where ys: "ys = (k, False) # zs"
      by (metis (full_types) list.exhaust_sel prod.collapse)
    show ?thesis by (rule that [of "n + k" zs "[(k, False)]"]) (simp_all add: ys)
  next
    case False
    have "join_next n ys = (n, ys)"
    proof (cases ys)
      case (Cons p ps)
      then obtain k where "p = (k, True)" using False by (cases p) auto
      then show ?thesis using Cons by simp
    qed simp
    then show ?thesis using that [of n ys "[]"] False by auto
  qed
  show ?thesis
  proof (cases "xs \<noteq> [] \<and> \<not> snd (last xs)")
    case True
    then obtain ws k where "xs = ws @ [(k, False)]"
      by (metis append_butlast_last_id prod.collapse)
    then show ?thesis
      using j that [of ws "k + m" zs "[(k, False)]" us] by (auto simp: merge_free_def join_prev_def)
  next
    case False
    then show ?thesis
      using j that [of xs m zs "[]" us] by (auto simp: merge_free_def join_prev_def)
  qed
qed

lemma live_at_free: "\<forall>b \<in> set bs. \<not> snd b \<Longrightarrow> live_at x bs = {}"
  by (induction x bs rule: live_at.induct) auto

lemma used_bytes_free: "\<forall>b \<in> set bs. \<not> snd b \<Longrightarrow> used_bytes bs = 0"
  by (induction bs) auto

lemma live_at_merge: "live_at 0 (merge_free xs n ys) = live_at 0 (xs @ (n, False) # ys)"
  by (rule merge_free_cases [of xs n ys]) (auto simp: live_at_append live_at_free algebra_simps)

lemma used_bytes_merge: "used_bytes (merge_free xs n ys) = used_bytes xs + used_bytes ys"
  by (rule merge_free_cases [of xs n ys]) (auto simp: used_bytes_free)

lemma no_adj_merge:
  assumes "no_adj xs" "no_adj ys"
  shows "no_adj (merge_free xs n ys)"
proof (rule merge_free_cases [of xs n ys])
  fix ws k zs vs us
  assume m: "merge_free xs n ys = ws @ (k, False) # zs" "xs = ws @ vs" "ys = us @ zs"
    "\<forall>b \<in> set vs. \<not> snd b" "\<forall>b \<in> set us. \<not> snd b"
    "ws = [] \<or> vs \<noteq> [] \<or> snd (last ws)" "zs = [] \<or> us \<noteq> [] \<or> snd (hd zs)"
  have "snd (last ws)" if "ws \<noteq> []" "vs \<noteq> []"
    using assms(1) m that by (auto simp: no_adj_append)
  moreover have "snd (hd zs)" if "zs \<noteq> []" "us \<noteq> []"
    using assms(2) m that by (auto simp: no_adj_append)
  ultimately show ?thesis using assms m by (auto simp: no_adj_append no_adj_Cons)
qed

lemma plug_holes_ok:
  assumes s: "heap_shape h (xs @ (n, False) # ys)" and l: "lfree_ok h (xs @ (n, False) # ys)"
  obtains h' where "plug_holes (heap_ptr h + of_nat (total xs)) h = Some h'"
    "heap_shape h' (merge_free xs n ys)" "lfree_ok h' (merge_free xs n ys)" "same_base h h'"
    "lfree h' \<le> lfree h"
proof -
  let ?p = "heap_ptr h + of_nat (total xs)"
  obtain m zs where j: "join_next n ys = (m, zs)" by fastforce
  obtain ws k where k: "join_prev xs m = (ws, k)" by fastforce
  let ?f = "plug_forward ?p h"
  note f = plug_forward_ok [OF s l j]
  then have "heap_ptr ?f = heap_ptr h" by (simp add: same_base_def)
  then have b: "heap_shape (plug_backward ?p ?f) (ws @ (k, False) # zs)"
    "lfree_ok (plug_backward ?p ?f) (ws @ (k, False) # zs)" "same_base ?f (plug_backward ?p ?f)"
    "lfree (plug_backward ?p ?f) \<le> lfree ?f"
    using plug_backward_ok [of ?f xs m zs ws k] f k by auto
  have m: "merge_free xs n ys = ws @ (k, False) # zs" by (simp add: merge_free_def j k)
  have "heap_ptr h \<le> ?p" using heap_ptr_less(2) [OF s, of 0 "total xs"] by simp
  moreover have "?p < heap_end h"
    using heap_ptr_less(1) [OF s, of "total xs" "total (xs @ (n, False) # ys)"]
      heap_shape_mid(2) [OF s] heap_shape_heap_end [OF s] by simp
  moreover have "hm_used (blk h ?p) = 0" using heap_shape_mid(1) [OF s] by simp
  ultimately have "plug_holes ?p h = Some (plug_backward ?p ?f)" by (simp add: plug_holes_def)
  moreover have "same_base h (plug_backward ?p ?f)" using f b same_base_trans by blast
  moreover have "lfree (plug_backward ?p ?f) \<le> lfree h" using f b by (meson order_trans)
  ultimately show ?thesis using that b m by metis
qed

subsection \<open>Release\<close>

lemma and_3_eq_0: "(w::u32) AND 3 = 0 \<longleftrightarrow> 4 dvd unat w"
proof -
  have "w AND 3 = take_bit 2 w" by (simp add: take_bit_eq_mask mask_eq_exp_minus_1)
  moreover have "unat (take_bit 2 w) = unat w mod 4"
    by (simp only: unsigned_take_bit_eq) (simp add: take_bit_eq_mod)
  ultimately have "unat (w AND 3) = unat w mod 4" by simp
  then show ?thesis by (metis mod_eq_0_iff_dvd unat_eq_zero)
qed

lemma mod_4_eq_0: "(w::u32) mod 4 = 0 \<longleftrightarrow> 4 dvd unat w"
proof -
  have "w mod 4 = take_bit 2 w" by (simp add: take_bit_eq_mod)
  also have "\<dots> = w AND 3" by (simp add: take_bit_eq_mask mask_eq_exp_minus_1)
  finally show ?thesis by (simp add: and_3_eq_0)
qed

lemma chain_dvd: "chain f p x bs \<Longrightarrow> 4 dvd total bs"
  by (induction f p x bs rule: chain.induct) auto

lemma heap_block_aligned:
  assumes "heap_shape h (xs @ ys)"
  shows "4 dvd unat (heap_ptr h + of_nat (total xs))"
proof -
  have "4 dvd total xs" using heap_shape_chain [OF assms] by (auto simp: chain_append chain_dvd)
  moreover have "unat (heap_ptr h + of_nat (total xs)) = unat (heap_ptr h) + total xs"
    using heap_ptr_less(3) [OF assms _ order_refl, of "total xs"] by simp
  moreover have "4 dvd unat (heap_ptr h)" using assms by (simp add: heap_shape_def)
  ultimately show ?thesis by simp
qed

text \<open>The address of a block's payload, as the client holds it.\<close>

definition payload :: "heap \<Rightarrow> nat \<Rightarrow> addr" where
  "payload h x = heap_ptr h + of_nat x + 12"

lemma payload_props:
  assumes s: "heap_shape h (xs @ (n, u) # ys)"
  shows "4 dvd unat (payload h (total xs))" "heap_ptr h \<le> payload h (total xs)"
    "payload h (total xs) \<le> heap_end h" "payload h (total xs) - 12 = heap_ptr h + of_nat (total xs)"
    "12 < n \<Longrightarrow> payload h (total xs) < heap_end h"
    "unat (payload h (total xs)) = unat (heap_ptr h) + total xs + 12"
proof -
  let ?t = "total (xs @ (n, u) # ys)"
  have le: "total xs + 12 \<le> ?t" using heap_shape_mid(2) [OF s] by simp
  have p: "payload h (total xs) = heap_ptr h + of_nat (total xs + 12)"
    by (simp add: payload_def add.assoc)
  show u: "unat (payload h (total xs)) = unat (heap_ptr h) + total xs + 12"
    using heap_ptr_less(3) [OF s le order_refl] by (simp add: p)
  have "4 dvd total xs" using heap_shape_chain [OF s] by (auto simp: chain_append chain_dvd)
  then show "4 dvd unat (payload h (total xs))" using s u by (simp add: heap_shape_def)
  show "heap_ptr h \<le> payload h (total xs)" using u by (simp add: word_le_nat_alt)
  show "payload h (total xs) \<le> heap_end h"
    unfolding p heap_shape_heap_end [OF s] using heap_ptr_less(2) [OF s le order_refl] le by simp
  show "payload h (total xs) < heap_end h" if "12 < n"
    unfolding p heap_shape_heap_end [OF s] using heap_ptr_less(1) [OF s le order_refl] that by simp
  show "payload h (total xs) - 12 = heap_ptr h + of_nat (total xs)" by (simp add: payload_def)
qed

lemma free_at_split:
  "free_at x bs y \<Longrightarrow> \<exists>xs n ys. bs = xs @ (n, False) # ys \<and> y = x + total xs"
proof (induction x bs y rule: free_at.induct)
  case (2 x n u bs y)
  show ?case
  proof (cases "\<not> u \<and> y = x")
    case True
    then show ?thesis by (intro exI [of _ "[]"]) auto
  next
    case False
    then obtain xs m ys where "bs = xs @ (m, False) # ys" "y = x + n + total xs" using 2 by auto
    then show ?thesis by (intro exI [of _ "(n, u) # xs"]) auto
  qed
qed simp

lemma free_at_merge:
  "free_at 0 (merge_free xs n ys) y \<Longrightarrow> free_at 0 (xs @ (n, False) # ys) y"
proof (rule merge_free_cases [of xs n ys])
  fix ws vs zs us k
  assume a: "free_at 0 (merge_free xs n ys) y" "merge_free xs n ys = ws @ (k, False) # zs"
    "xs = ws @ vs" "ys = us @ zs" "\<forall>b \<in> set vs. \<not> snd b" "k = total vs + n + total us"
  have "free_at 0 (vs @ (n, False) # us) 0" using a by (cases vs) auto
  then have "free_at (total ws) (vs @ (n, False) # us) (total ws)"
    using a(5) by (cases vs) auto
  then show ?thesis using a by (auto simp: free_at_append add.assoc)
qed

text \<open>Marking a block free keeps the chain.\<close>

lemma set_used_shape:
  assumes s: "heap_shape h (xs @ (n, u) # ys)"
  shows "heap_shape (set_used (heap_ptr h + of_nat (total xs)) (if v then 1 else 0) h)
    (xs @ (n, v) # ys)"
proof -
  let ?h = "set_used (heap_ptr h + of_nat (total xs)) (if v then 1 else 0) h"
  have b: "total xs < 2 ^ 32" "total xs < total (xs @ (n, u) # ys)"
    using heap_shape_bound [OF s, of "total xs"] heap_shape_mid(2) [OF s] by simp_all
  have hd: "hdr ?h = (hdr h)(total xs := (hdr h (total xs))\<lparr>hm_used := if v then 1 else 0\<rparr>)"
    by (rule hdr_set(3) [OF b(1)])
  show ?thesis
  proof (rule heap_shape_base [OF s])
    show "same_base h ?h" by (simp add: same_base_def)
    show "chain (hdr ?h) 0 0 (xs @ (n, v) # ys)"
      unfolding hd by (rule chain_flag [OF heap_shape_chain [OF s]])
    show "hm_used (hdr ?h (total (xs @ (n, u) # ys))) = 1"
      using heap_shape_end_hdr [OF s] b(2) by (simp add: hd del: total_simps)
  qed simp
qed

lemma set_magic_id:
  "hm_magic (blk h p) = v \<Longrightarrow> set_magic p v h = h"
proof -
  assume "hm_magic (blk h p) = v"
  then have "(blk h)(p := (blk h p)\<lparr>hm_magic := v\<rparr>) = blk h" by (cases "blk h p") auto
  then show ?thesis by (simp add: set_magic_def)
qed

lemma heap_shape_lfree [simp]:
  "heap_shape (h\<lparr>lfree := p\<rparr>) bs = heap_shape h bs"
  "heap_shape (h\<lparr>used_mem := n\<rparr>) bs = heap_shape h bs"
  "heap_shape (h\<lparr>max_mem := n\<rparr>) bs = heap_shape h bs"
  "heap_shape (h\<lparr>ram := r\<rparr>) bs = heap_shape h bs"
  by (simp_all add: heap_shape_def)

lemma free_ok:
  assumes wf: "heap_wf h (xs @ (n, True) # ys)" and n: "12 < n"
  obtains h' where "rt_free (Some (payload h (total xs))) h = Some h'"
    "heap_wf h' (merge_free xs n ys)"
    "lfree_lowest h (xs @ (n, True) # ys) \<Longrightarrow> lfree_lowest h' (merge_free xs n ys)"
    "heap_ptr h' = heap_ptr h" "mem_size_aligned h' = mem_size_aligned h" "ram h' = ram h"
proof -
  let ?bs = "xs @ (n, True) # ys" and ?cs = "xs @ (n, False) # ys"
  let ?m = "heap_ptr h + of_nat (total xs)"
  have s: "heap_shape h ?bs" and na: "no_adj ?bs" and l: "lfree_ok h ?bs"
    and us: "used_mem h = of_nat (used_bytes ?bs)" using wf by (auto simp: heap_wf_def)
  note mid = heap_shape_mid [OF s]
  define h1 where "h1 = set_used ?m 0 h"
  have s1: "heap_shape h1 ?cs" using set_used_shape [OF s, of False] by (simp add: h1_def)
  have mid1: "blk h1 ?m = \<lparr>hm_magic = HEAP_MAGIC, hm_used = 0,
      hm_next = of_nat (total xs + n), hm_prev = of_nat (last_off 0 0 xs)\<rparr>"
    using mid by (simp add: h1_def set_used_def)
  define h2 where "h2 = (if ?m < lfree h1 then h1\<lparr>lfree := ?m\<rparr> else h1)"
  define h3 where "h3 = h2\<lparr>used_mem := used_mem h2 - of_nat n\<rparr>"
  have b3: "heap_ptr h3 = heap_ptr h" "blk h3 = blk h1" "ram h3 = ram h"
    "mem_size_aligned h3 = mem_size_aligned h"
    by (simp_all add: h3_def h2_def h1_def)
  have l1: "lfree h1 = lfree h" by (simp add: h1_def)
  have s3: "heap_shape h3 ?cs" using s1 by (simp add: h3_def h2_def)
  have "lfree_ok h3 ?cs"
  proof (cases "?m < lfree h")
    case True
    then show ?thesis
      by (auto simp: lfree_ok_def h3_def h2_def h1_def free_at_append intro!: exI [of _ "total xs"])
  next
    case False
    obtain x where "lfree h = heap_ptr h + of_nat x" "free_at 0 ?bs x \<or> x = total ?bs"
      using l by (auto simp: lfree_ok_def)
    then show ?thesis using False b3(1) l1
      by (auto simp: lfree_ok_def h3_def h2_def free_at_append intro!: exI [of _ x])
  qed
  then obtain h' where h': "plug_holes (heap_ptr h3 + of_nat (total xs)) h3 = Some h'"
    "heap_shape h' (merge_free xs n ys)" "lfree_ok h' (merge_free xs n ys)" "same_base h3 h'"
    "lfree h' \<le> lfree h3"
    using plug_holes_ok [OF s3] by blast
  have um: "used_mem h' = of_nat (used_bytes (merge_free xs n ys))"
    using h'(4) us by (simp add: same_base_def h3_def h2_def h1_def used_bytes_merge)
  have na': "no_adj (merge_free xs n ys)" using na by (intro no_adj_merge) (auto simp: no_adj_append no_adj_Cons)
  have "rt_free (Some (payload h (total xs))) h = plug_holes ?m h3"
    using payload_props [OF s] n mid mid1
    by (simp add: rt_free_def and_3_eq_0 h3_def h2_def h1_def set_magic_id Let_def)
  then have "rt_free (Some (payload h (total xs))) h = Some h'" using h'(1) b3(1) by simp
  moreover have "heap_wf h' (merge_free xs n ys)"
    using h' um na' by (simp add: heap_wf_def)
  moreover have "lfree_lowest h' (merge_free xs n ys)" if low: "lfree_lowest h ?bs"
    unfolding lfree_lowest_def
  proof (intro allI impI)
    fix y assume "free_at 0 (merge_free xs n ys) y"
    then have "free_at 0 ?cs y" by (rule free_at_merge)
    then have "y = total xs \<or> free_at 0 ?bs y" by (auto simp: free_at_append)
    then have "lfree h3 \<le> heap_ptr h + of_nat y"
      using low l1 unfolding lfree_lowest_def h3_def h2_def
      by (auto simp: not_less)
    then show "lfree h' \<le> heap_ptr h' + of_nat y"
      using h'(4,5) b3(1) by (simp add: same_base_def)
  qed
  ultimately show ?thesis using that h'(4) b3 by (simp add: same_base_def)
qed

subsection \<open>Allocation\<close>

text \<open>The first block from \<open>x\<close> on, below the limit, that is free and long enough.\<close>

fun first_fit :: "nat \<Rightarrow> nat \<Rightarrow> nat \<Rightarrow> blocks \<Rightarrow> nat option" where
  "first_fit s lim x [] = None"
| "first_fit s lim x ((n, u) # bs) =
     (if x < lim then (if \<not> u \<and> s + 12 \<le> n then Some x else first_fit s lim (x + n) bs)
      else None)"

lemma first_fit_Some:
  "first_fit s lim x bs = Some y \<Longrightarrow>
    \<exists>xs n ys. bs = xs @ (n, False) # ys \<and> y = x + total xs \<and> s + 12 \<le> n \<and> y < lim"
proof (induction s lim x bs rule: first_fit.induct)
  case (2 s lim x n u bs)
  show ?case
  proof (cases "\<not> u \<and> s + 12 \<le> n")
    case True
    then show ?thesis using "2.prems" by (intro exI [of _ "[]"]) (auto split: if_splits)
  next
    case False
    then obtain xs m ys where "bs = xs @ (m, False) # ys" "y = x + n + total xs" "s + 12 \<le> m"
      "y < lim"
      using 2 by (auto split: if_splits)
    then show ?thesis by (intro exI [of _ "(n, u) # xs"]) auto
  qed
qed simp

lemma first_fit_None:
  "first_fit s lim x bs = None \<Longrightarrow> bs = xs @ (n, False) # ys \<Longrightarrow> x + total xs < lim \<Longrightarrow>
    n < s + 12"
proof (induction s lim x bs arbitrary: xs rule: first_fit.induct)
  case (2 s lim x m u bs)
  show ?case
  proof (cases xs)
    case Nil
    then show ?thesis using 2 by (auto split: if_splits)
  next
    case (Cons a zs)
    then show ?thesis using "2.IH" [of zs] "2.prems" by (auto split: if_splits)
  qed
qed simp

lemma unat_le_of_nat:
  "unat (a::u32) = n \<Longrightarrow> m < 2 ^ 32 \<Longrightarrow> a \<le> of_nat m \<longleftrightarrow> n \<le> m"
  by (simp add: word_le_nat_alt unat_of_nat)

text \<open>The search ends and finds the first fit: the chain has an end, marked used.\<close>

lemma malloc_search_ok:
  assumes "heap_shape h (xs @ ys)" "sz \<le> mem_size_aligned h"
  shows "malloc_search h sz (of_nat (total xs)) =
    Some (map_option of_nat
      (first_fit (unat sz) (unat (mem_size_aligned h - sz)) (total xs) ys))"
  using assms(1)
proof (induction ys arbitrary: xs)
  case Nil
  then have t: "total xs = unat (mem_size_aligned h) + 12" "total xs < 2 ^ 32"
    using heap_shape_bound [OF Nil, of "total xs"] by (simp_all add: heap_shape_def)
  have "unat (of_nat (total xs) :: u32) = total xs" using t(2) by (simp only: unat_of_nat) simp
  then have "\<not> of_nat (total xs) < mem_size_aligned h - sz"
    using assms(2) t(1) by (simp only: word_less_nat_alt unat_sub)
  then show ?case by (subst malloc_search.simps) simp
next
  case (Cons b ys)
  obtain n u where b: "b = (n, u)" by (cases b)
  have s: "heap_shape h (xs @ (n, u) # ys)" using Cons.prems b by simp
  note mid = heap_shape_mid [OF s]
  have x: "total xs + n < 2 ^ 32" using heap_shape_bound [OF s, of "total xs + n"] by simp
  have lt: "of_nat (total xs) < mem_size_aligned h - sz \<longleftrightarrow>
      total xs < unat (mem_size_aligned h - sz)"
    using x by (simp add: word_less_nat_alt unat_of_nat)
  have e: "hm_next (blk h (heap_ptr h + of_nat (total xs))) - (of_nat (total xs) + 12)
      = of_nat (n - 12)"
    using mid by (simp add: of_nat_diff)
  have "sz \<le> of_nat (n - 12) \<longleftrightarrow> unat sz \<le> n - 12"
    using x by (intro unat_le_of_nat) simp_all
  then have fits: "sz \<le> hm_next (blk h (heap_ptr h + of_nat (total xs))) - (of_nat (total xs) + 12)
      \<longleftrightarrow> unat sz + 12 \<le> n"
    unfolding e using mid(2) by linarith
  have "malloc_search h sz (of_nat (total (xs @ [(n, u)]))) = Some (map_option of_nat
      (first_fit (unat sz) (unat (mem_size_aligned h - sz)) (total xs + n) ys))"
    using Cons.IH [of "xs @ [(n, u)]"] s by simp
  then have ih: "malloc_search h sz (of_nat (total xs + n)) = Some (map_option of_nat
      (first_fit (unat sz) (unat (mem_size_aligned h - sz)) (total xs + n) ys))"
    by simp
  show ?case
    using mid(1) fits by (subst malloc_search.simps) (simp add: lt ih b Let_def del: of_nat_add)
qed

lemma lfree_search_ok:
  assumes "heap_shape h (xs @ ys)"
  shows "lfree_search h (heap_ptr h + of_nat (total xs)) =
    Some (heap_ptr h + of_nat (total (xs @ takeWhile snd ys)))"
  using assms
proof (induction ys arbitrary: xs)
  case Nil
  then show ?case using heap_shape_heap_end [OF Nil]
    by (subst lfree_search.simps) simp
next
  case (Cons b ys)
  obtain n u where b: "b = (n, u)" by (cases b)
  have s: "heap_shape h (xs @ (n, u) # ys)" using Cons.prems b by simp
  note mid = heap_shape_mid [OF s]
  have ih: "lfree_search h (heap_ptr h + of_nat (total xs + n)) =
      Some (heap_ptr h + of_nat (total (xs @ (n, u) # takeWhile snd ys)))"
    using Cons.IH [of "xs @ [(n, u)]"] s by simp
  have "heap_ptr h + of_nat (total xs) \<noteq> heap_end h"
    using heap_ptr_eq [OF s _ order_refl, of "total xs"] mid(2) heap_shape_heap_end [OF s] by simp
  then show ?case using mid(1) ih b
    by (subst lfree_search.simps) (simp del: of_nat_add)
qed

text \<open>What taking \<open>s\<close> bytes leaves of a free block of \<open>n\<close> bytes.\<close>

definition taken :: "nat \<Rightarrow> nat \<Rightarrow> blocks" where
  "taken s n = (if s + 36 \<le> n then [(s + 12, True), (n - (s + 12), False)] else [(n, True)])"

lemma total_taken [simp]: "total (taken s n) = n"
  by (auto simp: taken_def)

lemma heap_mem_all:
  "(r::heap_mem)\<lparr>hm_magic := a, hm_used := b, hm_next := c, hm_prev := d\<rparr> =
    \<lparr>hm_magic = a, hm_used = b, hm_next = c, hm_prev = d\<rparr>"
  by (cases r) simp

lemma split_block_shape:
  assumes s: "heap_shape h (xs @ (n, u) # ys)" and k: "12 \<le> k" "k + 12 \<le> n" "4 dvd k"
  defines "h' \<equiv> split_block (of_nat (total xs)) (of_nat (total xs + k)) h"
  shows "heap_shape h' (xs @ (k, u) # (n - k, False) # ys) \<and> same_base h h' \<and>
    lfree h' = lfree h \<and> max_mem h' = max_mem h"
proof -
  let ?q = "total xs"
  let ?t = "total (xs @ (n, u) # ys)"
  note mid = heap_shape_mid [OF s]
  have t: "?t < 2 ^ 32" "?q + n \<le> ?t" "?q + k < ?t" "?q + k < 2 ^ 32" "?q < 2 ^ 32"
    using heap_shape_bound [OF s order_refl] k by auto
  define mem2 where "mem2 = heap_ptr h + of_nat (?q + k)"
  define h1 where "h1 = set_prev mem2 (of_nat ?q)
    (set_next mem2 (of_nat (?q + n)) (set_used mem2 0 (set_magic mem2 HEAP_MAGIC h)))"
  define h2 where "h2 = set_next (heap_ptr h + of_nat ?q) (of_nat (?q + k)) h1"
  have ne: "mem2 \<noteq> heap_ptr h + of_nat ?q"
    unfolding mem2_def using heap_ptr_eq [OF s, of "?q + k" ?q] t k by simp
  have e: "mem_size_aligned h + 12 = of_nat ?t"
  proof -
    have "of_nat ?t = (of_nat (unat (mem_size_aligned h) + 12) :: u32)"
      using s unfolding heap_shape_def by metis
    then show ?thesis by simp
  qed
  have ys: "of_nat (?q + n) \<noteq> mem_size_aligned h + 12 \<longleftrightarrow> ys \<noteq> []"
  proof -
    have "of_nat (?q + n) = (of_nat ?t :: u32) \<longleftrightarrow> ?q + n = ?t"
      using t by (intro word_of_nat_eq) auto
    moreover have "?q + n = ?t \<longleftrightarrow> ys = []"
    proof (cases ys)
      case (Cons b zs)
      then have "12 \<le> fst b"
        using heap_shape_mid(2) [of h "xs @ [(n, u)]" "fst b" "snd b" zs] s by (cases b) simp
      then show ?thesis using Cons by (cases b) auto
    qed simp
    ultimately show ?thesis using e by simp
  qed
  have h': "h' = (if ys = [] then h2 else set_prev (heap_ptr h2 + of_nat (?q + n))
      (of_nat (?q + k)) h2)"
    using mid(1) ne ys unfolding h'_def split_block_def Let_def mem2_def [symmetric]
    by (simp add: h2_def h1_def set_next_def set_prev_def set_used_def set_magic_def
        del: of_nat_add)
  have hd1: "hdr h1 = (hdr h)(?q + k := \<lparr>hm_magic = HEAP_MAGIC, hm_used = 0,
      hm_next = of_nat (?q + n), hm_prev = of_nat ?q\<rparr>)"
  proof -
    have "h1 = h\<lparr>blk := (blk h)(heap_ptr h + of_nat (?q + k) := \<lparr>hm_magic = HEAP_MAGIC,
        hm_used = 0, hm_next = of_nat (?q + n), hm_prev = of_nat ?q\<rparr>)\<rparr>"
      by (simp add: h1_def mem2_def set_next_def set_prev_def set_used_def set_magic_def
          heap_mem_all del: of_nat_add)
    then show ?thesis using hdr_upd [OF t(4), of h] by simp
  qed
  have b1: "heap_ptr h1 = heap_ptr h" "heap_ptr h2 = heap_ptr h" by (simp_all add: h1_def h2_def)
  have hd2: "hdr h2 = (hdr h1)(?q := (hdr h ?q)\<lparr>hm_next := of_nat (?q + k)\<rparr>)"
  proof -
    have "hdr h2 = (hdr h1)(?q := (hdr h1 ?q)\<lparr>hm_next := of_nat (?q + k)\<rparr>)"
      unfolding h2_def b1(1) [symmetric] by (rule hdr_set(1) [OF t(5)])
    moreover have "hdr h1 ?q = hdr h ?q" using k by (simp add: hd1)
    ultimately show ?thesis by simp
  qed
  have hd': "hdr h' = (if ys = [] then hdr h2
      else (hdr h2)(?q + n := (hdr h2 (?q + n))\<lparr>hm_prev := of_nat (?q + k)\<rparr>))"
    using h' hdr_set(2) [of "?q + n" h2] t by simp
  have "chain (hdr h') 0 0 (xs @ (k, u) # (n - k, False) # ys)"
    by (rule chain_split [OF heap_shape_chain [OF s] k refl _ hd']) (simp add: hd2 hd1)
  moreover have base: "same_base h h'"
    by (simp add: h' h2_def h1_def same_base_def)
  moreover have "hm_used (hdr h' ?t) = 1"
  proof -
    have "hdr h2 ?t = hdr h ?t" using t k by (simp add: hd2 hd1 del: total_simps)
    then show ?thesis using heap_shape_end_hdr [OF s]
      by (simp only: hd' hm_used_upd split: if_split) simp
  qed
  ultimately have "heap_shape h' (xs @ (k, u) # (n - k, False) # ys)"
    using heap_shape_base [OF s] k by auto
  then show ?thesis using base by (simp add: h' h2_def h1_def set_next_def set_prev_def
        set_used_def set_magic_def)
qed

lemma no_adj_takeWhile:
  assumes "free_at (x + total (takeWhile snd ys)) (dropWhile snd ys) y"
  shows "x + total (takeWhile snd ys) \<le> y"
  using assms
proof (induction ys arbitrary: x)
  case (Cons b ys)
  obtain n u where b: "b = (n, u)" by (cases b)
  show ?case
  proof (cases u)
    case True
    then show ?thesis using Cons.IH [of "x + n"] Cons.prems b by (simp add: add.assoc)
  next
    case False
    have "free_at z cs w \<Longrightarrow> z \<le> w" for z cs w
      by (induction z cs w rule: free_at.induct) fastforce+
    then show ?thesis using Cons.prems by blast
  qed
qed simp

lemma free_at_used: "free_at x (takeWhile snd ys @ zs) y = free_at (x + total (takeWhile snd ys)) zs y"
proof (induction ys arbitrary: x)
  case (Cons b ys)
  obtain n u where b: "b = (n, u)" by (cases b)
  show ?case
  proof (cases u)
    case True
    then show ?thesis using Cons.IH [of "x + n"] b by (simp add: add.assoc)
  qed (use b in simp)
qed simp

lemma drop_free: "dropWhile snd ys = [] \<or> (\<exists>n zs. dropWhile snd ys = (n, False) # zs)"
proof (cases "dropWhile snd ys")
  case (Cons b zs)
  then have "\<not> snd b" by (metis hd_dropWhile list.distinct(1) list.sel(1))
  then show ?thesis using Cons by (cases b) auto
qed simp

text \<open>After the lowest free block is taken, the scan finds the next one.\<close>

lemma lfree_advance:
  assumes s: "heap_shape h (xs @ ys)" and low: "\<And>y. free_at 0 xs y \<Longrightarrow> P \<Longrightarrow> False"
  obtains p where "lfree_search h (heap_ptr h + of_nat (total xs)) = Some p"
    "p = heap_end h \<or> hm_used (blk h p) = 0" "lfree_ok (h\<lparr>lfree := p\<rparr>) (xs @ ys)"
    "P \<Longrightarrow> lfree_lowest (h\<lparr>lfree := p\<rparr>) (xs @ ys)"
proof -
  let ?w = "takeWhile snd ys" and ?z = "dropWhile snd ys"
  let ?x = "total (xs @ ?w)"
  have ys: "xs @ ys = (xs @ ?w) @ ?z" by simp
  have x: "?x \<le> total (xs @ ys)" unfolding ys total_simps by linarith
  have c: "?x = total (xs @ ys) \<or> (\<exists>n zs. ?z = (n, False) # zs)"
    using drop_free [of ys] ys by (metis append_Nil2)
  have f: "lfree_search h (heap_ptr h + of_nat (total xs)) = Some (heap_ptr h + of_nat ?x)"
    by (rule lfree_search_ok [OF s])
  have "heap_ptr h + of_nat ?x = heap_end h \<or> hm_used (blk h (heap_ptr h + of_nat ?x)) = 0"
    using c
  proof
    assume "\<exists>n zs. ?z = (n, False) # zs"
    then obtain n zs where "xs @ ys = (xs @ ?w) @ (n, False) # zs" using ys by metis
    then show ?thesis using heap_shape_mid(1) [of h "xs @ ?w" n False zs] s by simp
  qed (simp add: heap_shape_heap_end [OF s])
  moreover have "lfree_ok (h\<lparr>lfree := heap_ptr h + of_nat ?x\<rparr>) (xs @ ys)"
  proof -
    have "free_at 0 (xs @ ys) ?x \<or> ?x = total (xs @ ys)"
      using c
    proof
      assume "\<exists>n zs. ?z = (n, False) # zs"
      then have "free_at (0 + total (xs @ ?w)) ?z ?x" by auto
      then show ?thesis using ys free_at_append by metis
    qed simp
    then show ?thesis by (auto simp: lfree_ok_def intro: exI [of _ ?x])
  qed
  moreover have "lfree_lowest (h\<lparr>lfree := heap_ptr h + of_nat ?x\<rparr>) (xs @ ys)" if P
    unfolding lfree_lowest_def
  proof (intro allI impI)
    fix y assume fy: "free_at 0 (xs @ ys) y"
    then have "free_at (total xs) (?w @ ?z) y" using low \<open>P\<close> by (auto simp: free_at_append)
    then have "free_at (total xs + total ?w) ?z y" by (simp only: free_at_used)
    then have "?x \<le> y" using no_adj_takeWhile by simp
    moreover have "y \<le> total (xs @ ys)"
      using free_at_bounds [OF fy heap_shape_chain [OF s]] by simp
    ultimately show "lfree (h\<lparr>lfree := heap_ptr h + of_nat ?x\<rparr>)
        \<le> heap_ptr (h\<lparr>lfree := heap_ptr h + of_nat ?x\<rparr>) + of_nat y"
      using heap_ptr_less(2) [OF s x] by simp
  qed
  ultimately show ?thesis using that f by blast
qed

lemma add_used_mem_sel [simp]:
  "heap_ptr (add_used_mem n h) = heap_ptr h" "blk (add_used_mem n h) = blk h"
  "lfree (add_used_mem n h) = lfree h" "heap_end (add_used_mem n h) = heap_end h"
  "mem_size_aligned (add_used_mem n h) = mem_size_aligned h" "ram (add_used_mem n h) = ram h"
  "used_mem (add_used_mem n h) = used_mem h + n"
  "heap_shape (add_used_mem n h) bs = heap_shape h bs"
  by (simp_all add: add_used_mem_def Let_def)

lemma heap_shape_magic:
  assumes "heap_shape h (xs @ (n, u) # ys)"
  shows "set_magic (heap_ptr h + of_nat (total xs)) HEAP_MAGIC h = h"
  using heap_shape_mid(1) [OF assms] by (simp add: set_magic_id)

lemma carve_ok:
  assumes s: "heap_shape h (xs @ (n, False) # ys)" and fit: "s + 12 \<le> n" and k: "4 dvd s"
  defines "h' \<equiv> carve (of_nat s) (of_nat (total xs)) h"
  shows "heap_shape h' (xs @ taken s n @ ys) \<and> heap_ptr h' = heap_ptr h \<and>
    mem_size_aligned h' = mem_size_aligned h \<and> ram h' = ram h \<and> lfree h' = lfree h \<and>
    used_mem h' = used_mem h + of_nat (used_bytes (taken s n))"
proof -
  let ?q = "total xs"
  note mid = heap_shape_mid [OF s]
  have b: "total (xs @ (n, False) # ys) + 12 < 2 ^ 32" using s by (auto simp: heap_shape_def)
  have sn: "unat (of_nat s + 24 :: u32) = s + 24"
    using b fit unat_of_nat [of "s + 24", where ?'a = 32] by simp
  have e: "hm_next (blk h (heap_ptr h + of_nat ?q)) - (of_nat ?q + 12) = of_nat (n - 12)"
    using mid by (simp add: of_nat_diff)
  have "of_nat s + 24 \<le> (of_nat (n - 12) :: u32) \<longleftrightarrow> s + 24 \<le> n - 12"
    using b by (intro unat_le_of_nat sn) simp
  then have c: "of_nat s + 24 \<le> hm_next (blk h (heap_ptr h + of_nat ?q)) - (of_nat ?q + 12)
      \<longleftrightarrow> s + 36 \<le> n"
    unfolding e using mid(2) by linarith
  show ?thesis
  proof (cases "s + 36 \<le> n")
    case True
    let ?h1 = "split_block (of_nat ?q) (of_nat (?q + (s + 12))) h"
    have h1: "heap_shape ?h1 (xs @ (s + 12, False) # (n - (s + 12), False) # ys)"
      "same_base h ?h1" "lfree ?h1 = lfree h"
      using split_block_shape [OF s, of "s + 12"] True k by auto
    have e: "of_nat ?q + 12 + of_nat s = (of_nat (?q + (s + 12)) :: u32)" by simp
    have "h' = add_used_mem (of_nat s + 12) (set_used (heap_ptr h + of_nat ?q) 1 ?h1)"
      unfolding h'_def carve_def Let_def heap_sizes e using c True
      by (simp add: add.assoc del: of_nat_add)
    moreover have "heap_ptr ?h1 = heap_ptr h" using h1(2) by (simp add: same_base_def)
    ultimately show ?thesis using set_used_shape [OF h1(1), of True] h1 True
      by (simp add: taken_def same_base_def)
  next
    case False
    have "h' = add_used_mem (of_nat n) (set_used (heap_ptr h + of_nat ?q) 1 h)"
      unfolding h'_def carve_def Let_def heap_sizes using c False mid(1)
      by (simp add: add.assoc set_used_def)
    then show ?thesis using set_used_shape [OF s, of True] False by (simp add: taken_def)
  qed
qed

lemma used_bytes_taken: "s + 12 \<le> n \<Longrightarrow> 0 < used_bytes (taken s n)"
  by (auto simp: taken_def)

lemma free_at_taken: "free_at x (taken s n) y \<Longrightarrow> x < y"
  by (auto simp: taken_def split: if_splits)

lemma no_adj_taken:
  "no_adj (xs @ (n, False) # ys) \<Longrightarrow> no_adj (xs @ taken s n @ ys)"
  by (auto simp: taken_def no_adj_append no_adj_Cons)

lemma malloc_take_ok:
  assumes wf: "heap_wf h (xs @ (n, False) # ys)" and fit: "s + 12 \<le> n" "4 dvd s" "12 \<le> s"
  obtains h' where
    "malloc_take (of_nat s) (of_nat (total xs)) h = Some (Some (payload h (total xs)), h')"
    "heap_wf h' (xs @ taken s n @ ys)"
    "lfree_lowest h (xs @ (n, False) # ys) \<Longrightarrow> lfree_lowest h' (xs @ taken s n @ ys)"
    "heap_ptr h' = heap_ptr h" "mem_size_aligned h' = mem_size_aligned h" "ram h' = ram h"
proof -
  let ?bs = "xs @ (n, False) # ys" and ?cs = "xs @ taken s n @ ys"
  let ?q = "total xs"
  let ?m = "heap_ptr h + of_nat ?q"
  have s: "heap_shape h ?bs" and na: "no_adj ?bs" and l: "lfree_ok h ?bs"
    and us: "used_mem h = of_nat (used_bytes ?bs)" using wf by (auto simp: heap_wf_def)
  define h1 where "h1 = carve (of_nat s) (of_nat ?q) h"
  have c: "heap_shape h1 ?cs" "heap_ptr h1 = heap_ptr h" "ram h1 = ram h"
    "mem_size_aligned h1 = mem_size_aligned h" "lfree h1 = lfree h"
    "used_mem h1 = used_mem h + of_nat (used_bytes (taken s n))"
    using carve_ok [OF s fit(1,2)] by (auto simp: h1_def)
  have um: "used_mem h1 = of_nat (used_bytes ?cs)" using c(6) us by simp
  obtain a where a: "taken s n = (a, True) # tl (taken s n)" "s + 12 \<le> a"
    using fit(1) that by (cases "s + 36 \<le> n") (simp_all add: taken_def)
  have "set_magic ?m HEAP_MAGIC h1 = h1"
    using heap_shape_magic [of h1 xs a True "tl (taken s n) @ ys"] c(1,2) a(1)
    by (metis append_Cons)
  then have m1: "set_magic ?m HEAP_MAGIC (carve (of_nat s) (of_nat ?q) h) = h1" by (simp add: h1_def)
  have asserts: "?m + 12 + of_nat s \<le> heap_end h1" "(?m + 12) mod 4 = 0" "?m AND 3 = 0"
  proof -
    have "?m + 12 + of_nat s = heap_ptr h + of_nat (?q + (12 + s))" by (simp add: add.assoc)
    moreover have "?q + (12 + s) \<le> total ?bs" using fit by simp
    ultimately show "?m + 12 + of_nat s \<le> heap_end h1"
      using heap_ptr_less(2) [OF s, of "?q + (12 + s)" "total ?bs"] c(2)
        heap_shape_heap_end [OF c(1)] by (simp add: add.assoc)
    show "(?m + 12) mod 4 = 0"
      using payload_props(1) [OF s] by (simp add: mod_4_eq_0 payload_def)
    show "?m AND 3 = 0" using heap_block_aligned [OF s] by (simp add: and_3_eq_0)
  qed
  obtain p where p: "(if ?m = lfree h1 then do {
              p \<leftarrow> lfree_search h1 (lfree h1);
              rt_assert (p = heap_end h1 \<or> hm_used (blk h1 p) = 0);
              Some (h1\<lparr>lfree := p\<rparr>)
            } else Some h1) = Some (h1\<lparr>lfree := p\<rparr>)"
    "lfree_ok (h1\<lparr>lfree := p\<rparr>) ?cs"
    "lfree_lowest h ?bs \<Longrightarrow> lfree_lowest (h1\<lparr>lfree := p\<rparr>) ?cs"
  proof (cases "?m = lfree h1")
    case True
    have "False" if "free_at 0 xs y" "lfree_lowest h ?bs" for y
    proof -
      have "heap_ptr h + of_nat ?q \<le> heap_ptr h + of_nat y"
        using that True c(5) by (auto simp: lfree_lowest_def free_at_append)
      moreover have "y < ?q"
        using free_at_bounds [OF that(1), of "hdr h" 0] heap_shape_chain [OF s]
        by (auto simp: chain_append)
      ultimately show False using heap_ptr_less(2) [OF s, of ?q y] by simp
    qed
    then obtain p where "lfree_search h1 (heap_ptr h1 + of_nat ?q) = Some p"
      "p = heap_end h1 \<or> hm_used (blk h1 p) = 0" "lfree_ok (h1\<lparr>lfree := p\<rparr>) ?cs"
      "lfree_lowest h ?bs \<Longrightarrow> lfree_lowest (h1\<lparr>lfree := p\<rparr>) ?cs"
      using lfree_advance [OF c(1), of "lfree_lowest h ?bs"] by metis
    moreover have "lfree h1 = heap_ptr h1 + of_nat ?q" using True c(2) by simp
    ultimately show ?thesis using that True by simp
  next
    case False
    obtain x where x: "lfree h = heap_ptr h + of_nat x" "free_at 0 ?bs x \<or> x = total ?bs"
      using l by (auto simp: lfree_ok_def)
    then have "x \<noteq> ?q" using False c(5) by auto
    then have "free_at 0 ?cs x \<or> x = total ?cs" using x(2) by (auto simp: free_at_append)
    then have "lfree_ok h1 ?cs" using x(1) c(2,5) by (auto simp: lfree_ok_def)
    moreover have "lfree_lowest h1 ?cs" if low: "lfree_lowest h ?bs"
      unfolding lfree_lowest_def
    proof (intro allI impI)
      fix y assume y: "free_at 0 ?cs y"
      then have "free_at 0 ?bs y \<or> free_at ?q (taken s n) y" by (auto simp: free_at_append)
      then show "lfree h1 \<le> heap_ptr h1 + of_nat y"
      proof
        assume "free_at ?q (taken s n) y"
        then have "?q \<le> y" using free_at_taken by fastforce
        moreover have "y \<le> total ?bs"
          using free_at_bounds [OF y heap_shape_chain [OF c(1)]] by simp
        moreover have "lfree h \<le> ?m" using low by (simp add: lfree_lowest_def free_at_append)
        ultimately show ?thesis
          using heap_ptr_less(2) [OF s, of ?q y] c(2,5) by simp
      qed (use low c(2,5) in \<open>simp add: lfree_lowest_def\<close>)
    qed
    moreover have "h1\<lparr>lfree := lfree h1\<rparr> = h1" by simp
    ultimately show ?thesis using that [of "lfree h1"] False by simp
  qed
  let ?h = "h1\<lparr>lfree := p\<rparr>"
  have "malloc_take (of_nat s) (of_nat ?q) h = Some (Some (payload h ?q), ?h)"
    unfolding malloc_take_def Let_def m1 heap_sizes p(1)
    using asserts by (simp add: payload_def)
  moreover have "heap_wf ?h ?cs"
    using c(1) um p(2) no_adj_taken [OF na] by (simp add: heap_wf_def)
  ultimately show ?thesis using that p(3) c by simp
qed

text \<open>The length asked for, rounded to words and to the minimum.\<close>

definition request :: "u32 \<Rightarrow> nat" where
  "request sz = max 12 (4 * ((unat sz + 3) div 4))"

lemma request_props: "12 \<le> request sz" "4 dvd request sz" "unat sz \<le> request sz"
proof -
  show "4 dvd request sz" by (simp add: request_def max_def)
  show "12 \<le> request sz" "unat sz \<le> request sz" unfolding request_def by linarith+
qed

lemma first_fit_used:
  "(\<And>y. \<not> free_at x xs y) \<Longrightarrow> (\<And>k u. (k, u) \<in> set xs \<Longrightarrow> 0 < k) \<Longrightarrow>
    first_fit s lim x (xs @ ys) = first_fit s lim (x + total xs) ys"
proof (induction xs arbitrary: x)
  case (Cons b xs)
  obtain k u where b: "b = (k, u)" by (cases b)
  have u: u and f: "\<not> free_at (x + k) xs y" for y using Cons.prems(1) b by auto
  have n: "first_fit s lim z cs = None" if "lim \<le> z" for z cs
    using that by (cases cs) auto
  have "first_fit s lim (x + k) (xs @ ys) = first_fit s lim (x + k + total xs) ys"
    by (rule Cons.IH) (use f Cons.prems(2) in auto)
  then show ?case using u b n by (auto simp: add.assoc)
qed simp

lemma first_fit_limit: "lim \<le> x \<Longrightarrow> first_fit s lim x bs = None"
  by (cases bs) auto

lemma lfree_split:
  assumes "heap_wf h bs"
  obtains xs ys where "bs = xs @ ys" "lfree h = heap_ptr h + of_nat (total xs)"
    "ys = [] \<or> (\<exists>n zs. ys = (n, False) # zs)"
proof -
  obtain x where x: "lfree h = heap_ptr h + of_nat x" "free_at 0 bs x \<or> x = total bs"
    using assms by (auto simp: heap_wf_def lfree_ok_def)
  show ?thesis
  proof (cases "x = total bs")
    case True
    then show ?thesis using that [of bs "[]"] x by auto
  next
    case False
    then obtain xs n ys where "bs = xs @ (n, False) # ys" "x = 0 + total xs"
      using x free_at_split [of 0 bs x] by auto
    then show ?thesis using that [of xs "(n, False) # ys"] x by auto
  qed
qed

text \<open>What \<open>rt_malloc\<close> does, in terms of the blocks: a first fit from \<open>lfree\<close> on.\<close>

lemma malloc_blocks:
  assumes wf: "heap_wf h (xs @ ys)" and lf: "lfree h = heap_ptr h + of_nat (total xs)"
    and sz: "sz \<noteq> 0" "sz \<le> 0xfffffffc"
  defines "f \<equiv> first_fit (request sz) (unat (mem_size_aligned h) - request sz) (total xs) ys"
  shows "f = None \<and> rt_malloc sz h = Some (None, h) \<or>
    (\<exists>as n bs h'. xs @ ys = as @ (n, False) # bs \<and> f = Some (total as) \<and> request sz + 12 \<le> n \<and>
       rt_malloc sz h = Some (Some (payload h (total as)), h') \<and>
       heap_wf h' (as @ taken (request sz) n @ bs) \<and>
       (lfree_lowest h (xs @ ys) \<longrightarrow> lfree_lowest h' (as @ taken (request sz) n @ bs)) \<and>
       heap_ptr h' = heap_ptr h \<and> mem_size_aligned h' = mem_size_aligned h \<and> ram h' = ram h)"
proof -
  have s: "heap_shape h (xs @ ys)" using wf by (simp add: heap_wf_def)
  have "unat sz \<le> 0xfffffffc" using sz(2) by (simp add: word_le_nat_alt)
  then have al: "unat (RT_ALIGN sz 4) = 4 * ((unat sz + 3) div 4)" by (simp add: unat_RT_ALIGN)
  define r where "r = (if RT_ALIGN sz 4 < 12 then 12 else RT_ALIGN sz 4)"
  have r: "unat r = request sz" using al by (simp add: r_def request_def word_less_nat_alt max_def)
  have ms: "12 \<le> unat (mem_size_aligned h)" using s by (simp add: heap_shape_def)
  have big: "mem_size_aligned h < RT_ALIGN sz 4 \<longleftrightarrow> unat (mem_size_aligned h) < request sz"
    using al ms by (auto simp: word_less_nat_alt request_def)
  show ?thesis
  proof (cases "mem_size_aligned h < RT_ALIGN sz 4")
    case True
    then have "f = None" using big by (simp add: f_def first_fit_limit)
    then show ?thesis using True sz(1) by (simp add: rt_malloc_def Let_def)
  next
    case False
    then have le: "r \<le> mem_size_aligned h" using big r by (simp add: word_le_nat_alt)
    then have lim: "unat (mem_size_aligned h - r) = unat (mem_size_aligned h) - request sz"
      using r by (simp add: unat_sub word_le_nat_alt)
    have "malloc_search h r (lfree h - heap_ptr h) = Some (map_option of_nat f)"
      using malloc_search_ok [OF s le] lf by (simp add: f_def r lim)
    then have m: "rt_malloc sz h =
        (case map_option of_nat f of None \<Rightarrow> Some (None, h) | Some ptr \<Rightarrow> malloc_take r ptr h)"
      using sz(1) False unfolding rt_malloc_def Let_def heap_sizes r_def [symmetric] by simp
    show ?thesis
    proof (cases f)
      case (Some y)
      then obtain zs n bs where f: "ys = zs @ (n, False) # bs" "y = total xs + total zs"
        "request sz + 12 \<le> n"
        using first_fit_Some [OF Some [unfolded f_def]] by auto
      have b: "xs @ ys = (xs @ zs) @ (n, False) # bs" using f by simp
      have rr: "of_nat (request sz) = r" using r by (metis of_nat_unat ucast_id)
      obtain h' where h': "malloc_take (of_nat (request sz)) (of_nat (total (xs @ zs))) h
            = Some (Some (payload h (total (xs @ zs))), h')"
        "heap_wf h' ((xs @ zs) @ taken (request sz) n @ bs)"
        "lfree_lowest h ((xs @ zs) @ (n, False) # bs) \<Longrightarrow>
           lfree_lowest h' ((xs @ zs) @ taken (request sz) n @ bs)"
        "heap_ptr h' = heap_ptr h" "mem_size_aligned h' = mem_size_aligned h" "ram h' = ram h"
        using malloc_take_ok [OF wf [unfolded b] f(3) request_props(2,1)] by metis
      have "rt_malloc sz h = malloc_take r (of_nat (total (xs @ zs))) h"
        using m Some f(2) by simp
      then show ?thesis using h' b f rr Some by (intro disjI2 exI [of _ "xs @ zs"] exI) auto
    qed (use m in simp)
  qed
qed

subsection \<open>Initialisation and resizing\<close>

lemma heap_init_ok:
  fixes h :: heap
  assumes "unat e - unat (RT_ALIGN b 4) \<ge> 40" "unat b + 3 < 2 ^ 32"
  defines "h' \<equiv> rt_system_heap_init b e (h\<lparr>used_mem := 0\<rparr>)"
  shows "heap_wf h' [(unat (mem_size_aligned h') + 12, False)] \<and>
    lfree_lowest h' [(unat (mem_size_aligned h') + 12, False)] \<and> heap_ptr h' = RT_ALIGN b 4"
proof -
  let ?b = "RT_ALIGN b 4" and ?e = "RT_ALIGN_DOWN e 4"
  have ub: "unat ?b = 4 * ((unat b + 3) div 4)" using assms(2) by (rule unat_RT_ALIGN)
  have ue: "unat ?e = 4 * (unat e div 4)" by (rule unat_RT_ALIGN_DOWN)
  have d4: "4 dvd unat ?b" "4 dvd unat ?e" using ub ue by auto
  have ge: "unat ?b + 36 \<le> unat ?e" using assms(1) ub ue by linarith
  have e32: "unat ?e < 2 ^ 32" using unsigned_less [of ?e, where ?'a = nat] by simp
  define m where "m = ?e - ?b - 24"
  have um: "unat m = unat ?e - unat ?b - 24"
    using ge by (simp add: m_def unat_sub word_le_nat_alt)
  have c: "24 < ?e" "?b \<le> ?e - 24"
    using ge by (simp_all add: word_less_nat_alt word_le_nat_alt unat_sub)
  let ?first = "\<lparr>hm_magic = HEAP_MAGIC, hm_used = 0, hm_next = m + 12, hm_prev = 0\<rparr>"
  let ?last = "\<lparr>hm_magic = HEAP_MAGIC, hm_used = 1, hm_next = m + 12, hm_prev = m + 12\<rparr>"
  have h': "h' = h\<lparr>used_mem := 0, mem_size_aligned := m, heap_ptr := ?b,
      blk := (blk h)(?b := ?first, ?b + (m + 12) := ?last), heap_end := ?b + (m + 12),
      lfree := ?b\<rparr>"
    using c by (simp add: h'_def rt_system_heap_init_def Let_def m_def)
  have n12: "of_nat (unat m + 12) = m + 12" by simp
  have nz: "m + 12 \<noteq> 0"
  proof
    assume "m + 12 = 0"
    then have "unat (m + 12) = 0" by simp
    moreover have "unat (m + 12) = unat m + 12" using um e32 by (simp add: unat_word_ariths)
    ultimately show False by simp
  qed
  have lt: "unat m + 12 < 2 ^ 32" using um e32 ge by linarith
  have hd: "hdr h' 0 = ?first" "hdr h' (unat m + 12) = ?last"
    using nz lt by (simp_all add: hdr_def h')
  have d: "4 dvd unat m + 12" unfolding um using d4 ge by presburger
  have sel: "heap_ptr h' = ?b" "mem_size_aligned h' = m" "heap_end h' = ?b + (m + 12)"
    "lfree h' = ?b" "used_mem h' = 0"
    by (simp_all add: h')
  have "12 \<le> unat m" "unat ?b + (unat m + 12) + 12 < 2 ^ 32" using um ge e32 by linarith+
  then have "heap_shape h' [(unat m + 12, False)]"
    using hd d4(1) d unfolding heap_shape_def sel by (simp add: n12)
  then show ?thesis
    by (auto simp: heap_wf_def lfree_ok_def lfree_lowest_def sel intro!: exI [of _ 0])
qed

lemma heap_wf_ram [simp]: "heap_wf (h\<lparr>ram := r\<rparr>) bs = heap_wf h bs"
  by (simp add: heap_wf_def lfree_ok_def)

lemma payload_ram [simp]: "payload (h\<lparr>ram := r\<rparr>) x = payload h x"
  by (simp add: payload_def)

text \<open>The bytes of two different blocks do not meet: a copy between them is safe.\<close>

lemma payload_disjoint:
  assumes s: "heap_shape h bs" and x: "x + 12 + k \<le> total bs" and y: "y + 12 + l \<le> total bs"
    and d: "x + 12 + k \<le> y \<or> y + 12 + l \<le> x" and i: "i < k" "j < l"
  shows "payload h x + of_nat i \<noteq> payload h y + of_nat j"
proof -
  have "payload h x + of_nat i = heap_ptr h + of_nat (x + 12 + i)"
    "payload h y + of_nat j = heap_ptr h + of_nat (y + 12 + j)"
    by (simp_all add: payload_def algebra_simps)
  moreover have "x + 12 + i \<noteq> y + 12 + j" using d i by linarith
  ultimately show ?thesis
    using heap_ptr_eq [OF s, of "x + 12 + i" "y + 12 + j"] x y i by (simp del: of_nat_add)
qed

lemma blit_at:
  "i < n \<Longrightarrow> n \<le> 2 ^ 32 \<Longrightarrow> blit d s n m (d + of_nat i) = m (s + of_nat i)"
  by (simp add: blit_def unat_of_nat)

lemma blit_away:
  "(\<And>i. i < n \<Longrightarrow> a \<noteq> d + of_nat i) \<Longrightarrow> blit d s n m a = m a"
proof -
  assume a: "\<And>i. i < n \<Longrightarrow> a \<noteq> d + of_nat i"
  have "\<not> unat (a - d) < n" using a [of "unat (a - d)"] by auto
  then show ?thesis by (simp add: blit_def)
qed

text \<open>Shrinking in place: the rest becomes a free block.\<close>

lemma realloc_shrink:
  assumes wf: "heap_wf h (as @ (n, True) # bs)" and n: "r + 36 < n" "4 dvd r"
  defines "xs \<equiv> as @ [(r + 12, True)]"
  obtains h' where "plug_holes (heap_ptr h + of_nat (total xs))
      (split_block (of_nat (total as)) (of_nat (total xs))
        (h\<lparr>used_mem := used_mem h - (of_nat (n - 12) - of_nat r)\<rparr>)) = Some h'"
    "heap_wf h' (merge_free xs (n - (r + 12)) bs)" "ram h' = ram h" "heap_ptr h' = heap_ptr h"
proof -
  let ?g = "h\<lparr>used_mem := used_mem h - (of_nat (n - 12) - of_nat r)\<rparr>"
  have s: "heap_shape ?g (as @ (n, True) # bs)" and na: "no_adj (as @ (n, True) # bs)"
    and l: "lfree_ok h (as @ (n, True) # bs)"
    and us: "used_mem h = of_nat (used_bytes (as @ (n, True) # bs))"
    using wf by (auto simp: heap_wf_def)
  let ?s = "split_block (of_nat (total as)) (of_nat (total as + (r + 12))) ?g"
  have sp: "heap_shape ?s (xs @ (n - (r + 12), False) # bs)" "same_base ?g ?s"
    "lfree ?s = lfree h"
    using split_block_shape [OF s, of "r + 12"] n by (auto simp: xs_def)
  have b: "heap_ptr ?s = heap_ptr h" using sp(2) by (simp add: same_base_def)
  have "lfree_ok ?s (xs @ (n - (r + 12), False) # bs)"
    using l b sp(3) n by (auto simp: lfree_ok_def xs_def free_at_append add.assoc)
  then obtain h' where h': "plug_holes (heap_ptr ?s + of_nat (total xs)) ?s = Some h'"
    "heap_shape h' (merge_free xs (n - (r + 12)) bs)"
    "lfree_ok h' (merge_free xs (n - (r + 12)) bs)" "same_base ?s h'"
    using plug_holes_ok [OF sp(1)] by metis
  have "used_bytes (as @ (n, True) # bs) = used_bytes xs + used_bytes bs + (n - 12 - r)"
    using n by (simp add: xs_def)
  then have "used_mem h' = of_nat (used_bytes (merge_free xs (n - (r + 12)) bs))"
    using h'(4) sp(2) us n by (simp add: same_base_def used_bytes_merge of_nat_diff)
  moreover have "no_adj (merge_free xs (n - (r + 12)) bs)"
    using na by (intro no_adj_merge) (auto simp: xs_def no_adj_append no_adj_Cons)
  moreover have "total as + (r + 12) = total xs" by (simp add: xs_def)
  ultimately show ?thesis
    using that h' b sp(2) by (simp add: heap_wf_def same_base_def del: of_nat_add)
qed
lemma live_split:
  "(x, n) \<in> live_at y bs \<Longrightarrow> \<exists>as cs. bs = as @ (n, True) # cs \<and> x = y + total as"
proof (induction y bs rule: live_at.induct)
  case (2 y k u bs)
  show ?case
  proof (cases "(x, n) \<in> live_at (y + k) bs")
    case True
    then obtain as cs where "bs = as @ (n, True) # cs" "x = y + k + total as" using 2 by auto
    then have "(k, u) # bs = ((k, u) # as) @ (n, True) # cs \<and> x = y + total ((k, u) # as)" by simp
    then show ?thesis by blast
  next
    case False
    then have "(k, u) # bs = [] @ (n, True) # bs \<and> x = y + total []"
      using "2.prems" by (auto split: if_splits)
    then show ?thesis by blast
  qed
qed simp

subsection \<open>Live blocks\<close>

text \<open>Allocation and release in terms of the used blocks alone.\<close>

lemma malloc_live:
  assumes wf: "heap_wf h bs" and sz: "sz \<noteq> 0" "sz \<le> 0xfffffffc"
  shows "rt_malloc sz h = Some (None, h) \<or>
    (\<exists>y k h' bs'. rt_malloc sz h = Some (Some (payload h y), h') \<and> heap_wf h' bs' \<and>
       unat sz + 12 \<le> k \<and> 24 \<le> k \<and> live_at 0 bs' = insert (y, k) (live_at 0 bs) \<and>
       (\<forall>z l. (z, l) \<in> live_at 0 bs \<longrightarrow> z + l \<le> y \<or> y + k \<le> z) \<and>
       heap_ptr h' = heap_ptr h \<and> mem_size_aligned h' = mem_size_aligned h \<and> ram h' = ram h)"
proof -
  obtain xs ys where b: "bs = xs @ ys" "lfree h = heap_ptr h + of_nat (total xs)"
    using lfree_split [OF wf] by metis
  note m = malloc_blocks [OF wf [unfolded b(1)] b(2) sz]
  show ?thesis
  proof (cases "rt_malloc sz h = Some (None, h)")
    case False
    then obtain as n cs h' where m': "bs = as @ (n, False) # cs" "request sz + 12 \<le> n"
      "rt_malloc sz h = Some (Some (payload h (total as)), h')"
      "heap_wf h' (as @ taken (request sz) n @ cs)"
      "heap_ptr h' = heap_ptr h" "mem_size_aligned h' = mem_size_aligned h" "ram h' = ram h"
      using m b(1) by auto
    define k where "k = (if request sz + 36 \<le> n then request sz + 12 else n)"
    have k: "request sz + 12 \<le> k" "k \<le> n" using m'(2) by (auto simp: k_def)
    have live: "live_at 0 (as @ taken (request sz) n @ cs) = insert (total as, k) (live_at 0 bs)"
      using m'(1) by (auto simp: live_at_append taken_def k_def)
    have "z + l \<le> total as \<or> total as + k \<le> z" if z: "(z, l) \<in> live_at 0 bs" for z l
    proof -
      have "chain (hdr h) 0 0 (as @ (n, False) # cs)"
        using wf m'(1) by (simp add: heap_wf_def heap_shape_def)
      then have "chain (hdr h) 0 0 as" "chain (hdr h) (total as) (total as + n) cs"
        by (auto simp: chain_append)
      then show ?thesis
        using z m'(1) k live_at_bounds [of z l 0 as "hdr h" 0]
          live_at_bounds [of z l "total as + n" cs "hdr h" "total as"]
        by (auto simp: live_at_append)
    qed
    moreover have "unat sz + 12 \<le> k" "24 \<le> k" using k request_props [of sz] by linarith+
    ultimately show ?thesis using m' live by blast
  qed simp
qed

lemma free_live:
  assumes wf: "heap_wf h bs" and x: "(x, n) \<in> live_at 0 bs" and n: "12 < n"
  obtains h' bs' where "rt_free (Some (payload h x)) h = Some h'" "heap_wf h' bs'"
    "live_at 0 bs' = live_at 0 bs - {(x, n)}" "heap_ptr h' = heap_ptr h"
    "mem_size_aligned h' = mem_size_aligned h" "ram h' = ram h"
proof -
  obtain as cs where b: "bs = as @ (n, True) # cs" "x = total as" using live_split [OF x] by auto
  obtain h' where h': "rt_free (Some (payload h x)) h = Some h'" "heap_wf h' (merge_free as n cs)"
    "heap_ptr h' = heap_ptr h" "mem_size_aligned h' = mem_size_aligned h" "ram h' = ram h"
    using free_ok [OF wf [unfolded b(1)] n] b(2) by metis
  have c: "chain (hdr h) 0 0 as" "chain (hdr h) (total as) (total as + n) cs"
    using wf b(1) by (auto simp: heap_wf_def heap_shape_def chain_append)
  have "(x, n) \<notin> live_at 0 as" "(x, n) \<notin> live_at (total as + n) cs"
    using live_at_bounds [OF _ c(1), of x n] live_at_bounds [OF _ c(2), of x n] b(2) n by auto
  then have "live_at 0 (merge_free as n cs) = live_at 0 bs - {(x, n)}"
    using b by (auto simp: live_at_merge live_at_append)
  then show ?thesis using that h' by blast
qed

lemma payload_cong: "heap_ptr h' = heap_ptr h \<Longrightarrow> payload h' x = payload h x"
  by (simp add: payload_def)

text \<open>The blocks the clients hold, with the sizes of their payloads.\<close>

definition heap_holds :: "heap \<Rightarrow> (addr \<times> nat) set \<Rightarrow> bool" where
  "heap_holds h L =
     (\<exists>bs. heap_wf h bs \<and> (\<forall>(x, n) \<in> live_at 0 bs. 12 < n) \<and>
        L = (\<lambda>(x, n). (payload h x, n - 12)) ` live_at 0 bs)"

definition held :: "heap \<Rightarrow> blocks \<Rightarrow> (addr \<times> nat) set" where
  "held h bs = (\<lambda>(x, n). (payload h x, n - 12)) ` live_at 0 bs"

text \<open>Two ranges of memory have no byte in common.\<close>

definition apart :: "addr \<times> nat \<Rightarrow> addr \<times> nat \<Rightarrow> bool" where
  "apart p q = (unat (fst p) + snd p \<le> unat (fst q) \<or> unat (fst q) + snd q \<le> unat (fst p))"

lemma heap_wf_live:
  assumes "heap_wf h bs" "(x, n) \<in> live_at 0 bs"
  shows "unat (payload h x) = unat (heap_ptr h) + x + 12" "x + n \<le> total bs" "12 \<le> n"
    "4 dvd unat (payload h x)"
proof -
  have s: "heap_shape h bs" using assms(1) by (simp add: heap_wf_def)
  obtain as cs where "bs = as @ (n, True) # cs" "x = total as" using live_split [OF assms(2)] by auto
  then show "unat (payload h x) = unat (heap_ptr h) + x + 12" "x + n \<le> total bs" "12 \<le> n"
    "4 dvd unat (payload h x)"
    using payload_props [of h as n True cs] heap_shape_mid(2) [of h as n True cs] s by auto
qed

lemma heap_holdsI:
  assumes "heap_wf h' bs'" "\<And>x n. (x, n) \<in> live_at 0 bs' \<Longrightarrow> 12 < n" "heap_ptr h' = heap_ptr h"
  shows "heap_holds h' (held h bs')"
  unfolding heap_holds_def held_def using assms payload_cong [OF assms(3)]
  by (intro exI [of _ bs']) auto

lemma held_diff:
  assumes wf: "heap_wf h bs" and x: "(x, m) \<in> live_at 0 bs"
  shows "(\<lambda>(x, n). (payload h x, n - 12)) ` (live_at 0 bs - {(x, m)})
    = held h bs - {(payload h x, m - 12)}"
proof -
  have inj: "inj_on (\<lambda>(x, n). (payload h x, n - 12)) (live_at 0 bs)"
  proof (rule inj_onI, clarify)
    fix a b c d
    assume ab: "(a, b) \<in> live_at 0 bs" and cd: "(c, d) \<in> live_at 0 bs"
      and eq: "payload h a = payload h c" "b - 12 = d - 12"
    have "unat (heap_ptr h) + a + 12 = unat (heap_ptr h) + c + 12"
      using heap_wf_live(1) [OF wf ab] heap_wf_live(1) [OF wf cd] eq(1) by metis
    moreover have "b = d" using heap_wf_live(3) [OF wf ab] heap_wf_live(3) [OF wf cd] eq(2) by linarith
    ultimately show "a = c \<and> b = d" by simp
  qed
  show ?thesis
    unfolding held_def using x by (subst inj_on_image_set_diff [OF inj]) simp_all
qed

lemma heap_holds_apart:
  assumes "heap_holds h L" "p \<in> L" "q \<in> L"
  shows "p = q \<or> apart p q"
proof -
  obtain bs where wf: "heap_wf h bs" and n: "\<forall>(x, n) \<in> live_at 0 bs. 12 < n"
    and L: "L = (\<lambda>(x, n). (payload h x, n - 12)) ` live_at 0 bs"
    using assms(1) by (auto simp: heap_holds_def)
  obtain x n y m where x: "p = (payload h x, n - 12)" "(x, n) \<in> live_at 0 bs"
    and y: "q = (payload h y, m - 12)" "(y, m) \<in> live_at 0 bs"
    using assms(2,3) L by auto
  have "(x, n) = (y, m) \<or> x + n \<le> y \<or> y + m \<le> x"
    using wf by (intro live_at_disjoint [OF x(2) y(2)]) (auto simp: heap_wf_def heap_shape_def)
  then show ?thesis
    using heap_wf_live [OF wf x(2)] heap_wf_live [OF wf y(2)] x(1) y(1) by (auto simp: apart_def)
qed

subsection \<open>The allocator as its clients see it\<close>

text \<open>
  The contract that the creation of kernel objects relies on: what is allocated is large
  enough and apart from everything else that is held, and what is freed is only that.
\<close>

locale allocator =
  fixes alloc :: "u32 \<Rightarrow> 'h \<Rightarrow> (addr option \<times> 'h) option"
    and free :: "addr \<Rightarrow> 'h \<Rightarrow> 'h option"
    and holds :: "'h \<Rightarrow> (addr \<times> nat) set \<Rightarrow> bool"
    and limit :: u32
  assumes alloc_law: "holds h L \<Longrightarrow> sz \<le> limit \<Longrightarrow>
      alloc sz h = Some (None, h) \<or>
      (\<exists>p n h'. alloc sz h = Some (Some p, h') \<and> unat sz \<le> n \<and> holds h' (insert (p, n) L) \<and>
         (\<forall>q \<in> L. apart (p, n) q))"
    and free_law: "holds h L \<Longrightarrow> (p, n) \<in> L \<Longrightarrow>
      \<exists>h'. free p h = Some h' \<and> holds h' (L - {(p, n)})"
    and holds_pos: "holds h L \<Longrightarrow> (p, n) \<in> L \<Longrightarrow> 0 < n"
begin

lemma alloc_fresh:
  assumes "holds h L" "sz \<le> limit" "alloc sz h = Some (Some p, h')"
  obtains n where "unat sz \<le> n" "holds h' (insert (p, n) L)" "\<forall>m. (p, m) \<notin> L"
    "\<forall>q \<in> L. apart (p, n) q"
proof -
  obtain n where n: "unat sz \<le> n" "holds h' (insert (p, n) L)" "\<forall>q \<in> L. apart (p, n) q"
    using alloc_law [OF assms(1,2)] assms(3) by auto
  have "0 < n" using holds_pos [OF n(2)] by blast
  then have "(p, m) \<notin> L" for m
    using n(3) holds_pos [OF assms(1), of p m] by (auto simp: apart_def)
  then show ?thesis using that n by blast
qed

text \<open>What was just allocated can be freed again, and nothing else changes.\<close>

lemma alloc_free:
  assumes "holds h L" "sz \<le> limit" "alloc sz h = Some (Some p, h')"
  shows "\<exists>h''. free p h' = Some h'' \<and> holds h'' L"
proof -
  obtain n where n: "holds h' (insert (p, n) L)" "(p, n) \<notin> L"
    using alloc_fresh [OF assms] by metis
  then show ?thesis using free_law [OF n(1), of p n] by simp
qed

text \<open>
  The shape of the creation functions: two allocations, the first undone when the second fails.
\<close>

lemma alloc_pair:
  assumes h: "holds h L" and sz: "a \<le> limit" "b \<le> limit"
  shows "\<exists>r h'. do {
      (p, h) \<leftarrow> alloc a h;
      (case p of None \<Rightarrow> Some (None, h)
       | Some p \<Rightarrow> do {
           (q, h) \<leftarrow> alloc b h;
           (case q of None \<Rightarrow> do { h \<leftarrow> free p h; Some (None, h) }
            | Some q \<Rightarrow> Some (Some (p, q), h)) }) } = Some (r, h') \<and>
    (case r of None \<Rightarrow> holds h' L
     | Some (p, q) \<Rightarrow> \<exists>n m. unat a \<le> n \<and> unat b \<le> m \<and> holds h' (insert (q, m) (insert (p, n) L)) \<and>
         apart (q, m) (p, n))"
  using alloc_law [OF h sz(1)]
proof
  assume "\<exists>p n h'. alloc a h = Some (Some p, h') \<and> unat a \<le> n \<and> holds h' (insert (p, n) L) \<and>
         (\<forall>q \<in> L. apart (p, n) q)"
  then obtain p n h1 where p: "alloc a h = Some (Some p, h1)" "unat a \<le> n"
    "holds h1 (insert (p, n) L)" by blast
  obtain n' where n': "(p, n') \<notin> L" "n' = n"
  proof -
    have "0 < n" using holds_pos [OF p(3)] by blast
    have "(p, n) \<notin> L"
    proof
      assume "(p, n) \<in> L"
      moreover obtain k where "\<forall>q \<in> L. apart (p, k) q" "holds h1 (insert (p, k) L)"
        using alloc_fresh [OF h sz(1) p(1)] by metis
      ultimately show False
        using alloc_fresh [OF h sz(1) p(1)] by metis
    qed
    then show ?thesis using that by blast
  qed
  show ?thesis
    using alloc_law [OF p(3) sz(2)]
  proof
    assume "alloc b h1 = Some (None, h1)"
    moreover obtain h2 where "free p h1 = Some h2" "holds h2 (insert (p, n) L - {(p, n)})"
      using free_law [OF p(3), of p n] by auto
    ultimately show ?thesis using p(1) n' by auto
  next
    assume "\<exists>q m h'. alloc b h1 = Some (Some q, h') \<and> unat b \<le> m \<and>
      holds h' (insert (q, m) (insert (p, n) L)) \<and> (\<forall>r \<in> insert (p, n) L. apart (q, m) r)"
    then show ?thesis using p(1,2) by fastforce
  qed
qed (use h in simp)

end

definition rt_free_ptr :: "addr \<Rightarrow> heap \<Rightarrow> heap option" where
  "rt_free_ptr p h = rt_free (Some p) h"

interpretation heap_alloc: allocator rt_malloc rt_free_ptr heap_holds "0xfffffffc"
proof
  fix h L and sz :: u32
  assume hl: "heap_holds h L" and sz: "sz \<le> 0xfffffffc"
  then obtain bs where wf: "heap_wf h bs" and n: "\<forall>(x, n) \<in> live_at 0 bs. 12 < n"
    and L: "L = (\<lambda>(x, n). (payload h x, n - 12)) ` live_at 0 bs"
    by (auto simp: heap_holds_def)
  show "rt_malloc sz h = Some (None, h) \<or>
      (\<exists>p n h'. rt_malloc sz h = Some (Some p, h') \<and> unat sz \<le> n \<and> heap_holds h' (insert (p, n) L) \<and>
         (\<forall>q \<in> L. apart (p, n) q))"
  proof (cases "rt_malloc sz h = Some (None, h)")
    case False
    then have "sz \<noteq> 0" by (auto simp: rt_malloc_def)
    then obtain y k h' bs' where m: "rt_malloc sz h = Some (Some (payload h y), h')"
      "heap_wf h' bs'" "unat sz + 12 \<le> k" "24 \<le> k"
      "live_at 0 bs' = insert (y, k) (live_at 0 bs)"
      "\<forall>z l. (z, l) \<in> live_at 0 bs \<longrightarrow> z + l \<le> y \<or> y + k \<le> z" "heap_ptr h' = heap_ptr h"
      using malloc_live [OF wf _ sz] False by blast
    have "heap_holds h' (insert (payload h y, k - 12) L)"
      unfolding heap_holds_def using m n L
      by (intro exI [of _ bs']) (auto simp: payload_cong [OF m(7)])
    moreover have "apart (payload h y, k - 12) q" if qL: "q \<in> L" for q
    proof -
      obtain z l where q: "q = (payload h z, l - 12)" "(z, l) \<in> live_at 0 bs" using L qL by auto
      have "unat (payload h' y) = unat (heap_ptr h') + y + 12"
        using heap_wf_live(1) [OF m(2), of y k] m(5) by auto
      moreover have "z + l \<le> y \<or> y + k \<le> z" using m(6) q(2) by blast
      ultimately show ?thesis using heap_wf_live [OF wf q(2)] m(4,7) q(1)
        by (auto simp: apart_def payload_def)
    qed
    moreover have "unat sz \<le> k - 12" using m(3) by linarith
    ultimately show ?thesis using m(1) by blast
  qed simp
next
  fix h L p and n :: nat
  assume hl: "heap_holds h L" and p: "(p, n) \<in> L"
  then obtain bs where wf: "heap_wf h bs" and n: "\<forall>(x, n) \<in> live_at 0 bs. 12 < n"
    and L: "L = (\<lambda>(x, n). (payload h x, n - 12)) ` live_at 0 bs"
    by (auto simp: heap_holds_def)
  obtain x m where x: "p = payload h x" "n = m - 12" "(x, m) \<in> live_at 0 bs" using p L by auto
  have m: "12 < m" using n x(3) by auto
  obtain h' bs' where h': "rt_free (Some p) h = Some h'" "heap_wf h' bs'"
    "live_at 0 bs' = live_at 0 bs - {(x, m)}" "heap_ptr h' = heap_ptr h"
    unfolding x(1) by (rule free_live [OF wf x(3) m])
  have "heap_holds h' (held h bs')"
    by (rule heap_holdsI [OF h'(2) _ h'(4)]) (use n h'(3) in auto)
  then have "heap_holds h' (L - {(p, n)})"
    using held_diff [OF wf x(3)] h'(3) x(1,2) L by (simp add: held_def)
  then show "\<exists>h'. rt_free_ptr p h = Some h' \<and> heap_holds h' (L - {(p, n)})"
    using h'(1) by (auto simp: rt_free_ptr_def)
next
  fix h L p and n :: nat
  assume "heap_holds h L" "(p, n) \<in> L"
  then show "0 < n" by (auto simp: heap_holds_def)
qed

subsection \<open>An example\<close>

text \<open>A heap of 4016 bytes with one block in use and one free block behind it.\<close>

definition demo_heap :: heap where
  "demo_heap =
     \<lparr>heap_ptr = 0x20010000, heap_end = 0x20010fbc,
      lfree = 0x2001001c, mem_size_aligned = 4016, used_mem = 28, max_mem = 28,
      blk = (\<lambda>_. \<lparr>hm_magic = 0, hm_used = 0, hm_next = 0, hm_prev = 0\<rparr>)
        (0x20010000 := \<lparr>hm_magic = HEAP_MAGIC, hm_used = 1, hm_next = 28, hm_prev = 0\<rparr>,
         0x2001001c := \<lparr>hm_magic = HEAP_MAGIC, hm_used = 0, hm_next = 4028, hm_prev = 0\<rparr>,
         0x20010fbc := \<lparr>hm_magic = HEAP_MAGIC, hm_used = 1, hm_next = 4028, hm_prev = 4028\<rparr>),
      ram = (\<lambda>_. 0)\<rparr>"

definition demo_blocks :: blocks where
  "demo_blocks = [(28, True), (4000, False)]"

lemma demo_heap_wf: "heap_wf demo_heap demo_blocks" "lfree_lowest demo_heap demo_blocks"
proof -
  have h: "hdr demo_heap 0 = \<lparr>hm_magic = HEAP_MAGIC, hm_used = 1, hm_next = 28, hm_prev = 0\<rparr>"
    "hdr demo_heap 28 = \<lparr>hm_magic = HEAP_MAGIC, hm_used = 0, hm_next = 4028, hm_prev = 0\<rparr>"
    "hm_used (hdr demo_heap 4028) = 1"
    by (simp_all add: hdr_def demo_heap_def)
  have s: "heap_ptr demo_heap = 0x20010000" "heap_end demo_heap = 0x20010fbc"
    "mem_size_aligned demo_heap = 4016" "lfree demo_heap = 0x2001001c" "used_mem demo_heap = 28"
    by (simp_all add: demo_heap_def)
  show "heap_wf demo_heap demo_blocks"
    by (simp add: heap_wf_def heap_shape_def demo_blocks_def h s lfree_ok_def)
      (rule exI [of _ 28], simp)
  show "lfree_lowest demo_heap demo_blocks"
    by (simp add: lfree_lowest_def demo_blocks_def s)
qed

lemma demo_heap_ptr: "heap_ptr demo_heap = 0x20010000" "mem_size_aligned demo_heap = 4016"
  by (simp_all add: demo_heap_def)

lemma demo_holds: "heap_holds demo_heap {(0x2001000c, 16)}"
  unfolding heap_holds_def
  by (rule exI [of _ demo_blocks], rule conjI [OF demo_heap_wf(1)])
    (simp add: demo_blocks_def payload_def demo_heap_ptr)

subsection \<open>Properties\<close>

text \<open>Allocating takes the first free block that is long enough, when \<open>lfree\<close> is the lowest.\<close>

lemma first_fit_lfree:
  assumes wf: "heap_wf h (xs @ ys)" and lf: "lfree h = heap_ptr h + of_nat (total xs)"
    and low: "lfree_lowest h (xs @ ys)"
  shows "first_fit s lim 0 (xs @ ys) = first_fit s lim (total xs) ys"
proof -
  have s: "heap_shape h (xs @ ys)" using wf by (simp add: heap_wf_def)
  have c: "chain (hdr h) 0 0 xs" using heap_shape_chain [OF s] by (simp add: chain_append)
  have "\<not> free_at 0 xs y" for y
  proof
    assume y: "free_at 0 xs y"
    then have "heap_ptr h + of_nat (total xs) \<le> heap_ptr h + of_nat y"
      using low lf by (simp add: lfree_lowest_def free_at_append)
    moreover have "y < total xs" using free_at_bounds [OF y c] by simp
    ultimately show False using heap_ptr_less(2) [OF s, of "total xs" y] by simp
  qed
  moreover have "0 < k" if "(k, u) \<in> set xs" for k u
  proof -
    obtain as cs where "xs = as @ (k, u) # cs" using \<open>(k, u) \<in> set xs\<close> by (meson split_list)
    then show ?thesis using c by (auto simp: chain_append)
  qed
  ultimately show ?thesis using first_fit_used [of 0 xs s lim ys] by simp
qed

lemma malloc_demo: "\<exists>h'. rt_malloc 100 demo_heap = Some (Some 0x20010028, h')"
proof -
  have f: "first_fit (request 100) (unat (mem_size_aligned demo_heap) - request 100)
      (total [(28, True)]) [(4000, False)] = Some 28"
    by (simp add: request_def demo_heap_ptr)
  have wf: "heap_wf demo_heap ([(28, True)] @ [(4000, False)])"
    using demo_heap_wf(1) by (simp add: demo_blocks_def)
  have "lfree demo_heap = heap_ptr demo_heap + of_nat (total [(28, True)])"
    by (simp add: demo_heap_def)
  from malloc_blocks [OF wf this, of 100] f show ?thesis
    by (auto simp: payload_def demo_heap_ptr)
qed

text \<open>\<open>rt_malloc\<close> on a well-formed heap always returns. It takes the lowest free block that
  holds the request, and fails only when there is none below its search limit; the heap stays a
  chain of blocks without two adjacent free ones.\<close>

theorem rt_malloc_first_fit:
  assumes "heap_wf h bs" "lfree_lowest h bs" "sz \<noteq> 0" "sz \<le> 0xfffffffc"
  shows "\<exists>h' bs'. rt_malloc sz h = Some (map_option (payload h)
      (first_fit (request sz) (unat (mem_size_aligned h) - request sz) 0 bs), h') \<and>
    heap_wf h' bs' \<and> lfree_lowest h' bs' \<and> total bs' = total bs"
proof -
  obtain xs ys where b: "bs = xs @ ys" "lfree h = heap_ptr h + of_nat (total xs)"
    using lfree_split [OF assms(1)] by metis
  note m = malloc_blocks [OF assms(1) [unfolded b(1)] b(2) assms(3,4)]
  have f: "first_fit (request sz) (unat (mem_size_aligned h) - request sz) 0 bs =
      first_fit (request sz) (unat (mem_size_aligned h) - request sz) (total xs) ys"
    using first_fit_lfree [OF _ b(2)] assms b(1) by simp
  from m show ?thesis
  proof
    assume "\<exists>as n cs h'. xs @ ys = as @ (n, False) # cs \<and>
      first_fit (request sz) (unat (mem_size_aligned h) - request sz) (total xs) ys
        = Some (total as) \<and> request sz + 12 \<le> n \<and>
       rt_malloc sz h = Some (Some (payload h (total as)), h') \<and>
       heap_wf h' (as @ taken (request sz) n @ cs) \<and>
       (lfree_lowest h (xs @ ys) \<longrightarrow> lfree_lowest h' (as @ taken (request sz) n @ cs)) \<and>
       heap_ptr h' = heap_ptr h \<and> mem_size_aligned h' = mem_size_aligned h \<and> ram h' = ram h"
    then obtain as n cs h' where g: "bs = as @ (n, False) # cs"
      "first_fit (request sz) (unat (mem_size_aligned h) - request sz) (total xs) ys
        = Some (total as)" "rt_malloc sz h = Some (Some (payload h (total as)), h')"
      "heap_wf h' (as @ taken (request sz) n @ cs)"
      "lfree_lowest h' (as @ taken (request sz) n @ cs)"
      using b(1) assms(2) by auto
    then show ?thesis unfolding f
      by (intro exI [of _ h'] exI [of _ "as @ taken (request sz) n @ cs"]) simp
  next
    assume "first_fit (request sz) (unat (mem_size_aligned h) - request sz) (total xs) ys = None \<and>
      rt_malloc sz h = Some (None, h)"
    then show ?thesis unfolding f using assms by (intro exI [of _ h] exI [of _ bs]) simp
  qed
qed

lemma rt_malloc_first_fit_witness:
  "\<exists>h' bs'. rt_malloc 100 demo_heap = Some (Some 0x20010028, h') \<and> heap_wf h' bs' \<and>
    lfree_lowest h' bs' \<and> total bs' = 4028"
  using rt_malloc_first_fit [OF demo_heap_wf, of 100]
  by (simp add: demo_blocks_def request_def unat_RT_ALIGN demo_heap_ptr payload_def)

text \<open>C9. Blocks handed out never overlap: whatever is held of a well-formed heap, a block that
  \<open>rt_malloc\<close> returns holds the request, is apart from all of it, and can be freed again.\<close>

theorem rt_malloc_fresh:
  assumes "heap_holds h L" "sz \<le> 0xfffffffc" "rt_malloc sz h = Some (Some p, h')"
  shows "(\<exists>n. unat sz \<le> n \<and> heap_holds h' (insert (p, n) L) \<and> (\<forall>q \<in> L. apart (p, n) q)) \<and>
    (\<exists>h''. rt_free (Some p) h' = Some h'' \<and> heap_holds h'' L)"
  using heap_alloc.alloc_fresh [OF assms] heap_alloc.alloc_free [OF assms]
  by (metis rt_free_ptr_def)

lemma rt_malloc_fresh_witness:
  "\<exists>p n h' h''. rt_malloc 100 demo_heap = Some (Some p, h') \<and> 100 \<le> n \<and>
    heap_holds h' {(p, n), (0x2001000c, 16)} \<and> apart (p, n) (0x2001000c, 16) \<and>
    rt_free (Some p) h' = Some h'' \<and> heap_holds h'' {(0x2001000c, 16)}"
proof -
  obtain h' where m: "rt_malloc 100 demo_heap = Some (Some 0x20010028, h')"
    using malloc_demo by metis
  show ?thesis using rt_malloc_fresh [OF demo_holds _ m] m by auto
qed

text \<open>C10. Freeing a block that is held never fails and merges it: the chain stays well-formed,
  with no two adjacent free blocks, and \<open>lfree\<close> stays the lowest free block.\<close>

theorem rt_free_merges:
  assumes "heap_wf h (xs @ (n, True) # ys)" "12 < n"
  shows "\<exists>h'. rt_free (Some (payload h (total xs))) h = Some h' \<and>
    heap_wf h' (merge_free xs n ys) \<and>
    (lfree_lowest h (xs @ (n, True) # ys) \<longrightarrow> lfree_lowest h' (merge_free xs n ys))"
  using free_ok [OF assms] by metis

lemma rt_free_merges_witness:
  "\<exists>h'. rt_free (Some 0x2001000c) demo_heap = Some h' \<and> heap_wf h' [(4028, False)]"
  using rt_free_merges [of demo_heap "[]" 28 "[(4000, False)]"] demo_heap_wf
  by (auto simp: demo_blocks_def payload_def demo_heap_ptr merge_free_def join_prev_def)

text \<open>\<open>rt_system_heap_init\<close> of a region of at least 40 bytes builds one free block.\<close>

theorem rt_system_heap_init_wf:
  fixes h :: heap
  assumes "unat e - unat (RT_ALIGN b 4) \<ge> 40" "unat b + 3 < 2 ^ 32" "used_mem h = 0"
  shows "\<exists>n. heap_wf (rt_system_heap_init b e h) [(n, False)] \<and>
    lfree_lowest (rt_system_heap_init b e h) [(n, False)]"
proof -
  have "h\<lparr>used_mem := 0\<rparr> = h" using assms(3) by (metis (full_types) heap.surjective heap.update_convs(5))
  then show ?thesis using heap_init_ok [OF assms(1,2), of h] by metis
qed

lemma rt_system_heap_init_wf_witness:
  "\<exists>n. heap_wf (rt_system_heap_init 0x20000000 0x20008000 (demo_heap\<lparr>used_mem := 0\<rparr>)) [(n, False)]"
  using rt_system_heap_init_wf 
    [where b = "0x20000000" and e = "0x20008000" and h = "demo_heap\<lparr>used_mem := 0\<rparr>"]
  by (auto simp: unat_RT_ALIGN)

lemma up_safe_payload:
  assumes wf: "heap_wf h bs" and x: "(x, n) \<in> live_at 0 bs" and y: "(y, m) \<in> live_at 0 bs"
    and ne: "x \<noteq> y" and k: "k + 12 \<le> n" "k + 12 \<le> m"
  shows "up_safe (payload h x) (payload h y) k"
proof -
  have s: "heap_shape h bs" using wf by (simp add: heap_wf_def)
  note bx = heap_wf_live [OF wf x] and bY = heap_wf_live [OF wf y]
  have d: "x + n \<le> y \<or> y + m \<le> x"
    using live_at_disjoint [OF x y heap_shape_chain [OF s]] ne by auto
  have "payload h x + of_nat i \<noteq> payload h y + of_nat j" if "i < k" "j < k" for i j
    by (rule payload_disjoint [OF s, of x "n - 12" y "m - 12"]) (use d bx bY k that in linarith)+
  then show ?thesis unfolding up_safe_def by (meson less_trans)
qed

lemma used_mem_heap_ptr: "heap_ptr (h\<lparr>used_mem := n\<rparr>) = heap_ptr h"
  by simp

lemma split_block_sel [simp]: "heap_ptr (split_block a b h) = heap_ptr h"
  by (simp add: split_block_def Let_def)

lemma rt_align_request:
  assumes "sz \<le> 0xfffffffc"
  shows "unat sz \<le> unat (RT_ALIGN sz 4)" "4 dvd unat (RT_ALIGN sz 4)" "RT_ALIGN sz 4 \<le> 0xfffffffc"
    "sz \<noteq> 0 \<Longrightarrow> 0 < unat (RT_ALIGN sz 4)"
proof -
  have le: "unat sz \<le> 0xfffffffc" using assms by (simp add: word_le_nat_alt)
  then have a: "unat (RT_ALIGN sz 4) = 4 * ((unat sz + 3) div 4)" by (simp add: unat_RT_ALIGN)
  show l: "unat sz \<le> unat (RT_ALIGN sz 4)" "4 dvd unat (RT_ALIGN sz 4)" unfolding a by auto
  show "RT_ALIGN sz 4 \<le> 0xfffffffc"
    using le unfolding word_le_nat_alt a by simp
  show "0 < unat (RT_ALIGN sz 4)" if "sz \<noteq> 0"
    using l(1) that by (metis le_zero_eq neq0_conv unat_eq_zero)
qed

text \<open>The three branches for a block that is held, by the offset of the block.\<close>

lemma rt_realloc_unfold:
  assumes wf: "heap_wf h bs" and x: "(x, n) \<in> live_at 0 bs" "12 < n"
    and sz: "RT_ALIGN sz 4 \<le> mem_size_aligned h"
  defines "r \<equiv> RT_ALIGN sz 4"
  shows "rt_realloc (Some (payload h x)) sz h =
    (if unat r + 12 = n then Some (Some (payload h x), h)
     else if unat r + 36 < n then do {
       h' \<leftarrow> plug_holes (heap_ptr h + (of_nat x + 12 + r)) (split_block (of_nat x) (of_nat x + 12 + r)
         (h\<lparr>used_mem := used_mem h - (of_nat (n - 12) - r)\<rparr>));
       Some (Some (payload h x), h')
     } else do {
       (nmem, h1) \<leftarrow> rt_malloc r h;
       (case nmem of None \<Rightarrow> Some (None, h1)
        | Some q \<Rightarrow> do {
            h2 \<leftarrow> rt_free (Some (payload h x))
              (h1\<lparr>ram := rt_memcpy q (payload h x)
                 (if of_nat (n - 12) < r then of_nat (n - 12) else r) (ram h1)\<rparr>);
            Some (Some q, h2)
          })
     })"
proof -
  obtain as cs where b: "bs = as @ (n, True) # cs" "x = total as" using live_split [OF x(1)] by auto
  have s: "heap_shape h (as @ (n, True) # cs)" using wf b by (simp add: heap_wf_def)
  note pp = payload_props [OF s, folded b(2)] and mid = heap_shape_mid [OF s, folded b(2)]
  have nx: "hm_next (blk h (payload h x - 12)) - of_nat x - 12 = of_nat (n - 12)"
    using mid pp(4) by (simp add: of_nat_diff)
  have ptr: "payload h x - 12 - heap_ptr h = of_nat x" using pp(4) by simp
  have n32: "n < 2 ^ 32" using heap_shape_bound [OF s, of n] by simp
  have r32: "unat r + 24 < 2 ^ 32"
    using sz s by (auto simp: heap_shape_def r_def word_le_nat_alt)
  have eq: "of_nat (n - 12) = r \<longleftrightarrow> unat r + 12 = n"
    using n32 mid(2) unat_of_nat [of "n - 12", where ?'a = 32]
    by (auto simp: word_unat_eq_iff)
  have "unat (r + 12 + 12) = unat r + 24" using r32 by (simp add: unat_word_ariths)
  moreover have "unat (of_nat (n - 12) :: u32) = n - 12" using n32 by (simp add: unat_of_nat)
  ultimately have lt: "r + 12 + 12 < of_nat (n - 12) \<longleftrightarrow> unat r + 36 < n"
    using mid(2) unfolding word_less_nat_alt by linarith
  have f: "\<not> mem_size_aligned h < r" "\<not> payload h x < heap_ptr h" "\<not> heap_end h \<le> payload h x"
    using sz pp(2) pp(5) [OF x(2)] by (auto simp: r_def)
  show ?thesis
    unfolding rt_realloc_def Let_def r_def [symmetric] heap_sizes option.case ptr nx
    by (simp only: f eq lt if_False simp_thms split_block_sel used_mem_heap_ptr)
qed

text \<open>C11. \<open>rt_realloc\<close> of a held block to a non-zero size keeps its bytes, up to the smaller
  of the two sizes, leaves every other block held and its bytes unchanged, and either returns a
  block of the new size in its place or, when no memory is left, changes nothing.\<close>

theorem rt_realloc_keeps:
  assumes hold: "heap_holds h L" and pn: "(p, n) \<in> L" and sz: "sz \<noteq> 0" "sz \<le> 0xfffffffc"
  shows "rt_realloc (Some p) sz h = Some (None, h) \<or>
    (\<exists>q m h'. rt_realloc (Some p) sz h = Some (Some q, h') \<and> unat sz \<le> m \<and>
       heap_holds h' (insert (q, m) (L - {(p, n)})) \<and>
       (\<forall>i < min n (unat sz). ram h' (q + of_nat i) = ram h (p + of_nat i)) \<and>
       (\<forall>(q', m') \<in> L - {(p, n)}. \<forall>i < m'. ram h' (q' + of_nat i) = ram h (q' + of_nat i)))"
proof -
  obtain bs where wf: "heap_wf h bs" and nn: "\<forall>(x, n) \<in> live_at 0 bs. 12 < n"
    and L: "L = (\<lambda>(x, n). (payload h x, n - 12)) ` live_at 0 bs"
    using hold by (auto simp: heap_holds_def)
  obtain x k where x: "p = payload h x" "n = k - 12" "(x, k) \<in> live_at 0 bs" using pn L by auto
  have k: "12 < k" using nn x(3) by auto
  define r where "r = RT_ALIGN sz 4"
  note al = rt_align_request [OF sz(2), folded r_def]
  show ?thesis
  proof (cases "mem_size_aligned h < r")
    case True
    then show ?thesis by (simp add: rt_realloc_def r_def)
  next
    case False
    then have le: "RT_ALIGN sz 4 \<le> mem_size_aligned h" by (simp add: r_def)
    note unf = rt_realloc_unfold [OF wf x(3) k le, folded r_def x(1)]
    consider "unat r + 12 = k" | "unat r + 36 < k" | "unat r + 12 \<noteq> k" "\<not> unat r + 36 < k"
      by blast
    then show ?thesis
    proof cases
      case 1
      then have "rt_realloc (Some p) sz h = Some (Some p, h)" using unf by simp
      moreover have "insert (p, n) (L - {(p, n)}) = L" using pn by blast
      ultimately show ?thesis using hold al(1) 1 x(2)
        by (intro disjI2 exI [of _ p] exI [of _ n] exI [of _ h]) auto
    next
      case 2
      obtain as cs where b: "bs = as @ (k, True) # cs" "x = total as" using live_split [OF x(3)] by auto
      let ?xs = "as @ [(unat r + 12, True)]" and ?w = "unat r + 12"
      obtain h' where h': "plug_holes (heap_ptr h + of_nat (total ?xs))
          (split_block (of_nat (total as)) (of_nat (total ?xs))
            (h\<lparr>used_mem := used_mem h - (of_nat (k - 12) - of_nat (unat r))\<rparr>)) = Some h'"
        "heap_wf h' (merge_free ?xs (k - ?w) cs)" "ram h' = ram h" "heap_ptr h' = heap_ptr h"
        using realloc_shrink [OF wf [unfolded b(1)] 2 al(2)] by metis
      have e: "(of_nat (total ?xs) :: u32) = of_nat x + 12 + r" by (simp add: b(2) add.assoc add.commute [of r])
      have res: "rt_realloc (Some p) sz h = Some (Some p, h')"
        using h'(1) 2 unfolding unf e b(2) [symmetric] by simp
      have live: "live_at 0 (merge_free ?xs (k - ?w) cs)
          = insert (x, ?w) (live_at 0 bs - {(x, k)})"
      proof -
        have c: "chain (hdr h) 0 0 as" "chain (hdr h) (total as) (total as + k) cs"
          using wf b(1) by (auto simp: heap_wf_def heap_shape_def chain_append)
        have "(x, k) \<notin> live_at 0 as" "(x, k) \<notin> live_at (total as + k) cs"
          using live_at_bounds [OF _ c(1), of x k] live_at_bounds [OF _ c(2), of x k] b(2) k by auto
        moreover have "total as + (?w + (k - ?w)) = total as + k" using 2 by simp
        ultimately show ?thesis using b by (auto simp: live_at_merge live_at_append)
      qed
      have "heap_holds h' (held h (merge_free ?xs (k - ?w) cs))"
        by (rule heap_holdsI [OF h'(2) _ h'(4)]) (use nn al(4) [OF sz(1)] live in auto)
      moreover have "held h (merge_free ?xs (k - ?w) cs) = insert (p, unat r) (L - {(p, n)})"
        unfolding held_def live image_insert held_diff [OF wf x(3)] using x L
        by (simp add: held_def)
      ultimately have "heap_holds h' (insert (p, unat r) (L - {(p, n)}))" by simp
      then show ?thesis using res al(1) h'(3) by (intro disjI2 exI [of _ p] exI [of _ "unat r"] exI [of _ h']) auto
    next
      case 3
      have r0: "r \<noteq> 0" using al(4) [OF sz(1)] by auto
      show ?thesis
      proof (cases "rt_malloc r h = Some (None, h)")
        case True
        then show ?thesis using 3 unf by simp
      next
        case False
        then obtain y m h1 bs1 where m: "rt_malloc r h = Some (Some (payload h y), h1)"
          "heap_wf h1 bs1" "unat r + 12 \<le> m" "24 \<le> m"
          "live_at 0 bs1 = insert (y, m) (live_at 0 bs)"
          "\<forall>z l. (z, l) \<in> live_at 0 bs \<longrightarrow> z + l \<le> y \<or> y + m \<le> z"
          "heap_ptr h1 = heap_ptr h" "ram h1 = ram h"
          using malloc_live [OF wf r0 al(3)] by blast
        define c where "c = (if of_nat (k - 12) < r then of_nat (k - 12) else r)"
        define h2 where "h2 = h1\<lparr>ram := rt_memcpy (payload h y) p c (ram h)\<rparr>"
        have wf2: "heap_wf h2 bs1" using m(2) by (simp add: h2_def)
        have p2: "payload h2 z = payload h z" for z using m(7) by (simp add: h2_def payload_def)
        have xk: "(x, k) \<in> live_at 0 bs1" using m(5) x(3) by simp
        obtain h' bs' where h': "rt_free (Some (payload h2 x)) h2 = Some h'" "heap_wf h' bs'"
          "live_at 0 bs' = live_at 0 bs1 - {(x, k)}" "heap_ptr h' = heap_ptr h2" "ram h' = ram h2"
          using free_live [OF wf2 xk k] by metis
        have res: "rt_realloc (Some p) sz h = Some (Some (payload h y), h')"
          using unf 3 m(1) h'(1) p2 x(1) m(8) by (simp add: h2_def c_def)
        have d: "x + k \<le> y \<or> y + m \<le> x" using m(6) x(3) by blast
        have ne: "y \<noteq> x" using d k m(4) by auto
        have hp: "heap_ptr h' = heap_ptr h" using h'(4) m(7) by (simp add: h2_def)
        have lv: "live_at 0 bs' = insert (y, m) (live_at 0 bs - {(x, k)})"
          using h'(3) m(5) ne by auto
        have "heap_holds h' (held h bs')"
          by (rule heap_holdsI [OF h'(2) _ hp]) (use nn lv m(4) in auto)
        moreover have "held h bs' = insert (payload h y, m - 12) (L - {(p, n)})"
          unfolding held_def lv image_insert held_diff [OF wf x(3)] using x L
          by (simp add: held_def)
        ultimately have hh: "heap_holds h' (insert (payload h y, m - 12) (L - {(p, n)}))" by simp
        have cu: "unat c = min (k - 12) (unat r)"
        proof -
          have "k < 2 ^ 32"
            using heap_shape_bound [of h bs k] heap_wf_live(2) [OF wf x(3)] wf
            by (simp add: heap_wf_def)
          then have "unat (of_nat (k - 12) :: u32) = k - 12" by (simp add: unat_of_nat)
          then show ?thesis by (simp add: c_def word_less_nat_alt)
        qed
        have ck: "unat c + 12 \<le> k" "unat c + 12 \<le> m" using cu m(3) k by auto
        have "up_safe (payload h y) p (unat c)"
          unfolding x(1) p2 [symmetric]
          using up_safe_payload [OF wf2 _ xk ne] m(5) ck by auto
        then have rm: "ram h' = blit (payload h y) p (unat c) (ram h)"
          using h'(5) by (simp add: h2_def rt_memcpy_blit)
        have keep: "ram h' (payload h y + of_nat i) = ram h (p + of_nat i)" if "i < min n (unat sz)" for i
          unfolding rm using that cu al(1) x(2) unat_le_32 [of c] by (intro blit_at) auto
        have other: "ram h' (payload h z + of_nat i) = ram h (payload h z + of_nat i)"
          if z: "(z, l) \<in> live_at 0 bs" and i: "i < l - 12" for z l i
        proof -
          have s1: "heap_shape h1 bs1" using m(2) by (simp add: heap_wf_def)
          have b: "z + 12 + (l - 12) \<le> total bs1" "y + 12 + (m - 12) \<le> total bs1" "12 \<le> l"
            using heap_wf_live [OF m(2), of z l] heap_wf_live [OF m(2), of y m] m(5) z by auto
          have "z + l \<le> y \<or> y + m \<le> z" using m(6) z by blast
          then have "z + 12 + (l - 12) \<le> y \<or> y + 12 + (m - 12) \<le> z" using b(3) m(4) by linarith
          then have "payload h1 z + of_nat i \<noteq> payload h1 y + of_nat j" if "j < unat c" for j
            using payload_disjoint [OF s1 b(1,2) _ i, of j] that ck by auto
          then show ?thesis
            unfolding rm by (intro blit_away) (auto simp: payload_cong [OF m(7)])
        qed
        show ?thesis
          using res hh keep other m(3) al(1) L
          by (intro disjI2 exI [of _ "payload h y"] exI [of _ "m - 12"] exI [of _ h']) auto
      qed
    qed
  qed
qed

lemma rt_realloc_keeps_witness:
  "rt_realloc (Some 0x2001000c) 100 demo_heap = Some (None, demo_heap) \<or>
    (\<exists>q m h'. rt_realloc (Some 0x2001000c) 100 demo_heap = Some (Some q, h') \<and> 100 \<le> m \<and>
       heap_holds h' {(q, m)} \<and>
       (\<forall>i < 16. ram h' (q + of_nat i) = ram demo_heap (0x2001000c + of_nat i)))"
  using rt_realloc_keeps [OF demo_holds, where p = "0x2001000c" and n = 16 and sz = 100] by auto

end
