(* ===== verification/Ringbuffer.thy ===== *)
theory Ringbuffer
  imports Kservice
begin

text \<open>
  The ring buffer of \<open>components/drivers/src/ringbuffer.c\<close> and the inline functions of
  \<open>rtdevice.h\<close>: bytes in memory between a read and a write index of 15 bits, each with a mirror
  bit that tells a full buffer from an empty one. \<open>memcpy\<close> is the C library's.
\<close>

subsection \<open>Operations\<close>

record rt_ringbuffer =
  buffer_ptr :: addr
  read_mirror :: bool
  read_index :: "15 word"
  write_mirror :: bool
  write_index :: "15 word"
  buffer_size :: u16

datatype rt_ringbuffer_state =
  RT_RINGBUFFER_EMPTY | RT_RINGBUFFER_FULL | RT_RINGBUFFER_HALFFULL

definition rt_ringbuffer_init :: "addr \<Rightarrow> u16 \<Rightarrow> rt_ringbuffer option" where
  "rt_ringbuffer_init pool sz = do {
     rt_assert (0 <s sz);
     Some \<lparr>buffer_ptr = pool, read_mirror = False, read_index = 0, write_mirror = False,
           write_index = 0, buffer_size = ucast (RT_ALIGN_DOWN (scast sz) RT_ALIGN_SIZE)\<rparr>
   }"

definition rt_ringbuffer_get_size :: "rt_ringbuffer \<Rightarrow> u16" where
  "rt_ringbuffer_get_size rb = buffer_size rb"

definition rt_ringbuffer_status :: "rt_ringbuffer \<Rightarrow> rt_ringbuffer_state" where
  "rt_ringbuffer_status rb =
     (if read_index rb = write_index rb then
        (if read_mirror rb = write_mirror rb then RT_RINGBUFFER_EMPTY else RT_RINGBUFFER_FULL)
      else RT_RINGBUFFER_HALFFULL)"

definition rt_ringbuffer_data_len :: "rt_ringbuffer \<Rightarrow> u16" where
  "rt_ringbuffer_data_len rb =
     (case rt_ringbuffer_status rb of
        RT_RINGBUFFER_EMPTY \<Rightarrow> 0
      | RT_RINGBUFFER_FULL \<Rightarrow> buffer_size rb
      | RT_RINGBUFFER_HALFFULL \<Rightarrow>
          if read_index rb < write_index rb
          then ucast (write_index rb) - ucast (read_index rb)
          else buffer_size rb - (ucast (read_index rb) - ucast (write_index rb)))"

definition rt_ringbuffer_space_len :: "rt_ringbuffer \<Rightarrow> u16" where
  "rt_ringbuffer_space_len rb = buffer_size rb - rt_ringbuffer_data_len rb"

text \<open>\<open>rb->buffer_size - index\<close>, computed in \<open>int\<close>.\<close>

definition room_after :: "rt_ringbuffer \<Rightarrow> 15 word \<Rightarrow> int" where
  "room_after rb i = sint (buffer_size rb) - int (unat i)"

definition rb_at :: "rt_ringbuffer \<Rightarrow> 15 word \<Rightarrow> addr" where
  "rb_at rb i = buffer_ptr rb + ucast i"

text \<open>The copy to the end of the buffer and on from its beginning.\<close>

definition copy_in_wrapped :: "rt_ringbuffer \<Rightarrow> addr \<Rightarrow> u16 \<Rightarrow> mem \<Rightarrow> mem" where
  "copy_in_wrapped rb ptr len m =
     (let room = room_after rb (write_index rb);
          m = blit (rb_at rb (write_index rb)) ptr (nat room) m
      in blit (buffer_ptr rb) (ptr + of_int room) (nat (int (unat len) - room)) m)"

definition rt_ringbuffer_put ::
  "rt_ringbuffer \<Rightarrow> addr \<Rightarrow> u16 \<Rightarrow> mem \<Rightarrow> u32 \<times> rt_ringbuffer \<times> mem" where
  "rt_ringbuffer_put rb ptr len m =
     (let space = rt_ringbuffer_space_len rb
      in if space = 0 then (0, rb, m)
         else
           (let len = (if space < len then space else len)
            in if int (unat len) < room_after rb (write_index rb) then
                 (ucast len, rb\<lparr>write_index := write_index rb + ucast len\<rparr>,
                  blit (rb_at rb (write_index rb)) ptr (unat len) m)
               else
                 (ucast len,
                  rb\<lparr>write_mirror := \<not> write_mirror rb,
                     write_index := of_int (int (unat len) - room_after rb (write_index rb))\<rparr>,
                  copy_in_wrapped rb ptr len m)))"

definition rt_ringbuffer_put_force ::
  "rt_ringbuffer \<Rightarrow> addr \<Rightarrow> u16 \<Rightarrow> mem \<Rightarrow> u32 \<times> rt_ringbuffer \<times> mem" where
  "rt_ringbuffer_put_force rb ptr len m =
     (let space = rt_ringbuffer_space_len rb;
          len = (if space < len then buffer_size rb else len)
      in if int (unat len) < room_after rb (write_index rb) then
           (let m = blit (rb_at rb (write_index rb)) ptr (unat len) m;
                rb = rb\<lparr>write_index := write_index rb + ucast len\<rparr>;
                rb = (if space < len then rb\<lparr>read_index := write_index rb\<rparr> else rb)
            in (ucast len, rb, m))
         else
           (let m = copy_in_wrapped rb ptr len m;
                rb = rb\<lparr>write_mirror := \<not> write_mirror rb,
                        write_index := of_int (int (unat len) - room_after rb (write_index rb))\<rparr>;
                rb = (if space < len
                      then rb\<lparr>read_mirror := \<not> read_mirror rb, read_index := write_index rb\<rparr> else rb)
            in (ucast len, rb, m)))"

definition rt_ringbuffer_get ::
  "rt_ringbuffer \<Rightarrow> addr \<Rightarrow> u16 \<Rightarrow> mem \<Rightarrow> u32 \<times> rt_ringbuffer \<times> mem" where
  "rt_ringbuffer_get rb ptr len m =
     (let have = rt_ringbuffer_data_len rb
      in if have = 0 then (0, rb, m)
         else
           (let len = (if have < len then have else len);
                room = room_after rb (read_index rb)
            in if int (unat len) < room then
                 (ucast len, rb\<lparr>read_index := read_index rb + ucast len\<rparr>,
                  blit ptr (rb_at rb (read_index rb)) (unat len) m)
               else
                 (let m = blit ptr (rb_at rb (read_index rb)) (nat room) m;
                      m = blit (ptr + of_int room) (buffer_ptr rb) (nat (int (unat len) - room)) m
                  in (ucast len,
                      rb\<lparr>read_mirror := \<not> read_mirror rb,
                         read_index := of_int (int (unat len) - room)\<rparr>, m))))"

text \<open>Moving an index on by one, over the end to the other mirror.\<close>

definition at_end :: "rt_ringbuffer \<Rightarrow> 15 word \<Rightarrow> bool" where
  "at_end rb i = (int (unat i) = sint (buffer_size rb) - 1)"

definition rt_ringbuffer_putchar ::
  "rt_ringbuffer \<Rightarrow> u8 \<Rightarrow> mem \<Rightarrow> u32 \<times> rt_ringbuffer \<times> mem" where
  "rt_ringbuffer_putchar rb ch m =
     (if rt_ringbuffer_space_len rb = 0 then (0, rb, m)
      else
        (let m = m(rb_at rb (write_index rb) := ch);
             rb = (if at_end rb (write_index rb)
                   then rb\<lparr>write_mirror := \<not> write_mirror rb, write_index := 0\<rparr>
                   else rb\<lparr>write_index := write_index rb + 1\<rparr>)
         in (1, rb, m)))"

definition rt_ringbuffer_putchar_force ::
  "rt_ringbuffer \<Rightarrow> u8 \<Rightarrow> mem \<Rightarrow> u32 \<times> rt_ringbuffer \<times> mem" where
  "rt_ringbuffer_putchar_force rb ch m =
     (let old_state = rt_ringbuffer_status rb;
          m = m(rb_at rb (write_index rb) := ch);
          rb = (if at_end rb (write_index rb) then
                  (let rb = rb\<lparr>write_mirror := \<not> write_mirror rb, write_index := 0\<rparr>
                   in if old_state = RT_RINGBUFFER_FULL
                      then rb\<lparr>read_mirror := \<not> read_mirror rb, read_index := write_index rb\<rparr>
                      else rb)
                else
                  (let rb = rb\<lparr>write_index := write_index rb + 1\<rparr>
                   in if old_state = RT_RINGBUFFER_FULL then rb\<lparr>read_index := write_index rb\<rparr>
                      else rb))
      in (1, rb, m))"

text \<open>The character read is \<open>None\<close> when \<open>*ch\<close> is not written.\<close>

definition rt_ringbuffer_getchar ::
  "rt_ringbuffer \<Rightarrow> mem \<Rightarrow> u32 \<times> u8 option \<times> rt_ringbuffer" where
  "rt_ringbuffer_getchar rb m =
     (if rt_ringbuffer_data_len rb = 0 then (0, None, rb)
      else
        (let ch = m (rb_at rb (read_index rb));
             rb = (if at_end rb (read_index rb)
                   then rb\<lparr>read_mirror := \<not> read_mirror rb, read_index := 0\<rparr>
                   else rb\<lparr>read_index := read_index rb + 1\<rparr>)
         in (1, Some ch, rb)))"

end
