(* ===== verification/Kernel.thy ===== *)
theory Kernel
  imports RtList Mem Ringbuffer
begin

text \<open>
  The kernel objects of \<open>include/rtdef.h\<close> and the state of the kernel, one record: the
  structures by address, the lists they are linked into as sequences (the contract of the theory
  on lists), and the global variables of \<open>scheduler.c\<close>, \<open>timer.c\<close>, \<open>clock.c\<close>, \<open>irq.c\<close> and
  \<open>kservice.c\<close>. The operations here are those that only read and write these variables.

  The configuration is that of \<open>bsp/stm32f407VGT6/rtconfig.h\<close>: 32 priorities, names of
  8 bytes, no soft timers, no modules, all inter-process communication, the small-memory heap,
  hooks that are never installed, one level in the timer skip list.
\<close>

subsection \<open>Structures\<close>

abbreviation (input) RT_THREAD_PRIORITY_MAX :: nat where "RT_THREAD_PRIORITY_MAX \<equiv> 32"
abbreviation (input) RT_NAME_MAX :: nat where "RT_NAME_MAX \<equiv> 8"
abbreviation (input) RT_TICK_PER_SECOND :: u32 where "RT_TICK_PER_SECOND \<equiv> 100"

text \<open>
  An object is named by its address; the timer inside a thread is named by the thread.
\<close>

datatype oref = Obj addr | Thread_timer addr

datatype obj_class =
  RT_Object_Class_Thread | RT_Object_Class_Semaphore | RT_Object_Class_Mutex
  | RT_Object_Class_Event | RT_Object_Class_MailBox | RT_Object_Class_MessageQueue
  | RT_Object_Class_MemPool | RT_Object_Class_Device | RT_Object_Class_Timer

definition class_code :: "obj_class \<Rightarrow> u8" where
  "class_code c =
     (case c of
        RT_Object_Class_Thread \<Rightarrow> 0 | RT_Object_Class_Semaphore \<Rightarrow> 1
      | RT_Object_Class_Mutex \<Rightarrow> 2 | RT_Object_Class_Event \<Rightarrow> 3
      | RT_Object_Class_MailBox \<Rightarrow> 4 | RT_Object_Class_MessageQueue \<Rightarrow> 5
      | RT_Object_Class_MemPool \<Rightarrow> 6 | RT_Object_Class_Device \<Rightarrow> 7
      | RT_Object_Class_Timer \<Rightarrow> 8)"

abbreviation (input) RT_Object_Class_Unknown :: u8 where "RT_Object_Class_Unknown \<equiv> 9"
abbreviation (input) RT_Object_Class_Static :: u8 where "RT_Object_Class_Static \<equiv> 0x80"

text \<open>The entry of \<open>rt_object_container\<close> that an index selects.\<close>

definition class_of_code :: "u8 \<Rightarrow> obj_class option" where
  "class_of_code n =
     (if n = 0 then Some RT_Object_Class_Thread else if n = 1 then Some RT_Object_Class_Semaphore
      else if n = 2 then Some RT_Object_Class_Mutex else if n = 3 then Some RT_Object_Class_Event
      else if n = 4 then Some RT_Object_Class_MailBox
      else if n = 5 then Some RT_Object_Class_MessageQueue
      else if n = 6 then Some RT_Object_Class_MemPool else if n = 7 then Some RT_Object_Class_Device
      else if n = 8 then Some RT_Object_Class_Timer else None)"

text \<open>\<open>sizeof\<close> of the structures, as \<open>rt_object_container\<close> records it.\<close>

definition object_size :: "obj_class \<Rightarrow> u32" where
  "object_size c =
     (case c of
        RT_Object_Class_Thread \<Rightarrow> 128 | RT_Object_Class_Semaphore \<Rightarrow> 32
      | RT_Object_Class_Mutex \<Rightarrow> 36 | RT_Object_Class_Event \<Rightarrow> 32
      | RT_Object_Class_MailBox \<Rightarrow> 48 | RT_Object_Class_MessageQueue \<Rightarrow> 52
      | RT_Object_Class_MemPool \<Rightarrow> 56 | RT_Object_Class_Device \<Rightarrow> 68
      | RT_Object_Class_Timer \<Rightarrow> 44)"

record rt_object =
  obj_name :: "u8 list"
  obj_type :: u8
  obj_flag :: u8

text \<open>Thread states; \<open>RT_THREAD_BLOCK\<close> is \<open>RT_THREAD_SUSPEND\<close>.\<close>

datatype thread_stat =
  RT_THREAD_INIT | RT_THREAD_READY | RT_THREAD_SUSPEND | RT_THREAD_RUNNING | RT_THREAD_CLOSE

record rt_thread =
  sp :: addr
  t_entry :: addr
  t_parameter :: u32
  stack_addr :: addr
  stack_size :: u16
  t_error :: rt_err
  stat :: thread_stat
  current_priority :: u8
  init_priority :: u8
  number_mask :: u32
  event_set :: u32
  event_info :: u8
  t_init_tick :: u32
  remaining_tick :: u32
  cleanup :: "nat option"
  user_data :: u32

text \<open>Timeout functions: the kernel's own, or one of the application's.\<close>

datatype timeout_fn = Fn_thread_timeout | Fn_user nat

record rt_timer =
  timeout_func :: timeout_fn
  parameter :: u32
  init_tick :: u32
  timeout_tick :: u32

abbreviation (input) RT_TIMER_FLAG_ACTIVATED :: u8 where "RT_TIMER_FLAG_ACTIVATED \<equiv> 1"
abbreviation (input) RT_TIMER_FLAG_ONE_SHOT :: u8 where "RT_TIMER_FLAG_ONE_SHOT \<equiv> 0"
abbreviation (input) RT_TIMER_FLAG_PERIODIC :: u8 where "RT_TIMER_FLAG_PERIODIC \<equiv> 2"

record rt_semaphore =
  sem_value :: u16

record rt_mutex =
  mtx_value :: u16
  original_priority :: u8
  hold :: u8
  owner :: "addr option"

record rt_event =
  ev_set :: u32

record rt_mailbox =
  msg_pool :: addr
  mb_size :: u16
  mb_entry :: u16
  in_offset :: u16
  out_offset :: u16

text \<open>
  A message node of a queue is named by its address. \<open>mq_next\<close> is \<open>rt_mq_message.next\<close>; the
  message is the bytes of memory behind it.
\<close>

record rt_messagequeue =
  mq_pool :: addr
  msg_size :: u16
  max_msgs :: u16
  mq_entry :: u16
  msg_queue_head :: "addr option"
  msg_queue_tail :: "addr option"
  msg_queue_free :: "addr option"
  mq_next :: "addr \<Rightarrow> addr option"

text \<open>The word before each block of a pool: the next free block, or the pool it belongs to.\<close>

datatype mp_link = Free_block "addr option" | Owned_by addr

record rt_mempool =
  start_address :: addr
  mp_size :: u32
  block_size :: u32
  block_list :: "addr option"
  block_total_count :: u32
  block_free_count :: u32
  suspend_thread_count :: u32

text \<open>
  A device; its driver functions are the application's and named by numbers. The drivers' own
  objects: completions, data queues and pipes.
\<close>

record rt_device =
  dev_flag :: u16
  open_flag :: u16
  ref_count :: u8
  rx_indicate :: "nat option"
  tx_complete :: "nat option"
  dev_init :: "nat option"
  dev_open :: "nat option"
  dev_close :: "nat option"
  dev_read :: "nat option"
  dev_write :: "nat option"
  dev_control :: "nat option"

record rt_data_queue =
  dq_size :: u16
  lwm :: u16
  waiting_lwm :: bool
  get_index :: u16
  put_index :: u16
  dq_items :: "addr option"
  dq_item :: "nat \<Rightarrow> addr \<times> u32"
  evt_notify :: "nat option"

record rt_pipe =
  ringbuffer :: rt_ringbuffer
  pipe_flag :: u8

text \<open>The anchors of the lists that threads are linked into by \<open>tlist\<close>.\<close>

datatype qhead =
  Ready nat            \<comment> \<open>\<open>rt_thread_priority_table[p]\<close>\<close>
  | Defunct            \<comment> \<open>\<open>rt_thread_defunct\<close>\<close>
  | Suspend_list addr  \<comment> \<open>\<open>suspend_thread\<close> of an object, the list of its readers\<close>
  | Sender_list addr   \<comment> \<open>\<open>suspend_sender_thread\<close> of a mailbox, a list of writers\<close>

record kernel =
  objs :: "oref \<Rightarrow> rt_object"
  containers :: "(obj_class, oref) lists"
  thread :: "addr \<Rightarrow> rt_thread"
  timer :: "oref \<Rightarrow> rt_timer"
  tlists :: "(qhead, addr) lists"
  timer_list :: "oref list"
  random_nr :: u32
  lock_nest :: "16 word"
  current :: "addr option"
  current_prio :: u8
  ready_group :: u32
  tick :: u32
  irq_nest :: u8
  errno :: rt_err
  heap_of :: heap
  sem :: "addr \<Rightarrow> rt_semaphore"
  mutex :: "addr \<Rightarrow> rt_mutex"
  event :: "addr \<Rightarrow> rt_event"
  mailbox :: "addr \<Rightarrow> rt_mailbox"
  mqueue :: "addr \<Rightarrow> rt_messagequeue"
  mempool :: "addr \<Rightarrow> rt_mempool"
  mp_links :: "addr \<Rightarrow> mp_link"
  device :: "addr \<Rightarrow> rt_device"
  completed :: "addr \<Rightarrow> bool"
  data_queue :: "addr \<Rightarrow> rt_data_queue"
  pipe :: "addr \<Rightarrow> rt_pipe"

text \<open>Assignments through a pointer to a structure.\<close>

definition upd_obj :: "oref \<Rightarrow> (rt_object \<Rightarrow> rt_object) \<Rightarrow> kernel \<Rightarrow> kernel" where
  "upd_obj r f k = k\<lparr>objs := (objs k)(r := f (objs k r))\<rparr>"

definition upd_thread :: "addr \<Rightarrow> (rt_thread \<Rightarrow> rt_thread) \<Rightarrow> kernel \<Rightarrow> kernel" where
  "upd_thread t f k = k\<lparr>thread := (thread k)(t := f (thread k t))\<rparr>"

definition upd_timer :: "oref \<Rightarrow> (rt_timer \<Rightarrow> rt_timer) \<Rightarrow> kernel \<Rightarrow> kernel" where
  "upd_timer r f k = k\<lparr>timer := (timer k)(r := f (timer k r))\<rparr>"

definition upd_sem :: "addr \<Rightarrow> (rt_semaphore \<Rightarrow> rt_semaphore) \<Rightarrow> kernel \<Rightarrow> kernel" where
  "upd_sem s f k = k\<lparr>sem := (sem k)(s := f (sem k s))\<rparr>"

definition upd_mutex :: "addr \<Rightarrow> (rt_mutex \<Rightarrow> rt_mutex) \<Rightarrow> kernel \<Rightarrow> kernel" where
  "upd_mutex m f k = k\<lparr>mutex := (mutex k)(m := f (mutex k m))\<rparr>"

definition upd_event :: "addr \<Rightarrow> (rt_event \<Rightarrow> rt_event) \<Rightarrow> kernel \<Rightarrow> kernel" where
  "upd_event e f k = k\<lparr>event := (event k)(e := f (event k e))\<rparr>"

definition upd_mb :: "addr \<Rightarrow> (rt_mailbox \<Rightarrow> rt_mailbox) \<Rightarrow> kernel \<Rightarrow> kernel" where
  "upd_mb m f k = k\<lparr>mailbox := (mailbox k)(m := f (mailbox k m))\<rparr>"

definition upd_mq :: "addr \<Rightarrow> (rt_messagequeue \<Rightarrow> rt_messagequeue) \<Rightarrow> kernel \<Rightarrow> kernel" where
  "upd_mq q f k = k\<lparr>mqueue := (mqueue k)(q := f (mqueue k q))\<rparr>"

definition upd_mp :: "addr \<Rightarrow> (rt_mempool \<Rightarrow> rt_mempool) \<Rightarrow> kernel \<Rightarrow> kernel" where
  "upd_mp p f k = k\<lparr>mempool := (mempool k)(p := f (mempool k p))\<rparr>"

definition upd_dev :: "addr \<Rightarrow> (rt_device \<Rightarrow> rt_device) \<Rightarrow> kernel \<Rightarrow> kernel" where
  "upd_dev d f k = k\<lparr>device := (device k)(d := f (device k d))\<rparr>"

definition upd_dq :: "addr \<Rightarrow> (rt_data_queue \<Rightarrow> rt_data_queue) \<Rightarrow> kernel \<Rightarrow> kernel" where
  "upd_dq q f k = k\<lparr>data_queue := (data_queue k)(q := f (data_queue k q))\<rparr>"

definition upd_pipe :: "addr \<Rightarrow> (rt_pipe \<Rightarrow> rt_pipe) \<Rightarrow> kernel \<Rightarrow> kernel" where
  "upd_pipe p f k = k\<lparr>pipe := (pipe k)(p := f (pipe k p))\<rparr>"

definition upd_heap :: "(heap \<Rightarrow> heap) \<Rightarrow> kernel \<Rightarrow> kernel" where
  "upd_heap f k = k\<lparr>heap_of := f (heap_of k)\<rparr>"

subsection \<open>Interrupts, ticks and error numbers\<close>

definition rt_interrupt_enter :: "kernel \<Rightarrow> kernel" where
  "rt_interrupt_enter k = k\<lparr>irq_nest := irq_nest k + 1\<rparr>"

definition rt_interrupt_leave :: "kernel \<Rightarrow> kernel" where
  "rt_interrupt_leave k = k\<lparr>irq_nest := irq_nest k - 1\<rparr>"

definition rt_interrupt_get_nest :: "kernel \<Rightarrow> u8" where
  "rt_interrupt_get_nest k = irq_nest k"

definition RT_DEBUG_NOT_IN_INTERRUPT :: "kernel \<Rightarrow> unit option" where
  "RT_DEBUG_NOT_IN_INTERRUPT k = rt_assert (rt_interrupt_get_nest k = 0)"

definition rt_thread_self :: "kernel \<Rightarrow> addr option" where
  "rt_thread_self k = current k"

definition RT_DEBUG_IN_THREAD_CONTEXT :: "kernel \<Rightarrow> unit option" where
  "RT_DEBUG_IN_THREAD_CONTEXT k = do {
     rt_assert (rt_thread_self k \<noteq> None);
     RT_DEBUG_NOT_IN_INTERRUPT k
   }"

definition rt_tick_get :: "kernel \<Rightarrow> u32" where
  "rt_tick_get k = tick k"

definition rt_tick_set :: "u32 \<Rightarrow> kernel \<Rightarrow> kernel" where
  "rt_tick_set n k = k\<lparr>tick := n\<rparr>"

definition rt_tick_from_millisecond :: "u32 \<Rightarrow> u32" where
  "rt_tick_from_millisecond ms = (RT_TICK_PER_SECOND * ms + 999) div 1000"

definition rt_get_errno :: "kernel \<Rightarrow> rt_err" where
  "rt_get_errno k =
     (if rt_interrupt_get_nest k \<noteq> 0 then errno k
      else (case rt_thread_self k of None \<Rightarrow> errno k | Some tid \<Rightarrow> t_error (thread k tid)))"

definition rt_set_errno :: "rt_err \<Rightarrow> kernel \<Rightarrow> kernel" where
  "rt_set_errno e k =
     (if rt_interrupt_get_nest k \<noteq> 0 then k\<lparr>errno := e\<rparr>
      else (case rt_thread_self k of
              None \<Rightarrow> k\<lparr>errno := e\<rparr>
            | Some tid \<Rightarrow> upd_thread tid (\<lambda>t. t\<lparr>t_error := e\<rparr>) k))"

text \<open>\<open>_rt_errno\<close> returns a pointer: to the variable or to the field of a thread.\<close>

definition rt_errno_loc :: "kernel \<Rightarrow> addr option" where
  "rt_errno_loc k =
     (if rt_interrupt_get_nest k \<noteq> 0 then None
      else (case rt_thread_self k of Some tid \<Rightarrow> Some tid | None \<Rightarrow> None))"

subsection \<open>Reading an updated state\<close>

named_theorems kernel_defs "operations that are assignments"

lemmas [kernel_defs] =
  upd_obj_def upd_thread_def upd_timer_def upd_sem_def upd_mutex_def upd_event_def upd_mb_def
  upd_mq_def upd_mp_def upd_dev_def upd_dq_def upd_pipe_def upd_heap_def

lemma thread_upd [simp]:
  "thread (upd_thread t f k) = (thread k)(t := f (thread k t))"
  "thread (upd_obj r g k) = thread k" "thread (upd_timer r h k) = thread k"
  by (simp_all add: kernel_defs)

lemma tlists_upd [simp]:
  "tlists (upd_thread t f k) = tlists k" "tlists (upd_obj r g k) = tlists k"
  "tlists (upd_timer r h k) = tlists k"
  by (simp_all add: kernel_defs)

lemma timer_list_upd [simp]:
  "timer_list (upd_thread t f k) = timer_list k" "timer_list (upd_obj r g k) = timer_list k"
  "timer_list (upd_timer r h k) = timer_list k"
  by (simp_all add: kernel_defs)

lemma objs_upd [simp]:
  "objs (upd_thread t f k) = objs k" "objs (upd_obj r g k) = (objs k)(r := g (objs k r))"
  "objs (upd_timer r h k) = objs k"
  by (simp_all add: kernel_defs)

lemma timer_upd [simp]:
  "timer (upd_thread t f k) = timer k" "timer (upd_obj r g k) = timer k"
  "timer (upd_timer r h k) = (timer k)(r := h (timer k r))"
  by (simp_all add: kernel_defs)

text \<open>The parts of the state that belong to no thread, object or timer.\<close>

lemma misc_upd [simp]:
  "ready_group (upd_thread t f k) = ready_group k" "ready_group (upd_obj r g k) = ready_group k"
  "ready_group (upd_timer r h k) = ready_group k"
  "current (upd_thread t f k) = current k" "current (upd_obj r g k) = current k"
  "current (upd_timer r h k) = current k"
  "tick (upd_thread t f k) = tick k" "tick (upd_obj r g k) = tick k"
  "tick (upd_timer r h k) = tick k"
  "lock_nest (upd_thread t f k) = lock_nest k" "lock_nest (upd_obj r g k) = lock_nest k"
  "lock_nest (upd_timer r h k) = lock_nest k"
  "irq_nest (upd_thread t f k) = irq_nest k" "irq_nest (upd_obj r g k) = irq_nest k"
  "irq_nest (upd_timer r h k) = irq_nest k"
  "current_prio (upd_thread t f k) = current_prio k" "current_prio (upd_obj r g k) = current_prio k"
  "current_prio (upd_timer r h k) = current_prio k"
  "containers (upd_thread t f k) = containers k" "containers (upd_obj r g k) = containers k"
  "containers (upd_timer r h k) = containers k"
  "heap_of (upd_thread t f k) = heap_of k" "heap_of (upd_obj r g k) = heap_of k"
  "heap_of (upd_timer r h k) = heap_of k"
  by (simp_all add: kernel_defs)

text \<open>The objects of inter-process communication, the drivers' and the heap.\<close>

lemma upd_sem_sel [simp]:
  "thread (upd_sem s f k) = thread k" "tlists (upd_sem s f k) = tlists k"
  "timer_list (upd_sem s f k) = timer_list k" "objs (upd_sem s f k) = objs k"
  "timer (upd_sem s f k) = timer k" "ready_group (upd_sem s f k) = ready_group k"
  "current (upd_sem s f k) = current k" "tick (upd_sem s f k) = tick k"
  "lock_nest (upd_sem s f k) = lock_nest k" "irq_nest (upd_sem s f k) = irq_nest k"
  "current_prio (upd_sem s f k) = current_prio k" "containers (upd_sem s f k) = containers k"
  "mp_links (upd_sem s f k) = mp_links k" "completed (upd_sem s f k) = completed k"
  "heap_of (upd_sem s f k) = heap_of k" "sem (upd_sem s f k) = (sem k)(s := f (sem k s))"
  "mutex (upd_sem s f k) = mutex k" "event (upd_sem s f k) = event k"
  "mailbox (upd_sem s f k) = mailbox k" "mqueue (upd_sem s f k) = mqueue k"
  "mempool (upd_sem s f k) = mempool k" "device (upd_sem s f k) = device k"
  "data_queue (upd_sem s f k) = data_queue k" "pipe (upd_sem s f k) = pipe k"
  by (simp_all add: upd_sem_def)

lemma upd_mutex_sel [simp]:
  "thread (upd_mutex s f k) = thread k" "tlists (upd_mutex s f k) = tlists k"
  "timer_list (upd_mutex s f k) = timer_list k" "objs (upd_mutex s f k) = objs k"
  "timer (upd_mutex s f k) = timer k" "ready_group (upd_mutex s f k) = ready_group k"
  "current (upd_mutex s f k) = current k" "tick (upd_mutex s f k) = tick k"
  "lock_nest (upd_mutex s f k) = lock_nest k" "irq_nest (upd_mutex s f k) = irq_nest k"
  "current_prio (upd_mutex s f k) = current_prio k" "containers (upd_mutex s f k) = containers k"
  "mp_links (upd_mutex s f k) = mp_links k" "completed (upd_mutex s f k) = completed k"
  "heap_of (upd_mutex s f k) = heap_of k" "sem (upd_mutex s f k) = sem k"
  "mutex (upd_mutex s f k) = (mutex k)(s := f (mutex k s))" "event (upd_mutex s f k) = event k"
  "mailbox (upd_mutex s f k) = mailbox k" "mqueue (upd_mutex s f k) = mqueue k"
  "mempool (upd_mutex s f k) = mempool k" "device (upd_mutex s f k) = device k"
  "data_queue (upd_mutex s f k) = data_queue k" "pipe (upd_mutex s f k) = pipe k"
  by (simp_all add: upd_mutex_def)

lemma upd_event_sel [simp]:
  "thread (upd_event s f k) = thread k" "tlists (upd_event s f k) = tlists k"
  "timer_list (upd_event s f k) = timer_list k" "objs (upd_event s f k) = objs k"
  "timer (upd_event s f k) = timer k" "ready_group (upd_event s f k) = ready_group k"
  "current (upd_event s f k) = current k" "tick (upd_event s f k) = tick k"
  "lock_nest (upd_event s f k) = lock_nest k" "irq_nest (upd_event s f k) = irq_nest k"
  "current_prio (upd_event s f k) = current_prio k" "containers (upd_event s f k) = containers k"
  "mp_links (upd_event s f k) = mp_links k" "completed (upd_event s f k) = completed k"
  "heap_of (upd_event s f k) = heap_of k" "sem (upd_event s f k) = sem k"
  "mutex (upd_event s f k) = mutex k" "event (upd_event s f k) = (event k)(s := f (event k s))"
  "mailbox (upd_event s f k) = mailbox k" "mqueue (upd_event s f k) = mqueue k"
  "mempool (upd_event s f k) = mempool k" "device (upd_event s f k) = device k"
  "data_queue (upd_event s f k) = data_queue k" "pipe (upd_event s f k) = pipe k"
  by (simp_all add: upd_event_def)

lemma upd_mb_sel [simp]:
  "thread (upd_mb s f k) = thread k" "tlists (upd_mb s f k) = tlists k"
  "timer_list (upd_mb s f k) = timer_list k" "objs (upd_mb s f k) = objs k"
  "timer (upd_mb s f k) = timer k" "ready_group (upd_mb s f k) = ready_group k"
  "current (upd_mb s f k) = current k" "tick (upd_mb s f k) = tick k"
  "lock_nest (upd_mb s f k) = lock_nest k" "irq_nest (upd_mb s f k) = irq_nest k"
  "current_prio (upd_mb s f k) = current_prio k" "containers (upd_mb s f k) = containers k"
  "mp_links (upd_mb s f k) = mp_links k" "completed (upd_mb s f k) = completed k"
  "heap_of (upd_mb s f k) = heap_of k" "sem (upd_mb s f k) = sem k"
  "mutex (upd_mb s f k) = mutex k" "event (upd_mb s f k) = event k"
  "mailbox (upd_mb s f k) = (mailbox k)(s := f (mailbox k s))" "mqueue (upd_mb s f k) = mqueue k"
  "mempool (upd_mb s f k) = mempool k" "device (upd_mb s f k) = device k"
  "data_queue (upd_mb s f k) = data_queue k" "pipe (upd_mb s f k) = pipe k"
  by (simp_all add: upd_mb_def)

lemma upd_mq_sel [simp]:
  "thread (upd_mq s f k) = thread k" "tlists (upd_mq s f k) = tlists k"
  "timer_list (upd_mq s f k) = timer_list k" "objs (upd_mq s f k) = objs k"
  "timer (upd_mq s f k) = timer k" "ready_group (upd_mq s f k) = ready_group k"
  "current (upd_mq s f k) = current k" "tick (upd_mq s f k) = tick k"
  "lock_nest (upd_mq s f k) = lock_nest k" "irq_nest (upd_mq s f k) = irq_nest k"
  "current_prio (upd_mq s f k) = current_prio k" "containers (upd_mq s f k) = containers k"
  "mp_links (upd_mq s f k) = mp_links k" "completed (upd_mq s f k) = completed k"
  "heap_of (upd_mq s f k) = heap_of k" "sem (upd_mq s f k) = sem k"
  "mutex (upd_mq s f k) = mutex k" "event (upd_mq s f k) = event k"
  "mailbox (upd_mq s f k) = mailbox k" "mqueue (upd_mq s f k) = (mqueue k)(s := f (mqueue k s))"
  "mempool (upd_mq s f k) = mempool k" "device (upd_mq s f k) = device k"
  "data_queue (upd_mq s f k) = data_queue k" "pipe (upd_mq s f k) = pipe k"
  by (simp_all add: upd_mq_def)

lemma upd_mp_sel [simp]:
  "thread (upd_mp s f k) = thread k" "tlists (upd_mp s f k) = tlists k"
  "timer_list (upd_mp s f k) = timer_list k" "objs (upd_mp s f k) = objs k"
  "timer (upd_mp s f k) = timer k" "ready_group (upd_mp s f k) = ready_group k"
  "current (upd_mp s f k) = current k" "tick (upd_mp s f k) = tick k"
  "lock_nest (upd_mp s f k) = lock_nest k" "irq_nest (upd_mp s f k) = irq_nest k"
  "current_prio (upd_mp s f k) = current_prio k" "containers (upd_mp s f k) = containers k"
  "mp_links (upd_mp s f k) = mp_links k" "completed (upd_mp s f k) = completed k"
  "heap_of (upd_mp s f k) = heap_of k" "sem (upd_mp s f k) = sem k"
  "mutex (upd_mp s f k) = mutex k" "event (upd_mp s f k) = event k"
  "mailbox (upd_mp s f k) = mailbox k" "mqueue (upd_mp s f k) = mqueue k"
  "mempool (upd_mp s f k) = (mempool k)(s := f (mempool k s))" "device (upd_mp s f k) = device k"
  "data_queue (upd_mp s f k) = data_queue k" "pipe (upd_mp s f k) = pipe k"
  by (simp_all add: upd_mp_def)

lemma upd_dev_sel [simp]:
  "thread (upd_dev s f k) = thread k" "tlists (upd_dev s f k) = tlists k"
  "timer_list (upd_dev s f k) = timer_list k" "objs (upd_dev s f k) = objs k"
  "timer (upd_dev s f k) = timer k" "ready_group (upd_dev s f k) = ready_group k"
  "current (upd_dev s f k) = current k" "tick (upd_dev s f k) = tick k"
  "lock_nest (upd_dev s f k) = lock_nest k" "irq_nest (upd_dev s f k) = irq_nest k"
  "current_prio (upd_dev s f k) = current_prio k" "containers (upd_dev s f k) = containers k"
  "mp_links (upd_dev s f k) = mp_links k" "completed (upd_dev s f k) = completed k"
  "heap_of (upd_dev s f k) = heap_of k" "sem (upd_dev s f k) = sem k"
  "mutex (upd_dev s f k) = mutex k" "event (upd_dev s f k) = event k"
  "mailbox (upd_dev s f k) = mailbox k" "mqueue (upd_dev s f k) = mqueue k"
  "mempool (upd_dev s f k) = mempool k" "device (upd_dev s f k) = (device k)(s := f (device k s))"
  "data_queue (upd_dev s f k) = data_queue k" "pipe (upd_dev s f k) = pipe k"
  by (simp_all add: upd_dev_def)

lemma upd_dq_sel [simp]:
  "thread (upd_dq s f k) = thread k" "tlists (upd_dq s f k) = tlists k"
  "timer_list (upd_dq s f k) = timer_list k" "objs (upd_dq s f k) = objs k"
  "timer (upd_dq s f k) = timer k" "ready_group (upd_dq s f k) = ready_group k"
  "current (upd_dq s f k) = current k" "tick (upd_dq s f k) = tick k"
  "lock_nest (upd_dq s f k) = lock_nest k" "irq_nest (upd_dq s f k) = irq_nest k"
  "current_prio (upd_dq s f k) = current_prio k" "containers (upd_dq s f k) = containers k"
  "mp_links (upd_dq s f k) = mp_links k" "completed (upd_dq s f k) = completed k"
  "heap_of (upd_dq s f k) = heap_of k" "sem (upd_dq s f k) = sem k"
  "mutex (upd_dq s f k) = mutex k" "event (upd_dq s f k) = event k"
  "mailbox (upd_dq s f k) = mailbox k" "mqueue (upd_dq s f k) = mqueue k"
  "mempool (upd_dq s f k) = mempool k" "device (upd_dq s f k) = device k"
  "data_queue (upd_dq s f k) = (data_queue k)(s := f (data_queue k s))"
  "pipe (upd_dq s f k) = pipe k"
  by (simp_all add: upd_dq_def)

lemma upd_pipe_sel [simp]:
  "thread (upd_pipe s f k) = thread k" "tlists (upd_pipe s f k) = tlists k"
  "timer_list (upd_pipe s f k) = timer_list k" "objs (upd_pipe s f k) = objs k"
  "timer (upd_pipe s f k) = timer k" "ready_group (upd_pipe s f k) = ready_group k"
  "current (upd_pipe s f k) = current k" "tick (upd_pipe s f k) = tick k"
  "lock_nest (upd_pipe s f k) = lock_nest k" "irq_nest (upd_pipe s f k) = irq_nest k"
  "current_prio (upd_pipe s f k) = current_prio k" "containers (upd_pipe s f k) = containers k"
  "mp_links (upd_pipe s f k) = mp_links k" "completed (upd_pipe s f k) = completed k"
  "heap_of (upd_pipe s f k) = heap_of k" "sem (upd_pipe s f k) = sem k"
  "mutex (upd_pipe s f k) = mutex k" "event (upd_pipe s f k) = event k"
  "mailbox (upd_pipe s f k) = mailbox k" "mqueue (upd_pipe s f k) = mqueue k"
  "mempool (upd_pipe s f k) = mempool k" "device (upd_pipe s f k) = device k"
  "data_queue (upd_pipe s f k) = data_queue k"
  "pipe (upd_pipe s f k) = (pipe k)(s := f (pipe k s))"
  by (simp_all add: upd_pipe_def)

lemma upd_heap_sel [simp]:
  "thread (upd_heap f k) = thread k" "tlists (upd_heap f k) = tlists k"
  "timer_list (upd_heap f k) = timer_list k" "objs (upd_heap f k) = objs k"
  "timer (upd_heap f k) = timer k" "ready_group (upd_heap f k) = ready_group k"
  "current (upd_heap f k) = current k" "tick (upd_heap f k) = tick k"
  "lock_nest (upd_heap f k) = lock_nest k" "irq_nest (upd_heap f k) = irq_nest k"
  "current_prio (upd_heap f k) = current_prio k" "containers (upd_heap f k) = containers k"
  "mp_links (upd_heap f k) = mp_links k" "completed (upd_heap f k) = completed k"
  "heap_of (upd_heap f k) = f (heap_of k)" "sem (upd_heap f k) = sem k"
  "mutex (upd_heap f k) = mutex k" "event (upd_heap f k) = event k"
  "mailbox (upd_heap f k) = mailbox k" "mqueue (upd_heap f k) = mqueue k"
  "mempool (upd_heap f k) = mempool k" "device (upd_heap f k) = device k"
  "data_queue (upd_heap f k) = data_queue k" "pipe (upd_heap f k) = pipe k"
  by (simp_all add: upd_heap_def)

lemma other_upd [simp]:
  "sem (upd_thread t f k) = sem k" "mutex (upd_thread t f k) = mutex k"
  "event (upd_thread t f k) = event k" "mailbox (upd_thread t f k) = mailbox k"
  "mqueue (upd_thread t f k) = mqueue k" "mempool (upd_thread t f k) = mempool k"
  "device (upd_thread t f k) = device k" "data_queue (upd_thread t f k) = data_queue k"
  "pipe (upd_thread t f k) = pipe k" "mp_links (upd_thread t f k) = mp_links k"
  "completed (upd_thread t f k) = completed k" "errno (upd_thread t f k) = errno k"
  "sem (upd_obj r g k) = sem k" "mutex (upd_obj r g k) = mutex k"
  "event (upd_obj r g k) = event k" "mailbox (upd_obj r g k) = mailbox k"
  "mqueue (upd_obj r g k) = mqueue k" "mempool (upd_obj r g k) = mempool k"
  "device (upd_obj r g k) = device k" "data_queue (upd_obj r g k) = data_queue k"
  "pipe (upd_obj r g k) = pipe k" "mp_links (upd_obj r g k) = mp_links k"
  "completed (upd_obj r g k) = completed k" "errno (upd_obj r g k) = errno k"
  "sem (upd_timer r h k) = sem k" "mutex (upd_timer r h k) = mutex k"
  "event (upd_timer r h k) = event k" "mailbox (upd_timer r h k) = mailbox k"
  "mqueue (upd_timer r h k) = mqueue k" "mempool (upd_timer r h k) = mempool k"
  "device (upd_timer r h k) = device k" "data_queue (upd_timer r h k) = data_queue k"
  "pipe (upd_timer r h k) = pipe k" "mp_links (upd_timer r h k) = mp_links k"
  "completed (upd_timer r h k) = completed k" "errno (upd_timer r h k) = errno k"
  by (simp_all add: kernel_defs)

end
