(* ===== verification/Object.thy ===== *)
theory Object
  imports Kernel
begin

text \<open>
  The object system of \<open>src/object.c\<close>: one list per class of kernel objects. Static objects
  are initialised and detached, dynamic ones allocated from the heap and deleted. The search
  by name locks the scheduler and is in the theory on threads. The memory hooks of the heap
  have their caller's test that no interrupt is being served.
\<close>

fun nonnull :: "oref \<Rightarrow> bool" where
  "nonnull (Obj a) = (a \<noteq> 0)"
| "nonnull (Thread_timer t) = True"

subsection \<open>Memory\<close>

definition RT_KERNEL_MALLOC :: "u32 \<Rightarrow> kernel \<Rightarrow> (addr option \<times> kernel) option" where
  "RT_KERNEL_MALLOC sz k = do {
     RT_DEBUG_NOT_IN_INTERRUPT k;
     (p, h) \<leftarrow> rt_malloc sz (heap_of k);
     Some (p, k\<lparr>heap_of := h\<rparr>)
   }"

definition RT_KERNEL_FREE :: "addr \<Rightarrow> kernel \<Rightarrow> kernel option" where
  "RT_KERNEL_FREE p k = do {
     RT_DEBUG_NOT_IN_INTERRUPT k;
     h \<leftarrow> rt_free (if p = 0 then None else Some p) (heap_of k);
     Some (k\<lparr>heap_of := h\<rparr>)
   }"

subsection \<open>Operations\<close>

definition rt_object_init :: "oref \<Rightarrow> obj_class \<Rightarrow> cstr \<Rightarrow> kernel \<Rightarrow> kernel" where
  "rt_object_init r c name k =
     (let k = upd_obj r (\<lambda>ob. ob\<lparr>obj_type := class_code c OR RT_Object_Class_Static\<rparr>) k;
          k = upd_obj r (\<lambda>ob. ob\<lparr>obj_name := rt_strncpy name RT_NAME_MAX\<rparr>) k
      in k\<lparr>containers := lists_insert_first c r (containers k)\<rparr>)"

definition rt_object_detach :: "oref \<Rightarrow> kernel \<Rightarrow> kernel option" where
  "rt_object_detach r k = do {
     rt_assert (nonnull r);
     Some (k\<lparr>containers := lists_remove r (containers k)\<rparr>)
   }"

definition rt_object_allocate ::
  "obj_class \<Rightarrow> cstr \<Rightarrow> kernel \<Rightarrow> (addr option \<times> kernel) option" where
  "rt_object_allocate c name k = do {
     RT_DEBUG_NOT_IN_INTERRUPT k;
     (p, k) \<leftarrow> RT_KERNEL_MALLOC (object_size c) k;
     (case p of
        None \<Rightarrow> Some (None, k)
      | Some a \<Rightarrow>
          let k = upd_obj (Obj a) (\<lambda>ob. ob\<lparr>obj_type := class_code c, obj_flag := 0\<rparr>) k;
              k = upd_obj (Obj a) (\<lambda>ob. ob\<lparr>obj_name := rt_strncpy name RT_NAME_MAX\<rparr>) k;
              k = k\<lparr>containers := lists_insert_first c (Obj a) (containers k)\<rparr>
          in Some (Some a, k))
   }"

definition rt_object_delete :: "addr \<Rightarrow> kernel \<Rightarrow> kernel option" where
  "rt_object_delete a k = do {
     rt_assert (a \<noteq> 0);
     rt_assert (obj_type (objs k (Obj a)) AND RT_Object_Class_Static = 0);
     let k = k\<lparr>containers := lists_remove (Obj a) (containers k)\<rparr>;
     RT_KERNEL_FREE a k
   }"

definition rt_object_is_systemobject :: "oref \<Rightarrow> kernel \<Rightarrow> bool option" where
  "rt_object_is_systemobject r k = do {
     rt_assert (nonnull r);
     Some (obj_type (objs k r) AND RT_Object_Class_Static \<noteq> 0)
   }"

text \<open>The loop of \<open>rt_object_find\<close> and \<open>rt_thread_find\<close>; a name is read up to 8 bytes.\<close>

definition name_of :: "kernel \<Rightarrow> oref \<Rightarrow> cstr" where
  "name_of k r i = (if i < length (obj_name (objs k r)) then obj_name (objs k r) ! i else 0)"

fun find_named :: "kernel \<Rightarrow> cstr \<Rightarrow> oref list \<Rightarrow> oref option" where
  "find_named k name [] = None"
| "find_named k name (r # rs) =
     (if rt_strncmp (name_of k r) name RT_NAME_MAX = 0 then Some r else find_named k name rs)"

subsection \<open>Properties\<close>

text \<open>Objects are linked once, and what is linked carries the class of its list.\<close>

definition objects_wf :: "kernel \<Rightarrow> bool" where
  "objects_wf k =
     (wf_lists (containers k) \<and>
      (\<forall>c r. r \<in> set (containers k c) \<longrightarrow>
         nonnull r \<and> obj_type (objs k r) AND NOT RT_Object_Class_Static = class_code c \<and>
         length (obj_name (objs k r)) = 8))"

lemma class_code_static [simp]:
  "(class_code c OR 0x80) AND - 129 = class_code c"
  "class_code c AND - 129 = class_code c"
  "class_code c AND 0x80 = 0" "(class_code c OR 0x80) AND 0x80 = 0x80"
  by (cases c; simp add: class_code_def)+

lemma class_code_inj: "class_code c = class_code d \<longleftrightarrow> c = d"
  by (cases c; cases d; simp add: class_code_def)

lemma class_of_code_code [simp]: "class_of_code (class_code c) = Some c"
  by (cases c) (simp_all add: class_of_code_def class_code_def)

lemma objects_wf_insert:
  assumes "objects_wf k" "unlinked r (containers k)" "nonnull r"
    and "t AND NOT 0x80 = class_code c" "length n = 8"
  shows "objects_wf (k\<lparr>objs := (objs k)(r := \<lparr>obj_name = n, obj_type = t, obj_flag = f\<rparr>),
    containers := lists_insert_first c r (containers k)\<rparr>)"
proof -
  have "wf_lists (lists_insert_first c r (containers k))"
    using assms by (intro wf_lists_insert_first) (auto simp: objects_wf_def)
  then show ?thesis
    using assms by (auto simp: objects_wf_def lists_insert_first_def unlinked_def)
qed

lemma rt_object_init_eq:
  "rt_object_init r c name k = k\<lparr>objs := (objs k)(r := \<lparr>obj_name = rt_strncpy name 8,
      obj_type = class_code c OR 0x80, obj_flag = obj_flag (objs k r)\<rparr>),
    containers := lists_insert_first c r (containers k)\<rparr>"
  by (cases "objs k r") (simp add: rt_object_init_def kernel_defs Let_def)

lemma rt_object_init_wf:
  assumes "objects_wf k" "unlinked r (containers k)" "nonnull r"
  shows "objects_wf (rt_object_init r c name k)"
  unfolding rt_object_init_eq using assms by (intro objects_wf_insert) auto

lemma rt_object_detach_wf:
  assumes "objects_wf k" "rt_object_detach r k = Some k'"
  shows "objects_wf k' \<and> unlinked r (containers k')"
  using assms wf_lists_remove [of "containers k" r]
  by (auto simp: rt_object_detach_def objects_wf_def unlinked_remove)

text \<open>Looking a name up returns the first object in the list that has it.\<close>

lemma find_named_Some:
  "find_named k name rs = Some r \<Longrightarrow>
    r \<in> set rs \<and> rt_strncmp (name_of k r) name 8 = 0"
  by (induction rs) (auto split: if_splits)

lemma find_named_None:
  "find_named k name rs = None \<longleftrightarrow> (\<forall>r \<in> set rs. rt_strncmp (name_of k r) name 8 \<noteq> 0)"
  by (induction rs) auto

lemma name_of_nth:
  assumes "obj_name (objs k r) = rt_strncpy s 8" "i < 8"
  shows "name_of k r i = rt_strncpy s 8 ! i"
  using assms by (simp add: name_of_def)

lemma rt_strncmp_cong:
  "(\<And>i. i < n \<Longrightarrow> a i = b i) \<Longrightarrow> (rt_strncmp a c n = 0) = (rt_strncmp b c n = 0)"
  unfolding rt_strncmp_0 by (auto dest: less_trans)

text \<open>An object is found again under the name it was given, unless an earlier one has it.\<close>

lemma name_of_given:
  assumes "obj_name (objs k r) = rt_strncpy s 8"
  shows "rt_strncmp (name_of k r) t 8 = 0 \<longleftrightarrow> rt_strncmp s t 8 = 0"
proof -
  have "rt_strncmp (name_of k r) t 8 = 0 \<longleftrightarrow> rt_strncmp (nth (rt_strncpy s 8)) t 8 = 0"
    by (rule rt_strncmp_cong) (simp add: name_of_nth [OF assms])
  then show ?thesis by (simp only: rt_strncmp_strncpy)
qed

end
