(* ===== verification/Timer.thy ===== *)
theory Timer
  imports Object
begin

text \<open>
  The timers of \<open>src/timer.c\<close>: one list, ordered by the tick at which each timer runs out.
  Ticks are 32 bit numbers that wrap around; two of them are compared by their difference, so
  the order is meaningful as long as all timers run out within half the range. The list is
  proved to stay ordered, timers with the same tick in the order they were started. The loop
  that fires the timers is in the theory on the clock.
\<close>

subsection \<open>Operations\<close>

definition timer_flag :: "oref \<Rightarrow> kernel \<Rightarrow> u8" where
  "timer_flag r k = obj_flag (objs k r)"

definition set_timer_flag :: "oref \<Rightarrow> u8 \<Rightarrow> kernel \<Rightarrow> kernel" where
  "set_timer_flag r f k = upd_obj r (\<lambda>ob. ob\<lparr>obj_flag := f\<rparr>) k"

text \<open>\<open>rt_list_init\<close> of the row leaves the node in no list, as it is before.\<close>

definition timer_setup :: "oref \<Rightarrow> timeout_fn \<Rightarrow> u32 \<Rightarrow> u32 \<Rightarrow> u8 \<Rightarrow> kernel \<Rightarrow> kernel" where
  "timer_setup r f p time flag k =
     (let k = set_timer_flag r flag k;
          k = set_timer_flag r (timer_flag r k AND NOT RT_TIMER_FLAG_ACTIVATED) k
      in upd_timer r (\<lambda>t. t\<lparr>timeout_func := f, parameter := p, timeout_tick := 0,
                              init_tick := time\<rparr>) k)"

definition rt_timer_list_next_timeout :: "kernel \<Rightarrow> u32" where
  "rt_timer_list_next_timeout k =
     (case timer_list k of [] \<Rightarrow> RT_TICK_MAX | r # _ \<Rightarrow> timeout_tick (timer k r))"

definition timer_remove :: "oref \<Rightarrow> kernel \<Rightarrow> kernel" where
  "timer_remove r k = k\<lparr>timer_list := removeAll r (timer_list k)\<rparr>"

definition rt_timer_init ::
  "oref \<Rightarrow> cstr \<Rightarrow> timeout_fn \<Rightarrow> u32 \<Rightarrow> u32 \<Rightarrow> u8 \<Rightarrow> kernel \<Rightarrow> kernel option" where
  "rt_timer_init r name f p time flag k = do {
     rt_assert (nonnull r);
     let k = rt_object_init r RT_Object_Class_Timer name k;
     Some (timer_setup r f p time flag k)
   }"

definition rt_timer_detach :: "oref \<Rightarrow> kernel \<Rightarrow> (rt_err \<times> kernel) option" where
  "rt_timer_detach r k = do {
     rt_assert (nonnull r);
     let k = timer_remove r k;
     k \<leftarrow> rt_object_detach r k;
     Some (- RT_EOK, k)
   }"

definition rt_timer_create ::
  "cstr \<Rightarrow> timeout_fn \<Rightarrow> u32 \<Rightarrow> u32 \<Rightarrow> u8 \<Rightarrow> kernel \<Rightarrow> (addr option \<times> kernel) option" where
  "rt_timer_create name f p time flag k = do {
     (a, k) \<leftarrow> rt_object_allocate RT_Object_Class_Timer name k;
     (case a of
        None \<Rightarrow> Some (None, k)
      | Some t \<Rightarrow> Some (Some t, timer_setup (Obj t) f p time flag k))
   }"

definition rt_timer_delete :: "addr \<Rightarrow> kernel \<Rightarrow> (rt_err \<times> kernel) option" where
  "rt_timer_delete t k = do {
     rt_assert (t \<noteq> 0);
     let k = timer_remove (Obj t) k;
     k \<leftarrow> rt_object_delete t k;
     Some (- RT_EOK, k)
   }"

text \<open>
  The search for the place of a timer that runs out at \<open>tt\<close>, and the insertion there:
  behind the timers of the same tick, before the first one that is later.
\<close>

fun timer_insert :: "(oref \<Rightarrow> u32) \<Rightarrow> u32 \<Rightarrow> oref \<Rightarrow> oref list \<Rightarrow> oref list" where
  "timer_insert tick_of tt r [] = [r]"
| "timer_insert tick_of tt r (x # xs) =
     (if tick_of x - tt = 0 then x # timer_insert tick_of tt r xs
      else if tick_of x - tt < RT_TICK_HALF then r # x # xs
      else x # timer_insert tick_of tt r xs)"

definition rt_timer_start :: "oref \<Rightarrow> kernel \<Rightarrow> (rt_err \<times> kernel) option" where
  "rt_timer_start r k = do {
     rt_assert (nonnull r);
     let k = timer_remove r k;
     let k = set_timer_flag r (timer_flag r k AND NOT RT_TIMER_FLAG_ACTIVATED) k;
     rt_assert (init_tick (timer k r) < RT_TICK_HALF);
     let k = upd_timer r (\<lambda>t. t\<lparr>timeout_tick := rt_tick_get k + init_tick t\<rparr>) k;
     let k = k\<lparr>random_nr := random_nr k + 1\<rparr>;
     let k = k\<lparr>timer_list := timer_insert (\<lambda>x. timeout_tick (timer k x))
                               (timeout_tick (timer k r)) r (timer_list k)\<rparr>;
     let k = set_timer_flag r (timer_flag r k OR RT_TIMER_FLAG_ACTIVATED) k;
     Some (- RT_EOK, k)
   }"

definition rt_timer_stop :: "oref \<Rightarrow> kernel \<Rightarrow> (rt_err \<times> kernel) option" where
  "rt_timer_stop r k = do {
     rt_assert (nonnull r);
     (if timer_flag r k AND RT_TIMER_FLAG_ACTIVATED = 0 then Some (- RT_ERROR, k)
      else
        (let k = timer_remove r k
         in Some (RT_EOK, set_timer_flag r (timer_flag r k AND NOT RT_TIMER_FLAG_ACTIVATED) k)))
   }"

text \<open>The argument is read or written through a pointer: the word after the call is returned.\<close>

definition rt_timer_control ::
  "oref \<Rightarrow> u8 \<Rightarrow> u32 \<Rightarrow> kernel \<Rightarrow> (rt_err \<times> u32 \<times> kernel) option" where
  "rt_timer_control r cmd arg k = do {
     rt_assert (nonnull r);
     Some (if cmd = 1 then (RT_EOK, init_tick (timer k r), k)
           else if cmd = 0 then (RT_EOK, arg, upd_timer r (\<lambda>t. t\<lparr>init_tick := arg\<rparr>) k)
           else if cmd = 2 then
             (RT_EOK, arg, set_timer_flag r (timer_flag r k AND NOT RT_TIMER_FLAG_PERIODIC) k)
           else if cmd = 3 then
             (RT_EOK, arg, set_timer_flag r (timer_flag r k OR RT_TIMER_FLAG_PERIODIC) k)
           else (RT_EOK, arg, k))
   }"

definition rt_timer_next_timeout_tick :: "kernel \<Rightarrow> u32" where
  "rt_timer_next_timeout_tick k = rt_timer_list_next_timeout k"

definition rt_system_timer_init :: "kernel \<Rightarrow> kernel" where
  "rt_system_timer_init k = k\<lparr>timer_list := []\<rparr>"

subsection \<open>The order of the list\<close>

text \<open>How far ahead of \<open>b\<close> a timer runs out.\<close>

definition ahead :: "u32 \<Rightarrow> kernel \<Rightarrow> oref \<Rightarrow> nat" where
  "ahead b k r = unat (timeout_tick (timer k r) - b)"

definition timers_sorted :: "u32 \<Rightarrow> kernel \<Rightarrow> bool" where
  "timers_sorted b k = sorted (map (ahead b k) (timer_list k))"

lemma timer_insert_set [simp]: "set (timer_insert f tt r xs) = insert r (set xs)"
  by (induction xs) auto

lemma timer_insert_distinct:
  "distinct (timer_insert f tt r xs) = (distinct xs \<and> r \<notin> set xs)"
  by (induction xs) auto

text \<open>
  Seen from a tick \<open>b\<close> that is not later than any of them, the comparison of the code is the
  order of the distances, when these are less than half the range apart.
\<close>

lemma tick_compare:
  fixes b :: u32
  assumes "unat (x - b) \<le> 0x7fffffff" "unat (t - b) \<le> 0x7fffffff"
  shows "x - t = 0 \<longleftrightarrow> unat (x - b) = unat (t - b)"
    "x - t \<noteq> 0 \<Longrightarrow> unat (x - b) < unat (t - b) + 0x7fffffff \<Longrightarrow>
      x - t < RT_TICK_HALF \<longleftrightarrow> unat (t - b) < unat (x - b)"
proof -
  have d: "x - t = (x - b) - (t - b)" by simp
  show "x - t = 0 \<longleftrightarrow> unat (x - b) = unat (t - b)" by (simp add: word_unat_eq_iff [symmetric])
  assume ne: "x - t \<noteq> 0" and lt: "unat (x - b) < unat (t - b) + 0x7fffffff"
  show "x - t < RT_TICK_HALF \<longleftrightarrow> unat (t - b) < unat (x - b)"
  proof (cases "unat (t - b) \<le> unat (x - b)")
    case True
    then have "unat (x - t) = unat (x - b) - unat (t - b)"
      by (subst d, subst unat_sub) (auto simp: word_le_nat_alt)
    moreover have "unat (x - b) \<noteq> unat (t - b)" using ne by (simp add: word_unat_eq_iff [symmetric])
    ultimately show ?thesis using True lt by (simp add: word_less_nat_alt)
  next
    case False
    then have "unat (x - t) = 2 ^ 32 + unat (x - b) - unat (t - b)"
      by (subst d, subst unat_sub_if_size) (simp add: word_size)
    then show ?thesis using False assms by (simp add: word_less_nat_alt)
  qed
qed

lemma timer_insert_eq:
  assumes "unat (tt - b) \<le> 0x7fffffff"
    and "\<And>x. x \<in> set xs \<Longrightarrow> unat (f x - b) \<le> 0x7fffffff \<and> unat (f x - b) < unat (tt - b) + 0x7fffffff"
  shows "timer_insert f tt r xs =
    takeWhile (\<lambda>x. unat (f x - b) \<le> unat (tt - b)) xs @
    r # dropWhile (\<lambda>x. unat (f x - b) \<le> unat (tt - b)) xs"
  using assms(2)
proof (induction xs)
  case (Cons x xs)
  then have x: "unat (f x - b) \<le> 0x7fffffff" "unat (f x - b) < unat (tt - b) + 0x7fffffff"
    and ih: "timer_insert f tt r xs =
      takeWhile (\<lambda>x. unat (f x - b) \<le> unat (tt - b)) xs @
      r # dropWhile (\<lambda>x. unat (f x - b) \<le> unat (tt - b)) xs" by auto
  note c = tick_compare [OF x(1) assms(1)]
  show ?case
    using ih c x(2) by (cases "f x - tt = 0") auto
qed simp

lemma sorted_insert_point:
  assumes "sorted (map g xs)"
  shows "sorted (map g (takeWhile (\<lambda>x. g x \<le> v) xs)) \<and> sorted (map g (dropWhile (\<lambda>x. g x \<le> v) xs)) \<and>
    (\<forall>x \<in> set (takeWhile (\<lambda>x. g x \<le> v) xs). g x \<le> v) \<and>
    (\<forall>x \<in> set (dropWhile (\<lambda>x. g x \<le> v) xs). v < g x)"
  using assms by (induction xs) (auto simp: not_le dest: set_takeWhileD order.strict_trans2)

lemma timer_insert_sorted:
  assumes "unat (tt - b) \<le> 0x7fffffff" "f r = tt" "sorted (map (\<lambda>x. unat (f x - b)) xs)"
    and "\<And>x. x \<in> set xs \<Longrightarrow> unat (f x - b) \<le> 0x7fffffff \<and> unat (f x - b) < unat (tt - b) + 0x7fffffff"
  shows "sorted (map (\<lambda>x. unat (f x - b)) (timer_insert f tt r xs))"
proof -
  let ?g = "\<lambda>x. unat (f x - b)"
  note p = sorted_insert_point [OF assms(3), of "unat (tt - b)"]
  have "timer_insert f tt r xs = takeWhile (\<lambda>x. ?g x \<le> unat (tt - b)) xs @
      r # dropWhile (\<lambda>x. ?g x \<le> unat (tt - b)) xs"
    using timer_insert_eq [OF assms(1), of xs f r] assms(4) by simp
  then show ?thesis using p assms(2)
    by (auto simp: sorted_append less_imp_le intro: order_trans)
qed

subsection \<open>The invariant\<close>

lemma flag_bits:
  "(f::u8) AND 1 = 0 \<longleftrightarrow> \<not> bit f 0" "\<not> bit ((f::u8) AND NOT 1) 0" "bit ((f::u8) OR 1) 0"
proof -
  show "f AND 1 = 0 \<longleftrightarrow> \<not> bit f 0" by (simp add: and_one_eq mod2_eq_if bit_0)
  have "bit (NOT 1 :: u8) 0 = False" by (simp only: bit_not_iff) simp
  then show "\<not> bit (f AND NOT 1) 0" by (simp only: bit_and_iff) simp
  show "bit (f OR 1) 0" by (simp only: bit_or_iff) simp
qed

text \<open>
  The list holds activated timers, each once, ordered by tick. Seen from \<open>b\<close>, the current tick
  or the one before it, all of them run out within half the range.
\<close>

definition timers_ok :: "u32 \<Rightarrow> kernel \<Rightarrow> bool" where
  "timers_ok b k =
     (distinct (timer_list k) \<and> timers_sorted b k \<and> unat (tick k - b) \<le> 1 \<and>
      (\<forall>r \<in> set (timer_list k). nonnull r \<and> bit (timer_flag r k) 0 \<and>
         ahead b k r \<le> 0x7ffffffe + unat (tick k - b)))"

definition timers_wf :: "kernel \<Rightarrow> bool" where
  "timers_wf k = timers_ok (tick k) k"

text \<open>What the timer operations leave alone: the state without timers and object headers.\<close>

definition sans_timers :: "kernel \<Rightarrow> kernel" where
  "sans_timers k = k\<lparr>objs := (\<lambda>_. \<lparr>obj_name = [], obj_type = 0, obj_flag = 0\<rparr>),
     timer := (\<lambda>_. \<lparr>timeout_func = Fn_thread_timeout, parameter = 0, init_tick = 0,
       timeout_tick = 0\<rparr>), timer_list := [], random_nr := 0\<rparr>"

definition timer_frame :: "kernel \<Rightarrow> kernel \<Rightarrow> bool" where
  "timer_frame k k' = (sans_timers k' = sans_timers k)"

lemma timer_frameD:
  assumes "timer_frame k k'"
  shows "thread k' = thread k" "tlists k' = tlists k" "ready_group k' = ready_group k"
    "current k' = current k" "tick k' = tick k" "lock_nest k' = lock_nest k"
    "irq_nest k' = irq_nest k" "current_prio k' = current_prio k" "containers k' = containers k"
    "heap_of k' = heap_of k" "sem k' = sem k" "mutex k' = mutex k" "event k' = event k"
    "mailbox k' = mailbox k" "mqueue k' = mqueue k" "mempool k' = mempool k"
    "mp_links k' = mp_links k" "errno k' = errno k" "device k' = device k"
    "completed k' = completed k" "data_queue k' = data_queue k" "pipe k' = pipe k"
proof -
  have *: "f (sans_timers k') = f (sans_timers k)" for f :: "kernel \<Rightarrow> 'x"
    using assms by (simp add: timer_frame_def)
  show "thread k' = thread k" using * [of thread] by (simp add: sans_timers_def)
  show "tlists k' = tlists k" using * [of tlists] by (simp add: sans_timers_def)
  show "ready_group k' = ready_group k" using * [of ready_group] by (simp add: sans_timers_def)
  show "current k' = current k" using * [of current] by (simp add: sans_timers_def)
  show "tick k' = tick k" using * [of tick] by (simp add: sans_timers_def)
  show "lock_nest k' = lock_nest k" using * [of lock_nest] by (simp add: sans_timers_def)
  show "irq_nest k' = irq_nest k" using * [of irq_nest] by (simp add: sans_timers_def)
  show "current_prio k' = current_prio k" using * [of current_prio] by (simp add: sans_timers_def)
  show "containers k' = containers k" using * [of containers] by (simp add: sans_timers_def)
  show "heap_of k' = heap_of k" using * [of heap_of] by (simp add: sans_timers_def)
  show "sem k' = sem k" using * [of sem] by (simp add: sans_timers_def)
  show "mutex k' = mutex k" using * [of mutex] by (simp add: sans_timers_def)
  show "event k' = event k" using * [of event] by (simp add: sans_timers_def)
  show "mailbox k' = mailbox k" using * [of mailbox] by (simp add: sans_timers_def)
  show "mqueue k' = mqueue k" using * [of mqueue] by (simp add: sans_timers_def)
  show "mempool k' = mempool k" using * [of mempool] by (simp add: sans_timers_def)
  show "mp_links k' = mp_links k" using * [of mp_links] by (simp add: sans_timers_def)
  show "errno k' = errno k" using * [of errno] by (simp add: sans_timers_def)
  show "device k' = device k" using * [of device] by (simp add: sans_timers_def)
  show "completed k' = completed k" using * [of completed] by (simp add: sans_timers_def)
  show "data_queue k' = data_queue k" using * [of data_queue] by (simp add: sans_timers_def)
  show "pipe k' = pipe k" using * [of pipe] by (simp add: sans_timers_def)
qed

lemma timer_frame_refl [simp]: "timer_frame k k"
  by (simp add: timer_frame_def)

lemma timer_frame_trans: "timer_frame a b \<Longrightarrow> timer_frame b c \<Longrightarrow> timer_frame a c"
  by (simp add: timer_frame_def)

lemma timer_frame_step [simp]:
  "timer_frame a (timer_remove r k) = timer_frame a k"
  "timer_frame a (set_timer_flag r f k) = timer_frame a k"
  "timer_frame a (upd_timer r g k) = timer_frame a k"
  "timer_frame a (k\<lparr>timer_list := l\<rparr>) = timer_frame a k"
  "timer_frame a (k\<lparr>random_nr := n\<rparr>) = timer_frame a k"
  by (simp_all add: timer_frame_def sans_timers_def timer_remove_def set_timer_flag_def
      upd_obj_def upd_timer_def)

text \<open>A timer that is removed: the others keep their places.\<close>

lemma timer_flag_set [simp]:
  "timer_flag x (set_timer_flag r f k) = (if x = r then f else timer_flag x k)"
  "timer_flag x (upd_timer r g k) = timer_flag x k"
  "timer_flag x (timer_remove r k) = timer_flag x k"
  "timer_flag x (k\<lparr>timer_list := l\<rparr>) = timer_flag x k"
  "timer_flag x (k\<lparr>random_nr := n\<rparr>) = timer_flag x k"
  by (simp_all add: timer_flag_def set_timer_flag_def timer_remove_def)

lemma timer_list_remove [simp]:
  "timer_list (timer_remove r k) = removeAll r (timer_list k)"
  "timer_list (set_timer_flag r f k) = timer_list k"
  "timer (timer_remove r k) = timer k" "timer (set_timer_flag r f k) = timer k"
  "tick (timer_remove r k) = tick k" "tick (set_timer_flag r f k) = tick k"
  "objs (timer_remove r k) = objs k"
  by (simp_all add: timer_remove_def set_timer_flag_def)

lemma timers_sorted_remove:
  "timers_sorted b k \<Longrightarrow> sorted (map (ahead b k) (removeAll r (timer_list k)))"
  unfolding timers_sorted_def by (simp add: removeAll_filter_not_eq sorted_filter)

lemma timers_ok_remove: "timers_ok b k \<Longrightarrow> timers_ok b (timer_remove r k)"
  using timers_sorted_remove [of b k r]
  by (auto simp: timers_ok_def timers_sorted_def ahead_def [abs_def] distinct_removeAll)

text \<open>Starting a timer.\<close>

lemma rt_timer_start_unfold:
  assumes "nonnull r" "init_tick (timer k r) < RT_TICK_HALF"
  obtains k' where "rt_timer_start r k = Some (0, k')" "timer_frame k k'"
    "timer k' = (timer k)(r := (timer k r)\<lparr>timeout_tick := tick k + init_tick (timer k r)\<rparr>)"
    "timer_list k' = timer_insert (\<lambda>x. timeout_tick (timer k' x)) (tick k + init_tick (timer k r)) r
      (removeAll r (timer_list k))"
    "bit (timer_flag r k') 0" "\<And>x. x \<noteq> r \<Longrightarrow> timer_flag x k' = timer_flag x k"
proof -
  let ?k1 = "upd_timer r (\<lambda>t. t\<lparr>timeout_tick := tick k + init_tick t\<rparr>)
    (set_timer_flag r (timer_flag r k AND NOT 1) (timer_remove r k))"
  let ?k2 = "?k1\<lparr>random_nr := random_nr ?k1 + 1\<rparr>"
  let ?k3 = "?k2\<lparr>timer_list := timer_insert (\<lambda>x. timeout_tick (timer ?k2 x))
    (timeout_tick (timer ?k2 r)) r (timer_list ?k2)\<rparr>"
  let ?k4 = "set_timer_flag r (timer_flag r ?k3 OR 1) ?k3"
  have "rt_timer_start r k = Some (0, ?k4)"
    using assms by (simp add: rt_timer_start_def rt_tick_get_def Let_def cong: if_cong)
  moreover have "timer_frame k ?k4" by simp
  moreover have "bit (timer_flag r ?k4) 0" using flag_bits(3) by simp
  ultimately show ?thesis using that [of ?k4] by simp
qed

lemma rt_timer_start_ok:
  assumes ok: "timers_ok b k" and r: "nonnull r" "init_tick (timer k r) < RT_TICK_HALF"
  obtains k' where "rt_timer_start r k = Some (0, k')" "timers_ok b k'" "timer_frame k k'"
    "timer k' = (timer k)(r := (timer k r)\<lparr>timeout_tick := tick k + init_tick (timer k r)\<rparr>)"
    "timer_list k' = takeWhile (\<lambda>x. ahead b k' x \<le> ahead b k' r) (removeAll r (timer_list k)) @
      r # dropWhile (\<lambda>x. ahead b k' x \<le> ahead b k' r) (removeAll r (timer_list k))"
    "ahead b k' r = unat (tick k - b) + unat (init_tick (timer k r))"
proof -
  obtain k' where k': "rt_timer_start r k = Some (0, k')" "timer_frame k k'"
    "timer k' = (timer k)(r := (timer k r)\<lparr>timeout_tick := tick k + init_tick (timer k r)\<rparr>)"
    "timer_list k' = timer_insert (\<lambda>x. timeout_tick (timer k' x)) (tick k + init_tick (timer k r)) r
      (removeAll r (timer_list k))"
    "bit (timer_flag r k') 0" "\<And>x. x \<noteq> r \<Longrightarrow> timer_flag x k' = timer_flag x k"
    using rt_timer_start_unfold [OF r] by blast
  let ?xs = "removeAll r (timer_list k)" and ?tt = "tick k + init_tick (timer k r)"
  let ?f = "\<lambda>x. timeout_tick (timer k' x)"
  have tb: "unat (tick k - b) \<le> 1" using ok by (simp add: timers_ok_def)
  have it: "unat (init_tick (timer k r)) < 0x7fffffff" using r(2) by (simp add: word_less_nat_alt)
  have "?tt - b = (tick k - b) + init_tick (timer k r)" by simp
  moreover have "unat ((tick k - b) + init_tick (timer k r))
      = unat (tick k - b) + unat (init_tick (timer k r))"
    using tb it by (intro unat_add_lem [THEN iffD1]) simp
  ultimately have at: "unat (?tt - b) = unat (tick k - b) + unat (init_tick (timer k r))" by metis
  have new: "unat (?tt - b) \<le> 0x7fffffff" using tb it at by linarith
  have same: "ahead b k' x = ahead b k x" if "x \<in> set ?xs" for x
    using that k'(3) by (simp add: ahead_def)
  have old: "ahead b k x \<le> 0x7ffffffe + unat (tick k - b)" if "x \<in> set ?xs" for x
    using that ok by (simp add: timers_ok_def)
  have bound: "unat (?f x - b) \<le> 0x7fffffff \<and> unat (?f x - b) < unat (?tt - b) + 0x7fffffff"
    if "x \<in> set ?xs" for x
    using old [OF that] same [OF that] at tb unfolding ahead_def by linarith
  have fr: "?f r = ?tt" using k'(3) by simp
  have srt: "sorted (map (\<lambda>x. unat (?f x - b)) ?xs)"
  proof -
    have "sorted (map (ahead b k) ?xs)"
      using ok timers_sorted_remove by (simp add: timers_ok_def)
    moreover have "map (ahead b k) ?xs = map (\<lambda>x. unat (?f x - b)) ?xs"
      using same by (auto simp: ahead_def)
    ultimately show ?thesis by simp
  qed
  have lst: "timer_list k' = takeWhile (\<lambda>x. ahead b k' x \<le> ahead b k' r) ?xs @
      r # dropWhile (\<lambda>x. ahead b k' x \<le> ahead b k' r) ?xs"
    unfolding k'(4) ahead_def fr by (rule timer_insert_eq [OF new bound])
  have "timers_ok b k'"
    unfolding timers_ok_def
  proof (intro conjI ballI)
    show "distinct (timer_list k')"
      using ok k'(4) by (simp add: timer_insert_distinct timers_ok_def distinct_removeAll)
    show "timers_sorted b k'"
      unfolding timers_sorted_def k'(4) ahead_def
      by (rule timer_insert_sorted [OF new fr srt bound])
    show "unat (tick k' - b) \<le> 1" using tb timer_frameD(5) [OF k'(2)] by simp
    fix x assume x: "x \<in> set (timer_list k')"
    show "nonnull x" "bit (timer_flag x k') 0" "ahead b k' x \<le> 0x7ffffffe + unat (tick k' - b)"
    proof -
      have "x = r \<or> x \<in> set ?xs" using x k'(4) by auto
      then show "nonnull x" "bit (timer_flag x k') 0"
        using ok r k'(5,6) by (auto simp: timers_ok_def)
      show "ahead b k' x \<le> 0x7ffffffe + unat (tick k' - b)"
        using \<open>x = r \<or> x \<in> set ?xs\<close>
      proof
        assume "x = r"
        then show ?thesis using at it timer_frameD(5) [OF k'(2)] fr by (simp add: ahead_def)
      next
        assume "x \<in> set ?xs"
        then show ?thesis using old same timer_frameD(5) [OF k'(2)] by simp
      qed
    qed
  qed
  moreover have "ahead b k' r = unat (tick k - b) + unat (init_tick (timer k r))"
    using at fr by (simp add: ahead_def)
  ultimately show ?thesis using that k'(1-3) lst by blast
qed

text \<open>Stopping a timer takes it out of the list, and fails only when it is in none.\<close>

lemma rt_timer_stop_ok:
  assumes ok: "timers_ok b k" and r: "nonnull r"
  obtains e k' where "rt_timer_stop r k = Some (e, k')" "timers_ok b k'" "timer_frame k k'"
    "timer_list k' = removeAll r (timer_list k)" "timer k' = timer k"
    "\<And>x. x \<noteq> r \<Longrightarrow> objs k' x = objs k x" "\<not> bit (timer_flag r k') 0"
proof (cases "bit (timer_flag r k) 0")
  case True
  let ?k = "set_timer_flag r (timer_flag r (timer_remove r k) AND NOT 1) (timer_remove r k)"
  have "rt_timer_stop r k = Some (0, ?k)"
    using True r flag_bits(1) [of "timer_flag r k"] by (simp add: rt_timer_stop_def)
  moreover have "timers_ok b ?k"
  proof -
    have "timers_ok b (timer_remove r k)" by (rule timers_ok_remove [OF ok])
    then show ?thesis
      by (auto simp: timers_ok_def timers_sorted_def ahead_def [abs_def])
  qed
  moreover have "timer_frame k ?k" by simp
  moreover have "\<not> bit (timer_flag r ?k) 0" using flag_bits(2) by simp
  ultimately show ?thesis using that [of 0 ?k] by (auto simp: set_timer_flag_def)
next
  case False
  then have "r \<notin> set (timer_list k)" using ok by (auto simp: timers_ok_def)
  moreover have "rt_timer_stop r k = Some (- 1, k)"
    using False r flag_bits(1) [of "timer_flag r k"] by (simp add: rt_timer_stop_def)
  ultimately show ?thesis using that [of "- 1" k] ok False by simp
qed

lemma timers_ok_detach:
  assumes "timers_ok b k" "nonnull r"
  obtains k' where "rt_timer_detach r k = Some (0, k')" "timers_ok b k'"
    "timer_list k' = removeAll r (timer_list k)" "timer k' = timer k" "objs k' = objs k"
    "k' = k\<lparr>timer_list := removeAll r (timer_list k), containers := lists_remove r (containers k)\<rparr>"
proof -
  let ?k = "k\<lparr>timer_list := removeAll r (timer_list k), containers := lists_remove r (containers k)\<rparr>"
  have "rt_timer_detach r k = Some (0, ?k)"
    using assms by (simp add: rt_timer_detach_def rt_object_detach_def timer_remove_def)
  moreover have "timers_ok b ?k"
    using timers_ok_remove [OF assms(1), of r]
    by (simp add: timers_ok_def timers_sorted_def timer_flag_def timer_remove_def ahead_def [abs_def])
  ultimately show ?thesis using that [of ?k] by simp
qed

end
