(* ===== verification/Sched.thy ===== *)
theory Sched
  imports Timer
begin

text \<open>
  The scheduler of \<open>src/scheduler.c\<close>: one queue of ready threads per priority and a bit map of
  the queues that are not empty. A switch to another thread changes \<open>current\<close>; what the
  registers and the stack pointer do then is the assembler code under \<open>libcpu\<close> and not
  modelled, \<open>sp\<close> is the value it saved last. In an interrupt the switch is made when the
  interrupt ends, in a thread at once: its callers compare \<open>current\<close> before and after.
\<close>

subsection \<open>Operations\<close>

text \<open>The priority of the first bit that is set; \<open>None\<close> when the index would be \<open>-1\<close>.\<close>

definition highest_ready :: "kernel \<Rightarrow> nat option" where
  "highest_ready k = (if rt_ffs (ready_group k) = 0 then None else Some (rt_ffs (ready_group k) - 1))"

text \<open>Called with interrupts disabled, the stack check stops for good on an overflow.\<close>

definition scheduler_stack_check :: "addr \<Rightarrow> kernel \<Rightarrow> unit option" where
  "scheduler_stack_check t k = do {
     rt_assert (t \<noteq> 0);
     let th = thread k t;
     rt_assert (\<not> (sp th \<le> stack_addr th \<or> stack_addr th + ucast (stack_size th) < sp th))
   }"

definition rt_system_scheduler_init :: "kernel \<Rightarrow> kernel" where
  "rt_system_scheduler_init k =
     k\<lparr>lock_nest := 0,
       tlists := (\<lambda>h. case h of Ready p \<Rightarrow> (if p < RT_THREAD_PRIORITY_MAX then [] else tlists k h)
                            | Defunct \<Rightarrow> [] | _ \<Rightarrow> tlists k h),
       current_prio := of_nat (RT_THREAD_PRIORITY_MAX - 1), current := None, ready_group := 0\<rparr>"

definition rt_system_scheduler_start :: "kernel \<Rightarrow> kernel option" where
  "rt_system_scheduler_start k = do {
     p \<leftarrow> highest_ready k;
     to_thread \<leftarrow> lists_first (Ready p) (tlists k);
     Some (k\<lparr>current := Some to_thread\<rparr>)
   }"

definition rt_schedule :: "kernel \<Rightarrow> kernel option" where
  "rt_schedule k =
     (if lock_nest k = 0 then do {
        highest_ready_priority \<leftarrow> highest_ready k;
        to_thread \<leftarrow> lists_first (Ready highest_ready_priority) (tlists k);
        (if current k \<noteq> Some to_thread then do {
           rt_assert (current k \<noteq> None);
           let k = k\<lparr>current_prio := of_nat highest_ready_priority, current := Some to_thread\<rparr>;
           scheduler_stack_check to_thread k;
           Some k
         } else Some k)
      } else Some k)"

definition rt_schedule_insert_thread :: "addr \<Rightarrow> kernel \<Rightarrow> kernel option" where
  "rt_schedule_insert_thread t k = do {
     rt_assert (t \<noteq> 0);
     let k = upd_thread t (\<lambda>th. th\<lparr>stat := RT_THREAD_READY\<rparr>) k;
     let k = k\<lparr>tlists := lists_insert_last (Ready (unat (current_priority (thread k t)))) t (tlists k)\<rparr>;
     Some (k\<lparr>ready_group := ready_group k OR number_mask (thread k t)\<rparr>)
   }"

definition rt_schedule_remove_thread :: "addr \<Rightarrow> kernel \<Rightarrow> kernel option" where
  "rt_schedule_remove_thread t k = do {
     rt_assert (t \<noteq> 0);
     let k = k\<lparr>tlists := lists_remove t (tlists k)\<rparr>;
     Some (if tlists k (Ready (unat (current_priority (thread k t)))) = []
           then k\<lparr>ready_group := ready_group k AND NOT (number_mask (thread k t))\<rparr> else k)
   }"

definition rt_enter_critical :: "kernel \<Rightarrow> kernel" where
  "rt_enter_critical k = k\<lparr>lock_nest := lock_nest k + 1\<rparr>"

definition rt_exit_critical :: "kernel \<Rightarrow> kernel option" where
  "rt_exit_critical k =
     (let k = k\<lparr>lock_nest := lock_nest k - 1\<rparr>
      in if sint (lock_nest k) \<le> 0 then rt_schedule (k\<lparr>lock_nest := 0\<rparr>) else Some k)"

definition rt_critical_level :: "kernel \<Rightarrow> u16" where
  "rt_critical_level k = lock_nest k"

subsection \<open>The invariant\<close>

text \<open>
  Every thread is linked once, into a list that fits its state; the ready queues hold exactly the
  ready threads; the bit map tells which queues are not empty.
\<close>

definition stat_fits :: "rt_thread \<Rightarrow> qhead \<Rightarrow> bool" where
  "stat_fits th h =
     (case h of
        Ready p \<Rightarrow> stat th = RT_THREAD_READY \<and> unat (current_priority th) = p
      | Defunct \<Rightarrow> stat th = RT_THREAD_CLOSE
      | Suspend_list _ \<Rightarrow> stat th = RT_THREAD_SUSPEND
      | Sender_list _ \<Rightarrow> stat th = RT_THREAD_SUSPEND)"

definition prio_ok :: "rt_thread \<Rightarrow> bool" where
  "prio_ok th =
     (unat (current_priority th) < 32 \<and> number_mask th = push_bit (unat (current_priority th)) 1)"

definition live :: "rt_thread \<Rightarrow> bool" where
  "live th = (stat th = RT_THREAD_READY \<or> stat th = RT_THREAD_SUSPEND)"

definition sched_wf :: "kernel \<Rightarrow> bool" where
  "sched_wf k =
     (wf_lists (tlists k) \<and>
      (\<forall>h t. t \<in> set (tlists k h) \<longrightarrow> t \<noteq> 0 \<and> stat_fits (thread k t) h) \<and>
      (\<forall>t. stat (thread k t) = RT_THREAD_READY \<longrightarrow>
         t \<in> set (tlists k (Ready (unat (current_priority (thread k t)))))) \<and>
      (\<forall>t. live (thread k t) \<longrightarrow> prio_ok (thread k t)) \<and>
      (\<forall>p < 32. bit (ready_group k) p \<longleftrightarrow> tlists k (Ready p) \<noteq> []))"

lemma sched_wfD:
  assumes "sched_wf k"
  shows "wf_lists (tlists k)" "t \<in> set (tlists k h) \<Longrightarrow> t \<noteq> 0"
    "t \<in> set (tlists k h) \<Longrightarrow> stat_fits (thread k t) h"
    "stat (thread k t) = RT_THREAD_READY \<Longrightarrow>
      t \<in> set (tlists k (Ready (unat (current_priority (thread k t)))))"
    "live (thread k t) \<Longrightarrow> prio_ok (thread k t)"
    "p < 32 \<Longrightarrow> bit (ready_group k) p \<longleftrightarrow> tlists k (Ready p) \<noteq> []"
  using assms by (auto simp: sched_wf_def)

lemma live_stat [simp]: "live (th\<lparr>stat := s\<rparr>) = (s = RT_THREAD_READY \<or> s = RT_THREAD_SUSPEND)"
  by (simp add: live_def)

lemma prio_ok_stat [simp]: "prio_ok (th\<lparr>stat := s\<rparr>) = prio_ok th"
  by (simp add: prio_ok_def)

text \<open>The invariant reads only the scheduler's part of the state.\<close>

lemma sched_wf_cong:
  assumes "tlists k' = tlists k" "ready_group k' = ready_group k"
    and "\<And>t. stat (thread k' t) = stat (thread k t)"
    and "\<And>t. current_priority (thread k' t) = current_priority (thread k t)"
    and "\<And>t. number_mask (thread k' t) = number_mask (thread k t)"
  shows "sched_wf k' = sched_wf k"
proof -
  have "stat_fits (thread k' t) h = stat_fits (thread k t) h" for t h
    using assms by (cases h) (simp_all add: stat_fits_def)
  moreover have "live (thread k' t) = live (thread k t)" "prio_ok (thread k' t) = prio_ok (thread k t)" for t
    using assms by (simp_all add: live_def prio_ok_def)
  ultimately show ?thesis unfolding sched_wf_def using assms by simp
qed

lemma sched_wf_timer: "timer_frame k k' \<Longrightarrow> sched_wf k' = sched_wf k"
  by (intro sched_wf_cong) (auto dest: timer_frameD)

text \<open>A ready thread is in one queue and in no other list.\<close>

lemma linked_once:
  assumes "sched_wf k" "t \<in> set (tlists k h)" "t \<in> set (tlists k g)"
  shows "h = g"
  using assms unfolding sched_wf_def wf_lists_def by blast

lemma mask_bits:
  fixes g :: u32
  assumes "p < 32" "q < 32"
  shows "bit (g OR push_bit p 1) q = (bit g q \<or> q = p)"
    "bit (g AND NOT (push_bit p 1)) q = (bit g q \<and> q \<noteq> p)"
  using assms by (auto simp: bit_simps)

lemma stat_fits_ready [simp]: "stat_fits th (Ready p) = (stat th = RT_THREAD_READY \<and> unat (current_priority th) = p)"
  by (simp add: stat_fits_def)

text \<open>Making an unlinked thread ready.\<close>

lemma insert_thread_eq:
  assumes "t \<noteq> 0"
  shows "rt_schedule_insert_thread t k = Some (k\<lparr>
    thread := (thread k)(t := (thread k t)\<lparr>stat := RT_THREAD_READY\<rparr>),
    tlists := lists_insert_last (Ready (unat (current_priority (thread k t)))) t (tlists k),
    ready_group := ready_group k OR number_mask (thread k t)\<rparr>)"
  using assms by (simp add: rt_schedule_insert_thread_def kernel_defs Let_def)

lemma insert_thread_wf:
  assumes wf: "sched_wf k" and t: "t \<noteq> 0" "unlinked t (tlists k)" "prio_ok (thread k t)"
  obtains k' where "rt_schedule_insert_thread t k = Some k'" "sched_wf k'"
    "thread k' = (thread k)(t := (thread k t)\<lparr>stat := RT_THREAD_READY\<rparr>)"
    "tlists k' = lists_insert_last (Ready (unat (current_priority (thread k t)))) t (tlists k)"
    "k' = k\<lparr>thread := thread k', tlists := tlists k', ready_group := ready_group k'\<rparr>"
proof -
  let ?p = "unat (current_priority (thread k t))"
  let ?k = "k\<lparr>thread := (thread k)(t := (thread k t)\<lparr>stat := RT_THREAD_READY\<rparr>),
    tlists := lists_insert_last (Ready ?p) t (tlists k),
    ready_group := ready_group k OR number_mask (thread k t)\<rparr>"
  have fresh: "t \<notin> set (tlists k h)" for h using t(2) by (simp add: unlinked_def)
  have "wf_lists (tlists ?k)"
    using wf t(2) by (simp add: wf_lists_insert_last sched_wf_def)
  moreover have "x \<noteq> 0 \<and> stat_fits (thread ?k x) h" if "x \<in> set (tlists ?k h)" for x h
    using that t(1) fresh [of h] sched_wfD(2,3) [OF wf, of x h]
    by (auto simp: lists_insert_last_def split: if_splits)
  moreover have "x \<in> set (tlists ?k (Ready (unat (current_priority (thread ?k x)))))"
    if "stat (thread ?k x) = RT_THREAD_READY" for x
    using that sched_wfD(4) [OF wf, of x] by (auto simp: lists_insert_last_def split: if_splits)
  moreover have "prio_ok (thread ?k x)" if "live (thread ?k x)" for x
    using that t(3) sched_wfD(5) [OF wf, of x] by (auto split: if_splits)
  moreover have "bit (ready_group ?k) q \<longleftrightarrow> tlists ?k (Ready q) \<noteq> []" if "q < 32" for q
    using that t(3) sched_wfD(6) [OF wf, of q] mask_bits(1) [of ?p q]
    by (auto simp: lists_insert_last_def prio_ok_def)
  ultimately have "sched_wf ?k" unfolding sched_wf_def by blast
  then show ?thesis using that [of ?k] insert_thread_eq [OF t(1), of k] by simp
qed

text \<open>Taking a thread out of the lists, whatever state it is given then.\<close>

lemma remove_thread_eq:
  assumes "t \<noteq> 0"
  shows "rt_schedule_remove_thread t k = Some (k\<lparr>tlists := lists_remove t (tlists k),
    ready_group := (if lists_remove t (tlists k) (Ready (unat (current_priority (thread k t)))) = []
      then ready_group k AND NOT (number_mask (thread k t)) else ready_group k)\<rparr>)"
  using assms by (simp add: rt_schedule_remove_thread_def)

lemma remove_thread_wf:
  assumes wf: "sched_wf k" and t: "t \<noteq> 0" "live (thread k t)" and s: "s \<noteq> RT_THREAD_READY"
  obtains k' where "rt_schedule_remove_thread t k = Some k'"
    "sched_wf (upd_thread t (\<lambda>th. th\<lparr>stat := s\<rparr>) k')" "thread k' = thread k"
    "tlists k' = lists_remove t (tlists k)"
    "k' = k\<lparr>tlists := tlists k', ready_group := ready_group k'\<rparr>"
proof -
  let ?p = "unat (current_priority (thread k t))"
  let ?k = "k\<lparr>tlists := lists_remove t (tlists k),
    ready_group := (if lists_remove t (tlists k) (Ready ?p) = []
      then ready_group k AND NOT (number_mask (thread k t)) else ready_group k)\<rparr>"
  let ?k' = "upd_thread t (\<lambda>th. th\<lparr>stat := s\<rparr>) ?k"
  have pk: "prio_ok (thread k t)" using sched_wfD(5) [OF wf t(2)] .
  have th: "thread ?k' = (thread k)(t := (thread k t)\<lparr>stat := s\<rparr>)" by simp
  have "wf_lists (tlists ?k')" using wf by (simp add: wf_lists_remove sched_wf_def)
  moreover have "x \<noteq> 0 \<and> stat_fits (thread ?k' x) h" if "x \<in> set (tlists ?k' h)" for x h
    using that sched_wfD(2,3) [OF wf, of x h] by auto
  moreover have "x \<in> set (tlists ?k' (Ready (unat (current_priority (thread ?k' x)))))"
    if "stat (thread ?k' x) = RT_THREAD_READY" for x
    using that s sched_wfD(4) [OF wf, of x] by (auto split: if_splits)
  moreover have "prio_ok (thread ?k' x)" if "live (thread ?k' x)" for x
    using that pk sched_wfD(5) [OF wf, of x] by (auto split: if_splits)
  moreover have "bit (ready_group ?k') q \<longleftrightarrow> tlists ?k' (Ready q) \<noteq> []" if q: "q < 32" for q
  proof (cases "q = ?p")
    case True
    show ?thesis
    proof (cases "lists_remove t (tlists k) (Ready ?p) = []")
      case True
      then show ?thesis using \<open>q = ?p\<close> pk mask_bits(2) [of ?p ?p] by (simp add: prio_ok_def)
    next
      case False
      then have "tlists k (Ready ?p) \<noteq> []" by (auto simp: lists_remove_def)
      then show ?thesis using False \<open>q = ?p\<close> q sched_wfD(6) [OF wf, of q] by simp
    qed
  next
    case False
    have "t \<notin> set (tlists k (Ready q))" using sched_wfD(3) [OF wf, of t "Ready q"] False by auto
    then have "lists_remove t (tlists k) (Ready q) = tlists k (Ready q)"
      by (simp add: lists_remove_def removeAll_id)
    moreover have "bit (ready_group ?k') q = bit (ready_group k) q"
      using pk False q mask_bits(2) [of ?p q] by (simp add: prio_ok_def)
    ultimately show ?thesis using sched_wfD(6) [OF wf q] by simp
  qed
  ultimately have "sched_wf ?k'" unfolding sched_wf_def by blast
  then show ?thesis using that [of ?k] remove_thread_eq [OF t(1), of k] by simp
qed

subsection \<open>The choice of the next thread\<close>

text \<open>A saved stack pointer that the stack check accepts.\<close>

definition stack_ok :: "rt_thread \<Rightarrow> bool" where
  "stack_ok th = (stack_addr th < sp th \<and> sp th \<le> stack_addr th + ucast (stack_size th))"

lemma scheduler_stack_check_ok [simp]:
  "scheduler_stack_check t k = (if t \<noteq> 0 \<and> stack_ok (thread k t) then Some () else None)"
  by (auto simp: scheduler_stack_check_def stack_ok_def rt_assert_def not_le not_less Let_def)

text \<open>\<open>t\<close> is the head of the first ready queue that is not empty.\<close>

definition highest :: "kernel \<Rightarrow> addr \<Rightarrow> bool" where
  "highest k t =
     (\<exists>p < 32. lists_first (Ready p) (tlists k) = Some t \<and> (\<forall>q < p. tlists k (Ready q) = []))"

lemma highest_ready_some:
  assumes wf: "sched_wf k" and r: "\<exists>t. stat (thread k t) = RT_THREAD_READY"
  obtains p where "highest_ready k = Some p" "p < 32" "tlists k (Ready p) \<noteq> []"
    "\<And>q. q < p \<Longrightarrow> tlists k (Ready q) = []"
proof -
  obtain t where t: "stat (thread k t) = RT_THREAD_READY" using r by blast
  let ?q = "unat (current_priority (thread k t))"
  have "?q < 32" using sched_wfD(5) [OF wf, of t] t by (simp add: live_def prio_ok_def)
  moreover have "tlists k (Ready ?q) \<noteq> []" using sched_wfD(4) [OF wf t] by auto
  ultimately have "bit (ready_group k) ?q" using sched_wfD(6) [OF wf] by blast
  then have nz: "ready_group k \<noteq> 0" by auto
  note f = rt_ffs_lowest [OF nz]
  let ?p = "rt_ffs (ready_group k) - 1"
  have p: "?p < 32" using f by auto
  have "highest_ready k = Some ?p" using f by (simp add: highest_ready_def)
  moreover have "tlists k (Ready ?p) \<noteq> []" using f sched_wfD(6) [OF wf p] by blast
  moreover have "tlists k (Ready q) = []" if "q < ?p" for q
  proof -
    have "\<not> bit (ready_group k) q" using f that by blast
    then show ?thesis using sched_wfD(6) [OF wf, of q] that p by auto
  qed
  ultimately show ?thesis using that p by blast
qed

lemma highest_exists:
  assumes "sched_wf k" "\<exists>t. stat (thread k t) = RT_THREAD_READY"
  obtains t p where "highest_ready k = Some p" "lists_first (Ready p) (tlists k) = Some t"
    "highest k t" "p < 32" "t \<noteq> 0" "stat (thread k t) = RT_THREAD_READY"
proof -
  obtain p where p: "highest_ready k = Some p" "p < 32" "tlists k (Ready p) \<noteq> []"
    "\<And>q. q < p \<Longrightarrow> tlists k (Ready q) = []"
    using highest_ready_some [OF assms] by blast
  then obtain t ts where ts: "tlists k (Ready p) = t # ts" by (cases "tlists k (Ready p)") auto
  then have "lists_first (Ready p) (tlists k) = Some t" by (simp add: lists_first_def)
  moreover have "highest k t" unfolding highest_def using p calculation by blast
  moreover have "t \<noteq> 0" "stat (thread k t) = RT_THREAD_READY"
    using sched_wfD(2,3) [OF assms(1), of t "Ready p"] ts by auto
  ultimately show ?thesis using that p by blast
qed

lemma highest_unique: "highest k s \<Longrightarrow> highest k t \<Longrightarrow> s = t"
  unfolding highest_def by (metis linorder_neqE_nat lists_first_def list.simps(4) option.distinct(1) option.inject)

text \<open>No ready thread has a higher priority than the one at the head of the first queue.\<close>

lemma highest_least:
  assumes "sched_wf k" "highest k t" "stat (thread k s) = RT_THREAD_READY"
  shows "current_priority (thread k t) \<le> current_priority (thread k s)"
proof -
  obtain p where p: "lists_first (Ready p) (tlists k) = Some t" "\<forall>q < p. tlists k (Ready q) = []"
    using assms(2) by (auto simp: highest_def)
  have "t \<in> set (tlists k (Ready p))" using p(1) by (auto simp: lists_first_def split: list.splits)
  then have "unat (current_priority (thread k t)) = p" using sched_wfD(3) [OF assms(1)] by fastforce
  moreover have "tlists k (Ready (unat (current_priority (thread k s)))) \<noteq> []"
    using sched_wfD(4) [OF assms(1,3)] by auto
  ultimately show ?thesis using p(2) by (metis not_less word_le_nat_alt)
qed

text \<open>What a schedule changes.\<close>

lemma rt_schedule_frame:
  "rt_schedule k = Some k' \<Longrightarrow> k' = k\<lparr>current := current k', current_prio := current_prio k'\<rparr>"
  by (auto simp: rt_schedule_def bind_Some_conv Let_def split: if_splits)

lemma rt_schedule_sel:
  assumes "rt_schedule k = Some k'"
  shows "thread k' = thread k" "tlists k' = tlists k" "ready_group k' = ready_group k"
    "timer_list k' = timer_list k" "timer k' = timer k" "objs k' = objs k" "tick k' = tick k"
    "lock_nest k' = lock_nest k" "irq_nest k' = irq_nest k" "containers k' = containers k"
    "heap_of k' = heap_of k" "sem k' = sem k" "mutex k' = mutex k" "event k' = event k"
    "mailbox k' = mailbox k" "mqueue k' = mqueue k" "mempool k' = mempool k" "mp_links k' = mp_links k"
    "errno k' = errno k" "random_nr k' = random_nr k" "device k' = device k"
    "completed k' = completed k" "data_queue k' = data_queue k" "pipe k' = pipe k"
  by (subst rt_schedule_frame [OF assms]; simp)+

lemma rt_schedule_wf: "rt_schedule k = Some k' \<Longrightarrow> sched_wf k' = sched_wf k"
  by (rule sched_wf_cong) (simp_all add: rt_schedule_sel)

lemma rt_schedule_timers_ok: "rt_schedule k = Some k' \<Longrightarrow> timers_ok b k' = timers_ok b k"
  by (simp add: timers_ok_def timers_sorted_def timer_flag_def ahead_def [abs_def] rt_schedule_sel)

text \<open>With the scheduler unlocked and some thread ready, \<open>rt_schedule\<close> returns with the head of
  the highest queue as the current thread.\<close>

lemma rt_schedule_ok:
  assumes wf: "sched_wf k" and r: "\<exists>t. stat (thread k t) = RT_THREAD_READY"
    and c: "current k \<noteq> None" and st: "\<And>t. stat (thread k t) = RT_THREAD_READY \<Longrightarrow> stack_ok (thread k t)"
  obtains k' where "rt_schedule k = Some k'"
    "lock_nest k = 0 \<Longrightarrow> \<exists>t. current k' = Some t \<and> highest k t"
    "lock_nest k \<noteq> 0 \<Longrightarrow> k' = k"
proof (cases "lock_nest k = 0")
  case True
  obtain t p where p: "highest_ready k = Some p" "lists_first (Ready p) (tlists k) = Some t"
    "highest k t" "t \<noteq> 0" "stat (thread k t) = RT_THREAD_READY"
    using highest_exists [OF wf r] by metis
  show ?thesis
  proof (cases "current k = Some t")
    case True
    then have "rt_schedule k = Some k" using p \<open>lock_nest k = 0\<close> by (simp add: rt_schedule_def)
    then show ?thesis using that [of k] True p by auto
  next
    case False
    let ?k = "k\<lparr>current_prio := of_nat p, current := Some t\<rparr>"
    have "rt_schedule k = Some ?k"
      using p c False \<open>lock_nest k = 0\<close> st [OF p(5)] by (simp add: rt_schedule_def Let_def)
    then show ?thesis using that [of ?k] \<open>lock_nest k = 0\<close> p by auto
  qed
next
  case False
  then have "rt_schedule k = Some k" by (simp add: rt_schedule_def)
  then show ?thesis using that [of k] False by auto
qed

end
