(* ===== verification/Thread.thy ===== *)
theory Thread
  imports Sched
begin

text \<open>
  Threads, \<open>src/thread.c\<close>: creation, start, suspension, sleep, timeout, exit and deletion, and
  the searches by name of \<open>object.c\<close> and \<open>thread.c\<close>, which lock the scheduler. A call that gives
  up the processor in \<open>rt_schedule\<close> returns \<open>Blocked\<close> with its local variables; the code
  after the switch is a definition of its own, run on the state in which the thread is current
  again. The address of \<open>rt_thread_exit\<close> that the linker chooses is an argument, \<open>texit\<close>.
\<close>

subsection \<open>The initial stack\<close>

text \<open>\<open>rt_hw_stack_init\<close> of \<open>libcpu/arm/cortex-m4/cpuport.c\<close>, with the floating-point unit: 17 words.\<close>

definition SIZEOF_STACK_FRAME :: u32 where "SIZEOF_STACK_FRAME = 68"

fun store_words :: "addr \<Rightarrow> u32 list \<Rightarrow> mem \<Rightarrow> mem" where
  "store_words p [] m = m"
| "store_words p (w # ws) m = store_words (p + 4) ws (store_word p w m)"

definition rt_hw_stack_init :: "addr \<Rightarrow> u32 \<Rightarrow> addr \<Rightarrow> addr \<Rightarrow> mem \<Rightarrow> addr \<times> mem" where
  "rt_hw_stack_init tentry param stack_top texit m =
     (let stk = stack_top + 4;
          stk = RT_ALIGN_DOWN stk 8;
          stk = stk - SIZEOF_STACK_FRAME;
          m = store_words stk (replicate 17 0xdeadbeef) m;
          m = store_words (stk + 36) [param, 0, 0, 0, 0, texit, tentry, 0x01000000] m;
          m = store_word stk 0 m
      in (stk, m))"

subsection \<open>Suspending and resuming\<close>

definition rt_thread_suspend :: "addr \<Rightarrow> kernel \<Rightarrow> (rt_err \<times> kernel) option" where
  "rt_thread_suspend t k = do {
     rt_assert (t \<noteq> 0);
     (if stat (thread k t) \<noteq> RT_THREAD_READY then Some (- RT_ERROR, k)
      else do {
        let k = upd_thread t (\<lambda>th. th\<lparr>stat := RT_THREAD_SUSPEND\<rparr>) k;
        k \<leftarrow> rt_schedule_remove_thread t k;
        (_, k) \<leftarrow> rt_timer_stop (Thread_timer t) k;
        Some (RT_EOK, k)
      })
   }"

definition rt_thread_resume :: "addr \<Rightarrow> kernel \<Rightarrow> (rt_err \<times> kernel) option" where
  "rt_thread_resume t k = do {
     rt_assert (t \<noteq> 0);
     (if stat (thread k t) \<noteq> RT_THREAD_SUSPEND then Some (- RT_ERROR, k)
      else do {
        let k = k\<lparr>tlists := lists_remove t (tlists k)\<rparr>;
        (_, k) \<leftarrow> rt_timer_stop (Thread_timer t) k;
        k \<leftarrow> rt_schedule_insert_thread t k;
        Some (RT_EOK, k)
      })
   }"

definition rt_thread_timeout :: "u32 \<Rightarrow> kernel \<Rightarrow> kernel option" where
  "rt_thread_timeout param k = do {
     let t = param;
     rt_assert (t \<noteq> 0);
     rt_assert (stat (thread k t) = RT_THREAD_SUSPEND);
     let k = upd_thread t (\<lambda>th. th\<lparr>t_error := - RT_ETIMEOUT\<rparr>) k;
     let k = k\<lparr>tlists := lists_remove t (tlists k)\<rparr>;
     k \<leftarrow> rt_schedule_insert_thread t k;
     rt_schedule k
   }"

text \<open>
  A ready thread is on the queue of its priority; \<open>next\<close> and \<open>prev\<close> of its node differ when the
  queue holds another thread too.
\<close>

definition rt_thread_yield :: "kernel \<Rightarrow> (rt_err \<times> kernel) option" where
  "rt_thread_yield k = do {
     t \<leftarrow> current k;
     let q = Ready (unat (current_priority (thread k t)));
     (if stat (thread k t) = RT_THREAD_READY \<and> t \<in> set (tlists k q) \<and> 1 < length (tlists k q)
      then do {
        let k = k\<lparr>tlists := lists_insert_last q t (lists_remove t (tlists k))\<rparr>;
        k \<leftarrow> rt_schedule k;
        Some (RT_EOK, k)
      }
      else Some (RT_EOK, k))
   }"

text \<open>The code of \<open>rt_thread_sleep\<close> behind the switch.\<close>

definition rt_thread_sleep_wake :: "addr \<Rightarrow> kernel \<Rightarrow> rt_err \<times> kernel" where
  "rt_thread_sleep_wake t k =
     (RT_EOK, if t_error (thread k t) = - RT_ETIMEOUT
              then upd_thread t (\<lambda>th. th\<lparr>t_error := RT_EOK\<rparr>) k else k)"

definition rt_thread_sleep :: "u32 \<Rightarrow> kernel \<Rightarrow> ((rt_err, addr) outcome \<times> kernel) option" where
  "rt_thread_sleep ticks k = do {
     rt_assert (current k \<noteq> None);
     t \<leftarrow> current k;
     (_, k) \<leftarrow> rt_thread_suspend t k;
     (_, _, k) \<leftarrow> rt_timer_control (Thread_timer t) 0 ticks k;
     (_, k) \<leftarrow> rt_timer_start (Thread_timer t) k;
     k \<leftarrow> rt_schedule k;
     (if current k = Some t then (let (e, k) = rt_thread_sleep_wake t k in Some (Done e, k))
      else Some (Blocked t, k))
   }"

definition rt_thread_delay :: "u32 \<Rightarrow> kernel \<Rightarrow> ((rt_err, addr) outcome \<times> kernel) option" where
  "rt_thread_delay ticks k = rt_thread_sleep ticks k"

subsection \<open>Creation, start and deletion\<close>

definition thread_setup ::
  "addr \<Rightarrow> addr \<Rightarrow> addr \<Rightarrow> u32 \<Rightarrow> addr \<Rightarrow> u32 \<Rightarrow> u8 \<Rightarrow> u32 \<Rightarrow> kernel \<Rightarrow> (rt_err \<times> kernel) option" where
  "thread_setup texit t entry param stack_start ssize priority ticks k = do {
     let k = upd_thread t (\<lambda>th. th\<lparr>t_entry := entry, t_parameter := param,
                                    stack_addr := stack_start, stack_size := ucast ssize\<rparr>) k;
     let sz = (ucast (stack_size (thread k t)) :: u32);
     let k = upd_heap (\<lambda>h. h\<lparr>ram := rt_memset stack_start 0x23 sz (ram h)\<rparr>) k;
     let (s, m) = rt_hw_stack_init entry param (stack_start + sz - 4) texit (ram (heap_of k));
     let k = upd_heap (\<lambda>h. h\<lparr>ram := m\<rparr>) k;
     let k = upd_thread t (\<lambda>th. th\<lparr>sp := s\<rparr>) k;
     rt_assert (unat priority < RT_THREAD_PRIORITY_MAX);
     let k = upd_thread t (\<lambda>th. th\<lparr>init_priority := priority, current_priority := priority,
               t_init_tick := ticks, remaining_tick := ticks, t_error := RT_EOK,
               stat := RT_THREAD_INIT, cleanup := None, user_data := 0\<rparr>) k;
     k \<leftarrow> rt_timer_init (Thread_timer t) (name_of k (Obj t)) Fn_thread_timeout t 0
            RT_TIMER_FLAG_ONE_SHOT k;
     Some (RT_EOK, k)
   }"

definition rt_thread_init ::
  "addr \<Rightarrow> addr \<Rightarrow> cstr \<Rightarrow> addr \<Rightarrow> u32 \<Rightarrow> addr \<Rightarrow> u32 \<Rightarrow> u8 \<Rightarrow> u32 \<Rightarrow> kernel \<Rightarrow>
    (rt_err \<times> kernel) option" where
  "rt_thread_init texit t name entry param stack_start ssize priority ticks k = do {
     rt_assert (t \<noteq> 0);
     rt_assert (stack_start \<noteq> 0);
     let k = rt_object_init (Obj t) RT_Object_Class_Thread name k;
     thread_setup texit t entry param stack_start ssize priority ticks k
   }"

definition rt_thread_startup :: "addr \<Rightarrow> kernel \<Rightarrow> (rt_err \<times> kernel) option" where
  "rt_thread_startup t k = do {
     rt_assert (t \<noteq> 0);
     rt_assert (stat (thread k t) = RT_THREAD_INIT);
     let k = upd_thread t (\<lambda>th. th\<lparr>current_priority := init_priority th\<rparr>) k;
     let k = upd_thread t (\<lambda>th. th\<lparr>number_mask := push_bit (unat (current_priority th)) 1\<rparr>) k;
     let k = upd_thread t (\<lambda>th. th\<lparr>stat := RT_THREAD_SUSPEND\<rparr>) k;
     (_, k) \<leftarrow> rt_thread_resume t k;
     k \<leftarrow> (if rt_thread_self k \<noteq> None then rt_schedule k else Some k);
     Some (RT_EOK, k)
   }"

definition insert_defunct :: "addr \<Rightarrow> kernel \<Rightarrow> kernel" where
  "insert_defunct t k = k\<lparr>tlists := lists_insert_first Defunct t (tlists k)\<rparr>"

definition rt_thread_detach :: "addr \<Rightarrow> kernel \<Rightarrow> (rt_err \<times> kernel) option" where
  "rt_thread_detach t k = do {
     rt_assert (t \<noteq> 0);
     k \<leftarrow> rt_schedule_remove_thread t k;
     (_, k) \<leftarrow> rt_timer_detach (Thread_timer t) k;
     let k = upd_thread t (\<lambda>th. th\<lparr>stat := RT_THREAD_CLOSE\<rparr>) k;
     k \<leftarrow> rt_object_detach (Obj t) k;
     Some (RT_EOK, if cleanup (thread k t) \<noteq> None then insert_defunct t k else k)
   }"

definition rt_thread_create ::
  "addr \<Rightarrow> cstr \<Rightarrow> addr \<Rightarrow> u32 \<Rightarrow> u32 \<Rightarrow> u8 \<Rightarrow> u32 \<Rightarrow> kernel \<Rightarrow> (addr option \<times> kernel) option" where
  "rt_thread_create texit name entry param ssize priority ticks k = do {
     (a, k) \<leftarrow> rt_object_allocate RT_Object_Class_Thread name k;
     (case a of
        None \<Rightarrow> Some (None, k)
      | Some t \<Rightarrow> do {
          (s, k) \<leftarrow> RT_KERNEL_MALLOC ssize k;
          (case s of
             None \<Rightarrow> do { k \<leftarrow> rt_object_delete t k; Some (None, k) }
           | Some stack_start \<Rightarrow> do {
               (_, k) \<leftarrow> thread_setup texit t entry param stack_start ssize priority ticks k;
               Some (Some t, k)
             })
        })
   }"

definition rt_thread_delete :: "addr \<Rightarrow> kernel \<Rightarrow> (rt_err \<times> kernel) option" where
  "rt_thread_delete t k = do {
     rt_assert (t \<noteq> 0);
     k \<leftarrow> rt_schedule_remove_thread t k;
     (_, k) \<leftarrow> rt_timer_detach (Thread_timer t) k;
     let k = upd_thread t (\<lambda>th. th\<lparr>stat := RT_THREAD_CLOSE\<rparr>) k;
     Some (RT_EOK, insert_defunct t k)
   }"

text \<open>The exit of the current thread; the switch at its end is never undone.\<close>

definition rt_thread_exit :: "kernel \<Rightarrow> kernel option" where
  "rt_thread_exit k = do {
     t \<leftarrow> current k;
     k \<leftarrow> rt_schedule_remove_thread t k;
     let k = upd_thread t (\<lambda>th. th\<lparr>stat := RT_THREAD_CLOSE\<rparr>) k;
     (_, k) \<leftarrow> rt_timer_detach (Thread_timer t) k;
     sys \<leftarrow> rt_object_is_systemobject (Obj t) k;
     k \<leftarrow> (if sys \<and> cleanup (thread k t) = None then rt_object_detach (Obj t) k
           else Some (insert_defunct t k));
     rt_schedule k
   }"

definition set_priority :: "addr \<Rightarrow> u8 \<Rightarrow> kernel \<Rightarrow> kernel" where
  "set_priority t p k =
     (let k = upd_thread t (\<lambda>th. th\<lparr>current_priority := p\<rparr>) k
      in upd_thread t (\<lambda>th. th\<lparr>number_mask := push_bit (unat (current_priority th)) 1\<rparr>) k)"

text \<open>Commands: 2 changes the priority, 0 starts the thread, 1 closes it.\<close>

definition rt_thread_control :: "addr \<Rightarrow> u8 \<Rightarrow> u8 \<Rightarrow> kernel \<Rightarrow> (rt_err \<times> kernel) option" where
  "rt_thread_control t cmd arg k = do {
     rt_assert (t \<noteq> 0);
     (if cmd = 2 then
        (if stat (thread k t) = RT_THREAD_READY then do {
           k \<leftarrow> rt_schedule_remove_thread t k;
           k \<leftarrow> rt_schedule_insert_thread t (set_priority t arg k);
           Some (RT_EOK, k)
         } else Some (RT_EOK, set_priority t arg k))
      else if cmd = 0 then rt_thread_startup t k
      else if cmd = 1 then rt_thread_delete t k
      else Some (RT_EOK, k))
   }"

subsection \<open>Searching by name\<close>

definition rt_thread_find :: "cstr \<Rightarrow> kernel \<Rightarrow> (oref option \<times> kernel) option" where
  "rt_thread_find name k = do {
     let k = (if rt_thread_self k \<noteq> None then rt_enter_critical k else k);
     let r = find_named k name (containers k RT_Object_Class_Thread);
     k \<leftarrow> (if rt_thread_self k \<noteq> None then rt_exit_critical k else Some k);
     Some (r, k)
   }"

text \<open>
  The test of the type lets the value \<open>RT_Object_Class_Unknown\<close> pass, one more than the
  container has entries: what is read then is not part of it.
\<close>

definition rt_object_find :: "cstr option \<Rightarrow> u8 \<Rightarrow> kernel \<Rightarrow> (oref option \<times> kernel) option" where
  "rt_object_find name type k =
     (case name of
        None \<Rightarrow> Some (None, k)
      | Some s \<Rightarrow>
          if RT_Object_Class_Unknown < type then Some (None, k)
          else do {
            RT_DEBUG_NOT_IN_INTERRUPT k;
            let k = rt_enter_critical k;
            c \<leftarrow> class_of_code type;
            let r = find_named k s (containers k c);
            k \<leftarrow> rt_exit_critical k;
            Some (r, k)
          })"

subsection \<open>The kernel invariant\<close>

text \<open>
  The scheduler's and the timers' invariants, and what connects them: the timer inside a thread
  calls \<open>rt_thread_timeout\<close> with the thread, and runs only while the thread is suspended.
\<close>

definition own_timer :: "kernel \<Rightarrow> addr \<Rightarrow> bool" where
  "own_timer k t =
     (timeout_func (timer k (Thread_timer t)) = Fn_thread_timeout \<and>
      parameter (timer k (Thread_timer t)) = t \<and> \<not> bit (timer_flag (Thread_timer t) k) 1)"

definition kernel_inv :: "u32 \<Rightarrow> kernel \<Rightarrow> bool" where
  "kernel_inv b k =
     (sched_wf k \<and> timers_ok b k \<and>
      (\<forall>t. live (thread k t) \<longrightarrow> t \<noteq> 0 \<and> own_timer k t \<and> stack_ok (thread k t)) \<and>
      (\<forall>t. Thread_timer t \<in> set (timer_list k) \<longrightarrow> stat (thread k t) = RT_THREAD_SUSPEND))"

lemma kernel_invD:
  assumes "kernel_inv b k"
  shows "sched_wf k" "timers_ok b k" "live (thread k t) \<Longrightarrow> t \<noteq> 0"
    "live (thread k t) \<Longrightarrow> own_timer k t" "live (thread k t) \<Longrightarrow> stack_ok (thread k t)"
    "Thread_timer t \<in> set (timer_list k) \<Longrightarrow> stat (thread k t) = RT_THREAD_SUSPEND"
  using assms by (auto simp: kernel_inv_def)

lemma stack_ok_stat [simp]: "stack_ok (th\<lparr>stat := s\<rparr>) = stack_ok th"
  "stack_ok (th\<lparr>t_error := e\<rparr>) = stack_ok th"
  by (simp_all add: stack_ok_def)

lemma live_ready: "stat th = RT_THREAD_READY \<Longrightarrow> live th"
  "stat th = RT_THREAD_SUSPEND \<Longrightarrow> live th"
  by (simp_all add: live_def)

text \<open>Steps that touch only fields the invariant does not read.\<close>

lemma kernel_inv_cong:
  assumes "tlists k' = tlists k" "ready_group k' = ready_group k" "timer_list k' = timer_list k"
    "timer k' = timer k" "tick k' = tick k" "\<And>r. timer_flag r k' = timer_flag r k"
    and "\<And>t. stat (thread k' t) = stat (thread k t)"
    and "\<And>t. current_priority (thread k' t) = current_priority (thread k t)"
    and "\<And>t. number_mask (thread k' t) = number_mask (thread k t)"
    and "\<And>t. stack_ok (thread k' t) = stack_ok (thread k t)"
  shows "kernel_inv b k' = kernel_inv b k"
proof -
  have "sched_wf k' = sched_wf k" using assms by (intro sched_wf_cong)
  moreover have "timers_ok b k' = timers_ok b k"
    using assms by (simp add: timers_ok_def timers_sorted_def ahead_def [abs_def])
  moreover have "live (thread k' t) = live (thread k t)" for t using assms by (simp add: live_def)
  moreover have "own_timer k' t = own_timer k t" for t using assms by (simp add: own_timer_def)
  ultimately show ?thesis unfolding kernel_inv_def using assms by simp
qed

lemma rt_schedule_inv: "rt_schedule k = Some k' \<Longrightarrow> kernel_inv b k' = kernel_inv b k"
  by (rule kernel_inv_cong) (simp_all add: rt_schedule_sel timer_flag_def)

lemma error_inv [simp]:
  "kernel_inv b (upd_thread t (\<lambda>th. th\<lparr>t_error := e\<rparr>) k) = kernel_inv b k"
  by (rule kernel_inv_cong) (auto simp: timer_flag_def)

text \<open>The switch always finds a thread while one is ready.\<close>

lemma schedule_runs:
  assumes "kernel_inv b k" "stat (thread k r) = RT_THREAD_READY" "current k \<noteq> None"
  obtains k' where "rt_schedule k = Some k'" "kernel_inv b k'"
    "lock_nest k = 0 \<Longrightarrow> \<exists>t. current k' = Some t \<and> highest k t" "lock_nest k \<noteq> 0 \<Longrightarrow> k' = k"
proof -
  obtain k' where k': "rt_schedule k = Some k'"
    "lock_nest k = 0 \<Longrightarrow> \<exists>t. current k' = Some t \<and> highest k t" "lock_nest k \<noteq> 0 \<Longrightarrow> k' = k"
    using rt_schedule_ok [OF kernel_invD(1) [OF assms(1)] _ assms(3)] assms(2)
      kernel_invD(5) [OF assms(1)] live_ready(1) by metis
  then show ?thesis using that rt_schedule_inv [OF k'(1)] assms(1) by simp
qed

lemma highest_ready_stat:
  assumes "sched_wf k" "highest k s"
  shows "stat (thread k s) = RT_THREAD_READY"
proof -
  obtain p where "lists_first (Ready p) (tlists k) = Some s" using assms(2) by (auto simp: highest_def)
  then have "s \<in> set (tlists k (Ready p))" by (cases "tlists k (Ready p)") (auto simp: lists_first_def)
  then show ?thesis using sched_wfD(3) [OF assms(1), of s "Ready p"] by simp
qed

text \<open>With the scheduler unlocked, the switch is to the first thread of the highest priority.\<close>

lemma schedule_switches:
  assumes inv: "kernel_inv b k" and r: "stat (thread k r) = RT_THREAD_READY"
    and c: "current k \<noteq> None" and lock: "lock_nest k = 0"
  obtains k' s where "rt_schedule k = Some k'" "kernel_inv b k'" "current k' = Some s"
    "highest k' s" "stat (thread k' s) = RT_THREAD_READY" "highest k s"
proof -
  obtain k' where k': "rt_schedule k = Some k'" "kernel_inv b k'"
    "\<exists>t. current k' = Some t \<and> highest k t"
    using schedule_runs [OF inv r c] lock by metis
  then obtain s where s: "current k' = Some s" "highest k s" by blast
  have "highest k' s" using s rt_schedule_sel [OF k'(1)] by (simp add: highest_def)
  then show ?thesis
    using that k'(1,2) s highest_ready_stat [OF kernel_invD(1) [OF k'(2)]] by metis
qed

text \<open>Stopping a thread's own timer.\<close>

lemma own_timer_cong:
  "timer k' = timer k \<Longrightarrow> bit (timer_flag (Thread_timer t) k') 1 = bit (timer_flag (Thread_timer t) k) 1
    \<Longrightarrow> own_timer k' t = own_timer k t"
  by (simp add: own_timer_def)

lemma stop_periodic:
  assumes "rt_timer_stop r k = Some (e, k')"
  shows "bit (timer_flag x k') 1 = bit (timer_flag x k) 1"
  using assms by (auto simp: rt_timer_stop_def bit_simps split: if_splits)

subsection \<open>What thread operations leave alone\<close>

text \<open>The state without threads, lists of threads, timers and object headers is the same.\<close>

definition thread_frame :: "kernel \<Rightarrow> kernel \<Rightarrow> bool" where
  "thread_frame k k' =
     (sans_timers (k'\<lparr>thread := thread k, tlists := tlists k, ready_group := ready_group k\<rparr>)
        = sans_timers k)"

lemma thread_frameD:
  assumes "thread_frame k k'"
  shows "current k' = current k" "tick k' = tick k" "lock_nest k' = lock_nest k"
    "irq_nest k' = irq_nest k" "current_prio k' = current_prio k" "containers k' = containers k"
    "heap_of k' = heap_of k" "sem k' = sem k" "mutex k' = mutex k" "event k' = event k"
    "mailbox k' = mailbox k" "mqueue k' = mqueue k" "mempool k' = mempool k"
    "mp_links k' = mp_links k" "errno k' = errno k" "device k' = device k"
    "completed k' = completed k" "data_queue k' = data_queue k" "pipe k' = pipe k"
proof -
  let ?k = "k'\<lparr>thread := thread k, tlists := tlists k, ready_group := ready_group k\<rparr>"
  have "timer_frame k ?k" using assms by (simp add: thread_frame_def timer_frame_def)
  from timer_frameD [OF this] show "current k' = current k" "tick k' = tick k"
    "lock_nest k' = lock_nest k"
    "irq_nest k' = irq_nest k" "current_prio k' = current_prio k" "containers k' = containers k"
    "heap_of k' = heap_of k" "sem k' = sem k" "mutex k' = mutex k" "event k' = event k"
    "mailbox k' = mailbox k" "mqueue k' = mqueue k" "mempool k' = mempool k"
    "mp_links k' = mp_links k" "errno k' = errno k" "device k' = device k"
    "completed k' = completed k" "data_queue k' = data_queue k" "pipe k' = pipe k" by simp_all
qed

lemma thread_frame_refl [simp]: "thread_frame k k"
  by (simp add: thread_frame_def)

lemma thread_frame_trans:
  assumes "thread_frame a b" "thread_frame b c"
  shows "thread_frame a c"
proof -
  have "sans_timers (c\<lparr>thread := thread a, tlists := tlists a, ready_group := ready_group a\<rparr>)
      = (sans_timers (c\<lparr>thread := thread b, tlists := tlists b, ready_group := ready_group b\<rparr>))
        \<lparr>thread := thread a, tlists := tlists a, ready_group := ready_group a\<rparr>"
    by (simp add: sans_timers_def)
  also have "\<dots> = (sans_timers b)\<lparr>thread := thread a, tlists := tlists a, ready_group := ready_group a\<rparr>"
    using assms(2) by (simp add: thread_frame_def)
  also have "\<dots> = sans_timers (b\<lparr>thread := thread a, tlists := tlists a, ready_group := ready_group a\<rparr>)"
    by (simp add: sans_timers_def)
  finally show ?thesis using assms(1) by (simp add: thread_frame_def)
qed

lemma thread_frame_timer: "timer_frame k k' \<Longrightarrow> thread_frame k k'"
proof -
  assume a: "timer_frame k k'"
  then have "k'\<lparr>thread := thread k, tlists := tlists k, ready_group := ready_group k\<rparr> = k'"
    using timer_frameD [OF a] by simp
  then show ?thesis using a by (simp add: thread_frame_def timer_frame_def)
qed

lemma thread_frame_step [simp]:
  "thread_frame a (upd_thread t f k) = thread_frame a k"
  "thread_frame a (k\<lparr>tlists := q\<rparr>) = thread_frame a k"
  "thread_frame a (k\<lparr>ready_group := g\<rparr>) = thread_frame a k"
  "thread_frame a (k\<lparr>thread := th\<rparr>) = thread_frame a k"
  by (simp_all add: thread_frame_def upd_thread_def)

lemma thread_frame_sched:
  assumes "k' = k\<lparr>thread := thread k', tlists := tlists k', ready_group := ready_group k'\<rparr>"
  shows "thread_frame k k'"
  by (subst assms) simp

subsection \<open>Suspending and resuming keep it\<close>

lemma suspend_ok:
  assumes inv: "kernel_inv b k" and t: "stat (thread k t) = RT_THREAD_READY"
  obtains k' where "rt_thread_suspend t k = Some (0, k')" "kernel_inv b k'" "thread_frame k k'"
    "thread k' = (thread k)(t := (thread k t)\<lparr>stat := RT_THREAD_SUSPEND\<rparr>)"
    "tlists k' = lists_remove t (tlists k)" "timer k' = timer k"
    "timer_list k' = removeAll (Thread_timer t) (timer_list k)"
proof -
  note wf = kernel_invD(1) [OF inv]
  have lv: "live (thread k t)" using live_ready(1) [OF t] .
  have t0: "t \<noteq> 0" using kernel_invD(3) [OF inv lv] .
  let ?k0 = "upd_thread t (\<lambda>th. th\<lparr>stat := RT_THREAD_SUSPEND\<rparr>) k"
  obtain k1 where k1: "rt_schedule_remove_thread t k = Some k1"
    "sched_wf (upd_thread t (\<lambda>th. th\<lparr>stat := RT_THREAD_SUSPEND\<rparr>) k1)" "thread k1 = thread k"
    "tlists k1 = lists_remove t (tlists k)"
    "k1 = k\<lparr>tlists := tlists k1, ready_group := ready_group k1\<rparr>"
    using remove_thread_wf [OF wf t0 lv, of RT_THREAD_SUSPEND] by blast
  let ?k1 = "upd_thread t (\<lambda>th. th\<lparr>stat := RT_THREAD_SUSPEND\<rparr>) k1"
  have rm: "rt_schedule_remove_thread t ?k0 = Some ?k1"
    using k1(1) by (auto simp: remove_thread_eq [OF t0] upd_thread_def)
  have same: "timer_list ?k1 = timer_list k" "timer ?k1 = timer k" "tick ?k1 = tick k"
    "objs ?k1 = objs k"
    by (subst k1(5); simp)+
  have tk: "timers_ok b ?k1"
    using kernel_invD(2) [OF inv] same
    by (simp add: timers_ok_def timers_sorted_def timer_flag_def ahead_def [abs_def])
  obtain e k' where k': "rt_timer_stop (Thread_timer t) ?k1 = Some (e, k')" "timers_ok b k'"
    "timer_frame ?k1 k'" "timer_list k' = removeAll (Thread_timer t) (timer_list ?k1)"
    "timer k' = timer ?k1"
    using rt_timer_stop_ok [OF tk, of "Thread_timer t"] by (metis nonnull.simps(2))
  have th: "thread k' = (thread k)(t := (thread k t)\<lparr>stat := RT_THREAD_SUSPEND\<rparr>)"
    using timer_frameD(1) [OF k'(3)] k1(3) by simp
  have "rt_thread_suspend t k = Some (0, k')"
    using t0 t rm k'(1) by (simp add: rt_thread_suspend_def)
  moreover have "kernel_inv b k'"
    unfolding kernel_inv_def
  proof (intro conjI allI impI)
    show "sched_wf k'" using k1(2) sched_wf_timer [OF k'(3)] by simp
    show "timers_ok b k'" by (rule k'(2))
    fix x
    have own: "own_timer k' x = own_timer k x"
      using k'(5) same stop_periodic [OF k'(1)]
      by (intro own_timer_cong) (simp_all add: timer_flag_def)
    show "x \<noteq> 0" "own_timer k' x" "stack_ok (thread k' x)" if "live (thread k' x)"
    proof -
      have "live (thread k x)" using that th lv by (auto split: if_splits)
      then show "x \<noteq> 0" "own_timer k' x" "stack_ok (thread k' x)"
        using kernel_invD(3-5) [OF inv, of x] own th by auto
    qed
    show "stat (thread k' x) = RT_THREAD_SUSPEND" if "Thread_timer x \<in> set (timer_list k')"
      using that k'(4) same th kernel_invD(6) [OF inv, of x] by auto
  qed
  moreover have "thread_frame k k'"
  proof -
    have "thread_frame k ?k1" by (subst k1(5)) simp
    then show ?thesis using thread_frame_timer [OF k'(3)] thread_frame_trans by blast
  qed
  moreover have "tlists k' = lists_remove t (tlists k)"
    using timer_frameD(2) [OF k'(3)] k1(4) by simp
  ultimately show ?thesis using that th k'(4,5) same by simp
qed

lemma suspend_fails:
  "t \<noteq> 0 \<Longrightarrow> stat (thread k t) \<noteq> RT_THREAD_READY \<Longrightarrow> rt_thread_suspend t k = Some (- 1, k)"
  by (simp add: rt_thread_suspend_def)

text \<open>Unlinking a suspended thread, the first half of resuming one.\<close>

lemma unlink_wf:
  assumes wf: "sched_wf k" and t: "stat (thread k t) = RT_THREAD_SUSPEND"
  shows "sched_wf (k\<lparr>tlists := lists_remove t (tlists k)\<rparr>)"
proof -
  have nr: "lists_remove t (tlists k) (Ready p) = tlists k (Ready p)" for p
  proof -
    have "t \<notin> set (tlists k (Ready p))" using sched_wfD(3) [OF wf, of t "Ready p"] t by auto
    then show ?thesis by (simp add: lists_remove_def removeAll_id)
  qed
  show ?thesis unfolding sched_wf_def
  proof (intro conjI allI impI)
    show "wf_lists (tlists (k\<lparr>tlists := lists_remove t (tlists k)\<rparr>))"
      using wf by (simp add: sched_wf_def wf_lists_remove)
  qed (use sched_wfD(2-6) [OF wf] nr in \<open>auto\<close>)
qed

lemma resume_ok:
  assumes inv: "kernel_inv b k" and t: "stat (thread k t) = RT_THREAD_SUSPEND"
  obtains k' where "rt_thread_resume t k = Some (0, k')" "kernel_inv b k'" "thread_frame k k'"
    "thread k' = (thread k)(t := (thread k t)\<lparr>stat := RT_THREAD_READY\<rparr>)"
    "tlists k' = lists_insert_last (Ready (unat (current_priority (thread k t)))) t
      (lists_remove t (tlists k))" "timer k' = timer k"
    "timer_list k' = removeAll (Thread_timer t) (timer_list k)"
proof -
  note wf = kernel_invD(1) [OF inv]
  have lv: "live (thread k t)" using live_ready(2) [OF t] .
  have t0: "t \<noteq> 0" using kernel_invD(3) [OF inv lv] .
  let ?k1 = "k\<lparr>tlists := lists_remove t (tlists k)\<rparr>"
  have tk: "timers_ok b ?k1"
    using kernel_invD(2) [OF inv]
    by (simp add: timers_ok_def timers_sorted_def timer_flag_def ahead_def [abs_def])
  obtain e k2 where k2: "rt_timer_stop (Thread_timer t) ?k1 = Some (e, k2)" "timers_ok b k2"
    "timer_frame ?k1 k2" "timer_list k2 = removeAll (Thread_timer t) (timer_list ?k1)"
    "timer k2 = timer ?k1"
    using rt_timer_stop_ok [OF tk, of "Thread_timer t"] by (metis nonnull.simps(2))
  have wf2: "sched_wf k2" using unlink_wf [OF wf t] sched_wf_timer [OF k2(3)] by simp
  have th2: "thread k2 = thread k" and tl2: "tlists k2 = lists_remove t (tlists k)"
    using timer_frameD [OF k2(3)] by simp_all
  have "prio_ok (thread k2 t)" using sched_wfD(5) [OF wf lv] th2 by simp
  then obtain k' where k': "rt_schedule_insert_thread t k2 = Some k'" "sched_wf k'"
    "thread k' = (thread k2)(t := (thread k2 t)\<lparr>stat := RT_THREAD_READY\<rparr>)"
    "tlists k' = lists_insert_last (Ready (unat (current_priority (thread k2 t)))) t (tlists k2)"
    "k' = k2\<lparr>thread := thread k', tlists := tlists k', ready_group := ready_group k'\<rparr>"
    using insert_thread_wf [OF wf2 t0] tl2 unlinked_remove by metis
  have same: "timer_list k' = timer_list k2" "timer k' = timer k2" "tick k' = tick k2"
    "objs k' = objs k2"
    by (subst k'(5); simp)+
  have "rt_thread_resume t k = Some (0, k')"
    using t0 t k2(1) k'(1) by (simp add: rt_thread_resume_def)
  moreover have "kernel_inv b k'"
    unfolding kernel_inv_def
  proof (intro conjI allI impI)
    show "sched_wf k'" by (rule k'(2))
    show "timers_ok b k'" using k2(2) same
      by (simp add: timers_ok_def timers_sorted_def timer_flag_def ahead_def [abs_def])
    fix x
    have own: "own_timer k' x = own_timer k x"
      using k2(5) same stop_periodic [OF k2(1)]
      by (intro own_timer_cong) (simp_all add: timer_flag_def)
    show "x \<noteq> 0" "own_timer k' x" "stack_ok (thread k' x)" if "live (thread k' x)"
    proof -
      have "live (thread k x)" using that k'(3) th2 lv by (auto split: if_splits)
      then show "x \<noteq> 0" "own_timer k' x" "stack_ok (thread k' x)"
        using kernel_invD(3-5) [OF inv, of x] own k'(3) th2 by auto
    qed
    show "stat (thread k' x) = RT_THREAD_SUSPEND" if "Thread_timer x \<in> set (timer_list k')"
      using that k2(4) same k'(3) th2 kernel_invD(6) [OF inv, of x] by auto
  qed
  moreover have "thread_frame k k'"
  proof -
    have "thread_frame k ?k1" by simp
    moreover have "thread_frame ?k1 k2" by (rule thread_frame_timer [OF k2(3)])
    moreover have "thread_frame k2 k'" by (rule thread_frame_sched [OF k'(5)])
    ultimately show ?thesis using thread_frame_trans by blast
  qed
  ultimately show ?thesis using that k'(3,4) th2 tl2 k2(4,5) same by simp
qed

lemma resume_fails:
  "t \<noteq> 0 \<Longrightarrow> stat (thread k t) \<noteq> RT_THREAD_SUSPEND \<Longrightarrow> rt_thread_resume t k = Some (- 1, k)"
  by (simp add: rt_thread_resume_def)

subsection \<open>Timeout\<close>

lemma timeout_ok:
  assumes inv: "kernel_inv b k" and t: "stat (thread k t) = RT_THREAD_SUSPEND"
    and nt: "Thread_timer t \<notin> set (timer_list k)" and c: "current k \<noteq> None"
  obtains k' where "rt_thread_timeout t k = Some k'" "kernel_inv b k'"
    "thread k' = (thread k)(t := (thread k t)\<lparr>t_error := - 2, stat := RT_THREAD_READY\<rparr>)"
    "tlists k' = lists_insert_last (Ready (unat (current_priority (thread k t)))) t
      (lists_remove t (tlists k))" "timer k' = timer k" "timer_list k' = timer_list k"
    "objs k' = objs k" "thread_frame k (k'\<lparr>current := current k, current_prio := current_prio k\<rparr>)"
    "lock_nest k = 0 \<Longrightarrow> \<exists>s. current k' = Some s \<and> highest k' s"
proof -
  note wf = kernel_invD(1) [OF inv]
  have lv: "live (thread k t)" using live_ready(2) [OF t] .
  have t0: "t \<noteq> 0" using kernel_invD(3) [OF inv lv] .
  let ?k1 = "upd_thread t (\<lambda>th. th\<lparr>t_error := - 2\<rparr>) k"
  let ?k2 = "?k1\<lparr>tlists := lists_remove t (tlists ?k1)\<rparr>"
  have inv1: "kernel_inv b ?k1" using inv by simp
  have wf2: "sched_wf ?k2" using unlink_wf [OF kernel_invD(1) [OF inv1], of t] t by simp
  have pk: "prio_ok (thread ?k2 t)" using sched_wfD(5) [OF wf lv] by (simp add: prio_ok_def)
  obtain k3 where k3: "rt_schedule_insert_thread t ?k2 = Some k3" "sched_wf k3"
    "thread k3 = (thread ?k2)(t := (thread ?k2 t)\<lparr>stat := RT_THREAD_READY\<rparr>)"
    "tlists k3 = lists_insert_last (Ready (unat (current_priority (thread ?k2 t)))) t (tlists ?k2)"
    "k3 = ?k2\<lparr>thread := thread k3, tlists := tlists k3, ready_group := ready_group k3\<rparr>"
    using insert_thread_wf [OF wf2 t0 _ pk] unlinked_remove [of t "tlists k"] by auto
  have same: "timer_list k3 = timer_list k" "timer k3 = timer k" "tick k3 = tick k"
    "objs k3 = objs k" "current k3 = current k" "lock_nest k3 = lock_nest k"
    by (subst k3(5); simp)+
  have th: "thread k3 = (thread k)(t := (thread k t)\<lparr>t_error := - 2, stat := RT_THREAD_READY\<rparr>)"
    using k3(3) by simp
  have inv3: "kernel_inv b k3"
    unfolding kernel_inv_def
  proof (intro conjI allI impI)
    show "sched_wf k3" by (rule k3(2))
    show "timers_ok b k3" using kernel_invD(2) [OF inv] same
      by (simp add: timers_ok_def timers_sorted_def timer_flag_def ahead_def [abs_def])
    fix x
    have own: "own_timer k3 x = own_timer k x"
      using same by (intro own_timer_cong) (simp_all add: timer_flag_def)
    show "x \<noteq> 0" "own_timer k3 x" "stack_ok (thread k3 x)" if "live (thread k3 x)"
    proof -
      have "live (thread k x)" using that th lv by (auto split: if_splits)
      then show "x \<noteq> 0" "own_timer k3 x" "stack_ok (thread k3 x)"
        using kernel_invD(3-5) [OF inv, of x] own th by auto
    qed
    show "stat (thread k3 x) = RT_THREAD_SUSPEND" if "Thread_timer x \<in> set (timer_list k3)"
      using that same th kernel_invD(6) [OF inv, of x] nt by auto
  qed
  have ready: "stat (thread k3 t) = RT_THREAD_READY" using th by simp
  obtain k' where k': "rt_schedule k3 = Some k'" "kernel_inv b k'"
    "lock_nest k3 = 0 \<Longrightarrow> \<exists>s. current k' = Some s \<and> highest k3 s"
    using schedule_runs [OF inv3 ready] c same(5) by metis
  note sel = rt_schedule_sel [OF k'(1)]
  have "rt_thread_timeout t k = Some k'"
    using t0 t k3(1) k'(1) by (simp add: rt_thread_timeout_def Let_def)
  moreover have "thread_frame k (k'\<lparr>current := current k, current_prio := current_prio k\<rparr>)"
  proof -
    have "current_prio k3 = current_prio k" by (subst k3(5)) simp
    then have "k'\<lparr>current := current k, current_prio := current_prio k\<rparr> = k3"
      by (subst rt_schedule_frame [OF k'(1)]) (simp add: same(5) [symmetric])
    moreover have "thread_frame k k3" by (subst k3(5)) simp
    ultimately show ?thesis by simp
  qed
  moreover have "highest k' s = highest k3 s" for s using sel by (simp add: highest_def)
  ultimately show ?thesis using that k'(2,3) sel th same k3(4) by simp
qed

subsection \<open>Yielding\<close>

text \<open>The invariant sees the ready queues as sets.\<close>

lemma sched_wf_same_sets:
  assumes wf: "sched_wf k" and q: "wf_lists q" and s: "\<And>h. set (q h) = set (tlists k h)"
  shows "sched_wf (k\<lparr>tlists := q\<rparr>)"
proof -
  have "q h = [] \<longleftrightarrow> tlists k h = []" for h using s [of h] by (metis set_empty)
  then show ?thesis using wf q s unfolding sched_wf_def by simp
qed

lemma yield_wf:
  assumes inv: "kernel_inv b k" and t: "stat (thread k t) = RT_THREAD_READY"
  defines "q \<equiv> Ready (unat (current_priority (thread k t)))"
  shows "kernel_inv b (k\<lparr>tlists := lists_insert_last q t (lists_remove t (tlists k))\<rparr>)"
proof -
  note wf = kernel_invD(1) [OF inv]
  have tq: "t \<in> set (tlists k q)" unfolding q_def by (rule sched_wfD(4) [OF wf t])
  have only: "t \<in> set (tlists k h) \<Longrightarrow> h = q" for h using linked_once [OF wf tq] by metis
  have "sched_wf (k\<lparr>tlists := lists_insert_last q t (lists_remove t (tlists k))\<rparr>)"
  proof (rule sched_wf_same_sets [OF wf])
    show "wf_lists (lists_insert_last q t (lists_remove t (tlists k)))"
      using sched_wfD(1) [OF wf] by (intro wf_lists_insert_last wf_lists_remove unlinked_remove)
    show "set (lists_insert_last q t (lists_remove t (tlists k)) h) = set (tlists k h)" for h
      using tq only [of h] by (cases "h = q") (auto simp: lists_insert_last_def)
  qed
  moreover have "timers_ok b (k\<lparr>tlists := l\<rparr>) = timers_ok b k" for l
    by (simp add: timers_ok_def timers_sorted_def timer_flag_def ahead_def [abs_def])
  moreover have "own_timer (k\<lparr>tlists := l\<rparr>) x = own_timer k x" for l x
    by (simp add: own_timer_def timer_flag_def)
  ultimately show ?thesis using inv by (simp add: kernel_inv_def)
qed

text \<open>A thread that yields goes behind the others of its priority; the first of them runs next.\<close>

lemma yield_ok:
  assumes inv: "kernel_inv b k" and c: "current k = Some t" "stat (thread k t) = RT_THREAD_READY"
  obtains k' where "rt_thread_yield k = Some (0, k')" "kernel_inv b k'" "thread k' = thread k"
    "timer k' = timer k" "timer_list k' = timer_list k" "objs k' = objs k" "current k' \<noteq> None"
    "thread_frame k (k'\<lparr>current := current k, current_prio := current_prio k\<rparr>)"
    "let q = Ready (unat (current_priority (thread k t))) in
       tlists k' = (tlists k)(q := removeAll t (tlists k q) @ [t])"
    "lock_nest k = 0 \<Longrightarrow> 1 < length (tlists k (Ready (unat (current_priority (thread k t))))) \<Longrightarrow>
       \<exists>s. current k' = Some s \<and> highest k' s"
proof -
  let ?q = "Ready (unat (current_priority (thread k t)))"
  note wf = kernel_invD(1) [OF inv]
  have tq: "t \<in> set (tlists k ?q)" by (rule sched_wfD(4) [OF wf c(2)])
  have others: "t \<notin> set (tlists k h)" if "h \<noteq> ?q" for h using linked_once [OF wf tq] that by metis
  have moved: "lists_insert_last ?q t (lists_remove t (tlists k))
      = (tlists k)(?q := removeAll t (tlists k ?q) @ [t])"
    using others by (auto simp: lists_insert_last_def lists_remove_def fun_eq_iff removeAll_id)
  show ?thesis
  proof (cases "1 < length (tlists k ?q)")
    case True
    let ?k = "k\<lparr>tlists := lists_insert_last ?q t (lists_remove t (tlists k))\<rparr>"
    have iv: "kernel_inv b ?k" by (rule yield_wf [OF inv c(2)])
    obtain k' where k': "rt_schedule ?k = Some k'" "kernel_inv b k'"
      "lock_nest ?k = 0 \<Longrightarrow> \<exists>s. current k' = Some s \<and> highest ?k s" "lock_nest ?k \<noteq> 0 \<Longrightarrow> k' = ?k"
      using schedule_runs [OF iv, of t] c by auto
    note sel = rt_schedule_sel [OF k'(1)]
    have "rt_thread_yield k = Some (0, k')"
      using c tq True k'(1) by (simp add: rt_thread_yield_def Let_def)
    moreover have "highest k' s = highest ?k s" for s using sel by (simp add: highest_def)
    moreover have "thread_frame k (k'\<lparr>current := current k, current_prio := current_prio k\<rparr>)"
    proof -
      have "k'\<lparr>current := current k, current_prio := current_prio k\<rparr> = ?k"
        by (subst rt_schedule_frame [OF k'(1)]) simp
      then show ?thesis by simp
    qed
    moreover have "current k' \<noteq> None" using k'(3,4) c(1) by (cases "lock_nest k = 0") auto
    ultimately show ?thesis using that [of k'] k' sel moved c by (simp add: Let_def)
  next
    case False
    then have "tlists k ?q = [t]" using tq by (cases "tlists k ?q") (auto split: list.splits)
    moreover have "rt_thread_yield k = Some (0, k)"
      using c False by (simp add: rt_thread_yield_def Let_def)
    moreover have "thread_frame k (k\<lparr>current := current k, current_prio := current_prio k\<rparr>)" by simp
    ultimately show ?thesis using that [of k] inv c(1) by (simp add: Let_def fun_upd_idem)
  qed
qed

subsection \<open>Sleeping\<close>

text \<open>Setting and starting the timer of a suspended thread.\<close>

definition arm_timer :: "addr \<Rightarrow> u32 \<Rightarrow> kernel \<Rightarrow> kernel option" where
  "arm_timer t ticks k = do {
     (_, _, k) \<leftarrow> rt_timer_control (Thread_timer t) 0 ticks k;
     (_, k) \<leftarrow> rt_timer_start (Thread_timer t) k;
     Some k
   }"

lemma rt_thread_sleep_arm:
  "rt_thread_sleep ticks k = do {
     rt_assert (current k \<noteq> None);
     t \<leftarrow> current k;
     (_, k) \<leftarrow> rt_thread_suspend t k;
     k \<leftarrow> arm_timer t ticks k;
     k \<leftarrow> rt_schedule k;
     (if current k = Some t then (let (e, k) = rt_thread_sleep_wake t k in Some (Done e, k))
      else Some (Blocked t, k))
   }"
  by (simp add: rt_thread_sleep_def arm_timer_def case_prod_unfold)

lemma start_periodic:
  assumes "rt_timer_start r k = Some (e, k')"
  shows "bit (timer_flag x k') 1 = bit (timer_flag x k) 1"
  using assms by (auto simp: rt_timer_start_def bit_simps Let_def split: if_splits)

lemma arm_timer_ok:
  assumes inv: "kernel_inv b k" and t: "stat (thread k t) = RT_THREAD_SUSPEND"
    and n: "ticks < RT_TICK_HALF"
  obtains k' where "arm_timer t ticks k = Some k'" "kernel_inv b k'" "timer_frame k k'"
    "timeout_tick (timer k' (Thread_timer t)) = tick k + ticks"
    "set (timer_list k') = insert (Thread_timer t) (set (timer_list k))"
    "\<And>r. r \<noteq> Thread_timer t \<Longrightarrow> timer k' r = timer k r"
proof -
  let ?r = "Thread_timer t"
  let ?k1 = "upd_timer ?r (\<lambda>tm. tm\<lparr>init_tick := ticks\<rparr>) k"
  have it: "init_tick (timer ?k1 ?r) < RT_TICK_HALF" using n by simp
  have ahead1: "ahead b ?k1 = ahead b k" by (auto simp: ahead_def [abs_def])
  have ok1: "timers_ok b ?k1"
    using kernel_invD(2) [OF inv] by (simp add: timers_ok_def timers_sorted_def ahead1)
  obtain k' where k': "rt_timer_start ?r ?k1 = Some (0, k')" "timers_ok b k'" "timer_frame ?k1 k'"
    "timer k' = (timer ?k1)(?r := (timer ?k1 ?r)\<lparr>timeout_tick := tick ?k1 + init_tick (timer ?k1 ?r)\<rparr>)"
    "timer_list k' = takeWhile (\<lambda>x. ahead b k' x \<le> ahead b k' ?r) (removeAll ?r (timer_list ?k1)) @
      ?r # dropWhile (\<lambda>x. ahead b k' x \<le> ahead b k' ?r) (removeAll ?r (timer_list ?k1))"
    "ahead b k' ?r = unat (tick ?k1 - b) + unat (init_tick (timer ?k1 ?r))"
    by (rule rt_timer_start_ok [OF ok1 nonnull.simps(2) [THEN iffD2, OF TrueI] it])
  have fr: "timer_frame k k'" using k'(3) timer_frame_trans [of k ?k1 k'] by simp
  have arm: "arm_timer t ticks k = Some k'"
    using k'(1) by (simp add: arm_timer_def rt_timer_control_def)
  have st: "set (timer_list k') = insert ?r (set (timer_list k))"
  proof -
    have "set (takeWhile P xs) \<union> set (dropWhile P xs) = set xs" for P and xs :: "oref list"
      by (metis set_append takeWhile_dropWhile_id)
    then show ?thesis unfolding k'(5) by auto
  qed
  have "kernel_inv b k'"
    unfolding kernel_inv_def
  proof (intro conjI allI impI)
    show "sched_wf k'" using kernel_invD(1) [OF inv] sched_wf_timer [OF fr] by simp
    show "timers_ok b k'" by (rule k'(2))
    fix x
    have own: "own_timer k' x = own_timer k x"
      using k'(4) start_periodic [OF k'(1)] by (simp add: own_timer_def)
    show "x \<noteq> 0" "own_timer k' x" "stack_ok (thread k' x)" if "live (thread k' x)"
      using that kernel_invD(3-5) [OF inv, of x] own timer_frameD(1) [OF fr] by auto
    show "stat (thread k' x) = RT_THREAD_SUSPEND" if "Thread_timer x \<in> set (timer_list k')"
      using that st t timer_frameD(1) [OF fr] kernel_invD(6) [OF inv, of x] by auto
  qed
  then show ?thesis using that arm fr k'(4) st by simp
qed

lemma sleep_ok:
  assumes inv: "kernel_inv b k" and c: "current k = Some t" "stat (thread k t) = RT_THREAD_READY"
    and n: "ticks < RT_TICK_HALF" and lock: "lock_nest k = 0"
    and r: "stat (thread k r) = RT_THREAD_READY" "r \<noteq> t"
  obtains k' s where "rt_thread_sleep ticks k = Some (Blocked t, k')" "kernel_inv b k'"
    "current k' = Some s" "s \<noteq> t" "highest k' s" "stat (thread k' t) = RT_THREAD_SUSPEND"
    "unlinked t (tlists k')" "Thread_timer t \<in> set (timer_list k')"
    "timeout_tick (timer k' (Thread_timer t)) = tick k + ticks"
proof -
  obtain k1 where k1: "rt_thread_suspend t k = Some (0, k1)" "kernel_inv b k1" "thread_frame k k1"
    "thread k1 = (thread k)(t := (thread k t)\<lparr>stat := RT_THREAD_SUSPEND\<rparr>)"
    "tlists k1 = lists_remove t (tlists k)"
    using suspend_ok [OF inv c(2)] by metis
  have st1: "stat (thread k1 t) = RT_THREAD_SUSPEND" using k1(4) by simp
  obtain k2 where k2: "arm_timer t ticks k1 = Some k2" "kernel_inv b k2" "timer_frame k1 k2"
    "timeout_tick (timer k2 (Thread_timer t)) = tick k1 + ticks"
    "set (timer_list k2) = insert (Thread_timer t) (set (timer_list k1))"
    using arm_timer_ok [OF k1(2) st1 n] by metis
  have rr: "stat (thread k2 r) = RT_THREAD_READY" using r k1(4) timer_frameD(1) [OF k2(3)] by simp
  have c2: "current k2 = Some t" "lock_nest k2 = 0" "thread k2 = thread k1" "tlists k2 = tlists k1"
    "tick k1 = tick k"
    using c lock timer_frameD [OF k2(3)] thread_frameD [OF k1(3)] by simp_all
  obtain k' where k': "rt_schedule k2 = Some k'" "kernel_inv b k'"
    "lock_nest k2 = 0 \<Longrightarrow> \<exists>s. current k' = Some s \<and> highest k2 s"
    using schedule_runs [OF k2(2) rr] c2 by auto
  note sel = rt_schedule_sel [OF k'(1)]
  obtain s where s: "current k' = Some s" "highest k2 s" using k'(3) c2 by blast
  have un: "unlinked t (tlists k2)" using k1(5) c2 by (simp add: unlinked_remove)
  have ne: "s \<noteq> t"
  proof
    assume "s = t"
    then obtain p where "lists_first (Ready p) (tlists k2) = Some t" using s(2) by (auto simp: highest_def)
    then have "t \<in> set (tlists k2 (Ready p))" by (auto simp: lists_first_def split: list.splits)
    with un show False by (simp add: unlinked_def)
  qed
  have "rt_thread_sleep ticks k = Some (Blocked t, k')"
    using c k1(1) k'(1) s ne k2(1) rt_thread_sleep_arm [of ticks k] by simp
  moreover have "highest k' s" using s sel by (simp add: highest_def)
  ultimately show ?thesis using that k' s ne sel un st1 c2 k2(4,5) by simp
qed

subsection \<open>Start\<close>

lemma kernel_inv_live:
  assumes inv: "kernel_inv b k" and t: "t \<noteq> 0" "own_timer k t" "stack_ok th" "prio_ok th"
    and st: "stat th = RT_THREAD_SUSPEND" "stat (thread k t) \<noteq> RT_THREAD_READY"
    and un: "unlinked t (tlists k)"
  shows "kernel_inv b (k\<lparr>thread := (thread k)(t := th)\<rparr>)"
proof -
  let ?k = "k\<lparr>thread := (thread k)(t := th)\<rparr>"
  note wf = kernel_invD(1) [OF inv]
  have fresh: "t \<notin> set (tlists k h)" for h using un by (simp add: unlinked_def)
  have "sched_wf ?k" unfolding sched_wf_def
  proof (intro conjI allI impI)
    show "wf_lists (tlists ?k)" using sched_wfD(1) [OF wf] by simp
  next
    fix h x assume "x \<in> set (tlists ?k h)"
    then show "x \<noteq> 0" "stat_fits (thread ?k x) h"
      using fresh [of h] sched_wfD(2,3) [OF wf, of x h] by auto
  next
    fix x assume "stat (thread ?k x) = RT_THREAD_READY"
    then show "x \<in> set (tlists ?k (Ready (unat (current_priority (thread ?k x)))))"
      using st(1) sched_wfD(4) [OF wf, of x] by (auto split: if_splits)
  next
    fix x assume "live (thread ?k x)"
    then show "prio_ok (thread ?k x)" using t(4) sched_wfD(5) [OF wf, of x] by (auto split: if_splits)
  next
    fix p :: nat assume "p < 32"
    then show "bit (ready_group ?k) p \<longleftrightarrow> tlists ?k (Ready p) \<noteq> []" using sched_wfD(6) [OF wf] by simp
  qed
  moreover have "timers_ok b ?k = timers_ok b k"
    by (simp add: timers_ok_def timers_sorted_def timer_flag_def ahead_def [abs_def])
  moreover have "own_timer ?k x = own_timer k x" for x by (simp add: own_timer_def timer_flag_def)
  ultimately show ?thesis
    using inv t st unfolding kernel_inv_def by simp
qed

lemma startup_ok:
  assumes inv: "kernel_inv b k" and t: "t \<noteq> 0" "stat (thread k t) = RT_THREAD_INIT"
    and own: "own_timer k t" "stack_ok (thread k t)" "unat (init_priority (thread k t)) < 32"
    and un: "unlinked t (tlists k)"
  obtains k' where "rt_thread_startup t k = Some (0, k')" "kernel_inv b k'"
    "stat (thread k' t) = RT_THREAD_READY"
    "current_priority (thread k' t) = init_priority (thread k t)"
    "tlists k' = lists_insert_last (Ready (unat (init_priority (thread k t)))) t (tlists k)"
    "current k \<noteq> None \<Longrightarrow> lock_nest k = 0 \<Longrightarrow> \<exists>s. current k' = Some s \<and> highest k' s"
    "current k = None \<Longrightarrow> current k' = None"
proof -
  let ?p = "init_priority (thread k t)"
  let ?th = "(thread k t)\<lparr>current_priority := ?p, number_mask := push_bit (unat ?p) 1,
    stat := RT_THREAD_SUSPEND\<rparr>"
  let ?k1 = "k\<lparr>thread := (thread k)(t := ?th)\<rparr>"
  have inv1: "kernel_inv b ?k1"
    by (rule kernel_inv_live [OF inv t(1) own(1)])
      (use own un t in \<open>simp_all add: stack_ok_def prio_ok_def\<close>)
  have st1: "stat (thread ?k1 t) = RT_THREAD_SUSPEND" by simp
  obtain k2 where k2: "rt_thread_resume t ?k1 = Some (0, k2)" "kernel_inv b k2" "thread_frame ?k1 k2"
    "thread k2 = (thread ?k1)(t := (thread ?k1 t)\<lparr>stat := RT_THREAD_READY\<rparr>)"
    "tlists k2 = lists_insert_last (Ready (unat (current_priority (thread ?k1 t)))) t
      (lists_remove t (tlists ?k1))"
    using resume_ok [OF inv1 st1] by metis
  have rm: "lists_remove t (tlists k) = tlists k"
    using un by (auto simp: lists_remove_def unlinked_def fun_eq_iff removeAll_id)
  have k1: "upd_thread t (\<lambda>th. th\<lparr>stat := RT_THREAD_SUSPEND\<rparr>)
      (upd_thread t (\<lambda>th. th\<lparr>number_mask := push_bit (unat (current_priority th)) 1\<rparr>)
        (upd_thread t (\<lambda>th. th\<lparr>current_priority := init_priority th\<rparr>) k)) = ?k1"
    by (simp add: upd_thread_def)
  have s2: "stat (thread k2 t) = RT_THREAD_READY" "current k2 = current k" "lock_nest k2 = lock_nest k"
    using k2(4) thread_frameD [OF k2(3)] by simp_all
  show ?thesis
  proof (cases "current k = None")
    case True
    then have "rt_thread_startup t k = Some (0, k2)"
      using t k1 k2(1) s2 by (simp add: rt_thread_startup_def rt_thread_self_def)
    then show ?thesis using that [of k2] True k2 s2 rm by simp
  next
    case False
    obtain k' where k': "rt_schedule k2 = Some k'" "kernel_inv b k'"
      "lock_nest k2 = 0 \<Longrightarrow> \<exists>s. current k' = Some s \<and> highest k2 s"
      using schedule_runs [OF k2(2) s2(1)] False s2(2) by metis
    note sel = rt_schedule_sel [OF k'(1)]
    have "rt_thread_startup t k = Some (0, k')"
      using t k1 k2(1) s2 False k'(1) by (auto simp: rt_thread_startup_def rt_thread_self_def)
    moreover have "highest k' s = highest k2 s" for s using sel by (simp add: highest_def)
    ultimately show ?thesis using that [of k'] False k' k2 s2 sel rm by simp
  qed
qed

subsection \<open>Closing\<close>

text \<open>What closing a thread does before the thread is handed to the idle thread.\<close>

definition close_core :: "addr \<Rightarrow> kernel \<Rightarrow> kernel option" where
  "close_core t k = do {
     k \<leftarrow> rt_schedule_remove_thread t k;
     (_, k) \<leftarrow> rt_timer_detach (Thread_timer t) k;
     Some (upd_thread t (\<lambda>th. th\<lparr>stat := RT_THREAD_CLOSE\<rparr>) k)
   }"

lemma close_core_ok:
  assumes inv: "kernel_inv b k" and t: "live (thread k t)"
  obtains k' where "close_core t k = Some k'" "kernel_inv b k'"
    "thread k' = (thread k)(t := (thread k t)\<lparr>stat := RT_THREAD_CLOSE\<rparr>)"
    "tlists k' = lists_remove t (tlists k)" "timer k' = timer k" "objs k' = objs k"
    "timer_list k' = removeAll (Thread_timer t) (timer_list k)"
    "containers k' = lists_remove (Thread_timer t) (containers k)"
    "current k' = current k" "lock_nest k' = lock_nest k" "irq_nest k' = irq_nest k" "tick k' = tick k"
    "heap_of k' = heap_of k"
proof -
  note wf = kernel_invD(1) [OF inv]
  have t0: "t \<noteq> 0" using kernel_invD(3) [OF inv t] .
  obtain k1 where k1: "rt_schedule_remove_thread t k = Some k1"
    "sched_wf (upd_thread t (\<lambda>th. th\<lparr>stat := RT_THREAD_CLOSE\<rparr>) k1)" "thread k1 = thread k"
    "tlists k1 = lists_remove t (tlists k)"
    "k1 = k\<lparr>tlists := tlists k1, ready_group := ready_group k1\<rparr>"
    using remove_thread_wf [OF wf t0 t, of RT_THREAD_CLOSE] by blast
  have same: "timer_list k1 = timer_list k" "timer k1 = timer k" "tick k1 = tick k"
    "objs k1 = objs k" "containers k1 = containers k" "current k1 = current k"
    "lock_nest k1 = lock_nest k" "irq_nest k1 = irq_nest k" "heap_of k1 = heap_of k"
    by (subst k1(5); simp)+
  have tk1: "timers_ok b k1"
    using kernel_invD(2) [OF inv] same
    by (simp add: timers_ok_def timers_sorted_def timer_flag_def ahead_def [abs_def])
  let ?k2 = "k1\<lparr>timer_list := removeAll (Thread_timer t) (timer_list k1),
    containers := lists_remove (Thread_timer t) (containers k1)\<rparr>"
  have k2: "rt_timer_detach (Thread_timer t) k1 = Some (0, ?k2)" "timers_ok b ?k2"
    using timers_ok_detach [OF tk1, of "Thread_timer t"] by (metis nonnull.simps(2))+
  let ?k' = "upd_thread t (\<lambda>th. th\<lparr>stat := RT_THREAD_CLOSE\<rparr>) ?k2"
  have "close_core t k = Some ?k'" using k1(1) k2(1) by (simp add: close_core_def)
  moreover have "kernel_inv b ?k'"
    unfolding kernel_inv_def
  proof (intro conjI allI impI)
    show "sched_wf ?k'"
      using k1(2) sched_wf_cong [of "upd_thread t (\<lambda>th. th\<lparr>stat := RT_THREAD_CLOSE\<rparr>) k1" ?k'] by simp
    show "timers_ok b ?k'" using k2(2)
      by (simp add: timers_ok_def timers_sorted_def timer_flag_def ahead_def [abs_def])
    fix x
    have own: "own_timer ?k' x = own_timer k x"
      using same by (intro own_timer_cong) (simp_all add: timer_flag_def)
    show "x \<noteq> 0" "own_timer ?k' x" "stack_ok (thread ?k' x)" if "live (thread ?k' x)"
      using that own kernel_invD(3-5) [OF inv, of x] k1(3) by (auto split: if_splits)
    show "stat (thread ?k' x) = RT_THREAD_SUSPEND" if "Thread_timer x \<in> set (timer_list ?k')"
      using that same k1(3) kernel_invD(6) [OF inv, of x] by auto
  qed
  ultimately show ?thesis using that [of ?k'] k1 same by simp
qed

lemma insert_defunct_inv:
  assumes inv: "kernel_inv b k" and t: "t \<noteq> 0" "stat (thread k t) = RT_THREAD_CLOSE"
    and un: "unlinked t (tlists k)"
  shows "kernel_inv b (insert_defunct t k)"
proof -
  note wf = kernel_invD(1) [OF inv]
  let ?k = "insert_defunct t k"
  have sel: "thread ?k = thread k" "timer ?k = timer k" "timer_list ?k = timer_list k" "objs ?k = objs k"
    "tick ?k = tick k" "ready_group ?k = ready_group k" by (simp_all add: insert_defunct_def)
  have q: "tlists ?k h = (if h = Defunct then t # tlists k Defunct else tlists k h)" for h
    by (simp add: insert_defunct_def lists_insert_first_def)
  have "sched_wf ?k" unfolding sched_wf_def
  proof (intro conjI allI impI)
    show "wf_lists (tlists ?k)"
      using sched_wfD(1) [OF wf] un by (simp add: insert_defunct_def wf_lists_insert_first)
  next
    fix h x assume "x \<in> set (tlists ?k h)"
    then show "x \<noteq> 0" "stat_fits (thread ?k x) h"
      using t sched_wfD(2,3) [OF wf, of x h] sel(1) unfolding q
      by (auto simp: stat_fits_def split: if_splits)
  next
    fix x assume "stat (thread ?k x) = RT_THREAD_READY"
    then show "x \<in> set (tlists ?k (Ready (unat (current_priority (thread ?k x)))))"
      using sched_wfD(4) [OF wf, of x] sel by (simp add: q)
  next
    fix x assume "live (thread ?k x)"
    then show "prio_ok (thread ?k x)" using sched_wfD(5) [OF wf, of x] sel by simp
  next
    fix p :: nat assume "p < 32"
    then show "bit (ready_group ?k) p \<longleftrightarrow> tlists ?k (Ready p) \<noteq> []"
      using sched_wfD(6) [OF wf] sel by (simp add: q)
  qed
  moreover have "timers_ok b ?k = timers_ok b k"
    using sel by (simp add: timers_ok_def timers_sorted_def timer_flag_def ahead_def [abs_def])
  moreover have "own_timer ?k x = own_timer k x" for x
    using sel by (simp add: own_timer_def timer_flag_def)
  ultimately show ?thesis using inv sel unfolding kernel_inv_def by simp
qed

text \<open>A deleted thread is closed, in no list but that of the idle thread, and has no timer left.\<close>

lemma delete_ok:
  assumes inv: "kernel_inv b k" and t: "live (thread k t)"
  obtains k' where "rt_thread_delete t k = Some (0, k')" "kernel_inv b k'"
    "thread k' = (thread k)(t := (thread k t)\<lparr>stat := RT_THREAD_CLOSE\<rparr>)"
    "tlists k' = lists_insert_first Defunct t (lists_remove t (tlists k))"
    "Thread_timer t \<notin> set (timer_list k')" "current k' = current k"
proof -
  have t0: "t \<noteq> 0" using kernel_invD(3) [OF inv t] .
  obtain k1 where k1: "close_core t k = Some k1" "kernel_inv b k1"
    "thread k1 = (thread k)(t := (thread k t)\<lparr>stat := RT_THREAD_CLOSE\<rparr>)"
    "tlists k1 = lists_remove t (tlists k)"
    "timer_list k1 = removeAll (Thread_timer t) (timer_list k)" "current k1 = current k"
    using close_core_ok [OF inv t] by metis
  have "rt_thread_delete t k = Some (0, insert_defunct t k1)"
    using t0 k1(1) by (auto simp: rt_thread_delete_def close_core_def bind_Some_conv split: prod.splits)
  moreover have "kernel_inv b (insert_defunct t k1)"
    by (rule insert_defunct_inv [OF k1(2) t0]) (use k1(3,4) in \<open>simp_all add: unlinked_remove\<close>)
  ultimately show ?thesis
    using that [of "insert_defunct t k1"] k1 by (simp add: insert_defunct_def)
qed

subsection \<open>Changing the priority\<close>

text \<open>Any change of a thread that is in no list and does not become ready keeps the scheduler's
  invariant.\<close>

lemma unlinked_upd_wf:
  assumes wf: "sched_wf k" and un: "unlinked t (tlists k)" and st: "stat th \<noteq> RT_THREAD_READY"
    and pk: "live th \<Longrightarrow> prio_ok th"
  shows "sched_wf (k\<lparr>thread := (thread k)(t := th)\<rparr>)"
proof -
  let ?k = "k\<lparr>thread := (thread k)(t := th)\<rparr>"
  have fresh: "t \<notin> set (tlists k h)" for h using un by (simp add: unlinked_def)
  show ?thesis unfolding sched_wf_def
  proof (intro conjI allI impI)
    show "wf_lists (tlists ?k)" using sched_wfD(1) [OF wf] by simp
  next
    fix h x assume "x \<in> set (tlists ?k h)"
    then show "x \<noteq> 0" "stat_fits (thread ?k x) h"
      using fresh [of h] sched_wfD(2,3) [OF wf, of x h] by auto
  next
    fix x assume "stat (thread ?k x) = RT_THREAD_READY"
    then show "x \<in> set (tlists ?k (Ready (unat (current_priority (thread ?k x)))))"
      using st sched_wfD(4) [OF wf, of x] by (auto split: if_splits)
  next
    fix x assume "live (thread ?k x)"
    then show "prio_ok (thread ?k x)" using pk sched_wfD(5) [OF wf, of x] by (auto split: if_splits)
  next
    fix p :: nat assume "p < 32"
    then show "bit (ready_group ?k) p \<longleftrightarrow> tlists ?k (Ready p) \<noteq> []" using sched_wfD(6) [OF wf] by simp
  qed
qed

abbreviation with_prio :: "u8 \<Rightarrow> rt_thread \<Rightarrow> rt_thread" where
  "with_prio p th \<equiv> th\<lparr>current_priority := p, number_mask := push_bit (unat p) 1\<rparr>"

lemma set_priority_eq: "set_priority t p k = k\<lparr>thread := (thread k)(t := with_prio p (thread k t))\<rparr>"
  by (simp add: set_priority_def upd_thread_def Let_def)

lemma control_ready_ok:
  assumes inv: "kernel_inv b k" and t: "stat (thread k t) = RT_THREAD_READY" and p: "unat p < 32"
  obtains k' where "rt_thread_control t 2 p k = Some (0, k')" "kernel_inv b k'" "thread_frame k k'"
    "thread k' = (thread k)(t := with_prio p (thread k t))"
    "tlists k' = lists_insert_last (Ready (unat p)) t (lists_remove t (tlists k))"
    "timer k' = timer k" "timer_list k' = timer_list k" "objs k' = objs k"
proof -
  note wf = kernel_invD(1) [OF inv]
  have lv: "live (thread k t)" using live_ready(1) [OF t] .
  have t0: "t \<noteq> 0" using kernel_invD(3) [OF inv lv] .
  let ?S = "\<lambda>th. th\<lparr>stat := RT_THREAD_SUSPEND\<rparr>"
  obtain k1 where k1: "rt_schedule_remove_thread t k = Some k1"
    "sched_wf (upd_thread t ?S k1)" "thread k1 = thread k" "tlists k1 = lists_remove t (tlists k)"
    "k1 = k\<lparr>tlists := tlists k1, ready_group := ready_group k1\<rparr>"
    using remove_thread_wf [OF wf t0 lv, of RT_THREAD_SUSPEND] by blast
  have un1: "unlinked t (tlists k1)" using k1(4) by (simp add: unlinked_remove)
  let ?k2 = "set_priority t p k1"
  let ?th = "?S (with_prio p (thread k t))"
  let ?k3 = "k1\<lparr>thread := (thread k1)(t := ?th)\<rparr>"
  have "sched_wf ((upd_thread t ?S k1)\<lparr>thread := (thread (upd_thread t ?S k1))(t := ?th)\<rparr>)"
    by (rule unlinked_upd_wf [OF k1(2)]) (use un1 p in \<open>simp_all add: prio_ok_def\<close>)
  moreover have "(upd_thread t ?S k1)\<lparr>thread := (thread (upd_thread t ?S k1))(t := ?th)\<rparr> = ?k3"
    by (simp add: upd_thread_def)
  ultimately have wf3: "sched_wf ?k3" by metis
  have un3: "unlinked t (tlists ?k3)" using un1 by simp
  have pk3: "prio_ok (thread ?k3 t)" using p by (simp add: prio_ok_def)
  obtain k' where k': "rt_schedule_insert_thread t ?k3 = Some k'" "sched_wf k'"
    "thread k' = (thread ?k3)(t := (thread ?k3 t)\<lparr>stat := RT_THREAD_READY\<rparr>)"
    "tlists k' = lists_insert_last (Ready (unat (current_priority (thread ?k3 t)))) t (tlists ?k3)"
    "k' = ?k3\<lparr>thread := thread k', tlists := tlists k', ready_group := ready_group k'\<rparr>"
    using insert_thread_wf [OF wf3 t0 un3 pk3] by metis
  have "rt_schedule_insert_thread t ?k2 = rt_schedule_insert_thread t ?k3"
    unfolding insert_thread_eq [OF t0] set_priority_eq using k1(3) by simp
  then have run: "rt_thread_control t 2 p k = Some (0, k')"
    using t0 t k1(1) k'(1) by (simp add: rt_thread_control_def)
  have th: "thread k' = (thread k)(t := with_prio p (thread k t))"
    using k'(3) k1(3) t by (auto simp: fun_eq_iff)
  have same: "timer_list k' = timer_list k" "timer k' = timer k" "tick k' = tick k" "objs k' = objs k"
    by (subst k'(5), subst k1(5), simp)+
  have "kernel_inv b k'"
    unfolding kernel_inv_def
  proof (intro conjI allI impI)
    show "sched_wf k'" by (rule k'(2))
    show "timers_ok b k'" using kernel_invD(2) [OF inv] same
      by (simp add: timers_ok_def timers_sorted_def timer_flag_def ahead_def [abs_def])
    fix x
    have own: "own_timer k' x = own_timer k x"
      using same by (intro own_timer_cong) (simp_all add: timer_flag_def)
    show "x \<noteq> 0" "own_timer k' x" "stack_ok (thread k' x)" if "live (thread k' x)"
    proof -
      have "live (thread k x)" using that th lv by (auto simp: live_def split: if_splits)
      then show "x \<noteq> 0" "own_timer k' x" "stack_ok (thread k' x)"
        using kernel_invD(3-5) [OF inv, of x] own th by (auto simp: stack_ok_def)
    qed
    show "stat (thread k' x) = RT_THREAD_SUSPEND" if "Thread_timer x \<in> set (timer_list k')"
      using that same th kernel_invD(6) [OF inv, of x] by auto
  qed
  moreover have "thread_frame k k'" by (subst k'(5), subst k1(5)) simp
  moreover have "tlists k' = lists_insert_last (Ready (unat p)) t (lists_remove t (tlists k))"
    using k'(4) k1(4) by simp
  ultimately show ?thesis using that run th same by metis
qed

lemma control_suspended_ok:
  assumes inv: "kernel_inv b k" and t: "stat (thread k t) = RT_THREAD_SUSPEND" and p: "unat p < 32"
  defines "k' \<equiv> set_priority t p k"
  shows "rt_thread_control t 2 p k = Some (0, k')" "kernel_inv b k'" "thread_frame k k'"
    "thread k' = (thread k)(t := with_prio p (thread k t))" "tlists k' = tlists k"
    "timer k' = timer k" "timer_list k' = timer_list k" "objs k' = objs k"
proof -
  note wf = kernel_invD(1) [OF inv]
  have lv: "live (thread k t)" using live_ready(2) [OF t] .
  have t0: "t \<noteq> 0" using kernel_invD(3) [OF inv lv] .
  show "rt_thread_control t 2 p k = Some (0, k')"
    using t0 t by (simp add: rt_thread_control_def k'_def)
  show sel: "thread_frame k k'" "thread k' = (thread k)(t := with_prio p (thread k t))" "tlists k' = tlists k"
    "timer k' = timer k" "timer_list k' = timer_list k" "objs k' = objs k"
    by (simp_all add: k'_def set_priority_eq)
  have g: "ready_group k' = ready_group k" "tick k' = tick k" by (simp_all add: k'_def set_priority_eq)
  have st: "stat (thread k' x) = stat (thread k x)" "stack_ok (thread k' x) = stack_ok (thread k x)" for x
    using sel(2) by (simp_all add: stack_ok_def)
  have "sched_wf k'" unfolding sched_wf_def
  proof (intro conjI allI impI)
    show "wf_lists (tlists k')" using sched_wfD(1) [OF wf] sel by simp
  next
    fix h x assume x: "x \<in> set (tlists k' h)"
    then show "x \<noteq> 0" using sched_wfD(2) [OF wf] sel by simp
    have "stat_fits (thread k x) h" using x sched_wfD(3) [OF wf, of x h] sel(3) by simp
    then show "stat_fits (thread k' x) h" using sel(2) t by (cases h) (auto simp: stat_fits_def)
  next
    fix x assume "stat (thread k' x) = RT_THREAD_READY"
    then show "x \<in> set (tlists k' (Ready (unat (current_priority (thread k' x)))))"
      using sched_wfD(4) [OF wf, of x] sel(2,3) t by (cases "x = t") auto
  next
    fix x assume "live (thread k' x)"
    then show "prio_ok (thread k' x)"
      using sched_wfD(5) [OF wf, of x] sel(2) p by (auto simp: prio_ok_def split: if_splits)
  next
    fix q :: nat assume "q < 32"
    then show "bit (ready_group k') q \<longleftrightarrow> tlists k' (Ready q) \<noteq> []" using sched_wfD(6) [OF wf] sel g by simp
  qed
  moreover have "timers_ok b k' = timers_ok b k"
    using sel g by (simp add: timers_ok_def timers_sorted_def timer_flag_def ahead_def [abs_def])
  moreover have "own_timer k' x = own_timer k x" for x
    using sel by (simp add: own_timer_def timer_flag_def)
  moreover have "live (thread k' x) = live (thread k x)" for x using st by (simp add: live_def)
  ultimately show "kernel_inv b k'" using inv sel st unfolding kernel_inv_def by simp
qed

subsection \<open>Exit and detachment\<close>

lemma detach_timer_thread:
  "rt_timer_detach r (upd_thread t f k) =
     map_option (\<lambda>(e, k). (e, upd_thread t f k)) (rt_timer_detach r k)"
  by (simp add: rt_timer_detach_def rt_object_detach_def timer_remove_def upd_thread_def rt_assert_def)

text \<open>Detaching objects from the containers does not concern the kernel invariant.\<close>

lemma containers_inv [simp]: "kernel_inv b (k\<lparr>containers := c\<rparr>) = kernel_inv b k"
  by (rule kernel_inv_cong) (auto simp: timer_flag_def)

lemma close_core_parts:
  assumes "close_core t k = Some k1"
  obtains ka kb where "rt_schedule_remove_thread t k = Some ka"
    "rt_timer_detach (Thread_timer t) ka = Some (0, kb)"
    "k1 = upd_thread t (\<lambda>th. th\<lparr>stat := RT_THREAD_CLOSE\<rparr>) kb"
  using assms
  by (auto simp: close_core_def bind_Some_conv rt_timer_detach_def rt_object_detach_def Let_def
      split: prod.splits)

lemma detach_ok:
  assumes inv: "kernel_inv b k" and t: "live (thread k t)"
  obtains k' where "rt_thread_detach t k = Some (0, k')" "kernel_inv b k'"
    "thread k' = (thread k)(t := (thread k t)\<lparr>stat := RT_THREAD_CLOSE\<rparr>)"
    "tlists k' = (if cleanup (thread k t) = None then lists_remove t (tlists k)
      else lists_insert_first Defunct t (lists_remove t (tlists k)))"
    "containers k' = lists_remove (Obj t) (lists_remove (Thread_timer t) (containers k))"
    "Thread_timer t \<notin> set (timer_list k')" "current k' = current k"
proof -
  have t0: "t \<noteq> 0" using kernel_invD(3) [OF inv t] .
  obtain k1 where k1: "close_core t k = Some k1" "kernel_inv b k1"
    "thread k1 = (thread k)(t := (thread k t)\<lparr>stat := RT_THREAD_CLOSE\<rparr>)"
    "tlists k1 = lists_remove t (tlists k)"
    "timer_list k1 = removeAll (Thread_timer t) (timer_list k)" "current k1 = current k"
    "containers k1 = lists_remove (Thread_timer t) (containers k)"
    using close_core_ok [OF inv t] by metis
  let ?k2 = "k1\<lparr>containers := lists_remove (Obj t) (containers k1)\<rparr>"
  let ?k' = "if cleanup (thread k t) \<noteq> None then insert_defunct t ?k2 else ?k2"
  have "rt_thread_detach t k = Some (0, ?k')"
  proof -
    obtain ka kb where ka: "rt_schedule_remove_thread t k = Some ka"
      "rt_timer_detach (Thread_timer t) ka = Some (0, kb)"
      "k1 = upd_thread t (\<lambda>th. th\<lparr>stat := RT_THREAD_CLOSE\<rparr>) kb"
      by (rule close_core_parts [OF k1(1)])
    have "cleanup (thread k1 t) = cleanup (thread k t)" using k1(3) by simp
    then have "cleanup (thread kb t) = cleanup (thread k t)" using ka(3) by simp
    then show ?thesis
      using t0 ka(1,2) unfolding rt_thread_detach_def
      by (simp add: rt_object_detach_def ka(3) [symmetric])
  qed
  moreover have "kernel_inv b (insert_defunct t ?k2)"
    by (rule insert_defunct_inv) (use t0 k1 in \<open>simp_all add: unlinked_remove\<close>)
  ultimately show ?thesis
    using that [of ?k'] k1 by (simp add: insert_defunct_def split: if_splits)
qed

lemma exit_ok:
  assumes inv: "kernel_inv b k" and c: "current k = Some t" "stat (thread k t) = RT_THREAD_READY"
    and r: "stat (thread k r) = RT_THREAD_READY" "r \<noteq> t" and lock: "lock_nest k = 0"
  defines "gone \<equiv> obj_type (objs k (Obj t)) AND 0x80 \<noteq> 0 \<and> cleanup (thread k t) = None"
  obtains k' s where "rt_thread_exit k = Some k'" "kernel_inv b k'"
    "thread k' = (thread k)(t := (thread k t)\<lparr>stat := RT_THREAD_CLOSE\<rparr>)"
    "tlists k' = (if gone then lists_remove t (tlists k)
      else lists_insert_first Defunct t (lists_remove t (tlists k)))"
    "containers k' = (if gone then lists_remove (Obj t) else id)
       (lists_remove (Thread_timer t) (containers k))"
    "Thread_timer t \<notin> set (timer_list k')" "current k' = Some s" "highest k' s" "s \<noteq> t"
proof -
  have lv: "live (thread k t)" using live_ready(1) [OF c(2)] .
  have t0: "t \<noteq> 0" using kernel_invD(3) [OF inv lv] .
  obtain k1 where k1: "close_core t k = Some k1" "kernel_inv b k1"
    "thread k1 = (thread k)(t := (thread k t)\<lparr>stat := RT_THREAD_CLOSE\<rparr>)"
    "tlists k1 = lists_remove t (tlists k)"
    "timer_list k1 = removeAll (Thread_timer t) (timer_list k)" "current k1 = current k"
    "containers k1 = lists_remove (Thread_timer t) (containers k)" "objs k1 = objs k"
    "lock_nest k1 = lock_nest k"
    using close_core_ok [OF inv lv] by metis
  let ?k2 = "if gone then k1\<lparr>containers := lists_remove (Obj t) (containers k1)\<rparr> else insert_defunct t k1"
  have iv2: "kernel_inv b ?k2"
    using k1(2) insert_defunct_inv [OF k1(2) t0] k1(3,4) by (simp add: unlinked_remove)
  have sel2: "thread ?k2 = thread k1" "current ?k2 = Some t" "lock_nest ?k2 = 0"
    "timer_list ?k2 = timer_list k1"
    "tlists ?k2 = (if gone then lists_remove t (tlists k)
      else lists_insert_first Defunct t (lists_remove t (tlists k)))"
    "containers ?k2 = (if gone then lists_remove (Obj t) else id)
       (lists_remove (Thread_timer t) (containers k))"
    using k1 c lock by (simp_all add: insert_defunct_def)
  have rr: "stat (thread ?k2 r) = RT_THREAD_READY" using r sel2(1) k1(3) by simp
  have cn: "current ?k2 \<noteq> None" using sel2(2) by simp
  obtain k' s where k': "rt_schedule ?k2 = Some k'" "kernel_inv b k'" "current k' = Some s"
    "highest k' s" "stat (thread k' s) = RT_THREAD_READY" "highest ?k2 s"
    by (rule schedule_switches [OF iv2 rr cn sel2(3)])
  note sel = rt_schedule_sel [OF k'(1)]
  have ne: "s \<noteq> t" using k'(5) sel(1) sel2(1) k1(3) by auto
  have "rt_thread_exit k = Some k'"
  proof -
    obtain ka kb where ka: "rt_schedule_remove_thread t k = Some ka"
      "rt_timer_detach (Thread_timer t) ka = Some (0, kb)"
      "k1 = upd_thread t (\<lambda>th. th\<lparr>stat := RT_THREAD_CLOSE\<rparr>) kb"
      by (rule close_core_parts [OF k1(1)])
    have "rt_timer_detach (Thread_timer t) (upd_thread t (\<lambda>th. th\<lparr>stat := RT_THREAD_CLOSE\<rparr>) ka)
        = Some (0, k1)"
      unfolding detach_timer_thread ka(2) using ka(3) by simp
    moreover have "rt_object_is_systemobject (Obj t) k1 = Some (obj_type (objs k (Obj t)) AND 0x80 \<noteq> 0)"
      using t0 k1(8) by (simp add: rt_object_is_systemobject_def)
    moreover have "cleanup (thread k1 t) = cleanup (thread k t)" using k1(3) by simp
    ultimately show ?thesis
      using c ka(1) k'(1) t0
      by (cases gone) (simp_all add: rt_thread_exit_def gone_def [symmetric] rt_object_detach_def)
  qed
  then show ?thesis
    using that [of k' s] k' sel sel2 k1(3,5) ne by simp
qed

subsection \<open>Initialisation\<close>

lemma unat_align_down_8: "unat (RT_ALIGN_DOWN w 8) = 8 * (unat w div 8)"
proof -
  have "NOT (mask 3) AND w = push_bit 3 (drop_bit 3 w)"
    by (rule bit_word_eqI) (auto simp: bit_simps le_diff_conv2 elim!: back_subst [of "bit w"])
  moreover have "NOT (mask 3) = (NOT (8 - 1) :: u32)" by (simp add: mask_eq_exp_minus_1)
  ultimately have e: "RT_ALIGN_DOWN w 8 = push_bit 3 (drop_bit 3 w)"
    by (simp add: RT_ALIGN_DOWN_def and.commute)
  have b: "unat w < 2 ^ 32" using unsigned_less [of w, where ?'a = nat] by simp
  have "unat (push_bit 3 (drop_bit 3 w)) = (unat w div 8 * 8) mod 2 ^ 32"
    using b by (simp only: unsigned_push_bit_eq unsigned_drop_bit_eq)
      (simp add: push_bit_eq_mult drop_bit_eq_div take_bit_eq_mod)
  moreover have "unat w div 8 * 8 < 2 ^ 32" using b by linarith
  ultimately show ?thesis using e by simp
qed

text \<open>The initial frame fits into the stack from 76 bytes on: 68 bytes and the alignment.\<close>

lemma initial_sp_ok:
  assumes room: "76 \<le> unat sz" and top: "unat (start::addr) + unat (sz::u16) < 2 ^ 32"
    and s: "s = fst (rt_hw_stack_init entry param (start + ucast sz - 4) texit m)"
  shows "start < s" "s \<le> start + ucast sz"
proof -
  have e: "s = RT_ALIGN_DOWN (start + ucast sz) 8 - 68"
    by (simp add: s rt_hw_stack_init_def SIZEOF_STACK_FRAME_def Let_def)
  have "unat sz < 2 ^ 16" using unsigned_less [of sz, where ?'a = nat] by simp
  then have u: "unat (ucast sz :: addr) = unat sz" by (simp add: unsigned_ucast_eq take_bit_nat_eq_self)
  have t: "unat (start + ucast sz) = unat start + unat sz"
    using top u by (simp add: unat_word_ariths)
  have a: "unat (RT_ALIGN_DOWN (start + ucast sz) 8) = 8 * ((unat start + unat sz) div 8)"
    using t by (simp add: unat_align_down_8)
  have ge: "unat start + unat sz - 7 \<le> 8 * ((unat start + unat sz) div 8)" by linarith
  have "68 \<le> RT_ALIGN_DOWN (start + ucast sz) 8"
    unfolding word_le_nat_alt a using ge room by simp
  then have us: "unat s = 8 * ((unat start + unat sz) div 8) - 68"
    unfolding e by (subst unat_sub) (simp_all add: a)
  show "start < s" unfolding word_less_nat_alt us using ge room by linarith
  show "s \<le> start + ucast sz" unfolding word_le_nat_alt us t by linarith
qed

text \<open>A thread outside every list whose timer does not run may be given new contents.\<close>

lemma fresh_thread_inv:
  assumes inv: "kernel_inv b k" and un: "unlinked t (tlists k)"
    and nt: "Thread_timer t \<notin> set (timer_list k)" "Obj t \<notin> set (timer_list k)"
    and st: "stat th = RT_THREAD_INIT"
    and k': "thread k' = (thread k)(t := th)" "tlists k' = tlists k" "ready_group k' = ready_group k"
      "timer_list k' = timer_list k" "tick k' = tick k"
    and tm: "\<And>r. r \<noteq> Thread_timer t \<Longrightarrow> timer k' r = timer k r"
    and ob: "\<And>r. r \<noteq> Thread_timer t \<Longrightarrow> r \<noteq> Obj t \<Longrightarrow> objs k' r = objs k r"
  shows "kernel_inv b k'"
  unfolding kernel_inv_def
proof (intro conjI allI impI)
  have "sched_wf (k\<lparr>thread := (thread k)(t := th)\<rparr>)"
    by (rule unlinked_upd_wf [OF kernel_invD(1) [OF inv] un]) (use st in \<open>simp_all add: live_def\<close>)
  moreover have "sched_wf k' = sched_wf (k\<lparr>thread := (thread k)(t := th)\<rparr>)"
    by (rule sched_wf_cong) (use k' in simp_all)
  ultimately show "sched_wf k'" by simp
  have same: "timer k' r = timer k r" "timer_flag r k' = timer_flag r k" if "r \<in> set (timer_list k)" for r
  proof -
    have "r \<noteq> Thread_timer t" "r \<noteq> Obj t" using that nt by auto
    then show "timer k' r = timer k r" "timer_flag r k' = timer_flag r k"
      using tm ob by (simp_all add: timer_flag_def)
  qed
  then have ah: "ahead b k' r = ahead b k r" if "r \<in> set (timer_list k)" for r
    using that by (simp add: ahead_def)
  then have "map (ahead b k') (timer_list k) = map (ahead b k) (timer_list k)" by simp
  then have "timers_sorted b k' = timers_sorted b k"
    unfolding timers_sorted_def k'(4) by (rule arg_cong)
  then show "timers_ok b k'"
    using kernel_invD(2) [OF inv] same k' ah by (simp add: timers_ok_def)
  fix x
  have own: "own_timer k' x = own_timer k x" if "x \<noteq> t"
    using that tm ob by (simp add: own_timer_def timer_flag_def)
  show "x \<noteq> 0" "own_timer k' x" "stack_ok (thread k' x)" if "live (thread k' x)"
  proof -
    have "x \<noteq> t" using that st k'(1) by (auto simp: live_def)
    then show "x \<noteq> 0" "own_timer k' x" "stack_ok (thread k' x)"
      using that own kernel_invD(3-5) [OF inv, of x] k'(1) by auto
  qed
  show "stat (thread k' x) = RT_THREAD_SUSPEND" if "Thread_timer x \<in> set (timer_list k')"
    using that nt k' kernel_invD(6) [OF inv, of x] by (auto split: if_splits)
qed

lemma thread_setup_ok:
  assumes inv: "kernel_inv b k" and t: "t \<noteq> 0" "unlinked t (tlists k)"
    and nt: "Thread_timer t \<notin> set (timer_list k)" "Obj t \<notin> set (timer_list k)"
    and p: "unat priority < 32"
    and room: "76 \<le> unat (ucast ssize :: u16)" "unat start + unat (ucast ssize :: u16) < 2 ^ 32"
  obtains k' where "thread_setup texit t entry param start ssize priority ticks k = Some (0, k')"
    "kernel_inv b k'" "stat (thread k' t) = RT_THREAD_INIT" "own_timer k' t" "stack_ok (thread k' t)"
    "init_priority (thread k' t) = priority" "tlists k' = tlists k" "current k' = current k"
    "timer_list k' = timer_list k" "lock_nest k' = lock_nest k"
    "\<And>x. x \<noteq> t \<Longrightarrow> thread k' x = thread k x"
    "containers k' = lists_insert_first RT_Object_Class_Timer (Thread_timer t) (containers k)"
proof -
  let ?sz = "ucast ssize :: u16"
  let ?k1 = "upd_thread t (\<lambda>th. th\<lparr>t_entry := entry, t_parameter := param, stack_addr := start,
    stack_size := ?sz\<rparr>) k"
  let ?k2 = "upd_heap (\<lambda>h. h\<lparr>ram := rt_memset start 0x23 (ucast ?sz) (ram h)\<rparr>) ?k1"
  let ?i = "rt_hw_stack_init entry param (start + ucast ?sz - 4) texit (ram (heap_of ?k2))"
  let ?k3 = "upd_thread t (\<lambda>th. th\<lparr>sp := fst ?i\<rparr>) (upd_heap (\<lambda>h. h\<lparr>ram := snd ?i\<rparr>) ?k2)"
  let ?k4 = "upd_thread t (\<lambda>th. th\<lparr>init_priority := priority, current_priority := priority,
    t_init_tick := ticks, remaining_tick := ticks, t_error := 0,
    stat := RT_THREAD_INIT, cleanup := None, user_data := 0\<rparr>) ?k3"
  let ?r = "Thread_timer t"
  let ?k' = "timer_setup ?r Fn_thread_timeout t 0 0
    (rt_object_init ?r RT_Object_Class_Timer (name_of ?k4 (Obj t)) ?k4)"
  have run: "thread_setup texit t entry param start ssize priority ticks k = Some (0, ?k')"
    using p by (simp add: thread_setup_def Let_def case_prod_unfold rt_timer_init_def)
  have th: "thread ?k' = (thread k)(t := thread ?k4 t)"
    by (auto simp: timer_setup_def rt_object_init_eq set_timer_flag_def Let_def upd_heap_def fun_eq_iff)
  have st: "stat (thread ?k4 t) = RT_THREAD_INIT" by simp
  have sel: "tlists ?k' = tlists k" "ready_group ?k' = ready_group k" "timer_list ?k' = timer_list k"
    "tick ?k' = tick k" "current ?k' = current k" "lock_nest ?k' = lock_nest k"
    "containers ?k' = lists_insert_first RT_Object_Class_Timer ?r (containers k)"
    by (simp_all add: timer_setup_def rt_object_init_eq set_timer_flag_def Let_def upd_heap_def)
  have tm: "timer ?k' r = timer k r" "objs ?k' r = objs k r" if "r \<noteq> ?r" for r
    using that by (simp_all add: timer_setup_def rt_object_init_eq set_timer_flag_def Let_def upd_heap_def)
  have "kernel_inv b ?k'"
    by (rule fresh_thread_inv [OF inv t(2) nt st th sel(1-4)]) (use tm in simp_all)
  moreover have "own_timer ?k' t"
    by (simp add: own_timer_def timer_setup_def set_timer_flag_def Let_def timer_flag_def bit_simps)
  moreover have "stack_ok (thread ?k' t)"
    using initial_sp_ok [OF room refl] unfolding th by (simp add: stack_ok_def)
  moreover have "stat (thread ?k' t) = RT_THREAD_INIT" "init_priority (thread ?k' t) = priority"
    unfolding th by simp_all
  moreover have "thread ?k' x = thread k x" if "x \<noteq> t" for x unfolding th using that by simp
  ultimately show ?thesis using that [of ?k'] run sel by blast
qed

text \<open>A thread that is initialised and started runs as soon as it is the first of the highest
  priority.\<close>

lemma init_startup_ok:
  assumes inv: "kernel_inv b k" and t: "t \<noteq> 0" "unlinked t (tlists k)"
    and nt: "Thread_timer t \<notin> set (timer_list k)" "Obj t \<notin> set (timer_list k)"
    and p: "unat priority < 32" and start: "start \<noteq> 0"
    and room: "76 \<le> unat (ucast ssize :: u16)" "unat start + unat (ucast ssize :: u16) < 2 ^ 32"
  obtains k1 k' where "rt_thread_init texit t name entry param start ssize priority ticks k = Some (0, k1)"
    "kernel_inv b k1" "rt_thread_startup t k1 = Some (0, k')" "kernel_inv b k'"
    "stat (thread k' t) = RT_THREAD_READY" "current_priority (thread k' t) = priority"
    "tlists k' = lists_insert_last (Ready (unat priority)) t (tlists k)"
    "current k \<noteq> None \<Longrightarrow> lock_nest k = 0 \<Longrightarrow> \<exists>s. current k' = Some s \<and> highest k' s"
proof -
  let ?k0 = "rt_object_init (Obj t) RT_Object_Class_Thread name k"
  have sel0: "thread ?k0 = thread k" "tlists ?k0 = tlists k" "timer_list ?k0 = timer_list k"
    "timer ?k0 = timer k" "tick ?k0 = tick k" "ready_group ?k0 = ready_group k"
    "current ?k0 = current k" "lock_nest ?k0 = lock_nest k"
    by (simp_all add: rt_object_init_eq)
  have "timers_ok b ?k0"
  proof -
    have "timer_flag r ?k0 = timer_flag r k" for r by (simp add: timer_flag_def rt_object_init_eq)
    then show ?thesis using kernel_invD(2) [OF inv] sel0
      by (simp add: timers_ok_def timers_sorted_def ahead_def [abs_def])
  qed
  moreover have "sched_wf ?k0 = sched_wf k" by (rule sched_wf_cong) (simp_all add: sel0)
  moreover have "own_timer ?k0 x = own_timer k x" for x
    by (simp add: own_timer_def timer_flag_def rt_object_init_eq)
  ultimately have inv0: "kernel_inv b ?k0" using inv sel0 unfolding kernel_inv_def by simp
  obtain k1 where k1: "thread_setup texit t entry param start ssize priority ticks ?k0 = Some (0, k1)"
    "kernel_inv b k1" "stat (thread k1 t) = RT_THREAD_INIT" "own_timer k1 t" "stack_ok (thread k1 t)"
    "init_priority (thread k1 t) = priority" "tlists k1 = tlists ?k0" "current k1 = current ?k0"
    "lock_nest k1 = lock_nest ?k0"
    using thread_setup_ok [OF inv0 t(1) _ _ _ p room] t(2) nt sel0 by metis
  have init: "rt_thread_init texit t name entry param start ssize priority ticks k = Some (0, k1)"
    using t(1) start k1(1) by (simp add: rt_thread_init_def)
  have un1: "unlinked t (tlists k1)" using k1(7) sel0 t(2) by simp
  have p1: "unat (init_priority (thread k1 t)) < 32" using k1(6) p by simp
  obtain k' where k': "rt_thread_startup t k1 = Some (0, k')" "kernel_inv b k'"
    "stat (thread k' t) = RT_THREAD_READY"
    "current_priority (thread k' t) = init_priority (thread k1 t)"
    "tlists k' = lists_insert_last (Ready (unat (init_priority (thread k1 t)))) t (tlists k1)"
    "current k1 \<noteq> None \<Longrightarrow> lock_nest k1 = 0 \<Longrightarrow> \<exists>s. current k' = Some s \<and> highest k' s"
    using startup_ok [OF k1(2) t(1) k1(3-5) p1 un1] by metis
  show ?thesis
    using that [OF init k1(2) k'(1,2,3)] k'(4,5,6) k1(6-9) sel0 by simp
qed

subsection \<open>Finding objects\<close>

text \<open>Locking and unlocking the scheduler: what is left is the schedule of the last unlock.\<close>

lemma lock_unlock:
  assumes "lock_nest k <s 0x7fff" "0 \<le>s lock_nest k"
  shows "rt_exit_critical (rt_enter_critical k) =
    (if lock_nest k = 0 then rt_schedule k else Some k)"
proof -
  have "lock_nest k = 0 \<longleftrightarrow> sint (lock_nest k) \<le> 0"
    using assms(2) by (auto simp: word_sle_eq) (metis dual_order.eq_iff signed_0 signed_word_eqI)
  moreover have e: "lock_nest k = 0 \<Longrightarrow> k\<lparr>lock_nest := 0\<rparr> = k" by (cases k) simp
  ultimately show ?thesis
    by (auto simp: rt_exit_critical_def rt_enter_critical_def Let_def e)
qed

text \<open>A search returns the first object of the class with the name; threads of a higher priority
  may run at its end.\<close>

lemma object_find_ok:
  assumes inv: "kernel_inv b k" and c: "current k \<noteq> None" "stat (thread k r) = RT_THREAD_READY"
    and nest: "irq_nest k = 0" "lock_nest k <s 0x7fff" "0 \<le>s lock_nest k"
  obtains k' where
    "rt_object_find (Some s) (class_code c) k = Some (find_named k s (containers k c), k')"
    "kernel_inv b k'" "thread_frame k (k'\<lparr>current := current k, current_prio := current_prio k\<rparr>)"
    "thread k' = thread k" "tlists k' = tlists k"
proof -
  obtain k' where k': "rt_schedule k = Some k'" "kernel_inv b k'" using schedule_runs [OF inv c(2,1)] by blast
  let ?k' = "if lock_nest k = 0 then k' else k"
  have cc: "\<not> RT_Object_Class_Unknown < class_code c" by (cases c) (simp_all add: class_code_def)
  have nm: "name_of (rt_enter_critical k) = name_of k"
    by (intro ext) (simp add: name_of_def rt_enter_critical_def cong: if_cong)
  have fn: "find_named (rt_enter_critical k) s xs = find_named k s xs" for xs
    by (induction xs) (simp_all add: nm)
  have "rt_object_find (Some s) (class_code c) k = Some (find_named k s (containers k c), ?k')"
    using cc nest lock_unlock [OF nest(2,3)] k'(1) fn
    by (simp add: rt_object_find_def RT_DEBUG_NOT_IN_INTERRUPT_def rt_interrupt_get_nest_def)
      (simp add: rt_enter_critical_def)
  moreover have "kernel_inv b ?k'" using k'(2) inv by simp
  moreover have "?k'\<lparr>current := current k, current_prio := current_prio k\<rparr> = k"
  proof (cases "lock_nest k = 0")
    case True
    have "k'\<lparr>current := current k, current_prio := current_prio k\<rparr> = k"
      by (subst rt_schedule_frame [OF k'(1)]) simp
    then show ?thesis using True by simp
  qed simp
  moreover have "thread ?k' = thread k" "tlists ?k' = tlists k" using rt_schedule_sel [OF k'(1)] by simp_all
  ultimately show ?thesis using that [of ?k'] thread_frame_refl [of k] by metis
qed

lemma find_initialised:
  assumes "rt_strncmp s n 8 = 0"
  shows "find_named (rt_object_init r c s k) n (containers (rt_object_init r c s k) c) = Some r"
proof -
  let ?k = "rt_object_init r c s k"
  have "obj_name (objs ?k r) = rt_strncpy s 8" by (simp add: rt_object_init_eq)
  then have "rt_strncmp (name_of ?k r) n 8 = 0" using name_of_given assms(1) by blast
  moreover have "containers ?k c = r # containers k c" by (simp add: rt_object_init_eq lists_insert_first_def)
  ultimately show ?thesis by simp
qed

end
