(* ===== verification/Ipc.thy ===== *)
theory Ipc
  imports Thread
begin

text \<open>
  What the objects of \<open>src/ipc.c\<close> share: a list of waiting threads in the order of arrival or of
  priority, suspending the current thread on it with or without a timeout, and waking its first
  thread or all of them. The lemmas say what each does to the lists and that it keeps the kernel
  invariant; the objects themselves are in theories of their own.
\<close>

subsection \<open>Operations\<close>

abbreviation (input) RT_IPC_FLAG_FIFO :: u8 where "RT_IPC_FLAG_FIFO \<equiv> 0"
abbreviation (input) RT_IPC_FLAG_PRIO :: u8 where "RT_IPC_FLAG_PRIO \<equiv> 1"
abbreviation (input) RT_IPC_CMD_RESET :: u8 where "RT_IPC_CMD_RESET \<equiv> 1"

text \<open>\<open>rt_int32_t\<close>: \<open>0 <s n\<close> is the comparison of the code.\<close>

type_synonym s32 = "32 word"

text \<open>\<open>rt_list_init\<close> of the anchor: no thread is linked to it.\<close>

definition rt_ipc_object_init :: "addr \<Rightarrow> kernel \<Rightarrow> kernel" where
  "rt_ipc_object_init ob k = k\<lparr>tlists := (tlists k)(Suspend_list ob := [])\<rparr>"

definition set_flag :: "addr \<Rightarrow> u8 \<Rightarrow> kernel \<Rightarrow> kernel" where
  "set_flag ob flag k = upd_obj (Obj ob) (\<lambda>r. r\<lparr>obj_flag := flag\<rparr>) k"

text \<open>The loop that looks for the place by priority: before the first thread of a lower one.\<close>

fun prio_insert :: "(addr \<Rightarrow> u8) \<Rightarrow> addr \<Rightarrow> addr list \<Rightarrow> addr list" where
  "prio_insert prio t [] = [t]"
| "prio_insert prio t (s # ss) = (if prio t < prio s then t # s # ss else s # prio_insert prio t ss)"

definition rt_ipc_list_suspend :: "qhead \<Rightarrow> addr \<Rightarrow> u8 \<Rightarrow> kernel \<Rightarrow> kernel option" where
  "rt_ipc_list_suspend h t flag k = do {
     (_, k) \<leftarrow> rt_thread_suspend t k;
     Some (if flag = RT_IPC_FLAG_FIFO then k\<lparr>tlists := lists_insert_last h t (tlists k)\<rparr>
           else if flag = RT_IPC_FLAG_PRIO then
             k\<lparr>tlists := (tlists k)(h :=
                 prio_insert (\<lambda>s. current_priority (thread k s)) t (tlists k h))\<rparr>
           else k)
   }"

definition rt_ipc_list_resume :: "qhead \<Rightarrow> kernel \<Rightarrow> kernel option" where
  "rt_ipc_list_resume h k = do {
     t \<leftarrow> lists_first h (tlists k);
     (_, k) \<leftarrow> rt_thread_resume t k;
     Some k
   }"

partial_function (option) rt_ipc_list_resume_all :: "qhead \<Rightarrow> kernel \<Rightarrow> kernel option" where
  "rt_ipc_list_resume_all h k =
     (case tlists k h of
        [] \<Rightarrow> Some k
      | t # _ \<Rightarrow> do {
          (_, k) \<leftarrow> rt_thread_resume t (upd_thread t (\<lambda>th. th\<lparr>t_error := - RT_ERROR\<rparr>) k);
          rt_ipc_list_resume_all h k
        })"

text \<open>
  The part all blocking calls share: the current thread goes to the list, its timer is started
  when there is a time limit, and another thread is scheduled.
\<close>

definition ipc_wait :: "qhead \<Rightarrow> addr \<Rightarrow> u8 \<Rightarrow> s32 \<Rightarrow> kernel \<Rightarrow> kernel option" where
  "ipc_wait h t flag time k = do {
     k \<leftarrow> rt_ipc_list_suspend h t flag k;
     k \<leftarrow> (if 0 <s time then do {
             (_, _, k) \<leftarrow> rt_timer_control (Thread_timer t) 0 time k;
             (_, k) \<leftarrow> rt_timer_start (Thread_timer t) k;
             Some k
           } else Some k);
     rt_schedule k
   }"

text \<open>Waking the first waiting thread, if there is one, and scheduling.\<close>

definition ipc_wake_one :: "qhead \<Rightarrow> kernel \<Rightarrow> kernel option" where
  "ipc_wake_one h k =
     (if tlists k h \<noteq> [] then do { k \<leftarrow> rt_ipc_list_resume h k; rt_schedule k } else Some k)"

subsection \<open>The order of a list of waiting threads\<close>

text \<open>Where a thread is put: last, or before the first thread of a lower priority.\<close>

definition queue_in :: "u8 \<Rightarrow> kernel \<Rightarrow> addr \<Rightarrow> addr list \<Rightarrow> addr list" where
  "queue_in flag k t ss =
     (if flag = RT_IPC_FLAG_FIFO then ss @ [t]
      else prio_insert (\<lambda>s. current_priority (thread k s)) t ss)"

lemma prio_insert_split:
  "prio_insert prio t ss =
     takeWhile (\<lambda>s. prio s \<le> prio t) ss @ t # dropWhile (\<lambda>s. prio s \<le> prio t) ss"
  by (induction ss) (auto simp: not_le)

lemma prio_insert_set [simp]: "set (prio_insert prio t ss) = insert t (set ss)"
  by (induction ss) auto

lemma prio_insert_distinct [simp]:
  "distinct (prio_insert prio t ss) = (distinct ss \<and> t \<notin> set ss)"
  by (induction ss) auto

lemma prio_insert_sorted:
  "sorted (map prio ss) \<Longrightarrow> sorted (map prio (prio_insert (prio :: addr \<Rightarrow> u8) t ss))"
  by (induction ss) (auto simp: not_less)

lemma queue_in_set [simp]: "set (queue_in flag k t ss) = insert t (set ss)"
  by (simp add: queue_in_def)

lemma queue_in_distinct: "distinct ss \<Longrightarrow> t \<notin> set ss \<Longrightarrow> distinct (queue_in flag k t ss)"
  by (simp add: queue_in_def)

lemma queue_in_cong:
  "(\<And>s. s \<in> insert t (set ss) \<Longrightarrow> current_priority (thread k' s) = current_priority (thread k s)) \<Longrightarrow>
    queue_in flag k' t ss = queue_in flag k t ss"
proof -
  assume "\<And>s. s \<in> insert t (set ss) \<Longrightarrow> current_priority (thread k' s) = current_priority (thread k s)"
  then have "\<forall>s \<in> insert t (set ss). current_priority (thread k' s) = current_priority (thread k s)" by blast
  then have "prio_insert (\<lambda>s. current_priority (thread k' s)) t ss =
      prio_insert (\<lambda>s. current_priority (thread k s)) t ss"
    by (induction ss) simp_all
  then show ?thesis by (simp add: queue_in_def)
qed

subsection \<open>What a call leaves alone\<close>

text \<open>The parts of the state that are neither threads, timers nor the choice of the current thread.\<close>

definition call_frame :: "kernel \<Rightarrow> kernel \<Rightarrow> bool" where
  "call_frame k k' = thread_frame k (k'\<lparr>current := current k, current_prio := current_prio k\<rparr>)"

lemma call_frameD:
  assumes "call_frame k k'"
  shows "tick k' = tick k" "lock_nest k' = lock_nest k" "irq_nest k' = irq_nest k"
    "containers k' = containers k" "heap_of k' = heap_of k" "sem k' = sem k" "mutex k' = mutex k"
    "event k' = event k" "mailbox k' = mailbox k" "mqueue k' = mqueue k" "mempool k' = mempool k"
    "mp_links k' = mp_links k" "errno k' = errno k" "device k' = device k"
    "completed k' = completed k" "data_queue k' = data_queue k" "pipe k' = pipe k"
  using thread_frameD [OF assms [unfolded call_frame_def]] by simp_all

lemma thread_frame_cur:
  assumes "thread_frame k k'"
  shows "thread_frame (k\<lparr>current := c, current_prio := p\<rparr>) (k'\<lparr>current := c, current_prio := p\<rparr>)"
proof -
  have "sans_timers ((k'\<lparr>current := c, current_prio := p\<rparr>)
      \<lparr>thread := thread k, tlists := tlists k, ready_group := ready_group k\<rparr>)
    = (sans_timers (k'\<lparr>thread := thread k, tlists := tlists k, ready_group := ready_group k\<rparr>))
      \<lparr>current := c, current_prio := p\<rparr>"
    by (simp add: sans_timers_def)
  also have "\<dots> = (sans_timers k)\<lparr>current := c, current_prio := p\<rparr>"
    using assms by (simp add: thread_frame_def)
  also have "\<dots> = sans_timers (k\<lparr>current := c, current_prio := p\<rparr>)" by (simp add: sans_timers_def)
  finally show ?thesis by (simp add: thread_frame_def)
qed

lemma call_frame_thread: "thread_frame k k' \<Longrightarrow> call_frame k k'"
  unfolding call_frame_def
  using thread_frame_cur [of k k', where c = "current k" and p = "current_prio k"] by simp

lemma call_frame_refl [simp]: "call_frame k k" by (simp add: call_frame_def)

lemma call_frame_schedule: "rt_schedule k = Some k' \<Longrightarrow> call_frame k k'"
proof -
  assume a: "rt_schedule k = Some k'"
  have "k'\<lparr>current := current k, current_prio := current_prio k\<rparr> = k"
    by (subst rt_schedule_frame [OF a]) simp
  then show ?thesis by (simp add: call_frame_def)
qed

lemma call_frame_trans:
  assumes "call_frame a b" "call_frame b c"
  shows "call_frame a c"
proof -
  have "thread_frame (b\<lparr>current := current a, current_prio := current_prio a\<rparr>)
      (c\<lparr>current := current a, current_prio := current_prio a\<rparr>)"
    using thread_frame_cur [OF assms(2) [unfolded call_frame_def],
        where c = "current a" and p = "current_prio a"] by simp
  then show ?thesis using assms(1) thread_frame_trans unfolding call_frame_def by blast
qed

subsection \<open>Suspending on a list\<close>

text \<open>The lists of waiting threads, as opposed to the queues of the scheduler.\<close>

fun waiting :: "qhead \<Rightarrow> bool" where
  "waiting (Suspend_list _) = True"
| "waiting (Sender_list _) = True"
| "waiting _ = False"

lemma stat_fits_waiting: "waiting h \<Longrightarrow> stat_fits th h = (stat th = RT_THREAD_SUSPEND)"
  by (cases h) (simp_all add: stat_fits_def)

text \<open>Linking a suspended thread into one of them.\<close>

lemma link_waiting_inv:
  assumes inv: "kernel_inv b k" and h: "waiting h" and t: "stat (thread k t) = RT_THREAD_SUSPEND"
    and un: "unlinked t (tlists k)" and q: "set q = insert t (set (tlists k h))" "distinct q"
  shows "kernel_inv b (k\<lparr>tlists := (tlists k)(h := q)\<rparr>)"
proof -
  let ?k = "k\<lparr>tlists := (tlists k)(h := q)\<rparr>"
  note wf = kernel_invD(1) [OF inv]
  have t0: "t \<noteq> 0" using kernel_invD(3) [OF inv live_ready(2) [OF t]] .
  have nr: "h \<noteq> Ready p" for p using h by auto
  have "sched_wf ?k" unfolding sched_wf_def
  proof (intro conjI allI impI)
    show "wf_lists (tlists ?k)"
      using sched_wfD(1) [OF wf] un q unfolding wf_lists_def unlinked_def by (auto split: if_splits)
  next
    fix g x assume x: "x \<in> set (tlists ?k g)"
    show "x \<noteq> 0" "stat_fits (thread ?k x) g"
      using x q t t0 stat_fits_waiting [OF h] sched_wfD(2,3) [OF wf, of x g] sched_wfD(2,3) [OF wf, of x h]
      by (auto split: if_splits)
  next
    fix x assume "stat (thread ?k x) = RT_THREAD_READY"
    then show "x \<in> set (tlists ?k (Ready (unat (current_priority (thread ?k x)))))"
      using sched_wfD(4) [OF wf, of x] nr by auto
  next
    fix x assume "live (thread ?k x)"
    then show "prio_ok (thread ?k x)" using sched_wfD(5) [OF wf, of x] by simp
  next
    fix p :: nat assume "p < 32"
    then show "bit (ready_group ?k) p \<longleftrightarrow> tlists ?k (Ready p) \<noteq> []"
      using sched_wfD(6) [OF wf] nr nr [symmetric] by simp
  qed
  moreover have "timers_ok b ?k = timers_ok b k"
    by (simp add: timers_ok_def timers_sorted_def timer_flag_def ahead_def [abs_def])
  moreover have "own_timer ?k x = own_timer k x" for x by (simp add: own_timer_def timer_flag_def)
  ultimately show ?thesis using inv unfolding kernel_inv_def by simp
qed

lemma ready_not_waiting:
  assumes "sched_wf k" "waiting h" "stat (thread k t) = RT_THREAD_READY"
  shows "t \<notin> set (tlists k h)"
  using sched_wfD(3) [OF assms(1), of t h] stat_fits_waiting [OF assms(2)] assms(3) by auto

lemma list_suspend_ok:
  assumes inv: "kernel_inv b k" and t: "stat (thread k t) = RT_THREAD_READY" and h: "waiting h"
    and flag: "flag = 0 \<or> flag = 1"
  obtains k' where "rt_ipc_list_suspend h t flag k = Some k'" "kernel_inv b k'" "thread_frame k k'"
    "thread k' = (thread k)(t := (thread k t)\<lparr>stat := RT_THREAD_SUSPEND\<rparr>)"
    "tlists k' = (lists_remove t (tlists k))(h := queue_in flag k t (tlists k h))"
    "timer k' = timer k" "timer_list k' = removeAll (Thread_timer t) (timer_list k)"
proof -
  obtain k1 where k1: "rt_thread_suspend t k = Some (0, k1)" "kernel_inv b k1" "thread_frame k k1"
    "thread k1 = (thread k)(t := (thread k t)\<lparr>stat := RT_THREAD_SUSPEND\<rparr>)"
    "tlists k1 = lists_remove t (tlists k)" "timer k1 = timer k"
    "timer_list k1 = removeAll (Thread_timer t) (timer_list k)"
    using suspend_ok [OF inv t] by metis
  have th: "t \<notin> set (tlists k h)" by (rule ready_not_waiting [OF kernel_invD(1) [OF inv] h t])
  then have same: "tlists k1 h = tlists k h" using k1(5) by (simp add: lists_remove_def removeAll_id)
  have q: "queue_in flag k1 t (tlists k1 h) = queue_in flag k t (tlists k h)"
    unfolding same by (rule queue_in_cong) (simp add: k1(4))
  let ?q = "queue_in flag k t (tlists k h)"
  let ?k' = "k1\<lparr>tlists := (tlists k1)(h := ?q)\<rparr>"
  have "rt_ipc_list_suspend h t flag k = Some ?k'"
    using k1(1) flag q by (auto simp: rt_ipc_list_suspend_def queue_in_def lists_insert_last_def same)
  moreover have "kernel_inv b ?k'"
  proof (rule link_waiting_inv [OF k1(2) h])
    show "stat (thread k1 t) = RT_THREAD_SUSPEND" using k1(4) by simp
    show "unlinked t (tlists k1)" using k1(5) by (simp add: unlinked_remove)
    show "set ?q = insert t (set (tlists k1 h))" by (simp add: same)
    have "distinct (tlists k h)" using sched_wfD(1) [OF kernel_invD(1) [OF inv]] by (simp add: wf_lists_def)
    then show "distinct ?q" using th by (rule queue_in_distinct)
  qed
  moreover have "thread_frame k ?k'" using k1(3) by simp
  ultimately show ?thesis using that [of ?k'] k1 by simp
qed

subsection \<open>Waiting\<close>

text \<open>The timeout of a suspended thread, started when the time limit is positive.\<close>

definition start_limit :: "addr \<Rightarrow> s32 \<Rightarrow> kernel \<Rightarrow> kernel option" where
  "start_limit t time k = (if 0 <s time then arm_timer t time k else Some k)"

lemma start_limit_unfold:
  "(if 0 <s time then do {
      (_, _, k) \<leftarrow> rt_timer_control (Thread_timer t) 0 time k;
      (_, k) \<leftarrow> rt_timer_start (Thread_timer t) k;
      Some k
    } else Some k) = start_limit t time k"
  by (simp add: start_limit_def arm_timer_def)

lemma positive_limit: "0 <s (time::s32) \<Longrightarrow> time \<noteq> 0x7fffffff \<Longrightarrow> time < RT_TICK_HALF"
proof -
  assume p: "0 <s time" and n: "time \<noteq> 0x7fffffff"
  have p0: "0 \<le> sint time" using p by (simp add: word_sless_alt)
  have lt: "sint time < 0x80000000" using sint_lt [of time] by simp
  have "take_bit LENGTH(32) (sint time) = sint time" by (rule take_bit_int_eq_self) (use p0 lt in simp_all)
  then have u: "uint time = sint time" by (rule trans [OF uint_sint])
  have "uint time \<noteq> 0x7fffffff" 
  proof
    assume "uint time = 0x7fffffff"
    then have "time = word_of_int 0x7fffffff" by (metis word_of_int_uint)
    then show False using n by simp
  qed
  then have "uint time < 0x7fffffff" using u lt by linarith
  then show ?thesis by (simp add: word_less_def)
qed

lemma start_limit_ok:
  assumes inv: "kernel_inv b k" and t: "stat (thread k t) = RT_THREAD_SUSPEND"
    and n: "time \<noteq> 0x7fffffff" and nt: "Thread_timer t \<notin> set (timer_list k)"
  obtains k' where "start_limit t time k = Some k'" "kernel_inv b k'" "timer_frame k k'"
    "Thread_timer t \<in> set (timer_list k') \<longleftrightarrow> 0 <s time"
    "0 <s time \<longrightarrow> timeout_tick (timer k' (Thread_timer t)) = tick k + time"
proof (cases "0 <s time")
  case True
  obtain k' where "arm_timer t time k = Some k'" "kernel_inv b k'" "timer_frame k k'"
    "timeout_tick (timer k' (Thread_timer t)) = tick k + time"
    "set (timer_list k') = insert (Thread_timer t) (set (timer_list k))"
    using arm_timer_ok [OF inv t positive_limit [OF True n]] by metis
  then show ?thesis using that [of k'] True by (simp add: start_limit_def)
next
  case False
  then show ?thesis using that [of k] inv nt by (simp add: start_limit_def)
qed

lemma ipc_wait_ok:
  assumes inv: "kernel_inv b k" and c: "current k = Some t" "stat (thread k t) = RT_THREAD_READY"
    and h: "waiting h" and flag: "flag = 0 \<or> flag = 1" and n: "time \<noteq> 0x7fffffff"
    and lock: "lock_nest k = 0" and r: "stat (thread k r) = RT_THREAD_READY" "r \<noteq> t"
  obtains k' s where "ipc_wait h t flag time k = Some k'" "kernel_inv b k'" "call_frame k k'"
    "thread k' = (thread k)(t := (thread k t)\<lparr>stat := RT_THREAD_SUSPEND\<rparr>)"
    "tlists k' = (lists_remove t (tlists k))(h := queue_in flag k t (tlists k h))"
    "current k' = Some s" "highest k' s" "s \<noteq> t"
    "Thread_timer t \<in> set (timer_list k') \<longleftrightarrow> 0 <s time"
    "0 <s time \<longrightarrow> timeout_tick (timer k' (Thread_timer t)) = tick k + time"
proof -
  obtain k1 where k1: "rt_ipc_list_suspend h t flag k = Some k1" "kernel_inv b k1" "thread_frame k k1"
    "thread k1 = (thread k)(t := (thread k t)\<lparr>stat := RT_THREAD_SUSPEND\<rparr>)"
    "tlists k1 = (lists_remove t (tlists k))(h := queue_in flag k t (tlists k h))"
    "timer_list k1 = removeAll (Thread_timer t) (timer_list k)"
    using list_suspend_ok [OF inv c(2) h flag] by metis
  have st1: "stat (thread k1 t) = RT_THREAD_SUSPEND" and nt1: "Thread_timer t \<notin> set (timer_list k1)"
    using k1(4,6) by simp_all
  obtain k2 where k2: "start_limit t time k1 = Some k2" "kernel_inv b k2" "timer_frame k1 k2"
    "Thread_timer t \<in> set (timer_list k2) \<longleftrightarrow> 0 <s time"
    "0 <s time \<longrightarrow> timeout_tick (timer k2 (Thread_timer t)) = tick k1 + time"
    using start_limit_ok [OF k1(2) st1 n nt1] by metis
  note tf = timer_frameD [OF k2(3)] and ff = thread_frameD [OF k1(3)]
  have rr: "stat (thread k2 r) = RT_THREAD_READY" using r k1(4) tf(1) by simp
  have c2: "current k2 \<noteq> None" and l2: "lock_nest k2 = 0" using c lock tf ff by simp_all
  obtain k' s where k': "rt_schedule k2 = Some k'" "kernel_inv b k'" "current k' = Some s"
    "highest k' s" "stat (thread k' s) = RT_THREAD_READY" "highest k2 s"
    by (rule schedule_switches [OF k2(2) rr c2 l2])
  note sel = rt_schedule_sel [OF k'(1)]
  have "ipc_wait h t flag time k = Some k'"
    unfolding ipc_wait_def start_limit_unfold using k1(1) k2(1) k'(1) by simp
  moreover have "call_frame k k'"
    using call_frame_thread [OF k1(3)] call_frame_thread [OF thread_frame_timer [OF k2(3)]]
      call_frame_schedule [OF k'(1)] call_frame_trans by blast
  moreover have "s \<noteq> t" using k'(5) sel(1) tf(1) st1 by auto
  ultimately show ?thesis using that k'(2-4) sel k1(4,5) tf(1,2) k2(4,5) ff(2) by simp
qed

subsection \<open>Waking threads\<close>

lemma waiting_suspended:
  "kernel_inv b k \<Longrightarrow> waiting h \<Longrightarrow> t \<in> set (tlists k h) \<Longrightarrow> stat (thread k t) = RT_THREAD_SUSPEND"
  using sched_wfD(3) [OF kernel_invD(1)] stat_fits_waiting by blast

text \<open>The first thread of the list becomes ready, behind the others of its priority.\<close>

lemma list_resume_ok:
  assumes inv: "kernel_inv b k" and h: "waiting h" and q: "tlists k h = t # ts"
  obtains k' where "rt_ipc_list_resume h k = Some k'" "kernel_inv b k'" "thread_frame k k'"
    "thread k' = (thread k)(t := (thread k t)\<lparr>stat := RT_THREAD_READY\<rparr>)"
    "tlists k' = lists_insert_last (Ready (unat (current_priority (thread k t)))) t
      (lists_remove t (tlists k))" "tlists k' h = ts"
    "Thread_timer t \<notin> set (timer_list k')" "stat (thread k t) = RT_THREAD_SUSPEND"
proof -
  have st: "stat (thread k t) = RT_THREAD_SUSPEND" using waiting_suspended [OF inv h, of t] q by simp
  obtain k' where k': "rt_thread_resume t k = Some (0, k')" "kernel_inv b k'" "thread_frame k k'"
    "thread k' = (thread k)(t := (thread k t)\<lparr>stat := RT_THREAD_READY\<rparr>)"
    "tlists k' = lists_insert_last (Ready (unat (current_priority (thread k t)))) t
      (lists_remove t (tlists k))"
    "timer_list k' = removeAll (Thread_timer t) (timer_list k)"
    using resume_ok [OF inv st] by metis
  have "rt_ipc_list_resume h k = Some k'"
    using k'(1) q by (simp add: rt_ipc_list_resume_def lists_first_def)
  moreover have "tlists k' h = ts"
  proof -
    have "distinct (t # ts)"
      using sched_wfD(1) [OF kernel_invD(1) [OF inv]] q unfolding wf_lists_def by metis
    then have "removeAll t (tlists k h) = ts" using q by (simp add: removeAll_id)
    moreover have "h \<noteq> Ready p" for p using h by auto
    ultimately show ?thesis using k'(5) by (simp add: lists_insert_last_def lists_remove_def)
  qed
  ultimately show ?thesis using that k' st by simp
qed

lemma wake_one_ok:
  assumes inv: "kernel_inv b k" and h: "waiting h" and q: "tlists k h = t # ts"
    and c: "current k \<noteq> None" and lock: "lock_nest k = 0"
  obtains k' s where "ipc_wake_one h k = Some k'" "kernel_inv b k'" "call_frame k k'"
    "thread k' = (thread k)(t := (thread k t)\<lparr>stat := RT_THREAD_READY\<rparr>)"
    "tlists k' = lists_insert_last (Ready (unat (current_priority (thread k t)))) t
      (lists_remove t (tlists k))" "tlists k' h = ts"
    "Thread_timer t \<notin> set (timer_list k')" "current k' = Some s" "highest k' s"
proof -
  obtain k1 where k1: "rt_ipc_list_resume h k = Some k1" "kernel_inv b k1" "thread_frame k k1"
    "thread k1 = (thread k)(t := (thread k t)\<lparr>stat := RT_THREAD_READY\<rparr>)"
    "tlists k1 = lists_insert_last (Ready (unat (current_priority (thread k t)))) t
      (lists_remove t (tlists k))" "tlists k1 h = ts"
    "Thread_timer t \<notin> set (timer_list k1)" "stat (thread k t) = RT_THREAD_SUSPEND"
    by (rule list_resume_ok [OF inv h q])
  have r: "stat (thread k1 t) = RT_THREAD_READY" using k1(4) by simp
  have c1: "current k1 \<noteq> None" "lock_nest k1 = 0" using c lock thread_frameD [OF k1(3)] by simp_all
  obtain k' s where k': "rt_schedule k1 = Some k'" "kernel_inv b k'" "current k' = Some s"
    "highest k' s" "stat (thread k' s) = RT_THREAD_READY" "highest k1 s"
    by (rule schedule_switches [OF k1(2) r c1])
  note sel = rt_schedule_sel [OF k'(1)]
  have "ipc_wake_one h k = Some k'" using q k1(1) k'(1) by (simp add: ipc_wake_one_def)
  moreover have "call_frame k k'"
    using call_frame_thread [OF k1(3)] call_frame_schedule [OF k'(1)] call_frame_trans by blast
  ultimately show ?thesis using that k'(2-4) sel k1(4-7) by simp
qed

lemma wake_one_none: "tlists k h = [] \<Longrightarrow> ipc_wake_one h k = Some k"
  by (simp add: ipc_wake_one_def)

text \<open>Waking all: each gets the error number, the list is empty, other lists of waiting threads
  stay as they are. The loop ends because every turn unlinks one thread.\<close>

lemma resume_all_ok:
  assumes "kernel_inv b k" "waiting h"
  obtains k' where "rt_ipc_list_resume_all h k = Some k'" "kernel_inv b k'" "thread_frame k k'"
    "tlists k' h = []"
    "thread k' = (\<lambda>x. if x \<in> set (tlists k h)
      then (thread k x)\<lparr>t_error := - RT_ERROR, stat := RT_THREAD_READY\<rparr> else thread k x)"
    "\<forall>g. waiting g \<longrightarrow> g \<noteq> h \<longrightarrow> tlists k' g = tlists k g"
proof -
  have "\<exists>k'. rt_ipc_list_resume_all h k = Some k' \<and> kernel_inv b k' \<and> thread_frame k k' \<and>
    tlists k' h = [] \<and>
    thread k' = (\<lambda>x. if x \<in> set (tlists k h)
      then (thread k x)\<lparr>t_error := - RT_ERROR, stat := RT_THREAD_READY\<rparr> else thread k x) \<and>
    (\<forall>g. waiting g \<longrightarrow> g \<noteq> h \<longrightarrow> tlists k' g = tlists k g)"
    using assms
  proof (induction "tlists k h" arbitrary: k)
    case Nil
    then have "rt_ipc_list_resume_all h k = Some k"
      by (subst rt_ipc_list_resume_all.simps) (simp split: list.splits)
    with Nil show ?case by (intro exI [of _ k]) (simp add: fun_eq_iff)
  next
    case (Cons t ts)
    let ?k0 = "upd_thread t (\<lambda>th. th\<lparr>t_error := - RT_ERROR\<rparr>) k"
    have iv0: "kernel_inv b ?k0" using Cons.prems by simp
    have q0: "tlists ?k0 h = t # ts" using Cons.hyps(2) by simp
    obtain k1 where k1: "rt_ipc_list_resume h ?k0 = Some k1" "kernel_inv b k1" "thread_frame ?k0 k1"
      "thread k1 = (thread ?k0)(t := (thread ?k0 t)\<lparr>stat := RT_THREAD_READY\<rparr>)"
      "tlists k1 = lists_insert_last (Ready (unat (current_priority (thread ?k0 t)))) t
        (lists_remove t (tlists ?k0))" "tlists k1 h = ts"
      by (rule list_resume_ok [OF iv0 Cons.prems(2) q0])
    obtain e where e: "rt_thread_resume t ?k0 = Some (e, k1)"
      using k1(1) q0 by (auto simp: rt_ipc_list_resume_def lists_first_def bind_Some_conv split: prod.splits)
    obtain k' where k': "rt_ipc_list_resume_all h k1 = Some k'" "kernel_inv b k'" "thread_frame k1 k'"
      "tlists k' h = []"
      "thread k' = (\<lambda>x. if x \<in> set (tlists k1 h)
        then (thread k1 x)\<lparr>t_error := - RT_ERROR, stat := RT_THREAD_READY\<rparr> else thread k1 x)"
      "\<forall>g. waiting g \<longrightarrow> g \<noteq> h \<longrightarrow> tlists k' g = tlists k1 g"
      using Cons.hyps(1) [OF k1(6) [symmetric] k1(2) Cons.prems(2)] by blast
    have "rt_ipc_list_resume_all h k = Some k'"
      using Cons.hyps(2) [symmetric] e k'(1)
      by (subst rt_ipc_list_resume_all.simps) simp
    moreover have "thread_frame k k'"
      using k1(3) k'(3) thread_frame_trans [of k ?k0 k1] thread_frame_trans [of k k1 k'] by simp
    moreover have "tlists k' g = tlists k g" if "waiting g" "g \<noteq> h" for g
    proof -
      have "t \<notin> set (tlists k g)"
        using linked_once [OF kernel_invD(1) [OF Cons.prems(1)], of t h g] Cons.hyps(2) that
        by (metis list.set_intros(1))
      moreover have "g \<noteq> Ready p" for p using that by auto
      ultimately have "tlists k1 g = tlists k g"
        using k1(5) by (simp add: lists_insert_last_def lists_remove_def removeAll_id)
      then show ?thesis using k'(6) that by simp
    qed
    moreover have "thread k' = (\<lambda>x. if x \<in> set (tlists k h)
        then (thread k x)\<lparr>t_error := - RT_ERROR, stat := RT_THREAD_READY\<rparr> else thread k x)"
    proof
      fix x
      have "distinct (t # ts)"
        using sched_wfD(1) [OF kernel_invD(1) [OF Cons.prems(1)]] Cons.hyps(2)
        unfolding wf_lists_def by metis
      then show "thread k' x = (if x \<in> set (tlists k h)
          then (thread k x)\<lparr>t_error := - RT_ERROR, stat := RT_THREAD_READY\<rparr> else thread k x)"
        using k'(5) k1(4,6) Cons.hyps(2) [symmetric] by auto
    qed
    ultimately show ?case using k'(1,2,4) by blast
  qed
  then show ?thesis using that by blast
qed

text \<open>Updates of other objects do not concern the kernel invariant.\<close>

lemma object_inv [simp]:
  "kernel_inv b (upd_sem s f k) = kernel_inv b k" "kernel_inv b (upd_mutex s g k) = kernel_inv b k"
  "kernel_inv b (upd_event s e k) = kernel_inv b k" "kernel_inv b (upd_mb s m k) = kernel_inv b k"
  "kernel_inv b (upd_mq s q k) = kernel_inv b k" "kernel_inv b (upd_mp s p k) = kernel_inv b k"
  "kernel_inv b (upd_heap hp k) = kernel_inv b k" "kernel_inv b (upd_dq s d k) = kernel_inv b k"
  "kernel_inv b (upd_pipe s i k) = kernel_inv b k" "kernel_inv b (upd_dev s v k) = kernel_inv b k"
  by (rule kernel_inv_cong; simp add: timer_flag_def)+

text \<open>The sorted order of a list of waiting threads by priority.\<close>

definition by_priority :: "kernel \<Rightarrow> addr list \<Rightarrow> bool" where
  "by_priority k ss = sorted (map (\<lambda>s. current_priority (thread k s)) ss)"

lemma queue_in_by_priority:
  "by_priority k ss \<Longrightarrow> by_priority k (queue_in 1 k t ss)"
  by (simp add: by_priority_def queue_in_def prio_insert_sorted)

subsection \<open>Flags of the objects\<close>

text \<open>Calls on threads change the flags of the threads' own timers, and of no other object.\<close>

definition objs_frame :: "kernel \<Rightarrow> kernel \<Rightarrow> bool" where
  "objs_frame k k' = (\<forall>a. objs k' (Obj a) = objs k (Obj a))"

named_theorems objs_frame_intro "calls that keep the objects"

lemma objs_frameD: "objs_frame k k' \<Longrightarrow> objs k' (Obj a) = objs k (Obj a)"
  by (simp add: objs_frame_def)

lemma objs_frame_refl [simp]: "objs_frame k k" by (simp add: objs_frame_def)

lemma objs_frame_trans: "objs_frame a b \<Longrightarrow> objs_frame b c \<Longrightarrow> objs_frame a c"
  by (simp add: objs_frame_def)

lemma objs_frame_eq: "objs k' = objs k \<Longrightarrow> objs_frame k k'" by (simp add: objs_frame_def)

lemma objs_frame_stop [objs_frame_intro]:
  "rt_timer_stop (Thread_timer t) k = Some (e, k') \<Longrightarrow> objs_frame k k'"
  by (auto simp: rt_timer_stop_def objs_frame_def set_timer_flag_def Let_def split: if_splits)

lemma objs_frame_start [objs_frame_intro]:
  "rt_timer_start (Thread_timer t) k = Some (e, k') \<Longrightarrow> objs_frame k k'"
  by (auto simp: rt_timer_start_def objs_frame_def set_timer_flag_def Let_def)

lemma objs_frame_control [objs_frame_intro]:
  "rt_timer_control (Thread_timer t) cmd arg k = Some (e, a, k') \<Longrightarrow> objs_frame k k'"
  by (auto simp: rt_timer_control_def objs_frame_def set_timer_flag_def Let_def split: if_splits)

lemma objs_frame_insert [objs_frame_intro]:
  "rt_schedule_insert_thread t k = Some k' \<Longrightarrow> objs_frame k k'"
  "rt_schedule_remove_thread t k = Some k' \<Longrightarrow> objs_frame k k'"
  "rt_schedule k = Some k' \<Longrightarrow> objs_frame k k'"
  by (auto simp: rt_schedule_insert_thread_def rt_schedule_remove_thread_def rt_schedule_sel
      objs_frame_def Let_def split: if_splits)

lemma objs_frame_upd [simp]:
  "objs_frame k (upd_thread t f k') = objs_frame k k'" "objs_frame (upd_thread t f k) k' = objs_frame k k'"
  "objs_frame k (k'\<lparr>tlists := l\<rparr>) = objs_frame k k'" "objs_frame (k\<lparr>tlists := l\<rparr>) k' = objs_frame k k'"
  by (simp_all add: objs_frame_def)

lemma objs_frame_suspend [objs_frame_intro]:
  "rt_thread_suspend t k = Some (e, k') \<Longrightarrow> objs_frame k k'"
  by (auto simp: rt_thread_suspend_def bind_Some_conv Let_def split: if_splits prod.splits
      dest!: objs_frame_intro intro: objs_frame_trans)

lemma objs_frame_resume [objs_frame_intro]:
  "rt_thread_resume t k = Some (e, k') \<Longrightarrow> objs_frame k k'"
  by (auto simp: rt_thread_resume_def bind_Some_conv Let_def split: if_splits prod.splits
      dest!: objs_frame_intro intro: objs_frame_trans)

lemma objs_frame_thread_control [objs_frame_intro]:
  "rt_thread_control t 2 p k = Some (e, k') \<Longrightarrow> objs_frame k k'"
  by (auto simp: rt_thread_control_def set_priority_def bind_Some_conv Let_def split: if_splits prod.splits
      dest!: objs_frame_intro intro: objs_frame_trans)

lemma objs_frame_list_suspend [objs_frame_intro]:
  "rt_ipc_list_suspend h t flag k = Some k' \<Longrightarrow> objs_frame k k'"
  by (auto simp: rt_ipc_list_suspend_def bind_Some_conv split: if_splits prod.splits
      dest!: objs_frame_intro)

lemma objs_frame_list_resume [objs_frame_intro]:
  "rt_ipc_list_resume h k = Some k' \<Longrightarrow> objs_frame k k'"
  by (auto simp: rt_ipc_list_resume_def bind_Some_conv split: prod.splits dest!: objs_frame_intro)

lemma objs_frame_wait [objs_frame_intro]:
  "ipc_wait h t flag time k = Some k' \<Longrightarrow> objs_frame k k'"
  by (auto simp: ipc_wait_def bind_Some_conv split: if_splits prod.splits
      dest!: objs_frame_intro intro: objs_frame_trans)

lemma objs_frame_wake_one [objs_frame_intro]:
  "ipc_wake_one h k = Some k' \<Longrightarrow> objs_frame k k'"
  by (auto simp: ipc_wake_one_def bind_Some_conv split: if_splits dest!: objs_frame_intro intro: objs_frame_trans)

lemma objs_frame_resume_all [objs_frame_intro]:
  assumes "rt_ipc_list_resume_all h k = Some k'"
  shows "objs_frame k k'"
proof (rule rt_ipc_list_resume_all.raw_induct [OF _ assms])
  fix f h k k'
  assume ih: "\<And>h k k'. f h k = Some k' \<Longrightarrow> objs_frame k k'"
    and "(case tlists k h of [] \<Rightarrow> Some k
      | t # _ \<Rightarrow> do {
          (_, k) \<leftarrow> rt_thread_resume t (upd_thread t (\<lambda>th. th\<lparr>t_error := - RT_ERROR\<rparr>) k);
          f h k
        }) = Some k'"
  then show "objs_frame k k'"
    by (auto simp: bind_Some_conv split: list.splits prod.splits dest!: objs_frame_intro ih
        intro: objs_frame_trans)
qed

subsection \<open>The callers\<close>

text \<open>The two flags that a list of waiting threads may have.\<close>

definition ipc_flag_ok :: "addr \<Rightarrow> kernel \<Rightarrow> bool" where
  "ipc_flag_ok ob k = (obj_flag (objs k (Obj ob)) = 0 \<or> obj_flag (objs k (Obj ob)) = 1)"

lemma ipc_flag_frame: "objs_frame k k' \<Longrightarrow> ipc_flag_ok ob k' = ipc_flag_ok ob k"
  by (simp add: ipc_flag_ok_def objs_frame_def)

text \<open>The state in which a thread makes a blocking call: it is current and ready, no interrupt
  is served, the scheduler is not locked, and another thread, the idle thread, is ready.\<close>

definition in_thread :: "u32 \<Rightarrow> addr \<Rightarrow> addr \<Rightarrow> kernel \<Rightarrow> bool" where
  "in_thread b t r k =
     (kernel_inv b k \<and> current k = Some t \<and> stat (thread k t) = RT_THREAD_READY \<and>
      irq_nest k = 0 \<and> lock_nest k = 0 \<and> stat (thread k r) = RT_THREAD_READY \<and> r \<noteq> t)"

lemma in_threadD:
  assumes "in_thread b t r k"
  shows "kernel_inv b k" "current k = Some t" "stat (thread k t) = RT_THREAD_READY" "irq_nest k = 0"
    "lock_nest k = 0" "stat (thread k r) = RT_THREAD_READY" "r \<noteq> t" "t \<noteq> 0" "current k \<noteq> None"
  using assms kernel_invD(3) [of b k t] live_ready(1) [of "thread k t"] by (auto simp: in_thread_def)

lemma in_thread_context [simp]:
  "in_thread b t r k \<Longrightarrow> RT_DEBUG_IN_THREAD_CONTEXT k = Some ()"
  "in_thread b t r k \<Longrightarrow> RT_DEBUG_NOT_IN_INTERRUPT k = Some ()"
  "in_thread b t r k \<Longrightarrow> rt_thread_self k = Some t"
  by (auto simp: in_thread_def RT_DEBUG_IN_THREAD_CONTEXT_def RT_DEBUG_NOT_IN_INTERRUPT_def
      rt_interrupt_get_nest_def rt_thread_self_def)

text \<open>The wait as the blocking calls make it, the error number of the caller reset before.\<close>

lemma blocking_wait_ok:
  assumes it: "in_thread b t r k" and h: "waiting h" and n: "time \<noteq> 0x7fffffff"
    and flag: "flag = 0 \<or> flag = 1"
    and k0: "k0 = upd_thread t f k" "\<And>th. stat (f th) = stat th"
      "\<And>th. current_priority (f th) = current_priority th" "\<And>th. number_mask (f th) = number_mask th"
      "\<And>th. stack_ok (f th) = stack_ok th"
  obtains k' s where "ipc_wait h t flag time k0 = Some k'" "kernel_inv b k'" "call_frame k k'"
    "thread k' = (thread k)(t := (f (thread k t))\<lparr>stat := RT_THREAD_SUSPEND\<rparr>)"
    "tlists k' = (lists_remove t (tlists k))(h := queue_in flag k t (tlists k h))"
    "current k' = Some s" "highest k' s" "s \<noteq> t"
    "Thread_timer t \<in> set (timer_list k') \<longleftrightarrow> 0 <s time"
    "0 <s time \<longrightarrow> timeout_tick (timer k' (Thread_timer t)) = tick k + time"
proof -
  note it' = in_threadD [OF it]
  have inv0: "kernel_inv b k0"
    using it'(1) k0(2-5) unfolding k0(1)
    by (subst kernel_inv_cong [of _ k]) (auto simp: timer_flag_def)
  have c0: "current k0 = Some t" "stat (thread k0 t) = RT_THREAD_READY" "lock_nest k0 = 0"
    "stat (thread k0 r) = RT_THREAD_READY" "r \<noteq> t"
    using it' k0(2) by (simp_all add: k0(1))
  obtain k' s where k': "ipc_wait h t flag time k0 = Some k'" "kernel_inv b k'" "call_frame k0 k'"
    "thread k' = (thread k0)(t := (thread k0 t)\<lparr>stat := RT_THREAD_SUSPEND\<rparr>)"
    "tlists k' = (lists_remove t (tlists k0))(h := queue_in flag k0 t (tlists k0 h))"
    "current k' = Some s" "highest k' s" "s \<noteq> t"
    "Thread_timer t \<in> set (timer_list k') \<longleftrightarrow> 0 <s time"
    "0 <s time \<longrightarrow> timeout_tick (timer k' (Thread_timer t)) = tick k0 + time"
    by (rule ipc_wait_ok [OF inv0 c0(1,2) h flag n c0(3-5)])
  have "call_frame k k0" unfolding k0(1) by (intro call_frame_thread) simp
  then have "call_frame k k'" using k'(3) call_frame_trans by blast
  note cf = this
  have th: "thread k' = (thread k)(t := (f (thread k t))\<lparr>stat := RT_THREAD_SUSPEND\<rparr>)"
    unfolding k'(4) by (simp add: k0(1) fun_eq_iff)
  have q: "queue_in flag k0 t (tlists k0 h) = queue_in flag k t (tlists k h)"
  proof -
    have "tlists k0 h = tlists k h" by (simp add: k0(1))
    then show ?thesis using k0(3) by (auto intro!: queue_in_cong simp: k0(1))
  qed
  have tl: "tlists k' = (lists_remove t (tlists k))(h := queue_in flag k t (tlists k h))"
    unfolding k'(5) q by (simp add: k0(1))
  have lim: "0 <s time \<longrightarrow> timeout_tick (timer k' (Thread_timer t)) = tick k + time"
    using k'(10) by (simp add: k0(1))
  show ?thesis by (rule that [OF k'(1,2) cf th tl k'(6-9) lim])
qed

text \<open>A call from a thread or an interrupt that finds the scheduler unlocked.\<close>

definition may_call :: "u32 \<Rightarrow> kernel \<Rightarrow> bool" where
  "may_call b k = (kernel_inv b k \<and> current k \<noteq> None \<and> lock_nest k = 0)"

lemma in_thread_may_call: "in_thread b t r k \<Longrightarrow> may_call b k"
  by (simp add: may_call_def in_thread_def)

lemma wake_any_ok:
  assumes "may_call b k" "waiting h"
  obtains k' where "ipc_wake_one h k = Some k'" "may_call b k'" "call_frame k k'" "objs_frame k k'"
    "tlists k' h = tl (tlists k h)"
    "tlists k h \<noteq> [] \<longrightarrow> thread k' (hd (tlists k h)) = (thread k (hd (tlists k h)))\<lparr>stat := RT_THREAD_READY\<rparr>"
proof (cases "tlists k h")
  case Nil
  show ?thesis
    by (rule that [of k]) (use assms(1) Nil wake_one_none [OF Nil] in simp_all)
next
  case (Cons t ts)
  have m: "kernel_inv b k" "current k \<noteq> None" "lock_nest k = 0" using assms(1) by (simp_all add: may_call_def)
  obtain k' s where k': "ipc_wake_one h k = Some k'" "kernel_inv b k'" "call_frame k k'"
    "thread k' = (thread k)(t := (thread k t)\<lparr>stat := RT_THREAD_READY\<rparr>)"
    "tlists k' h = ts" "current k' = Some s"
    using wake_one_ok [OF m(1) assms(2) Cons m(2,3)] by metis
  have "may_call b k'" using k' m(3) call_frameD(2) [OF k'(3)] by (simp add: may_call_def)
  then show ?thesis
    using that [of k'] k' Cons objs_frame_wake_one [OF k'(1)] by simp
qed

end
