(* ===== verification/Scenario.thy ===== *)
theory Scenario
  imports Ipc
begin

text \<open>
  A running system, on which the theorems about the kernel are applied: the state that the
  examples of the other theories start from. Two threads of priority 10 are ready, the first of
  them current, and the idle thread; one thread waits for the object at \<open>0x2000\<close> with a time
  limit, one for room at the object at \<open>0x2500\<close> without, one sleeps, one was initialised and
  never started. The clock is about to wrap around.
\<close>

abbreviation (input) idle_t :: addr where "idle_t \<equiv> 0x1000"
abbreviation (input) main_t :: addr where "main_t \<equiv> 0x1100"
abbreviation (input) peer_t :: addr where "peer_t \<equiv> 0x1200"
abbreviation (input) wait_t :: addr where "wait_t \<equiv> 0x1300"
abbreviation (input) new_t :: addr where "new_t \<equiv> 0x1400"
abbreviation (input) sleep_t :: addr where "sleep_t \<equiv> 0x1500"
abbreviation (input) send_t :: addr where "send_t \<equiv> 0x1600"

definition demo_thread :: "u8 \<Rightarrow> thread_stat \<Rightarrow> rt_thread" where
  "demo_thread p s =
     \<lparr>sp = 0x20000100, t_entry = 0x8001, t_parameter = 0, stack_addr = 0x20000000, stack_size = 512,
      t_error = 0, stat = s, current_priority = p, init_priority = p,
      number_mask = push_bit (unat p) 1, event_set = 0, event_info = 0, t_init_tick = 5,
      remaining_tick = 5, cleanup = None, user_data = 0\<rparr>"

definition demo_threads :: "addr \<Rightarrow> rt_thread" where
  "demo_threads = (\<lambda>_. demo_thread 0 RT_THREAD_INIT)
     (idle_t := demo_thread 31 RT_THREAD_READY, main_t := demo_thread 10 RT_THREAD_READY,
      peer_t := demo_thread 10 RT_THREAD_READY, wait_t := demo_thread 5 RT_THREAD_SUSPEND,
      new_t := demo_thread 20 RT_THREAD_INIT, sleep_t := demo_thread 7 RT_THREAD_SUSPEND,
      send_t := demo_thread 12 RT_THREAD_SUSPEND)"

definition demo_lists :: "(qhead, addr) lists" where
  "demo_lists = (\<lambda>_. [])
     (Ready 10 := [main_t, peer_t], Ready 31 := [idle_t], Suspend_list 0x2000 := [wait_t],
      Sender_list 0x2500 := [send_t])"

definition demo_timers :: "oref \<Rightarrow> rt_timer" where
  "demo_timers r =
     (case r of
        Thread_timer t \<Rightarrow> \<lparr>timeout_func = Fn_thread_timeout, parameter = t, init_tick = 10,
          timeout_tick = (if t = wait_t then 3 else 1)\<rparr>
      | Obj a \<Rightarrow> \<lparr>timeout_func = Fn_user 0, parameter = a, init_tick = 3, timeout_tick = 0\<rparr>)"

definition demo_objs :: "oref \<Rightarrow> rt_object" where
  "demo_objs r =
     \<lparr>obj_name = rt_strncpy (cstr_of ''obj'') 8, obj_type = 0x81,
      obj_flag = (if r = Thread_timer wait_t \<or> r = Thread_timer sleep_t then 1 else 0)\<rparr>"

definition demo :: kernel where
  "demo =
     \<lparr>objs = demo_objs, containers = (\<lambda>_. [])(RT_Object_Class_Semaphore := [Obj 0x2000]),
      thread = demo_threads, timer = demo_timers, tlists = demo_lists,
      timer_list = [Thread_timer sleep_t, Thread_timer wait_t], random_nr = 0, lock_nest = 0,
      current = Some main_t, current_prio = 10, ready_group = 0x80000400, tick = 0xfffffffe,
      irq_nest = 0, errno = 0, heap_of = demo_heap, sem = (\<lambda>_. \<lparr>sem_value = 0\<rparr>),
      mutex = (\<lambda>_. \<lparr>mtx_value = 1, original_priority = 0xff, hold = 0, owner = None\<rparr>),
      event = (\<lambda>_. \<lparr>ev_set = 0\<rparr>),
      mailbox = (\<lambda>_. \<lparr>msg_pool = 0x20020000, mb_size = 4, mb_entry = 0, in_offset = 0, out_offset = 0\<rparr>),
      mqueue = (\<lambda>_. \<lparr>mq_pool = 0x20030000, msg_size = 4, max_msgs = 0, mq_entry = 0,
        msg_queue_head = None, msg_queue_tail = None, msg_queue_free = None, mq_next = (\<lambda>_. None)\<rparr>),
      mempool = (\<lambda>_. \<lparr>start_address = 0x20040000, mp_size = 0, block_size = 4, block_list = None,
        block_total_count = 0, block_free_count = 0, suspend_thread_count = 0\<rparr>),
      mp_links = (\<lambda>_. Free_block None),
      device = (\<lambda>_. \<lparr>dev_flag = 3, open_flag = 0, ref_count = 0, rx_indicate = None,
        tx_complete = None, dev_init = None, dev_open = None, dev_close = None, dev_read = None,
        dev_write = None, dev_control = None\<rparr>),
      completed = (\<lambda>_. False),
      data_queue = (\<lambda>_. \<lparr>dq_size = 4, lwm = 1, waiting_lwm = False, get_index = 0, put_index = 0,
        dq_items = Some 0x20050000, dq_item = (\<lambda>_. (0, 0)), evt_notify = None\<rparr>),
      pipe = (\<lambda>_. \<lparr>ringbuffer = \<lparr>buffer_ptr = 0x20060000, read_mirror = False, read_index = 0,
        write_mirror = False, write_index = 0, buffer_size = 8\<rparr>, pipe_flag = 0\<rparr>)\<rparr>"

text \<open>Its parts, one by one.\<close>

lemma demo_sel [simp]:
  "objs demo = demo_objs" "thread demo = demo_threads" "timer demo = demo_timers"
  "tlists demo = demo_lists" "timer_list demo = [Thread_timer sleep_t, Thread_timer wait_t]"
  "lock_nest demo = 0" "current demo = Some main_t" "ready_group demo = 0x80000400"
  "tick demo = 0xfffffffe" "irq_nest demo = 0" "heap_of demo = demo_heap"
  "containers demo = (\<lambda>_. [])(RT_Object_Class_Semaphore := [Obj 0x2000])"
  "sem demo s = \<lparr>sem_value = 0\<rparr>"
  "mutex demo s = \<lparr>mtx_value = 1, original_priority = 0xff, hold = 0, owner = None\<rparr>"
  "event demo s = \<lparr>ev_set = 0\<rparr>"
  by (simp_all add: demo_def)

lemma demo_stat [simp]:
  "stat (demo_thread p s) = s" "current_priority (demo_thread p s) = p"
  "init_priority (demo_thread p s) = p" "cleanup (demo_thread p s) = None"
  "prio_ok (demo_thread p s) = (unat p < 32)" "stack_ok (demo_thread p s)"
  "live (demo_thread p s) = (s = RT_THREAD_READY \<or> s = RT_THREAD_SUSPEND)"
  by (simp_all add: demo_thread_def prio_ok_def stack_ok_def live_def)

lemma demo_flag [simp]: "obj_flag (demo_objs (Obj a)) = 0"
  by (simp add: demo_objs_def)

lemma demo_wf_lists: "wf_lists demo_lists"
  by (auto simp: wf_lists_def demo_lists_def split: if_splits)

lemma demo_ready_group:
  assumes "p < 32"
  shows "bit (0x80000400 :: u32) p \<longleftrightarrow> p = 10 \<or> p = 31"
proof -
  have b: "bit (push_bit n (1::u32)) p = (p = n)" if "n < 32" for n
    using that assms by (auto simp: bit_simps)
  have w: "(0x80000400 :: u32) = push_bit 10 1 OR push_bit 31 1" by simp
  show ?thesis unfolding w by (simp only: bit_or_iff) (simp only: b)
qed

lemma demo_sched_wf: "sched_wf demo"
  unfolding sched_wf_def
proof (intro conjI allI impI)
  show "wf_lists (tlists demo)" by (simp add: demo_wf_lists)
next
  fix h t assume "t \<in> set (tlists demo h)"
  then show "t \<noteq> 0" "stat_fits (thread demo t) h"
    by (auto simp: demo_lists_def demo_threads_def stat_fits_def split: if_splits)
next
  fix t assume "stat (thread demo t) = RT_THREAD_READY"
  then show "t \<in> set (tlists demo (Ready (unat (current_priority (thread demo t)))))"
    by (auto simp: demo_lists_def demo_threads_def split: if_splits)
next
  fix t assume "live (thread demo t)"
  then show "prio_ok (thread demo t)" by (auto simp: demo_threads_def split: if_splits)
next
  fix p :: nat assume "p < 32"
  then show "bit (ready_group demo) p \<longleftrightarrow> tlists demo (Ready p) \<noteq> []"
    using demo_ready_group [of p] by (auto simp: demo_lists_def)
qed

lemma demo_timers_ok: "timers_ok 0xfffffffe demo"
  by (simp add: timers_ok_def timers_sorted_def ahead_def timer_flag_def demo_timers_def demo_objs_def)

lemma demo_inv: "kernel_inv 0xfffffffe demo"
proof -
  have "t \<noteq> 0 \<and> own_timer demo t \<and> stack_ok (thread demo t)" if "live (thread demo t)" for t
    using that by (auto simp: demo_threads_def own_timer_def timer_flag_def demo_timers_def
        demo_objs_def split: if_splits)
  moreover have "stat (thread demo t) = RT_THREAD_SUSPEND"
    if "Thread_timer t \<in> set (timer_list demo)" for t
    using that by (auto simp: demo_threads_def)
  ultimately show ?thesis by (simp add: kernel_inv_def demo_sched_wf demo_timers_ok)
qed

lemma demo_threads_sel [simp]:
  "demo_threads idle_t = demo_thread 31 RT_THREAD_READY"
  "demo_threads main_t = demo_thread 10 RT_THREAD_READY"
  "demo_threads peer_t = demo_thread 10 RT_THREAD_READY"
  "demo_threads wait_t = demo_thread 5 RT_THREAD_SUSPEND"
  "demo_threads new_t = demo_thread 20 RT_THREAD_INIT"
  "demo_threads sleep_t = demo_thread 7 RT_THREAD_SUSPEND"
  "demo_threads send_t = demo_thread 12 RT_THREAD_SUSPEND"
  by (simp_all add: demo_threads_def)

lemma demo_lists_sel [simp]:
  "demo_lists (Ready p) = (if p = 10 then [main_t, peer_t] else if p = 31 then [idle_t] else [])"
  "demo_lists (Suspend_list s) = (if s = 0x2000 then [wait_t] else [])"
  "demo_lists (Sender_list s) = (if s = 0x2500 then [send_t] else [])"
  "demo_lists Defunct = []"
  by (simp_all add: demo_lists_def)

text \<open>The main thread may make blocking calls, whatever the objects are.\<close>

lemma demo_in_thread: "in_thread 0xfffffffe main_t idle_t demo"
  by (simp add: in_thread_def demo_inv)

lemma in_thread_objects [simp]:
  "in_thread b t r (upd_sem s f k) = in_thread b t r k"
  "in_thread b t r (upd_mutex s g k) = in_thread b t r k"
  "in_thread b t r (upd_event s e k) = in_thread b t r k"
  "in_thread b t r (upd_mb s m k) = in_thread b t r k"
  "in_thread b t r (upd_mq s q k) = in_thread b t r k"
  "in_thread b t r (upd_mp s p k) = in_thread b t r k"
  "in_thread b t r (upd_heap hp k) = in_thread b t r k"
  "in_thread b t r (upd_dq s d k) = in_thread b t r k"
  "in_thread b t r (upd_pipe s i k) = in_thread b t r k"
  by (simp_all add: in_thread_def)

end
