(* ===== verification/ThreadSpec.thy ===== *)
theory ThreadSpec
  imports Scenario
begin

text \<open>
  What the scheduler, the threads and the timers promise, each promise applied to the example
  system: \<open>src/scheduler.c\<close>, \<open>src/thread.c\<close>, \<open>src/timer.c\<close> and \<open>src/object.c\<close>.
\<close>

subsection \<open>Scheduling\<close>

text \<open>C8. With the scheduler unlocked and any thread ready, \<open>rt_schedule\<close> returns, makes the first
  thread of the highest ready priority current, and changes nothing else: no ready thread has a
  higher priority than the one that runs.\<close>

theorem rt_schedule_highest:
  assumes "kernel_inv b k" "stat (thread k r) = RT_THREAD_READY" "current k \<noteq> None" "lock_nest k = 0"
  shows "\<exists>k' s. rt_schedule k = Some k' \<and> kernel_inv b k' \<and> current k' = Some s \<and> highest k' s \<and>
    stat (thread k' s) = RT_THREAD_READY \<and>
    (\<forall>x. stat (thread k' x) = RT_THREAD_READY \<longrightarrow>
       current_priority (thread k' s) \<le> current_priority (thread k' x)) \<and>
    k' = k\<lparr>current := Some s, current_prio := current_prio k'\<rparr>"
proof -
  obtain k' s where k': "rt_schedule k = Some k'" "kernel_inv b k'" "current k' = Some s"
    "highest k' s" "stat (thread k' s) = RT_THREAD_READY" "highest k s"
    by (rule schedule_switches [OF assms])
  have "k' = k\<lparr>current := Some s, current_prio := current_prio k'\<rparr>"
    using rt_schedule_frame [OF k'(1)] k'(3) by metis
  then show ?thesis using k' highest_least [OF kernel_invD(1) [OF k'(2)] k'(4)] by blast
qed

lemma rt_schedule_highest_witness:
  "\<exists>k' s. rt_schedule demo = Some k' \<and> kernel_inv 0xfffffffe k' \<and> current k' = Some s \<and>
    (\<forall>x. stat (thread k' x) = RT_THREAD_READY \<longrightarrow>
       current_priority (thread k' s) \<le> current_priority (thread k' x))"
  using rt_schedule_highest [OF demo_inv, of main_t] by (simp, blast)

text \<open>Suspending a ready thread takes it out of every list and resuming it puts it back behind
  the ready threads of its priority, with nothing about the thread changed; its timer is stopped
  and the invariant holds all along.\<close>

theorem suspend_resume:
  assumes "kernel_inv b k" "stat (thread k t) = RT_THREAD_READY"
  shows "\<exists>k1 k2. rt_thread_suspend t k = Some (RT_EOK, k1) \<and> kernel_inv b k1 \<and>
    stat (thread k1 t) = RT_THREAD_SUSPEND \<and> unlinked t (tlists k1) \<and>
    Thread_timer t \<notin> set (timer_list k1) \<and>
    rt_thread_resume t k1 = Some (RT_EOK, k2) \<and> kernel_inv b k2 \<and> thread k2 = thread k \<and>
    tlists k2 = lists_insert_last (Ready (unat (current_priority (thread k t)))) t
      (lists_remove t (tlists k)) \<and> thread_frame k k2"
proof -
  obtain k1 where k1: "rt_thread_suspend t k = Some (0, k1)" "kernel_inv b k1" "thread_frame k k1"
    "thread k1 = (thread k)(t := (thread k t)\<lparr>stat := RT_THREAD_SUSPEND\<rparr>)"
    "tlists k1 = lists_remove t (tlists k)" "timer_list k1 = removeAll (Thread_timer t) (timer_list k)"
    using suspend_ok [OF assms] by metis
  have st: "stat (thread k1 t) = RT_THREAD_SUSPEND" using k1(4) by simp
  obtain k2 where k2: "rt_thread_resume t k1 = Some (0, k2)" "kernel_inv b k2" "thread_frame k1 k2"
    "thread k2 = (thread k1)(t := (thread k1 t)\<lparr>stat := RT_THREAD_READY\<rparr>)"
    "tlists k2 = lists_insert_last (Ready (unat (current_priority (thread k1 t)))) t
      (lists_remove t (tlists k1))"
    using resume_ok [OF k1(2) st] by metis
  have "(thread k t)\<lparr>stat := RT_THREAD_READY\<rparr> = thread k t" using assms(2) by (cases "thread k t") simp
  then have "thread k2 = thread k" using k2(4) k1(4) by simp
  moreover have "lists_remove t (lists_remove t (tlists k)) = lists_remove t (tlists k)"
    by (simp add: lists_remove_def)
  moreover have "unlinked t (tlists k1)" using k1(5) by (simp add: unlinked_remove)
  ultimately show ?thesis
    using k1 k2 st thread_frame_trans [OF k1(3) k2(3)] by simp
qed

lemma suspend_resume_witness:
  "\<exists>k1 k2. rt_thread_suspend main_t demo = Some (RT_EOK, k1) \<and>
    rt_thread_resume main_t k1 = Some (RT_EOK, k2) \<and>
    thread k2 = thread demo \<and> tlists k2 (Ready 10) = [peer_t, main_t]"
  using suspend_resume [OF demo_inv, of main_t]
  by (auto simp: lists_insert_last_def lists_remove_def)

text \<open>Only a ready thread can be suspended and only a suspended one resumed; otherwise the call
  returns \<open>-RT_ERROR\<close> and changes nothing.\<close>

theorem suspend_resume_refused:
  assumes "t \<noteq> 0"
  shows "(stat (thread k t) \<noteq> RT_THREAD_READY \<longrightarrow> rt_thread_suspend t k = Some (- RT_ERROR, k)) \<and>
    (stat (thread k t) \<noteq> RT_THREAD_SUSPEND \<longrightarrow> rt_thread_resume t k = Some (- RT_ERROR, k))"
  using suspend_fails [OF assms] resume_fails [OF assms] by blast

lemma suspend_resume_refused_witness:
  "rt_thread_suspend wait_t demo = Some (- RT_ERROR, demo) \<and>
    rt_thread_resume main_t demo = Some (- RT_ERROR, demo)"
  using suspend_resume_refused [of wait_t demo] suspend_resume_refused [of main_t demo] by simp

text \<open>A thread that yields goes behind the other ready threads of its priority, so that they
  run in turn; no other list, no thread and no timer changes, and the first thread of the
  highest ready priority runs.\<close>

theorem rt_thread_yield_rotates:
  assumes "kernel_inv b k" "current k = Some t" "stat (thread k t) = RT_THREAD_READY"
  defines "q \<equiv> Ready (unat (current_priority (thread k t)))"
  shows "\<exists>k'. rt_thread_yield k = Some (RT_EOK, k') \<and> kernel_inv b k' \<and> thread k' = thread k \<and>
    timer_list k' = timer_list k \<and> tlists k' = (tlists k)(q := removeAll t (tlists k q) @ [t]) \<and>
    (lock_nest k = 0 \<longrightarrow> 1 < length (tlists k q) \<longrightarrow> (\<exists>s. current k' = Some s \<and> highest k' s))"
proof -
  obtain k' where "rt_thread_yield k = Some (0, k')" "kernel_inv b k'" "thread k' = thread k"
    "timer_list k' = timer_list k"
    "let q = Ready (unat (current_priority (thread k t))) in
       tlists k' = (tlists k)(q := removeAll t (tlists k q) @ [t])"
    "lock_nest k = 0 \<Longrightarrow> 1 < length (tlists k (Ready (unat (current_priority (thread k t))))) \<Longrightarrow>
       \<exists>s. current k' = Some s \<and> highest k' s"
    using yield_ok [OF assms(1-3)] by metis
  then show ?thesis unfolding q_def by (simp add: Let_def)
qed

lemma rt_thread_yield_rotates_witness:
  "\<exists>k' s. rt_thread_yield demo = Some (RT_EOK, k') \<and> tlists k' (Ready 10) = [peer_t, main_t] \<and>
    current k' = Some s \<and> highest k' s"
  using rt_thread_yield_rotates [OF demo_inv, of main_t] by (simp, fastforce)

text \<open>A thread that sleeps is suspended, linked in no list, with its timer set to run out exactly
  \<open>ticks\<close> later, modulo the wrap-around of the clock; another thread runs.\<close>

theorem rt_thread_sleep_sets_timer:
  assumes "in_thread b t r k" "ticks < RT_TICK_HALF"
  shows "\<exists>k' s. rt_thread_sleep ticks k = Some (Blocked t, k') \<and> kernel_inv b k' \<and>
    current k' = Some s \<and> s \<noteq> t \<and> highest k' s \<and> stat (thread k' t) = RT_THREAD_SUSPEND \<and>
    unlinked t (tlists k') \<and> Thread_timer t \<in> set (timer_list k') \<and>
    timeout_tick (timer k' (Thread_timer t)) = tick k + ticks"
  using sleep_ok [OF in_threadD(1,2,3) [OF assms(1)] assms(2) in_threadD(5,6,7) [OF assms(1)]] by metis

lemma rt_thread_sleep_sets_timer_witness:
  "\<exists>k' s. rt_thread_sleep 5 demo = Some (Blocked main_t, k') \<and> current k' = Some s \<and> s \<noteq> main_t \<and>
    timeout_tick (timer k' (Thread_timer main_t)) = 3"
  using rt_thread_sleep_sets_timer [OF demo_in_thread, of 5] by auto

text \<open>When the timer of a suspended thread has run out, \<open>rt_thread_timeout\<close> makes the thread ready
  with the error number \<open>-RT_ETIMEOUT\<close>, takes it out of the list it waits in, and the first
  thread of the highest ready priority runs.\<close>

theorem rt_thread_timeout_wakes:
  assumes "kernel_inv b k" "stat (thread k t) = RT_THREAD_SUSPEND"
    and "Thread_timer t \<notin> set (timer_list k)" "current k \<noteq> None" "lock_nest k = 0"
  shows "\<exists>k' s. rt_thread_timeout t k = Some k' \<and> kernel_inv b k' \<and>
    thread k' = (thread k)(t := (thread k t)\<lparr>t_error := - RT_ETIMEOUT, stat := RT_THREAD_READY\<rparr>) \<and>
    tlists k' = lists_insert_last (Ready (unat (current_priority (thread k t)))) t
      (lists_remove t (tlists k)) \<and> current k' = Some s \<and> highest k' s"
  using timeout_ok [OF assms(1-4)] assms(5) by metis

lemma rt_thread_timeout_wakes_witness:
  "\<exists>k'. rt_thread_timeout send_t demo = Some k' \<and> tlists k' (Sender_list 0x2500) = [] \<and>
    tlists k' (Ready 12) = [send_t] \<and> t_error (thread k' send_t) = - RT_ETIMEOUT"
  using rt_thread_timeout_wakes [OF demo_inv, of send_t]
  by (auto simp: lists_insert_last_def lists_remove_def)

subsection \<open>Life of a thread\<close>

text \<open>A thread initialised with a valid priority and a stack of at least 76 bytes and then started
  is ready at its priority, behind those that already are, with a stack pointer inside its stack;
  the invariant holds after each of the two calls.\<close>

theorem thread_init_startup:
  assumes "kernel_inv b k" "t \<noteq> 0" "unlinked t (tlists k)"
    and "Thread_timer t \<notin> set (timer_list k)" "Obj t \<notin> set (timer_list k)"
    and "unat priority < RT_THREAD_PRIORITY_MAX" "start \<noteq> 0"
    and "76 \<le> unat (ucast ssize :: u16)" "unat start + unat (ucast ssize :: u16) < 2 ^ 32"
  shows "\<exists>k1 k2. rt_thread_init texit t name entry param start ssize priority ticks k = Some (RT_EOK, k1) \<and>
    kernel_inv b k1 \<and> rt_thread_startup t k1 = Some (RT_EOK, k2) \<and> kernel_inv b k2 \<and>
    stat (thread k2 t) = RT_THREAD_READY \<and> stack_ok (thread k2 t) \<and>
    current_priority (thread k2 t) = priority \<and>
    tlists k2 = lists_insert_last (Ready (unat priority)) t (tlists k)"
proof -
  obtain k1 k' where k: "rt_thread_init texit t name entry param start ssize priority ticks k = Some (0, k1)"
    "kernel_inv b k1" "rt_thread_startup t k1 = Some (0, k')" "kernel_inv b k'"
    "stat (thread k' t) = RT_THREAD_READY" "current_priority (thread k' t) = priority"
    "tlists k' = lists_insert_last (Ready (unat priority)) t (tlists k)"
    using init_startup_ok [OF assms] by metis
  then show ?thesis using kernel_invD(5) [OF k(4), of t] live_ready(1) [OF k(5)] by blast
qed

lemma thread_init_startup_witness:
  "\<exists>k1 k2. rt_thread_init 0x8101 0x1700 (cstr_of ''work'') 0x8201 7 0x20001000 1024 3 10 demo
      = Some (RT_EOK, k1) \<and>
    rt_thread_startup 0x1700 k1 = Some (RT_EOK, k2) \<and> kernel_inv 0xfffffffe k2 \<and>
    tlists k2 (Ready 3) = [0x1700]"
proof -
  have "unlinked 0x1700 (tlists demo)" by (auto simp: unlinked_def demo_lists_def)
  then show ?thesis
    using thread_init_startup [OF demo_inv, where t = "0x1700" and priority = 3 and start = "0x20001000"
        and ssize = 1024 and texit = "0x8101" and name = "cstr_of ''work''" and entry = "0x8201"
        and param = 7 and ticks = 10]
    by (auto simp: lists_insert_last_def)
qed

text \<open>A thread that exits is closed and linked in no ready or waiting list; unless it is static
  and has no clean-up function it is left to the idle thread on the list of defunct threads.
  Its timer is stopped and another thread, the first of the highest ready priority, runs.\<close>

theorem rt_thread_exit_closes:
  assumes "in_thread b t r k"
  defines "gone \<equiv> obj_type (objs k (Obj t)) AND RT_Object_Class_Static \<noteq> 0 \<and> cleanup (thread k t) = None"
  shows "\<exists>k' s. rt_thread_exit k = Some k' \<and> kernel_inv b k' \<and> stat (thread k' t) = RT_THREAD_CLOSE \<and>
    tlists k' = (if gone then lists_remove t (tlists k)
      else lists_insert_first Defunct t (lists_remove t (tlists k))) \<and>
    containers k' = (if gone then lists_remove (Obj t) else id)
      (lists_remove (Thread_timer t) (containers k)) \<and>
    Thread_timer t \<notin> set (timer_list k') \<and> current k' = Some s \<and> highest k' s \<and> s \<noteq> t"
proof -
  note it = in_threadD [OF assms(1)]
  obtain k' s where k': "rt_thread_exit k = Some k'" "kernel_inv b k'"
    "thread k' = (thread k)(t := (thread k t)\<lparr>stat := RT_THREAD_CLOSE\<rparr>)"
    "tlists k' = (if gone then lists_remove t (tlists k)
      else lists_insert_first Defunct t (lists_remove t (tlists k)))"
    "containers k' = (if gone then lists_remove (Obj t) else id)
       (lists_remove (Thread_timer t) (containers k))"
    "Thread_timer t \<notin> set (timer_list k')" "current k' = Some s" "highest k' s" "s \<noteq> t"
    unfolding gone_def by (rule exit_ok [OF it(1-3,6,7,5)])
  then show ?thesis by auto
qed

lemma rt_thread_exit_closes_witness:
  "\<exists>k' s. rt_thread_exit demo = Some k' \<and> stat (thread k' main_t) = RT_THREAD_CLOSE \<and>
    tlists k' (Ready 10) = [peer_t] \<and> tlists k' Defunct = [] \<and> current k' = Some s \<and> s \<noteq> main_t"
proof -
  have "obj_type (objs demo (Obj main_t)) AND RT_Object_Class_Static \<noteq> 0 \<and>
      cleanup (thread demo main_t) = None"
    by (simp add: demo_objs_def)
  with rt_thread_exit_closes [OF demo_in_thread] show ?thesis
    by (auto simp: lists_remove_def)
qed

text \<open>Deleting a thread that is ready or waits, at any time, closes it and puts it on the list of
  defunct threads only; its timer can no longer fire, and every other thread stays as it was.\<close>

theorem rt_thread_delete_closes:
  assumes "kernel_inv b k" "stat (thread k t) = RT_THREAD_READY \<or> stat (thread k t) = RT_THREAD_SUSPEND"
  shows "\<exists>k'. rt_thread_delete t k = Some (RT_EOK, k') \<and> kernel_inv b k' \<and>
    thread k' = (thread k)(t := (thread k t)\<lparr>stat := RT_THREAD_CLOSE\<rparr>) \<and>
    tlists k' = lists_insert_first Defunct t (lists_remove t (tlists k)) \<and>
    Thread_timer t \<notin> set (timer_list k') \<and> current k' = current k"
proof -
  have "live (thread k t)" using assms(2) by (simp add: live_def)
  then show ?thesis using delete_ok [OF assms(1)] by metis
qed

lemma rt_thread_delete_closes_witness:
  "\<exists>k'. rt_thread_delete wait_t demo = Some (RT_EOK, k') \<and> kernel_inv 0xfffffffe k' \<and>
    tlists k' Defunct = [wait_t] \<and> tlists k' (Suspend_list 0x2000) = [] \<and>
    Thread_timer wait_t \<notin> set (timer_list k')"
  using rt_thread_delete_closes [OF demo_inv, of wait_t]
  by (auto simp: lists_insert_first_def lists_remove_def)

text \<open>Changing the priority of a ready thread moves it behind the threads of its new priority and
  keeps the bit map of ready priorities exact; a thread that waits keeps its place in its list,
  whatever the order of that list is.\<close>

theorem rt_thread_control_priority:
  assumes "kernel_inv b k" "unat p < RT_THREAD_PRIORITY_MAX"
    and "stat (thread k t) = RT_THREAD_READY \<or> stat (thread k t) = RT_THREAD_SUSPEND"
  shows "\<exists>k'. rt_thread_control t 2 p k = Some (RT_EOK, k') \<and> kernel_inv b k' \<and> thread_frame k k' \<and>
    thread k' = (thread k)(t := with_prio p (thread k t)) \<and>
    tlists k' = (if stat (thread k t) = RT_THREAD_READY
      then lists_insert_last (Ready (unat p)) t (lists_remove t (tlists k)) else tlists k)"
proof (cases "stat (thread k t) = RT_THREAD_READY")
  case True
  then show ?thesis using control_ready_ok [OF assms(1) True assms(2)] by (metis (full_types))
next
  case False
  then have "stat (thread k t) = RT_THREAD_SUSPEND" using assms(3) by simp
  then show ?thesis using control_suspended_ok [OF assms(1) _ assms(2), of t] by (intro exI) auto
qed

lemma rt_thread_control_priority_witness:
  "\<exists>k'. rt_thread_control main_t 2 3 demo = Some (RT_EOK, k') \<and> kernel_inv 0xfffffffe k' \<and>
    tlists k' (Ready 3) = [main_t] \<and> tlists k' (Ready 10) = [peer_t]"
  using rt_thread_control_priority [OF demo_inv, of 3 main_t]
  by (auto simp: lists_insert_last_def lists_remove_def)

subsection \<open>Timers\<close>

text \<open>C14. Starting a timer with less than half the range of ticks to go sets it to run out that many
  ticks from now and puts it in order: behind the timers that run out no later, before those that
  run out later, also across the wrap-around of the clock. Other timers are not touched.\<close>

theorem rt_timer_start_in_order:
  assumes "timers_ok b k" "nonnull r" "init_tick (timer k r) < RT_TICK_HALF"
  shows "\<exists>k' xs ys. rt_timer_start r k = Some (RT_EOK, k') \<and> timers_ok b k' \<and> timer_frame k k' \<and>
    timer k' = (timer k)(r := (timer k r)\<lparr>timeout_tick := tick k + init_tick (timer k r)\<rparr>) \<and>
    removeAll r (timer_list k) = xs @ ys \<and> timer_list k' = xs @ r # ys \<and>
    (\<forall>x \<in> set xs. ahead b k' x \<le> ahead b k' r) \<and> (\<forall>y \<in> set ys. ahead b k' r < ahead b k' y) \<and>
    ahead b k' r = unat (tick k - b) + unat (init_tick (timer k r))"
proof -
  obtain k' where k': "rt_timer_start r k = Some (0, k')" "timers_ok b k'" "timer_frame k k'"
    "timer k' = (timer k)(r := (timer k r)\<lparr>timeout_tick := tick k + init_tick (timer k r)\<rparr>)"
    "timer_list k' = takeWhile (\<lambda>x. ahead b k' x \<le> ahead b k' r) (removeAll r (timer_list k)) @
      r # dropWhile (\<lambda>x. ahead b k' x \<le> ahead b k' r) (removeAll r (timer_list k))"
    "ahead b k' r = unat (tick k - b) + unat (init_tick (timer k r))"
    by (rule rt_timer_start_ok [OF assms])
  let ?P = "\<lambda>x. ahead b k' x \<le> ahead b k' r" and ?l = "removeAll r (timer_list k)"

  have "ahead b k' r < ahead b k' y" if y: "y \<in> set (dropWhile ?P ?l)" for y
  proof -
    have "sorted (map (ahead b k) ?l)"
      using assms(1) timers_sorted_remove by (simp add: timers_ok_def)
    moreover have "map (ahead b k') ?l = map (ahead b k) ?l"
      by (rule map_cong) (simp_all add: ahead_def k'(4))
    ultimately have "sorted (map (ahead b k') ?l)" by metis
    then show ?thesis using sorted_insert_point [of "ahead b k'" ?l "ahead b k' r"] y by blast
  qed
  moreover have "ahead b k' x \<le> ahead b k' r" if "x \<in> set (takeWhile ?P ?l)" for x
    using set_takeWhileD [OF that] by simp
  moreover have "?l = takeWhile ?P ?l @ dropWhile ?P ?l" by simp
  ultimately show ?thesis using k' by blast
qed

lemma rt_timer_start_in_order_witness:
  "\<exists>k' xs ys. rt_timer_start (Obj 0x3000) demo = Some (RT_EOK, k') \<and>
    timeout_tick (timer k' (Obj 0x3000)) = 1 \<and>
    [Thread_timer sleep_t, Thread_timer wait_t] = xs @ ys \<and> timer_list k' = xs @ Obj 0x3000 # ys"
proof -
  have "init_tick (timer demo (Obj 0x3000)) = 3" by (simp add: demo_timers_def)
  with rt_timer_start_in_order [OF demo_timers_ok, of "Obj 0x3000"] show ?thesis
    by (simp, elim exE conjE, intro exI conjI) (assumption | simp)+
qed

text \<open>Stopping a timer takes it out of the list, whether it was running or not; it reports
  \<open>-RT_ERROR\<close> exactly when it was not, and in no case touches another timer.\<close>

theorem rt_timer_stop_removes:
  assumes "timers_ok b k" "nonnull r" "bit (timer_flag r k) 0 = (r \<in> set (timer_list k))"
  shows "\<exists>k'. rt_timer_stop r k = Some (if r \<in> set (timer_list k) then RT_EOK else - RT_ERROR, k') \<and>
    timers_ok b k' \<and> timer_frame k k' \<and> timer_list k' = removeAll r (timer_list k) \<and>
    timer k' = timer k \<and> (\<forall>x. x \<noteq> r \<longrightarrow> objs k' x = objs k x) \<and> \<not> bit (timer_flag r k') 0"
proof -
  obtain e k' where k': "rt_timer_stop r k = Some (e, k')" "timers_ok b k'" "timer_frame k k'"
    "timer_list k' = removeAll r (timer_list k)" "timer k' = timer k"
    "\<forall>x. x \<noteq> r \<longrightarrow> objs k' x = objs k x" "\<not> bit (timer_flag r k') 0"
    using rt_timer_stop_ok [OF assms(1,2)] by metis
  moreover have "e = (if r \<in> set (timer_list k) then 0 else - 1)"
    using k'(1) assms(2,3) by (auto simp: rt_timer_stop_def flag_bits Let_def split: if_splits)
  ultimately show ?thesis by blast
qed

lemma rt_timer_stop_removes_witness:
  "(\<exists>k'. rt_timer_stop (Thread_timer wait_t) demo = Some (RT_EOK, k') \<and>
     timer_list k' = [Thread_timer sleep_t]) \<and>
   (\<exists>k'. rt_timer_stop (Obj 0x3000) demo = Some (- RT_ERROR, k') \<and>
     timer_list k' = timer_list demo)"
  using rt_timer_stop_removes [OF demo_timers_ok, of "Thread_timer wait_t"]
    rt_timer_stop_removes [OF demo_timers_ok, of "Obj 0x3000"]
  by (auto simp: timer_flag_def demo_objs_def)

subsection \<open>Critical sections and names\<close>

text \<open>Between \<open>rt_enter_critical\<close> and the matching \<open>rt_exit_critical\<close> no call of
  \<open>rt_schedule\<close> switches threads; the outermost exit does what \<open>rt_schedule\<close> does, an inner one nothing.\<close>

theorem critical_section:
  assumes "0 \<le>s lock_nest k" "lock_nest k <s 0x7fff"
  shows "rt_schedule (rt_enter_critical k) = Some (rt_enter_critical k) \<and>
    rt_exit_critical (rt_enter_critical k) = (if lock_nest k = 0 then rt_schedule k else Some k)"
proof -
  have "lock_nest k + 1 \<noteq> 0"
  proof
    assume "lock_nest k + 1 = 0"
    then have "lock_nest k = - 1" by (simp add: eq_neg_iff_add_eq_0)
    then show False using assms(1) by simp
  qed
  then show ?thesis
    using lock_unlock [OF assms(2,1)] by (simp add: rt_schedule_def rt_enter_critical_def)
qed

lemma critical_section_witness:
  "rt_schedule (rt_enter_critical demo) = Some (rt_enter_critical demo) \<and>
    rt_exit_critical (rt_enter_critical (rt_enter_critical demo)) = Some (rt_enter_critical demo)"
  using critical_section [of demo] critical_section [of "rt_enter_critical demo"]
  by (simp add: rt_enter_critical_def word_sless_alt word_sle_eq)

lemma object_init_inv: "kernel_inv b (rt_object_init r c name k) = kernel_inv b k"
  unfolding rt_object_init_eq by (rule kernel_inv_cong) (simp_all add: timer_flag_def)

text \<open>An object initialised under a name is what \<open>rt_object_find\<close> returns for its class and any
  string that agrees with the name in the first 8 bytes; the search leaves all threads and lists
  as they were.\<close>

theorem rt_object_find_initialised:
  assumes "kernel_inv b k" "current k \<noteq> None" "stat (thread k r) = RT_THREAD_READY"
    and "irq_nest k = 0" "lock_nest k <s 0x7fff" "0 \<le>s lock_nest k" "rt_strncmp name s 8 = 0"
  shows "\<exists>k'. rt_object_find (Some s) (class_code c) (rt_object_init ob c name k) = Some (Some ob, k') \<and>
    kernel_inv b k' \<and> thread k' = thread k \<and> tlists k' = tlists k"
proof -
  let ?k = "rt_object_init ob c name k"
  have sel: "thread ?k = thread k" "tlists ?k = tlists k" "current ?k = current k"
    "irq_nest ?k = irq_nest k" "lock_nest ?k = lock_nest k"
    by (simp_all add: rt_object_init_eq)
  obtain k' where "rt_object_find (Some s) (class_code c) ?k
      = Some (find_named ?k s (containers ?k c), k')" "kernel_inv b k'"
    "thread k' = thread ?k" "tlists k' = tlists ?k"
    using object_find_ok [of b ?k r s c] assms(1-6) sel by (metis object_init_inv)
  then show ?thesis using find_initialised [OF assms(7)] sel by simp
qed

lemma rt_object_find_initialised_witness:
  "\<exists>k'. rt_object_find (Some (cstr_of ''lock1'')) (class_code RT_Object_Class_Mutex)
      (rt_object_init (Obj 0x2200) RT_Object_Class_Mutex (cstr_of ''lock1'') demo)
    = Some (Some (Obj 0x2200), k')"
proof -
  have n: "rt_strncmp (cstr_of ''lock1'') (cstr_of ''lock1'') 8 = 0" by (simp add: rt_strncmp_0)
  then show ?thesis
    using rt_object_find_initialised [OF demo_inv _ _ _ _ _ n,
        where r = main_t and c = RT_Object_Class_Mutex and ob = "Obj 0x2200"]
    by (auto simp: word_sless_alt word_sle_eq)
qed

end
