(* ===== verification/Clock.thy ===== *)
theory Clock
  imports Ipc
begin

text \<open>
  The clock of \<open>src/clock.c\<close> and the loop of \<open>src/timer.c\<close> that fires the timers that have run
  out. Timeout functions of the application are an argument, \<open>cb\<close>: its result on the number
  that stands for the function, the parameter of the timer and the state.
\<close>

subsection \<open>Operations\<close>

type_synonym callbacks = "nat \<Rightarrow> u32 \<Rightarrow> kernel \<Rightarrow> kernel option"

definition call_timeout :: "callbacks \<Rightarrow> timeout_fn \<Rightarrow> u32 \<Rightarrow> kernel \<Rightarrow> kernel option" where
  "call_timeout cb f p k =
     (case f of Fn_thread_timeout \<Rightarrow> rt_thread_timeout p k | Fn_user n \<Rightarrow> cb n p k)"

partial_function (option) timer_check_loop :: "callbacks \<Rightarrow> u32 \<Rightarrow> kernel \<Rightarrow> kernel option" where
  "timer_check_loop cb current_tick k =
     (case timer_list k of
        [] \<Rightarrow> Some k
      | r # _ \<Rightarrow>
          if current_tick - timeout_tick (timer k r) < RT_TICK_HALF then do {
            let k = timer_remove r k;
            k \<leftarrow> call_timeout cb (timeout_func (timer k r)) (parameter (timer k r)) k;
            let current_tick = rt_tick_get k;
            k \<leftarrow> (if timer_flag r k AND RT_TIMER_FLAG_PERIODIC \<noteq> 0 \<and>
                     timer_flag r k AND RT_TIMER_FLAG_ACTIVATED \<noteq> 0 then do {
                    let k = set_timer_flag r (timer_flag r k AND NOT RT_TIMER_FLAG_ACTIVATED) k;
                    (_, k) \<leftarrow> rt_timer_start r k;
                    Some k
                  } else Some (set_timer_flag r (timer_flag r k AND NOT RT_TIMER_FLAG_ACTIVATED) k));
            timer_check_loop cb current_tick k
          } else Some k)"

definition rt_timer_check :: "callbacks \<Rightarrow> kernel \<Rightarrow> kernel option" where
  "rt_timer_check cb k = timer_check_loop cb (rt_tick_get k) k"

definition rt_tick_increase :: "callbacks \<Rightarrow> kernel \<Rightarrow> kernel option" where
  "rt_tick_increase cb k = do {
     let k = k\<lparr>tick := tick k + 1\<rparr>;
     t \<leftarrow> rt_thread_self k;
     let k = upd_thread t (\<lambda>th. th\<lparr>remaining_tick := remaining_tick th - 1\<rparr>) k;
     k \<leftarrow> (if remaining_tick (thread k t) = 0 then do {
             let k = upd_thread t (\<lambda>th. th\<lparr>remaining_tick := t_init_tick th\<rparr>) k;
             (_, k) \<leftarrow> rt_thread_yield k;
             Some k
           } else Some k);
     rt_timer_check cb k
   }"

subsection \<open>Timers that have run out\<close>

definition due :: "kernel \<Rightarrow> oref \<Rightarrow> bool" where
  "due k r = (tick k - timeout_tick (timer k r) < RT_TICK_HALF)"

text \<open>Seen from \<open>b\<close>, the timers that have run out are those not ahead of the clock.\<close>

lemma due_ahead:
  assumes "timers_ok b k" "r \<in> set (timer_list k)"
  shows "due k r = (ahead b k r \<le> unat (tick k - b))"
proof -
  let ?t = "timeout_tick (timer k r)"
  have t: "unat (tick k - b) \<le> 1" and a: "unat (?t - b) \<le> 0x7ffffffe + unat (tick k - b)"
    using assms by (auto simp: timers_ok_def ahead_def)
  have d: "tick k - ?t = (tick k - b) - (?t - b)" by simp
  show ?thesis
  proof (cases "unat (?t - b) \<le> unat (tick k - b)")
    case True
    then have "unat (tick k - ?t) = unat (tick k - b) - unat (?t - b)"
      by (subst d, subst unat_sub) (auto simp: word_le_nat_alt)
    then show ?thesis using True t by (simp add: due_def ahead_def word_less_nat_alt)
  next
    case False
    then have "unat (tick k - ?t) = 2 ^ 32 + unat (tick k - b) - unat (?t - b)"
      by (subst d, subst unat_sub_if_size) (simp add: word_size)
    then show ?thesis using False a t by (simp add: due_def ahead_def word_less_nat_alt)
  qed
qed

lemma due_first:
  assumes ok: "timers_ok b k" and l: "timer_list k = r # rs" and nd: "\<not> due k r"
  shows "\<forall>x \<in> set (timer_list k). \<not> due k x"
proof
  fix x assume x: "x \<in> set (timer_list k)"
  have "ahead b k r \<le> ahead b k x" using ok x unfolding timers_ok_def timers_sorted_def l by auto
  moreover have "\<not> ahead b k r \<le> unat (tick k - b)" using due_ahead [OF ok, of r] l nd by simp
  ultimately show "\<not> due k x" using due_ahead [OF ok x] by simp
qed

text \<open>Once none has, the clock may go on.\<close>

lemma rebase:
  assumes inv: "kernel_inv b k" and nd: "\<forall>x \<in> set (timer_list k). \<not> due k x"
  shows "kernel_inv (tick k) k"
proof -
  note ok = kernel_invD(2) [OF inv]
  have a: "ahead b k x = unat (tick k - b) + ahead (tick k) k x" if "x \<in> set (timer_list k)" for x
  proof -
    have gt: "unat (tick k - b) < unat (timeout_tick (timer k x) - b)"
      using nd that due_ahead [OF ok that] by (simp add: ahead_def)
    have "timeout_tick (timer k x) - tick k = (timeout_tick (timer k x) - b) - (tick k - b)" by simp
    moreover have "unat ((timeout_tick (timer k x) - b) - (tick k - b)) =
        unat (timeout_tick (timer k x) - b) - unat (tick k - b)"
      using gt by (intro unat_sub) (simp add: word_le_nat_alt)
    ultimately show ?thesis using gt by (simp add: ahead_def)
  qed
  have "sorted (map (ahead (tick k) k) (timer_list k))"
  proof -
    have "sorted (map (ahead b k) (timer_list k))" using ok by (simp add: timers_ok_def timers_sorted_def)
    moreover have "map (ahead b k) (timer_list k) = map (\<lambda>x. unat (tick k - b) + ahead (tick k) k x) (timer_list k)"
      using a by simp
    ultimately show ?thesis by (auto simp: sorted_map elim!: sorted_wrt_mono_rel [rotated])
  qed
  then have "timers_ok (tick k) k"
    using ok a by (fastforce simp: timers_ok_def timers_sorted_def)
  then show ?thesis using inv by (simp add: kernel_inv_def)
qed

lemma tick_inv:
  assumes "kernel_inv (tick k) k"
  shows "kernel_inv (tick k) (k\<lparr>tick := tick k + 1\<rparr>)"
proof -
  have "timers_ok (tick k) (k\<lparr>tick := tick k + 1\<rparr>)"
    using kernel_invD(2) [OF assms]
    by (fastforce simp: timers_ok_def timers_sorted_def ahead_def [abs_def] timer_flag_def)
  then show ?thesis using assms
    by (simp add: kernel_inv_def sched_wf_def own_timer_def timer_flag_def)
qed

text \<open>Changes of timers that start none of those in threads.\<close>

lemma timer_change_inv:
  assumes "kernel_inv b k" "timer_frame k k'" "timers_ok b k'"
    and "\<And>t. own_timer k' t = own_timer k t"
    and "\<And>t. Thread_timer t \<in> set (timer_list k') \<Longrightarrow> Thread_timer t \<in> set (timer_list k)"
  shows "kernel_inv b k'"
  using assms(1,3-5) timer_frameD(1) [OF assms(2)] sched_wf_timer [OF assms(2)]
  unfolding kernel_inv_def by simp

lemma timer_remove_inv:
  assumes "kernel_inv b k"
  shows "kernel_inv b (timer_remove r k)"
  by (rule timer_change_inv [OF assms]) (simp_all add: timers_ok_remove kernel_invD(2) [OF assms] own_timer_def)

text \<open>The flag of a timer in no list is free, apart from the periodic bit.\<close>

lemma timer_deactivate_inv:
  assumes "kernel_inv b k" "r \<notin> set (timer_list k)"
  shows "kernel_inv b (set_timer_flag r (timer_flag r k AND NOT 1) k)"
proof (rule timer_change_inv [OF assms(1)])
  show "timers_ok b (set_timer_flag r (timer_flag r k AND NOT 1) k)"
    using kernel_invD(2) [OF assms(1)] assms(2)
    by (auto simp: timers_ok_def timers_sorted_def ahead_def [abs_def])
  have "bit (f AND NOT 1) 1 = bit f 1" for f :: u8 by (simp add: bit_simps)
  then show "own_timer (set_timer_flag r (timer_flag r k AND NOT 1) k) t = own_timer k t" for t
    by (simp add: own_timer_def)
qed simp_all

subsection \<open>Firing the timers\<close>

lemma flag_periodic: "(f :: u8) AND 2 = 0 \<longleftrightarrow> \<not> bit f 1"
proof
  assume a: "f AND 2 = 0"
  have "bit (2 :: u8) 1" by (simp add: bit_iff_odd)
  then have "bit (f AND 2) 1 = bit f 1" by (simp only: bit_and_iff) simp
  then show "\<not> bit f 1" by (simp add: a)
next
  assume a: "\<not> bit f 1"
  have "bit (2 :: u8) n = (n = 1)" if "n < 8" for n
    using that by (auto simp: bit_2_iff)
  then show "f AND 2 = 0" using a by (intro bit_word_eqI) (auto simp: bit_and_iff)
qed

text \<open>The loop up to the next test, for a timer that has run out.\<close>

definition fire :: "callbacks \<Rightarrow> oref \<Rightarrow> kernel \<Rightarrow> kernel option" where
  "fire cb r k = do {
     k \<leftarrow> call_timeout cb (timeout_func (timer k r)) (parameter (timer k r)) (timer_remove r k);
     (if timer_flag r k AND RT_TIMER_FLAG_PERIODIC \<noteq> 0 \<and> timer_flag r k AND RT_TIMER_FLAG_ACTIVATED \<noteq> 0 then do {
        (_, k) \<leftarrow> rt_timer_start r (set_timer_flag r (timer_flag r k AND NOT RT_TIMER_FLAG_ACTIVATED) k);
        Some k
      } else Some (set_timer_flag r (timer_flag r k AND NOT RT_TIMER_FLAG_ACTIVATED) k))
   }"

lemma start_tick: "rt_timer_start r k = Some (e, k') \<Longrightarrow> tick k' = tick k"
  by (auto simp: rt_timer_start_def Let_def split: if_splits)

lemma check_loop_stop:
  "\<forall>r \<in> set (timer_list k). \<not> due k r \<Longrightarrow> timer_check_loop cb (tick k) k = Some k"
  by (subst timer_check_loop.simps) (auto simp: due_def split: list.splits)

lemma check_loop_step:
  assumes "timer_list k = r # rs" "due k r" "fire cb r k = Some k2"
  shows "timer_check_loop cb (tick k) k = timer_check_loop cb (tick k2) k2"
proof -
  obtain k1 where k1: "call_timeout cb (timeout_func (timer k r)) (parameter (timer k r)) (timer_remove r k) = Some k1"
    using assms(3) by (auto simp: fire_def bind_Some_conv)
  show ?thesis
  proof (cases "timer_flag r k1 AND 2 \<noteq> 0 \<and> timer_flag r k1 AND 1 \<noteq> 0")
    case True
    then obtain e where e: "rt_timer_start r (set_timer_flag r (timer_flag r k1 AND NOT 1) k1) = Some (e, k2)"
      using assms(3) k1 by (auto simp: fire_def bind_Some_conv split: prod.splits)
    then show ?thesis using assms(1,2) k1 True start_tick [OF e]
      by (subst timer_check_loop.simps) (simp add: due_def rt_tick_get_def)
  next
    case False
    then have "k2 = set_timer_flag r (timer_flag r k1 AND NOT 1) k1"
      using assms(3) k1 by (auto simp: fire_def bind_Some_conv)
    then show ?thesis using assms(1,2) k1 False
      by (subst timer_check_loop.simps) (auto simp: due_def rt_tick_get_def)
  qed
qed

lemma timeout_current: "rt_thread_timeout t k = Some k' \<Longrightarrow> current k \<noteq> None \<Longrightarrow> current k' \<noteq> None"
  by (auto simp: rt_thread_timeout_def rt_schedule_insert_thread_def rt_schedule_def bind_Some_conv Let_def
      split: if_splits prod.splits)

lemma fire_thread:
  assumes inv: "kernel_inv b k" and c: "current k \<noteq> None" and t: "Thread_timer t \<in> set (timer_list k)"
  obtains k' where "fire cb (Thread_timer t) k = Some k'" "kernel_inv b k'" "current k' \<noteq> None" "call_frame k k'"
    "timer k' = timer k" "timer_list k' = removeAll (Thread_timer t) (timer_list k)"
    "thread k' = (thread k)(t := (thread k t)\<lparr>t_error := - RT_ETIMEOUT, stat := RT_THREAD_READY\<rparr>)"
    "tlists k' = lists_insert_last (Ready (unat (current_priority (thread k t)))) t (lists_remove t (tlists k))"
    "\<forall>x. x \<noteq> Thread_timer t \<longrightarrow> objs k' x = objs k x"
proof -
  let ?r = "Thread_timer t" and ?k0 = "timer_remove (Thread_timer t) k"
  have st: "stat (thread k t) = RT_THREAD_SUSPEND" using kernel_invD(6) [OF inv t] .
  have own: "own_timer k t" using kernel_invD(4) [OF inv live_ready(2) [OF st]] .
  have f0: "thread ?k0 = thread k" "tlists ?k0 = tlists k" "current ?k0 = current k" by (simp_all add: timer_remove_def)
  have st0: "stat (thread ?k0 t) = RT_THREAD_SUSPEND" using st f0 by simp
  have nt0: "?r \<notin> set (timer_list ?k0)" by simp
  have c0: "current ?k0 \<noteq> None" using c f0 by simp
  obtain k1 where k1: "rt_thread_timeout t ?k0 = Some k1" "kernel_inv b k1"
    "thread k1 = (thread ?k0)(t := (thread ?k0 t)\<lparr>t_error := - 2, stat := RT_THREAD_READY\<rparr>)"
    "tlists k1 = lists_insert_last (Ready (unat (current_priority (thread ?k0 t)))) t (lists_remove t (tlists ?k0))"
    "timer k1 = timer ?k0" "timer_list k1 = timer_list ?k0" "objs k1 = objs ?k0"
    "thread_frame ?k0 (k1\<lparr>current := current ?k0, current_prio := current_prio ?k0\<rparr>)"
    by (rule timeout_ok [OF timer_remove_inv [OF inv] st0 nt0 c0])
  let ?k' = "set_timer_flag ?r (timer_flag ?r k1 AND NOT 1) k1"
  have np: "timer_flag ?r k1 AND 2 = 0" using own k1(7) by (simp add: flag_periodic own_timer_def timer_flag_def)
  have "fire cb ?r k = Some ?k'"
    using own k1(1) np by (simp add: fire_def call_timeout_def own_timer_def)
  moreover have "kernel_inv b ?k'"
    by (rule timer_deactivate_inv [OF k1(2)]) (simp add: k1(6))
  moreover have "call_frame k ?k'"
  proof -
    have "call_frame ?k0 k1" using k1(8) by (simp add: call_frame_def)
    moreover have "call_frame k ?k0" "call_frame k1 ?k'"
      by (rule call_frame_thread, rule thread_frame_timer, simp)+
    ultimately show ?thesis using call_frame_trans by blast
  qed
  moreover have "current ?k' \<noteq> None" using timeout_current [OF k1(1) c0] by (simp add: set_timer_flag_def)
  moreover have "objs ?k' x = objs k x" if "x \<noteq> ?r" for x
    using that k1(7) by (simp add: set_timer_flag_def upd_obj_def)
  moreover have "thread ?k' = thread k1" "tlists ?k' = tlists k1" by (simp_all add: set_timer_flag_def)
  ultimately show ?thesis using that [of ?k'] k1(3-6) f0 by simp
qed

text \<open>When all timers that have run out are those in threads, each of these threads is woken.\<close>

lemma check_loop_wakes:
  assumes "kernel_inv b k" "current k \<noteq> None"
    and "\<And>r. r \<in> set (timer_list k) \<Longrightarrow> due k r \<Longrightarrow> \<exists>t. r = Thread_timer t"
  shows "\<exists>k'. timer_check_loop cb (tick k) k = Some k' \<and> kernel_inv (tick k) k' \<and> current k' \<noteq> None \<and>
    call_frame k k' \<and> timer_list k' = filter (\<lambda>r. \<not> due k r) (timer_list k) \<and>
    thread k' = (\<lambda>t. if Thread_timer t \<in> set (timer_list k) \<and> due k (Thread_timer t)
      then (thread k t)\<lparr>t_error := - RT_ETIMEOUT, stat := RT_THREAD_READY\<rparr> else thread k t)"
  using assms
proof (induction "length (timer_list k)" arbitrary: k rule: less_induct)
  case less
  note inv = less.prems(1) and ok = kernel_invD(2) [OF less.prems(1)]
  show ?case
  proof (cases "\<exists>r rs. timer_list k = r # rs \<and> due k r")
    case False
    then have nd: "\<forall>x \<in> set (timer_list k). \<not> due k x"
      using due_first [OF ok] by (cases "timer_list k") auto
    then show ?thesis
      using check_loop_stop [OF nd, of cb] rebase [OF inv nd] less.prems(2)
      by (intro exI [of _ k]) (auto simp: fun_eq_iff)
  next
    case True
    then obtain r rs where r: "timer_list k = r # rs" "due k r" by blast
    then obtain t where t: "r = Thread_timer t" using less.prems(3) [of r] by auto
    have tin: "Thread_timer t \<in> set (timer_list k)" using r t by simp
    obtain k1 where k1: "fire cb (Thread_timer t) k = Some k1" "kernel_inv b k1" "current k1 \<noteq> None"
      "call_frame k k1" "timer k1 = timer k" "timer_list k1 = removeAll (Thread_timer t) (timer_list k)"
      "thread k1 = (thread k)(t := (thread k t)\<lparr>t_error := - RT_ETIMEOUT, stat := RT_THREAD_READY\<rparr>)"
      by (rule fire_thread [OF inv less.prems(2) tin])
    have tk: "tick k1 = tick k" using call_frameD(1) [OF k1(4)] .
    have due1: "due k1 = due k" using k1(5) tk by (simp add: due_def [abs_def])
    have dist: "distinct (timer_list k)" using ok by (simp add: timers_ok_def)
    have l1: "timer_list k1 = rs" using k1(6) r(1) t dist by (simp add: removeAll_id)
    have "length (timer_list k1) < length (timer_list k)" using l1 r(1) by simp
    moreover have "\<exists>t. x = Thread_timer t" if "x \<in> set (timer_list k1)" "due k1 x" for x
      using less.prems(3) [of x] that l1 r(1) due1 by auto
    ultimately obtain k' where k': "timer_check_loop cb (tick k1) k1 = Some k'" "kernel_inv (tick k1) k'"
      "current k' \<noteq> None" "call_frame k1 k'" "timer_list k' = filter (\<lambda>r. \<not> due k1 r) (timer_list k1)"
      "thread k' = (\<lambda>t. if Thread_timer t \<in> set (timer_list k1) \<and> due k1 (Thread_timer t)
        then (thread k1 t)\<lparr>t_error := - RT_ETIMEOUT, stat := RT_THREAD_READY\<rparr> else thread k1 t)"
      using less.hyps [OF _ k1(2,3)] by blast
    have "timer_check_loop cb (tick k) k = Some k'"
      using check_loop_step [OF r k1(1) [folded t]] k'(1) by simp
    moreover have "timer_list k' = filter (\<lambda>r. \<not> due k r) (timer_list k)"
      using k'(5) l1 r due1 by simp
    moreover have "thread k' = (\<lambda>x. if Thread_timer x \<in> set (timer_list k) \<and> due k (Thread_timer x)
        then (thread k x)\<lparr>t_error := - RT_ETIMEOUT, stat := RT_THREAD_READY\<rparr> else thread k x)"
      using k'(6) k1(7) l1 r t due1 dist by (auto simp: fun_eq_iff)
    ultimately show ?thesis
      using k'(2-4) tk call_frame_trans [OF k1(4) k'(4)] by (intro exI [of _ k']) simp
  qed
qed

subsection \<open>The tick\<close>

text \<open>The part of the tick before the timers are looked at: the clock goes on by one, and a thread
  that has used up its time slice gives way to the others of its priority.\<close>

definition tick_slice :: "kernel \<Rightarrow> kernel option" where
  "tick_slice k = do {
     let k = k\<lparr>tick := tick k + 1\<rparr>;
     t \<leftarrow> rt_thread_self k;
     let k = upd_thread t (\<lambda>th. th\<lparr>remaining_tick := remaining_tick th - 1\<rparr>) k;
     (if remaining_tick (thread k t) = 0 then do {
        let k = upd_thread t (\<lambda>th. th\<lparr>remaining_tick := t_init_tick th\<rparr>) k;
        (_, k) \<leftarrow> rt_thread_yield k;
        Some k
      } else Some k)
   }"

lemma tick_increase_slice:
  "rt_tick_increase cb k = (case tick_slice k of None \<Rightarrow> None | Some k \<Rightarrow> rt_timer_check cb k)"
  by (simp add: rt_tick_increase_def tick_slice_def Let_def split: option.splits Option.bind_splits)

text \<open>The counter of the time slice.\<close>

definition slice_left :: "rt_thread \<Rightarrow> u32" where
  "slice_left th = (if remaining_tick th - 1 = 0 then t_init_tick th else remaining_tick th - 1)"

lemma tick_slice_ok:
  assumes inv: "kernel_inv (tick k) k" and c: "current k = Some t" "stat (thread k t) = RT_THREAD_READY"
  obtains k' where "tick_slice k = Some k'" "kernel_inv (tick k) k'" "tick k' = tick k + 1" "current k' \<noteq> None"
    "thread k' = (thread k)(t := (thread k t)\<lparr>remaining_tick := slice_left (thread k t)\<rparr>)"
    "timer k' = timer k" "timer_list k' = timer_list k" "objs k' = objs k" "lock_nest k' = lock_nest k"
    "tlists k' = (if remaining_tick (thread k t) = 1 then
       (let q = Ready (unat (current_priority (thread k t))) in (tlists k)(q := removeAll t (tlists k q) @ [t]))
       else tlists k)"
proof (cases "remaining_tick (thread k t) = 1")
  case False
  let ?k = "upd_thread t (\<lambda>th. th\<lparr>remaining_tick := remaining_tick th - 1\<rparr>) (k\<lparr>tick := tick k + 1\<rparr>)"
  have ne: "remaining_tick (thread k t) - 1 \<noteq> 0" using False by simp
  have "kernel_inv (tick k) ?k"
    using tick_inv [OF inv] by (subst kernel_inv_cong) (auto simp: timer_flag_def stack_ok_def)
  moreover have "tick_slice k = Some ?k"
    using c ne by (simp add: tick_slice_def rt_thread_self_def)
  moreover have "thread ?k = (thread k)(t := (thread k t)\<lparr>remaining_tick := slice_left (thread k t)\<rparr>)"
    using ne by (simp add: slice_left_def fun_eq_iff)
  ultimately show ?thesis using that [of ?k] c False by simp
next
  case True
  let ?k = "upd_thread t (\<lambda>th. th\<lparr>remaining_tick := t_init_tick th\<rparr>)
    (upd_thread t (\<lambda>th. th\<lparr>remaining_tick := remaining_tick th - 1\<rparr>) (k\<lparr>tick := tick k + 1\<rparr>))"
  have iv: "kernel_inv (tick k) ?k"
    using tick_inv [OF inv] by (subst kernel_inv_cong) (auto simp: timer_flag_def stack_ok_def)
  have cc: "current ?k = Some t" "stat (thread ?k t) = RT_THREAD_READY" using c by simp_all
  obtain k' where k': "rt_thread_yield ?k = Some (0, k')" "kernel_inv (tick k) k'" "thread k' = thread ?k"
    "timer k' = timer ?k" "timer_list k' = timer_list ?k" "objs k' = objs ?k" "current k' \<noteq> None"
    "thread_frame ?k (k'\<lparr>current := current ?k, current_prio := current_prio ?k\<rparr>)"
    "let q = Ready (unat (current_priority (thread ?k t))) in
       tlists k' = (tlists ?k)(q := removeAll t (tlists ?k q) @ [t])"
    by (rule yield_ok [OF iv cc])
  have "tick_slice k = Some k'"
    using c True k'(1) by (simp add: tick_slice_def rt_thread_self_def)
  moreover have "tick k' = tick k + 1" "lock_nest k' = lock_nest k" using thread_frameD(2,3) [OF k'(8)] by simp_all
  moreover have "thread k' = (thread k)(t := (thread k t)\<lparr>remaining_tick := slice_left (thread k t)\<rparr>)"
    unfolding k'(3) using True by (simp add: slice_left_def fun_eq_iff)
  ultimately show ?thesis using that [of k'] k'(2,4-7,9) True by (simp add: Let_def)
qed

subsection \<open>Timeout functions of the application\<close>

text \<open>
  The contract of a timeout function: called with a parameter that is good for it, it returns and
  keeps the invariant. It may make threads ready and stop timers, it starts none.
\<close>

locale timeout_callback =
  fixes cb :: callbacks and good :: "nat \<Rightarrow> u32 \<Rightarrow> bool"
  assumes cb_law: "may_call b k \<Longrightarrow> good n p \<Longrightarrow>
    \<exists>k'. cb n p k = Some k' \<and> may_call b k' \<and> tick k' = tick k \<and> timer k' = timer k \<and>
      set (timer_list k') \<subseteq> set (timer_list k) \<and> (\<forall>r. bit (timer_flag r k') 1 = bit (timer_flag r k) 1)"

text \<open>The timers of the application are set up for it: a periodic one has a period.\<close>

definition user_timers :: "(nat \<Rightarrow> u32 \<Rightarrow> bool) \<Rightarrow> kernel \<Rightarrow> bool" where
  "user_timers good k =
     (\<forall>a. Obj a \<in> set (timer_list k) \<longrightarrow>
        (case timeout_func (timer k (Obj a)) of
           Fn_thread_timeout \<Rightarrow> False
         | Fn_user n \<Rightarrow> good n (parameter (timer k (Obj a)))) \<and>
        (bit (timer_flag (Obj a) k) 1 \<longrightarrow>
           0 < init_tick (timer k (Obj a)) \<and> init_tick (timer k (Obj a)) < RT_TICK_HALF))"

text \<open>What firing one timer does to the others: none of them becomes due, and the set-up stays.\<close>

definition fired :: "oref \<Rightarrow> kernel \<Rightarrow> kernel \<Rightarrow> bool" where
  "fired r k k' =
     (tick k' = tick k \<and> set (timer_list k') \<subseteq> set (timer_list k) \<and>
      (\<forall>x \<in> set (timer_list k'). due k' x \<longrightarrow> x \<noteq> r \<and> due k x) \<and>
      (\<forall>x. (timer k' x)\<lparr>timeout_tick := 0\<rparr> = (timer k x)\<lparr>timeout_tick := 0\<rparr>) \<and>
      (\<forall>x. bit (timer_flag x k') 1 = bit (timer_flag x k) 1))"

lemma timer_fields:
  assumes "(tm' :: rt_timer)\<lparr>timeout_tick := 0\<rparr> = tm\<lparr>timeout_tick := 0\<rparr>"
  shows "timeout_func tm' = timeout_func tm" "parameter tm' = parameter tm" "init_tick tm' = init_tick tm"
  using arg_cong [OF assms, of timeout_func] arg_cong [OF assms, of parameter] arg_cong [OF assms, of init_tick]
  by simp_all

lemma fired_user_timers:
  assumes "fired r k k'" "user_timers good k"
  shows "user_timers good k'"
proof -
  have "timeout_func (timer k' x) = timeout_func (timer k x)" "parameter (timer k' x) = parameter (timer k x)"
    "init_tick (timer k' x) = init_tick (timer k x)" for x
    using timer_fields [of "timer k' x" "timer k x"] assms(1) by (simp_all add: fired_def)
  then show ?thesis using assms unfolding fired_def user_timers_def by (metis subsetD)
qed

context timeout_callback begin

lemma fire_user:
  assumes inv: "may_call b k" and u: "user_timers good k" and a: "Obj a \<in> set (timer_list k)"
  shows "\<exists>k'. fire cb (Obj a) k = Some k' \<and> may_call b k' \<and> fired (Obj a) k k'"
proof -
  let ?r = "Obj a" and ?k0 = "timer_remove (Obj a) k"
  have ok: "timers_ok b k" using inv by (simp add: may_call_def kernel_inv_def)
  have nn: "nonnull ?r" using ok a unfolding timers_ok_def by blast
  obtain n where n: "timeout_func (timer k ?r) = Fn_user n" "good n (parameter (timer k ?r))"
    using u a unfolding user_timers_def by (cases "timeout_func (timer k ?r)") force+
  have inv0: "may_call b ?k0"
    using inv timer_remove_inv [of b k ?r] by (simp add: may_call_def timer_remove_def)
  obtain k1 where k1: "cb n (parameter (timer k ?r)) ?k0 = Some k1" "may_call b k1" "tick k1 = tick k"
    "timer k1 = timer k" "set (timer_list k1) \<subseteq> set (timer_list k) - {?r}"
    "\<And>x. bit (timer_flag x k1) 1 = bit (timer_flag x k) 1"
    using cb_law [OF inv0 n(2)] by auto
  have call: "call_timeout cb (timeout_func (timer k ?r)) (parameter (timer k ?r)) ?k0 = Some k1"
    using n(1) k1(1) by (simp add: call_timeout_def)
  let ?k2 = "set_timer_flag ?r (timer_flag ?r k1 AND NOT 1) k1"
  have out: "?r \<notin> set (timer_list k1)" using k1(5) by auto
  have f2: "timer_frame k1 ?k2" by simp
  have b1: "bit (timer_flag x ?k2) 1 = bit (timer_flag x k) 1" for x
    using k1(6) [of x] k1(6) [of ?r] by (auto simp: bit_simps)
  have inv2: "may_call b ?k2"
    using k1(2) timer_deactivate_inv [OF _ out, of b] timer_frameD(4,6) [OF f2] by (simp add: may_call_def)
  show ?thesis
  proof (cases "timer_flag ?r k1 AND 2 \<noteq> 0 \<and> timer_flag ?r k1 AND 1 \<noteq> 0")
    case False
    have "fire cb ?r k = Some ?k2" unfolding fire_def using call False by auto
    moreover have "fired ?r k ?k2"
      unfolding fired_def using k1(3-5) b1 by (auto simp: due_def)
    ultimately show ?thesis using inv2 by blast
  next
    case True
    then have "bit (timer_flag ?r k) 1" using k1(6) by (simp add: flag_periodic)
    then have it: "0 < init_tick (timer k ?r)" "init_tick (timer k ?r) < RT_TICK_HALF"
      using u a by (auto simp: user_timers_def)
    have it2: "init_tick (timer ?k2 ?r) < RT_TICK_HALF" using it(2) k1(4) by simp
    have ok2: "timers_ok b ?k2" using inv2 by (simp add: may_call_def kernel_inv_def)
    obtain k' where k': "rt_timer_start ?r ?k2 = Some (0, k')" "timers_ok b k'" "timer_frame ?k2 k'"
      "timer k' = (timer ?k2)(?r := (timer ?k2 ?r)\<lparr>timeout_tick := tick ?k2 + init_tick (timer ?k2 ?r)\<rparr>)"
      "timer_list k' = takeWhile (\<lambda>x. ahead b k' x \<le> ahead b k' ?r) (removeAll ?r (timer_list ?k2)) @
        ?r # dropWhile (\<lambda>x. ahead b k' x \<le> ahead b k' ?r) (removeAll ?r (timer_list ?k2))"
      "ahead b k' ?r = unat (tick ?k2 - b) + unat (init_tick (timer ?k2 ?r))"
      by (rule rt_timer_start_ok [OF ok2 nn it2])
    have st: "set (timer_list k') = insert ?r (set (timer_list k1))"
    proof -
      have "set (takeWhile P xs) \<union> set (dropWhile P xs) = set xs" for P and xs :: "oref list"
        by (metis set_append takeWhile_dropWhile_id)
      then show ?thesis unfolding k'(5) using out by auto
    qed
    have tk: "tick k' = tick k" using timer_frameD(5) [OF k'(3)] k1(3) by simp
    have nd: "\<not> due k' ?r"
    proof -
      have "0 < unat (init_tick (timer k ?r))" using it(1) by (simp add: word_less_nat_alt)
      then show ?thesis using due_ahead [OF k'(2), of ?r] st k'(6) tk k1(3,4) by simp
    qed
    have "fire cb ?r k = Some k'" unfolding fire_def using call True k'(1) by simp
    moreover have "may_call b k'"
    proof -
      have "kernel_inv b k'"
      proof (rule timer_change_inv)
        show "kernel_inv b ?k2" using inv2 by (simp add: may_call_def)
        show "timer_frame ?k2 k'" "timers_ok b k'" by (rule k'(3), rule k'(2))
        show "own_timer k' t = own_timer ?k2 t" for t
          using k'(4) start_periodic [OF k'(1)] by (simp add: own_timer_def)
        show "Thread_timer t \<in> set (timer_list ?k2)" if "Thread_timer t \<in> set (timer_list k')" for t
          using that st by simp
      qed
      then show ?thesis using inv2 timer_frameD(4,6) [OF k'(3)] by (simp add: may_call_def)
    qed
    moreover have "fired ?r k k'"
      unfolding fired_def
    proof (intro conjI allI ballI impI)
      fix x assume x: "x \<in> set (timer_list k')" "due k' x"
      then show "x \<noteq> ?r" using nd by blast
      then show "due k x" using x(2) tk k'(4) k1(4) by (simp add: due_def)
    qed (use tk st k1(5) a k'(4) k1(4) b1 start_periodic [OF k'(1)] in auto)
    ultimately show ?thesis by blast
  qed
qed

lemma fire_any:
  assumes inv: "may_call b k" and u: "user_timers good k" and r: "r \<in> set (timer_list k)"
  shows "\<exists>k'. fire cb r k = Some k' \<and> may_call b k' \<and> fired r k k'"
proof (cases r)
  case (Obj a)
  then show ?thesis using fire_user [OF inv u] r by simp
next
  case (Thread_timer t)
  have iv: "kernel_inv b k" "current k \<noteq> None" using inv by (simp_all add: may_call_def)
  have tin: "Thread_timer t \<in> set (timer_list k)" using r Thread_timer by simp
  obtain k' where k': "fire cb (Thread_timer t) k = Some k'" "kernel_inv b k'" "current k' \<noteq> None" "call_frame k k'"
    "timer k' = timer k" "timer_list k' = removeAll (Thread_timer t) (timer_list k)"
    "\<forall>x. x \<noteq> Thread_timer t \<longrightarrow> objs k' x = objs k x"
    "bit (timer_flag (Thread_timer t) k') 1 = bit (timer_flag (Thread_timer t) k) 1"
  proof -
    obtain k' where k': "fire cb (Thread_timer t) k = Some k'" "kernel_inv b k'" "current k' \<noteq> None" "call_frame k k'"
      "timer k' = timer k" "timer_list k' = removeAll (Thread_timer t) (timer_list k)"
      "thread k' = (thread k)(t := (thread k t)\<lparr>t_error := - RT_ETIMEOUT, stat := RT_THREAD_READY\<rparr>)"
      "tlists k' = lists_insert_last (Ready (unat (current_priority (thread k t)))) t (lists_remove t (tlists k))"
      "\<forall>x. x \<noteq> Thread_timer t \<longrightarrow> objs k' x = objs k x"
      by (rule fire_thread [OF iv tin])
    have "live (thread k t)" "live (thread k' t)"
      using kernel_invD(6) [OF iv(1) tin] k'(7) by (auto simp: live_def)
    then have "own_timer k t" "own_timer k' t" using kernel_invD(4) [OF iv(1)] kernel_invD(4) [OF k'(2)] by auto
    then show ?thesis using that [of k'] k' by (simp add: own_timer_def)
  qed
  have "bit (timer_flag x k') 1 = bit (timer_flag x k) 1" for x
    using k'(7,8) by (cases "x = Thread_timer t") (auto simp: timer_flag_def)
  then have "fired r k k'"
    using k'(5,6) call_frameD(1) [OF k'(4)] by (auto simp: fired_def due_def Thread_timer)
  moreover have "may_call b k'"
    using inv k'(2,3) call_frameD(2) [OF k'(4)] by (simp add: may_call_def)
  ultimately show ?thesis using k'(1) Thread_timer by blast
qed

text \<open>The loop over the timers ends: each turn leaves one timer less that has run out.\<close>

lemma check_loop_keeps:
  assumes step: "\<And>k r k1. may_call b k \<Longrightarrow> user_timers good k \<Longrightarrow> P k \<Longrightarrow> r \<in> set (timer_list k) \<Longrightarrow>
    fire cb r k = Some k1 \<Longrightarrow> P k1"
  shows "may_call b k \<Longrightarrow> user_timers good k \<Longrightarrow> P k \<Longrightarrow>
    \<exists>k'. timer_check_loop cb (tick k) k = Some k' \<and> may_call (tick k) k' \<and> user_timers good k' \<and>
      tick k' = tick k \<and> set (timer_list k') \<subseteq> set (timer_list k) \<and> (\<forall>x \<in> set (timer_list k'). \<not> due k' x) \<and> P k'"
proof (induction "card {x \<in> set (timer_list k). due k x}" arbitrary: k rule: less_induct)
  case less
  have inv: "kernel_inv b k" and ok: "timers_ok b k" using less.prems(1) by (auto simp: may_call_def kernel_inv_def)
  show ?case
  proof (cases "\<exists>r rs. timer_list k = r # rs \<and> due k r")
    case False
    then have nd: "\<forall>x \<in> set (timer_list k). \<not> due k x"
      using due_first [OF ok] by (cases "timer_list k") auto
    then show ?thesis
      using check_loop_stop [OF nd, of cb] rebase [OF inv nd] less.prems
      by (intro exI [of _ k]) (simp add: may_call_def)
  next
    case True
    then obtain r rs where r: "timer_list k = r # rs" "due k r" by blast
    have rin: "r \<in> set (timer_list k)" using r(1) by simp
    obtain k1 where k1: "fire cb r k = Some k1" "may_call b k1" "fired r k k1"
      using fire_any [OF less.prems(1,2) rin] by blast
    have p1: "P k1" by (rule step [OF less.prems rin k1(1)])
    have f: "tick k1 = tick k" "set (timer_list k1) \<subseteq> set (timer_list k)"
      "\<And>x. x \<in> set (timer_list k1) \<Longrightarrow> due k1 x \<Longrightarrow> x \<noteq> r \<and> due k x"
      using k1(3) by (auto simp: fired_def)
    have "{x \<in> set (timer_list k1). due k1 x} \<subset> {x \<in> set (timer_list k). due k x}"
    proof -
      have "r \<in> {x \<in> set (timer_list k). due k x}" "r \<notin> {x \<in> set (timer_list k1). due k1 x}"
        using rin r(2) f(3) [of r] by auto
      moreover have "{x \<in> set (timer_list k1). due k1 x} \<subseteq> {x \<in> set (timer_list k). due k x}"
        using f(2,3) by auto
      ultimately show ?thesis by blast
    qed
    then have "card {x \<in> set (timer_list k1). due k1 x} < card {x \<in> set (timer_list k). due k x}"
      by (intro psubset_card_mono) simp_all
    then obtain k' where k': "timer_check_loop cb (tick k1) k1 = Some k'" "may_call (tick k1) k'"
      "user_timers good k'" "tick k' = tick k1" "set (timer_list k') \<subseteq> set (timer_list k1)"
      "\<forall>x \<in> set (timer_list k'). \<not> due k' x" "P k'"
      using less.hyps [OF _ k1(2) fired_user_timers [OF k1(3) less.prems(2)] p1] by blast
    show ?thesis
      using check_loop_step [OF r k1(1)] k' f(1,2) by (intro exI [of _ k']) auto
  qed
qed

text \<open>The tick returns and keeps the invariant, now seen from the new tick, and what else the timers keep.\<close>

lemma tick_keeps:
  assumes inv: "may_call (tick k) k" and u: "user_timers good k"
    and c: "current k = Some t" "stat (thread k t) = RT_THREAD_READY"
    and slice: "\<And>k1. tick_slice k = Some k1 \<Longrightarrow> P k1"
    and step: "\<And>j r k1. may_call (tick k) j \<Longrightarrow> user_timers good j \<Longrightarrow> P j \<Longrightarrow> r \<in> set (timer_list j) \<Longrightarrow>
      fire cb r j = Some k1 \<Longrightarrow> P k1"
  shows "\<exists>k'. rt_tick_increase cb k = Some k' \<and> tick k' = tick k + 1 \<and> may_call (tick k') k' \<and>
    user_timers good k' \<and> (\<forall>x \<in> set (timer_list k'). \<not> due k' x) \<and> P k'"
proof -
  have iv: "kernel_inv (tick k) k" using inv by (simp add: may_call_def)
  obtain k1 where k1: "tick_slice k = Some k1" "kernel_inv (tick k) k1" "tick k1 = tick k + 1" "current k1 \<noteq> None"
    "thread k1 = (thread k)(t := (thread k t)\<lparr>remaining_tick := slice_left (thread k t)\<rparr>)"
    "timer k1 = timer k" "timer_list k1 = timer_list k" "objs k1 = objs k" "lock_nest k1 = lock_nest k"
    by (rule tick_slice_ok [OF iv c])
  have inv1: "may_call (tick k) k1" using k1(2,4,9) inv by (simp add: may_call_def)
  have u1: "user_timers good k1" using u unfolding user_timers_def timer_flag_def k1(6-8) .
  have "\<exists>k'. timer_check_loop cb (tick k1) k1 = Some k' \<and> may_call (tick k1) k' \<and> user_timers good k' \<and>
      tick k' = tick k1 \<and> set (timer_list k') \<subseteq> set (timer_list k1) \<and> (\<forall>x \<in> set (timer_list k'). \<not> due k' x) \<and> P k'"
    by (rule check_loop_keeps [where P = P, OF _ inv1 u1 slice [OF k1(1)]]) (rule step)
  then obtain k' where "timer_check_loop cb (tick k1) k1 = Some k'" "may_call (tick k1) k'" "user_timers good k'"
    "tick k' = tick k1" "\<forall>x \<in> set (timer_list k'). \<not> due k' x" "P k'"
    by blast
  then show ?thesis
    using k1(1,3) by (intro exI [of _ k']) (simp add: tick_increase_slice rt_timer_check_def rt_tick_get_def)
qed

lemma tick_returns:
  assumes "may_call (tick k) k" "user_timers good k" "current k = Some t" "stat (thread k t) = RT_THREAD_READY"
  shows "\<exists>k'. rt_tick_increase cb k = Some k' \<and> tick k' = tick k + 1 \<and> may_call (tick k') k' \<and>
    user_timers good k' \<and> (\<forall>x \<in> set (timer_list k'). \<not> due k' x)"
  using tick_keeps [where P = "\<lambda>_. True", OF assms] by simp

end

end
