(* ===== verification/Semaphore.thy ===== *)
theory Semaphore
  imports Scenario
begin

text \<open>
  Semaphores, \<open>src/ipc.c\<close>: a 16 bit count and the threads that wait for it.
\<close>

subsection \<open>Operations\<close>

definition sem_setup :: "addr \<Rightarrow> u32 \<Rightarrow> u8 \<Rightarrow> kernel \<Rightarrow> kernel" where
  "sem_setup s v flag k =
     (let k = rt_ipc_object_init s k;
          k = upd_sem s (\<lambda>sm. sm\<lparr>sem_value := ucast v\<rparr>) k
      in set_flag s flag k)"

definition rt_sem_init :: "addr \<Rightarrow> cstr \<Rightarrow> u32 \<Rightarrow> u8 \<Rightarrow> kernel \<Rightarrow> (rt_err \<times> kernel) option" where
  "rt_sem_init s name v flag k = do {
     rt_assert (s \<noteq> 0);
     let k = rt_object_init (Obj s) RT_Object_Class_Semaphore name k;
     Some (RT_EOK, sem_setup s v flag k)
   }"

definition rt_sem_detach :: "addr \<Rightarrow> kernel \<Rightarrow> (rt_err \<times> kernel) option" where
  "rt_sem_detach s k = do {
     rt_assert (s \<noteq> 0);
     k \<leftarrow> rt_ipc_list_resume_all (Suspend_list s) k;
     k \<leftarrow> rt_object_detach (Obj s) k;
     Some (RT_EOK, k)
   }"

definition rt_sem_create :: "cstr \<Rightarrow> u32 \<Rightarrow> u8 \<Rightarrow> kernel \<Rightarrow> (addr option \<times> kernel) option" where
  "rt_sem_create name v flag k = do {
     RT_DEBUG_NOT_IN_INTERRUPT k;
     (a, k) \<leftarrow> rt_object_allocate RT_Object_Class_Semaphore name k;
     (case a of None \<Rightarrow> Some (None, k) | Some s \<Rightarrow> Some (Some s, sem_setup s v flag k))
   }"

definition rt_sem_delete :: "addr \<Rightarrow> kernel \<Rightarrow> (rt_err \<times> kernel) option" where
  "rt_sem_delete s k = do {
     RT_DEBUG_NOT_IN_INTERRUPT k;
     rt_assert (s \<noteq> 0);
     k \<leftarrow> rt_ipc_list_resume_all (Suspend_list s) k;
     k \<leftarrow> rt_object_delete s k;
     Some (RT_EOK, k)
   }"

text \<open>What the caller sees when it runs again: woken by a release, or by its timeout.\<close>

definition rt_sem_take_wake :: "addr \<Rightarrow> kernel \<Rightarrow> rt_err" where
  "rt_sem_take_wake t k =
     (if t_error (thread k t) \<noteq> RT_EOK then t_error (thread k t) else RT_EOK)"

definition rt_sem_take :: "addr \<Rightarrow> s32 \<Rightarrow> kernel \<Rightarrow> ((rt_err, addr) outcome \<times> kernel) option" where
  "rt_sem_take s time k = do {
     rt_assert (s \<noteq> 0);
     (if 0 < sem_value (sem k s)
      then Some (Done RT_EOK, upd_sem s (\<lambda>sm. sm\<lparr>sem_value := sem_value sm - 1\<rparr>) k)
      else if time = 0 then Some (Done (- RT_ETIMEOUT), k)
      else do {
        RT_DEBUG_IN_THREAD_CONTEXT k;
        t \<leftarrow> rt_thread_self k;
        let k = upd_thread t (\<lambda>th. th\<lparr>t_error := RT_EOK\<rparr>) k;
        k \<leftarrow> ipc_wait (Suspend_list s) t (obj_flag (objs k (Obj s))) time k;
        Some (if current k = Some t then Done (rt_sem_take_wake t k) else Blocked t, k)
      })
   }"

definition rt_sem_trytake :: "addr \<Rightarrow> kernel \<Rightarrow> ((rt_err, addr) outcome \<times> kernel) option" where
  "rt_sem_trytake s k = rt_sem_take s 0 k"

definition rt_sem_release :: "addr \<Rightarrow> kernel \<Rightarrow> (rt_err \<times> kernel) option" where
  "rt_sem_release s k =
     (if tlists k (Suspend_list s) \<noteq> []
      then do { k \<leftarrow> rt_ipc_list_resume (Suspend_list s) k; k \<leftarrow> rt_schedule k; Some (RT_EOK, k) }
      else Some (RT_EOK, upd_sem s (\<lambda>sm. sm\<lparr>sem_value := sem_value sm + 1\<rparr>) k))"

definition rt_sem_control :: "addr \<Rightarrow> u8 \<Rightarrow> u32 \<Rightarrow> kernel \<Rightarrow> (rt_err \<times> kernel) option" where
  "rt_sem_control s cmd arg k = do {
     rt_assert (s \<noteq> 0);
     (if cmd = RT_IPC_CMD_RESET then do {
        k \<leftarrow> rt_ipc_list_resume_all (Suspend_list s) k;
        let k = upd_sem s (\<lambda>sm. sm\<lparr>sem_value := ucast arg\<rparr>) k;
        k \<leftarrow> rt_schedule k;
        Some (RT_EOK, k)
      } else Some (- RT_ERROR, k))
   }"

subsection \<open>Correctness\<close>

text \<open>A semaphore nobody waits for may have any value; while a thread waits, the value is 0.\<close>

definition sem_wf :: "addr \<Rightarrow> kernel \<Rightarrow> bool" where
  "sem_wf s k = (s \<noteq> 0 \<and> ipc_flag_ok s k \<and> (tlists k (Suspend_list s) \<noteq> [] \<longrightarrow> sem_value (sem k s) = 0))"

lemma sem_take_available:
  assumes "s \<noteq> 0" "0 < sem_value (sem k s)"
  shows "rt_sem_take s time k =
    Some (Done RT_EOK, upd_sem s (\<lambda>sm. sm\<lparr>sem_value := sem_value sm - 1\<rparr>) k)"
  using assms by (simp add: rt_sem_take_def)

lemma sem_take_refused:
  assumes "s \<noteq> 0" "sem_value (sem k s) = 0"
  shows "rt_sem_take s 0 k = Some (Done (- RT_ETIMEOUT), k)"
  using assms by (simp add: rt_sem_take_def)

lemma sem_take_blocks:
  assumes it: "in_thread b t r k" and wf: "sem_wf s k" and v: "sem_value (sem k s) = 0"
    and n: "time \<noteq> 0" "time \<noteq> 0x7fffffff"
  obtains k' x where "rt_sem_take s time k = Some (Blocked t, k')" "kernel_inv b k'" "call_frame k k'"
    "thread k' = (thread k)(t := (thread k t)\<lparr>t_error := 0, stat := RT_THREAD_SUSPEND\<rparr>)"
    "tlists k' = (lists_remove t (tlists k))(Suspend_list s :=
       queue_in (obj_flag (objs k (Obj s))) k t (tlists k (Suspend_list s)))"
    "current k' = Some x" "highest k' x" "x \<noteq> t"
    "Thread_timer t \<in> set (timer_list k') \<longleftrightarrow> 0 <s time"
    "0 <s time \<longrightarrow> timeout_tick (timer k' (Thread_timer t)) = tick k + time"
proof -
  let ?fl = "obj_flag (objs k (Obj s))"
  have fl: "?fl = 0 \<or> ?fl = 1" using wf by (simp add: sem_wf_def ipc_flag_ok_def)
  let ?k0 = "upd_thread t (\<lambda>th. th\<lparr>t_error := 0\<rparr>) k"
  have w: "waiting (Suspend_list s)" by simp
  obtain k' x where k': "ipc_wait (Suspend_list s) t ?fl time ?k0 = Some k'" "kernel_inv b k'"
    "call_frame k k'"
    "thread k' = (thread k)(t := ((thread k t)\<lparr>t_error := 0\<rparr>)\<lparr>stat := RT_THREAD_SUSPEND\<rparr>)"
    "tlists k' = (lists_remove t (tlists k))(Suspend_list s := queue_in ?fl k t (tlists k (Suspend_list s)))"
    "current k' = Some x" "highest k' x" "x \<noteq> t"
    "Thread_timer t \<in> set (timer_list k') \<longleftrightarrow> 0 <s time"
    "0 <s time \<longrightarrow> timeout_tick (timer k' (Thread_timer t)) = tick k + time"
    by (rule blocking_wait_ok [OF it w n(2) fl refl, where f = "t_error_update (\<lambda>_. 0)"]) simp_all
  have "rt_sem_take s time k = Some (Blocked t, k')"
    using wf v n(1) k'(1,6,8) it by (simp add: rt_sem_take_def sem_wf_def)
  then show ?thesis using that k' by simp
qed

lemma sem_release_plain:
  assumes "tlists k (Suspend_list s) = []"
  shows "rt_sem_release s k = Some (RT_EOK, upd_sem s (\<lambda>sm. sm\<lparr>sem_value := sem_value sm + 1\<rparr>) k)"
  using assms by (simp add: rt_sem_release_def)

lemma sem_release_wake:
  "tlists k (Suspend_list s) \<noteq> [] \<Longrightarrow>
    rt_sem_release s k = map_option (Pair RT_EOK) (ipc_wake_one (Suspend_list s) k)"
  by (simp add: rt_sem_release_def ipc_wake_one_def map_option_case split: option.splits bind_splits)

lemma sem_release_hands_over:
  assumes inv: "kernel_inv b k" and q: "tlists k (Suspend_list s) = t # ts"
    and c: "current k \<noteq> None" and lock: "lock_nest k = 0"
  obtains k' x where "rt_sem_release s k = Some (RT_EOK, k')" "kernel_inv b k'" "call_frame k k'"
    "thread k' = (thread k)(t := (thread k t)\<lparr>stat := RT_THREAD_READY\<rparr>)"
    "tlists k' = lists_insert_last (Ready (unat (current_priority (thread k t)))) t
      (lists_remove t (tlists k))" "tlists k' (Suspend_list s) = ts"
    "Thread_timer t \<notin> set (timer_list k')" "current k' = Some x" "highest k' x"
proof -
  have w: "waiting (Suspend_list s)" by simp
  show ?thesis
    by (rule wake_one_ok [OF inv w q c lock], rule that)
      (use q in \<open>simp_all add: sem_release_wake\<close>)
qed

subsection \<open>The abstract semaphore\<close>

text \<open>
  What a semaphore is: a number and a queue of waiting threads. Taking decreases the number or,
  when it is zero, joins the queue; releasing takes the first thread out of the queue or, when
  nobody waits, increases the number.
\<close>

type_synonym sem_state = "nat \<times> addr list"

definition abs_take :: "(addr list \<Rightarrow> addr list) \<Rightarrow> sem_state \<Rightarrow> sem_state" where
  "abs_take join st = (case st of (v, q) \<Rightarrow> if 0 < v then (v - 1, q) else (v, join q))"

definition abs_release :: "sem_state \<Rightarrow> sem_state" where
  "abs_release st = (case st of (v, q) \<Rightarrow> if q = [] then (v + 1, q) else (v, tl q))"

definition sem_abs :: "addr \<Rightarrow> kernel \<Rightarrow> sem_state" where
  "sem_abs s k = (unat (sem_value (sem k s)), tlists k (Suspend_list s))"

lemma sem_wf_frame:
  "objs_frame k k' \<Longrightarrow> sem k' = sem k \<Longrightarrow> sem_wf s k' =
    (s \<noteq> 0 \<and> ipc_flag_ok s k \<and> (tlists k' (Suspend_list s) \<noteq> [] \<longrightarrow> sem_value (sem k s) = 0))"
  by (simp add: sem_wf_def ipc_flag_frame)

lemma take_available_refines:
  assumes it: "in_thread b t r k" and wf: "sem_wf s k" and v: "0 < sem_value (sem k s)"
  obtains k' where "rt_sem_take s time k = Some (Done RT_EOK, k')" "kernel_inv b k'" "sem_wf s k'"
    "sem_abs s k' = abs_take join (sem_abs s k)"
proof -
  let ?k' = "upd_sem s (\<lambda>sm. sm\<lparr>sem_value := sem_value sm - 1\<rparr>) k"
  have "rt_sem_take s time k = Some (Done RT_EOK, ?k')"
    using wf v by (intro sem_take_available) (simp_all add: sem_wf_def)
  moreover have "unat (sem_value (sem k s) - 1) = unat (sem_value (sem k s)) - 1"
    using v by (simp add: unat_minus_one word_neq_0_conv)
  moreover have "0 < unat (sem_value (sem k s))" using v by (simp add: word_less_nat_alt)
  ultimately show ?thesis
    using that [of ?k'] in_threadD(1) [OF it] wf v
    by (auto simp: sem_wf_def ipc_flag_ok_def sem_abs_def abs_take_def)
qed

lemma take_blocked_refines:
  assumes it: "in_thread b t r k" and wf: "sem_wf s k" and v: "sem_value (sem k s) = 0"
    and n: "time \<noteq> 0" "time \<noteq> 0x7fffffff"
  obtains k' where "rt_sem_take s time k = Some (Blocked t, k')" "kernel_inv b k'" "sem_wf s k'"
    "sem_abs s k' = abs_take (queue_in (obj_flag (objs k (Obj s))) k t) (sem_abs s k)"
proof -
  obtain k' x where k': "rt_sem_take s time k = Some (Blocked t, k')" "kernel_inv b k'" "call_frame k k'"
    "tlists k' = (lists_remove t (tlists k))(Suspend_list s :=
       queue_in (obj_flag (objs k (Obj s))) k t (tlists k (Suspend_list s)))"
    using sem_take_blocks [OF it wf v n] by metis
  have "objs_frame k k'"
    using k'(1) wf v n(1)
    by (auto simp: rt_sem_take_def sem_wf_def bind_Some_conv dest!: objs_frame_intro)
  then show ?thesis
    using that k' wf v call_frameD(6) [OF k'(3)]
    by (simp add: sem_wf_frame sem_abs_def abs_take_def) (simp add: sem_wf_def)
qed

lemma release_refines:
  assumes it: "in_thread b t r k" and wf: "sem_wf s k" and v: "unat (sem_value (sem k s)) < 65535"
  obtains k' where "rt_sem_release s k = Some (RT_EOK, k')" "kernel_inv b k'" "sem_wf s k'"
    "sem_abs s k' = abs_release (sem_abs s k)"
proof (cases "tlists k (Suspend_list s)")
  case Nil
  let ?k' = "upd_sem s (\<lambda>sm. sm\<lparr>sem_value := sem_value sm + 1\<rparr>) k"
  have "unat (sem_value (sem k s) + 1) = unat (sem_value (sem k s)) + 1"
    using v by (simp add: unat_word_ariths)
  then show ?thesis
    using that [of ?k'] sem_release_plain [OF Nil] in_threadD(1) [OF it] wf Nil
    by (simp add: sem_wf_def ipc_flag_ok_def sem_abs_def abs_release_def)
next
  case (Cons w ws)
  note d = in_threadD [OF it]
  obtain k' x where k': "rt_sem_release s k = Some (RT_EOK, k')" "kernel_inv b k'" "call_frame k k'"
    "tlists k' (Suspend_list s) = ws"
    using sem_release_hands_over [OF d(1) Cons d(9,5)] by metis
  have "objs_frame k k'"
    using k'(1) Cons by (auto simp: rt_sem_release_def bind_Some_conv dest!: objs_frame_intro
        intro: objs_frame_trans)
  then show ?thesis
    using that k' wf Cons call_frameD(6) [OF k'(3)]
    by (simp add: sem_wf_frame sem_abs_def abs_release_def) (simp add: sem_wf_def)
qed

subsection \<open>Properties\<close>

text \<open>C12. \<open>rt_sem_take\<close> with a time limit implements the abstract semaphore: it returns at once when
  the value is positive, and otherwise the caller waits in the queue, in order of arrival or of
  priority. That a thread waits only for a semaphore of value 0 is kept.\<close>

theorem rt_sem_take_refines:
  assumes "in_thread b t r k" "sem_wf s k" "time \<noteq> 0" "time \<noteq> 0x7fffffff"
  shows "\<exists>k'. rt_sem_take s time k =
      Some (if 0 < sem_value (sem k s) then Done RT_EOK else Blocked t, k') \<and>
    kernel_inv b k' \<and> sem_wf s k' \<and>
    sem_abs s k' = abs_take (queue_in (obj_flag (objs k (Obj s))) k t) (sem_abs s k)"
proof (cases "0 < sem_value (sem k s)")
  case True
  show ?thesis by (rule take_available_refines [OF assms(1,2) True]) (use True in auto)
next
  case False
  then have v: "sem_value (sem k s) = 0" by (simp add: word_neq_0_conv [symmetric])
  show ?thesis by (rule take_blocked_refines [OF assms(1,2) v assms(3,4)]) (use v in auto)
qed

lemma demo_sem_wf: "sem_wf 0x2000 demo" by (simp add: sem_wf_def ipc_flag_ok_def)

lemma rt_sem_take_refines_witness:
  "\<exists>k'. rt_sem_take 0x2000 (- 1) demo = Some (Blocked main_t, k') \<and> sem_wf 0x2000 k' \<and>
    sem_abs 0x2000 k' = (0, [wait_t, main_t])"
  using rt_sem_take_refines [OF demo_in_thread demo_sem_wf, of "- 1"]
  by (auto simp: sem_abs_def abs_take_def queue_in_def)

text \<open>C13. \<open>rt_sem_release\<close> implements the abstract semaphore as long as the 16 bit value does not wrap
  around: with threads waiting, the first of them gets what is released and the value stays.\<close>

theorem rt_sem_release_refines:
  assumes "in_thread b t r k" "sem_wf s k" "unat (sem_value (sem k s)) < 65535"
  shows "\<exists>k'. rt_sem_release s k = Some (RT_EOK, k') \<and> kernel_inv b k' \<and> sem_wf s k' \<and>
    sem_abs s k' = abs_release (sem_abs s k)"
  using release_refines [OF assms] by metis

lemma rt_sem_release_refines_witness:
  "\<exists>k'. rt_sem_release 0x2000 demo = Some (RT_EOK, k') \<and> sem_abs 0x2000 k' = (0, [])"
  using rt_sem_release_refines [OF demo_in_thread demo_sem_wf]
  by (auto simp: sem_abs_def abs_release_def)

text \<open>The value is a 16 bit number and \<open>rt_sem_release\<close> does not test it: at 65535 with nobody
  waiting the release reports success and sets the value to 0, so that every release is lost.\<close>

theorem rt_sem_release_wraps:
  assumes "sem_value (sem k s) = 0xffff" "tlists k (Suspend_list s) = []"
  shows "\<exists>k'. rt_sem_release s k = Some (RT_EOK, k') \<and> sem_value (sem k' s) = 0"
  using assms by (simp add: sem_release_plain)

lemma rt_sem_release_wraps_witness:
  "\<exists>k'. rt_sem_release 0x2100 (upd_sem 0x2100 (\<lambda>_. \<lparr>sem_value = 0xffff\<rparr>) demo) = Some (RT_EOK, k') \<and>
    sem_value (sem k' 0x2100) = 0"
  by (rule rt_sem_release_wraps) simp_all

end
