(* ===== verification/ClockSpec.thy ===== *)
theory ClockSpec
  imports Clock Semaphore
begin

text \<open>
  The clock and the timers at work: what a tick does, for any timeout functions that keep their
  contract, and that a function releasing a semaphore keeps it.
\<close>

subsection \<open>A timeout function that releases a semaphore\<close>

definition release_on_timeout :: callbacks where
  "release_on_timeout n p k = (case rt_sem_release p k of None \<Rightarrow> None | Some (_, k) \<Rightarrow> Some k)"

text \<open>What waking threads does to the timers.\<close>

definition timers_left :: "kernel \<Rightarrow> kernel \<Rightarrow> bool" where
  "timers_left k k' =
     (timer k' = timer k \<and> set (timer_list k') \<subseteq> set (timer_list k) \<and>
      (\<forall>r. bit (timer_flag r k') 1 = bit (timer_flag r k) 1))"

lemma timers_left_trans: "timers_left a b \<Longrightarrow> timers_left b c \<Longrightarrow> timers_left a c"
  by (auto simp: timers_left_def)

lemma timers_left_stop: "rt_timer_stop r k = Some (e, k') \<Longrightarrow> timers_left k k'"
  by (auto simp: timers_left_def rt_timer_stop_def bit_simps split: if_splits)

lemma timers_left_insert: "rt_schedule_insert_thread t k = Some k' \<Longrightarrow> timers_left k k'"
  by (auto simp: timers_left_def rt_schedule_insert_thread_def timer_flag_def Let_def split: if_splits)

lemma timers_left_schedule: "rt_schedule k = Some k' \<Longrightarrow> timers_left k k'"
  by (simp add: timers_left_def rt_schedule_sel timer_flag_def)

lemma timers_left_upd [simp]: "timers_left (k\<lparr>tlists := l\<rparr>) k' = timers_left k k'"
  by (simp add: timers_left_def timer_flag_def)

lemma timers_left_resume: "rt_thread_resume t k = Some (e, k') \<Longrightarrow> timers_left k k'"
  by (auto simp: rt_thread_resume_def bind_Some_conv split: if_splits prod.splits
      dest!: timers_left_stop timers_left_insert intro: timers_left_trans) (simp add: timers_left_def)

lemma timers_left_wake:
  assumes "ipc_wake_one h k = Some k'"
  shows "timers_left k k'"
proof (cases "tlists k h = []")
  case True
  then show ?thesis using assms by (simp add: ipc_wake_one_def timers_left_def)
next
  case False
  then obtain k1 where "rt_ipc_list_resume h k = Some k1" "rt_schedule k1 = Some k'"
    using assms by (auto simp: ipc_wake_one_def bind_Some_conv)
  then show ?thesis
    using timers_left_resume timers_left_schedule timers_left_trans
    by (auto simp: rt_ipc_list_resume_def bind_Some_conv) blast
qed

lemma release_on_timeout_law:
  assumes mc: "may_call b k" and p: "p \<noteq> 0"
  shows "\<exists>k'. release_on_timeout n p k = Some k' \<and> may_call b k' \<and> tick k' = tick k \<and> timer k' = timer k \<and>
    set (timer_list k') \<subseteq> set (timer_list k) \<and> (\<forall>r. bit (timer_flag r k') 1 = bit (timer_flag r k) 1)"
proof (cases "tlists k (Suspend_list p) = []")
  case True
  then show ?thesis
    using mc by (auto simp: release_on_timeout_def rt_sem_release_def may_call_def timer_flag_def)
next
  case False
  have w: "waiting (Suspend_list p)" by simp
  obtain k' where k': "ipc_wake_one (Suspend_list p) k = Some k'" "may_call b k'" "call_frame k k'" "objs_frame k k'"
    "tlists k' (Suspend_list p) = tl (tlists k (Suspend_list p))"
    "tlists k (Suspend_list p) \<noteq> [] \<longrightarrow> thread k' (hd (tlists k (Suspend_list p))) =
      (thread k (hd (tlists k (Suspend_list p))))\<lparr>stat := RT_THREAD_READY\<rparr>"
    by (rule wake_any_ok [OF mc w])
  have "rt_sem_release p k = Some (RT_EOK, k')"
    using k'(1) False by (auto simp: rt_sem_release_def ipc_wake_one_def bind_Some_conv)
  then show ?thesis
    using k'(2) call_frameD(1) [OF k'(3)] timers_left_wake [OF k'(1)]
    by (simp add: release_on_timeout_def timers_left_def)
qed

interpretation releasing: timeout_callback release_on_timeout "\<lambda>n p. p \<noteq> 0"
  by unfold_locales (rule release_on_timeout_law)

subsection \<open>Properties\<close>


text \<open>A periodic timer that releases a semaphore is the next to run out.\<close>

definition demo_periodic :: kernel where
  "demo_periodic = demo\<lparr>timer_list := Obj 0x2700 # timer_list demo,
     timer := (timer demo)(Obj 0x2700 := \<lparr>timeout_func = Fn_user 0, parameter = 0x2000, init_tick = 3,
       timeout_tick = 0xffffffff\<rparr>),
     objs := (objs demo)(Obj 0x2700 := (objs demo (Obj 0x2700))\<lparr>obj_flag := 3\<rparr>)\<rparr>"

lemma demo_periodic_call: "may_call (tick demo_periodic) demo_periodic"
proof -
  have "timers_ok 0xfffffffe demo_periodic"
    by (auto simp: timers_ok_def timers_sorted_def ahead_def timer_flag_def demo_periodic_def demo_timers_def demo_objs_def)
  moreover have "sched_wf demo_periodic" using demo_sched_wf by (simp add: sched_wf_def demo_periodic_def)
  moreover have "own_timer demo_periodic t = own_timer demo t" for t
    by (simp add: own_timer_def timer_flag_def demo_periodic_def)
  ultimately have "kernel_inv 0xfffffffe demo_periodic"
    using demo_inv by (simp add: kernel_inv_def) (simp add: demo_periodic_def)
  then show ?thesis by (simp add: may_call_def) (simp add: demo_periodic_def)
qed


text \<open>C35. A tick at which only the timers of threads run out wakes exactly their threads, each with
  \<open>-RT_ETIMEOUT\<close>, and takes exactly these timers off the list; the running thread loses one tick of
  its time slice, and the clock may wrap around.\<close>

theorem rt_tick_increase_wakes:
  assumes "kernel_inv (tick k) k" "current k = Some t" "stat (thread k t) = RT_THREAD_READY"
    and "\<forall>a. Obj a \<in> set (timer_list k) \<longrightarrow> \<not> due (k\<lparr>tick := tick k + 1\<rparr>) (Obj a)"
  shows "\<exists>k'. rt_tick_increase cb k = Some k' \<and> tick k' = tick k + 1 \<and> kernel_inv (tick k') k' \<and>
    timer_list k' = filter (\<lambda>r. \<not> due (k\<lparr>tick := tick k + 1\<rparr>) r) (timer_list k) \<and>
    thread k' t = (thread k t)\<lparr>remaining_tick := slice_left (thread k t)\<rparr> \<and>
    (\<forall>x. x \<noteq> t \<longrightarrow> thread k' x =
      (if Thread_timer x \<in> set (timer_list k) \<and> due (k\<lparr>tick := tick k + 1\<rparr>) (Thread_timer x)
       then (thread k x)\<lparr>t_error := - RT_ETIMEOUT, stat := RT_THREAD_READY\<rparr> else thread k x))"
proof -
  obtain k1 where k1: "tick_slice k = Some k1" "kernel_inv (tick k) k1" "tick k1 = tick k + 1" "current k1 \<noteq> None"
    "thread k1 = (thread k)(t := (thread k t)\<lparr>remaining_tick := slice_left (thread k t)\<rparr>)"
    "timer k1 = timer k" "timer_list k1 = timer_list k" "objs k1 = objs k" "lock_nest k1 = lock_nest k"
    by (rule tick_slice_ok [OF assms(1-3)])
  have due1: "due k1 = due (k\<lparr>tick := tick k + 1\<rparr>)" using k1(3,6) by (simp add: due_def [abs_def])
  have only: "\<exists>t. r = Thread_timer t" if "r \<in> set (timer_list k1)" "due k1 r" for r
    using assms(4) that k1(7) due1 by (cases r) auto
  obtain k' where k': "timer_check_loop cb (tick k1) k1 = Some k'" "kernel_inv (tick k1) k'" "call_frame k1 k'"
    "timer_list k' = filter (\<lambda>r. \<not> due k1 r) (timer_list k1)"
    "thread k' = (\<lambda>t. if Thread_timer t \<in> set (timer_list k1) \<and> due k1 (Thread_timer t)
      then (thread k1 t)\<lparr>t_error := - RT_ETIMEOUT, stat := RT_THREAD_READY\<rparr> else thread k1 t)"
    using check_loop_wakes [OF k1(2,4) only] by blast
  have tk: "tick k' = tick k1" using call_frameD(1) [OF k'(3)] .
  have "Thread_timer t \<notin> set (timer_list k)"
    using kernel_invD(6) [OF assms(1), of t] assms(3) by auto
  then have "thread k' t = (thread k t)\<lparr>remaining_tick := slice_left (thread k t)\<rparr>"
    using k'(5) k1(5,7) by simp
  moreover have "rt_tick_increase cb k = Some k'"
    using k1(1) k'(1) by (simp add: tick_increase_slice rt_timer_check_def rt_tick_get_def)
  ultimately show ?thesis
    using k'(2,4,5) tk k1(3,5,7) due1 by (intro exI [of _ k']) auto
qed

lemma rt_tick_increase_wakes_witness:
  "\<exists>k'. rt_tick_increase release_on_timeout (demo\<lparr>tick := 0\<rparr>) = Some k' \<and> stat (thread k' sleep_t) = RT_THREAD_READY \<and>
    timer_list k' = [Thread_timer wait_t]"
proof -
  have inv: "kernel_inv (tick (demo\<lparr>tick := 0\<rparr>)) (demo\<lparr>tick := 0\<rparr>)"
  proof -
    have "timers_ok 0 (demo\<lparr>tick := 0\<rparr>)"
      by (auto simp: timers_ok_def timers_sorted_def ahead_def timer_flag_def demo_timers_def demo_objs_def)
    moreover have "sched_wf (demo\<lparr>tick := 0\<rparr>)" using demo_sched_wf by (simp add: sched_wf_def)
    ultimately show ?thesis using demo_inv by (simp add: kernel_inv_def own_timer_def timer_flag_def)
  qed
  have due: "due (demo\<lparr>tick := tick (demo\<lparr>tick := 0\<rparr>) + 1\<rparr>) r = (r = Thread_timer sleep_t)"
    if "r \<in> set (timer_list demo)" for r
    using that by (auto simp: due_def demo_timers_def)
  show ?thesis
    using rt_tick_increase_wakes [OF inv, of main_t release_on_timeout] due by auto
qed

end
