(* ===== verification/System.thy ===== *)
theory System
  imports ClockSpec
begin

text \<open>
  The kernel as it runs: threads that yield, sleep, take and release semaphores, and the clock, in any
  order. What holds before and after each of these steps is one invariant, and no step gets stuck.
\<close>

subsection \<open>The timers of the application\<close>

text \<open>What calls of threads do to the timers that are not inside threads: nothing.\<close>

definition user_frame :: "kernel \<Rightarrow> kernel \<Rightarrow> bool" where
  "user_frame k k' =
     (objs_frame k k' \<and>
      (\<forall>a. (Obj a \<in> set (timer_list k') \<longrightarrow> Obj a \<in> set (timer_list k)) \<and> timer k' (Obj a) = timer k (Obj a)))"

named_theorems user_frame_intro "calls that keep the timers of the application"

lemma user_frame_refl [simp]: "user_frame k k" by (simp add: user_frame_def)

lemma user_frame_trans: "user_frame a b \<Longrightarrow> user_frame b c \<Longrightarrow> user_frame a c"
  by (auto simp: user_frame_def objs_frame_def)

lemma user_frame_upd [simp]:
  "user_frame k (upd_thread t f k') = user_frame k k'" "user_frame (upd_thread t f k) k' = user_frame k k'"
  "user_frame k (k'\<lparr>tlists := l\<rparr>) = user_frame k k'" "user_frame (k\<lparr>tlists := l\<rparr>) k' = user_frame k k'"
  "user_frame k (upd_sem s g k') = user_frame k k'"
  by (simp_all add: user_frame_def objs_frame_def)

lemma user_frame_stop [user_frame_intro]:
  "rt_timer_stop (Thread_timer t) k = Some (e, k') \<Longrightarrow> user_frame k k'"
  using objs_frame_stop [of t k e k']
  by (auto simp: user_frame_def rt_timer_stop_def split: if_splits)

lemma user_frame_start [user_frame_intro]:
  "rt_timer_start (Thread_timer t) k = Some (e, k') \<Longrightarrow> user_frame k k'"
  using objs_frame_start [of t k e k']
  by (auto simp: user_frame_def rt_timer_start_def Let_def timer_insert_set bind_Some_conv split: if_splits)

lemma user_frame_control [user_frame_intro]:
  "rt_timer_control (Thread_timer t) cmd arg k = Some (e, a, k') \<Longrightarrow> user_frame k k'"
  using objs_frame_control [of t cmd arg k e a k']
  by (auto simp: user_frame_def rt_timer_control_def Let_def split: if_splits)

lemma user_frame_sched [user_frame_intro]:
  "rt_schedule_insert_thread t k = Some k' \<Longrightarrow> user_frame k k'"
  "rt_schedule_remove_thread t k = Some k' \<Longrightarrow> user_frame k k'"
  "rt_schedule k = Some k' \<Longrightarrow> user_frame k k'"
  by (auto simp: rt_schedule_insert_thread_def rt_schedule_remove_thread_def rt_schedule_sel
      user_frame_def objs_frame_def Let_def split: if_splits)

lemma user_frame_suspend [user_frame_intro]:
  "rt_thread_suspend t k = Some (e, k') \<Longrightarrow> user_frame k k'"
  by (auto simp: rt_thread_suspend_def bind_Some_conv Let_def split: if_splits prod.splits
      dest!: user_frame_intro intro: user_frame_trans)

lemma user_frame_resume [user_frame_intro]:
  "rt_thread_resume t k = Some (e, k') \<Longrightarrow> user_frame k k'"
  by (auto simp: rt_thread_resume_def bind_Some_conv Let_def split: if_splits prod.splits
      dest!: user_frame_intro intro: user_frame_trans)

lemma user_frame_wait [user_frame_intro]:
  "ipc_wait h t flag time k = Some k' \<Longrightarrow> user_frame k k'"
  by (auto simp: ipc_wait_def rt_ipc_list_suspend_def bind_Some_conv split: if_splits prod.splits
      dest!: user_frame_intro intro: user_frame_trans)
    (metis user_frame_trans)+

lemma user_frame_wake_one [user_frame_intro]:
  "ipc_wake_one h k = Some k' \<Longrightarrow> user_frame k k'"
  by (auto simp: ipc_wake_one_def rt_ipc_list_resume_def bind_Some_conv split: if_splits prod.splits
      dest!: user_frame_intro intro: user_frame_trans)

lemma user_frame_sleep [user_frame_intro]:
  "rt_thread_sleep ticks k = Some (r, k') \<Longrightarrow> user_frame k k'"
  by (auto simp: rt_thread_sleep_def rt_thread_sleep_wake_def bind_Some_conv split: if_splits prod.splits
      dest!: user_frame_intro intro: user_frame_trans)
    (metis user_frame_trans)+

lemma user_frame_yield [user_frame_intro]:
  "rt_thread_yield k = Some (r, k') \<Longrightarrow> user_frame k k'"
  by (auto simp: rt_thread_yield_def bind_Some_conv Let_def split: if_splits prod.splits
      dest!: user_frame_intro)

lemma user_timers_frame:
  assumes "user_frame k k'" "user_timers good k"
  shows "user_timers good k'"
  using assms by (auto simp: user_timers_def user_frame_def objs_frame_def timer_flag_def split: timeout_fn.splits)

subsection \<open>The invariant of the running system\<close>

text \<open>
  No interrupt is served and the scheduler is not locked; the idle thread \<open>i\<close> is ready; the current
  thread is the first of the highest ready priority; the semaphores \<open>S\<close> are well-formed.
\<close>

definition calm :: "addr \<Rightarrow> addr set \<Rightarrow> kernel \<Rightarrow> bool" where
  "calm i S k =
     (irq_nest k = 0 \<and> stat (thread k i) = RT_THREAD_READY \<and> (\<exists>t. current k = Some t \<and> highest k t) \<and>
      (\<forall>s \<in> S. sem_wf s k \<and> Obj s \<notin> set (timer_list k)))"

definition sys_ok :: "(nat \<Rightarrow> u32 \<Rightarrow> bool) \<Rightarrow> addr \<Rightarrow> addr set \<Rightarrow> kernel \<Rightarrow> bool" where
  "sys_ok good i S k = (may_call (tick k) k \<and> calm i S k \<and> user_timers good k)"

lemma sys_okD:
  assumes "sys_ok good i S k"
  shows "kernel_inv (tick k) k" "lock_nest k = 0" "irq_nest k = 0" "stat (thread k i) = RT_THREAD_READY"
    "s \<in> S \<Longrightarrow> sem_wf s k" "user_timers good k" "may_call (tick k) k" "calm i S k"
  using assms by (auto simp: sys_ok_def may_call_def calm_def)

lemma sys_ok_current:
  assumes "sys_ok good i S k"
  obtains t where "current k = Some t" "highest k t" "stat (thread k t) = RT_THREAD_READY"
  using assms highest_ready_stat [OF kernel_invD(1) [OF sys_okD(1) [OF assms]]]
  by (auto simp: sys_ok_def calm_def)

lemma sys_ok_in_thread:
  assumes "sys_ok good i S k" "current k = Some t" "t \<noteq> i"
  shows "in_thread (tick k) t i k"
proof -
  obtain t' where "current k = Some t'" "stat (thread k t') = RT_THREAD_READY"
    by (rule sys_ok_current [OF assms(1)])
  then show ?thesis using sys_okD [OF assms(1)] assms(2,3) by (simp add: in_thread_def)
qed

text \<open>The semaphores of a state in which no thread waits that did not wait before.\<close>

definition sems_frame :: "kernel \<Rightarrow> kernel \<Rightarrow> bool" where
  "sems_frame k k' = (sem k' = sem k \<and> (\<forall>s. set (tlists k' (Suspend_list s)) \<subseteq> set (tlists k (Suspend_list s))))"

lemma sem_wf_fewer:
  assumes "sem_wf s k" "objs_frame k k'" "sems_frame k k'"
  shows "sem_wf s k'"
proof -
  have "set (tlists k' (Suspend_list s)) \<subseteq> set (tlists k (Suspend_list s))" using assms(3) by (simp add: sems_frame_def)
  then have "tlists k' (Suspend_list s) \<noteq> [] \<longrightarrow> tlists k (Suspend_list s) \<noteq> []" by auto
  then show ?thesis using assms ipc_flag_frame [OF assms(2)] by (simp add: sem_wf_def sems_frame_def)
qed

text \<open>A call keeps the invariant if it keeps the kernel's, ends with the right thread current, and
  leaves the semaphores well-formed.\<close>

lemma sys_ok_call:
  assumes ok: "sys_ok good i S k" and inv: "kernel_inv (tick k) k'" and cf: "call_frame k k'" and uf: "user_frame k k'"
    and st: "stat (thread k' i) = RT_THREAD_READY" and c: "current k' = Some x" "highest k' x"
    and sem: "\<And>s. s \<in> S \<Longrightarrow> sem_wf s k'"
  shows "sys_ok good i S k'"
proof -
  have "Obj s \<notin> set (timer_list k')" if "s \<in> S" for s
    using ok that uf by (auto simp: sys_ok_def calm_def user_frame_def)
  then show ?thesis
    using ok inv st c sem call_frameD(1-3) [OF cf] user_timers_frame [OF uf sys_okD(6) [OF ok]]
    by (auto simp: sys_ok_def calm_def may_call_def)
qed

subsection \<open>The calls keep it\<close>

lemma yield_calm:
  assumes inv: "kernel_inv b k" and lock: "lock_nest k = 0" and cm: "calm i S k"
  obtains e k' where "rt_thread_yield k = Some (e, k')" "kernel_inv b k'" "call_frame k k'" "calm i S k'"
proof -
  obtain t where t: "current k = Some t" "highest k t" using cm by (auto simp: calm_def)
  have st: "stat (thread k t) = RT_THREAD_READY" by (rule highest_ready_stat [OF kernel_invD(1) [OF inv] t(2)])
  let ?q = "Ready (unat (current_priority (thread k t)))"
  show ?thesis
  proof (cases "1 < length (tlists k ?q)")
    case False
    then have "rt_thread_yield k = Some (0, k)" using t(1) by (simp add: rt_thread_yield_def)
    then show ?thesis using that inv cm by simp
  next
    case True
    obtain k' where k': "rt_thread_yield k = Some (0, k')" "kernel_inv b k'" "thread k' = thread k"
      "thread_frame k (k'\<lparr>current := current k, current_prio := current_prio k\<rparr>)"
      "let q = Ready (unat (current_priority (thread k t))) in tlists k' = (tlists k)(q := removeAll t (tlists k q) @ [t])"
      "\<exists>s. current k' = Some s \<and> highest k' s"
      using yield_ok [OF inv t(1) st] lock True by metis
    have cf: "call_frame k k'" using k'(4) by (simp add: call_frame_def)
    have uf: "user_frame k k'" by (rule user_frame_yield [OF k'(1)])
    have "sems_frame k k'" using k'(5) call_frameD(6) [OF cf] by (simp add: sems_frame_def Let_def)
    then have sem: "sem_wf s k' \<and> Obj s \<notin> set (timer_list k')" if "s \<in> S" for s
      using sem_wf_fewer [of s k k'] cm that uf by (auto simp: user_frame_def calm_def)
    have "calm i S k'" using sem k'(3,6) cm call_frameD(3) [OF cf] by (simp add: calm_def)
    then show ?thesis by (rule that [OF k'(1,2) cf])
  qed
qed

lemma yield_keeps:
  assumes ok: "sys_ok good i S k"
  obtains e k' where "rt_thread_yield k = Some (e, k')" "sys_ok good i S k'" "tick k' = tick k"
proof -
  note d = sys_okD [OF ok]
  obtain e k' where k': "rt_thread_yield k = Some (e, k')" "kernel_inv (tick k) k'" "call_frame k k'" "calm i S k'"
    by (rule yield_calm [OF d(1,2,8)])
  have "user_timers good k'" by (rule user_timers_frame [OF user_frame_yield [OF k'(1)] d(6)])
  then have "sys_ok good i S k'"
    using k'(2,4) call_frameD(1,2) [OF k'(3)] d(2) by (auto simp: sys_ok_def may_call_def calm_def)
  then show ?thesis by (rule that [OF k'(1) _ call_frameD(1) [OF k'(3)]])
qed

lemma sleep_keeps:
  assumes ok: "sys_ok good i S k" and c: "current k = Some t" "t \<noteq> i" and n: "ticks < RT_TICK_HALF"
  obtains k' where "rt_thread_sleep ticks k = Some (Blocked t, k')" "sys_ok good i S k'" "tick k' = tick k"
proof -
  have it: "in_thread (tick k) t i k" by (rule sys_ok_in_thread [OF ok c])
  note d = in_threadD [OF it]
  obtain k' s where k': "rt_thread_sleep ticks k = Some (Blocked t, k')" "kernel_inv (tick k) k'"
    "current k' = Some s" "highest k' s"
    using sleep_ok [OF d(1-3) n d(5-7)] by metis
  obtain k1 where k1: "rt_thread_suspend t k = Some (0, k1)" "kernel_inv (tick k) k1" "thread_frame k k1"
    "thread k1 = (thread k)(t := (thread k t)\<lparr>stat := RT_THREAD_SUSPEND\<rparr>)"
    "tlists k1 = lists_remove t (tlists k)"
    using suspend_ok [OF d(1,3)] by metis
  have st1: "stat (thread k1 t) = RT_THREAD_SUSPEND" using k1(4) by simp
  obtain k2 where k2: "arm_timer t ticks k1 = Some k2" "timer_frame k1 k2"
    using arm_timer_ok [OF k1(2) st1 n] by metis
  have k3: "rt_schedule k2 = Some k'"
    using k'(1) k1(1) k2(1) d(2) rt_thread_sleep_arm [of ticks k]
    by (auto simp: rt_thread_sleep_wake_def bind_Some_conv Let_def split: if_splits prod.splits)
  note sel = rt_schedule_sel [OF k3] and tf = timer_frameD [OF k2(2)]
  have cf: "call_frame k k'"
    using call_frame_thread [OF k1(3)] call_frame_thread [OF thread_frame_timer [OF k2(2)]]
      call_frame_schedule [OF k3] call_frame_trans by blast
  have uf: "user_frame k k'" by (rule user_frame_sleep [OF k'(1)])
  have tl: "tlists k' = lists_remove t (tlists k)" "stat (thread k' i) = RT_THREAD_READY"
    using sel tf k1(4,5) sys_okD(4) [OF ok] c(2) by simp_all
  have "sems_frame k k'" using tl(1) call_frameD(6) [OF cf] by (auto simp: sems_frame_def lists_remove_def)
  then have sem: "sem_wf s k'" if "s \<in> S" for s
    using sem_wf_fewer [OF sys_okD(5) [OF ok that]] uf by (simp add: user_frame_def)
  show ?thesis by (rule that [OF k'(1) sys_ok_call [OF ok k'(2) cf uf tl(2) k'(3,4) sem] call_frameD(1) [OF cf]])
qed

lemma sys_ok_sem:
  assumes "sys_ok good i S k" "\<And>s. s \<in> S \<Longrightarrow> sem_wf s (upd_sem s' f k)"
  shows "sys_ok good i S (upd_sem s' f k)"
proof -
  have "user_timers good (upd_sem s' f k)"
    using user_timers_frame [of k "upd_sem s' f k" good] sys_okD(6) [OF assms(1)] by simp
  moreover have "highest (upd_sem s' f k) t = highest k t" for t by (simp add: highest_def)
  ultimately show ?thesis using assms by (auto simp: sys_ok_def may_call_def calm_def)
qed

lemma take_keeps:
  assumes ok: "sys_ok good i S k" and s: "s \<in> S" and c: "current k = Some t" "time = 0 \<or> t \<noteq> i"
    and n: "time \<noteq> 0x7fffffff"
  obtains r k' where "rt_sem_take s time k = Some (r, k')" "sys_ok good i S k'" "tick k' = tick k"
proof -
  have wf: "sem_wf s k" using sys_okD(5) [OF ok s] .
  then have s0: "s \<noteq> 0" by (simp add: sem_wf_def)
  consider "0 < sem_value (sem k s)" | "sem_value (sem k s) = 0" "time = 0" | "sem_value (sem k s) = 0" "time \<noteq> 0"
    by (metis word_gt_0)
  then show ?thesis
  proof cases
    case 1
    have "sem_wf x (upd_sem s (\<lambda>sm. sm\<lparr>sem_value := sem_value sm - 1\<rparr>) k)" if "x \<in> S" for x
      using sys_okD(5) [OF ok that] wf 1 by (auto simp: sem_wf_def ipc_flag_ok_def)
    from that [OF sem_take_available [OF s0 1] sys_ok_sem [OF ok this]] show ?thesis by simp
  next
    case 2
    from that [OF _ ok] sem_take_refused [OF s0 2(1)] 2(2) show ?thesis by blast
  next
    case 3
    then have ti: "t \<noteq> i" using c(2) by blast
    have it: "in_thread (tick k) t i k" by (rule sys_ok_in_thread [OF ok c(1) ti])
    obtain k' x where k': "rt_sem_take s time k = Some (Blocked t, k')" "kernel_inv (tick k) k'" "call_frame k k'"
      "thread k' = (thread k)(t := (thread k t)\<lparr>t_error := 0, stat := RT_THREAD_SUSPEND\<rparr>)"
      "tlists k' = (lists_remove t (tlists k))(Suspend_list s :=
         queue_in (obj_flag (objs k (Obj s))) k t (tlists k (Suspend_list s)))"
      "current k' = Some x" "highest k' x"
      using sem_take_blocks [OF it wf 3 n] by metis
    have uf: "user_frame k k'"
      using k'(1) 3 s0 by (auto simp: rt_sem_take_def bind_Some_conv Let_def split: if_splits dest!: user_frame_intro)
    have st: "stat (thread k' i) = RT_THREAD_READY" using k'(4) ti sys_okD(4) [OF ok] by simp
    have fl: "objs_frame k k'" "sem k' = sem k" using uf call_frameD(6) [OF k'(3)] by (simp_all add: user_frame_def)
    have "sem_wf x k'" if "x \<in> S" for x
      using sys_okD(5) [OF ok that] fl k'(5) 3(1) ipc_flag_frame [OF fl(1)]
      by (auto simp: sem_wf_def lists_remove_def)
    from that [OF k'(1) sys_ok_call [OF ok k'(2,3) uf st k'(6,7) this] call_frameD(1) [OF k'(3)]] show ?thesis .
  qed
qed

lemma calm_sem:
  assumes "calm i S k" "\<And>s. s \<in> S \<Longrightarrow> sem_wf s (upd_sem s' f k)"
  shows "calm i S (upd_sem s' f k)"
proof -
  have "highest (upd_sem s' f k) t = highest k t" for t by (simp add: highest_def)
  then show ?thesis using assms by (auto simp: calm_def)
qed

lemma release_calm:
  assumes mc: "may_call b k" and cm: "calm i S k"
  obtains k' where "rt_sem_release s k = Some (RT_EOK, k')" "may_call b k'" "calm i S k'" "user_frame k k'" "tick k' = tick k"
proof (cases "tlists k (Suspend_list s)")
  case Nil
  let ?k = "upd_sem s (\<lambda>sm. sm\<lparr>sem_value := sem_value sm + 1\<rparr>) k"
  have "sem_wf x ?k" if "x \<in> S" for x
    using cm that Nil by (auto simp: sem_wf_def ipc_flag_ok_def calm_def)
  then have "calm i S ?k" by (rule calm_sem [OF cm])
  moreover have "may_call b ?k" using mc by (simp add: may_call_def)
  ultimately show ?thesis using that [OF sem_release_plain [OF Nil]] by simp
next
  case (Cons w ws)
  have m: "kernel_inv b k" "current k \<noteq> None" "lock_nest k = 0" using mc by (simp_all add: may_call_def)
  obtain k' x where k': "rt_sem_release s k = Some (RT_EOK, k')" "kernel_inv b k'" "call_frame k k'"
    "thread k' = (thread k)(w := (thread k w)\<lparr>stat := RT_THREAD_READY\<rparr>)"
    "tlists k' = lists_insert_last (Ready (unat (current_priority (thread k w)))) w (lists_remove w (tlists k))"
    "current k' = Some x" "highest k' x"
    using sem_release_hands_over [OF m(1) Cons m(2,3)] by metis
  have "ipc_wake_one (Suspend_list s) k = Some k'"
    using k'(1) sem_release_wake [of k s] Cons by auto
  then have uf: "user_frame k k'" by (rule user_frame_wake_one)
  have "sems_frame k k'"
    using k'(5) call_frameD(6) [OF k'(3)] by (auto simp: sems_frame_def lists_remove_def lists_insert_last_def)
  then have "sem_wf y k' \<and> Obj y \<notin> set (timer_list k')" if "y \<in> S" for y
    using sem_wf_fewer [of y k k'] cm that uf by (auto simp: user_frame_def calm_def)
  then have "calm i S k'" using k'(4,6,7) cm call_frameD(3) [OF k'(3)] by (simp add: calm_def)
  moreover have "may_call b k'" using k'(2,6) m(3) call_frameD(2) [OF k'(3)] by (simp add: may_call_def)
  ultimately show ?thesis using that [OF k'(1)] uf call_frameD(1) [OF k'(3)] by blast
qed

lemma release_keeps:
  assumes ok: "sys_ok good i S k"
  obtains k' where "rt_sem_release s k = Some (RT_EOK, k')" "sys_ok good i S k'" "tick k' = tick k"
proof -
  obtain k' where k': "rt_sem_release s k = Some (RT_EOK, k')" "may_call (tick k) k'" "calm i S k'"
    "user_frame k k'" "tick k' = tick k"
    by (rule release_calm [OF sys_okD(7,8) [OF ok]])
  then show ?thesis using that user_timers_frame [OF k'(4) sys_okD(6) [OF ok]] by (simp add: sys_ok_def)
qed

lemma sleep_ends_keeps:
  assumes ok: "sys_ok good i S k" and w: "rt_thread_sleep_wake t k = (e, k')"
  shows "sys_ok good i S k' \<and> tick k' = tick k"
proof -
  have e: "k' = k \<or> k' = upd_thread t (\<lambda>th. th\<lparr>t_error := RT_EOK\<rparr>) k"
    using w by (auto simp: rt_thread_sleep_wake_def split: if_splits)
  let ?k = "upd_thread t (\<lambda>th. th\<lparr>t_error := RT_EOK\<rparr>) k"
  have "user_timers good ?k" using user_timers_frame [of k ?k good] sys_okD(6) [OF ok] by simp
  moreover have "highest ?k x = highest k x" for x by (simp add: highest_def)
  moreover have "sem_wf s ?k = sem_wf s k" for s by (simp add: sem_wf_def ipc_flag_ok_def)
  ultimately have "sys_ok good i S ?k" using ok by (auto simp: sys_ok_def may_call_def calm_def)
  then show ?thesis using e ok by auto
qed

subsection \<open>The clock keeps it\<close>

lemma calm_timer:
  assumes "calm i S k" "timer_frame k k'"
    and "\<And>s. s \<in> S \<Longrightarrow> objs k' (Obj s) = objs k (Obj s) \<and> Obj s \<notin> set (timer_list k')"
  shows "calm i S k'"
  using assms(1,3) timer_frameD [OF assms(2)]
  by (auto simp: calm_def highest_def sem_wf_def ipc_flag_ok_def)

lemma calm_flag:
  assumes "calm i S k" "r \<notin> Obj ` S"
  shows "calm i S (set_timer_flag r f k)"
proof (rule calm_timer [OF assms(1)])
  show "timer_frame k (set_timer_flag r f k)" by simp
qed (use assms in \<open>auto simp: calm_def set_timer_flag_def\<close>)

lemma slice_calm:
  assumes inv: "kernel_inv (tick k) k" and lock: "lock_nest k = 0" and cm: "calm i S k" and s: "tick_slice k = Some k'"
  shows "calm i S k'"
proof -
  obtain t where t: "current k = Some t" "highest k t" using cm by (auto simp: calm_def)
  let ?k1 = "upd_thread t (\<lambda>th. th\<lparr>remaining_tick := remaining_tick th - 1\<rparr>) (k\<lparr>tick := tick k + 1\<rparr>)"
  let ?k2 = "upd_thread t (\<lambda>th. th\<lparr>remaining_tick := t_init_tick th\<rparr>) ?k1"
  have cm12: "calm i S ?k1" "calm i S ?k2"
    using cm by (auto simp: calm_def highest_def sem_wf_def ipc_flag_ok_def)
  have inv2: "kernel_inv (tick k) ?k2"
    using tick_inv [OF inv] by (subst kernel_inv_cong) (auto simp: timer_flag_def stack_ok_def)
  have lock2: "lock_nest ?k2 = 0" using lock by simp
  show ?thesis
  proof (cases "remaining_tick (thread ?k1 t) = 0")
    case False
    then have "k' = ?k1" using s t(1) by (simp add: tick_slice_def rt_thread_self_def)
    then show ?thesis using cm12 by simp
  next
    case True
    obtain e k3 where k3: "rt_thread_yield ?k2 = Some (e, k3)" "calm i S k3"
      by (rule yield_calm [OF inv2 lock2 cm12(2)])
    have "k' = k3" using s t(1) True k3(1) by (simp add: tick_slice_def rt_thread_self_def)
    then show ?thesis using k3(2) by simp
  qed
qed

lemma timeout_calm:
  assumes mc: "may_call b k" and cm: "calm i S k" and t: "Thread_timer t \<in> set (timer_list k)"
    and f: "fire cb (Thread_timer t) k = Some k'"
  shows "calm i S k'"
proof -
  have m: "kernel_inv b k" "current k \<noteq> None" "lock_nest k = 0" using mc by (simp_all add: may_call_def)
  have st: "stat (thread k t) = RT_THREAD_SUSPEND" by (rule kernel_invD(6) [OF m(1) t])
  have ot: "own_timer k t" by (rule kernel_invD(4) [OF m(1) live_ready(2) [OF st]])
  let ?k0 = "timer_remove (Thread_timer t) k"
  have k0: "kernel_inv b ?k0" "stat (thread ?k0 t) = RT_THREAD_SUSPEND" "Thread_timer t \<notin> set (timer_list ?k0)"
    "current ?k0 \<noteq> None" "lock_nest ?k0 = 0"
    using timer_remove_inv [OF m(1)] st m by (simp_all add: timer_remove_def)
  obtain k1 where k1: "rt_thread_timeout t ?k0 = Some k1"
    "thread k1 = (thread ?k0)(t := (thread ?k0 t)\<lparr>t_error := - 2, stat := RT_THREAD_READY\<rparr>)"
    "tlists k1 = lists_insert_last (Ready (unat (current_priority (thread ?k0 t)))) t (lists_remove t (tlists ?k0))"
    "timer_list k1 = timer_list ?k0" "objs k1 = objs ?k0"
    "thread_frame ?k0 (k1\<lparr>current := current ?k0, current_prio := current_prio ?k0\<rparr>)"
    "\<exists>s. current k1 = Some s \<and> highest k1 s"
    using timeout_ok [OF k0(1-4)] k0(5) by metis
  have cf: "call_frame ?k0 k1" using k1(6) by (simp add: call_frame_def)
  have "irq_nest k1 = 0" "sem k1 = sem k" "stat (thread k1 i) = RT_THREAD_READY"
    using call_frameD(3,6) [OF cf] cm k1(2) by (simp_all add: timer_remove_def calm_def)
  moreover have "sem_wf s k1 \<and> Obj s \<notin> set (timer_list k1)" if "s \<in> S" for s
  proof -
    have "sems_frame k k1"
      using k1(3) \<open>sem k1 = sem k\<close> by (auto simp: sems_frame_def lists_remove_def lists_insert_last_def timer_remove_def)
    moreover have "objs_frame k k1" using k1(5) by (simp add: objs_frame_def timer_remove_def)
    ultimately show ?thesis using sem_wf_fewer cm that k1(4) by (auto simp: calm_def timer_remove_def)
  qed
  ultimately have c1: "calm i S k1" using k1(7) by (simp add: calm_def)
  have "\<not> bit (timer_flag (Thread_timer t) k1) 1"
    using ot k1(5) by (simp add: own_timer_def timer_flag_def timer_remove_def)
  then have fl: "timer_flag (Thread_timer t) k1 AND 2 = 0" by (simp add: flag_periodic)
  let ?k2 = "set_timer_flag (Thread_timer t) (timer_flag (Thread_timer t) k1 AND NOT 1) k1"
  have "k' = ?k2" using f k1(1) ot fl by (auto simp: fire_def call_timeout_def own_timer_def)
  moreover have "calm i S ?k2"
    by (rule calm_flag [OF c1]) auto
  ultimately show ?thesis by simp
qed

text \<open>Timeout functions that, besides keeping the contract of the timers, keep the system's invariant.\<close>

locale system_callback = timeout_callback +
  assumes cb_calm: "may_call b k \<Longrightarrow> good n p \<Longrightarrow> calm i S k \<Longrightarrow> cb n p k = Some k' \<Longrightarrow> calm i S k'"
begin

lemma user_calm:
  assumes mc: "may_call b k" and u: "user_timers good k" and cm: "calm i S k" and a: "Obj a \<in> set (timer_list k)"
    and f: "fire cb (Obj a) k = Some k'"
  shows "calm i S k'"
proof -
  let ?k0 = "timer_remove (Obj a) k"
  obtain n where n: "timeout_func (timer k (Obj a)) = Fn_user n" "good n (parameter (timer k (Obj a)))"
    using u a unfolding user_timers_def by (cases "timeout_func (timer k (Obj a))") force+
  have mc0: "may_call b ?k0" using mc timer_remove_inv [of b k "Obj a"] by (simp add: may_call_def timer_remove_def)
  have aS: "a \<notin> S" using cm a by (auto simp: calm_def)
  have cm0: "calm i S ?k0" by (rule calm_timer [OF cm]) (use cm in \<open>auto simp: calm_def timer_remove_def timer_frame_def sans_timers_def\<close>)
  obtain k1 where k1: "cb n (parameter (timer k (Obj a))) ?k0 = Some k1" using cb_law [OF mc0 n(2)] by blast
  have cm1: "calm i S k1" by (rule cb_calm [OF mc0 n(2) cm0 k1])
  let ?k2 = "set_timer_flag (Obj a) (timer_flag (Obj a) k1 AND NOT 1) k1"
  have cm2: "calm i S ?k2" by (rule calm_flag [OF cm1]) (use aS in auto)
  have "k' = ?k2 \<or> (\<exists>e. rt_timer_start (Obj a) ?k2 = Some (e, k'))"
    using f n(1) k1 by (auto simp: fire_def call_timeout_def bind_Some_conv split: if_splits)
  then show ?thesis
  proof
    assume "\<exists>e. rt_timer_start (Obj a) ?k2 = Some (e, k')"
    then obtain e where e: "rt_timer_start (Obj a) ?k2 = Some (e, k')" by blast
    have tf: "timer_frame ?k2 k'"
      using e by (auto simp: rt_timer_start_def Let_def bind_Some_conv timer_frame_def sans_timers_def timer_remove_def
        set_timer_flag_def)
    show ?thesis
    proof (rule calm_timer [OF cm2 tf])
      fix s assume "s \<in> S"
      then have "s \<noteq> a" "Obj s \<notin> set (timer_list ?k2)" using aS cm2 by (auto simp: calm_def)
      then show "objs k' (Obj s) = objs ?k2 (Obj s) \<and> Obj s \<notin> set (timer_list k')"
        using e by (auto simp: rt_timer_start_def Let_def bind_Some_conv timer_insert_set timer_remove_def
          set_timer_flag_def)
    qed
  qed (use cm2 in simp)
qed

lemma tick_sys:
  assumes ok: "sys_ok good i S k"
  obtains k' where "rt_tick_increase cb k = Some k'" "sys_ok good i S k'" "tick k' = tick k + 1"
proof -
  obtain t where t: "current k = Some t" "stat (thread k t) = RT_THREAD_READY" by (rule sys_ok_current [OF ok])
  note d = sys_okD [OF ok]
  have "\<exists>k'. rt_tick_increase cb k = Some k' \<and> tick k' = tick k + 1 \<and> may_call (tick k') k' \<and>
    user_timers good k' \<and> (\<forall>x \<in> set (timer_list k'). \<not> due k' x) \<and> calm i S k'"
  proof (rule tick_keeps [OF d(7,6) t])
    show "calm i S k1" if "tick_slice k = Some k1" for k1 by (rule slice_calm [OF d(1,2,8) that])
    show "calm i S k1" if "may_call (tick k) j" "user_timers good j" "calm i S j" "r \<in> set (timer_list j)"
      "fire cb r j = Some k1" for j r k1
      using that timeout_calm [OF that(1,3)] user_calm [OF that(1-3)] by (cases r) auto
  qed
  then show ?thesis using that by (auto simp: sys_ok_def)
qed

end

interpretation releasing_sys: system_callback release_on_timeout "\<lambda>n p. p \<noteq> 0"
proof
  fix b k n p i S k'
  assume a: "may_call b k" "calm i S k" "release_on_timeout n p k = Some k'"
  obtain k1 where "rt_sem_release p k = Some (RT_EOK, k1)" "calm i S k1"
    using release_calm [OF a(1,2)] by metis
  then show "calm i S k'" using a(3) by (simp add: release_on_timeout_def)
qed

subsection \<open>Runs\<close>

datatype sys_call = Yield | Sleep u32 | Sleep_ends addr | Take addr s32 | Release addr | Tick

text \<open>
  One step: the current thread calls the kernel, a thread that slept goes on, or the clock ticks.
  The idle thread \<open>i\<close> never makes a call that blocks, nobody sleeps for half the range of the clock.
\<close>

inductive sys_step :: "callbacks \<Rightarrow> addr \<Rightarrow> addr set \<Rightarrow> sys_call \<Rightarrow> kernel \<Rightarrow> kernel \<Rightarrow> bool" for cb i S where
  yields: "rt_thread_yield k = Some (e, k') \<Longrightarrow> sys_step cb i S Yield k k'"
| sleeps: "current k = Some t \<Longrightarrow> t \<noteq> i \<Longrightarrow> ticks < RT_TICK_HALF \<Longrightarrow>
    rt_thread_sleep ticks k = Some (r, k') \<Longrightarrow> sys_step cb i S (Sleep ticks) k k'"
| wakes: "rt_thread_sleep_wake t k = (e, k') \<Longrightarrow> sys_step cb i S (Sleep_ends t) k k'"
| takes: "s \<in> S \<Longrightarrow> current k = Some t \<Longrightarrow> time = 0 \<or> t \<noteq> i \<Longrightarrow> time \<noteq> 0x7fffffff \<Longrightarrow>
    rt_sem_take s time k = Some (o', k') \<Longrightarrow> sys_step cb i S (Take s time) k k'"
| releases: "s \<in> S \<Longrightarrow> rt_sem_release s k = Some (e, k') \<Longrightarrow> sys_step cb i S (Release s) k k'"
| ticks: "rt_tick_increase cb k = Some k' \<Longrightarrow> sys_step cb i S Tick k k'"

inductive_simps sys_step_simps:
  "sys_step cb i S Yield k k'" "sys_step cb i S (Sleep n) k k'" "sys_step cb i S (Sleep_ends t) k k'"
  "sys_step cb i S (Take s n) k k'" "sys_step cb i S (Release s) k k'" "sys_step cb i S Tick k k'"

text \<open>When a step may be made.\<close>

fun enabled :: "addr \<Rightarrow> addr set \<Rightarrow> sys_call \<Rightarrow> kernel \<Rightarrow> bool" where
  "enabled i S (Sleep n) k = (current k \<noteq> Some i \<and> n < RT_TICK_HALF)"
| "enabled i S (Take s n) k = (s \<in> S \<and> (n = 0 \<or> current k \<noteq> Some i) \<and> n \<noteq> 0x7fffffff)"
| "enabled i S (Release s) k = (s \<in> S)"
| "enabled i S _ k = True"

inductive sys_run :: "callbacks \<Rightarrow> addr \<Rightarrow> addr set \<Rightarrow> sys_call list \<Rightarrow> kernel \<Rightarrow> kernel \<Rightarrow> bool" for cb i S where
  run_nil: "sys_run cb i S [] k k"
| run_cons: "sys_step cb i S c k k1 \<Longrightarrow> sys_run cb i S cs k1 k' \<Longrightarrow> sys_run cb i S (c # cs) k k'"

inductive_cases sys_run_consE: "sys_run cb i S (c # cs) k k'"

definition ticks_of :: "sys_call list \<Rightarrow> nat" where
  "ticks_of cs = length (filter (\<lambda>c. c = Tick) cs)"

context system_callback
begin

lemma step_keeps:
  assumes "sys_step cb i S c k k'" "sys_ok good i S k"
  shows "sys_ok good i S k' \<and> tick k' = (if c = Tick then tick k + 1 else tick k)"
  using assms(1)
proof cases
  case (yields e)
  then show ?thesis using yield_keeps [OF assms(2)] by (metis option.inject prod.inject sys_call.distinct(9))
next
  case (sleeps t n r)
  then show ?thesis using sleep_keeps [OF assms(2) sleeps(2,3,4)] by (metis option.inject prod.inject sys_call.distinct(17))
next
  case (wakes t e)
  then show ?thesis using sleep_ends_keeps [OF assms(2)] by simp
next
  case (takes s t n r)
  then show ?thesis using take_keeps [OF assms(2) takes(2-5)] by (metis option.inject prod.inject sys_call.distinct(27))
next
  case (releases s e)
  then show ?thesis using release_keeps [OF assms(2), of s] by (metis option.inject prod.inject sys_call.distinct(29))
next
  case ticks
  then show ?thesis using tick_sys [OF assms(2)] by (metis option.inject)
qed

lemma run_keeps:
  assumes "sys_run cb i S cs k k'" "sys_ok good i S k"
  shows "sys_ok good i S k' \<and> tick k' = tick k + of_nat (ticks_of cs)"
  using assms
proof (induction rule: sys_run.induct)
  case (run_cons c k k1 cs k')
  then show ?case using step_keeps [OF run_cons(1,4)] by (auto simp: ticks_of_def)
qed (simp add: ticks_of_def)

lemma step_enabled:
  assumes ok: "sys_ok good i S k" and e: "enabled i S c k"
  shows "\<exists>k'. sys_step cb i S c k k'"
proof -
  obtain t where t: "current k = Some t" by (rule sys_ok_current [OF ok])
  show ?thesis
  proof (cases c)
    case Yield
    then show ?thesis using yield_keeps [OF ok] sys_step.yields by metis
  next
    case (Sleep n)
    then have n: "t \<noteq> i" "n < RT_TICK_HALF" using e t by auto
    then show ?thesis using sleep_keeps [OF ok t n] sys_step.sleeps [OF t n] Sleep by metis
  next
    case (Sleep_ends x)
    then show ?thesis using sys_step.wakes by (metis surj_pair)
  next
    case (Take s n)
    then have n: "s \<in> S" "n = 0 \<or> t \<noteq> i" "n \<noteq> 0x7fffffff" using e t by auto
    then show ?thesis using take_keeps [OF ok n(1) t n(2,3)] sys_step.takes [OF n(1) t n(2,3)] Take by metis
  next
    case (Release s)
    then have "s \<in> S" using e by simp
    then show ?thesis using release_keeps [OF ok] sys_step.releases Release by metis
  next
    case Tick
    then show ?thesis using tick_sys [OF ok] sys_step.ticks by metis
  qed
qed

end

subsection \<open>Properties\<close>

text \<open>C1. Whatever the threads and the clock do, in any order: the kernel's invariant holds, seen from
  the tick of the moment; the thread that runs is ready and no ready thread has a higher priority; the
  semaphores are well-formed, with no thread waiting for one that is available; and the clock has counted
  its ticks.\<close>

theorem sys_run_invariant:
  assumes "system_callback cb good" "sys_ok good i S k" "sys_run cb i S cs k k'"
  shows "kernel_inv (tick k') k' \<and> lock_nest k' = 0 \<and> irq_nest k' = 0 \<and>
    (\<exists>t. current k' = Some t \<and> stat (thread k' t) = RT_THREAD_READY \<and>
      (\<forall>x. stat (thread k' x) = RT_THREAD_READY \<longrightarrow>
         current_priority (thread k' t) \<le> current_priority (thread k' x))) \<and>
    (\<forall>s. s \<in> S \<longrightarrow> 0 < sem_value (sem k' s) \<longrightarrow> tlists k' (Suspend_list s) = []) \<and>
    tick k' = tick k + of_nat (ticks_of cs)"
proof -
  have ok: "sys_ok good i S k'" and tk: "tick k' = tick k + of_nat (ticks_of cs)"
    using system_callback.run_keeps [OF assms(1,3,2)] by simp_all
  note d = sys_okD [OF ok]
  obtain t where t: "current k' = Some t" "highest k' t" "stat (thread k' t) = RT_THREAD_READY"
    by (rule sys_ok_current [OF ok])
  have "\<forall>x. stat (thread k' x) = RT_THREAD_READY \<longrightarrow>
      current_priority (thread k' t) \<le> current_priority (thread k' x)"
    using highest_least [OF kernel_invD(1) [OF d(1)] t(2)] by blast
  moreover have "\<forall>s. s \<in> S \<longrightarrow> 0 < sem_value (sem k' s) \<longrightarrow> tlists k' (Suspend_list s) = []"
  proof (intro allI impI)
    fix s assume s: "s \<in> S" "0 < sem_value (sem k' s)"
    then show "tlists k' (Suspend_list s) = []" using d(5) [OF s(1)] by (metis sem_wf_def word_gt_0)
  qed
  ultimately show ?thesis using d(1-3) t(1,3) tk by blast
qed

text \<open>C2. The system never gets stuck: after any run, every call that a thread may make, and the tick,
  returns; no assertion of the kernel fails and no loop of it runs forever.\<close>

theorem sys_run_progress:
  assumes "system_callback cb good" "sys_ok good i S k" "sys_run cb i S cs k k'" "enabled i S c k'"
  shows "\<exists>k''. sys_step cb i S c k' k'' \<and> sys_run cb i S (cs @ [c]) k k''"
proof -
  have ok: "sys_ok good i S k'" using system_callback.run_keeps [OF assms(1,3,2)] by simp
  obtain k'' where k'': "sys_step cb i S c k' k''" using system_callback.step_enabled [OF assms(1) ok assms(4)] by blast
  have "sys_run cb i S (cs @ [c]) k k''"
    using assms(3) k'' by (induction rule: sys_run.induct) (auto intro: sys_run.intros)
  then show ?thesis using k'' by blast
qed

lemma demo_sys_ok: "sys_ok (\<lambda>n p. p \<noteq> 0) idle_t {0x2000} demo"
proof -
  have "highest demo main_t"
    unfolding highest_def
    by (rule exI [of _ 10]) (auto simp: lists_first_def demo_lists_def)
  moreover note demo_sem_wf
  ultimately show ?thesis
    using in_thread_may_call [OF demo_in_thread] by (simp add: sys_ok_def calm_def user_timers_def)
qed

lemma demo_run: "\<exists>k1 k2. sys_step release_on_timeout idle_t {0x2000} (Take 0x2000 5) demo k1 \<and>
    sys_run release_on_timeout idle_t {0x2000} [Take 0x2000 5, Tick] demo k2"
proof -
  obtain k1 where k1: "sys_step release_on_timeout idle_t {0x2000} (Take 0x2000 5) demo k1"
    using releasing_sys.step_enabled [OF demo_sys_ok, of "Take 0x2000 5"] by auto
  have "sys_ok (\<lambda>n p. p \<noteq> 0) idle_t {0x2000} k1" using releasing_sys.step_keeps [OF k1 demo_sys_ok] by simp
  then obtain k2 where "sys_step release_on_timeout idle_t {0x2000} Tick k1 k2"
    using releasing_sys.step_enabled [of idle_t "{0x2000}" k1 Tick] by auto
  then show ?thesis using k1 by (blast intro: sys_run.intros)
qed

lemma sys_run_invariant_witness:
  "\<exists>k'. sys_run release_on_timeout idle_t {0x2000} [Take 0x2000 5, Tick] demo k' \<and>
    tick k' = 0xffffffff \<and> kernel_inv (tick k') k'"
proof -
  obtain k' where r: "sys_run release_on_timeout idle_t {0x2000} [Take 0x2000 5, Tick] demo k'"
    using demo_run by blast
  show ?thesis
    using r sys_run_invariant [OF releasing_sys.system_callback_axioms demo_sys_ok r] by (auto simp: ticks_of_def)
qed

lemma sys_run_progress_witness:
  "\<exists>k' k''. sys_run release_on_timeout idle_t {0x2000} [Take 0x2000 5, Tick] demo k' \<and>
    sys_step release_on_timeout idle_t {0x2000} (Release 0x2000) k' k''"
proof -
  obtain k' where r: "sys_run release_on_timeout idle_t {0x2000} [Take 0x2000 5, Tick] demo k'"
    using demo_run by blast
  show ?thesis
    using r sys_run_progress [OF releasing_sys.system_callback_axioms demo_sys_ok r, of "Release 0x2000"] by auto
qed

end
