(* ===== verification/Idle.thy ===== *)
theory Idle
  imports Semaphore
begin

text \<open>
  The idle thread, \<open>src/idle.c\<close>: it takes the closed threads off \<open>rt_thread_defunct\<close>, calls their
  clean-up functions and releases the memory of those that were created dynamically. A clean-up
  function is the application's, an argument \<open>clean\<close>.
\<close>

subsection \<open>Operations\<close>

definition has_defunct_thread :: "kernel \<Rightarrow> bool" where
  "has_defunct_thread k = (tlists k Defunct \<noteq> [])"

definition call_cleanup ::
  "(nat \<Rightarrow> addr \<Rightarrow> kernel \<Rightarrow> kernel option) \<Rightarrow> addr \<Rightarrow> kernel \<Rightarrow> kernel option" where
  "call_cleanup clean t k = (case cleanup (thread k t) of None \<Rightarrow> Some k | Some f \<Rightarrow> clean f t k)"

partial_function (option) rt_thread_idle_excute ::
  "(nat \<Rightarrow> addr \<Rightarrow> kernel \<Rightarrow> kernel option) \<Rightarrow> kernel \<Rightarrow> kernel option" where
  "rt_thread_idle_excute clean k =
     (if has_defunct_thread k then do {
        RT_DEBUG_NOT_IN_INTERRUPT k;
        t \<leftarrow> lists_first Defunct (tlists k);
        let k = k\<lparr>tlists := lists_remove t (tlists k)\<rparr>;
        k \<leftarrow> call_cleanup clean t k;
        sys \<leftarrow> rt_object_is_systemobject (Obj t) k;
        (if sys then Some k
         else do {
           k \<leftarrow> RT_KERNEL_FREE (stack_addr (thread k t)) k;
           k \<leftarrow> rt_object_delete t k;
           rt_thread_idle_excute clean k
         })
      } else Some k)"

text \<open>
  The addresses of the thread object, of its stack and of the two functions are the linker's.
\<close>

definition rt_thread_idle_init :: "addr \<Rightarrow> addr \<Rightarrow> addr \<Rightarrow> addr \<Rightarrow> u32 \<Rightarrow> kernel \<Rightarrow> kernel option" where
  "rt_thread_idle_init texit idle entry stack stack_bytes k = do {
     (_, k) \<leftarrow> rt_thread_init texit idle (cstr_of ''tidle'') entry 0 stack stack_bytes
                (of_nat (RT_THREAD_PRIORITY_MAX - 1)) 32 k;
     (_, k) \<leftarrow> rt_thread_startup idle k;
     Some k
   }"

subsection \<open>Freeing memory\<close>

lemma heap_holds_nonzero:
  assumes "heap_holds h L" "(p, n) \<in> L"
  shows "p \<noteq> 0"
proof -
  obtain bs x m where "heap_wf h bs" "(x, m) \<in> live_at 0 bs" "p = payload h x"
    using assms by (auto simp: heap_holds_def)
  then have "unat p = unat (heap_ptr h) + x + 12" using heap_wf_live(1) [of h bs x m] by metis
  then show ?thesis by auto
qed

lemma heap_holds_unique:
  assumes "heap_holds h L" "(p, n) \<in> L" "(p, m) \<in> L"
  shows "n = m"
  using heap_holds_apart [OF assms] heap_alloc.holds_pos [OF assms(1,2)] heap_alloc.holds_pos [OF assms(1,3)]
  by (auto simp: apart_def)

lemma kernel_free_ok:
  assumes h: "heap_holds (heap_of k) L" and p: "p \<in> fst ` L" and i: "irq_nest k = 0"
  obtains h' where "RT_KERNEL_FREE p k = Some (k\<lparr>heap_of := h'\<rparr>)" "heap_holds h' {b \<in> L. fst b \<noteq> p}"
proof -
  obtain n where n: "(p, n) \<in> L" using p by auto
  obtain h' where h': "rt_free (Some p) (heap_of k) = Some h'" "heap_holds h' (L - {(p, n)})"
    using heap_alloc.free_law [OF h n] by (auto simp: rt_free_ptr_def)
  have one: "b = (p, n)" if b: "b \<in> L" "fst b = p" for b
  proof -
    have "(p, snd b) \<in> L" using b by (metis prod.collapse)
    then have "n = snd b" using heap_holds_unique [OF h n] by blast
    then show ?thesis using b(2) by (simp add: prod_eq_iff)
  qed
  have "L - {(p, n)} = {b \<in> L. fst b \<noteq> p}"
    by (rule set_eqI) (use one in \<open>metis (mono_tags, lifting) Diff_iff fst_conv mem_Collect_eq singleton_iff\<close>)
  then show ?thesis
    using that [of h'] h' heap_holds_nonzero [OF h n] i by (simp add: RT_KERNEL_FREE_def RT_DEBUG_NOT_IN_INTERRUPT_def rt_interrupt_get_nest_def)
qed

subsection \<open>Clean-up functions\<close>

text \<open>
  What the idle thread relies on: a clean-up function, called with interrupts off, returns, and
  leaves the closed threads, the containers and the heap alone.
\<close>

definition spares :: "kernel \<Rightarrow> kernel \<Rightarrow> bool" where
  "spares k k' =
     (irq_nest k' = irq_nest k \<and> heap_of k' = heap_of k \<and> containers k' = containers k \<and>
      tlists k' Defunct = tlists k Defunct \<and>
      (\<forall>a. obj_type (objs k' (Obj a)) = obj_type (objs k (Obj a))) \<and>
      (\<forall>x. stack_addr (thread k' x) = stack_addr (thread k x)) \<and>
      (\<forall>x. stat (thread k x) = RT_THREAD_CLOSE \<longrightarrow> stat (thread k' x) = RT_THREAD_CLOSE))"

text \<open>
  The threads left to the idle thread: created dynamically, each with a block for the object and one
  for the stack.
\<close>

definition grave_memory :: "kernel \<Rightarrow> addr list" where
  "grave_memory k = tlists k Defunct @ map (\<lambda>t. stack_addr (thread k t)) (tlists k Defunct)"

definition doomed :: "kernel \<Rightarrow> (addr \<times> nat) set \<Rightarrow> bool" where
  "doomed k L =
     (distinct (grave_memory k) \<and> set (grave_memory k) \<subseteq> fst ` L \<and>
      (\<forall>t \<in> set (tlists k Defunct). obj_type (objs k (Obj t)) AND RT_Object_Class_Static = 0))"

locale cleanup_function =
  fixes clean :: "nat \<Rightarrow> addr \<Rightarrow> kernel \<Rightarrow> kernel option"
  assumes clean_law: "may_call b k \<Longrightarrow> stat (thread k t) = RT_THREAD_CLOSE \<Longrightarrow>
    \<exists>k'. clean f t k = Some k' \<and> may_call b k' \<and> spares k k'"
begin

lemma cleanup_ok:
  assumes "may_call b k" "stat (thread k t) = RT_THREAD_CLOSE"
  obtains k' where "call_cleanup clean t k = Some k'" "may_call b k'" "spares k k'"
proof (cases "cleanup (thread k t)")
  case None
  then show ?thesis using that [of k] assms(1) by (simp add: call_cleanup_def spares_def)
next
  case (Some f)
  then show ?thesis using that clean_law [OF assms, of f] by (auto simp: call_cleanup_def)
qed

text \<open>One dead thread: it leaves the list, its clean-up function is called.\<close>

lemma bury_ok:
  assumes mc: "may_call b k" and q: "tlists k Defunct = t # ts"
  obtains k1 where "lists_first Defunct (tlists k) = Some t" "t \<noteq> 0"
    "call_cleanup clean t (k\<lparr>tlists := lists_remove t (tlists k)\<rparr>) = Some k1" "may_call b k1"
    "tlists k1 Defunct = ts" "irq_nest k1 = irq_nest k" "heap_of k1 = heap_of k" "containers k1 = containers k"
    "\<forall>a. obj_type (objs k1 (Obj a)) = obj_type (objs k (Obj a))"
    "\<forall>x. stack_addr (thread k1 x) = stack_addr (thread k x)"
proof -
  let ?k = "k\<lparr>tlists := lists_remove t (tlists k)\<rparr>"
  have inv: "kernel_inv b k" using mc by (simp add: may_call_def)
  note wf = kernel_invD(1) [OF inv]
  have st: "t \<noteq> 0" "stat (thread k t) = RT_THREAD_CLOSE"
    using sched_wfD(2,3) [OF wf, of t Defunct] q by (auto simp: stat_fits_def)
  have nr: "lists_remove t (tlists k) (Ready p) = tlists k (Ready p)" for p
  proof -
    have "t \<notin> set (tlists k (Ready p))" using sched_wfD(3) [OF wf, of t "Ready p"] st(2) by (auto simp: stat_fits_def)
    then show ?thesis by (simp add: lists_remove_def removeAll_id)
  qed
  have "sched_wf ?k"
    unfolding sched_wf_def
  proof (intro conjI allI impI)
    show "wf_lists (tlists ?k)" using wf by (simp add: sched_wf_def wf_lists_remove)
  qed (use sched_wfD(2-6) [OF wf] nr in auto)
  then have "may_call b ?k" using mc by (simp add: may_call_def kernel_inv_def own_timer_def timer_flag_def
    timers_ok_def timers_sorted_def ahead_def [abs_def])
  moreover have "stat (thread ?k t) = RT_THREAD_CLOSE" using st by simp
  ultimately obtain k1 where k1: "call_cleanup clean t ?k = Some k1" "may_call b k1" "spares ?k k1"
    by (rule cleanup_ok)
  have "distinct (t # ts)" using sched_wfD(1) [OF wf] q by (auto simp: wf_lists_def dest: spec [of _ Defunct])
  then have "tlists ?k Defunct = ts" using q by (simp add: lists_remove_def removeAll_id)
  then show ?thesis
    using that [of k1] k1 st(1) q by (simp add: spares_def lists_first_def)
qed

text \<open>All of them.\<close>

lemma idle_ok:
  assumes "may_call b k" "irq_nest k = 0" "heap_holds (heap_of k) L" "doomed k L"
  shows "\<exists>k'. rt_thread_idle_excute clean k = Some k' \<and> may_call b k' \<and> tlists k' Defunct = [] \<and>
    heap_holds (heap_of k') {x \<in> L. fst x \<notin> set (grave_memory k)} \<and>
    containers k' = (\<lambda>c. filter (\<lambda>r. r \<notin> Obj ` set (tlists k Defunct)) (containers k c))"
  using assms
proof (induction "tlists k Defunct" arbitrary: k L)
  case Nil
  then show ?case
    by (subst rt_thread_idle_excute.simps) (simp add: has_defunct_thread_def grave_memory_def)
next
  case (Cons t ts)
  note q = Cons.hyps(2) [symmetric] note mc = Cons.prems(1) note h = Cons.prems(3)
  obtain k1 where k1: "lists_first Defunct (tlists k) = Some t" "t \<noteq> 0"
    "call_cleanup clean t (k\<lparr>tlists := lists_remove t (tlists k)\<rparr>) = Some k1" "may_call b k1"
    "tlists k1 Defunct = ts" "irq_nest k1 = irq_nest k" "heap_of k1 = heap_of k" "containers k1 = containers k"
    "\<forall>a. obj_type (objs k1 (Obj a)) = obj_type (objs k (Obj a))"
    "\<forall>x. stack_addr (thread k1 x) = stack_addr (thread k x)"
    by (rule bury_ok [OF mc q])
  define st where "st = stack_addr (thread k t)"
  have gm: "grave_memory k = t # ts @ st # map (\<lambda>t. stack_addr (thread k t)) ts"
    by (simp add: grave_memory_def q st_def)
  have d: "distinct (grave_memory k)" "set (grave_memory k) \<subseteq> fst ` L"
    "\<forall>t \<in> set (t # ts). obj_type (objs k (Obj t)) AND RT_Object_Class_Static = 0"
    using Cons.prems(4) unfolding doomed_def q by simp_all
  have i: "irq_nest k1 = 0" using Cons.prems(2) k1(6) by simp
  obtain h1 where h1: "RT_KERNEL_FREE st k1 = Some (k1\<lparr>heap_of := h1\<rparr>)" "heap_holds h1 {x \<in> L. fst x \<noteq> st}"
    using kernel_free_ok [of k1 L st] h i d(2) k1(7) gm by auto
  let ?k2 = "k1\<lparr>heap_of := h1\<rparr>"
  let ?k3 = "?k2\<lparr>containers := lists_remove (Obj t) (containers ?k2)\<rparr>"
  let ?L1 = "{x \<in> L. fst x \<noteq> st}"
  let ?L2 = "{x \<in> ?L1. fst x \<noteq> t}"
  have "t \<noteq> st" using d(1) gm by auto
  then have "t \<in> fst ` ?L1" using d(2) gm by fastforce
  then obtain h2 where h2: "RT_KERNEL_FREE t ?k3 = Some (?k3\<lparr>heap_of := h2\<rparr>)" "heap_holds h2 ?L2"
    using kernel_free_ok [of ?k3 ?L1 t] h1(2) i by auto
  let ?k4 = "?k3\<lparr>heap_of := h2\<rparr>"
  have gm4: "grave_memory ?k4 = ts @ map (\<lambda>t. stack_addr (thread k t)) ts"
    using k1(5,10) by (simp add: grave_memory_def)
  have sub: "set (grave_memory ?k4) \<subseteq> fst ` ?L2"
  proof
    fix a assume a: "a \<in> set (grave_memory ?k4)"
    then have "a \<in> fst ` L" "a \<noteq> t" "a \<noteq> st" using d(1,2) unfolding gm gm4 by auto
    then show "a \<in> fst ` ?L2" by force
  qed
  have dm: "doomed ?k4 ?L2"
    unfolding doomed_def
  proof (intro conjI)
    show "distinct (grave_memory ?k4)" using d(1) unfolding gm gm4 by auto
    show "set (grave_memory ?k4) \<subseteq> fst ` ?L2" by (rule sub)
    show "\<forall>t \<in> set (tlists ?k4 Defunct). obj_type (objs ?k4 (Obj t)) AND RT_Object_Class_Static = 0"
      using d(3) k1(5,9) by simp
  qed
  have mc4: "may_call b ?k4"
    using k1(4) by (simp add: may_call_def kernel_inv_def own_timer_def timer_flag_def
      sched_wf_def timers_ok_def timers_sorted_def ahead_def [abs_def])
  have q4: "ts = tlists ?k4 Defunct" using k1(5) by simp
  obtain k' where k': "rt_thread_idle_excute clean ?k4 = Some k'" "may_call b k'" "tlists k' Defunct = []"
    "heap_holds (heap_of k') {x \<in> ?L2. fst x \<notin> set (grave_memory ?k4)}"
    "containers k' = (\<lambda>c. filter (\<lambda>r. r \<notin> Obj ` set (tlists ?k4 Defunct)) (containers ?k4 c))"
    using Cons.hyps(1) [OF q4 mc4 _ _ dm] i h2(2) by auto
  have "rt_thread_idle_excute clean k = rt_thread_idle_excute clean ?k4"
    using k1 h1(1) h2(1) d(3) Cons.prems(2)
    by (subst rt_thread_idle_excute.simps)
      (simp add: has_defunct_thread_def q RT_DEBUG_NOT_IN_INTERRUPT_def rt_interrupt_get_nest_def
        rt_object_is_systemobject_def
        rt_object_delete_def st_def)
  moreover have "{x \<in> ?L2. fst x \<notin> set (grave_memory ?k4)} = {x \<in> L. fst x \<notin> set (grave_memory k)}"
    unfolding gm gm4 by auto
  moreover have "containers k' = (\<lambda>c. filter (\<lambda>r. r \<notin> Obj ` set (tlists k Defunct)) (containers k c))"
    using k'(5) k1(5,8) q by (auto simp: lists_remove_def removeAll_filter_not_eq fun_eq_iff intro!: filter_cong)
  ultimately show ?case using k'(1-4) by simp
qed

end

text \<open>A clean-up function that tells another thread: it releases the semaphore whose address the
  thread left in its user data.\<close>

definition clean_by_release :: "nat \<Rightarrow> addr \<Rightarrow> kernel \<Rightarrow> kernel option" where
  "clean_by_release f t k =
     (let s = user_data (thread k t)
      in if s = 0 then Some k
         else case rt_sem_release s k of None \<Rightarrow> None | Some (_, k) \<Rightarrow> Some k)"

lemma clean_by_release_law:
  assumes mc: "may_call b k" and t: "stat (thread k t) = RT_THREAD_CLOSE"
  shows "\<exists>k'. clean_by_release f t k = Some k' \<and> may_call b k' \<and> spares k k'"
proof -
  define s where "s = user_data (thread k t)"
  have m: "kernel_inv b k" "current k \<noteq> None" "lock_nest k = 0" using mc by (simp_all add: may_call_def)
  consider "s = 0" | "s \<noteq> 0" "tlists k (Suspend_list s) = []" | w ws where "s \<noteq> 0" "tlists k (Suspend_list s) = w # ws"
    by (cases "tlists k (Suspend_list s)") auto
  then show ?thesis
  proof cases
    case 1
    then show ?thesis using mc by (simp add: clean_by_release_def s_def spares_def)
  next
    case 2
    then show ?thesis
      using mc by (simp add: clean_by_release_def s_def rt_sem_release_def spares_def may_call_def)
  next
    case 3
    have w: "waiting (Suspend_list s)" by simp
    obtain k' s' where k': "ipc_wake_one (Suspend_list s) k = Some k'" "kernel_inv b k'" "call_frame k k'"
      "thread k' = (thread k)(w := (thread k w)\<lparr>stat := RT_THREAD_READY\<rparr>)"
      "tlists k' = lists_insert_last (Ready (unat (current_priority (thread k w)))) w (lists_remove w (tlists k))"
      "tlists k' (Suspend_list s) = ws" "Thread_timer w \<notin> set (timer_list k')" "current k' = Some s'" "highest k' s'"
      by (rule wake_one_ok [OF m(1) w 3(2) m(2,3)])
    have st: "stat (thread k w) = RT_THREAD_SUSPEND"
      using sched_wfD(3) [OF kernel_invD(1) [OF m(1)], of w "Suspend_list s"] 3(2) by (simp add: stat_fits_def)
    then have "w \<notin> set (tlists k Defunct)"
      using sched_wfD(3) [OF kernel_invD(1) [OF m(1)], of w Defunct] by (auto simp: stat_fits_def)
    then have "tlists k' Defunct = tlists k Defunct"
      using k'(5) by (simp add: lists_insert_last_def lists_remove_def removeAll_id)
    then have "spares k k'"
      using k'(4) call_frameD(3,4,5) [OF k'(3)] objs_frameD [OF objs_frame_wake_one [OF k'(1)]] st
      by (simp add: spares_def)
    moreover have "may_call b k'" using k'(2,8) m(3) call_frameD(2) [OF k'(3)] by (simp add: may_call_def)
    moreover have "clean_by_release f t k = Some k'"
      using k'(1) 3 by (auto simp: clean_by_release_def s_def Let_def rt_sem_release_def ipc_wake_one_def bind_Some_conv)
    ultimately show ?thesis by blast
  qed
qed

interpretation telling: cleanup_function clean_by_release
  by unfold_locales (rule clean_by_release_law)

subsection \<open>Properties\<close>

text \<open>The idle thread buries all dead threads that were created dynamically: with clean-up
  functions that return and keep the kernel's invariant, its loop ends with no dead thread left,
  exactly the memory of their objects and stacks is free again, and they are gone from the containers.\<close>

theorem rt_thread_idle_cleans:
  assumes "cleanup_function clean" "may_call b k" "irq_nest k = 0" "heap_holds (heap_of k) L" "doomed k L"
  shows "\<exists>k'. rt_thread_idle_excute clean k = Some k' \<and> may_call b k' \<and> tlists k' Defunct = [] \<and>
    heap_holds (heap_of k') {x \<in> L. fst x \<notin> set (grave_memory k)} \<and>
    containers k' = (\<lambda>c. filter (\<lambda>r. r \<notin> Obj ` set (tlists k Defunct)) (containers k c))"
  by (rule cleanup_function.idle_ok [OF assms])

text \<open>A dynamic thread has exited: its object is the block that the example heap holds, its stack a
  second one.\<close>

definition demo_dead :: "heap \<Rightarrow> kernel" where
  "demo_dead h = demo\<lparr>heap_of := h, tlists := (tlists demo)(Defunct := [0x2001000c]),
     thread := (thread demo)(0x2001000c := (demo_thread 9 RT_THREAD_CLOSE)\<lparr>stack_addr := 0x20010028\<rparr>),
     objs := (objs demo)(Obj 0x2001000c := \<lparr>obj_name = [], obj_type = 0, obj_flag = 0\<rparr>)\<rparr>"

lemma demo_dead_call: "may_call 0xfffffffe (demo_dead h)" "irq_nest (demo_dead h) = 0"
proof -
  have n: "0x2001000c \<notin> set (tlists demo q)" for q by (auto simp: demo_lists_def split: if_splits)
  have "sched_wf (demo_dead h)"
    unfolding sched_wf_def
  proof (intro conjI allI impI)
    have "tlists (demo_dead h) = lists_insert_first Defunct 0x2001000c (tlists demo)"
      by (simp add: demo_dead_def lists_insert_first_def demo_lists_def)
    then show "wf_lists (tlists (demo_dead h))"
      using n demo_wf_lists wf_lists_insert_first [of "tlists demo" "0x2001000c" Defunct] by (simp add: unlinked_def)
  next
    fix q t assume "t \<in> set (tlists (demo_dead h) q)"
    then show "t \<noteq> 0" "stat_fits (thread (demo_dead h) t) q"
      using sched_wfD(2,3) [OF demo_sched_wf, of t q] n [of q]
      by (auto simp: demo_dead_def stat_fits_def split: if_splits)
  next
    fix t assume "stat (thread (demo_dead h) t) = RT_THREAD_READY"
    then show "t \<in> set (tlists (demo_dead h) (Ready (unat (current_priority (thread (demo_dead h) t)))))"
      using sched_wfD(4) [OF demo_sched_wf, of t] by (auto simp: demo_dead_def split: if_splits)
  next
    fix t assume "live (thread (demo_dead h) t)"
    then show "prio_ok (thread (demo_dead h) t)"
      using sched_wfD(5) [OF demo_sched_wf, of t] by (auto simp: demo_dead_def live_def split: if_splits)
  next
    fix p :: nat assume "p < 32"
    then show "bit (ready_group (demo_dead h)) p \<longleftrightarrow> tlists (demo_dead h) (Ready p) \<noteq> []"
      using sched_wfD(6) [OF demo_sched_wf, of p] by (simp add: demo_dead_def)
  qed
  moreover have "timers_ok 0xfffffffe (demo_dead h)"
    by (simp add: timers_ok_def timers_sorted_def ahead_def timer_flag_def demo_timers_def demo_objs_def demo_dead_def)
  ultimately show "may_call 0xfffffffe (demo_dead h)"
    using kernel_invD(3-6) [OF demo_inv]
    by (simp add: may_call_def kernel_inv_def own_timer_def timer_flag_def) (auto simp: demo_dead_def live_def)
  show "irq_nest (demo_dead h) = 0" by (simp add: demo_dead_def)
qed

lemma rt_thread_idle_cleans_witness:
  "\<exists>h k'. rt_malloc 100 demo_heap = Some (Some 0x20010028, h) \<and>
    rt_thread_idle_excute clean_by_release (demo_dead h) = Some k' \<and> tlists k' Defunct = [] \<and>
    heap_holds (heap_of k') {}"
proof -
  obtain h n where h: "rt_malloc 100 demo_heap = Some (Some 0x20010028, h)"
    "heap_holds h (insert (0x20010028, n) {(0x2001000c, 16)})"
  proof -
    obtain h where h: "rt_malloc 100 demo_heap = Some (Some 0x20010028, h)" using malloc_demo by blast
    have "(100 :: u32) \<le> 0xfffffffc" by simp
    from heap_alloc.alloc_fresh [OF demo_holds this h] show ?thesis using that h by metis
  qed
  let ?L = "{(0x20010028, n), (0x2001000c, 16)}"
  have g: "grave_memory (demo_dead h) = [0x2001000c, 0x20010028]"
    by (simp add: grave_memory_def demo_dead_def)
  have "doomed (demo_dead h) ?L" by (simp add: doomed_def g) (simp add: demo_dead_def)
  moreover have "heap_holds (heap_of (demo_dead h)) ?L" using h(2) by (simp add: demo_dead_def)
  ultimately obtain k' where k': "rt_thread_idle_excute clean_by_release (demo_dead h) = Some k'"
    "tlists k' Defunct = []" "heap_holds (heap_of k') {x \<in> ?L. fst x \<notin> set (grave_memory (demo_dead h))}"
    using rt_thread_idle_cleans [OF telling.cleanup_function_axioms demo_dead_call] by blast
  have none: "{x \<in> ?L. fst x \<notin> set (grave_memory (demo_dead h))} = {}" by (auto simp: g)
  have "heap_holds (heap_of k') {}" using k'(3) unfolding none .
  then show ?thesis
    by (intro exI [of _ h] exI [of _ k'] conjI h(1) k'(1,2))
qed

text \<open>A static thread stops the idle thread's round: the threads behind it wait for the next one.\<close>

theorem rt_thread_idle_stops_at_static:
  assumes "cleanup_function clean" "may_call b k" "irq_nest k = 0" "tlists k Defunct = t # ts"
    and "obj_type (objs k (Obj t)) AND RT_Object_Class_Static \<noteq> 0"
  shows "\<exists>k'. rt_thread_idle_excute clean k = Some k' \<and> may_call b k' \<and> tlists k' Defunct = ts"
proof -
  obtain k1 where k1: "lists_first Defunct (tlists k) = Some t" "t \<noteq> 0"
    "call_cleanup clean t (k\<lparr>tlists := lists_remove t (tlists k)\<rparr>) = Some k1" "may_call b k1"
    "tlists k1 Defunct = ts" "irq_nest k1 = irq_nest k" "heap_of k1 = heap_of k" "containers k1 = containers k"
    "\<forall>a. obj_type (objs k1 (Obj a)) = obj_type (objs k (Obj a))"
    "\<forall>x. stack_addr (thread k1 x) = stack_addr (thread k x)"
    by (rule cleanup_function.bury_ok [OF assms(1,2,4)])
  have "rt_thread_idle_excute clean k = Some k1"
    using k1(1,2,3,9) assms(3-5)
    by (subst rt_thread_idle_excute.simps)
      (simp add: has_defunct_thread_def RT_DEBUG_NOT_IN_INTERRUPT_def rt_interrupt_get_nest_def
        rt_object_is_systemobject_def)
  then show ?thesis using k1(4,5) by simp
qed

end
