(* ===== verification/Lifecycle.thy ===== *)
theory Lifecycle
  imports Idle
begin

text \<open>
  The life of a dynamic thread, across \<open>src/thread.c\<close>, \<open>src/object.c\<close>, \<open>src/mem.c\<close>, \<open>src/timer.c\<close>
  and \<open>src/idle.c\<close>: it is created, started, deleted and buried by the idle thread. What is shown is
  that nothing of it is left behind.
\<close>

subsection \<open>What the steps leave alone\<close>

lemma thread_setup_frame:
  assumes "thread_setup texit t entry param start ssize priority ticks k = Some (e, k')"
  shows "(\<exists>m. heap_of k' = (heap_of k)\<lparr>ram := m\<rparr>) \<and> irq_nest k' = irq_nest k \<and>
    (\<forall>a. obj_type (objs k' (Obj a)) = obj_type (objs k (Obj a))) \<and> stack_addr (thread k' t) = start"
  using assms
  by (auto simp: thread_setup_def bind_Some_conv Let_def rt_timer_init_def timer_setup_def rt_object_init_def
      set_timer_flag_def upd_timer_def split: prod.splits)

lemma objs_frame_startup:
  assumes "rt_thread_startup t k = Some (e, k')"
  shows "objs_frame k k'"
  using assms
  by (auto simp: rt_thread_startup_def bind_Some_conv Let_def split: if_splits
      dest!: objs_frame_intro intro: objs_frame_trans)

lemma heap_holds_ram [simp]: "heap_holds (h\<lparr>ram := m\<rparr>) L = heap_holds h L"
  by (simp add: heap_holds_def)

definition mem_frame :: "kernel \<Rightarrow> kernel \<Rightarrow> bool" where
  "mem_frame k k' =
     (heap_of k' = heap_of k \<and> irq_nest k' = irq_nest k \<and> lock_nest k' = lock_nest k \<and> containers k' = containers k \<and>
      (\<forall>x. stack_addr (thread k' x) = stack_addr (thread k x)))"

lemma mem_frame_resume: "rt_thread_resume t k = Some (e, k') \<Longrightarrow> mem_frame k k'"
  by (auto simp: mem_frame_def rt_thread_resume_def bind_Some_conv Let_def rt_timer_stop_def timer_remove_def
      set_timer_flag_def rt_schedule_insert_thread_def split: if_splits prod.splits)

lemma mem_frame_schedule:
  assumes "rt_schedule k = Some k'"
  shows "mem_frame k k'"
  using call_frameD(2,3,4,5) [OF call_frame_schedule [OF assms]] rt_schedule_sel [OF assms] by (simp add: mem_frame_def)

lemma mem_frame_trans: "mem_frame a b \<Longrightarrow> mem_frame b c \<Longrightarrow> mem_frame a c"
  by (simp add: mem_frame_def)

lemma mem_frame_startup:
  assumes "rt_thread_startup t k = Some (e, k')"
  shows "mem_frame k k'"
proof -
  define k1 where "k1 = upd_thread t (\<lambda>th. th\<lparr>stat := RT_THREAD_SUSPEND\<rparr>)
      (upd_thread t (\<lambda>th. th\<lparr>number_mask := push_bit (unat (current_priority th)) 1\<rparr>)
        (upd_thread t (\<lambda>th. th\<lparr>current_priority := init_priority th\<rparr>) k))"
  obtain e2 k2 where k2: "rt_thread_resume t k1 = Some (e2, k2)" "k' = k2 \<or> rt_schedule k2 = Some k'"
    using assms by (auto simp: rt_thread_startup_def bind_Some_conv Let_def k1_def split: if_splits)
  have "mem_frame k k1" by (simp add: mem_frame_def k1_def)
  then show ?thesis using mem_frame_resume [OF k2(1)] k2(2) mem_frame_schedule mem_frame_trans by metis
qed

text \<open>A deletion takes the thread's timer off the containers; the rest is left to the idle thread.\<close>

lemma delete_frame:
  assumes inv: "kernel_inv b k" and t: "live (thread k t)"
  obtains k' where "rt_thread_delete t k = Some (0, k')" "kernel_inv b k'"
    "tlists k' = lists_insert_first Defunct t (lists_remove t (tlists k))" "current k' = current k"
    "lock_nest k' = lock_nest k" "irq_nest k' = irq_nest k" "heap_of k' = heap_of k" "objs k' = objs k"
    "containers k' = lists_remove (Thread_timer t) (containers k)"
    "\<forall>x. stack_addr (thread k' x) = stack_addr (thread k x)"
proof -
  have t0: "t \<noteq> 0" using kernel_invD(3) [OF inv t] .
  obtain k1 where k1: "close_core t k = Some k1" "kernel_inv b k1"
    "thread k1 = (thread k)(t := (thread k t)\<lparr>stat := RT_THREAD_CLOSE\<rparr>)"
    "tlists k1 = lists_remove t (tlists k)" "timer k1 = timer k" "objs k1 = objs k"
    "timer_list k1 = removeAll (Thread_timer t) (timer_list k)"
    "containers k1 = lists_remove (Thread_timer t) (containers k)"
    "current k1 = current k" "lock_nest k1 = lock_nest k" "irq_nest k1 = irq_nest k" "tick k1 = tick k"
    "heap_of k1 = heap_of k"
    by (rule close_core_ok [OF inv t])
  have "rt_thread_delete t k = Some (0, insert_defunct t k1)"
    using t0 k1(1) by (auto simp: rt_thread_delete_def close_core_def bind_Some_conv split: prod.splits)
  moreover have "kernel_inv b (insert_defunct t k1)"
    by (rule insert_defunct_inv [OF k1(2) t0]) (use k1(3,4) in \<open>simp_all add: unlinked_remove\<close>)
  ultimately show ?thesis
    by (rule that) (use k1 in \<open>simp_all add: insert_defunct_def\<close>)
qed

subsection \<open>Memory\<close>

text \<open>The addresses from the first header up to the mark at the end.\<close>

definition heap_area :: "heap \<Rightarrow> addr set" where
  "heap_area h = {a. unat (heap_ptr h) \<le> unat a \<and> unat a < unat (heap_ptr h) + unat (mem_size_aligned h) + 12}"

lemma heap_holds_area:
  assumes "heap_holds h L" "(p, n) \<in> L"
  shows "p \<in> heap_area h" "unat p + n < 2 ^ 32"
proof -
  obtain bs x m where b: "heap_wf h bs" "(x, m) \<in> live_at 0 bs" "p = payload h x" "n = m - 12" "12 < m"
    and al: "\<forall>(x, n) \<in> live_at 0 bs. 12 < n"
    using assms by (force simp: heap_holds_def)
  note l = heap_wf_live [OF b(1,2)]
  have s: "total bs = unat (mem_size_aligned h) + 12" "unat (heap_ptr h) + total bs + 12 < 2 ^ 32"
    using b(1) by (simp_all add: heap_wf_def heap_shape_def)
  have m: "m = n + 12" using b(4,5) by simp
  have "unat (payload h x) + n < 2 ^ 32" using l(1,2) s(2) unfolding m by linarith
  then show "unat p + n < 2 ^ 32" using b(3) by simp
  have "unat (heap_ptr h) \<le> unat (payload h x)" using l(1) by linarith
  moreover have "unat (payload h x) < unat (heap_ptr h) + unat (mem_size_aligned h) + 12"
    using l(1,2) b(5) s(1) by linarith
  ultimately show "p \<in> heap_area h" using b(3) by (simp add: heap_area_def)
qed

lemma rt_malloc_area:
  assumes "heap_holds h L" "sz \<noteq> 0" "sz \<le> 0xfffffffc" "rt_malloc sz h = Some (Some p, h')"
  shows "heap_area h' = heap_area h"
proof -
  obtain bs where wf: "heap_wf h bs" using assms(1) by (auto simp: heap_holds_def)
  show ?thesis using malloc_live [OF wf assms(2,3)] assms(4) by (auto simp: heap_area_def)
qed

lemma kernel_malloc_ok:
  assumes h: "heap_holds (heap_of k) L" and sz: "sz \<noteq> 0" "sz \<le> 0xfffffffc" and i: "irq_nest k = 0"
  obtains "RT_KERNEL_MALLOC sz k = Some (None, k)"
  | p n h' where "RT_KERNEL_MALLOC sz k = Some (Some p, k\<lparr>heap_of := h'\<rparr>)" "heap_holds h' (insert (p, n) L)"
    "unat sz \<le> n" "p \<notin> fst ` L" "p \<in> heap_area (heap_of k)" "heap_area h' = heap_area (heap_of k)"
    "unat p + n < 2 ^ 32" "p \<noteq> 0"
proof -
  consider "rt_malloc sz (heap_of k) = Some (None, heap_of k)"
    | p h' where "rt_malloc sz (heap_of k) = Some (Some p, h')"
    using heap_alloc.alloc_law [OF h sz(2)] by blast
  then show ?thesis
  proof cases
    case 1
    then show ?thesis using that(1) i
      by (simp add: RT_KERNEL_MALLOC_def RT_DEBUG_NOT_IN_INTERRUPT_def rt_interrupt_get_nest_def)
  next
    case 2
    obtain n where n: "unat sz \<le> n" "heap_holds h' (insert (p, n) L)" "\<forall>m. (p, m) \<notin> L"
      "\<forall>q \<in> L. apart (p, n) q"
      by (rule heap_alloc.alloc_fresh [OF h sz(2) 2])
    have in': "(p, n) \<in> insert (p, n) L" by simp
    note ar = rt_malloc_area [OF h sz 2]
    show ?thesis
    proof (rule that(2))
      show "RT_KERNEL_MALLOC sz k = Some (Some p, k\<lparr>heap_of := h'\<rparr>)"
        using 2 i by (simp add: RT_KERNEL_MALLOC_def RT_DEBUG_NOT_IN_INTERRUPT_def rt_interrupt_get_nest_def)
      show "p \<notin> fst ` L" using n(3) by auto
      show "p \<in> heap_area (heap_of k)" "unat p + n < 2 ^ 32" using heap_holds_area [OF n(2) in'] ar by simp_all
    qed (use n(1,2) ar heap_holds_nonzero [OF n(2) in'] in simp_all)
  qed
qed

subsection \<open>Creation\<close>

text \<open>Memory that is not in use is not linked anywhere: no dead object is left behind in a list.\<close>

definition no_residue :: "kernel \<Rightarrow> (addr \<times> nat) set \<Rightarrow> bool" where
  "no_residue k L =
     (\<forall>a \<in> heap_area (heap_of k). a \<notin> fst ` L \<longrightarrow>
        unlinked a (tlists k) \<and> Thread_timer a \<notin> set (timer_list k) \<and> Obj a \<notin> set (timer_list k) \<and>
        unlinked (Obj a) (containers k) \<and> unlinked (Thread_timer a) (containers k))"

lemma inv_new_object:
  assumes "may_call b k" "Obj a \<notin> set (timer_list k)"
  shows "may_call b (k\<lparr>heap_of := h, objs := (objs k)(Obj a := ob), containers := c\<rparr>)"
proof -
  let ?k = "k\<lparr>heap_of := h, objs := (objs k)(Obj a := ob), containers := c\<rparr>"
  have inv: "kernel_inv b k" using assms(1) by (simp add: may_call_def)
  have "timers_ok b ?k"
    using kernel_invD(2) [OF inv] assms(2)
    by (auto simp: timers_ok_def timers_sorted_def timer_flag_def ahead_def [abs_def])
  moreover have "sched_wf ?k" using kernel_invD(1) [OF inv] by (simp add: sched_wf_def)
  moreover have "own_timer ?k t = own_timer k t" for t by (simp add: own_timer_def timer_flag_def)
  ultimately show ?thesis using assms(1) by (simp add: may_call_def kernel_inv_def)
qed

lemma inv_heap [simp]: "may_call b (k\<lparr>heap_of := h\<rparr>) = may_call b k"
  by (simp add: may_call_def kernel_inv_def own_timer_def timer_flag_def sched_wf_def timers_ok_def
    timers_sorted_def ahead_def [abs_def])

lemma create_ok:
  assumes mc: "may_call b k" and i: "irq_nest k = 0" and h: "heap_holds (heap_of k) L" and nr: "no_residue k L"
    and p: "unat priority < 32" and sz: "76 \<le> unat ssize" "unat ssize < 2 ^ 16"
  obtains k1 where "rt_thread_create texit name entry param ssize priority ticks k = Some (None, k1)"
    "may_call b k1" "heap_holds (heap_of k1) L" "containers k1 = containers k" "tlists k1 = tlists k"
  | t s n m k1 where "rt_thread_create texit name entry param ssize priority ticks k = Some (Some t, k1)"
    "heap_holds (heap_of k1) (insert (s, m) (insert (t, n) L))" "t \<notin> fst ` L" "s \<notin> fst ` insert (t, n) L"
    "may_call b k1" "irq_nest k1 = 0" "t \<noteq> 0" "stat (thread k1 t) = RT_THREAD_INIT" "own_timer k1 t"
    "stack_ok (thread k1 t)" "init_priority (thread k1 t) = priority" "tlists k1 = tlists k"
    "unlinked t (tlists k)" "obj_type (objs k1 (Obj t)) = 0" "stack_addr (thread k1 t) = s"
    "containers k1 = lists_insert_first RT_Object_Class_Timer (Thread_timer t)
      (lists_insert_first RT_Object_Class_Thread (Obj t) (containers k))"
    "unlinked (Obj t) (containers k)" "unlinked (Thread_timer t) (containers k)"
proof -
  have osz: "object_size RT_Object_Class_Thread \<noteq> 0" "object_size RT_Object_Class_Thread \<le> 0xfffffffc"
    by (simp_all add: object_size_def)
  have ssz: "ssize \<noteq> 0" "ssize \<le> 0xfffffffc" using sz by (auto simp: word_le_nat_alt)
  have u16: "unat (ucast ssize :: u16) = unat ssize"
    using sz(2) by (simp add: unsigned_ucast_eq unsigned_take_bit_eq take_bit_nat_eq_self)
  consider (no) "RT_KERNEL_MALLOC (object_size RT_Object_Class_Thread) k = Some (None, k)"
    | (yes) t n h1 where "RT_KERNEL_MALLOC (object_size RT_Object_Class_Thread) k = Some (Some t, k\<lparr>heap_of := h1\<rparr>)"
      "heap_holds h1 (insert (t, n) L)" "unat (object_size RT_Object_Class_Thread) \<le> n" "t \<notin> fst ` L"
      "t \<in> heap_area (heap_of k)" "heap_area h1 = heap_area (heap_of k)" "unat t + n < 2 ^ 32" "t \<noteq> 0"
    by (rule kernel_malloc_ok [OF h osz i])
  then show ?thesis
  proof cases
    case no
    show ?thesis
      by (rule that(1) [of k]) (use no mc h i in \<open>simp_all add: rt_thread_create_def rt_object_allocate_def
        RT_DEBUG_NOT_IN_INTERRUPT_def rt_interrupt_get_nest_def\<close>)
  next
    case yes
    have un: "unlinked t (tlists k)" "Thread_timer t \<notin> set (timer_list k)" "Obj t \<notin> set (timer_list k)"
      "unlinked (Obj t) (containers k)" "unlinked (Thread_timer t) (containers k)"
      using nr yes(4,5) by (auto simp: no_residue_def)
    define ob where "ob = (objs k (Obj t))\<lparr>obj_type := 0, obj_flag := 0, obj_name := rt_strncpy name RT_NAME_MAX\<rparr>"
    define k2 where "k2 = k\<lparr>heap_of := h1, objs := (objs k)(Obj t := ob),
      containers := lists_insert_first RT_Object_Class_Thread (Obj t) (containers k)\<rparr>"
    have al: "rt_object_allocate RT_Object_Class_Thread name k = Some (Some t, k2)"
      using yes(1) i by (simp add: rt_object_allocate_def RT_DEBUG_NOT_IN_INTERRUPT_def rt_interrupt_get_nest_def
        k2_def ob_def upd_obj_def class_code_def)
    have mc2: "may_call b k2" unfolding k2_def by (rule inv_new_object [OF mc un(3)])
    have h2: "heap_holds (heap_of k2) (insert (t, n) L)" and i2: "irq_nest k2 = 0" using yes(2) i by (simp_all add: k2_def)
    have rm: "lists_remove (Obj t) (containers k2) = containers k"
      using un(4) by (auto simp: k2_def lists_remove_def lists_insert_first_def unlinked_def fun_eq_iff removeAll_id)
    consider (no) "RT_KERNEL_MALLOC ssize k2 = Some (None, k2)"
      | (yes) s m h3 where "RT_KERNEL_MALLOC ssize k2 = Some (Some s, k2\<lparr>heap_of := h3\<rparr>)"
        "heap_holds h3 (insert (s, m) (insert (t, n) L))" "unat ssize \<le> m" "s \<notin> fst ` insert (t, n) L"
        "s \<in> heap_area (heap_of k2)" "heap_area h3 = heap_area (heap_of k2)" "unat s + m < 2 ^ 32" "s \<noteq> 0"
      by (rule kernel_malloc_ok [OF h2 ssz i2])
    then show ?thesis
    proof cases
      case no
      let ?k3 = "k2\<lparr>containers := lists_remove (Obj t) (containers k2)\<rparr>"
      obtain h4 where h4: "RT_KERNEL_FREE t ?k3 = Some (?k3\<lparr>heap_of := h4\<rparr>)"
        "heap_holds h4 {x \<in> insert (t, n) L. fst x \<noteq> t}"
        using kernel_free_ok [of ?k3 "insert (t, n) L" t] h2 i2 by auto
      have L: "{x \<in> insert (t, n) L. fst x \<noteq> t} = L" using yes(4) by force
      have "rt_object_delete t k2 = Some (?k3\<lparr>heap_of := h4\<rparr>)"
        using h4(1) yes(8) by (simp add: rt_object_delete_def k2_def ob_def)
      then have r: "rt_thread_create texit name entry param ssize priority ticks k = Some (None, ?k3\<lparr>heap_of := h4\<rparr>)"
        using al no by (simp add: rt_thread_create_def)
      have mc3: "may_call b (?k3\<lparr>heap_of := h4\<rparr>)"
        using mc2 by (simp add: may_call_def kernel_inv_def own_timer_def timer_flag_def sched_wf_def timers_ok_def
          timers_sorted_def ahead_def [abs_def])
      show ?thesis
        by (rule that(1) [OF r mc3]) (use h4(2) L rm in \<open>simp_all add: k2_def\<close>)
    next
      case s: yes
      let ?k3 = "k2\<lparr>heap_of := h3\<rparr>"
      have "may_call b ?k3" using mc2 by simp
      then have inv3: "kernel_inv b ?k3" by (simp add: may_call_def)
      obtain k1 where k1: "thread_setup texit t entry param s ssize priority ticks ?k3 = Some (0, k1)"
        "kernel_inv b k1" "stat (thread k1 t) = RT_THREAD_INIT" "own_timer k1 t" "stack_ok (thread k1 t)"
        "init_priority (thread k1 t) = priority" "tlists k1 = tlists ?k3" "current k1 = current ?k3"
        "timer_list k1 = timer_list ?k3" "lock_nest k1 = lock_nest ?k3"
        "containers k1 = lists_insert_first RT_Object_Class_Timer (Thread_timer t) (containers ?k3)"
        using thread_setup_ok [OF inv3 yes(8), of priority ssize s texit entry param ticks] un(1-3) p sz u16 s(3,7)
        by (auto simp: k2_def)
      have fr: "\<exists>m. heap_of k1 = (heap_of ?k3)\<lparr>ram := m\<rparr>" "irq_nest k1 = irq_nest ?k3"
        "obj_type (objs k1 (Obj t)) = obj_type (objs ?k3 (Obj t))" "stack_addr (thread k1 t) = s"
        using thread_setup_frame [OF k1(1)] by auto
      have r: "rt_thread_create texit name entry param ssize priority ticks k = Some (Some t, k1)"
        using al s(1) k1(1) by (simp add: rt_thread_create_def)
      have h5: "heap_holds (heap_of k1) (insert (s, m) (insert (t, n) L))" using fr(1) s(2) by auto
      have mc1: "may_call b k1" using k1(2,8,10) mc by (simp add: may_call_def k2_def)
      show ?thesis
        by (rule that(2) [OF r h5 yes(4) s(4) mc1])
          (use k1 fr un yes(8) i in \<open>simp_all add: k2_def ob_def\<close>)
    qed
  qed
qed

subsection \<open>Properties\<close>

definition thread_life ::
  "(nat \<Rightarrow> addr \<Rightarrow> kernel \<Rightarrow> kernel option) \<Rightarrow> addr \<Rightarrow> cstr \<Rightarrow> addr \<Rightarrow> u32 \<Rightarrow> u32 \<Rightarrow> u8 \<Rightarrow> u32 \<Rightarrow>
    kernel \<Rightarrow> (addr option \<times> kernel) option" where
  "thread_life clean texit name entry param ssize priority ticks k = do {
     (r, k) \<leftarrow> rt_thread_create texit name entry param ssize priority ticks k;
     (case r of
        None \<Rightarrow> Some (None, k)
      | Some t \<Rightarrow> do {
          (_, k) \<leftarrow> rt_thread_startup t k;
          (_, k) \<leftarrow> rt_thread_delete t k;
          k \<leftarrow> rt_thread_idle_excute clean k;
          Some (Some t, k)
        })
   }"

text \<open>C3. A thread's life leaves nothing behind: a thread is created (or refused for lack of memory),
  started, deleted, and buried by the idle thread; then exactly the blocks of the heap are in use, and
  exactly the objects are in the containers, that were before, and the invariant holds.\<close>

theorem thread_life_leaves_nothing:
  assumes "cleanup_function clean" "may_call b k" "irq_nest k = 0" "heap_holds (heap_of k) L" "no_residue k L"
    and "tlists k Defunct = []" "unat priority < RT_THREAD_PRIORITY_MAX" "76 \<le> unat ssize" "unat ssize < 2 ^ 16"
  shows "\<exists>r k'. thread_life clean texit name entry param ssize priority ticks k = Some (r, k') \<and>
    may_call b k' \<and> heap_holds (heap_of k') L \<and> containers k' = containers k \<and> tlists k' Defunct = []"
proof -
  consider (none) k1 where "rt_thread_create texit name entry param ssize priority ticks k = Some (None, k1)"
    "may_call b k1" "heap_holds (heap_of k1) L" "containers k1 = containers k" "tlists k1 = tlists k"
  | (some) t s n m k1 where "rt_thread_create texit name entry param ssize priority ticks k = Some (Some t, k1)"
    "heap_holds (heap_of k1) (insert (s, m) (insert (t, n) L))" "t \<notin> fst ` L" "s \<notin> fst ` insert (t, n) L"
    "may_call b k1" "irq_nest k1 = 0" "t \<noteq> 0" "stat (thread k1 t) = RT_THREAD_INIT" "own_timer k1 t"
    "stack_ok (thread k1 t)" "init_priority (thread k1 t) = priority" "tlists k1 = tlists k"
    "unlinked t (tlists k)" "obj_type (objs k1 (Obj t)) = 0" "stack_addr (thread k1 t) = s"
    "containers k1 = lists_insert_first RT_Object_Class_Timer (Thread_timer t)
      (lists_insert_first RT_Object_Class_Thread (Obj t) (containers k))"
    "unlinked (Obj t) (containers k)" "unlinked (Thread_timer t) (containers k)"
    by (rule create_ok [OF assms(2-5,7-9)])
  then show ?thesis
  proof cases
    case none
    then show ?thesis using assms(6) by (simp add: thread_life_def)
  next
    case some
    note mc1 = some(5) [unfolded may_call_def]
    have pr: "unat (init_priority (thread k1 t)) < 32" and un1: "unlinked t (tlists k1)"
      using some(11,12,13) assms(7) by simp_all
    obtain k2 where k2: "rt_thread_startup t k1 = Some (0, k2)" "kernel_inv b k2"
      "stat (thread k2 t) = RT_THREAD_READY"
      "tlists k2 = lists_insert_last (Ready (unat (init_priority (thread k1 t)))) t (tlists k1)"
      "\<exists>x. current k2 = Some x"
      using startup_ok [OF conjunct1 [OF mc1] some(7-10) pr un1] mc1 by metis
    have f2: "mem_frame k1 k2" "objs_frame k1 k2" using mem_frame_startup [OF k2(1)] objs_frame_startup [OF k2(1)] .
    obtain k3 where k3: "rt_thread_delete t k2 = Some (0, k3)" "kernel_inv b k3"
      "tlists k3 = lists_insert_first Defunct t (lists_remove t (tlists k2))" "current k3 = current k2"
      "lock_nest k3 = lock_nest k2" "irq_nest k3 = irq_nest k2" "heap_of k3 = heap_of k2" "objs k3 = objs k2"
      "containers k3 = lists_remove (Thread_timer t) (containers k2)"
      "\<forall>x. stack_addr (thread k3 x) = stack_addr (thread k2 x)"
      by (rule delete_frame [OF k2(2) live_ready(1) [OF k2(3)]])
    have d3: "tlists k3 Defunct = [t]"
      using k3(3) k2(4) some(12) assms(6) by (simp add: lists_insert_first_def lists_remove_def lists_insert_last_def)
    let ?L = "insert (s, m) (insert (t, n) L)"
    have h3: "heap_holds (heap_of k3) ?L" using some(2) k3(7) f2(1) by (simp add: mem_frame_def)
    have g3: "grave_memory k3 = [t, s]"
      using k3(10) f2(1) some(15) by (simp add: grave_memory_def d3 mem_frame_def)
    have dm: "doomed k3 ?L"
      using some(4,14) k3(8) objs_frameD [OF f2(2), of t] unfolding doomed_def g3 d3 by auto
    have mc3: "may_call b k3" "irq_nest k3 = 0"
      using k3(2,4,5,6) k2(5) mc1 some(6) f2(1) by (auto simp: may_call_def mem_frame_def)
    obtain k4 where k4: "rt_thread_idle_excute clean k3 = Some k4" "may_call b k4" "tlists k4 Defunct = []"
      "heap_holds (heap_of k4) {x \<in> ?L. fst x \<notin> set (grave_memory k3)}"
      "containers k4 = (\<lambda>c. filter (\<lambda>r. r \<notin> Obj ` set (tlists k3 Defunct)) (containers k3 c))"
      using cleanup_function.idle_ok [OF assms(1) mc3 h3 dm] by blast
    have "s \<notin> fst ` L" using some(4) by auto
    then have L: "{x \<in> ?L. fst x \<notin> set (grave_memory k3)} = L"
      using some(3) unfolding g3 by (auto simp: image_iff)
    have "containers k2 = containers k1" using f2(1) by (simp add: mem_frame_def)
    moreover have "Obj t \<notin> set (containers k c)" "Thread_timer t \<notin> set (containers k c)" for c
      using some(17,18) by (simp_all add: unlinked_def)
    ultimately have "containers k4 = containers k"
      unfolding k4(5) k3(9) d3 some(16)
      by (auto simp: fun_eq_iff lists_remove_def lists_insert_first_def some(16) removeAll_id filter_id_conv)
    moreover have "thread_life clean texit name entry param ssize priority ticks k = Some (Some t, k4)"
      using some(1) k2(1) k3(1) k4(1) by (simp add: thread_life_def)
    ultimately show ?thesis using k4(2,3,4) unfolding L by blast
  qed
qed

lemma thread_life_leaves_nothing_witness:
  "\<exists>r k'. thread_life clean_by_release 0x8101 (cstr_of ''work'') 0x8201 7 512 3 10 demo = Some (r, k') \<and>
    heap_holds (heap_of k') {(0x2001000c, 16)} \<and> containers k' = containers demo"
proof -
  have "no_residue demo {(0x2001000c, 16)}"
    by (auto simp: no_residue_def heap_area_def demo_heap_ptr unlinked_def demo_lists_def split: if_splits)
  then show ?thesis
    using thread_life_leaves_nothing [OF telling.cleanup_function_axioms in_thread_may_call [OF demo_in_thread] _ _ _ _,
        of "{(0x2001000c, 16)}" 3 512 "0x8101" "cstr_of ''work''" "0x8201" 7 10] demo_holds
    by (auto simp: demo_lists_def)
qed

end
