(* ===== verification/Mutex.thy ===== *)
theory Mutex
  imports Scenario
begin

text \<open>
  Mutexes, \<open>src/ipc.c\<close>: an owner that may take the mutex again, the number of times it holds it,
  and the priority it gets back when it lets go. An owner inherits the priority of a thread that
  starts to wait for it.
\<close>

subsection \<open>Operations\<close>

definition mutex_setup :: "addr \<Rightarrow> u8 \<Rightarrow> kernel \<Rightarrow> kernel" where
  "mutex_setup m flag k =
     (let k = rt_ipc_object_init m k;
          k = upd_mutex m (\<lambda>mx. mx\<lparr>mtx_value := 1, owner := None, original_priority := 0xFF,
                                   hold := 0\<rparr>) k
      in set_flag m flag k)"

definition rt_mutex_init :: "addr \<Rightarrow> cstr \<Rightarrow> u8 \<Rightarrow> kernel \<Rightarrow> (rt_err \<times> kernel) option" where
  "rt_mutex_init m name flag k = do {
     rt_assert (m \<noteq> 0);
     let k = rt_object_init (Obj m) RT_Object_Class_Mutex name k;
     Some (RT_EOK, mutex_setup m flag k)
   }"

definition rt_mutex_detach :: "addr \<Rightarrow> kernel \<Rightarrow> (rt_err \<times> kernel) option" where
  "rt_mutex_detach m k = do {
     rt_assert (m \<noteq> 0);
     k \<leftarrow> rt_ipc_list_resume_all (Suspend_list m) k;
     k \<leftarrow> rt_object_detach (Obj m) k;
     Some (RT_EOK, k)
   }"

definition rt_mutex_create :: "cstr \<Rightarrow> u8 \<Rightarrow> kernel \<Rightarrow> (addr option \<times> kernel) option" where
  "rt_mutex_create name flag k = do {
     RT_DEBUG_NOT_IN_INTERRUPT k;
     (a, k) \<leftarrow> rt_object_allocate RT_Object_Class_Mutex name k;
     (case a of None \<Rightarrow> Some (None, k) | Some m \<Rightarrow> Some (Some m, mutex_setup m flag k))
   }"

definition rt_mutex_delete :: "addr \<Rightarrow> kernel \<Rightarrow> (rt_err \<times> kernel) option" where
  "rt_mutex_delete m k = do {
     RT_DEBUG_NOT_IN_INTERRUPT k;
     rt_assert (m \<noteq> 0);
     k \<leftarrow> rt_ipc_list_resume_all (Suspend_list m) k;
     k \<leftarrow> rt_object_delete m k;
     Some (RT_EOK, k)
   }"

definition rt_mutex_take_wake :: "addr \<Rightarrow> kernel \<Rightarrow> rt_err" where
  "rt_mutex_take_wake t k =
     (if t_error (thread k t) \<noteq> RT_EOK then t_error (thread k t) else RT_EOK)"

text \<open>The owner's priority is raised to that of the thread that is about to wait.\<close>

definition inherit_priority :: "addr \<Rightarrow> addr \<Rightarrow> kernel \<Rightarrow> kernel option" where
  "inherit_priority m t k = do {
     ow \<leftarrow> owner (mutex k m);
     (if current_priority (thread k t) < current_priority (thread k ow) then do {
        (_, k) \<leftarrow> rt_thread_control ow 2 (current_priority (thread k t)) k;
        Some k
      } else Some k)
   }"

definition rt_mutex_take :: "addr \<Rightarrow> s32 \<Rightarrow> kernel \<Rightarrow> ((rt_err, addr) outcome \<times> kernel) option" where
  "rt_mutex_take m time k = do {
     RT_DEBUG_IN_THREAD_CONTEXT k;
     rt_assert (m \<noteq> 0);
     t \<leftarrow> rt_thread_self k;
     let k = upd_thread t (\<lambda>th. th\<lparr>t_error := RT_EOK\<rparr>) k;
     (if owner (mutex k m) = Some t
      then Some (Done RT_EOK, upd_mutex m (\<lambda>mx. mx\<lparr>hold := hold mx + 1\<rparr>) k)
      else if 0 < mtx_value (mutex k m) then
        Some (Done RT_EOK,
          upd_mutex m (\<lambda>mx. mx\<lparr>mtx_value := mtx_value mx - 1, owner := Some t,
            original_priority := current_priority (thread k t), hold := hold mx + 1\<rparr>) k)
      else if time = 0 then
        Some (Done (- RT_ETIMEOUT), upd_thread t (\<lambda>th. th\<lparr>t_error := - RT_ETIMEOUT\<rparr>) k)
      else do {
        k \<leftarrow> inherit_priority m t k;
        k \<leftarrow> ipc_wait (Suspend_list m) t (obj_flag (objs k (Obj m))) time k;
        Some (if current k = Some t then Done (rt_mutex_take_wake t k) else Blocked t, k)
      })
   }"

text \<open>What the last release of the owner does: the first waiting thread owns the mutex.\<close>

definition pass_mutex :: "addr \<Rightarrow> kernel \<Rightarrow> (bool \<times> kernel) option" where
  "pass_mutex m k =
     (case tlists k (Suspend_list m) of
        s # _ \<Rightarrow> do {
          let k = upd_mutex m (\<lambda>mx. mx\<lparr>owner := Some s,
                    original_priority := current_priority (thread k s), hold := hold mx + 1\<rparr>) k;
          k \<leftarrow> rt_ipc_list_resume (Suspend_list m) k;
          Some (True, k)
        }
      | [] \<Rightarrow> Some (False, upd_mutex m (\<lambda>mx. mx\<lparr>mtx_value := mtx_value mx + 1, owner := None,
                original_priority := 0xFF\<rparr>) k))"

definition rt_mutex_release :: "addr \<Rightarrow> kernel \<Rightarrow> (rt_err \<times> kernel) option" where
  "rt_mutex_release m k = do {
     RT_DEBUG_IN_THREAD_CONTEXT k;
     t \<leftarrow> rt_thread_self k;
     (if owner (mutex k m) \<noteq> Some t
      then Some (- RT_ERROR, upd_thread t (\<lambda>th. th\<lparr>t_error := - RT_ERROR\<rparr>) k)
      else do {
        let k = upd_mutex m (\<lambda>mx. mx\<lparr>hold := hold mx - 1\<rparr>) k;
        (need_schedule, k) \<leftarrow>
          (if hold (mutex k m) = 0 then do {
             k \<leftarrow> (if original_priority (mutex k m) \<noteq> current_priority (thread k t) then do {
                     (_, k) \<leftarrow> rt_thread_control t 2 (original_priority (mutex k m)) k;
                     Some k
                   } else Some k);
             pass_mutex m k
           } else Some (False, k));
        k \<leftarrow> (if need_schedule then rt_schedule k else Some k);
        Some (RT_EOK, k)
      })
   }"

definition rt_mutex_control :: "addr \<Rightarrow> u8 \<Rightarrow> u32 \<Rightarrow> kernel \<Rightarrow> rt_err \<times> kernel" where
  "rt_mutex_control m cmd arg k = (- RT_ERROR, k)"

subsection \<open>Inheritance of the priority\<close>

text \<open>Changing the priority of a thread, ready or waiting, moves it in no list of waiting threads.\<close>

lemma control_prio_ok:
  assumes inv: "kernel_inv b k" and t: "live (thread k t)" and p: "unat p < 32"
  obtains k' where "rt_thread_control t 2 p k = Some (0, k')" "kernel_inv b k'" "thread_frame k k'"
    "thread k' = (thread k)(t := with_prio p (thread k t))"
    "\<forall>h. waiting h \<longrightarrow> tlists k' h = tlists k h"
proof (cases "stat (thread k t) = RT_THREAD_READY")
  case True
  obtain k' where k': "rt_thread_control t 2 p k = Some (0, k')" "kernel_inv b k'" "thread_frame k k'"
    "thread k' = (thread k)(t := with_prio p (thread k t))"
    "tlists k' = lists_insert_last (Ready (unat p)) t (lists_remove t (tlists k))"
    using control_ready_ok [OF inv True p] by metis
  have "tlists k' h = tlists k h" if "waiting h" for h
    using that ready_not_waiting [OF kernel_invD(1) [OF inv] that True] unfolding k'(5)
    by (cases h) (simp_all add: lists_insert_last_def lists_remove_def removeAll_id)
  then show ?thesis using that k' by blast
next
  case False
  then have "stat (thread k t) = RT_THREAD_SUSPEND" using t by (auto simp: live_def)
  from control_suspended_ok [OF inv this p] show ?thesis by (intro that) auto
qed

lemma with_prio_same: "prio_ok th \<Longrightarrow> with_prio (current_priority th) th = th"
  by (cases th) (simp add: prio_ok_def)

text \<open>The owner gets the higher of its own and the waiting thread's priority.\<close>

lemma inherit_ok:
  assumes inv: "kernel_inv b k" and ow: "owner (mutex k m) = Some ow" "live (thread k ow)"
    and t: "live (thread k t)"
  obtains k' where "inherit_priority m t k = Some k'" "kernel_inv b k'" "thread_frame k k'"
    "objs_frame k k'" "\<forall>h. waiting h \<longrightarrow> tlists k' h = tlists k h"
    "thread k' = (thread k)(ow := with_prio (min (current_priority (thread k ow))
       (current_priority (thread k t))) (thread k ow))"
proof (cases "current_priority (thread k t) < current_priority (thread k ow)")
  case True
  have p: "unat (current_priority (thread k t)) < 32"
    using sched_wfD(5) [OF kernel_invD(1) [OF inv] t] by (simp add: prio_ok_def)
  obtain k' where k': "rt_thread_control ow 2 (current_priority (thread k t)) k = Some (0, k')"
    "kernel_inv b k'" "thread_frame k k'"
    "thread k' = (thread k)(ow := with_prio (current_priority (thread k t)) (thread k ow))"
    "\<forall>h. waiting h \<longrightarrow> tlists k' h = tlists k h"
    by (rule control_prio_ok [OF inv ow(2) p])
  have "inherit_priority m t k = Some k'" using True ow(1) k'(1) by (simp add: inherit_priority_def)
  moreover have "min (current_priority (thread k ow)) (current_priority (thread k t))
      = current_priority (thread k t)" using True by simp
  ultimately show ?thesis using that k' objs_frame_thread_control [OF k'(1)] by simp
next
  case False
  then have "inherit_priority m t k = Some k" using ow(1) by (simp add: inherit_priority_def)
  moreover have "min (current_priority (thread k ow)) (current_priority (thread k t))
      = current_priority (thread k ow)" using False by simp
  ultimately show ?thesis
    using that [of k] inv with_prio_same [OF sched_wfD(5) [OF kernel_invD(1) [OF inv] ow(2)]] by simp
qed

subsection \<open>Correctness\<close>

text \<open>A free mutex has no owner and nobody waits for it; a mutex that is held has one owner, alive,
  that does not wait for it.\<close>

definition mutex_wf :: "addr \<Rightarrow> kernel \<Rightarrow> bool" where
  "mutex_wf m k =
     (m \<noteq> 0 \<and> ipc_flag_ok m k \<and>
      (case owner (mutex k m) of
         None \<Rightarrow> mtx_value (mutex k m) = 1 \<and> hold (mutex k m) = 0 \<and> tlists k (Suspend_list m) = []
       | Some ow \<Rightarrow> mtx_value (mutex k m) = 0 \<and> hold (mutex k m) \<noteq> 0 \<and> live (thread k ow) \<and>
           unat (original_priority (mutex k m)) < 32 \<and> ow \<notin> set (tlists k (Suspend_list m))))"

text \<open>The abstract mutex: the owner, how often it holds the mutex, and the threads that wait.\<close>

type_synonym lock_state = "addr option \<times> nat \<times> addr list"

definition abs_lock :: "addr \<Rightarrow> (addr list \<Rightarrow> addr list) \<Rightarrow> lock_state \<Rightarrow> lock_state" where
  "abs_lock t join st =
     (case st of (None, n, q) \<Rightarrow> (Some t, 1, q)
      | (Some ow, n, q) \<Rightarrow> if ow = t then (Some ow, n + 1, q) else (Some ow, n, join q))"

definition abs_unlock :: "lock_state \<Rightarrow> lock_state" where
  "abs_unlock st =
     (case st of (ow, n, q) \<Rightarrow>
        if 1 < n then (ow, n - 1, q)
        else (case q of [] \<Rightarrow> (None, 0, []) | s # q \<Rightarrow> (Some s, 1, q)))"

definition mutex_abs :: "addr \<Rightarrow> kernel \<Rightarrow> lock_state" where
  "mutex_abs m k = (owner (mutex k m), unat (hold (mutex k m)), tlists k (Suspend_list m))"

lemma mutex_wfD:
  assumes "mutex_wf m k" "owner (mutex k m) = Some ow"
  shows "m \<noteq> 0" "ipc_flag_ok m k" "mtx_value (mutex k m) = 0" "hold (mutex k m) \<noteq> 0"
    "live (thread k ow)" "ow \<notin> set (tlists k (Suspend_list m))"
    "unat (original_priority (mutex k m)) < 32"
  using assms by (simp_all add: mutex_wf_def)

text \<open>Waiting for a mutex that another thread holds.\<close>

lemma mutex_take_blocks:
  assumes it: "in_thread b t r k" and wf: "mutex_wf m k"
    and ow: "owner (mutex k m) = Some ow" "ow \<noteq> t" and n: "time \<noteq> 0" "time \<noteq> 0x7fffffff"
  obtains k' x where "rt_mutex_take m time k = Some (Blocked t, k')" "kernel_inv b k'" "call_frame k k'"
    "objs_frame k k'"
    "thread k' = (thread k)(ow := with_prio (min (current_priority (thread k ow))
       (current_priority (thread k t))) (thread k ow),
       t := (thread k t)\<lparr>t_error := 0, stat := RT_THREAD_SUSPEND\<rparr>)"
    "tlists k' (Suspend_list m) =
       queue_in (obj_flag (objs k (Obj m))) k t (tlists k (Suspend_list m))"
    "current k' = Some x" "highest k' x" "x \<noteq> t"
    "Thread_timer t \<in> set (timer_list k') \<longleftrightarrow> 0 <s time"
    "0 <s time \<longrightarrow> timeout_tick (timer k' (Thread_timer t)) = tick k + time"
proof -
  note it' = in_threadD [OF it] and wf' = mutex_wfD [OF wf ow(1)]
  let ?fl = "obj_flag (objs k (Obj m))" and ?q = "tlists k (Suspend_list m)"
  have fl: "?fl = 0 \<or> ?fl = 1" using wf'(2) by (simp add: ipc_flag_ok_def)
  let ?k0 = "upd_thread t (\<lambda>th. th\<lparr>t_error := 0\<rparr>) k"
  have ow0: "owner (mutex ?k0 m) = Some ow" "live (thread ?k0 ow)" "live (thread ?k0 t)"
    using ow wf'(5) it'(3) by (simp_all add: live_def)
  have inv0: "kernel_inv b ?k0" using it'(1) by simp
  obtain k1 where k1: "inherit_priority m t ?k0 = Some k1" "kernel_inv b k1" "thread_frame ?k0 k1"
    "objs_frame ?k0 k1" "\<forall>h. waiting h \<longrightarrow> tlists k1 h = tlists ?k0 h"
    "thread k1 = (thread ?k0)(ow := with_prio (min (current_priority (thread ?k0 ow))
       (current_priority (thread ?k0 t))) (thread ?k0 ow))"
    by (rule inherit_ok [OF inv0 ow0])
  note f1 = thread_frameD [OF k1(3)]
  have c1: "current k1 = Some t" "stat (thread k1 t) = RT_THREAD_READY" "lock_nest k1 = 0"
    "stat (thread k1 r) = RT_THREAD_READY" "r \<noteq> t" "tick k1 = tick k"
    using it' f1 ow(2) by (auto simp: k1(6))
  have w: "waiting (Suspend_list m)" by simp
  obtain k' x where k': "ipc_wait (Suspend_list m) t ?fl time k1 = Some k'" "kernel_inv b k'"
    "call_frame k1 k'"
    "thread k' = (thread k1)(t := (thread k1 t)\<lparr>stat := RT_THREAD_SUSPEND\<rparr>)"
    "tlists k' = (lists_remove t (tlists k1))(Suspend_list m :=
       queue_in ?fl k1 t (tlists k1 (Suspend_list m)))"
    "current k' = Some x" "highest k' x" "x \<noteq> t"
    "Thread_timer t \<in> set (timer_list k') \<longleftrightarrow> 0 <s time"
    "0 <s time \<longrightarrow> timeout_tick (timer k' (Thread_timer t)) = tick k1 + time"
    by (rule ipc_wait_ok [OF k1(2) c1(1,2) w fl n(2) c1(3-5)])
  have fl1: "obj_flag (objs k1 (Obj m)) = ?fl" using objs_frameD [OF k1(4)] by simp
  have take: "rt_mutex_take m time k = Some (Blocked t, k')"
    using it wf' ow n(1) k1(1) k'(1,6,8) fl1 by (simp add: rt_mutex_take_def)
  have cf: "call_frame k k'"
    using call_frame_trans [OF call_frame_thread [OF k1(3)] k'(3)]
      call_frame_trans [of k ?k0 k'] call_frame_thread [of k ?k0] by simp
  have of: "objs_frame k k'"
    using objs_frame_trans [OF k1(4) objs_frame_wait [OF k'(1)]] by simp
  have th: "thread k' = (thread k)(ow := with_prio (min (current_priority (thread k ow))
       (current_priority (thread k t))) (thread k ow),
       t := (thread k t)\<lparr>t_error := 0, stat := RT_THREAD_SUSPEND\<rparr>)"
    using ow(2) unfolding k'(4) k1(6) by (simp add: fun_eq_iff)
  have "queue_in ?fl k1 t (tlists k1 (Suspend_list m)) = queue_in ?fl k t ?q"
  proof -
    have "tlists k1 (Suspend_list m) = ?q" using k1(5) by simp
    moreover have "queue_in ?fl k1 t ?q = queue_in ?fl k t ?q"
      by (rule queue_in_cong) (use wf'(6) ow(2) in \<open>auto simp: k1(6)\<close>)
    ultimately show ?thesis by simp
  qed
  then have tl: "tlists k' (Suspend_list m) = queue_in ?fl k t ?q" unfolding k'(5) by simp
  show ?thesis
    by (rule that [OF take k'(2) cf of th tl k'(6-9)]) (use k'(10) c1(6) in simp)
qed

lemma mutex_wf_frame:
  assumes "objs_frame k k'" "mutex k' = mutex k"
  shows "mutex_wf m k' =
     (m \<noteq> 0 \<and> ipc_flag_ok m k \<and>
      (case owner (mutex k m) of
         None \<Rightarrow> mtx_value (mutex k m) = 1 \<and> hold (mutex k m) = 0 \<and> tlists k' (Suspend_list m) = []
       | Some ow \<Rightarrow> mtx_value (mutex k m) = 0 \<and> hold (mutex k m) \<noteq> 0 \<and> live (thread k' ow) \<and>
           unat (original_priority (mutex k m)) < 32 \<and> ow \<notin> set (tlists k' (Suspend_list m))))"
  by (simp only: mutex_wf_def ipc_flag_frame [OF assms(1)] assms(2))

lemma unat_hold_Suc: "unat (n::u8) < 255 \<Longrightarrow> unat (n + 1) = unat n + 1 \<and> n + 1 \<noteq> 0"
proof -
  assume "unat n < 255"
  then have u: "unat (n + 1) = unat n + 1" by (simp add: unat_word_ariths)
  then have "n + 1 \<noteq> 0" by (metis add_is_0 unat_0 zero_neq_one)
  with u show ?thesis by simp
qed

lemma prio_of_live: "kernel_inv b k \<Longrightarrow> live (thread k t) \<Longrightarrow> unat (current_priority (thread k t)) < 32"
  using sched_wfD(5) [OF kernel_invD(1)] by (simp add: prio_ok_def)

text \<open>Taking a mutex that is free or that the caller holds.\<close>

lemma mutex_take_done:
  assumes it: "in_thread b t r k" and wf: "mutex_wf m k"
    and ow: "owner (mutex k m) = None \<or> owner (mutex k m) = Some t" and h: "unat (hold (mutex k m)) < 255"
  obtains k' where "rt_mutex_take m time k = Some (Done RT_EOK, k')" "kernel_inv b k'" "mutex_wf m k'"
    "mutex_abs m k' = abs_lock t join (mutex_abs m k)"
proof -
  let ?k0 = "upd_thread t (\<lambda>th. th\<lparr>t_error := 0\<rparr>) k"
  note d = in_threadD [OF it]
  have inv0: "kernel_inv b ?k0" using d(1) by simp
  have m: "m \<noteq> 0" using wf by (simp add: mutex_wf_def)
  note h1 = unat_hold_Suc [OF h]
  show ?thesis
  proof (cases "owner (mutex k m)")
    case None
    let ?k' = "upd_mutex m (\<lambda>mx. mx\<lparr>mtx_value := mtx_value mx - 1, owner := Some t,
            original_priority := current_priority (thread ?k0 t), hold := hold mx + 1\<rparr>) ?k0"
    have "rt_mutex_take m time k = Some (Done RT_EOK, ?k')"
      using it m None wf by (simp add: rt_mutex_take_def mutex_wf_def)
    moreover have "mutex_wf m ?k'"
      using wf None h1 d(3) prio_of_live [OF d(1) live_ready(1) [OF d(3)]]
      by (simp add: mutex_wf_def ipc_flag_ok_def live_def)
    moreover have "mutex_abs m ?k' = abs_lock t join (mutex_abs m k)"
      using wf None by (simp add: mutex_abs_def abs_lock_def mutex_wf_def)
    ultimately show ?thesis using that [of ?k'] inv0 by simp
  next
    case (Some x)
    then have o: "owner (mutex k m) = Some t" using ow by simp
    let ?k' = "upd_mutex m (\<lambda>mx. mx\<lparr>hold := hold mx + 1\<rparr>) ?k0"
    have "rt_mutex_take m time k = Some (Done RT_EOK, ?k')"
      using it m o by (simp add: rt_mutex_take_def)
    moreover have "mutex_wf m ?k'"
      using wf o h1 d(3) by (simp add: mutex_wf_def ipc_flag_ok_def live_def)
    moreover have "mutex_abs m ?k' = abs_lock t join (mutex_abs m k)"
      using o h1 by (simp add: mutex_abs_def abs_lock_def)
    ultimately show ?thesis using that [of ?k'] inv0 by simp
  qed
qed

text \<open>The owner's release: its priority is restored when it lets go.\<close>

lemma mutex_release_parts:
  assumes it: "in_thread b t r k" and wf: "mutex_wf m k" and ow: "owner (mutex k m) = Some t"
    and h: "hold (mutex k m) = 1"
  defines "k0 \<equiv> upd_mutex m (\<lambda>mx. mx\<lparr>hold := hold mx - 1\<rparr>) k"
  obtains k1 where
    "(if original_priority (mutex k0 m) \<noteq> current_priority (thread k0 t) then do {
        (_, k) \<leftarrow> rt_thread_control t 2 (original_priority (mutex k0 m)) k0;
        Some k
      } else Some k0) = Some k1" "kernel_inv b k1" "thread_frame k0 k1" "objs_frame k0 k1"
    "thread k1 = (thread k)(t := with_prio (original_priority (mutex k m)) (thread k t))"
    "\<forall>h. waiting h \<longrightarrow> tlists k1 h = tlists k h"
proof -
  note d = in_threadD [OF it] and wf' = mutex_wfD [OF wf ow]
  have inv0: "kernel_inv b k0" and l0: "live (thread k0 t)" using d(1) wf'(5) by (simp_all add: k0_def)
  have op: "original_priority (mutex k0 m) = original_priority (mutex k m)" by (simp add: k0_def)
  have th0: "thread k0 = thread k" "tlists k0 = tlists k" by (simp_all add: k0_def)
  show ?thesis
  proof (cases "original_priority (mutex k0 m) = current_priority (thread k0 t)")
    case True
    have "with_prio (original_priority (mutex k m)) (thread k t) = thread k t"
      using with_prio_same [OF sched_wfD(5) [OF kernel_invD(1) [OF inv0] l0]] True op th0 by simp
    then show ?thesis using that [of k0] True inv0 th0 by simp
  next
    case False
    have p: "unat (original_priority (mutex k0 m)) < 32" using wf'(7) op by simp
    obtain k1 where k1: "rt_thread_control t 2 (original_priority (mutex k0 m)) k0 = Some (0, k1)"
      "kernel_inv b k1" "thread_frame k0 k1"
      "thread k1 = (thread k0)(t := with_prio (original_priority (mutex k0 m)) (thread k0 t))"
      "\<forall>h. waiting h \<longrightarrow> tlists k1 h = tlists k0 h"
      by (rule control_prio_ok [OF inv0 l0 p])
    show ?thesis
      by (rule that [of k1])
        (use k1 False op th0 objs_frame_thread_control [OF k1(1)] in \<open>simp_all\<close>)
  qed
qed

lemma mutex_release_free:
  assumes it: "in_thread b t r k" and wf: "mutex_wf m k" and ow: "owner (mutex k m) = Some t"
    and h: "hold (mutex k m) = 1" and q: "tlists k (Suspend_list m) = []"
  obtains k' where "rt_mutex_release m k = Some (RT_EOK, k')" "kernel_inv b k'" "mutex_wf m k'"
    "mutex_abs m k' = (None, 0, [])"
    "thread k' = (thread k)(t := with_prio (original_priority (mutex k m)) (thread k t))"
    "current k' = Some t"
proof -
  note d = in_threadD [OF it] and wf' = mutex_wfD [OF wf ow]
  let ?k0 = "upd_mutex m (\<lambda>mx. mx\<lparr>hold := hold mx - 1\<rparr>) k"
  obtain k1 where k1: "(if original_priority (mutex ?k0 m) \<noteq> current_priority (thread ?k0 t) then do {
        (_, k) \<leftarrow> rt_thread_control t 2 (original_priority (mutex ?k0 m)) ?k0;
        Some k
      } else Some ?k0) = Some k1" "kernel_inv b k1" "thread_frame ?k0 k1" "objs_frame ?k0 k1"
    "thread k1 = (thread k)(t := with_prio (original_priority (mutex k m)) (thread k t))"
    "\<forall>h. waiting h \<longrightarrow> tlists k1 h = tlists k h"
    by (rule mutex_release_parts [OF it wf ow h])
  have mx: "mutex k1 = mutex ?k0" using thread_frameD [OF k1(3)] by simp
  let ?k' = "upd_mutex m (\<lambda>mx. mx\<lparr>mtx_value := mtx_value mx + 1, owner := None,
      original_priority := 0xFF\<rparr>) k1"
  have q1: "tlists k1 (Suspend_list m) = []" using k1(6) q by simp
  have "rt_mutex_release m k = Some (RT_EOK, ?k')"
    using it ow h k1(1) q1 by (simp add: rt_mutex_release_def pass_mutex_def)
  moreover have "mutex_wf m ?k'"
    using wf'(1-3) h mx q1 ipc_flag_frame [OF k1(4), of m]
    by (simp add: mutex_wf_def) (simp add: ipc_flag_ok_def)
  moreover have "mutex_abs m ?k' = (None, 0, [])" using mx h q1 by (simp add: mutex_abs_def)
  moreover have "current ?k' = Some t" using thread_frameD(1) [OF k1(3)] d(2) by simp
  ultimately show ?thesis using that [of ?k'] k1(2,5) by simp
qed

lemma mutex_release_passes:
  assumes it: "in_thread b t r k" and wf: "mutex_wf m k" and ow: "owner (mutex k m) = Some t"
    and h: "hold (mutex k m) = 1" and q: "tlists k (Suspend_list m) = s # ss"
  obtains k' where "rt_mutex_release m k = Some (RT_EOK, k')" "kernel_inv b k'" "mutex_wf m k'"
    "mutex_abs m k' = (Some s, 1, ss)"
    "thread k' = (thread k)(t := with_prio (original_priority (mutex k m)) (thread k t),
       s := (thread k s)\<lparr>stat := RT_THREAD_READY\<rparr>)"
proof -
  note d = in_threadD [OF it] and wf' = mutex_wfD [OF wf ow]
  let ?k0 = "upd_mutex m (\<lambda>mx. mx\<lparr>hold := hold mx - 1\<rparr>) k"
  obtain k1 where k1: "(if original_priority (mutex ?k0 m) \<noteq> current_priority (thread ?k0 t) then do {
        (_, k) \<leftarrow> rt_thread_control t 2 (original_priority (mutex ?k0 m)) ?k0;
        Some k
      } else Some ?k0) = Some k1" "kernel_inv b k1" "thread_frame ?k0 k1" "objs_frame ?k0 k1"
    "thread k1 = (thread k)(t := with_prio (original_priority (mutex k m)) (thread k t))"
    "\<forall>h. waiting h \<longrightarrow> tlists k1 h = tlists k h"
    by (rule mutex_release_parts [OF it wf ow h])
  have mx: "mutex k1 = mutex ?k0" using thread_frameD [OF k1(3)] by simp
  let ?k2 = "upd_mutex m (\<lambda>mx. mx\<lparr>owner := Some s,
      original_priority := current_priority (thread k1 s), hold := hold mx + 1\<rparr>) k1"
  have w: "waiting (Suspend_list m)" by simp
  have q2: "tlists ?k2 (Suspend_list m) = s # ss" using k1(6) q by simp
  have inv2: "kernel_inv b ?k2" using k1(2) by simp
  obtain k3 where k3: "rt_ipc_list_resume (Suspend_list m) ?k2 = Some k3" "kernel_inv b k3"
    "thread_frame ?k2 k3" "thread k3 = (thread ?k2)(s := (thread ?k2 s)\<lparr>stat := RT_THREAD_READY\<rparr>)"
    "tlists k3 (Suspend_list m) = ss" "stat (thread ?k2 s) = RT_THREAD_SUSPEND"
    by (rule list_resume_ok [OF inv2 w q2])
  have st: "s \<noteq> t" using wf'(6) q by auto
  have r3: "stat (thread k3 s) = RT_THREAD_READY" using k3(4) by simp
  have c3: "current k3 \<noteq> None" "lock_nest k3 = 0"
    using thread_frameD [OF k3(3)] thread_frameD [OF k1(3)] d by simp_all
  obtain k' x where k': "rt_schedule k3 = Some k'" "kernel_inv b k'" "current k' = Some x"
    "highest k' x" "stat (thread k' x) = RT_THREAD_READY" "highest k3 x"
    by (rule schedule_switches [OF k3(2) r3 c3])
  note sel = rt_schedule_sel [OF k'(1)]
  have rel: "rt_mutex_release m k = Some (RT_EOK, k')"
    using it ow h k1(1) q2 k3(1) k'(1) by (simp add: rt_mutex_release_def pass_mutex_def)
  have mx3: "mutex k' m = (mutex k m)\<lparr>owner := Some s,
      original_priority := current_priority (thread k s), hold := 1\<rparr>"
    using thread_frameD(9) [OF k3(3)] sel mx h st by (simp add: k1(5))
  have of: "objs_frame k k'"
  proof -
    have "objs_frame k k1" "objs_frame k1 k3" "objs_frame k3 k'"
      using k1(4) objs_frame_list_resume [OF k3(1)] objs_frame_insert(3) [OF k'(1)]
      by (simp_all add: objs_frame_def)
    then show ?thesis using objs_frame_trans by blast
  qed
  have "distinct (s # ss)"
    using q sched_wfD(1) [OF kernel_invD(1) [OF d(1)]] unfolding wf_lists_def by metis
  moreover have "unat (current_priority (thread k s)) < 32"
  proof -
    have "stat (thread k s) = RT_THREAD_SUSPEND" using waiting_suspended [OF d(1) w, of s] q by simp
    then show ?thesis using prio_of_live [OF d(1) live_ready(2)] by blast
  qed
  ultimately have "mutex_wf m k'"
    using wf'(1-3) mx3 ipc_flag_frame [OF of, of m] sel r3 k3(5)
    by (simp add: mutex_wf_def live_def)
  moreover have "mutex_abs m k' = (Some s, 1, ss)" using mx3 sel k3(5) by (simp add: mutex_abs_def)
  moreover have "thread k' = (thread k)(t := with_prio (original_priority (mutex k m)) (thread k t),
       s := (thread k s)\<lparr>stat := RT_THREAD_READY\<rparr>)"
    using st sel unfolding k3(4) by (simp add: k1(5) fun_eq_iff)
  ultimately show ?thesis using that rel k'(2) by blast
qed

lemma mutex_release_nested:
  assumes it: "in_thread b t r k" and wf: "mutex_wf m k" and ow: "owner (mutex k m) = Some t"
    and h: "hold (mutex k m) \<noteq> 1"
  defines "k' \<equiv> upd_mutex m (\<lambda>mx. mx\<lparr>hold := hold mx - 1\<rparr>) k"
  shows "rt_mutex_release m k = Some (RT_EOK, k')" "kernel_inv b k'" "mutex_wf m k'"
    "mutex_abs m k' = (Some t, unat (hold (mutex k m)) - 1, tlists k (Suspend_list m))"
    "1 < unat (hold (mutex k m))"
proof -
  note d = in_threadD [OF it] and wf' = mutex_wfD [OF wf ow]
  have h1: "hold (mutex k m) - 1 \<noteq> 0" using h by simp
  have u: "unat (hold (mutex k m) - 1) = unat (hold (mutex k m)) - 1"
    using wf'(4) by (simp add: unat_minus_one)
  then show "1 < unat (hold (mutex k m))"
    using h1 by (metis diff_is_0_eq not_less unat_eq_zero)
  show "rt_mutex_release m k = Some (RT_EOK, k')"
    using it ow h1 by (simp add: rt_mutex_release_def k'_def)
  show "kernel_inv b k'" using d(1) by (simp add: k'_def)
  show "mutex_wf m k'"
    using wf ow h1 by (simp add: mutex_wf_def k'_def ipc_flag_ok_def)
  show "mutex_abs m k' = (Some t, unat (hold (mutex k m)) - 1, tlists k (Suspend_list m))"
    using ow u by (simp add: mutex_abs_def k'_def)
qed

text \<open>A mutex that another thread owns: the caller is refused or waits.\<close>

lemma mutex_take_refused:
  assumes it: "in_thread b t r k" and wf: "mutex_wf m k" and ow: "owner (mutex k m) = Some ow" "ow \<noteq> t"
  obtains k' where "rt_mutex_take m 0 k = Some (Done (- RT_ETIMEOUT), k')" "kernel_inv b k'" "mutex_wf m k'"
    "mutex_abs m k' = mutex_abs m k"
proof -
  note d = in_threadD [OF it]
  let ?k = "upd_thread t (\<lambda>th. th\<lparr>t_error := - RT_ETIMEOUT\<rparr>) (upd_thread t (\<lambda>th. th\<lparr>t_error := 0\<rparr>) k)"
  have "rt_mutex_take m 0 k = Some (Done (- RT_ETIMEOUT), ?k)"
    using d(1,2) in_thread_context [OF it] ow mutex_wfD [OF wf ow(1)] wf
    by (simp add: rt_mutex_take_def rt_thread_self_def mutex_wf_def comp_def)
  moreover have "kernel_inv b ?k" using d(1) by simp
  moreover have "mutex_wf m ?k" using wf ow by (simp add: mutex_wf_def live_def ipc_flag_ok_def)
  moreover have "mutex_abs m ?k = mutex_abs m k" by (simp add: mutex_abs_def)
  ultimately show ?thesis using that by blast
qed

lemma mutex_take_waits:
  assumes "in_thread b t r k" and "mutex_wf m k" and ow: "owner (mutex k m) = Some ow" "ow \<noteq> t"
    and "time \<noteq> 0" "time \<noteq> 0x7fffffff"
  obtains k' where "rt_mutex_take m time k = Some (Blocked t, k')" "kernel_inv b k'" "mutex_wf m k'"
    "mutex_abs m k' = abs_lock t (queue_in (obj_flag (objs k (Obj m))) k t) (mutex_abs m k)"
proof -
  note wf' = mutex_wfD [OF assms(2) ow(1)]
  let ?q = "queue_in (obj_flag (objs k (Obj m))) k t (tlists k (Suspend_list m))"
  obtain k' x where k': "rt_mutex_take m time k = Some (Blocked t, k')" "kernel_inv b k'"
    "call_frame k k'" "objs_frame k k'"
    "thread k' = (thread k)(ow := with_prio (min (current_priority (thread k ow))
       (current_priority (thread k t))) (thread k ow),
       t := (thread k t)\<lparr>t_error := 0, stat := RT_THREAD_SUSPEND\<rparr>)"
    "tlists k' (Suspend_list m) = ?q"
    using mutex_take_blocks [OF assms] by metis
  have mx: "mutex k' = mutex k" using call_frameD(7) [OF k'(3)] .
  have "live (thread k' ow)" using wf'(5) ow(2) k'(5) by (simp add: live_def)
  then have "mutex_wf m k'"
    using wf' ow k'(6) by (simp add: mutex_wf_frame [OF k'(4) mx])
  moreover have "mutex_abs m k' = abs_lock t (queue_in (obj_flag (objs k (Obj m))) k t) (mutex_abs m k)"
    using ow mx k'(6) by (simp add: mutex_abs_def abs_lock_def)
  ultimately show ?thesis using that k'(1,2) by blast
qed

subsection \<open>Properties\<close>

text \<open>C16. \<open>rt_mutex_take\<close> implements the abstract mutex: a free mutex gets the caller as its owner,
  the owner holds it once more, and a thread that finds another owner waits in the queue, or, with
  the time limit 0, is refused with \<open>-RT_ETIMEOUT\<close> and leaves the mutex and its queue as they are.
  The nesting is below its maximum of 255; the largest time limit, which fails an assertion of
  \<open>rt_timer_start\<close>, is left out.\<close>

theorem rt_mutex_take_refines:
  assumes "in_thread b t r k" "mutex_wf m k" "time \<noteq> 0x7fffffff"
    and "unat (hold (mutex k m)) < 255"
  shows "\<exists>k'. rt_mutex_take m time k =
      Some (if owner (mutex k m) = None \<or> owner (mutex k m) = Some t then Done RT_EOK
            else if time = 0 then Done (- RT_ETIMEOUT) else Blocked t, k') \<and>
    kernel_inv b k' \<and> mutex_wf m k' \<and>
    mutex_abs m k' =
      (if owner (mutex k m) \<noteq> None \<and> owner (mutex k m) \<noteq> Some t \<and> time = 0 then mutex_abs m k
       else abs_lock t (queue_in (obj_flag (objs k (Obj m))) k t) (mutex_abs m k))"
proof (cases "owner (mutex k m) = None \<or> owner (mutex k m) = Some t")
  case True
  show ?thesis by (rule mutex_take_done [OF assms(1,2) True assms(4)]) (use True in auto)
next
  case False
  then obtain ow where ow: "owner (mutex k m) = Some ow" "ow \<noteq> t" by auto
  show ?thesis
  proof (cases "time = 0")
    case True
    obtain k' where "rt_mutex_take m 0 k = Some (Done (- RT_ETIMEOUT), k')" "kernel_inv b k'"
      "mutex_wf m k'" "mutex_abs m k' = mutex_abs m k"
      by (rule mutex_take_refused [OF assms(1,2) ow])
    then show ?thesis using ow True by auto
  next
    case False
    obtain k' where "rt_mutex_take m time k = Some (Blocked t, k')" "kernel_inv b k'" "mutex_wf m k'"
      "mutex_abs m k' = abs_lock t (queue_in (obj_flag (objs k (Obj m))) k t) (mutex_abs m k)"
      by (rule mutex_take_waits [OF assms(1,2) ow False assms(3)])
    then show ?thesis using ow False by auto
  qed
qed

definition demo_locked :: kernel where
  "demo_locked = upd_mutex 0x2200 (\<lambda>_. \<lparr>mtx_value = 0, original_priority = 31, hold = 1,
     owner = Some idle_t\<rparr>) demo"

lemma demo_locked_wf: "in_thread 0xfffffffe main_t idle_t demo_locked" "mutex_wf 0x2200 demo_locked"
  by (simp_all add: demo_locked_def demo_in_thread mutex_wf_def ipc_flag_ok_def)

lemma rt_mutex_take_refines_witness:
  "(\<exists>k'. rt_mutex_take 0x2200 (- 1) demo_locked = Some (Blocked main_t, k') \<and>
      mutex_abs 0x2200 k' = (Some idle_t, 1, [main_t])) \<and>
   (\<exists>k'. rt_mutex_take 0x2200 0 demo_locked = Some (Done (- RT_ETIMEOUT), k') \<and>
      mutex_abs 0x2200 k' = (Some idle_t, 1, []))"
  using rt_mutex_take_refines [OF demo_locked_wf, of "- 1"] rt_mutex_take_refines [OF demo_locked_wf, of 0]
  by (auto simp: demo_locked_def mutex_abs_def abs_lock_def queue_in_def)

text \<open>C17. Priority inheritance: while a thread starts to wait for a mutex, the owner runs at the
  higher of the two priorities, and no other thread changes.\<close>

theorem rt_mutex_take_inherits:
  assumes "in_thread b t r k" "mutex_wf m k" "owner (mutex k m) = Some ow" "ow \<noteq> t"
    and "time \<noteq> 0" "time \<noteq> 0x7fffffff"
  shows "\<exists>k'. rt_mutex_take m time k = Some (Blocked t, k') \<and> kernel_inv b k' \<and>
    current_priority (thread k' ow) = min (current_priority (thread k ow)) (current_priority (thread k t)) \<and>
    stat (thread k' t) = RT_THREAD_SUSPEND \<and> t \<in> set (tlists k' (Suspend_list m)) \<and>
    (\<forall>x. x \<noteq> ow \<longrightarrow> x \<noteq> t \<longrightarrow> thread k' x = thread k x)"
proof -
  obtain k' x where k': "rt_mutex_take m time k = Some (Blocked t, k')" "kernel_inv b k'"
    "thread k' = (thread k)(ow := with_prio (min (current_priority (thread k ow))
       (current_priority (thread k t))) (thread k ow),
       t := (thread k t)\<lparr>t_error := 0, stat := RT_THREAD_SUSPEND\<rparr>)"
    "tlists k' (Suspend_list m) = queue_in (obj_flag (objs k (Obj m))) k t (tlists k (Suspend_list m))"
    using mutex_take_blocks [OF assms] by metis
  show ?thesis by (rule exI [of _ k']) (simp add: k' assms(4))
qed

lemma rt_mutex_take_inherits_witness:
  "\<exists>k'. rt_mutex_take 0x2200 50 demo_locked = Some (Blocked main_t, k') \<and>
    current_priority (thread k' idle_t) = 10 \<and> thread k' peer_t = thread demo peer_t"
  using rt_mutex_take_inherits [OF demo_locked_wf, of idle_t 50]
  by (auto simp: demo_locked_def word_sless_alt)

text \<open>C18. \<open>rt_mutex_release\<close> by the owner implements the abstract mutex: a nested hold is undone, the
  last release passes the mutex to the first thread that waits or frees it, and gives the owner
  the priority back that it had when it became the owner.\<close>

theorem rt_mutex_release_refines:
  assumes "in_thread b t r k" "mutex_wf m k" "owner (mutex k m) = Some t"
  shows "\<exists>k'. rt_mutex_release m k = Some (RT_EOK, k') \<and> kernel_inv b k' \<and> mutex_wf m k' \<and>
    mutex_abs m k' = abs_unlock (mutex_abs m k) \<and>
    (hold (mutex k m) = 1 \<longrightarrow> current_priority (thread k' t) = original_priority (mutex k m))"
proof (cases "hold (mutex k m) = 1")
  case False
  note n = mutex_release_nested [OF assms False]
  then show ?thesis using False assms(3) by (intro exI conjI) (auto simp: mutex_abs_def abs_unlock_def)
next
  case True
  show ?thesis
  proof (cases "tlists k (Suspend_list m)")
    case Nil
    show ?thesis
      by (rule mutex_release_free [OF assms True Nil])
        (use True Nil in \<open>auto simp: mutex_abs_def abs_unlock_def\<close>)
  next
    case (Cons s ss)
    have "s \<noteq> t" using mutex_wfD(6) [OF assms(2,3)] Cons by auto
    then show ?thesis
      by (rule_tac mutex_release_passes [OF assms True Cons])
        (use True Cons in \<open>auto simp: mutex_abs_def abs_unlock_def\<close>)
  qed
qed

definition demo_owner :: kernel where
  "demo_owner = upd_mutex 0x2000 (\<lambda>_. \<lparr>mtx_value = 0, original_priority = 10, hold = 1,
     owner = Some main_t\<rparr>) demo"

lemma demo_owner_wf: "in_thread 0xfffffffe main_t idle_t demo_owner" "mutex_wf 0x2000 demo_owner"
  "owner (mutex demo_owner 0x2000) = Some main_t"
  by (simp_all add: demo_owner_def demo_in_thread mutex_wf_def ipc_flag_ok_def)

lemma rt_mutex_release_refines_witness:
  "\<exists>k'. rt_mutex_release 0x2000 demo_owner = Some (RT_EOK, k') \<and>
    mutex_abs 0x2000 k' = (Some wait_t, 1, [])"
  using rt_mutex_release_refines [OF demo_owner_wf]
  by (auto simp: demo_owner_def mutex_abs_def abs_unlock_def)

text \<open>A thread that does not own the mutex cannot release it: the call fails and the mutex and all
  lists stay as they are.\<close>

theorem rt_mutex_release_refused:
  assumes "in_thread b t r k" "owner (mutex k m) \<noteq> Some t"
  shows "\<exists>k'. rt_mutex_release m k = Some (- RT_ERROR, k') \<and> mutex k' = mutex k \<and>
    tlists k' = tlists k \<and> current k' = current k"
  using assms by (simp add: rt_mutex_release_def)

lemma rt_mutex_release_refused_witness:
  "\<exists>k'. rt_mutex_release 0x2200 demo_locked = Some (- RT_ERROR, k') \<and> mutex k' = mutex demo_locked"
  using rt_mutex_release_refused [OF demo_locked_wf(1), of "0x2200"] by (auto simp: demo_locked_def)

text \<open>When nobody waits for the mutex, \<open>rt_mutex_release\<close> lowers a raised priority without
  scheduling: the caller goes on running although a ready thread has a higher priority now.\<close>

theorem rt_mutex_release_keeps_running:
  assumes "in_thread b t r k" "mutex_wf m k" "owner (mutex k m) = Some t" "hold (mutex k m) = 1"
    and "tlists k (Suspend_list m) = []" "stat (thread k s) = RT_THREAD_READY" "s \<noteq> t"
    and "current_priority (thread k s) < original_priority (mutex k m)"
  shows "\<exists>k'. rt_mutex_release m k = Some (RT_EOK, k') \<and> current k' = Some t \<and>
    stat (thread k' s) = RT_THREAD_READY \<and>
    current_priority (thread k' s) < current_priority (thread k' t)"
  by (rule mutex_release_free [OF assms(1-5)]) (use assms(6-8) in auto)

definition demo_raised :: kernel where
  "demo_raised = upd_mutex 0x2200 (\<lambda>_. \<lparr>mtx_value = 0, original_priority = 20, hold = 1,
     owner = Some main_t\<rparr>) demo"

lemma rt_mutex_release_keeps_running_witness:
  "\<exists>k'. rt_mutex_release 0x2200 demo_raised = Some (RT_EOK, k') \<and> current k' = Some main_t \<and>
    current_priority (thread k' peer_t) < current_priority (thread k' main_t)"
proof -
  have "in_thread 0xfffffffe main_t idle_t demo_raised" "mutex_wf 0x2200 demo_raised"
    by (simp_all add: demo_raised_def demo_in_thread mutex_wf_def ipc_flag_ok_def)
  then show ?thesis
    using rt_mutex_release_keeps_running [of _ main_t idle_t demo_raised "0x2200" peer_t]
    by (auto simp: demo_raised_def)
qed

end
