(* ===== verification/Event.thy ===== *)
theory Event
  imports Scenario
begin

text \<open>
  Events, \<open>src/ipc.c\<close>: a set of 32 flags. A thread waits for all or for one of the flags it is
  interested in, and may clear those it got. Sending looks at every waiting thread in turn.
\<close>

subsection \<open>Operations\<close>

abbreviation (input) RT_EVENT_FLAG_AND :: u8 where "RT_EVENT_FLAG_AND \<equiv> 1"
abbreviation (input) RT_EVENT_FLAG_OR :: u8 where "RT_EVENT_FLAG_OR \<equiv> 2"
abbreviation (input) RT_EVENT_FLAG_CLEAR :: u8 where "RT_EVENT_FLAG_CLEAR \<equiv> 4"

definition event_setup :: "addr \<Rightarrow> u8 \<Rightarrow> kernel \<Rightarrow> kernel" where
  "event_setup e flag k =
     (let k = set_flag e flag k;
          k = rt_ipc_object_init e k
      in upd_event e (\<lambda>ev. ev\<lparr>ev_set := 0\<rparr>) k)"

definition rt_event_init :: "addr \<Rightarrow> cstr \<Rightarrow> u8 \<Rightarrow> kernel \<Rightarrow> (rt_err \<times> kernel) option" where
  "rt_event_init e name flag k = do {
     rt_assert (e \<noteq> 0);
     let k = rt_object_init (Obj e) RT_Object_Class_Event name k;
     Some (RT_EOK, event_setup e flag k)
   }"

definition rt_event_detach :: "addr \<Rightarrow> kernel \<Rightarrow> (rt_err \<times> kernel) option" where
  "rt_event_detach e k = do {
     rt_assert (e \<noteq> 0);
     k \<leftarrow> rt_ipc_list_resume_all (Suspend_list e) k;
     k \<leftarrow> rt_object_detach (Obj e) k;
     Some (RT_EOK, k)
   }"

definition rt_event_create :: "cstr \<Rightarrow> u8 \<Rightarrow> kernel \<Rightarrow> (addr option \<times> kernel) option" where
  "rt_event_create name flag k = do {
     RT_DEBUG_NOT_IN_INTERRUPT k;
     (a, k) \<leftarrow> rt_object_allocate RT_Object_Class_Event name k;
     (case a of None \<Rightarrow> Some (None, k) | Some e \<Rightarrow> Some (Some e, event_setup e flag k))
   }"

definition rt_event_delete :: "addr \<Rightarrow> kernel \<Rightarrow> (rt_err \<times> kernel) option" where
  "rt_event_delete e k = do {
     rt_assert (e \<noteq> 0);
     RT_DEBUG_NOT_IN_INTERRUPT k;
     k \<leftarrow> rt_ipc_list_resume_all (Suspend_list e) k;
     k \<leftarrow> rt_object_delete e k;
     Some (RT_EOK, k)
   }"

text \<open>
  One turn of the loop of \<open>rt_event_send\<close>: is the thread's condition satisfied? The second
  component is what \<open>thread->event_set\<close> is set to.
\<close>

definition event_satisfied :: "u32 \<Rightarrow> u32 \<Rightarrow> u8 \<Rightarrow> (bool \<times> u32)" where
  "event_satisfied pending want info =
     (if info AND RT_EVENT_FLAG_AND \<noteq> 0 then (want AND pending = want, want)
      else if info AND RT_EVENT_FLAG_OR \<noteq> 0 then
        (if want AND pending \<noteq> 0 then (True, want AND pending) else (False, want))
      else (False, want))"

definition event_visit :: "addr \<Rightarrow> addr \<Rightarrow> kernel \<Rightarrow> (bool \<times> kernel) option" where
  "event_visit e t k =
     (let (ok, got) = event_satisfied (ev_set (event k e)) (event_set (thread k t))
                        (event_info (thread k t));
          k = upd_thread t (\<lambda>th. th\<lparr>event_set := got\<rparr>) k
      in if ok then do {
           let k = (if event_info (thread k t) AND RT_EVENT_FLAG_CLEAR \<noteq> 0
                    then upd_event e (\<lambda>ev. ev\<lparr>ev_set := ev_set ev AND NOT (event_set (thread k t))\<rparr>) k
                    else k);
           (_, k) \<leftarrow> rt_thread_resume t k;
           Some (True, k)
         } else Some (False, k))"

text \<open>
  The loop itself: the next node is read before the thread is resumed, so it runs over the
  threads that were waiting when it began.
\<close>

fun event_wake :: "addr \<Rightarrow> addr list \<Rightarrow> bool \<Rightarrow> kernel \<Rightarrow> (bool \<times> kernel) option" where
  "event_wake e [] need k = Some (need, k)"
| "event_wake e (t # ts) need k = do {
     (woken, k) \<leftarrow> event_visit e t k;
     event_wake e ts (need \<or> woken) k
   }"

definition rt_event_send :: "addr \<Rightarrow> u32 \<Rightarrow> kernel \<Rightarrow> (rt_err \<times> kernel) option" where
  "rt_event_send e st k = do {
     rt_assert (e \<noteq> 0);
     (if st = 0 then Some (- RT_ERROR, k)
      else do {
        let k = upd_event e (\<lambda>ev. ev\<lparr>ev_set := ev_set ev OR st\<rparr>) k;
        (need_schedule, k) \<leftarrow> event_wake e (tlists k (Suspend_list e)) False k;
        k \<leftarrow> (if need_schedule then rt_schedule k else Some k);
        Some (RT_EOK, k)
      })
   }"

text \<open>The result of a receive: the error code, and the word \<open>*recved\<close> when it is written.\<close>

definition rt_event_recv_wake :: "addr \<Rightarrow> kernel \<Rightarrow> rt_err \<times> u32 option" where
  "rt_event_recv_wake t k =
     (if t_error (thread k t) \<noteq> RT_EOK then (t_error (thread k t), None)
      else (t_error (thread k t), Some (event_set (thread k t))))"

definition rt_event_recv ::
  "addr \<Rightarrow> u32 \<Rightarrow> u8 \<Rightarrow> s32 \<Rightarrow> kernel \<Rightarrow> ((rt_err \<times> u32 option, addr) outcome \<times> kernel) option" where
  "rt_event_recv e st opt timeout k = do {
     RT_DEBUG_IN_THREAD_CONTEXT k;
     rt_assert (e \<noteq> 0);
     (if st = 0 then Some (Done (- RT_ERROR, None), k)
      else do {
        t \<leftarrow> rt_thread_self k;
        let k = upd_thread t (\<lambda>th. th\<lparr>t_error := RT_EOK\<rparr>) k;
        ok \<leftarrow> (if opt AND RT_EVENT_FLAG_AND \<noteq> 0 then Some (ev_set (event k e) AND st = st)
               else if opt AND RT_EVENT_FLAG_OR \<noteq> 0 then Some (ev_set (event k e) AND st \<noteq> 0)
               else None);
        (if ok then
           (let got = ev_set (event k e) AND st;
                k = (if opt AND RT_EVENT_FLAG_CLEAR \<noteq> 0
                     then upd_event e (\<lambda>ev. ev\<lparr>ev_set := ev_set ev AND NOT st\<rparr>) k else k)
            in Some (Done (t_error (thread k t), Some got), k))
         else if timeout = 0 then
           (let k = upd_thread t (\<lambda>th. th\<lparr>t_error := - RT_ETIMEOUT\<rparr>) k
            in Some (Done (t_error (thread k t), None), k))
         else do {
           let k = upd_thread t (\<lambda>th. th\<lparr>event_set := st, event_info := opt\<rparr>) k;
           k \<leftarrow> ipc_wait (Suspend_list e) t (obj_flag (objs k (Obj e))) timeout k;
           Some (if current k = Some t then Done (rt_event_recv_wake t k) else Blocked t, k)
         })
      })
   }"

definition rt_event_control :: "addr \<Rightarrow> u8 \<Rightarrow> u32 \<Rightarrow> kernel \<Rightarrow> (rt_err \<times> kernel) option" where
  "rt_event_control e cmd arg k = do {
     rt_assert (e \<noteq> 0);
     (if cmd = RT_IPC_CMD_RESET then do {
        k \<leftarrow> rt_ipc_list_resume_all (Suspend_list e) k;
        let k = upd_event e (\<lambda>ev. ev\<lparr>ev_set := 0\<rparr>) k;
        k \<leftarrow> rt_schedule k;
        Some (RT_EOK, k)
      } else Some (- RT_ERROR, k))
   }"

subsection \<open>Serving the waiting threads\<close>

text \<open>
  What a send does, as a function: the threads are looked at in their order; each whose condition
  the pending flags satisfy is served, and may take flags away from those behind it. The result is
  the flags left, the threads served with the flags they got, and the threads that go on waiting.
\<close>

fun serve :: "(addr \<Rightarrow> u32) \<Rightarrow> (addr \<Rightarrow> u8) \<Rightarrow> u32 \<Rightarrow> addr list \<Rightarrow>
    u32 \<times> (addr \<times> u32) list \<times> addr list" where
  "serve want info pending [] = (pending, [], [])"
| "serve want info pending (t # ts) =
     (case event_satisfied pending (want t) (info t) of
        (True, got) \<Rightarrow>
          (case serve want info (if info t AND RT_EVENT_FLAG_CLEAR \<noteq> 0 then pending AND NOT got
                                 else pending) ts of
             (p, served, rest) \<Rightarrow> (p, (t, got) # served, rest))
      | (False, got) \<Rightarrow>
          (case serve want info pending ts of (p, served, rest) \<Rightarrow> (p, served, t # rest)))"

lemma serve_cong:
  "(\<And>t. t \<in> set ts \<Longrightarrow> want' t = want t \<and> info' t = info t) \<Longrightarrow>
    serve want' info' p ts = serve want info p ts"
  by (induction ts arbitrary: p) (auto split: prod.splits bool.splits)

lemma event_satisfied_unsat: "event_satisfied p w i = (False, got) \<Longrightarrow> got = w"
  by (auto simp: event_satisfied_def split: if_splits)

text \<open>Fewer flags satisfy fewer conditions.\<close>

lemma event_satisfied_mono:
  assumes "fst (event_satisfied q w i)" "q AND NOT p = 0"
  shows "fst (event_satisfied p w i)"
proof -
  have s: "bit q n \<Longrightarrow> bit p n" for n
    using assms(2) by (metis bit_and_iff bit_not_iff bit_0_eq bot_apply bot_bool_def impossible_bit)
  have a: "w AND q = w \<Longrightarrow> w AND p = w"
    by (metis (no_types, lifting) s bit_and_iff bit_eqI)
  have o: "w AND q \<noteq> 0 \<Longrightarrow> w AND p \<noteq> 0"
    by (metis (no_types, lifting) s bit_and_iff bit_eqI bit_0_eq bot_apply bot_bool_def)
  show ?thesis using assms(1) a o by (auto simp: event_satisfied_def split: if_splits)
qed

lemma serve_shrinks: "serve want info p ts = (q, served, rest) \<Longrightarrow> q AND NOT p = 0"
proof (induction ts arbitrary: p q served rest)
  case (Cons t ts)
  have sub: "q AND NOT p = 0" if "q AND NOT (p AND NOT g) = 0" for q p g :: u32
    by (rule bit_eqI) (metis that bit_and_iff bit_not_iff bit_0_eq bot_apply bot_bool_def)
  obtain ok got where e: "event_satisfied p (want t) (info t) = (ok, got)" by fastforce
  define p' where "p' = (if ok \<and> info t AND RT_EVENT_FLAG_CLEAR \<noteq> 0 then p AND NOT got else p)"
  obtain s' r' where "serve want info p' ts = (q, s', r')"
    using Cons.prems e by (auto simp: p'_def split: prod.splits bool.splits if_splits)
  then have "q AND NOT p' = 0" by (rule Cons.IH)
  then show ?case using sub [of q p got] unfolding p'_def by presburger
qed simp

text \<open>Nobody who goes on waiting could have been served with the flags that are left.\<close>

lemma serve_complete:
  "serve want info p ts = (q, served, rest) \<Longrightarrow> x \<in> set rest \<Longrightarrow>
    \<not> fst (event_satisfied q (want x) (info x))"
proof (induction ts arbitrary: p q served rest)
  case (Cons t ts)
  show ?case
  proof (cases "event_satisfied p (want t) (info t)")
    case (Pair ok got)
    show ?thesis
    proof (cases ok)
      case True
      then show ?thesis using Cons Pair by (auto split: prod.splits)
    next
      case False
      then obtain served' rest' where s: "serve want info p ts = (q, served', rest')"
        "rest = t # rest'" using Cons.prems(1) Pair by (auto split: prod.splits)
      have "\<not> fst (event_satisfied q (want t) (info t))"
        using event_satisfied_mono [OF _ serve_shrinks [OF s(1)]] Pair False by (metis fst_conv)
      then show ?thesis using s Cons.IH [OF s(1)] Cons.prems(2) by auto
    qed
  qed
qed simp

lemma serve_set:
  "serve want info p ts = (q, served, rest) \<Longrightarrow>
    set ts = set (map fst served) \<union> set rest \<and>
    (distinct ts \<longrightarrow> distinct (map fst served) \<and> distinct rest \<and> set (map fst served) \<inter> set rest = {})"
proof (induction ts arbitrary: p q served rest)
  case (Cons t ts)
  obtain ok got where e: "event_satisfied p (want t) (info t) = (ok, got)" by fastforce
  define p' where "p' = (if ok \<and> info t AND RT_EVENT_FLAG_CLEAR \<noteq> 0 then p AND NOT got else p)"
  obtain s' r' where s: "serve want info p' ts = (q, s', r')"
    "(served, rest) = (if ok then ((t, got) # s', r') else (s', t # r'))"
    using Cons.prems e by (auto simp: p'_def split: prod.splits bool.splits if_splits)
  show ?case using s(2) Cons.IH [OF s(1)] by (auto split: if_splits)
qed simp

lemma event_visit_ok:
  assumes inv: "kernel_inv b k" and t: "t \<in> set (tlists k (Suspend_list e))"
    and s: "event_satisfied (ev_set (event k e)) (event_set (thread k t)) (event_info (thread k t)) = (ok, got)"
  obtains k' where "event_visit e t k = Some (ok, k')" "kernel_inv b k'" "objs_frame k k'"
    "thread k' = (if ok then (thread k)(t := (thread k t)\<lparr>event_set := got, stat := RT_THREAD_READY\<rparr>)
      else thread k)"
    "ev_set (event k' e) = (if ok \<and> event_info (thread k t) AND RT_EVENT_FLAG_CLEAR \<noteq> 0
      then ev_set (event k e) AND NOT got else ev_set (event k e))"
    "tlists k' (Suspend_list e) = (if ok then removeAll t (tlists k (Suspend_list e))
      else tlists k (Suspend_list e))"
    "current k' = current k" "lock_nest k' = lock_nest k"
proof -
  have w: "waiting (Suspend_list e)" by simp
  have st: "stat (thread k t) = RT_THREAD_SUSPEND" by (rule waiting_suspended [OF inv w t])
  let ?k0 = "upd_thread t (\<lambda>th. th\<lparr>event_set := got\<rparr>) k"
  have inv0: "kernel_inv b ?k0"
    using inv by (subst kernel_inv_cong [of _ k]) (auto simp: timer_flag_def stack_ok_def)
  show ?thesis
  proof (cases ok)
    case True
    define k1 where "k1 = (if event_info (thread k t) AND RT_EVENT_FLAG_CLEAR \<noteq> 0
      then upd_event e (\<lambda>ev. ev\<lparr>ev_set := ev_set ev AND NOT got\<rparr>) ?k0 else ?k0)"
    have inv1: "kernel_inv b k1" using inv0 by (simp add: k1_def)
    have vu: "event_visit e t k = do { (_, k) \<leftarrow> rt_thread_resume t k1; Some (True, k) }"
      by (simp add: event_visit_def s True k1_def)
    have th1: "thread k1 = (thread k)(t := (thread k t)\<lparr>event_set := got\<rparr>)"
      and tl1: "tlists k1 = tlists k" and ob1: "objs k1 = objs k"
      and c1: "current k1 = current k" "lock_nest k1 = lock_nest k"
      and ev1: "ev_set (event k1 e) = (if event_info (thread k t) AND RT_EVENT_FLAG_CLEAR \<noteq> 0
        then ev_set (event k e) AND NOT got else ev_set (event k e))"
      by (simp_all add: k1_def)
    have st1: "stat (thread k1 t) = RT_THREAD_SUSPEND" using st th1 by simp
    obtain k' where k': "rt_thread_resume t k1 = Some (0, k')" "kernel_inv b k'" "thread_frame k1 k'"
      "thread k' = (thread k1)(t := (thread k1 t)\<lparr>stat := RT_THREAD_READY\<rparr>)"
      "tlists k' = lists_insert_last (Ready (unat (current_priority (thread k1 t)))) t
        (lists_remove t (tlists k1))"
      using resume_ok [OF inv1 st1] by metis
    have v: "event_visit e t k = Some (True, k')"
      unfolding vu k'(1) by simp
    note f = thread_frameD [OF k'(3)]
    have of: "objs_frame k k'"
      using objs_frame_resume [OF k'(1)] unfolding objs_frame_def ob1 .
    have tl: "tlists k' (Suspend_list e) = removeAll t (tlists k (Suspend_list e))"
      unfolding k'(5) tl1 by (simp add: lists_insert_last_def lists_remove_def)
    have th: "thread k' = (thread k)(t := (thread k t)\<lparr>event_set := got, stat := RT_THREAD_READY\<rparr>)"
      unfolding k'(4) th1 by (simp add: fun_eq_iff)
    have ev: "ev_set (event k' e) = (if event_info (thread k t) AND RT_EVENT_FLAG_CLEAR \<noteq> 0
        then ev_set (event k e) AND NOT got else ev_set (event k e))"
      unfolding f(10) by (rule ev1)
    have c: "current k' = current k" "lock_nest k' = lock_nest k"
      unfolding f(1,3) by (rule c1)+
    show ?thesis
      by (rule that [of k']) (simp_all only: True simp_thms if_True v k'(2) of th ev tl c)
  next
    case False
    then have "ok = False" by simp
    then have g: "got = event_set (thread k t)" using event_satisfied_unsat s by metis
    have th: "thread ?k0 = thread k" by (cases "thread k t") (simp add: g fun_eq_iff)
    have v: "event_visit e t k = Some (False, ?k0)" using s False by (simp add: event_visit_def)
    show ?thesis using that [of ?k0] False v inv0 th by simp
  qed
qed

lemma event_wake_ok:
  assumes "kernel_inv b k" "tlists k (Suspend_list e) = pre @ ts"
    and "serve (\<lambda>x. event_set (thread k x)) (\<lambda>x. event_info (thread k x)) (ev_set (event k e)) ts
      = (p, served, rest)"
  shows "\<exists>k'. event_wake e ts need k = Some (need \<or> served \<noteq> [], k') \<and> kernel_inv b k' \<and>
    objs_frame k k' \<and> ev_set (event k' e) = p \<and> tlists k' (Suspend_list e) = pre @ rest \<and>
    (\<forall>(x, got) \<in> set served. thread k' x = (thread k x)\<lparr>event_set := got, stat := RT_THREAD_READY\<rparr>) \<and>
    (\<forall>x. x \<notin> set (map fst served) \<longrightarrow> thread k' x = thread k x) \<and>
    current k' = current k \<and> lock_nest k' = lock_nest k"
  using assms
proof (induction ts arbitrary: k pre p served rest need)
  case Nil
  then show ?case by (intro exI [of _ k]) simp
next
  case (Cons t ts)
  let ?want = "\<lambda>x. event_set (thread k x)" and ?info = "\<lambda>x. event_info (thread k x)"
  have tin: "t \<in> set (tlists k (Suspend_list e))" using Cons.prems(2) by simp
  have dist: "distinct (pre @ t # ts)"
    using Cons.prems(2) sched_wfD(1) [OF kernel_invD(1) [OF Cons.prems(1)]] unfolding wf_lists_def by metis
  obtain ok got where s: "event_satisfied (ev_set (event k e)) (?want t) (?info t) = (ok, got)" by fastforce
  define p' where "p' = (if ok \<and> ?info t AND RT_EVENT_FLAG_CLEAR \<noteq> 0
    then ev_set (event k e) AND NOT got else ev_set (event k e))"
  obtain s' r' where sv: "serve ?want ?info p' ts = (p, s', r')"
    "(served, rest) = (if ok then ((t, got) # s', r') else (s', t # r'))"
    using Cons.prems(3) s by (auto simp: p'_def split: prod.splits bool.splits if_splits)
  obtain k1 where k1: "event_visit e t k = Some (ok, k1)" "kernel_inv b k1" "objs_frame k k1"
    "thread k1 = (if ok then (thread k)(t := (thread k t)\<lparr>event_set := got, stat := RT_THREAD_READY\<rparr>)
      else thread k)"
    "ev_set (event k1 e) = p'"
    "tlists k1 (Suspend_list e) = (if ok then removeAll t (tlists k (Suspend_list e))
      else tlists k (Suspend_list e))"
    "current k1 = current k" "lock_nest k1 = lock_nest k"
    by (rule event_visit_ok [OF Cons.prems(1) tin s, folded p'_def])
  define pre1 where "pre1 = (if ok then pre else pre @ [t])"
  have tl1: "tlists k1 (Suspend_list e) = pre1 @ ts"
    using k1(6) Cons.prems(2) dist by (simp add: pre1_def removeAll_id)
  have same: "event_set (thread k1 x) = ?want x \<and> event_info (thread k1 x) = ?info x" if "x \<in> set ts" for x
    using k1(4) dist that by auto
  have sv1: "serve (\<lambda>x. event_set (thread k1 x)) (\<lambda>x. event_info (thread k1 x)) (ev_set (event k1 e)) ts
      = (p, s', r')"
  proof -
    have "serve (\<lambda>x. event_set (thread k1 x)) (\<lambda>x. event_info (thread k1 x)) p' ts = serve ?want ?info p' ts"
      by (rule serve_cong) (rule same)
    then show ?thesis unfolding k1(5) sv(1) .
  qed
  obtain k' where k': "event_wake e ts (need \<or> ok) k1 = Some ((need \<or> ok) \<or> s' \<noteq> [], k')"
    "kernel_inv b k'" "objs_frame k1 k'" "ev_set (event k' e) = p"
    "tlists k' (Suspend_list e) = pre1 @ r'"
    "\<forall>(x, got) \<in> set s'. thread k' x = (thread k1 x)\<lparr>event_set := got, stat := RT_THREAD_READY\<rparr>"
    "\<forall>x. x \<notin> set (map fst s') \<longrightarrow> thread k' x = thread k1 x"
    "current k' = current k1" "lock_nest k' = lock_nest k1"
    using Cons.IH [OF k1(2) tl1 sv1, of "need \<or> ok"] by (elim exE conjE) (rule that; assumption)
  have sub: "set (map fst s') \<subseteq> set ts" using serve_set [OF sv(1)] by blast
  then have nt: "t \<notin> set (map fst s')" using dist by auto
  have "event_wake e (t # ts) need k = Some (need \<or> served \<noteq> [], k')"
    using k1(1) k'(1) sv(2) by (auto split: if_splits)
  moreover have "tlists k' (Suspend_list e) = pre @ rest"
    using k'(5) sv(2) by (auto simp: pre1_def split: if_splits)
  moreover have "thread k' x = (thread k x)\<lparr>event_set := g, stat := RT_THREAD_READY\<rparr>"
    if xg: "(x, g) \<in> set served" for x g
  proof (cases "(x, g) \<in> set s'")
    case True
    then have "x \<noteq> t" using nt by force
    then have "thread k1 x = thread k x" using k1(4) by simp
    then show ?thesis using k'(6) True by auto
  next
    case False
    then have "ok" "x = t" "g = got" using xg sv(2) by (auto split: if_splits)
    then show ?thesis using k'(7) nt k1(4) by simp
  qed
  moreover have "thread k' x = thread k x" if "x \<notin> set (map fst served)" for x
    using that k'(7) k1(4) sv(2) by (auto split: if_splits)
  ultimately show ?case
    using k'(2,4,8,9) k1(7,8) objs_frame_trans [OF k1(3) k'(3)] by (intro exI [of _ k']) auto
qed

lemma upd_thread_twice: "upd_thread t g (upd_thread t f k) = upd_thread t (\<lambda>th. g (f th)) k"
  by (simp add: upd_thread_def)

text \<open>The condition of a receive, and of a thread that waits with it.\<close>

definition event_cond :: "u32 \<Rightarrow> u32 \<Rightarrow> u8 \<Rightarrow> bool" where
  "event_cond pending st opt = fst (event_satisfied pending st opt)"

lemma event_test:
  assumes "opt AND RT_EVENT_FLAG_AND \<noteq> 0 \<or> opt AND RT_EVENT_FLAG_OR \<noteq> 0"
  shows "(if opt AND RT_EVENT_FLAG_AND \<noteq> 0 then Some (v AND st = st)
     else if opt AND RT_EVENT_FLAG_OR \<noteq> 0 then Some (v AND st \<noteq> 0) else None)
    = Some (event_cond v st opt)"
  using assms by (auto simp: event_cond_def event_satisfied_def and.commute)

lemma event_recv_blocks:
  assumes it: "in_thread b t r k" and e: "e \<noteq> 0" "ipc_flag_ok e k" and st: "st \<noteq> 0"
    and opt: "opt AND RT_EVENT_FLAG_AND \<noteq> 0 \<or> opt AND RT_EVENT_FLAG_OR \<noteq> 0"
    and n: "timeout \<noteq> 0" "timeout \<noteq> 0x7fffffff" and c: "\<not> event_cond (ev_set (event k e)) st opt"
  obtains k' where "rt_event_recv e st opt timeout k = Some (Blocked t, k')" "kernel_inv b k'"
    "event k' = event k"
    "thread k' = (thread k)(t := (thread k t)\<lparr>t_error := 0, event_set := st, event_info := opt,
       stat := RT_THREAD_SUSPEND\<rparr>)"
    "tlists k' (Suspend_list e) =
       queue_in (obj_flag (objs k (Obj e))) k t (tlists k (Suspend_list e))"
proof -
  let ?f = "\<lambda>th :: rt_thread. th\<lparr>t_error := 0, event_set := st, event_info := opt\<rparr>"
  let ?fl = "obj_flag (objs k (Obj e))"
  have fl: "?fl = 0 \<or> ?fl = 1" using e(2) by (simp add: ipc_flag_ok_def)
  have w: "waiting (Suspend_list e)" by simp
  obtain k' x where k': "ipc_wait (Suspend_list e) t ?fl timeout (upd_thread t ?f k) = Some k'"
    "kernel_inv b k'" "call_frame k k'"
    "thread k' = (thread k)(t := (?f (thread k t))\<lparr>stat := RT_THREAD_SUSPEND\<rparr>)"
    "tlists k' = (lists_remove t (tlists k))(Suspend_list e := queue_in ?fl k t (tlists k (Suspend_list e)))"
    "current k' = Some x" "highest k' x" "x \<noteq> t"
    "Thread_timer t \<in> set (timer_list k') \<longleftrightarrow> 0 <s timeout"
    "0 <s timeout \<longrightarrow> timeout_tick (timer k' (Thread_timer t)) = tick k + timeout"
    by (rule blocking_wait_ok [OF it w n(2) fl refl, where f = ?f]) (simp_all add: stack_ok_def)
  have "rt_event_recv e st opt timeout k = Some (Blocked t, k')"
    using it e(1) st n(1) c k'(1,6,8)
    by (simp add: rt_event_recv_def event_test [OF opt] upd_thread_twice)
  then show ?thesis using that [of k'] k'(2,4,5) call_frameD(8) [OF k'(3)] by simp
qed

lemma event_send_served:
  assumes "in_thread b t r k" "e \<noteq> 0" "st \<noteq> 0"
    and "serve (\<lambda>x. event_set (thread k x)) (\<lambda>x. event_info (thread k x)) (ev_set (event k e) OR st)
      (tlists k (Suspend_list e)) = (p, served, rest)"
  shows "\<exists>k'. rt_event_send e st k = Some (RT_EOK, k') \<and> kernel_inv b k' \<and>
    ev_set (event k' e) = p \<and> tlists k' (Suspend_list e) = rest \<and>
    (\<forall>(x, got) \<in> set served. thread k' x = (thread k x)\<lparr>event_set := got, stat := RT_THREAD_READY\<rparr>) \<and>
    (\<forall>x. x \<notin> set (map fst served) \<longrightarrow> thread k' x = thread k x) \<and>
    (served = [] \<longrightarrow> current k' = current k)"
proof -
  note d = in_threadD [OF assms(1)]
  let ?k0 = "upd_event e (\<lambda>ev. ev\<lparr>ev_set := ev_set ev OR st\<rparr>) k"
  have inv0: "kernel_inv b ?k0" and q0: "tlists ?k0 (Suspend_list e) = [] @ tlists k (Suspend_list e)"
    and s0: "serve (\<lambda>x. event_set (thread ?k0 x)) (\<lambda>x. event_info (thread ?k0 x)) (ev_set (event ?k0 e))
      (tlists k (Suspend_list e)) = (p, served, rest)"
    using d(1) assms(4) by simp_all
  obtain k1 where k1: "event_wake e (tlists k (Suspend_list e)) False ?k0 = Some (False \<or> served \<noteq> [], k1)"
    "kernel_inv b k1" "objs_frame ?k0 k1" "ev_set (event k1 e) = p" "tlists k1 (Suspend_list e) = [] @ rest"
    "\<forall>(x, got) \<in> set served. thread k1 x = (thread ?k0 x)\<lparr>event_set := got, stat := RT_THREAD_READY\<rparr>"
    "\<forall>x. x \<notin> set (map fst served) \<longrightarrow> thread k1 x = thread ?k0 x"
    "current k1 = current ?k0" "lock_nest k1 = lock_nest ?k0"
    using event_wake_ok [OF inv0 q0 s0, of False] by (elim exE conjE) (rule that; assumption)
  show ?thesis
  proof (cases "served = []")
    case True
    then have "rt_event_send e st k = Some (RT_EOK, k1)"
      using assms(2,3) k1(1) by (simp add: rt_event_send_def)
    then show ?thesis using k1 True by (intro exI [of _ k1]) simp
  next
    case False
    then obtain x got where xg: "(x, got) \<in> set served" by (cases served) auto
    then have "thread k1 x = (thread ?k0 x)\<lparr>event_set := got, stat := RT_THREAD_READY\<rparr>"
      using k1(6) by blast
    then have rx: "stat (thread k1 x) = RT_THREAD_READY" by simp
    have c: "current k1 \<noteq> None" "lock_nest k1 = 0" using k1(8,9) d by simp_all
    obtain k' y where k': "rt_schedule k1 = Some k'" "kernel_inv b k'" "current k' = Some y"
      "highest k' y" "stat (thread k' y) = RT_THREAD_READY" "highest k1 y"
      by (rule schedule_switches [OF k1(2) rx c])
    have "rt_event_send e st k = Some (RT_EOK, k')"
      using assms(2,3) k1(1) k'(1) False by (simp add: rt_event_send_def)
    then show ?thesis
      using k1(4-7) k'(2) rt_schedule_sel [OF k'(1)] False by (intro exI [of _ k']) simp
  qed
qed

subsection \<open>Properties\<close>

text \<open>C19. \<open>rt_event_send\<close> serves the waiting threads in their order: each whose condition the flags
  satisfy when its turn comes is made ready with the flags it got, taking away what it asked to
  clear; the others keep their order and wait on. A switch is made only if one was served.\<close>

theorem rt_event_send_serves:
  assumes "in_thread b t r k" "e \<noteq> 0" "st \<noteq> 0"
    and "serve (\<lambda>x. event_set (thread k x)) (\<lambda>x. event_info (thread k x)) (ev_set (event k e) OR st)
      (tlists k (Suspend_list e)) = (p, served, rest)"
  shows "\<exists>k'. rt_event_send e st k = Some (RT_EOK, k') \<and> kernel_inv b k' \<and>
    ev_set (event k' e) = p \<and> tlists k' (Suspend_list e) = rest \<and>
    (\<forall>(x, got) \<in> set served. thread k' x = (thread k x)\<lparr>event_set := got, stat := RT_THREAD_READY\<rparr>) \<and>
    (\<forall>x. x \<notin> set (map fst served) \<longrightarrow> thread k' x = thread k x) \<and>
    (served = [] \<longrightarrow> current k' = current k)"
  using event_send_served [OF assms] .

definition demo_event :: kernel where
  "demo_event = upd_thread wait_t (\<lambda>th. th\<lparr>event_set := 3, event_info := 5\<rparr>) demo"

lemma demo_event_in: "in_thread 0xfffffffe main_t idle_t demo_event"
proof -
  have "kernel_inv 0xfffffffe demo_event"
    unfolding demo_event_def
    by (subst kernel_inv_cong [of _ demo]) (auto simp: demo_inv timer_flag_def stack_ok_def)
  then show ?thesis by (simp add: in_thread_def) (simp add: demo_event_def)
qed

lemma rt_event_send_serves_witness:
  "\<exists>k'. rt_event_send 0x2000 7 demo_event = Some (RT_EOK, k') \<and> ev_set (event k' 0x2000) = 4 \<and>
    tlists k' (Suspend_list 0x2000) = [] \<and> stat (thread k' wait_t) = RT_THREAD_READY"
  using rt_event_send_serves [OF demo_event_in, of "0x2000" 7 4 "[(wait_t, 3)]" "[]"]
  by (auto simp: demo_event_def event_satisfied_def)

text \<open>After \<open>rt_event_send\<close> no thread waits for the event whose condition the remaining flags
  satisfy: no wake-up is lost, whatever the served threads clear.\<close>

theorem rt_event_send_complete:
  assumes "in_thread b t r k" "e \<noteq> 0" "st \<noteq> 0"
  shows "\<exists>k'. rt_event_send e st k = Some (RT_EOK, k') \<and>
    (\<forall>x \<in> set (tlists k' (Suspend_list e)).
       \<not> event_cond (ev_set (event k' e)) (event_set (thread k' x)) (event_info (thread k' x)))"
proof -
  note d = in_threadD [OF assms(1)]
  let ?k0 = "upd_event e (\<lambda>ev. ev\<lparr>ev_set := ev_set ev OR st\<rparr>) k"
  let ?want = "\<lambda>x. event_set (thread k x)" and ?info = "\<lambda>x. event_info (thread k x)"
  obtain p served rest where s: "serve ?want ?info (ev_set (event k e) OR st) (tlists k (Suspend_list e))
      = (p, served, rest)" by (metis prod_cases3)
  have dist: "distinct (tlists k (Suspend_list e))"
    using sched_wfD(1) [OF kernel_invD(1) [OF d(1)]] unfolding wf_lists_def by blast
  have rest: "x \<notin> set (map fst served)" if "x \<in> set rest" for x
    using serve_set [OF s] dist that by blast
  obtain k' where k': "rt_event_send e st k = Some (RT_EOK, k')" "ev_set (event k' e) = p"
    "tlists k' (Suspend_list e) = rest" "\<forall>x. x \<notin> set (map fst served) \<longrightarrow> thread k' x = thread k x"
    using event_send_served [OF assms s] by blast
  show ?thesis
    using k' rest serve_complete [OF s] by (intro exI [of _ k']) (simp add: event_cond_def)
qed

lemma rt_event_send_complete_witness:
  "\<exists>k'. rt_event_send 0x2000 1 demo_event = Some (RT_EOK, k') \<and>
    (\<forall>x \<in> set (tlists k' (Suspend_list 0x2000)).
       \<not> event_cond (ev_set (event k' 0x2000)) (event_set (thread k' x)) (event_info (thread k' x)))"
  using rt_event_send_complete [OF demo_event_in, of "0x2000" 1] by simp

text \<open>\<open>rt_event_recv\<close> with a time limit returns at once with the flags it asked for when its
  condition holds, clearing them if it is to; otherwise it waits in the queue with its condition
  recorded in its thread, and changes no flag.\<close>

theorem rt_event_recv_waits:
  assumes "in_thread b t r k" "e \<noteq> 0" "ipc_flag_ok e k" "st \<noteq> 0"
    and "opt AND RT_EVENT_FLAG_AND \<noteq> 0 \<or> opt AND RT_EVENT_FLAG_OR \<noteq> 0"
    and "timeout \<noteq> 0" "timeout \<noteq> 0x7fffffff"
  shows "\<exists>k'. kernel_inv b k' \<and>
    (if event_cond (ev_set (event k e)) st opt
     then rt_event_recv e st opt timeout k = Some (Done (RT_EOK, Some (ev_set (event k e) AND st)), k') \<and>
       tlists k' = tlists k \<and> ev_set (event k' e) =
         (if opt AND RT_EVENT_FLAG_CLEAR \<noteq> 0 then ev_set (event k e) AND NOT st else ev_set (event k e))
     else rt_event_recv e st opt timeout k = Some (Blocked t, k') \<and> event k' = event k \<and>
       stat (thread k' t) = RT_THREAD_SUSPEND \<and> event_set (thread k' t) = st \<and>
       event_info (thread k' t) = opt \<and> tlists k' (Suspend_list e) =
         queue_in (obj_flag (objs k (Obj e))) k t (tlists k (Suspend_list e)))"
proof (cases "event_cond (ev_set (event k e)) st opt")
  case True
  let ?k0 = "upd_thread t (\<lambda>th. th\<lparr>t_error := 0\<rparr>) k"
  let ?k' = "if opt AND RT_EVENT_FLAG_CLEAR \<noteq> 0
    then upd_event e (\<lambda>ev. ev\<lparr>ev_set := ev_set ev AND NOT st\<rparr>) ?k0 else ?k0"
  have "rt_event_recv e st opt timeout k = Some (Done (RT_EOK, Some (ev_set (event k e) AND st)), ?k')"
    using assms(1,2,4) True by (simp add: rt_event_recv_def event_test [OF assms(5)])
  then show ?thesis using True in_threadD(1) [OF assms(1)] by (intro exI [of _ ?k']) simp
next
  case False
  show ?thesis
    by (rule event_recv_blocks [OF assms False]) (use False in auto)
qed

lemma rt_event_recv_waits_witness:
  "\<exists>k'. rt_event_recv 0x2000 3 1 10 demo = Some (Blocked main_t, k') \<and>
    tlists k' (Suspend_list 0x2000) = [wait_t, main_t]"
  using rt_event_recv_waits [OF demo_in_thread, of "0x2000" 3 1 10]
  by (auto simp: ipc_flag_ok_def event_cond_def event_satisfied_def queue_in_def)

end
