(* ===== verification/Fifo.thy ===== *)
theory Fifo
  imports Kernel
begin

text \<open>
  The contract of a bounded first-in first-out buffer, which the mailbox, the message queue and the
  ring buffer of the drivers share, and what follows from it for any sequence of operations. The
  words of a mailbox in memory.
\<close>

subsection \<open>The contract\<close>

datatype 'a fifo_cmd = Put 'a | Get

text \<open>
  The abstract buffer: a list of at most \<open>n\<close> elements. A put into a full one and a get from an
  empty one are refused.
\<close>

fun spec_step :: "nat \<Rightarrow> 'a fifo_cmd \<Rightarrow> 'a list \<Rightarrow> 'a option \<times> 'a list" where
  "spec_step n (Put x) xs = (None, if length xs < n then xs @ [x] else xs)"
| "spec_step n Get xs = (case xs of [] \<Rightarrow> (None, []) | y # ys \<Rightarrow> (Some y, ys))"

fun spec_run :: "nat \<Rightarrow> 'a fifo_cmd list \<Rightarrow> 'a list \<Rightarrow> 'a list \<times> 'a list" where
  "spec_run n [] xs = ([], xs)"
| "spec_run n (c # cs) xs =
     (case spec_step n c xs of
        (out, ys) \<Rightarrow>
          (case spec_run n cs ys of
             (outs, zs) \<Rightarrow> ((case out of None \<Rightarrow> outs | Some y \<Rightarrow> y # outs), zs)))"

text \<open>The elements put in and not refused, in order, are those taken out followed by those left.\<close>

fun accepted :: "nat \<Rightarrow> 'a fifo_cmd list \<Rightarrow> 'a list \<Rightarrow> 'a list" where
  "accepted n [] xs = []"
| "accepted n (Put x # cs) xs =
     (if length xs < n then x # accepted n cs (xs @ [x]) else accepted n cs xs)"
| "accepted n (Get # cs) xs = accepted n cs (tl xs)"

lemma spec_run_order:
  "spec_run n cs xs = (outs, zs) \<Longrightarrow> xs @ accepted n cs xs = outs @ zs"
proof (induction cs arbitrary: xs outs zs)
  case (Cons c cs)
  then show ?case
    by (cases c; cases xs) (fastforce split: prod.splits if_splits)+
qed simp

locale fifo =
  fixes put :: "'a \<Rightarrow> 's \<Rightarrow> 's"
    and get :: "'s \<Rightarrow> 'a \<times> 's"
    and content :: "'s \<Rightarrow> 'a list"
    and valid :: "'s \<Rightarrow> bool"
    and room :: "'s \<Rightarrow> nat"
  assumes bound: "valid s \<Longrightarrow> length (content s) \<le> room s"
    and put_law: "valid s \<Longrightarrow> length (content s) < room s \<Longrightarrow>
      valid (put x s) \<and> content (put x s) = content s @ [x] \<and> room (put x s) = room s"
    and get_law: "valid s \<Longrightarrow> content s = x # xs \<Longrightarrow>
      fst (get s) = x \<and> valid (snd (get s)) \<and> content (snd (get s)) = xs \<and> room (snd (get s)) = room s"
begin

text \<open>A command is carried out when it is not refused.\<close>

fun step :: "'a fifo_cmd \<Rightarrow> 's \<Rightarrow> 'a option \<times> 's" where
  "step (Put x) s = (None, if length (content s) < room s then put x s else s)"
| "step Get s = (if content s = [] then (None, s) else (case get s of (y, s) \<Rightarrow> (Some y, s)))"

fun run :: "'a fifo_cmd list \<Rightarrow> 's \<Rightarrow> 'a list \<times> 's" where
  "run [] s = ([], s)"
| "run (c # cs) s =
     (case step c s of
        (out, s) \<Rightarrow> (case run cs s of (outs, s) \<Rightarrow> ((case out of None \<Rightarrow> outs | Some y \<Rightarrow> y # outs), s)))"

lemma step_refines:
  assumes "valid s"
  shows "valid (snd (step c s)) \<and> room (snd (step c s)) = room s \<and>
    spec_step (room s) c (content s) = (fst (step c s), content (snd (step c s)))"
proof (cases c)
  case (Put x)
  then show ?thesis using assms put_law [OF assms] by simp
next
  case Get
  then show ?thesis
    using assms get_law [OF assms] by (cases "content s") (auto split: prod.splits)
qed

text \<open>Any sequence of commands gives the results of the abstract buffer.\<close>

lemma run_refines:
  "valid s \<Longrightarrow> run cs s = (outs, s') \<Longrightarrow>
    valid s' \<and> room s' = room s \<and> spec_run (room s) cs (content s) = (outs, content s')"
proof (induction cs arbitrary: s outs s')
  case (Cons c cs)
  obtain out s1 where s1: "step c s = (out, s1)" by fastforce
  obtain outs1 where r: "run cs s1 = (outs1, s')" "outs = (case out of None \<Rightarrow> outs1 | Some y \<Rightarrow> y # outs1)"
    using Cons.prems(2) s1 by (auto split: prod.splits)
  note st = step_refines [OF Cons.prems(1), of c, unfolded s1 fst_conv snd_conv]
  then show ?case using Cons.IH [OF _ r(1)] r(2) by auto
qed simp

text \<open>What went in comes out in the same order.\<close>

lemma run_order:
  assumes "valid s" "run cs s = (outs, s')"
  shows "content s @ accepted (room s) cs (content s) = outs @ content s'"
  using run_refines [OF assms] spec_run_order by blast

lemma fill_and_drain:
  assumes "valid s" "content s = []" "length xs \<le> room s"
  shows "fst (run (map Put xs @ replicate (length xs) Get) s) = xs"
proof -
  have acc: "accepted n (map Put xs @ replicate m Get) ys = xs" if "length ys + length xs \<le> n" for n m ys
    using that
  proof (induction xs arbitrary: ys)
    case Nil
    have "accepted n (replicate m Get) ys = ([] :: 'a list)" by (induction m arbitrary: ys) auto
    then show ?case by simp
  qed simp
  have drain: "snd (spec_run n (replicate m Get) ys) = drop m ys" for n m and ys :: "'a list"
    by (induction m arbitrary: ys) (auto split: list.splits prod.splits simp: drop_Suc dest!: arg_cong [of _ _ snd])
  have fill: "snd (spec_run n (map Put zs @ cs) ys) = snd (spec_run n cs (ys @ zs))"
    if "length ys + length zs \<le> n" for n cs and ys zs :: "'a list"
    using that by (induction zs arbitrary: ys) (auto split: prod.splits dest!: arg_cong [of _ _ snd])
  obtain outs s' where r: "run (map Put xs @ replicate (length xs) Get) s = (outs, s')" by fastforce
  have "content s' = []"
    using run_refines [OF assms(1) r] fill [of "[]" xs "room s" "replicate (length xs) Get"]
      drain [of "room s" "length xs" xs] assms(2,3) by simp
  then show ?thesis using run_order [OF assms(1) r] acc [of "[]"] assms(2,3) r by simp
qed

end

subsection \<open>Calls\<close>

text \<open>
  The operations of the kernel do more than move an element (they wake threads, they switch), and
  they may be called in any order. A call returns what it took out, if anything.
\<close>

fun calls :: "('c \<Rightarrow> 's \<Rightarrow> ('a option \<times> 's) option) \<Rightarrow> 'c list \<Rightarrow> 's \<Rightarrow> ('a list \<times> 's) option" where
  "calls call [] s = Some ([], s)"
| "calls call (c # cs) s =
     (case call c s of
        None \<Rightarrow> None
      | Some (out, s) \<Rightarrow>
          (case calls call cs s of
             None \<Rightarrow> None
           | Some (outs, s) \<Rightarrow> Some (case out of None \<Rightarrow> outs | Some y \<Rightarrow> y # outs, s)))"

fun cmd_fits :: "('a \<Rightarrow> bool) \<Rightarrow> 'a fifo_cmd \<Rightarrow> bool" where
  "cmd_fits P (Put x) = P x"
| "cmd_fits P Get = True"

lemma cmd_fits_True [simp]: "cmd_fits (\<lambda>_. True) c"
  by (cases c) simp_all

text \<open>The results and the content after any sequence of commands, for any commands on a list.\<close>

fun abs_run :: "('c \<Rightarrow> 'a list \<Rightarrow> 'a option \<times> 'a list) \<Rightarrow> 'c list \<Rightarrow> 'a list \<Rightarrow> 'a list \<times> 'a list" where
  "abs_run step [] xs = ([], xs)"
| "abs_run step (c # cs) xs =
     (case step c xs of
        (out, ys) \<Rightarrow>
          (case abs_run step cs ys of
             (outs, zs) \<Rightarrow> ((case out of None \<Rightarrow> outs | Some y \<Rightarrow> y # outs), zs)))"

lemma spec_run_abs: "abs_run (spec_step n) cs xs = spec_run n cs xs"
  by (induction cs arbitrary: xs) (auto split: prod.splits)

text \<open>
  A component whose calls always return and do what its commands do to a list, for the commands
  whose elements fit into it.
\<close>

locale abs_calls =
  fixes call :: "'c \<Rightarrow> 's \<Rightarrow> ('a option \<times> 's) option"
    and spec :: "nat \<Rightarrow> 'c \<Rightarrow> 'a list \<Rightarrow> 'a option \<times> 'a list"
    and content :: "'s \<Rightarrow> 'a list"
    and valid :: "'s \<Rightarrow> bool"
    and room :: "'s \<Rightarrow> nat"
    and fits :: "'c \<Rightarrow> bool"
  assumes call_law: "valid s \<Longrightarrow> fits c \<Longrightarrow>
    \<exists>out s'. call c s = Some (out, s') \<and> valid s' \<and> room s' = room s \<and>
      spec (room s) c (content s) = (out, content s')"
begin

lemma calls_run:
  "valid s \<Longrightarrow> list_all fits cs \<Longrightarrow>
    \<exists>outs s'. calls call cs s = Some (outs, s') \<and> valid s' \<and> room s' = room s \<and>
      abs_run (spec (room s)) cs (content s) = (outs, content s')"
proof (induction cs arbitrary: s)
  case (Cons c cs)
  obtain out s1 where s1: "call c s = Some (out, s1)" "valid s1" "room s1 = room s"
    "spec (room s) c (content s) = (out, content s1)"
    using call_law [OF Cons.prems(1), of c] Cons.prems(2) by auto
  then show ?case using Cons.IH [OF s1(2)] Cons.prems(2) by auto
qed simp

end

text \<open>The component is a bounded first-in first-out buffer.\<close>

locale fifo_calls = abs_calls call spec_step content valid room "cmd_fits fits"
  for call :: "'a fifo_cmd \<Rightarrow> 's \<Rightarrow> ('a option \<times> 's) option"
    and content :: "'s \<Rightarrow> 'a list"
    and valid :: "'s \<Rightarrow> bool"
    and room :: "'s \<Rightarrow> nat"
    and fits :: "'a \<Rightarrow> bool"
begin

lemma calls_refine:
  "valid s \<Longrightarrow> list_all (cmd_fits fits) cs \<Longrightarrow>
    \<exists>outs s'. calls call cs s = Some (outs, s') \<and> valid s' \<and> room s' = room s \<and>
      spec_run (room s) cs (content s) = (outs, content s')"
  using calls_run by (simp add: spec_run_abs)

lemma calls_order:
  assumes "valid s" "list_all (cmd_fits fits) cs"
  shows "\<exists>outs s'. calls call cs s = Some (outs, s') \<and> valid s' \<and>
    content s @ accepted (room s) cs (content s) = outs @ content s'"
  using calls_refine [OF assms] spec_run_order by blast

end

subsection \<open>Bytes in memory\<close>

definition load_bytes :: "addr \<Rightarrow> nat \<Rightarrow> mem \<Rightarrow> u8 list" where
  "load_bytes p n m = map (\<lambda>i. m (p + of_nat i)) [0..<n]"

definition store_bytes :: "addr \<Rightarrow> u8 list \<Rightarrow> mem \<Rightarrow> mem" where
  "store_bytes p bs m = (\<lambda>a. if unat (a - p) < length bs then bs ! unat (a - p) else m a)"

text \<open>Two ranges that do not wrap around and do not overlap.\<close>

definition ranges_apart :: "addr \<Rightarrow> nat \<Rightarrow> addr \<Rightarrow> nat \<Rightarrow> bool" where
  "ranges_apart p n q l =
     (unat p + n \<le> 2 ^ 32 \<and> unat q + l \<le> 2 ^ 32 \<and> (unat p + n \<le> unat q \<or> unat q + l \<le> unat p))"

lemma ranges_apart_sym: "ranges_apart p n q l = ranges_apart q l p n"
  by (auto simp: ranges_apart_def)

lemma ranges_apart_less: "ranges_apart p n q l \<Longrightarrow> n' \<le> n \<Longrightarrow> l' \<le> l \<Longrightarrow> ranges_apart p n' q l'"
  by (auto simp: ranges_apart_def)

lemma unat_of_nat_lt: "i < n \<Longrightarrow> n \<le> 2 ^ 32 \<Longrightarrow> unat (of_nat i :: addr) = i"
  by (simp add: unat_of_nat)

lemma apart_outside:
  assumes "ranges_apart p n q l" "i < n"
  shows "\<not> unat (p + of_nat i - q) < l"
proof
  assume lt: "unat (p + of_nat i - q) < l"
  have i32: "unat p + i < 2 ^ 32" "i < 2 ^ 32" using assms by (auto simp: ranges_apart_def)
  then have i: "unat (p + of_nat i) = unat p + i" by (simp add: unat_word_ariths unat_of_nat)
  have "p + of_nat i = q + (p + of_nat i - q)" by simp
  then have "unat (p + of_nat i) = unat (q + (p + of_nat i - q))" by (simp only:)
  also have "\<dots> = (unat q + unat (p + of_nat i - q)) mod 2 ^ 32"
    using unat_word_ariths(1) [of q "p + of_nat i - q"] by simp
  also have "\<dots> = unat q + unat (p + of_nat i - q)"
    using lt assms(1) by (intro mod_less) (auto simp: ranges_apart_def)
  finally have "unat p + i = unat q + unat (p + of_nat i - q)" unfolding i .
  then show False using lt assms by (auto simp: ranges_apart_def)
qed

lemma length_load_bytes [simp]: "length (load_bytes p n m) = n"
  by (simp add: load_bytes_def)

lemma load_bytes_cong:
  "(\<And>i. i < n \<Longrightarrow> m (p + of_nat i) = m' (p' + of_nat i)) \<Longrightarrow> load_bytes p n m = load_bytes p' n m'"
  by (simp add: load_bytes_def)

lemma load_blit_same:
  assumes "l \<le> n" "n \<le> 2 ^ 32"
  shows "load_bytes d l (blit d s n m) = load_bytes s l m"
  using assms by (intro load_bytes_cong) (auto simp: blit_def unat_of_nat_lt)

lemma load_blit_prefix:
  assumes "n \<le> l" "l \<le> 2 ^ 32"
  shows "load_bytes d l (blit d s n m) = load_bytes s n m @ drop n (load_bytes d l m)"
proof (rule nth_equalityI)
  show "length (load_bytes d l (blit d s n m)) = length (load_bytes s n m @ drop n (load_bytes d l m))"
    using assms(1) by simp
next
  fix i assume "i < length (load_bytes d l (blit d s n m))"
  then have i: "i < l" by simp
  then show "load_bytes d l (blit d s n m) ! i = (load_bytes s n m @ drop n (load_bytes d l m)) ! i"
    using assms unat_of_nat_lt [OF i assms(2)] by (simp add: load_bytes_def blit_def nth_append)
qed

lemma load_blit_apart:
  assumes "ranges_apart p l d n"
  shows "load_bytes p l (blit d s n m) = load_bytes p l m"
  using apart_outside [OF assms] by (intro load_bytes_cong) (simp add: blit_def)

lemma load_store_bytes:
  assumes "length bs \<le> 2 ^ 32"
  shows "load_bytes p (length bs) (store_bytes p bs m) = bs"
proof (rule nth_equalityI)
  show "load_bytes p (length bs) (store_bytes p bs m) ! i = bs ! i"
    if "i < length (load_bytes p (length bs) (store_bytes p bs m))" for i
    using that assms by (simp add: load_bytes_def store_bytes_def unat_of_nat_lt)
qed simp

lemma load_store_apart:
  assumes "ranges_apart p l q (length bs)"
  shows "load_bytes p l (store_bytes q bs m) = load_bytes p l m"
  using apart_outside [OF assms] by (intro load_bytes_cong) (simp add: store_bytes_def)

lemma memcpy_apart:
  assumes "ranges_apart d (unat n) s (unat n)"
  shows "rt_memcpy d s n m = blit d s (unat n) m"
  using assms by (intro rt_memcpy_blit up_safe_of_nat) (auto simp: ranges_apart_def word_less_nat_alt)

subsection \<open>Words in memory\<close>

text \<open>A 32 bit load.\<close>

definition load_word :: "addr \<Rightarrow> mem \<Rightarrow> u32" where
  "load_word p m =
     ucast (m p) OR push_bit 8 (ucast (m (p + 1))) OR push_bit 16 (ucast (m (p + 2)))
       OR push_bit 24 (ucast (m (p + 3)))"

lemma word_add_distinct:
  "(p :: addr) \<noteq> p + 1" "p \<noteq> p + 2" "p \<noteq> p + 3" "p + 1 \<noteq> p" "p + 2 \<noteq> p" "p + 3 \<noteq> p"
  by simp_all

lemma load_store_word: "load_word p (store_word p v m) = v"
proof (rule bit_word_eqI)
  fix n :: nat assume "n < LENGTH(32)"
  then consider "n < 8" | "8 \<le> n" "n < 16" | "16 \<le> n" "n < 24" | "24 \<le> n" "n < 32" by force
  then show "bit (load_word p (store_word p v m)) n = bit v n"
    by cases (auto simp: bit_simps load_word_def store_word_def)
qed

text \<open>The \<open>i\<close>-th word behind an address.\<close>

definition slot :: "addr \<Rightarrow> nat \<Rightarrow> addr" where
  "slot p i = p + 4 * of_nat i"

lemma slot_apart:
  assumes "i < 2 ^ 16" "j < 2 ^ 16" "i \<noteq> j" "a < 4" "c < 4"
  shows "slot p i + of_nat a \<noteq> slot p j + of_nat c"
proof
  assume "slot p i + of_nat a = slot p j + of_nat c"
  then have "(of_nat (4 * i + a) :: addr) = of_nat (4 * j + c)" by (simp add: slot_def)
  then have "4 * i + a = 4 * j + c" using assms by (subst (asm) word_of_nat_eq) simp_all
  then show False using assms by presburger
qed

lemma load_store_slot:
  assumes "i < 2 ^ 16" "j < 2 ^ 16"
  shows "load_word (slot p i) (store_word (slot p j) v m)
    = (if i = j then v else load_word (slot p i) m)"
proof (cases "i = j")
  case False
  note n = slot_apart [OF assms False, where p = p]
  show ?thesis
    using False n [of 0 0] n [of 0 1] n [of 0 2] n [of 0 3] n [of 1 0] n [of 1 1] n [of 1 2] n [of 1 3]
      n [of 2 0] n [of 2 1] n [of 2 2] n [of 2 3] n [of 3 0] n [of 3 1] n [of 3 2] n [of 3 3]
    by (simp add: load_word_def store_word_def)
qed (simp add: load_store_word)

end
