(* ===== verification/Mailbox.thy ===== *)
theory Mailbox
  imports Scenario Fifo
begin

text \<open>
  Mailboxes, \<open>src/ipc.c\<close>: a ring of words in memory with an input and an output offset, the
  threads that wait for a mail and those that wait for room.
\<close>

subsection \<open>Operations\<close>

definition mb_reset :: "addr \<Rightarrow> kernel \<Rightarrow> kernel" where
  "mb_reset mb k = upd_mb mb (\<lambda>b. b\<lparr>mb_entry := 0, in_offset := 0, out_offset := 0\<rparr>) k"

definition rt_mb_init :: "addr \<Rightarrow> cstr \<Rightarrow> addr \<Rightarrow> u32 \<Rightarrow> u8 \<Rightarrow> kernel \<Rightarrow> (rt_err \<times> kernel) option" where
  "rt_mb_init mb name msgpool sz flag k = do {
     rt_assert (mb \<noteq> 0);
     let k = rt_object_init (Obj mb) RT_Object_Class_MailBox name k;
     let k = set_flag mb flag k;
     let k = rt_ipc_object_init mb k;
     let k = upd_mb mb (\<lambda>b. b\<lparr>msg_pool := msgpool, mb_size := ucast sz\<rparr>) k;
     let k = mb_reset mb k;
     Some (RT_EOK, k\<lparr>tlists := (tlists k)(Sender_list mb := [])\<rparr>)
   }"

definition mb_resume_all :: "addr \<Rightarrow> kernel \<Rightarrow> kernel option" where
  "mb_resume_all mb k = do {
     k \<leftarrow> rt_ipc_list_resume_all (Suspend_list mb) k;
     rt_ipc_list_resume_all (Sender_list mb) k
   }"

definition rt_mb_detach :: "addr \<Rightarrow> kernel \<Rightarrow> (rt_err \<times> kernel) option" where
  "rt_mb_detach mb k = do {
     rt_assert (mb \<noteq> 0);
     k \<leftarrow> mb_resume_all mb k;
     k \<leftarrow> rt_object_detach (Obj mb) k;
     Some (RT_EOK, k)
   }"

definition rt_mb_create :: "cstr \<Rightarrow> u32 \<Rightarrow> u8 \<Rightarrow> kernel \<Rightarrow> (addr option \<times> kernel) option" where
  "rt_mb_create name sz flag k = do {
     RT_DEBUG_NOT_IN_INTERRUPT k;
     (a, k) \<leftarrow> rt_object_allocate RT_Object_Class_MailBox name k;
     (case a of
        None \<Rightarrow> Some (None, k)
      | Some mb \<Rightarrow> do {
          let k = set_flag mb flag k;
          let k = rt_ipc_object_init mb k;
          let k = upd_mb mb (\<lambda>b. b\<lparr>mb_size := ucast sz\<rparr>) k;
          (p, k) \<leftarrow> RT_KERNEL_MALLOC (ucast (mb_size (mailbox k mb)) * 4) k;
          let k = upd_mb mb (\<lambda>b. b\<lparr>msg_pool := (case p of None \<Rightarrow> 0 | Some q \<Rightarrow> q)\<rparr>) k;
          (case p of
             None \<Rightarrow> do { k \<leftarrow> rt_object_delete mb k; Some (None, k) }
           | Some _ \<Rightarrow>
               let k = mb_reset mb k
               in Some (Some mb, k\<lparr>tlists := (tlists k)(Sender_list mb := [])\<rparr>))
        })
   }"

definition rt_mb_delete :: "addr \<Rightarrow> kernel \<Rightarrow> (rt_err \<times> kernel) option" where
  "rt_mb_delete mb k = do {
     RT_DEBUG_NOT_IN_INTERRUPT k;
     rt_assert (mb \<noteq> 0);
     k \<leftarrow> mb_resume_all mb k;
     k \<leftarrow> RT_KERNEL_FREE (msg_pool (mailbox k mb)) k;
     k \<leftarrow> rt_object_delete mb k;
     Some (RT_EOK, k)
   }"

text \<open>The ring: putting a mail in and taking one out.\<close>

definition next_offset :: "u16 \<Rightarrow> u16 \<Rightarrow> u16" where
  "next_offset sz off = (if sz \<le> off + 1 then 0 else off + 1)"

definition mb_put :: "addr \<Rightarrow> u32 \<Rightarrow> kernel \<Rightarrow> kernel" where
  "mb_put mb val k =
     (let b = mailbox k mb;
          k = upd_heap (\<lambda>h. h\<lparr>ram := store_word (msg_pool b + 4 * ucast (in_offset b)) val (ram h)\<rparr>) k;
          k = upd_mb mb (\<lambda>b. b\<lparr>in_offset := next_offset (mb_size b) (in_offset b)\<rparr>) k
      in upd_mb mb (\<lambda>b. b\<lparr>mb_entry := mb_entry b + 1\<rparr>) k)"

definition mb_get :: "addr \<Rightarrow> kernel \<Rightarrow> u32 \<times> kernel" where
  "mb_get mb k =
     (let b = mailbox k mb;
          val = load_word (msg_pool b + 4 * ucast (out_offset b)) (ram (heap_of k));
          k = upd_mb mb (\<lambda>b. b\<lparr>out_offset := next_offset (mb_size b) (out_offset b)\<rparr>) k
      in (val, upd_mb mb (\<lambda>b. b\<lparr>mb_entry := mb_entry b - 1\<rparr>) k))"

text \<open>
  \<open>tick_delta\<close> and \<open>timeout\<close> after a wait that began at the tick \<open>start\<close>.
\<close>

definition spent_of :: "s32 \<Rightarrow> u32 \<Rightarrow> kernel \<Rightarrow> u32" where
  "spent_of timeout start k = (if 0 <s timeout then rt_tick_get k - start else start)"

definition rest_of :: "s32 \<Rightarrow> u32 \<Rightarrow> kernel \<Rightarrow> s32" where
  "rest_of timeout start k =
     (if 0 <s timeout then
        (let left = timeout - spent_of timeout start k in if left <s 0 then 0 else left)
      else timeout)"

text \<open>
  The wait of a sender for room and of a receiver for a mail, from the test of the loop on.
  A thread that is switched away keeps its time limit and the tick it began to wait at.
\<close>

partial_function (option) mb_send_loop ::
  "addr \<Rightarrow> u32 \<Rightarrow> s32 \<Rightarrow> u32 \<Rightarrow> kernel \<Rightarrow> ((rt_err, addr \<times> s32 \<times> u32) outcome \<times> kernel) option" where
  "mb_send_loop mb val timeout start k =
     (if mb_entry (mailbox k mb) = mb_size (mailbox k mb) then do {
        t \<leftarrow> rt_thread_self k;
        let k = upd_thread t (\<lambda>th. th\<lparr>t_error := RT_EOK\<rparr>) k;
        (if timeout = 0 then Some (Done (- RT_EFULL), k)
         else do {
           RT_DEBUG_IN_THREAD_CONTEXT k;
           let start = (if 0 <s timeout then rt_tick_get k else start);
           k \<leftarrow> ipc_wait (Sender_list mb) t (obj_flag (objs k (Obj mb))) timeout k;
           (if current k \<noteq> Some t then Some (Blocked (t, timeout, start), k)
            else if t_error (thread k t) \<noteq> RT_EOK then Some (Done (t_error (thread k t)), k)
            else mb_send_loop mb val (rest_of timeout start k) (spent_of timeout start k) k)
         })
      }
      else do {
        let k = mb_put mb val k;
        k \<leftarrow> ipc_wake_one (Suspend_list mb) k;
        Some (Done RT_EOK, k)
      })"

definition rt_mb_send_wait ::
  "addr \<Rightarrow> u32 \<Rightarrow> s32 \<Rightarrow> kernel \<Rightarrow> ((rt_err, addr \<times> s32 \<times> u32) outcome \<times> kernel) option" where
  "rt_mb_send_wait mb val timeout k = do {
     rt_assert (mb \<noteq> 0);
     (if mb_entry (mailbox k mb) = mb_size (mailbox k mb) \<and> timeout = 0
      then Some (Done (- RT_EFULL), k) else mb_send_loop mb val timeout 0 k)
   }"

definition rt_mb_send_wake ::
  "addr \<Rightarrow> u32 \<Rightarrow> addr \<times> s32 \<times> u32 \<Rightarrow> kernel \<Rightarrow>
    ((rt_err, addr \<times> s32 \<times> u32) outcome \<times> kernel) option" where
  "rt_mb_send_wake mb val l k =
     (case l of (t, timeout, start) \<Rightarrow>
        if t_error (thread k t) \<noteq> RT_EOK then Some (Done (t_error (thread k t)), k)
        else mb_send_loop mb val (rest_of timeout start k) (spent_of timeout start k) k)"

definition rt_mb_send :: "addr \<Rightarrow> u32 \<Rightarrow> kernel \<Rightarrow> ((rt_err, addr \<times> s32 \<times> u32) outcome \<times> kernel) option" where
  "rt_mb_send mb val k = rt_mb_send_wait mb val 0 k"

text \<open>A receive returns the error code and the mail, when it writes one to \<open>*value\<close>.\<close>

partial_function (option) mb_recv_loop ::
  "addr \<Rightarrow> s32 \<Rightarrow> u32 \<Rightarrow> kernel \<Rightarrow>
    ((rt_err \<times> u32 option, addr \<times> s32 \<times> u32) outcome \<times> kernel) option" where
  "mb_recv_loop mb timeout start k =
     (if mb_entry (mailbox k mb) = 0 then do {
        t \<leftarrow> rt_thread_self k;
        let k = upd_thread t (\<lambda>th. th\<lparr>t_error := RT_EOK\<rparr>) k;
        (if timeout = 0 then
           Some (Done (- RT_ETIMEOUT, None), upd_thread t (\<lambda>th. th\<lparr>t_error := - RT_ETIMEOUT\<rparr>) k)
         else do {
           RT_DEBUG_IN_THREAD_CONTEXT k;
           let start = (if 0 <s timeout then rt_tick_get k else start);
           k \<leftarrow> ipc_wait (Suspend_list mb) t (obj_flag (objs k (Obj mb))) timeout k;
           (if current k \<noteq> Some t then Some (Blocked (t, timeout, start), k)
            else if t_error (thread k t) \<noteq> RT_EOK then Some (Done (t_error (thread k t), None), k)
            else mb_recv_loop mb (rest_of timeout start k) (spent_of timeout start k) k)
         })
      }
      else do {
        let (val, k) = mb_get mb k;
        k \<leftarrow> ipc_wake_one (Sender_list mb) k;
        Some (Done (RT_EOK, Some val), k)
      })"

definition rt_mb_recv ::
  "addr \<Rightarrow> s32 \<Rightarrow> kernel \<Rightarrow> ((rt_err \<times> u32 option, addr \<times> s32 \<times> u32) outcome \<times> kernel) option" where
  "rt_mb_recv mb timeout k = do {
     rt_assert (mb \<noteq> 0);
     (if mb_entry (mailbox k mb) = 0 \<and> timeout = 0
      then Some (Done (- RT_ETIMEOUT, None), k) else mb_recv_loop mb timeout 0 k)
   }"

definition rt_mb_recv_wake ::
  "addr \<Rightarrow> addr \<times> s32 \<times> u32 \<Rightarrow> kernel \<Rightarrow>
    ((rt_err \<times> u32 option, addr \<times> s32 \<times> u32) outcome \<times> kernel) option" where
  "rt_mb_recv_wake mb l k =
     (case l of (t, timeout, start) \<Rightarrow>
        if t_error (thread k t) \<noteq> RT_EOK then Some (Done (t_error (thread k t), None), k)
        else mb_recv_loop mb (rest_of timeout start k) (spent_of timeout start k) k)"

definition rt_mb_control :: "addr \<Rightarrow> u8 \<Rightarrow> u32 \<Rightarrow> kernel \<Rightarrow> (rt_err \<times> kernel) option" where
  "rt_mb_control mb cmd arg k = do {
     rt_assert (mb \<noteq> 0);
     (if cmd = RT_IPC_CMD_RESET then do {
        k \<leftarrow> mb_resume_all mb k;
        let k = mb_reset mb k;
        k \<leftarrow> rt_schedule k;
        Some (RT_EOK, k)
      } else Some (- RT_ERROR, k))
   }"

subsection \<open>The ring of mails\<close>

text \<open>The offsets lie in a ring of \<open>mb_size\<close> words that does not leave the address space.\<close>

definition mb_ring :: "addr \<Rightarrow> kernel \<Rightarrow> bool" where
  "mb_ring mb k =
     (let b = mailbox k mb in
        0 < mb_size b \<and> mb_entry b \<le> mb_size b \<and> out_offset b < mb_size b \<and>
        unat (in_offset b) = (unat (out_offset b) + unat (mb_entry b)) mod unat (mb_size b))"

text \<open>The \<open>i\<close>-th mail behind the output offset.\<close>

definition mail_at :: "addr \<Rightarrow> kernel \<Rightarrow> nat \<Rightarrow> u32" where
  "mail_at mb k i =
     (let b = mailbox k mb in
        load_word (slot (msg_pool b) ((unat (out_offset b) + i) mod unat (mb_size b))) (ram (heap_of k)))"

definition mails :: "addr \<Rightarrow> kernel \<Rightarrow> u32 list" where
  "mails mb k = map (mail_at mb k) [0..<unat (mb_entry (mailbox k mb))]"

definition mb_room :: "addr \<Rightarrow> kernel \<Rightarrow> nat" where
  "mb_room mb k = unat (mb_size (mailbox k mb))"

lemma next_offset_mod:
  assumes "off < sz"
  shows "unat (next_offset sz off) = (unat off + 1) mod unat sz"
proof -
  have "unat off + 1 < 2 ^ 16"
    using assms unsigned_less [of sz, where ?'a = nat] by (simp add: word_less_nat_alt)
  then have "unat (off + 1) = unat off + 1" by (simp add: unat_word_ariths)
  moreover have "unat off + 1 = unat sz \<or> unat off + 1 < unat sz"
    using assms by (auto simp: word_less_nat_alt)
  ultimately show ?thesis by (auto simp: next_offset_def word_le_nat_alt)
qed

lemma ring_distinct:
  assumes "i < n" "j < (n::nat)" "(r + i) mod n = (r + j) mod n"
  shows "i = j"
proof -
  have "n dvd (r + i) - (r + j)" "n dvd (r + j) - (r + i)" using assms(3)
    by (metis mod_eq_dvd_iff_nat nat_le_linear diff_is_0_eq dvd_0_right)+
  then show ?thesis using assms(1,2) by (auto dest!: dvd_imp_le)
qed

lemma mb_put_sel:
  "mailbox (mb_put mb v k) mb = (mailbox k mb)
     \<lparr>in_offset := next_offset (mb_size (mailbox k mb)) (in_offset (mailbox k mb)),
      mb_entry := mb_entry (mailbox k mb) + 1\<rparr>"
  "ram (heap_of (mb_put mb v k)) =
     store_word (slot (msg_pool (mailbox k mb)) (unat (in_offset (mailbox k mb)))) v (ram (heap_of k))"
  by (simp_all add: mb_put_def slot_def Let_def)

lemma mb_get_sel:
  "fst (mb_get mb k) =
     load_word (slot (msg_pool (mailbox k mb)) (unat (out_offset (mailbox k mb)))) (ram (heap_of k))"
  "mailbox (snd (mb_get mb k)) mb = (mailbox k mb)
     \<lparr>out_offset := next_offset (mb_size (mailbox k mb)) (out_offset (mailbox k mb)),
      mb_entry := mb_entry (mailbox k mb) - 1\<rparr>"
  "heap_of (snd (mb_get mb k)) = heap_of k"
  by (simp_all add: mb_get_def slot_def Let_def)

lemma mb_put_law:
  assumes ring: "mb_ring mb k" and room: "length (mails mb k) < mb_room mb k"
  shows "mb_ring mb (mb_put mb v k) \<and> mails mb (mb_put mb v k) = mails mb k @ [v] \<and>
    mb_room mb (mb_put mb v k) = mb_room mb k"
proof -
  define sz where "sz = unat (mb_size (mailbox k mb))"
  define ot where "ot = unat (out_offset (mailbox k mb))"
  define en where "en = unat (mb_entry (mailbox k mb))"
  have sz: "0 < sz" "sz < 2 ^ 16" and lt: "en < sz" "ot < sz"
    and io: "unat (in_offset (mailbox k mb)) = (ot + en) mod sz"
    using ring room unsigned_less [of "mb_size (mailbox k mb)", where ?'a = nat]
    by (simp_all add: mb_ring_def Let_def sz_def ot_def en_def mails_def mb_room_def word_less_nat_alt)
  have e1: "unat (mb_entry (mailbox k mb) + 1) = en + 1"
    using lt sz by (simp add: unat_word_ariths en_def)
  have io1: "unat (next_offset (mb_size (mailbox k mb)) (in_offset (mailbox k mb))) = (ot + (en + 1)) mod sz"
    using next_offset_mod [of "in_offset (mailbox k mb)" "mb_size (mailbox k mb)"] io sz
    by (simp add: word_less_nat_alt sz_def mod_Suc_eq)
  have "mb_ring mb (mb_put mb v k)"
    using ring lt e1 io1 sz
    by (simp add: mb_ring_def Let_def mb_put_sel word_le_nat_alt word_less_nat_alt sz_def ot_def en_def)
  moreover have at: "mail_at mb (mb_put mb v k) i = (if i = en then v else mail_at mb k i)" if "i \<le> en" for i
  proof -
    have "(ot + i) mod sz = (ot + en) mod sz \<longleftrightarrow> i = en" using ring_distinct [of i sz en ot] that lt by auto
    moreover have "(ot + i) mod sz < 2 ^ 16" "(ot + en) mod sz < 2 ^ 16"
      using sz by (meson less_trans mod_less_divisor)+
    ultimately show ?thesis
      using io by (simp add: mail_at_def Let_def mb_put_sel load_store_slot sz_def [symmetric] ot_def [symmetric])
  qed
  moreover have "mails mb (mb_put mb v k) = mails mb k @ [v]"
  proof -
    have "mails mb (mb_put mb v k) = map (mail_at mb (mb_put mb v k)) ([0..<en] @ [en])"
      using e1 by (simp add: mails_def mb_put_sel)
    also have "\<dots> = map (mail_at mb k) [0..<en] @ [v]" using at by simp
    finally show ?thesis by (simp add: mails_def en_def)
  qed
  ultimately show ?thesis by (simp add: mb_room_def mb_put_sel)
qed

lemma mb_get_law:
  assumes ring: "mb_ring mb k" and c: "mails mb k = v # vs"
  shows "fst (mb_get mb k) = v \<and> mb_ring mb (snd (mb_get mb k)) \<and> mails mb (snd (mb_get mb k)) = vs \<and>
    mb_room mb (snd (mb_get mb k)) = mb_room mb k"
proof -
  define sz where "sz = unat (mb_size (mailbox k mb))"
  define ot where "ot = unat (out_offset (mailbox k mb))"
  define en where "en = unat (mb_entry (mailbox k mb))"
  have sz: "0 < sz" "sz < 2 ^ 16" and lt: "en \<le> sz" "ot < sz"
    and io: "unat (in_offset (mailbox k mb)) = (ot + en) mod sz"
    using ring unsigned_less [of "mb_size (mailbox k mb)", where ?'a = nat]
    by (simp_all add: mb_ring_def Let_def sz_def ot_def en_def word_less_nat_alt word_le_nat_alt)
  have en: "en = Suc (length vs)" using c by (metis en_def length_Cons length_map length_upt mails_def minus_nat.diff_0)
  have e1: "unat (mb_entry (mailbox k mb) - 1) = length vs"
  proof -
    have "mb_entry (mailbox k mb) \<noteq> 0" using en by (auto simp: en_def)
    then show ?thesis using en by (simp add: unat_minus_one en_def)
  qed
  have o1: "unat (next_offset (mb_size (mailbox k mb)) (out_offset (mailbox k mb))) = (ot + 1) mod sz"
    using next_offset_mod [of "out_offset (mailbox k mb)" "mb_size (mailbox k mb)"] lt
    by (simp add: word_less_nat_alt sz_def ot_def)
  have at: "mail_at mb (snd (mb_get mb k)) i = mail_at mb k (Suc i)" for i
    by (simp add: mail_at_def Let_def mb_get_sel o1 sz_def [symmetric] ot_def [symmetric] mod_add_left_eq)
  have "v # vs = map (mail_at mb k) [0..<Suc (length vs)]" using c en by (simp add: mails_def en_def)
  then have v: "v = mail_at mb k 0" and vs: "vs = map (mail_at mb k) [Suc 0..<Suc (length vs)]"
    by (simp_all add: upt_conv_Cons del: upt_Suc)
  have "mb_ring mb (snd (mb_get mb k))"
    using ring en io e1 o1 sz lt
    by (simp add: mb_ring_def Let_def mb_get_sel word_le_nat_alt word_less_nat_alt sz_def [symmetric]
        ot_def [symmetric] en_def [symmetric] mod_add_left_eq)
  moreover have "fst (mb_get mb k) = v"
    using lt by (simp add: v mail_at_def Let_def mb_get_sel sz_def [symmetric] ot_def [symmetric])
  moreover have "mails mb (snd (mb_get mb k)) = vs"
  proof -
    have "mails mb (snd (mb_get mb k)) = map (\<lambda>i. mail_at mb k (Suc i)) [0..<length vs]"
      using e1 at by (simp add: mails_def mb_get_sel)
    also have "\<dots> = map (mail_at mb k) (map Suc [0..<length vs])" by simp
    also have "\<dots> = vs" using vs by (simp only: map_Suc_upt)
    finally show ?thesis .
  qed
  ultimately show ?thesis by (simp add: mb_room_def mb_get_sel)
qed

text \<open>A mailbox is a bounded first-in first-out buffer.\<close>

interpretation mbox: fifo "mb_put mb" "mb_get mb" "mails mb" "mb_ring mb" "mb_room mb"
proof
  show "length (mails mb k) \<le> mb_room mb k" if "mb_ring mb k" for k
    using that by (simp add: mails_def mb_room_def mb_ring_def Let_def word_le_nat_alt)
qed (simp_all add: mb_put_law mb_get_law)

subsection \<open>Sending and receiving\<close>

text \<open>The ring and the mails read the mailbox and memory only.\<close>

lemma mb_cong:
  assumes "mailbox k' = mailbox k" "heap_of k' = heap_of k"
  shows "mb_ring mb k' = mb_ring mb k" "mails mb k' = mails mb k" "mb_room mb k' = mb_room mb k"
  using assms by (simp_all add: mb_ring_def mails_def mb_room_def mail_at_def [abs_def] Let_def)

lemma mb_put_frame [simp]:
  "kernel_inv b (mb_put mb v k) = kernel_inv b k" "tlists (mb_put mb v k) = tlists k"
  "current (mb_put mb v k) = current k" "lock_nest (mb_put mb v k) = lock_nest k"
  "irq_nest (mb_put mb v k) = irq_nest k" "thread (mb_put mb v k) = thread k"
  "objs (mb_put mb v k) = objs k"
  by (simp_all add: mb_put_def Let_def)

lemma mb_get_frame [simp]:
  "kernel_inv b (snd (mb_get mb k)) = kernel_inv b k" "tlists (snd (mb_get mb k)) = tlists k"
  "current (snd (mb_get mb k)) = current k" "lock_nest (snd (mb_get mb k)) = lock_nest k"
  "irq_nest (snd (mb_get mb k)) = irq_nest k" "thread (snd (mb_get mb k)) = thread k"
  "objs (snd (mb_get mb k)) = objs k"
  by (simp_all add: mb_get_def Let_def)

lemma mb_length: "length (mails mb k) = unat (mb_entry (mailbox k mb))"
  by (simp add: mails_def)

lemma mb_full:
  assumes "mb_ring mb k"
  shows "mb_entry (mailbox k mb) = mb_size (mailbox k mb) \<longleftrightarrow> \<not> length (mails mb k) < mb_room mb k"
  using assms by (auto simp: mb_length mb_room_def mb_ring_def Let_def word_le_nat_alt word_unat_eq_iff)

lemma mb_empty: "mb_entry (mailbox k mb) = 0 \<longleftrightarrow> mails mb k = []"
  using unat_eq_zero [of "mb_entry (mailbox k mb)"] by (simp add: mails_def)

lemma mb_send_room:
  assumes mc: "may_call b k" and mb: "mb \<noteq> 0" "mb_ring mb k" and room: "length (mails mb k) < mb_room mb k"
  obtains k' where "rt_mb_send_wait mb v timeout k = Some (Done RT_EOK, k')" "may_call b k'"
    "mb_ring mb k'" "mails mb k' = mails mb k @ [v]" "mb_room mb k' = mb_room mb k" "objs_frame k k'"
    "tlists k' (Suspend_list mb) = tl (tlists k (Suspend_list mb))"
    "tlists k (Suspend_list mb) \<noteq> [] \<longrightarrow>
       thread k' (hd (tlists k (Suspend_list mb))) = (thread k (hd (tlists k (Suspend_list mb))))\<lparr>stat := RT_THREAD_READY\<rparr>"
proof -
  note p = mbox.put_law [OF mb(2) room, of v]
  have mc1: "may_call b (mb_put mb v k)" using mc by (simp add: may_call_def)
  have w: "waiting (Suspend_list mb)" by simp
  obtain k' where k': "ipc_wake_one (Suspend_list mb) (mb_put mb v k) = Some k'" "may_call b k'"
    "call_frame (mb_put mb v k) k'" "objs_frame (mb_put mb v k) k'"
    "tlists k' (Suspend_list mb) = tl (tlists (mb_put mb v k) (Suspend_list mb))"
    "tlists (mb_put mb v k) (Suspend_list mb) \<noteq> [] \<longrightarrow>
      thread k' (hd (tlists (mb_put mb v k) (Suspend_list mb))) =
        (thread (mb_put mb v k) (hd (tlists (mb_put mb v k) (Suspend_list mb))))\<lparr>stat := RT_THREAD_READY\<rparr>"
    by (rule wake_any_ok [OF mc1 w])
  note c = mb_cong [of k' "mb_put mb v k" mb, OF call_frameD(9,5) [OF k'(3)]]
  have full: "mb_entry (mailbox k mb) \<noteq> mb_size (mailbox k mb)" using mb_full [OF mb(2)] room by simp
  have "rt_mb_send_wait mb v timeout k = Some (Done RT_EOK, k')"
    unfolding rt_mb_send_wait_def using mb(1) full k'(1)
    by (subst mb_send_loop.simps) simp
  moreover have "objs_frame k k'" using k'(4) by (simp add: objs_frame_def)
  ultimately show ?thesis using that [of k'] k'(2,5,6) c p by simp
qed

lemma mb_recv_first:
  assumes mc: "may_call b k" and mb: "mb \<noteq> 0" "mb_ring mb k" and c: "mails mb k = v # vs"
  obtains k' where "rt_mb_recv mb timeout k = Some (Done (RT_EOK, Some v), k')" "may_call b k'"
    "mb_ring mb k'" "mails mb k' = vs" "mb_room mb k' = mb_room mb k" "objs_frame k k'"
    "tlists k' (Sender_list mb) = tl (tlists k (Sender_list mb))"
    "tlists k (Sender_list mb) \<noteq> [] \<longrightarrow>
       thread k' (hd (tlists k (Sender_list mb))) = (thread k (hd (tlists k (Sender_list mb))))\<lparr>stat := RT_THREAD_READY\<rparr>"
proof -
  note g = mbox.get_law [OF mb(2) c]
  let ?k1 = "snd (mb_get mb k)"
  have mc1: "may_call b ?k1" using mc by (simp add: may_call_def)
  have w: "waiting (Sender_list mb)" by simp
  obtain k' where k': "ipc_wake_one (Sender_list mb) ?k1 = Some k'" "may_call b k'"
    "call_frame ?k1 k'" "objs_frame ?k1 k'" "tlists k' (Sender_list mb) = tl (tlists ?k1 (Sender_list mb))"
    "tlists ?k1 (Sender_list mb) \<noteq> [] \<longrightarrow>
      thread k' (hd (tlists ?k1 (Sender_list mb))) =
        (thread ?k1 (hd (tlists ?k1 (Sender_list mb))))\<lparr>stat := RT_THREAD_READY\<rparr>"
    by (rule wake_any_ok [OF mc1 w])
  note cg = mb_cong [of k' ?k1 mb, OF call_frameD(9,5) [OF k'(3)]]
  have ne: "mb_entry (mailbox k mb) \<noteq> 0" using mb_empty [of k mb] c by simp
  obtain x k1 where xk: "mb_get mb k = (x, k1)" by fastforce
  have "rt_mb_recv mb timeout k = Some (Done (RT_EOK, Some v), k')"
    unfolding rt_mb_recv_def using mb(1) ne k'(1) g xk
    by (subst mb_recv_loop.simps) simp
  moreover have "objs_frame k k'" using k'(4) by (simp add: objs_frame_def)
  ultimately show ?thesis using that [of k'] k'(2,5,6) cg g by simp
qed

lemma mb_refused:
  assumes "mb \<noteq> 0" "mb_ring mb k"
  shows "\<not> length (mails mb k) < mb_room mb k \<Longrightarrow> rt_mb_send mb v k = Some (Done (- RT_EFULL), k)"
    "mails mb k = [] \<Longrightarrow> rt_mb_recv mb 0 k = Some (Done (- RT_ETIMEOUT, None), k)"
  using assms mb_full [OF assms(2)] mb_empty [of k mb]
  by (simp_all add: rt_mb_send_def rt_mb_send_wait_def rt_mb_recv_def)

text \<open>A send that does not wait and a receive without waiting, as commands.\<close>

fun mb_call :: "addr \<Rightarrow> u32 fifo_cmd \<Rightarrow> kernel \<Rightarrow> (u32 option \<times> kernel) option" where
  "mb_call mb (Put v) k = (case rt_mb_send mb v k of None \<Rightarrow> None | Some (_, k) \<Rightarrow> Some (None, k))"
| "mb_call mb Get k =
     (case rt_mb_recv mb 0 k of Some (Done (_, m), k) \<Rightarrow> Some (m, k) | _ \<Rightarrow> None)"

text \<open>What holds before and after each call.\<close>

definition mb_ready :: "u32 \<Rightarrow> addr \<Rightarrow> kernel \<Rightarrow> bool" where
  "mb_ready b mb k = (mb \<noteq> 0 \<and> may_call b k \<and> mb_ring mb k)"

lemma mb_call_law:
  assumes "mb_ready b mb k"
  shows "\<exists>out k'. mb_call mb c k = Some (out, k') \<and> mb_ready b mb k' \<and> mb_room mb k' = mb_room mb k \<and>
    spec_step (mb_room mb k) c (mails mb k) = (out, mails mb k')"
proof -
  have mc: "may_call b k" and mb: "mb \<noteq> 0" "mb_ring mb k" using assms by (simp_all add: mb_ready_def)
  show ?thesis
  proof (cases c)
    case (Put v)
    show ?thesis
    proof (cases "length (mails mb k) < mb_room mb k")
      case True
      obtain k' where "rt_mb_send_wait mb v 0 k = Some (Done RT_EOK, k')" "may_call b k'"
        "mb_ring mb k'" "mails mb k' = mails mb k @ [v]" "mb_room mb k' = mb_room mb k"
        by (rule mb_send_room [OF mc mb True])
      then show ?thesis using Put True mb by (simp add: mb_ready_def rt_mb_send_def)
    next
      case False
      then show ?thesis using Put mb_refused(1) [OF mb False] mc mb by (simp add: mb_ready_def)
    qed
  next
    case Get
    show ?thesis
    proof (cases "mails mb k")
      case Nil
      then show ?thesis using Get mb_refused(2) [OF mb Nil] mc mb by (simp add: mb_ready_def)
    next
      case (Cons v vs)
      obtain k' where "rt_mb_recv mb 0 k = Some (Done (RT_EOK, Some v), k')" "may_call b k'"
        "mb_ring mb k'" "mails mb k' = vs" "mb_room mb k' = mb_room mb k"
        by (rule mb_recv_first [OF mc mb Cons])
      then show ?thesis using Get Cons mb by (simp add: mb_ready_def)
    qed
  qed
qed

interpretation mbc: fifo_calls "mb_call mb" "mails mb" "mb_ready b mb" "mb_room mb" "\<lambda>_. True"
  by unfold_locales (rule mb_call_law)

text \<open>A receiver of an empty mailbox and a sender to a full one wait in the lists of the mailbox.\<close>

lemma mb_recv_blocks:
  assumes it: "in_thread b t r k" and mb: "mb \<noteq> 0" "ipc_flag_ok mb k" and n: "timeout \<noteq> 0" "timeout \<noteq> 0x7fffffff"
    and c: "mails mb k = []"
  obtains k' start where "rt_mb_recv mb timeout k = Some (Blocked (t, timeout, start), k')" "kernel_inv b k'"
    "mailbox k' = mailbox k" "mails mb k' = []"
    "thread k' t = (thread k t)\<lparr>t_error := RT_EOK, stat := RT_THREAD_SUSPEND\<rparr>"
    "tlists k' (Suspend_list mb) = queue_in (obj_flag (objs k (Obj mb))) k t (tlists k (Suspend_list mb))"
proof -
  let ?f = "\<lambda>th :: rt_thread. th\<lparr>t_error := RT_EOK\<rparr>"
  let ?fl = "obj_flag (objs k (Obj mb))"
  have fl: "?fl = 0 \<or> ?fl = 1" using mb(2) by (simp add: ipc_flag_ok_def)
  have w: "waiting (Suspend_list mb)" by simp
  obtain k' x where k': "ipc_wait (Suspend_list mb) t ?fl timeout (upd_thread t ?f k) = Some k'"
    "kernel_inv b k'" "call_frame k k'"
    "thread k' = (thread k)(t := (?f (thread k t))\<lparr>stat := RT_THREAD_SUSPEND\<rparr>)"
    "tlists k' = (lists_remove t (tlists k))(Suspend_list mb := queue_in ?fl k t (tlists k (Suspend_list mb)))"
    "current k' = Some x" "highest k' x" "x \<noteq> t"
    "Thread_timer t \<in> set (timer_list k') \<longleftrightarrow> 0 <s timeout"
    "0 <s timeout \<longrightarrow> timeout_tick (timer k' (Thread_timer t)) = tick k + timeout"
    by (rule blocking_wait_ok [OF it w n(2) fl refl, where f = ?f]) (simp_all add: stack_ok_def)
  have ctx: "RT_DEBUG_IN_THREAD_CONTEXT (upd_thread t ?f k) = Some ()"
    using in_threadD [OF it] by (simp add: RT_DEBUG_IN_THREAD_CONTEXT_def RT_DEBUG_NOT_IN_INTERRUPT_def
        rt_interrupt_get_nest_def rt_thread_self_def)
  have e: "mb_entry (mailbox k mb) = 0" using mb_empty [of k mb] c by simp
  have "rt_mb_recv mb timeout k = Some (Blocked (t, timeout, if 0 <s timeout then rt_tick_get k else 0), k')"
    unfolding rt_mb_recv_def using it ctx mb(1) n(1) e k'(1,6,8)
    by (subst mb_recv_loop.simps) (simp add: rt_tick_get_def)
  moreover have "mails mb k' = mails mb k"
    using mb_cong(2) [OF call_frameD(9,5) [OF k'(3)]] .
  ultimately show ?thesis using that [of _ k'] k'(2,4,5) c call_frameD(9) [OF k'(3)] by simp
qed

lemma mb_send_blocks:
  assumes it: "in_thread b t r k" and mb: "mb \<noteq> 0" "ipc_flag_ok mb k" and n: "timeout \<noteq> 0" "timeout \<noteq> 0x7fffffff"
    and c: "mb_ring mb k" "\<not> length (mails mb k) < mb_room mb k"
  obtains k' start where "rt_mb_send_wait mb v timeout k = Some (Blocked (t, timeout, start), k')" "kernel_inv b k'"
    "mailbox k' = mailbox k" "mails mb k' = mails mb k"
    "thread k' t = (thread k t)\<lparr>t_error := RT_EOK, stat := RT_THREAD_SUSPEND\<rparr>"
    "tlists k' (Sender_list mb) = queue_in (obj_flag (objs k (Obj mb))) k t (tlists k (Sender_list mb))"
proof -
  let ?f = "\<lambda>th :: rt_thread. th\<lparr>t_error := RT_EOK\<rparr>"
  let ?fl = "obj_flag (objs k (Obj mb))"
  have fl: "?fl = 0 \<or> ?fl = 1" using mb(2) by (simp add: ipc_flag_ok_def)
  have w: "waiting (Sender_list mb)" by simp
  obtain k' x where k': "ipc_wait (Sender_list mb) t ?fl timeout (upd_thread t ?f k) = Some k'"
    "kernel_inv b k'" "call_frame k k'"
    "thread k' = (thread k)(t := (?f (thread k t))\<lparr>stat := RT_THREAD_SUSPEND\<rparr>)"
    "tlists k' = (lists_remove t (tlists k))(Sender_list mb := queue_in ?fl k t (tlists k (Sender_list mb)))"
    "current k' = Some x" "highest k' x" "x \<noteq> t"
    "Thread_timer t \<in> set (timer_list k') \<longleftrightarrow> 0 <s timeout"
    "0 <s timeout \<longrightarrow> timeout_tick (timer k' (Thread_timer t)) = tick k + timeout"
    by (rule blocking_wait_ok [OF it w n(2) fl refl, where f = ?f]) (simp_all add: stack_ok_def)
  have ctx: "RT_DEBUG_IN_THREAD_CONTEXT (upd_thread t ?f k) = Some ()"
    using in_threadD [OF it] by (simp add: RT_DEBUG_IN_THREAD_CONTEXT_def RT_DEBUG_NOT_IN_INTERRUPT_def
        rt_interrupt_get_nest_def rt_thread_self_def)
  have e: "mb_entry (mailbox k mb) = mb_size (mailbox k mb)" using mb_full [OF c(1)] c(2) by simp
  have "rt_mb_send_wait mb v timeout k
      = Some (Blocked (t, timeout, if 0 <s timeout then rt_tick_get k else 0), k')"
    unfolding rt_mb_send_wait_def using it ctx mb(1) n(1) e k'(1,6,8)
    by (subst mb_send_loop.simps) (simp add: rt_tick_get_def)
  moreover have "mails mb k' = mails mb k"
    using mb_cong(2) [OF call_frameD(9,5) [OF k'(3)]] .
  ultimately show ?thesis using that [of _ k'] k'(2,4,5) call_frameD(9) [OF k'(3)] by simp
qed

subsection \<open>Properties\<close>

text \<open>C20. A mailbox is a bounded first-in first-out buffer: any sequence of sends and receives that do
  not wait returns, and gives the mails and the refusals that a list of at most \<open>mb_size\<close> words
  gives, whatever threads it wakes.\<close>

theorem mb_calls_refine:
  assumes "mb_ready b mb k"
  shows "\<exists>outs k'. calls (mb_call mb) cs k = Some (outs, k') \<and> mb_ready b mb k' \<and>
    spec_run (mb_room mb k) cs (mails mb k) = (outs, mails mb k')"
  using mbc.calls_refine [OF assms, of cs] by (auto simp: list_all_iff)

lemma mb_calls_refine_witness:
  "\<exists>k'. calls (mb_call 0x2500) [Put 1, Put 2, Get, Put 3, Get, Get, Get] demo = Some ([1, 2, 3], k') \<and>
    mails 0x2500 k' = []"
proof -
  have "mb_ready 0xfffffffe 0x2500 demo"
    by (simp add: mb_ready_def may_call_def demo_inv mb_ring_def) (simp add: demo_def)
  from mb_calls_refine [OF this, of "[Put 1, Put 2, Get, Put 3, Get, Get, Get]"]
  show ?thesis by (auto simp: mails_def mb_room_def) (auto simp: demo_def)
qed

text \<open>\<open>rt_mb_send_wait\<close> with a time limit: with room the mail goes behind the others and the first
  waiting receiver becomes ready; without, the sender is suspended in the list of senders, in the
  order of the mailbox, and no mail is lost or overwritten.\<close>

theorem rt_mb_send_waits:
  assumes "in_thread b t r k" "mb \<noteq> 0" "ipc_flag_ok mb k" "mb_ring mb k" "timeout \<noteq> 0" "timeout \<noteq> 0x7fffffff"
  shows "\<exists>k' start. kernel_inv b k' \<and>
    (if length (mails mb k) < mb_room mb k
     then rt_mb_send_wait mb v timeout k = Some (Done RT_EOK, k') \<and> mails mb k' = mails mb k @ [v] \<and>
       tlists k' (Suspend_list mb) = tl (tlists k (Suspend_list mb)) \<and>
       (tlists k (Suspend_list mb) \<noteq> [] \<longrightarrow> stat (thread k' (hd (tlists k (Suspend_list mb)))) = RT_THREAD_READY)
     else rt_mb_send_wait mb v timeout k = Some (Blocked (t, timeout, start), k') \<and> mails mb k' = mails mb k \<and>
       stat (thread k' t) = RT_THREAD_SUSPEND \<and>
       tlists k' (Sender_list mb) = queue_in (obj_flag (objs k (Obj mb))) k t (tlists k (Sender_list mb)))"
proof (cases "length (mails mb k) < mb_room mb k")
  case True
  obtain k' where k': "rt_mb_send_wait mb v timeout k = Some (Done RT_EOK, k')" "may_call b k'"
    "mails mb k' = mails mb k @ [v]" "tlists k' (Suspend_list mb) = tl (tlists k (Suspend_list mb))"
    "tlists k (Suspend_list mb) \<noteq> [] \<longrightarrow>
       thread k' (hd (tlists k (Suspend_list mb))) = (thread k (hd (tlists k (Suspend_list mb))))\<lparr>stat := RT_THREAD_READY\<rparr>"
    by (rule mb_send_room [OF in_thread_may_call [OF assms(1)] assms(2,4) True])
  then show ?thesis using True by (intro exI [of _ k']) (simp add: may_call_def)
next
  case False
  obtain k' start where "rt_mb_send_wait mb v timeout k = Some (Blocked (t, timeout, start), k')" "kernel_inv b k'"
    "mails mb k' = mails mb k" "thread k' t = (thread k t)\<lparr>t_error := RT_EOK, stat := RT_THREAD_SUSPEND\<rparr>"
    "tlists k' (Sender_list mb) = queue_in (obj_flag (objs k (Obj mb))) k t (tlists k (Sender_list mb))"
    by (rule mb_send_blocks [OF assms(1-3,5,6,4) False])
  then show ?thesis using False by (intro exI [of _ k'] exI [of _ start]) simp
qed

definition demo_full :: kernel where
  "demo_full = upd_mb 0x2500 (\<lambda>m. m\<lparr>mb_entry := 4\<rparr>) demo"

lemma rt_mb_send_waits_witness:
  "\<exists>k' start. rt_mb_send_wait 0x2500 7 10 demo_full = Some (Blocked (main_t, 10, start), k') \<and>
    tlists k' (Sender_list 0x2500) = [send_t, main_t]"
proof -
  have it: "in_thread 0xfffffffe main_t idle_t demo_full" by (simp add: demo_full_def demo_in_thread)
  have f: "ipc_flag_ok 0x2500 demo_full" by (simp add: demo_full_def ipc_flag_ok_def)
  have r: "mb_ring 0x2500 demo_full" by (simp add: demo_full_def mb_ring_def) (simp add: demo_def)
  have l: "\<not> length (mails 0x2500 demo_full) < mb_room 0x2500 demo_full"
    by (simp add: demo_full_def mails_def mb_room_def) (simp add: demo_def)
  show ?thesis
    using rt_mb_send_waits [OF it _ f r, of 10 7] l
    by (auto simp: queue_in_def demo_full_def)
qed

text \<open>A mail sent to a thread that waits for one reaches it: \<open>rt_mb_send\<close> makes the first receiver
  ready, and when it goes on it returns the mail and takes it out of the mailbox.\<close>

theorem mb_handover:
  assumes "may_call b k" "mb \<noteq> 0" "mb_ring mb k" "mails mb k = []"
    and "tlists k (Suspend_list mb) = w # ws" "t_error (thread k w) = RT_EOK"
  shows "\<exists>k1 k2. rt_mb_send mb v k = Some (Done RT_EOK, k1) \<and> stat (thread k1 w) = RT_THREAD_READY \<and>
    tlists k1 (Suspend_list mb) = ws \<and>
    rt_mb_recv_wake mb (w, timeout, start) k1 = Some (Done (RT_EOK, Some v), k2) \<and>
    mails mb k2 = [] \<and> kernel_inv b k2"
proof -
  have room: "length (mails mb k) < mb_room mb k"
    using assms(3,4) by (simp add: mb_room_def mb_ring_def Let_def word_less_nat_alt)
  obtain k1 where k1: "rt_mb_send_wait mb v 0 k = Some (Done RT_EOK, k1)" "may_call b k1" "mb_ring mb k1"
    "mails mb k1 = mails mb k @ [v]" "mb_room mb k1 = mb_room mb k" "objs_frame k k1"
    "tlists k1 (Suspend_list mb) = tl (tlists k (Suspend_list mb))"
    "tlists k (Suspend_list mb) \<noteq> [] \<longrightarrow>
       thread k1 (hd (tlists k (Suspend_list mb))) = (thread k (hd (tlists k (Suspend_list mb))))\<lparr>stat := RT_THREAD_READY\<rparr>"
    by (rule mb_send_room [OF assms(1-3) room])
  have m1: "mails mb k1 = v # []" using k1(4) assms(4) by simp
  let ?to = "rest_of timeout start k1" and ?st = "spent_of timeout start k1"
  have ne: "mb_entry (mailbox k1 mb) \<noteq> 0" using mb_empty [of k1 mb] m1 by simp
  obtain k2 where k2: "rt_mb_recv mb 1 k1 = Some (Done (RT_EOK, Some v), k2)" "may_call b k2" "mails mb k2 = []"
    by (rule mb_recv_first [OF k1(2) assms(2) k1(3) m1])
  have "mb_recv_loop mb ?to ?st k1 = rt_mb_recv mb 1 k1"
    unfolding rt_mb_recv_def using assms(2) ne by (subst (1 2) mb_recv_loop.simps) simp
  then have "rt_mb_recv_wake mb (w, timeout, start) k1 = Some (Done (RT_EOK, Some v), k2)"
    using k1(8) assms(5,6) k2(1) by (simp add: rt_mb_recv_wake_def)
  then show ?thesis
    using k1 k2 assms(5) by (intro exI [of _ k1] exI [of _ k2]) (simp add: rt_mb_send_def may_call_def)
qed

lemma mb_handover_witness:
  "\<exists>k1 k2. rt_mb_send 0x2000 42 demo = Some (Done RT_EOK, k1) \<and>
    rt_mb_recv_wake 0x2000 (wait_t, 5, 0xfffffffd) k1 = Some (Done (RT_EOK, Some 42), k2)"
proof -
  have r: "mb_ring 0x2000 demo" "mails 0x2000 demo = []"
    by (simp_all add: mb_ring_def mails_def) (simp_all add: demo_def)
  have c: "may_call 0xfffffffe demo" by (simp add: may_call_def demo_inv)
  show ?thesis
    using mb_handover [OF c _ r, of wait_t "[]" 42 5 "0xfffffffd"]
    by (auto simp: demo_thread_def)
qed

end
