(* ===== verification/Pool.thy ===== *)
theory Pool
  imports Fifo
begin

text \<open>
  Pools of nodes of equal size, which the message queues and the memory pools share: where the nodes
  lie, and the lists they are linked into.
\<close>

subsection \<open>Lists of nodes\<close>

text \<open>The nodes met from \<open>h\<close> on, along the \<open>next\<close> pointers, are \<open>xs\<close>.\<close>

fun node_chain :: "(addr \<Rightarrow> addr option) \<Rightarrow> addr option \<Rightarrow> addr list \<Rightarrow> bool" where
  "node_chain nx h [] = (h = None)"
| "node_chain nx h (x # xs) = (h = Some x \<and> node_chain nx (nx x) xs)"

fun walk :: "nat \<Rightarrow> (addr \<Rightarrow> addr option) \<Rightarrow> addr option \<Rightarrow> addr list" where
  "walk 0 nx h = []"
| "walk (Suc n) nx h = (case h of None \<Rightarrow> [] | Some x \<Rightarrow> x # walk n nx (nx x))"

lemma walk_chain: "node_chain nx h xs \<Longrightarrow> length xs \<le> n \<Longrightarrow> walk n nx h = xs"
proof (induction xs arbitrary: h n)
  case Nil then show ?case by (cases n) simp_all
next
  case (Cons x xs) then show ?case by (cases n) simp_all
qed

lemma chain_set [simp]: "x \<notin> set xs \<Longrightarrow> node_chain (nx(x := v)) h xs = node_chain nx h xs"
  by (induction xs arbitrary: h) auto

lemma chain_snoc: "node_chain nx h xs \<Longrightarrow> distinct xs \<Longrightarrow> n \<notin> set xs \<Longrightarrow> nx n = None \<Longrightarrow> xs \<noteq> [] \<Longrightarrow>
    node_chain (nx(last xs := Some n)) h (xs @ [n])"
proof (induction xs arbitrary: h)
  case (Cons x xs)
  then show ?case by (cases "xs = []") auto
qed simp

subsection \<open>Places\<close>

text \<open>The \<open>i\<close>-th node: a word for the link, then \<open>s\<close> bytes.\<close>

definition pool_node :: "addr \<Rightarrow> nat \<Rightarrow> nat \<Rightarrow> addr" where
  "pool_node p s i = p + of_nat i * (of_nat s + 4)"

definition pool_nodes :: "addr \<Rightarrow> nat \<Rightarrow> nat \<Rightarrow> addr list" where
  "pool_nodes p s n = map (pool_node p s) [0..<n]"

definition pool_placed :: "addr \<Rightarrow> nat \<Rightarrow> nat \<Rightarrow> bool" where
  "pool_placed p s n = (0 < s \<and> unat p + n * (s + 4) \<le> 2 ^ 32)"

lemma pool_node_unat:
  assumes "pool_placed p s n" "i < n"
  shows "unat (pool_node p s i) = unat p + i * (s + 4)" "unat (pool_node p s i + 4) = unat p + i * (s + 4) + 4"
    "unat p + i * (s + 4) + 4 + s \<le> unat p + n * (s + 4)"
proof -
  have "Suc i * (s + 4) \<le> n * (s + 4)" using assms(2) by (intro mult_right_mono) auto
  then show le: "unat p + i * (s + 4) + 4 + s \<le> unat p + n * (s + 4)" by (simp add: algebra_simps)
  have lt: "unat p + i * (s + 4) + 4 < 2 ^ 32" using le assms(1) by (simp add: pool_placed_def)
  have n: "pool_node p s i = word_of_nat (unat p + i * (s + 4))" by (simp add: pool_node_def)
  show "unat (pool_node p s i) = unat p + i * (s + 4)"
    unfolding n by (rule unat_of_nat_lt [where n = "2 ^ 32"]) (use lt in linarith, simp)
  have n4: "pool_node p s i + 4 = word_of_nat (unat p + i * (s + 4) + 4)" by (simp add: n)
  show "unat (pool_node p s i + 4) = unat p + i * (s + 4) + 4"
    unfolding n4 by (rule unat_of_nat_lt [where n = "2 ^ 32"]) (use lt in linarith, simp)
qed

lemma pool_nodes_apart:
  assumes "pool_placed p s n" "x \<in> set (pool_nodes p s n)" "y \<in> set (pool_nodes p s n)" "x \<noteq> y"
  shows "ranges_apart (x + 4) s (y + 4) s"
proof -
  obtain i j where i: "x = pool_node p s i" "i < n" and j: "y = pool_node p s j" "j < n"
    using assms(2,3) by (auto simp: pool_nodes_def)
  have step: "a * c + c \<le> b * c" if "a < b" for a b c :: nat
    using mult_le_mono1 [of "Suc a" b c] that by simp
  have "i \<noteq> j" using i j assms(4) by blast
  then consider "i < j" | "j < i" by (rule linorder_neqE_nat)
  then have o: "i * (s + 4) + (s + 4) \<le> j * (s + 4) \<or> j * (s + 4) + (s + 4) \<le> i * (s + 4)"
    by cases (rule disjI1, erule step, rule disjI2, erule step)
  have e: "unat p + n * (s + 4) \<le> 2 ^ 32" using assms(1) by (simp add: pool_placed_def)
  note ni = pool_node_unat(2,3) [OF assms(1) i(2)] and nj = pool_node_unat(2,3) [OF assms(1) j(2)]
  show ?thesis
    unfolding ranges_apart_def i(1) j(1) ni(1) nj(1)
    using o e ni(2) nj(2) by linarith
qed

lemma pool_nodes_distinct:
  assumes "pool_placed p s n"
  shows "distinct (pool_nodes p s n)"
proof -
  have "i = j" if "i < n" "j < n" "pool_node p s i = pool_node p s j" for i j
  proof -
    have "unat p + i * (s + 4) = unat p + j * (s + 4)"
      using pool_node_unat(1) [OF assms that(1)] pool_node_unat(1) [OF assms that(2)] that(3) by metis
    then have "i * (s + 4) = j * (s + 4)" by (rule add_left_imp_eq)
    then show ?thesis by (subst (asm) mult_cancel2) simp
  qed
  then show ?thesis by (auto simp: pool_nodes_def distinct_map inj_on_def)
qed

end
