(* ===== verification/MsgQueue.thy ===== *)
theory MsgQueue
  imports Mailbox Pool
begin

text \<open>
  Message queues, \<open>src/ipc.c\<close>: nodes of equal size in one pool, linked into the queue of
  messages, from \<open>msg_queue_head\<close> to \<open>msg_queue_tail\<close>, and the list of free nodes. The
  message of a node lies in memory behind its \<open>next\<close> pointer.
\<close>

subsection \<open>Operations\<close>

definition set_mq_next :: "addr \<Rightarrow> addr option \<Rightarrow> rt_messagequeue \<Rightarrow> rt_messagequeue" where
  "set_mq_next n v q = q\<lparr>mq_next := (mq_next q)(n := v)\<rparr>"

text \<open>The loop that links the nodes \<open>temp, ..., max_msgs - 1\<close> into the free list.\<close>

definition mq_node :: "rt_messagequeue \<Rightarrow> nat \<Rightarrow> addr" where
  "mq_node q i = mq_pool q + of_nat i * (ucast (msg_size q) + 4)"

fun mq_free_loop :: "nat \<Rightarrow> nat \<Rightarrow> rt_messagequeue \<Rightarrow> rt_messagequeue" where
  "mq_free_loop temp 0 q = q"
| "mq_free_loop temp (Suc n) q =
     (let head = mq_node q temp;
          q = set_mq_next head (msg_queue_free q) q
      in mq_free_loop (temp + 1) n (q\<lparr>msg_queue_free := Some head\<rparr>))"

definition mq_init_lists :: "rt_messagequeue \<Rightarrow> rt_messagequeue" where
  "mq_init_lists q =
     (let q = q\<lparr>msg_queue_head := None, msg_queue_tail := None, msg_queue_free := None\<rparr>;
          q = mq_free_loop 0 (unat (max_msgs q)) q
      in q\<lparr>mq_entry := 0\<rparr>)"

definition rt_mq_init ::
  "addr \<Rightarrow> cstr \<Rightarrow> addr \<Rightarrow> u32 \<Rightarrow> u32 \<Rightarrow> u8 \<Rightarrow> kernel \<Rightarrow> (rt_err \<times> kernel) option" where
  "rt_mq_init mq name msgpool msgsize pool_size flag k = do {
     rt_assert (mq \<noteq> 0);
     let k = rt_object_init (Obj mq) RT_Object_Class_MessageQueue name k;
     let k = set_flag mq flag k;
     let k = rt_ipc_object_init mq k;
     let k = upd_mq mq (\<lambda>q. q\<lparr>mq_pool := msgpool,
                               msg_size := ucast (RT_ALIGN msgsize RT_ALIGN_SIZE)\<rparr>) k;
     let k = upd_mq mq (\<lambda>q. q\<lparr>max_msgs := ucast (pool_size div (ucast (msg_size q) + 4))\<rparr>) k;
     Some (RT_EOK, upd_mq mq mq_init_lists k)
   }"

definition rt_mq_detach :: "addr \<Rightarrow> kernel \<Rightarrow> (rt_err \<times> kernel) option" where
  "rt_mq_detach mq k = do {
     rt_assert (mq \<noteq> 0);
     k \<leftarrow> rt_ipc_list_resume_all (Suspend_list mq) k;
     k \<leftarrow> rt_object_detach (Obj mq) k;
     Some (RT_EOK, k)
   }"

definition rt_mq_delete :: "addr \<Rightarrow> kernel \<Rightarrow> (rt_err \<times> kernel) option" where
  "rt_mq_delete mq k = do {
     RT_DEBUG_NOT_IN_INTERRUPT k;
     rt_assert (mq \<noteq> 0);
     k \<leftarrow> rt_ipc_list_resume_all (Suspend_list mq) k;
     k \<leftarrow> RT_KERNEL_FREE (mq_pool (mqueue k mq)) k;
     k \<leftarrow> rt_object_delete mq k;
     Some (RT_EOK, k)
   }"

definition rt_mq_create ::
  "cstr \<Rightarrow> u32 \<Rightarrow> u32 \<Rightarrow> u8 \<Rightarrow> kernel \<Rightarrow> (addr option \<times> kernel) option" where
  "rt_mq_create name msgsize msgs flag k = do {
     RT_DEBUG_NOT_IN_INTERRUPT k;
     (a, k) \<leftarrow> rt_object_allocate RT_Object_Class_MessageQueue name k;
     (case a of
        None \<Rightarrow> Some (None, k)
      | Some mq \<Rightarrow> do {
          let k = set_flag mq flag k;
          let k = rt_ipc_object_init mq k;
          let k = upd_mq mq (\<lambda>q. q\<lparr>msg_size := ucast (RT_ALIGN msgsize RT_ALIGN_SIZE),
                                    max_msgs := ucast msgs\<rparr>) k;
          (p, k) \<leftarrow> RT_KERNEL_MALLOC
                     ((ucast (msg_size (mqueue k mq)) + 4) * ucast (max_msgs (mqueue k mq))) k;
          let k = upd_mq mq (\<lambda>q. q\<lparr>mq_pool := (case p of None \<Rightarrow> 0 | Some a \<Rightarrow> a)\<rparr>) k;
          (case p of
             None \<Rightarrow> do { (_, k) \<leftarrow> rt_mq_delete mq k; Some (None, k) }
           | Some _ \<Rightarrow> Some (Some mq, upd_mq mq mq_init_lists k))
        })
   }"

text \<open>
  A send is three critical sections: taking a free node, filling it (with interrupts enabled, the
  node belongs to the sender alone), and linking it.
\<close>

definition mq_take_free :: "addr \<Rightarrow> kernel \<Rightarrow> (addr \<times> kernel) option" where
  "mq_take_free mq k =
     (case msg_queue_free (mqueue k mq) of
        None \<Rightarrow> None
      | Some n \<Rightarrow> Some (n, upd_mq mq (\<lambda>q. q\<lparr>msg_queue_free := mq_next q n\<rparr>) k))"

definition mq_fill :: "addr \<Rightarrow> addr \<Rightarrow> u32 \<Rightarrow> kernel \<Rightarrow> kernel" where
  "mq_fill n buffer sz k = upd_heap (\<lambda>h. h\<lparr>ram := rt_memcpy (n + 4) buffer sz (ram h)\<rparr>) k"

definition mq_link_last :: "addr \<Rightarrow> rt_messagequeue \<Rightarrow> rt_messagequeue" where
  "mq_link_last n q =
     (let q = (case msg_queue_tail q of None \<Rightarrow> q | Some e \<Rightarrow> set_mq_next e (Some n) q);
          q = q\<lparr>msg_queue_tail := Some n\<rparr>;
          q = (if msg_queue_head q = None then q\<lparr>msg_queue_head := Some n\<rparr> else q)
      in q\<lparr>mq_entry := mq_entry q + 1\<rparr>)"

definition mq_link_first :: "addr \<Rightarrow> rt_messagequeue \<Rightarrow> rt_messagequeue" where
  "mq_link_first n q =
     (let q = set_mq_next n (msg_queue_head q) q;
          q = q\<lparr>msg_queue_head := Some n\<rparr>;
          q = (if msg_queue_tail q = None then q\<lparr>msg_queue_tail := Some n\<rparr> else q)
      in q\<lparr>mq_entry := mq_entry q + 1\<rparr>)"

definition rt_mq_send :: "addr \<Rightarrow> addr \<Rightarrow> u32 \<Rightarrow> kernel \<Rightarrow> (rt_err \<times> kernel) option" where
  "rt_mq_send mq buffer sz k = do {
     rt_assert (mq \<noteq> 0);
     rt_assert (buffer \<noteq> 0);
     rt_assert (sz \<noteq> 0);
     (if ucast (msg_size (mqueue k mq)) < sz then Some (- RT_ERROR, k)
      else (case mq_take_free mq k of
        None \<Rightarrow> Some (- RT_EFULL, k)
      | Some (n, k) \<Rightarrow> do {
          let k = upd_mq mq (set_mq_next n None) k;
          let k = mq_fill n buffer sz k;
          let k = upd_mq mq (mq_link_last n) k;
          k \<leftarrow> ipc_wake_one (Suspend_list mq) k;
          Some (RT_EOK, k)
        }))
   }"

definition rt_mq_urgent :: "addr \<Rightarrow> addr \<Rightarrow> u32 \<Rightarrow> kernel \<Rightarrow> (rt_err \<times> kernel) option" where
  "rt_mq_urgent mq buffer sz k = do {
     rt_assert (mq \<noteq> 0);
     rt_assert (buffer \<noteq> 0);
     rt_assert (sz \<noteq> 0);
     (if ucast (msg_size (mqueue k mq)) < sz then Some (- RT_ERROR, k)
      else (case mq_take_free mq k of
        None \<Rightarrow> Some (- RT_EFULL, k)
      | Some (n, k) \<Rightarrow> do {
          let k = mq_fill n buffer sz k;
          let k = upd_mq mq (mq_link_first n) k;
          k \<leftarrow> ipc_wake_one (Suspend_list mq) k;
          Some (RT_EOK, k)
        }))
   }"

text \<open>Taking the first message out: the unlinking, the copy and the return of the node.\<close>

definition mq_unlink :: "addr \<Rightarrow> rt_messagequeue \<Rightarrow> rt_messagequeue" where
  "mq_unlink n q =
     (let q = q\<lparr>msg_queue_head := mq_next q n\<rparr>;
          q = (if msg_queue_tail q = Some n then q\<lparr>msg_queue_tail := None\<rparr> else q)
      in q\<lparr>mq_entry := mq_entry q - 1\<rparr>)"

definition mq_release :: "addr \<Rightarrow> rt_messagequeue \<Rightarrow> rt_messagequeue" where
  "mq_release n q = (set_mq_next n (msg_queue_free q) q)\<lparr>msg_queue_free := Some n\<rparr>"

definition mq_get :: "addr \<Rightarrow> addr \<Rightarrow> u32 \<Rightarrow> kernel \<Rightarrow> kernel option" where
  "mq_get mq buffer sz k = do {
     n \<leftarrow> msg_queue_head (mqueue k mq);
     let k = upd_mq mq (mq_unlink n) k;
     let len = (if ucast (msg_size (mqueue k mq)) < sz then ucast (msg_size (mqueue k mq)) else sz);
     let k = upd_heap (\<lambda>h. h\<lparr>ram := rt_memcpy buffer (n + 4) len (ram h)\<rparr>) k;
     Some (upd_mq mq (mq_release n) k)
   }"

partial_function (option) mq_recv_loop ::
  "addr \<Rightarrow> addr \<Rightarrow> u32 \<Rightarrow> s32 \<Rightarrow> u32 \<Rightarrow> kernel \<Rightarrow>
    ((rt_err, addr \<times> s32 \<times> u32) outcome \<times> kernel) option" where
  "mq_recv_loop mq buffer sz timeout start k =
     (if mq_entry (mqueue k mq) = 0 then do {
        RT_DEBUG_IN_THREAD_CONTEXT k;
        t \<leftarrow> rt_thread_self k;
        let k = upd_thread t (\<lambda>th. th\<lparr>t_error := RT_EOK\<rparr>) k;
        (if timeout = 0 then
           Some (Done (- RT_ETIMEOUT), upd_thread t (\<lambda>th. th\<lparr>t_error := - RT_ETIMEOUT\<rparr>) k)
         else do {
           let start = (if 0 <s timeout then rt_tick_get k else start);
           k \<leftarrow> ipc_wait (Suspend_list mq) t (obj_flag (objs k (Obj mq))) timeout k;
           (if current k \<noteq> Some t then Some (Blocked (t, timeout, start), k)
            else if t_error (thread k t) \<noteq> RT_EOK then Some (Done (t_error (thread k t)), k)
            else mq_recv_loop mq buffer sz (rest_of timeout start k) (spent_of timeout start k) k)
         })
      }
      else do {
        k \<leftarrow> mq_get mq buffer sz k;
        Some (Done RT_EOK, k)
      })"

definition rt_mq_recv ::
  "addr \<Rightarrow> addr \<Rightarrow> u32 \<Rightarrow> s32 \<Rightarrow> kernel \<Rightarrow>
    ((rt_err, addr \<times> s32 \<times> u32) outcome \<times> kernel) option" where
  "rt_mq_recv mq buffer sz timeout k = do {
     rt_assert (mq \<noteq> 0);
     rt_assert (buffer \<noteq> 0);
     rt_assert (sz \<noteq> 0);
     (if mq_entry (mqueue k mq) = 0 \<and> timeout = 0
      then Some (Done (- RT_ETIMEOUT), k) else mq_recv_loop mq buffer sz timeout 0 k)
   }"

definition rt_mq_recv_wake ::
  "addr \<Rightarrow> addr \<Rightarrow> u32 \<Rightarrow> addr \<times> s32 \<times> u32 \<Rightarrow> kernel \<Rightarrow>
    ((rt_err, addr \<times> s32 \<times> u32) outcome \<times> kernel) option" where
  "rt_mq_recv_wake mq buffer sz l k =
     (case l of (t, timeout, start) \<Rightarrow>
        if t_error (thread k t) \<noteq> RT_EOK then Some (Done (t_error (thread k t)), k)
        else mq_recv_loop mq buffer sz (rest_of timeout start k) (spent_of timeout start k) k)"

text \<open>The loop of the reset: every message goes back to the free list.\<close>

partial_function (option) mq_drain :: "rt_messagequeue \<Rightarrow> rt_messagequeue option" where
  "mq_drain q =
     (case msg_queue_head q of
        None \<Rightarrow> Some q
      | Some n \<Rightarrow>
          (let q = q\<lparr>msg_queue_head := mq_next q n\<rparr>;
               q = (if msg_queue_tail q = Some n then q\<lparr>msg_queue_tail := None\<rparr> else q)
           in mq_drain (mq_release n q)))"

definition rt_mq_control :: "addr \<Rightarrow> u8 \<Rightarrow> u32 \<Rightarrow> kernel \<Rightarrow> (rt_err \<times> kernel) option" where
  "rt_mq_control mq cmd arg k = do {
     rt_assert (mq \<noteq> 0);
     (if cmd = RT_IPC_CMD_RESET then do {
        k \<leftarrow> rt_ipc_list_resume_all (Suspend_list mq) k;
        q \<leftarrow> mq_drain (mqueue k mq);
        let k = upd_mq mq (\<lambda>_. q\<lparr>mq_entry := 0\<rparr>) k;
        k \<leftarrow> rt_schedule k;
        Some (RT_EOK, k)
      } else Some (- RT_ERROR, k))
   }"

subsection \<open>The lists of nodes\<close>

text \<open>
  A message queue is well formed when the nodes of the pool are the queue of messages, from head
  to tail, and the free list.
\<close>

definition mq_nodes :: "rt_messagequeue \<Rightarrow> addr list" where
  "mq_nodes q = map (mq_node q) [0..<unat (max_msgs q)]"

definition mq_split :: "rt_messagequeue \<Rightarrow> addr list \<Rightarrow> addr list \<Rightarrow> bool" where
  "mq_split q us fs =
     (node_chain (mq_next q) (msg_queue_head q) us \<and> node_chain (mq_next q) (msg_queue_free q) fs \<and>
      distinct (us @ fs) \<and> set (us @ fs) = set (mq_nodes q) \<and> length us + length fs = unat (max_msgs q) \<and>
      msg_queue_tail q = (if us = [] then None else Some (last us)))"

definition mq_used :: "rt_messagequeue \<Rightarrow> addr list" where
  "mq_used q = walk (unat (mq_entry q)) (mq_next q) (msg_queue_head q)"

definition mq_unused :: "rt_messagequeue \<Rightarrow> addr list" where
  "mq_unused q = walk (unat (max_msgs q) - unat (mq_entry q)) (mq_next q) (msg_queue_free q)"

definition mq_wf :: "rt_messagequeue \<Rightarrow> bool" where
  "mq_wf q = (mq_split q (mq_used q) (mq_unused q) \<and> unat (mq_entry q) = length (mq_used q))"

lemma mq_splitD:
  assumes "mq_split q us fs"
  shows "node_chain (mq_next q) (msg_queue_head q) us" "node_chain (mq_next q) (msg_queue_free q) fs"
    "distinct us" "distinct fs" "set us \<inter> set fs = {}" "set us \<union> set fs = set (mq_nodes q)"
    "length us + length fs = unat (max_msgs q)" "msg_queue_tail q = (if us = [] then None else Some (last us))"
  using assms by (simp_all add: mq_split_def)

lemma mq_wfI:
  assumes "mq_split q us fs" "unat (mq_entry q) = length us"
  shows "mq_wf q \<and> mq_used q = us \<and> mq_unused q = fs"
proof -
  have "unat (max_msgs q) - length us = length fs" using mq_splitD(7) [OF assms(1)] by simp
  then show ?thesis
    using assms walk_chain [OF mq_splitD(1) [OF assms(1)], of "length us"]
      walk_chain [OF mq_splitD(2) [OF assms(1)], of "length fs"]
    by (simp add: mq_wf_def mq_used_def mq_unused_def)
qed

lemma mq_wfD:
  assumes "mq_wf q"
  shows "mq_split q (mq_used q) (mq_unused q)" "unat (mq_entry q) = length (mq_used q)"
  using assms by (simp_all add: mq_wf_def)

text \<open>Taking a node off the free list, linking it at either end, unlinking the first, releasing it.\<close>

lemma mq_node_upd [simp]:
  "mq_nodes (set_mq_next n v q) = mq_nodes q" "mq_nodes (q\<lparr>msg_queue_free := f\<rparr>) = mq_nodes q"
  "mq_nodes (q\<lparr>msg_queue_head := h\<rparr>) = mq_nodes q" "mq_nodes (q\<lparr>msg_queue_tail := t\<rparr>) = mq_nodes q"
  "mq_nodes (q\<lparr>mq_entry := e\<rparr>) = mq_nodes q" "mq_nodes (q\<lparr>mq_next := nx\<rparr>) = mq_nodes q"
  by (simp_all add: mq_nodes_def mq_node_def [abs_def] set_mq_next_def)

lemma mq_append_split:
  assumes "mq_split q us (n # fs)"
  defines "q1 \<equiv> set_mq_next n None (q\<lparr>msg_queue_free := mq_next q n\<rparr>)"
  shows "mq_split (mq_link_last n q1) (us @ [n]) fs"
proof (cases "us = []")
  case True
  then show ?thesis
    using mq_splitD [OF assms(1)]
    by (auto simp: mq_split_def mq_link_last_def q1_def Let_def set_mq_next_def)
next
  case False
  note d = mq_splitD [OF assms(1)]
  obtain x where h: "msg_queue_head q = Some x" using d(1) False by (cases us) auto
  have t: "msg_queue_tail q = Some (last us)" using d(8) False by simp
  have l: "last us \<in> set us" using False by simp
  have "node_chain ((mq_next q)(n := None)) (msg_queue_head q) us" using d(1,5) by simp
  then have c1: "node_chain ((mq_next q)(n := None, last us := Some n)) (msg_queue_head q) (us @ [n])"
    using d(3,5) False by (intro chain_snoc) auto
  have c2: "node_chain ((mq_next q)(n := None, last us := Some n)) (mq_next q n) fs"
  proof -
    have "last us \<notin> set fs" "n \<notin> set fs" "node_chain (mq_next q) (mq_next q n) fs" using d(2,4,5) l by auto
    then show ?thesis by simp
  qed
  have q': "mq_link_last n q1 = q\<lparr>msg_queue_free := mq_next q n,
      mq_next := (mq_next q)(n := None, last us := Some n), msg_queue_tail := Some n,
      mq_entry := mq_entry q + 1\<rparr>"
    using h t by (cases q) (simp add: mq_link_last_def q1_def Let_def set_mq_next_def)
  have "distinct ((us @ [n]) @ fs)" using d(3-5) by auto
  moreover have "set ((us @ [n]) @ fs) = set (mq_nodes q)" using d(6) by auto
  ultimately show ?thesis
    using c1 c2 d(7) by (simp add: mq_split_def q')
qed

lemma mq_prepend_split:
  assumes "mq_split q us (n # fs)"
  shows "mq_split (mq_link_first n (q\<lparr>msg_queue_free := mq_next q n\<rparr>)) (n # us) fs"
  using mq_splitD [OF assms]
  by (auto simp: mq_split_def mq_link_first_def Let_def set_mq_next_def)

lemma mq_unlink_release_split:
  assumes "mq_split q (n # us) fs"
  shows "mq_split (mq_release n (mq_unlink n q)) us (n # fs)"
proof -
  note d = mq_splitD [OF assms]
  have "(n = last us) = False" if "us \<noteq> []" using d(3) that by auto
  then show ?thesis
    using d by (auto simp: mq_split_def mq_release_def mq_unlink_def Let_def set_mq_next_def)
qed

text \<open>The pool lies in the address space, and a buffer of \<open>n\<close> bytes outside the pool.\<close>

definition mq_bytes :: "rt_messagequeue \<Rightarrow> nat" where
  "mq_bytes q = unat (max_msgs q) * (unat (msg_size q) + 4)"

definition mq_placed :: "rt_messagequeue \<Rightarrow> bool" where
  "mq_placed q = (0 < msg_size q \<and> unat (mq_pool q) + mq_bytes q \<le> 2 ^ 32)"

definition buffer_ok :: "addr \<Rightarrow> nat \<Rightarrow> rt_messagequeue \<Rightarrow> bool" where
  "buffer_ok p n q = (p \<noteq> 0 \<and> ranges_apart p n (mq_pool q) (mq_bytes q))"

lemma mq_node_pool: "mq_node q i = pool_node (mq_pool q) (unat (msg_size q)) i"
  by (simp add: mq_node_def pool_node_def unsigned_ucast_eq)

lemma mq_nodes_pool: "mq_nodes q = pool_nodes (mq_pool q) (unat (msg_size q)) (unat (max_msgs q))"
  by (simp add: mq_nodes_def pool_nodes_def mq_node_pool [abs_def])

lemma mq_placed_pool: "mq_placed q = pool_placed (mq_pool q) (unat (msg_size q)) (unat (max_msgs q))"
  by (simp add: mq_placed_def mq_bytes_def pool_placed_def word_less_nat_alt)

lemma mq_nodes_apart:
  assumes "mq_placed q" "x \<in> set (mq_nodes q)" "y \<in> set (mq_nodes q)" "x \<noteq> y"
  shows "ranges_apart (x + 4) (unat (msg_size q)) (y + 4) (unat (msg_size q))"
  using pool_nodes_apart assms unfolding mq_nodes_pool mq_placed_pool by blast

lemma mq_nodes_distinct: "mq_placed q \<Longrightarrow> distinct (mq_nodes q)"
  unfolding mq_nodes_pool mq_placed_pool by (rule pool_nodes_distinct)

lemma mq_node_buffer:
  assumes "mq_placed q" "buffer_ok p n q" "x \<in> set (mq_nodes q)" "l \<le> unat (msg_size q)" "n' \<le> n"
  shows "ranges_apart (x + 4) l p n'"
proof -
  obtain i where i: "x = mq_node q i" "i < unat (max_msgs q)" using assms(3) by (auto simp: mq_nodes_def)
  show ?thesis
    using pool_node_unat [OF assms(1) [unfolded mq_placed_pool] i(2)] assms
    by (auto simp: ranges_apart_def i(1) buffer_ok_def mq_node_pool mq_bytes_def)
qed

text \<open>The messages in the queue.\<close>

definition message :: "rt_messagequeue \<Rightarrow> mem \<Rightarrow> addr \<Rightarrow> u8 list" where
  "message q m n = load_bytes (n + 4) (unat (msg_size q)) m"

definition messages :: "addr \<Rightarrow> kernel \<Rightarrow> u8 list list" where
  "messages mq k = map (message (mqueue k mq) (ram (heap_of k))) (mq_used (mqueue k mq))"

definition mq_ok :: "addr \<Rightarrow> kernel \<Rightarrow> bool" where
  "mq_ok mq k = (mq_wf (mqueue k mq) \<and> mq_placed (mqueue k mq))"

definition mq_room :: "addr \<Rightarrow> kernel \<Rightarrow> nat" where
  "mq_room mq k = unat (max_msgs (mqueue k mq))"

text \<open>What no operation on a queue changes.\<close>

definition mq_same :: "addr \<Rightarrow> kernel \<Rightarrow> kernel \<Rightarrow> bool" where
  "mq_same mq k k' =
     (mq_pool (mqueue k' mq) = mq_pool (mqueue k mq) \<and> msg_size (mqueue k' mq) = msg_size (mqueue k mq) \<and>
      max_msgs (mqueue k' mq) = max_msgs (mqueue k mq))"

lemma mq_same_cong:
  assumes "mq_same mq k k'"
  shows "mq_nodes (mqueue k' mq) = mq_nodes (mqueue k mq)" "mq_placed (mqueue k' mq) = mq_placed (mqueue k mq)"
    "buffer_ok p n (mqueue k' mq) = buffer_ok p n (mqueue k mq)" "message (mqueue k' mq) = message (mqueue k mq)"
    "mq_room mq k' = mq_room mq k"
  using assms
  by (simp_all add: mq_same_def mq_nodes_def mq_node_def [abs_def] mq_placed_def mq_bytes_def buffer_ok_def
      message_def [abs_def] mq_room_def)

lemma mq_cong:
  assumes "mqueue k' = mqueue k" "heap_of k' = heap_of k"
  shows "mq_ok mq k' = mq_ok mq k" "messages mq k' = messages mq k" "mq_same mq k0 k' = mq_same mq k0 k"
  using assms by (simp_all add: mq_ok_def messages_def mq_same_def)

lemma messages_length: "mq_ok mq k \<Longrightarrow> length (messages mq k) = unat (mq_entry (mqueue k mq))"
  using mq_wfD(2) [of "mqueue k mq"] by (simp add: messages_def mq_ok_def)

lemma messages_bound: "mq_ok mq k \<Longrightarrow> length (messages mq k) \<le> mq_room mq k"
  using mq_splitD(7) [OF mq_wfD(1), of "mqueue k mq"] by (simp add: messages_def mq_ok_def mq_room_def)

text \<open>A node on the free list is there exactly when there is room.\<close>

lemma mq_room_free:
  assumes "mq_ok mq k" "length (messages mq k) < mq_room mq k"
  obtains n fs where "mq_unused (mqueue k mq) = n # fs" "msg_queue_free (mqueue k mq) = Some n"
    "n \<in> set (mq_nodes (mqueue k mq))" "n \<notin> set (mq_used (mqueue k mq))"
proof -
  let ?q = "mqueue k mq"
  have s: "mq_split ?q (mq_used ?q) (mq_unused ?q)" using assms(1) by (simp add: mq_ok_def mq_wfD)
  note d = mq_splitD [OF s]
  have "mq_unused ?q \<noteq> []" using d(7) assms(2) by (auto simp: messages_def mq_room_def)
  then obtain n fs where n: "mq_unused ?q = n # fs" by (cases "mq_unused ?q") auto
  show ?thesis
  proof (rule that [OF n])
    show "msg_queue_free ?q = Some n" using d(2) n by simp
    show "n \<in> set (mq_nodes ?q)" "n \<notin> set (mq_used ?q)" using d(5,6) n by auto
  qed
qed

lemma mq_full_free:
  assumes "mq_ok mq k" "\<not> length (messages mq k) < mq_room mq k"
  shows "msg_queue_free (mqueue k mq) = None"
proof -
  let ?q = "mqueue k mq"
  have s: "mq_split ?q (mq_used ?q) (mq_unused ?q)" using assms(1) by (simp add: mq_ok_def mq_wfD)
  have "length (mq_unused ?q) = 0"
    using mq_splitD(7) [OF s] assms(2) unfolding messages_def mq_room_def length_map by linarith
  then have "mq_unused ?q = []" by simp
  then show ?thesis using mq_splitD(2) [OF s] by simp
qed

text \<open>Filling a free node leaves the messages as they are.\<close>

lemma mq_fill_messages:
  assumes "mq_placed q" "buffer_ok p (unat sz) q" "n \<in> set (mq_nodes q)" "unat sz \<le> unat (msg_size q)"
  shows "x \<in> set (mq_nodes q) \<Longrightarrow> x \<noteq> n \<Longrightarrow> message q (rt_memcpy (n + 4) p sz m) x = message q m x"
    "message q (rt_memcpy (n + 4) p sz m) n =
      load_bytes p (unat sz) m @ drop (unat sz) (message q m n)"
proof -
  have cp: "rt_memcpy (n + 4) p sz m = blit (n + 4) p (unat sz) m"
    by (rule memcpy_apart) (rule mq_node_buffer [OF assms], simp)
  show "message q (rt_memcpy (n + 4) p sz m) x = message q m x" if "x \<in> set (mq_nodes q)" "x \<noteq> n"
    unfolding cp message_def
    by (rule load_blit_apart, rule ranges_apart_less [OF mq_nodes_apart [OF assms(1) that(1) assms(3) that(2)]])
      (use assms(4) in auto)
  have "unat (msg_size q) \<le> 2 ^ 32" using unsigned_less [of "msg_size q", where ?'a = nat] by simp
  then show "message q (rt_memcpy (n + 4) p sz m) n = load_bytes p (unat sz) m @ drop (unat sz) (message q m n)"
    unfolding cp message_def by (rule load_blit_prefix [OF assms(4)])
qed

subsection \<open>Sending and receiving\<close>

lemma upd_mq_at:
  "mqueue (upd_mq mq f k) mq = f (mqueue k mq)" "heap_of (upd_mq mq f k) = heap_of k"
  "mqueue (upd_heap h k) = mqueue k" "heap_of (upd_heap h k) = h (heap_of k)"
  by simp_all

lemma mq_keeps [simp]:
  "mq_pool (mq_link_last n q) = mq_pool q" "msg_size (mq_link_last n q) = msg_size q"
  "max_msgs (mq_link_last n q) = max_msgs q" "mq_entry (mq_link_last n q) = mq_entry q + 1"
  "mq_pool (mq_link_first n q) = mq_pool q" "msg_size (mq_link_first n q) = msg_size q"
  "max_msgs (mq_link_first n q) = max_msgs q" "mq_entry (mq_link_first n q) = mq_entry q + 1"
  "mq_pool (mq_unlink n q) = mq_pool q" "msg_size (mq_unlink n q) = msg_size q"
  "max_msgs (mq_unlink n q) = max_msgs q" "mq_entry (mq_unlink n q) = mq_entry q - 1"
  "mq_pool (mq_release n q) = mq_pool q" "msg_size (mq_release n q) = msg_size q"
  "max_msgs (mq_release n q) = max_msgs q" "mq_entry (mq_release n q) = mq_entry q"
  "mq_pool (set_mq_next n v q) = mq_pool q" "msg_size (set_mq_next n v q) = msg_size q"
  "max_msgs (set_mq_next n v q) = max_msgs q" "mq_entry (set_mq_next n v q) = mq_entry q"
  by (auto simp: mq_link_last_def mq_link_first_def mq_unlink_def mq_release_def set_mq_next_def Let_def
      split: option.splits)

text \<open>The state between the linking of a message and the wake-up of a receiver.\<close>

definition mq_put_last :: "addr \<Rightarrow> addr \<Rightarrow> addr \<Rightarrow> u32 \<Rightarrow> kernel \<Rightarrow> kernel" where
  "mq_put_last mq n p sz k =
     upd_mq mq (mq_link_last n) (mq_fill n p sz (upd_mq mq (set_mq_next n None)
       (upd_mq mq (\<lambda>q. q\<lparr>msg_queue_free := mq_next q n\<rparr>) k)))"

definition mq_put_first :: "addr \<Rightarrow> addr \<Rightarrow> addr \<Rightarrow> u32 \<Rightarrow> kernel \<Rightarrow> kernel" where
  "mq_put_first mq n p sz k =
     upd_mq mq (mq_link_first n) (mq_fill n p sz (upd_mq mq (\<lambda>q. q\<lparr>msg_queue_free := mq_next q n\<rparr>) k))"

lemma mq_put_sel:
  "mqueue (mq_put_last mq n p sz k) mq =
     mq_link_last n (set_mq_next n None ((mqueue k mq)\<lparr>msg_queue_free := mq_next (mqueue k mq) n\<rparr>))"
  "mqueue (mq_put_first mq n p sz k) mq =
     mq_link_first n ((mqueue k mq)\<lparr>msg_queue_free := mq_next (mqueue k mq) n\<rparr>)"
  "ram (heap_of (mq_put_last mq n p sz k)) = rt_memcpy (n + 4) p sz (ram (heap_of k))"
  "ram (heap_of (mq_put_first mq n p sz k)) = rt_memcpy (n + 4) p sz (ram (heap_of k))"
  by (simp_all add: mq_put_last_def mq_put_first_def mq_fill_def)

lemma mq_put_frame [simp]:
  "kernel_inv b (mq_put_last mq n p sz k) = kernel_inv b k" "tlists (mq_put_last mq n p sz k) = tlists k"
  "current (mq_put_last mq n p sz k) = current k" "lock_nest (mq_put_last mq n p sz k) = lock_nest k"
  "thread (mq_put_last mq n p sz k) = thread k" "objs (mq_put_last mq n p sz k) = objs k"
  "kernel_inv b (mq_put_first mq n p sz k) = kernel_inv b k" "tlists (mq_put_first mq n p sz k) = tlists k"
  "current (mq_put_first mq n p sz k) = current k" "lock_nest (mq_put_first mq n p sz k) = lock_nest k"
  "thread (mq_put_first mq n p sz k) = thread k" "objs (mq_put_first mq n p sz k) = objs k"
  by (simp_all add: mq_put_last_def mq_put_first_def mq_fill_def)

text \<open>The arguments of a send: a message that fits, from a buffer outside the pool.\<close>

definition send_ok :: "addr \<Rightarrow> addr \<Rightarrow> u32 \<Rightarrow> kernel \<Rightarrow> bool" where
  "send_ok mq p sz k =
     (mq \<noteq> 0 \<and> sz \<noteq> 0 \<and> unat sz \<le> unat (msg_size (mqueue k mq)) \<and> buffer_ok p (unat sz) (mqueue k mq))"

lemma mq_put_ok:
  assumes ok: "mq_ok mq k" and s: "send_ok mq p sz k" and room: "length (messages mq k) < mq_room mq k"
  obtains n rest where "msg_queue_free (mqueue k mq) = Some n"
    "mq_ok mq (mq_put_last mq n p sz k)" "mq_same mq k (mq_put_last mq n p sz k)"
    "messages mq (mq_put_last mq n p sz k) =
       messages mq k @ [load_bytes p (unat sz) (ram (heap_of k)) @ rest]"
    "mq_ok mq (mq_put_first mq n p sz k)" "mq_same mq k (mq_put_first mq n p sz k)"
    "messages mq (mq_put_first mq n p sz k) =
       (load_bytes p (unat sz) (ram (heap_of k)) @ rest) # messages mq k"
    "unat sz + length rest = unat (msg_size (mqueue k mq))"
proof -
  define q where "q = mqueue k mq"
  have wf: "mq_wf q" and pl: "mq_placed q" using ok by (simp_all add: mq_ok_def q_def)
  have b: "buffer_ok p (unat sz) q" "unat sz \<le> unat (msg_size q)" using s by (simp_all add: send_ok_def q_def)
  note sp = mq_wfD(1) [OF wf]
  obtain n fs where n: "mq_unused q = n # fs" "msg_queue_free q = Some n" "n \<in> set (mq_nodes q)" "n \<notin> set (mq_used q)"
    by (rule mq_room_free [OF ok room, folded q_def])
  let ?k1 = "mq_put_last mq n p sz k" and ?k2 = "mq_put_first mq n p sz k"
  have len: "length (mq_used q) < unat (max_msgs q)" using room by (simp add: messages_def mq_room_def q_def)
  have e: "unat (mq_entry q + 1) = Suc (length (mq_used q))"
    using mq_wfD(2) [OF wf] len unsigned_less [of "max_msgs q", where ?'a = nat]
    by (simp add: unat_word_ariths)
  have w1: "mq_wf (mqueue ?k1 mq) \<and> mq_used (mqueue ?k1 mq) = mq_used q @ [n] \<and> mq_unused (mqueue ?k1 mq) = fs"
    unfolding mq_put_sel q_def [symmetric]
    by (rule mq_wfI [OF mq_append_split [OF sp [unfolded n(1)]]]) (simp add: e)
  have w2: "mq_wf (mqueue ?k2 mq) \<and> mq_used (mqueue ?k2 mq) = n # mq_used q \<and> mq_unused (mqueue ?k2 mq) = fs"
    unfolding mq_put_sel q_def [symmetric]
    by (rule mq_wfI [OF mq_prepend_split [OF sp [unfolded n(1)]]]) (simp add: e)
  have same: "mq_same mq k ?k1" "mq_same mq k ?k2" by (simp_all add: mq_same_def mq_put_sel)
  define rest where "rest = drop (unat sz) (message q (ram (heap_of k)) n)"
  note fill = mq_fill_messages [OF pl b(1) n(3) b(2), where m = "ram (heap_of k)"]
  have old: "message q (rt_memcpy (n + 4) p sz (ram (heap_of k))) x = message q (ram (heap_of k)) x"
    if "x \<in> set (mq_used q)" for x
    using fill(1) [of x] n(4) that mq_splitD(6) [OF sp] by blast
  have m0: "messages mq k = map (message q (ram (heap_of k))) (mq_used q)" by (simp add: messages_def q_def)
  have m1: "messages mq ?k1 = messages mq k @ [load_bytes p (unat sz) (ram (heap_of k)) @ rest]"
    using w1 old unfolding messages_def mq_same_cong(4) [OF same(1)] q_def [symmetric] mq_put_sel(3)
    by (simp add: fill(2) rest_def)
  have m2: "messages mq ?k2 = (load_bytes p (unat sz) (ram (heap_of k)) @ rest) # messages mq k"
    using w2 old unfolding messages_def mq_same_cong(4) [OF same(2)] q_def [symmetric] mq_put_sel(4)
    by (simp add: fill(2) rest_def)
  have "mq_ok mq ?k1" "mq_ok mq ?k2"
    using w1 w2 pl mq_same_cong(2) [OF same(1)] mq_same_cong(2) [OF same(2)] by (simp_all add: mq_ok_def q_def)
  moreover have "unat sz + length rest = unat (msg_size q)" using b(2) by (simp add: rest_def message_def)
  ultimately show ?thesis
    using that [of n rest] n(2) same m1 m2 by (simp add: q_def)
qed

lemma mq_sz_le:
  "unat (sz :: u32) \<le> unat (ms :: u16) \<Longrightarrow> \<not> ucast ms < sz"
  "unat ms < unat sz \<Longrightarrow> ucast ms < sz"
proof -
  have "unat (ucast ms :: u32) = unat ms"
    using unsigned_less [of ms, where ?'a = nat]
    by (simp add: unsigned_ucast_eq take_bit_nat_eq_self)
  then show "unat sz \<le> unat ms \<Longrightarrow> \<not> ucast ms < sz" "unat ms < unat sz \<Longrightarrow> ucast ms < sz"
    by (simp_all add: word_less_nat_alt)
qed

lemma mq_send_ok:
  assumes mc: "may_call b k" and ok: "mq_ok mq k" and s: "send_ok mq p sz k"
    and room: "length (messages mq k) < mq_room mq k"
  obtains k' rest where "rt_mq_send mq p sz k = Some (RT_EOK, k')" "may_call b k'" "mq_ok mq k'" "mq_same mq k k'"
    "messages mq k' = messages mq k @ [load_bytes p (unat sz) (ram (heap_of k)) @ rest]"
    "unat sz + length rest = unat (msg_size (mqueue k mq))"
    "tlists k' (Suspend_list mq) = tl (tlists k (Suspend_list mq))"
    "tlists k (Suspend_list mq) \<noteq> [] \<longrightarrow> stat (thread k' (hd (tlists k (Suspend_list mq)))) = RT_THREAD_READY"
proof -
  obtain n rest where n: "msg_queue_free (mqueue k mq) = Some n"
    "mq_ok mq (mq_put_last mq n p sz k)" "mq_same mq k (mq_put_last mq n p sz k)"
    "messages mq (mq_put_last mq n p sz k) = messages mq k @ [load_bytes p (unat sz) (ram (heap_of k)) @ rest]"
    "unat sz + length rest = unat (msg_size (mqueue k mq))"
    by (rule mq_put_ok [OF ok s room])
  define k1 where "k1 = mq_put_last mq n p sz k"
  have mc1: "may_call b k1" using mc by (simp add: may_call_def k1_def)
  have w: "waiting (Suspend_list mq)" by simp
  obtain k' where k': "ipc_wake_one (Suspend_list mq) k1 = Some k'" "may_call b k'" "call_frame k1 k'"
    "objs_frame k1 k'" "tlists k' (Suspend_list mq) = tl (tlists k1 (Suspend_list mq))"
    "tlists k1 (Suspend_list mq) \<noteq> [] \<longrightarrow> thread k' (hd (tlists k1 (Suspend_list mq))) =
      (thread k1 (hd (tlists k1 (Suspend_list mq))))\<lparr>stat := RT_THREAD_READY\<rparr>"
    by (rule wake_any_ok [OF mc1 w])
  note c = mq_cong [of k' k1 mq, OF call_frameD(10,5) [OF k'(3)]]
  have tl: "tlists k1 = tlists k" by (simp add: k1_def)
  have "rt_mq_send mq p sz k = Some (RT_EOK, k')"
    using s n(1) k'(1) by (simp add: rt_mq_send_def send_ok_def buffer_ok_def mq_sz_le mq_take_free_def
        k1_def mq_put_last_def)
  then show ?thesis
    by (rule that [of k' rest])
      (use k'(2,5) c n(2-5) tl in \<open>simp_all add: k1_def [symmetric]\<close>, use k'(6) tl in force)
qed

lemma mq_urgent_ok:
  assumes mc: "may_call b k" and ok: "mq_ok mq k" and s: "send_ok mq p sz k"
    and room: "length (messages mq k) < mq_room mq k"
  obtains k' rest where "rt_mq_urgent mq p sz k = Some (RT_EOK, k')" "may_call b k'" "mq_ok mq k'" "mq_same mq k k'"
    "messages mq k' = (load_bytes p (unat sz) (ram (heap_of k)) @ rest) # messages mq k"
    "unat sz + length rest = unat (msg_size (mqueue k mq))"
    "tlists k' (Suspend_list mq) = tl (tlists k (Suspend_list mq))"
    "tlists k (Suspend_list mq) \<noteq> [] \<longrightarrow> stat (thread k' (hd (tlists k (Suspend_list mq)))) = RT_THREAD_READY"
proof -
  obtain n rest where n: "msg_queue_free (mqueue k mq) = Some n"
    "mq_ok mq (mq_put_first mq n p sz k)" "mq_same mq k (mq_put_first mq n p sz k)"
    "messages mq (mq_put_first mq n p sz k) = (load_bytes p (unat sz) (ram (heap_of k)) @ rest) # messages mq k"
    "unat sz + length rest = unat (msg_size (mqueue k mq))"
    by (rule mq_put_ok [OF ok s room])
  define k1 where "k1 = mq_put_first mq n p sz k"
  have mc1: "may_call b k1" using mc by (simp add: may_call_def k1_def)
  have w: "waiting (Suspend_list mq)" by simp
  obtain k' where k': "ipc_wake_one (Suspend_list mq) k1 = Some k'" "may_call b k'" "call_frame k1 k'"
    "objs_frame k1 k'" "tlists k' (Suspend_list mq) = tl (tlists k1 (Suspend_list mq))"
    "tlists k1 (Suspend_list mq) \<noteq> [] \<longrightarrow> thread k' (hd (tlists k1 (Suspend_list mq))) =
      (thread k1 (hd (tlists k1 (Suspend_list mq))))\<lparr>stat := RT_THREAD_READY\<rparr>"
    by (rule wake_any_ok [OF mc1 w])
  note c = mq_cong [of k' k1 mq, OF call_frameD(10,5) [OF k'(3)]]
  have tl: "tlists k1 = tlists k" by (simp add: k1_def)
  have "rt_mq_urgent mq p sz k = Some (RT_EOK, k')"
    using s n(1) k'(1) by (simp add: rt_mq_urgent_def send_ok_def buffer_ok_def mq_sz_le mq_take_free_def
        k1_def mq_put_first_def)
  then show ?thesis
    by (rule that [of k' rest])
      (use k'(2,5) c n(2-5) tl in \<open>simp_all add: k1_def [symmetric]\<close>, use k'(6) tl in force)
qed

lemma mq_refused:
  assumes "mq \<noteq> 0" "mq_ok mq k"
  shows "p \<noteq> 0 \<Longrightarrow> unat (msg_size (mqueue k mq)) < unat sz \<Longrightarrow> rt_mq_send mq p sz k = Some (- RT_ERROR, k)"
    "p \<noteq> 0 \<Longrightarrow> sz \<noteq> 0 \<Longrightarrow> unat sz \<le> unat (msg_size (mqueue k mq)) \<Longrightarrow>
      \<not> length (messages mq k) < mq_room mq k \<Longrightarrow> rt_mq_send mq p sz k = Some (- RT_EFULL, k)"
    "p \<noteq> 0 \<Longrightarrow> sz \<noteq> 0 \<Longrightarrow> unat sz \<le> unat (msg_size (mqueue k mq)) \<Longrightarrow>
      \<not> length (messages mq k) < mq_room mq k \<Longrightarrow> rt_mq_urgent mq p sz k = Some (- RT_EFULL, k)"
    "p \<noteq> 0 \<Longrightarrow> sz \<noteq> 0 \<Longrightarrow> messages mq k = [] \<Longrightarrow> rt_mq_recv mq p sz 0 k = Some (Done (- RT_ETIMEOUT), k)"
proof -
  show "p \<noteq> 0 \<Longrightarrow> unat (msg_size (mqueue k mq)) < unat sz \<Longrightarrow> rt_mq_send mq p sz k = Some (- RT_ERROR, k)"
    using assms(1) by (auto simp: rt_mq_send_def mq_sz_le(2))
  show "p \<noteq> 0 \<Longrightarrow> sz \<noteq> 0 \<Longrightarrow> unat sz \<le> unat (msg_size (mqueue k mq)) \<Longrightarrow>
      \<not> length (messages mq k) < mq_room mq k \<Longrightarrow> rt_mq_send mq p sz k = Some (- RT_EFULL, k)"
    using assms mq_full_free [OF assms(2)] by (simp add: rt_mq_send_def mq_sz_le(1) mq_take_free_def)
  show "p \<noteq> 0 \<Longrightarrow> sz \<noteq> 0 \<Longrightarrow> unat sz \<le> unat (msg_size (mqueue k mq)) \<Longrightarrow>
      \<not> length (messages mq k) < mq_room mq k \<Longrightarrow> rt_mq_urgent mq p sz k = Some (- RT_EFULL, k)"
    using assms mq_full_free [OF assms(2)] by (simp add: rt_mq_urgent_def mq_sz_le(1) mq_take_free_def)
  show "p \<noteq> 0 \<Longrightarrow> sz \<noteq> 0 \<Longrightarrow> messages mq k = [] \<Longrightarrow> rt_mq_recv mq p sz 0 k = Some (Done (- RT_ETIMEOUT), k)"
    using assms messages_length [OF assms(2)] unat_eq_zero [of "mq_entry (mqueue k mq)"]
    by (simp add: rt_mq_recv_def)
qed

text \<open>The arguments of a receive.\<close>

definition recv_ok :: "addr \<Rightarrow> addr \<Rightarrow> u32 \<Rightarrow> kernel \<Rightarrow> bool" where
  "recv_ok mq p sz k = (mq \<noteq> 0 \<and> sz \<noteq> 0 \<and> buffer_ok p (unat sz) (mqueue k mq))"

lemma mq_get_ok:
  assumes ok: "mq_ok mq k" and r: "recv_ok mq p sz k" and c: "messages mq k = x # xs"
  obtains k' where "mq_get mq p sz k = Some k'" "mq_ok mq k'" "mq_same mq k k'" "messages mq k' = xs"
    "load_bytes p (min (unat sz) (unat (msg_size (mqueue k mq)))) (ram (heap_of k')) = take (unat sz) x"
    "tlists k' = tlists k" "thread k' = thread k" "current k' = current k" "lock_nest k' = lock_nest k"
    "\<forall>b. kernel_inv b k' = kernel_inv b k" "objs k' = objs k"
proof -
  define q where "q = mqueue k mq"
  have wf: "mq_wf q" and pl: "mq_placed q" using ok by (simp_all add: mq_ok_def q_def)
  have b: "buffer_ok p (unat sz) q" using r by (simp add: recv_ok_def q_def)
  note sp = mq_wfD(1) [OF wf]
  obtain n us where n: "mq_used q = n # us" using c by (cases "mq_used q") (simp_all add: messages_def q_def)
  have x: "x = message q (ram (heap_of k)) n" "xs = map (message q (ram (heap_of k))) us"
    using c n by (simp_all add: messages_def q_def)
  have hd: "msg_queue_head q = Some n" using mq_splitD(1) [OF sp] n by simp
  have nn: "n \<in> set (mq_nodes q)" using mq_splitD(6) [OF sp] n by auto
  define len where "len = (if ucast (msg_size q) < sz then ucast (msg_size q) else sz)"
  have len: "unat len = min (unat sz) (unat (msg_size q))"
  proof -
    have "unat (ucast (msg_size q) :: u32) = unat (msg_size q)"
      using unsigned_less [of "msg_size q", where ?'a = nat] by (simp add: unsigned_ucast_eq take_bit_nat_eq_self)
    then show ?thesis by (auto simp: len_def word_less_nat_alt)
  qed
  define k' where "k' = upd_mq mq (mq_release n)
    (upd_heap (\<lambda>h. h\<lparr>ram := rt_memcpy p (n + 4) len (ram h)\<rparr>) (upd_mq mq (mq_unlink n) k))"
  have g: "mq_get mq p sz k = Some k'"
    using hd by (simp add: mq_get_def k'_def q_def len_def)
  have q': "mqueue k' mq = mq_release n (mq_unlink n q)" by (simp add: k'_def q_def)
  have ram': "ram (heap_of k') = rt_memcpy p (n + 4) len (ram (heap_of k))" by (simp add: k'_def)
  have e: "unat (mq_entry q - 1) = length us"
  proof -
    have "mq_entry q \<noteq> 0" using mq_wfD(2) [OF wf] n by auto
    then show ?thesis using mq_wfD(2) [OF wf] n by (simp add: unat_minus_one)
  qed
  have w: "mq_wf (mqueue k' mq) \<and> mq_used (mqueue k' mq) = us \<and> mq_unused (mqueue k' mq) = n # mq_unused q"
    unfolding q' by (rule mq_wfI [OF mq_unlink_release_split [OF sp [unfolded n]]]) (simp add: e)
  have same: "mq_same mq k k'" by (simp add: mq_same_def q' q_def)
  have le: "unat len \<le> unat (msg_size q)" "unat len \<le> unat sz" by (simp_all add: len)
  have apart: "ranges_apart (y + 4) (unat (msg_size q)) p (unat len)" if "y \<in> set (mq_nodes q)" for y
    by (rule mq_node_buffer [OF pl b that order_refl le(2)])
  have cp: "rt_memcpy p (n + 4) len m = blit p (n + 4) (unat len) m" for m
    by (rule memcpy_apart, subst ranges_apart_sym, rule ranges_apart_less [OF apart [OF nn] le(1) order_refl])
  have msg: "message q (ram (heap_of k')) y = message q (ram (heap_of k)) y" if "y \<in> set (mq_nodes q)" for y
    unfolding ram' cp message_def by (rule load_blit_apart [OF apart [OF that]])
  have us: "set us \<subseteq> set (mq_nodes q)" using mq_splitD(6) [OF sp] n by auto
  have "messages mq k' = xs"
    using w msg us unfolding messages_def mq_same_cong(4) [OF same] q_def [symmetric] x(2)
    by auto
  moreover have "load_bytes p (unat len) (ram (heap_of k')) = take (unat sz) x"
  proof -
    have "load_bytes p (unat len) (ram (heap_of k')) = load_bytes (n + 4) (unat len) (ram (heap_of k))"
      unfolding ram' cp by (rule load_blit_same [OF order_refl unat_le_32])
    also have "\<dots> = take (unat sz) x"
      unfolding x(1) message_def len by (simp add: load_bytes_def take_map min_def take_upt)
    finally show ?thesis .
  qed
  moreover have "mq_ok mq k'" using w pl mq_same_cong(2) [OF same] by (simp add: mq_ok_def q_def)
  ultimately show ?thesis
    by (intro that [OF g]) (simp_all add: same len q_def [symmetric], simp_all add: k'_def)
qed

lemma mq_recv_first:
  assumes mc: "may_call b k" and ok: "mq_ok mq k" and r: "recv_ok mq p sz k" and c: "messages mq k = x # xs"
  obtains k' where "rt_mq_recv mq p sz timeout k = Some (Done RT_EOK, k')" "may_call b k'" "mq_ok mq k'"
    "mq_same mq k k'" "messages mq k' = xs"
    "load_bytes p (min (unat sz) (unat (msg_size (mqueue k mq)))) (ram (heap_of k')) = take (unat sz) x"
proof -
  obtain k' where k': "mq_get mq p sz k = Some k'" "mq_ok mq k'" "mq_same mq k k'" "messages mq k' = xs"
    "load_bytes p (min (unat sz) (unat (msg_size (mqueue k mq)))) (ram (heap_of k')) = take (unat sz) x"
    "tlists k' = tlists k" "thread k' = thread k" "current k' = current k" "lock_nest k' = lock_nest k"
    "\<forall>b. kernel_inv b k' = kernel_inv b k" "objs k' = objs k"
    by (rule mq_get_ok [OF ok r c])
  have ne: "mq_entry (mqueue k mq) \<noteq> 0" using messages_length [OF ok] c by auto
  have "rt_mq_recv mq p sz timeout k = Some (Done RT_EOK, k')"
    unfolding rt_mq_recv_def using r ne k'(1)
    by (subst mq_recv_loop.simps) (simp add: recv_ok_def buffer_ok_def)
  moreover have "may_call b k'" using mc k'(8-10) by (simp add: may_call_def)
  ultimately show ?thesis using that [of k'] k'(2-5) by simp
qed

lemma mq_recv_blocks:
  assumes it: "in_thread b t r k" and mq: "ipc_flag_ok mq k" "mq_ok mq k" "mq \<noteq> 0" "p \<noteq> 0" "sz \<noteq> 0"
    and n: "timeout \<noteq> 0" "timeout \<noteq> 0x7fffffff" and c: "messages mq k = []"
  obtains k' start where "rt_mq_recv mq p sz timeout k = Some (Blocked (t, timeout, start), k')" "kernel_inv b k'"
    "mqueue k' = mqueue k" "heap_of k' = heap_of k"
    "thread k' t = (thread k t)\<lparr>t_error := RT_EOK, stat := RT_THREAD_SUSPEND\<rparr>"
    "tlists k' (Suspend_list mq) = queue_in (obj_flag (objs k (Obj mq))) k t (tlists k (Suspend_list mq))"
proof -
  let ?f = "\<lambda>th :: rt_thread. th\<lparr>t_error := RT_EOK\<rparr>"
  let ?fl = "obj_flag (objs k (Obj mq))"
  have fl: "?fl = 0 \<or> ?fl = 1" using mq(1) by (simp add: ipc_flag_ok_def)
  have w: "waiting (Suspend_list mq)" by simp
  obtain k' x where k': "ipc_wait (Suspend_list mq) t ?fl timeout (upd_thread t ?f k) = Some k'"
    "kernel_inv b k'" "call_frame k k'"
    "thread k' = (thread k)(t := (?f (thread k t))\<lparr>stat := RT_THREAD_SUSPEND\<rparr>)"
    "tlists k' = (lists_remove t (tlists k))(Suspend_list mq := queue_in ?fl k t (tlists k (Suspend_list mq)))"
    "current k' = Some x" "highest k' x" "x \<noteq> t"
    "Thread_timer t \<in> set (timer_list k') \<longleftrightarrow> 0 <s timeout"
    "0 <s timeout \<longrightarrow> timeout_tick (timer k' (Thread_timer t)) = tick k + timeout"
    by (rule blocking_wait_ok [OF it w n(2) fl refl, where f = ?f]) (simp_all add: stack_ok_def)
  have e: "mq_entry (mqueue k mq) = 0"
    using messages_length [OF mq(2)] c unat_eq_zero [of "mq_entry (mqueue k mq)"] by simp
  have "rt_mq_recv mq p sz timeout k
      = Some (Blocked (t, timeout, if 0 <s timeout then rt_tick_get k else 0), k')"
    unfolding rt_mq_recv_def using it mq(3-5) n(1) e k'(1,6,8)
    by (subst mq_recv_loop.simps) (simp add: rt_tick_get_def)
  then show ?thesis
    using that [of _ k'] k'(2,4,5) call_frameD(10,5) [OF k'(3)] by simp
qed

subsection \<open>Initialisation and reset\<close>

lemma mq_free_loop_keeps:
  "mq_pool (mq_free_loop i n q) = mq_pool q \<and> msg_size (mq_free_loop i n q) = msg_size q \<and>
   max_msgs (mq_free_loop i n q) = max_msgs q \<and> msg_queue_head (mq_free_loop i n q) = msg_queue_head q \<and>
   msg_queue_tail (mq_free_loop i n q) = msg_queue_tail q"
  by (induction n arbitrary: i q) (simp_all add: Let_def set_mq_next_def)

text \<open>The free list is built backwards: the node linked last is its first.\<close>

lemma mq_free_loop_chain:
  "node_chain (mq_next q) (msg_queue_free q) fs \<Longrightarrow> distinct (rev (map (mq_node q) [i..<i + n]) @ fs) \<Longrightarrow>
    node_chain (mq_next (mq_free_loop i n q)) (msg_queue_free (mq_free_loop i n q))
      (rev (map (mq_node q) [i..<i + n]) @ fs)"
proof (induction n arbitrary: i q fs)
  case (Suc n)
  let ?x = "mq_node q i"
  let ?q = "(set_mq_next ?x (msg_queue_free q) q)\<lparr>msg_queue_free := Some ?x\<rparr>"
  have r: "[i..<i + Suc n] = i # [Suc i..<Suc i + n]" by (simp add: upt_conv_Cons)
  have node: "mq_node ?q = mq_node q" by (simp add: fun_eq_iff mq_node_def set_mq_next_def)
  have d: "distinct (rev (map (mq_node q) [Suc i..<Suc i + n]) @ ?x # fs)"
    using Suc.prems(2) unfolding r by (auto simp del: upt_Suc)
  have "node_chain (mq_next ?q) (msg_queue_free ?q) (?x # fs)"
    using Suc.prems(1) d by (simp add: set_mq_next_def)
  then have "node_chain (mq_next (mq_free_loop (Suc i) n ?q)) (msg_queue_free (mq_free_loop (Suc i) n ?q))
      (rev (map (mq_node ?q) [Suc i..<Suc i + n]) @ ?x # fs)"
    by (rule Suc.IH) (simp only: node d)
  then show ?case unfolding r by (simp add: Let_def node del: upt_Suc)
qed simp

lemma mq_init_lists_wf:
  assumes "mq_placed q"
  shows "mq_wf (mq_init_lists q) \<and> mq_used (mq_init_lists q) = []"
proof -
  let ?q0 = "q\<lparr>msg_queue_head := None, msg_queue_tail := None, msg_queue_free := None\<rparr>"
  let ?q1 = "mq_free_loop 0 (unat (max_msgs ?q0)) ?q0"
  have nd: "mq_nodes ?q0 = mq_nodes q" by simp
  have "distinct (rev (mq_nodes ?q0) @ [])" using mq_nodes_distinct [OF assms] by (simp add: nd)
  then have c: "node_chain (mq_next ?q1) (msg_queue_free ?q1) (rev (mq_nodes ?q0) @ [])"
    unfolding mq_nodes_def using mq_free_loop_chain [of ?q0 "[]" 0 "unat (max_msgs ?q0)"] by simp
  note kp = mq_free_loop_keeps [of 0 "unat (max_msgs ?q0)" ?q0]
  have nodes: "mq_nodes ?q1 = mq_nodes q" using kp by (simp add: mq_nodes_def mq_node_def [abs_def])
  have "mq_split (?q1\<lparr>mq_entry := 0\<rparr>) [] (rev (mq_nodes q))"
    using c kp mq_nodes_distinct [OF assms] nodes by (simp add: mq_split_def) (simp add: mq_nodes_def)
  from mq_wfI [OF this] show ?thesis by (simp add: mq_init_lists_def)
qed

text \<open>The reset ends: every turn of its loop moves a node to the free list.\<close>

lemma mq_drain_ok:
  "mq_split q us fs \<Longrightarrow>
    \<exists>q'. mq_drain q = Some q' \<and> mq_split q' [] (rev us @ fs) \<and> mq_pool q' = mq_pool q \<and>
      msg_size q' = msg_size q \<and> max_msgs q' = max_msgs q"
proof (induction us arbitrary: q fs)
  case Nil
  then have "msg_queue_head q = None" using mq_splitD(1) [OF Nil] by simp
  then show ?case using Nil by (subst mq_drain.simps) simp
next
  case (Cons n us)
  have h: "msg_queue_head q = Some n" using mq_splitD(1) [OF Cons.prems] by simp
  let ?q = "q\<lparr>msg_queue_head := mq_next q n\<rparr>"
  let ?q1 = "if msg_queue_tail ?q = Some n then ?q\<lparr>msg_queue_tail := None\<rparr> else ?q"
  have "mq_split (mq_release n ?q1) us (n # fs)"
  proof -
    have "mq_release n (mq_unlink n q) = (mq_release n ?q1)\<lparr>mq_entry := mq_entry q - 1\<rparr>"
      by (simp add: mq_unlink_def mq_release_def set_mq_next_def Let_def)
    with mq_unlink_release_split [OF Cons.prems] show ?thesis by (simp add: mq_split_def)
  qed
  from Cons.IH [OF this] show ?case
    using h by (subst mq_drain.simps) (simp add: Let_def mq_release_def set_mq_next_def split: if_splits)
qed

subsection \<open>Properties\<close>

text \<open>
  A client that keeps one buffer: it stores a message there and sends it, or receives one into it
  and loads it. What its calls do to a list of at most \<open>n\<close> messages: an urgent message goes first.
\<close>

datatype 'a mq_cmd = Send 'a | Urgent 'a | Receive

fun mq_step :: "nat \<Rightarrow> 'a mq_cmd \<Rightarrow> 'a list \<Rightarrow> 'a option \<times> 'a list" where
  "mq_step n (Send x) xs = (None, if length xs < n then xs @ [x] else xs)"
| "mq_step n (Urgent x) xs = (None, if length xs < n then x # xs else xs)"
| "mq_step n Receive xs = (case xs of [] \<Rightarrow> (None, []) | y # ys \<Rightarrow> (Some y, ys))"

fun mq_fits :: "nat \<Rightarrow> 'a list mq_cmd \<Rightarrow> bool" where
  "mq_fits n (Send bs) = (length bs = n)"
| "mq_fits n (Urgent bs) = (length bs = n)"
| "mq_fits n Receive = True"

abbreviation buffer_set :: "addr \<Rightarrow> u8 list \<Rightarrow> kernel \<Rightarrow> kernel" where
  "buffer_set p bs \<equiv> upd_heap (\<lambda>h. h\<lparr>ram := store_bytes p bs (ram h)\<rparr>)"

fun mq_call :: "addr \<Rightarrow> addr \<Rightarrow> u8 list mq_cmd \<Rightarrow> kernel \<Rightarrow> (u8 list option \<times> kernel) option" where
  "mq_call mq p (Send bs) k =
     (case rt_mq_send mq p (of_nat (length bs)) (buffer_set p bs k) of
        None \<Rightarrow> None
      | Some (_, k) \<Rightarrow> Some (None, k))"
| "mq_call mq p (Urgent bs) k =
     (case rt_mq_urgent mq p (of_nat (length bs)) (buffer_set p bs k) of
        None \<Rightarrow> None
      | Some (_, k) \<Rightarrow> Some (None, k))"
| "mq_call mq p Receive k =
     (case rt_mq_recv mq p (ucast (msg_size (mqueue k mq))) 0 k of
        Some (Done e, k') \<Rightarrow>
          Some (if e = RT_EOK
                then Some (load_bytes p (unat (msg_size (mqueue k mq))) (ram (heap_of k'))) else None, k')
      | _ \<Rightarrow> None)"

definition mq_ready :: "u32 \<Rightarrow> addr \<Rightarrow> addr \<Rightarrow> nat \<Rightarrow> kernel \<Rightarrow> bool" where
  "mq_ready b mq p n k =
     (mq \<noteq> 0 \<and> may_call b k \<and> mq_ok mq k \<and> unat (msg_size (mqueue k mq)) = n \<and> buffer_ok p n (mqueue k mq))"

lemma messages_store:
  assumes "mq_ok mq k" "buffer_ok p n (mqueue k mq)" "length bs \<le> n"
  defines "k0 \<equiv> upd_heap (\<lambda>h. h\<lparr>ram := store_bytes p bs (ram h)\<rparr>) k"
  shows "messages mq k0 = messages mq k"
proof -
  let ?q = "mqueue k mq"
  have q: "mq_wf ?q" "mq_placed ?q" using assms(1) by (simp_all add: mq_ok_def)
  have "message ?q (store_bytes p bs (ram (heap_of k))) x = message ?q (ram (heap_of k)) x"
    if "x \<in> set (mq_used ?q)" for x
  proof -
    have "x \<in> set (mq_nodes ?q)" using that mq_splitD(6) [OF mq_wfD(1) [OF q(1)]] by blast
    then show ?thesis unfolding message_def
      by (intro load_store_apart mq_node_buffer [OF q(2) assms(2)]) (use assms(3) in auto)
  qed
  then show ?thesis by (simp add: messages_def k0_def)
qed

lemma mq_readyD:
  assumes "mq_ready b mq p n k"
  shows "mq \<noteq> 0" "may_call b k" "mq_ok mq k" "unat (msg_size (mqueue k mq)) = n" "buffer_ok p n (mqueue k mq)"
    "p \<noteq> 0" "0 < n" "n < 2 ^ 16"
  using assms unsigned_less [of "msg_size (mqueue k mq)", where ?'a = nat]
  by (auto simp: mq_ready_def buffer_ok_def mq_ok_def mq_placed_def word_less_nat_alt)

lemma mq_ready_kept:
  "mq_ready b mq p n k \<Longrightarrow> may_call b k' \<Longrightarrow> mq_ok mq k' \<Longrightarrow> mq_same mq k k' \<Longrightarrow>
    mq_ready b mq p n k' \<and> mq_room mq k' = mq_room mq k"
  using mq_same_cong(3,5) [of mq k k'] by (simp add: mq_ready_def mq_same_def)

text \<open>The message is in the buffer: what a send finds.\<close>

lemma mq_posting:
  assumes r: "mq_ready b mq p n k" and l: "length bs = n"
  defines "k0 \<equiv> buffer_set p bs k" and "sz \<equiv> (of_nat (length bs) :: u32)"
  shows "mq_ready b mq p n k0" "mq_same mq k k0" "messages mq k0 = messages mq k" "mq_room mq k0 = mq_room mq k"
    "send_ok mq p sz k0" "unat sz = n" "sz \<noteq> 0" "load_bytes p (unat sz) (ram (heap_of k0)) = bs"
proof -
  note mq = mq_readyD [OF r]
  show sz: "unat sz = n" unfolding sz_def l by (rule unat_of_nat_lt [of n "Suc n"]) (use mq(8) in auto)
  then show z: "sz \<noteq> 0" using mq(7) unat_0 less_irrefl by metis
  show m: "messages mq k0 = messages mq k"
    unfolding k0_def by (rule messages_store [OF mq(3,5)]) (simp add: l)
  show same: "mq_same mq k k0" by (simp add: mq_same_def k0_def)
  have "may_call b k0" "mq_ok mq k0" using mq(2,3) by (simp_all add: may_call_def mq_ok_def k0_def)
  then show r0: "mq_ready b mq p n k0" "mq_room mq k0 = mq_room mq k"
    using mq_ready_kept [OF r _ _ same] by simp_all
  show "send_ok mq p sz k0"
    using mq_readyD [OF r0(1)] sz z by (simp add: send_ok_def)
  show "load_bytes p (unat sz) (ram (heap_of k0)) = bs"
    using load_store_bytes [of bs p "ram (heap_of k)"] l mq(8) sz by (simp add: k0_def)
qed

lemma mq_posted:
  assumes r: "mq_ready b mq p n k" and l: "length bs = n"
  shows "\<exists>e k'. rt_mq_send mq p (of_nat (length bs)) (buffer_set p bs k) = Some (e, k') \<and>
      mq_ready b mq p n k' \<and> mq_room mq k' = mq_room mq k \<and>
      messages mq k' = (if length (messages mq k) < mq_room mq k then messages mq k @ [bs] else messages mq k)"
    (is ?send)
  and "\<exists>e k'. rt_mq_urgent mq p (of_nat (length bs)) (buffer_set p bs k) = Some (e, k') \<and>
      mq_ready b mq p n k' \<and> mq_room mq k' = mq_room mq k \<and>
      messages mq k' = (if length (messages mq k) < mq_room mq k then bs # messages mq k else messages mq k)"
    (is ?urgent)
proof -
  define k0 where "k0 = buffer_set p bs k"
  define sz where "sz = (of_nat (length bs) :: u32)"
  note post = mq_posting [OF r l, folded k0_def sz_def]
  note mq = mq_readyD [OF post(1)]
  have "?send \<and> ?urgent"
  proof (cases "length (messages mq k) < mq_room mq k")
    case True
    then have room: "length (messages mq k0) < mq_room mq k0" by (simp add: post)
    obtain k1 rest1 where k1: "rt_mq_send mq p sz k0 = Some (RT_EOK, k1)" "may_call b k1" "mq_ok mq k1"
      "mq_same mq k0 k1" "messages mq k1 = messages mq k0 @ [load_bytes p (unat sz) (ram (heap_of k0)) @ rest1]"
      "unat sz + length rest1 = unat (msg_size (mqueue k0 mq))"
      by (rule mq_send_ok [OF mq(2,3) post(5) room])
    obtain k2 rest2 where k2: "rt_mq_urgent mq p sz k0 = Some (RT_EOK, k2)" "may_call b k2" "mq_ok mq k2"
      "mq_same mq k0 k2" "messages mq k2 = (load_bytes p (unat sz) (ram (heap_of k0)) @ rest2) # messages mq k0"
      "unat sz + length rest2 = unat (msg_size (mqueue k0 mq))"
      by (rule mq_urgent_ok [OF mq(2,3) post(5) room])
    have "rest1 = []" "rest2 = []" using k1(6) k2(6) mq(4) post(6) by simp_all
    then show ?thesis
      using True k1(1,5) k2(1,5) post mq_ready_kept [OF post(1) k1(2-4)] mq_ready_kept [OF post(1) k2(2-4)]
      by (simp add: k0_def [symmetric] sz_def [symmetric])
  next
    case False
    have "unat sz \<le> unat (msg_size (mqueue k0 mq))" "\<not> length (messages mq k0) < mq_room mq k0"
      using False mq(4) post(3,4,6) by simp_all
    with mq_refused(2,3) [OF mq(1,3,6) post(7)] False post(1,3,4) show ?thesis
      by (simp add: k0_def [symmetric] sz_def [symmetric])
  qed
  then show ?send ?urgent by blast+
qed

lemma mq_received:
  assumes r: "mq_ready b mq p n k"
  shows "\<exists>k'. rt_mq_recv mq p (ucast (msg_size (mqueue k mq))) 0 k =
      Some (Done (if messages mq k = [] then - RT_ETIMEOUT else RT_EOK), k') \<and>
    mq_ready b mq p n k' \<and> mq_room mq k' = mq_room mq k \<and> messages mq k' = tl (messages mq k) \<and>
    (messages mq k \<noteq> [] \<longrightarrow> load_bytes p n (ram (heap_of k')) = hd (messages mq k))"
proof -
  note mq = mq_readyD [OF r]
  define sz where "sz = (ucast (msg_size (mqueue k mq)) :: u32)"
  have sz: "unat sz = n" using mq(4,8) by (simp add: sz_def unsigned_ucast_eq take_bit_nat_eq_self)
  then have z: "sz \<noteq> 0" using mq(7) unat_0 less_irrefl by metis
  show ?thesis
  proof (cases "messages mq k")
    case Nil
    with mq_refused(4) [OF mq(1,3,6) z Nil] r show ?thesis by (simp add: sz_def)
  next
    case (Cons x xs)
    have rc: "recv_ok mq p sz k" using mq sz z by (simp add: recv_ok_def)
    obtain k' where k': "rt_mq_recv mq p sz 0 k = Some (Done RT_EOK, k')" "may_call b k'" "mq_ok mq k'"
      "mq_same mq k k'" "messages mq k' = xs"
      "load_bytes p (min (unat sz) (unat (msg_size (mqueue k mq)))) (ram (heap_of k')) = take (unat sz) x"
      by (rule mq_recv_first [OF mq(2,3) rc Cons])
    have "length x = n" using Cons mq(4) by (auto simp: messages_def message_def)
    then show ?thesis
      using Cons k'(1,5,6) sz mq(4) mq_ready_kept [OF r k'(2-4)] by (simp add: sz_def)
  qed
qed

lemma mq_call_law:
  assumes r: "mq_ready b mq p n k" and "mq_fits n c"
  shows "\<exists>out k'. mq_call mq p c k = Some (out, k') \<and> mq_ready b mq p n k' \<and> mq_room mq k' = mq_room mq k \<and>
    mq_step (mq_room mq k) c (messages mq k) = (out, messages mq k')"
proof (cases c)
  case (Send bs)
  then show ?thesis using mq_posted(1) [OF r, of bs] assms(2) by force
next
  case (Urgent bs)
  then show ?thesis using mq_posted(2) [OF r, of bs] assms(2) by force
next
  case Receive
  then show ?thesis
    using mq_received [OF r] mq_readyD(4) [OF r] by (cases "messages mq k") auto
qed

interpretation mqc: abs_calls "mq_call mq p" mq_step "messages mq" "mq_ready b mq p n" "mq_room mq" "mq_fits n"
  by unfold_locales (rule mq_call_law)

text \<open>C21. A message queue is a bounded queue of messages with an urgent end: any sequence of sends and
  urgent sends of full messages and of receives that do not wait returns, and gives the bytes and
  the refusals that a list of at most \<open>max_msgs\<close> messages gives, of which a send extends the end, an
  urgent send the beginning and a receive takes the first; the two linked lists stay a partition of
  the pool.\<close>

theorem mq_calls_refine:
  assumes "mq_ready b mq p n k" "list_all (mq_fits n) cs"
  shows "\<exists>outs k'. calls (mq_call mq p) cs k = Some (outs, k') \<and> mq_ready b mq p n k' \<and>
    abs_run (mq_step (mq_room mq k)) cs (messages mq k) = (outs, messages mq k')"
  using mqc.calls_run [OF assms] by blast

text \<open>A pool of three messages of four bytes.\<close>

definition demo_queue :: kernel where
  "demo_queue = upd_mq 0x2600 (\<lambda>q. mq_init_lists (q\<lparr>max_msgs := 3\<rparr>)) demo"

lemma demo_queue_ready: "mq_ready 0xfffffffe 0x2600 0x20031000 4 demo_queue"
  and demo_queue_empty: "messages 0x2600 demo_queue = []" "mq_room 0x2600 demo_queue = 3"
proof -
  let ?q = "(mqueue demo 0x2600)\<lparr>max_msgs := 3\<rparr>"
  have q: "mq_pool ?q = 0x20030000" "msg_size ?q = 4" "max_msgs ?q = 3" by (simp_all add: demo_def)
  have pl: "mq_placed ?q" by (simp add: mq_placed_def mq_bytes_def q del: rt_messagequeue.simps)
  note kp = mq_free_loop_keeps
  have same: "mq_pool (mq_init_lists ?q) = mq_pool ?q" "msg_size (mq_init_lists ?q) = msg_size ?q"
    "max_msgs (mq_init_lists ?q) = max_msgs ?q"
    by (simp_all add: mq_init_lists_def Let_def kp)
  have dq: "mqueue demo_queue 0x2600 = mq_init_lists ?q" by (simp add: demo_queue_def)
  have wf: "mq_wf (mq_init_lists ?q)" "mq_used (mq_init_lists ?q) = []" using mq_init_lists_wf [OF pl] by auto
  have mc: "may_call 0xfffffffe demo_queue" by (simp add: may_call_def demo_queue_def demo_inv)
  show "mq_ready 0xfffffffe 0x2600 0x20031000 4 demo_queue"
    using mc wf(1) pl unfolding mq_ready_def mq_ok_def dq buffer_ok_def mq_placed_def mq_bytes_def same q
    by (simp add: ranges_apart_def)
  show "messages 0x2600 demo_queue = []" by (simp add: messages_def dq wf)
  show "mq_room 0x2600 demo_queue = 3" unfolding mq_room_def dq same q by simp
qed

lemma mq_calls_refine_witness:
  "\<exists>k'. calls (mq_call 0x2600 0x20031000) [Send [1, 2, 3, 4], Urgent [5, 6, 7, 8], Send [9, 9, 9, 9],
      Urgent [0, 0, 0, 0], Receive, Receive, Receive, Receive] demo_queue
      = Some ([[5, 6, 7, 8], [1, 2, 3, 4], [9, 9, 9, 9]], k') \<and> messages 0x2600 k' = []"
  using mq_calls_refine [OF demo_queue_ready,
      of "[Send [1, 2, 3, 4], Urgent [5, 6, 7, 8], Send [9, 9, 9, 9], Urgent [0, 0, 0, 0],
        Receive, Receive, Receive, Receive]"]
  by (auto simp: demo_queue_empty)

text \<open>An urgent message overtakes all others: what \<open>rt_mq_urgent\<close> sends is what the next
  \<open>rt_mq_recv\<close> receives, and after that the queue is as it was.\<close>

theorem rt_mq_urgent_overtakes:
  assumes "may_call b k" "mq_ok mq k" "send_ok mq p sz k" "length (messages mq k) < mq_room mq k"
  shows "\<exists>k1 k2. rt_mq_urgent mq p sz k = Some (RT_EOK, k1) \<and>
    length (messages mq k1) = Suc (length (messages mq k)) \<and>
    rt_mq_recv mq p sz 0 k1 = Some (Done RT_EOK, k2) \<and>
    load_bytes p (unat sz) (ram (heap_of k2)) = load_bytes p (unat sz) (ram (heap_of k)) \<and>
    messages mq k2 = messages mq k \<and> mq_ok mq k2 \<and> may_call b k2"
proof -
  obtain k1 rest where k1: "rt_mq_urgent mq p sz k = Some (RT_EOK, k1)" "may_call b k1" "mq_ok mq k1" "mq_same mq k k1"
    "messages mq k1 = (load_bytes p (unat sz) (ram (heap_of k)) @ rest) # messages mq k"
    by (rule mq_urgent_ok [OF assms])
  have r: "recv_ok mq p sz k1"
    using assms(3) mq_same_cong(3) [OF k1(4)] by (simp add: recv_ok_def send_ok_def)
  obtain k2 where k2: "rt_mq_recv mq p sz 0 k1 = Some (Done RT_EOK, k2)" "may_call b k2" "mq_ok mq k2"
    "messages mq k2 = messages mq k"
    "load_bytes p (min (unat sz) (unat (msg_size (mqueue k1 mq)))) (ram (heap_of k2)) =
      take (unat sz) (load_bytes p (unat sz) (ram (heap_of k)) @ rest)"
    by (rule mq_recv_first [OF k1(2,3) r k1(5)])
  have "min (unat sz) (unat (msg_size (mqueue k1 mq))) = unat sz"
    using assms(3) k1(4) by (simp add: send_ok_def mq_same_def)
  then show ?thesis using k1 k2 by (intro exI [of _ k1] exI [of _ k2]) simp
qed

lemma rt_mq_urgent_overtakes_witness:
  "\<exists>k1 k2. rt_mq_urgent 0x2600 0x20031000 3 demo_queue = Some (RT_EOK, k1) \<and>
    rt_mq_recv 0x2600 0x20031000 3 0 k1 = Some (Done RT_EOK, k2)"
proof -
  have r: "may_call 0xfffffffe demo_queue" "mq_ok 0x2600 demo_queue"
    and b: "unat (msg_size (mqueue demo_queue 0x2600)) = 4" "buffer_ok 0x20031000 4 (mqueue demo_queue 0x2600)"
    using demo_queue_ready by (simp_all add: mq_ready_def)
  have "send_ok 0x2600 0x20031000 3 demo_queue"
    using b ranges_apart_less by (auto simp: send_ok_def buffer_ok_def)
  from rt_mq_urgent_overtakes [OF r this] show ?thesis by (auto simp: demo_queue_empty)
qed

text \<open>C22. The reset of a message queue returns: its loop ends whatever is queued, all nodes are free
  again, and every thread that waited for a message is ready with \<open>-RT_ERROR\<close>.\<close>

theorem rt_mq_reset:
  assumes "in_thread b t r k" "mq \<noteq> 0" "mq_ok mq k"
  shows "\<exists>k'. rt_mq_control mq RT_IPC_CMD_RESET arg k = Some (RT_EOK, k') \<and> kernel_inv b k' \<and>
    mq_ok mq k' \<and> messages mq k' = [] \<and> mq_room mq k' = mq_room mq k \<and> tlists k' (Suspend_list mq) = [] \<and>
    (\<forall>x. thread k' x = (if x \<in> set (tlists k (Suspend_list mq))
      then (thread k x)\<lparr>t_error := - RT_ERROR, stat := RT_THREAD_READY\<rparr> else thread k x))"
proof -
  note d = in_threadD [OF assms(1)]
  have w: "waiting (Suspend_list mq)" by simp
  obtain k1 where k1: "rt_ipc_list_resume_all (Suspend_list mq) k = Some k1" "kernel_inv b k1" "thread_frame k k1"
    "tlists k1 (Suspend_list mq) = []"
    "thread k1 = (\<lambda>x. if x \<in> set (tlists k (Suspend_list mq))
      then (thread k x)\<lparr>t_error := - RT_ERROR, stat := RT_THREAD_READY\<rparr> else thread k x)"
    "\<forall>g. waiting g \<longrightarrow> g \<noteq> Suspend_list mq \<longrightarrow> tlists k1 g = tlists k g"
    by (rule resume_all_ok [OF d(1) w])
  have mqk: "mqueue k1 = mqueue k" using call_frameD(10) [OF call_frame_thread [OF k1(3)]] .
  have wf: "mq_wf (mqueue k mq)" "mq_placed (mqueue k mq)" using assms(3) by (simp_all add: mq_ok_def)
  obtain q' where q': "mq_drain (mqueue k1 mq) = Some q'"
    "mq_split q' [] (rev (mq_used (mqueue k mq)) @ mq_unused (mqueue k mq))"
    "mq_pool q' = mq_pool (mqueue k mq)" "msg_size q' = msg_size (mqueue k mq)" "max_msgs q' = max_msgs (mqueue k mq)"
    using mq_drain_ok [OF mq_wfD(1) [OF wf(1)]] mqk by auto
  define k2 where "k2 = upd_mq mq (\<lambda>_. q'\<lparr>mq_entry := 0\<rparr>) k1"
  have tin: "stat (thread k2 t) = RT_THREAD_READY" "kernel_inv b k2" "current k2 \<noteq> None" "lock_nest k2 = 0"
    using d k1(2,5) thread_frameD(1,3) [OF k1(3)] by (simp_all add: k2_def)
  obtain k' s where k': "rt_schedule k2 = Some k'" "kernel_inv b k'"
    by (rule schedule_switches [OF tin(2,1,3,4)])
  note sel = rt_schedule_sel [OF k'(1)]
  have "mq_split (q'\<lparr>mq_entry := 0\<rparr>) [] (rev (mq_used (mqueue k mq)) @ mq_unused (mqueue k mq))"
    using q'(2) by (simp add: mq_split_def)
  from mq_wfI [OF this]
  have wf': "mq_wf (q'\<lparr>mq_entry := 0\<rparr>)" "mq_used (q'\<lparr>mq_entry := 0\<rparr>) = []" by auto
  have mq': "mqueue k' mq = q'\<lparr>mq_entry := 0\<rparr>" by (simp add: sel k2_def)
  have "rt_mq_control mq RT_IPC_CMD_RESET arg k = Some (RT_EOK, k')"
    using assms(2) k1(1) q'(1) k'(1) by (simp add: rt_mq_control_def k2_def)
  moreover have "mq_ok mq k'" "messages mq k' = []" "mq_room mq k' = mq_room mq k"
    using wf' wf(2) q'(3-5) by (simp_all add: mq_ok_def messages_def mq_room_def mq' mq_placed_def mq_bytes_def)
  ultimately show ?thesis
    using k'(2) k1(4,5) sel by (intro exI [of _ k']) (simp add: k2_def)
qed

lemma rt_mq_reset_witness:
  "\<exists>k'. rt_mq_control 0x2600 RT_IPC_CMD_RESET 0 demo_queue = Some (RT_EOK, k') \<and> messages 0x2600 k' = []"
proof -
  have it: "in_thread 0xfffffffe main_t idle_t demo_queue" by (simp add: demo_queue_def demo_in_thread)
  have "mq_ok 0x2600 demo_queue" using demo_queue_ready by (simp add: mq_ready_def)
  from rt_mq_reset [OF it _ this, of 0] show ?thesis by auto
qed

text \<open>\<open>rt_mq_init\<close> links a pool that lies in memory into the free list of an empty queue: the
  loop links every node once, and as many messages fit as the pool has whole nodes.\<close>

theorem rt_mq_init_links:
  assumes "mq \<noteq> 0" "0 < RT_ALIGN msgsize 4" "RT_ALIGN msgsize 4 < 2 ^ 16"
    and "unat pool_size div (unat (RT_ALIGN msgsize 4) + 4) < 2 ^ 16" "unat pool + unat pool_size \<le> 2 ^ 32"
  shows "\<exists>k'. rt_mq_init mq name pool msgsize pool_size flag k = Some (RT_EOK, k') \<and>
    mq_ok mq k' \<and> messages mq k' = [] \<and>
    mq_room mq k' = unat pool_size div (unat (RT_ALIGN msgsize 4) + 4) \<and> tlists k' (Suspend_list mq) = []"
proof -
  define ms where "ms = RT_ALIGN msgsize 4"
  obtain k' where k': "rt_mq_init mq name pool msgsize pool_size flag k = Some (RT_EOK, k')"
    using assms(1) by (simp add: rt_mq_init_def)
  have m: "unat ms < 2 ^ 16" "0 < unat ms"
    using assms(2,3) by (auto simp: word_less_nat_alt ms_def [symmetric])
  have u: "unat (ucast ms :: u16) = unat ms" using m by (simp add: unsigned_ucast_eq unsigned_take_bit_eq take_bit_nat_eq_self)
  have uu: "ucast (ucast ms :: u16) = ms"
  proof -
    have "unat (ucast (ucast ms :: u16) :: u32) = unat ms"
      using m u by (simp add: unsigned_ucast_eq unsigned_take_bit_eq take_bit_nat_eq_self)
    then show ?thesis by (simp add: word_unat_eq_iff)
  qed
  have s: "unat (ms + 4) = unat ms + 4" using m by (simp add: unat_word_ariths)
  define n where "n = unat pool_size div (unat ms + 4)"
  have n: "n < 2 ^ 16" using assms(4) by (simp add: n_def ms_def)
  have un: "unat (ucast (pool_size div (ms + 4)) :: u16) = n"
    using n s by (simp add: unsigned_ucast_eq unsigned_take_bit_eq take_bit_nat_eq_self unat_div n_def)
  have q: "\<exists>q0. mqueue k' mq = mq_init_lists q0 \<and> mq_pool q0 = pool \<and> msg_size q0 = ucast ms \<and>
      max_msgs q0 = ucast (pool_size div (ms + 4))"
    using k' assms(1) uu by (auto simp: rt_mq_init_def ms_def [symmetric])
  then obtain q0 where q0: "mqueue k' mq = mq_init_lists q0" "mq_pool q0 = pool" "msg_size q0 = ucast ms"
    "max_msgs q0 = ucast (pool_size div (ms + 4))" by blast
  have "n * (unat ms + 4) \<le> unat pool_size" by (simp add: n_def)
  then have pl: "mq_placed q0"
    using m assms(5) q0(2-4) u un by (simp add: mq_placed_def mq_bytes_def word_less_nat_alt)
  have same: "mq_pool (mq_init_lists q0) = mq_pool q0" "msg_size (mq_init_lists q0) = msg_size q0"
    "max_msgs (mq_init_lists q0) = max_msgs q0"
    by (simp_all add: mq_init_lists_def Let_def mq_free_loop_keeps)
  have "mq_wf (mqueue k' mq)" "mq_used (mqueue k' mq) = []" using mq_init_lists_wf [OF pl] q0(1) by auto
  moreover have "mq_placed (mqueue k' mq)" using pl unfolding mq_placed_def mq_bytes_def q0(1) same .
  moreover have "mq_room mq k' = n" unfolding mq_room_def q0(1) same q0(4) un ..
  moreover have "tlists k' (Suspend_list mq) = []"
    using k' assms(1) by (auto simp: rt_mq_init_def rt_ipc_object_init_def Let_def)
  ultimately show ?thesis
    using k' by (intro exI [of _ k']) (simp add: mq_ok_def messages_def n_def ms_def)
qed

lemma rt_mq_init_links_witness:
  "\<exists>k'. rt_mq_init 0x2600 (cstr_of ''mq'') 0x20030000 5 40 0 demo = Some (RT_EOK, k') \<and>
    mq_room 0x2600 k' = 3"
proof -
  have a: "RT_ALIGN 5 4 = 8" by (simp add: RT_ALIGN_def)
  show ?thesis
    using rt_mq_init_links [of "0x2600" 5 40 "0x20030000" "cstr_of ''mq''" 0 demo] a by auto
qed

end
