(* ===== verification/Mempool.thy ===== *)
theory Mempool
  imports Mailbox Pool Clock
begin

text \<open>
  Memory pools, \<open>src/mempool.c\<close>: blocks of one size, the free ones linked through the word before
  the block, which holds the address of the pool while the block is in use. Threads that wait for
  a block are woken last come, first served.
\<close>

subsection \<open>Operations\<close>

text \<open>The word before a block, read as a pointer.\<close>

definition link_value :: "mp_link \<Rightarrow> addr option" where
  "link_value l = (case l of Free_block n \<Rightarrow> n | Owned_by p \<Rightarrow> Some p)"

definition set_link :: "addr \<Rightarrow> mp_link \<Rightarrow> kernel \<Rightarrow> kernel" where
  "set_link a l k = k\<lparr>mp_links := (mp_links k)(a := l)\<rparr>"

text \<open>The loop over \<open>offset\<close> that links the blocks, \<open>n\<close> of them left.\<close>

fun mp_link_loop :: "addr \<Rightarrow> u32 \<Rightarrow> u32 \<Rightarrow> nat \<Rightarrow> kernel \<Rightarrow> u32 \<times> kernel" where
  "mp_link_loop block_ptr step offset 0 k = (offset, k)"
| "mp_link_loop block_ptr step offset (Suc n) k =
     mp_link_loop block_ptr step (offset + 1) n
       (set_link (block_ptr + offset * step) (Free_block (Some (block_ptr + (offset + 1) * step))) k)"

definition mp_init_blocks :: "addr \<Rightarrow> kernel \<Rightarrow> kernel" where
  "mp_init_blocks mp k =
     (let k = upd_mp mp (\<lambda>p. p\<lparr>block_free_count := block_total_count p\<rparr>) k;
          k = k\<lparr>tlists := (tlists k)(Suspend_list mp := [])\<rparr>;
          k = upd_mp mp (\<lambda>p. p\<lparr>suspend_thread_count := 0\<rparr>) k;
          block_ptr = start_address (mempool k mp);
          step = block_size (mempool k mp) + 4;
          (offset, k) = mp_link_loop block_ptr step 0 (unat (block_total_count (mempool k mp))) k;
          k = set_link (block_ptr + (offset - 1) * step) (Free_block None) k
      in upd_mp mp (\<lambda>p. p\<lparr>block_list := Some block_ptr\<rparr>) k)"

definition rt_mp_init :: "addr \<Rightarrow> cstr \<Rightarrow> addr \<Rightarrow> u32 \<Rightarrow> u32 \<Rightarrow> kernel \<Rightarrow> (rt_err \<times> kernel) option" where
  "rt_mp_init mp name start sz bsize k = do {
     rt_assert (mp \<noteq> 0);
     let k = rt_object_init (Obj mp) RT_Object_Class_MemPool name k;
     let k = upd_mp mp (\<lambda>p. p\<lparr>start_address := start, mp_size := RT_ALIGN_DOWN sz RT_ALIGN_SIZE,
               block_size := RT_ALIGN bsize RT_ALIGN_SIZE\<rparr>) k;
     let k = upd_mp mp (\<lambda>p. p\<lparr>block_total_count := mp_size p div (block_size p + 4)\<rparr>) k;
     Some (RT_EOK, mp_init_blocks mp k)
   }"

text \<open>The loop of \<open>rt_mp_detach\<close> and \<open>rt_mp_delete\<close> that wakes the waiting threads.\<close>

partial_function (option) mp_resume_all :: "addr \<Rightarrow> kernel \<Rightarrow> kernel option" where
  "mp_resume_all mp k =
     (case tlists k (Suspend_list mp) of
        [] \<Rightarrow> Some k
      | t # _ \<Rightarrow> do {
          (_, k) \<leftarrow> rt_thread_resume t (upd_thread t (\<lambda>th. th\<lparr>t_error := - RT_ERROR\<rparr>) k);
          mp_resume_all mp (upd_mp mp (\<lambda>p. p\<lparr>suspend_thread_count := suspend_thread_count p - 1\<rparr>) k)
        })"

definition rt_mp_detach :: "addr \<Rightarrow> kernel \<Rightarrow> (rt_err \<times> kernel) option" where
  "rt_mp_detach mp k = do {
     rt_assert (mp \<noteq> 0);
     k \<leftarrow> mp_resume_all mp k;
     k \<leftarrow> rt_object_detach (Obj mp) k;
     Some (RT_EOK, k)
   }"

definition rt_mp_create :: "cstr \<Rightarrow> u32 \<Rightarrow> u32 \<Rightarrow> kernel \<Rightarrow> (addr option \<times> kernel) option" where
  "rt_mp_create name block_count bsize k = do {
     RT_DEBUG_NOT_IN_INTERRUPT k;
     (a, k) \<leftarrow> rt_object_allocate RT_Object_Class_MemPool name k;
     (case a of
        None \<Rightarrow> Some (None, k)
      | Some mp \<Rightarrow> do {
          let bsize = RT_ALIGN bsize RT_ALIGN_SIZE;
          let k = upd_mp mp (\<lambda>p. p\<lparr>block_size := bsize, mp_size := (bsize + 4) * block_count\<rparr>) k;
          (s, k) \<leftarrow> RT_KERNEL_MALLOC ((bsize + 4) * block_count) k;
          let k = upd_mp mp (\<lambda>p. p\<lparr>start_address := (case s of None \<Rightarrow> 0 | Some x \<Rightarrow> x)\<rparr>) k;
          (case s of
             None \<Rightarrow> do { k \<leftarrow> rt_object_delete mp k; Some (None, k) }
           | Some _ \<Rightarrow>
               let k = upd_mp mp (\<lambda>p. p\<lparr>block_total_count := block_count\<rparr>) k
               in Some (Some mp, mp_init_blocks mp k))
        })
   }"

definition rt_mp_delete :: "addr \<Rightarrow> kernel \<Rightarrow> (rt_err \<times> kernel) option" where
  "rt_mp_delete mp k = do {
     RT_DEBUG_NOT_IN_INTERRUPT k;
     rt_assert (mp \<noteq> 0);
     k \<leftarrow> mp_resume_all mp k;
     k \<leftarrow> RT_KERNEL_FREE (start_address (mempool k mp)) k;
     k \<leftarrow> rt_object_delete mp k;
     Some (RT_EOK, k)
   }"

text \<open>Taking the first free block.\<close>

definition mp_take :: "addr \<Rightarrow> kernel \<Rightarrow> (addr \<times> kernel) option" where
  "mp_take mp k = do {
     let k = upd_mp mp (\<lambda>p. p\<lparr>block_free_count := block_free_count p - 1\<rparr>) k;
     b \<leftarrow> block_list (mempool k mp);
     let k = upd_mp mp (\<lambda>p. p\<lparr>block_list := link_value (mp_links k b)\<rparr>) k;
     Some (b + 4, set_link b (Owned_by mp) k)
   }"

text \<open>
  \<open>rt_mp_alloc\<close>: the test of its loop, and the wait. A thread that runs again has lost if its
  error number is set.
\<close>

definition mp_wait :: "addr \<Rightarrow> addr \<Rightarrow> s32 \<Rightarrow> kernel \<Rightarrow> kernel option" where
  "mp_wait mp t time k = do {
     let k = upd_thread t (\<lambda>th. th\<lparr>t_error := RT_EOK\<rparr>) k;
     (_, k) \<leftarrow> rt_thread_suspend t k;
     let k = k\<lparr>tlists := lists_insert_first (Suspend_list mp) t (tlists k)\<rparr>;
     let k = upd_mp mp (\<lambda>p. p\<lparr>suspend_thread_count := suspend_thread_count p + 1\<rparr>) k;
     k \<leftarrow> (if 0 <s time then do {
             (_, _, k) \<leftarrow> rt_timer_control (Thread_timer t) 0 time k;
             (_, k) \<leftarrow> rt_timer_start (Thread_timer t) k;
             Some k
           } else Some k);
     rt_schedule k
   }"

partial_function (option) mp_alloc_loop ::
  "addr \<Rightarrow> s32 \<Rightarrow> u32 \<Rightarrow> kernel \<Rightarrow> ((addr option, addr \<times> s32 \<times> u32) outcome \<times> kernel) option" where
  "mp_alloc_loop mp time before_sleep k =
     (if block_free_count (mempool k mp) = 0 then
        (if time = 0 then Some (Done None, rt_set_errno (- RT_ETIMEOUT) k)
         else do {
           RT_DEBUG_NOT_IN_INTERRUPT k;
           t \<leftarrow> rt_thread_self k;
           let before_sleep = (if 0 <s time then rt_tick_get k else before_sleep);
           k \<leftarrow> mp_wait mp t time k;
           (if current k \<noteq> Some t then Some (Blocked (t, time, before_sleep), k)
            else if t_error (thread k t) \<noteq> RT_EOK then Some (Done None, k)
            else mp_alloc_loop mp (rest_of time before_sleep k) before_sleep k)
         })
      else do {
        (b, k) \<leftarrow> mp_take mp k;
        Some (Done (Some b), k)
      })"

definition rt_mp_alloc ::
  "addr \<Rightarrow> s32 \<Rightarrow> kernel \<Rightarrow> ((addr option, addr \<times> s32 \<times> u32) outcome \<times> kernel) option" where
  "rt_mp_alloc mp time k = mp_alloc_loop mp time 0 k"

definition rt_mp_alloc_wake ::
  "addr \<Rightarrow> addr \<times> s32 \<times> u32 \<Rightarrow> kernel \<Rightarrow>
    ((addr option, addr \<times> s32 \<times> u32) outcome \<times> kernel) option" where
  "rt_mp_alloc_wake mp l k =
     (case l of (t, time, before_sleep) \<Rightarrow>
        if t_error (thread k t) \<noteq> RT_EOK then Some (Done None, k)
        else mp_alloc_loop mp (rest_of time before_sleep k) before_sleep k)"

text \<open>
  With \<open>suspend_thread_count\<close> positive and no thread in the list, the code takes the anchor of the
  list for the node of a thread and writes to what lies around it: there is no result then.
\<close>

definition rt_mp_free :: "addr \<Rightarrow> kernel \<Rightarrow> kernel option" where
  "rt_mp_free block k = do {
     let block_ptr = block - 4;
     mp \<leftarrow> link_value (mp_links k block_ptr);
     let k = upd_mp mp (\<lambda>p. p\<lparr>block_free_count := block_free_count p + 1\<rparr>) k;
     let k = set_link block_ptr (Free_block (block_list (mempool k mp))) k;
     let k = upd_mp mp (\<lambda>p. p\<lparr>block_list := Some block_ptr\<rparr>) k;
     (if 0 < suspend_thread_count (mempool k mp) then do {
        t \<leftarrow> lists_first (Suspend_list mp) (tlists k);
        let k = upd_thread t (\<lambda>th. th\<lparr>t_error := RT_EOK\<rparr>) k;
        (_, k) \<leftarrow> rt_thread_resume t k;
        rt_schedule (upd_mp mp (\<lambda>p. p\<lparr>suspend_thread_count := suspend_thread_count p - 1\<rparr>) k)
      } else Some k)
   }"

subsection \<open>The free blocks\<close>

definition mp_next :: "kernel \<Rightarrow> addr \<Rightarrow> addr option" where
  "mp_next k a = link_value (mp_links k a)"

definition mp_nodes :: "addr \<Rightarrow> kernel \<Rightarrow> addr list" where
  "mp_nodes mp k = (let p = mempool k mp in
     pool_nodes (start_address p) (unat (block_size p)) (unat (block_total_count p)))"

definition mp_unused :: "addr \<Rightarrow> kernel \<Rightarrow> addr list" where
  "mp_unused mp k = walk (unat (block_free_count (mempool k mp))) (mp_next k) (block_list (mempool k mp))"

definition mp_placed :: "rt_mempool \<Rightarrow> bool" where
  "mp_placed p = pool_placed (start_address p) (unat (block_size p)) (unat (block_total_count p))"

text \<open>
  The free blocks are linked from \<open>block_list\<close> on and counted; every other block is marked with
  its pool.
\<close>

definition mp_split :: "addr \<Rightarrow> kernel \<Rightarrow> addr list \<Rightarrow> bool" where
  "mp_split mp k fs =
     (mp_placed (mempool k mp) \<and> node_chain (mp_next k) (block_list (mempool k mp)) fs \<and> distinct fs \<and>
      set fs \<subseteq> set (mp_nodes mp k) \<and> unat (block_free_count (mempool k mp)) = length fs \<and>
      (\<forall>b \<in> set (mp_nodes mp k) - set fs. mp_links k b = Owned_by mp))"

definition mp_wf :: "addr \<Rightarrow> kernel \<Rightarrow> bool" where
  "mp_wf mp k = mp_split mp k (mp_unused mp k)"

lemma mp_splitD:
  assumes "mp_split mp k fs"
  shows "mp_placed (mempool k mp)" "node_chain (mp_next k) (block_list (mempool k mp)) fs" "distinct fs"
    "set fs \<subseteq> set (mp_nodes mp k)" "unat (block_free_count (mempool k mp)) = length fs"
    "b \<in> set (mp_nodes mp k) \<Longrightarrow> b \<notin> set fs \<Longrightarrow> mp_links k b = Owned_by mp"
  using assms by (simp_all add: mp_split_def)

lemma mp_wfI:
  assumes "mp_split mp k fs"
  shows "mp_wf mp k \<and> mp_unused mp k = fs"
  using assms walk_chain [OF mp_splitD(2) [OF assms], of "length fs"] mp_splitD(5) [OF assms]
  by (simp add: mp_wf_def mp_unused_def)

text \<open>Blocks in use.\<close>

definition mp_used :: "addr \<Rightarrow> kernel \<Rightarrow> addr set" where
  "mp_used mp k = set (mp_nodes mp k) - set (mp_unused mp k)"

lemma mp_cong:
  assumes "mempool k' mp = (mempool k mp)\<lparr>suspend_thread_count := c\<rparr>" "mp_links k' = mp_links k"
  shows "mp_wf mp k' = mp_wf mp k" "mp_unused mp k' = mp_unused mp k" "mp_nodes mp k' = mp_nodes mp k"
    "mp_used mp k' = mp_used mp k"
  using assms
  by (simp_all add: mp_wf_def mp_split_def mp_unused_def mp_nodes_def mp_used_def mp_next_def [abs_def]
      mp_placed_def Let_def)

text \<open>Taking the first free block.\<close>

lemma mp_next_set: "mp_next (set_link a l k) = (mp_next k)(a := link_value l)"
  by (simp add: fun_eq_iff mp_next_def set_link_def)

lemma mp_take_ok:
  assumes wf: "mp_wf mp k" and f: "mp_unused mp k = b # bs"
  defines "k1 \<equiv> set_link b (Owned_by mp) (upd_mp mp (\<lambda>p. p\<lparr>block_free_count := block_free_count p - 1, block_list := mp_next k b\<rparr>) k)"
  shows "mp_take mp k = Some (b + 4, k1)" "mp_wf mp k1" "mp_unused mp k1 = bs" "mp_nodes mp k1 = mp_nodes mp k"
    "b \<in> set (mp_nodes mp k)" "b \<notin> set bs"
proof -
  have sp: "mp_split mp k (b # bs)" using wf f by (simp add: mp_wf_def)
  note d = mp_splitD [OF sp]
  have hd: "block_list (mempool k mp) = Some b" "node_chain (mp_next k) (mp_next k b) bs" using d(2) by simp_all
  show "mp_take mp k = Some (b + 4, k1)"
    using hd(1) by (simp add: mp_take_def k1_def mp_next_def upd_mp_def)
  show nodes: "mp_nodes mp k1 = mp_nodes mp k" by (simp add: mp_nodes_def k1_def set_link_def Let_def)
  show bin: "b \<in> set (mp_nodes mp k)" "b \<notin> set bs" using d(3,4) by auto
  have ne: "block_free_count (mempool k mp) \<noteq> 0" using d(5) by auto
  have cnt: "unat (block_free_count (mempool k mp) - 1) = length bs"
    using d(5) ne by (simp add: unat_minus_one)
  have mp1: "mempool k1 mp = (mempool k mp)\<lparr>block_free_count := block_free_count (mempool k mp) - 1, block_list := mp_next k b\<rparr>"
    "mp_links k1 = (mp_links k)(b := Owned_by mp)"
    by (simp_all add: k1_def set_link_def)
  have nx: "mp_next k1 = (mp_next k)(b := Some mp)"
    by (simp add: fun_eq_iff mp_next_def mp1(2) link_value_def)
  have "mp_split mp k1 bs"
    using d hd(2) bin cnt
    by (simp add: mp_split_def nodes mp1 nx mp_placed_def)
  from mp_wfI [OF this] show "mp_wf mp k1" "mp_unused mp k1 = bs" by auto
qed

text \<open>Putting a block back.\<close>

lemma mp_give_ok:
  assumes wf: "mp_wf mp k" and b: "b \<in> mp_used mp k"
  defines "k1 \<equiv> upd_mp mp (\<lambda>p. p\<lparr>block_list := Some b\<rparr>)
    (set_link b (Free_block (block_list (mempool k mp)))
      (upd_mp mp (\<lambda>p. p\<lparr>block_free_count := block_free_count p + 1\<rparr>) k))"
  shows "mp_links k b = Owned_by mp" "mp_wf mp k1" "mp_unused mp k1 = b # mp_unused mp k"
    "mp_nodes mp k1 = mp_nodes mp k"
proof -
  define fs where "fs = mp_unused mp k"
  have sp: "mp_split mp k fs" using wf by (simp add: mp_wf_def fs_def)
  note d = mp_splitD [OF sp]
  have bin: "b \<in> set (mp_nodes mp k)" "b \<notin> set fs" using b by (simp_all add: mp_used_def fs_def)
  show "mp_links k b = Owned_by mp" by (rule d(6) [OF bin])
  show nodes: "mp_nodes mp k1 = mp_nodes mp k" by (simp add: mp_nodes_def k1_def set_link_def Let_def)
  have "set (b # fs) \<subseteq> set (mp_nodes mp k)" "distinct (b # fs)" using d(3,4) bin by auto
  then have "length (b # fs) \<le> length (mp_nodes mp k)"
    by (metis List.finite_set card_length card_mono distinct_card order_trans)
  then have "length (b # fs) \<le> unat (block_total_count (mempool k mp))"
    by (simp add: mp_nodes_def Let_def pool_nodes_def)
  then have "Suc (length fs) < 2 ^ 32"
    using unsigned_less [of "block_total_count (mempool k mp)", where ?'a = nat] by simp
  then have cnt: "unat (block_free_count (mempool k mp) + 1) = Suc (length fs)"
    using d(5) by (simp add: unat_word_ariths)
  have mp1: "mempool k1 mp = (mempool k mp)\<lparr>block_free_count := block_free_count (mempool k mp) + 1, block_list := Some b\<rparr>"
    "mp_links k1 = (mp_links k)(b := Free_block (block_list (mempool k mp)))"
    by (simp_all add: k1_def set_link_def)
  have nx: "mp_next k1 = (mp_next k)(b := block_list (mempool k mp))"
    by (simp add: fun_eq_iff mp_next_def mp1(2) link_value_def)
  have "mp_split mp k1 (b # fs)"
    using d bin cnt by (simp add: mp_split_def nodes mp1 nx mp_placed_def)
  from mp_wfI [OF this] show "mp_wf mp k1" "mp_unused mp k1 = b # mp_unused mp k" by (auto simp: fs_def)
qed

subsection \<open>Waiting\<close>

text \<open>Parts of the state the kernel invariant does not read.\<close>

lemma mp_inv [simp]:
  "kernel_inv b (set_link a l k) = kernel_inv b k" "tlists (set_link a l k) = tlists k"
  "thread (set_link a l k) = thread k" "current (set_link a l k) = current k"
  "lock_nest (set_link a l k) = lock_nest k" "irq_nest (set_link a l k) = irq_nest k"
  "mempool (set_link a l k) = mempool k" "tick (set_link a l k) = tick k"
proof -
  show "kernel_inv b (set_link a l k) = kernel_inv b k"
    by (rule kernel_inv_cong) (simp_all add: set_link_def timer_flag_def)
qed (simp_all add: set_link_def)

text \<open>A thread that waits for a block goes in front of the others.\<close>

lemma mp_wait_ok:
  assumes it: "in_thread b t r k" and n: "time \<noteq> 0x7fffffff"
  obtains k' where "mp_wait mp t time k = Some k'" "kernel_inv b k'" "current k' \<noteq> None" "current k' \<noteq> Some t"
    "thread k' = (thread k)(t := (thread k t)\<lparr>t_error := RT_EOK, stat := RT_THREAD_SUSPEND\<rparr>)"
    "tlists k' = (lists_remove t (tlists k))(Suspend_list mp := t # tlists k (Suspend_list mp))"
    "Thread_timer t \<in> set (timer_list k') \<longleftrightarrow> 0 <s time"
    "mempool k' = (mempool k)(mp := (mempool k mp)\<lparr>suspend_thread_count := suspend_thread_count (mempool k mp) + 1\<rparr>)"
    "mp_links k' = mp_links k" "tick k' = tick k" "lock_nest k' = 0"
proof -
  note it' = in_threadD [OF it]
  define k0 where "k0 = upd_thread t (\<lambda>th. th\<lparr>t_error := RT_EOK\<rparr>) k"
  have inv0: "kernel_inv b k0" using it'(1) by (simp add: k0_def)
  have st0: "stat (thread k0 t) = RT_THREAD_READY" using it'(3) by (simp add: k0_def)
  obtain k1 where k1: "rt_thread_suspend t k0 = Some (0, k1)" "kernel_inv b k1" "thread_frame k0 k1"
    "thread k1 = (thread k0)(t := (thread k0 t)\<lparr>stat := RT_THREAD_SUSPEND\<rparr>)"
    "tlists k1 = lists_remove t (tlists k0)" "timer_list k1 = removeAll (Thread_timer t) (timer_list k0)"
    using suspend_ok [OF inv0 st0] by metis
  have w: "waiting (Suspend_list mp)" by simp
  have tn: "t \<notin> set (tlists k (Suspend_list mp))" by (rule ready_not_waiting [OF kernel_invD(1) [OF it'(1)] w it'(3)])
  have same: "tlists k1 (Suspend_list mp) = tlists k (Suspend_list mp)"
    using k1(5) tn by (simp add: k0_def lists_remove_def removeAll_id)
  define k2 where "k2 = k1\<lparr>tlists := lists_insert_first (Suspend_list mp) t (tlists k1)\<rparr>"
  have inv2: "kernel_inv b k2"
    unfolding k2_def lists_insert_first_def
  proof (rule link_waiting_inv [OF k1(2) w])
    show "stat (thread k1 t) = RT_THREAD_SUSPEND" using k1(4) by simp
    show "unlinked t (tlists k1)" using k1(5) by (simp add: unlinked_remove)
    show "set (t # tlists k1 (Suspend_list mp)) = insert t (set (tlists k1 (Suspend_list mp)))" by simp
    have "distinct (tlists k (Suspend_list mp))"
      using sched_wfD(1) [OF kernel_invD(1) [OF it'(1)]] by (simp add: wf_lists_def)
    then show "distinct (t # tlists k1 (Suspend_list mp))" using tn by (simp add: same)
  qed
  define k3 where "k3 = upd_mp mp (\<lambda>p. p\<lparr>suspend_thread_count := suspend_thread_count p + 1\<rparr>) k2"
  have inv3: "kernel_inv b k3" using inv2 by (simp add: k3_def)
  have f3: "thread k3 = thread k1" "timer_list k3 = timer_list k1"
    "tlists k3 = (tlists k1)(Suspend_list mp := t # tlists k (Suspend_list mp))"
    by (simp_all add: k3_def k2_def lists_insert_first_def same)
  have st3: "stat (thread k3 t) = RT_THREAD_SUSPEND" and nt3: "Thread_timer t \<notin> set (timer_list k3)"
    using k1(4,6) f3 by simp_all
  obtain k4 where k4: "start_limit t time k3 = Some k4" "kernel_inv b k4" "timer_frame k3 k4"
    "Thread_timer t \<in> set (timer_list k4) \<longleftrightarrow> 0 <s time"
    "0 <s time \<longrightarrow> timeout_tick (timer k4 (Thread_timer t)) = tick k3 + time"
    by (rule start_limit_ok [OF inv3 st3 n nt3])
  note tf = timer_frameD [OF k4(3)] and ff = thread_frameD [OF k1(3)]
  have rr: "stat (thread k4 r) = RT_THREAD_READY"
    using it'(6,7) k1(4) tf(1) f3(1) by (simp add: k0_def)
  have c4: "current k4 \<noteq> None" "lock_nest k4 = 0"
    using it' tf(4,6) ff(1,3) by (simp_all add: k3_def k2_def k0_def)
  obtain k' s where k': "rt_schedule k4 = Some k'" "kernel_inv b k'" "current k' = Some s"
    "highest k' s" "stat (thread k' s) = RT_THREAD_READY" "highest k4 s"
    by (rule schedule_switches [OF k4(2) rr c4])
  note sel = rt_schedule_sel [OF k'(1)]
  have "mp_wait mp t time k = Some k'"
    using k1(1) k4(1) k'(1)
    by (simp add: mp_wait_def start_limit_unfold k0_def [symmetric] k2_def [symmetric] k3_def [symmetric])
  moreover have "s \<noteq> t" using k'(5) sel(1) tf(1) st3 by auto
  moreover have "thread k' = (thread k)(t := (thread k t)\<lparr>t_error := RT_EOK, stat := RT_THREAD_SUSPEND\<rparr>)"
    unfolding sel tf(1) f3(1) k1(4) by (simp add: k0_def fun_eq_iff)
  moreover have "tlists k' = (lists_remove t (tlists k))(Suspend_list mp := t # tlists k (Suspend_list mp))"
    unfolding sel tf(2) f3(3) k1(5) by (simp add: k0_def)
  moreover have "mempool k' = (mempool k)(mp := (mempool k mp)\<lparr>suspend_thread_count := suspend_thread_count (mempool k mp) + 1\<rparr>)"
  proof -
    have "mempool k1 = mempool k" using call_frameD(11) [OF call_frame_thread [OF k1(3)]] by (simp add: k0_def)
    then show ?thesis unfolding sel tf(16) by (simp add: k3_def k2_def upd_mp_def fun_eq_iff)
  qed
  moreover have "mp_links k' = mp_links k" "tick k' = tick k" "lock_nest k' = 0"
    using call_frameD(1,2,12) [OF call_frame_thread [OF k1(3)]] it'(5)
    by (simp_all add: sel tf k3_def k2_def k0_def upd_mp_def)
  ultimately show ?thesis using that [of k'] k'(2,3) sel k4(4) by simp
qed

text \<open>A block given back wakes the first of the waiting threads, if any is counted.\<close>

lemma mp_free_ok:
  assumes mc: "may_call b k" and wf: "mp_wf mp k" and x: "x \<in> mp_used mp k"
    and cnt: "unat (suspend_thread_count (mempool k mp)) = length (tlists k (Suspend_list mp))"
  obtains k' where "rt_mp_free (x + 4) k = Some k'" "may_call b k'" "mp_wf mp k'"
    "mp_unused mp k' = x # mp_unused mp k" "mp_nodes mp k' = mp_nodes mp k"
    "tlists k' (Suspend_list mp) = tl (tlists k (Suspend_list mp))"
    "unat (suspend_thread_count (mempool k' mp)) = length (tl (tlists k (Suspend_list mp)))"
    "tlists k (Suspend_list mp) \<noteq> [] \<longrightarrow> thread k' (hd (tlists k (Suspend_list mp))) =
      (thread k (hd (tlists k (Suspend_list mp))))\<lparr>t_error := RT_EOK, stat := RT_THREAD_READY\<rparr>"
proof -
  define k1 where "k1 = upd_mp mp (\<lambda>p. p\<lparr>block_list := Some x\<rparr>)
    (set_link x (Free_block (block_list (mempool k mp)))
      (upd_mp mp (\<lambda>p. p\<lparr>block_free_count := block_free_count p + 1\<rparr>) k))"
  note g = mp_give_ok [OF wf x, folded k1_def]
  have f1: "tlists k1 = tlists k" "thread k1 = thread k" "may_call b k1"
    "suspend_thread_count (mempool k1 mp) = suspend_thread_count (mempool k mp)"
    using mc by (simp_all add: k1_def may_call_def)
  have lnk: "link_value (mp_links k (x + 4 - 4)) = Some mp" using g(1) by (simp add: link_value_def)
  have free: "rt_mp_free (x + 4) k =
      (if 0 < suspend_thread_count (mempool k1 mp) then do {
        t \<leftarrow> lists_first (Suspend_list mp) (tlists k1);
        let k = upd_thread t (\<lambda>th. th\<lparr>t_error := RT_EOK\<rparr>) k1;
        (_, k) \<leftarrow> rt_thread_resume t k;
        rt_schedule (upd_mp mp (\<lambda>p. p\<lparr>suspend_thread_count := suspend_thread_count p - 1\<rparr>) k)
      } else Some k1)"
    using lnk by (simp add: rt_mp_free_def k1_def Let_def)
  show ?thesis
  proof (cases "tlists k (Suspend_list mp)")
    case Nil
    then have "suspend_thread_count (mempool k mp) = 0" using cnt by (simp add: unat_eq_zero)
    then have "rt_mp_free (x + 4) k = Some k1" using free f1(4) by simp
    then show ?thesis by (rule that [of k1]) (use f1(1,3,4) g(2-4) Nil cnt in simp_all)
  next
    case (Cons t ts)
    then have pos: "0 < suspend_thread_count (mempool k1 mp)"
      using cnt f1(4) by (simp add: word_less_nat_alt)
    define k2 where "k2 = upd_thread t (\<lambda>th. th\<lparr>t_error := RT_EOK\<rparr>) k1"
    have inv2: "kernel_inv b k2" using f1(3) by (simp add: k2_def may_call_def)
    have w: "waiting (Suspend_list mp)" by simp
    have q2: "tlists k2 (Suspend_list mp) = t # ts" using Cons f1(1) by (simp add: k2_def)
    obtain k3 where k3: "rt_ipc_list_resume (Suspend_list mp) k2 = Some k3" "kernel_inv b k3" "thread_frame k2 k3"
      "thread k3 = (thread k2)(t := (thread k2 t)\<lparr>stat := RT_THREAD_READY\<rparr>)"
      "tlists k3 = lists_insert_last (Ready (unat (current_priority (thread k2 t)))) t (lists_remove t (tlists k2))"
      "tlists k3 (Suspend_list mp) = ts"
      by (rule list_resume_ok [OF inv2 w q2])
    obtain e where e: "rt_thread_resume t k2 = Some (e, k3)"
      using k3(1) q2 by (auto simp: rt_ipc_list_resume_def lists_first_def bind_Some_conv split: prod.splits)
    define k4 where "k4 = upd_mp mp (\<lambda>p. p\<lparr>suspend_thread_count := suspend_thread_count p - 1\<rparr>) k3"
    have r4: "stat (thread k4 t) = RT_THREAD_READY" "kernel_inv b k4" "current k4 \<noteq> None" "lock_nest k4 = 0"
      using k3(2,4) thread_frameD(1,3) [OF k3(3)] f1(3) by (simp_all add: k4_def k2_def may_call_def)
    obtain k' y where k': "rt_schedule k4 = Some k'" "kernel_inv b k'" "current k' = Some y"
      "highest k' y" "stat (thread k' y) = RT_THREAD_READY" "highest k4 y"
      by (rule schedule_switches [OF r4(2,1,3,4)])
    note sel = rt_schedule_sel [OF k'(1)]
    have "rt_mp_free (x + 4) k = Some k'"
      using free pos q2 e k'(1) by (simp add: lists_first_def k2_def k4_def)
    moreover have mem: "mempool k' = (mempool k1)(mp := (mempool k1 mp)\<lparr>suspend_thread_count := suspend_thread_count (mempool k1 mp) - 1\<rparr>)"
      "mp_links k' = mp_links k1"
      using call_frameD(11,12) [OF call_frame_thread [OF k3(3)]]
      by (simp_all add: sel k4_def k2_def upd_mp_def fun_eq_iff)
    moreover have "mp_wf mp k' = mp_wf mp k1" "mp_unused mp k' = mp_unused mp k1" "mp_nodes mp k' = mp_nodes mp k1"
      using mem(1) by (simp_all add: mp_cong [OF _ mem(2), of mp "suspend_thread_count (mempool k1 mp) - 1"])
    moreover have "unat (suspend_thread_count (mempool k' mp)) = length ts"
      using mem(1) pos cnt Cons f1(4) by (simp add: unat_minus_one)
    moreover have "thread k' t = (thread k t)\<lparr>t_error := RT_EOK, stat := RT_THREAD_READY\<rparr>"
      unfolding sel k4_def upd_mp_def using k3(4) f1(2) by (simp add: k2_def)
    moreover have "tlists k' (Suspend_list mp) = ts" using k3(6) by (simp add: sel k4_def)
    moreover have "may_call b k'" using k'(2,3) r4(4) sel by (simp add: may_call_def)
    ultimately show ?thesis using that [of k'] g Cons by simp
  qed
qed

lemma mp_used_take:
  assumes "mp_wf mp k" "mp_unused mp k = x # xs" "mp_unused mp k' = xs" "mp_nodes mp k' = mp_nodes mp k"
  shows "mp_used mp k' = insert x (mp_used mp k)"
proof -
  have "mp_split mp k (x # xs)" using assms(1,2) by (simp add: mp_wf_def)
  from mp_splitD(3,4) [OF this] show ?thesis using assms(2-4) by (auto simp: mp_used_def)
qed

lemma mp_alloc_ok:
  assumes wf: "mp_wf mp k" and f: "mp_unused mp k = x # xs"
  obtains k' where "mp_alloc_loop mp time before k = Some (Done (Some (x + 4)), k')" "mp_wf mp k'"
    "mp_unused mp k' = xs" "mp_nodes mp k' = mp_nodes mp k" "mp_used mp k' = insert x (mp_used mp k)" "x \<notin> mp_used mp k"
    "\<forall>b. may_call b k' = may_call b k" "tlists k' = tlists k" "thread k' = thread k"
    "suspend_thread_count (mempool k' mp) = suspend_thread_count (mempool k mp)"
proof -
  note t = mp_take_ok [OF wf f]
  define k1 where "k1 = set_link x (Owned_by mp) (upd_mp mp (\<lambda>p. p\<lparr>block_free_count := block_free_count p - 1, block_list := mp_next k x\<rparr>) k)"
  note t = t [folded k1_def]
  have "mp_split mp k (x # xs)" using wf f by (simp add: mp_wf_def)
  then have ne: "block_free_count (mempool k mp) \<noteq> 0" using mp_splitD(5) by fastforce
  have a: "mp_alloc_loop mp time before k = Some (Done (Some (x + 4)), k1)"
    using ne t(1) by (subst mp_alloc_loop.simps) simp
  have u: "x \<notin> mp_used mp k" using f by (simp add: mp_used_def)
  have fr: "\<forall>b. may_call b k1 = may_call b k" "tlists k1 = tlists k" "thread k1 = thread k"
    "suspend_thread_count (mempool k1 mp) = suspend_thread_count (mempool k mp)"
    by (simp_all add: may_call_def k1_def)
  show ?thesis by (rule that [OF a t(2-4) mp_used_take [OF wf f t(3,4)] u fr])
qed

text \<open>Without a free block, a thread with a time limit waits, counted.\<close>

lemma mp_alloc_blocks:
  assumes it: "in_thread b t r k" and n: "time \<noteq> 0" "time \<noteq> 0x7fffffff" and e: "block_free_count (mempool k mp) = 0"
  obtains k' start where "rt_mp_alloc mp time k = Some (Blocked (t, time, start), k')" "mp_wait mp t time k = Some k'"
    "kernel_inv b k'" "current k' \<noteq> None"
    "thread k' = (thread k)(t := (thread k t)\<lparr>t_error := RT_EOK, stat := RT_THREAD_SUSPEND\<rparr>)"
    "tlists k' = (lists_remove t (tlists k))(Suspend_list mp := t # tlists k (Suspend_list mp))"
    "Thread_timer t \<in> set (timer_list k') \<longleftrightarrow> 0 <s time"
    "mempool k' = (mempool k)(mp := (mempool k mp)\<lparr>suspend_thread_count := suspend_thread_count (mempool k mp) + 1\<rparr>)"
    "mp_links k' = mp_links k" "lock_nest k' = 0"
proof -
  obtain k' where k': "mp_wait mp t time k = Some k'" "kernel_inv b k'" "current k' \<noteq> None" "current k' \<noteq> Some t"
    "thread k' = (thread k)(t := (thread k t)\<lparr>t_error := RT_EOK, stat := RT_THREAD_SUSPEND\<rparr>)"
    "tlists k' = (lists_remove t (tlists k))(Suspend_list mp := t # tlists k (Suspend_list mp))"
    "Thread_timer t \<in> set (timer_list k') \<longleftrightarrow> 0 <s time"
    "mempool k' = (mempool k)(mp := (mempool k mp)\<lparr>suspend_thread_count := suspend_thread_count (mempool k mp) + 1\<rparr>)"
    "mp_links k' = mp_links k" "tick k' = tick k" "lock_nest k' = 0"
    by (rule mp_wait_ok [OF it n(2)])
  have "rt_mp_alloc mp time k = Some (Blocked (t, time, if 0 <s time then rt_tick_get k else 0), k')"
    unfolding rt_mp_alloc_def using it n(1) e k'(1,4) by (subst mp_alloc_loop.simps) simp
  then show ?thesis using that [of _ k'] k' by simp
qed

subsection \<open>Properties\<close>

text \<open>C36. A block that \<open>rt_mp_alloc\<close> returns was free, lies apart from every block in use, and giving it
  back with \<open>rt_mp_free\<close> restores the free list.\<close>

theorem rt_mp_alloc_free:
  assumes "may_call b k" "mp_wf mp k" "mp_unused mp k \<noteq> []"
    and "tlists k (Suspend_list mp) = []" "suspend_thread_count (mempool k mp) = 0"
  shows "\<exists>x k1 k2. rt_mp_alloc mp time k = Some (Done (Some (x + 4)), k1) \<and> mp_wf mp k1 \<and>
    x \<in> set (mp_nodes mp k) \<and> x \<notin> mp_used mp k \<and> mp_used mp k1 = insert x (mp_used mp k) \<and>
    (\<forall>y \<in> mp_used mp k. ranges_apart (x + 4) (unat (block_size (mempool k mp))) (y + 4) (unat (block_size (mempool k mp)))) \<and>
    rt_mp_free (x + 4) k1 = Some k2 \<and> mp_wf mp k2 \<and> mp_unused mp k2 = mp_unused mp k \<and> mp_used mp k2 = mp_used mp k"
proof -
  obtain x xs where f: "mp_unused mp k = x # xs" using assms(3) by (cases "mp_unused mp k") auto
  have sp: "mp_split mp k (x # xs)" using assms(2) f by (simp add: mp_wf_def)
  obtain k1 where k1: "mp_alloc_loop mp time 0 k = Some (Done (Some (x + 4)), k1)" "mp_wf mp k1"
    "mp_unused mp k1 = xs" "mp_nodes mp k1 = mp_nodes mp k" "mp_used mp k1 = insert x (mp_used mp k)" "x \<notin> mp_used mp k"
    "\<forall>b. may_call b k1 = may_call b k" "tlists k1 = tlists k" "thread k1 = thread k"
    "suspend_thread_count (mempool k1 mp) = suspend_thread_count (mempool k mp)"
    by (rule mp_alloc_ok [OF assms(2) f])
  have mc1: "may_call b k1" using assms(1) k1(7) by simp
  have xu: "x \<in> mp_used mp k1" using k1(5) by simp
  have cnt: "unat (suspend_thread_count (mempool k1 mp)) = length (tlists k1 (Suspend_list mp))"
    using assms(4,5) k1(8,10) by simp
  obtain k2 where k2: "rt_mp_free (x + 4) k1 = Some k2" "may_call b k2" "mp_wf mp k2" "mp_unused mp k2 = x # mp_unused mp k1"
    "mp_nodes mp k2 = mp_nodes mp k1"
    by (rule mp_free_ok [OF mc1 k1(2) xu cnt])
  have xin: "x \<in> set (mp_nodes mp k)" using mp_splitD(4) [OF sp] by simp
  have pl: "mp_placed (mempool k mp)" by (rule mp_splitD(1) [OF sp])
  have "ranges_apart (x + 4) (unat (block_size (mempool k mp))) (y + 4) (unat (block_size (mempool k mp)))"
    if "y \<in> mp_used mp k" for y
  proof -
    have "y \<in> set (mp_nodes mp k)" "x \<noteq> y" using that k1(6) by (auto simp: mp_used_def)
    then show ?thesis
      using pool_nodes_apart [OF pl [unfolded mp_placed_def]] xin by (simp add: mp_nodes_def Let_def)
  qed
  moreover have "mp_used mp k2 = mp_used mp k" using k2(4,5) k1(3,4) f by (simp add: mp_used_def)
  ultimately show ?thesis
    using k1 k2 xin f by (intro exI [of _ x] exI [of _ k1] exI [of _ k2]) (simp add: rt_mp_alloc_def)
qed

text \<open>A pool of two free blocks of eight bytes.\<close>

definition demo_pool :: kernel where
  "demo_pool = set_link 0x2004000c (Free_block None) (set_link 0x20040000 (Free_block (Some 0x2004000c))
     (upd_mp 0x2700 (\<lambda>p. p\<lparr>mp_size := 24, block_size := 8, block_list := Some 0x20040000, block_total_count := 2,
       block_free_count := 2\<rparr>) demo))"

lemma demo_pool_wf: "mp_wf 0x2700 demo_pool \<and> mp_unused 0x2700 demo_pool = [0x20040000, 0x2004000c]"
proof -
  have p: "mempool demo_pool 0x2700 = (mempool demo 0x2700)\<lparr>mp_size := 24, block_size := 8, block_list := Some 0x20040000,
      block_total_count := 2, block_free_count := 2\<rparr>" "start_address (mempool demo 0x2700) = 0x20040000"
    by (simp add: demo_pool_def) (simp add: demo_def)
  have "mp_nodes 0x2700 demo_pool = [0x20040000, 0x2004000c]"
    by (simp add: mp_nodes_def p Let_def pool_nodes_def pool_node_def upt_rec)
  then have "mp_split 0x2700 demo_pool [0x20040000, 0x2004000c]"
    by (simp add: mp_split_def p mp_placed_def pool_placed_def) (simp add: mp_next_def demo_pool_def set_link_def link_value_def)
  then show ?thesis by (rule mp_wfI)
qed

lemma demo_pool_call: "may_call 0xfffffffe demo_pool" "suspend_thread_count (mempool demo_pool 0x2700) = 0"
  "tlists demo_pool = demo_lists" "in_thread 0xfffffffe main_t idle_t demo_pool"
  using demo_in_thread
  by (simp_all add: may_call_def demo_pool_def demo_inv in_thread_def) (simp_all add: demo_def)

lemma rt_mp_alloc_free_witness:
  "\<exists>x k1 k2. rt_mp_alloc 0x2700 10 demo_pool = Some (Done (Some (x + 4)), k1) \<and> rt_mp_free (x + 4) k1 = Some k2 \<and>
    mp_unused 0x2700 k2 = [0x20040000, 0x2004000c]"
  using rt_mp_alloc_free [OF demo_pool_call(1), of "0x2700" 10] demo_pool_wf demo_pool_call by auto

text \<open>C37. A block given back reaches a thread that waits for one: the thread suspended by
  \<open>rt_mp_alloc\<close> on an empty pool is made ready by \<open>rt_mp_free\<close>, and when it goes on it is given
  that block.\<close>

theorem rt_mp_free_hands_over:
  assumes "in_thread b t r k" "mp_wf mp k" "mp_unused mp k = []" "x \<in> mp_used mp k"
    and "tlists k (Suspend_list mp) = []" "suspend_thread_count (mempool k mp) = 0"
    and "time \<noteq> 0" "time \<noteq> 0x7fffffff"
  shows "\<exists>k1 start k2 k3. rt_mp_alloc mp time k = Some (Blocked (t, time, start), k1) \<and>
    stat (thread k1 t) = RT_THREAD_SUSPEND \<and> tlists k1 (Suspend_list mp) = [t] \<and>
    rt_mp_free (x + 4) k1 = Some k2 \<and> stat (thread k2 t) = RT_THREAD_READY \<and>
    rt_mp_alloc_wake mp (t, time, start) k2 = Some (Done (Some (x + 4)), k3) \<and>
    mp_wf mp k3 \<and> mp_used mp k3 = mp_used mp k \<and> kernel_inv b k3"
proof -
  have sp: "mp_split mp k []" using assms(2,3) by (simp add: mp_wf_def)
  have e: "block_free_count (mempool k mp) = 0" using mp_splitD(5) [OF sp] by (simp add: unat_eq_zero)
  obtain k1 start where k1: "rt_mp_alloc mp time k = Some (Blocked (t, time, start), k1)" "mp_wait mp t time k = Some k1"
    "kernel_inv b k1" "current k1 \<noteq> None"
    "thread k1 = (thread k)(t := (thread k t)\<lparr>t_error := RT_EOK, stat := RT_THREAD_SUSPEND\<rparr>)"
    "tlists k1 = (lists_remove t (tlists k))(Suspend_list mp := t # tlists k (Suspend_list mp))"
    "Thread_timer t \<in> set (timer_list k1) \<longleftrightarrow> 0 <s time"
    "mempool k1 = (mempool k)(mp := (mempool k mp)\<lparr>suspend_thread_count := suspend_thread_count (mempool k mp) + 1\<rparr>)"
    "mp_links k1 = mp_links k" "lock_nest k1 = 0"
    by (rule mp_alloc_blocks [OF assms(1,7,8) e])
  have mk1: "mempool k1 mp = (mempool k mp)\<lparr>suspend_thread_count := 1\<rparr>" using k1(8) assms(6) by simp
  note c1 = mp_cong [OF mk1 k1(9)]
  have mc1: "may_call b k1" using k1(3,4,10) by (simp add: may_call_def)
  have wf1: "mp_wf mp k1" and xu: "x \<in> mp_used mp k1" using c1 assms(2,4) by simp_all
  have cnt: "unat (suspend_thread_count (mempool k1 mp)) = length (tlists k1 (Suspend_list mp))"
    using k1(6) mk1 assms(5) by simp
  obtain k2 where k2: "rt_mp_free (x + 4) k1 = Some k2" "may_call b k2" "mp_wf mp k2"
    "mp_unused mp k2 = x # mp_unused mp k1" "mp_nodes mp k2 = mp_nodes mp k1"
    "tlists k2 (Suspend_list mp) = tl (tlists k1 (Suspend_list mp))"
    "unat (suspend_thread_count (mempool k2 mp)) = length (tl (tlists k1 (Suspend_list mp)))"
    "tlists k1 (Suspend_list mp) \<noteq> [] \<longrightarrow> thread k2 (hd (tlists k1 (Suspend_list mp))) =
      (thread k1 (hd (tlists k1 (Suspend_list mp))))\<lparr>t_error := RT_EOK, stat := RT_THREAD_READY\<rparr>"
    by (rule mp_free_ok [OF mc1 wf1 xu cnt])
  have q1: "tlists k1 (Suspend_list mp) = [t]" using k1(6) assms(5) by simp
  have th2: "thread k2 t = (thread k1 t)\<lparr>t_error := RT_EOK, stat := RT_THREAD_READY\<rparr>" using k2(8) q1 by simp
  have f2: "mp_unused mp k2 = x # []" using k2(4) c1(2) assms(3) by simp
  obtain k3 where k3: "mp_alloc_loop mp (rest_of time start k2) start k2 = Some (Done (Some (x + 4)), k3)" "mp_wf mp k3"
    "mp_unused mp k3 = []" "mp_nodes mp k3 = mp_nodes mp k2" "mp_used mp k3 = insert x (mp_used mp k2)" "x \<notin> mp_used mp k2"
    "\<forall>b. may_call b k3 = may_call b k2" "tlists k3 = tlists k2" "thread k3 = thread k2"
    "suspend_thread_count (mempool k3 mp) = suspend_thread_count (mempool k2 mp)"
    by (rule mp_alloc_ok [OF k2(3) f2])
  have "rt_mp_alloc_wake mp (t, time, start) k2 = Some (Done (Some (x + 4)), k3)"
    using k3(1) th2 by (simp add: rt_mp_alloc_wake_def)
  moreover have "mp_used mp k3 = mp_used mp k" using k3(3,4) k2(5) c1(3) assms(3) by (simp add: mp_used_def)
  moreover have "stat (thread k1 t) = RT_THREAD_SUSPEND" "stat (thread k2 t) = RT_THREAD_READY"
    using k1(5) th2 by simp_all
  moreover have "kernel_inv b k3"
  proof -
    have "may_call b k3" using k3(7) k2(2) by blast
    then show ?thesis by (simp add: may_call_def)
  qed
  ultimately show ?thesis
    using k1(1) k2(1) k3(2) q1 by blast
qed

text \<open>The same pool with both blocks in use.\<close>

definition demo_used :: kernel where
  "demo_used = set_link 0x2004000c (Owned_by 0x2700) (set_link 0x20040000 (Owned_by 0x2700)
     (upd_mp 0x2700 (\<lambda>p. p\<lparr>block_list := None, block_free_count := 0\<rparr>) demo_pool))"

lemma demo_used_wf: "mp_wf 0x2700 demo_used" "mp_unused 0x2700 demo_used = []" "0x2004000c \<in> mp_used 0x2700 demo_used"
  "suspend_thread_count (mempool demo_used 0x2700) = 0" "in_thread 0xfffffffe main_t idle_t demo_used"
  "tlists demo_used = demo_lists"
proof -
  have p: "mempool demo_used 0x2700 = (mempool demo 0x2700)\<lparr>mp_size := 24, block_size := 8, block_list := None,
      block_total_count := 2, block_free_count := 0\<rparr>" "start_address (mempool demo 0x2700) = 0x20040000"
    by (simp add: demo_used_def demo_pool_def) (simp add: demo_def)
  have nd: "mp_nodes 0x2700 demo_used = [0x20040000, 0x2004000c]"
    by (simp add: mp_nodes_def p Let_def pool_nodes_def pool_node_def upt_rec)
  have "mp_split 0x2700 demo_used []"
    by (simp add: mp_split_def p nd mp_placed_def pool_placed_def) (simp add: demo_used_def set_link_def)
  from mp_wfI [OF this]
  show w: "mp_wf 0x2700 demo_used" "mp_unused 0x2700 demo_used = []" by auto
  show "0x2004000c \<in> mp_used 0x2700 demo_used" using w nd by (simp add: mp_used_def)
  show "suspend_thread_count (mempool demo_used 0x2700) = 0" by (simp add: p) (simp add: demo_def)
  show "in_thread 0xfffffffe main_t idle_t demo_used" using demo_pool_call(4) by (simp add: in_thread_def demo_used_def)
  show "tlists demo_used = demo_lists" using demo_pool_call(3) by (simp add: demo_used_def)
qed

lemma rt_mp_free_hands_over_witness:
  "\<exists>k1 start k2 k3. rt_mp_alloc 0x2700 10 demo_used = Some (Blocked (main_t, 10, start), k1) \<and>
    rt_mp_free 0x20040010 k1 = Some k2 \<and>
    rt_mp_alloc_wake 0x2700 (main_t, 10, start) k2 = Some (Done (Some 0x20040010), k3)"
  using rt_mp_free_hands_over [OF demo_used_wf(5,1,2,3), of 10] demo_used_wf(4,6) by auto

text \<open>A thread that waits for a block with a time limit is not counted out again when the limit
  passes: \<open>rt_thread_timeout\<close> knows nothing of \<open>suspend_thread_count\<close>. The thread returns without a
  block, and the next \<open>rt_mp_free\<close> resumes the first thread of an empty list, which is no thread:
  it has no result.\<close>

theorem rt_mp_free_after_timeout:
  assumes "in_thread b t r k" "mp_wf mp k" "mp_unused mp k = []" "x \<in> mp_used mp k"
    and "tlists k (Suspend_list mp) = []" "suspend_thread_count (mempool k mp) = 0"
    and "0 <s time" "time \<noteq> 0x7fffffff"
  shows "\<exists>k1 start k2. rt_mp_alloc mp time k = Some (Blocked (t, time, start), k1) \<and>
    fire cb (Thread_timer t) k1 = Some k2 \<and> kernel_inv b k2 \<and> stat (thread k2 t) = RT_THREAD_READY \<and>
    rt_mp_alloc_wake mp (t, time, start) k2 = Some (Done None, k2) \<and>
    tlists k2 (Suspend_list mp) = [] \<and> suspend_thread_count (mempool k2 mp) = 1 \<and>
    rt_mp_free (x + 4) k2 = None"
proof -
  have n0: "time \<noteq> 0" using assms(7) by auto
  have sp: "mp_split mp k []" using assms(2,3) by (simp add: mp_wf_def)
  have e: "block_free_count (mempool k mp) = 0" using mp_splitD(5) [OF sp] by (simp add: unat_eq_zero)
  obtain k1 start where k1: "rt_mp_alloc mp time k = Some (Blocked (t, time, start), k1)" "mp_wait mp t time k = Some k1"
    "kernel_inv b k1" "current k1 \<noteq> None"
    "thread k1 = (thread k)(t := (thread k t)\<lparr>t_error := RT_EOK, stat := RT_THREAD_SUSPEND\<rparr>)"
    "tlists k1 = (lists_remove t (tlists k))(Suspend_list mp := t # tlists k (Suspend_list mp))"
    "Thread_timer t \<in> set (timer_list k1) \<longleftrightarrow> 0 <s time"
    "mempool k1 = (mempool k)(mp := (mempool k mp)\<lparr>suspend_thread_count := suspend_thread_count (mempool k mp) + 1\<rparr>)"
    "mp_links k1 = mp_links k" "lock_nest k1 = 0"
    by (rule mp_alloc_blocks [OF assms(1) n0 assms(8) e])
  have tin: "Thread_timer t \<in> set (timer_list k1)" using k1(7) assms(7) by simp
  obtain k2 where k2: "fire cb (Thread_timer t) k1 = Some k2" "kernel_inv b k2" "current k2 \<noteq> None" "call_frame k1 k2"
    "timer k2 = timer k1" "timer_list k2 = removeAll (Thread_timer t) (timer_list k1)"
    "thread k2 = (thread k1)(t := (thread k1 t)\<lparr>t_error := - RT_ETIMEOUT, stat := RT_THREAD_READY\<rparr>)"
    "tlists k2 = lists_insert_last (Ready (unat (current_priority (thread k1 t)))) t (lists_remove t (tlists k1))"
    by (rule fire_thread [OF k1(3,4) tin])
  have m2: "mempool k2 mp = (mempool k mp)\<lparr>suspend_thread_count := 1\<rparr>" "mp_links k2 = mp_links k"
    using call_frameD(11,12) [OF k2(4)] k1(8,9) assms(6) by simp_all
  have q2: "tlists k2 (Suspend_list mp) = []"
    using k2(8) k1(6) assms(5) by (simp add: lists_insert_last_def lists_remove_def)
  have own: "mp_links k x = Owned_by mp"
    using mp_splitD(6) [OF sp] assms(4) by (simp add: mp_used_def)
  have "rt_mp_alloc_wake mp (t, time, start) k2 = Some (Done None, k2)"
    using k2(7) by (simp add: rt_mp_alloc_wake_def)
  moreover have "rt_mp_free (x + 4) k2 = None"
    using own m2 q2 by (simp add: rt_mp_free_def link_value_def lists_first_def set_link_def)
  ultimately show ?thesis
    using k1(1) k2(1,2,7) q2 m2(1) by (intro exI [of _ k1] exI [of _ start] exI [of _ k2]) simp
qed

lemma rt_mp_free_after_timeout_witness:
  "\<exists>k1 start k2. rt_mp_alloc 0x2700 10 demo_used = Some (Blocked (main_t, 10, start), k1) \<and>
    fire (\<lambda>_ _. Some) (Thread_timer main_t) k1 = Some k2 \<and> rt_mp_free 0x20040010 k2 = None"
  using rt_mp_free_after_timeout [OF demo_used_wf(5,1,2,3), of 10 "\<lambda>_ _. Some"] demo_used_wf(4,6)
  by (auto simp: word_sless_alt)

subsection \<open>Initialisation\<close>

lemma chain_upto:
  assumes "a < n" "\<And>i. a \<le> i \<Longrightarrow> Suc i < n \<Longrightarrow> nx (f i) = Some (f (Suc i))" "nx (f (n - 1)) = None"
  shows "node_chain nx (Some (f a)) (map f [a..<n])"
  using assms
proof (induction "n - a" arbitrary: a)
  case (Suc m)
  show ?case
  proof (cases "Suc a = n")
    case True
    then have e: "[a..<n] = [a]" "n - 1 = a" by auto
    have "nx (f a) = None" using Suc.prems(3) unfolding e(2) .
    then show ?thesis unfolding e(1) by simp
  next
    case False
    then have lt: "Suc a < n" using Suc.prems(1) by simp
    have "node_chain nx (Some (f (Suc a))) (map f [Suc a..<n])"
    proof (rule Suc.hyps(1) [OF _ lt _ Suc.prems(3)])
      show "m = n - Suc a" using Suc.hyps(2) by simp
      show "\<And>i. Suc a \<le> i \<Longrightarrow> Suc i < n \<Longrightarrow> nx (f i) = Some (f (Suc i))" using Suc.prems(2) by simp
    qed
    moreover have "[a..<n] = a # [Suc a..<n]" using lt by (simp add: upt_conv_Cons)
    ultimately show ?thesis using Suc.prems(2) [OF order_refl lt] by (simp del: upt_Suc)
  qed
qed simp

text \<open>The loop over the blocks: each is linked to its successor.\<close>

lemma mp_link_loop_ok:
  assumes "mp_link_loop p (of_nat s + 4) (of_nat off) n k = (off', k')"
  shows "off' = of_nat (off + n) \<and> (\<exists>ls. k' = k\<lparr>mp_links := ls\<rparr>) \<and>
    (\<forall>a. a \<notin> pool_node p s ` {off..<off + n} \<longrightarrow> mp_links k' a = mp_links k a) \<and>
    ((\<forall>i j. i < j \<longrightarrow> j < off + n \<longrightarrow> pool_node p s i \<noteq> pool_node p s j) \<longrightarrow>
      (\<forall>i. off \<le> i \<longrightarrow> i < off + n \<longrightarrow> mp_links k' (pool_node p s i) = Free_block (Some (pool_node p s (Suc i)))))"
  using assms
proof (induction n arbitrary: off k)
  case 0
  then show ?case by (auto intro: exI [of _ "mp_links k"])
next
  case (Suc n)
  let ?k = "set_link (pool_node p s off) (Free_block (Some (pool_node p s (Suc off)))) k"
  have step: "mp_link_loop p (of_nat s + 4) (of_nat (Suc off)) n ?k = (off', k')"
    using Suc.prems by (simp add: pool_node_def ac_simps)
  note ih = Suc.IH [OF step]
  have r: "{off..<off + Suc n} = insert off {Suc off..<Suc off + n}" by auto
  have "\<exists>ls. k' = k\<lparr>mp_links := ls\<rparr>" using ih by (auto simp: set_link_def)
  moreover have "mp_links k' a = mp_links k a" if "a \<notin> pool_node p s ` {off..<off + Suc n}" for a
    using that ih unfolding r by (auto simp: set_link_def)
  moreover have "mp_links k' (pool_node p s i) = Free_block (Some (pool_node p s (Suc i)))"
    if d: "\<forall>i j. i < j \<longrightarrow> j < off + Suc n \<longrightarrow> pool_node p s i \<noteq> pool_node p s j" and i: "off \<le> i" "i < off + Suc n" for i
  proof (cases "i = off")
    case True
    have "pool_node p s off \<notin> pool_node p s ` {Suc off..<Suc off + n}" using d by auto
    then have "mp_links k' (pool_node p s off) = mp_links ?k (pool_node p s off)" using ih by blast
    then show ?thesis using True by (simp add: set_link_def)
  next
    case False
    then show ?thesis using ih d i by auto
  qed
  ultimately show ?case using ih by simp
qed

lemma mp_init_blocks_ok:
  assumes pl: "mp_placed (mempool k mp)" and n: "0 < block_total_count (mempool k mp)"
  shows "mp_wf mp (mp_init_blocks mp k) \<and>
    mp_unused mp (mp_init_blocks mp k) = mp_nodes mp k \<and> mp_nodes mp (mp_init_blocks mp k) = mp_nodes mp k \<and>
    tlists (mp_init_blocks mp k) (Suspend_list mp) = [] \<and>
    suspend_thread_count (mempool (mp_init_blocks mp k) mp) = 0"
proof -
  define p where "p = start_address (mempool k mp)"
  define s where "s = unat (block_size (mempool k mp))"
  define c where "c = unat (block_total_count (mempool k mp))"
  have pp: "pool_placed p s c" using pl by (simp add: mp_placed_def p_def s_def c_def)
  have c0: "0 < c" using n by (simp add: c_def word_less_nat_alt)
  define k0 where "k0 = upd_mp mp (\<lambda>p. p\<lparr>suspend_thread_count := 0\<rparr>)
    ((upd_mp mp (\<lambda>p. p\<lparr>block_free_count := block_total_count p\<rparr>) k)
      \<lparr>tlists := (tlists k)(Suspend_list mp := [])\<rparr>)"
  obtain off k1 where l: "mp_link_loop p (of_nat s + 4) (of_nat 0) c k0 = (off, k1)" by fastforce
  have m0: "mempool k0 mp = (mempool k mp)\<lparr>block_free_count := block_total_count (mempool k mp), suspend_thread_count := 0\<rparr>"
    "tlists k0 = (tlists k)(Suspend_list mp := [])"
    by (simp_all add: k0_def)
  define k2 where "k2 = upd_mp mp (\<lambda>q. q\<lparr>block_list := Some p\<rparr>)
    (set_link (pool_node p s (c - 1)) (Free_block None) k1)"
  have "p + (off - 1) * (of_nat s + 4) = pool_node p s (c - 1)"
    using mp_link_loop_ok [OF l] c0 by (simp add: pool_node_def of_nat_diff)
  then have init: "mp_init_blocks mp k = k2"
    using l by (simp add: mp_init_blocks_def Let_def k0_def k2_def p_def s_def c_def)
  have inj: "pool_node p s i \<noteq> pool_node p s j" if "i < j" "j < c" for i j
    using pool_nodes_distinct [OF pp] that nth_eq_iff_index_eq [of "pool_nodes p s c" i j]
    by (simp add: pool_nodes_def)
  have links: "mp_links k1 (pool_node p s i) = Free_block (Some (pool_node p s (Suc i)))" if "i < c" for i
    using mp_link_loop_ok [OF l] inj that by simp
  have m1: "mempool k1 = mempool k0" "tlists k1 = tlists k0" using mp_link_loop_ok [OF l] by auto
  have m2: "mempool k2 mp = (mempool k0 mp)\<lparr>block_list := Some p\<rparr>" "tlists k2 = tlists k0"
    using m1 by (simp_all add: k2_def)
  have nodes: "mp_nodes mp k2 = pool_nodes p s c" "mp_nodes mp k = pool_nodes p s c"
    by (simp_all add: mp_nodes_def Let_def m2 m0 p_def s_def c_def)
  have nx: "mp_next k2 (pool_node p s i) = (if Suc i = c then None else Some (pool_node p s (Suc i)))" if "i < c" for i
  proof (cases "Suc i = c")
    case True
    then have "i = c - 1" by simp
    then show ?thesis using True by (simp add: mp_next_def k2_def set_link_def link_value_def)
  next
    case False
    then have "pool_node p s i \<noteq> pool_node p s (c - 1)" using inj [of i "c - 1"] that by simp
    then show ?thesis using False links [OF that] by (simp add: mp_next_def k2_def set_link_def link_value_def)
  qed
  have "node_chain (mp_next k2) (Some (pool_node p s 0)) (map (pool_node p s) [0..<c])"
    by (rule chain_upto [OF c0]) (use nx c0 in auto)
  then have "node_chain (mp_next k2) (Some p) (pool_nodes p s c)" by (simp add: pool_nodes_def pool_node_def)
  then have "mp_split mp k2 (pool_nodes p s c)"
    using pp pool_nodes_distinct [OF pp] nodes
    by (simp add: mp_split_def m2 m0 mp_placed_def p_def s_def c_def) (simp add: pool_nodes_def)
  from mp_wfI [OF this] show ?thesis
    unfolding init using nodes by (simp add: m2 m0)
qed

text \<open>A pool set up over a buffer holds \<open>size / (block_size + 4)\<close> blocks, all of them free and
  inside the buffer; the property excludes a buffer too small for one block, for which the code writes
  a link before the buffer.
\<close>

theorem rt_mp_init_links:
  assumes "mp \<noteq> 0" "0 < RT_ALIGN bsize 4" "unat (RT_ALIGN bsize 4) + 4 < 2 ^ 32"
    and "unat (RT_ALIGN bsize 4) + 4 \<le> unat (RT_ALIGN_DOWN sz 4)"
    and "unat start + unat (RT_ALIGN_DOWN sz 4) \<le> 2 ^ 32"
  shows "\<exists>k'. rt_mp_init mp name start sz bsize k = Some (RT_EOK, k') \<and> mp_wf mp k' \<and>
    mp_used mp k' = {} \<and> length (mp_unused mp k') = unat (RT_ALIGN_DOWN sz 4) div (unat (RT_ALIGN bsize 4) + 4) \<and>
    (\<forall>x \<in> set (mp_unused mp k'). unat start \<le> unat x \<and>
       unat x + 4 + unat (RT_ALIGN bsize 4) \<le> unat start + unat (RT_ALIGN_DOWN sz 4)) \<and>
    tlists k' (Suspend_list mp) = [] \<and> suspend_thread_count (mempool k' mp) = 0"
proof -
  define bs where "bs = RT_ALIGN bsize 4"
  define ms where "ms = RT_ALIGN_DOWN sz 4"
  define k0 where "k0 = upd_mp mp (\<lambda>p. p\<lparr>block_total_count := mp_size p div (block_size p + 4)\<rparr>)
    (upd_mp mp (\<lambda>p. p\<lparr>start_address := start, mp_size := ms, block_size := bs\<rparr>)
      (rt_object_init (Obj mp) RT_Object_Class_MemPool name k))"
  define c where "c = unat ms div (unat bs + 4)"
  have i: "rt_mp_init mp name start sz bsize k = Some (RT_EOK, mp_init_blocks mp k0)"
    using assms(1) by (simp add: rt_mp_init_def k0_def bs_def ms_def)
  have f: "start_address (mempool k0 mp) = start" "block_size (mempool k0 mp) = bs"
    "block_total_count (mempool k0 mp) = ms div (bs + 4)"
    by (simp_all add: k0_def)
  have "unat (bs + 4) = unat bs + 4" using assms(3) by (simp add: unat_word_ariths bs_def)
  then have c: "unat (ms div (bs + 4)) = c" by (simp add: c_def unat_div)
  have le: "c * (unat bs + 4) \<le> unat ms" by (simp add: c_def)
  have c0: "0 < c" using assms(4) by (simp add: c_def bs_def ms_def div_greater_zero_iff)
  have pp: "pool_placed start (unat bs) c"
    using assms(2,5) le by (simp add: pool_placed_def bs_def ms_def word_less_nat_alt)
  have pl: "mp_placed (mempool k0 mp)" using pp by (simp add: mp_placed_def f c)
  have n: "0 < block_total_count (mempool k0 mp)" using c0 by (simp add: f word_less_nat_alt c)
  note r = mp_init_blocks_ok [OF pl n]
  have nodes: "mp_nodes mp k0 = pool_nodes start (unat bs) c" by (simp add: mp_nodes_def Let_def f c)
  have "unat start \<le> unat x \<and> unat x + 4 + unat bs \<le> unat start + unat ms" if "x \<in> set (mp_nodes mp k0)" for x
    using that pool_node_unat(1,3) [OF pp] le unfolding nodes pool_nodes_def by fastforce
  moreover have "length (mp_nodes mp k0) = c" by (simp add: nodes pool_nodes_def)
  ultimately show ?thesis
    unfolding i using r by (intro exI [of _ "mp_init_blocks mp k0"])
      (simp add: mp_used_def bs_def ms_def c_def)
qed

lemma rt_mp_init_links_witness:
  "\<exists>k'. rt_mp_init 0x2700 (cstr_of ''mp'') 0x20040000 27 6 demo = Some (RT_EOK, k') \<and>
    length (mp_unused 0x2700 k') = 2"
proof -
  have a: "RT_ALIGN 6 4 = 8" "RT_ALIGN_DOWN 27 4 = 24" by (simp_all add: RT_ALIGN_def RT_ALIGN_DOWN_def)
  show ?thesis
    using rt_mp_init_links [of "0x2700" 6 27 "0x20040000" "cstr_of ''mp''" demo] a by auto
qed

end
