(* ===== verification/RingSpec.thy ===== *)
theory RingSpec
  imports Fifo
begin

text \<open>
  What the ring buffer of \<open>Ringbuffer\<close> promises: its two mirrored indices denote a sequence of
  bytes, which the operations append to and take from.
\<close>

subsection \<open>Rings of any elements\<close>

definition ring :: "(nat \<Rightarrow> 'a) \<Rightarrow> nat \<Rightarrow> nat \<Rightarrow> nat \<Rightarrow> 'a list" where
  "ring f n r l = map (\<lambda>i. f ((r + i) mod n)) [0..<l]"

lemma ring_length [simp]: "length (ring f n r l) = l"
  by (simp add: ring_def)

lemma ring_append:
  assumes w: "w = (r + k) mod n" and l: "k + l \<le> n"
    and f': "\<And>i. i < n \<Longrightarrow> f' ((w + i) mod n) = (if i < l then g i else f ((w + i) mod n))"
  shows "ring f' n r (k + l) = ring f n r k @ map g [0..<l]"
proof (rule nth_equalityI)
  fix i assume "i < length (ring f' n r (k + l))"
  then have i: "i < k + l" by simp
  show "ring f' n r (k + l) ! i = (ring f n r k @ map g [0..<l]) ! i"
  proof (cases "i < k")
    case True
    have "(w + (i + n - k)) mod n = (r + (k + (i + n - k))) mod n" unfolding w by (simp add: mod_simps add.assoc)
    also have "k + (i + n - k) = i + n" using True l by simp
    finally have p: "(w + (i + n - k)) mod n = (r + i) mod n" by (simp add: add.assoc [symmetric])
    moreover have "i + n - k < n" "\<not> i + n - k < l" using True l by linarith+
    ultimately show ?thesis using f' [of "i + n - k"] True i by (simp add: ring_def nth_append)
  next
    case False
    have "(w + (i - k)) mod n = (r + k + (i - k)) mod n" unfolding w by (rule mod_add_left_eq)
    also have "r + k + (i - k) = r + i" using False by simp
    finally have p: "(w + (i - k)) mod n = (r + i) mod n" .
    have "i - k < n" "i - k < l" using False i l by linarith+
    then show ?thesis using f' [of "i - k"] False i p by (simp add: ring_def nth_append)
  qed
qed simp

lemma ring_drop: "l \<le> k \<Longrightarrow> ring f n ((r + l) mod n) (k - l) = drop l (ring f n r k)"
  by (rule nth_equalityI) (simp_all add: ring_def mod_simps less_diff_conv ac_simps)

lemma ring_take: "l \<le> k \<Longrightarrow> map (\<lambda>i. f ((r + i) mod n)) [0..<l] = take l (ring f n r k)"
  by (simp add: ring_def take_map take_upt)

subsection \<open>The indices\<close>

abbreviation rb_size :: "rt_ringbuffer \<Rightarrow> nat" where "rb_size rb \<equiv> unat (buffer_size rb)"
abbreviation rb_read :: "rt_ringbuffer \<Rightarrow> nat" where "rb_read rb \<equiv> unat (read_index rb)"
abbreviation rb_write :: "rt_ringbuffer \<Rightarrow> nat" where "rb_write rb \<equiv> unat (write_index rb)"

text \<open>In the same mirror the writer is ahead of the reader, in different ones behind it.\<close>

definition rb_ok :: "rt_ringbuffer \<Rightarrow> bool" where
  "rb_ok rb =
     (0 < rb_size rb \<and> rb_size rb < 2 ^ 15 \<and> unat (buffer_ptr rb) + rb_size rb \<le> 2 ^ 32 \<and>
      rb_read rb < rb_size rb \<and> rb_write rb < rb_size rb \<and>
      (if read_mirror rb = write_mirror rb then rb_read rb \<le> rb_write rb else rb_write rb \<le> rb_read rb))"

definition rb_len :: "rt_ringbuffer \<Rightarrow> nat" where
  "rb_len rb =
     (if read_mirror rb = write_mirror rb then rb_write rb - rb_read rb
      else rb_size rb - (rb_read rb - rb_write rb))"

lemma rb_okD:
  assumes "rb_ok rb"
  shows "0 < rb_size rb" "rb_size rb < 2 ^ 15" "unat (buffer_ptr rb) + rb_size rb \<le> 2 ^ 32"
    "rb_read rb < rb_size rb" "rb_write rb < rb_size rb" "rb_len rb \<le> rb_size rb"
  using assms by (auto simp: rb_ok_def rb_len_def)

lemma rb_write_pos:
  assumes "rb_ok rb"
  shows "rb_write rb = (rb_read rb + rb_len rb) mod rb_size rb"
proof (cases "read_mirror rb = write_mirror rb")
  case True
  then show ?thesis using assms by (simp add: rb_ok_def rb_len_def)
next
  case False
  then have "rb_read rb + rb_len rb = rb_write rb + rb_size rb"
    using assms by (auto simp: rb_ok_def rb_len_def)
  then show ?thesis using rb_okD(5) [OF assms] by simp
qed

lemma index_of_nat:
  "ucast (i :: 15 word) = (word_of_nat (unat i) :: 'b::len word)"
  by simp

lemma data_len_nat:
  assumes "rb_ok rb"
  shows "unat (rt_ringbuffer_data_len rb) = rb_len rb"
proof -
  note d = rb_okD [OF assms]
  have u: "unat (ucast i :: u16) = unat i" for i :: "15 word"
    using unsigned_less [of i, where ?'a = nat] by (simp add: unsigned_ucast_eq take_bit_nat_eq_self)
  have sub: "unat (x - y) = unat x - unat y" if "unat y \<le> unat x" for x y :: u16
    using that by (simp add: unat_sub word_le_nat_alt)
  have eq: "read_index rb = write_index rb \<longleftrightarrow> rb_read rb = rb_write rb" by (simp add: word_unat_eq_iff)
  have lt: "read_index rb < write_index rb \<longleftrightarrow> rb_read rb < rb_write rb" by (simp add: word_less_nat_alt)
  show ?thesis
  proof (cases "rb_read rb < rb_write rb")
    case True
    then have "read_mirror rb = write_mirror rb" using assms by (auto simp: rb_ok_def split: if_splits)
    then show ?thesis using True eq lt sub [of "ucast (read_index rb)" "ucast (write_index rb)"]
      by (simp add: rt_ringbuffer_data_len_def rt_ringbuffer_status_def rb_len_def u)
  next
    case False
    have "unat (ucast (read_index rb) - ucast (write_index rb) :: u16) = rb_read rb - rb_write rb"
      using False sub [of "ucast (write_index rb)" "ucast (read_index rb)"] by (simp add: u)
    then have "unat (buffer_size rb - (ucast (read_index rb) - ucast (write_index rb))) =
        rb_size rb - (rb_read rb - rb_write rb)"
      using sub [of "ucast (read_index rb) - ucast (write_index rb)" "buffer_size rb"] d(4) by simp
    then show ?thesis using False assms eq lt
      by (auto simp: rt_ringbuffer_data_len_def rt_ringbuffer_status_def rb_len_def rb_ok_def split: if_splits)
  qed
qed

lemma space_len_nat:
  assumes "rb_ok rb"
  shows "unat (rt_ringbuffer_space_len rb) = rb_size rb - rb_len rb"
  using data_len_nat [OF assms] rb_okD(6) [OF assms]
  by (simp add: rt_ringbuffer_space_len_def unat_sub word_le_nat_alt)

lemma room_after_nat:
  assumes "rb_ok rb"
  shows "room_after rb i = int (rb_size rb) - int (unat i)"
proof -
  have "sint (buffer_size rb) = int (rb_size rb)"
    using rb_okD(2) [OF assms] unfolding sint_uint by (subst signed_take_bit_int_eq_self) (simp_all add: uint_nat del: of_nat_unat)
  then show ?thesis by (simp add: room_after_def)
qed

text \<open>Moving the write index on by \<open>l\<close> bytes that fit, and the read index by \<open>l\<close> that are there.\<close>

lemma rb_write_moved:
  assumes "rb_ok rb" "rb_len rb + l \<le> rb_size rb"
    and "unat x = (rb_write rb + l) mod rb_size rb" "mr = (write_mirror rb \<noteq> (rb_size rb \<le> rb_write rb + l))"
  defines "rb' \<equiv> rb\<lparr>write_mirror := mr, write_index := x\<rparr>"
  shows "rb_ok rb' \<and> rb_len rb' = rb_len rb + l"
proof -
  note d = rb_okD [OF assms(1)]
  have "(rb_write rb + l) mod rb_size rb =
      (if rb_size rb \<le> rb_write rb + l then rb_write rb + l - rb_size rb else rb_write rb + l)"
    using d assms(2) by (simp add: mod_if)
  then show ?thesis
    using assms(1-4) d by (cases "rb_size rb \<le> rb_write rb + l")
      (auto simp: rb'_def rb_ok_def rb_len_def split: if_splits)
qed

lemma rb_read_moved:
  assumes "rb_ok rb" "l \<le> rb_len rb"
    and "unat x = (rb_read rb + l) mod rb_size rb" "mr = (read_mirror rb \<noteq> (rb_size rb \<le> rb_read rb + l))"
  defines "rb' \<equiv> rb\<lparr>read_mirror := mr, read_index := x\<rparr>"
  shows "rb_ok rb' \<and> rb_len rb' = rb_len rb - l"
proof -
  note d = rb_okD [OF assms(1)]
  have "(rb_read rb + l) mod rb_size rb =
      (if rb_size rb \<le> rb_read rb + l then rb_read rb + l - rb_size rb else rb_read rb + l)"
    using d assms(2) by (simp add: mod_if)
  then show ?thesis
    using assms(1-4) d by (cases "rb_size rb \<le> rb_read rb + l")
      (auto simp: rb'_def rb_ok_def rb_len_def split: if_splits)
qed

text \<open>The two ways the code moves an index.\<close>

lemma index_short:
  assumes "rb_ok rb" "unat i + unat l < rb_size rb"
  shows "unat (i + ucast (l :: u16) :: 15 word) = (unat i + unat l) mod rb_size rb"
proof -
  have lt: "unat i + unat l < 2 ^ 15" using assms(2) rb_okD(2) [OF assms(1)] by linarith
  then have "unat (ucast l :: 15 word) = unat l"
    by (simp add: unsigned_ucast_eq unsigned_take_bit_eq take_bit_nat_eq_self)
  then show ?thesis using lt assms(2) by (simp add: unat_word_ariths)
qed

lemma index_wrapped:
  assumes "rb_ok rb" "l \<le> rb_size rb" "unat i < rb_size rb" "rb_size rb \<le> unat (i :: 15 word) + l"
  shows "unat (of_int (int l - room_after rb i) :: 15 word) = (unat i + l) mod rb_size rb"
proof -
  have e: "int l - room_after rb i = int (unat i + l - rb_size rb)"
    using assms by (simp add: room_after_nat of_nat_diff)
  have lt: "unat i + l - rb_size rb < rb_size rb" using assms by linarith
  then have "unat (word_of_nat (unat i + l - rb_size rb) :: 15 word) = unat i + l - rb_size rb"
    using rb_okD(2) [OF assms(1)] by (subst unat_of_nat) simp
  then show ?thesis unfolding e using lt assms(4) by (simp add: mod_if)
qed

subsection \<open>The bytes\<close>

definition rb_byte :: "rt_ringbuffer \<Rightarrow> mem \<Rightarrow> nat \<Rightarrow> u8" where
  "rb_byte rb m j = m (buffer_ptr rb + of_nat j)"

definition rb_bytes :: "rt_ringbuffer \<Rightarrow> mem \<Rightarrow> u8 list" where
  "rb_bytes rb m = ring (rb_byte rb m) (rb_size rb) (rb_read rb) (rb_len rb)"

lemma rb_bytes_length [simp]: "length (rb_bytes rb m) = rb_len rb"
  by (simp add: rb_bytes_def)

lemma ranges_apart_sub:
  assumes "ranges_apart p n q l" "w < l"
  shows "ranges_apart p n (q + of_nat w) (l - w)"
proof -
  have "unat q + w < 2 ^ 32" using assms by (auto simp: ranges_apart_def)
  then have "unat (q + of_nat w) = unat q + w" by (simp add: unat_word_ariths unat_of_nat)
  then show ?thesis using assms by (auto simp: ranges_apart_def)
qed

lemma blit_off:
  assumes "j < 2 ^ 32" "w + k \<le> 2 ^ 32" "w < 2 ^ 32"
  shows "blit (p + of_nat w) s k m (p + of_nat j)
    = (if w \<le> j \<and> j < w + k then m (s + of_nat (j - w)) else m (p + of_nat j))"
proof -
  have "unat (p + of_nat j - (p + of_nat w)) = (if w \<le> j then j - w else j + 2 ^ 32 - w)"
    using unat_diff_of_nat [OF assms(3), of "of_nat j"] unat_of_nat_lt [of j "2 ^ 32"] assms(1) by simp
  moreover have "p + of_nat j - (p + of_nat w) = of_nat (j - w)" if "w \<le> j" using that by (simp add: of_nat_diff)
  ultimately show ?thesis using assms by (auto simp: blit_def)
qed

text \<open>What a put writes at the places behind the write index.\<close>

lemma put_bytes:
  assumes ok: "rb_ok rb" and l: "unat len \<le> rb_size rb" and ap: "ranges_apart ptr (unat len) (buffer_ptr rb) (rb_size rb)"
    and i: "i < rb_size rb"
    and m': "m' = (if rb_write rb + unat len < rb_size rb then blit (rb_at rb (write_index rb)) ptr (unat len) m
      else copy_in_wrapped rb ptr len m)"
  shows "rb_byte rb m' ((rb_write rb + i) mod rb_size rb) =
    (if i < unat len then m (ptr + of_nat i) else rb_byte rb m ((rb_write rb + i) mod rb_size rb))"
proof -
  define n where "n = rb_size rb"
  define w where "w = rb_write rb"
  define l where "l = unat len"
  define b where "b = buffer_ptr rb"
  note d = rb_okD [OF ok, folded n_def w_def b_def]
  have n32: "n < 2 ^ 32" using d(2) by simp
  have at: "rb_at rb (write_index rb) = b + of_nat w" by (simp add: rb_at_def b_def w_def)
  define j where "j = (w + i) mod n"
  have j: "j = (if n \<le> w + i then w + i - n else w + i)" using d(5) i by (simp add: j_def mod_if n_def)
  have jn: "j < n" using d(1) by (simp add: j_def)
  have off: "blit (b + of_nat a) s k f (b + of_nat j) = (if a \<le> j \<and> j < a + k then f (s + of_nat (j - a)) else f (b + of_nat j))"
    if "a + k \<le> n" "a < 2 ^ 32" for a s k f
    by (rule blit_off) (use that n32 jn in auto)
  have "m' (b + of_nat j) = (if i < l then m (ptr + of_nat i) else m (b + of_nat j))"
  proof (cases "w + l < n")
    case True
    then have "m' = blit (b + of_nat w) ptr l m" using m' by (simp add: at n_def w_def l_def)
    then have e: "m' (b + of_nat j) = (if w \<le> j \<and> j < w + l then m (ptr + of_nat (j - w)) else m (b + of_nat j))"
      using off [of w l ptr m] True n32 by simp
    have "(w \<le> j \<and> j < w + l) = (i < l)" using True i d(5) j by (auto simp: n_def split: if_splits)
    moreover have "j - w = i" if "i < l" using True that j by (auto split: if_splits)
    ultimately show ?thesis unfolding e by metis
  next
    case False
    have ln: "l \<le> n" using assms(2) by (simp add: l_def n_def)
    have room: "room_after rb (write_index rb) = int (n - w)"
      using room_after_nat [OF ok] d(5) by (simp add: n_def w_def of_nat_diff)
    define m1 where "m1 = blit (b + of_nat w) ptr (n - w) m"
    have "m' = blit (b + of_nat 0) (ptr + of_nat (n - w)) (l - (n - w)) m1"
      using m' False by (simp add: copy_in_wrapped_def room at n_def [symmetric] w_def [symmetric] l_def [symmetric]
          m1_def b_def [symmetric] Let_def nat_diff_distrib' of_nat_diff)
    then have "m' (b + of_nat j) = (if j < l - (n - w) then m1 (ptr + of_nat (n - w) + of_nat j) else m1 (b + of_nat j))"
      using off [of 0 "l - (n - w)"] ln by simp
    moreover have "m1 (ptr + of_nat (n - w) + of_nat j) = m (ptr + of_nat (n - w + j))" if "j < l - (n - w)"
    proof -
      have "n - w + j < l" using that by linarith
      then have "\<not> unat (ptr + of_nat (n - w + j) - (b + of_nat w)) < n - w"
        using apart_outside [OF ranges_apart_sub [OF ap [folded n_def l_def b_def] d(5)]] by blast
      then have "blit (b + of_nat w) ptr (n - w) m (ptr + of_nat (n - w + j)) = m (ptr + of_nat (n - w + j))"
        unfolding blit_def by (rule if_not_P)
      then show ?thesis unfolding m1_def of_nat_add add.assoc .
    qed
    moreover have "m1 (b + of_nat j) = (if w \<le> j then m (ptr + of_nat (j - w)) else m (b + of_nat j))"
      using off [of w "n - w" ptr m] d(5) jn n32 by (simp add: m1_def)
    moreover have "(j < l - (n - w) \<longrightarrow> i < l \<and> n - w + j = i) \<and>
        (\<not> j < l - (n - w) \<longrightarrow> (w \<le> j) = (i < l)) \<and> (w \<le> j \<longrightarrow> j - w = i)"
      using j i ln False d(5) jn by (auto simp: n_def split: if_splits)
    ultimately show ?thesis by metis
  qed
  then show ?thesis by (simp add: rb_byte_def j_def b_def n_def w_def l_def)
qed

text \<open>What a get copies out; it leaves the buffer alone.\<close>

definition copy_out :: "rt_ringbuffer \<Rightarrow> addr \<Rightarrow> u16 \<Rightarrow> mem \<Rightarrow> mem" where
  "copy_out rb ptr len m =
     (let room = room_after rb (read_index rb)
      in if int (unat len) < room then blit ptr (rb_at rb (read_index rb)) (unat len) m
         else blit (ptr + of_int room) (buffer_ptr rb) (nat (int (unat len) - room))
           (blit ptr (rb_at rb (read_index rb)) (nat room) m))"

lemma get_bytes:
  assumes ok: "rb_ok rb" and l: "unat len \<le> rb_size rb" and ap: "ranges_apart ptr (unat len) (buffer_ptr rb) (rb_size rb)"
  shows "j < rb_size rb \<Longrightarrow> rb_byte rb (copy_out rb ptr len m) j = rb_byte rb m j"
    "i < unat len \<Longrightarrow> copy_out rb ptr len m (ptr + of_nat i) = rb_byte rb m ((rb_read rb + i) mod rb_size rb)"
proof -
  define n where "n = rb_size rb"
  define r where "r = rb_read rb"
  define l where "l = unat len"
  define b where "b = buffer_ptr rb"
  note d = rb_okD [OF ok, folded n_def r_def b_def]
  have n32: "n < 2 ^ 32" using d(2) by simp
  have ln: "l \<le> n" using assms(2) by (simp add: l_def n_def)
  have ap': "ranges_apart b n ptr l" using ap by (simp add: ranges_apart_sym l_def n_def b_def)
  have at: "rb_at rb (read_index rb) = b + of_nat r" by (simp add: rb_at_def b_def r_def)
  have room: "room_after rb (read_index rb) = int (n - r)"
    using room_after_nat [OF ok] d(4) by (simp add: n_def r_def of_nat_diff)
  define m1 where "m1 = blit ptr (b + of_nat r) (n - r) m"
  have m': "copy_out rb ptr len m = (if r + l < n then blit ptr (b + of_nat r) l m
      else blit (ptr + of_nat (n - r)) b (l - (n - r)) m1)"
  proof -
    have "int l < int (n - r) \<longleftrightarrow> r + l < n" using d(4) by auto
    moreover have "nat (int l - int (n - r)) = l - (n - r)" by (simp add: nat_diff_distrib')
    ultimately show ?thesis
      unfolding copy_out_def room Let_def at l_def [symmetric] b_def [symmetric] m1_def nat_int of_int_of_nat_eq by presburger
  qed
  have in1: "blit ptr s k f (b + of_nat j) = f (b + of_nat j)" if "k \<le> l" "j < n" for s k f j
    using apart_outside [OF ap' that(2)] that(1) by (simp add: blit_def)
  have in2: "blit (ptr + of_nat w) s (l - w) f (b + of_nat j) = f (b + of_nat j)" if "j < n" for s w f j
  proof (cases "w < l")
    case True
    show ?thesis using apart_outside [OF ranges_apart_sub [OF ap' True] that] by (simp add: blit_def)
  qed (simp add: blit_def)
  have buf: "copy_out rb ptr len m (b + of_nat j) = m (b + of_nat j)" if "j < n" for j
  proof (cases "r + l < n")
    case False
    then have "n - r \<le> l" by linarith
    then show ?thesis using in1 [of "n - r" j] in2 that False by (simp add: m' m1_def)
  qed (simp add: m' in1 that)
  show "rb_byte rb (copy_out rb ptr len m) j = rb_byte rb m j" if "j < rb_size rb"
    using buf [of j] that by (simp add: rb_byte_def b_def n_def)
  show "copy_out rb ptr len m (ptr + of_nat i) = rb_byte rb m ((rb_read rb + i) mod rb_size rb)" if "i < unat len"
  proof -
    have i: "i < l" using that by (simp add: l_def)
    have "copy_out rb ptr len m (ptr + of_nat i) = m (b + of_nat ((r + i) mod n))"
    proof (cases "r + l < n")
      case True
      then have "(r + i) mod n = r + i" using i by simp
      moreover have "blit (ptr + of_nat 0) (b + of_nat r) l m (ptr + of_nat i) = m (b + of_nat r + of_nat i)"
        using blit_off [of i 0 l ptr "b + of_nat r" m] i ln n32 by simp
      ultimately show ?thesis using True by (simp add: m' add.assoc)
    next
      case False
      have e: "copy_out rb ptr len m (ptr + of_nat i) =
          (if n - r \<le> i then m1 (b + of_nat (i - (n - r))) else m1 (ptr + of_nat i))"
        using blit_off [of i "n - r" "l - (n - r)" ptr b m1] False i ln n32 d(4) by (simp add: m')
      show ?thesis
      proof (cases "n - r \<le> i")
        case True
        then have "r + i = i - (n - r) + n" "i - (n - r) < n" using i ln d(4) by linarith+
        then have "(r + i) mod n = i - (n - r)" by (metis mod_add_self2 mod_less)
        moreover have "i - (n - r) < n" "n - r \<le> l" using i ln False by linarith+
        ultimately show ?thesis using e True in1 [of "n - r" "i - (n - r)"] by (simp add: m1_def)
      next
        case False
        then have "(r + i) mod n = r + i" by simp
        moreover have "blit (ptr + of_nat 0) (b + of_nat r) (n - r) m (ptr + of_nat i) = m (b + of_nat r + of_nat i)"
          using blit_off [of i 0 "n - r" ptr "b + of_nat r" m] False i ln n32 by simp
        ultimately show ?thesis using e False by (simp add: m1_def add.assoc)
      qed
    qed
    then show ?thesis by (simp add: rb_byte_def b_def r_def n_def)
  qed
qed

text \<open>What \<open>rt_ringbuffer_put\<close> and \<open>rt_ringbuffer_get\<close> do to the bytes in the buffer.\<close>

lemma rb_size_upd [simp]:
  "rb_byte (rb\<lparr>write_mirror := a, write_index := x\<rparr>) m = rb_byte rb m"
  "rb_byte (rb\<lparr>write_mirror := a\<rparr>) m = rb_byte rb m" "rb_byte (rb\<lparr>read_mirror := a\<rparr>) m = rb_byte rb m"
  "rb_byte (rb\<lparr>write_index := x\<rparr>) m = rb_byte rb m"
  "rb_byte (rb\<lparr>read_mirror := a, read_index := y\<rparr>) m = rb_byte rb m"
  "rb_byte (rb\<lparr>read_index := y\<rparr>) m = rb_byte rb m"
  by (simp_all add: fun_eq_iff rb_byte_def)

text \<open>A put of \<open>l\<close> bytes that fit, whichever way the code takes.\<close>

lemma put_fits:
  fixes m :: mem
  assumes ok: "rb_ok rb" and l: "rb_len rb + unat len \<le> rb_size rb"
    and ap: "ranges_apart ptr (unat len) (buffer_ptr rb) (rb_size rb)"
  defines "short \<equiv> int (unat len) < room_after rb (write_index rb)"
  defines "rb' \<equiv> (if short then rb\<lparr>write_index := write_index rb + ucast len\<rparr>
      else rb\<lparr>write_mirror := \<not> write_mirror rb,
              write_index := of_int (int (unat len) - room_after rb (write_index rb))\<rparr>)"
    and "m' \<equiv> (if short then blit (rb_at rb (write_index rb)) ptr (unat len) m else copy_in_wrapped rb ptr len m)"
  shows "rb_ok rb' \<and> rb_bytes rb' m' = rb_bytes rb m @ load_bytes ptr (unat len) m \<and>
    buffer_size rb' = buffer_size rb \<and> buffer_ptr rb' = buffer_ptr rb"
proof -
  note d = rb_okD [OF ok]
  have short: "short = (rb_write rb + unat len < rb_size rb)"
    using d(5) by (auto simp: short_def room_after_nat [OF ok] simp del: of_nat_unat)
  have moved: "rb' = rb\<lparr>write_mirror := write_mirror rb \<noteq> (rb_size rb \<le> rb_write rb + unat len), write_index := write_index rb'\<rparr>"
    using short by (auto simp: rb'_def)
  have pos: "unat (write_index rb') = (rb_write rb + unat len) mod rb_size rb"
  proof (cases short)
    case True
    then show ?thesis using index_short [OF ok] short by (simp add: rb'_def)
  next
    case False
    then show ?thesis
      using index_wrapped [OF ok, of "unat len" "write_index rb"] short d(5) l by (simp add: rb'_def)
  qed
  have rb': "rb_ok rb'" "rb_len rb' = rb_len rb + unat len"
    using rb_write_moved [OF ok l pos refl] moved by auto
  have "rb_byte rb' = rb_byte rb" by (subst moved) (simp add: fun_eq_iff rb_byte_def)
  then have "rb_bytes rb' m' = ring (rb_byte rb m') (rb_size rb) (rb_read rb) (rb_len rb + unat len)"
    using rb'(2) by (simp add: rb_bytes_def) (simp add: rb'_def)
  also have "\<dots> = ring (rb_byte rb m) (rb_size rb) (rb_read rb) (rb_len rb) @ map (\<lambda>i. m (ptr + of_nat i)) [0..<unat len]"
  proof (rule ring_append [OF rb_write_pos [OF ok] l])
    fix i assume i: "i < rb_size rb"
    have e: "m' = (if rb_write rb + unat len < rb_size rb then blit (rb_at rb (write_index rb)) ptr (unat len) m
        else copy_in_wrapped rb ptr len m)" by (simp add: m'_def short)
    have le: "unat len \<le> rb_size rb" using l by simp
    show "rb_byte rb m' ((rb_write rb + i) mod rb_size rb) =
        (if i < unat len then m (ptr + of_nat i) else rb_byte rb m ((rb_write rb + i) mod rb_size rb))"
      by (rule put_bytes [OF ok le ap i e])
  qed
  finally show ?thesis using rb'(1) by (simp add: rb_bytes_def load_bytes_def) (simp add: rb'_def)
qed

lemma len_cut:
  assumes "unat (have_len :: u16) = n"
  shows "unat (if have_len < len then have_len else len) = min (unat len) n"
  using assms by (auto simp: word_less_nat_alt)

lemma unat_ucast_16 [simp]: "unat (ucast (l :: u16) :: u32) = unat l"
  using unsigned_less [of l, where ?'a = nat] by (simp add: unsigned_ucast_eq take_bit_nat_eq_self)

lemma put_ok:
  assumes ok: "rb_ok rb" and ap: "ranges_apart ptr (unat len) (buffer_ptr rb) (rb_size rb)"
  defines "l \<equiv> min (unat len) (rb_size rb - rb_len rb)"
  obtains ret rb' m' where "rt_ringbuffer_put rb ptr len m = (ret, rb', m')" "unat ret = l" "rb_ok rb'"
    "rb_bytes rb' m' = rb_bytes rb m @ load_bytes ptr l m" "buffer_size rb' = buffer_size rb" "buffer_ptr rb' = buffer_ptr rb"
proof (cases "rt_ringbuffer_space_len rb = 0")
  case True
  then have "l = 0" using space_len_nat [OF ok] by (simp add: l_def)
  then show ?thesis using that [of 0 rb m] True ok by (simp add: rt_ringbuffer_put_def load_bytes_def)
next
  case False
  define len' where "len' = (if rt_ringbuffer_space_len rb < len then rt_ringbuffer_space_len rb else len)"
  have l: "unat len' = l" unfolding len'_def l_def by (rule len_cut [OF space_len_nat [OF ok]])
  have fits: "rb_len rb + unat len' \<le> rb_size rb" using rb_okD(6) [OF ok] by (simp add: l l_def)
  have ap': "ranges_apart ptr (unat len') (buffer_ptr rb) (rb_size rb)"
    by (rule ranges_apart_less [OF ap]) (simp_all add: l l_def)
  note p = put_fits [OF ok fits ap', where m = m]
  show ?thesis
    using that [of "ucast len'"] p l False
    by (cases "int (unat len') < room_after rb (write_index rb)")
      (simp_all add: rt_ringbuffer_put_def Let_def len'_def [symmetric] del: of_nat_unat)
qed

text \<open>Taking \<open>l\<close> of the bytes.\<close>

lemma get_fits:
  fixes m :: mem
  assumes ok: "rb_ok rb" and l: "unat len \<le> rb_len rb"
    and ap: "ranges_apart ptr (unat len) (buffer_ptr rb) (rb_size rb)"
  defines "rb' \<equiv> (if int (unat len) < room_after rb (read_index rb) then rb\<lparr>read_index := read_index rb + ucast len\<rparr>
      else rb\<lparr>read_mirror := \<not> read_mirror rb,
              read_index := of_int (int (unat len) - room_after rb (read_index rb))\<rparr>)"
    and "m' \<equiv> copy_out rb ptr len m"
  shows "rb_ok rb' \<and> rb_bytes rb' m' = drop (unat len) (rb_bytes rb m) \<and>
    load_bytes ptr (unat len) m' = take (unat len) (rb_bytes rb m) \<and>
    buffer_size rb' = buffer_size rb \<and> buffer_ptr rb' = buffer_ptr rb"
proof -
  note d = rb_okD [OF ok]
  have le: "unat len \<le> rb_size rb" using l d(6) by simp
  have short: "(int (unat len) < room_after rb (read_index rb)) = (rb_read rb + unat len < rb_size rb)"
    using d(4) by (auto simp: room_after_nat [OF ok] simp del: of_nat_unat)
  have moved: "rb' = rb\<lparr>read_mirror := read_mirror rb \<noteq> (rb_size rb \<le> rb_read rb + unat len), read_index := read_index rb'\<rparr>"
    using short by (auto simp: rb'_def)
  have pos: "unat (read_index rb') = (rb_read rb + unat len) mod rb_size rb"
  proof (cases "rb_read rb + unat len < rb_size rb")
    case True
    then show ?thesis using index_short [OF ok] short by (simp add: rb'_def)
  next
    case False
    then show ?thesis
      using index_wrapped [OF ok, of "unat len" "read_index rb"] short d(4) le by (simp add: rb'_def)
  qed
  have rb': "rb_ok rb'" "rb_len rb' = rb_len rb - unat len"
    using rb_read_moved [OF ok l pos refl] moved by auto
  note g = get_bytes [OF ok le ap, where m = m]
  have same: "ring (rb_byte rb m') n r k = ring (rb_byte rb m) n r k" if "n = rb_size rb" for n r k
    using g(1) d(1) that by (simp add: ring_def m'_def)
  have "rb_byte rb' = rb_byte rb" by (subst moved) (simp add: fun_eq_iff rb_byte_def)
  moreover have sz: "rb_size rb' = rb_size rb" by (simp add: rb'_def)
  ultimately have "rb_bytes rb' m' = ring (rb_byte rb m) (rb_size rb) ((rb_read rb + unat len) mod rb_size rb) (rb_len rb - unat len)"
    using rb'(2) pos same by (simp add: rb_bytes_def)
  also have "\<dots> = drop (unat len) (rb_bytes rb m)" unfolding rb_bytes_def by (rule ring_drop [OF l])
  finally have a: "rb_bytes rb' m' = drop (unat len) (rb_bytes rb m)" .
  have "load_bytes ptr (unat len) m' = map (\<lambda>i. rb_byte rb m ((rb_read rb + i) mod rb_size rb)) [0..<unat len]"
    using g(2) by (simp add: load_bytes_def m'_def)
  also have "\<dots> = take (unat len) (rb_bytes rb m)" unfolding rb_bytes_def by (rule ring_take [OF l])
  finally show ?thesis using a rb'(1) by (simp add: rb'_def)
qed

lemma get_ok:
  assumes ok: "rb_ok rb" and ap: "ranges_apart ptr (unat len) (buffer_ptr rb) (rb_size rb)"
  defines "l \<equiv> min (unat len) (rb_len rb)"
  obtains ret rb' m' where "rt_ringbuffer_get rb ptr len m = (ret, rb', m')" "unat ret = l" "rb_ok rb'"
    "rb_bytes rb' m' = drop l (rb_bytes rb m)" "load_bytes ptr l m' = take l (rb_bytes rb m)"
    "buffer_size rb' = buffer_size rb" "buffer_ptr rb' = buffer_ptr rb"
proof (cases "rt_ringbuffer_data_len rb = 0")
  case True
  then have "l = 0" using data_len_nat [OF ok] by (simp add: l_def)
  then show ?thesis using that [of 0 rb m] True ok by (simp add: rt_ringbuffer_get_def load_bytes_def)
next
  case False
  define len' where "len' = (if rt_ringbuffer_data_len rb < len then rt_ringbuffer_data_len rb else len)"
  have l: "unat len' = l" unfolding len'_def l_def by (rule len_cut [OF data_len_nat [OF ok]])
  have fits: "unat len' \<le> rb_len rb" by (simp add: l l_def)
  have ap': "ranges_apart ptr (unat len') (buffer_ptr rb) (rb_size rb)"
    by (rule ranges_apart_less [OF ap]) (simp_all add: l l_def)
  note p = get_fits [OF ok fits ap', where m = m]
  show ?thesis
    using that [of "ucast len'"] p l False
    by (cases "int (unat len') < room_after rb (read_index rb)")
      (simp_all add: rt_ringbuffer_get_def copy_out_def Let_def len'_def [symmetric] del: of_nat_unat)
qed

subsection \<open>Single characters\<close>

lemma at_end_nat:
  assumes "rb_ok rb"
  shows "at_end rb i = (unat i = rb_size rb - 1)"
proof -
  have "sint (buffer_size rb) = int (rb_size rb)"
    using room_after_nat [OF assms, of 0] by (simp add: room_after_def)
  then show ?thesis using rb_okD(1) [OF assms] by (auto simp: at_end_def of_nat_diff simp del: of_nat_unat)
qed

lemma index_next:
  assumes "rb_ok rb" "unat (i :: 15 word) < rb_size rb"
  shows "unat (if at_end rb i then 0 else i + 1) = (unat i + 1) mod rb_size rb"
proof (cases "unat i = rb_size rb - 1")
  case True
  then show ?thesis using at_end_nat [OF assms(1), of i] rb_okD(1) [OF assms(1)] by simp
next
  case False
  then have lt: "unat i + 1 < rb_size rb" using assms(2) by linarith
  then have "unat (i + 1) = unat i + 1"
    using rb_okD(2) [OF assms(1)] by (simp add: unat_word_ariths)
  then show ?thesis using at_end_nat [OF assms(1), of i] False lt by simp
qed

lemma at_end_le:
  assumes "rb_ok rb" "unat i < rb_size rb"
  shows "at_end rb i = (rb_size rb \<le> unat i + 1)"
  unfolding at_end_nat [OF assms(1)] using assms(2) by (intro iffI; linarith)

lemma byte_apart:
  assumes "i < 2 ^ 15" "j < 2 ^ 15"
  shows "(b + of_nat i = b + (of_nat j :: addr)) = (i = j)"
proof -
  have "unat (of_nat i :: addr) = i" "unat (of_nat j :: addr) = j"
    by (rule unat_of_nat_lt [of _ "2 ^ 15"], rule assms, simp)+
  then show ?thesis by (metis add_left_cancel)
qed

lemma putchar_fits:
  assumes ok: "rb_ok rb" and l: "rb_len rb < rb_size rb"
  obtains rb' m' where "rt_ringbuffer_putchar rb ch m = (1, rb', m')" "rb_ok rb'"
    "rb_bytes rb' m' = rb_bytes rb m @ [ch]" "buffer_size rb' = buffer_size rb"
proof -
  note d = rb_okD [OF ok]
  define x where "x = (if at_end rb (write_index rb) then 0 else write_index rb + 1)"
  define rb' where "rb' = rb\<lparr>write_mirror := write_mirror rb \<noteq> (rb_size rb \<le> rb_write rb + 1), write_index := x\<rparr>"
  define m' where "m' = m(rb_at rb (write_index rb) := ch)"
  have pos: "unat x = (rb_write rb + 1) mod rb_size rb" unfolding x_def by (rule index_next [OF ok d(5)])
  have fits: "rb_len rb + 1 \<le> rb_size rb" using l by simp
  have rb': "rb_ok rb'" "rb_len rb' = rb_len rb + 1"
    using rb_write_moved [OF ok fits pos refl] by (simp_all add: rb'_def)
  have sp: "rt_ringbuffer_space_len rb \<noteq> 0" using space_len_nat [OF ok] l by auto
  have e: "rt_ringbuffer_putchar rb ch m = (1, rb', m')"
  proof -
    show ?thesis using at_end_le [OF ok d(5)] sp
      by (cases "at_end rb (write_index rb)") (simp_all add: rt_ringbuffer_putchar_def rb'_def m'_def x_def)
  qed
  have "rb_bytes rb' m' = ring (rb_byte rb m') (rb_size rb) (rb_read rb) (rb_len rb + 1)"
    using rb'(2) by (simp add: rb_bytes_def) (simp add: rb'_def)
  also have "\<dots> = ring (rb_byte rb m) (rb_size rb) (rb_read rb) (rb_len rb) @ map (\<lambda>_. ch) [0..<1]"
  proof (rule ring_append [OF rb_write_pos [OF ok] fits])
    fix i assume i: "i < rb_size rb"
    define j where "j = (rb_write rb + i) mod rb_size rb"
    have j: "j < rb_size rb" "(j = rb_write rb) = (i = 0)" using i d(1,5) by (auto simp: j_def mod_if)
    have at: "rb_at rb (write_index rb) = buffer_ptr rb + of_nat (rb_write rb)" by (simp add: rb_at_def)
    have "(buffer_ptr rb + of_nat j = buffer_ptr rb + (of_nat (rb_write rb) :: addr)) = (i = 0)"
      using byte_apart [of j "rb_write rb" "buffer_ptr rb"] j d(2,5) by simp
    then show "rb_byte rb m' ((rb_write rb + i) mod rb_size rb) =
        (if i < 1 then ch else rb_byte rb m ((rb_write rb + i) mod rb_size rb))"
      unfolding j_def [symmetric] rb_byte_def m'_def at by auto
  qed
  finally show ?thesis using that [OF e rb'(1)] by (simp add: rb_bytes_def) (simp add: rb'_def)
qed

lemma getchar_first:
  assumes ok: "rb_ok rb" and c: "rb_bytes rb m = ch # cs"
  obtains rb' where "rt_ringbuffer_getchar rb m = (1, Some ch, rb')" "rb_ok rb'" "rb_bytes rb' m = cs"
    "buffer_size rb' = buffer_size rb"
proof -
  note d = rb_okD [OF ok]
  define x where "x = (if at_end rb (read_index rb) then 0 else read_index rb + 1)"
  define rb' where "rb' = rb\<lparr>read_mirror := read_mirror rb \<noteq> (rb_size rb \<le> rb_read rb + 1), read_index := x\<rparr>"
  have len: "rb_len rb = Suc (length cs)" using c rb_bytes_length [of rb m] by simp
  have pos: "unat x = (rb_read rb + 1) mod rb_size rb" unfolding x_def by (rule index_next [OF ok d(4)])
  have some: "1 \<le> rb_len rb" using len by simp
  have rb': "rb_ok rb'" "rb_len rb' = rb_len rb - 1"
    using rb_read_moved [OF ok some pos refl] by (simp_all add: rb'_def)
  have ne: "rt_ringbuffer_data_len rb \<noteq> 0" using data_len_nat [OF ok] len by auto
  have "ch = rb_bytes rb m ! 0" using c by simp
  also have "\<dots> = m (rb_at rb (read_index rb))"
    using len d(4) by (simp add: rb_bytes_def ring_def rb_byte_def rb_at_def upt_conv_Cons del: upt_Suc)
  finally have ch: "m (rb_at rb (read_index rb)) = ch" ..
  have e: "rt_ringbuffer_getchar rb m = (1, Some ch, rb')"
  proof -
    show ?thesis using at_end_le [OF ok d(4)] ne ch
      by (cases "at_end rb (read_index rb)") (simp_all add: rt_ringbuffer_getchar_def rb'_def x_def)
  qed
  have "rb_bytes rb' m = ring (rb_byte rb m) (rb_size rb) ((rb_read rb + 1) mod rb_size rb) (rb_len rb - 1)"
    using rb'(2) pos by (simp add: rb_bytes_def) (simp add: rb'_def)
  also have "\<dots> = drop 1 (rb_bytes rb m)" unfolding rb_bytes_def by (rule ring_drop [OF some])
  finally show ?thesis using that [OF e rb'(1)] c by (simp add: rb'_def)
qed

text \<open>The buffer of characters, as a state with its memory.\<close>

definition rb_put :: "u8 \<Rightarrow> rt_ringbuffer \<times> mem \<Rightarrow> rt_ringbuffer \<times> mem" where
  "rb_put ch s = snd (rt_ringbuffer_putchar (fst s) ch (snd s))"

definition rb_get :: "rt_ringbuffer \<times> mem \<Rightarrow> u8 \<times> rt_ringbuffer \<times> mem" where
  "rb_get s = (case rt_ringbuffer_getchar (fst s) (snd s) of (_, c, rb) \<Rightarrow> (the c, rb, snd s))"

interpretation rbf: fifo rb_put rb_get "\<lambda>s. rb_bytes (fst s) (snd s)" "\<lambda>s. rb_ok (fst s)" "\<lambda>s. rb_size (fst s)"
proof
  fix s :: "rt_ringbuffer \<times> mem" and x xs assume ok: "rb_ok (fst s)"
  show "length (rb_bytes (fst s) (snd s)) \<le> rb_size (fst s)" using rb_okD(6) [OF ok] by simp
  show "rb_ok (fst (rb_put x s)) \<and> rb_bytes (fst (rb_put x s)) (snd (rb_put x s)) = rb_bytes (fst s) (snd s) @ [x] \<and>
      rb_size (fst (rb_put x s)) = rb_size (fst s)" if "length (rb_bytes (fst s) (snd s)) < rb_size (fst s)"
  proof -
    have "rb_len (fst s) < rb_size (fst s)" using that by simp
    then obtain rb' m' where "rt_ringbuffer_putchar (fst s) x (snd s) = (1, rb', m')" "rb_ok rb'"
      "rb_bytes rb' m' = rb_bytes (fst s) (snd s) @ [x]" "buffer_size rb' = buffer_size (fst s)"
      by (rule putchar_fits [OF ok])
    then show ?thesis by (simp add: rb_put_def)
  qed
  show "fst (rb_get s) = x \<and> rb_ok (fst (snd (rb_get s))) \<and> rb_bytes (fst (snd (rb_get s))) (snd (snd (rb_get s))) = xs \<and>
      rb_size (fst (snd (rb_get s))) = rb_size (fst s)" if c: "rb_bytes (fst s) (snd s) = x # xs"
  proof -
    obtain rb' where "rt_ringbuffer_getchar (fst s) (snd s) = (1, Some x, rb')" "rb_ok rb'" "rb_bytes rb' (snd s) = xs"
      "buffer_size rb' = buffer_size (fst s)"
      by (rule getchar_first [OF ok c])
    then show ?thesis by (simp add: rb_get_def)
  qed
qed

text \<open>The calls as they are made, with the codes they return when they refuse.\<close>

fun rb_call :: "u8 fifo_cmd \<Rightarrow> rt_ringbuffer \<times> mem \<Rightarrow> (u8 option \<times> rt_ringbuffer \<times> mem) option" where
  "rb_call (Put ch) (rb, m) = (case rt_ringbuffer_putchar rb ch m of (_, rb, m) \<Rightarrow> Some (None, rb, m))"
| "rb_call Get (rb, m) = (case rt_ringbuffer_getchar rb m of (_, c, rb) \<Rightarrow> Some (c, rb, m))"

lemma rb_call_step:
  assumes "rb_ok (fst s)"
  shows "rb_call c s = Some (rbf.step c s)"
proof (cases c)
  case (Put x)
  show ?thesis
  proof (cases "rb_len (fst s) < rb_size (fst s)")
    case True
    then show ?thesis using Put by (cases s) (simp add: rb_put_def split: prod.splits)
  next
    case False
    then have "unat (rt_ringbuffer_space_len (fst s)) = 0" using space_len_nat [OF assms] by simp
    then have "rt_ringbuffer_space_len (fst s) = 0" by (simp add: unat_eq_zero)
    then show ?thesis using Put False by (cases s) (simp add: rt_ringbuffer_putchar_def)
  qed
next
  case Get
  show ?thesis
  proof (cases "rb_bytes (fst s) (snd s)")
    case Nil
    then have "unat (rt_ringbuffer_data_len (fst s)) = 0"
      using data_len_nat [OF assms] rb_bytes_length [of "fst s" "snd s"] by simp
    then have "rt_ringbuffer_data_len (fst s) = 0" by (simp add: unat_eq_zero)
    then show ?thesis using Get Nil by (cases s) (simp add: rt_ringbuffer_getchar_def)
  next
    case (Cons y ys)
    obtain rb' where "rt_ringbuffer_getchar (fst s) (snd s) = (1, Some y, rb')" "rb_ok rb'" "rb_bytes rb' (snd s) = ys"
      "buffer_size rb' = buffer_size (fst s)"
      by (rule getchar_first [OF assms Cons])
    then show ?thesis using Get Cons by (cases s) (simp add: rb_get_def)
  qed
qed

interpretation rbc: fifo_calls rb_call "\<lambda>s. rb_bytes (fst s) (snd s)" "\<lambda>s. rb_ok (fst s)" "\<lambda>s. rb_size (fst s)" "\<lambda>_. True"
proof
  fix s :: "rt_ringbuffer \<times> mem" and c assume ok: "rb_ok (fst s)"
  show "\<exists>out s'. rb_call c s = Some (out, s') \<and> rb_ok (fst s') \<and> rb_size (fst s') = rb_size (fst s) \<and>
      spec_step (rb_size (fst s)) c (rb_bytes (fst s) (snd s)) = (out, rb_bytes (fst s') (snd s'))"
    by (intro exI [of _ "fst (rbf.step c s)"] exI [of _ "snd (rbf.step c s)"])
      (simp add: rb_call_step [OF ok] rbf.step_refines [of s c, OF ok])
qed

subsection \<open>Properties\<close>

text \<open>C23. A ring buffer is a bounded first-in first-out buffer of characters: any sequence of
  \<open>rt_ringbuffer_putchar\<close> and \<open>rt_ringbuffer_getchar\<close> gives the characters and the refusals that a
  list of at most \<open>buffer_size\<close> bytes gives, across the ends of the buffer and its mirror bits.\<close>

theorem rt_ringbuffer_chars:
  assumes "rb_ok rb"
  shows "\<exists>outs rb' m'. calls rb_call cs (rb, m) = Some (outs, rb', m') \<and> rb_ok rb' \<and>
    spec_run (rb_size rb) cs (rb_bytes rb m) = (outs, rb_bytes rb' m')"
  using rbc.calls_refine [of "(rb, m)" cs] assms by (auto simp: list_all_iff)

definition demo_ring :: rt_ringbuffer where
  "demo_ring = \<lparr>buffer_ptr = 0x20060000, read_mirror = False, read_index = 3, write_mirror = False,
    write_index = 3, buffer_size = 4\<rparr>"

lemma demo_ring_ok: "rb_ok demo_ring"
  by (simp add: rb_ok_def demo_ring_def)

lemma rt_ringbuffer_chars_witness:
  "\<exists>rb' m'. calls rb_call [Put 1, Put 2, Put 3, Get, Put 4, Put 5, Put 6, Get, Get, Get, Get, Get] (demo_ring, \<lambda>_. 0)
    = Some ([1, 2, 3, 4, 5], rb', m') \<and> rb_bytes rb' m' = []"
  using rt_ringbuffer_chars [OF demo_ring_ok, of "[Put 1, Put 2, Put 3, Get, Put 4, Put 5, Put 6, Get, Get, Get, Get, Get]" "\<lambda>_. 0"]
  by (auto simp: rb_bytes_def rb_len_def ring_def demo_ring_def)

text \<open>A block put into a ring buffer is appended as far as there is room, and a block got from it
  takes the oldest bytes, in order, as far as there are any; what is read is what was written.\<close>

theorem rt_ringbuffer_put_get:
  assumes "rb_ok rb" "ranges_apart src (unat len) (buffer_ptr rb) (rb_size rb)"
    and "ranges_apart dst (unat len2) (buffer_ptr rb) (rb_size rb)"
  shows "\<exists>ret rb1 m1 ret2 rb2 m2. rt_ringbuffer_put rb src len m = (ret, rb1, m1) \<and>
    unat ret = min (unat len) (rb_size rb - rb_len rb) \<and>
    rb_bytes rb1 m1 = rb_bytes rb m @ load_bytes src (unat ret) m \<and>
    rt_ringbuffer_get rb1 dst len2 m1 = (ret2, rb2, m2) \<and> unat ret2 = min (unat len2) (rb_len rb1) \<and>
    load_bytes dst (unat ret2) m2 @ rb_bytes rb2 m2 = rb_bytes rb1 m1 \<and> rb_ok rb2"
proof -
  obtain ret rb1 m1 where p: "rt_ringbuffer_put rb src len m = (ret, rb1, m1)"
    "unat ret = min (unat len) (rb_size rb - rb_len rb)" "rb_ok rb1"
    "rb_bytes rb1 m1 = rb_bytes rb m @ load_bytes src (min (unat len) (rb_size rb - rb_len rb)) m"
    "buffer_size rb1 = buffer_size rb" "buffer_ptr rb1 = buffer_ptr rb"
    by (rule put_ok [OF assms(1,2)])
  have ap: "ranges_apart dst (unat len2) (buffer_ptr rb1) (rb_size rb1)" using assms(3) p(5,6) by simp
  obtain ret2 rb2 m2 where g: "rt_ringbuffer_get rb1 dst len2 m1 = (ret2, rb2, m2)"
    "unat ret2 = min (unat len2) (rb_len rb1)" "rb_ok rb2"
    "rb_bytes rb2 m2 = drop (min (unat len2) (rb_len rb1)) (rb_bytes rb1 m1)"
    "load_bytes dst (min (unat len2) (rb_len rb1)) m2 = take (min (unat len2) (rb_len rb1)) (rb_bytes rb1 m1)"
    by (rule get_ok [OF p(3) ap])
  have "load_bytes dst (unat ret2) m2 @ rb_bytes rb2 m2 = rb_bytes rb1 m1"
    unfolding g(2,4,5) by (rule append_take_drop_id)
  then show ?thesis using p(1,2,4) g(1-3) by simp
qed

lemma rt_ringbuffer_put_get_witness:
  "\<exists>ret rb1 m1 ret2 rb2 m2. rt_ringbuffer_put demo_ring 0x20061000 3 (\<lambda>a. ucast a) = (ret, rb1, m1) \<and>
    rt_ringbuffer_get rb1 0x20062000 9 m1 = (ret2, rb2, m2) \<and> unat ret2 = 3"
proof -
  have ap: "ranges_apart 0x20061000 (unat (3 :: u16)) (buffer_ptr demo_ring) (rb_size demo_ring)"
    "ranges_apart 0x20062000 (unat (9 :: u16)) (buffer_ptr demo_ring) (rb_size demo_ring)"
    by (simp_all add: ranges_apart_def demo_ring_def)
  obtain ret rb1 m1 ret2 rb2 m2 where r: "rt_ringbuffer_put demo_ring 0x20061000 3 (\<lambda>a. ucast a) = (ret, rb1, m1)"
    "rb_bytes rb1 m1 = rb_bytes demo_ring (\<lambda>a. ucast a) @ load_bytes 0x20061000 (unat ret) (\<lambda>a. ucast a)"
    "unat ret = min (unat (3 :: u16)) (rb_size demo_ring - rb_len demo_ring)"
    "rt_ringbuffer_get rb1 0x20062000 9 m1 = (ret2, rb2, m2)" "unat ret2 = min (unat (9 :: u16)) (rb_len rb1)"
    using rt_ringbuffer_put_get [OF demo_ring_ok ap, of "\<lambda>a. ucast a"] by blast
  have "rb_len rb1 = 3"
    using arg_cong [OF r(2), of length] r(3) by (simp add: rb_len_def demo_ring_def)
  then show ?thesis using r by auto
qed

text \<open>C33. \<open>rt_ringbuffer_put_force\<close> is \<open>rt_ringbuffer_put\<close> as long as the block fits. A block that does
  not fit is taken to be as long as the buffer, whatever its length; unless the buffer was empty
  both mirror bits flip, so that a buffer that held some bytes, its indices in the same mirror, is
  empty afterwards, although \<open>buffer_size\<close> bytes are reported as put.\<close>

theorem rt_ringbuffer_put_force_loses:
  assumes "rb_ok rb" "0 < len"
  shows "(unat len \<le> rb_size rb - rb_len rb \<longrightarrow>
      rt_ringbuffer_put_force rb ptr len m = rt_ringbuffer_put rb ptr len m) \<and>
    (rb_size rb - rb_len rb < unat len \<longrightarrow>
      (case rt_ringbuffer_put_force rb ptr len m of (ret, rb', m') \<Rightarrow>
         unat ret = rb_size rb \<and>
         rb_len rb' = (if read_mirror rb = write_mirror rb \<and> 0 < rb_len rb then 0 else rb_size rb)))"
proof (intro conjI impI)
  note sp = space_len_nat [OF assms(1)]
  show "rt_ringbuffer_put_force rb ptr len m = rt_ringbuffer_put rb ptr len m"
    if "unat len \<le> rb_size rb - rb_len rb"
  proof -
    have a: "\<not> rt_ringbuffer_space_len rb < len" using sp that by (simp add: word_less_nat_alt)
    moreover have "rt_ringbuffer_space_len rb \<noteq> 0" using a assms(2) by auto
    ultimately show ?thesis
      by (simp add: rt_ringbuffer_put_force_def rt_ringbuffer_put_def Let_def)
  qed
  assume big: "rb_size rb - rb_len rb < unat len"
  then have lt: "rt_ringbuffer_space_len rb < len" using sp by (simp add: word_less_nat_alt)
  have w: "\<not> int (unat (buffer_size rb)) < room_after rb (write_index rb)"
    using room_after_nat [OF assms(1), of "write_index rb"] by (simp del: of_nat_unat)
  show "case rt_ringbuffer_put_force rb ptr len m of (ret, rb', m') \<Rightarrow>
      unat ret = rb_size rb \<and>
      rb_len rb' = (if read_mirror rb = write_mirror rb \<and> 0 < rb_len rb then 0 else rb_size rb)"
  proof (cases "rt_ringbuffer_space_len rb < buffer_size rb")
    case True
    then have "0 < rb_len rb" using sp rb_okD(6) [OF assms(1)] by (simp add: word_less_nat_alt)
    then show ?thesis using True lt w
      by (auto simp: rt_ringbuffer_put_force_def Let_def rb_len_def simp del: of_nat_unat)
  next
    case False
    then have "rb_size rb \<le> rb_size rb - rb_len rb" using sp by (simp add: word_less_nat_alt)
    then have e: "rb_len rb = 0" using rb_okD(1,6) [OF assms(1)] by linarith
    have "index = rb_write rb" if "index = unat (word_of_int (int (rb_size rb) - room_after rb (write_index rb)) :: 15 word)" for index
      using that room_after_nat [OF assms(1)] by simp
    moreover have "read_mirror rb = write_mirror rb \<and> rb_read rb = rb_write rb"
      using e assms(1) by (auto simp: rb_ok_def rb_len_def split: if_splits)
    ultimately show ?thesis using False lt w e
      by (auto simp: rt_ringbuffer_put_force_def Let_def rb_len_def simp del: of_nat_unat)
  qed
qed

lemma rt_ringbuffer_put_force_loses_witness:
  "case rt_ringbuffer_put_force (demo_ring\<lparr>read_index := 2\<rparr>) 0x20061000 5 (\<lambda>_. 7) of
     (ret, rb', m') \<Rightarrow> unat ret = 4 \<and> rb_len rb' = 0"
proof -
  have "rb_ok (demo_ring\<lparr>read_index := 2\<rparr>)" by (simp add: rb_ok_def demo_ring_def)
  from rt_ringbuffer_put_force_loses [OF this, of 5 "0x20061000" "\<lambda>_. 7"] show ?thesis
    by (simp add: rb_len_def demo_ring_def)
qed

end
