(* ===== verification/Device.thy ===== *)
theory Device
  imports Scenario
begin

text \<open>
  The device interface of \<open>src/device.c\<close>: registration under a name, and operations that call the
  driver. A driver is a record of functions, an argument of the operations: a device names its
  own by numbers, \<open>None\<close> where the pointer is \<open>RT_NULL\<close>. What is printed on the console is
  left out.
\<close>

subsection \<open>Operations\<close>

abbreviation (input) RT_DEVICE_FLAG_STANDALONE :: u16 where "RT_DEVICE_FLAG_STANDALONE \<equiv> 0x8"
abbreviation (input) RT_DEVICE_FLAG_ACTIVATED :: u16 where "RT_DEVICE_FLAG_ACTIVATED \<equiv> 0x10"
abbreviation (input) RT_DEVICE_OFLAG_OPEN :: u16 where "RT_DEVICE_OFLAG_OPEN \<equiv> 0x8"
abbreviation (input) RT_DEVICE_OFLAG_CLOSE :: u16 where "RT_DEVICE_OFLAG_CLOSE \<equiv> 0"

record driver =
  drv_init :: "nat \<Rightarrow> addr \<Rightarrow> kernel \<Rightarrow> (rt_err \<times> kernel) option"
  drv_open :: "nat \<Rightarrow> addr \<Rightarrow> u16 \<Rightarrow> kernel \<Rightarrow> (rt_err \<times> kernel) option"
  drv_close :: "nat \<Rightarrow> addr \<Rightarrow> kernel \<Rightarrow> (rt_err \<times> kernel) option"
  drv_read :: "nat \<Rightarrow> addr \<Rightarrow> u32 \<Rightarrow> addr \<Rightarrow> u32 \<Rightarrow> kernel \<Rightarrow> (u32 \<times> kernel) option"
  drv_write :: "nat \<Rightarrow> addr \<Rightarrow> u32 \<Rightarrow> addr \<Rightarrow> u32 \<Rightarrow> kernel \<Rightarrow> (u32 \<times> kernel) option"
  drv_control :: "nat \<Rightarrow> addr \<Rightarrow> u8 \<Rightarrow> u32 \<Rightarrow> kernel \<Rightarrow> (rt_err \<times> kernel) option"

definition rt_device_find :: "cstr \<Rightarrow> kernel \<Rightarrow> (oref option \<times> kernel) option" where
  "rt_device_find name k = do {
     let k = (if rt_thread_self k \<noteq> None then rt_enter_critical k else k);
     let r = find_named k name (containers k RT_Object_Class_Device);
     k \<leftarrow> (if rt_thread_self k \<noteq> None then rt_exit_critical k else Some k);
     Some (r, k)
   }"

definition rt_device_register :: "addr \<Rightarrow> cstr \<Rightarrow> u16 \<Rightarrow> kernel \<Rightarrow> (rt_err \<times> kernel) option" where
  "rt_device_register d name flags k =
     (if d = 0 then Some (- RT_ERROR, k)
      else do {
        (r, k) \<leftarrow> rt_device_find name k;
        (if r \<noteq> None then Some (- RT_ERROR, k)
         else
           (let k = rt_object_init (Obj d) RT_Object_Class_Device name k;
                k = upd_dev d (\<lambda>v. v\<lparr>dev_flag := flags, ref_count := 0, open_flag := 0\<rparr>) k
            in Some (RT_EOK, k)))
      })"

definition rt_device_unregister :: "addr \<Rightarrow> kernel \<Rightarrow> (rt_err \<times> kernel) option" where
  "rt_device_unregister d k = do {
     rt_assert (d \<noteq> 0);
     k \<leftarrow> rt_object_detach (Obj d) k;
     Some (RT_EOK, k)
   }"

definition rt_device_init :: "driver \<Rightarrow> addr \<Rightarrow> kernel \<Rightarrow> (rt_err \<times> kernel) option" where
  "rt_device_init drv d k = do {
     rt_assert (d \<noteq> 0);
     (case dev_init (device k d) of
        None \<Rightarrow> Some (RT_EOK, k)
      | Some f \<Rightarrow>
          if dev_flag (device k d) AND RT_DEVICE_FLAG_ACTIVATED = 0 then do {
            (result, k) \<leftarrow> drv_init drv f d k;
            Some (if result \<noteq> RT_EOK then (result, k)
                  else (result, upd_dev d (\<lambda>v. v\<lparr>dev_flag := dev_flag v OR RT_DEVICE_FLAG_ACTIVATED\<rparr>) k))
          } else Some (RT_EOK, k))
   }"

text \<open>The first part of \<open>rt_device_open\<close>: initialising the device if that was not done yet.\<close>

definition device_activate :: "driver \<Rightarrow> addr \<Rightarrow> kernel \<Rightarrow> (rt_err \<times> kernel) option" where
  "device_activate drv d k =
     (if dev_flag (device k d) AND RT_DEVICE_FLAG_ACTIVATED = 0 then do {
        (result, k) \<leftarrow> (case dev_init (device k d) of
                          None \<Rightarrow> Some (RT_EOK, k) | Some f \<Rightarrow> drv_init drv f d k);
        Some (if result \<noteq> RT_EOK then (result, k)
              else (result, upd_dev d (\<lambda>v. v\<lparr>dev_flag := dev_flag v OR RT_DEVICE_FLAG_ACTIVATED\<rparr>) k))
      } else Some (RT_EOK, k))"

definition rt_device_open :: "driver \<Rightarrow> addr \<Rightarrow> u16 \<Rightarrow> kernel \<Rightarrow> (rt_err \<times> kernel) option" where
  "rt_device_open drv d oflag k = do {
     rt_assert (d \<noteq> 0);
     (result, k) \<leftarrow> device_activate drv d k;
     (if result \<noteq> RT_EOK then Some (result, k)
      else if dev_flag (device k d) AND RT_DEVICE_FLAG_STANDALONE \<noteq> 0 \<and>
              open_flag (device k d) AND RT_DEVICE_OFLAG_OPEN \<noteq> 0
      then Some (- RT_EBUSY, k)
      else do {
        (result, k) \<leftarrow> (case dev_open (device k d) of
                          None \<Rightarrow> Some (result, k) | Some f \<Rightarrow> drv_open drv f d oflag k);
        (if result = RT_EOK \<or> result = - RT_ENOSYS then do {
           let k = upd_dev d (\<lambda>v. v\<lparr>open_flag := oflag OR RT_DEVICE_OFLAG_OPEN,
                                     ref_count := ref_count v + 1\<rparr>) k;
           rt_assert (ref_count (device k d) \<noteq> 0);
           Some (result, k)
         } else Some (result, k))
      })
   }"

definition rt_device_close :: "driver \<Rightarrow> addr \<Rightarrow> kernel \<Rightarrow> (rt_err \<times> kernel) option" where
  "rt_device_close drv d k = do {
     rt_assert (d \<noteq> 0);
     (if ref_count (device k d) = 0 then Some (- RT_ERROR, k)
      else do {
        let k = upd_dev d (\<lambda>v. v\<lparr>ref_count := ref_count v - 1\<rparr>) k;
        (if ref_count (device k d) \<noteq> 0 then Some (RT_EOK, k)
         else do {
           (result, k) \<leftarrow> (case dev_close (device k d) of
                             None \<Rightarrow> Some (RT_EOK, k) | Some f \<Rightarrow> drv_close drv f d k);
           Some (result, if result = RT_EOK \<or> result = - RT_ENOSYS
                         then upd_dev d (\<lambda>v. v\<lparr>open_flag := RT_DEVICE_OFLAG_CLOSE\<rparr>) k else k)
         })
      })
   }"

definition rt_device_read ::
  "driver \<Rightarrow> addr \<Rightarrow> u32 \<Rightarrow> addr \<Rightarrow> u32 \<Rightarrow> kernel \<Rightarrow> (u32 \<times> kernel) option" where
  "rt_device_read drv d pos buffer sz k = do {
     rt_assert (d \<noteq> 0);
     (if ref_count (device k d) = 0 then Some (0, rt_set_errno (- RT_ERROR) k)
      else (case dev_read (device k d) of
              Some f \<Rightarrow> drv_read drv f d pos buffer sz k
            | None \<Rightarrow> Some (0, rt_set_errno (- RT_ENOSYS) k)))
   }"

definition rt_device_write ::
  "driver \<Rightarrow> addr \<Rightarrow> u32 \<Rightarrow> addr \<Rightarrow> u32 \<Rightarrow> kernel \<Rightarrow> (u32 \<times> kernel) option" where
  "rt_device_write drv d pos buffer sz k = do {
     rt_assert (d \<noteq> 0);
     (if ref_count (device k d) = 0 then Some (0, rt_set_errno (- RT_ERROR) k)
      else (case dev_write (device k d) of
              Some f \<Rightarrow> drv_write drv f d pos buffer sz k
            | None \<Rightarrow> Some (0, rt_set_errno (- RT_ENOSYS) k)))
   }"

definition rt_device_control ::
  "driver \<Rightarrow> addr \<Rightarrow> u8 \<Rightarrow> u32 \<Rightarrow> kernel \<Rightarrow> (rt_err \<times> kernel) option" where
  "rt_device_control drv d cmd arg k = do {
     rt_assert (d \<noteq> 0);
     (case dev_control (device k d) of
        Some f \<Rightarrow> drv_control drv f d cmd arg k | None \<Rightarrow> Some (RT_EOK, k))
   }"

definition rt_device_set_rx_indicate :: "addr \<Rightarrow> nat option \<Rightarrow> kernel \<Rightarrow> (rt_err \<times> kernel) option" where
  "rt_device_set_rx_indicate d f k = do {
     rt_assert (d \<noteq> 0);
     Some (RT_EOK, upd_dev d (\<lambda>v. v\<lparr>rx_indicate := f\<rparr>) k)
   }"

definition rt_device_set_tx_complete :: "addr \<Rightarrow> nat option \<Rightarrow> kernel \<Rightarrow> (rt_err \<times> kernel) option" where
  "rt_device_set_tx_complete d f k = do {
     rt_assert (d \<noteq> 0);
     Some (RT_EOK, upd_dev d (\<lambda>v. v\<lparr>tx_complete := f\<rparr>) k)
   }"

subsection \<open>Opening and closing\<close>

text \<open>A driver that succeeds and leaves the record of the device to the interface.\<close>

definition quiet_driver :: "driver \<Rightarrow> addr \<Rightarrow> bool" where
  "quiet_driver drv d =
     (\<forall>f k. (\<exists>k'. drv_init drv f d k = Some (RT_EOK, k') \<and> device k' d = device k d) \<and>
       (\<forall>flags. \<exists>k'. drv_open drv f d flags k = Some (RT_EOK, k') \<and> device k' d = device k d) \<and>
       (\<exists>k'. drv_close drv f d k = Some (RT_EOK, k') \<and> device k' d = device k d))"

lemma quiet_driverD:
  assumes "quiet_driver drv d"
  shows "\<exists>k'. drv_init drv f d k = Some (RT_EOK, k') \<and> device k' d = device k d"
    "\<exists>k'. drv_open drv f d flags k = Some (RT_EOK, k') \<and> device k' d = device k d"
    "\<exists>k'. drv_close drv f d k = Some (RT_EOK, k') \<and> device k' d = device k d"
  using assms by (simp_all add: quiet_driver_def)

fun open_all :: "driver \<Rightarrow> addr \<Rightarrow> u16 list \<Rightarrow> kernel \<Rightarrow> kernel option" where
  "open_all drv d [] k = Some k"
| "open_all drv d (f # fs) k = do {
     (e, k) \<leftarrow> rt_device_open drv d f k;
     rt_assert (e = RT_EOK);
     open_all drv d fs k
   }"

fun close_all :: "driver \<Rightarrow> addr \<Rightarrow> nat \<Rightarrow> kernel \<Rightarrow> kernel option" where
  "close_all drv d 0 k = Some k"
| "close_all drv d (Suc n) k = do {
     (e, k) \<leftarrow> rt_device_close drv d k;
     rt_assert (e = RT_EOK);
     close_all drv d n k
   }"

lemma flag_set:
  assumes "(w :: u16) AND 2 ^ n \<noteq> 0"
  shows "w OR 2 ^ n = w"
proof -
  have "bit w n" using assms and_exp_eq_0_iff_not_bit [of w n] by blast
  then show ?thesis by (intro bit_word_eqI) (auto simp: bit_or_iff bit_exp_iff)
qed

lemma activate_quiet:
  assumes "quiet_driver drv d"
  obtains k' where "device_activate drv d k = Some (RT_EOK, k')"
    "device k' d = (device k d)\<lparr>dev_flag := dev_flag (device k d) OR RT_DEVICE_FLAG_ACTIVATED\<rparr>"
proof (cases "dev_flag (device k d) AND 0x10 = 0")
  case True
  obtain k1 where k1: "(case dev_init (device k d) of None \<Rightarrow> Some (RT_EOK, k) | Some f \<Rightarrow> drv_init drv f d k) = Some (RT_EOK, k1)"
    "device k1 d = device k d"
  proof (cases "dev_init (device k d)")
    case (Some f)
    then show ?thesis using that quiet_driverD(1) [OF assms, of f k] by auto
  qed (use that in simp)
  then show ?thesis
    using that [of "upd_dev d (\<lambda>v. v\<lparr>dev_flag := dev_flag v OR RT_DEVICE_FLAG_ACTIVATED\<rparr>) k1"] True
    by (simp add: device_activate_def)
next
  case False
  have "dev_flag (device k d) OR 2 ^ 4 = dev_flag (device k d)"
    by (rule flag_set) (use False in simp)
  then show ?thesis using that [of k] False by (simp add: device_activate_def)
qed

lemma open_quiet:
  assumes q: "quiet_driver drv d" and d: "d \<noteq> 0" and s: "dev_flag (device k d) AND RT_DEVICE_FLAG_STANDALONE = 0"
    and n: "ref_count (device k d) + 1 \<noteq> 0"
  obtains k' where "rt_device_open drv d f k = Some (RT_EOK, k')"
    "device k' d = (device k d)\<lparr>dev_flag := dev_flag (device k d) OR RT_DEVICE_FLAG_ACTIVATED,
       open_flag := f OR RT_DEVICE_OFLAG_OPEN, ref_count := ref_count (device k d) + 1\<rparr>"
proof -
  obtain k1 where k1: "device_activate drv d k = Some (RT_EOK, k1)"
    "device k1 d = (device k d)\<lparr>dev_flag := dev_flag (device k d) OR RT_DEVICE_FLAG_ACTIVATED\<rparr>"
    by (rule activate_quiet [OF q])
  have s1: "dev_flag (device k1 d) AND 8 = 0"
  proof -
    have "(dev_flag (device k d) OR 0x10) AND 8 = (dev_flag (device k d) AND 8) OR (0x10 AND 8)"
      by (simp only: bit.conj_disj_distrib2)
    then show ?thesis using s k1(2) by simp
  qed
  obtain k2 where k2: "(case dev_open (device k1 d) of None \<Rightarrow> Some (RT_EOK, k1) | Some g \<Rightarrow> drv_open drv g d f k1) =
      Some (RT_EOK, k2)" "device k2 d = device k1 d"
  proof (cases "dev_open (device k1 d)")
    case (Some g)
    then show ?thesis using that quiet_driverD(2) [OF q, of g f k1] by auto
  qed (use that in simp)
  let ?k = "upd_dev d (\<lambda>v. v\<lparr>open_flag := f OR RT_DEVICE_OFLAG_OPEN, ref_count := ref_count v + 1\<rparr>) k2"
  have "rt_device_open drv d f k = Some (RT_EOK, ?k)"
    using d k1 s1 k2 n by (simp add: rt_device_open_def)
  then show ?thesis using that [of ?k] k1(2) k2(2) by simp
qed

lemma open_all_quiet:
  assumes "quiet_driver drv d" "d \<noteq> 0" "dev_flag (device k d) AND RT_DEVICE_FLAG_STANDALONE = 0"
    and "unat (ref_count (device k d)) + length fs < 2 ^ 8" "fs \<noteq> []"
  shows "\<exists>k'. open_all drv d fs k = Some k' \<and>
    device k' d = (device k d)\<lparr>dev_flag := dev_flag (device k d) OR RT_DEVICE_FLAG_ACTIVATED,
      open_flag := last fs OR RT_DEVICE_OFLAG_OPEN, ref_count := ref_count (device k d) + of_nat (length fs)\<rparr>"
  using assms(3-5)
proof (induction fs arbitrary: k)
  case (Cons f fs)
  have n: "ref_count (device k d) + 1 \<noteq> 0"
  proof
    assume "ref_count (device k d) + 1 = 0"
    then have "unat (ref_count (device k d) + 1) = 0" by simp
    then show False using Cons.prems(2) by (simp add: unat_word_ariths)
  qed
  obtain k1 where k1: "rt_device_open drv d f k = Some (RT_EOK, k1)"
    "device k1 d = (device k d)\<lparr>dev_flag := dev_flag (device k d) OR RT_DEVICE_FLAG_ACTIVATED,
       open_flag := f OR RT_DEVICE_OFLAG_OPEN, ref_count := ref_count (device k d) + 1\<rparr>"
    by (rule open_quiet [OF assms(1,2) Cons.prems(1) n])
  show ?case
  proof (cases "fs = []")
    case True
    then show ?thesis using k1 by simp
  next
    case False
    have s1: "dev_flag (device k1 d) AND 8 = 0"
    proof -
      have "(dev_flag (device k d) OR 0x10) AND 8 = (dev_flag (device k d) AND 8) OR (0x10 AND 8)"
        by (simp only: bit.conj_disj_distrib2)
      then show ?thesis using Cons.prems(1) k1(2) by simp
    qed
    have "unat (ref_count (device k1 d)) = unat (ref_count (device k d)) + 1"
      using Cons.prems(2) k1(2) by (simp add: unat_word_ariths)
    then have "unat (ref_count (device k1 d)) + length fs < 2 ^ 8" using Cons.prems(2) by simp
    then obtain k' where "open_all drv d fs k1 = Some k'"
      "device k' d = (device k1 d)\<lparr>dev_flag := dev_flag (device k1 d) OR RT_DEVICE_FLAG_ACTIVATED,
        open_flag := last fs OR RT_DEVICE_OFLAG_OPEN, ref_count := ref_count (device k1 d) + of_nat (length fs)\<rparr>"
      using Cons.IH [OF s1 _ False] by blast
    then show ?thesis using k1 False by (simp add: or.assoc add.assoc)
  qed
qed simp

lemma close_all_quiet:
  assumes "quiet_driver drv d" "d \<noteq> 0"
  shows "unat (ref_count (device k d)) = n \<Longrightarrow> 0 < n \<Longrightarrow>
    \<exists>k'. close_all drv d n k = Some k' \<and> device k' d = (device k d)\<lparr>open_flag := RT_DEVICE_OFLAG_CLOSE, ref_count := 0\<rparr>"
proof (induction n arbitrary: k)
  case (Suc n)
  let ?k = "upd_dev d (\<lambda>v. v\<lparr>ref_count := ref_count v - 1\<rparr>) k"
  have r0: "ref_count (device k d) \<noteq> 0" using Suc.prems(1) by auto
  have r1: "unat (ref_count (device ?k d)) = n"
    using Suc.prems(1) r0 by (simp add: unat_minus_one)
  show ?case
  proof (cases "n = 0")
    case False
    then have "ref_count (device ?k d) \<noteq> 0" using r1 by auto
    then have "rt_device_close drv d k = Some (RT_EOK, ?k)"
      using assms(2) r0 by (simp add: rt_device_close_def)
    moreover obtain k' where "close_all drv d n ?k = Some k'"
      "device k' d = (device ?k d)\<lparr>open_flag := RT_DEVICE_OFLAG_CLOSE, ref_count := 0\<rparr>"
      using Suc.IH [OF r1] False by blast
    ultimately show ?thesis by simp
  next
    case True
    then have z: "ref_count (device ?k d) = 0" using r1 by (simp add: unat_eq_zero)
    obtain k2 where k2: "(case dev_close (device ?k d) of None \<Rightarrow> Some (RT_EOK, ?k) | Some f \<Rightarrow> drv_close drv f d ?k) =
        Some (RT_EOK, k2)" "device k2 d = device ?k d"
    proof (cases "dev_close (device ?k d)")
      case (Some f)
      then show ?thesis using that quiet_driverD(3) [OF assms(1), of f ?k] by auto
    qed (use that in simp)
    have "rt_device_close drv d k = Some (RT_EOK, upd_dev d (\<lambda>v. v\<lparr>open_flag := RT_DEVICE_OFLAG_CLOSE\<rparr>) k2)"
      using assms(2) r0 z k2(1) by (simp add: rt_device_close_def)
    then show ?thesis using True z k2(2) by simp
  qed
qed simp

subsection \<open>Properties\<close>

text \<open>Opens and closes are counted: after any sequence of opens the device is open in the mode of the
  last, as many closes succeed as there were opens, the last of them closes the device, and one more
  is refused.\<close>

theorem rt_device_open_close:
  assumes "quiet_driver drv d" "d \<noteq> 0" "dev_flag (device k d) AND RT_DEVICE_FLAG_STANDALONE = 0"
    and "ref_count (device k d) = 0" "length fs < 2 ^ 8" "fs \<noteq> []"
  shows "\<exists>k1 k2. open_all drv d fs k = Some k1 \<and> open_flag (device k1 d) = last fs OR RT_DEVICE_OFLAG_OPEN \<and>
    ref_count (device k1 d) = of_nat (length fs) \<and>
    close_all drv d (length fs) k1 = Some k2 \<and> open_flag (device k2 d) = RT_DEVICE_OFLAG_CLOSE \<and>
    ref_count (device k2 d) = 0 \<and> rt_device_close drv d k2 = Some (- RT_ERROR, k2)"
proof -
  have n: "unat (ref_count (device k d)) + length fs < 2 ^ 8" using assms(4,5) by simp
  obtain k1 where k1: "open_all drv d fs k = Some k1"
    "device k1 d = (device k d)\<lparr>dev_flag := dev_flag (device k d) OR RT_DEVICE_FLAG_ACTIVATED,
      open_flag := last fs OR RT_DEVICE_OFLAG_OPEN, ref_count := ref_count (device k d) + of_nat (length fs)\<rparr>"
    using open_all_quiet [OF assms(1-3) n assms(6)] by blast
  have r1: "ref_count (device k1 d) = of_nat (length fs)" using k1(2) assms(4) by simp
  have "unat (ref_count (device k1 d)) = length fs"
    unfolding r1 using assms(5) by (subst unsigned_of_nat) (simp add: take_bit_nat_eq_self)
  moreover have "0 < length fs" using assms(6) by simp
  ultimately obtain k2 where k2: "close_all drv d (length fs) k1 = Some k2"
    "device k2 d = (device k1 d)\<lparr>open_flag := RT_DEVICE_OFLAG_CLOSE, ref_count := 0\<rparr>"
    using close_all_quiet [OF assms(1,2)] by blast
  have "rt_device_close drv d k2 = Some (- RT_ERROR, k2)" using k2(2) assms(2) by (simp add: rt_device_close_def)
  then show ?thesis using k1 r1 k2 by (intro exI [of _ k1] exI [of _ k2]) simp
qed

definition demo_driver :: driver where
  "demo_driver = \<lparr>drv_init = \<lambda>_ _ k. Some (RT_EOK, k), drv_open = \<lambda>_ _ _ k. Some (RT_EOK, k),
     drv_close = \<lambda>f _ k. Some (if f = 0 then RT_EOK else - RT_ERROR, k),
     drv_read = \<lambda>_ _ _ _ n k. Some (n, k), drv_write = \<lambda>_ _ _ _ n k. Some (n, k),
     drv_control = \<lambda>_ _ _ _ k. Some (RT_EOK, k)\<rparr>"

definition quiet_demo :: driver where
  "quiet_demo = demo_driver\<lparr>drv_close := \<lambda>_ _ k. Some (RT_EOK, k)\<rparr>"

lemma rt_device_open_close_witness:
  "\<exists>k1 k2. open_all quiet_demo 0x2a00 [1, 2, 3] demo = Some k1 \<and> ref_count (device k1 0x2a00) = 3 \<and>
    close_all quiet_demo 0x2a00 3 k1 = Some k2 \<and> ref_count (device k2 0x2a00) = 0"
proof -
  have "quiet_driver quiet_demo 0x2a00" by (simp add: quiet_driver_def quiet_demo_def demo_driver_def)
  then show ?thesis
    using rt_device_open_close [of quiet_demo "0x2a00" demo "[1, 2, 3]"] by (auto simp: demo_def numeral_3_eq_3)
qed

text \<open>C40. When the driver fails to close a stand-alone device, the device is lost: the count is 0 already,
  so it cannot be closed again, and its open flag is still set, so it cannot be opened either.\<close>

theorem rt_device_close_failed:
  assumes "d \<noteq> 0" "ref_count (device k d) = 1" "open_flag (device k d) AND RT_DEVICE_OFLAG_OPEN \<noteq> 0"
    and "dev_flag (device k d) AND RT_DEVICE_FLAG_STANDALONE \<noteq> 0" "dev_flag (device k d) AND RT_DEVICE_FLAG_ACTIVATED \<noteq> 0"
    and "dev_close (device k d) = Some f" "e \<noteq> RT_EOK" "e \<noteq> - RT_ENOSYS"
    and "drv_close drv f d (upd_dev d (\<lambda>v. v\<lparr>ref_count := 0\<rparr>) k) = Some (e, k')"
    and "device k' d = (device k d)\<lparr>ref_count := 0\<rparr>"
  shows "rt_device_close drv d k = Some (e, k') \<and> rt_device_close drv d k' = Some (- RT_ERROR, k') \<and>
    rt_device_open drv d oflag k' = Some (- RT_EBUSY, k')"
proof -
  have "upd_dev d (\<lambda>v. v\<lparr>ref_count := ref_count v - 1\<rparr>) k = upd_dev d (\<lambda>v. v\<lparr>ref_count := 0\<rparr>) k"
    using assms(2) by (simp add: upd_dev_def fun_eq_iff)
  then have "rt_device_close drv d k = Some (e, k')"
    using assms(1,2,6-9) by (simp add: rt_device_close_def Let_def)
  moreover have "rt_device_close drv d k' = Some (- RT_ERROR, k')" using assms(1,10) by (simp add: rt_device_close_def)
  moreover have "rt_device_open drv d oflag k' = Some (- RT_EBUSY, k')"
    using assms(1,3-5,10) by (simp add: rt_device_open_def device_activate_def)
  ultimately show ?thesis by blast
qed

lemma rt_device_close_failed_witness:
  "\<exists>k k'. rt_device_close demo_driver 0x2a00 k = Some (- RT_ERROR, k') \<and>
    rt_device_open demo_driver 0x2a00 3 k' = Some (- RT_EBUSY, k')"
proof -
  let ?k = "upd_dev 0x2a00 (\<lambda>v. v\<lparr>dev_flag := 0x1b, open_flag := 0xb, ref_count := 1, dev_close := Some 1\<rparr>) demo"
  let ?k' = "upd_dev 0x2a00 (\<lambda>v. v\<lparr>ref_count := 0\<rparr>) ?k"
  show ?thesis
    using rt_device_close_failed [of "0x2a00" ?k 1 "- RT_ERROR" demo_driver ?k' 3] by (auto simp: demo_driver_def)
qed

end
