(* ===== verification/Driveripc.thy ===== *)
theory Driveripc
  imports Mailbox Device Clock
begin

text \<open>
  The objects drivers wait on, \<open>completion.c\<close> and \<open>dataqueue.c\<close> of \<open>components/drivers/src\<close>: a
  completion is a flag one thread waits for, a data queue a ring of pointers to blocks of data
  with a low-water mark. The readers of a data queue wait on its \<open>Suspend_list\<close>, the writers on
  its \<open>Sender_list\<close>. A notification function is the application's, an argument \<open>notify\<close>.
\<close>

subsection \<open>Completions\<close>

definition rt_completion_init :: "addr \<Rightarrow> kernel \<Rightarrow> kernel option" where
  "rt_completion_init c k = do {
     rt_assert (c \<noteq> 0);
     let k = k\<lparr>completed := (completed k)(c := False)\<rparr>;
     Some (k\<lparr>tlists := (tlists k)(Suspend_list c := [])\<rparr>)
   }"

definition rt_completion_wait_wake :: "addr \<Rightarrow> addr \<Rightarrow> kernel \<Rightarrow> rt_err \<times> kernel" where
  "rt_completion_wait_wake c t k =
     (t_error (thread k t), k\<lparr>completed := (completed k)(c := False)\<rparr>)"

text \<open>Suspending a thread at the end of a list, with or without a time limit.\<close>

definition driver_wait :: "qhead \<Rightarrow> addr \<Rightarrow> s32 \<Rightarrow> kernel \<Rightarrow> kernel option" where
  "driver_wait h t timeout k = do {
     let k = upd_thread t (\<lambda>th. th\<lparr>t_error := RT_EOK\<rparr>) k;
     (_, k) \<leftarrow> rt_thread_suspend t k;
     let k = k\<lparr>tlists := lists_insert_last h t (tlists k)\<rparr>;
     RT_DEBUG_NOT_IN_INTERRUPT k;
     k \<leftarrow> (if 0 <s timeout then do {
             (_, _, k) \<leftarrow> rt_timer_control (Thread_timer t) 0 timeout k;
             (_, k) \<leftarrow> rt_timer_start (Thread_timer t) k;
             Some k
           } else Some k);
     rt_schedule k
   }"

definition rt_completion_wait ::
  "addr \<Rightarrow> s32 \<Rightarrow> kernel \<Rightarrow> ((rt_err, addr) outcome \<times> kernel) option" where
  "rt_completion_wait c timeout k = do {
     rt_assert (c \<noteq> 0);
     (if completed k c then Some (Done RT_EOK, k\<lparr>completed := (completed k)(c := False)\<rparr>)
      else do {
        rt_assert (tlists k (Suspend_list c) = []);
        (if timeout = 0 then Some (Done (- RT_ETIMEOUT), k)
         else do {
           t \<leftarrow> rt_thread_self k;
           k \<leftarrow> driver_wait (Suspend_list c) t timeout k;
           (if current k = Some t then
              (let (e, k) = rt_completion_wait_wake c t k in Some (Done e, k))
            else Some (Blocked t, k))
         })
      })
   }"

definition rt_completion_done :: "addr \<Rightarrow> kernel \<Rightarrow> kernel option" where
  "rt_completion_done c k = do {
     rt_assert (c \<noteq> 0);
     (if completed k c then Some k
      else ipc_wake_one (Suspend_list c) (k\<lparr>completed := (completed k)(c := True)\<rparr>))
   }"

subsection \<open>Data queues\<close>

abbreviation (input) RT_DATAQUEUE_EVENT_POP :: u32 where "RT_DATAQUEUE_EVENT_POP \<equiv> 1"
abbreviation (input) RT_DATAQUEUE_EVENT_PUSH :: u32 where "RT_DATAQUEUE_EVENT_PUSH \<equiv> 2"
abbreviation (input) RT_DATAQUEUE_EVENT_LWM :: u32 where "RT_DATAQUEUE_EVENT_LWM \<equiv> 3"

type_synonym notifier = "nat \<Rightarrow> addr \<Rightarrow> u32 \<Rightarrow> kernel \<Rightarrow> kernel option"

definition rt_data_queue_init ::
  "addr \<Rightarrow> u16 \<Rightarrow> u16 \<Rightarrow> nat option \<Rightarrow> kernel \<Rightarrow> (rt_err \<times> kernel) option" where
  "rt_data_queue_init q sz low f k = do {
     rt_assert (q \<noteq> 0);
     let k = upd_dq q (\<lambda>d. d\<lparr>evt_notify := f, dq_size := sz, lwm := low, waiting_lwm := False,
                              get_index := 0, put_index := 0\<rparr>) k;
     let k = k\<lparr>tlists := (tlists k)(Sender_list q := [], Suspend_list q := [])\<rparr>;
     (p, k) \<leftarrow> RT_KERNEL_MALLOC (8 * ucast sz) k;
     let k = upd_dq q (\<lambda>d. d\<lparr>dq_items := p\<rparr>) k;
     Some (if p = None then - RT_ENOMEM else RT_EOK, k)
   }"

text \<open>\<open>queue->put_index - queue->get_index\<close>, computed in \<open>int\<close>.\<close>

definition dq_used :: "rt_data_queue \<Rightarrow> int" where
  "dq_used d = int (unat (put_index d)) - int (unat (get_index d))"

definition dq_slot :: "rt_data_queue \<Rightarrow> u16 \<Rightarrow> nat" where
  "dq_slot d i = unat (i AND (dq_size d - 1))"

definition notify_event :: "notifier \<Rightarrow> addr \<Rightarrow> u32 \<Rightarrow> kernel \<Rightarrow> kernel option" where
  "notify_event notify q ev k =
     (case evt_notify (data_queue k q) of None \<Rightarrow> Some k | Some f \<Rightarrow> notify f q ev k)"

text \<open>
  The code of a push behind its loop; \<open>dq_items\<close> is the array, and there is no slot to write to
  when its allocation failed.
\<close>

definition dq_put :: "notifier \<Rightarrow> addr \<Rightarrow> addr \<Rightarrow> u32 \<Rightarrow> kernel \<Rightarrow> (rt_err \<times> kernel) option" where
  "dq_put notify q ptr len k = do {
     _ \<leftarrow> dq_items (data_queue k q);
     let k = upd_dq q (\<lambda>d. d\<lparr>dq_item := (dq_item d)(dq_slot d (put_index d) := (ptr, len)),
                              put_index := put_index d + 1\<rparr>) k;
     (if tlists k (Suspend_list q) \<noteq> [] then do {
        k \<leftarrow> rt_ipc_list_resume (Suspend_list q) k;
        k \<leftarrow> rt_schedule k;
        Some (RT_EOK, k)
      } else do {
        k \<leftarrow> notify_event notify q RT_DATAQUEUE_EVENT_PUSH k;
        Some (RT_EOK, k)
      })
   }"

partial_function (option) dq_push_loop ::
  "notifier \<Rightarrow> addr \<Rightarrow> addr \<Rightarrow> u32 \<Rightarrow> s32 \<Rightarrow> kernel \<Rightarrow> ((rt_err, addr) outcome \<times> kernel) option" where
  "dq_push_loop notify q ptr len timeout k =
     (if dq_used (data_queue k q) = int (unat (dq_size (data_queue k q))) then do {
        let k = upd_dq q (\<lambda>d. d\<lparr>waiting_lwm := True\<rparr>) k;
        (if timeout = 0 then Some (Done (- RT_ETIMEOUT), k)
         else do {
           RT_DEBUG_NOT_IN_INTERRUPT k;
           t \<leftarrow> rt_thread_self k;
           k \<leftarrow> driver_wait (Sender_list q) t timeout k;
           (if current k \<noteq> Some t then Some (Blocked t, k)
            else if t_error (thread k t) \<noteq> RT_EOK then Some (Done (t_error (thread k t)), k)
            else dq_push_loop notify q ptr len timeout k)
         })
      }
      else do {
        (e, k) \<leftarrow> dq_put notify q ptr len k;
        Some (Done e, k)
      })"

definition rt_data_queue_push ::
  "notifier \<Rightarrow> addr \<Rightarrow> addr \<Rightarrow> u32 \<Rightarrow> s32 \<Rightarrow> kernel \<Rightarrow> ((rt_err, addr) outcome \<times> kernel) option" where
  "rt_data_queue_push notify q ptr len timeout k = do {
     rt_assert (q \<noteq> 0);
     dq_push_loop notify q ptr len timeout k
   }"

definition rt_data_queue_push_wake ::
  "notifier \<Rightarrow> addr \<Rightarrow> addr \<Rightarrow> u32 \<Rightarrow> s32 \<Rightarrow> addr \<Rightarrow> kernel \<Rightarrow>
    ((rt_err, addr) outcome \<times> kernel) option" where
  "rt_data_queue_push_wake notify q ptr len timeout t k =
     (if t_error (thread k t) \<noteq> RT_EOK then Some (Done (t_error (thread k t)), k)
      else dq_push_loop notify q ptr len timeout k)"

text \<open>
  The code of a pop behind its loop, with the item it writes to its two arguments. When the
  thread it wakes is switched to, the notification is left to do; a caller that waits for an item
  has its own thread to remember. In an interrupt there is no switch before the end of the call.
\<close>

datatype pop_local = Pop_waits addr | Pop_notifies "addr \<times> u32"

type_synonym popped = "(rt_err \<times> (addr \<times> u32) option, pop_local) outcome"

definition dq_get :: "notifier \<Rightarrow> addr \<Rightarrow> kernel \<Rightarrow> (popped \<times> kernel) option" where
  "dq_get notify q k = do {
     _ \<leftarrow> dq_items (data_queue k q);
     let self = rt_thread_self k;
     let item = dq_item (data_queue k q) (dq_slot (data_queue k q) (get_index (data_queue k q)));
     let k = upd_dq q (\<lambda>d. d\<lparr>get_index := get_index d + 1\<rparr>) k;
     (if waiting_lwm (data_queue k q) \<and> dq_used (data_queue k q) \<le> int (unat (lwm (data_queue k q)))
      then do {
        let k = upd_dq q (\<lambda>d. d\<lparr>waiting_lwm := False\<rparr>) k;
        k \<leftarrow> ipc_wake_one (Sender_list q) k;
        (if current k = self \<or> rt_interrupt_get_nest k \<noteq> 0 then do {
           k \<leftarrow> notify_event notify q RT_DATAQUEUE_EVENT_LWM k;
           Some (Done (RT_EOK, Some item), k)
         } else Some (Blocked (Pop_notifies item), k))
      } else do {
        k \<leftarrow> notify_event notify q RT_DATAQUEUE_EVENT_POP k;
        Some (Done (RT_EOK, Some item), k)
      })
   }"

partial_function (option) dq_pop_loop ::
  "notifier \<Rightarrow> addr \<Rightarrow> s32 \<Rightarrow> kernel \<Rightarrow> (popped \<times> kernel) option" where
  "dq_pop_loop notify q timeout k =
     (if get_index (data_queue k q) = put_index (data_queue k q) then
        (if timeout = 0 then Some (Done (- RT_ETIMEOUT, None), k)
         else do {
           RT_DEBUG_NOT_IN_INTERRUPT k;
           t \<leftarrow> rt_thread_self k;
           k \<leftarrow> driver_wait (Suspend_list q) t timeout k;
           (if current k \<noteq> Some t then Some (Blocked (Pop_waits t), k)
            else if t_error (thread k t) \<noteq> RT_EOK then Some (Done (t_error (thread k t), None), k)
            else dq_pop_loop notify q timeout k)
         })
      else dq_get notify q k)"

text \<open>The pointers \<open>data_ptr\<close> and \<open>size\<close> that the item is written to are not \<open>RT_NULL\<close>.\<close>

definition rt_data_queue_pop :: "notifier \<Rightarrow> addr \<Rightarrow> s32 \<Rightarrow> kernel \<Rightarrow> (popped \<times> kernel) option" where
  "rt_data_queue_pop notify q timeout k = do {
     rt_assert (q \<noteq> 0);
     dq_pop_loop notify q timeout k
   }"

definition rt_data_queue_pop_wake ::
  "notifier \<Rightarrow> addr \<Rightarrow> s32 \<Rightarrow> pop_local \<Rightarrow> kernel \<Rightarrow> (popped \<times> kernel) option" where
  "rt_data_queue_pop_wake notify q timeout l k =
     (case l of
        Pop_waits t \<Rightarrow>
          if t_error (thread k t) \<noteq> RT_EOK then Some (Done (t_error (thread k t), None), k)
          else dq_pop_loop notify q timeout k
      | Pop_notifies item \<Rightarrow> do {
          k \<leftarrow> notify_event notify q RT_DATAQUEUE_EVENT_LWM k;
          Some (Done (RT_EOK, Some item), k)
        })"

definition rt_data_queue_peak :: "addr \<Rightarrow> kernel \<Rightarrow> (rt_err \<times> (addr \<times> u32) option) option" where
  "rt_data_queue_peak q k = do {
     rt_assert (q \<noteq> 0);
     let d = data_queue k q;
     (if get_index d = put_index d then Some (- RT_EEMPTY, None)
      else do { _ \<leftarrow> dq_items d; Some (RT_EOK, Some (dq_item d (dq_slot d (get_index d)))) })
   }"

definition rt_data_queue_reset :: "addr \<Rightarrow> kernel \<Rightarrow> kernel option" where
  "rt_data_queue_reset q k = do {
     let k = rt_enter_critical k;
     k \<leftarrow> rt_ipc_list_resume_all (Suspend_list q) k;
     k \<leftarrow> rt_ipc_list_resume_all (Sender_list q) k;
     k \<leftarrow> rt_exit_critical k;
     rt_schedule k
   }"

subsection \<open>Waiting and waking\<close>

text \<open>The drivers wait as the kernel's own objects do, by arrival.\<close>

lemma driver_wait_ipc:
  assumes it: "in_thread b t r k"
  shows "driver_wait h t time k = ipc_wait h t RT_IPC_FLAG_FIFO time (upd_thread t (\<lambda>th. th\<lparr>t_error := RT_EOK\<rparr>) k)"
proof -
  let ?k = "upd_thread t (\<lambda>th. th\<lparr>t_error := RT_EOK\<rparr>) k"
  note d = in_threadD [OF it]
  have inv: "kernel_inv b ?k" and st: "stat (thread ?k t) = RT_THREAD_READY" using d(1,3) by simp_all
  obtain k1 where k1: "rt_thread_suspend t ?k = Some (0, k1)" "thread_frame ?k k1"
    using suspend_ok [OF inv st] by metis
  have "irq_nest k1 = 0" using thread_frameD(4) [OF k1(2)] d(4) by simp
  then show ?thesis
    using k1(1) by (simp add: driver_wait_def ipc_wait_def rt_ipc_list_suspend_def RT_DEBUG_NOT_IN_INTERRUPT_def
      rt_interrupt_get_nest_def)
qed

lemma driver_wait_ok:
  assumes it: "in_thread b t r k" and h: "waiting h" and n: "time \<noteq> 0x7fffffff"
  obtains k' s where "driver_wait h t time k = Some k'" "kernel_inv b k'" "call_frame k k'"
    "thread k' = (thread k)(t := (thread k t)\<lparr>t_error := RT_EOK, stat := RT_THREAD_SUSPEND\<rparr>)"
    "tlists k' = (lists_remove t (tlists k))(h := tlists k h @ [t])"
    "current k' = Some s" "s \<noteq> t" "Thread_timer t \<in> set (timer_list k') \<longleftrightarrow> 0 <s time" "lock_nest k' = 0"
proof -
  obtain k' s where k': "ipc_wait h t 0 time (upd_thread t (\<lambda>th. th\<lparr>t_error := RT_EOK\<rparr>) k) = Some k'" "kernel_inv b k'"
    "call_frame k k'" "thread k' = (thread k)(t := ((thread k t)\<lparr>t_error := RT_EOK\<rparr>)\<lparr>stat := RT_THREAD_SUSPEND\<rparr>)"
    "tlists k' = (lists_remove t (tlists k))(h := queue_in 0 k t (tlists k h))"
    "current k' = Some s" "highest k' s" "s \<noteq> t"
    "Thread_timer t \<in> set (timer_list k') \<longleftrightarrow> 0 <s time"
    "0 <s time \<longrightarrow> timeout_tick (timer k' (Thread_timer t)) = tick k + time"
    by (rule blocking_wait_ok [OF it h n, of 0 "upd_thread t (\<lambda>th. th\<lparr>t_error := RT_EOK\<rparr>) k" "\<lambda>th. th\<lparr>t_error := RT_EOK\<rparr>"])
      simp_all
  then show ?thesis
    using that [of k' s] driver_wait_ipc [OF it, of h time] call_frameD(2) [OF k'(3)] in_threadD(5) [OF it]
    by (simp add: queue_in_def)
qed

lemma completed_inv [simp]:
  "kernel_inv b (k\<lparr>completed := x\<rparr>) = kernel_inv b k" "may_call b (k\<lparr>completed := x\<rparr>) = may_call b k"
  by (simp_all add: may_call_def kernel_inv_def own_timer_def timer_flag_def sched_wf_def timers_ok_def
    timers_sorted_def ahead_def [abs_def])

subsection \<open>Properties of completions\<close>

lemma completion_blocks:
  assumes it: "in_thread b t r k" and c: "c \<noteq> 0" "\<not> completed k c" "tlists k (Suspend_list c) = []"
    and n: "time \<noteq> 0" "time \<noteq> 0x7fffffff"
  obtains k' where "rt_completion_wait c time k = Some (Blocked t, k')" "may_call b k'" "call_frame k k'"
    "thread k' = (thread k)(t := (thread k t)\<lparr>t_error := RT_EOK, stat := RT_THREAD_SUSPEND\<rparr>)"
    "tlists k' = (lists_remove t (tlists k))(Suspend_list c := [t])"
    "Thread_timer t \<in> set (timer_list k') \<longleftrightarrow> 0 <s time"
proof -
  have w: "waiting (Suspend_list c)" by simp
  obtain k' s where k': "driver_wait (Suspend_list c) t time k = Some k'" "kernel_inv b k'" "call_frame k k'"
    "thread k' = (thread k)(t := (thread k t)\<lparr>t_error := RT_EOK, stat := RT_THREAD_SUSPEND\<rparr>)"
    "tlists k' = (lists_remove t (tlists k))(Suspend_list c := tlists k (Suspend_list c) @ [t])"
    "current k' = Some s" "s \<noteq> t" "Thread_timer t \<in> set (timer_list k') \<longleftrightarrow> 0 <s time" "lock_nest k' = 0"
    by (rule driver_wait_ok [OF it w n(2)])
  have "rt_completion_wait c time k = Some (Blocked t, k')"
    using c n(1) it k'(1,6,7) by (simp add: rt_completion_wait_def)
  then show ?thesis using that [of k'] k'(2-6,8,9) c(3) by (simp add: may_call_def)
qed

text \<open>C38. A completion is not lost, whichever comes first: a thread that waits is woken by the call of
  \<open>rt_completion_done\<close> and told of success; and a call that comes before the wait is found by it. The flag
  is clear again afterwards.\<close>

theorem rt_completion_meets:
  assumes "in_thread b t r k" "c \<noteq> 0" "\<not> completed k c" "tlists k (Suspend_list c) = []"
    and "time \<noteq> 0" "time \<noteq> 0x7fffffff"
  shows "(\<exists>k1 k2 k3. rt_completion_wait c time k = Some (Blocked t, k1) \<and> stat (thread k1 t) = RT_THREAD_SUSPEND \<and>
      rt_completion_done c k1 = Some k2 \<and> kernel_inv b k2 \<and> stat (thread k2 t) = RT_THREAD_READY \<and>
      tlists k2 (Suspend_list c) = [] \<and>
      rt_completion_wait_wake c t k2 = (RT_EOK, k3) \<and> \<not> completed k3 c) \<and>
    (\<exists>k1 k2. rt_completion_done c k = Some k1 \<and> rt_completion_wait c time k1 = Some (Done RT_EOK, k2) \<and>
      \<not> completed k2 c)"
proof -
  obtain k1 where k1: "rt_completion_wait c time k = Some (Blocked t, k1)" "may_call b k1" "call_frame k k1"
    "thread k1 = (thread k)(t := (thread k t)\<lparr>t_error := RT_EOK, stat := RT_THREAD_SUSPEND\<rparr>)"
    "tlists k1 = (lists_remove t (tlists k))(Suspend_list c := [t])"
    "Thread_timer t \<in> set (timer_list k1) \<longleftrightarrow> 0 <s time"
    by (rule completion_blocks [OF assms])
  let ?k = "k1\<lparr>completed := (completed k1)(c := True)\<rparr>"
  have mc: "may_call b ?k" and w: "waiting (Suspend_list c)" using k1(2) by simp_all
  obtain k2 where k2: "ipc_wake_one (Suspend_list c) ?k = Some k2" "may_call b k2" "call_frame ?k k2" "objs_frame ?k k2"
    "tlists k2 (Suspend_list c) = tl (tlists ?k (Suspend_list c))"
    "tlists ?k (Suspend_list c) \<noteq> [] \<longrightarrow> thread k2 (hd (tlists ?k (Suspend_list c))) =
      (thread ?k (hd (tlists ?k (Suspend_list c))))\<lparr>stat := RT_THREAD_READY\<rparr>"
    by (rule wake_any_ok [OF mc w])
  have t2: "thread k2 t = (thread k1 t)\<lparr>stat := RT_THREAD_READY\<rparr>" "tlists k2 (Suspend_list c) = []"
    using k2(5,6) k1(5) by simp_all
  have "completed k1 c = completed k c" using call_frameD(15) [OF k1(3)] by simp
  then have d1: "rt_completion_done c k1 = Some k2" using assms(2,3) k2(1) by (simp add: rt_completion_done_def)
  have w3: "\<exists>k3. rt_completion_wait_wake c t k2 = (RT_EOK, k3) \<and> \<not> completed k3 c"
    using t2(1) k1(4) by (simp add: rt_completion_wait_wake_def)
  have i2: "kernel_inv b k2" using k2(2) by (simp add: may_call_def)
  have s: "stat (thread k1 t) = RT_THREAD_SUSPEND" "stat (thread k2 t) = RT_THREAD_READY" using k1(4) t2(1) by simp_all
  have d0: "rt_completion_done c k = Some (k\<lparr>completed := (completed k)(c := True)\<rparr>)"
    using assms(2-4) by (simp add: rt_completion_done_def ipc_wake_one_def)
  have w0: "rt_completion_wait c time (k\<lparr>completed := (completed k)(c := True)\<rparr>) =
      Some (Done RT_EOK, k\<lparr>completed := (completed k)(c := False)\<rparr>)"
    using assms(2) by (simp add: rt_completion_wait_def)
  show ?thesis
    using k1(1) s d1 i2 t2(2) w3 d0 w0 by (intro conjI) (blast, force)
qed

lemma demo_completion: "\<not> completed demo 0x2800" "tlists demo (Suspend_list 0x2800) = []"
  by (simp_all add: demo_def demo_lists_def)

lemma rt_completion_meets_witness:
  "\<exists>k1 k2 k3. rt_completion_wait 0x2800 10 demo = Some (Blocked main_t, k1) \<and> rt_completion_done 0x2800 k1 = Some k2 \<and>
    rt_completion_wait_wake 0x2800 main_t k2 = (RT_EOK, k3)"
  using rt_completion_meets [OF demo_in_thread, of "0x2800" 10] demo_completion by auto

text \<open>A completion that comes after the wait has timed out, and before the waiting thread runs again,
  is lost: the thread is told \<open>-RT_ETIMEOUT\<close>, and it clears the flag that the completion has set.\<close>

theorem rt_completion_lost:
  assumes "in_thread b t r k" "c \<noteq> 0" "\<not> completed k c" "tlists k (Suspend_list c) = []"
    and "0 <s time" "time \<noteq> 0x7fffffff"
  shows "\<exists>k1 k2 k3 k4. rt_completion_wait c time k = Some (Blocked t, k1) \<and>
    fire cb (Thread_timer t) k1 = Some k2 \<and> rt_completion_done c k2 = Some k3 \<and> completed k3 c \<and>
    rt_completion_wait_wake c t k3 = (- RT_ETIMEOUT, k4) \<and> \<not> completed k4 c"
proof -
  have n0: "time \<noteq> 0" using assms(5) by auto
  obtain k1 where k1: "rt_completion_wait c time k = Some (Blocked t, k1)" "may_call b k1" "call_frame k k1"
    "thread k1 = (thread k)(t := (thread k t)\<lparr>t_error := RT_EOK, stat := RT_THREAD_SUSPEND\<rparr>)"
    "tlists k1 = (lists_remove t (tlists k))(Suspend_list c := [t])"
    "Thread_timer t \<in> set (timer_list k1) \<longleftrightarrow> 0 <s time"
    by (rule completion_blocks [OF assms(1-4) n0 assms(6)])
  have m: "kernel_inv b k1" "current k1 \<noteq> None" using k1(2) by (simp_all add: may_call_def)
  have tin: "Thread_timer t \<in> set (timer_list k1)" using k1(6) assms(5) by simp
  obtain k2 where k2: "fire cb (Thread_timer t) k1 = Some k2" "kernel_inv b k2" "current k2 \<noteq> None" "call_frame k1 k2"
    "timer k2 = timer k1" "timer_list k2 = removeAll (Thread_timer t) (timer_list k1)"
    "thread k2 = (thread k1)(t := (thread k1 t)\<lparr>t_error := - RT_ETIMEOUT, stat := RT_THREAD_READY\<rparr>)"
    "tlists k2 = lists_insert_last (Ready (unat (current_priority (thread k1 t)))) t (lists_remove t (tlists k1))"
    by (rule fire_thread [OF m tin])
  have q2: "tlists k2 (Suspend_list c) = []" using k2(8) k1(5) by (simp add: lists_insert_last_def lists_remove_def)
  have "completed k2 c = completed k c" using call_frameD(15) [OF k1(3)] call_frameD(15) [OF k2(4)] by simp
  then have "rt_completion_done c k2 = Some (k2\<lparr>completed := (completed k2)(c := True)\<rparr>)"
    using assms(2,3) q2 by (simp add: rt_completion_done_def ipc_wake_one_def)
  then show ?thesis using k1(1) k2(1,7) by (auto simp: rt_completion_wait_wake_def)
qed

lemma rt_completion_lost_witness:
  "\<exists>k1 k2 k3 k4. rt_completion_wait 0x2800 10 demo = Some (Blocked main_t, k1) \<and>
    fire (\<lambda>_ _. Some) (Thread_timer main_t) k1 = Some k2 \<and> rt_completion_done 0x2800 k2 = Some k3 \<and>
    rt_completion_wait_wake 0x2800 main_t k3 = (- RT_ETIMEOUT, k4) \<and> \<not> completed k4 0x2800"
  using rt_completion_lost [OF demo_in_thread, of "0x2800" 10 "\<lambda>_ _. Some"] demo_completion
  by (auto simp: word_sless_alt)

subsection \<open>Properties of data queues\<close>

text \<open>The array is there, and its size is a power of two, as the mask supposes.\<close>

definition dq_ok :: "rt_data_queue \<Rightarrow> bool" where
  "dq_ok d = (dq_items d \<noteq> None \<and> (\<exists>m < 16. dq_size d = 2 ^ m))"

lemma unat_u16_power:
  assumes "m < 16"
  shows "unat (2 ^ m :: u16) = 2 ^ m"
proof -
  have "(2::nat) ^ m < 2 ^ 16" using assms by (intro power_strict_increasing) simp_all
  then have "unat (word_of_nat (2 ^ m) :: u16) = 2 ^ m"
    by (subst unsigned_of_nat) (simp add: take_bit_nat_eq_self assms)
  then show ?thesis by simp
qed
lemma take_bit_shift:
  assumes "m < 16"
  shows "take_bit m (i + 2 ^ m) = take_bit m (i :: u16)"
proof -
  have d: "(2::nat) ^ m dvd 2 ^ 16" using assms by (intro le_imp_power_dvd) simp
  have "unat (i + 2 ^ m) mod 2 ^ m = (unat i + 2 ^ m) mod 2 ^ 16 mod 2 ^ m"
    using assms by (simp add: unat_word_ariths unat_u16_power)
  also have "... = unat i mod 2 ^ m" unfolding mod_mod_cancel [OF d] by simp
  finally have "unat (take_bit m (i + 2 ^ m)) = unat (take_bit m i)"
    unfolding unsigned_take_bit_eq unfolding take_bit_eq_mod .
  then show ?thesis by (simp only: word_unat_eq_iff)
qed
lemma power_not_max:
  assumes "m < 16"
  shows "(2 ^ m :: u16) + 1 \<noteq> 0"
proof
  assume a: "(2 ^ m :: u16) + 1 = 0"
  have "unat ((2 ^ m :: u16) + 1) = (2 ^ m + 1) mod 2 ^ 16" by (simp add: unat_word_ariths unat_u16_power assms)
  moreover have "(2::nat) ^ m \<le> 2 ^ 15" using assms by (intro power_increasing) simp_all
  ultimately show False using a by simp
qed

lemma dq_slot_shift:
  assumes "dq_ok d"
  shows "dq_slot d (i + dq_size d) = dq_slot d i"
proof -
  obtain m where m: "m < 16" "dq_size d = 2 ^ m" using assms by (auto simp: dq_ok_def)
  show ?thesis unfolding dq_slot_def m(2) using take_bit_shift [OF m(1), of i]
    by (simp only: take_bit_eq_mask mask_eq_exp_minus_1)
qed

lemma dq_put_plain:
  assumes "dq_items (data_queue k q) \<noteq> None" "tlists k (Suspend_list q) = []" "evt_notify (data_queue k q) = None"
  shows "dq_put notify q ptr len k = Some (RT_EOK, upd_dq q (\<lambda>d. d\<lparr>dq_item := (dq_item d)(dq_slot d (put_index d) := (ptr, len)),
    put_index := put_index d + 1\<rparr>) k)"
  using assms by (auto simp: dq_put_def notify_event_def)

text \<open>Once the 16 bit index of the writers has wrapped around and that of the readers has not, a push
  onto a full data queue succeeds and overwrites the oldest item: the test for a full queue subtracts the
  indices as \<open>int\<close>s.\<close>

theorem rt_data_queue_push_overwrites:
  assumes "q \<noteq> 0" "dq_ok (data_queue k q)"
    and "put_index (data_queue k q) - get_index (data_queue k q) = dq_size (data_queue k q)"
    and "put_index (data_queue k q) < get_index (data_queue k q)"
    and "tlists k (Suspend_list q) = []" "evt_notify (data_queue k q) = None"
  shows "\<exists>k'. rt_data_queue_push notify q ptr len time k = Some (Done RT_EOK, k') \<and>
    get_index (data_queue k' q) = get_index (data_queue k q) \<and>
    rt_data_queue_peak q k' = Some (RT_EOK, Some (ptr, len)) \<and>
    put_index (data_queue k' q) - get_index (data_queue k' q) = dq_size (data_queue k' q) + 1"
proof -
  define d where "d = data_queue k q"
  have wrapped: "dq_used d \<noteq> int (unat (dq_size d))"
  proof -
    have "unat (put_index d) < unat (get_index d)" using assms(4) by (simp add: word_less_nat_alt d_def)
    then have "dq_used d < 0" unfolding dq_used_def by linarith
    then show ?thesis by linarith
  qed
  have it: "dq_items d \<noteq> None" using assms(2) by (simp add: dq_ok_def d_def)
  have full: "put_index d - get_index d = dq_size d" using assms(3) by (simp add: d_def)
  then have "put_index d = get_index d + dq_size d" by (metis diff_add_cancel add.commute)
  then have slot: "dq_slot d (put_index d) = dq_slot d (get_index d)"
    using dq_slot_shift [of d] assms(2) by (simp add: d_def)
  let ?d = "d\<lparr>dq_item := (dq_item d)(dq_slot d (put_index d) := (ptr, len)), put_index := put_index d + 1\<rparr>"
  let ?k = "upd_dq q (\<lambda>_. ?d) k"
  have "dq_put notify q ptr len k = Some (RT_EOK, ?k)"
    using dq_put_plain [of k q notify ptr len] it assms(5,6) by (simp add: d_def upd_dq_def)
  then have "rt_data_queue_push notify q ptr len time k = Some (Done RT_EOK, ?k)"
    using assms(1) wrapped
    by (subst rt_data_queue_push_def, subst dq_push_loop.simps) (simp add: d_def)
  moreover have "put_index ?d - get_index ?d = dq_size ?d + 1" using full by (simp add: algebra_simps)
  moreover have "rt_data_queue_peak q ?k = Some (RT_EOK, Some (ptr, len))"
  proof -
    have "get_index d \<noteq> put_index d + 1"
    proof
      assume "get_index d = put_index d + 1"
      then have "dq_size d = - 1" using full by (simp add: algebra_simps)
      then have "dq_size d + 1 = 0" by simp
      then show False using assms(2) power_not_max by (auto simp: dq_ok_def d_def)
    qed
    moreover obtain p where "dq_items d = Some p" using it by blast
    ultimately show ?thesis
      using assms(1) slot by (simp add: rt_data_queue_peak_def dq_slot_def)
  qed
  ultimately show ?thesis by (intro exI [of _ ?k]) (simp add: d_def)
qed

text \<open>A queue of four items, full, whose writers' index has wrapped around.\<close>

definition demo_dq :: kernel where
  "demo_dq = upd_dq 0x2900 (\<lambda>d. d\<lparr>get_index := 0xfffe, put_index := 2\<rparr>) demo"

lemma demo_dq_sel: "data_queue demo_dq 0x2900 = \<lparr>dq_size = 4, lwm = 1, waiting_lwm = False, get_index = 0xfffe,
    put_index = 2, dq_items = Some 0x20050000, dq_item = (\<lambda>_. (0, 0)), evt_notify = None\<rparr>"
  "tlists demo_dq (Suspend_list 0x2900) = []"
  by (simp_all add: demo_dq_def demo_def demo_lists_def)

lemma rt_data_queue_push_overwrites_witness:
  "\<exists>k'. rt_data_queue_push (\<lambda>_ _ _. Some) 0x2900 0x20070000 16 10 demo_dq = Some (Done RT_EOK, k') \<and>
    rt_data_queue_peak 0x2900 k' = Some (RT_EOK, Some (0x20070000, 16))"
proof -
  have "dq_ok (data_queue demo_dq 0x2900)" by (simp add: demo_dq_sel dq_ok_def) (rule exI [of _ 2], simp)
  then show ?thesis
    using rt_data_queue_push_overwrites [of "0x2900" demo_dq "\<lambda>_ _ _. Some" "0x20070000" 16 10]
    by (auto simp: demo_dq_sel)
qed

text \<open>C39. A reader blocked on an empty data queue is woken by the next push and gets its item; the queue is
  empty again.\<close>

theorem rt_data_queue_handover:
  assumes "in_thread b t r k" "q \<noteq> 0" "dq_ok (data_queue k q)" "tlists k (Suspend_list q) = []"
    and "get_index (data_queue k q) = put_index (data_queue k q)"
    and "\<not> waiting_lwm (data_queue k q)" "evt_notify (data_queue k q) = None"
    and "time \<noteq> 0" "time \<noteq> 0x7fffffff"
  shows "\<exists>k1 k2 k3. rt_data_queue_pop notify q time k = Some (Blocked (Pop_waits t), k1) \<and>
    stat (thread k1 t) = RT_THREAD_SUSPEND \<and>
    rt_data_queue_push notify q ptr len time' k1 = Some (Done RT_EOK, k2) \<and>
    stat (thread k2 t) = RT_THREAD_READY \<and> kernel_inv b k2 \<and>
    rt_data_queue_pop_wake notify q time (Pop_waits t) k2 = Some (Done (RT_EOK, Some (ptr, len)), k3) \<and>
    kernel_inv b k3 \<and> get_index (data_queue k3 q) = put_index (data_queue k3 q)"
proof -
  have w: "waiting (Suspend_list q)" by simp
  obtain k1 s where k1: "driver_wait (Suspend_list q) t time k = Some k1" "kernel_inv b k1" "call_frame k k1"
    "thread k1 = (thread k)(t := (thread k t)\<lparr>t_error := RT_EOK, stat := RT_THREAD_SUSPEND\<rparr>)"
    "tlists k1 = (lists_remove t (tlists k))(Suspend_list q := tlists k (Suspend_list q) @ [t])"
    "current k1 = Some s" "s \<noteq> t" "Thread_timer t \<in> set (timer_list k1) \<longleftrightarrow> 0 <s time" "lock_nest k1 = 0"
    by (rule driver_wait_ok [OF assms(1) w assms(9)])
  have pop: "rt_data_queue_pop notify q time k = Some (Blocked (Pop_waits t), k1)"
    using assms(2,5,8) k1(1,6,7) assms(1)
    by (subst rt_data_queue_pop_def, subst dq_pop_loop.simps) simp
  define d where "d = data_queue k q"
  have d1: "data_queue k1 q = d" using call_frameD(16) [OF k1(3)] by (simp add: d_def)
  let ?d = "d\<lparr>dq_item := (dq_item d)(dq_slot d (put_index d) := (ptr, len)), put_index := put_index d + 1\<rparr>"
  let ?k = "upd_dq q (\<lambda>d. d\<lparr>dq_item := (dq_item d)(dq_slot d (put_index d) := (ptr, len)), put_index := put_index d + 1\<rparr>) k1"
  have mc: "may_call b ?k" using k1(2,6,9) by (simp add: may_call_def)
  obtain k2 where k2: "ipc_wake_one (Suspend_list q) ?k = Some k2" "may_call b k2" "call_frame ?k k2" "objs_frame ?k k2"
    "tlists k2 (Suspend_list q) = tl (tlists ?k (Suspend_list q))"
    "tlists ?k (Suspend_list q) \<noteq> [] \<longrightarrow> thread k2 (hd (tlists ?k (Suspend_list q))) =
      (thread ?k (hd (tlists ?k (Suspend_list q))))\<lparr>stat := RT_THREAD_READY\<rparr>"
    by (rule wake_any_ok [OF mc w])
  have q1: "tlists k1 (Suspend_list q) = [t]" using k1(5) assms(4) by simp
  have t2: "thread k2 t = (thread k1 t)\<lparr>stat := RT_THREAD_READY\<rparr>" using k2(6) q1 by simp
  obtain p where p: "dq_items d = Some p" using assms(3) by (auto simp: dq_ok_def d_def)
  have sz: "dq_size d \<noteq> 0"
  proof -
    obtain m where "m < 16" "dq_size d = 2 ^ m" using assms(3) by (auto simp: dq_ok_def d_def)
    then have "unat (dq_size d) = 2 ^ m" by (simp add: unat_u16_power)
    then show ?thesis by auto
  qed
  have nf: "dq_used d \<noteq> int (unat (dq_size d))"
  proof -
    have "dq_used d = 0" using assms(5) by (simp add: dq_used_def d_def)
    moreover have "0 < unat (dq_size d)" using sz by (simp add: unat_gt_0)
    ultimately show ?thesis by linarith
  qed
  have "dq_put notify q ptr len k1 = Some (RT_EOK, k2)"
    using k2(1) q1 p d1 by (auto simp: dq_put_def ipc_wake_one_def bind_Some_conv)
  then have push: "rt_data_queue_push notify q ptr len time' k1 = Some (Done RT_EOK, k2)"
    using assms(2) nf d1 by (subst rt_data_queue_push_def, subst dq_push_loop.simps) simp
  have d2: "data_queue k2 q = ?d" using call_frameD(16) [OF k2(3)] d1 by simp
  let ?k3 = "upd_dq q (\<lambda>d. d\<lparr>get_index := get_index d + 1\<rparr>) k2"
  have ne: "get_index ?d \<noteq> put_index ?d" using assms(5) by (simp add: d_def)
  have "dq_get notify q k2 = Some (Done (RT_EOK, Some (ptr, len)), ?k3)"
    using d2 p assms(5-7) by (simp add: dq_get_def notify_event_def d_def dq_slot_def)
  then have "rt_data_queue_pop_wake notify q time (Pop_waits t) k2 = Some (Done (RT_EOK, Some (ptr, len)), ?k3)"
    using t2 k1(4) ne d2 by (simp add: rt_data_queue_pop_wake_def, subst dq_pop_loop.simps) simp
  moreover have "kernel_inv b k2" "kernel_inv b ?k3" using k2(2) by (simp_all add: may_call_def)
  moreover have "get_index (data_queue ?k3 q) = put_index (data_queue ?k3 q)" using d2 assms(5) by (simp add: d_def)
  ultimately show ?thesis
    using pop push t2 k1(4) by (intro exI [of _ k1] exI [of _ k2] exI [of _ ?k3]) simp
qed

lemma rt_data_queue_handover_witness:
  "\<exists>k1 k2 k3. rt_data_queue_pop (\<lambda>_ _ _. Some) 0x2900 10 demo = Some (Blocked (Pop_waits main_t), k1) \<and>
    rt_data_queue_push (\<lambda>_ _ _. Some) 0x2900 0x20070000 16 0 k1 = Some (Done RT_EOK, k2) \<and>
    rt_data_queue_pop_wake (\<lambda>_ _ _. Some) 0x2900 10 (Pop_waits main_t) k2 =
      Some (Done (RT_EOK, Some (0x20070000, 16)), k3)"
proof -
  have "dq_ok (data_queue demo 0x2900)" by (simp add: demo_def dq_ok_def) (rule exI [of _ 2], simp)
  then show ?thesis
    using rt_data_queue_handover [OF demo_in_thread, of "0x2900" 10 "\<lambda>_ _ _. Some" "0x20070000" 16 0]
    by (auto simp: demo_def demo_lists_def)
qed

end
