(* ===== verification/Pipe.thy ===== *)
theory Pipe
  imports Driveripc
begin

text \<open>
  Pipes, \<open>components/drivers/src/pipe.c\<close>: a ring buffer as a device, with readers that may wait
  for data, on the \<open>Suspend_list\<close> of the pipe, and writers that may wait for room, on its
  \<open>Sender_list\<close>. The function that is told of new data is the application's, an argument \<open>ind\<close>.
\<close>

subsection \<open>Operations\<close>

abbreviation (input) RT_PIPE_FLAG_BLOCK_RD :: u8 where "RT_PIPE_FLAG_BLOCK_RD \<equiv> 1"
abbreviation (input) RT_PIPE_FLAG_BLOCK_WR :: u8 where "RT_PIPE_FLAG_BLOCK_WR \<equiv> 2"
abbreviation (input) RT_PIPE_FLAG_FORCE_WR :: u8 where "RT_PIPE_FLAG_FORCE_WR \<equiv> 4"

type_synonym indicator = "nat \<Rightarrow> addr \<Rightarrow> u32 \<Rightarrow> kernel \<Rightarrow> kernel option"

text \<open>The ring buffer's operations, on the buffer of the pipe and on memory.\<close>

definition pipe_rb ::
  "addr \<Rightarrow> (rt_ringbuffer \<Rightarrow> mem \<Rightarrow> u32 \<times> rt_ringbuffer \<times> mem) \<Rightarrow> kernel \<Rightarrow> u32 \<times> kernel" where
  "pipe_rb p f k =
     (let (n, rb, m) = f (ringbuffer (pipe k p)) (ram (heap_of k));
          k = upd_pipe p (\<lambda>v. v\<lparr>ringbuffer := rb\<rparr>) k
      in (n, upd_heap (\<lambda>h. h\<lparr>ram := m\<rparr>) k))"

definition pipe_resume_writer :: "addr \<Rightarrow> kernel \<Rightarrow> kernel option" where
  "pipe_resume_writer p k =
     (if tlists k (Sender_list p) \<noteq> [] then do {
        rt_assert (pipe_flag (pipe k p) AND RT_PIPE_FLAG_BLOCK_WR \<noteq> 0);
        k \<leftarrow> rt_ipc_list_resume (Sender_list p) k;
        rt_schedule k
      } else Some k)"

text \<open>Suspending the caller at the end of a list; it is not told of an error when it runs again.\<close>

definition pipe_wait :: "qhead \<Rightarrow> addr \<Rightarrow> kernel \<Rightarrow> kernel option" where
  "pipe_wait h t k = do {
     (_, k) \<leftarrow> rt_thread_suspend t k;
     rt_schedule (k\<lparr>tlists := lists_insert_last h t (tlists k)\<rparr>)
   }"

partial_function (option) pipe_read_loop ::
  "addr \<Rightarrow> addr \<Rightarrow> u32 \<Rightarrow> addr option \<Rightarrow> kernel \<Rightarrow> ((u32, addr option) outcome \<times> kernel) option" where
  "pipe_read_loop p buffer sz self k =
     (case pipe_rb p (\<lambda>rb. rt_ringbuffer_get rb buffer (ucast sz)) k of (n, k) \<Rightarrow>
        (if n = 0 then do {
           t \<leftarrow> self;
           k \<leftarrow> pipe_wait (Suspend_list p) t k;
           (if current k = self then pipe_read_loop p buffer sz self k else Some (Blocked self, k))
         } else do {
           k \<leftarrow> pipe_resume_writer p k;
           Some (Done n, k)
         }))"

definition rt_pipe_read ::
  "addr \<Rightarrow> u32 \<Rightarrow> addr \<Rightarrow> u32 \<Rightarrow> kernel \<Rightarrow> ((u32, addr option) outcome \<times> kernel) option" where
  "rt_pipe_read p pos buffer sz k = do {
     rt_assert (p \<noteq> 0);
     (if pipe_flag (pipe k p) AND RT_PIPE_FLAG_BLOCK_RD = 0 then do {
        let (n, k) = pipe_rb p (\<lambda>rb. rt_ringbuffer_get rb buffer (ucast sz)) k;
        k \<leftarrow> (if n \<noteq> 0 then pipe_resume_writer p k else Some k);
        Some (Done n, k)
      } else do {
        RT_DEBUG_NOT_IN_INTERRUPT k;
        pipe_read_loop p buffer sz (rt_thread_self k) k
      })
   }"

definition pipe_resume_reader :: "indicator \<Rightarrow> addr \<Rightarrow> kernel \<Rightarrow> kernel option" where
  "pipe_resume_reader ind p k = do {
     k \<leftarrow> (case rx_indicate (device k p) of
             None \<Rightarrow> Some k
           | Some f \<Rightarrow> ind f p (ucast (rt_ringbuffer_data_len (ringbuffer (pipe k p)))) k);
     (if tlists k (Suspend_list p) \<noteq> [] then do {
        rt_assert (pipe_flag (pipe k p) AND RT_PIPE_FLAG_BLOCK_RD \<noteq> 0);
        k \<leftarrow> rt_ipc_list_resume (Suspend_list p) k;
        rt_schedule k
      } else Some k)
   }"

partial_function (option) pipe_write_loop ::
  "indicator \<Rightarrow> addr \<Rightarrow> addr \<Rightarrow> u32 \<Rightarrow> addr option \<Rightarrow> kernel \<Rightarrow>
    ((u32, addr option) outcome \<times> kernel) option" where
  "pipe_write_loop ind p buffer sz self k =
     (case pipe_rb p (\<lambda>rb. rt_ringbuffer_put rb buffer (ucast sz)) k of (n, k) \<Rightarrow>
        (if n = 0 then do {
           t \<leftarrow> self;
           k \<leftarrow> pipe_wait (Sender_list p) t k;
           (if current k = self then pipe_write_loop ind p buffer sz self k
            else Some (Blocked self, k))
         } else do {
           k \<leftarrow> pipe_resume_reader ind p k;
           Some (Done n, k)
         }))"

definition rt_pipe_write ::
  "indicator \<Rightarrow> addr \<Rightarrow> u32 \<Rightarrow> addr \<Rightarrow> u32 \<Rightarrow> kernel \<Rightarrow>
    ((u32, addr option) outcome \<times> kernel) option" where
  "rt_pipe_write ind p pos buffer sz k = do {
     rt_assert (p \<noteq> 0);
     (if pipe_flag (pipe k p) AND RT_PIPE_FLAG_FORCE_WR \<noteq> 0 \<or>
         pipe_flag (pipe k p) AND RT_PIPE_FLAG_BLOCK_WR = 0 then do {
        let (n, k) = (if pipe_flag (pipe k p) AND RT_PIPE_FLAG_FORCE_WR \<noteq> 0
          then pipe_rb p (\<lambda>rb. rt_ringbuffer_put_force rb buffer (ucast sz)) k
          else pipe_rb p (\<lambda>rb. rt_ringbuffer_put rb buffer (ucast sz)) k);
        k \<leftarrow> pipe_resume_reader ind p k;
        Some (Done n, k)
      } else do {
        RT_DEBUG_NOT_IN_INTERRUPT k;
        pipe_write_loop ind p buffer sz (rt_thread_self k) k
      })
   }"

text \<open>The argument is written through a pointer: the word after the call is returned.\<close>

definition rt_pipe_control :: "addr \<Rightarrow> u8 \<Rightarrow> u32 option \<Rightarrow> kernel \<Rightarrow> rt_err \<times> u32 option" where
  "rt_pipe_control p cmd args k =
     (RT_EOK, if cmd = 0x14 \<and> args \<noteq> None
              then Some (ucast (rt_ringbuffer_space_len (ringbuffer (pipe k p)))) else args)"

text \<open>The driver functions of a pipe: 0 reads, 1 writes, 2 controls.\<close>

definition rt_pipe_init ::
  "addr \<Rightarrow> cstr \<Rightarrow> u8 \<Rightarrow> addr \<Rightarrow> u32 \<Rightarrow> kernel \<Rightarrow> (rt_err \<times> kernel) option" where
  "rt_pipe_init p name flag buf sz k = do {
     rt_assert (p \<noteq> 0);
     rt_assert (buf \<noteq> 0);
     let k = k\<lparr>tlists := (tlists k)(Suspend_list p := [], Sender_list p := [])\<rparr>;
     rb \<leftarrow> rt_ringbuffer_init buf (ucast sz);
     let k = upd_pipe p (\<lambda>v. v\<lparr>ringbuffer := rb, pipe_flag := flag\<rparr>) k;
     let k = upd_dev p (\<lambda>v. v\<lparr>dev_init := None, dev_open := None, dev_close := None,
               dev_read := Some 0, dev_write := Some 1, dev_control := Some 2\<rparr>) k;
     rt_device_register p name 3 k
   }"

definition rt_pipe_detach :: "addr \<Rightarrow> kernel \<Rightarrow> (rt_err \<times> kernel) option" where
  "rt_pipe_detach p k = rt_device_unregister p k"

text \<open>\<open>sizeof(struct rt_pipe_device)\<close> is 108.\<close>

definition rt_pipe_create :: "cstr \<Rightarrow> u8 \<Rightarrow> u32 \<Rightarrow> kernel \<Rightarrow> (rt_err \<times> kernel) option" where
  "rt_pipe_create name flag sz k = do {
     let sz = RT_ALIGN sz RT_ALIGN_SIZE;
     RT_DEBUG_NOT_IN_INTERRUPT k;
     (a, h) \<leftarrow> rt_calloc 1 108 (heap_of k);
     let k = k\<lparr>heap_of := h\<rparr>;
     (case a of
        None \<Rightarrow> Some (- RT_ENOMEM, k)
      | Some p \<Rightarrow> do {
          (b, k) \<leftarrow> RT_KERNEL_MALLOC sz k;
          (case b of
             None \<Rightarrow> do { k \<leftarrow> RT_KERNEL_FREE p k; Some (- RT_ENOMEM, k) }
           | Some buf \<Rightarrow> rt_pipe_init p name flag buf sz k)
        })
   }"

definition rt_pipe_destroy :: "addr \<Rightarrow> kernel \<Rightarrow> kernel option" where
  "rt_pipe_destroy p k =
     (if p = 0 then Some k
      else do {
        (_, k) \<leftarrow> rt_pipe_detach p k;
        k \<leftarrow> RT_KERNEL_FREE (buffer_ptr (ringbuffer (pipe k p))) k;
        RT_KERNEL_FREE p k
      })"

end
