(* ===== verification/FinshVm.thy ===== *)
theory FinshVm
  imports Prelude "HOL-Library.Signed_Division"
begin

text \<open>
  The virtual machine of the shell, \<open>components/finsh/finsh_vm.c\<close> and \<open>finsh_ops.c\<close>: a byte code
  without jumps over a stack of 64 cells of four bytes. \<open>None\<close> is what the code leaves undefined: a
  division by zero, a shift by 32 or more, an access outside of the stack, of the text segment or
  of the memory. Memory is a partial map of bytes, little endian; a plain \<open>char\<close> is unsigned, as
  on the ARM. The functions a line may call are the parameter \<open>calls\<close>.
\<close>

type_synonym ram = "addr \<Rightarrow> u8 option"
type_synonym syscalls = "addr \<Rightarrow> u32 list \<Rightarrow> ram \<Rightarrow> (u32 \<times> ram) option"

subsection \<open>Bytes\<close>

definition FINSH_GET16 :: "u8 \<Rightarrow> u8 \<Rightarrow> u16" where
  "FINSH_GET16 b0 b1 = ucast b0 OR push_bit 8 (ucast b1)"

definition FINSH_GET32 :: "u8 \<Rightarrow> u8 \<Rightarrow> u8 \<Rightarrow> u8 \<Rightarrow> u32" where
  "FINSH_GET32 b0 b1 b2 b3 =
     ucast b0 OR push_bit 8 (ucast b1) OR push_bit 16 (ucast b2) OR push_bit 24 (ucast b3)"

definition FINSH_SET16 :: "u16 \<Rightarrow> u8 list" where
  "FINSH_SET16 v = [ucast v, ucast (drop_bit 8 v)]"

definition FINSH_SET32 :: "u32 \<Rightarrow> u8 list" where
  "FINSH_SET32 v = [ucast v, ucast (drop_bit 8 v), ucast (drop_bit 16 v), ucast (drop_bit 24 v)]"

text \<open>Loads and stores of a \<open>char\<close>, a \<open>short\<close> and a \<open>long\<close>.\<close>

definition load8 :: "ram \<Rightarrow> addr \<Rightarrow> u8 option" where
  "load8 m a = m a"

definition load16 :: "ram \<Rightarrow> addr \<Rightarrow> u16 option" where
  "load16 m a = do { b0 \<leftarrow> m a; b1 \<leftarrow> m (a + 1); Some (FINSH_GET16 b0 b1) }"

definition load32 :: "ram \<Rightarrow> addr \<Rightarrow> u32 option" where
  "load32 m a = do {
     b0 \<leftarrow> m a; b1 \<leftarrow> m (a + 1); b2 \<leftarrow> m (a + 2); b3 \<leftarrow> m (a + 3);
     Some (FINSH_GET32 b0 b1 b2 b3) }"

fun store_bytes :: "ram \<Rightarrow> addr \<Rightarrow> u8 list \<Rightarrow> ram option" where
  "store_bytes m a [] = Some m"
| "store_bytes m a (b # bs) =
     (case m a of None \<Rightarrow> None | Some _ \<Rightarrow> store_bytes (m(a \<mapsto> b)) (a + 1) bs)"

subsection \<open>The machine\<close>

abbreviation (input) FINSH_STACK_MAX :: nat where "FINSH_STACK_MAX \<equiv> 64"
abbreviation (input) FINSH_TEXT_MAX :: nat where "FINSH_TEXT_MAX \<equiv> 128"

record vm =
  finsh_vm_stack :: "u32 list"
  text_segment :: "u8 list"
  finsh_sp :: nat
  finsh_pc :: nat
  vm_ram :: ram

text \<open>The members of \<open>union finsh_value\<close>; writing a short one keeps the other bytes of the cell.\<close>

definition char_value :: "u32 \<Rightarrow> u8" where
  "char_value c = ucast c"

definition short_value :: "u32 \<Rightarrow> u16" where
  "short_value c = ucast c"

definition set_char_value :: "u8 \<Rightarrow> u32 \<Rightarrow> u32" where
  "set_char_value v c = (c AND NOT 0xff) OR ucast v"

definition set_short_value :: "u16 \<Rightarrow> u32 \<Rightarrow> u32" where
  "set_short_value v c = (c AND NOT 0xffff) OR ucast v"

lemma set_value_mask:
  "set_char_value b c = (c AND NOT (mask 8)) OR ucast b"
  "set_short_value h c = (c AND NOT (mask 16)) OR ucast h"
  by (simp_all add: set_char_value_def set_short_value_def mask_eq_exp_minus_1)

lemma value_set [simp]:
  "char_value (set_char_value b c) = b" "short_value (set_short_value h c) = h"
  by (rule bit_word_eqI, simp add: char_value_def short_value_def set_value_mask bit_simps)+

text \<open>\<open>*(finsh_sp - k)\<close>, read and written, and \<open>*finsh_sp\<close> written with \<open>finsh_sp ++\<close>.\<close>

definition below :: "nat \<Rightarrow> vm \<Rightarrow> u32 option" where
  "below k s =
     (if k \<le> finsh_sp s \<and> finsh_sp s - k < FINSH_STACK_MAX
      then Some (finsh_vm_stack s ! (finsh_sp s - k)) else None)"

definition set_below :: "nat \<Rightarrow> u32 \<Rightarrow> vm \<Rightarrow> vm option" where
  "set_below k v s =
     (if k \<le> finsh_sp s \<and> finsh_sp s - k < FINSH_STACK_MAX
      then Some (s\<lparr>finsh_vm_stack := (finsh_vm_stack s)[finsh_sp s - k := v]\<rparr>) else None)"

definition push_cell :: "(u32 \<Rightarrow> u32) \<Rightarrow> vm \<Rightarrow> vm option" where
  "push_cell f s = do {
     c \<leftarrow> below 0 s;
     s \<leftarrow> set_below 0 (f c) s;
     Some (s\<lparr>finsh_sp := finsh_sp s + 1\<rparr>) }"

definition sp_down :: "vm \<Rightarrow> vm option" where
  "sp_down s = (if finsh_sp s = 0 then None else Some (s\<lparr>finsh_sp := finsh_sp s - 1\<rparr>))"

text \<open>\<open>*finsh_pc ++\<close>, and the operand of four bytes.\<close>

definition fetch :: "vm \<Rightarrow> (u8 \<times> vm) option" where
  "fetch s =
     (if finsh_pc s < FINSH_TEXT_MAX
      then Some (text_segment s ! finsh_pc s, s\<lparr>finsh_pc := finsh_pc s + 1\<rparr>) else None)"

definition fetch16 :: "vm \<Rightarrow> (u16 \<times> vm) option" where
  "fetch16 s = do {
     (b0, s) \<leftarrow> fetch s; (b1, s) \<leftarrow> fetch s; Some (FINSH_GET16 b0 b1, s) }"

definition fetch32 :: "vm \<Rightarrow> (u32 \<times> vm) option" where
  "fetch32 s = do {
     (b0, s) \<leftarrow> fetch s; (b1, s) \<leftarrow> fetch s; (b2, s) \<leftarrow> fetch s; (b3, s) \<leftarrow> fetch s;
     Some (FINSH_GET32 b0 b1 b2 b3, s) }"

subsection \<open>The operations\<close>

text \<open>The operators of C on the promoted operands.\<close>

definition c_div :: "int \<Rightarrow> int \<Rightarrow> int option" where
  "c_div a b = (if b = 0 then None else Some (a sdiv b))"

definition c_mod :: "int \<Rightarrow> int \<Rightarrow> int option" where
  "c_mod a b = (if b = 0 then None else Some (a smod b))"

definition c_shl :: "int \<Rightarrow> int \<Rightarrow> int option" where
  "c_shl a b = (if 0 \<le> b \<and> b < 32 then Some (a * 2 ^ nat b) else None)"

definition c_shr :: "int \<Rightarrow> int \<Rightarrow> int option" where
  "c_shr a b = (if 0 \<le> b \<and> b < 32 then Some (a div 2 ^ nat b) else None)"

definition OP_BIN_BYTE :: "(int \<Rightarrow> int \<Rightarrow> int option) \<Rightarrow> vm \<Rightarrow> vm option" where
  "OP_BIN_BYTE x s = do {
     a \<leftarrow> below 2 s; b \<leftarrow> below 1 s;
     r \<leftarrow> x (uint (char_value a)) (uint (char_value b));
     s \<leftarrow> set_below 2 (set_char_value (word_of_int r) a) s;
     sp_down s }"

definition OP_BIN_WORD :: "(int \<Rightarrow> int \<Rightarrow> int option) \<Rightarrow> vm \<Rightarrow> vm option" where
  "OP_BIN_WORD x s = do {
     a \<leftarrow> below 2 s; b \<leftarrow> below 1 s;
     r \<leftarrow> x (sint (short_value a)) (sint (short_value b));
     s \<leftarrow> set_below 2 (set_short_value (word_of_int r) a) s;
     sp_down s }"

definition OP_BIN_DWORD :: "(int \<Rightarrow> int \<Rightarrow> int option) \<Rightarrow> vm \<Rightarrow> vm option" where
  "OP_BIN_DWORD x s = do {
     a \<leftarrow> below 2 s; b \<leftarrow> below 1 s;
     r \<leftarrow> x (sint a) (sint b);
     s \<leftarrow> set_below 2 (word_of_int r) s;
     sp_down s }"

definition OP_add_byte :: "vm \<Rightarrow> vm option" where
  "OP_add_byte = OP_BIN_BYTE (\<lambda>a b. Some (a + b))"

definition OP_add_word :: "vm \<Rightarrow> vm option" where
  "OP_add_word = OP_BIN_WORD (\<lambda>a b. Some (a + b))"

definition OP_add_dword :: "vm \<Rightarrow> vm option" where
  "OP_add_dword = OP_BIN_DWORD (\<lambda>a b. Some (a + b))"

definition OP_sub_byte :: "vm \<Rightarrow> vm option" where
  "OP_sub_byte = OP_BIN_BYTE (\<lambda>a b. Some (a - b))"

definition OP_sub_word :: "vm \<Rightarrow> vm option" where
  "OP_sub_word = OP_BIN_WORD (\<lambda>a b. Some (a - b))"

definition OP_sub_dword :: "vm \<Rightarrow> vm option" where
  "OP_sub_dword = OP_BIN_DWORD (\<lambda>a b. Some (a - b))"

definition OP_div_byte :: "vm \<Rightarrow> vm option" where
  "OP_div_byte = OP_BIN_BYTE c_div"

definition OP_div_word :: "vm \<Rightarrow> vm option" where
  "OP_div_word = OP_BIN_WORD c_div"

definition OP_div_dword :: "vm \<Rightarrow> vm option" where
  "OP_div_dword = OP_BIN_DWORD c_div"

definition OP_mod_byte :: "vm \<Rightarrow> vm option" where
  "OP_mod_byte = OP_BIN_BYTE c_mod"

definition OP_mod_word :: "vm \<Rightarrow> vm option" where
  "OP_mod_word = OP_BIN_WORD c_mod"

definition OP_mod_dword :: "vm \<Rightarrow> vm option" where
  "OP_mod_dword = OP_BIN_DWORD c_mod"

definition OP_mul_byte :: "vm \<Rightarrow> vm option" where
  "OP_mul_byte = OP_BIN_BYTE (\<lambda>a b. Some (a * b))"

definition OP_mul_word :: "vm \<Rightarrow> vm option" where
  "OP_mul_word = OP_BIN_WORD (\<lambda>a b. Some (a * b))"

definition OP_mul_dword :: "vm \<Rightarrow> vm option" where
  "OP_mul_dword = OP_BIN_DWORD (\<lambda>a b. Some (a * b))"

definition OP_and_byte :: "vm \<Rightarrow> vm option" where
  "OP_and_byte = OP_BIN_BYTE (\<lambda>a b. Some (a AND b))"

definition OP_and_word :: "vm \<Rightarrow> vm option" where
  "OP_and_word = OP_BIN_WORD (\<lambda>a b. Some (a AND b))"

definition OP_and_dword :: "vm \<Rightarrow> vm option" where
  "OP_and_dword = OP_BIN_DWORD (\<lambda>a b. Some (a AND b))"

definition OP_or_byte :: "vm \<Rightarrow> vm option" where
  "OP_or_byte = OP_BIN_BYTE (\<lambda>a b. Some (a OR b))"

definition OP_or_word :: "vm \<Rightarrow> vm option" where
  "OP_or_word = OP_BIN_WORD (\<lambda>a b. Some (a OR b))"

definition OP_or_dword :: "vm \<Rightarrow> vm option" where
  "OP_or_dword = OP_BIN_DWORD (\<lambda>a b. Some (a OR b))"

definition OP_xor_byte :: "vm \<Rightarrow> vm option" where
  "OP_xor_byte = OP_BIN_BYTE (\<lambda>a b. Some (a XOR b))"

definition OP_xor_word :: "vm \<Rightarrow> vm option" where
  "OP_xor_word = OP_BIN_WORD (\<lambda>a b. Some (a XOR b))"

definition OP_xor_dword :: "vm \<Rightarrow> vm option" where
  "OP_xor_dword = OP_BIN_DWORD (\<lambda>a b. Some (a XOR b))"

definition OP_shl_byte :: "vm \<Rightarrow> vm option" where
  "OP_shl_byte = OP_BIN_BYTE c_shl"

definition OP_shl_word :: "vm \<Rightarrow> vm option" where
  "OP_shl_word = OP_BIN_WORD c_shl"

definition OP_shl_dword :: "vm \<Rightarrow> vm option" where
  "OP_shl_dword = OP_BIN_DWORD c_shl"

definition OP_shr_byte :: "vm \<Rightarrow> vm option" where
  "OP_shr_byte = OP_BIN_BYTE c_shr"

definition OP_shr_word :: "vm \<Rightarrow> vm option" where
  "OP_shr_word = OP_BIN_WORD c_shr"

definition OP_shr_dword :: "vm \<Rightarrow> vm option" where
  "OP_shr_dword = OP_BIN_DWORD c_shr"

definition OP_no_op :: "vm \<Rightarrow> vm option" where
  "OP_no_op s = Some s"

definition OP_bw_byte :: "vm \<Rightarrow> vm option" where
  "OP_bw_byte s = do { a \<leftarrow> below 1 s; set_below 1 (set_char_value (NOT (char_value a)) a) s }"

definition OP_bw_word :: "vm \<Rightarrow> vm option" where
  "OP_bw_word s = do { a \<leftarrow> below 1 s; set_below 1 (set_short_value (NOT (short_value a)) a) s }"

definition OP_bw_dword :: "vm \<Rightarrow> vm option" where
  "OP_bw_dword s = do { a \<leftarrow> below 1 s; set_below 1 (NOT a) s }"

definition OP_ld_byte :: "vm \<Rightarrow> vm option" where
  "OP_ld_byte s = do { (b, s) \<leftarrow> fetch s; push_cell (set_char_value b) s }"

definition OP_ld_word :: "vm \<Rightarrow> vm option" where
  "OP_ld_word s = do { (w, s) \<leftarrow> fetch16 s; push_cell (set_short_value w) s }"

definition OP_ld_dword :: "vm \<Rightarrow> vm option" where
  "OP_ld_dword s = do { (d, s) \<leftarrow> fetch32 s; push_cell (\<lambda>_. d) s }"

definition OP_ld_value_byte :: "vm \<Rightarrow> vm option" where
  "OP_ld_value_byte s = do {
     (c, s) \<leftarrow> fetch32 s; b \<leftarrow> load8 (vm_ram s) c; push_cell (set_char_value b) s }"

definition OP_ld_value_word :: "vm \<Rightarrow> vm option" where
  "OP_ld_value_word s = do {
     (c, s) \<leftarrow> fetch32 s; w \<leftarrow> load16 (vm_ram s) c; push_cell (set_short_value w) s }"

definition OP_ld_value_dword :: "vm \<Rightarrow> vm option" where
  "OP_ld_value_dword s = do {
     (c, s) \<leftarrow> fetch32 s; d \<leftarrow> load32 (vm_ram s) c; push_cell (\<lambda>_. d) s }"

definition OP_ld_value_byte_stack :: "vm \<Rightarrow> vm option" where
  "OP_ld_value_byte_stack s = do {
     c \<leftarrow> below 1 s; b \<leftarrow> load8 (vm_ram s) c; set_below 1 (set_char_value b c) s }"

definition OP_ld_value_word_stack :: "vm \<Rightarrow> vm option" where
  "OP_ld_value_word_stack s = do {
     c \<leftarrow> below 1 s; w \<leftarrow> load16 (vm_ram s) c; set_below 1 (set_short_value w c) s }"

definition OP_ld_value_dword_stack :: "vm \<Rightarrow> vm option" where
  "OP_ld_value_dword_stack s = do {
     c \<leftarrow> below 1 s; d \<leftarrow> load32 (vm_ram s) c; set_below 1 d s }"

definition OP_st_byte :: "vm \<Rightarrow> vm option" where
  "OP_st_byte s = do {
     a \<leftarrow> below 2 s; v \<leftarrow> below 1 s;
     m \<leftarrow> store_bytes (vm_ram s) a [char_value v];
     sp_down (s\<lparr>vm_ram := m\<rparr>) }"

definition OP_st_word :: "vm \<Rightarrow> vm option" where
  "OP_st_word s = do {
     a \<leftarrow> below 2 s; v \<leftarrow> below 1 s;
     m \<leftarrow> store_bytes (vm_ram s) a (FINSH_SET16 (short_value v));
     sp_down (s\<lparr>vm_ram := m\<rparr>) }"

definition OP_st_dword :: "vm \<Rightarrow> vm option" where
  "OP_st_dword s = do {
     a \<leftarrow> below 2 s; v \<leftarrow> below 1 s;
     m \<leftarrow> store_bytes (vm_ram s) a (FINSH_SET32 v);
     sp_down (s\<lparr>vm_ram := m\<rparr>) }"

definition OP_pop :: "vm \<Rightarrow> vm option" where
  "OP_pop s = sp_down s"

text \<open>
  \<open>OP_call\<close> pops the parameters into an array of 16, the last one first. The array is written
  before the number of parameters is looked at, so more than 16 of them write beyond it.
\<close>

fun pop_parameters :: "nat \<Rightarrow> u32 list \<Rightarrow> vm \<Rightarrow> (u32 list \<times> vm) option" where
  "pop_parameters 0 vs s = Some (vs, s)"
| "pop_parameters (Suc n) vs s = do {
     v \<leftarrow> below 0 s; s \<leftarrow> sp_down s; pop_parameters n (v # vs) s }"

definition OP_call :: "syscalls \<Rightarrow> vm \<Rightarrow> vm option" where
  "OP_call calls s = do {
     (parameters, s) \<leftarrow> fetch s;
     s \<leftarrow> sp_down s;
     (parameterv, s) \<leftarrow>
       (if 16 < unat parameters then None else pop_parameters (unat parameters) [] s);
     f \<leftarrow> below 0 s;
     (r, m) \<leftarrow> calls f (if parameters = 0 then [0] else parameterv) (vm_ram s);
     push_cell (\<lambda>_. r) (s\<lparr>vm_ram := m\<rparr>) }"

definition op_table :: "syscalls \<Rightarrow> (vm \<Rightarrow> vm option) list" where
  "op_table calls =
    [OP_no_op,
     OP_add_byte, OP_add_word, OP_add_dword,
     OP_sub_byte, OP_sub_word, OP_sub_dword,
     OP_div_byte, OP_div_word, OP_div_dword,
     OP_mod_byte, OP_mod_word, OP_mod_dword,
     OP_mul_byte, OP_mul_word, OP_mul_dword,
     OP_and_byte, OP_and_word, OP_and_dword,
     OP_or_byte, OP_or_word, OP_or_dword,
     OP_xor_byte, OP_xor_word, OP_xor_dword,
     OP_bw_byte, OP_bw_word, OP_bw_dword,
     OP_shl_byte, OP_shl_word, OP_shl_dword,
     OP_shr_byte, OP_shr_word, OP_shr_dword,
     OP_ld_byte, OP_ld_word, OP_ld_dword,
     OP_ld_value_byte, OP_ld_value_word, OP_ld_value_dword,
     OP_st_byte, OP_st_word, OP_st_dword,
     OP_pop, OP_call calls,
     OP_ld_value_byte_stack, OP_ld_value_word_stack, OP_ld_value_dword_stack]"

text \<open>One round of the loop: no operation of the table has a number above 47.\<close>

definition vm_step :: "syscalls \<Rightarrow> vm \<Rightarrow> vm option" where
  "vm_step calls s = do {
     (op, s) \<leftarrow> fetch s;
     if unat op < length (op_table calls) then (op_table calls ! unat op) s else None }"

subsection \<open>The loop of the machine\<close>

text \<open>What every operation keeps: the text, the size of the stack, and it never moves back.\<close>

definition moves :: "vm \<Rightarrow> vm \<Rightarrow> bool" where
  "moves s s' =
     (finsh_pc s \<le> finsh_pc s' \<and> text_segment s' = text_segment s \<and>
      length (finsh_vm_stack s') = length (finsh_vm_stack s))"

lemma moves_refl [simp]: "moves s s"
  by (simp add: moves_def)

lemma moves_trans: "moves s s' \<Longrightarrow> moves s' s'' \<Longrightarrow> moves s s''"
  by (simp add: moves_def)

named_theorems vm_ops

lemmas OP_bin_defs =
  OP_add_byte_def OP_add_word_def OP_add_dword_def OP_sub_byte_def OP_sub_word_def
  OP_sub_dword_def OP_div_byte_def OP_div_word_def OP_div_dword_def OP_mod_byte_def
  OP_mod_word_def OP_mod_dword_def OP_mul_byte_def OP_mul_word_def OP_mul_dword_def
  OP_and_byte_def OP_and_word_def OP_and_dword_def OP_or_byte_def OP_or_word_def
  OP_or_dword_def OP_xor_byte_def OP_xor_word_def OP_xor_dword_def OP_shl_byte_def
  OP_shl_word_def OP_shl_dword_def OP_shr_byte_def OP_shr_word_def OP_shr_dword_def

lemmas [vm_ops] = OP_bin_defs
  OP_BIN_BYTE_def OP_BIN_WORD_def OP_BIN_DWORD_def OP_no_op_def OP_bw_byte_def OP_bw_word_def
  OP_bw_dword_def OP_ld_byte_def OP_ld_word_def OP_ld_dword_def OP_ld_value_byte_def
  OP_ld_value_word_def OP_ld_value_dword_def OP_ld_value_byte_stack_def
  OP_ld_value_word_stack_def OP_ld_value_dword_stack_def OP_st_byte_def OP_st_word_def
  OP_st_dword_def OP_pop_def

lemma set_below_moves: "set_below k v s = Some s' \<Longrightarrow> moves s s'"
  by (auto simp: set_below_def moves_def split: if_splits)

lemma sp_down_moves: "sp_down s = Some s' \<Longrightarrow> moves s s'"
  by (auto simp: sp_down_def moves_def split: if_splits)

lemma push_cell_moves: "push_cell f s = Some s' \<Longrightarrow> moves s s'"
  by (auto simp: push_cell_def bind_Some_conv dest!: set_below_moves) (simp add: moves_def)

lemma fetch_moves: "fetch s = Some (b, s') \<Longrightarrow> moves s s'"
  by (auto simp: fetch_def moves_def split: if_splits)

lemma fetch16_moves: "fetch16 s = Some (b, s') \<Longrightarrow> moves s s'"
  by (auto simp: fetch16_def bind_Some_conv dest!: fetch_moves) (metis moves_trans)

lemma fetch32_moves: "fetch32 s = Some (b, s') \<Longrightarrow> moves s s'"
  by (auto simp: fetch32_def bind_Some_conv dest!: fetch_moves) (metis moves_trans)

lemma moves_ram [simp]: "moves (s\<lparr>vm_ram := m\<rparr>) s' = moves s s'"
  by (simp add: moves_def)

lemma pop_parameters_moves: "pop_parameters n vs s = Some (ws, s') \<Longrightarrow> moves s s'"
proof (induction n arbitrary: vs s)
  case (Suc n)
  from Suc.prems obtain v t where "sp_down s = Some t" "pop_parameters n (v # vs) t = Some (ws, s')"
    by (auto simp: bind_Some_conv)
  then show ?case using Suc.IH sp_down_moves moves_trans by blast
qed simp

lemmas vm_moves = set_below_moves sp_down_moves push_cell_moves fetch_moves fetch16_moves
  fetch32_moves pop_parameters_moves

lemma OP_call_moves: "OP_call calls s = Some s' \<Longrightarrow> moves s s'"
  by (auto simp: OP_call_def bind_Some_conv split: if_splits dest!: vm_moves)
    (blast intro: moves_trans)+

lemma op_table_moves:
  assumes "n < length (op_table calls)" and "(op_table calls ! n) s = Some s'"
  shows "moves s s'"
proof -
  have "op_table calls ! n \<in> set (op_table calls)" using assms(1) by simp
  then show ?thesis using assms(2)
    by (auto simp: op_table_def vm_ops bind_Some_conv dest!: vm_moves OP_call_moves
        intro: moves_trans)
qed

lemma vm_step_moves: "vm_step calls s = Some s' \<Longrightarrow> moves s s' \<and> finsh_pc s < finsh_pc s'"
  by (auto simp: vm_step_def fetch_def moves_def split: if_splits dest!: op_table_moves)

function finsh_vm_loop :: "syscalls \<Rightarrow> vm \<Rightarrow> vm option" where
  "finsh_vm_loop calls s =
     (if finsh_pc s < FINSH_TEXT_MAX
      then vm_step calls s \<bind> finsh_vm_loop calls
      else Some s)"
  by pat_completeness auto

termination
  by (relation "measure (\<lambda>(calls, s). FINSH_TEXT_MAX - finsh_pc s)")
    (auto dest!: vm_step_moves)

declare finsh_vm_loop.simps [simp del]

definition finsh_vm_run :: "syscalls \<Rightarrow> vm \<Rightarrow> vm option" where
  "finsh_vm_run calls s = finsh_vm_loop calls (s\<lparr>finsh_sp := 0, finsh_pc := 0\<rparr>)"

definition finsh_stack_bottom :: "vm \<Rightarrow> u32" where
  "finsh_stack_bottom s = finsh_vm_stack s ! 0"

text \<open>Byte code that is no operation up to its end is passed over.\<close>

lemma finsh_vm_loop_noop:
  assumes "length (text_segment s) = FINSH_TEXT_MAX" "finsh_pc s \<le> FINSH_TEXT_MAX"
    and "\<forall>i < FINSH_TEXT_MAX. finsh_pc s \<le> i \<longrightarrow> text_segment s ! i = 0"
  shows "finsh_vm_loop calls s = Some (s\<lparr>finsh_pc := FINSH_TEXT_MAX\<rparr>)"
  using assms
proof (induction "FINSH_TEXT_MAX - finsh_pc s" arbitrary: s)
  case 0
  then show ?case by (subst finsh_vm_loop.simps) simp
next
  case (Suc n)
  let ?t = "s\<lparr>finsh_pc := Suc (finsh_pc s)\<rparr>"
  from Suc.hyps(2) have lt: "finsh_pc s < FINSH_TEXT_MAX" by simp
  then have "text_segment s ! finsh_pc s = 0" using Suc.prems(3) by simp
  then have "vm_step calls s = Some ?t"
    using lt by (simp add: vm_step_def fetch_def op_table_def OP_no_op_def)
  moreover have "finsh_vm_loop calls ?t = Some (?t\<lparr>finsh_pc := FINSH_TEXT_MAX\<rparr>)"
    using Suc.hyps(2) Suc.prems lt by (intro Suc.hyps(1)) auto
  ultimately show ?case using lt by (subst finsh_vm_loop.simps) simp
qed

end
