(* ===== verification/FinshNode.thy ===== *)
theory FinshNode
  imports FinshVm
begin

text \<open>
  The tables the shell works on: error number (\<open>finsh_error.c\<close>), variables (\<open>finsh_var.c\<close>), system
  variables and calls (\<open>finsh_var.c\<close>, \<open>finsh_vm.c\<close>) and the nodes of the syntax tree
  (\<open>finsh_node.c\<close>, without the string constants, see \<open>FinshParser\<close>). The value of variable \<open>i\<close>
  lies in memory, 20 bytes into entry \<open>i\<close> of \<open>global_variable\<close>; names are C strings.
\<close>

subsection \<open>Errors and types\<close>

abbreviation (input) FINSH_ERROR_OK :: u8 where "FINSH_ERROR_OK \<equiv> 0"
abbreviation (input) FINSH_ERROR_INVALID_TOKEN :: u8 where "FINSH_ERROR_INVALID_TOKEN \<equiv> 1"
abbreviation (input) FINSH_ERROR_EXPECT_TYPE :: u8 where "FINSH_ERROR_EXPECT_TYPE \<equiv> 2"
abbreviation (input) FINSH_ERROR_UNKNOWN_TYPE :: u8 where "FINSH_ERROR_UNKNOWN_TYPE \<equiv> 3"
abbreviation (input) FINSH_ERROR_VARIABLE_EXIST :: u8 where "FINSH_ERROR_VARIABLE_EXIST \<equiv> 4"
abbreviation (input) FINSH_ERROR_EXPECT_OPERATOR :: u8 where "FINSH_ERROR_EXPECT_OPERATOR \<equiv> 5"
abbreviation (input) FINSH_ERROR_MEMORY_FULL :: u8 where "FINSH_ERROR_MEMORY_FULL \<equiv> 6"
abbreviation (input) FINSH_ERROR_UNKNOWN_NODE :: u8 where "FINSH_ERROR_UNKNOWN_NODE \<equiv> 8"
abbreviation (input) FINSH_ERROR_EXPECT_CHAR :: u8 where "FINSH_ERROR_EXPECT_CHAR \<equiv> 9"
abbreviation (input) FINSH_ERROR_UNEXPECT_END :: u8 where "FINSH_ERROR_UNEXPECT_END \<equiv> 10"
abbreviation (input) FINSH_ERROR_UNKNOWN_TOKEN :: u8 where "FINSH_ERROR_UNKNOWN_TOKEN \<equiv> 11"
abbreviation (input) FINSH_ERROR_UNKNOWN_SYMBOL :: u8 where "FINSH_ERROR_UNKNOWN_SYMBOL \<equiv> 13"
abbreviation (input) FINSH_ERROR_NULL_NODE :: u8 where "FINSH_ERROR_NULL_NODE \<equiv> 14"

datatype finsh_type =
    finsh_type_unknown | finsh_type_void | finsh_type_voidp
  | finsh_type_char | finsh_type_uchar | finsh_type_charp
  | finsh_type_short | finsh_type_ushort | finsh_type_shortp
  | finsh_type_int | finsh_type_uint | finsh_type_intp
  | finsh_type_long | finsh_type_ulong | finsh_type_longp

text \<open>The number of a type, which a cast stores in the node.\<close>

fun finsh_type_code :: "finsh_type \<Rightarrow> u8" where
  "finsh_type_code finsh_type_unknown = 0"
| "finsh_type_code finsh_type_void = 1"
| "finsh_type_code finsh_type_voidp = 2"
| "finsh_type_code finsh_type_char = 3"
| "finsh_type_code finsh_type_uchar = 4"
| "finsh_type_code finsh_type_charp = 5"
| "finsh_type_code finsh_type_short = 6"
| "finsh_type_code finsh_type_ushort = 7"
| "finsh_type_code finsh_type_shortp = 8"
| "finsh_type_code finsh_type_int = 9"
| "finsh_type_code finsh_type_uint = 10"
| "finsh_type_code finsh_type_intp = 11"
| "finsh_type_code finsh_type_long = 12"
| "finsh_type_code finsh_type_ulong = 13"
| "finsh_type_code finsh_type_longp = 14"

abbreviation (input) FINSH_DATA_TYPE_VOID :: u8 where "FINSH_DATA_TYPE_VOID \<equiv> 0"
abbreviation (input) FINSH_DATA_TYPE_BYTE :: u8 where "FINSH_DATA_TYPE_BYTE \<equiv> 1"
abbreviation (input) FINSH_DATA_TYPE_WORD :: u8 where "FINSH_DATA_TYPE_WORD \<equiv> 2"
abbreviation (input) FINSH_DATA_TYPE_DWORD :: u8 where "FINSH_DATA_TYPE_DWORD \<equiv> 3"

subsection \<open>Variables\<close>

abbreviation (input) FINSH_NAME_MAX :: nat where "FINSH_NAME_MAX \<equiv> 16"
abbreviation (input) FINSH_VARIABLE_MAX :: nat where "FINSH_VARIABLE_MAX \<equiv> 8"

record finsh_var =
  fv_name :: string
  fv_type :: finsh_type

definition finsh_var_init :: "finsh_var list" where
  "finsh_var_init =
     replicate FINSH_VARIABLE_MAX \<lparr>fv_name = [], fv_type = finsh_type_unknown\<rparr>"

text \<open>\<open>strncmp (a, b, FINSH_NAME_MAX) == 0\<close>.\<close>

definition same_name :: "string \<Rightarrow> string \<Rightarrow> bool" where
  "same_name a b = (take FINSH_NAME_MAX a = take FINSH_NAME_MAX b)"

text \<open>The loop of \<open>finsh_var_insert\<close>: \<open>None\<close> if there is a variable of that name.\<close>

fun var_insert_loop :: "string \<Rightarrow> nat \<Rightarrow> nat option \<Rightarrow> finsh_var list \<Rightarrow> nat option option" where
  "var_insert_loop name i vacant [] = Some vacant"
| "var_insert_loop name i vacant (v # vs) =
     (if same_name (fv_name v) name then None
      else if fv_type v = finsh_type_unknown \<and> vacant = None
        then var_insert_loop name (i + 1) (Some i) vs
      else var_insert_loop name (i + 1) vacant vs)"

definition finsh_var_insert ::
    "string \<Rightarrow> finsh_type \<Rightarrow> finsh_var list \<Rightarrow> int \<times> finsh_var list" where
  "finsh_var_insert name ty vs =
     (case var_insert_loop name 0 None vs of
        None \<Rightarrow> (- 1, vs)
      | Some None \<Rightarrow> (- 1, vs)
      | Some (Some vacant) \<Rightarrow>
          (int vacant, vs[vacant := \<lparr>fv_name = take FINSH_NAME_MAX name, fv_type = ty\<rparr>]))"

fun finsh_var_lookup :: "string \<Rightarrow> finsh_var list \<Rightarrow> nat option" where
  "finsh_var_lookup name [] = None"
| "finsh_var_lookup name (v # vs) =
     (if same_name (fv_name v) name then Some 0
      else map_option Suc (finsh_var_lookup name vs))"

text \<open>The address of the member \<open>value\<close> of a \<open>struct finsh_var\<close>, and of variable \<open>i\<close>.\<close>

definition var_value :: "addr \<Rightarrow> addr" where
  "var_value var = var + 20"

definition global_variable :: "addr \<Rightarrow> nat \<Rightarrow> addr" where
  "global_variable base i = base + 24 * of_nat i"

definition finsh_var_delete ::
    "addr \<Rightarrow> string \<Rightarrow> finsh_var list \<Rightarrow> ram \<Rightarrow> (int \<times> finsh_var list \<times> ram) option" where
  "finsh_var_delete base name vs m =
     (case finsh_var_lookup name vs of
        None \<Rightarrow> Some (- 1, vs, m)
      | Some i \<Rightarrow>
          map_option (\<lambda>m. (0, vs[i := \<lparr>fv_name = [], fv_type = finsh_type_unknown\<rparr>], m))
            (store_bytes m (var_value (global_variable base i)) [0, 0, 0, 0]))"

subsection \<open>System variables and system calls\<close>

record finsh_sysvar =
  sysvar_self :: addr
  sysvar_name :: string
  sysvar_type :: finsh_type
  sysvar_var :: addr

record finsh_syscall =
  syscall_self :: addr
  syscall_name :: string
  syscall_func :: addr

text \<open>
  The tables end up in sections of their own, the lists hold what was appended since. A name is
  looked up in the table by \<open>strcmp\<close>, in the list by a \<open>strncmp\<close> of the length of the name.
\<close>

definition find_named :: "('a \<Rightarrow> string) \<Rightarrow> string \<Rightarrow> 'a list \<Rightarrow> 'a list \<Rightarrow> 'a option" where
  "find_named name_of name table appended =
     (case find (\<lambda>x. name_of x = name) table of
        Some x \<Rightarrow> Some x
      | None \<Rightarrow> find (\<lambda>x. take (length name) (name_of x) = name) appended)"

definition finsh_sysvar_lookup ::
    "string \<Rightarrow> finsh_sysvar list \<Rightarrow> finsh_sysvar list \<Rightarrow> finsh_sysvar option" where
  "finsh_sysvar_lookup name table appended = find_named sysvar_name name table appended"

definition finsh_syscall_lookup ::
    "string \<Rightarrow> finsh_syscall list \<Rightarrow> finsh_syscall list \<Rightarrow> finsh_syscall option" where
  "finsh_syscall_lookup name table appended = find_named syscall_name name table appended"

text \<open>The item comes from \<open>rt_malloc\<close>, which may have failed.\<close>

definition finsh_sysvar_append ::
    "addr option \<Rightarrow> string \<Rightarrow> finsh_type \<Rightarrow> addr \<Rightarrow> finsh_sysvar list \<Rightarrow> finsh_sysvar list" where
  "finsh_sysvar_append item name ty var_addr appended =
     (case item of None \<Rightarrow> appended
      | Some a \<Rightarrow> \<lparr>sysvar_self = a, sysvar_name = name, sysvar_type = ty,
                  sysvar_var = var_addr\<rparr> # appended)"

definition finsh_syscall_append ::
    "addr option \<Rightarrow> string \<Rightarrow> addr \<Rightarrow> finsh_syscall list \<Rightarrow> finsh_syscall list" where
  "finsh_syscall_append item name func appended =
     (case item of None \<Rightarrow> appended
      | Some a \<Rightarrow> \<lparr>syscall_self = a, syscall_name = name, syscall_func = func\<rparr> # appended)"

subsection \<open>Nodes\<close>

datatype fnode_type =
    FINSH_NODE_UNKNOWN | FINSH_NODE_ID
  | FINSH_NODE_VALUE_CHAR | FINSH_NODE_VALUE_INT | FINSH_NODE_VALUE_LONG
  | FINSH_NODE_VALUE_STRING | FINSH_NODE_VALUE_NULL
  | FINSH_NODE_SYS_ADD | FINSH_NODE_SYS_SUB | FINSH_NODE_SYS_MUL | FINSH_NODE_SYS_DIV
  | FINSH_NODE_SYS_MOD | FINSH_NODE_SYS_AND | FINSH_NODE_SYS_OR | FINSH_NODE_SYS_XOR
  | FINSH_NODE_SYS_BITWISE | FINSH_NODE_SYS_SHL | FINSH_NODE_SYS_SHR
  | FINSH_NODE_SYS_FUNC | FINSH_NODE_SYS_ASSIGN | FINSH_NODE_SYS_CAST
  | FINSH_NODE_SYS_PREINC | FINSH_NODE_SYS_PREDEC | FINSH_NODE_SYS_INC | FINSH_NODE_SYS_DEC
  | FINSH_NODE_SYS_GETVALUE | FINSH_NODE_SYS_GETADDR | FINSH_NODE_SYS_NULL

abbreviation (input) FINSH_IDTYPE_VAR :: u8 where "FINSH_IDTYPE_VAR \<equiv> 1"
abbreviation (input) FINSH_IDTYPE_SYSVAR :: u8 where "FINSH_IDTYPE_SYSVAR \<equiv> 2"
abbreviation (input) FINSH_IDTYPE_SYSCALL :: u8 where "FINSH_IDTYPE_SYSCALL \<equiv> 4"
abbreviation (input) FINSH_IDTYPE_ADDRESS :: u8 where "FINSH_IDTYPE_ADDRESS \<equiv> 8"

text \<open>The union \<open>id\<close> of a node. Read as \<open>id.var\<close> it is the address of whatever it points to.\<close>

datatype fnode_id = id_null | id_var nat | id_sysvar finsh_sysvar | id_syscall finsh_syscall

fun id_var_addr :: "addr \<Rightarrow> fnode_id \<Rightarrow> addr" where
  "id_var_addr base id_null = 0"
| "id_var_addr base (id_var i) = global_variable base i"
| "id_var_addr base (id_sysvar sv) = sysvar_self sv"
| "id_var_addr base (id_syscall sc) = syscall_self sc"

text \<open>
  A node with the chain of its children: \<open>child\<close> is the first of them, the \<open>sibling\<close> of a node is
  the next element of the list it is in. A function of a node pointer in the code, which goes on to
  the siblings, is a function of the list from that node on.
\<close>

datatype finsh_node =
  Node (node_type: fnode_type) (data_type: u8) (idtype: u8) (node_value: u32) (node_id: fnode_id)
    (children: "finsh_node list")

abbreviation (input) FINSH_NODE_MAX :: nat where "FINSH_NODE_MAX \<equiv> 16"

end
