(* ===== verification/FinshToken.thy ===== *)
theory FinshToken
  imports FinshNode "HOL-Library.Char_ord"
begin

text \<open>
  The scanner of the shell, \<open>components/finsh/finsh_token.c\<close>. The record is \<open>struct finsh_token\<close>
  with the global error number; the line is the C string it scans. \<open>None\<close> is a write beyond one
  of the buffers.
\<close>

datatype finsh_token_type =
    finsh_token_type_left_paren | finsh_token_type_right_paren
  | finsh_token_type_comma | finsh_token_type_semicolon
  | finsh_token_type_mul | finsh_token_type_add | finsh_token_type_inc
  | finsh_token_type_sub | finsh_token_type_dec | finsh_token_type_div | finsh_token_type_mod
  | finsh_token_type_assign | finsh_token_type_and | finsh_token_type_or | finsh_token_type_xor
  | finsh_token_type_bitwise | finsh_token_type_shl | finsh_token_type_shr
  | finsh_token_type_comments
  | finsh_token_type_void | finsh_token_type_char | finsh_token_type_short
  | finsh_token_type_int | finsh_token_type_long | finsh_token_type_unsigned
  | finsh_token_type_value_char | finsh_token_type_value_int | finsh_token_type_value_long
  | finsh_token_type_value_string | finsh_token_type_value_null
  | finsh_token_type_identifier | finsh_token_type_bad | finsh_token_type_eof

abbreviation (input) FINSH_STRING_MAX :: nat where "FINSH_STRING_MAX \<equiv> 128"

record finsh_token =
  tk_eof :: bool
  tk_replay :: bool
  tk_position :: nat
  current_token :: finsh_token_type
  tk_value :: u32
  tk_string :: string
  tk_line :: string
  global_errno :: u8

definition finsh_error_set :: "u8 \<Rightarrow> 'a finsh_token_scheme \<Rightarrow> 'a finsh_token_scheme" where
  "finsh_error_set type self = self\<lparr>global_errno := type\<rparr>"

text \<open>\<open>memset\<close> makes the first token one that does not exist; it is read before it is set nowhere.\<close>

definition finsh_token_init :: "string \<Rightarrow> 'a finsh_token_scheme \<Rightarrow> 'a finsh_token_scheme" where
  "finsh_token_init line self =
     self\<lparr>tk_eof := False, tk_replay := False, tk_position := 0,
          current_token := finsh_token_type_bad, tk_value := 0,
          tk_string := replicate FINSH_STRING_MAX (CHR 0x00), tk_line := line\<rparr>"

subsection \<open>Characters\<close>

definition ord :: "char \<Rightarrow> nat" where
  "ord c = of_char c"

definition is_digit :: "char \<Rightarrow> bool" where
  "is_digit c = (ord (CHR ''0'') \<le> ord c \<and> ord c \<le> ord (CHR ''9''))"

definition lower :: "char \<Rightarrow> nat" where
  "lower c = ord c OR 0x20"

definition is_alpha :: "char \<Rightarrow> bool" where
  "is_alpha c = (ord (CHR ''a'') \<le> lower c \<and> lower c - ord (CHR ''a'') < 26)"

definition is_xdigit :: "char \<Rightarrow> bool" where
  "is_xdigit c =
     (is_digit c \<or> ord (CHR ''a'') \<le> lower c \<and> lower c - ord (CHR ''a'') < 6)"

definition is_separator :: "char \<Rightarrow> bool" where
  "is_separator c =
     (\<not> (ord (CHR ''a'') \<le> ord c \<and> ord c \<le> ord (CHR ''z'') \<or>
         ord (CHR ''A'') \<le> ord c \<and> ord c \<le> ord (CHR ''Z'') \<or> is_digit c \<or> c = CHR ''_''))"

text \<open>The position never passes the end of the line, where it is compared with \<open>strlen\<close>.\<close>

definition token_next_char :: "'a finsh_token_scheme \<Rightarrow> char \<times> 'a finsh_token_scheme" where
  "token_next_char self =
     (if tk_eof self then (CHR 0x00, self)
      else if length (tk_line self) \<le> tk_position self \<or>
              tk_line self ! tk_position self = CHR 0x0A
        then (CHR 0x00, self\<lparr>tk_eof := True, tk_position := 0\<rparr>)
      else (tk_line self ! tk_position self, self\<lparr>tk_position := tk_position self + 1\<rparr>))"

definition token_prev_char :: "'a finsh_token_scheme \<Rightarrow> 'a finsh_token_scheme" where
  "token_prev_char self =
     (if tk_eof self then self
      else if tk_position self = 0 then self
      else self\<lparr>tk_position := tk_position self - 1\<rparr>)"

text \<open>What is left to scan, the measure of every loop over characters.\<close>

definition tk_rest :: "'a finsh_token_scheme \<Rightarrow> nat" where
  "tk_rest self =
     (if tk_eof self then 0 else Suc (length (tk_line self) - tk_position self))"

lemma token_next_char_rest:
  "token_next_char self = (c, self') \<Longrightarrow> tk_rest self' \<le> tk_rest self"
  by (auto simp: token_next_char_def tk_rest_def split: if_splits)

lemma token_next_char_less:
  "token_next_char self = (c, self') \<Longrightarrow> c \<noteq> CHR 0x00 \<Longrightarrow> tk_rest self' < tk_rest self"
  by (auto simp: token_next_char_def tk_rest_def split: if_splits)

text \<open>
  The loops: take characters while \<open>p\<close> holds, which is never true of the NUL that stands for the
  end of the line. The character that ends the loop has been read.
\<close>

function scan_while ::
    "(char \<Rightarrow> bool) \<Rightarrow> char \<Rightarrow> 'a finsh_token_scheme \<Rightarrow> string \<times> char \<times> 'a finsh_token_scheme" where
  "scan_while p c self =
     (if p c \<and> \<not> tk_eof self
      then (let (c', self) = token_next_char self; (cs, c'', self) = scan_while p c' self
            in (c # cs, c'', self))
      else ([], c, self))"
  by pat_completeness auto

termination
  by (relation "measure (\<lambda>(p, c, self). tk_rest self)")
    (auto simp: token_next_char_def tk_rest_def split: if_splits)

declare scan_while.simps [simp del]

text \<open>\<open>*p ++ = ch\<close> into \<open>self->string\<close>.\<close>

fun put_string :: "nat \<Rightarrow> string \<Rightarrow> string \<Rightarrow> string option" where
  "put_string i [] buf = Some buf"
| "put_string i (c # cs) buf =
     (if i < FINSH_STRING_MAX then put_string (i + 1) cs (buf[i := c]) else None)"

subsection \<open>Words\<close>

text \<open>
  The loop of \<open>token_get_string\<close> stops at a separator or at the end of the line; in the second case
  the end is forgotten again, and the position is that of the beginning of the line.
\<close>

definition token_get_string :: "'a finsh_token_scheme \<Rightarrow> 'a finsh_token_scheme option" where
  "token_get_string self =
     (let (ch, self) = token_next_char self in
      if tk_eof self then Some self
      else
        let self = self\<lparr>tk_string := (tk_string self)[0 := CHR 0x00]\<rparr> in
        if is_digit ch then Some (token_prev_char self)
        else
          let (cs, _, self) = scan_while (\<lambda>c. \<not> is_separator c) ch self;
              self = token_prev_char (self\<lparr>tk_eof := False\<rparr>)
          in map_option (\<lambda>buf. self\<lparr>tk_string := buf\<rparr>)
               (put_string 0 (cs @ [CHR 0x00]) (tk_string self)))"

definition finsh_name_table :: "(string \<times> finsh_token_type) list" where
  "finsh_name_table =
    [(''void'', finsh_token_type_void), (''char'', finsh_token_type_char),
     (''short'', finsh_token_type_short), (''int'', finsh_token_type_int),
     (''long'', finsh_token_type_long), (''unsigned'', finsh_token_type_unsigned),
     (''NULL'', finsh_token_type_value_null), (''null'', finsh_token_type_value_null)]"

definition token_trim_space :: "'a finsh_token_scheme \<Rightarrow> 'a finsh_token_scheme" where
  "token_trim_space self =
     (let (ch, self) = token_next_char self;
          (_, _, self) =
            scan_while (\<lambda>c. c = CHR '' '' \<or> c = CHR 0x09 \<or> c = CHR 0x0D) ch self
      in token_prev_char self)"

subsection \<open>Constants\<close>

text \<open>
  \<open>token_spec_number\<close>: digits of 4, 3 or 1 bits shifted into a number of two words, of which the
  lower one is the result.
\<close>

definition number_shift :: "nat \<Rightarrow> nat" where
  "number_shift b = (if b = 16 then 4 else if b = 8 then 3 else 1)"

definition number_digit :: "char \<Rightarrow> u32" where
  "number_digit c =
     (if ord (CHR ''a'') \<le> ord c \<and> ord c \<le> ord (CHR ''f'')
        then of_nat (ord c) - of_nat (ord (CHR ''a'')) + 10
      else if ord (CHR ''A'') \<le> ord c \<and> ord c \<le> ord (CHR ''F'')
        then of_nat (ord c) - of_nat (ord (CHR ''A'')) + 10
      else of_nat (ord c) - of_nat (ord (CHR ''0'')))"

definition spec_step :: "nat \<Rightarrow> char \<Rightarrow> u32 \<times> u32 \<Rightarrow> u32 \<times> u32" where
  "spec_step shift c bn =
     (let t = number_digit c; v = fst bn;
          bn0 = push_bit shift v OR t; t = drop_bit (32 - shift) v;
          v = snd bn; bn1 = push_bit shift v OR t
      in (bn0, bn1))"

definition token_spec_number :: "string \<Rightarrow> nat \<Rightarrow> u32" where
  "token_spec_number string b = fst (fold (spec_step (number_shift b)) string (0, 0))"

definition decimal_step :: "char \<Rightarrow> u32 \<Rightarrow> u32" where
  "decimal_step c value = value * 10 + (of_nat (ord c) - of_nat (ord (CHR ''0'')))"

text \<open>The digits of a number in base 2, 8 or 16, copied to a buffer of 128.\<close>

definition based_number ::
    "(char \<Rightarrow> bool) \<Rightarrow> nat \<Rightarrow> char \<Rightarrow> 'a finsh_token_scheme \<Rightarrow>
     (char \<times> 'a finsh_token_scheme) option" where
  "based_number p b ch self =
     (let (buf, ch, self) = scan_while p ch self in
      if length buf < 128
      then Some (ch, self\<lparr>tk_value := token_spec_number buf b,
                         current_token := finsh_token_type_value_int\<rparr>)
      else None)"

text \<open>The suffix: \<open>l\<close> or \<open>L\<close>, or a character too many.\<close>

definition number_suffix :: "char \<Rightarrow> 'a finsh_token_scheme \<Rightarrow> 'a finsh_token_scheme" where
  "number_suffix ch self =
     (if ch = CHR ''l'' \<or> ch = CHR ''L''
      then self\<lparr>current_token := finsh_token_type_value_long\<rparr>
      else token_prev_char self)"

definition token_proc_number :: "'a finsh_token_scheme \<Rightarrow> 'a finsh_token_scheme option" where
  "token_proc_number self =
     (let (ch, self) = token_next_char self in
      if ch = CHR ''0'' then
        let (ch, self) = token_next_char self in
        if ch = CHR ''x'' \<or> ch = CHR ''X'' then
          let (ch, self) = token_next_char self in
          map_option (\<lambda>(ch, self). number_suffix ch self)
            (based_number (\<lambda>c. is_digit c \<or> is_alpha c) 16 ch self)
        else if ch = CHR ''b'' \<or> ch = CHR ''B'' then
          let (ch, self) = token_next_char self in
          map_option (\<lambda>(ch, self). number_suffix ch self)
            (based_number (\<lambda>c. c = CHR ''0'' \<or> c = CHR ''1'') 2 ch self)
        else if ord (CHR ''0'') \<le> ord ch \<and> ord ch \<le> ord (CHR ''7'') then
          map_option (\<lambda>(ch, self). number_suffix ch self)
            (based_number (\<lambda>c. ord (CHR ''0'') \<le> ord c \<and> ord c \<le> ord (CHR ''7'')) 8 ch self)
        else
          let self = token_prev_char self in
          Some (self\<lparr>tk_value := 0, current_token := finsh_token_type_value_int\<rparr>)
      else
        let (cs, ch, self) = scan_while is_digit ch self in
        Some (number_suffix ch
          (self\<lparr>tk_value := fold decimal_step cs 0, current_token := finsh_token_type_value_int\<rparr>)))"

text \<open>
  A character constant. An escape of digits stores what it reads in a buffer of four, and then
  converts the empty string behind it.
\<close>

definition token_proc_char ::
    "'a finsh_token_scheme \<Rightarrow> (char \<times> 'a finsh_token_scheme) option" where
  "token_proc_char self = do {
     let (ch, self) = token_next_char self;
     (ch, self) \<leftarrow>
       (if ch = CHR 0x5C then
          (let (ch, self) = token_next_char self in
           if ch = CHR ''n'' then Some (CHR 0x0A, self)
           else if ch = CHR ''t'' then Some (CHR 0x09, self)
           else if ch = CHR ''v'' then Some (CHR 0x0B, self)
           else if ch = CHR ''b'' then Some (CHR 0x08, self)
           else if ch = CHR ''r'' then Some (CHR 0x0D, self)
           else if ch = CHR 0x5C then Some (CHR 0x5C, self)
           else if ch = CHR 0x27 then Some (CHR 0x27, self)
           else
             (let (cs, _, self) = scan_while is_digit ch self in
              if length cs < 4 then Some (CHR 0x00, token_prev_char self) else None))
        else Some (ch, self));
     let (next, self) = token_next_char self;
     Some (if next \<noteq> CHR 0x27
           then (ch, finsh_error_set FINSH_ERROR_EXPECT_CHAR (token_prev_char self))
           else (ch, self)) }"

definition xdigit_value :: "char \<Rightarrow> int" where
  "xdigit_value c =
     (if ord c < ord (CHR ''A'') then int (ord c) - int (ord (CHR ''0''))
      else int (lower c) - int (ord (CHR ''a'')) + 10)"

definition token_proc_escape :: "'a finsh_token_scheme \<Rightarrow> int \<times> 'a finsh_token_scheme" where
  "token_proc_escape self =
     (let (ch, self) = token_next_char self in
      if ch = CHR ''n'' then (0x0A, self)
      else if ch = CHR ''t'' then (0x09, self)
      else if ch = CHR ''v'' then (0x0B, self)
      else if ch = CHR ''b'' then (0x08, self)
      else if ch = CHR ''r'' then (0x0D, self)
      else if ch = CHR ''f'' then (0x0C, self)
      else if ch = CHR ''a'' then (0x07, self)
      else if ch = CHR 0x22 then (0x22, self)
      else if ch = CHR ''x'' \<or> ch = CHR ''X'' then
        (let (ch, self) = token_next_char self; (cs, _, self) = scan_while is_xdigit ch self
         in (fold (\<lambda>c result. result * 16 + xdigit_value c) cs 0, token_prev_char self))
      else
        (let octal = (\<lambda>c. ord (CHR ''0'') \<le> ord c \<and> ord c - ord (CHR ''0'') < 8) in
         if octal ch then
           (let (cs, _, self) = scan_while octal ch self
            in (fold (\<lambda>c result. result * 8 + int (ord c) - int (ord (CHR ''0''))) cs 0,
                token_prev_char self))
         else (0, self)))"

text \<open>
  A string constant, \<open>i\<close> characters of which are in the buffer. A string that fills the buffer is
  left there without its end.
\<close>

function proc_string_loop :: "nat \<Rightarrow> 'a finsh_token_scheme \<Rightarrow> 'a finsh_token_scheme" where
  "proc_string_loop i self =
     (if i < FINSH_STRING_MAX then
        (let (ch, self) = token_next_char self in
         if tk_eof self then finsh_error_set FINSH_ERROR_UNEXPECT_END self
         else if ch = CHR 0x5C then
           (let (r, self) = token_proc_escape self in
            proc_string_loop (i + 1) (self\<lparr>tk_string := (tk_string self)[i := char_of r]\<rparr>))
         else if ch = CHR 0x22 then self\<lparr>tk_string := (tk_string self)[i := CHR 0x00]\<rparr>
         else proc_string_loop (i + 1) (self\<lparr>tk_string := (tk_string self)[i := ch]\<rparr>))
      else self)"
  by pat_completeness auto

termination by (relation "measure (\<lambda>(i, self). FINSH_STRING_MAX - i)") auto

declare proc_string_loop.simps [simp del]

definition token_proc_string :: "'a finsh_token_scheme \<Rightarrow> 'a finsh_token_scheme" where
  "token_proc_string self = proc_string_loop 0 self"

subsection \<open>Tokens\<close>

definition token_operator :: "'a finsh_token_scheme \<Rightarrow> 'a finsh_token_scheme option" where
  "token_operator self =
    (let (ch, self) = token_next_char self;
         tok = (\<lambda>t self. Some (self\<lparr>current_token := t\<rparr>));
         doubled = (\<lambda>c t2 t1.
           let (ch, self) = token_next_char self
           in if ch = c then tok t2 self else tok t1 (token_prev_char self))
     in
      if ch = CHR ''('' then tok finsh_token_type_left_paren self
      else if ch = CHR '')'' then tok finsh_token_type_right_paren self
      else if ch = CHR '','' then tok finsh_token_type_comma self
      else if ch = CHR '';'' then tok finsh_token_type_semicolon self
      else if ch = CHR ''&'' then tok finsh_token_type_and self
      else if ch = CHR ''*'' then tok finsh_token_type_mul self
      else if ch = CHR ''+'' then doubled (CHR ''+'') finsh_token_type_inc finsh_token_type_add
      else if ch = CHR ''-'' then doubled (CHR ''-'') finsh_token_type_dec finsh_token_type_sub
      else if ch = CHR ''/'' then doubled (CHR ''/'') finsh_token_type_eof finsh_token_type_div
      else if ch = CHR ''<'' then doubled (CHR ''<'') finsh_token_type_shl finsh_token_type_bad
      else if ch = CHR ''>'' then doubled (CHR ''>'') finsh_token_type_shr finsh_token_type_bad
      else if ch = CHR ''|'' then tok finsh_token_type_or self
      else if ch = CHR ''%'' then tok finsh_token_type_mod self
      else if ch = CHR 0x7E then tok finsh_token_type_bitwise self
      else if ch = CHR ''^'' then tok finsh_token_type_xor self
      else if ch = CHR ''='' then tok finsh_token_type_assign self
      else if ch = CHR 0x27 then
        map_option (\<lambda>(c, self). self\<lparr>tk_value := set_char_value (of_nat (ord c)) (tk_value self),
                                    current_token := finsh_token_type_value_char\<rparr>)
          (token_proc_char self)
      else if ch = CHR 0x22 then tok finsh_token_type_value_string (token_proc_string self)
      else if is_digit ch then token_proc_number (token_prev_char self)
      else tok finsh_token_type_bad (finsh_error_set FINSH_ERROR_UNKNOWN_TOKEN self))"

definition token_run :: "'a finsh_token_scheme \<Rightarrow> 'a finsh_token_scheme option" where
  "token_run self = do {
     self \<leftarrow> token_get_string (token_trim_space self);
     if tk_eof self then Some (self\<lparr>current_token := finsh_token_type_eof\<rparr>)
     else if tk_string self ! 0 \<noteq> CHR 0x00 then do {
       str \<leftarrow> c_string (tk_string self);
       Some (case map_of finsh_name_table str of
               Some t \<Rightarrow> self\<lparr>current_token := t\<rparr>
             | None \<Rightarrow> self\<lparr>current_token := finsh_token_type_identifier\<rparr>) }
     else token_operator self }"

definition finsh_token_token ::
    "'a finsh_token_scheme \<Rightarrow> (finsh_token_type \<times> 'a finsh_token_scheme) option" where
  "finsh_token_token self =
     (if tk_replay self then Some (current_token self, self\<lparr>tk_replay := False\<rparr>)
      else map_option (\<lambda>self. (current_token self, self)) (token_run self))"

definition finsh_token_replay :: "'a finsh_token_scheme \<Rightarrow> 'a finsh_token_scheme" where
  "finsh_token_replay self = self\<lparr>tk_replay := True\<rparr>"

end
