(* ===== verification/FinshHeap.thy ===== *)
theory FinshHeap
  imports FinshNode
begin

text \<open>
  The heap of the shell for string constants, \<open>components/finsh/finsh_heap.c\<close>. A block is known by
  the offset of its header of eight bytes in \<open>finsh_heap\<close>; \<open>headers\<close> holds the headers, the lists
  are chains through their field \<open>next\<close>. A walk along a chain that does not end is \<open>None\<close>.
\<close>

abbreviation (input) FINSH_HEAP_MAX :: nat where "FINSH_HEAP_MAX \<equiv> 128"
abbreviation (input) HEADER_SIZE :: nat where "HEADER_SIZE \<equiv> 8"

record finsh_block_header =
  block_length :: nat
  block_next :: "nat option"

record finsh_heap =
  headers :: "nat \<Rightarrow> finsh_block_header"
  free_list :: "nat option"
  allocate_list :: "nat option"

datatype which_list = the_free_list | the_allocate_list

fun get_list :: "which_list \<Rightarrow> finsh_heap \<Rightarrow> nat option" where
  "get_list the_free_list h = free_list h"
| "get_list the_allocate_list h = allocate_list h"

fun set_list :: "which_list \<Rightarrow> nat option \<Rightarrow> finsh_heap \<Rightarrow> finsh_heap" where
  "set_list the_free_list x h = h\<lparr>free_list := x\<rparr>"
| "set_list the_allocate_list x h = h\<lparr>allocate_list := x\<rparr>"

definition set_next :: "nat \<Rightarrow> nat option \<Rightarrow> finsh_heap \<Rightarrow> finsh_heap" where
  "set_next b x h = h\<lparr>headers := (headers h)(b := (headers h b)\<lparr>block_next := x\<rparr>)\<rparr>"

definition set_length :: "nat \<Rightarrow> nat \<Rightarrow> finsh_heap \<Rightarrow> finsh_heap" where
  "set_length b n h = h\<lparr>headers := (headers h)(b := (headers h b)\<lparr>block_length := n\<rparr>)\<rparr>"

definition HEAP_ALIGN_SIZE :: "nat \<Rightarrow> nat" where
  "HEAP_ALIGN_SIZE n = 4 * ((n + 3) div 4)"

definition finsh_heap_init :: finsh_heap where
  "finsh_heap_init =
     \<lparr>headers = (\<lambda>_. \<lparr>block_length = 0, block_next = None\<rparr>)
        (0 := \<lparr>block_length = FINSH_HEAP_MAX - HEADER_SIZE, block_next = None\<rparr>),
      free_list = Some 0, allocate_list = None\<rparr>"

text \<open>The first block along a chain with a property.\<close>

partial_function (option) chain_find ::
    "(nat \<Rightarrow> bool) \<Rightarrow> (nat \<Rightarrow> finsh_block_header) \<Rightarrow> nat option \<Rightarrow> nat option option" where
  "chain_find p heads b =
     (case b of
        None \<Rightarrow> Some None
      | Some b \<Rightarrow> if p b then Some (Some b) else chain_find p heads (block_next (heads b)))"

declare chain_find.simps [code]

definition finsh_block_insert :: "which_list \<Rightarrow> nat \<Rightarrow> finsh_heap \<Rightarrow> finsh_heap option" where
  "finsh_block_insert l header h =
     (case get_list l h of
        None \<Rightarrow> Some (set_list l (Some header) h)
      | Some node \<Rightarrow>
          if header < node then Some (set_list l (Some header) (set_next header (Some node) h))
          else do {
            found \<leftarrow> chain_find
              (\<lambda>n. case block_next (headers h n) of None \<Rightarrow> True | Some x \<Rightarrow> header < x)
              (headers h) (Some node);
            node \<leftarrow> found;
            let h = (case block_next (headers h node) of
                       None \<Rightarrow> h | Some x \<Rightarrow> set_next header (Some x) h);
            Some (set_next node (Some header) h) })"

definition finsh_block_remove :: "which_list \<Rightarrow> nat \<Rightarrow> finsh_heap \<Rightarrow> finsh_heap option" where
  "finsh_block_remove l header h =
     (if get_list l h = Some header
      then Some (set_next header None (set_list l (block_next (headers h header)) h))
      else do {
        found \<leftarrow> chain_find (\<lambda>n. block_next (headers h n) = Some header) (headers h) (get_list l h);
        Some (case found of
                None \<Rightarrow> h
              | Some node \<Rightarrow> set_next node (block_next (headers h header)) h) })"

definition finsh_block_split :: "nat \<Rightarrow> nat \<Rightarrow> finsh_heap \<Rightarrow> finsh_heap" where
  "finsh_block_split header n h =
     (let next = header + HEADER_SIZE + n;
          h = set_length next (block_length (headers h header) - HEADER_SIZE - n) h;
          h = set_length header n h;
          h = set_next next (block_next (headers h header)) h
      in set_next header (Some next) h)"

definition block_end :: "nat \<Rightarrow> finsh_heap \<Rightarrow> nat" where
  "block_end b h = b + block_length (headers h b) + HEADER_SIZE"

definition finsh_block_merge :: "which_list \<Rightarrow> nat \<Rightarrow> finsh_heap \<Rightarrow> finsh_heap option" where
  "finsh_block_merge l header h = do {
     let next_node = block_next (headers h header);
     prev_node \<leftarrow>
       (if get_list l h = Some header then Some None
        else chain_find (\<lambda>n. block_next (headers h n) = Some header) (headers h) (get_list l h));
     let joins_next = (next_node \<noteq> None \<and> Some (block_end header h) = next_node);
     Some (case prev_node of
       Some prev \<Rightarrow>
         if block_end prev h = header then
           (if joins_next then
              let next = the next_node in
              set_next prev (block_next (headers h next))
                (set_length prev (block_length (headers h prev) + block_length (headers h header) +
                   block_length (headers h next) + 2 * HEADER_SIZE) h)
            else
              set_next prev (block_next (headers h header))
                (set_length prev (block_length (headers h prev) + block_length (headers h header) +
                   HEADER_SIZE) h))
         else if joins_next then
           let next = the next_node in
           set_next header (block_next (headers h next))
             (set_length header (block_length (headers h header) + block_length (headers h next) +
                HEADER_SIZE) h)
         else h
     | None \<Rightarrow>
         if joins_next then
           let next = the next_node in
           set_next header (block_next (headers h next))
             (set_length header (block_length (headers h header) + block_length (headers h next) +
                HEADER_SIZE) h)
         else h) }"

definition finsh_heap_free :: "nat \<Rightarrow> finsh_heap \<Rightarrow> finsh_heap option" where
  "finsh_heap_free header h = do {
     h \<leftarrow> finsh_block_remove the_allocate_list header h;
     h \<leftarrow> finsh_block_insert the_free_list header h;
     finsh_block_merge the_free_list header h }"

text \<open>The garbage collector: \<open>used\<close> tells whether a variable points to the data of a block.\<close>

partial_function (option) gc_loop ::
    "(nat \<Rightarrow> bool) \<Rightarrow> nat option \<Rightarrow> finsh_heap \<Rightarrow> finsh_heap option" where
  "gc_loop used b h =
     (case b of
        None \<Rightarrow> Some h
      | Some b \<Rightarrow>
          (let next = block_next (headers h b) in
           if used b then gc_loop used next h
           else finsh_heap_free b h \<bind> gc_loop used next))"

declare gc_loop.simps [code]

definition finsh_heap_gc :: "(nat \<Rightarrow> bool) \<Rightarrow> finsh_heap \<Rightarrow> finsh_heap option" where
  "finsh_heap_gc used h = gc_loop used (allocate_list h) h"

text \<open>The block, if there is one; its data are cleared by the caller of this model.\<close>

definition finsh_heap_allocate ::
    "(nat \<Rightarrow> bool) \<Rightarrow> nat \<Rightarrow> finsh_heap \<Rightarrow> (nat option \<times> finsh_heap) option" where
  "finsh_heap_allocate used n h = do {
     let n = HEAP_ALIGN_SIZE n;
     found \<leftarrow> chain_find (\<lambda>b. n + HEADER_SIZE < block_length (headers h b)) (headers h) (free_list h);
     (found, h) \<leftarrow>
       (case found of
          Some b \<Rightarrow> Some (Some b, h)
        | None \<Rightarrow> do {
            h \<leftarrow> finsh_heap_gc used h;
            found \<leftarrow> chain_find (\<lambda>b. n + HEADER_SIZE \<le> block_length (headers h b)) (headers h)
              (free_list h);
            Some (found, h) });
     case found of
       None \<Rightarrow> Some (None, h)
     | Some header \<Rightarrow> do {
         let h = finsh_block_split header n h;
         h \<leftarrow> finsh_block_remove the_free_list header h;
         let h = set_next header None h;
         h \<leftarrow> finsh_block_insert the_allocate_list header h;
         Some (Some header, h) } }"

end
