(* ===== verification/FinshParser.thy ===== *)
theory FinshParser
  imports FinshToken FinshHeap
begin

text \<open>
  The parser of the shell, \<open>components/finsh/finsh_parser.c\<close>, with the functions of
  \<open>finsh_node.c\<close> that make nodes. A recursive descent: the two functions that recur,
  \<open>proc_assign_expr\<close> and \<open>proc_cast_expr\<close>, and the loops take a number of rounds, and the other
  functions take what they call as arguments. \<open>None\<close> is a number of rounds that was not enough, or
  what the code leaves undefined (a name of 16 characters or more that is no variable, whose copy
  has no end; the address \<open>NULL\<close>). A chain of siblings is a list of nodes.
\<close>

record finsh_parser = finsh_token +
  node_count :: nat
  global_variables :: "finsh_var list"
  sysvar_table :: "finsh_sysvar list"
  global_sysvar_list :: "finsh_sysvar list"
  syscall_table :: "finsh_syscall list"
  global_syscall_list :: "finsh_syscall list"
  string_heap :: finsh_heap
  finsh_heap_base :: addr
  global_variable_base :: addr
  parser_ram :: ram

type_synonym 'r proc = "finsh_parser \<Rightarrow> ('r \<times> finsh_parser) option"
type_synonym node_proc = "finsh_node option proc"

subsection \<open>Nodes\<close>

text \<open>Nodes are never given back one by one, so the free ones of the table are the last ones.\<close>

definition finsh_node_allocate :: "finsh_parser \<Rightarrow> bool \<times> finsh_parser" where
  "finsh_node_allocate self =
     (if node_count self = FINSH_NODE_MAX then (False, self)
      else (True, self\<lparr>node_count := node_count self + 1\<rparr>))"

definition new_node :: "finsh_node \<Rightarrow> finsh_parser \<Rightarrow> finsh_node option \<times> finsh_parser" where
  "new_node n self =
     (case finsh_node_allocate self of
        (True, self) \<Rightarrow> (Some n, self)
      | (False, self) \<Rightarrow> (None, finsh_error_set FINSH_ERROR_MEMORY_FULL self))"

definition finsh_node_new_char :: "u8 \<Rightarrow> finsh_parser \<Rightarrow> finsh_node option \<times> finsh_parser" where
  "finsh_node_new_char c = new_node (Node FINSH_NODE_VALUE_CHAR 0 0 (ucast c) id_null [])"

definition finsh_node_new_int :: "u32 \<Rightarrow> finsh_parser \<Rightarrow> finsh_node option \<times> finsh_parser" where
  "finsh_node_new_int i = new_node (Node FINSH_NODE_VALUE_INT 0 0 i id_null [])"

definition finsh_node_new_long :: "u32 \<Rightarrow> finsh_parser \<Rightarrow> finsh_node option \<times> finsh_parser" where
  "finsh_node_new_long l = new_node (Node FINSH_NODE_VALUE_LONG 0 0 l id_null [])"

definition finsh_node_new_ptr :: "addr \<Rightarrow> finsh_parser \<Rightarrow> finsh_node option \<times> finsh_parser" where
  "finsh_node_new_ptr p = new_node (Node FINSH_NODE_VALUE_NULL 0 0 p id_null [])"

text \<open>A name of 16 characters has been copied without its end.\<close>

definition finsh_node_new_id :: "string \<Rightarrow> node_proc" where
  "finsh_node_new_id name self =
     (let node = (\<lambda>type symbol.
        Some (new_node (Node FINSH_NODE_ID 0 type 0 symbol []) self)) in
      case finsh_var_lookup name (global_variables self) of
        Some i \<Rightarrow> node FINSH_IDTYPE_VAR (id_var i)
      | None \<Rightarrow>
          (if FINSH_NAME_MAX \<le> length name then None
           else case finsh_sysvar_lookup name (sysvar_table self) (global_sysvar_list self) of
             Some sv \<Rightarrow> node FINSH_IDTYPE_SYSVAR (id_sysvar sv)
           | None \<Rightarrow>
               (case finsh_syscall_lookup name (syscall_table self) (global_syscall_list self) of
                  Some sc \<Rightarrow> node FINSH_IDTYPE_SYSCALL (id_syscall sc)
                | None \<Rightarrow> Some (None, finsh_error_set FINSH_ERROR_UNKNOWN_SYMBOL self))))"

text \<open>Whether a variable points to the data of block \<open>b\<close>: those blocks are not collected.\<close>

definition block_data :: "finsh_parser \<Rightarrow> nat \<Rightarrow> addr" where
  "block_data self b = finsh_heap_base self + of_nat (b + HEADER_SIZE)"

definition block_used :: "finsh_parser \<Rightarrow> nat \<Rightarrow> bool" where
  "block_used self b =
     list_ex (\<lambda>i. fv_type (global_variables self ! i) \<noteq> finsh_type_unknown \<and>
         load32 (parser_ram self) (var_value (global_variable (global_variable_base self) i)) =
           Some (block_data self b))
       [0..<length (global_variables self)]"

definition finsh_node_new_string :: "string \<Rightarrow> node_proc" where
  "finsh_node_new_string s self =
     (case finsh_node_allocate self of
        (False, self) \<Rightarrow> Some (None, finsh_error_set FINSH_ERROR_MEMORY_FULL self)
      | (True, self) \<Rightarrow> do {
          (b, h) \<leftarrow> finsh_heap_allocate (block_used self) (length s + 1) (string_heap self);
          b \<leftarrow> b;
          let ptr = block_data self b;
          m \<leftarrow> store_bytes (parser_ram self) ptr
            (map (\<lambda>c. of_nat (ord c)) s @
             replicate (HEAP_ALIGN_SIZE (length s + 1) - length s) 0);
          Some (Some (Node FINSH_NODE_VALUE_STRING 0 0 ptr id_null []),
                self\<lparr>string_heap := h, parser_ram := m\<rparr>) })"

text \<open>A new node over a first child and the chain of the other ones.\<close>

definition make_sys_node ::
    "fnode_type \<Rightarrow> finsh_node option \<Rightarrow> finsh_node list \<Rightarrow> finsh_parser \<Rightarrow>
     finsh_node option \<times> finsh_parser" where
  "make_sys_node type node1 node2 self =
     (case finsh_node_allocate self of
        (False, self) \<Rightarrow> (None, finsh_error_set FINSH_ERROR_NULL_NODE self)
      | (True, self) \<Rightarrow>
          (case node1 of
             Some n1 \<Rightarrow> (Some (Node type 0 0 0 id_null (n1 # node2)), self)
           | None \<Rightarrow> (Some (Node type 0 0 0 id_null []),
                     finsh_error_set FINSH_ERROR_NULL_NODE self)))"

fun opt_list :: "'a option \<Rightarrow> 'a list" where
  "opt_list None = []"
| "opt_list (Some x) = [x]"

subsection \<open>Tokens, types and names\<close>

definition check_token ::
    "finsh_token_type \<Rightarrow> finsh_token_type \<Rightarrow> finsh_parser \<Rightarrow> finsh_parser" where
  "check_token token type self =
     (if token \<noteq> type
      then finsh_token_replay (finsh_error_set FINSH_ERROR_INVALID_TOKEN self) else self)"

definition match_token :: "finsh_token_type \<Rightarrow> finsh_parser \<Rightarrow> finsh_parser option" where
  "match_token type self = do {
     (token, self) \<leftarrow> finsh_token_token self; Some (check_token token type self) }"

fun base_type :: "finsh_token_type \<Rightarrow> finsh_type option" where
  "base_type finsh_token_type_void = Some finsh_type_void"
| "base_type finsh_token_type_char = Some finsh_type_char"
| "base_type finsh_token_type_short = Some finsh_type_short"
| "base_type finsh_token_type_int = Some finsh_type_int"
| "base_type finsh_token_type_long = Some finsh_type_long"
| "base_type _ = None"

text \<open>\<open>unsigned void\<close> is an error, the other types have an unsigned version.\<close>

fun unsigned_type :: "finsh_type \<Rightarrow> finsh_type option" where
  "unsigned_type finsh_type_char = Some finsh_type_uchar"
| "unsigned_type finsh_type_short = Some finsh_type_ushort"
| "unsigned_type finsh_type_int = Some finsh_type_uint"
| "unsigned_type finsh_type_long = Some finsh_type_ulong"
| "unsigned_type _ = None"

fun pointer_type :: "finsh_type \<Rightarrow> finsh_type" where
  "pointer_type finsh_type_void = finsh_type_voidp"
| "pointer_type finsh_type_char = finsh_type_charp"
| "pointer_type finsh_type_uchar = finsh_type_charp"
| "pointer_type finsh_type_short = finsh_type_shortp"
| "pointer_type finsh_type_ushort = finsh_type_shortp"
| "pointer_type finsh_type_int = finsh_type_intp"
| "pointer_type finsh_type_uint = finsh_type_intp"
| "pointer_type finsh_type_long = finsh_type_longp"
| "pointer_type finsh_type_ulong = finsh_type_longp"
| "pointer_type _ = finsh_type_voidp"

definition type_error :: "finsh_parser \<Rightarrow> (finsh_type \<times> finsh_parser) option" where
  "type_error self =
     Some (finsh_type_unknown, finsh_error_set FINSH_ERROR_UNKNOWN_TYPE (finsh_token_replay self))"

text \<open>An asterisk behind the type makes it a pointer.\<close>

definition type_suffix :: "finsh_type \<Rightarrow> finsh_type proc" where
  "type_suffix type self = do {
     (token, self) \<leftarrow> finsh_token_token self;
     Some (if token = finsh_token_type_mul then (pointer_type type, self)
           else (type, finsh_token_replay self)) }"

definition proc_type :: "finsh_type proc" where
  "proc_type self = do {
     (token, self) \<leftarrow> finsh_token_token self;
     case base_type token of
       Some type \<Rightarrow> type_suffix type self
     | None \<Rightarrow>
         if token = finsh_token_type_unsigned then do {
           (token, self) \<leftarrow> finsh_token_token self;
           case base_type token of
             Some type \<Rightarrow>
               (case unsigned_type type of
                  Some type \<Rightarrow> type_suffix type self
                | None \<Rightarrow> type_error self)
           | None \<Rightarrow>
               type_suffix finsh_type_unknown
                 (finsh_error_set FINSH_ERROR_EXPECT_TYPE (finsh_token_replay self)) }
         else type_error self }"

definition proc_identifier :: "string proc" where
  "proc_identifier self = do {
     self \<leftarrow> match_token finsh_token_type_identifier self;
     str \<leftarrow> c_string (tk_string self);
     Some (take FINSH_NAME_MAX str, self) }"

subsection \<open>Expressions\<close>

definition proc_primary_expr :: "node_proc \<Rightarrow> node_proc" where
  "proc_primary_expr proc_expr self = do {
     (token, self) \<leftarrow> finsh_token_token self;
     case token of
       finsh_token_type_identifier \<Rightarrow> do {
         (name, self) \<leftarrow> proc_identifier (finsh_token_replay self);
         finsh_node_new_id name self }
     | finsh_token_type_left_paren \<Rightarrow> do {
         (expr, self) \<leftarrow> proc_expr self;
         self \<leftarrow> match_token finsh_token_type_right_paren self;
         Some (expr, self) }
     | finsh_token_type_value_int \<Rightarrow> Some (finsh_node_new_int (tk_value self) self)
     | finsh_token_type_value_long \<Rightarrow> Some (finsh_node_new_long (tk_value self) self)
     | finsh_token_type_value_char \<Rightarrow> Some (finsh_node_new_char (char_value (tk_value self)) self)
     | finsh_token_type_value_string \<Rightarrow> do {
         str \<leftarrow> c_string (tk_string self); finsh_node_new_string str self }
     | finsh_token_type_value_null \<Rightarrow> Some (finsh_node_new_ptr 0 self)
     | _ \<Rightarrow> Some (None, finsh_error_set FINSH_ERROR_INVALID_TOKEN self) }"

fun param_loop :: "nat \<Rightarrow> node_proc \<Rightarrow> finsh_node list \<Rightarrow> finsh_node list proc" where
  "param_loop 0 proc_assign_expr nodes self = None"
| "param_loop (Suc n) proc_assign_expr nodes self = do {
     (token, self) \<leftarrow> finsh_token_token self;
     if token = finsh_token_type_comma then do {
       (assign, self) \<leftarrow> proc_assign_expr self;
       case assign of
         Some a \<Rightarrow> param_loop n proc_assign_expr (nodes @ [a]) self
       | None \<Rightarrow>
           param_loop n proc_assign_expr nodes (finsh_error_set FINSH_ERROR_EXPECT_OPERATOR self) }
     else Some (nodes, finsh_token_replay self) }"

definition proc_param_list :: "nat \<Rightarrow> node_proc \<Rightarrow> finsh_node list proc" where
  "proc_param_list n proc_assign_expr self = do {
     (assign, self) \<leftarrow> proc_assign_expr self;
     case assign of
       None \<Rightarrow> Some ([], self)
     | Some a \<Rightarrow> param_loop n proc_assign_expr [a] self }"

text \<open>The arguments of a call, from behind its left parenthesis on.\<close>

definition proc_arguments :: "nat \<Rightarrow> node_proc \<Rightarrow> finsh_node list proc" where
  "proc_arguments n proc_assign_expr self = do {
     (token, self) \<leftarrow> finsh_token_token self;
     if token \<noteq> finsh_token_type_right_paren then do {
       (param_list, self) \<leftarrow> proc_param_list n proc_assign_expr (finsh_token_replay self);
       self \<leftarrow> match_token finsh_token_type_right_paren self;
       Some (param_list, self) }
     else Some ([], self) }"

fun postfix_loop :: "nat \<Rightarrow> node_proc \<Rightarrow> finsh_node option \<Rightarrow> node_proc" where
  "postfix_loop 0 proc_assign_expr node self = None"
| "postfix_loop (Suc n) proc_assign_expr node self = do {
     (token, self) \<leftarrow> finsh_token_token self;
     if token = finsh_token_type_inc then
       (let (node, self) = make_sys_node FINSH_NODE_SYS_INC node [] self
        in postfix_loop n proc_assign_expr node self)
     else if token = finsh_token_type_dec then
       (let (node, self) = make_sys_node FINSH_NODE_SYS_DEC node [] self
        in postfix_loop n proc_assign_expr node self)
     else if token = finsh_token_type_left_paren then do {
       (param_list, self) \<leftarrow> proc_arguments n proc_assign_expr self;
       let (node, self) = make_sys_node FINSH_NODE_SYS_FUNC node param_list self;
       postfix_loop n proc_assign_expr node self }
     else Some (node, finsh_token_replay self) }"

definition proc_postfix_expr :: "nat \<Rightarrow> node_proc \<Rightarrow> node_proc" where
  "proc_postfix_expr n proc_assign_expr self = do {
     (node, self) \<leftarrow> proc_primary_expr proc_assign_expr self;
     postfix_loop n proc_assign_expr node self }"

definition proc_unary_expr :: "nat \<Rightarrow> node_proc \<Rightarrow> node_proc \<Rightarrow> node_proc" where
  "proc_unary_expr n proc_cast_expr proc_assign_expr self = do {
     (token, self) \<leftarrow> finsh_token_token self;
     case token of
       finsh_token_type_add \<Rightarrow> proc_cast_expr self
     | finsh_token_type_inc \<Rightarrow> do {
         (cast, self) \<leftarrow> proc_cast_expr self;
         Some (make_sys_node FINSH_NODE_SYS_PREINC cast [] self) }
     | finsh_token_type_sub \<Rightarrow> do {
         (cast, self) \<leftarrow> proc_cast_expr self;
         let (zero, self) = finsh_node_new_long 0 self;
         Some (make_sys_node FINSH_NODE_SYS_SUB zero (opt_list cast) self) }
     | finsh_token_type_dec \<Rightarrow> do {
         (cast, self) \<leftarrow> proc_cast_expr self;
         Some (make_sys_node FINSH_NODE_SYS_PREDEC cast [] self) }
     | finsh_token_type_bitwise \<Rightarrow> do {
         (cast, self) \<leftarrow> proc_cast_expr self;
         Some (make_sys_node FINSH_NODE_SYS_BITWISE cast [] self) }
     | finsh_token_type_mul \<Rightarrow> do {
         (cast, self) \<leftarrow> proc_cast_expr self;
         Some (make_sys_node FINSH_NODE_SYS_GETVALUE cast [] self) }
     | finsh_token_type_and \<Rightarrow> do {
         (cast, self) \<leftarrow> proc_cast_expr self;
         Some (make_sys_node FINSH_NODE_SYS_GETADDR cast [] self) }
     | _ \<Rightarrow> proc_postfix_expr n proc_assign_expr (finsh_token_replay self) }"

fun set_data_type :: "u8 \<Rightarrow> finsh_node \<Rightarrow> finsh_node" where
  "set_data_type d (Node t _ ity v x cs) = Node t d ity v x cs"

definition cast_step :: "nat \<Rightarrow> node_proc \<Rightarrow> node_proc \<Rightarrow> node_proc" where
  "cast_step n proc_cast_expr proc_assign_expr self = do {
     (token, self) \<leftarrow> finsh_token_token self;
     if token = finsh_token_type_left_paren then do {
       (type, self) \<leftarrow> proc_type self;
       self \<leftarrow> match_token finsh_token_type_right_paren self;
       (cast, self) \<leftarrow> proc_cast_expr self;
       case cast of
         Some c \<Rightarrow> Some (Some (set_data_type (finsh_type_code type) c), self)
       | None \<Rightarrow> proc_unary_expr n proc_cast_expr proc_assign_expr (finsh_token_replay self) }
     else proc_unary_expr n proc_cast_expr proc_assign_expr (finsh_token_replay self) }"

text \<open>
  The six levels of binary operators have the same loop; \<open>ops\<close> are the tokens of the level and
  their nodes, \<open>sub\<close> is the next level.
\<close>

fun binary_loop ::
    "nat \<Rightarrow> (finsh_token_type \<Rightarrow> fnode_type option) \<Rightarrow> node_proc \<Rightarrow> finsh_node option \<Rightarrow> node_proc"
  where
  "binary_loop 0 ops sub left self = None"
| "binary_loop (Suc n) ops sub left self = do {
     (token, self) \<leftarrow> finsh_token_token self;
     case ops token of
       None \<Rightarrow> Some (left, finsh_token_replay self)
     | Some t \<Rightarrow> do {
         (right, self) \<leftarrow> sub self;
         let (left, self) =
           (case right of
              None \<Rightarrow> (left, finsh_error_set FINSH_ERROR_EXPECT_OPERATOR self)
            | Some r \<Rightarrow> make_sys_node t left [r] self);
         binary_loop n ops sub left self } }"

definition binary_expr ::
    "nat \<Rightarrow> (finsh_token_type \<Rightarrow> fnode_type option) \<Rightarrow> node_proc \<Rightarrow> node_proc" where
  "binary_expr n ops sub self = do { (left, self) \<leftarrow> sub self; binary_loop n ops sub left self }"

definition proc_multiplicative_expr :: "nat \<Rightarrow> node_proc \<Rightarrow> node_proc" where
  "proc_multiplicative_expr n proc_cast_expr =
     binary_expr n [finsh_token_type_mul \<mapsto> FINSH_NODE_SYS_MUL,
       finsh_token_type_div \<mapsto> FINSH_NODE_SYS_DIV, finsh_token_type_mod \<mapsto> FINSH_NODE_SYS_MOD]
       proc_cast_expr"

definition proc_additive_expr :: "nat \<Rightarrow> node_proc \<Rightarrow> node_proc" where
  "proc_additive_expr n proc_cast_expr =
     binary_expr n [finsh_token_type_sub \<mapsto> FINSH_NODE_SYS_SUB,
       finsh_token_type_add \<mapsto> FINSH_NODE_SYS_ADD] (proc_multiplicative_expr n proc_cast_expr)"

definition proc_shift_expr :: "nat \<Rightarrow> node_proc \<Rightarrow> node_proc" where
  "proc_shift_expr n proc_cast_expr =
     binary_expr n [finsh_token_type_shl \<mapsto> FINSH_NODE_SYS_SHL,
       finsh_token_type_shr \<mapsto> FINSH_NODE_SYS_SHR] (proc_additive_expr n proc_cast_expr)"

definition proc_and_expr :: "nat \<Rightarrow> node_proc \<Rightarrow> node_proc" where
  "proc_and_expr n proc_cast_expr =
     binary_expr n [finsh_token_type_and \<mapsto> FINSH_NODE_SYS_AND] (proc_shift_expr n proc_cast_expr)"

definition proc_exclusive_or_expr :: "nat \<Rightarrow> node_proc \<Rightarrow> node_proc" where
  "proc_exclusive_or_expr n proc_cast_expr =
     binary_expr n [finsh_token_type_xor \<mapsto> FINSH_NODE_SYS_XOR] (proc_and_expr n proc_cast_expr)"

definition proc_inclusive_or_expr :: "nat \<Rightarrow> node_proc \<Rightarrow> node_proc" where
  "proc_inclusive_or_expr n proc_cast_expr =
     binary_expr n [finsh_token_type_or \<mapsto> FINSH_NODE_SYS_OR]
       (proc_exclusive_or_expr n proc_cast_expr)"

definition assign_step :: "nat \<Rightarrow> node_proc \<Rightarrow> node_proc \<Rightarrow> node_proc" where
  "assign_step n proc_cast_expr proc_assign_expr self = do {
     (left, self) \<leftarrow> proc_inclusive_or_expr n proc_cast_expr self;
     (token, self) \<leftarrow> finsh_token_token self;
     if token = finsh_token_type_assign then do {
       (assign, self) \<leftarrow> proc_assign_expr self;
       Some (make_sys_node FINSH_NODE_SYS_ASSIGN left (opt_list assign) self) }
     else Some (left, finsh_token_replay self) }"

text \<open>The two functions that recur, over the depth of the recursion.\<close>

fun proc_cast_expr :: "nat \<Rightarrow> node_proc" and proc_assign_expr :: "nat \<Rightarrow> node_proc" where
  "proc_cast_expr 0 self = None"
| "proc_cast_expr (Suc n) self = cast_step n (proc_cast_expr n) (proc_assign_expr n) self"
| "proc_assign_expr 0 self = None"
| "proc_assign_expr (Suc n) self = assign_step n (proc_cast_expr n) (proc_assign_expr n) self"

definition proc_expr :: "nat \<Rightarrow> node_proc" where
  "proc_expr n = proc_assign_expr n"

subsection \<open>Statements\<close>

definition proc_expr_statement :: "nat \<Rightarrow> node_proc" where
  "proc_expr_statement n self = do {
     (token, self) \<leftarrow> finsh_token_token self;
     if token \<noteq> finsh_token_type_semicolon then do {
       (expr, self) \<leftarrow> proc_expr n (finsh_token_replay self);
       self \<leftarrow> match_token finsh_token_type_semicolon self;
       Some (expr, self) }
     else Some (None, self) }"

text \<open>A name and its entry in the table of variables.\<close>

definition declare_name :: "finsh_type \<Rightarrow> string proc" where
  "declare_name type self = do {
     (name, self) \<leftarrow> proc_identifier self;
     let (i, vs) = finsh_var_insert name type (global_variables self);
     Some (name, if i < 0 then finsh_error_set FINSH_ERROR_VARIABLE_EXIST self
               else self\<lparr>global_variables := vs\<rparr>) }"

text \<open>
  The initial value behind a name, appended to the chain of assignments that is returned; the last
  node of the chain is \<open>NULL\<close> (\<open>ok\<close> is false) once there was no node for one of them.
\<close>

definition declare_value ::
    "nat \<Rightarrow> string \<Rightarrow> finsh_node list \<times> bool \<Rightarrow> finsh_token_type \<Rightarrow>
     (finsh_token_type \<times> finsh_node list \<times> bool) proc" where
  "declare_value n name nodes token self = do {
     let (chain, ok) = nodes;
     (assign, self) \<leftarrow> proc_assign_expr n self;
     case assign of
       None \<Rightarrow> Some ((token, nodes), self)
     | Some a \<Rightarrow> do {
         (idnode, self) \<leftarrow> finsh_node_new_id name self;
         (node, self) \<leftarrow>
           (if ok \<or> chain = [] then Some (make_sys_node FINSH_NODE_SYS_ASSIGN idnode [a] self)
            else None);
         (token, self) \<leftarrow> finsh_token_token self;
         Some ((token, chain @ opt_list node, node \<noteq> None), self) } }"

fun decl_loop ::
    "nat \<Rightarrow> finsh_type \<Rightarrow> finsh_token_type \<Rightarrow> finsh_node list \<times> bool \<Rightarrow> finsh_node list proc" where
  "decl_loop 0 type token nodes self = None"
| "decl_loop (Suc n) type token nodes self =
     (if token = finsh_token_type_comma then do {
        (name, self) \<leftarrow> declare_name type self;
        (token, self) \<leftarrow> finsh_token_token self;
        ((token, nodes), self) \<leftarrow>
          (if token = finsh_token_type_assign then declare_value n name nodes token self
           else Some ((token, nodes), self));
        decl_loop n type token nodes self }
      else Some (fst nodes, check_token token finsh_token_type_semicolon self))"

definition proc_variable_decl :: "nat \<Rightarrow> finsh_node list proc" where
  "proc_variable_decl n self = do {
     (type, self) \<leftarrow> proc_type self;
     (name, self) \<leftarrow> declare_name type self;
     (token, self) \<leftarrow> finsh_token_token self;
     if token = finsh_token_type_comma then decl_loop n type token ([], True) self
     else if token = finsh_token_type_assign then do {
       ((token, nodes), self) \<leftarrow> declare_value n name ([], True) token self;
       decl_loop n type token nodes self }
     else if token = finsh_token_type_semicolon then Some ([], self)
     else Some ([], finsh_error_set FINSH_ERROR_EXPECT_TYPE self) }"

text \<open>
  The loop over the statements. \<open>chain\<close> are the statements up to the node of the loop, \<open>rest\<close> is
  what follows that node: a declaration of several values leaves more than one, and the next
  statement takes their place.
\<close>

fun parser_loop ::
    "nat \<Rightarrow> finsh_token_type \<Rightarrow> finsh_node list \<Rightarrow> finsh_node list \<Rightarrow> finsh_node list proc" where
  "parser_loop 0 token chain rest self = None"
| "parser_loop (Suc n) token chain rest self =
     (if token = finsh_token_type_eof \<or> token = finsh_token_type_bad then Some (chain @ rest, self)
      else do {
        let decl = (base_type token \<noteq> None \<or> token = finsh_token_type_unsigned);
        (new, self) \<leftarrow>
          (if decl then proc_variable_decl n (finsh_token_replay self)
           else map_option (\<lambda>(e, self). (opt_list e, self))
             (proc_expr_statement n (finsh_token_replay self)));
        self \<leftarrow>
          (if chain \<noteq> [] \<and> new = [] \<and> \<not> decl \<and> token \<noteq> finsh_token_type_identifier
           then map_option snd (finsh_token_token self) else Some self);
        let chain = chain @ take 1 new;
        let rest = drop 1 new;
        if chain = [] then Some ([], self)
        else do {
          (token, self) \<leftarrow> finsh_token_token self;
          parser_loop n token chain rest self } })"

definition finsh_parser_run :: "nat \<Rightarrow> string \<Rightarrow> finsh_node list proc" where
  "finsh_parser_run n string self = do {
     let self = finsh_token_init string self;
     (token, self) \<leftarrow> finsh_token_token self;
     parser_loop n token [] [] self }"

end
