(* ===== verification/FinshCompiler.thy ===== *)
theory FinshCompiler
  imports FinshNode
begin

text \<open>
  The compiler of the shell, \<open>components/finsh/finsh_compiler.c\<close>: \<open>finsh_type_check\<close> fills in the
  data types and marks what is used as an address, \<open>finsh_compile\<close> emits the byte code of
  \<open>FinshVm\<close> for a tree. Both are functions of a node pointer that go on to the child and to the
  sibling, here of the list of nodes that starts there. \<open>finsh_compile\<close> yields \<open>None\<close> where the
  code dereferences \<open>NULL\<close>, \<open>finsh_compiler_run\<close> where it writes beyond the text segment.
\<close>

subsection \<open>Operation codes\<close>

abbreviation (input) FINSH_OP_ADD_BYTE :: u8 where "FINSH_OP_ADD_BYTE \<equiv> 1"
abbreviation (input) FINSH_OP_ADD_WORD :: u8 where "FINSH_OP_ADD_WORD \<equiv> 0x2"
abbreviation (input) FINSH_OP_ADD_DWORD :: u8 where "FINSH_OP_ADD_DWORD \<equiv> 0x3"
abbreviation (input) FINSH_OP_SUB_BYTE :: u8 where "FINSH_OP_SUB_BYTE \<equiv> 0x4"
abbreviation (input) FINSH_OP_SUB_WORD :: u8 where "FINSH_OP_SUB_WORD \<equiv> 0x5"
abbreviation (input) FINSH_OP_SUB_DWORD :: u8 where "FINSH_OP_SUB_DWORD \<equiv> 0x6"
abbreviation (input) FINSH_OP_DIV_BYTE :: u8 where "FINSH_OP_DIV_BYTE \<equiv> 0x7"
abbreviation (input) FINSH_OP_DIV_WORD :: u8 where "FINSH_OP_DIV_WORD \<equiv> 0x8"
abbreviation (input) FINSH_OP_DIV_DWORD :: u8 where "FINSH_OP_DIV_DWORD \<equiv> 0x9"
abbreviation (input) FINSH_OP_MOD_BYTE :: u8 where "FINSH_OP_MOD_BYTE \<equiv> 0xa"
abbreviation (input) FINSH_OP_MOD_WORD :: u8 where "FINSH_OP_MOD_WORD \<equiv> 0xb"
abbreviation (input) FINSH_OP_MOD_DWORD :: u8 where "FINSH_OP_MOD_DWORD \<equiv> 0xc"
abbreviation (input) FINSH_OP_MUL_BYTE :: u8 where "FINSH_OP_MUL_BYTE \<equiv> 0xd"
abbreviation (input) FINSH_OP_MUL_WORD :: u8 where "FINSH_OP_MUL_WORD \<equiv> 0xe"
abbreviation (input) FINSH_OP_MUL_DWORD :: u8 where "FINSH_OP_MUL_DWORD \<equiv> 0xf"
abbreviation (input) FINSH_OP_AND_BYTE :: u8 where "FINSH_OP_AND_BYTE \<equiv> 0x10"
abbreviation (input) FINSH_OP_AND_WORD :: u8 where "FINSH_OP_AND_WORD \<equiv> 0x11"
abbreviation (input) FINSH_OP_AND_DWORD :: u8 where "FINSH_OP_AND_DWORD \<equiv> 0x12"
abbreviation (input) FINSH_OP_OR_BYTE :: u8 where "FINSH_OP_OR_BYTE \<equiv> 0x13"
abbreviation (input) FINSH_OP_OR_WORD :: u8 where "FINSH_OP_OR_WORD \<equiv> 0x14"
abbreviation (input) FINSH_OP_OR_DWORD :: u8 where "FINSH_OP_OR_DWORD \<equiv> 0x15"
abbreviation (input) FINSH_OP_XOR_BYTE :: u8 where "FINSH_OP_XOR_BYTE \<equiv> 0x16"
abbreviation (input) FINSH_OP_XOR_WORD :: u8 where "FINSH_OP_XOR_WORD \<equiv> 0x17"
abbreviation (input) FINSH_OP_XOR_DWORD :: u8 where "FINSH_OP_XOR_DWORD \<equiv> 0x18"
abbreviation (input) FINSH_OP_BITWISE_BYTE :: u8 where "FINSH_OP_BITWISE_BYTE \<equiv> 0x19"
abbreviation (input) FINSH_OP_BITWISE_WORD :: u8 where "FINSH_OP_BITWISE_WORD \<equiv> 0x1a"
abbreviation (input) FINSH_OP_BITWISE_DWORD :: u8 where "FINSH_OP_BITWISE_DWORD \<equiv> 0x1b"
abbreviation (input) FINSH_OP_SHL_BYTE :: u8 where "FINSH_OP_SHL_BYTE \<equiv> 0x1c"
abbreviation (input) FINSH_OP_SHL_WORD :: u8 where "FINSH_OP_SHL_WORD \<equiv> 0x1d"
abbreviation (input) FINSH_OP_SHL_DWORD :: u8 where "FINSH_OP_SHL_DWORD \<equiv> 0x1e"
abbreviation (input) FINSH_OP_SHR_BYTE :: u8 where "FINSH_OP_SHR_BYTE \<equiv> 0x1f"
abbreviation (input) FINSH_OP_SHR_WORD :: u8 where "FINSH_OP_SHR_WORD \<equiv> 0x20"
abbreviation (input) FINSH_OP_SHR_DWORD :: u8 where "FINSH_OP_SHR_DWORD \<equiv> 0x21"
abbreviation (input) FINSH_OP_LD_BYTE :: u8 where "FINSH_OP_LD_BYTE \<equiv> 0x22"
abbreviation (input) FINSH_OP_LD_WORD :: u8 where "FINSH_OP_LD_WORD \<equiv> 0x23"
abbreviation (input) FINSH_OP_LD_DWORD :: u8 where "FINSH_OP_LD_DWORD \<equiv> 0x24"
abbreviation (input) FINSH_OP_LD_VALUE_BYTE :: u8 where "FINSH_OP_LD_VALUE_BYTE \<equiv> 0x25"
abbreviation (input) FINSH_OP_LD_VALUE_WORD :: u8 where "FINSH_OP_LD_VALUE_WORD \<equiv> 0x26"
abbreviation (input) FINSH_OP_LD_VALUE_DWORD :: u8 where "FINSH_OP_LD_VALUE_DWORD \<equiv> 0x27"
abbreviation (input) FINSH_OP_ST_BYTE :: u8 where "FINSH_OP_ST_BYTE \<equiv> 0x28"
abbreviation (input) FINSH_OP_ST_WORD :: u8 where "FINSH_OP_ST_WORD \<equiv> 0x29"
abbreviation (input) FINSH_OP_ST_DWORD :: u8 where "FINSH_OP_ST_DWORD \<equiv> 0x2a"
abbreviation (input) FINSH_OP_POP :: u8 where "FINSH_OP_POP \<equiv> 0x2b"
abbreviation (input) FINSH_OP_SYSCALL :: u8 where "FINSH_OP_SYSCALL \<equiv> 0x2c"
abbreviation (input) FINSH_OP_LD_VALUE_BYTE_STACK :: u8 where "FINSH_OP_LD_VALUE_BYTE_STACK \<equiv> 0x2d"
abbreviation (input) FINSH_OP_LD_VALUE_WORD_STACK :: u8 where "FINSH_OP_LD_VALUE_WORD_STACK \<equiv> 0x2e"
abbreviation (input) FINSH_OP_LD_VALUE_DWORD_STACK :: u8 where "FINSH_OP_LD_VALUE_DWORD_STACK \<equiv> 0x2f"

subsection \<open>Type check\<close>

text \<open>The data type of an identifier of a type; \<open>None\<close> for the default branch, an error.\<close>

fun id_data_type :: "finsh_type \<Rightarrow> u8 option" where
  "id_data_type finsh_type_void = Some FINSH_DATA_TYPE_VOID"
| "id_data_type finsh_type_char = Some FINSH_DATA_TYPE_BYTE"
| "id_data_type finsh_type_uchar = Some FINSH_DATA_TYPE_BYTE"
| "id_data_type finsh_type_short = Some FINSH_DATA_TYPE_WORD"
| "id_data_type finsh_type_ushort = Some FINSH_DATA_TYPE_WORD"
| "id_data_type finsh_type_unknown = None"
| "id_data_type _ = Some FINSH_DATA_TYPE_DWORD"

definition set_id_data_type :: "finsh_type \<Rightarrow> u8 \<Rightarrow> u8 \<Rightarrow> u8 \<times> u8" where
  "set_id_data_type ty d err =
     (case id_data_type ty of None \<Rightarrow> (d, FINSH_ERROR_UNKNOWN_TYPE) | Some d' \<Rightarrow> (d', err))"

text \<open>The data type of a node without children, and the error number.\<close>

definition leaf_data_type ::
    "finsh_var list \<Rightarrow> fnode_type \<Rightarrow> u8 \<Rightarrow> fnode_id \<Rightarrow> u8 \<Rightarrow> u8 \<Rightarrow> u8 \<times> u8" where
  "leaf_data_type vs t ity x d err =
     (if t = FINSH_NODE_ID then
        (if ity AND FINSH_IDTYPE_VAR \<noteq> 0 then
           (case x of id_var i \<Rightarrow> set_id_data_type (fv_type (vs ! i)) d err | _ \<Rightarrow> (d, err))
         else if ity AND FINSH_IDTYPE_SYSVAR \<noteq> 0 then
           (case x of id_sysvar sv \<Rightarrow> set_id_data_type (sysvar_type sv) d err | _ \<Rightarrow> (d, err))
         else (d, err))
      else if t = FINSH_NODE_VALUE_CHAR then (FINSH_DATA_TYPE_BYTE, err)
      else if t \<in> {FINSH_NODE_VALUE_INT, FINSH_NODE_VALUE_LONG, FINSH_NODE_VALUE_STRING,
                   FINSH_NODE_VALUE_NULL} then (FINSH_DATA_TYPE_DWORD, err)
      else (d, err))"

text \<open>What the child is told: load an address, or a value.\<close>

definition child_is_addr :: "fnode_type \<Rightarrow> u8 \<Rightarrow> u8" where
  "child_is_addr t is_addr =
     (if t \<in> {FINSH_NODE_SYS_ASSIGN, FINSH_NODE_SYS_PREINC, FINSH_NODE_SYS_PREDEC,
              FINSH_NODE_SYS_GETADDR} then FINSH_IDTYPE_ADDRESS
      else if t = FINSH_NODE_SYS_GETVALUE \<and> is_addr \<noteq> 0 then 0
      else is_addr)"

fun finsh_type_check ::
    "finsh_var list \<Rightarrow> u8 \<Rightarrow> finsh_node list \<Rightarrow> u8 \<Rightarrow> finsh_node list \<times> u8" where
  "finsh_type_check vs is_addr [] err = ([], err)"
| "finsh_type_check vs is_addr (Node t d ity v x child # sibling) err =
     (let (child', err) = finsh_type_check vs (child_is_addr t is_addr) child err;
          (sibling', err) = finsh_type_check vs 0 sibling err;
          ity' = (if ity \<noteq> FINSH_IDTYPE_SYSCALL then ity OR is_addr else ity);
          (d', err) = (case child' of c # _ \<Rightarrow> (data_type c, err)
                       | [] \<Rightarrow> leaf_data_type vs t ity' x d err)
      in (Node t d' ity' v x child' # sibling', err))"

subsection \<open>Code\<close>

text \<open>Load the value of an identifier of a type at \<open>a\<close>, or that address.\<close>

definition code_id :: "finsh_type \<Rightarrow> u8 \<Rightarrow> addr \<Rightarrow> u8 list" where
  "code_id ty ity a =
     (if ty \<in> {finsh_type_char, finsh_type_uchar} then
        (if ity AND FINSH_IDTYPE_ADDRESS \<noteq> 0 then FINSH_OP_LD_DWORD else FINSH_OP_LD_VALUE_BYTE)
          # FINSH_SET32 a
      else if ty \<in> {finsh_type_short, finsh_type_ushort} then
        (if ity AND FINSH_IDTYPE_ADDRESS \<noteq> 0 then FINSH_OP_LD_DWORD else FINSH_OP_LD_VALUE_WORD)
          # FINSH_SET32 a
      else if ty \<in> {finsh_type_int, finsh_type_uint, finsh_type_long, finsh_type_ulong,
                    finsh_type_charp, finsh_type_shortp, finsh_type_intp, finsh_type_longp} then
        (if ity AND FINSH_IDTYPE_ADDRESS \<noteq> 0 then FINSH_OP_LD_DWORD else FINSH_OP_LD_VALUE_DWORD)
          # FINSH_SET32 a
      else [])"

text \<open>One operation in its version for the data type of the node, if it has one.\<close>

definition code_op :: "u8 \<Rightarrow> u8 \<Rightarrow> u8 \<Rightarrow> u8 \<Rightarrow> u8 list" where
  "code_op d byte_op word_op dword_op =
     (if d = FINSH_DATA_TYPE_BYTE then [byte_op]
      else if d = FINSH_DATA_TYPE_WORD then [word_op]
      else if d = FINSH_DATA_TYPE_DWORD then [dword_op]
      else [])"

definition code_assign :: "u8 \<Rightarrow> u8 \<Rightarrow> u8 list \<times> u8" where
  "code_assign d err =
     (if d = FINSH_DATA_TYPE_BYTE then ([FINSH_OP_ST_BYTE, FINSH_OP_LD_VALUE_BYTE_STACK], err)
      else if d = FINSH_DATA_TYPE_WORD then ([FINSH_OP_ST_WORD, FINSH_OP_LD_VALUE_WORD_STACK], err)
      else if d = FINSH_DATA_TYPE_DWORD
        then ([FINSH_OP_ST_DWORD, FINSH_OP_LD_VALUE_DWORD_STACK], err)
      else ([], FINSH_ERROR_UNKNOWN_TYPE))"

text \<open>\<open>++x\<close> and \<open>--x\<close>: the address of \<open>x\<close> is on the stack, the new value is left there.\<close>

definition code_preinc :: "u8 \<Rightarrow> u8 \<Rightarrow> u8 \<Rightarrow> u8 \<Rightarrow> addr \<Rightarrow> u8 list" where
  "code_preinc d byte_op word_op dword_op a =
     (if d = FINSH_DATA_TYPE_BYTE then
        [FINSH_OP_LD_VALUE_BYTE] @ FINSH_SET32 a @ [FINSH_OP_LD_BYTE, 1, byte_op,
         FINSH_OP_ST_BYTE, FINSH_OP_LD_VALUE_DWORD_STACK]
      else if d = FINSH_DATA_TYPE_WORD then
        [FINSH_OP_LD_VALUE_WORD] @ FINSH_SET32 a @ [FINSH_OP_LD_WORD] @ FINSH_SET16 1 @
        [word_op, FINSH_OP_ST_WORD, FINSH_OP_LD_VALUE_DWORD_STACK]
      else if d = FINSH_DATA_TYPE_DWORD then
        [FINSH_OP_LD_VALUE_DWORD] @ FINSH_SET32 a @ [FINSH_OP_LD_DWORD] @ FINSH_SET32 1 @
        [dword_op, FINSH_OP_ST_DWORD, FINSH_OP_LD_VALUE_DWORD_STACK]
      else [])"

text \<open>\<open>x++\<close> and \<open>x--\<close>: the old value is on the stack and stays there.\<close>

definition code_inc :: "u8 \<Rightarrow> u8 \<Rightarrow> u8 \<Rightarrow> u8 \<Rightarrow> addr \<Rightarrow> u8 list" where
  "code_inc d byte_op word_op dword_op a =
     (if d = FINSH_DATA_TYPE_BYTE then
        [FINSH_OP_LD_DWORD] @ FINSH_SET32 a @ [FINSH_OP_LD_VALUE_BYTE] @ FINSH_SET32 a @
        [FINSH_OP_LD_BYTE, 1, byte_op, FINSH_OP_ST_BYTE, FINSH_OP_POP]
      else if d = FINSH_DATA_TYPE_WORD then
        [FINSH_OP_LD_DWORD] @ FINSH_SET32 a @ [FINSH_OP_LD_VALUE_WORD] @ FINSH_SET32 a @
        [FINSH_OP_LD_WORD] @ FINSH_SET16 1 @ [word_op, FINSH_OP_ST_WORD, FINSH_OP_POP]
      else if d = FINSH_DATA_TYPE_DWORD then
        [FINSH_OP_LD_DWORD] @ FINSH_SET32 a @ [FINSH_OP_LD_VALUE_DWORD] @ FINSH_SET32 a @
        [FINSH_OP_LD_DWORD] @ FINSH_SET32 1 @ [dword_op, FINSH_OP_ST_DWORD, FINSH_OP_POP]
      else [])"

text \<open>The code of the increments: for an identifier, read as a variable whatever it is.\<close>

definition code_on_var :: "addr \<Rightarrow> finsh_node list \<Rightarrow> (addr \<Rightarrow> u8 list) \<Rightarrow> u8 list" where
  "code_on_var base child code =
     (case child of
        c # _ \<Rightarrow> if node_type c = FINSH_NODE_ID
                then code (var_value (id_var_addr base (node_id c))) else []
      | [] \<Rightarrow> [])"

text \<open>The switch of \<open>finsh_compile\<close>: the code of the node itself, and the error number.\<close>

definition code_node ::
    "addr \<Rightarrow> finsh_var list \<Rightarrow> fnode_type \<Rightarrow> u8 \<Rightarrow> u8 \<Rightarrow> u32 \<Rightarrow> fnode_id \<Rightarrow> finsh_node list \<Rightarrow>
     u8 \<Rightarrow> (u8 list \<times> u8) option" where
  "code_node base vs t d ity v x child err =
    (case t of
       FINSH_NODE_ID \<Rightarrow>
         (if ity AND FINSH_IDTYPE_SYSCALL \<noteq> 0 then
            (case x of id_syscall sc \<Rightarrow> Some (FINSH_OP_LD_DWORD # FINSH_SET32 (syscall_func sc), err)
             | _ \<Rightarrow> None)
          else if ity AND FINSH_IDTYPE_SYSVAR \<noteq> 0 then
            (case x of id_sysvar sv \<Rightarrow> Some (code_id (sysvar_type sv) ity (sysvar_var sv), err)
             | id_null \<Rightarrow> Some ([], err)
             | _ \<Rightarrow> None)
          else
            (case x of
               id_var i \<Rightarrow>
                 Some (code_id (fv_type (vs ! i)) ity (var_value (global_variable base i)), err)
             | id_null \<Rightarrow> Some ([], err)
             | _ \<Rightarrow> None))
     | FINSH_NODE_VALUE_CHAR \<Rightarrow> Some ([FINSH_OP_LD_BYTE, char_value v], err)
     | FINSH_NODE_VALUE_INT \<Rightarrow> Some (FINSH_OP_LD_DWORD # FINSH_SET32 v, err)
     | FINSH_NODE_VALUE_LONG \<Rightarrow> Some (FINSH_OP_LD_DWORD # FINSH_SET32 v, err)
     | FINSH_NODE_VALUE_NULL \<Rightarrow> Some (FINSH_OP_LD_DWORD # FINSH_SET32 v, err)
     | FINSH_NODE_VALUE_STRING \<Rightarrow> Some (FINSH_OP_LD_DWORD # FINSH_SET32 v, err)
     | FINSH_NODE_SYS_ADD \<Rightarrow>
         Some (code_op d FINSH_OP_ADD_BYTE FINSH_OP_ADD_WORD FINSH_OP_ADD_DWORD, err)
     | FINSH_NODE_SYS_SUB \<Rightarrow>
         Some (code_op d FINSH_OP_SUB_BYTE FINSH_OP_SUB_WORD FINSH_OP_SUB_DWORD, err)
     | FINSH_NODE_SYS_MUL \<Rightarrow>
         Some (code_op d FINSH_OP_MUL_BYTE FINSH_OP_MUL_WORD FINSH_OP_MUL_DWORD, err)
     | FINSH_NODE_SYS_DIV \<Rightarrow>
         Some (code_op d FINSH_OP_DIV_BYTE FINSH_OP_DIV_WORD FINSH_OP_DIV_DWORD, err)
     | FINSH_NODE_SYS_MOD \<Rightarrow>
         Some (code_op d FINSH_OP_MOD_BYTE FINSH_OP_MOD_WORD FINSH_OP_MOD_DWORD, err)
     | FINSH_NODE_SYS_AND \<Rightarrow>
         Some (code_op d FINSH_OP_AND_BYTE FINSH_OP_AND_WORD FINSH_OP_AND_DWORD, err)
     | FINSH_NODE_SYS_OR \<Rightarrow>
         Some (code_op d FINSH_OP_OR_BYTE FINSH_OP_OR_WORD FINSH_OP_OR_DWORD, err)
     | FINSH_NODE_SYS_XOR \<Rightarrow>
         Some (code_op d FINSH_OP_XOR_BYTE FINSH_OP_XOR_WORD FINSH_OP_XOR_DWORD, err)
     | FINSH_NODE_SYS_BITWISE \<Rightarrow>
         Some (code_op d FINSH_OP_BITWISE_BYTE FINSH_OP_BITWISE_WORD FINSH_OP_BITWISE_DWORD, err)
     | FINSH_NODE_SYS_SHL \<Rightarrow>
         Some (code_op d FINSH_OP_SHL_BYTE FINSH_OP_SHL_WORD FINSH_OP_SHL_DWORD, err)
     | FINSH_NODE_SYS_SHR \<Rightarrow>
         Some (code_op d FINSH_OP_SHR_BYTE FINSH_OP_SHR_WORD FINSH_OP_SHR_DWORD, err)
     | FINSH_NODE_SYS_FUNC \<Rightarrow>
         Some (case child of [] \<Rightarrow> [] | _ # ps \<Rightarrow> [FINSH_OP_SYSCALL, of_nat (length ps)], err)
     | FINSH_NODE_SYS_ASSIGN \<Rightarrow>
         (case child of
            [] \<Rightarrow> None
          | c # _ \<Rightarrow>
              Some (if node_type c = FINSH_NODE_ID then code_assign (data_type c) err
                    else if node_type c = FINSH_NODE_SYS_GETVALUE
                      then code_assign (data_type c AND 0x0f) err
                    else ([], err)))
     | FINSH_NODE_SYS_PREINC \<Rightarrow>
         Some (code_on_var base child
           (code_preinc d FINSH_OP_ADD_BYTE FINSH_OP_ADD_WORD FINSH_OP_ADD_DWORD), err)
     | FINSH_NODE_SYS_PREDEC \<Rightarrow>
         Some (code_on_var base child
           (code_preinc d FINSH_OP_SUB_BYTE FINSH_OP_SUB_WORD FINSH_OP_SUB_DWORD), err)
     | FINSH_NODE_SYS_INC \<Rightarrow>
         Some (code_on_var base child
           (code_inc d FINSH_OP_ADD_BYTE FINSH_OP_ADD_WORD FINSH_OP_ADD_DWORD), err)
     | FINSH_NODE_SYS_DEC \<Rightarrow>
         Some (code_on_var base child
           (code_inc d FINSH_OP_SUB_BYTE FINSH_OP_SUB_WORD FINSH_OP_SUB_DWORD), err)
     | FINSH_NODE_SYS_NULL \<Rightarrow> Some (FINSH_SET32 0, err)
     | FINSH_NODE_SYS_GETVALUE \<Rightarrow>
         Some (if ity AND FINSH_IDTYPE_ADDRESS \<noteq> 0 then []
               else code_op d FINSH_OP_LD_VALUE_BYTE_STACK FINSH_OP_LD_VALUE_WORD_STACK
                 FINSH_OP_LD_VALUE_DWORD_STACK, err)
     | FINSH_NODE_SYS_GETADDR \<Rightarrow> Some ([], err)
     | FINSH_NODE_SYS_CAST \<Rightarrow> Some ([], FINSH_ERROR_UNKNOWN_NODE)
     | FINSH_NODE_UNKNOWN \<Rightarrow> Some ([], FINSH_ERROR_UNKNOWN_NODE))"

fun finsh_compile ::
    "addr \<Rightarrow> finsh_var list \<Rightarrow> finsh_node list \<Rightarrow> u8 \<Rightarrow> (u8 list \<times> u8) option" where
  "finsh_compile base vs [] err = Some ([], err)"
| "finsh_compile base vs (Node t d ity v x child # sibling) err = do {
     (code1, err) \<leftarrow> finsh_compile base vs child err;
     (code2, err) \<leftarrow> code_node base vs t d ity v x child err;
     (code3, err) \<leftarrow> finsh_compile base vs sibling err;
     Some (code1 @ code2 @ code3, err) }"

text \<open>The loop over the statements: each is cut off its siblings, and all but the last are popped.\<close>

fun compile_statements ::
    "addr \<Rightarrow> finsh_var list \<Rightarrow> finsh_node list \<Rightarrow> u8 \<Rightarrow> (u8 list \<times> u8) option" where
  "compile_statements base vs [] err = Some ([], err)"
| "compile_statements base vs (n # sibling) err = do {
     (code1, err) \<leftarrow> finsh_compile base vs [n] err;
     (code2, err) \<leftarrow> compile_statements base vs sibling err;
     Some (code1 @ (if sibling = [] then [] else [FINSH_OP_POP]) @ code2, err) }"

text \<open>
  The text segment is cleared, of the stack only the first cell is (the size is that of one cell).
\<close>

definition finsh_compiler_run ::
    "addr \<Rightarrow> finsh_var list \<Rightarrow> finsh_node list \<Rightarrow> u8 \<Rightarrow> vm \<Rightarrow> (u8 \<times> vm) option" where
  "finsh_compiler_run base vs node err s = do {
     let (node, err) = finsh_type_check vs 0 node err;
     (code, err) \<leftarrow> compile_statements base vs node err;
     if length code \<le> FINSH_TEXT_MAX
     then Some (err, s\<lparr>text_segment := code @ replicate (FINSH_TEXT_MAX - length code) 0,
                       finsh_vm_stack := (finsh_vm_stack s)[0 := 0]\<rparr>)
     else None }"

end
