(* ===== verification/Print.thy ===== *)
theory Print
  imports Kservice "HOL-Library.Char_ord"
begin

text \<open>
  Formatted output, the functions \<open>print_number\<close>, \<open>rt_vsnprintf\<close> and \<open>rt_kprintf\<close> of
  \<open>src/kservice.c\<close>, with \<open>RT_PRINTF_PRECISION\<close> and without \<open>RT_PRINTF_SPECIAL\<close> and
  \<open>RT_PRINTF_LONGLONG\<close>. The pointer \<open>str\<close> has 32 bits and wraps around; with it goes the map of the
  bytes that were stored, wherever they are. \<open>None\<close> is undefined behaviour: an argument that is missing
  or of the wrong type, or an overflow of an \<open>int\<close> (the negation of the number to be printed wraps
  around, as it does on the processor).
\<close>

type_synonym str = "char list"

type_synonym printed = "addr \<times> (addr \<rightharpoonup> char)"

datatype va = VInt u32 | VStr "str option"

record pflags =
  ZEROPAD :: bool
  SIGN :: bool
  PLUS :: bool
  SPACE :: bool
  LEFT :: bool
  SPECIAL :: bool
  LARGE :: bool

definition no_flags :: pflags where
  "no_flags = \<lparr>ZEROPAD = False, SIGN = False, PLUS = False, SPACE = False, LEFT = False,
     SPECIAL = False, LARGE = False\<rparr>"

subsection \<open>Numbers\<close>

text \<open>\<open>divide\<close> knows two bases: whatever is not 10 is 16.\<close>

definition divisor :: "int \<Rightarrow> nat" where
  "divisor base = (if base = 10 then 10 else 16)"

definition divide :: "nat \<Rightarrow> int \<Rightarrow> nat \<times> nat" where
  "divide n base = (n mod divisor base, n div divisor base)"

definition digit :: "bool \<Rightarrow> nat \<Rightarrow> char" where
  "digit large d = (if large then ''0123456789ABCDEF'' else ''0123456789abcdef'') ! d"

text \<open>The digits in \<open>tmp\<close>, the last one first.\<close>

function tmp_digits :: "bool \<Rightarrow> int \<Rightarrow> nat \<Rightarrow> str" where
  "tmp_digits large base num =
     (if num = 0 then []
      else (let (d, num) = divide num base in digit large d # tmp_digits large base num))"
  by pat_completeness auto

termination
  by (relation "measure (\<lambda>(_, _, n). n)") (auto simp: divide_def divisor_def)

declare tmp_digits.simps [simp del]

definition tmp_number :: "bool \<Rightarrow> int \<Rightarrow> u32 \<Rightarrow> str" where
  "tmp_number large base num = (if num = 0 then ''0'' else tmp_digits large base (unat num))"

definition print_sign :: "pflags \<Rightarrow> u32 \<Rightarrow> str \<times> u32" where
  "print_sign type num =
     (if SIGN type
      then if sint num < 0 then (''-'', - num)
        else if PLUS type then (''+'', num)
        else if SPACE type then ('' '', num)
        else ([], num)
      else ([], num))"

subsection \<open>Storing characters\<close>

text \<open>\<open>if (str <= end) *str = c; ++ str;\<close>\<close>

definition emit :: "addr \<Rightarrow> char \<Rightarrow> printed \<Rightarrow> printed" where
  "emit end c = (\<lambda>(str, stored). (str + 1, if str \<le> end then stored(str \<mapsto> c) else stored))"

definition emit_all :: "addr \<Rightarrow> str \<Rightarrow> printed \<Rightarrow> printed" where
  "emit_all end cs out = fold (emit end) cs out"

text \<open>\<open>while (len < size--)\<close> with a store of \<open>c\<close>, and \<open>size\<close> behind it.\<close>

definition pad :: "addr \<Rightarrow> char \<Rightarrow> int \<Rightarrow> int \<Rightarrow> printed \<Rightarrow> (printed \<times> int) option" where
  "pad end c len s out =
     (if s = - (2 ^ 31) then None
      else Some (emit_all end (replicate (nat (s - len)) c) out, min s len - 1))"

text \<open>\<open>while (--size > 0)\<close>.\<close>

definition pad_pre :: "addr \<Rightarrow> char \<Rightarrow> int \<Rightarrow> printed \<Rightarrow> (printed \<times> int) option" where
  "pad_pre end c s out =
     (if s = - (2 ^ 31) then None
      else Some (emit_all end (replicate (nat (s - 1)) c) out, min (s - 1) 0))"

definition print_number ::
    "addr \<Rightarrow> u32 \<Rightarrow> int \<Rightarrow> int \<Rightarrow> int \<Rightarrow> pflags \<Rightarrow> printed \<Rightarrow> printed option" where
  "print_number end num base s precision type out = do {
     let type = (if LEFT type then type\<lparr>ZEROPAD := False\<rparr> else type);
     let c = (if ZEROPAD type then CHR ''0'' else CHR '' '');
     let (sign, num) = print_sign type num;
     let tmp = tmp_number (LARGE type) base num;
     let i = int (length tmp);
     let precision = (if i > precision then i else precision);
     let n = s - precision;
     (out, n) \<leftarrow>
       (if \<not> (ZEROPAD type \<or> LEFT type)
        then pad end (CHR '' '') 0 (if sign \<noteq> [] \<and> n > 0 then n - 1 else n) out
        else Some (out, n));
     n \<leftarrow> (if sign \<noteq> [] \<and> fst out \<le> end
          then if n = - (2 ^ 31) then None else Some (n - 1) else Some n);
     let out = emit_all end sign out;
     (out, n) \<leftarrow> (if \<not> LEFT type then pad end c 0 n out else Some (out, n));
     let out = emit_all end (replicate (nat (precision - i)) (CHR ''0'')) out;
     let out = emit_all end (rev tmp) out;
     (out, n) \<leftarrow> pad end (CHR '' '') 0 n out;
     Some out }"

subsection \<open>The format\<close>

definition isdigit :: "char \<Rightarrow> bool" where
  "isdigit c = (of_char (CHR ''0'') \<le> (of_char c :: nat) \<and> (of_char c :: nat) \<le> of_char (CHR ''9''))"

fun atoi_loop :: "int \<Rightarrow> str \<Rightarrow> (int \<times> str) option" where
  "atoi_loop i [] = Some (i, [])"
| "atoi_loop i (c # s) =
     (if isdigit c
      then (if i * 10 + of_char c < 2 ^ 31 then atoi_loop (i * 10 + of_char c - of_char (CHR ''0'')) s else None)
      else Some (i, c # s))"

definition skip_atoi :: "str \<Rightarrow> (int \<times> str) option" where
  "skip_atoi s = atoi_loop 0 s"

fun parse_flags :: "pflags \<Rightarrow> str \<Rightarrow> pflags \<times> str" where
  "parse_flags flags [] = (flags, [])"
| "parse_flags flags (c # fmt) =
     (if c = CHR ''-'' then parse_flags (flags\<lparr>LEFT := True\<rparr>) fmt
      else if c = CHR ''+'' then parse_flags (flags\<lparr>PLUS := True\<rparr>) fmt
      else if c = CHR '' '' then parse_flags (flags\<lparr>SPACE := True\<rparr>) fmt
      else if c = CHR ''#'' then parse_flags (flags\<lparr>SPECIAL := True\<rparr>) fmt
      else if c = CHR ''0'' then parse_flags (flags\<lparr>ZEROPAD := True\<rparr>) fmt
      else (flags, c # fmt))"

fun va_int :: "va list \<Rightarrow> (u32 \<times> va list) option" where
  "va_int (VInt n # args) = Some (n, args)"
| "va_int _ = None"

fun va_str :: "va list \<Rightarrow> (str option \<times> va list) option" where
  "va_str (VStr s # args) = Some (s, args)"
| "va_str _ = None"

text \<open>A number in the format or, for an asterisk, the next argument; -1 if there is neither.\<close>

definition parse_number :: "str \<Rightarrow> va list \<Rightarrow> (int \<times> str \<times> va list) option" where
  "parse_number fmt args =
     (case fmt of
        [] \<Rightarrow> Some (- 1, fmt, args)
      | c # fmt' \<Rightarrow>
          if isdigit c then map_option (\<lambda>(n, fmt). (n, fmt, args)) (skip_atoi fmt)
          else if c = CHR ''*'' then map_option (\<lambda>(n, args). (sint n, fmt', args)) (va_int args)
          else Some (- 1, fmt, args))"

definition parse_width ::
    "pflags \<Rightarrow> str \<Rightarrow> va list \<Rightarrow> (int \<times> pflags \<times> str \<times> va list) option" where
  "parse_width flags fmt args = do {
     (w, fmt', args) \<leftarrow> parse_number fmt args;
     if fmt \<noteq> [] \<and> hd fmt = CHR ''*'' \<and> w < 0
     then if w = - (2 ^ 31) then None else Some (- w, flags\<lparr>LEFT := True\<rparr>, fmt', args)
     else Some (w, flags, fmt', args) }"

definition parse_precision :: "str \<Rightarrow> va list \<Rightarrow> (int \<times> str \<times> va list) option" where
  "parse_precision fmt args =
     (case fmt of
        c # fmt' \<Rightarrow>
          if c = CHR ''.'' then map_option (\<lambda>(p, r). (if p < 0 then 0 else p, r)) (parse_number fmt' args)
          else Some (- 1, fmt, args)
      | [] \<Rightarrow> Some (- 1, fmt, args))"

definition parse_qualifier :: "str \<Rightarrow> char option \<times> str" where
  "parse_qualifier fmt =
     (case fmt of
        c # fmt' \<Rightarrow> if c = CHR ''h'' \<or> c = CHR ''l'' then (Some c, fmt') else (None, fmt)
      | [] \<Rightarrow> (None, fmt))"

definition print_char :: "addr \<Rightarrow> pflags \<Rightarrow> int \<Rightarrow> u32 \<Rightarrow> printed \<Rightarrow> printed option" where
  "print_char end flags width arg out = do {
     (out, width) \<leftarrow> (if \<not> LEFT flags then pad_pre end (CHR '' '') width out else Some (out, width));
     let out = emit end (char_of (unat (ucast arg :: u8))) out;
     (out, width) \<leftarrow> pad_pre end (CHR '' '') width out;
     Some out }"

definition print_string :: "addr \<Rightarrow> pflags \<Rightarrow> int \<Rightarrow> int \<Rightarrow> str option \<Rightarrow> printed \<Rightarrow> printed option" where
  "print_string end flags width precision s out = do {
     let s = (case s of None \<Rightarrow> ''(NULL)'' | Some s \<Rightarrow> s);
     let len = int (length s);
     let len = (if precision > 0 \<and> len > precision then precision else len);
     (out, width) \<leftarrow> (if \<not> LEFT flags then pad end (CHR '' '') len width out else Some (out, width));
     let out = emit_all end (take (nat len) s) out;
     (out, width) \<leftarrow> pad end (CHR '' '') len width out;
     Some out }"

definition fetch_number :: "char option \<Rightarrow> pflags \<Rightarrow> u32 \<Rightarrow> u32" where
  "fetch_number qualifier flags arg =
     (if qualifier = Some (CHR ''h'')
      then (if SIGN flags then scast (ucast arg :: u16) else ucast (ucast arg :: u16))
      else arg)"

text \<open>One conversion, from behind its qualifier on: \<open>fmt\<close> is empty at the end of the format.\<close>

definition convert ::
    "addr \<Rightarrow> pflags \<Rightarrow> int \<Rightarrow> int \<Rightarrow> char option \<Rightarrow> str \<Rightarrow> va list \<Rightarrow> printed \<Rightarrow>
     (str \<times> va list \<times> printed) option" where
  "convert end flags width precision qualifier fmt args out =
     (let number = (\<lambda>base flags fmt. do {
            (arg, args) \<leftarrow> va_int args;
            out \<leftarrow> print_number end (fetch_number qualifier flags arg) base width precision flags out;
            Some (fmt, args, out) })
      in case fmt of
        [] \<Rightarrow> Some ([], args, emit end (CHR ''%'') out)
      | c # fmt \<Rightarrow>
          if c = CHR ''c'' then do {
            (arg, args) \<leftarrow> va_int args;
            out \<leftarrow> print_char end flags width arg out;
            Some (fmt, args, out) }
          else if c = CHR ''s'' then do {
            (s, args) \<leftarrow> va_str args;
            out \<leftarrow> print_string end flags width precision s out;
            Some (fmt, args, out) }
          else if c = CHR ''p'' then do {
            (arg, args) \<leftarrow> va_int args;
            out \<leftarrow> (if width = - 1 then print_number end arg 16 8 precision (flags\<lparr>ZEROPAD := True\<rparr>) out
              else print_number end arg 16 width precision flags out);
            Some (fmt, args, out) }
          else if c = CHR ''%'' then Some (fmt, args, emit end (CHR ''%'') out)
          else if c = CHR ''o'' then number 8 flags fmt
          else if c = CHR ''X'' then number 16 (flags\<lparr>LARGE := True\<rparr>) fmt
          else if c = CHR ''x'' then number 16 flags fmt
          else if c = CHR ''d'' \<or> c = CHR ''i'' then number 10 (flags\<lparr>SIGN := True\<rparr>) fmt
          else if c = CHR ''u'' then number 10 flags fmt
          else Some (fmt, args, emit end c (emit end (CHR ''%'') out)))"

text \<open>The flags, the width, the precision and the qualifier of a directive.\<close>

definition parse_directive ::
    "str \<Rightarrow> va list \<Rightarrow> (pflags \<times> int \<times> int \<times> char option \<times> str \<times> va list) option" where
  "parse_directive fmt args = do {
     let (flags, fmt) = parse_flags no_flags fmt;
     (width, flags, fmt, args) \<leftarrow> parse_width flags fmt args;
     (precision, fmt, args) \<leftarrow> parse_precision fmt args;
     let (qualifier, fmt) = parse_qualifier fmt;
     Some (flags, width, precision, qualifier, fmt, args) }"

definition directive ::
    "addr \<Rightarrow> str \<Rightarrow> va list \<Rightarrow> printed \<Rightarrow> (str \<times> va list \<times> printed) option" where
  "directive end fmt args out = do {
     (flags, width, precision, qualifier, fmt, args) \<leftarrow> parse_directive fmt args;
     convert end flags width precision qualifier fmt args out }"

lemma parse_flags_length: "parse_flags flags fmt = (flags', fmt') \<Longrightarrow> length fmt' \<le> length fmt"
  by (induction flags fmt rule: parse_flags.induct) (auto split: if_splits)

lemma atoi_length: "atoi_loop i s = Some (n, s') \<Longrightarrow> length s' \<le> length s"
  by (induction i s rule: atoi_loop.induct) (auto simp: Let_def split: if_splits)

lemma parse_number_length:
  "parse_number fmt args = Some (n, fmt', args') \<Longrightarrow> length fmt' \<le> length fmt"
  by (auto simp: parse_number_def skip_atoi_def dest!: atoi_length split: list.splits if_splits)

lemma parse_width_length:
  "parse_width flags fmt args = Some (w, flags', fmt', args') \<Longrightarrow> length fmt' \<le> length fmt"
  by (auto simp: parse_width_def dest: parse_number_length split: bind_splits if_splits)

lemma parse_precision_length:
  "parse_precision fmt args = Some (p, fmt', args') \<Longrightarrow> length fmt' \<le> length fmt"
  by (auto simp: parse_precision_def dest!: parse_number_length split: list.splits if_splits)

lemma parse_qualifier_length: "parse_qualifier fmt = (q, fmt') \<Longrightarrow> length fmt' \<le> length fmt"
  by (auto simp: parse_qualifier_def split: list.splits if_splits)

lemma parse_directive_length:
  "parse_directive fmt args = Some (flags, width, precision, qualifier, fmt', args') \<Longrightarrow> length fmt' \<le> length fmt"
  by (auto simp: parse_directive_def split: bind_splits prod.splits
      dest!: parse_flags_length parse_width_length parse_precision_length parse_qualifier_length)

lemma convert_length:
  assumes "convert end flags w p q fmt args out = Some (fmt', args', out')"
  shows "length fmt' \<le> length fmt"
proof (cases fmt)
  case (Cons c cs)
  have branch: "(if b then x else y) = Some z \<Longrightarrow> (x = Some z \<Longrightarrow> P) \<Longrightarrow> (y = Some z \<Longrightarrow> P) \<Longrightarrow> P"
    for b x y and z :: "'z" and P by (cases b) auto
  from assms show ?thesis
    unfolding Cons convert_def Let_def list.case
    by (elim branch) (auto simp: bind_Some_conv)
qed (use assms in \<open>simp add: convert_def\<close>)

lemma directive_length:
  "directive end fmt args out = Some (fmt', args', out') \<Longrightarrow> length fmt' \<le> length fmt"
  by (fastforce simp: directive_def bind_Some_conv dest: parse_directive_length convert_length)

function vsnprintf_loop :: "addr \<Rightarrow> str \<Rightarrow> va list \<Rightarrow> printed \<Rightarrow> printed option" where
  "vsnprintf_loop end [] args out = Some out"
| "vsnprintf_loop end (c # fmt) args out =
     (if c \<noteq> CHR ''%'' then vsnprintf_loop end fmt args (emit end c out)
      else (case directive end fmt args out of
              None \<Rightarrow> None
            | Some (fmt, args, out) \<Rightarrow> vsnprintf_loop end fmt args out))"
  by pat_completeness auto

termination
  by (relation "measure (\<lambda>(_, fmt, _, _). length fmt)") (auto dest!: directive_length simp: less_Suc_eq_le)

text \<open>
  The returned number, of 32 bits, and the bytes stored. The last position of the buffer is \<open>end\<close>, or
  the highest address there is when \<open>buf + size - 1\<close> lies before \<open>buf\<close> (\<open>size\<close> is 0, or the buffer
  would pass the end of the memory).
\<close>

definition rt_vsnprintf :: "addr \<Rightarrow> u32 \<Rightarrow> str \<Rightarrow> va list \<Rightarrow> (u32 \<times> (addr \<rightharpoonup> char)) option" where
  "rt_vsnprintf buf n fmt args = do {
     let end = buf + n - 1;
     let end = (if end < buf then - 1 else end);
     (str, stored) \<leftarrow> vsnprintf_loop end fmt args (buf, Map.empty);
     let stored = (if str \<le> end then stored(str \<mapsto> CHR 0x00) else stored(end \<mapsto> CHR 0x00));
     Some (str - buf, stored) }"

definition rt_vsprintf :: "addr \<Rightarrow> str \<Rightarrow> va list \<Rightarrow> (u32 \<times> (addr \<rightharpoonup> char)) option" where
  "rt_vsprintf buf fmt args = rt_vsnprintf buf (- 1) fmt args"

definition rt_snprintf :: "addr \<Rightarrow> u32 \<Rightarrow> str \<Rightarrow> va list \<Rightarrow> (u32 \<times> (addr \<rightharpoonup> char)) option" where
  "rt_snprintf buf n fmt args = rt_vsnprintf buf n fmt args"

definition rt_sprintf :: "addr \<Rightarrow> str \<Rightarrow> va list \<Rightarrow> (u32 \<times> (addr \<rightharpoonup> char)) option" where
  "rt_sprintf buf fmt args = rt_vsprintf buf fmt args"

abbreviation (input) RT_CONSOLEBUF_SIZE :: nat where "RT_CONSOLEBUF_SIZE \<equiv> 128"

text \<open>The bytes from an address on, if all of them were stored.\<close>

definition read_chars :: "addr \<Rightarrow> nat \<Rightarrow> (addr \<rightharpoonup> char) \<Rightarrow> str option" where
  "read_chars p n stored = those (map (\<lambda>i. stored (p + of_nat i)) [0..<n])"

text \<open>
  What \<open>rt_kprintf\<close> writes to the console device; \<open>log_buf\<close> is its static buffer. \<open>None\<close> is also an
  output of bytes that were left in the buffer by an earlier call.
\<close>

definition rt_kprintf :: "addr \<Rightarrow> str \<Rightarrow> va list \<Rightarrow> str option" where
  "rt_kprintf log_buf fmt args = do {
     (len, stored) \<leftarrow> rt_vsnprintf log_buf (of_nat RT_CONSOLEBUF_SIZE - 1) fmt args;
     let len = (if len > of_nat RT_CONSOLEBUF_SIZE - 1 then of_nat RT_CONSOLEBUF_SIZE - 1 else len);
     read_chars log_buf (unat len) stored }"

end
