(* ===== verification/FinshShell.thy ===== *)
theory FinshShell
  imports FinshParser FinshCompiler Print
begin

text \<open>
  The line editor of the shell, \<open>finsh_run_line\<close> and the loop of its thread, \<open>shell.c\<close>, with the
  completion of \<open>list_prefix\<close> (\<open>cmd.c\<close>) and the start-up of \<open>finsh_init.c\<close>. \<open>console\<close> is what
  \<open>finsh_run_line\<close> prints, and the prompt behind it; the echo of the single keys and the lists that
  the tab key shows are output only and left out. \<open>None\<close> is undefined behaviour or a line that is not over after the given
  number of rounds of the parser.
\<close>

abbreviation (input) FINSH_CMD_SIZE :: nat where "FINSH_CMD_SIZE \<equiv> 80"
abbreviation (input) FINSH_HISTORY_LINES :: nat where "FINSH_HISTORY_LINES \<equiv> 5"

datatype input_stat = WAIT_NORMAL | WAIT_SPEC_KEY | WAIT_FUNC_KEY

record finsh_shell =
  stat :: input_stat
  echo_mode :: u8
  current_history :: nat
  history_count :: nat
  cmd_history :: "string list"
  shell_parser :: finsh_parser
  shell_vm :: vm
  line :: string
  line_position :: nat
  line_curpos :: nat
  rt_log_buf :: addr
  console :: string

text \<open>The last two members of the line are bytes.\<close>

definition byte_dec :: "nat \<Rightarrow> nat" where
  "byte_dec n = (n + 255) mod 256"

definition byte_inc :: "nat \<Rightarrow> nat" where
  "byte_inc n = (n + 1) mod 256"

text \<open>A bit field of one bit.\<close>

definition finsh_set_echo :: "u32 \<Rightarrow> finsh_shell \<Rightarrow> finsh_shell" where
  "finsh_set_echo echo s = s\<lparr>echo_mode := ucast echo AND 1\<rparr>"

definition finsh_get_echo :: "finsh_shell \<Rightarrow> u32" where
  "finsh_get_echo s = ucast (echo_mode s)"

subsection \<open>Start and reset\<close>

definition finsh_parser_init :: "finsh_parser \<Rightarrow> finsh_parser" where
  "finsh_parser_init self = finsh_token_init [] self"

definition finsh_node_init :: "finsh_parser \<Rightarrow> finsh_parser" where
  "finsh_node_init self = self\<lparr>node_count := 0\<rparr>"

definition finsh_error_init :: "finsh_parser \<Rightarrow> finsh_parser" where
  "finsh_error_init self = self\<lparr>global_errno := FINSH_ERROR_OK\<rparr>"

text \<open>Clearing the table of variables also clears their values.\<close>

definition clear_variables :: "finsh_parser \<Rightarrow> finsh_parser option" where
  "clear_variables self =
     map_option (\<lambda>m. self\<lparr>global_variables := finsh_var_init, parser_ram := m\<rparr>)
       (fold (\<lambda>i m. m \<bind> (\<lambda>m. store_bytes m (var_value (global_variable (global_variable_base self) i)) [0, 0, 0, 0]))
         [0..<FINSH_VARIABLE_MAX] (Some (parser_ram self)))"

definition heap_reset :: "finsh_parser \<Rightarrow> finsh_parser option" where
  "heap_reset self =
     map_option (\<lambda>m. self\<lparr>string_heap := finsh_heap_init, parser_ram := m\<rparr>)
       (store_bytes (parser_ram self) (finsh_heap_base self) (replicate FINSH_HEAP_MAX 0))"

definition finsh_reset :: "finsh_parser \<Rightarrow> finsh_parser option" where
  "finsh_reset self = do {
     self \<leftarrow> clear_variables (finsh_node_init self);
     heap_reset (finsh_error_init self) }"

definition finsh_init :: "finsh_parser \<Rightarrow> finsh_parser option" where
  "finsh_init self = finsh_reset (finsh_parser_init self)"

definition finsh_flush :: "finsh_parser \<Rightarrow> finsh_parser" where
  "finsh_flush self = finsh_error_init (finsh_node_init (finsh_parser_init self))"

subsection \<open>Running a line\<close>

definition finsh_error_string_table :: "string list" where
  "finsh_error_string_table =
    [''No error'', ''Invalid token'', ''Expect a type'', ''Unknown type'', ''Variable exist'',
     ''Expect a operater'', ''Memory full'', ''Unknown operator'', ''Unknown node'',
     ''Expect a character'', ''Unexpect end'', ''Unknown token'', ''Float not supported'',
     ''Unknown symbol'', ''Null node'']"

definition finsh_error_string :: "u8 \<Rightarrow> string" where
  "finsh_error_string type = finsh_error_string_table ! unat type"

definition show_text :: "string \<Rightarrow> va list \<Rightarrow> finsh_shell \<Rightarrow> finsh_shell option" where
  "show_text fmt args s =
     map_option (\<lambda>t. s\<lparr>console := console s @ t\<rparr>) (rt_kprintf (rt_log_buf s) fmt args)"

definition show_value :: "u32 \<Rightarrow> finsh_shell \<Rightarrow> finsh_shell option" where
  "show_value v s =
     (let ch = unat (ucast v :: u8) in
      if 0x20 < ch \<and> ch < 0x7e
      then show_text (CHR 0x09 # [CHR 0x27] @ ''%c'' @ [CHR 0x27] @ '', %d, 0x%08x'' @ [CHR 0x0A])
        [VInt (ucast (ucast v :: u8)), VInt v, VInt v] s
      else show_text (CHR 0x09 # ''%d, 0x%08x'' @ [CHR 0x0A]) [VInt v, VInt v] s)"

text \<open>The machine and the parser work on the same memory.\<close>

definition run_code :: "syscalls \<Rightarrow> finsh_shell \<Rightarrow> finsh_shell option" where
  "run_code calls s = do {
     vm \<leftarrow> finsh_vm_run calls ((shell_vm s)\<lparr>vm_ram := parser_ram (shell_parser s)\<rparr>);
     let s = s\<lparr>shell_vm := vm, shell_parser := (shell_parser s)\<lparr>parser_ram := vm_ram vm\<rparr>\<rparr>;
     show_value (finsh_stack_bottom vm) s }"

definition compile_root :: "finsh_node list \<Rightarrow> finsh_shell \<Rightarrow> finsh_shell option" where
  "compile_root root s = do {
     let p = shell_parser s;
     (err, vm) \<leftarrow> finsh_compiler_run (global_variable_base p) (global_variables p) root
       (global_errno p) (shell_vm s);
     Some (s\<lparr>shell_vm := vm, shell_parser := p\<lparr>global_errno := err\<rparr>\<rparr>) }"

definition echo_newline :: "finsh_shell \<Rightarrow> finsh_shell option" where
  "echo_newline s = (if echo_mode s \<noteq> 0 then show_text [CHR 0x0A] [] s else Some s)"

definition finsh_run_line :: "nat \<Rightarrow> syscalls \<Rightarrow> string \<Rightarrow> finsh_shell \<Rightarrow> finsh_shell option" where
  "finsh_run_line n calls text s = do {
     s \<leftarrow> echo_newline s;
     (root, p) \<leftarrow> finsh_parser_run n text (shell_parser s);
     let s = s\<lparr>shell_parser := p\<rparr>;
     s \<leftarrow> (if global_errno p = FINSH_ERROR_OK then compile_root root s
          else show_text (''%s'' @ [CHR 0x0A])
            [VStr (Some (finsh_error_string (global_errno p)))] s);
     s \<leftarrow> (if global_errno (shell_parser s) = FINSH_ERROR_OK then run_code calls s else Some s);
     Some (s\<lparr>shell_parser := finsh_flush (shell_parser s)\<rparr>) }"

subsection \<open>The history\<close>

text \<open>\<open>memcpy\<close> of the line into a cleared entry; the line has been read up to \<open>line_position\<close>.\<close>

definition history_entry :: "finsh_shell \<Rightarrow> string" where
  "history_entry s =
     take (line_position s) (line s) @ replicate (FINSH_CMD_SIZE - line_position s) (CHR 0x00)"

definition shell_push_history :: "finsh_shell \<Rightarrow> finsh_shell option" where
  "shell_push_history s =
     (if line_position s \<noteq> 0
      then if line_position s > FINSH_CMD_SIZE then None
      else
        (let s = (if history_count s \<ge> FINSH_HISTORY_LINES
                  then s\<lparr>cmd_history := (tl (cmd_history s)) @ [history_entry s],
                         history_count := FINSH_HISTORY_LINES\<rparr>
                  else s\<lparr>cmd_history := (cmd_history s)[history_count s := history_entry s],
                         history_count := history_count s + 1\<rparr>)
         in Some (s\<lparr>current_history := history_count s\<rparr>))
      else Some (s\<lparr>current_history := history_count s\<rparr>))"

text \<open>The entry \<open>current_history\<close> becomes the line.\<close>

definition recall_history :: "finsh_shell \<Rightarrow> finsh_shell option" where
  "recall_history s = do {
     let entry = cmd_history s ! current_history s;
     str \<leftarrow> c_string entry;
     Some (s\<lparr>line := entry, line_position := length str, line_curpos := length str\<rparr>) }"

definition key_up :: "finsh_shell \<Rightarrow> finsh_shell option" where
  "key_up s =
     (if current_history s > 0 then recall_history (s\<lparr>current_history := current_history s - 1\<rparr>)
      else Some (s\<lparr>current_history := 0\<rparr>))"

definition key_down :: "finsh_shell \<Rightarrow> finsh_shell option" where
  "key_down s =
     (if int (current_history s) < int (history_count s) - 1
      then recall_history (s\<lparr>current_history := current_history s + 1\<rparr>)
      else if history_count s \<noteq> 0 then recall_history (s\<lparr>current_history := history_count s - 1\<rparr>)
      else Some s)"

definition key_left :: "finsh_shell \<Rightarrow> finsh_shell" where
  "key_left s = (if line_curpos s \<noteq> 0 then s\<lparr>line_curpos := byte_dec (line_curpos s)\<rparr> else s)"

definition key_right :: "finsh_shell \<Rightarrow> finsh_shell" where
  "key_right s =
     (if line_curpos s < line_position s then s\<lparr>line_curpos := byte_inc (line_curpos s)\<rparr> else s)"


subsection \<open>Editing\<close>

definition set_char :: "nat \<Rightarrow> char \<Rightarrow> finsh_shell \<Rightarrow> finsh_shell option" where
  "set_char i c s = (if i < length (line s) then Some (s\<lparr>line := (line s)[i := c]\<rparr>) else None)"

definition move_chars :: "nat \<Rightarrow> nat \<Rightarrow> nat \<Rightarrow> finsh_shell \<Rightarrow> finsh_shell option" where
  "move_chars dst src n s =
     (if dst + n \<le> length (line s) \<and> src + n \<le> length (line s)
      then Some (s\<lparr>line := take dst (line s) @ take n (drop src (line s)) @ drop (dst + n) (line s)\<rparr>)
      else None)"

definition key_backspace :: "finsh_shell \<Rightarrow> finsh_shell option" where
  "key_backspace s =
     (if line_curpos s = 0 then Some s
      else do {
        let s = s\<lparr>line_position := byte_dec (line_position s), line_curpos := byte_dec (line_curpos s)\<rparr>;
        s \<leftarrow> (if line_position s > line_curpos s
              then move_chars (line_curpos s) (line_curpos s + 1) (line_position s - line_curpos s) s
              else Some s);
        set_char (line_position s) (CHR 0x00) s })"

definition key_char :: "char \<Rightarrow> finsh_shell \<Rightarrow> finsh_shell option" where
  "key_char ch s = do {
     let s = (if line_position s \<ge> FINSH_CMD_SIZE then s\<lparr>line_position := 0\<rparr> else s);
     s \<leftarrow> (if line_curpos s < line_position s
           then do {
             s \<leftarrow> move_chars (line_curpos s + 1) (line_curpos s) (line_position s - line_curpos s) s;
             set_char (line_curpos s) ch s }
           else set_char (line_position s) ch s);
     let s = s\<lparr>line_position := byte_inc (line_position s), line_curpos := byte_inc (line_curpos s)\<rparr>;
     Some (if line_position s \<ge> FINSH_CMD_SIZE then s\<lparr>line_position := 0, line_curpos := 0\<rparr> else s) }"

abbreviation (input) FINSH_PROMPT :: string where "FINSH_PROMPT \<equiv> ''finsh>>''"

text \<open>The end of the line; the line is read as a C string.\<close>

definition key_enter :: "nat \<Rightarrow> syscalls \<Rightarrow> finsh_shell \<Rightarrow> finsh_shell option" where
  "key_enter n calls s = do {
     s \<leftarrow> shell_push_history s;
     s \<leftarrow> set_char (line_position s) (CHR '';'') s;
     s \<leftarrow> (if line_position s \<noteq> 0
           then do { text \<leftarrow> c_string (line s); finsh_run_line n calls text s }
           else echo_newline s);
     s \<leftarrow> show_text FINSH_PROMPT [] s;
     Some (s\<lparr>line := replicate FINSH_CMD_SIZE (CHR 0x00), line_curpos := 0, line_position := 0\<rparr>) }"

text \<open>
  Completion: the first name found that has the prefix, and how much of it all names found share.
  Names that begin with two underscores are skipped in the table of system calls.
\<close>

definition str_is_prefix :: "string \<Rightarrow> string \<Rightarrow> bool" where
  "str_is_prefix prefix str \<longleftrightarrow> take (length prefix) str = prefix"

fun str_common :: "string \<Rightarrow> string \<Rightarrow> nat" where
  "str_common (a # s) (b # t) = (if a = b then Suc (str_common s t) else 0)"
| "str_common _ _ = 0"

definition completions :: "finsh_parser \<Rightarrow> string \<Rightarrow> string list" where
  "completions p prefix =
     filter (str_is_prefix prefix)
       (filter (\<lambda>w. \<not> str_is_prefix ''__'' w) (map syscall_name (syscall_table p)) @
        map syscall_name (global_syscall_list p) @
        map sysvar_name (sysvar_table p) @ map sysvar_name (global_sysvar_list p))"

fun complete_step :: "string \<Rightarrow> (string \<times> nat) option \<Rightarrow> (string \<times> nat) option" where
  "complete_step w None = Some (w, min (str_common w w) (length w))"
| "complete_step w (Some (name, n)) = Some (name, min (str_common name w) n)"

definition list_prefix :: "finsh_parser \<Rightarrow> string \<Rightarrow> string option" where
  "list_prefix p prefix =
     (if prefix = [] then None
      else map_option (\<lambda>(name, n). take n name) (fold complete_step (completions p prefix) None))"

text \<open>\<open>rt_strncpy\<close> writes the name without its end.\<close>

definition key_tab :: "finsh_shell \<Rightarrow> finsh_shell option" where
  "key_tab s = do {
     prefix \<leftarrow> c_string (line s);
     s \<leftarrow> (case list_prefix (shell_parser s) prefix of
             None \<Rightarrow> Some s
           | Some name \<Rightarrow>
               if length name \<le> length (line s)
               then Some (s\<lparr>line := name @ drop (length name) (line s)\<rparr>) else None);
     str \<leftarrow> c_string (line s);
     Some (s\<lparr>line_curpos := length str, line_position := length str\<rparr>) }"

subsection \<open>The loop of the thread\<close>

text \<open>What the loop does next: \<open>continue\<close>, or on to the normal handling of the character.\<close>

datatype key_result = Continue finsh_shell | Normal finsh_shell

definition control_key :: "char \<Rightarrow> finsh_shell \<Rightarrow> key_result option" where
  "control_key ch s =
     (if ch = CHR 0x1B then Some (Continue (s\<lparr>stat := WAIT_SPEC_KEY\<rparr>))
      else case stat s of
        WAIT_NORMAL \<Rightarrow> Some (Normal s)
      | WAIT_SPEC_KEY \<Rightarrow>
          Some (if ch = CHR 0x5B then Continue (s\<lparr>stat := WAIT_FUNC_KEY\<rparr>)
                else Normal (s\<lparr>stat := WAIT_NORMAL\<rparr>))
      | WAIT_FUNC_KEY \<Rightarrow>
          (let s = s\<lparr>stat := WAIT_NORMAL\<rparr> in
           if ch = CHR 0x41 then map_option Continue (key_up s)
           else if ch = CHR 0x42 then map_option Continue (key_down s)
           else if ch = CHR 0x44 then Some (Continue (key_left s))
           else if ch = CHR 0x43 then Some (Continue (key_right s))
           else Some (Normal s)))"

text \<open>A carriage return takes the next character with it, if there is one; \<open>NUL\<close> is what telnet sends.\<close>

fun after_return :: "string \<Rightarrow> char \<times> string" where
  "after_return [] = (CHR 0x0D, [])"
| "after_return (c # keys) = (if c = CHR 0x00 then CHR 0x0D else c, keys)"

text \<open>One character: the characters that are left, whether the line was over, and the shell.\<close>

definition shell_key ::
    "nat \<Rightarrow> syscalls \<Rightarrow> char \<Rightarrow> string \<Rightarrow> finsh_shell \<Rightarrow> (string \<times> bool \<times> finsh_shell) option" where
  "shell_key n calls ch keys s = do {
     r \<leftarrow> control_key ch s;
     case r of
       Continue s \<Rightarrow> Some (keys, False, s)
     | Normal s \<Rightarrow>
         if ch = CHR 0x09 then map_option (\<lambda>s. (keys, False, s)) (key_tab s)
         else if ch = CHR 0x7F \<or> ch = CHR 0x08 then map_option (\<lambda>s. (keys, False, s)) (key_backspace s)
         else
           (let (ch, keys) = (if ch = CHR 0x0D then after_return keys else (ch, keys)) in
            if ch = CHR 0x0D \<or> ch = CHR 0x0A
            then map_option (\<lambda>s. (keys, True, s)) (key_enter n calls s)
            else map_option (\<lambda>s. (keys, False, s)) (key_char ch s)) }"

lemma after_return_length: "after_return keys = (c, keys') \<Longrightarrow> length keys' \<le> length keys"
  by (cases keys) auto

lemma shell_key_length:
  "shell_key n calls ch keys s = Some (keys', over, s') \<Longrightarrow> length keys' \<le> length keys"
  by (auto simp: shell_key_def dest: after_return_length split: bind_splits key_result.splits if_splits prod.splits)

text \<open>
  The inner loop: characters are read until the device has no more or the line is over; the rest is
  read when the semaphore has been released again.
\<close>

function shell_read ::
    "nat \<Rightarrow> syscalls \<Rightarrow> string \<Rightarrow> finsh_shell \<Rightarrow> (string \<times> finsh_shell) option" where
  "shell_read n calls [] s = Some ([], s)"
| "shell_read n calls (ch # keys) s =
     (case shell_key n calls ch keys s of
        None \<Rightarrow> None
      | Some (keys, over, s) \<Rightarrow> if over then Some (keys, s) else shell_read n calls keys s)"
  by pat_completeness auto

termination
  by (relation "measure (\<lambda>(_, _, keys, _). length keys)")
    (auto dest!: shell_key_length simp: less_Suc_eq_le)

text \<open>Every wake-up brings new characters behind those that were left.\<close>

fun finsh_thread_loop ::
    "nat \<Rightarrow> syscalls \<Rightarrow> string list \<Rightarrow> string \<Rightarrow> finsh_shell \<Rightarrow> (string \<times> finsh_shell) option" where
  "finsh_thread_loop n calls [] keys s = Some (keys, s)"
| "finsh_thread_loop n calls (new # bursts) keys s = do {
     (keys, s) \<leftarrow> shell_read n calls (keys @ new) s;
     finsh_thread_loop n calls bursts keys s }"

text \<open>The shell as \<open>finsh_system_init\<close> leaves it, and what its thread does first.\<close>

definition finsh_thread_start :: "finsh_shell \<Rightarrow> finsh_shell option" where
  "finsh_thread_start s = do {
     p \<leftarrow> finsh_init (shell_parser s);
     Some (s\<lparr>echo_mode := 1, shell_parser := p\<rparr>) }"

definition cleared_shell :: "finsh_shell \<Rightarrow> finsh_shell" where
  "cleared_shell s = s\<lparr>stat := WAIT_NORMAL, echo_mode := 0, current_history := 0, history_count := 0,
     cmd_history := replicate FINSH_HISTORY_LINES (replicate FINSH_CMD_SIZE (CHR 0x00)),
     line := replicate FINSH_CMD_SIZE (CHR 0x00), line_position := 0, line_curpos := 0\<rparr>"

end
