(* ===== verification/FinshEdit.thy ===== *)
theory FinshEdit
  imports FinshShell "HOL-Library.Sublist"
begin

text \<open>
  What the line editor promises. Seen from outside, the line is the text on the left and on the
  right of the cursor; every key acts on these two as \<open>edit_step\<close> says, as long as the line stays
  below 80 characters. Completion puts in what all names with the prefix share.
\<close>

subsection \<open>The editor\<close>

datatype edit = Ins char | Del | CursorLeft | CursorRight

fun edit_step :: "edit \<Rightarrow> string \<times> string \<Rightarrow> string \<times> string" where
  "edit_step (Ins c) (l, r) = (l @ [c], r)"
| "edit_step Del (l, r) = (butlast l, r)"
| "edit_step CursorLeft (l, r) = (if l = [] then (l, r) else (butlast l, last l # r))"
| "edit_step CursorRight (l, r) = (case r of [] \<Rightarrow> (l, r) | c # r \<Rightarrow> (l @ [c], r))"

fun keys_of :: "edit \<Rightarrow> string" where
  "keys_of (Ins c) = [c]"
| "keys_of Del = [CHR 0x7F]"
| "keys_of CursorLeft = [CHR 0x1B, CHR 0x5B, CHR 0x44]"
| "keys_of CursorRight = [CHR 0x1B, CHR 0x5B, CHR 0x43]"

definition plain :: "char \<Rightarrow> bool" where
  "plain c \<longleftrightarrow> c \<notin> {CHR 0x00, CHR 0x08, CHR 0x09, CHR 0x0A, CHR 0x0D, CHR 0x1B, CHR 0x7F}"

fun proper :: "edit \<Rightarrow> bool" where
  "proper (Ins c) = plain c"
| "proper _ = True"

definition shows_text :: "finsh_shell \<Rightarrow> string \<times> string \<Rightarrow> bool" where
  "shows_text s lr \<longleftrightarrow>
     (case lr of (l, r) \<Rightarrow>
        stat s = WAIT_NORMAL \<and> length l + length r < FINSH_CMD_SIZE \<and>
        line_curpos s = length l \<and> line_position s = length l + length r \<and>
        line s = l @ r @ replicate (FINSH_CMD_SIZE - (length l + length r)) (CHR 0x00))"

text \<open>Nothing but the line and the state of the keyboard has changed.\<close>

definition same_but_line :: "finsh_shell \<Rightarrow> finsh_shell \<Rightarrow> bool" where
  "same_but_line s s' \<longleftrightarrow>
     s' = s\<lparr>stat := stat s', line := line s', line_position := line_position s', line_curpos := line_curpos s'\<rparr>"

lemma same_but_line_trans: "same_but_line s t \<Longrightarrow> same_but_line t u \<Longrightarrow> same_but_line s u"
  unfolding same_but_line_def by (cases s; cases t; cases u) simp

lemma byte_steps [simp]:
  "0 < n \<Longrightarrow> n < 256 \<Longrightarrow> byte_dec n = n - 1" "n < 255 \<Longrightarrow> byte_inc n = n + 1"
proof -
  assume n: "0 < n" "n < 256"
  then have "n + 255 = (n - 1) + 256" by simp
  then show "byte_dec n = n - 1" using n by (simp only: byte_dec_def mod_add_self2) simp
qed (simp add: byte_inc_def)

lemma shows_textE:
  assumes "shows_text s (l, r)"
  obtains z where "line s = l @ r @ z" "z = replicate (FINSH_CMD_SIZE - (length l + length r)) (CHR 0x00)"
    "stat s = WAIT_NORMAL" "line_curpos s = length l" "line_position s = length l + length r"
    "length l + length r < FINSH_CMD_SIZE"
  using assms by (simp add: shows_text_def)

lemma key_char_text:
  assumes "shows_text s (l, r)" and "length l + length r + 1 < FINSH_CMD_SIZE"
  shows "\<exists>s'. key_char c s = Some s' \<and> shows_text s' (l @ [c], r) \<and> same_but_line s s'"
proof -
  obtain z where s: "line s = l @ r @ z" "z = replicate (FINSH_CMD_SIZE - (length l + length r)) (CHR 0x00)"
    "stat s = WAIT_NORMAL" "line_curpos s = length l" "line_position s = length l + length r"
    using shows_textE [OF assms(1)] .
  define n where "n = FINSH_CMD_SIZE - (length l + length r + 1)"
  have n: "length l + length r + 1 + n = FINSH_CMD_SIZE" "0 < n" using assms(2) by (simp_all add: n_def)
  then have "FINSH_CMD_SIZE - (length l + length r) = Suc n" by simp
  then obtain w where z: "z = CHR 0x00 # w" and w: "w = replicate n (CHR 0x00)" using s(2) by simp
  let ?line = "l @ c # r @ w"
  have k: "key_char c s = Some (s\<lparr>line := ?line, line_position := length l + length r + 1,
      line_curpos := length l + 1\<rparr>)"
    using s(1,4,5) n w unfolding z
    by (cases r) (simp_all add: key_char_def set_char_def move_chars_def list_update_append)
  have "FINSH_CMD_SIZE - (length l + 1 + length r) = n" using n by simp
  then have "shows_text (s\<lparr>line := ?line, line_position := length l + length r + 1,
      line_curpos := length l + 1\<rparr>) (l @ [c], r)"
    using s(3) n by (simp add: shows_text_def w)
  then show ?thesis using k by (auto simp: same_but_line_def)
qed

lemma key_backspace_text:
  assumes "shows_text s (l, r)"
  shows "\<exists>s'. key_backspace s = Some s' \<and> shows_text s' (butlast l, r) \<and> same_but_line s s'"
proof (cases l rule: rev_cases)
  case Nil
  then show ?thesis using assms by (auto simp: key_backspace_def shows_text_def same_but_line_def)
next
  case (snoc l' c)
  obtain z where s: "line s = l' @ c # r @ z" "z = replicate (FINSH_CMD_SIZE - (length l' + 1 + length r)) (CHR 0x00)"
    "stat s = WAIT_NORMAL" "line_curpos s = length l' + 1" "line_position s = length l' + 1 + length r"
    "length l' + 1 + length r < FINSH_CMD_SIZE"
    using shows_textE [OF assms] snoc by auto
  define n where "n = FINSH_CMD_SIZE - (length l' + length r + 1)"
  have n: "length l' + length r + 1 + n = FINSH_CMD_SIZE" "0 < n" "z = replicate n (CHR 0x00)"
    using s by (simp_all add: n_def)
  let ?line = "l' @ r @ CHR 0x00 # z"
  have k: "key_backspace s = Some (s\<lparr>line := ?line, line_position := length l' + length r,
      line_curpos := length l'\<rparr>)"
    using s(1,4-6) n(1,2) n(3) [THEN arg_cong, of length]
    by (cases r rule: rev_cases)
      (simp_all add: key_backspace_def set_char_def move_chars_def list_update_append)
  have "FINSH_CMD_SIZE - (length l' + length r) = Suc n" using n by simp
  then have "shows_text (s\<lparr>line := ?line, line_position := length l' + length r,
      line_curpos := length l'\<rparr>) (l', r)"
    using s(3) n by (simp add: shows_text_def)
  then show ?thesis using k snoc by (auto simp: same_but_line_def)
qed


lemma shell_edit:
  assumes "shows_text s lr" and "proper e"
    and "length (fst (edit_step e lr)) + length (snd (edit_step e lr)) < FINSH_CMD_SIZE"
  shows "\<exists>s'. shell_read n calls (keys_of e @ keys) s = shell_read n calls keys s' \<and>
    shows_text s' (edit_step e lr) \<and> same_but_line s s'"
proof (cases lr)
  case (Pair l r)
  note s = assms(1) [unfolded Pair]
  have st: "stat s = WAIT_NORMAL" using s by (simp add: shows_text_def)
  show ?thesis
  proof (cases e)
    case (Ins c)
    have c: "c \<notin> {CHR 0x00, CHR 0x08, CHR 0x09, CHR 0x0A, CHR 0x0D, CHR 0x1B, CHR 0x7F}"
      using assms(2) Ins by (simp add: plain_def)
    have "length l + length r + 1 < FINSH_CMD_SIZE" using assms(3) Ins Pair by simp
    from key_char_text [OF s this, of c] obtain s' where
      "key_char c s = Some s'" "shows_text s' (l @ [c], r)" "same_but_line s s'" by blast
    then show ?thesis using st c Ins Pair
      by (intro exI [of _ s']) (simp add: shell_key_def control_key_def)
  next
    case Del
    from key_backspace_text [OF s] obtain s' where
      "key_backspace s = Some s'" "shows_text s' (butlast l, r)" "same_but_line s s'" by blast
    then show ?thesis using st Del Pair
      by (intro exI [of _ s']) (simp add: shell_key_def control_key_def)
  next
    case CursorLeft
    have "shows_text ((key_left s)\<lparr>stat := WAIT_NORMAL\<rparr>) (edit_step e lr)"
      using s CursorLeft Pair
      by (cases l rule: rev_cases) (auto simp: shows_text_def key_left_def)
    moreover have "same_but_line s ((key_left s)\<lparr>stat := WAIT_NORMAL\<rparr>)"
      by (simp add: same_but_line_def key_left_def)
    moreover have "key_left (s\<lparr>stat := WAIT_NORMAL\<rparr>) = (key_left s)\<lparr>stat := WAIT_NORMAL\<rparr>"
      by (simp add: key_left_def)
    ultimately show ?thesis
      using st CursorLeft by (auto simp: shell_key_def control_key_def)
  next
    case CursorRight
    have "shows_text ((key_right s)\<lparr>stat := WAIT_NORMAL\<rparr>) (edit_step e lr)"
      using s CursorRight Pair by (cases r) (auto simp: shows_text_def key_right_def)
    moreover have "same_but_line s ((key_right s)\<lparr>stat := WAIT_NORMAL\<rparr>)"
      by (simp add: same_but_line_def key_right_def)
    moreover have "key_right (s\<lparr>stat := WAIT_NORMAL\<rparr>) = (key_right s)\<lparr>stat := WAIT_NORMAL\<rparr>"
      by (simp add: key_right_def)
    ultimately show ?thesis
      using st CursorRight by (auto simp: shell_key_def control_key_def)
  qed
qed

text \<open>A sequence of edits, none of which makes the line too long.\<close>

fun edits_fit :: "edit list \<Rightarrow> string \<times> string \<Rightarrow> bool" where
  "edits_fit [] lr = True"
| "edits_fit (e # es) lr =
     (let lr' = edit_step e lr in
      proper e \<and> length (fst lr') + length (snd lr') < FINSH_CMD_SIZE \<and> edits_fit es lr')"

lemma shell_edits:
  assumes "shows_text s lr" and "edits_fit es lr"
  shows "\<exists>s'. shell_read n calls (concat (map keys_of es) @ keys) s = shell_read n calls keys s' \<and>
    shows_text s' (fold edit_step es lr) \<and> same_but_line s s'"
  using assms
proof (induction es arbitrary: s lr)
  case Nil
  then show ?case by (auto simp: same_but_line_def)
next
  case (Cons e es)
  then obtain t where t:
    "shell_read n calls (keys_of e @ concat (map keys_of es) @ keys) s =
      shell_read n calls (concat (map keys_of es) @ keys) t"
    "shows_text t (edit_step e lr)" "same_but_line s t"
    using shell_edit [OF Cons.prems(1), of e n calls "concat (map keys_of es) @ keys"]
    by (auto simp: Let_def)
  from Cons.IH [OF t(2)] Cons.prems(2) obtain u where u:
    "shell_read n calls (concat (map keys_of es) @ keys) t = shell_read n calls keys u"
    "shows_text u (fold edit_step es (edit_step e lr))" "same_but_line t u" by (auto simp: Let_def)
  show ?case using t(1) u same_but_line_trans [OF t(3) u(3)] by auto
qed

lemma edits_no_NUL:
  assumes "edits_fit es lr" and "CHR 0x00 \<notin> set (fst lr) \<union> set (snd lr)"
  shows "CHR 0x00 \<notin> set (fst (fold edit_step es lr)) \<union> set (snd (fold edit_step es lr))"
  using assms
proof (induction es arbitrary: lr)
  case (Cons e es)
  obtain l r where lr: "lr = (l, r)" by fastforce
  have "CHR 0x00 \<notin> set (fst (edit_step e lr)) \<union> set (snd (edit_step e lr))"
    using Cons.prems lr
    by (cases e; cases l rule: rev_cases; cases r) (auto simp: Let_def plain_def dest: in_set_butlastD)
  then show ?case using Cons.IH [of "edit_step e lr"] Cons.prems(1) by (simp add: Let_def)
qed simp

text \<open>C26. Editing a line: from a line with the text \<open>l\<close> on the left and \<open>r\<close> on the right of the cursor,
  the keys of any sequence of insertions, deletions and cursor movements that stays below 80
  characters lead to the line those edits make of the two texts, and change nothing but the
  line.\<close>

theorem shell_edits_line:
  assumes "shows_text s (l, r)" and "edits_fit es (l, r)"
  shows "\<exists>s'. shell_read n calls (concat (map keys_of es)) s = Some ([], s') \<and>
    shows_text s' (fold edit_step es (l, r)) \<and> same_but_line s s'"
  using shell_edits [OF assms, of n calls "[]"] by simp


subsection \<open>The end of the line\<close>

definition clear_line :: "finsh_shell \<Rightarrow> finsh_shell" where
  "clear_line s = s\<lparr>line := replicate FINSH_CMD_SIZE (CHR 0x00), line_curpos := 0, line_position := 0\<rparr>"

definition line_over :: "finsh_shell \<Rightarrow> finsh_shell option" where
  "line_over s = map_option clear_line (show_text FINSH_PROMPT [] s)"

lemma c_string_line:
  assumes "CHR 0x00 \<notin> set t"
  shows "c_string (t @ replicate n (CHR 0x00)) = (if n = 0 then None else Some t)"
  using assms by (cases n) (auto simp: c_string_def takeWhile_append)

text \<open>What \<open>finsh_run_line\<close> finds: the history has grown, the rest is as before.\<close>

definition runs_from :: "finsh_shell \<Rightarrow> finsh_shell \<Rightarrow> bool" where
  "runs_from s s' \<longleftrightarrow>
     shell_parser s' = shell_parser s \<and> shell_vm s' = shell_vm s \<and> console s' = console s \<and>
     rt_log_buf s' = rt_log_buf s \<and> echo_mode s' = echo_mode s \<and> stat s' = WAIT_NORMAL"

text \<open>The text \<open>t\<close> is the newest line of the history.\<close>

definition newest :: "finsh_shell \<Rightarrow> string \<Rightarrow> bool" where
  "newest s t \<longleftrightarrow>
     0 < history_count s \<and> history_count s \<le> FINSH_HISTORY_LINES \<and>
     current_history s = history_count s \<and> length (cmd_history s) = FINSH_HISTORY_LINES \<and>
     cmd_history s ! (history_count s - 1) = t @ replicate (FINSH_CMD_SIZE - length t) (CHR 0x00)"

lemma same_but_line_sel:
  "same_but_line s t \<Longrightarrow> shell_parser t = shell_parser s \<and> shell_vm t = shell_vm s \<and>
   console t = console s \<and> rt_log_buf t = rt_log_buf s \<and> echo_mode t = echo_mode s \<and>
   history_count t = history_count s \<and> cmd_history t = cmd_history s"
  unfolding same_but_line_def by (cases s; cases t) simp

lemma key_enter_text:
  assumes "shows_text s (l, r)" and "CHR 0x00 \<notin> set l \<union> set r" and "l @ r \<noteq> []"
    and "length (cmd_history s) = FINSH_HISTORY_LINES"
  shows "\<exists>s'. runs_from s s' \<and> newest s' (l @ r) \<and>
    key_enter n calls s =
      (if length l + length r + 1 = FINSH_CMD_SIZE then None
       else finsh_run_line n calls (l @ r @ '';'') s' \<bind> line_over)"
proof -
  define k where "k = FINSH_CMD_SIZE - (length l + length r + 1)"
  have st: "stat s = WAIT_NORMAL" "line_curpos s = length l" "line_position s = length l + length r"
    and len: "length l + length r + 1 + k = FINSH_CMD_SIZE"
    and l: "line s = l @ r @ CHR 0x00 # replicate k (CHR 0x00)"
    using assms(1) by (auto simp: shows_text_def k_def simp flip: replicate_Suc)
  obtain t where t: "shell_push_history s = Some t" "line t = line s" "line_position t = line_position s"
    "runs_from s t" "newest t (l @ r)"
  proof -
    have h: "history_entry s = (l @ r) @ replicate (FINSH_CMD_SIZE - length (l @ r)) (CHR 0x00)"
      using st(3) l by (simp add: history_entry_def)
    let ?t = "if history_count s \<ge> FINSH_HISTORY_LINES
      then s\<lparr>cmd_history := tl (cmd_history s) @ [history_entry s],
             history_count := FINSH_HISTORY_LINES, current_history := FINSH_HISTORY_LINES\<rparr>
      else s\<lparr>cmd_history := (cmd_history s)[history_count s := history_entry s],
             history_count := history_count s + 1, current_history := history_count s + 1\<rparr>"
    have "shell_push_history s = Some ?t"
      using assms(3) st len by (simp add: shell_push_history_def)
    moreover have "newest ?t (l @ r)"
      using assms(4) h by (simp add: newest_def nth_append)
    ultimately show ?thesis using that [of ?t] st(1) by (simp add: runs_from_def)
  qed
  let ?line = "l @ r @ CHR '';'' # replicate k (CHR 0x00)"
  have set: "set_char (line_position t) (CHR '';'') t = Some (t\<lparr>line := ?line\<rparr>)"
    using t(2,3) st(3) l len by (simp add: set_char_def list_update_append)
  have str: "c_string ?line = (if k = 0 then None else Some (l @ r @ '';''))"
    using c_string_line [of "l @ r @ '';''" k] assms(2) by simp
  have pos: "line_position t \<noteq> 0" using t(3) st(3) assms(3) by auto
  have k: "length l + length r + 1 = FINSH_CMD_SIZE \<longleftrightarrow> k = 0" using len by auto
  have "key_enter n calls s =
      (if k = 0 then None
       else finsh_run_line n calls (l @ r @ '';'') (t\<lparr>line := ?line\<rparr>) \<bind> line_over)"
    using t(1) set str pos
    by (simp add: key_enter_def line_over_def [abs_def] clear_line_def [abs_def] map_conv_bind_option comp_def)
  moreover have "runs_from s (t\<lparr>line := ?line\<rparr>)" using t(4) by (simp add: runs_from_def)
  moreover have "newest (t\<lparr>line := ?line\<rparr>) (l @ r)" using t(5) by (simp add: newest_def)
  ultimately show ?thesis using k by (intro exI [of _ "t\<lparr>line := ?line\<rparr>"]) simp
qed


lemma shell_read_enter:
  assumes "stat s = WAIT_NORMAL"
  shows "shell_read n calls (CHR 0x0A # keys) s = map_option (Pair keys) (key_enter n calls s)"
  using assms by (cases "key_enter n calls s") (simp_all add: shell_key_def control_key_def)

text \<open>The text that edits make of an empty line.\<close>

definition typed :: "edit list \<Rightarrow> string" where
  "typed es = (let (l, r) = fold edit_step es ([], []) in l @ r)"

lemma typed_line:
  assumes "shows_text s ([], [])" and "edits_fit es ([], [])" and "typed es \<noteq> []"
    and "length (cmd_history s) = FINSH_HISTORY_LINES"
  shows "\<exists>s'. runs_from s s' \<and> newest s' (typed es) \<and>
    shell_read n calls (concat (map keys_of es) @ CHR 0x0A # keys) s =
      (if length (typed es) + 1 = FINSH_CMD_SIZE then None
       else finsh_run_line n calls (typed es @ '';'') s' \<bind> (\<lambda>s. map_option (Pair keys) (line_over s)))"
proof -
  obtain l r where lr: "fold edit_step es ([], []) = (l, r)" by fastforce
  then have ty: "typed es = l @ r" by (simp add: typed_def)
  obtain t where t:
    "shell_read n calls (concat (map keys_of es) @ CHR 0x0A # keys) s = shell_read n calls (CHR 0x0A # keys) t"
    "shows_text t (l, r)" "same_but_line s t"
    using shell_edits [OF assms(1,2), of n calls "CHR 0x0A # keys"] lr by auto
  have nul: "CHR 0x00 \<notin> set l \<union> set r" using edits_no_NUL [OF assms(2)] lr by simp
  have "length (cmd_history t) = FINSH_HISTORY_LINES" using assms(4) same_but_line_sel [OF t(3)] by simp
  from key_enter_text [OF t(2) nul _ this] assms(3) ty obtain u where u: "runs_from t u" "newest u (l @ r)"
    "key_enter n calls t = (if length l + length r + 1 = FINSH_CMD_SIZE then None
       else finsh_run_line n calls (l @ r @ '';'') u \<bind> line_over)" by metis
  have "runs_from s u" using u(1) same_but_line_sel [OF t(3)] by (simp add: runs_from_def)
  moreover have "stat t = WAIT_NORMAL" using t(2) by (simp add: shows_text_def)
  ultimately show ?thesis
    using t(1) u(2,3) ty shell_read_enter [of t n calls keys]
    by (intro exI [of _ u]) (simp add: map_conv_bind_option)
qed

text \<open>The enter key: whatever keys a text of 1 to 78 characters was typed with, a line feed runs
  exactly that text with a semicolon behind it, on the parser, the machine and the console as they
  were, shows the prompt, and leaves an empty line and the characters behind the line feed.\<close>

theorem shell_runs_typed_line:
  assumes "shows_text s ([], [])" and "edits_fit es ([], [])" and "typed es \<noteq> []"
    and "length (typed es) + 1 < FINSH_CMD_SIZE" and "length (cmd_history s) = FINSH_HISTORY_LINES"
  shows "\<exists>s'. runs_from s s' \<and> newest s' (typed es) \<and>
    shell_read n calls (concat (map keys_of es) @ CHR 0x0A # keys) s =
      finsh_run_line n calls (typed es @ '';'') s' \<bind> (\<lambda>s. map_option (Pair keys) (line_over s))"
  using typed_line [OF assms(1-3,5), of n calls keys] assms(4) by auto

text \<open>A line of 79 characters: the semicolon takes the last place in the buffer, and what runs the
  line reads behind it.\<close>

theorem shell_line_of_79:
  assumes "shows_text s ([], [])" and "edits_fit es ([], [])"
    and "length (typed es) + 1 = FINSH_CMD_SIZE" and "length (cmd_history s) = FINSH_HISTORY_LINES"
  shows "shell_read n calls (concat (map keys_of es) @ CHR 0x0A # keys) s = None"
proof -
  have "typed es \<noteq> []" using assms(3) by auto
  then show ?thesis using typed_line [OF assms(1,2) _ assms(4), of n calls keys] assms(3) by auto
qed

text \<open>A carriage return takes the next character with it: unless that is a line feed, another
  carriage return or a NUL, the line is not ended, and the character is typed into it.\<close>

theorem shell_return_lost:
  assumes "stat s = WAIT_NORMAL" and "plain c"
  shows "shell_read n calls (CHR 0x0D # c # keys) s = shell_read n calls (c # keys) s"
  using assms by (simp add: shell_key_def control_key_def plain_def)

subsection \<open>The history\<close>

lemma show_text_keeps:
  "show_text fmt args s = Some s' \<Longrightarrow> \<exists>t. s' = s\<lparr>console := t\<rparr>"
  by (auto simp: show_text_def)

definition keeps_keyboard :: "finsh_shell \<Rightarrow> finsh_shell \<Rightarrow> bool" where
  "keeps_keyboard s s' \<longleftrightarrow>
     stat s' = stat s \<and> history_count s' = history_count s \<and> current_history s' = current_history s \<and>
     cmd_history s' = cmd_history s"

lemma keeps_refl: "keeps_keyboard s s"
  by (simp add: keeps_keyboard_def)

lemma keeps_trans: "keeps_keyboard s t \<Longrightarrow> keeps_keyboard t u \<Longrightarrow> keeps_keyboard s u"
  by (simp add: keeps_keyboard_def)

lemma keeps_parser: "keeps_keyboard s (s\<lparr>shell_parser := p\<rparr>)"
  by (simp add: keeps_keyboard_def)

lemma keeps_text: "show_text fmt args s = Some s' \<Longrightarrow> keeps_keyboard s s'"
  by (auto dest: show_text_keeps simp: keeps_keyboard_def)

lemma keeps_compile: "compile_root root s = Some s' \<Longrightarrow> keeps_keyboard s s'"
  by (auto simp: compile_root_def keeps_keyboard_def Let_def split: bind_splits)

lemma keeps_code: "run_code calls s = Some s' \<Longrightarrow> keeps_keyboard s s'"
  by (auto simp: run_code_def show_value_def Let_def keeps_keyboard_def
      dest!: show_text_keeps split: bind_splits if_splits)

lemma run_line_keeps:
  assumes "finsh_run_line n calls text s = Some s'"
  shows "keeps_keyboard s s'"
proof -
  obtain r where r: "echo_newline s = Some r"
    using assms by (auto simp: finsh_run_line_def Let_def split: bind_splits)
  then have 0: "keeps_keyboard s r" using keeps_text keeps_refl by (auto simp: echo_newline_def split: if_splits)
  obtain root p where p: "finsh_parser_run n text (shell_parser r) = Some (root, p)"
    using assms r by (auto simp: finsh_run_line_def Let_def split: bind_splits)
  let ?s = "r\<lparr>shell_parser := p\<rparr>"
  let ?t = "if global_errno p = FINSH_ERROR_OK then compile_root root ?s
    else show_text (''%s'' @ [CHR 0x0A]) [VStr (Some (finsh_error_string (global_errno p)))] ?s"
  obtain t where t: "?t = Some t" using assms r p by (auto simp: finsh_run_line_def Let_def split: bind_splits)
  then have 1: "keeps_keyboard ?s t" using keeps_compile keeps_text by (auto split: if_splits)
  let ?u = "if global_errno (shell_parser t) = FINSH_ERROR_OK then run_code calls t else Some t"
  obtain u where u: "?u = Some u" "s' = u\<lparr>shell_parser := finsh_flush (shell_parser u)\<rparr>"
    using assms r p t unfolding finsh_run_line_def Let_def by (auto split: bind_splits)
  then have "keeps_keyboard t u" using keeps_code keeps_refl by (auto split: if_splits)
  then show ?thesis
    using keeps_trans [OF keeps_trans [OF 0 keeps_parser] 1] u(2) keeps_trans keeps_parser by blast
qed

text \<open>C27. The history: after a line has been typed and run, the up key brings it back into the
  editor, with the cursor at its end.\<close>

theorem shell_up_recalls:
  assumes "shows_text s ([], [])" and "edits_fit es ([], [])" and "typed es \<noteq> []"
    and "length (cmd_history s) = FINSH_HISTORY_LINES"
    and "shell_read n calls (concat (map keys_of es) @ [CHR 0x0A]) s = Some (keys, s')"
  shows "\<exists>s''. shell_read n calls [CHR 0x1B, CHR 0x5B, CHR 0x41] s' = Some ([], s'') \<and>
    shows_text s'' (typed es, [])"
proof -
  obtain t where t: "runs_from s t" "newest t (typed es)"
    "shell_read n calls (concat (map keys_of es) @ [CHR 0x0A]) s =
      (if length (typed es) + 1 = FINSH_CMD_SIZE then None
       else finsh_run_line n calls (typed es @ '';'') t \<bind> (\<lambda>s. map_option (Pair []) (line_over s)))"
    using typed_line [OF assms(1-4), of n calls "[]"] by blast
  obtain u v where u: "finsh_run_line n calls (typed es @ '';'') t = Some u"
    "show_text FINSH_PROMPT [] u = Some v" "s' = clear_line v"
    using assms(5) unfolding t(3) by (cases "finsh_run_line n calls (typed es @ '';'') t") (auto simp: line_over_def split: if_splits)
  have k: "keeps_keyboard t s'"
    using keeps_trans [OF run_line_keeps [OF u(1)] keeps_text [OF u(2)]] u(3)
    by (simp add: keeps_keyboard_def clear_line_def)
  then have n: "newest s' (typed es)" and st: "stat s' = WAIT_NORMAL"
    using t(1,2) by (simp_all add: keeps_keyboard_def newest_def runs_from_def)
  have nul: "CHR 0x00 \<notin> set (typed es)"
    using edits_no_NUL [OF assms(2)] by (simp add: typed_def split_beta)
  have len: "length (typed es) < FINSH_CMD_SIZE"
    using shell_edits [OF assms(1,2)] by (auto simp: typed_def shows_text_def split_beta)
  let ?k = "history_count s' - 1" and ?z = "replicate (FINSH_CMD_SIZE - length (typed es)) (CHR 0x00)"
  let ?s = "s'\<lparr>stat := WAIT_NORMAL, current_history := ?k, line := typed es @ ?z,
    line_position := length (typed es), line_curpos := length (typed es)\<rparr>"
  have "key_up (s'\<lparr>stat := WAIT_NORMAL\<rparr>) = Some ?s"
    using n c_string_line [OF nul] len by (simp add: key_up_def recall_history_def newest_def)
  then have "shell_read n calls [CHR 0x1B, CHR 0x5B, CHR 0x41] s' = Some ([], ?s)"
    using st by (simp add: shell_key_def control_key_def)
  moreover have "shows_text ?s (typed es, [])" using len by (simp add: shows_text_def)
  ultimately show ?thesis by blast
qed


subsection \<open>Lines that are too long\<close>

text \<open>The line once it has held 80 characters, with the first \<open>k\<close> of it typed again.\<close>

definition overrun :: "finsh_shell \<Rightarrow> nat \<Rightarrow> bool" where
  "overrun s k \<longleftrightarrow>
     stat s = WAIT_NORMAL \<and> line_position s = k \<and> line_curpos s = k \<and> k < FINSH_CMD_SIZE \<and>
     length (line s) = FINSH_CMD_SIZE \<and> CHR 0x00 \<notin> set (line s)"

lemma shell_key_plain:
  assumes "stat s = WAIT_NORMAL" and "plain c"
  shows "shell_read n calls (c # keys) s = key_char c s \<bind> shell_read n calls keys"
  using assms by (cases "key_char c s") (simp_all add: shell_key_def control_key_def plain_def)

lemma plain_no_NUL: "plain c \<Longrightarrow> c \<noteq> CHR 0x00"
  by (simp add: plain_def)

lemma overrun_plain:
  assumes "overrun s k" and "\<forall>c \<in> set cs. plain c" and "k + length cs < FINSH_CMD_SIZE"
  shows "\<exists>s'. shell_read n calls (cs @ keys) s = shell_read n calls keys s' \<and> overrun s' (k + length cs)"
  using assms
proof (induction cs arbitrary: s k)
  case (Cons c cs)
  let ?s = "s\<lparr>line := (line s)[k := c], line_position := k + 1, line_curpos := k + 1\<rparr>"
  have "key_char c s = Some ?s"
    using Cons.prems by (simp add: overrun_def key_char_def set_char_def)
  moreover have "overrun ?s (k + 1)"
    using Cons.prems plain_no_NUL set_update_subset_insert [of "line s" k c]
    by (auto simp: overrun_def)
  ultimately show ?case
    using Cons.IH [of ?s "k + 1"] Cons.prems shell_key_plain [of s c n calls "cs @ keys"]
    by (simp add: overrun_def)
qed auto

lemma full_line:
  assumes "shows_text s (l, [])" and "length l + 1 = FINSH_CMD_SIZE" and "CHR 0x00 \<notin> set l" and "plain c"
  shows "\<exists>s'. shell_read n calls (c # keys) s = shell_read n calls keys s' \<and> overrun s' 0"
proof -
  have s: "stat s = WAIT_NORMAL" "line_curpos s = length l" "line_position s = length l"
    "line s = l @ [CHR 0x00]"
    using assms(1,2) by (auto simp: shows_text_def)
  let ?s = "s\<lparr>line := l @ [c], line_position := 0, line_curpos := 0\<rparr>"
  have "length l = 79" using assms(2) by simp
  then have "key_char c s = Some ?s"
    using s by (simp add: key_char_def set_char_def list_update_append)
  moreover have "overrun ?s 0"
    using s assms(2-4) plain_no_NUL by (auto simp: overrun_def)
  ultimately show ?thesis
    using shell_key_plain [OF s(1) assms(4), of n calls keys] by (intro exI [of _ ?s]) simp
qed

lemma push_history_line:
  "line_position s \<le> FINSH_CMD_SIZE \<Longrightarrow>
   \<exists>t. shell_push_history s = Some t \<and> line t = line s \<and> line_position t = line_position s"
  by (simp add: shell_push_history_def Let_def)

text \<open>C29. A line that is too long is not discarded: the 80th character only takes the positions back to
  the beginning, and when more has been typed and entered, what runs the line reads the old
  characters behind the new ones, and on behind the end of the buffer.\<close>

theorem shell_long_line_not_discarded:
  assumes "shows_text s ([], [])" and "\<forall>c \<in> set cs. plain c" and "\<forall>c \<in> set ds. plain c"
    and "length cs = FINSH_CMD_SIZE" and "ds \<noteq> []" and "length ds < FINSH_CMD_SIZE"
  shows "shell_read n calls (cs @ ds @ CHR 0x0A # keys) s = None"
proof -
  obtain cs' c where cs: "cs = cs' @ [c]" using assms(4) by (cases cs rule: rev_cases) auto
  have ins: "concat (map keys_of (map Ins cs')) = cs'" by (induction cs') auto
  have step: "fold edit_step (map Ins xs) (l, r) = (l @ xs, r)" for xs l r
    by (induction xs arbitrary: l) simp_all
  have fit: "edits_fit (map Ins xs) (l, [])" if "\<forall>c \<in> set xs. plain c" "length l + length xs < FINSH_CMD_SIZE"
    for xs l using that by (induction xs arbitrary: l) auto
  have "edits_fit (map Ins cs') ([], [])" using cs assms(2,4) by (intro fit) auto
  from shell_edits [OF assms(1) this, of n calls "c # ds @ CHR 0x0A # keys"] obtain t where t:
    "shell_read n calls (cs @ ds @ CHR 0x0A # keys) s = shell_read n calls (c # ds @ CHR 0x0A # keys) t"
    "shows_text t (cs', [])" using cs ins step by auto
  have "CHR 0x00 \<notin> set cs'" "plain c" using cs assms(2) plain_no_NUL by auto
  then obtain u where u: "shell_read n calls (c # ds @ CHR 0x0A # keys) t = shell_read n calls (ds @ CHR 0x0A # keys) u"
    "overrun u 0" using full_line [OF t(2), of c n calls "ds @ CHR 0x0A # keys"] cs assms(4) by auto
  from overrun_plain [OF u(2) assms(3), of n calls "CHR 0x0A # keys"] obtain v where v:
    "shell_read n calls (ds @ CHR 0x0A # keys) u = shell_read n calls (CHR 0x0A # keys) v"
    "overrun v (length ds)" using assms(6) by auto
  obtain w where w: "shell_push_history v = Some w" "line w = line v" "line_position w = length ds"
    using push_history_line [of v] v(2) by (auto simp: overrun_def)
  have "CHR 0x00 \<notin> set ((line v)[length ds := CHR '';''])"
    using v(2) set_update_subset_insert [of "line v" "length ds"] by (auto simp: overrun_def)
  then have "key_enter n calls v = None"
    using w v(2) assms(5) by (auto simp: key_enter_def set_char_def overrun_def c_string_def)
  then show ?thesis
    using t(1) u(1) v shell_read_enter [of v n calls keys] by (simp add: overrun_def)
qed

subsection \<open>Completion\<close>

lemma str_is_prefix_prefix: "str_is_prefix p w \<longleftrightarrow> prefix p w"
  by (auto simp: str_is_prefix_def prefix_def) (metis append_take_drop_id)


lemma str_common_max: "take (str_common a b) a = take (str_common a b) b"
  "str_common a b \<le> length a"
  "prefix u a \<Longrightarrow> prefix u b \<Longrightarrow> length u \<le> str_common a b"
  by (induction a b arbitrary: u rule: str_common.induct) (auto simp: prefix_Cons)

text \<open>What the fold has found after some of the names.\<close>

definition common :: "string list \<Rightarrow> (string \<times> nat) option \<Rightarrow> bool" where
  "common ws r \<longleftrightarrow>
     (case r of None \<Rightarrow> ws = []
      | Some (name, n) \<Rightarrow>
          ws \<noteq> [] \<and> name \<in> set ws \<and> n \<le> length name \<and> (\<forall>w \<in> set ws. prefix (take n name) w) \<and>
          (\<forall>u. (\<forall>w \<in> set ws. prefix u w) \<longrightarrow> length u \<le> n))"

lemma str_common_self [simp]: "str_common w w = length w"
  by (induction w) simp_all

lemma common_step:
  assumes "common ws r"
  shows "common (ws @ [w]) (complete_step w r)"
proof (cases r)
  case None
  then show ?thesis using assms by (auto simp: common_def prefix_length_le)
next
  case (Some r')
  obtain name n where r: "r = Some (name, n)" using Some by (cases r') auto
  let ?m = "min (str_common name w) n"
  have c: "name \<in> set ws" "n \<le> length name" "\<forall>w \<in> set ws. prefix (take n name) w"
    "\<And>u. \<forall>w \<in> set ws. prefix u w \<Longrightarrow> length u \<le> n"
    using assms r by (auto simp: common_def)
  have "prefix (take ?m name) (take n name)" by (metis min.cobounded2 take_is_prefix take_take min.commute)
  then have 1: "\<forall>w \<in> set ws. prefix (take ?m name) w" using c(3) prefix_order.trans by blast
  have "take ?m name = take ?m (take (str_common name w) name)" by (metis min.cobounded1 min.absorb1 take_take)
  also have "\<dots> = take ?m w" by (metis str_common_max(1) min.cobounded1 min.absorb1 take_take)
  finally have 2: "prefix (take ?m name) w" by (simp add: take_is_prefix)
  have 3: "length u \<le> ?m" if "\<forall>v \<in> set (ws @ [w]). prefix u v" for u
    using that c(1) c(4) [of u] str_common_max(3) [of u name w] by simp
  show ?thesis using c(1,2) 1 2 3 r by (auto simp: common_def)
qed

lemma common_fold: "common ws r \<Longrightarrow> common (ws @ xs) (fold complete_step xs r)"
proof (induction xs arbitrary: ws r)
  case (Cons x xs)
  then show ?case using Cons.IH [of "ws @ [x]"] common_step by simp
qed simp

text \<open>C28. Completion: if there are names with the prefix, the tab key puts in the longest text that all
  of them begin with, which is never less than the prefix.\<close>

theorem list_prefix_longest:
  assumes "pre \<noteq> []" and "completions p pre \<noteq> []"
  shows "\<exists>t. list_prefix p pre = Some t \<and> prefix pre t \<and> (\<forall>w \<in> set (completions p pre). prefix t w) \<and>
    (\<forall>u. (\<forall>w \<in> set (completions p pre). prefix u w) \<longrightarrow> prefix u t)"
proof -
  let ?ws = "completions p pre"
  have c: "common ?ws (fold complete_step ?ws None)" using common_fold [of "[]" None ?ws] by (simp add: common_def)
  then obtain name n where f: "fold complete_step ?ws None = Some (name, n)"
    using assms(2) by (cases "fold complete_step ?ws None") (auto simp: common_def)
  with c have n: "name \<in> set ?ws" "n \<le> length name" "\<forall>w \<in> set ?ws. prefix (take n name) w"
    "\<And>u. \<forall>w \<in> set ?ws. prefix u w \<Longrightarrow> length u \<le> n"
    by (auto simp: common_def)
  have max: "prefix u (take n name)" if "\<forall>w \<in> set ?ws. prefix u w" for u
    using that n(1,2) n(4) [OF that] by (metis length_take min.absorb2 prefix_length_prefix take_is_prefix)
  have "\<forall>w \<in> set ?ws. prefix pre w" by (auto simp: completions_def str_is_prefix_prefix)
  then show ?thesis
    using assms(1) f n(3) max by (auto simp: list_prefix_def)
qed

end
