(* ===== verification/FinshSem.thy ===== *)
theory FinshSem
  imports FinshCompiler
begin

text \<open>
  A reference semantics of the expressions a line of the shell consists of, on integers and the
  memory, without byte code and without a stack. Every expression has the width the compiler
  works at (\<open>width_of\<close>, none for a call) and the width its value is valid at (\<open>yields\<close>).
\<close>

subsection \<open>Widths\<close>

datatype width = W8 | W16 | W32

instantiation width :: linorder
begin

fun bits :: "width \<Rightarrow> nat" where
  "bits W8 = 8" | "bits W16 = 16" | "bits W32 = 32"

definition less_eq_width :: "width \<Rightarrow> width \<Rightarrow> bool" where
  "less_eq_width v w = (bits v \<le> bits w)"

definition less_width :: "width \<Rightarrow> width \<Rightarrow> bool" where
  "less_width v w = (bits v < bits w)"

instance
proof
  fix x y z :: width
  show "(x < y) = (x \<le> y \<and> \<not> y \<le> x)" by (auto simp: less_eq_width_def less_width_def)
  show "x \<le> x" by (simp add: less_eq_width_def)
  show "x \<le> y \<Longrightarrow> y \<le> z \<Longrightarrow> x \<le> z" by (simp add: less_eq_width_def)
  show "x \<le> y \<Longrightarrow> y \<le> x \<Longrightarrow> x = y" by (cases x; cases y; simp add: less_eq_width_def)
  show "x \<le> y \<or> y \<le> x" by (auto simp: less_eq_width_def)
qed

end

lemma W32_greatest [simp]: "w \<le> W32" and W8_least [simp]: "W8 \<le> w"
  by (cases w; simp add: less_eq_width_def)+

text \<open>The value of an integer stored in a \<open>char\<close>, a \<open>short\<close> or a \<open>long\<close>.\<close>

fun cast :: "width \<Rightarrow> int \<Rightarrow> int" where
  "cast W8 v = uint (word_of_int v :: u8)"
| "cast W16 v = sint (word_of_int v :: u16)"
| "cast W32 v = sint (word_of_int v :: u32)"

fun load :: "width \<Rightarrow> ram \<Rightarrow> addr \<Rightarrow> int option" where
  "load W8 m a = map_option uint (load8 m a)"
| "load W16 m a = map_option sint (load16 m a)"
| "load W32 m a = map_option sint (load32 m a)"

fun bytes :: "width \<Rightarrow> int \<Rightarrow> u8 list" where
  "bytes W8 v = [word_of_int v]"
| "bytes W16 v = FINSH_SET16 (word_of_int v)"
| "bytes W32 v = FINSH_SET32 (word_of_int v)"

definition store :: "width \<Rightarrow> ram \<Rightarrow> addr \<Rightarrow> int \<Rightarrow> ram option" where
  "store w m a v = store_bytes m a (bytes w v)"

subsection \<open>Expressions\<close>

datatype bop = Add | Sub | Mul | Div | Mod | And | Or | Xor | Shl | Shr

fun bop_sem :: "bop \<Rightarrow> int \<Rightarrow> int \<Rightarrow> int option" where
  "bop_sem Add = (\<lambda>a b. Some (a + b))"
| "bop_sem Sub = (\<lambda>a b. Some (a - b))"
| "bop_sem Mul = (\<lambda>a b. Some (a * b))"
| "bop_sem Div = c_div"
| "bop_sem Mod = c_mod"
| "bop_sem And = (\<lambda>a b. Some (a AND b))"
| "bop_sem Or = (\<lambda>a b. Some (a OR b))"
| "bop_sem Xor = (\<lambda>a b. Some (a XOR b))"
| "bop_sem Shl = c_shl"
| "bop_sem Shr = c_shr"

datatype place = Var nat | Sysvar finsh_sysvar

datatype fexp =
    EChar u8
  | EInt u32
  | ELong u32
  | EPlace place
  | EBin bop fexp fexp
  | ECompl fexp
  | EAssign place fexp
  | EIncr bool bop nat
  | ECall finsh_syscall "fexp list"
  | EDeref fexp
  | EStore fexp fexp
  | EAddr place

text \<open>\<open>EIncr True Add\<close> is \<open>++x\<close>, \<open>EIncr False Sub\<close> is \<open>x--\<close>; \<open>EStore a b\<close> is \<open>*a = b\<close>.\<close>

fun type_width :: "finsh_type \<Rightarrow> width option" where
  "type_width finsh_type_char = Some W8"
| "type_width finsh_type_uchar = Some W8"
| "type_width finsh_type_short = Some W16"
| "type_width finsh_type_ushort = Some W16"
| "type_width finsh_type_unknown = None"
| "type_width finsh_type_void = None"
| "type_width finsh_type_voidp = None"
| "type_width _ = Some W32"

fun place_width :: "finsh_var list \<Rightarrow> place \<Rightarrow> width option" where
  "place_width vs (Var i) = (if i < length vs then type_width (fv_type (vs ! i)) else None)"
| "place_width vs (Sysvar sv) = type_width (sysvar_type sv)"

fun place_addr :: "addr \<Rightarrow> place \<Rightarrow> addr" where
  "place_addr base (Var i) = var_value (global_variable base i)"
| "place_addr base (Sysvar sv) = sysvar_var sv"

fun width_of :: "finsh_var list \<Rightarrow> fexp \<Rightarrow> width option" where
  "width_of vs (EChar c) = Some W8"
| "width_of vs (EInt n) = Some W32"
| "width_of vs (ELong n) = Some W32"
| "width_of vs (EPlace p) = place_width vs p"
| "width_of vs (EBin op a b) = width_of vs a"
| "width_of vs (ECompl a) = width_of vs a"
| "width_of vs (EAssign p b) = place_width vs p"
| "width_of vs (EIncr pre op i) = place_width vs (Var i)"
| "width_of vs (ECall sc es) = None"
| "width_of vs (EDeref a) = width_of vs a"
| "width_of vs (EStore a b) = width_of vs a"
| "width_of vs (EAddr p) = place_width vs p"

text \<open>The width of the value; a call and an address fill a cell, whatever the compiler takes them for.\<close>

definition yields :: "finsh_var list \<Rightarrow> fexp \<Rightarrow> width" where
  "yields vs e =
     (case e of ECall _ _ \<Rightarrow> W32 | EAddr _ \<Rightarrow> W32
      | _ \<Rightarrow> (case width_of vs e of None \<Rightarrow> W32 | Some w \<Rightarrow> w))"

text \<open>
  The expressions the compiler has code for. An operand may not be narrower than the operation
  (its cell would keep the bytes of an older value), and a call has no width: it is not the first
  operand of anything.
\<close>

fun supported :: "finsh_var list \<Rightarrow> fexp \<Rightarrow> bool" where
  "supported vs (EChar c) = True"
| "supported vs (EInt n) = True"
| "supported vs (ELong n) = True"
| "supported vs (EPlace p) = (place_width vs p \<noteq> None)"
| "supported vs (EBin op a b) =
     (supported vs a \<and> supported vs b \<and>
      (case width_of vs a of None \<Rightarrow> False | Some w \<Rightarrow> w \<le> yields vs b))"
| "supported vs (ECompl a) = (supported vs a \<and> width_of vs a \<noteq> None)"
| "supported vs (EAssign p b) =
     (supported vs b \<and> (case place_width vs p of None \<Rightarrow> False | Some w \<Rightarrow> w \<le> yields vs b))"
| "supported vs (EIncr pre op i) = (place_width vs (Var i) \<noteq> None \<and> (op = Add \<or> op = Sub))"
| "supported vs (ECall sc es) =
     (length es \<le> 16 \<and> (\<forall>e \<in> set es. supported vs e \<and> yields vs e = W32))"
| "supported vs (EDeref a) = (supported vs a \<and> width_of vs a \<noteq> None \<and> yields vs a = W32)"
| "supported vs (EStore a b) =
     (supported vs a \<and> supported vs b \<and> yields vs a = W32 \<and>
      (case width_of vs a of None \<Rightarrow> False | Some w \<Rightarrow> w \<le> yields vs b))"
| "supported vs (EAddr p) = (place_width vs p \<noteq> None)"

subsection \<open>Evaluation\<close>

fun eval :: "addr \<Rightarrow> syscalls \<Rightarrow> finsh_var list \<Rightarrow> fexp \<Rightarrow> ram \<Rightarrow> (int \<times> ram) option"
  and eval_list ::
    "addr \<Rightarrow> syscalls \<Rightarrow> finsh_var list \<Rightarrow> fexp list \<Rightarrow> ram \<Rightarrow> (int list \<times> ram) option" where
  "eval base calls vs (EChar c) m = Some (uint c, m)"
| "eval base calls vs (EInt n) m = Some (sint n, m)"
| "eval base calls vs (ELong n) m = Some (sint n, m)"
| "eval base calls vs (EPlace p) m = do {
     w \<leftarrow> place_width vs p; v \<leftarrow> load w m (place_addr base p); Some (v, m) }"
| "eval base calls vs (EBin op a b) m = do {
     w \<leftarrow> width_of vs a;
     (x, m) \<leftarrow> eval base calls vs a m;
     (y, m) \<leftarrow> eval base calls vs b m;
     r \<leftarrow> bop_sem op (cast w x) (cast w y);
     Some (cast w r, m) }"
| "eval base calls vs (ECompl a) m = do {
     w \<leftarrow> width_of vs a;
     (x, m) \<leftarrow> eval base calls vs a m;
     Some (cast w (NOT x), m) }"
| "eval base calls vs (EAssign p b) m = do {
     w \<leftarrow> place_width vs p;
     (y, m) \<leftarrow> eval base calls vs b m;
     m \<leftarrow> store w m (place_addr base p) y;
     Some (cast w y, m) }"
| "eval base calls vs (EIncr pre op i) m = do {
     w \<leftarrow> place_width vs (Var i);
     x \<leftarrow> load w m (place_addr base (Var i));
     r \<leftarrow> bop_sem op x 1;
     m \<leftarrow> store w m (place_addr base (Var i)) r;
     Some (if pre then cast w r else x, m) }"
| "eval base calls vs (ECall sc es) m = do {
     (xs, m) \<leftarrow> eval_list base calls vs es m;
     (r, m) \<leftarrow> calls (syscall_func sc) (if xs = [] then [0] else map word_of_int xs) m;
     Some (sint r, m) }"
| "eval base calls vs (EDeref a) m = do {
     w \<leftarrow> width_of vs a;
     (x, m) \<leftarrow> eval base calls vs a m;
     v \<leftarrow> load w m (word_of_int x);
     Some (v, m) }"
| "eval base calls vs (EStore a b) m = do {
     w \<leftarrow> width_of vs a;
     (x, m) \<leftarrow> eval base calls vs a m;
     (y, m) \<leftarrow> eval base calls vs b m;
     m \<leftarrow> store w m (word_of_int x) y;
     Some (cast w y, m) }"
| "eval base calls vs (EAddr p) m = Some (sint (place_addr base p), m)"
| "eval_list base calls vs [] m = Some ([], m)"
| "eval_list base calls vs (e # es) m = do {
     (x, m) \<leftarrow> eval base calls vs e m;
     (xs, m) \<leftarrow> eval_list base calls vs es m;
     Some (x # xs, m) }"

text \<open>A line: the value is that of its last statement.\<close>

fun eval_line :: "addr \<Rightarrow> syscalls \<Rightarrow> finsh_var list \<Rightarrow> fexp list \<Rightarrow> ram \<Rightarrow> (int \<times> ram) option" where
  "eval_line base calls vs [] m = None"
| "eval_line base calls vs [e] m = eval base calls vs e m"
| "eval_line base calls vs (e # es) m = do {
     (_, m) \<leftarrow> eval base calls vs e m; eval_line base calls vs es m }"

subsection \<open>The tree of an expression\<close>

fun bop_node :: "bop \<Rightarrow> fnode_type" where
  "bop_node Add = FINSH_NODE_SYS_ADD"
| "bop_node Sub = FINSH_NODE_SYS_SUB"
| "bop_node Mul = FINSH_NODE_SYS_MUL"
| "bop_node Div = FINSH_NODE_SYS_DIV"
| "bop_node Mod = FINSH_NODE_SYS_MOD"
| "bop_node And = FINSH_NODE_SYS_AND"
| "bop_node Or = FINSH_NODE_SYS_OR"
| "bop_node Xor = FINSH_NODE_SYS_XOR"
| "bop_node Shl = FINSH_NODE_SYS_SHL"
| "bop_node Shr = FINSH_NODE_SYS_SHR"

definition incr_node :: "bool \<Rightarrow> bop \<Rightarrow> fnode_type" where
  "incr_node pre op =
     (if pre then (if op = Add then FINSH_NODE_SYS_PREINC else FINSH_NODE_SYS_PREDEC)
      else (if op = Add then FINSH_NODE_SYS_INC else FINSH_NODE_SYS_DEC))"

fun place_node :: "u8 \<Rightarrow> u8 \<Rightarrow> place \<Rightarrow> finsh_node" where
  "place_node d a (Var i) = Node FINSH_NODE_ID d (FINSH_IDTYPE_VAR OR a) 0 (id_var i) []"
| "place_node d a (Sysvar sv) =
     Node FINSH_NODE_ID d (FINSH_IDTYPE_SYSVAR OR a) 0 (id_sysvar sv) []"

definition sys_node :: "fnode_type \<Rightarrow> finsh_node list \<Rightarrow> finsh_node" where
  "sys_node t child = Node t 0 0 0 id_null child"

definition syscall_node :: "finsh_syscall \<Rightarrow> finsh_node" where
  "syscall_node sc = Node FINSH_NODE_ID 0 FINSH_IDTYPE_SYSCALL 0 (id_syscall sc) []"

text \<open>As the parser builds it.\<close>

fun node_of :: "fexp \<Rightarrow> finsh_node" where
  "node_of (EChar c) = Node FINSH_NODE_VALUE_CHAR 0 0 (ucast c) id_null []"
| "node_of (EInt n) = Node FINSH_NODE_VALUE_INT 0 0 n id_null []"
| "node_of (ELong n) = Node FINSH_NODE_VALUE_LONG 0 0 n id_null []"
| "node_of (EPlace p) = place_node 0 0 p"
| "node_of (EBin op a b) = sys_node (bop_node op) [node_of a, node_of b]"
| "node_of (ECompl a) = sys_node FINSH_NODE_SYS_BITWISE [node_of a]"
| "node_of (EAssign p b) = sys_node FINSH_NODE_SYS_ASSIGN [place_node 0 0 p, node_of b]"
| "node_of (EIncr pre op i) = sys_node (incr_node pre op) [place_node 0 0 (Var i)]"
| "node_of (ECall sc es) = sys_node FINSH_NODE_SYS_FUNC (syscall_node sc # map node_of es)"
| "node_of (EDeref a) = sys_node FINSH_NODE_SYS_GETVALUE [node_of a]"
| "node_of (EStore a b) =
     sys_node FINSH_NODE_SYS_ASSIGN [sys_node FINSH_NODE_SYS_GETVALUE [node_of a], node_of b]"
| "node_of (EAddr p) = sys_node FINSH_NODE_SYS_GETADDR [place_node 0 0 p]"

end
