(* ===== verification/FinshLex.thy ===== *)
theory FinshLex
  imports FinshToken FinshSem
begin

text \<open>
  What the scanner reads. A lexeme is a token with its value, \<open>spelled\<close> says which texts spell a
  list of them (with blanks in between where the writer likes), and \<open>ahead\<close> that a scanner has a
  list of lexemes before it. The lemma \<open>next_lexeme\<close> is all the parser needs to know of the scanner.
\<close>

named_theorems scan_simps

subsection \<open>Single characters\<close>

abbreviation "NUL \<equiv> CHR 0x00"
abbreviation "NL \<equiv> CHR 0x0A"

text \<open>The text \<open>s\<close> is what is left of the line.\<close>

definition rest :: "'a finsh_token_scheme \<Rightarrow> string \<Rightarrow> bool" where
  "rest self s \<longleftrightarrow>
     \<not> tk_eof self \<and> tk_position self \<le> length (tk_line self) \<and>
     drop (tk_position self) (tk_line self) = s \<and> length (tk_string self) = FINSH_STRING_MAX"

definition adv :: "nat \<Rightarrow> 'a finsh_token_scheme \<Rightarrow> 'a finsh_token_scheme" where
  "adv k self = self\<lparr>tk_position := tk_position self + k\<rparr>"

lemma adv_sel [simp]:
  "tk_eof (adv k self) = tk_eof self" "tk_replay (adv k self) = tk_replay self"
  "tk_position (adv k self) = tk_position self + k" "tk_value (adv k self) = tk_value self"
  "tk_string (adv k self) = tk_string self" "tk_line (adv k self) = tk_line self"
  "current_token (adv k self) = current_token self" "global_errno (adv k self) = global_errno self"
  "finsh_token.more (adv k self) = finsh_token.more self"
  "adv 0 self = self" "adv j (adv k self) = adv (j + k) self"
  by (simp_all add: adv_def add_ac)

lemma rest_adv: "rest self (cs @ s) \<Longrightarrow> rest (adv (length cs) self) s"
proof -
  assume r: "rest self (cs @ s)"
  then have "length (tk_line self) - tk_position self = length cs + length s"
    by (metis length_append length_drop rest_def)
  moreover have "drop (length cs) (drop (tk_position self) (tk_line self)) = s"
    using r by (simp add: rest_def)
  ultimately show ?thesis using r by (auto simp: rest_def add.commute)
qed

lemma rest_Cons [intro]: "rest self (c # s) \<Longrightarrow> rest (adv (Suc 0) self) s"
  using rest_adv [of self "[c]" s] by simp

lemma next_char [scan_simps]:
  assumes "rest self (c # s)" and "c \<noteq> NL"
  shows "token_next_char self = (c, adv (Suc 0) self)"
proof -
  have "tk_position self < length (tk_line self)"
    using assms(1) by (auto simp: rest_def) (metis drop_eq_Nil linorder_not_le list.distinct(1))
  moreover from this have "tk_line self ! tk_position self = c"
    using assms(1) by (metis Cons_nth_drop_Suc list.sel(1) rest_def)
  ultimately show ?thesis using assms by (simp add: token_next_char_def rest_def adv_def)
qed

lemma prev_char [scan_simps]: "\<not> tk_eof self \<Longrightarrow> token_prev_char (adv (Suc k) self) = adv k self"
  by (simp add: token_prev_char_def adv_def)

lemma scan_while_none [scan_simps]: "\<not> p c \<Longrightarrow> scan_while p c self = ([], c, self)"
  by (subst scan_while.simps) simp

lemma scan_while_step:
  assumes "p c" and "rest self (d # s)" and "d \<noteq> NL"
  shows "scan_while p c self =
    (let (cs, c', self) = scan_while p d (adv (Suc 0) self) in (c # cs, c', self))"
  using assms next_char [OF assms(2,3)] by (subst scan_while.simps) (simp add: rest_def)

lemma scan_while_chars:
  assumes "rest self (cs @ d # s)" and "\<forall>c \<in> set cs. p c \<and> c \<noteq> NL" and "p c" and "\<not> p d" and "d \<noteq> NL"
  shows "scan_while p c self = (c # cs, d, adv (Suc (length cs)) self)"
  using assms
proof (induction cs arbitrary: c self)
  case Nil
  then show ?case using scan_while_step [of p c self d s] by (simp add: scan_while_none)
next
  case (Cons e cs)
  then have "rest (adv (Suc 0) self) (cs @ d # s)" by (simp add: rest_Cons)
  moreover have "scan_while p c self =
      (let (cs, c', self) = scan_while p e (adv (Suc 0) self) in (c # cs, c', self))"
    using Cons.prems by (intro scan_while_step [where s = "cs @ d # s"]) auto
  ultimately show ?case using Cons.IH [of "adv (Suc 0) self" e] Cons.prems by simp
qed


subsection \<open>Lexemes\<close>

text \<open>\<open>Num\<close> and \<open>LNum\<close> are decimal constants without and with a suffix \<open>l\<close>.\<close>

datatype lexeme =
  Word string | Key finsh_token_type | Num u32 | LNum u32 | Chr char | Op finsh_token_type

fun kind :: "lexeme \<Rightarrow> finsh_token_type" where
  "kind (Word w) = finsh_token_type_identifier"
| "kind (Key t) = t"
| "kind (Num n) = finsh_token_type_value_int"
| "kind (LNum n) = finsh_token_type_value_long"
| "kind (Chr c) = finsh_token_type_value_char"
| "kind (Op t) = t"

text \<open>What the scanner leaves beside the token.\<close>

fun payload :: "lexeme \<Rightarrow> 'a finsh_token_scheme \<Rightarrow> bool" where
  "payload (Word w) self = (c_string (tk_string self) = Some w)"
| "payload (Num n) self = (tk_value self = n)"
| "payload (LNum n) self = (tk_value self = n)"
| "payload (Chr c) self = (char_value (tk_value self) = of_nat (ord c))"
| "payload _ self = True"

function dec :: "nat \<Rightarrow> string" where
  "dec n = (if n < 10 then [char_of (48 + n)] else dec (n div 10) @ [char_of (48 + n mod 10)])"
  by pat_completeness auto

termination by (relation "measure id") auto

declare dec.simps [simp del]

fun op_text :: "finsh_token_type \<Rightarrow> string" where
  "op_text finsh_token_type_left_paren = ''(''"
| "op_text finsh_token_type_right_paren = '')''"
| "op_text finsh_token_type_comma = '',''"
| "op_text finsh_token_type_semicolon = '';''"
| "op_text finsh_token_type_mul = ''*''"
| "op_text finsh_token_type_add = ''+''"
| "op_text finsh_token_type_inc = ''++''"
| "op_text finsh_token_type_sub = ''-''"
| "op_text finsh_token_type_dec = ''--''"
| "op_text finsh_token_type_div = ''/''"
| "op_text finsh_token_type_mod = ''%''"
| "op_text finsh_token_type_assign = ''=''"
| "op_text finsh_token_type_and = ''&''"
| "op_text finsh_token_type_or = ''|''"
| "op_text finsh_token_type_xor = ''^''"
| "op_text finsh_token_type_bitwise = [CHR 0x7E]"
| "op_text finsh_token_type_shl = ''<<''"
| "op_text finsh_token_type_shr = ''>>''"
| "op_text _ = []"

fun lexeme_text :: "lexeme \<Rightarrow> string" where
  "lexeme_text (Word w) = w"
| "lexeme_text (Key t) = (case find (\<lambda>(_, u). u = t) finsh_name_table of None \<Rightarrow> [] | Some (w, _) \<Rightarrow> w)"
| "lexeme_text (Num n) = dec (unat n)"
| "lexeme_text (LNum n) = dec (unat n) @ ''l''"
| "lexeme_text (Chr c) = [CHR 0x27, c, CHR 0x27]"
| "lexeme_text (Op t) = op_text t"

text \<open>
  Which lexemes there are: a word is an identifier, \<open>0l\<close> is no constant of the scanner, and a
  character constant is written without an escape.
\<close>

definition word_text :: "string \<Rightarrow> bool" where
  "word_text w \<longleftrightarrow>
     w \<noteq> [] \<and> length w < FINSH_STRING_MAX \<and> (\<forall>c \<in> set w. \<not> is_separator c) \<and> \<not> is_digit (hd w)"

fun lexeme_ok :: "lexeme \<Rightarrow> bool" where
  "lexeme_ok (Word w) = (word_text w \<and> map_of finsh_name_table w = None)"
| "lexeme_ok (Key t) = (t \<in> snd ` set finsh_name_table)"
| "lexeme_ok (Num n) = True"
| "lexeme_ok (LNum n) = (n \<noteq> 0)"
| "lexeme_ok (Chr c) = (c \<noteq> CHR 0x5C \<and> c \<noteq> NL)"
| "lexeme_ok (Op t) = (op_text t \<noteq> [])"

text \<open>The text behind a lexeme must not join it; only a semicolon may end the line.\<close>

fun apart :: "lexeme \<Rightarrow> string \<Rightarrow> bool" where
  "apart (Op finsh_token_type_semicolon) s = True"
| "apart x [] = False"
| "apart x (c # s) =
     (c \<noteq> NL \<and>
      (case x of
         Word w \<Rightarrow> is_separator c
       | Key t \<Rightarrow> is_separator c
       | Num n \<Rightarrow> is_separator c
       | Op t \<Rightarrow> (t = finsh_token_type_add \<longrightarrow> c \<noteq> CHR ''+'') \<and> (t = finsh_token_type_sub \<longrightarrow> c \<noteq> CHR ''-'') \<and>
           (t = finsh_token_type_div \<longrightarrow> c \<noteq> CHR ''/'')
       | _ \<Rightarrow> True))"

definition blank :: "char \<Rightarrow> bool" where
  "blank c \<longleftrightarrow> c = CHR '' '' \<or> c = CHR 0x09 \<or> c = CHR 0x0D"

inductive spelled :: "lexeme list \<Rightarrow> string \<Rightarrow> bool" where
  spelled_Nil: "spelled [] []"
| spelled_Cons: "\<lbrakk>lexeme_ok x; spelled xs s; apart x s; \<forall>c \<in> set bs. blank c\<rbrakk>
    \<Longrightarrow> spelled (x # xs) (bs @ lexeme_text x @ s)"


inductive_simps spelled_Nil_iff [simp]: "spelled [] s"
inductive_cases spelled_ConsE: "spelled (x # xs) s"

subsection \<open>Words and blanks\<close>

lemma not_eof: "rest self s \<Longrightarrow> \<not> tk_eof self"
  by (simp add: rest_def)

lemma not_blank_NL: "\<not> blank NL"
  by (simp add: blank_def)

lemma trim_space_blank:
  "token_trim_space self =
     (let (ch, self) = token_next_char self; (_, _, self) = scan_while blank ch self
      in token_prev_char self)"
  by (simp add: token_trim_space_def blank_def [abs_def])

lemma trim_space:
  assumes "rest self (bs @ c # s)" and "\<forall>b \<in> set bs. blank b" and "\<not> blank c" and "c \<noteq> NL"
  shows "token_trim_space self = adv (length bs) self"
proof (cases bs)
  case Nil
  then have "token_next_char self = (c, adv (Suc 0) self)"
    using assms by (intro next_char [where s = s]) auto
  then show ?thesis
    using assms(3) Nil not_eof [OF assms(1)]
    by (simp add: trim_space_blank scan_while_none [of blank] prev_char)
next
  case (Cons b bs')
  have b: "b \<noteq> NL" "blank b" "\<forall>b \<in> set bs'. blank b \<and> b \<noteq> NL"
    using assms(2) not_blank_NL unfolding Cons by (metis list.set_intros)+
  have r: "rest self (b # bs' @ c # s)" using assms(1) Cons by simp
  have "scan_while blank b (adv (Suc 0) self) =
      (b # bs', c, adv (Suc (length bs')) (adv (Suc 0) self))"
    by (rule scan_while_chars [OF rest_Cons [OF r] b(3,2) assms(3,4)])
  then show ?thesis
    using next_char [OF r b(1)] Cons not_eof [OF r] by (simp add: trim_space_blank prev_char)
qed

lemma put_string_chars:
  "i + length cs \<le> FINSH_STRING_MAX \<Longrightarrow> length buf = FINSH_STRING_MAX \<Longrightarrow>
   put_string i cs buf = Some (take i buf @ cs @ drop (i + length cs) buf)"
proof (induction cs arbitrary: i buf)
  case (Cons c cs)
  then have "put_string i (c # cs) buf = put_string (Suc i) cs (buf[i := c])" by simp
  also have "\<dots> = Some (take (Suc i) (buf[i := c]) @ cs @ drop (Suc i + length cs) (buf[i := c]))"
    using Cons by (intro Cons.IH) simp_all
  finally show ?case using Cons.prems by (simp add: take_Suc_conv_app_nth drop_update_cancel)
qed simp

lemma c_string_prefix:
  "NUL \<notin> set w \<Longrightarrow> c_string (w @ NUL # buf) = Some w"
  by (auto simp: c_string_def takeWhile_append)

lemma get_string_word:
  assumes "rest self (w @ c # s)" and "word_text w" and "is_separator c" and "c \<noteq> NL"
  shows "\<exists>buf. token_get_string self = Some ((adv (length w) self)\<lparr>tk_string := w @ NUL # buf\<rparr>) \<and>
    length buf = FINSH_STRING_MAX - Suc (length w)"
proof -
  obtain d w' where w: "w = d # w'" using assms(2) by (cases w) (auto simp: word_text_def)
  have sep: "is_separator NL" by (simp add: is_separator_def is_digit_def ord_def)
  have d: "d \<noteq> NL" "\<not> is_separator d" "\<not> is_digit d" "\<forall>c \<in> set w'. \<not> is_separator c \<and> c \<noteq> NL"
    using assms(2) w sep by (auto simp: word_text_def)
  have r: "rest self (d # w' @ c # s)" using assms(1) w by simp
  let ?self = "(adv (Suc 0) self)\<lparr>tk_string := (tk_string self)[0 := NUL]\<rparr>"
  have "rest ?self (w' @ c # s)" using rest_Cons [OF r] by (simp add: rest_def)
  then have 1: "scan_while (\<lambda>c. \<not> is_separator c) d ?self = (w, c, adv (Suc (length w')) ?self)"
    unfolding w using d assms(3,4) by (intro scan_while_chars) auto
  have 2: "put_string 0 (w @ [NUL]) ((tk_string self)[0 := NUL]) =
      Some (w @ NUL # drop (Suc (length w)) (tk_string self))"
    using assms(2) r by (subst put_string_chars) (auto simp: rest_def w word_text_def)
  have "token_get_string self =
      Some ((adv (length w) self)\<lparr>tk_string := w @ NUL # drop (Suc (length w)) (tk_string self)\<rparr>)"
    using next_char [OF r d(1)] not_eof [OF r] d(3) 1 2
    by (simp add: token_get_string_def adv_def token_prev_char_def w)
  then show ?thesis using r by (auto simp: rest_def)
qed


lemma get_string_no_word:
  assumes "rest self (c # s)" and "c \<noteq> NL" and "is_separator c \<or> is_digit c"
  shows "token_get_string self = Some (self\<lparr>tk_string := (tk_string self)[0 := NUL]\<rparr>)"
proof -
  have l: "length (tk_string self) = FINSH_STRING_MAX" using assms(1) by (simp add: rest_def)
  have "put_string 0 [NUL] ((tk_string self)[0 := NUL]) = Some ((tk_string self)[0 := NUL])"
    by simp
  then show ?thesis
    using next_char [OF assms(1,2)] not_eof [OF assms(1)] assms(3)
    by (cases "is_digit c")
      (simp_all add: token_get_string_def adv_def token_prev_char_def scan_while_none)
qed

subsection \<open>Lexemes, one by one\<close>

definition read_lexeme ::
    "lexeme \<Rightarrow> string \<Rightarrow> 'a finsh_token_scheme \<Rightarrow> 'a finsh_token_scheme \<Rightarrow> bool" where
  "read_lexeme x s self self' \<longleftrightarrow>
     current_token self' = kind x \<and> payload x self' \<and> rest self' s \<and>
     tk_replay self' = tk_replay self \<and> global_errno self' = global_errno self \<and>
     finsh_token.more self' = finsh_token.more self"

lemma token_run_word:
  assumes "rest self (bs @ w @ s)" and "word_text w" and "is_separator (hd s)" and "hd s \<noteq> NL"
    and "s \<noteq> []" and "\<forall>b \<in> set bs. blank b"
  shows "\<exists>self'. token_run self =
      Some (self'\<lparr>current_token := (case map_of finsh_name_table w of
        Some t \<Rightarrow> t | None \<Rightarrow> finsh_token_type_identifier)\<rparr>) \<and>
    c_string (tk_string self') = Some w \<and> rest self' s \<and> tk_replay self' = tk_replay self \<and>
    global_errno self' = global_errno self \<and> finsh_token.more self' = finsh_token.more self"
proof -
  obtain c s' where s: "s = c # s'" "is_separator c" "c \<noteq> NL"
    using assms(3-5) by (cases s) auto
  obtain d w' where dw: "w = d # w'" "\<not> is_separator d"
    using assms(2) by (cases w) (auto simp: word_text_def)
  have seps: "is_separator NUL" "is_separator NL" "\<And>b. blank b \<Longrightarrow> is_separator b"
    by (auto simp: is_separator_def is_digit_def ord_def blank_def)
  let ?self = "adv (length bs) self"
  have trim: "token_trim_space self = ?self"
    using assms(1,6) dw seps by (intro trim_space [where c = d and s = "w' @ s"]) auto
  have r: "rest ?self (w @ c # s')" using rest_adv [OF assms(1)] s by simp
  from get_string_word [OF r assms(2) s(2,3)] obtain buf where
    get: "token_get_string ?self = Some ((adv (length w) ?self)\<lparr>tk_string := w @ NUL # buf\<rparr>)"
    and len: "length buf = FINSH_STRING_MAX - Suc (length w)" by blast
  have w: "NUL \<notin> set w" "length w < FINSH_STRING_MAX"
    using assms(2) seps(1) by (auto simp: word_text_def)
  have "rest ((adv (length w) ?self)\<lparr>tk_string := w @ NUL # buf\<rparr>) s"
    using rest_adv [OF r] len w(2) s(1) by (simp add: rest_def)
  moreover have "(w @ NUL # buf) ! 0 \<noteq> NUL" using w(1) dw by auto
  ultimately show ?thesis
    using get c_string_prefix [OF w(1)] not_eof [OF r]
    by (intro exI [of _ "(adv (length w) ?self)\<lparr>tk_string := w @ NUL # buf\<rparr>"])
      (simp add: token_run_def trim split: option.split)
qed

lemma get_no_word:
  assumes "rest self (c # s)" and "c \<noteq> NL" and "is_separator c \<or> is_digit c" and "\<not> tk_eof self"
    and "token_trim_space self0 = self"
  shows "token_run self0 = token_operator (self\<lparr>tk_string := (tk_string self)[0 := NUL]\<rparr>)"
proof -
  have "0 < length (tk_string self)" using assms(1) by (simp add: rest_def)
  then show ?thesis
    using get_string_no_word [OF assms(1-3)] assms(4,5) by (simp add: token_run_def)
qed


lemma next_char_sel:
  assumes "token_next_char self = (c, self')" and "rest self (c # s)" and "c \<noteq> NL"
  shows "self' = adv (Suc 0) self" and "rest self' s"
  using assms next_char [OF assms(2,3)] by auto

lemma rest_token [simp]:
  "rest (self\<lparr>current_token := t\<rparr>) s = rest self s" "rest (self\<lparr>tk_value := v\<rparr>) s = rest self s"
  "rest (self\<lparr>global_errno := e\<rparr>) s = rest self s" "rest (self\<lparr>tk_replay := r\<rparr>) s = rest self s"
  "rest (self\<lparr>tk_string := (tk_string self)[i := x]\<rparr>) s = rest self s"
  by (simp_all add: rest_def)

lemma op_text_NL: "NL \<notin> set (op_text t)"
  by (cases t) simp_all

lemma operator_ok:
  assumes "rest self (op_text t @ s)" and "op_text t \<noteq> []" and "apart (Op t) s"
  shows "\<exists>self'. token_operator self = Some self' \<and> read_lexeme (Op t) s self self'"
proof -
  note e = not_eof [OF assms(1)]
  have complete: ?thesis
    if "token_operator self = Some ((adv (length (op_text t)) self)\<lparr>current_token := t\<rparr>)"
    using that rest_adv [OF assms(1)] by (simp add: read_lexeme_def)
  have first: "token_next_char self = (hd (op_text t), adv (Suc 0) self)"
  proof -
    have "rest self (hd (op_text t) # tl (op_text t) @ s)" using assms(1,2) by (cases "op_text t") auto
    moreover have "hd (op_text t) \<noteq> NL" using op_text_NL [of t] assms(2) by (cases "op_text t") auto
    ultimately show ?thesis by (rule next_char)
  qed
  have second: "token_next_char (adv (Suc 0) self) = (d, adv (Suc (Suc 0)) self)"
    if "op_text t = [c, d]" for c d
    using assms(1) that op_text_NL [of t] next_char [OF rest_Cons, of self c d s] by auto
  have lookahead: "token_next_char (adv (Suc 0) self) = (hd s, adv (Suc (Suc 0)) self)"
    if "op_text t = [c]" "t \<noteq> finsh_token_type_semicolon" for c
  proof (cases s)
    case Nil
    then show ?thesis using assms(3) that by (cases t) auto
  next
    case (Cons d s')
    then have "d \<noteq> NL" using assms(3) that by (cases t) auto
    then show ?thesis using assms(1) that Cons next_char [OF rest_Cons, of self c d s'] by simp
  qed
  have unread: "token_prev_char (adv (Suc (Suc 0)) self) = adv (Suc 0) self"
    using e prev_char [of self "Suc 0"] by simp
  have sep: "t = finsh_token_type_add \<Longrightarrow> hd s \<noteq> CHR ''+''" "t = finsh_token_type_sub \<Longrightarrow> hd s \<noteq> CHR ''-''"
    "t = finsh_token_type_div \<Longrightarrow> hd s \<noteq> CHR ''/''"
    using assms(3) by (cases s; auto)+
  show ?thesis
    using assms(2) first second lookahead unread sep complete
    by (cases t) (simp_all add: token_operator_def)
qed


subsection \<open>Numbers\<close>

lemma digit_char: "n < 10 \<Longrightarrow> ord (char_of (48 + n)) = 48 + n"
  by (simp add: ord_def)

lemma dec_digits: "\<forall>c \<in> set (dec n). is_digit c"
proof (induction n rule: dec.induct)
  case (1 n)
  then show ?case
    by (subst dec.simps) (auto simp: is_digit_def digit_char ord_def)
qed

lemma dec_Cons: "dec n \<noteq> []"
  by (subst dec.simps) simp

lemma dec_zero: "dec 0 = ''0''"
  by (subst dec.simps) (simp add: char_of_eq_iff)

lemma dec_hd: "0 < n \<Longrightarrow> hd (dec n) \<noteq> CHR ''0''"
proof (induction n rule: dec.induct)
  case (1 n)
  show ?case
  proof (cases "n < 10")
    case True
    then have "ord (hd (dec n)) = 48 + n" by (subst dec.simps) (simp add: digit_char)
    then show ?thesis using 1(2) by (auto simp: ord_def)
  next
    case False
    then have "hd (dec n) = hd (dec (n div 10))" by (subst dec.simps) (simp add: dec_Cons)
    then show ?thesis using 1(1) False by simp
  qed
qed

lemma dec_value: "fold decimal_step (dec n) 0 = of_nat n"
proof (induction n rule: dec.induct)
  case (1 n)
  have last: "decimal_step (char_of (48 + d)) v = v * 10 + of_nat d" if "d < 10" for d v
    using that by (simp add: decimal_step_def digit_char) (simp add: ord_def)
  show ?case
  proof (cases "n < 10")
    case True
    then show ?thesis by (subst dec.simps) (simp add: last)
  next
    case False
    then have "fold decimal_step (dec n) 0 = of_nat (n div 10) * 10 + of_nat (n mod 10)"
      using 1 by (subst dec.simps) (simp add: last)
    also have "\<dots> = of_nat (n div 10 * 10 + n mod 10)" by (simp only: of_nat_add of_nat_mult of_nat_numeral)
    finally show ?thesis by simp
  qed
qed

lemma digit_chars:
  "is_digit c \<Longrightarrow> c \<noteq> NL \<and> c \<noteq> NUL \<and> \<not> blank c \<and> \<not> is_separator c"
  by (auto simp: is_digit_def blank_def is_separator_def ord_def)

lemma separator_chars:
  "is_separator c \<Longrightarrow> \<not> is_digit c \<and> c \<noteq> CHR ''l'' \<and> c \<noteq> CHR ''L'' \<and> c \<noteq> CHR ''x'' \<and>
    c \<noteq> CHR ''X'' \<and> c \<noteq> CHR ''b'' \<and> c \<noteq> CHR ''B''"
  by (auto simp: is_separator_def is_digit_def ord_def)


lemma digit_no_operator:
  "is_digit c \<Longrightarrow> c \<notin> {CHR ''('', CHR '')'', CHR '','', CHR '';'', CHR ''&'', CHR ''*'', CHR ''+'', CHR ''-'',
     CHR ''/'', CHR ''<'', CHR ''>'', CHR ''|'', CHR ''%'', CHR 0x7E, CHR ''^'', CHR ''='', CHR 0x27, CHR 0x22}"
  by (auto simp: is_digit_def ord_def)

lemma operator_digit:
  assumes "rest self (c # s)" and "is_digit c"
  shows "token_operator self = token_proc_number self"
proof -
  have "token_prev_char (adv (Suc 0) self) = self"
    using prev_char [of self 0] not_eof [OF assms(1)] by simp
  then show ?thesis
    using digit_no_operator [OF assms(2)] next_char [OF assms(1)] digit_chars [OF assms(2)] assms(2)
    by (simp add: token_operator_def)
qed

lemma proc_zero:
  assumes "rest self (CHR ''0'' # c # s)" and "is_separator c" and "c \<noteq> NL"
  shows "token_proc_number self =
    Some ((adv (Suc 0) self)\<lparr>tk_value := 0, current_token := finsh_token_type_value_int\<rparr>)"
proof -
  have "token_next_char (adv (Suc 0) self) = (c, adv (Suc (Suc 0)) self)"
    using next_char [OF rest_Cons [OF assms(1)] assms(3)] by simp
  moreover have "token_next_char self = (CHR ''0'', adv (Suc 0) self)"
    by (rule next_char [OF assms(1)]) simp
  moreover have "token_prev_char (adv (Suc (Suc 0)) self) = adv (Suc 0) self"
    using prev_char [of self "Suc 0"] not_eof [OF assms(1)] by simp
  moreover have "\<not> (ord (CHR ''0'') \<le> ord c \<and> ord c \<le> ord (CHR ''7''))"
    using separator_chars [OF assms(2)] by (auto simp: is_digit_def ord_def)
  ultimately show ?thesis
    using separator_chars [OF assms(2)] by (auto simp: token_proc_number_def)
qed

lemma proc_decimal:
  assumes "rest self (dec n @ c # s)" and "\<not> is_digit c" and "c \<noteq> NL" and "0 < n"
  shows "token_proc_number self =
    Some (number_suffix c ((adv (Suc (length (dec n))) self)\<lparr>tk_value := of_nat n,
      current_token := finsh_token_type_value_int\<rparr>))"
proof -
  obtain d ds where d: "dec n = d # ds" using dec_Cons by (cases "dec n") auto
  have dig: "is_digit d" "\<forall>c \<in> set ds. is_digit c" "d \<noteq> CHR ''0''"
    using dec_digits [of n] dec_hd [OF assms(4)] d by auto
  have r: "rest self (d # ds @ c # s)" using assms(1) d by simp
  have "token_next_char self = (d, adv (Suc 0) self)"
    using next_char [OF r] digit_chars [OF dig(1)] by simp
  moreover have "scan_while is_digit d (adv (Suc 0) self) =
      (d # ds, c, adv (Suc (length ds)) (adv (Suc 0) self))"
    using dig digit_chars assms(2,3) by (intro scan_while_chars [OF rest_Cons [OF r]]) auto
  moreover have "fold decimal_step (d # ds) 0 = of_nat n" using dec_value [of n] d by simp
  ultimately show ?thesis using d dig(3) by (simp add: token_proc_number_def)
qed

lemma number_ok:
  assumes "rest self (lexeme_text x @ s)" and "x = Num n \<or> x = LNum n" and "lexeme_ok x" and "apart x s"
  shows "\<exists>self'. token_operator self = Some self' \<and> read_lexeme x s self self'"
proof -
  have of_unat: "(of_nat (unat n) :: u32) = n" by simp
  have nz: "0 < unat n" if "n \<noteq> 0" using that by (simp add: unat_gt_0)
  obtain c s' where s: "s = c # s'" "c \<noteq> NL" using assms(2,4) by (cases s) auto
  have op: "token_operator self = token_proc_number self"
    using assms(1,2) dec_digits [of "unat n"] dec_Cons [of "unat n"]
    by (cases "dec (unat n)") (auto intro: operator_digit)
  note e = not_eof [OF assms(1)]
  consider "x = Num n" "n = 0" | "x = Num n" "n \<noteq> 0" | "x = LNum n" "n \<noteq> 0"
    using assms(2,3) by auto
  then show ?thesis
  proof cases
    case 1
    have "rest self (CHR ''0'' # c # s')" "is_separator c"
      using assms(1,4) 1 s by (auto simp: dec_zero)
    then show ?thesis
      using proc_zero s op 1 rest_Cons by (fastforce simp: read_lexeme_def)
  next
    case 2
    have r: "rest self (dec (unat n) @ c # s')" and sep: "is_separator c"
      using assms(1,4) 2 s by auto
    have "token_proc_number self = Some ((adv (length (dec (unat n))) self)\<lparr>tk_value := n,
        current_token := finsh_token_type_value_int\<rparr>)"
      using proc_decimal [OF r _ s(2) nz [OF 2(2)]] separator_chars [OF sep] e
      by (simp add: number_suffix_def adv_def token_prev_char_def)
    then show ?thesis using op rest_adv [OF r] 2 s by (simp add: read_lexeme_def)
  next
    case 3
    have r: "rest self (dec (unat n) @ CHR ''l'' # s)" using assms(1) 3 by simp
    have "token_proc_number self = Some ((adv (Suc (length (dec (unat n)))) self)\<lparr>tk_value := n,
        current_token := finsh_token_type_value_long\<rparr>)"
      using proc_decimal [OF r _ _ nz [OF 3(2)]]
      by (simp add: number_suffix_def is_digit_def ord_def)
    then show ?thesis
      using op rest_adv [of self "dec (unat n) @ ''l''" s] r 3 by (simp add: read_lexeme_def)
  qed
qed


lemma char_ok:
  assumes "rest self (CHR 0x27 # c # CHR 0x27 # s)" and "c \<noteq> CHR 0x5C" and "c \<noteq> NL"
  shows "\<exists>self'. token_operator self = Some self' \<and> read_lexeme (Chr c) s self self'"
proof -
  have r: "rest (adv (Suc 0) self) (c # CHR 0x27 # s)" "rest (adv (Suc (Suc 0)) self) (CHR 0x27 # s)"
    "rest (adv (Suc (Suc (Suc 0))) self) s"
    using rest_Cons [OF assms(1)] rest_Cons [OF rest_Cons [OF assms(1)]]
      rest_Cons [OF rest_Cons [OF rest_Cons [OF assms(1)]]] by simp_all
  have "token_next_char self = (CHR 0x27, adv (Suc 0) self)"
    by (rule next_char [OF assms(1)]) simp
  moreover have "token_next_char (adv (Suc 0) self) = (c, adv (Suc (Suc 0)) self)"
    using next_char [OF r(1) assms(3)] by simp
  moreover have "token_next_char (adv (Suc (Suc 0)) self) = (CHR 0x27, adv (Suc (Suc (Suc 0))) self)"
    using next_char [OF r(2)] by simp
  ultimately show ?thesis
    using r(3) assms(2)
    by (simp add: token_operator_def token_proc_char_def read_lexeme_def)
qed

subsection \<open>Any lexeme\<close>

lemma operator_char:
  "op_text t \<noteq> [] \<Longrightarrow> is_separator (hd (op_text t)) \<and> \<not> blank (hd (op_text t))"
  by (cases t) (simp_all add: is_separator_def is_digit_def ord_def blank_def)

lemma quote_char: "is_separator (CHR 0x27) \<and> \<not> blank (CHR 0x27)"
  by (simp add: is_separator_def is_digit_def ord_def blank_def)

lemma key_ok:
  assumes "t \<in> snd ` set finsh_name_table"
  shows "word_text (lexeme_text (Key t)) \<and> map_of finsh_name_table (lexeme_text (Key t)) = Some t"
  using assms by (auto simp: finsh_name_table_def word_text_def is_separator_def is_digit_def ord_def)

lemma apart_word:
  "apart x s \<Longrightarrow> x = Word w \<or> x = Key t \<Longrightarrow> s \<noteq> [] \<and> hd s \<noteq> NL \<and> is_separator (hd s)"
  by (cases s) auto

lemma read_lexeme_no_word:
  fixes self :: "'a finsh_token_scheme"
  assumes "rest self (bs @ c # tail)" and "c # tail = lexeme_text x @ s" and "\<forall>b \<in> set bs. blank b"
    and "\<not> blank c" and "c \<noteq> NL" and "is_separator c \<or> is_digit c"
    and "\<And>self :: 'a finsh_token_scheme. rest self (lexeme_text x @ s) \<Longrightarrow>
      \<exists>self'. token_operator self = Some self' \<and> read_lexeme x s self self'"
  shows "\<exists>self'. token_run self = Some self' \<and> read_lexeme x s self self'"
proof -
  let ?self = "adv (length bs) self"
  have r: "rest ?self (c # tail)" using rest_adv [OF assms(1)] .
  have "token_run self = token_operator (?self\<lparr>tk_string := (tk_string ?self)[0 := NUL]\<rparr>)"
    using trim_space [OF assms(1,3,4,5)] not_eof [OF r]
    by (intro get_no_word [OF r assms(5,6)]) simp_all
  moreover have "rest (?self\<lparr>tk_string := (tk_string ?self)[0 := NUL]\<rparr>) (lexeme_text x @ s)"
    using r assms(2) by (simp add: rest_def)
  from assms(7) [OF this] obtain self' where
    "token_operator (?self\<lparr>tk_string := (tk_string ?self)[0 := NUL]\<rparr>) = Some self'"
    "read_lexeme x s (?self\<lparr>tk_string := (tk_string ?self)[0 := NUL]\<rparr>) self'" by blast
  ultimately show ?thesis by (auto simp: read_lexeme_def)
qed

lemma token_run_lexeme:
  assumes "rest self (bs @ lexeme_text x @ s)" and "\<forall>b \<in> set bs. blank b" and "lexeme_ok x"
    and "apart x s"
  shows "\<exists>self'. token_run self = Some self' \<and> read_lexeme x s self self'"
proof (cases x)
  case (Word w)
  then show ?thesis
    using token_run_word [of self bs w s] apart_word [OF assms(4)] assms
    by (fastforce simp: read_lexeme_def)
next
  case (Key t)
  then show ?thesis
    using token_run_word [of self bs "lexeme_text (Key t)" s] apart_word [OF assms(4)] assms
      key_ok [of t]
    by (fastforce simp: read_lexeme_def)
next
  case (Num n)
  obtain c cs where "lexeme_text x = c # cs" "is_digit c"
    using Num dec_Cons [of "unat n"] dec_digits [of "unat n"] by (cases "dec (unat n)") auto
  then show ?thesis
    using assms digit_chars Num number_ok [of _ x s n]
    by - (rule read_lexeme_no_word [where c = c and tail = "cs @ s" and bs = bs], auto)
next
  case (LNum n)
  obtain c cs where "lexeme_text x = c # cs" "is_digit c"
    using LNum dec_Cons [of "unat n"] dec_digits [of "unat n"] by (cases "dec (unat n)") auto
  then show ?thesis
    using assms digit_chars LNum number_ok [of _ x s n]
    by - (rule read_lexeme_no_word [where c = c and tail = "cs @ s" and bs = bs], auto)
next
  case (Chr c)
  then show ?thesis
    using assms quote_char char_ok [of _ c s]
    by (intro read_lexeme_no_word [where c = "CHR 0x27" and tail = "c # CHR 0x27 # s" and bs = bs]) auto
next
  case (Op t)
  then obtain c cs where "op_text t = c # cs" using assms(3) by (cases "op_text t") auto
  then show ?thesis
    using assms operator_char [of t] op_text_NL [of t] Op operator_ok [of _ t s]
    by (intro read_lexeme_no_word [where c = c and tail = "cs @ s" and bs = bs]) auto
qed


subsection \<open>What a scanner has before it\<close>

definition ahead :: "'a finsh_token_scheme \<Rightarrow> lexeme list \<Rightarrow> bool" where
  "ahead self xs \<longleftrightarrow>
     (if tk_replay self
      then \<exists>x ys s. xs = x # ys \<and> current_token self = kind x \<and> payload x self \<and> rest self s \<and>
        spelled ys s
      else \<exists>s. rest self s \<and> spelled xs s)"

definition taken ::
    "lexeme \<Rightarrow> lexeme list \<Rightarrow> 'a finsh_token_scheme \<Rightarrow> 'a finsh_token_scheme \<Rightarrow> bool" where
  "taken x xs self self' \<longleftrightarrow>
     ahead self' xs \<and> ahead (finsh_token_replay self') (x # xs) \<and> payload x self' \<and>
     global_errno self' = global_errno self \<and> finsh_token.more self' = finsh_token.more self"

lemma payload_token [simp]:
  "payload x (self\<lparr>tk_replay := r\<rparr>) = payload x self"
  "payload x (self\<lparr>global_errno := e\<rparr>) = payload x self"
  by (cases x; simp)+

lemma next_lexeme:
  assumes "ahead self (x # xs)"
  shows "\<exists>self'. finsh_token_token self = Some (kind x, self') \<and> taken x xs self self'"
proof (cases "tk_replay self")
  case True
  then show ?thesis
    using assms by (auto simp: ahead_def taken_def finsh_token_token_def finsh_token_replay_def)
next
  case False
  then obtain s where r: "rest self s" and "spelled (x # xs) s" using assms by (auto simp: ahead_def)
  from this(2) obtain bs s' where s: "s = bs @ lexeme_text x @ s'" "\<forall>b \<in> set bs. blank b"
      "lexeme_ok x" "apart x s'" "spelled xs s'"
    by (rule spelled_ConsE) auto
  from token_run_lexeme [OF r [unfolded s(1)] s(2,3,4)] obtain self' where
    "token_run self = Some self'" "read_lexeme x s' self self'" by blast
  then show ?thesis
    using False s(5)
    by (auto simp: read_lexeme_def taken_def finsh_token_token_def finsh_token_replay_def ahead_def)
qed

lemma next_end:
  assumes "ahead self []"
  shows "\<exists>self'. finsh_token_token self = Some (finsh_token_type_eof, self') \<and>
    global_errno self' = global_errno self \<and> finsh_token.more self' = finsh_token.more self"
proof -
  have r: "rest self []" "\<not> tk_replay self" using assms by (auto simp: ahead_def split: if_splits)
  let ?self = "self\<lparr>tk_eof := True, tk_position := 0\<rparr>"
  have "token_next_char self = (NUL, ?self)"
    using r by (simp add: token_next_char_def rest_def)
  moreover have "\<not> blank NUL" by (simp add: blank_def)
  ultimately have "token_trim_space self = ?self"
    by (simp add: trim_space_blank scan_while_none [of blank] token_prev_char_def)
  then have "token_run self = Some (?self\<lparr>current_token := finsh_token_type_eof\<rparr>)"
    by (simp add: token_run_def token_get_string_def token_next_char_def)
  then show ?thesis using r(2) by (simp add: finsh_token_token_def)
qed

lemma token_init_ahead:
  "spelled xs line \<Longrightarrow> ahead (finsh_token_init line self) xs"
  by (auto simp: ahead_def finsh_token_init_def rest_def)

end
