(* ===== verification/FinshGrammar.thy ===== *)
theory FinshGrammar
  imports FinshLex FinshParser
begin

text \<open>
  The expressions a line of the shell can spell, and that the parser reads them as they are meant.
  The parser has no parentheses but those of calls and casts, so an expression can be written only if
  its operators bind the way the tree has them: \<open>rank\<close> is how loosely an expression binds (0 for a
  primary or a prefix operator, 1 to 6 for the binary operators, 7 for an assignment), \<open>written\<close>
  says that no parentheses are needed and that every name is found.
\<close>

subsection \<open>How an expression is written\<close>

fun bop_token :: "bop \<Rightarrow> finsh_token_type" where
  "bop_token Add = finsh_token_type_add"
| "bop_token Sub = finsh_token_type_sub"
| "bop_token Mul = finsh_token_type_mul"
| "bop_token Div = finsh_token_type_div"
| "bop_token Mod = finsh_token_type_mod"
| "bop_token And = finsh_token_type_and"
| "bop_token Or = finsh_token_type_or"
| "bop_token Xor = finsh_token_type_xor"
| "bop_token Shl = finsh_token_type_shl"
| "bop_token Shr = finsh_token_type_shr"

fun bop_rank :: "bop \<Rightarrow> nat" where
  "bop_rank Mul = 1" | "bop_rank Div = 1" | "bop_rank Mod = 1"
| "bop_rank Add = 2" | "bop_rank Sub = 2" | "bop_rank Shl = 3" | "bop_rank Shr = 3"
| "bop_rank And = 4" | "bop_rank Xor = 5" | "bop_rank Or = 6"

definition negation :: "bop \<Rightarrow> fexp \<Rightarrow> bool" where
  "negation op a \<longleftrightarrow> op = Sub \<and> a = ELong 0"

fun rank :: "fexp \<Rightarrow> nat" where
  "rank (EBin op a b) = (if negation op a then 0 else bop_rank op)"
| "rank (EAssign p b) = 7"
| "rank (EStore a b) = 7"
| "rank _ = 0"

fun place_name :: "finsh_var list \<Rightarrow> place \<Rightarrow> string" where
  "place_name vs (Var i) = fv_name (vs ! i)"
| "place_name vs (Sysvar sv) = sysvar_name sv"

definition incr_token :: "bop \<Rightarrow> finsh_token_type" where
  "incr_token op = (if op = Add then finsh_token_type_inc else finsh_token_type_dec)"

fun lexemes :: "finsh_var list \<Rightarrow> fexp \<Rightarrow> lexeme list" where
  "lexemes vs (EChar c) = [Chr (char_of (unat c))]"
| "lexemes vs (EInt n) = [Num n]"
| "lexemes vs (ELong n) = [LNum n]"
| "lexemes vs (EPlace p) = [Word (place_name vs p)]"
| "lexemes vs (EBin op a b) =
     (if negation op a then Op finsh_token_type_sub # lexemes vs b
      else lexemes vs a @ Op (bop_token op) # lexemes vs b)"
| "lexemes vs (ECompl a) = Op finsh_token_type_bitwise # lexemes vs a"
| "lexemes vs (EAssign p b) =
     Word (place_name vs p) # Op finsh_token_type_assign # lexemes vs b"
| "lexemes vs (EIncr pre op i) =
     (if pre then [Op (incr_token op), Word (place_name vs (Var i))]
      else [Word (place_name vs (Var i)), Op (incr_token op)])"
| "lexemes vs (ECall sc es) =
     Word (syscall_name sc) # Op finsh_token_type_left_paren #
     tl (concat (map (\<lambda>e. Op finsh_token_type_comma # lexemes vs e) es)) @
     [Op finsh_token_type_right_paren]"
| "lexemes vs (EDeref a) = Op finsh_token_type_mul # lexemes vs a"
| "lexemes vs (EStore a b) =
     Op finsh_token_type_mul # lexemes vs a @ Op finsh_token_type_assign # lexemes vs b"
| "lexemes vs (EAddr p) = [Op finsh_token_type_and, Word (place_name vs p)]"

definition found :: "finsh_parser \<Rightarrow> string \<Rightarrow> u8 \<times> fnode_id \<Rightarrow> bool" where
  "found self w x \<longleftrightarrow> length w < FINSH_NAME_MAX \<and>
     (case finsh_var_lookup w (global_variables self) of
        Some i \<Rightarrow> x = (FINSH_IDTYPE_VAR, id_var i)
      | None \<Rightarrow>
          (case finsh_sysvar_lookup w (sysvar_table self) (global_sysvar_list self) of
             Some sv \<Rightarrow> x = (FINSH_IDTYPE_SYSVAR, id_sysvar sv)
           | None \<Rightarrow>
               (case finsh_syscall_lookup w (syscall_table self) (global_syscall_list self) of
                  Some sc \<Rightarrow> x = (FINSH_IDTYPE_SYSCALL, id_syscall sc)
                | None \<Rightarrow> False)))"

fun place_id :: "place \<Rightarrow> u8 \<times> fnode_id" where
  "place_id (Var i) = (FINSH_IDTYPE_VAR, id_var i)"
| "place_id (Sysvar sv) = (FINSH_IDTYPE_SYSVAR, id_sysvar sv)"

definition place_found :: "finsh_parser \<Rightarrow> place \<Rightarrow> bool" where
  "place_found self p \<longleftrightarrow> found self (place_name (global_variables self) p) (place_id p)"

fun written :: "finsh_parser \<Rightarrow> fexp \<Rightarrow> bool" where
  "written self (EPlace p) = place_found self p"
| "written self (EBin op a b) =
     (written self b \<and>
      (if negation op a then rank b = 0
       else written self a \<and> rank a \<le> bop_rank op \<and> rank b < bop_rank op))"
| "written self (ECompl a) = (written self a \<and> rank a = 0)"
| "written self (EAssign p b) = (place_found self p \<and> written self b)"
| "written self (EIncr pre op i) = (place_found self (Var i) \<and> (op = Add \<or> op = Sub))"
| "written self (ECall sc es) =
     (found self (syscall_name sc) (FINSH_IDTYPE_SYSCALL, id_syscall sc) \<and>
      (\<forall>e \<in> set es. written self e))"
| "written self (EDeref a) = (written self a \<and> rank a = 0)"
| "written self (EStore a b) = (written self a \<and> rank a = 0 \<and> written self b)"
| "written self (EAddr p) = place_found self p"
| "written self _ = True"

text \<open>The nodes an expression takes, and a number of rounds that is enough to parse it.\<close>

fun tree_nodes :: "finsh_node \<Rightarrow> nat" where
  "tree_nodes (Node t d ity v x cs) = Suc (sum_list (map tree_nodes cs))"

fun rounds :: "fexp \<Rightarrow> nat" where
  "rounds (EBin op a b) = Suc (rounds a + rounds b)"
| "rounds (ECompl a) = Suc (rounds a)"
| "rounds (EAssign p b) = rounds b + 4"
| "rounds (ECall sc es) = sum_list (map rounds es) + 5"
| "rounds (EDeref a) = Suc (rounds a)"
| "rounds (EStore a b) = rounds a + rounds b + 4"
| "rounds _ = 4"

subsection \<open>The state of the parser\<close>

text \<open>Of the parser's own state an expression only changes the number of nodes in use.\<close>

definition grown :: "nat \<Rightarrow> finsh_parser \<Rightarrow> finsh_parser \<Rightarrow> bool" where
  "grown k self self' \<longleftrightarrow>
     global_errno self' = global_errno self \<and>
     finsh_token.more self' = finsh_token.more (self\<lparr>node_count := node_count self + k\<rparr>)"

lemma more_tables:
  "finsh_token.more (s :: finsh_parser) = finsh_token.more (t\<lparr>node_count := k\<rparr>) \<Longrightarrow>
   node_count s = k \<and> global_variables s = global_variables t \<and> sysvar_table s = sysvar_table t \<and>
   global_sysvar_list s = global_sysvar_list t \<and> syscall_table s = syscall_table t \<and>
   global_syscall_list s = global_syscall_list t \<and> string_heap s = string_heap t \<and>
   finsh_heap_base s = finsh_heap_base t \<and> global_variable_base s = global_variable_base t \<and>
   parser_ram s = parser_ram t"
  by (cases s; cases t) simp

lemma grown_tables:
  assumes "grown k s t"
  shows "global_variables t = global_variables s" "sysvar_table t = sysvar_table s"
    "global_sysvar_list t = global_sysvar_list s" "syscall_table t = syscall_table s"
    "global_syscall_list t = global_syscall_list s" "node_count t = node_count s + k"
    "string_heap t = string_heap s" "finsh_heap_base t = finsh_heap_base s"
    "global_variable_base t = global_variable_base s" "parser_ram t = parser_ram s"
    "global_errno t = global_errno s"
  using more_tables assms unfolding grown_def by blast+

lemma grown_refl: "grown 0 s s"
  by (simp add: grown_def)

lemma grown_trans: "grown j s t \<Longrightarrow> grown k t u \<Longrightarrow> grown (j + k) s u"
  unfolding grown_def by (cases s; cases t; cases u) auto

lemma grown_found:
  assumes "grown k s t"
  shows "found t = found s" "place_found t = place_found s"
proof -
  show "found t = found s"
    by (intro ext) (simp only: found_def grown_tables [OF assms])
  then show "place_found t = place_found s"
    by (intro ext) (simp only: place_found_def grown_tables [OF assms])
qed

lemma grown_written: "grown k s t \<Longrightarrow> written t e = written s e"
  by (induction e) (simp_all add: grown_found)


text \<open>What a function of the parser does when it reads the nodes \<open>k\<close> of an expression.\<close>

definition yields_node ::
    "('r \<times> finsh_parser) option \<Rightarrow> 'r \<Rightarrow> nat \<Rightarrow> finsh_parser \<Rightarrow> lexeme list \<Rightarrow> bool" where
  "yields_node out r k self xs \<longleftrightarrow>
     (\<exists>self'. out = Some (r, self') \<and> grown k self self' \<and> ahead self' xs)"

lemma next_token:
  assumes "ahead self (x # xs)"
  obtains self' where "finsh_token_token self = Some (kind x, self')" "grown 0 self self'"
    "ahead self' xs" "ahead (finsh_token_replay self') (x # xs)"
    "grown 0 self (finsh_token_replay self')" "payload x self'"
proof -
  from next_lexeme [OF assms] obtain self' where s:
    "finsh_token_token self = Some (kind x, self')" "taken x xs self self'" by blast
  then have "grown 0 self self'" by (simp add: taken_def grown_def)
  moreover from this have "grown 0 self (finsh_token_replay self')"
    by (cases self') (simp add: grown_def finsh_token_replay_def)
  ultimately show ?thesis using that s by (auto simp: taken_def)
qed

lemma ahead_node_count [simp]: "ahead (self\<lparr>node_count := k\<rparr>) xs = ahead self xs"
proof -
  have "payload x (self\<lparr>node_count := k\<rparr>) = payload x self" for x by (cases x) simp_all
  then show ?thesis by (simp add: ahead_def rest_def)
qed

lemma make_sys_node_grown:
  assumes "grown k self self'" and "node_count self + k < FINSH_NODE_MAX"
    and "ahead self' xs"
  obtains self'' where "make_sys_node t (Some n) ns self' = (Some (sys_node t (n # ns)), self'')"
    "grown (Suc k) self self''" "ahead self'' xs"
proof -
  have "node_count self' \<noteq> FINSH_NODE_MAX" using grown_tables(6) [OF assms(1)] assms(2) by simp
  moreover have "grown 1 self' (self'\<lparr>node_count := node_count self' + 1\<rparr>)" by (simp add: grown_def)
  ultimately show ?thesis
    using grown_trans [OF assms(1)] assms(3) that
    by (fastforce simp: make_sys_node_def finsh_node_allocate_def sys_node_def)
qed

lemma new_node_grown:
  assumes "grown k self self'" and "node_count self + k < FINSH_NODE_MAX"
    and "ahead self' xs"
  obtains self'' where "new_node n self' = (Some n, self'')" "grown (Suc k) self self''"
    "ahead self'' xs"
proof -
  have "node_count self' \<noteq> FINSH_NODE_MAX" using grown_tables(6) [OF assms(1)] assms(2) by simp
  moreover have "grown 1 self' (self'\<lparr>node_count := node_count self' + 1\<rparr>)" by (simp add: grown_def)
  ultimately show ?thesis
    using grown_trans [OF assms(1)] assms(3) that
    by (fastforce simp: new_node_def finsh_node_allocate_def)
qed

lemma new_id_found:
  assumes "found self w (ty, x)"
  shows "finsh_node_new_id w self = Some (new_node (Node FINSH_NODE_ID 0 ty 0 x []) self)"
  using assms by (auto simp: found_def finsh_node_new_id_def split: option.splits)


subsection \<open>Primaries and prefix operators\<close>

text \<open>Which tokens go on with an expression of rank \<open>d\<close>.\<close>

fun token_rank :: "finsh_token_type \<Rightarrow> nat option" where
  "token_rank finsh_token_type_inc = Some 0"
| "token_rank finsh_token_type_dec = Some 0"
| "token_rank finsh_token_type_left_paren = Some 0"
| "token_rank finsh_token_type_mul = Some 1"
| "token_rank finsh_token_type_div = Some 1"
| "token_rank finsh_token_type_mod = Some 1"
| "token_rank finsh_token_type_sub = Some 2"
| "token_rank finsh_token_type_add = Some 2"
| "token_rank finsh_token_type_shl = Some 3"
| "token_rank finsh_token_type_shr = Some 3"
| "token_rank finsh_token_type_and = Some 4"
| "token_rank finsh_token_type_xor = Some 5"
| "token_rank finsh_token_type_or = Some 6"
| "token_rank finsh_token_type_assign = Some 7"
| "token_rank _ = None"

definition stops :: "nat \<Rightarrow> lexeme \<Rightarrow> bool" where
  "stops d y \<longleftrightarrow> (case token_rank (kind y) of None \<Rightarrow> True | Some r \<Rightarrow> d < r)"

lemma stops_mono: "stops d y \<Longrightarrow> c \<le> d \<Longrightarrow> stops c y"
  by (auto simp: stops_def split: option.splits)

definition reads :: "node_proc \<Rightarrow> nat \<Rightarrow> fexp \<Rightarrow> bool" where
  "reads P d e \<longleftrightarrow>
     (\<forall>self y xs. written self e \<longrightarrow> ahead self (lexemes (global_variables self) e @ y # xs) \<longrightarrow>
        stops d y \<longrightarrow> node_count self + tree_nodes (node_of e) \<le> FINSH_NODE_MAX \<longrightarrow>
        yields_node (P self) (Some (node_of e)) (tree_nodes (node_of e)) self (y # xs))"

lemma readsD:
  assumes "reads P d e" "written self e" "ahead self (lexemes (global_variables self) e @ y # xs)"
    "stops d y" "node_count self + tree_nodes (node_of e) \<le> FINSH_NODE_MAX"
  obtains self' where "P self = Some (Some (node_of e), self')"
    "grown (tree_nodes (node_of e)) self self'" "ahead self' (y # xs)"
  using assms unfolding reads_def yields_node_def by blast

lemma cast_step_unary:
  assumes "ahead self (x # xs)" and "kind x \<noteq> finsh_token_type_left_paren"
  obtains self' self'' where "cast_step n c a self = proc_unary_expr n c a self'"
    "finsh_token_token self' = Some (kind x, self'')" "grown 0 self self''" "ahead self'' xs"
    "ahead (finsh_token_replay self'') (x # xs)" "grown 0 self (finsh_token_replay self'')"
proof -
  from next_token [OF assms(1)] obtain t where t: "finsh_token_token self = Some (kind x, t)"
    "grown 0 self (finsh_token_replay t)" "ahead (finsh_token_replay t) (x # xs)" by blast
  from next_token [OF t(3)] obtain u where u:
    "finsh_token_token (finsh_token_replay t) = Some (kind x, u)" "grown 0 (finsh_token_replay t) u"
    "ahead u xs" "ahead (finsh_token_replay u) (x # xs)"
    "grown 0 (finsh_token_replay t) (finsh_token_replay u)" by blast
  show ?thesis
    using that [of "finsh_token_replay t" u] t u assms(2) grown_trans [OF t(2) u(2)]
      grown_trans [OF t(2) u(5)]
    by (simp add: cast_step_def)
qed

fun prefix_node :: "finsh_token_type \<Rightarrow> fnode_type option" where
  "prefix_node finsh_token_type_inc = Some FINSH_NODE_SYS_PREINC"
| "prefix_node finsh_token_type_dec = Some FINSH_NODE_SYS_PREDEC"
| "prefix_node finsh_token_type_bitwise = Some FINSH_NODE_SYS_BITWISE"
| "prefix_node finsh_token_type_mul = Some FINSH_NODE_SYS_GETVALUE"
| "prefix_node finsh_token_type_and = Some FINSH_NODE_SYS_GETADDR"
| "prefix_node _ = None"

lemma cast_step_prefix:
  assumes "ahead self (x # lexemes (global_variables self) e @ y # xs)" and "prefix_node (kind x) = Some t"
    and "reads c 0 e" and "written self e" and "stops 0 y"
    and "node_count self + tree_nodes (node_of e) < FINSH_NODE_MAX"
  shows "yields_node (cast_step n c a self) (Some (sys_node t [node_of e]))
    (Suc (tree_nodes (node_of e))) self (y # xs)"
proof -
  have "kind x \<noteq> finsh_token_type_left_paren" using assms(2) by auto
  from cast_step_unary [OF assms(1) this] obtain self' u where u:
    "cast_step n c a self = proc_unary_expr n c a self'"
    "finsh_token_token self' = Some (kind x, u)" "grown 0 self u"
    "ahead u (lexemes (global_variables self) e @ y # xs)" by blast
  from u(3,4) assms(4,6) have "written u e" "ahead u (lexemes (global_variables u) e @ y # xs)"
    "node_count u + tree_nodes (node_of e) \<le> FINSH_NODE_MAX"
    by (simp_all add: grown_written grown_tables)
  from readsD [OF assms(3) this(1,2) assms(5) this(3)] obtain v where v:
    "c u = Some (Some (node_of e), v)" "grown (tree_nodes (node_of e)) u v" "ahead v (y # xs)" .
  have g: "grown (tree_nodes (node_of e)) self v" using grown_trans [OF u(3) v(2)] by simp
  from make_sys_node_grown [OF g assms(6) v(3)] obtain w where w:
    "make_sys_node t (Some (node_of e)) [] v = (Some (sys_node t [node_of e]), w)"
    "grown (Suc (tree_nodes (node_of e))) self w" "ahead w (y # xs)" .
  then show ?thesis
    using u(1,2) v(1) assms(2) unfolding yields_node_def
    by (cases "kind x") (auto simp: proc_unary_expr_def)
qed


lemma cast_step_negation:
  assumes "ahead self (Op finsh_token_type_sub # lexemes (global_variables self) e @ y # xs)"
    and "reads c 0 e" and "written self e" and "stops 0 y"
    and "node_count self + tree_nodes (node_of e) + 1 < FINSH_NODE_MAX"
  shows "yields_node (cast_step n c a self) (Some (sys_node FINSH_NODE_SYS_SUB [node_of (ELong 0), node_of e]))
    (tree_nodes (node_of e) + 2) self (y # xs)"
proof -
  have "kind (Op finsh_token_type_sub) \<noteq> finsh_token_type_left_paren" by simp
  from cast_step_unary [OF assms(1) this] obtain self' u where u:
    "cast_step n c a self = proc_unary_expr n c a self'"
    "finsh_token_token self' = Some (finsh_token_type_sub, u)" "grown 0 self u"
    "ahead u (lexemes (global_variables self) e @ y # xs)" by (metis kind.simps(6))
  from u(3,4) assms(3,5) have "written u e" "ahead u (lexemes (global_variables u) e @ y # xs)"
    "node_count u + tree_nodes (node_of e) \<le> FINSH_NODE_MAX"
    by (simp_all add: grown_written grown_tables)
  from readsD [OF assms(2) this(1,2) assms(4) this(3)] obtain v where v:
    "c u = Some (Some (node_of e), v)" "grown (tree_nodes (node_of e)) u v" "ahead v (y # xs)" .
  have g: "grown (tree_nodes (node_of e)) self v" using grown_trans [OF u(3) v(2)] by simp
  from assms(5) have m: "node_count self + tree_nodes (node_of e) < FINSH_NODE_MAX"
    "node_count self + Suc (tree_nodes (node_of e)) < FINSH_NODE_MAX" by simp_all
  from new_node_grown [OF g m(1) v(3)] obtain w where w:
    "finsh_node_new_long 0 v = (Some (node_of (ELong 0)), w)"
    "grown (Suc (tree_nodes (node_of e))) self w" "ahead w (y # xs)"
    by (metis finsh_node_new_long_def node_of.simps(3))
  from make_sys_node_grown [OF w(2) m(2) w(3)] obtain z where
    "make_sys_node FINSH_NODE_SYS_SUB (Some (node_of (ELong 0))) [node_of e] w =
      (Some (sys_node FINSH_NODE_SYS_SUB [node_of (ELong 0), node_of e]), z)"
    "grown (Suc (Suc (tree_nodes (node_of e)))) self z" "ahead z (y # xs)" .
  then show ?thesis
    using u(1,2) v(1) w(1) unfolding yields_node_def by (auto simp: proc_unary_expr_def)
qed

lemma cast_step_postfix:
  assumes "ahead self (x # xs)" and "prefix_node (kind x) = None"
    and "kind x \<notin> {finsh_token_type_add, finsh_token_type_sub, finsh_token_type_left_paren}"
  obtains self' where "cast_step n c a self = proc_postfix_expr n a self'" "grown 0 self self'"
    "ahead self' (x # xs)"
proof -
  have "kind x \<noteq> finsh_token_type_left_paren" using assms(3) by simp
  from cast_step_unary [OF assms(1) this] obtain self' u where u:
    "cast_step n c a self = proc_unary_expr n c a self'" "finsh_token_token self' = Some (kind x, u)"
    "ahead (finsh_token_replay u) (x # xs)" "grown 0 self (finsh_token_replay u)" .
  then have "cast_step n c a self = proc_postfix_expr n a (finsh_token_replay u)"
    using assms(2,3) by (cases "kind x") (auto simp: proc_unary_expr_def)
  then show ?thesis using that u by blast
qed

lemma postfix_stop:
  assumes "ahead self (y # xs)" and "stops 0 y" and "grown k self0 self" and "0 < n"
  shows "yields_node (postfix_loop n a node self) node k self0 (y # xs)"
proof -
  from next_token [OF assms(1)] obtain t where t: "finsh_token_token self = Some (kind y, t)"
    "grown 0 self (finsh_token_replay t)" "ahead (finsh_token_replay t) (y # xs)" by blast
  moreover have "kind y \<notin> {finsh_token_type_inc, finsh_token_type_dec, finsh_token_type_left_paren}"
    using assms(2) by (auto simp: stops_def)
  ultimately show ?thesis
    using grown_trans [OF assms(3) t(2)] assms(4) unfolding yields_node_def by (cases n) auto
qed

lemma primary_constant:
  assumes "ahead self (lexemes vs e @ xs)" and "e = EChar b \<or> e = EInt n \<or> e = ELong n"
    and "node_count self < FINSH_NODE_MAX"
  shows "yields_node (proc_primary_expr p self) (Some (node_of e)) 1 self xs"
proof -
  obtain x where x: "lexemes vs e = [x]" using assms(2) by auto
  then have "ahead self (x # xs)" using assms(1) by simp
  from next_token [OF this] obtain t where t: "finsh_token_token self = Some (kind x, t)"
    "grown 0 self t" "ahead t xs" "payload x t" by blast
  have "node_count self + 0 < FINSH_NODE_MAX" using assms(3) by simp
  from new_node_grown [OF t(2) this t(3)] obtain u where u: "new_node (node_of e) t = (Some (node_of e), u)"
    "grown (Suc 0) self u" "ahead u xs" .
  have "ord (char_of (unat b)) = unat b"
    using unsigned_less [of b, where ?'a = nat] by (simp add: ord_def take_bit_eq_mod)
  then show ?thesis
    using assms(2) x t(1,4) u unfolding yields_node_def
    by (auto simp: proc_primary_expr_def finsh_node_new_char_def finsh_node_new_int_def
        finsh_node_new_long_def)
qed

lemma primary_word:
  assumes "ahead self (Word w # xs)" and "found self w (ty, x)" and "node_count self < FINSH_NODE_MAX"
  shows "yields_node (proc_primary_expr p self) (Some (Node FINSH_NODE_ID 0 ty 0 x [])) 1 self xs"
proof -
  from next_token [OF assms(1)] obtain t where t:
    "finsh_token_token self = Some (finsh_token_type_identifier, t)"
    "grown 0 self (finsh_token_replay t)" "ahead (finsh_token_replay t) (Word w # xs)" by auto
  from next_token [OF t(3)] obtain u where u:
    "finsh_token_token (finsh_token_replay t) = Some (finsh_token_type_identifier, u)"
    "grown 0 (finsh_token_replay t) u" "ahead u xs" "c_string (tk_string u) = Some w" by auto
  have g: "grown 0 self u" using grown_trans [OF t(2) u(2)] by simp
  have "node_count self + 0 < FINSH_NODE_MAX" using assms(3) by simp
  from new_node_grown [OF g this u(3)] obtain v where v:
    "new_node (Node FINSH_NODE_ID 0 ty 0 x []) u = (Some (Node FINSH_NODE_ID 0 ty 0 x []), v)"
    "grown (Suc 0) self v" "ahead v xs" .
  have "length w < FINSH_NAME_MAX" using assms(2) by (simp add: found_def)
  then have "proc_identifier (finsh_token_replay t) = Some (w, u)"
    using u by (simp add: proc_identifier_def match_token_def check_token_def)
  moreover have "found u w (ty, x)" using assms(2) grown_found [OF g] by simp
  ultimately show ?thesis
    using t(1) v new_id_found unfolding yields_node_def by (auto simp: proc_primary_expr_def)
qed


subsection \<open>Postfix expressions\<close>

lemma primary_first:
  assumes "ahead self (x # xs @ zs)" and "prefix_node (kind x) = None"
    and "kind x \<notin> {finsh_token_type_add, finsh_token_type_sub, finsh_token_type_left_paren}"
    and "\<And>self'. grown 0 self self' \<Longrightarrow> ahead self' (x # xs @ zs) \<Longrightarrow>
      yields_node (proc_primary_expr a self') (Some m) 1 self' zs"
  obtains self' where "cast_step n c a self = postfix_loop n a (Some m) self'" "grown 1 self self'"
    "ahead self' zs"
proof -
  from cast_step_postfix [OF assms(1,2,3)] obtain t where t:
    "cast_step n c a self = proc_postfix_expr n a t" "grown 0 self t" "ahead t (x # xs @ zs)" .
  from assms(4) [OF t(2,3)] obtain u where u: "proc_primary_expr a t = Some (Some m, u)"
    "grown 1 t u" "ahead u zs" unfolding yields_node_def by blast
  show ?thesis
    using that [of u] t(1) u grown_trans [OF t(2) u(2)] by (simp add: proc_postfix_expr_def)
qed

lemma reads_constant:
  assumes "0 < n" and "e = EChar b \<or> e = EInt i \<or> e = ELong i"
  shows "reads (cast_step n c a) 0 e"
  unfolding reads_def
proof (intro allI impI)
  fix self y xs
  assume w: "written self e" and "ahead self (lexemes (global_variables self) e @ y # xs)"
    and y: "stops 0 y" and m: "node_count self + tree_nodes (node_of e) \<le> FINSH_NODE_MAX"
  moreover obtain x where x: "lexemes (global_variables self) e = [x]" "prefix_node (kind x) = None"
    "kind x \<notin> {finsh_token_type_add, finsh_token_type_sub, finsh_token_type_left_paren}"
    using assms(2) by auto
  ultimately have h: "ahead self (x # [] @ y # xs)" by simp
  have k: "tree_nodes (node_of e) = 1" using assms(2) by auto
  have "yields_node (proc_primary_expr a s) (Some (node_of e)) 1 s (y # xs)"
    if "grown 0 self s" "ahead s (x # [] @ y # xs)" for s
    using that x(1) m k assms(2)
    by (intro primary_constant [where vs = "global_variables self"]) (auto simp: grown_tables)
  from primary_first [OF h x(2,3) this] obtain t where
    "cast_step n c a self = postfix_loop n a (Some (node_of e)) t" "grown 1 self t" "ahead t (y # xs)" .
  then show "yields_node (cast_step n c a self) (Some (node_of e)) (tree_nodes (node_of e)) self (y # xs)"
    using postfix_stop [OF _ y] assms(1) k by simp
qed

lemma word_first:
  assumes "ahead self (Word w # zs)" and "found self w (ty, x)" and "node_count self < FINSH_NODE_MAX"
  obtains self' where
    "cast_step n c a self = postfix_loop n a (Some (Node FINSH_NODE_ID 0 ty 0 x [])) self'"
    "grown 1 self self'" "ahead self' zs"
proof -
  have h: "ahead self (Word w # [] @ zs)" using assms(1) by simp
  have "yields_node (proc_primary_expr a s) (Some (Node FINSH_NODE_ID 0 ty 0 x [])) 1 s zs"
    if "grown 0 self s" "ahead s (Word w # [] @ zs)" for s
    using that assms(2,3) by (intro primary_word) (simp_all add: grown_tables grown_found)
  from primary_first [OF h _ _ this] show ?thesis using that by auto
qed

lemma place_node_id:
  "place_node 0 0 p = Node FINSH_NODE_ID 0 (fst (place_id p)) 0 (snd (place_id p)) []"
  by (cases p) simp_all

lemma reads_place:
  assumes "0 < n"
  shows "reads (cast_step n c a) 0 (EPlace p)"
  unfolding reads_def
proof (intro allI impI)
  fix self y xs
  assume "written self (EPlace p)" "ahead self (lexemes (global_variables self) (EPlace p) @ y # xs)"
    and y: "stops 0 y" and m: "node_count self + tree_nodes (node_of (EPlace p)) \<le> FINSH_NODE_MAX"
  then have w: "ahead self (Word (place_name (global_variables self) p) # y # xs)"
    "found self (place_name (global_variables self) p) (fst (place_id p), snd (place_id p))"
    "node_count self < FINSH_NODE_MAX"
    by (simp_all add: place_found_def place_node_id)
  from word_first [OF w] obtain t where
    "cast_step n c a self = postfix_loop n a (Some (place_node 0 0 p)) t" "grown 1 self t"
    "ahead t (y # xs)" by (metis place_node_id)
  then show "yields_node (cast_step n c a self) (Some (node_of (EPlace p)))
      (tree_nodes (node_of (EPlace p))) self (y # xs)"
    using postfix_stop [OF _ y] assms by (simp add: place_node_id)
qed

lemma reads_postincr:
  assumes "1 < n"
  shows "reads (cast_step n c a) 0 (EIncr False op i)"
  unfolding reads_def
proof (intro allI impI)
  let ?e = "EIncr False op i"
  fix self y xs
  assume "written self ?e" "ahead self (lexemes (global_variables self) ?e @ y # xs)"
    and y: "stops 0 y" and m: "node_count self + tree_nodes (node_of ?e) \<le> FINSH_NODE_MAX"
  then have w: "ahead self (Word (place_name (global_variables self) (Var i)) # Op (incr_token op) # y # xs)"
    "found self (place_name (global_variables self) (Var i)) (FINSH_IDTYPE_VAR, id_var i)"
    "node_count self < FINSH_NODE_MAX" "node_count self + 1 < FINSH_NODE_MAX"
    and op: "op = Add \<or> op = Sub"
    by (simp_all add: place_found_def sys_node_def)
  from word_first [OF w(1,2,3), where n = n and c = c and a = a] obtain t where t:
    "cast_step n c a self = postfix_loop n a (Some (place_node 0 0 (Var i))) t" "grown 1 self t"
    "ahead t (Op (incr_token op) # y # xs)" by auto
  from next_token [OF t(3)] obtain u where u:
    "finsh_token_token t = Some (incr_token op, u)" "grown 0 t u" "ahead u (y # xs)" by auto
  have "grown 1 self u" using grown_trans [OF t(2) u(2)] by simp
  from make_sys_node_grown [OF this w(4) u(3), where t = "incr_node False op" and ns = "[]" and
      n = "place_node 0 0 (Var i)"] obtain v where v:
    "make_sys_node (incr_node False op) (Some (place_node 0 0 (Var i))) [] u = (Some (node_of ?e), v)"
    "grown (Suc (Suc 0)) self v" "ahead v (y # xs)" by auto
  have "postfix_loop n a (Some (place_node 0 0 (Var i))) t =
      postfix_loop (n - 1) a (Some (node_of ?e)) v"
    using assms op u(1) v(1) by (cases n) (auto simp: incr_token_def incr_node_def)
  then show "yields_node (cast_step n c a self) (Some (node_of ?e)) (tree_nodes (node_of ?e)) self (y # xs)"
    using postfix_stop [OF v(3) y v(2)] t(1) assms by (simp add: sys_node_def)
qed


text \<open>Calls.\<close>

fun argument_lexemes :: "finsh_var list \<Rightarrow> fexp list \<Rightarrow> lexeme list" where
  "argument_lexemes vs es = concat (map (\<lambda>e. Op finsh_token_type_comma # lexemes vs e) es)"

lemma first_lexeme:
  "\<exists>x xs. lexemes vs e = x # xs \<and>
    kind x \<in> {finsh_token_type_value_char, finsh_token_type_value_int, finsh_token_type_value_long,
      finsh_token_type_identifier, finsh_token_type_sub, finsh_token_type_bitwise,
      finsh_token_type_inc, finsh_token_type_dec, finsh_token_type_mul, finsh_token_type_and}"
  by (induction e) (auto simp: incr_token_def)

lemma param_loop_reads:
  assumes "\<forall>e \<in> set es. reads a 7 e" and "\<forall>e \<in> set es. written self e"
    and "ahead self (argument_lexemes (global_variables self) es @ Op finsh_token_type_right_paren # xs)"
    and "length es < n"
    and "node_count self + sum_list (map (\<lambda>e. tree_nodes (node_of e)) es) \<le> FINSH_NODE_MAX"
  shows "yields_node (param_loop n a acc self) (acc @ map node_of es)
    (sum_list (map (\<lambda>e. tree_nodes (node_of e)) es)) self (Op finsh_token_type_right_paren # xs)"
  using assms
proof (induction es arbitrary: self acc n)
  case Nil
  then have "ahead self (Op finsh_token_type_right_paren # xs)" by simp
  from next_token [OF this] obtain t where "finsh_token_token self = Some (finsh_token_type_right_paren, t)"
    "grown 0 self (finsh_token_replay t)"
    "ahead (finsh_token_replay t) (Op finsh_token_type_right_paren # xs)" by auto
  then show ?case using Nil by (cases n) (auto simp: yields_node_def)
next
  case (Cons e es)
  obtain n' where n: "n = Suc n'" "length es < n'" using Cons.prems(4) by (cases n) auto
  let ?rest = "argument_lexemes (global_variables self) es @ Op finsh_token_type_right_paren # xs"
  obtain y ys where y: "?rest = y # ys" "stops 7 y" by (cases es) (auto simp: stops_def)
  have "ahead self (Op finsh_token_type_comma # lexemes (global_variables self) e @ y # ys)"
    using Cons.prems(3) y(1) by simp
  from next_token [OF this] obtain t where t: "finsh_token_token self = Some (finsh_token_type_comma, t)"
    "grown 0 self t" "ahead t (lexemes (global_variables t) e @ y # ys)" by (auto simp: grown_tables)
  have "written t e" "node_count t + tree_nodes (node_of e) \<le> FINSH_NODE_MAX" "reads a 7 e"
    using Cons.prems(1,2,5) t(2) by (simp_all add: grown_written grown_tables)
  from readsD [OF this(3,1) t(3) y(2) this(2)] obtain u where u:
    "a t = Some (Some (node_of e), u)" "grown (tree_nodes (node_of e)) t u" "ahead u (y # ys)" .
  have g: "grown (tree_nodes (node_of e)) self u" using grown_trans [OF t(2) u(2)] by simp
  have "yields_node (param_loop n' a (acc @ [node_of e]) u) ((acc @ [node_of e]) @ map node_of es)
      (sum_list (map (\<lambda>e. tree_nodes (node_of e)) es)) u (Op finsh_token_type_right_paren # xs)"
    using Cons.prems(1,2,5) u(3) y(1) n(2) g
    by (intro Cons.IH) (simp_all add: grown_written grown_tables)
  then show ?case
    using n(1) t(1) u(1) grown_trans [OF g] by (auto simp: yields_node_def)
qed

lemma arguments_read:
  assumes "\<forall>e \<in> set es. reads a 7 e" and "\<forall>e \<in> set es. written self e"
    and "ahead self (tl (argument_lexemes (global_variables self) es) @
      Op finsh_token_type_right_paren # xs)"
    and "length es < n"
    and "node_count self + sum_list (map (\<lambda>e. tree_nodes (node_of e)) es) \<le> FINSH_NODE_MAX"
  shows "yields_node (proc_arguments n a self) (map node_of es)
    (sum_list (map (\<lambda>e. tree_nodes (node_of e)) es)) self xs"
proof (cases es)
  case Nil
  then have "ahead self (Op finsh_token_type_right_paren # xs)" using assms(3) by simp
  from next_token [OF this] obtain t where
    "finsh_token_token self = Some (finsh_token_type_right_paren, t)" "grown 0 self t" "ahead t xs"
    by auto
  then show ?thesis using Nil by (simp add: yields_node_def proc_arguments_def)
next
  case (Cons e es')
  let ?rest = "argument_lexemes (global_variables self) es' @ Op finsh_token_type_right_paren # xs"
  obtain y ys where y: "?rest = y # ys" "stops 7 y" by (cases es') (auto simp: stops_def)
  have h: "ahead self (lexemes (global_variables self) e @ y # ys)"
    using assms(3) Cons y(1) by simp
  obtain x zs where x: "lexemes (global_variables self) e = x # zs"
    "kind x \<noteq> finsh_token_type_right_paren" using first_lexeme [of "global_variables self" e] by auto
  from h x(1) have "ahead self (x # zs @ y # ys)" by simp
  from next_token [OF this] obtain t where t: "finsh_token_token self = Some (kind x, t)"
    "grown 0 self (finsh_token_replay t)" "ahead (finsh_token_replay t) (x # zs @ y # ys)" by blast
  let ?t = "finsh_token_replay t"
  have "written ?t e" "node_count ?t + tree_nodes (node_of e) \<le> FINSH_NODE_MAX" "reads a 7 e"
    "ahead ?t (lexemes (global_variables ?t) e @ y # ys)"
    using assms(1,2,5) t(2,3) x(1) Cons by (simp_all add: grown_written grown_tables)
  from readsD [OF this(3,1,4) y(2) this(2)] obtain u where u:
    "a ?t = Some (Some (node_of e), u)" "grown (tree_nodes (node_of e)) ?t u" "ahead u (y # ys)" .
  have g: "grown (tree_nodes (node_of e)) self u" using grown_trans [OF t(2) u(2)] by simp
  have "yields_node (param_loop n a [node_of e] u) ([node_of e] @ map node_of es')
      (sum_list (map (\<lambda>e. tree_nodes (node_of e)) es')) u (Op finsh_token_type_right_paren # xs)"
    using assms Cons u(3) y(1) g
    by (intro param_loop_reads) (simp_all add: grown_written grown_tables)
  then obtain v where v: "param_loop n a [node_of e] u = Some (map node_of es, v)"
    "grown (sum_list (map (\<lambda>e. tree_nodes (node_of e)) es')) u v"
    "ahead v (Op finsh_token_type_right_paren # xs)" using Cons by (auto simp: yields_node_def)
  from next_token [OF v(3)] obtain w where w: "finsh_token_token v = Some (finsh_token_type_right_paren, w)"
    "grown 0 v w" "ahead w xs" by auto
  have "proc_arguments n a self = Some (map node_of es, w)"
    using t(1) x(2) u(1) v(1) w(1)
    by (simp add: proc_arguments_def proc_param_list_def match_token_def check_token_def)
  then show ?thesis
    using w(3) grown_trans [OF grown_trans [OF g v(2)] w(2)] Cons by (auto simp: yields_node_def)
qed


lemma reads_call:
  assumes "\<forall>e \<in> set es. reads a 7 e" and "length es + 2 < n"
  shows "reads (cast_step n c a) 0 (ECall sc es)"
  unfolding reads_def
proof (intro allI impI)
  let ?e = "ECall sc es" and ?k = "sum_list (map (\<lambda>e. tree_nodes (node_of e)) es)"
  fix self y xs
  assume "written self ?e" "ahead self (lexemes (global_variables self) ?e @ y # xs)"
    and y: "stops 0 y" and m: "node_count self + tree_nodes (node_of ?e) \<le> FINSH_NODE_MAX"
  then have w: "ahead self (Word (syscall_name sc) # Op finsh_token_type_left_paren #
      tl (argument_lexemes (global_variables self) es) @ Op finsh_token_type_right_paren # y # xs)"
    "found self (syscall_name sc) (FINSH_IDTYPE_SYSCALL, id_syscall sc)"
    "node_count self < FINSH_NODE_MAX" "node_count self + (1 + ?k) < FINSH_NODE_MAX"
    and es: "\<forall>e \<in> set es. written self e"
    by (simp_all add: sys_node_def syscall_node_def comp_def)
  from word_first [OF w(1,2,3), where n = n and c = c and a = a] obtain t where t:
    "cast_step n c a self = postfix_loop n a (Some (syscall_node sc)) t" "grown 1 self t"
    "ahead t (Op finsh_token_type_left_paren #
      tl (argument_lexemes (global_variables self) es) @ Op finsh_token_type_right_paren # y # xs)"
    by (auto simp: syscall_node_def)
  from next_token [OF t(3)] obtain u where u: "finsh_token_token t = Some (finsh_token_type_left_paren, u)"
    "grown 0 t u" "ahead u (tl (argument_lexemes (global_variables self) es) @
       Op finsh_token_type_right_paren # y # xs)" by auto
  have g: "grown 1 self u" using grown_trans [OF t(2) u(2)] by simp
  have "yields_node (proc_arguments (n - 1) a u) (map node_of es) ?k u (y # xs)"
    using assms es u(3) w(4) g by (intro arguments_read) (simp_all add: grown_written grown_tables)
  then obtain v where v: "proc_arguments (n - 1) a u = Some (map node_of es, v)" "grown ?k u v"
    "ahead v (y # xs)" by (auto simp: yields_node_def)
  from make_sys_node_grown [OF grown_trans [OF g v(2)] w(4) v(3)] obtain w where w:
    "make_sys_node FINSH_NODE_SYS_FUNC (Some (syscall_node sc)) (map node_of es) v = (Some (node_of ?e), w)"
    "grown (Suc (1 + ?k)) self w" "ahead w (y # xs)" by (metis node_of.simps(9))
  have "postfix_loop n a (Some (syscall_node sc)) t = postfix_loop (n - 1) a (Some (node_of ?e)) w"
    using assms(2) u(1) v(1) w(1) by (cases n) auto
  then show "yields_node (cast_step n c a self) (Some (node_of ?e)) (tree_nodes (node_of ?e)) self (y # xs)"
    using postfix_stop [OF w(3) y w(2)] t(1) assms(2)
    by (simp add: sys_node_def syscall_node_def comp_def)
qed

subsection \<open>Binary operators\<close>

text \<open>The six levels, from the tightest one on; level 0 is \<open>proc_cast_expr\<close>.\<close>

fun level_ops :: "nat \<Rightarrow> finsh_token_type \<Rightarrow> fnode_type option" where
  "level_ops (Suc 0) = [finsh_token_type_mul \<mapsto> FINSH_NODE_SYS_MUL,
     finsh_token_type_div \<mapsto> FINSH_NODE_SYS_DIV, finsh_token_type_mod \<mapsto> FINSH_NODE_SYS_MOD]"
| "level_ops (Suc (Suc 0)) = [finsh_token_type_sub \<mapsto> FINSH_NODE_SYS_SUB,
     finsh_token_type_add \<mapsto> FINSH_NODE_SYS_ADD]"
| "level_ops (Suc (Suc (Suc 0))) = [finsh_token_type_shl \<mapsto> FINSH_NODE_SYS_SHL,
     finsh_token_type_shr \<mapsto> FINSH_NODE_SYS_SHR]"
| "level_ops (Suc (Suc (Suc (Suc 0)))) = [finsh_token_type_and \<mapsto> FINSH_NODE_SYS_AND]"
| "level_ops (Suc (Suc (Suc (Suc (Suc 0))))) = [finsh_token_type_xor \<mapsto> FINSH_NODE_SYS_XOR]"
| "level_ops _ = [finsh_token_type_or \<mapsto> FINSH_NODE_SYS_OR]"

fun level_proc :: "nat \<Rightarrow> node_proc \<Rightarrow> nat \<Rightarrow> node_proc" where
  "level_proc n c 0 = c"
| "level_proc n c (Suc d) = binary_expr n (level_ops (Suc d)) (level_proc n c d)"

lemma proc_inclusive_or_level: "proc_inclusive_or_expr n c = level_proc n c 6"
  by (simp add: proc_inclusive_or_expr_def proc_exclusive_or_expr_def proc_and_expr_def
      proc_shift_expr_def proc_additive_expr_def proc_multiplicative_expr_def eval_nat_numeral)

lemma level_ops_token:
  assumes "0 < d" and "d \<le> 6"
  shows "level_ops d t = None \<longleftrightarrow> token_rank t \<noteq> Some d"
proof -
  consider "d = 1" | "d = 2" | "d = 3" | "d = 4" | "d = 5" | "d = 6" using assms by arith
  then show ?thesis by cases (cases t; simp add: numeral_eq_Suc)+
qed

lemma level_ops_bop: "level_ops (bop_rank op) (bop_token op) = Some (bop_node op)"
  by (cases op) (simp_all add: numeral_eq_Suc)

lemma bop_token_rank: "token_rank (bop_token op) = Some (bop_rank op)" "0 < bop_rank op" "bop_rank op \<le> 6"
  by (cases op; simp)+


text \<open>How often the loop of level \<open>d\<close> goes round for an expression, and what it has then.\<close>

fun spine :: "nat \<Rightarrow> fexp \<Rightarrow> nat" where
  "spine d (EBin op a b) = (if \<not> negation op a \<and> bop_rank op = d then Suc (spine d a) else 0)"
| "spine d _ = 0"

definition loops :: "nat \<Rightarrow> node_proc \<Rightarrow> nat \<Rightarrow> fexp \<Rightarrow> bool" where
  "loops n c d e \<longleftrightarrow>
     (\<forall>self y xs. written self e \<longrightarrow> ahead self (lexemes (global_variables self) e @ y # xs) \<longrightarrow>
        stops d y \<longrightarrow> node_count self + tree_nodes (node_of e) \<le> FINSH_NODE_MAX \<longrightarrow>
        (\<exists>self'. level_proc n c (Suc d) self =
            binary_loop (n - spine (Suc d) e) (level_ops (Suc d)) (level_proc n c d)
              (Some (node_of e)) self' \<and>
          grown (tree_nodes (node_of e)) self self' \<and> ahead self' (y # xs)))"

lemma loopsD:
  assumes "loops n c d e" "written self e" "ahead self (lexemes (global_variables self) e @ y # xs)"
    "stops d y" "node_count self + tree_nodes (node_of e) \<le> FINSH_NODE_MAX"
  obtains self' where "level_proc n c (Suc d) self =
      binary_loop (n - spine (Suc d) e) (level_ops (Suc d)) (level_proc n c d) (Some (node_of e)) self'"
    "grown (tree_nodes (node_of e)) self self'" "ahead self' (y # xs)"
  using assms unfolding loops_def by blast

lemma loops_operand:
  assumes "reads (level_proc n c d) d e" and "spine (Suc d) e = 0"
  shows "loops n c d e"
  unfolding loops_def
proof (intro allI impI)
  fix self y xs
  assume h: "written self e" "ahead self (lexemes (global_variables self) e @ y # xs)" "stops d y"
    "node_count self + tree_nodes (node_of e) \<le> FINSH_NODE_MAX"
  from readsD [OF assms(1) this] obtain t where "level_proc n c d self = Some (Some (node_of e), t)"
    "grown (tree_nodes (node_of e)) self t" "ahead t (y # xs)" .
  then show "\<exists>self'. level_proc n c (Suc d) self =
      binary_loop (n - spine (Suc d) e) (level_ops (Suc d)) (level_proc n c d) (Some (node_of e)) self' \<and>
      grown (tree_nodes (node_of e)) self self' \<and> ahead self' (y # xs)"
    using assms(2) by (intro exI [of _ t]) (simp add: binary_expr_def)
qed

lemma loops_operator:
  assumes "loops n c d a" and "reads (level_proc n c d) d b" and "bop_rank op = Suc d"
    and "\<not> negation op a" and "spine (Suc d) a < n"
  shows "loops n c d (EBin op a b)"
  unfolding loops_def
proof (intro allI impI)
  let ?e = "EBin op a b"
  fix self y xs
  assume "written self ?e" "ahead self (lexemes (global_variables self) ?e @ y # xs)"
    and y: "stops d y" and m: "node_count self + tree_nodes (node_of ?e) \<le> FINSH_NODE_MAX"
  then have w: "written self a" "ahead self (lexemes (global_variables self) a @
      Op (bop_token op) # lexemes (global_variables self) b @ y # xs)" "stops d (Op (bop_token op))"
    "node_count self + tree_nodes (node_of a) \<le> FINSH_NODE_MAX"
    and b: "written self b"
    using assms(3,4) by (simp_all add: stops_def bop_token_rank sys_node_def)
  from loopsD [OF assms(1) w] obtain t where t: "level_proc n c (Suc d) self =
      binary_loop (n - spine (Suc d) a) (level_ops (Suc d)) (level_proc n c d) (Some (node_of a)) t"
    "grown (tree_nodes (node_of a)) self t"
    "ahead t (Op (bop_token op) # lexemes (global_variables self) b @ y # xs)" .
  from next_token [OF t(3)] obtain u where u: "finsh_token_token t = Some (bop_token op, u)"
    "grown 0 t u" "ahead u (lexemes (global_variables self) b @ y # xs)" by auto
  have g: "grown (tree_nodes (node_of a)) self u" using grown_trans [OF t(2) u(2)] by simp
  then have "written u b" "ahead u (lexemes (global_variables u) b @ y # xs)"
    "node_count u + tree_nodes (node_of b) \<le> FINSH_NODE_MAX"
    using b u(3) m by (simp_all add: grown_written grown_tables sys_node_def)
  from readsD [OF assms(2) this(1,2) y this(3)] obtain v where v:
    "level_proc n c d u = Some (Some (node_of b), v)" "grown (tree_nodes (node_of b)) u v"
    "ahead v (y # xs)" .
  have "node_count self + (tree_nodes (node_of a) + tree_nodes (node_of b)) < FINSH_NODE_MAX"
    using m by (simp add: sys_node_def)
  from make_sys_node_grown [OF grown_trans [OF g v(2)] this v(3)] obtain w where w:
    "make_sys_node (bop_node op) (Some (node_of a)) [node_of b] v = (Some (node_of ?e), w)"
    "grown (Suc (tree_nodes (node_of a) + tree_nodes (node_of b))) self w" "ahead w (y # xs)"
    by (metis node_of.simps(5))
  obtain k where k: "n - spine (Suc d) a = Suc k" "n - Suc (spine (Suc d) a) = k"
    using assms(5) by (metis Suc_diff_Suc)
  have "level_proc n c (Suc d) self =
      binary_loop (n - spine (Suc d) ?e) (level_ops (Suc d)) (level_proc n c d) (Some (node_of ?e)) w"
    using t(1) u(1) v(1) w(1) level_ops_bop [of op] assms(3,4) k by simp
  then show "\<exists>self'. level_proc n c (Suc d) self =
      binary_loop (n - spine (Suc d) ?e) (level_ops (Suc d)) (level_proc n c d) (Some (node_of ?e)) self' \<and>
      grown (tree_nodes (node_of ?e)) self self' \<and> ahead self' (y # xs)"
    using w(2,3) by (auto simp: sys_node_def)
qed

lemma reads_loops:
  assumes "loops n c d e" and "spine (Suc d) e < n" and "d < 6"
  shows "reads (level_proc n c (Suc d)) (Suc d) e"
  unfolding reads_def
proof (intro allI impI)
  fix self y xs
  assume h: "written self e" "ahead self (lexemes (global_variables self) e @ y # xs)"
    and y: "stops (Suc d) y" and m: "node_count self + tree_nodes (node_of e) \<le> FINSH_NODE_MAX"
  from y have "stops d y" by (rule stops_mono) simp
  from loopsD [OF assms(1) h this m] obtain t where t: "level_proc n c (Suc d) self =
      binary_loop (n - spine (Suc d) e) (level_ops (Suc d)) (level_proc n c d) (Some (node_of e)) t"
    "grown (tree_nodes (node_of e)) self t" "ahead t (y # xs)" .
  from next_token [OF t(3)] obtain u where u: "finsh_token_token t = Some (kind y, u)"
    "grown 0 t (finsh_token_replay u)" "ahead (finsh_token_replay u) (y # xs)" by blast
  have "level_ops (Suc d) (kind y) = None"
    using level_ops_token [of "Suc d" "kind y"] y assms(3) by (auto simp: stops_def)
  then have "level_proc n c (Suc d) self = Some (Some (node_of e), finsh_token_replay u)"
    using t(1) u(1) assms(2) by (cases "n - spine (Suc d) e") auto
  then show "yields_node (level_proc n c (Suc d) self) (Some (node_of e)) (tree_nodes (node_of e))
      self (y # xs)"
    using grown_trans [OF t(2) u(2)] u(3) by (auto simp: yields_node_def)
qed

end
