(* ===== verification/FinshParse.thy ===== *)
theory FinshParse
  imports FinshGrammar
begin

text \<open>
  The parser reads every line that \<open>FinshGrammar\<close> can write: the statements come out as the trees
  of their expressions, in their order, without an error and with the tables unchanged.
\<close>

subsection \<open>Every expression\<close>

lemma reads_up:
  assumes "reads (level_proc n c r) r e" and "\<forall>d > r. spine d e = 0" and "0 < n" and "r \<le> d" and "d \<le> 6"
  shows "reads (level_proc n c d) d e"
  using assms(4,5)
proof (induction d rule: dec_induct)
  case base
  show ?case by (rule assms(1))
next
  case (step d)
  then have "spine (Suc d) e = 0" using assms(2) by simp
  then show ?case using step assms(3) by (intro reads_loops loops_operand) simp_all
qed

lemma spine_rank: "rank e < d \<Longrightarrow> spine d e = 0"
  by (cases e) (auto split: if_splits)

lemma rounds_positive: "4 \<le> rounds e"
  by (induction e) auto

lemma spine_rounds: "spine d e < rounds e"
  by (induction e) auto

lemma reads_assign_none:
  assumes "reads (level_proc n (proc_cast_expr n) 6) 6 e"
  shows "reads (proc_assign_expr (Suc n)) 7 e"
  unfolding reads_def
proof (intro allI impI)
  fix self y xs
  assume h: "written self e" "ahead self (lexemes (global_variables self) e @ y # xs)"
    and y: "stops 7 y" and m: "node_count self + tree_nodes (node_of e) \<le> FINSH_NODE_MAX"
  from y have "stops 6 y" by (rule stops_mono) simp
  from readsD [OF assms h this m] obtain t where t:
    "level_proc n (proc_cast_expr n) 6 self = Some (Some (node_of e), t)"
    "grown (tree_nodes (node_of e)) self t" "ahead t (y # xs)" .
  from next_token [OF t(3)] obtain u where u: "finsh_token_token t = Some (kind y, u)"
    "grown 0 t (finsh_token_replay u)" "ahead (finsh_token_replay u) (y # xs)" by blast
  have "kind y \<noteq> finsh_token_type_assign" using y by (auto simp: stops_def)
  then have "proc_assign_expr (Suc n) self = Some (Some (node_of e), finsh_token_replay u)"
    using t(1) u(1) by (simp add: assign_step_def proc_inclusive_or_level del: level_proc.simps)
  then show "yields_node (proc_assign_expr (Suc n) self) (Some (node_of e)) (tree_nodes (node_of e))
      self (y # xs)"
    using grown_trans [OF t(2) u(2)] u(3) by (auto simp: yields_node_def)
qed

lemma reads_assign:
  assumes "reads (level_proc n (proc_cast_expr n) 6) 6 l" and "reads (proc_assign_expr n) 7 b"
    and "node_of e = sys_node FINSH_NODE_SYS_ASSIGN [node_of l, node_of b]"
    and "\<And>vs. lexemes vs e = lexemes vs l @ Op finsh_token_type_assign # lexemes vs b"
    and "\<And>self. written self e \<Longrightarrow> written self l \<and> written self b"
  shows "reads (proc_assign_expr (Suc n)) 7 e"
  unfolding reads_def
proof (intro allI impI)
  fix self y xs
  assume h: "written self e" "ahead self (lexemes (global_variables self) e @ y # xs)"
    and y: "stops 7 y" and m: "node_count self + tree_nodes (node_of e) \<le> FINSH_NODE_MAX"
  have l: "written self l" "ahead self (lexemes (global_variables self) l @
      Op finsh_token_type_assign # lexemes (global_variables self) b @ y # xs)"
    "stops 6 (Op finsh_token_type_assign)" "node_count self + tree_nodes (node_of l) \<le> FINSH_NODE_MAX"
    and b: "written self b"
    using h m assms(5) by (simp_all add: assms(3,4) stops_def sys_node_def)
  from readsD [OF assms(1) l] obtain t where t:
    "level_proc n (proc_cast_expr n) 6 self = Some (Some (node_of l), t)"
    "grown (tree_nodes (node_of l)) self t"
    "ahead t (Op finsh_token_type_assign # lexemes (global_variables self) b @ y # xs)" .
  from next_token [OF t(3)] obtain u where u: "finsh_token_token t = Some (finsh_token_type_assign, u)"
    "grown 0 t u" "ahead u (lexemes (global_variables self) b @ y # xs)" by auto
  have g: "grown (tree_nodes (node_of l)) self u" using grown_trans [OF t(2) u(2)] by simp
  then have "written u b" "ahead u (lexemes (global_variables u) b @ y # xs)"
    "node_count u + tree_nodes (node_of b) \<le> FINSH_NODE_MAX"
    using b u(3) m by (simp_all add: grown_written grown_tables assms(3) sys_node_def)
  from readsD [OF assms(2) this(1,2) y this(3)] obtain v where v:
    "proc_assign_expr n u = Some (Some (node_of b), v)" "grown (tree_nodes (node_of b)) u v"
    "ahead v (y # xs)" .
  have "node_count self + (tree_nodes (node_of l) + tree_nodes (node_of b)) < FINSH_NODE_MAX"
    using m by (simp add: assms(3) sys_node_def)
  from make_sys_node_grown [OF grown_trans [OF g v(2)] this v(3)] obtain w where w:
    "make_sys_node FINSH_NODE_SYS_ASSIGN (Some (node_of l)) [node_of b] v =
      (Some (sys_node FINSH_NODE_SYS_ASSIGN [node_of l, node_of b]), w)"
    "grown (Suc (tree_nodes (node_of l) + tree_nodes (node_of b))) self w" "ahead w (y # xs)" .
  have "proc_assign_expr (Suc n) self = Some (Some (node_of e), w)"
    using t(1) u(1) v(1) w(1)
    by (simp add: assign_step_def proc_inclusive_or_level assms(3) del: level_proc.simps)
  then show "yields_node (proc_assign_expr (Suc n) self) (Some (node_of e)) (tree_nodes (node_of e))
      self (y # xs)"
    using w(2,3) by (auto simp: yields_node_def assms(3) sys_node_def)
qed

definition readable :: "nat \<Rightarrow> fexp \<Rightarrow> bool" where
  "readable n e \<longleftrightarrow>
     (\<forall>d. rank e \<le> d \<longrightarrow> d \<le> 6 \<longrightarrow> reads (level_proc n (proc_cast_expr n) d) d e) \<and>
     (\<forall>d. rank e \<le> Suc d \<longrightarrow> d < 6 \<longrightarrow> loops n (proc_cast_expr n) d e) \<and>
     reads (proc_assign_expr (Suc n)) 7 e"

lemma readable_cast:
  assumes "reads (proc_cast_expr n) 0 e" and "rank e = 0" and "0 < n"
  shows "readable n e"
proof -
  have sp: "\<forall>d > 0. spine d e = 0" using spine_rank assms(2) by simp
  have "reads (level_proc n (proc_cast_expr n) 0) 0 e" using assms(1) by (simp only: level_proc.simps)
  note up = reads_up [OF this sp assms(3) le0]
  have "loops n (proc_cast_expr n) d e" if "d < 6" for d
    by (rule loops_operand [OF up]) (use that sp in simp_all)
  then show ?thesis using up reads_assign_none [OF up] by (simp only: readable_def) simp
qed

lemma reads_prefix:
  assumes "reads c 0 b" and "node_of e = sys_node t [node_of b]" and "prefix_node (kind x) = Some t"
    and "\<And>vs. lexemes vs e = x # lexemes vs b" and "\<And>self. written self e \<Longrightarrow> written self b"
  shows "reads (cast_step n c a) 0 e"
  unfolding reads_def
proof (intro allI impI)
  fix self y xs
  assume h: "written self e" "ahead self (lexemes (global_variables self) e @ y # xs)"
    and y: "stops 0 y" and m: "node_count self + tree_nodes (node_of e) \<le> FINSH_NODE_MAX"
  then show "yields_node (cast_step n c a self) (Some (node_of e)) (tree_nodes (node_of e)) self (y # xs)"
    using cast_step_prefix [OF _ assms(3,1) assms(5) y, of self xs n a] assms(2,4)
    by (simp add: sys_node_def)
qed


lemma reads_negation:
  assumes "reads c 0 b" and "rank b = 0"
  shows "reads (cast_step n c a) 0 (EBin Sub (ELong 0) b)"
  unfolding reads_def
proof (intro allI impI)
  let ?e = "EBin Sub (ELong 0) b"
  fix self y xs
  assume h: "written self ?e" "ahead self (lexemes (global_variables self) ?e @ y # xs)"
    and y: "stops 0 y" and m: "node_count self + tree_nodes (node_of ?e) \<le> FINSH_NODE_MAX"
  then show "yields_node (cast_step n c a self) (Some (node_of ?e)) (tree_nodes (node_of ?e)) self (y # xs)"
    using cast_step_negation [OF _ assms(1) _ y, of self xs n a]
    by (simp add: sys_node_def negation_def add.commute)
qed

lemma rank_le: "rank e \<le> 7"
  by (cases e) (auto intro: order_trans [OF bop_token_rank(3)])


lemma readable_reads:
  assumes "readable n e"
  shows "rank e \<le> d \<Longrightarrow> d \<le> 6 \<Longrightarrow> reads (level_proc n (proc_cast_expr n) d) d e"
    "rank e = 0 \<Longrightarrow> reads (proc_cast_expr n) 0 e"
    "rank e \<le> Suc d \<Longrightarrow> d < 6 \<Longrightarrow> loops n (proc_cast_expr n) d e"
    "reads (proc_assign_expr (Suc n)) 7 e"
  using assms by (auto simp: readable_def simp del: proc_cast_expr.simps proc_assign_expr.simps)

text \<open>A binary operator: the loop of its level, and the levels above it.\<close>

lemma readable_operator:
  assumes "readable n a" and "readable n b" and "\<not> negation op a"
    and "rank a \<le> bop_rank op" and "rank b < bop_rank op" and "spine (bop_rank op) (EBin op a b) < n"
  shows "readable n (EBin op a b)"
proof -
  let ?e = "EBin op a b" and ?c = "proc_cast_expr n"
  obtain r where r: "bop_rank op = Suc r" "r < 6"
    using bop_token_rank [of op] by (cases "bop_rank op") auto
  have l: "loops n ?c r ?e"
    using readable_reads(3) [OF assms(1), of r] readable_reads(1) [OF assms(2), of r] assms(3-6) r
    by (intro loops_operator) auto
  have rk: "rank ?e = Suc r" using assms(3) r by simp
  have "reads (level_proc n ?c (Suc r)) (Suc r) ?e"
    using assms(6) r by (intro reads_loops l) simp_all
  moreover have sp: "\<forall>d > Suc r. spine d ?e = 0" using spine_rank [of ?e] rk by simp
  moreover have "0 < n" using assms(6) by simp
  ultimately have up: "reads (level_proc n ?c d) d ?e" if "Suc r \<le> d" "d \<le> 6" for d
    using that by (rule reads_up)
  have "loops n ?c d ?e" if "Suc r \<le> Suc d" "d < 6" for d
  proof (cases "d = r")
    case True
    then show ?thesis using l by simp
  next
    case False
    then show ?thesis using that sp by (intro loops_operand up) simp_all
  qed
  then show ?thesis
    using rk up reads_assign_none [OF up [of 6]] r(2) by (simp only: readable_def) simp
qed

lemma proc_Suc:
  "proc_cast_expr (Suc n) = cast_step n (proc_cast_expr n) (proc_assign_expr n)"
  "proc_assign_expr (Suc n) = assign_step n (proc_cast_expr n) (proc_assign_expr n)"
  by (rule ext, simp)+

lemma reads_leaf:
  assumes "2 \<le> n"
  shows "reads (proc_cast_expr n) 0 (EChar c)" "reads (proc_cast_expr n) 0 (EInt i)"
    "reads (proc_cast_expr n) 0 (ELong i)" "reads (proc_cast_expr n) 0 (EPlace p)"
proof -
  obtain m where m: "n = Suc m" "0 < m" using assms by (cases n) auto
  show "reads (proc_cast_expr n) 0 (EChar c)" "reads (proc_cast_expr n) 0 (EInt i)"
    "reads (proc_cast_expr n) 0 (ELong i)"
    unfolding m(1) proc_Suc(1) by (rule reads_constant [OF m(2)], simp)+
  show "reads (proc_cast_expr n) 0 (EPlace p)"
    unfolding m(1) proc_Suc(1) by (rule reads_place [OF m(2)])
qed

lemma readable_all: "written s e \<Longrightarrow> rounds e \<le> n \<Longrightarrow> readable n e"
proof (induction e arbitrary: n)
  case (EBin op a b)
  then have r: "rounds a \<le> n" "rounds b \<le> n" "rounds b \<le> n - 1" "0 < n" "spine (bop_rank op) (EBin op a b) < n"
    using spine_rounds [of "bop_rank op" "EBin op a b"] by auto
  obtain m where m: "n = Suc m" using r(4) by (cases n) auto
  show ?case
  proof (cases "negation op a")
    case True
    then have e: "EBin op a b = EBin Sub (ELong 0) b" and b: "rank b = 0" "written s b"
      using EBin.prems by (simp_all add: negation_def)
    have "reads (proc_cast_expr m) 0 b"
      using EBin.IH(2) [OF b(2), of m] r(3) m b(1) readable_reads(2) by simp
    from reads_negation [OF this b(1)] show ?thesis
      unfolding e m by (intro readable_cast) (simp_all add: negation_def proc_Suc(1))
  next
    case False
    then show ?thesis using EBin r by (intro readable_operator) auto
  qed
next
  case (ECompl a)
  then obtain m where m: "n = Suc m" "rounds a \<le> m" by (cases n) auto
  then have "reads (proc_cast_expr m) 0 a" using ECompl readable_reads(2) by simp
  then have "reads (proc_cast_expr n) 0 (ECompl a)"
    unfolding m(1) proc_Suc(1) by (rule reads_prefix [where x = "Op finsh_token_type_bitwise"]) auto
  then show ?case using m by (intro readable_cast) auto
next
  case (EDeref a)
  then obtain m where m: "n = Suc m" "rounds a \<le> m" by (cases n) auto
  then have "reads (proc_cast_expr m) 0 a" using EDeref readable_reads(2) by simp
  then have "reads (proc_cast_expr n) 0 (EDeref a)"
    unfolding m(1) proc_Suc(1) by (rule reads_prefix [where x = "Op finsh_token_type_mul"]) auto
  then show ?case using m by (intro readable_cast) auto
next
  case (EAddr p)
  then obtain m where m: "n = Suc (Suc m)" "0 < m" by (cases n; cases "n - 1") auto
  then have "reads (proc_cast_expr (Suc m)) 0 (EPlace p)" by (simp only: proc_Suc reads_place)
  then have "reads (proc_cast_expr n) 0 (EAddr p)"
    unfolding m(1) proc_Suc(1) [of "Suc m"]
    by (rule reads_prefix [where x = "Op finsh_token_type_and"]) auto
  then show ?case using m by (intro readable_cast) auto
next
  case (EIncr pre op i)
  then obtain m where m: "n = Suc (Suc m)" "0 < m" by (cases n; cases "n - 1") auto
  then have "reads (proc_cast_expr (Suc m)) 0 (EPlace (Var i))" by (simp only: proc_Suc reads_place)
  then have "reads (proc_cast_expr n) 0 (EIncr True op i)"
    unfolding m(1) proc_Suc(1) [of "Suc m"] using EIncr
    by (intro reads_prefix [where x = "Op (incr_token op)" and t = "incr_node True op" and
        b = "EPlace (Var i)"]) (auto simp: incr_node_def incr_token_def)
  moreover have "reads (proc_cast_expr n) 0 (EIncr False op i)"
    unfolding m(1) proc_Suc(1) [of "Suc m"] by (rule reads_postincr) (use m in simp)
  ultimately show ?case using m by (intro readable_cast) (cases pre; auto)+
next
  case (ECall sc es)
  then obtain m where m: "n = Suc (Suc m)" by (cases n; cases "n - 1") auto
  have l: "length es * 4 \<le> sum_list (map rounds es)"
    using sum_list_mono [of es "\<lambda>_. 4" rounds] rounds_positive by (simp add: sum_list_triv)
  have "rounds e \<le> sum_list (map rounds es)" if "e \<in> set es" for e
    using that by (simp add: member_le_sum_list)
  then have "\<forall>e \<in> set es. reads (proc_assign_expr (Suc m)) 7 e"
    using ECall m by (fastforce intro: readable_reads(4))
  then have "reads (proc_cast_expr n) 0 (ECall sc es)"
    unfolding m proc_Suc(1) [of "Suc m"] using l ECall m by (intro reads_call) auto
  then show ?case using m by (intro readable_cast) auto
next
  case (EAssign p b)
  then obtain m where m: "n = Suc m" "rounds b \<le> m" by (cases n) auto
  have "readable n (EPlace p)"
  proof -
    have "reads (proc_cast_expr n) 0 (EPlace p)" using EAssign m(1) by (simp add: proc_Suc(1) reads_place)
    then show ?thesis using m by (intro readable_cast) auto
  qed
  then have "reads (proc_assign_expr (Suc n)) 7 (EAssign p b)"
    using EAssign m
    by (intro reads_assign [where l = "EPlace p" and b = b])
      (auto intro: readable_reads simp del: proc_assign_expr.simps)
  then show ?case by (simp add: readable_def)
next
  case (EStore a b)
  then obtain m where m: "n = Suc m" "rounds b \<le> m" "rounds a \<le> m" by (cases n) auto
  have "readable n (EDeref a)"
  proof -
    have "reads (proc_cast_expr m) 0 a" using EStore m readable_reads(2) by simp
    then have "reads (proc_cast_expr n) 0 (EDeref a)"
      unfolding m(1) proc_Suc(1) by (rule reads_prefix [where x = "Op finsh_token_type_mul"]) auto
    then show ?thesis using m by (intro readable_cast) auto
  qed
  then have "reads (proc_assign_expr (Suc n)) 7 (EStore a b)"
    using EStore m
    by (intro reads_assign [where l = "EDeref a" and b = b])
      (auto intro: readable_reads simp del: proc_assign_expr.simps)
  then show ?case by (simp add: readable_def)
qed (auto intro!: readable_cast reads_leaf)


subsection \<open>A line\<close>

definition line_lexemes :: "finsh_var list \<Rightarrow> fexp list \<Rightarrow> lexeme list" where
  "line_lexemes vs es = concat (map (\<lambda>e. lexemes vs e @ [Op finsh_token_type_semicolon]) es)"

lemma statement_reads:
  assumes "written self e" and "rounds e < n" and "node_count self + tree_nodes (node_of e) \<le> FINSH_NODE_MAX"
    and "ahead self (lexemes (global_variables self) e @ Op finsh_token_type_semicolon # xs)"
  shows "yields_node (proc_expr_statement n self) (Some (node_of e)) (tree_nodes (node_of e)) self xs"
proof -
  obtain x zs where x: "lexemes (global_variables self) e = x # zs"
    "kind x \<noteq> finsh_token_type_semicolon" using first_lexeme [of "global_variables self" e] by auto
  from assms(4) x(1) have "ahead self (x # zs @ Op finsh_token_type_semicolon # xs)" by simp
  from next_token [OF this] obtain t where t: "finsh_token_token self = Some (kind x, t)"
    "grown 0 self (finsh_token_replay t)"
    "ahead (finsh_token_replay t) (x # zs @ Op finsh_token_type_semicolon # xs)" by blast
  let ?t = "finsh_token_replay t"
  obtain m where m: "n = Suc m" "rounds e \<le> m" using assms(2) by (cases n) auto
  have rd: "reads (proc_assign_expr n) 7 e"
    using readable_all [OF assms(1) m(2)] readable_reads(4) m(1) by simp
  have "written ?t e" "node_count ?t + tree_nodes (node_of e) \<le> FINSH_NODE_MAX"
    "ahead ?t (lexemes (global_variables ?t) e @ Op finsh_token_type_semicolon # xs)"
    "stops 7 (Op finsh_token_type_semicolon)"
    using assms(1,3) t(2,3) x(1) by (simp_all add: grown_written grown_tables stops_def)
  from readsD [OF rd this(1,3,4,2)] obtain u where u: "proc_assign_expr n ?t = Some (Some (node_of e), u)"
    "grown (tree_nodes (node_of e)) ?t u" "ahead u (Op finsh_token_type_semicolon # xs)" .
  from next_token [OF u(3)] obtain v where v: "finsh_token_token u = Some (finsh_token_type_semicolon, v)"
    "grown 0 u v" "ahead v xs" by auto
  have "proc_expr_statement n self = Some (Some (node_of e), v)"
    using t(1) x(2) u(1) v(1)
    by (simp add: proc_expr_statement_def proc_expr_def match_token_def check_token_def)
  then show ?thesis
    using grown_trans [OF grown_trans [OF t(2) u(2)] v(2)] v(3) by (auto simp: yields_node_def)
qed


lemma parser_loop_reads:
  assumes "ahead self (line_lexemes (global_variables self) es)"
    and "finsh_token_token self = Some (token, self1)"
    and "\<forall>e \<in> set es. written self e \<and> rounds e + length es < n" and "0 < n"
    and "node_count self + sum_list (map (\<lambda>e. tree_nodes (node_of e)) es) \<le> FINSH_NODE_MAX"
  shows "\<exists>self'. parser_loop n token chain [] self1 = Some (chain @ map node_of es, self') \<and>
    grown (sum_list (map (\<lambda>e. tree_nodes (node_of e)) es)) self self'"
  using assms
proof (induction es arbitrary: self token self1 n chain)
  case Nil
  then have "ahead self []" by (simp add: line_lexemes_def)
  from next_end [OF this] Nil(2) have "token = finsh_token_type_eof" "grown 0 self self1"
    by (auto simp: grown_def)
  then show ?case using Nil.prems(4) by (cases n) auto
next
  case (Cons e es)
  let ?xs = "line_lexemes (global_variables self) es"
  have a: "ahead self (lexemes (global_variables self) e @ Op finsh_token_type_semicolon # ?xs)"
    using Cons.prems(1) by (simp add: line_lexemes_def)
  obtain x zs where x: "lexemes (global_variables self) e = x # zs" "base_type (kind x) = None"
    "kind x \<notin> {finsh_token_type_unsigned, finsh_token_type_eof, finsh_token_type_bad}"
    using first_lexeme [of "global_variables self" e] by fastforce
  from a x(1) have "ahead self (x # zs @ Op finsh_token_type_semicolon # ?xs)" by simp
  from next_token [OF this] Cons.prems(2) have t: "token = kind x"
    "grown 0 self (finsh_token_replay self1)"
    "ahead (finsh_token_replay self1) (x # zs @ Op finsh_token_type_semicolon # ?xs)" by auto
  let ?t = "finsh_token_replay self1"
  obtain m where m: "n = Suc m" "rounds e < m" using Cons.prems(3) by (cases n) auto
  have "yields_node (proc_expr_statement m ?t) (Some (node_of e)) (tree_nodes (node_of e)) ?t ?xs"
    using Cons.prems(3,5) m(2) t(2,3) x(1)
    by (intro statement_reads) (simp_all add: grown_written grown_tables)
  then obtain u where u: "proc_expr_statement m ?t = Some (Some (node_of e), u)"
    "grown (tree_nodes (node_of e)) ?t u" "ahead u ?xs" by (auto simp: yields_node_def)
  have g: "grown (tree_nodes (node_of e)) self u" using grown_trans [OF t(2) u(2)] by simp
  obtain token' self2 where nx: "finsh_token_token u = Some (token', self2)"
  proof (cases ?xs)
    case Nil
    then show ?thesis using next_end [of u] u(3) that by auto
  next
    case (Cons y ys)
    then show ?thesis using next_lexeme [of u y ys] u(3) that by auto
  qed
  have "parser_loop n token chain [] self1 = parser_loop m token' (chain @ [node_of e]) [] self2"
    using m(1) t(1) x(2,3) u(1) nx by simp
  moreover have "\<exists>self'. parser_loop m token' (chain @ [node_of e]) [] self2 =
      Some ((chain @ [node_of e]) @ map node_of es, self') \<and>
      grown (sum_list (map (\<lambda>e. tree_nodes (node_of e)) es)) u self'"
    using Cons.prems(3,5) m u(3) g
    by (intro Cons.IH [OF _ nx]) (auto simp: grown_written grown_tables)
  ultimately show ?case using grown_trans [OF g] by auto
qed

lemma grown_init: "grown 0 self (finsh_token_init line self)"
  by (cases self) (simp add: grown_def finsh_token_init_def)

lemma parser_run_grown:
  assumes "spelled (line_lexemes (global_variables self) es) line"
    and "\<forall>e \<in> set es. written self e \<and> rounds e + length es < n" and "0 < n"
    and "node_count self + sum_list (map (\<lambda>e. tree_nodes (node_of e)) es) \<le> FINSH_NODE_MAX"
  shows "\<exists>self'. finsh_parser_run n line self = Some (map node_of es, self') \<and>
    grown (sum_list (map (\<lambda>e. tree_nodes (node_of e)) es)) self self'"
proof -
  let ?s = "finsh_token_init line self" and ?xs = "line_lexemes (global_variables self) es"
  note g = grown_init [of self line]
  have a: "ahead ?s ?xs" using assms(1) by (rule token_init_ahead)
  obtain token s where t: "finsh_token_token ?s = Some (token, s)"
    using a next_end [of ?s] next_lexeme [of ?s] by (cases ?xs) force+
  have "\<exists>self'. parser_loop n token [] [] s = Some ([] @ map node_of es, self') \<and>
      grown (sum_list (map (\<lambda>e. tree_nodes (node_of e)) es)) ?s self'"
    using a assms(2-4) by (intro parser_loop_reads [OF _ t]) (simp_all add: grown_tables [OF g] grown_written [OF g])
  then show ?thesis using t grown_trans [OF g] by (auto simp: finsh_parser_run_def)
qed

text \<open>C6. The parser reads a line as it is meant: if a line spells the statements \<open>es\<close>, each of them
  written without needless parentheses and with names that are found, and there are nodes enough,
  then the parser returns their trees in order, sets no error and leaves variables, tables and
  memory as they are.\<close>

theorem finsh_parser_reads_line:
  assumes "spelled (line_lexemes (global_variables self) es) line"
    and "\<forall>e \<in> set es. written self e \<and> rounds e + length es < n" and "0 < n"
    and "node_count self + sum_list (map (\<lambda>e. tree_nodes (node_of e)) es) \<le> FINSH_NODE_MAX"
  shows "\<exists>self'. finsh_parser_run n line self = Some (map node_of es, self') \<and>
    global_errno self' = global_errno self \<and> global_variables self' = global_variables self \<and>
    parser_ram self' = parser_ram self \<and> string_heap self' = string_heap self"
  using parser_run_grown [OF assms] by (auto simp: grown_tables)

end
