(* ===== verification/FinshCode.thy ===== *)
theory FinshCode
  imports FinshSem
begin

text \<open>
  What the compiler of the shell makes of an expression of \<open>FinshSem\<close>: its tree after the type
  check, and its byte code, whose operations have the width of the expression.
\<close>

subsection \<open>The tree after the type check\<close>

fun dcode :: "width option \<Rightarrow> u8" where
  "dcode None = FINSH_DATA_TYPE_VOID"
| "dcode (Some W8) = FINSH_DATA_TYPE_BYTE"
| "dcode (Some W16) = FINSH_DATA_TYPE_WORD"
| "dcode (Some W32) = FINSH_DATA_TYPE_DWORD"

fun checked :: "finsh_var list \<Rightarrow> fexp \<Rightarrow> finsh_node" where
  "checked vs (EChar c) = Node FINSH_NODE_VALUE_CHAR 1 0 (ucast c) id_null []"
| "checked vs (EInt n) = Node FINSH_NODE_VALUE_INT 3 0 n id_null []"
| "checked vs (ELong n) = Node FINSH_NODE_VALUE_LONG 3 0 n id_null []"
| "checked vs (EPlace p) = place_node (dcode (place_width vs p)) 0 p"
| "checked vs (EBin op a b) =
     Node (bop_node op) (dcode (width_of vs a)) 0 0 id_null [checked vs a, checked vs b]"
| "checked vs (ECompl a) =
     Node FINSH_NODE_SYS_BITWISE (dcode (width_of vs a)) 0 0 id_null [checked vs a]"
| "checked vs (EAssign p b) =
     Node FINSH_NODE_SYS_ASSIGN (dcode (place_width vs p)) 0 0 id_null
       [place_node (dcode (place_width vs p)) FINSH_IDTYPE_ADDRESS p, checked vs b]"
| "checked vs (EIncr pre op i) =
     Node (incr_node pre op) (dcode (place_width vs (Var i))) 0 0 id_null
       [place_node (dcode (place_width vs (Var i))) (if pre then FINSH_IDTYPE_ADDRESS else 0)
         (Var i)]"
| "checked vs (ECall sc es) =
     Node FINSH_NODE_SYS_FUNC 0 0 0 id_null (syscall_node sc # map (checked vs) es)"
| "checked vs (EDeref a) =
     Node FINSH_NODE_SYS_GETVALUE (dcode (width_of vs a)) 0 0 id_null [checked vs a]"
| "checked vs (EStore a b) =
     Node FINSH_NODE_SYS_ASSIGN (dcode (width_of vs a)) 0 0 id_null
       [Node FINSH_NODE_SYS_GETVALUE (dcode (width_of vs a)) FINSH_IDTYPE_ADDRESS 0 id_null
          [checked vs a], checked vs b]"
| "checked vs (EAddr p) =
     Node FINSH_NODE_SYS_GETADDR (dcode (place_width vs p)) 0 0 id_null
       [place_node (dcode (place_width vs p)) FINSH_IDTYPE_ADDRESS p]"

lemma data_type_place_node [simp]: "data_type (place_node d a p) = d"
  by (cases p) simp_all

lemma node_type_place_node [simp]: "node_type (place_node d a p) = FINSH_NODE_ID"
  by (cases p) simp_all

lemma data_type_checked [simp]: "data_type (checked vs e) = dcode (width_of vs e)"
  by (cases e) simp_all

lemma id_data_type_width:
  "type_width ty = Some w \<Longrightarrow> id_data_type ty = Some (dcode (Some w))"
  by (cases ty) auto

lemma check_place:
  assumes "place_width vs p = Some w" and "a = 0 \<or> a = FINSH_IDTYPE_ADDRESS"
  shows "finsh_type_check vs a (place_node 0 0 p # sib) err =
    (place_node (dcode (place_width vs p)) a p # fst (finsh_type_check vs 0 sib err),
     snd (finsh_type_check vs 0 sib err))"
  using assms
  by (cases p) (auto simp: child_is_addr_def leaf_data_type_def set_id_data_type_def
      id_data_type_width split: if_splits prod.splits)

lemma check_syscall:
  "finsh_type_check vs 0 (syscall_node sc # sib) err =
    (syscall_node sc # fst (finsh_type_check vs 0 sib err),
     snd (finsh_type_check vs 0 sib err))"
  by (simp add: syscall_node_def child_is_addr_def leaf_data_type_def split: prod.splits)

lemma child_is_addr_bop [simp]: "child_is_addr (bop_node op) a = a"
  by (cases op) (simp_all add: child_is_addr_def)

lemma child_is_addr_simps [simp]:
  "child_is_addr FINSH_NODE_SYS_BITWISE a = a"
  "child_is_addr FINSH_NODE_SYS_FUNC a = a"
  "child_is_addr FINSH_NODE_SYS_GETVALUE a = 0"
  "child_is_addr FINSH_NODE_SYS_ASSIGN a = FINSH_IDTYPE_ADDRESS"
  "child_is_addr FINSH_NODE_SYS_GETADDR a = FINSH_IDTYPE_ADDRESS"
  by (simp_all add: child_is_addr_def)

lemma child_is_addr_incr:
  "child_is_addr (incr_node pre op) 0 = (if pre then FINSH_IDTYPE_ADDRESS else 0)"
  by (simp add: incr_node_def child_is_addr_def)

lemma check_node:
  "supported vs e \<Longrightarrow> finsh_type_check vs 0 (node_of e # sib) err =
    (checked vs e # fst (finsh_type_check vs 0 sib err), snd (finsh_type_check vs 0 sib err))"
proof (induction e arbitrary: sib err)
  case (ECall sc es)
  have "finsh_type_check vs 0 (map node_of es) err = (map (checked vs) es, err)" for err
    using ECall.IH ECall.prems by (induction es arbitrary: err) auto
  then show ?case
    by (simp add: sys_node_def check_syscall split: prod.splits)
      (simp add: syscall_node_def)
next
  case (EAssign p b)
  then obtain w where "place_width vs p = Some w" by (auto split: option.splits)
  then show ?case using EAssign by (simp add: sys_node_def check_place split: prod.splits)
qed (auto simp: sys_node_def child_is_addr_incr check_place
    leaf_data_type_def set_id_data_type_def id_data_type_width split: prod.splits)

lemma check_line:
  "\<forall>e \<in> set es. supported vs e \<Longrightarrow>
    finsh_type_check vs 0 (map node_of es) err = (map (checked vs) es, err)"
  by (induction es arbitrary: err) (auto simp: check_node)

subsection \<open>The code of an expression\<close>

fun op_ld :: "width \<Rightarrow> u8" where
  "op_ld W8 = FINSH_OP_LD_BYTE" | "op_ld W16 = FINSH_OP_LD_WORD" | "op_ld W32 = FINSH_OP_LD_DWORD"

fun op_ld_value :: "width \<Rightarrow> u8" where
  "op_ld_value W8 = FINSH_OP_LD_VALUE_BYTE"
| "op_ld_value W16 = FINSH_OP_LD_VALUE_WORD"
| "op_ld_value W32 = FINSH_OP_LD_VALUE_DWORD"

fun op_ld_stack :: "width \<Rightarrow> u8" where
  "op_ld_stack W8 = FINSH_OP_LD_VALUE_BYTE_STACK"
| "op_ld_stack W16 = FINSH_OP_LD_VALUE_WORD_STACK"
| "op_ld_stack W32 = FINSH_OP_LD_VALUE_DWORD_STACK"

fun op_st :: "width \<Rightarrow> u8" where
  "op_st W8 = FINSH_OP_ST_BYTE" | "op_st W16 = FINSH_OP_ST_WORD" | "op_st W32 = FINSH_OP_ST_DWORD"

fun op_compl :: "width \<Rightarrow> u8" where
  "op_compl W8 = FINSH_OP_BITWISE_BYTE"
| "op_compl W16 = FINSH_OP_BITWISE_WORD"
| "op_compl W32 = FINSH_OP_BITWISE_DWORD"

fun op_first :: "bop \<Rightarrow> u8" where
  "op_first Add = FINSH_OP_ADD_BYTE"
| "op_first Sub = FINSH_OP_SUB_BYTE"
| "op_first Mul = FINSH_OP_MUL_BYTE"
| "op_first Div = FINSH_OP_DIV_BYTE"
| "op_first Mod = FINSH_OP_MOD_BYTE"
| "op_first And = FINSH_OP_AND_BYTE"
| "op_first Or = FINSH_OP_OR_BYTE"
| "op_first Xor = FINSH_OP_XOR_BYTE"
| "op_first Shl = FINSH_OP_SHL_BYTE"
| "op_first Shr = FINSH_OP_SHR_BYTE"

fun op_bin :: "bop \<Rightarrow> width \<Rightarrow> u8" where
  "op_bin op W8 = op_first op"
| "op_bin op W16 = op_first op + 1"
| "op_bin op W32 = op_first op + 2"

text \<open>The code, the width of the operations being known.\<close>

definition code_incr :: "bool \<Rightarrow> bop \<Rightarrow> width \<Rightarrow> addr \<Rightarrow> u8 list" where
  "code_incr pre op w a =
     (if pre then [FINSH_OP_LD_DWORD] @ FINSH_SET32 a @ [op_ld_value w] @ FINSH_SET32 a
      else [op_ld_value w] @ FINSH_SET32 a @ [FINSH_OP_LD_DWORD] @ FINSH_SET32 a @
        [op_ld_value w] @ FINSH_SET32 a) @
     [op_ld w] @ bytes w 1 @ [op_bin op w, op_st w] @
     [if pre then FINSH_OP_LD_VALUE_DWORD_STACK else FINSH_OP_POP]"

fun code_of :: "addr \<Rightarrow> finsh_var list \<Rightarrow> fexp \<Rightarrow> u8 list" where
  "code_of base vs (EChar c) = [FINSH_OP_LD_BYTE, c]"
| "code_of base vs (EInt n) = [FINSH_OP_LD_DWORD] @ FINSH_SET32 n"
| "code_of base vs (ELong n) = [FINSH_OP_LD_DWORD] @ FINSH_SET32 n"
| "code_of base vs (EPlace p) =
     [op_ld_value (the (place_width vs p))] @ FINSH_SET32 (place_addr base p)"
| "code_of base vs (EBin op a b) =
     code_of base vs a @ code_of base vs b @ [op_bin op (the (width_of vs a))]"
| "code_of base vs (ECompl a) = code_of base vs a @ [op_compl (the (width_of vs a))]"
| "code_of base vs (EAssign p b) =
     ([FINSH_OP_LD_DWORD] @ FINSH_SET32 (place_addr base p)) @ code_of base vs b @
     [op_st (the (place_width vs p)), op_ld_stack (the (place_width vs p))]"
| "code_of base vs (EIncr pre op i) =
     code_incr pre op (the (place_width vs (Var i))) (place_addr base (Var i))"
| "code_of base vs (ECall sc es) =
     ([FINSH_OP_LD_DWORD] @ FINSH_SET32 (syscall_func sc)) @ concat (map (code_of base vs) es) @
     [FINSH_OP_SYSCALL, of_nat (length es)]"
| "code_of base vs (EDeref a) = code_of base vs a @ [op_ld_stack (the (width_of vs a))]"
| "code_of base vs (EStore a b) =
     code_of base vs a @ code_of base vs b @
     [op_st (the (width_of vs a)), op_ld_stack (the (width_of vs a))]"
| "code_of base vs (EAddr p) = [FINSH_OP_LD_DWORD] @ FINSH_SET32 (place_addr base p)"

fun code_of_line :: "addr \<Rightarrow> finsh_var list \<Rightarrow> fexp list \<Rightarrow> u8 list" where
  "code_of_line base vs [] = []"
| "code_of_line base vs [e] = code_of base vs e"
| "code_of_line base vs (e # es) =
     code_of base vs e @ [FINSH_OP_POP] @ code_of_line base vs es"

lemma code_id_value:
  "type_width ty = Some w \<Longrightarrow> ity AND FINSH_IDTYPE_ADDRESS = 0 \<Longrightarrow>
    code_id ty ity a = [op_ld_value w] @ FINSH_SET32 a"
  by (cases ty) (auto simp: code_id_def)

lemma code_id_address:
  "type_width ty = Some w \<Longrightarrow> ity AND FINSH_IDTYPE_ADDRESS \<noteq> 0 \<Longrightarrow>
    code_id ty ity a = [FINSH_OP_LD_DWORD] @ FINSH_SET32 a"
  by (cases ty) (auto simp: code_id_def)

lemma code_op_width [simp]:
  "code_op (dcode (Some w)) b1 b2 b3 =
    [case w of W8 \<Rightarrow> b1 | W16 \<Rightarrow> b2 | W32 \<Rightarrow> b3]"
  by (cases w) (simp_all add: code_op_def)

lemma code_assign_width [simp]:
  "code_assign (dcode (Some w)) err = ([op_st w, op_ld_stack w], err)"
  "code_assign (dcode (Some w) AND 0xf) err = ([op_st w, op_ld_stack w], err)"
  by (cases w; simp add: code_assign_def)+

text \<open>Compilation of the first node of a list, the rest of the list compiled after it.\<close>

definition compiles_to :: "addr \<Rightarrow> finsh_var list \<Rightarrow> finsh_node \<Rightarrow> u8 list \<Rightarrow> bool" where
  "compiles_to base vs n c =
     (\<forall>sib err. finsh_compile base vs (n # sib) err =
       map_option (\<lambda>(c', err). (c @ c', err)) (finsh_compile base vs sib err))"

lemma compiles_to_nil: "compiles_to base vs n c \<Longrightarrow> finsh_compile base vs [n] err = Some (c, err)"
  by (simp add: compiles_to_def)

lemma compiles_to_cons:
  "compiles_to base vs n c \<Longrightarrow> finsh_compile base vs sib err = Some (c', err') \<Longrightarrow>
    finsh_compile base vs (n # sib) err = Some (c @ c', err')"
  by (simp add: compiles_to_def)

lemma compiles_toI:
  assumes "\<And>err. finsh_compile base vs child err = Some (c1, err)"
    and "\<And>err. code_node base vs t d ity v x child err = Some (c2, err)"
  shows "compiles_to base vs (Node t d ity v x child) (c1 @ c2)"
  using assms by (simp add: compiles_to_def map_option_case split: option.splits)

lemma compiles_place_value:
  assumes "place_width vs p = Some w"
  shows "compiles_to base vs (place_node d 0 p)
    ([op_ld_value w] @ FINSH_SET32 (place_addr base p))"
proof (cases p)
  case (Var i)
  then have "type_width (fv_type (vs ! i)) = Some w" using assms by (auto split: if_splits)
  then show ?thesis using Var
    by (auto intro!: compiles_toI [where ?c1.0 = "[]", simplified]
        simp: code_node_def code_id_value)
next
  case (Sysvar sv)
  then show ?thesis using assms
    by (auto intro!: compiles_toI [where ?c1.0 = "[]", simplified]
        simp: code_node_def code_id_value)
qed

lemma compiles_place_address:
  assumes "place_width vs p = Some w"
  shows "compiles_to base vs (place_node d FINSH_IDTYPE_ADDRESS p)
    ([FINSH_OP_LD_DWORD] @ FINSH_SET32 (place_addr base p))"
proof (cases p)
  case (Var i)
  then have "type_width (fv_type (vs ! i)) = Some w" using assms by (auto split: if_splits)
  then show ?thesis using Var
    by (auto intro!: compiles_toI [where ?c1.0 = "[]", simplified]
        simp: code_node_def code_id_address)
next
  case (Sysvar sv)
  then show ?thesis using assms
    by (auto intro!: compiles_toI [where ?c1.0 = "[]", simplified]
        simp: code_node_def code_id_address)
qed

lemma compiles_syscall:
  "compiles_to base vs (syscall_node sc) ([FINSH_OP_LD_DWORD] @ FINSH_SET32 (syscall_func sc))"
  unfolding syscall_node_def
  by (rule compiles_toI [where ?c1.0 = "[]", simplified]) (simp_all add: code_node_def)

lemma char_value_ucast [simp]: "char_value (ucast c) = c"
  by (rule bit_word_eqI) (simp add: char_value_def bit_simps)

lemma code_bop:
  "code_node base vs (bop_node op) (dcode (Some w)) ity v x child err = Some ([op_bin op w], err)"
  by (cases op; cases w) (simp_all add: code_node_def code_op_def)

lemma code_incr_node:
  assumes "place_width vs (Var i) = Some w" and "op = Add \<or> op = Sub"
  shows "code_node base vs (incr_node pre op) (dcode (Some w)) ity v x
      [place_node d a (Var i)] err =
    Some (drop 5 (code_incr pre op w (place_addr base (Var i))), err)"
  using assms(2)
  by (cases w; auto simp: incr_node_def code_node_def code_on_var_def code_preinc_def code_inc_def
      code_incr_def FINSH_SET32_def FINSH_SET16_def)

lemma compiles:
  "supported vs e \<Longrightarrow> compiles_to base vs (checked vs e) (code_of base vs e)"
proof (induction e)
  case (EPlace p)
  then show ?case by (auto intro: compiles_place_value [simplified])
next
  case (EBin op a b)
  then obtain w where w: "width_of vs a = Some w" by (auto split: option.splits)
  have "compiles_to base vs (checked vs (EBin op a b))
      ((code_of base vs a @ code_of base vs b) @ [op_bin op w])"
    unfolding checked.simps w
    by (rule compiles_toI)
      (use EBin in \<open>auto intro!: compiles_to_cons compiles_to_nil code_bop\<close>)
  then show ?case using w by simp
next
  case (ECompl a)
  then obtain w where w: "width_of vs a = Some w" by auto
  have "compiles_to base vs (checked vs (ECompl a)) (code_of base vs a @ [op_compl w])"
    using ECompl w
    by (cases w) (auto intro!: compiles_toI compiles_to_nil simp: code_node_def code_op_def)
  then show ?case using w by simp
next
  case (EAssign p b)
  then obtain w where w: "place_width vs p = Some w" by (auto split: option.splits)
  have "compiles_to base vs (checked vs (EAssign p b))
      ((([FINSH_OP_LD_DWORD] @ FINSH_SET32 (place_addr base p)) @ code_of base vs b) @
       [op_st w, op_ld_stack w])"
    unfolding checked.simps w
    by (rule compiles_toI, rule compiles_to_cons [OF compiles_place_address [OF w]])
      (use EAssign in \<open>auto intro!: compiles_to_nil simp: code_node_def simp del: dcode.simps\<close>)
  then show ?case using w by simp
next
  case (EIncr pre op i)
  then obtain w where w: "place_width vs (Var i) = Some w" and op: "op = Add \<or> op = Sub" by auto
  let ?c = "code_incr pre op w (place_addr base (Var i))"
  have "compiles_to base vs (checked vs (EIncr pre op i)) (take 5 ?c @ drop 5 ?c)"
    unfolding checked.simps w
  proof (rule compiles_toI)
    show "code_node base vs (incr_node pre op) (dcode (Some w)) 0 0 id_null
        [place_node (dcode (Some w)) (if pre then 8 else 0) (Var i)] err =
        Some (drop 5 ?c, err)" for err
      by (rule code_incr_node [OF w op])
    show "finsh_compile base vs [place_node (dcode (Some w)) (if pre then 8 else 0) (Var i)] err =
        Some (take 5 ?c, err)" for err
      using compiles_to_nil [OF compiles_place_address [OF w]]
        compiles_to_nil [OF compiles_place_value [OF w]]
      by (cases pre) (simp_all add: code_incr_def FINSH_SET32_def)
  qed
  then show ?case using w by simp
next
  case (ECall sc es)
  have es: "finsh_compile base vs (map (checked vs) es) err =
      Some (concat (map (code_of base vs) es), err)" for err
    using ECall.IH ECall.prems
    by (induction es arbitrary: err) (auto intro: compiles_to_cons)
  have "compiles_to base vs (checked vs (ECall sc es))
      ((([FINSH_OP_LD_DWORD] @ FINSH_SET32 (syscall_func sc)) @ concat (map (code_of base vs) es)) @
       [FINSH_OP_SYSCALL, of_nat (length es)])"
    unfolding checked.simps
    by (intro compiles_toI compiles_to_cons [OF compiles_syscall] es) (simp add: code_node_def)
  then show ?case by simp
next
  case (EDeref a)
  then obtain w where w: "width_of vs a = Some w" by auto
  have "compiles_to base vs (checked vs (EDeref a)) (code_of base vs a @ [op_ld_stack w])"
    using EDeref w
    by (cases w) (auto intro!: compiles_toI compiles_to_nil simp: code_node_def code_op_def)
  then show ?case using w by simp
next
  case (EStore a b)
  then obtain w where w: "width_of vs a = Some w" by (auto split: option.splits)
  let ?n = "Node FINSH_NODE_SYS_GETVALUE (dcode (Some w)) FINSH_IDTYPE_ADDRESS 0 id_null
    [checked vs a]"
  have n: "compiles_to base vs ?n (code_of base vs a @ [])"
    using EStore by (intro compiles_toI compiles_to_nil) (simp_all add: code_node_def)
  have "compiles_to base vs (checked vs (EStore a b))
      ((code_of base vs a @ code_of base vs b) @ [op_st w, op_ld_stack w])"
    unfolding checked.simps w
    by (rule compiles_toI, rule compiles_to_cons [OF n [simplified]])
      (use EStore in \<open>auto intro!: compiles_to_nil simp: code_node_def simp del: dcode.simps\<close>)
  then show ?case using w by simp
next
  case (EAddr p)
  then obtain w where w: "place_width vs p = Some w" by auto
  have "compiles_to base vs (checked vs (EAddr p))
      (([FINSH_OP_LD_DWORD] @ FINSH_SET32 (place_addr base p)) @ [])"
    unfolding checked.simps w
    by (rule compiles_toI, rule compiles_to_nil [OF compiles_place_address [OF w]])
      (simp add: code_node_def)
  then show ?case by simp
qed (auto intro!: compiles_toI [where ?c1.0 = "[]", simplified]
    simp: code_node_def)

lemma compiles_line:
  "\<forall>e \<in> set es. supported vs e \<Longrightarrow>
    compile_statements base vs (map (checked vs) es) err = Some (code_of_line base vs es, err)"
proof (induction es rule: code_of_line.induct)
  case (3 base vs e e' es)
  then have "compile_statements base vs (map (checked vs) (e' # es)) err =
      Some (code_of_line base vs (e' # es), err)" by simp
  moreover have "finsh_compile base vs [checked vs e] err = Some (code_of base vs e, err)"
    using 3 by (simp add: compiles_to_nil compiles)
  ultimately show ?case
    unfolding list.map(2) [of _ e] compile_statements.simps(2) [of _ _ "checked vs e"]
    by (simp del: compile_statements.simps list.map)
qed (simp_all add: compiles_to_nil compiles)

end
