(* ===== verification/FinshRun.thy ===== *)
theory FinshRun
  imports FinshCode
begin

text \<open>
  The machine of the shell on the code of \<open>FinshCode\<close>: the lines of the shell mean what the
  reference semantics of \<open>FinshSem\<close> says. Byte code, run by the machine, yields the value and the
  memory of the line, and faults exactly if the line has none.
\<close>

subsection \<open>Cells, bytes and memory\<close>

fun read_cell :: "width \<Rightarrow> u32 \<Rightarrow> int" where
  "read_cell W8 c = uint (char_value c)"
| "read_cell W16 c = sint (short_value c)"
| "read_cell W32 c = sint c"

fun put_cell :: "width \<Rightarrow> int \<Rightarrow> u32 \<Rightarrow> u32" where
  "put_cell W8 v c = set_char_value (word_of_int v) c"
| "put_cell W16 v c = set_short_value (word_of_int v) c"
| "put_cell W32 v c = word_of_int v"

lemma read_put [simp]: "read_cell w (put_cell w v c) = cast w v"
  by (cases w) simp_all

lemma scast_word_of_int:
  "(scast (word_of_int v :: u16) :: u8) = word_of_int v"
  "(scast (word_of_int v :: u32) :: u8) = word_of_int v"
  "(scast (word_of_int v :: u32) :: u16) = word_of_int v"
  by (rule bit_word_eqI, simp add: bit_simps)+

lemma cast_cast: "w \<le> w' \<Longrightarrow> cast w (cast w' v) = cast w v"
  by (cases w; cases w') (simp_all add: scast_word_of_int less_eq_width_def)

lemma bytes_cast: "w \<le> w' \<Longrightarrow> bytes w (cast w' v) = bytes w v"
  by (cases w; cases w') (simp_all add: scast_word_of_int less_eq_width_def)

lemma cast_read: "cast w (read_cell w c) = read_cell w c"
  by (cases w) simp_all

lemma read_narrow:
  assumes "w \<le> w'"
  shows "read_cell w c = cast w (read_cell w' c)"
proof -
  have "char_value c = word_of_int (sint (short_value c))" "char_value c = word_of_int (sint c)"
    "short_value c = word_of_int (sint c)"
    by (intro bit_word_eqI, auto simp: bit_simps char_value_def short_value_def)+
  then show ?thesis
    using assms by (cases w; cases w') (simp_all add: less_eq_width_def)
qed

lemma GET16_SET16 [simp]: "FINSH_GET16 (ucast v) (ucast (drop_bit 8 v)) = v"
  by (rule bit_word_eqI) (auto simp: FINSH_GET16_def bit_simps)

lemma GET32_SET32 [simp]:
  "FINSH_GET32 (ucast v) (ucast (drop_bit 8 v)) (ucast (drop_bit 16 v)) (ucast (drop_bit 24 v)) = v"
proof (rule bit_word_eqI)
  fix n assume "n < LENGTH(32)"
  moreover have "n < 8 \<or> 8 \<le> n \<and> n < 16 \<or> 16 \<le> n \<and> n < 24 \<or> 24 \<le> n" by linarith
  ultimately show "bit (FINSH_GET32 (ucast v) (ucast (drop_bit 8 v)) (ucast (drop_bit 16 v))
      (ucast (drop_bit 24 v))) n = bit v n"
    by (auto simp: FINSH_GET32_def bit_simps)
qed

lemma length_SET [simp]: "length (FINSH_SET16 h) = 2" "length (FINSH_SET32 d) = 4"
  by (simp_all add: FINSH_SET16_def FINSH_SET32_def)

lemma length_bytes: "length (bytes w v) = (case w of W8 \<Rightarrow> 1 | W16 \<Rightarrow> 2 | W32 \<Rightarrow> 4)"
  by (cases w) simp_all

lemma load_store:
  assumes "store w m a v = Some m'"
  shows "load w m' a = Some (cast w v)"
proof -
  have n: "(2::addr) \<noteq> 0" "(1::addr) \<noteq> 0" "(3::addr) \<noteq> 0" by simp_all
  show ?thesis using assms
    by (cases w) (auto simp: store_def load8_def load16_def load32_def FINSH_SET16_def
        FINSH_SET32_def add.assoc split: option.splits)
qed

lemma store_bytes_dom: "store_bytes m a bs = Some m' \<Longrightarrow> dom m \<subseteq> dom m'"
  by (induction m a bs rule: store_bytes.induct) (fastforce split: option.splits)+

subsection \<open>Single operations\<close>

text \<open>A machine that is about to run a piece of code, and one that has run it.\<close>

definition code_at :: "vm \<Rightarrow> u8 list \<Rightarrow> bool" where
  "code_at s c =
     (length (text_segment s) = FINSH_TEXT_MAX \<and> length (finsh_vm_stack s) = FINSH_STACK_MAX \<and>
      finsh_pc s + length c \<le> FINSH_TEXT_MAX \<and>
      take (length c) (drop (finsh_pc s) (text_segment s)) = c)"

definition after :: "vm \<Rightarrow> u8 list \<Rightarrow> u32 list \<Rightarrow> nat \<Rightarrow> ram \<Rightarrow> vm" where
  "after s c stk p m =
     s\<lparr>finsh_vm_stack := stk, finsh_sp := p, finsh_pc := finsh_pc s + length c, vm_ram := m\<rparr>"

lemma after_simps [simp]:
  "finsh_vm_stack (after s c stk p m) = stk" "finsh_sp (after s c stk p m) = p"
  "finsh_pc (after s c stk p m) = finsh_pc s + length c" "vm_ram (after s c stk p m) = m"
  "text_segment (after s c stk p m) = text_segment s"
  by (simp_all add: after_def)

lemma after_after [simp]:
  "after (after s c stk p m) c' stk' p' m' = after s (c @ c') stk' p' m'"
  by (simp add: after_def add.assoc)

lemma after_nil [simp]: "after s [] (finsh_vm_stack s) (finsh_sp s) (vm_ram s) = s"
  by (simp add: after_def)

lemma code_at_append:
  "code_at s (c @ c') \<Longrightarrow>
    code_at s c \<and> (length stk = FINSH_STACK_MAX \<longrightarrow> code_at (after s c stk p m) c')"
proof -
  assume *: "code_at s (c @ c')"
  let ?t = "drop (finsh_pc s) (text_segment s)"
  from * have t: "take (length c + length c') ?t = c @ c'" by (simp add: code_at_def)
  then have "take (length c) (take (length c + length c') ?t) = c" by simp
  then have 1: "take (length c) ?t = c" by simp
  have "drop (length c) (take (length c + length c') ?t) = c'" using t by simp
  then have "take (length c') (drop (length c) ?t) = c'" by (simp add: drop_take)
  then show ?thesis using * 1 by (auto simp: code_at_def drop_drop add.commute)
qed

lemma code_at_nth:
  assumes "code_at s c" and "i < length c"
  shows "text_segment s ! (finsh_pc s + i) = c ! i"
proof -
  have "take (length c) (drop (finsh_pc s) (text_segment s)) ! i = c ! i"
    using assms by (simp add: code_at_def)
  then show ?thesis using assms by (simp add: code_at_def)
qed

lemma code_at_pc: "code_at s c \<Longrightarrow> i < length c \<Longrightarrow> finsh_pc s + i < FINSH_TEXT_MAX"
  by (simp add: code_at_def)

text \<open>The first byte of the code, as an operation of the table.\<close>

lemma loop_op:
  assumes "code_at s (op # c)" and "unat op < 48"
  shows "finsh_vm_loop calls s =
    (op_table calls ! unat op) (s\<lparr>finsh_pc := finsh_pc s + 1\<rparr>) \<bind> finsh_vm_loop calls"
proof -
  have "finsh_pc s < FINSH_TEXT_MAX" "text_segment s ! finsh_pc s = op"
    using code_at_pc [OF assms(1), of 0] code_at_nth [OF assms(1), of 0] by simp_all
  moreover have "length (op_table calls) = 48" by (simp add: op_table_def)
  ultimately show ?thesis
    using assms(2) by (subst finsh_vm_loop.simps) (simp add: vm_step_def fetch_def)
qed

lemma fetch_at:
  assumes "code_at s c" and "i < length c"
  shows "fetch (s\<lparr>finsh_pc := finsh_pc s + i\<rparr>) =
    Some (c ! i, s\<lparr>finsh_pc := finsh_pc s + (i + 1)\<rparr>)"
  using code_at_nth [OF assms] code_at_pc [OF assms] by (simp add: fetch_def)

lemma fetch32_at:
  assumes "code_at s (op # FINSH_SET32 v @ c)"
  shows "fetch32 (s\<lparr>finsh_pc := finsh_pc s + 1\<rparr>) = Some (v, s\<lparr>finsh_pc := finsh_pc s + 5\<rparr>)"
  using fetch_at [OF assms, of 1] fetch_at [OF assms, of 2] fetch_at [OF assms, of 3]
    fetch_at [OF assms, of 4]
  by (simp add: fetch32_def FINSH_SET32_def)

lemma fetch16_at:
  assumes "code_at s (op # FINSH_SET16 v @ c)"
  shows "fetch16 (s\<lparr>finsh_pc := finsh_pc s + 1\<rparr>) = Some (v, s\<lparr>finsh_pc := finsh_pc s + 3\<rparr>)"
  using fetch_at [OF assms, of 1] fetch_at [OF assms, of 2]
  by (simp add: fetch16_def FINSH_SET16_def)

lemma op_table_nth:
  "op_table calls ! unat (op_ld w) =
    (case w of W8 \<Rightarrow> OP_ld_byte | W16 \<Rightarrow> OP_ld_word | W32 \<Rightarrow> OP_ld_dword)"
  "op_table calls ! unat (op_ld_value w) =
    (case w of W8 \<Rightarrow> OP_ld_value_byte | W16 \<Rightarrow> OP_ld_value_word | W32 \<Rightarrow> OP_ld_value_dword)"
  "op_table calls ! unat (op_ld_stack w) =
    (case w of W8 \<Rightarrow> OP_ld_value_byte_stack | W16 \<Rightarrow> OP_ld_value_word_stack
     | W32 \<Rightarrow> OP_ld_value_dword_stack)"
  "op_table calls ! unat (op_st w) =
    (case w of W8 \<Rightarrow> OP_st_byte | W16 \<Rightarrow> OP_st_word | W32 \<Rightarrow> OP_st_dword)"
  "op_table calls ! unat (op_compl w) =
    (case w of W8 \<Rightarrow> OP_bw_byte | W16 \<Rightarrow> OP_bw_word | W32 \<Rightarrow> OP_bw_dword)"
  "op_table calls ! 43 = OP_pop" "op_table calls ! 44 = OP_call calls"
  by (cases w; simp add: op_table_def)+

lemma op_table_bin:
  "op_table calls ! unat (op_bin op W8) = OP_BIN_BYTE (bop_sem op)"
  "op_table calls ! unat (op_bin op W16) = OP_BIN_WORD (bop_sem op)"
  "op_table calls ! unat (op_bin op W32) = OP_BIN_DWORD (bop_sem op)"
  by (cases op; simp add: op_table_def OP_bin_defs)+

lemma op_number:
  "unat (op_ld w) < 48" "unat (op_ld_value w) < 48" "unat (op_ld_stack w) < 48"
  "unat (op_st w) < 48" "unat (op_compl w) < 48"
  by (cases w; simp)+

lemma op_number_bin: "unat (op_bin op w) < 48"
  by (cases op; cases w; simp)

text \<open>The cell \<open>k\<close> below the stack pointer.\<close>

abbreviation (input) cell :: "nat \<Rightarrow> vm \<Rightarrow> u32" where
  "cell k s \<equiv> finsh_vm_stack s ! (finsh_sp s - k)"

abbreviation (input) stack_with :: "nat \<Rightarrow> u32 \<Rightarrow> vm \<Rightarrow> u32 list" where
  "stack_with k v s \<equiv> (finsh_vm_stack s)[finsh_sp s - k := v]"

lemma vm_update_order:
  fixes s :: vm
  shows "s\<lparr>finsh_pc := p, finsh_vm_stack := k\<rparr> = s\<lparr>finsh_vm_stack := k, finsh_pc := p\<rparr>"
    "s\<lparr>finsh_pc := p, finsh_sp := q\<rparr> = s\<lparr>finsh_sp := q, finsh_pc := p\<rparr>"
    "s\<lparr>finsh_sp := q, finsh_vm_stack := k\<rparr> = s\<lparr>finsh_vm_stack := k, finsh_sp := q\<rparr>"
    "s\<lparr>vm_ram := m, finsh_vm_stack := k\<rparr> = s\<lparr>finsh_vm_stack := k, vm_ram := m\<rparr>"
    "s\<lparr>vm_ram := m, finsh_sp := q\<rparr> = s\<lparr>finsh_sp := q, vm_ram := m\<rparr>"
    "s\<lparr>vm_ram := m, finsh_pc := p\<rparr> = s\<lparr>finsh_pc := p, vm_ram := m\<rparr>"
  by simp_all

lemmas vm_access = below_def set_below_def push_cell_def sp_down_def vm_update_order

lemma run_ld:
  assumes "code_at s ([op_ld w] @ bytes w v)" and "finsh_sp s < FINSH_STACK_MAX"
  shows "finsh_vm_loop calls s = finsh_vm_loop calls
    (after s ([op_ld w] @ bytes w v) (stack_with 0 (put_cell w v (cell 0 s)) s)
       (finsh_sp s + 1) (vm_ram s))"
proof -
  note op = loop_op [OF assms(1) [simplified] op_number(1), of calls, unfolded op_table_nth]
  show ?thesis
  proof (cases w)
    case W8
    then have "code_at s (op_ld w # [word_of_int v])" using assms(1) by simp
    from fetch_at [OF this, of 1] show ?thesis
      using assms(2) W8
      by (simp add: op OP_ld_byte_def vm_access after_def)
  next
    case W16
    then have "code_at s (op_ld w # FINSH_SET16 (word_of_int v) @ [])" using assms(1) by simp
    from fetch16_at [OF this] show ?thesis
      using assms(2) W16 by (simp add: op OP_ld_word_def vm_access after_def)
  next
    case W32
    then have "code_at s (op_ld w # FINSH_SET32 (word_of_int v) @ [])" using assms(1) by simp
    from fetch32_at [OF this] show ?thesis
      using assms(2) W32 by (simp add: op OP_ld_dword_def vm_access after_def)
  qed
qed

lemma run_ld_value:
  assumes "code_at s ([op_ld_value w] @ FINSH_SET32 a)" and "finsh_sp s < FINSH_STACK_MAX"
  shows "finsh_vm_loop calls s = load w (vm_ram s) a \<bind> (\<lambda>v. finsh_vm_loop calls
    (after s ([op_ld_value w] @ FINSH_SET32 a) (stack_with 0 (put_cell w v (cell 0 s)) s)
       (finsh_sp s + 1) (vm_ram s)))"
proof -
  note op = loop_op [OF assms(1) [simplified] op_number(2), of calls, unfolded op_table_nth]
  have "code_at s (op_ld_value w # FINSH_SET32 a @ [])" using assms(1) by simp
  from fetch32_at [OF this] show ?thesis
    using assms(2)
    by (cases w) (auto simp: op OP_ld_value_byte_def OP_ld_value_word_def OP_ld_value_dword_def
        vm_access after_def map_option_case split: option.splits)
qed

lemma run_ld_stack:
  assumes "code_at s [op_ld_stack w]" and "1 \<le> finsh_sp s" "finsh_sp s \<le> FINSH_STACK_MAX"
  shows "finsh_vm_loop calls s = load w (vm_ram s) (cell 1 s) \<bind> (\<lambda>v. finsh_vm_loop calls
    (after s [op_ld_stack w] (stack_with 1 (put_cell w v (cell 1 s)) s) (finsh_sp s) (vm_ram s)))"
proof -
  note op = loop_op [OF assms(1) op_number(3), of calls, unfolded op_table_nth]
  have "finsh_sp s - 1 < FINSH_STACK_MAX" using assms(2,3) by simp
  then show ?thesis
    using assms(2)
    by (cases w) (auto simp: op OP_ld_value_byte_stack_def OP_ld_value_word_stack_def
        OP_ld_value_dword_stack_def vm_access after_def map_option_case split: option.splits)
qed

lemma run_st:
  assumes "code_at s [op_st w]" and "2 \<le> finsh_sp s" "finsh_sp s \<le> FINSH_STACK_MAX"
  shows "finsh_vm_loop calls s =
    store w (vm_ram s) (cell 2 s) (read_cell w (cell 1 s)) \<bind> (\<lambda>m. finsh_vm_loop calls
      (after s [op_st w] (finsh_vm_stack s) (finsh_sp s - 1) m))"
proof -
  note op = loop_op [OF assms(1) op_number(4), of calls, unfolded op_table_nth]
  have "finsh_sp s - 1 < FINSH_STACK_MAX" "finsh_sp s - 2 < FINSH_STACK_MAX" "finsh_sp s \<noteq> 0"
    using assms(2,3) by simp_all
  then show ?thesis
    using assms(2)
    by (cases w) (auto simp: op OP_st_byte_def OP_st_word_def OP_st_dword_def store_def
        vm_access after_def split: option.splits)
qed

lemma run_bin:
  assumes "code_at s [op_bin bop w]" and "2 \<le> finsh_sp s" "finsh_sp s \<le> FINSH_STACK_MAX"
  shows "finsh_vm_loop calls s =
    bop_sem bop (read_cell w (cell 2 s)) (read_cell w (cell 1 s)) \<bind> (\<lambda>r. finsh_vm_loop calls
      (after s [op_bin bop w] (stack_with 2 (put_cell w r (cell 2 s)) s) (finsh_sp s - 1)
         (vm_ram s)))"
proof -
  note op = loop_op [OF assms(1) op_number_bin, of calls]
  have "finsh_sp s - 1 < FINSH_STACK_MAX" "finsh_sp s - 2 < FINSH_STACK_MAX" "finsh_sp s \<noteq> 0"
    using assms(2,3) by simp_all
  then show ?thesis
    using assms(2)
    by (cases w) (auto simp: op op_table_bin OP_BIN_BYTE_def OP_BIN_WORD_def OP_BIN_DWORD_def
        vm_access after_def simp del: op_bin.simps split: option.splits)
qed

lemma run_compl:
  assumes "code_at s [op_compl w]" and "1 \<le> finsh_sp s" "finsh_sp s \<le> FINSH_STACK_MAX"
  shows "finsh_vm_loop calls s = finsh_vm_loop calls
    (after s [op_compl w] (stack_with 1 (put_cell w (NOT (read_cell w (cell 1 s))) (cell 1 s)) s)
       (finsh_sp s) (vm_ram s))"
proof -
  note op = loop_op [OF assms(1) op_number(5), of calls, unfolded op_table_nth]
  have "finsh_sp s - 1 < FINSH_STACK_MAX" using assms(2,3) by simp
  moreover have "word_of_int (NOT (uint b)) = NOT b" "word_of_int (NOT (sint h)) = NOT h"
    "word_of_int (NOT (sint d)) = NOT d" for b :: u8 and h :: u16 and d :: u32
    by (rule bit_word_eqI, simp add: bit_simps)+
  ultimately show ?thesis
    using assms(2)
    by (cases w) (simp_all add: op OP_bw_byte_def OP_bw_word_def OP_bw_dword_def vm_access after_def)
qed

lemma run_pop:
  assumes "code_at s [FINSH_OP_POP]" and "1 \<le> finsh_sp s"
  shows "finsh_vm_loop calls s = finsh_vm_loop calls
    (after s [FINSH_OP_POP] (finsh_vm_stack s) (finsh_sp s - 1) (vm_ram s))"
  using loop_op [OF assms(1), of calls] assms(2)
  by (simp add: op_table_nth OP_pop_def vm_access after_def)

lemma pop_parameters_stack:
  assumes "finsh_sp t = q + n" "q + n < FINSH_STACK_MAX"
  shows "pop_parameters n ps t =
    Some (map (\<lambda>i. finsh_vm_stack t ! (q + 1 + i)) [0..<n] @ ps, t\<lparr>finsh_sp := q\<rparr>)"
  using assms
proof (induction n arbitrary: ps t)
  case (Suc n)
  have "pop_parameters (Suc n) ps t =
      pop_parameters n (finsh_vm_stack t ! (q + Suc n) # ps) (t\<lparr>finsh_sp := q + n\<rparr>)"
    using Suc.prems by (simp add: vm_access)
  also have "\<dots> = Some (map (\<lambda>i. finsh_vm_stack t ! (q + 1 + i)) [0..<n] @
      finsh_vm_stack t ! (q + Suc n) # ps, t\<lparr>finsh_sp := q\<rparr>)"
    using Suc.prems by (subst Suc.IH) simp_all
  finally show ?case by simp
qed simp

lemma run_call:
  assumes "code_at s [FINSH_OP_SYSCALL, of_nat n]" and "n \<le> 16"
    and "finsh_sp s = q + 1 + n" and "finsh_sp s \<le> FINSH_STACK_MAX"
  shows "finsh_vm_loop calls s =
    calls (finsh_vm_stack s ! q)
      (if n = 0 then [0] else map (\<lambda>i. finsh_vm_stack s ! (q + 1 + i)) [0..<n]) (vm_ram s) \<bind>
    (\<lambda>(r, m). finsh_vm_loop calls
      (after s [FINSH_OP_SYSCALL, of_nat n] ((finsh_vm_stack s)[q := r]) (q + 1) m))"
proof -
  have n: "unat (of_nat n :: u8) = n" "((of_nat n :: u8) = 0) = (n = 0)"
  proof -
    show "unat (of_nat n :: u8) = n"
      using assms(2) by (simp add: unsigned_of_nat take_bit_nat_eq_self_iff)
    then show "((of_nat n :: u8) = 0) = (n = 0)"
      using unat_eq_zero [of "of_nat n :: u8"] by simp
  qed
  have "op_table calls ! unat (FINSH_OP_SYSCALL :: u8) = OP_call calls"
    by (simp add: op_table_nth)
  then have op: "finsh_vm_loop calls s =
      OP_call calls (s\<lparr>finsh_pc := finsh_pc s + 1\<rparr>) \<bind> finsh_vm_loop calls"
    using loop_op [OF assms(1), of calls] by simp
  have "fetch (s\<lparr>finsh_pc := finsh_pc s + 1\<rparr>) =
      Some (of_nat n, s\<lparr>finsh_pc := finsh_pc s + 2\<rparr>)"
    using fetch_at [OF assms(1), of 1] by simp
  moreover have "sp_down (s\<lparr>finsh_pc := finsh_pc s + 2\<rparr>) =
      Some (s\<lparr>finsh_sp := q + n, finsh_pc := finsh_pc s + 2\<rparr>)"
    using assms(3) by (simp add: vm_access)
  moreover define ps where "ps = map (\<lambda>i. finsh_vm_stack s ! (q + 1 + i)) [0..<n]"
  then have "pop_parameters n [] (s\<lparr>finsh_sp := q + n, finsh_pc := finsh_pc s + 2\<rparr>) =
      Some (ps, s\<lparr>finsh_sp := q, finsh_pc := finsh_pc s + 2\<rparr>)"
    using assms(3,4)
      pop_parameters_stack [of "s\<lparr>finsh_sp := q + n, finsh_pc := finsh_pc s + 2\<rparr>" q n "[]"]
    by (simp add: vm_update_order)
  ultimately have "OP_call calls (s\<lparr>finsh_pc := finsh_pc s + 1\<rparr>) =
      calls (finsh_vm_stack s ! q) (if n = 0 then [0] else ps) (vm_ram s) \<bind>
      (\<lambda>(r, m). Some (after s [FINSH_OP_SYSCALL, of_nat n] ((finsh_vm_stack s)[q := r]) (q + 1) m))"
    using assms(2-4) n
    by (simp add: OP_call_def not_less vm_access after_def)
  then show ?thesis
    unfolding op ps_def by (simp add: case_prod_unfold)
qed

subsection \<open>Runs\<close>

text \<open>
  The machine \<open>t\<close>, about to run \<open>c\<close>, comes out of it with the value and the memory of \<open>r\<close>, the
  value in cell \<open>p\<close>, on top, and the cells below as they were; it faults if there is no result.
\<close>

definition leads :: "syscalls \<Rightarrow> vm \<Rightarrow> u8 list \<Rightarrow> nat \<Rightarrow> width \<Rightarrow> (int \<times> ram) option \<Rightarrow> bool" where
  "leads calls t c p w r =
    (case r of
       None \<Rightarrow> finsh_vm_loop calls t = None
     | Some (v, m) \<Rightarrow>
         (\<exists>stk. length stk = FINSH_STACK_MAX \<and> take p stk = take p (finsh_vm_stack t) \<and>
           read_cell w (stk ! p) = v \<and>
           finsh_vm_loop calls t = finsh_vm_loop calls (after t c stk (p + 1) m)))"

lemma leads_done:
  assumes "finsh_sp t = p + 1" "length (finsh_vm_stack t) = FINSH_STACK_MAX"
    and "read_cell w (finsh_vm_stack t ! p) = v" "vm_ram t = m"
  shows "leads calls t [] p w (Some (v, m))"
proof -
  have "after t [] (finsh_vm_stack t) (p + 1) m = t" using assms by (simp add: after_def)
  then show ?thesis using assms(2,3) by (auto simp: leads_def)
qed

lemma leads_step:
  assumes "finsh_vm_loop calls t = r \<bind> (\<lambda>x. finsh_vm_loop calls (after t c (stk x) (q x) (m x)))"
    and "\<And>x. r = Some x \<Longrightarrow> take p (stk x) = take p (finsh_vm_stack t) \<and>
      leads calls (after t c (stk x) (q x) (m x)) c' p w (f x)"
  shows "leads calls t (c @ c') p w (r \<bind> f)"
proof (cases r)
  case (Some x)
  then show ?thesis
    using assms(1) assms(2) [OF Some] by (auto simp: leads_def split: option.splits prod.splits)
qed (use assms in \<open>simp add: leads_def\<close>)

lemma leads_run:
  assumes "finsh_vm_loop calls t = finsh_vm_loop calls (after t c stk q m)"
    and "take p stk = take p (finsh_vm_stack t)"
    and "leads calls (after t c stk q m) c' p w r"
  shows "leads calls t (c @ c') p w r"
  using leads_step [of calls t "Some ()" c "\<lambda>_. stk" "\<lambda>_. q" "\<lambda>_. m" p c' w "\<lambda>_. r"] assms by simp

lemma leads_bind:
  assumes "leads calls t c q w' r" and "p \<le> q"
    and "\<And>x m stk. r = Some (x, m) \<Longrightarrow> length stk = FINSH_STACK_MAX \<Longrightarrow>
      take q stk = take q (finsh_vm_stack t) \<Longrightarrow> read_cell w' (stk ! q) = x \<Longrightarrow>
      leads calls (after t c stk (q + 1) m) c' p w (f x m)"
  shows "leads calls t (c @ c') p w (r \<bind> (\<lambda>(x, m). f x m))"
proof (cases r)
  case (Some xm)
  then obtain x m where r: "r = Some (x, m)" by (cases xm) simp
  then obtain stk where *: "length stk = FINSH_STACK_MAX" "take q stk = take q (finsh_vm_stack t)"
      "read_cell w' (stk ! q) = x"
      "finsh_vm_loop calls t = finsh_vm_loop calls (after t c stk (q + 1) m)"
    using assms(1) by (auto simp: leads_def)
  have "take p stk = take p (finsh_vm_stack t)"
    using *(2) assms(2) by (metis min.absorb1 take_take)
  then show ?thesis
    using leads_run [OF *(4)] assms(3) [OF r *(1-3)] r by simp
qed (use assms in \<open>simp add: leads_def\<close>)

subsection \<open>Expressions\<close>

text \<open>The cells an expression takes, and the values of the variables, which are in memory.\<close>

fun depth :: "fexp \<Rightarrow> nat" and depth_list :: "fexp list \<Rightarrow> nat" where
  "depth (EChar c) = 1"
| "depth (EInt n) = 1"
| "depth (ELong n) = 1"
| "depth (EPlace p) = 1"
| "depth (EBin op a b) = max (depth a) (1 + depth b)"
| "depth (ECompl a) = depth a"
| "depth (EAssign p b) = 1 + depth b"
| "depth (EIncr pre op i) = (if pre then 3 else 4)"
| "depth (ECall sc es) = 1 + depth_list es"
| "depth (EDeref a) = depth a"
| "depth (EStore a b) = max (depth a) (1 + depth b)"
| "depth (EAddr p) = 1"
| "depth_list [] = 0"
| "depth_list (e # es) = max (depth e) (1 + depth_list es)"

definition vars_mapped :: "addr \<Rightarrow> nat \<Rightarrow> ram \<Rightarrow> bool" where
  "vars_mapped base n m =
     (\<forall>i < n. \<forall>k \<in> set [0, 1, 2, 3]. var_value (global_variable base i) + k \<in> dom m)"

definition calls_keep :: "syscalls \<Rightarrow> bool" where
  "calls_keep calls = (\<forall>f ps m r m'. calls f ps m = Some (r, m') \<longrightarrow> dom m \<subseteq> dom m')"

lemma eval_list_dom:
  assumes "\<And>e m v m'. e \<in> set es \<Longrightarrow> eval base calls vs e m = Some (v, m') \<Longrightarrow> dom m \<subseteq> dom m'"
  shows "eval_list base calls vs es m = Some (xs, m') \<Longrightarrow> dom m \<subseteq> dom m'"
  using assms
proof (induction es arbitrary: m xs)
  case (Cons e es)
  then obtain x m1 ys where "eval base calls vs e m = Some (x, m1)"
      "eval_list base calls vs es m1 = Some (ys, m')"
    by (auto simp: bind_Some_conv)
  then show ?case using Cons by (meson list.set_intros order_trans)
qed simp

lemma store_dom: "store w m a v = Some m' \<Longrightarrow> dom m \<subseteq> dom m'"
  unfolding store_def by (rule store_bytes_dom)

lemma eval_dom:
  assumes "calls_keep calls"
  shows "eval base calls vs e m = Some (v, m') \<Longrightarrow> dom m \<subseteq> dom m'"
proof (induction e arbitrary: m v m')
  case (EBin op a b)
  then obtain x m1 y where "eval base calls vs a m = Some (x, m1)"
      "eval base calls vs b m1 = Some (y, m')"
    by (auto simp: bind_Some_conv)
  then show ?case using EBin.IH by blast
next
  case (EAssign p b)
  then obtain w y m1 where "eval base calls vs b m = Some (y, m1)"
      "store w m1 (place_addr base p) y = Some m'"
    by (auto simp: bind_Some_conv)
  then show ?case using EAssign.IH store_dom by blast
next
  case (EIncr pre op i)
  then obtain w a y where "store w m a y = Some m'"
    unfolding eval.simps bind_Some_conv by blast
  then show ?case by (rule store_dom)
next
  case (ECall sc es)
  obtain xs m1 where 1: "eval_list base calls vs es m = Some (xs, m1)"
    using ECall.prems by (cases "eval_list base calls vs es m") auto
  define ps where "ps = (if xs = [] then [0 :: u32] else map word_of_int xs)"
  obtain r where "calls (syscall_func sc) ps m1 = Some (r, m')"
    using ECall.prems 1 by (auto simp flip: ps_def simp: bind_Some_conv)
  note * = 1 this
  have "dom m \<subseteq> dom m1" by (rule eval_list_dom [OF ECall.IH *(1)])
  moreover have "dom m1 \<subseteq> dom m'" using assms *(2) unfolding calls_keep_def by metis
  ultimately show ?case by simp
next
  case (EStore a b)
  then obtain w x m1 y m2 where "eval base calls vs a m = Some (x, m1)"
      "eval base calls vs b m1 = Some (y, m2)" "store w m2 (word_of_int x) y = Some m'"
    by (auto simp: bind_Some_conv)
  then show ?case using EStore.IH store_dom by blast
qed (force simp: bind_Some_conv)+

lemma vars_mapped_mono: "vars_mapped base n m \<Longrightarrow> dom m \<subseteq> dom m' \<Longrightarrow> vars_mapped base n m'"
  by (auto simp: vars_mapped_def)

lemma vars_mapped_load32:
  "vars_mapped base n m \<Longrightarrow> i < n \<Longrightarrow> load32 m (var_value (global_variable base i)) \<noteq> None"
  by (fastforce simp: vars_mapped_def load32_def dom_def)

lemma load_low:
  assumes "load W32 m a = Some v" and "load w m a = Some x"
  shows "cast w v = x"
proof -
  have "char_value (FINSH_GET32 b0 b1 b2 b3) = b0"
    "short_value (FINSH_GET32 b0 b1 b2 b3) = FINSH_GET16 b0 b1" for b0 b1 b2 b3
    by (intro bit_word_eqI,
        auto simp: char_value_def short_value_def FINSH_GET32_def FINSH_GET16_def bit_simps)+
  moreover obtain d where "v = sint d" "load32 m a = Some d" using assms(1) by auto
  ultimately show ?thesis
    using assms(2) read_narrow [of w W32 d]
    by (cases w) (auto simp: load8_def load16_def load32_def bind_Some_conv)
qed

lemma width_yields: "width_of vs e = Some w \<Longrightarrow> w \<le> yields vs e"
  by (cases e) (auto simp: yields_def split: option.splits)

lemma load_range: "load w m a = Some v \<Longrightarrow> cast w v = v"
  by (cases w) auto

lemma cells_below:
  "take q stk = take q stk' \<Longrightarrow> length stk = n \<Longrightarrow> length stk' = n \<Longrightarrow> p < q \<Longrightarrow> stk ! p = stk' ! p"
  by (metis nth_take)

lemma leads_const:
  assumes "code_at s ([op_ld w] @ bytes w v)" and "finsh_sp s < FINSH_STACK_MAX"
  shows "leads calls s ([op_ld w] @ bytes w v) (finsh_sp s) w (Some (cast w v, vm_ram s))"
proof -
  have "length (finsh_vm_stack s) = FINSH_STACK_MAX" using assms(1) by (simp add: code_at_def)
  then have "leads calls s (([op_ld w] @ bytes w v) @ []) (finsh_sp s) w
      (Some (cast w v, vm_ram s))"
    using assms(2) by (intro leads_run [OF run_ld [OF assms]]) (auto intro!: leads_done)
  then show ?thesis by simp
qed

lemma leads_address:
  assumes "code_at s ([FINSH_OP_LD_DWORD] @ FINSH_SET32 a)" and "finsh_sp s < FINSH_STACK_MAX"
  shows "leads calls s ([FINSH_OP_LD_DWORD] @ FINSH_SET32 a) (finsh_sp s) W32
    (Some (sint a, vm_ram s))"
  using leads_const [of s W32 "sint a"] assms by simp

lemma leads_value:
  assumes "code_at s ([op_ld_value w] @ FINSH_SET32 a)" and "finsh_sp s < FINSH_STACK_MAX"
  shows "leads calls s ([op_ld_value w] @ FINSH_SET32 a) (finsh_sp s) w
    (load w (vm_ram s) a \<bind> (\<lambda>v. Some (v, vm_ram s)))"
proof -
  have "length (finsh_vm_stack s) = FINSH_STACK_MAX" using assms(1) by (simp add: code_at_def)
  then have "leads calls s (([op_ld_value w] @ FINSH_SET32 a) @ []) (finsh_sp s) w
      (load w (vm_ram s) a \<bind> (\<lambda>v. Some (v, vm_ram s)))"
    using assms(2)
    by (intro leads_step [OF run_ld_value [OF assms]]) (auto intro!: leads_done simp: load_range)
  then show ?thesis by simp
qed

text \<open>The tails of the operations, on operands that are on the stack already.\<close>

lemma leads_bin:
  assumes "code_at t [op_bin op w]" and "finsh_sp t = p + 2" "p + 2 \<le> FINSH_STACK_MAX"
    and "read_cell w (finsh_vm_stack t ! p) = x" "read_cell w (finsh_vm_stack t ! (p + 1)) = y"
  shows "leads calls t [op_bin op w] p w
    (bop_sem op x y \<bind> (\<lambda>r. Some (cast w r, vm_ram t)))"
proof -
  have l: "length (finsh_vm_stack t) = FINSH_STACK_MAX" using assms(1) by (simp add: code_at_def)
  have sp: "2 \<le> finsh_sp t" "finsh_sp t \<le> FINSH_STACK_MAX" "finsh_sp t - 2 = p"
      "finsh_sp t - 1 = p + 1"
    using assms(2,3) by simp_all
  have "leads calls t ([op_bin op w] @ []) p w
      (bop_sem op x y \<bind> (\<lambda>r. Some (cast w r, vm_ram t)))"
    by (rule leads_step [OF run_bin [OF assms(1) sp(1,2), unfolded sp(3,4) assms(4,5)]])
      (use l assms(3) in \<open>auto intro!: leads_done\<close>)
  then show ?thesis by simp
qed

lemma leads_ld_stack:
  assumes "code_at t [op_ld_stack w]" and "finsh_sp t = p + 1" "p + 1 \<le> FINSH_STACK_MAX"
    and "finsh_vm_stack t ! p = a"
  shows "leads calls t [op_ld_stack w] p w
    (load w (vm_ram t) a \<bind> (\<lambda>v. Some (v, vm_ram t)))"
proof -
  have l: "length (finsh_vm_stack t) = FINSH_STACK_MAX" using assms(1) by (simp add: code_at_def)
  have sp: "1 \<le> finsh_sp t" "finsh_sp t \<le> FINSH_STACK_MAX" "finsh_sp t - 1 = p"
    using assms(2,3) by simp_all
  have "leads calls t ([op_ld_stack w] @ []) p w
      (load w (vm_ram t) a \<bind> (\<lambda>v. Some (v, vm_ram t)))"
    by (rule leads_step [OF run_ld_stack [OF assms(1) sp(1,2), unfolded sp(3) assms(4)]])
      (use l assms(2,3) in \<open>auto intro!: leads_done simp: load_range\<close>)
  then show ?thesis by simp
qed

lemma store_cast: "w \<le> w' \<Longrightarrow> store w m a (cast w' v) = store w m a v"
  by (simp add: store_def bytes_cast)

text \<open>A store and the load that follows it.\<close>

lemma leads_store:
  assumes "code_at t [op_st w, op_ld_stack w]" and "finsh_sp t = p + 2" "p + 2 \<le> FINSH_STACK_MAX"
    and "finsh_vm_stack t ! p = a" "read_cell w (finsh_vm_stack t ! (p + 1)) = cast w y"
  shows "leads calls t [op_st w, op_ld_stack w] p w
    (store w (vm_ram t) a y \<bind> (\<lambda>m. Some (cast w y, m)))"
proof -
  have c: "code_at t ([op_st w] @ [op_ld_stack w])" using assms(1) by simp
  have l: "length (finsh_vm_stack t) = FINSH_STACK_MAX" using assms(1) by (simp add: code_at_def)
  have sp: "2 \<le> finsh_sp t" "finsh_sp t \<le> FINSH_STACK_MAX" "finsh_sp t - 2 = p"
      "finsh_sp t - 1 = p + 1"
    using assms(2,3) by simp_all
  note st = run_st [OF conjunct1 [OF code_at_append [OF c]] sp(1,2),
      unfolded sp(3,4) assms(4,5) store_cast [OF order_refl]]
  have "leads calls t ([op_st w] @ [op_ld_stack w]) p w
      (store w (vm_ram t) a y \<bind> (\<lambda>m. Some (cast w y, m)))"
  proof (rule leads_step [OF st], rule conjI)
    fix m assume m: "store w (vm_ram t) a y = Some m"
    let ?t = "after t [op_st w] (finsh_vm_stack t) (p + 1) m"
    have "code_at ?t [op_ld_stack w]" using code_at_append [OF c] l by blast
    from leads_ld_stack [OF this, of p a] show "leads calls ?t [op_ld_stack w] p w (Some (cast w y, m))"
      using assms(3,4) load_store [OF m] by simp
  qed simp
  then show ?thesis by simp
qed

text \<open>The machine on the arguments of a call: one cell after the other.\<close>

definition leads_list ::
    "syscalls \<Rightarrow> vm \<Rightarrow> u8 list \<Rightarrow> nat \<Rightarrow> nat \<Rightarrow> (int list \<times> ram) option \<Rightarrow> bool" where
  "leads_list calls t c p n r =
    (case r of
       None \<Rightarrow> finsh_vm_loop calls t = None
     | Some (xs, m) \<Rightarrow>
         length xs = n \<and>
         (\<exists>stk. length stk = FINSH_STACK_MAX \<and> take p stk = take p (finsh_vm_stack t) \<and>
           map (\<lambda>i. stk ! (p + i)) [0..<n] = map word_of_int xs \<and>
           finsh_vm_loop calls t = finsh_vm_loop calls (after t c stk (p + n) m)))"

definition runs_well :: "addr \<Rightarrow> syscalls \<Rightarrow> finsh_var list \<Rightarrow> fexp \<Rightarrow> bool" where
  "runs_well base calls vs e =
    (\<forall>s. code_at s (code_of base vs e) \<longrightarrow> finsh_sp s + depth e \<le> FINSH_STACK_MAX \<longrightarrow>
      vars_mapped base (length vs) (vm_ram s) \<longrightarrow>
      leads calls s (code_of base vs e) (finsh_sp s) (yields vs e) (eval base calls vs e (vm_ram s)))"

lemma runs_wellD:
  "runs_well base calls vs e \<Longrightarrow> code_at s (code_of base vs e) \<Longrightarrow>
    finsh_sp s + depth e \<le> FINSH_STACK_MAX \<Longrightarrow> vars_mapped base (length vs) (vm_ram s) \<Longrightarrow>
    leads calls s (code_of base vs e) (finsh_sp s) (yields vs e) (eval base calls vs e (vm_ram s))"
  by (simp add: runs_well_def)

lemma runs_list:
  assumes "calls_keep calls"
  shows "\<forall>e \<in> set es. runs_well base calls vs e \<and> yields vs e = W32 \<Longrightarrow>
    code_at s (concat (map (code_of base vs) es)) \<Longrightarrow>
    finsh_sp s + depth_list es \<le> FINSH_STACK_MAX \<Longrightarrow> vars_mapped base (length vs) (vm_ram s) \<Longrightarrow>
    leads_list calls s (concat (map (code_of base vs) es)) (finsh_sp s) (length es)
      (eval_list base calls vs es (vm_ram s))"
proof (induction es arbitrary: s)
  case Nil
  then show ?case
    by (auto simp: leads_list_def code_at_def intro!: exI [of _ "finsh_vm_stack s"])
next
  case (Cons e es)
  let ?c = "code_of base vs e" and ?d = "concat (map (code_of base vs) es)" and ?p = "finsh_sp s"
  have c: "code_at s (?c @ ?d)" using Cons.prems(2) by simp
  have e: "leads calls s ?c ?p W32 (eval base calls vs e (vm_ram s))"
    using runs_wellD [of base calls vs e s] Cons.prems code_at_append [OF c] by simp
  show ?case
  proof (cases "eval base calls vs e (vm_ram s)")
    case None
    then show ?thesis using e by (simp add: leads_list_def leads_def)
  next
    case (Some xm)
    then obtain x m where xm: "eval base calls vs e (vm_ram s) = Some (x, m)" by (cases xm) simp
    from e obtain stk where stk: "length stk = FINSH_STACK_MAX"
        "take ?p stk = take ?p (finsh_vm_stack s)" "sint (stk ! ?p) = x"
        "finsh_vm_loop calls s = finsh_vm_loop calls (after s ?c stk (?p + 1) m)"
      by (auto simp: xm leads_def)
    let ?t = "after s ?c stk (?p + 1) m"
    have "vars_mapped base (length vs) m"
      using vars_mapped_mono [OF Cons.prems(4) eval_dom [OF assms xm]] .
    then have es: "leads_list calls ?t ?d (?p + 1) (length es) (eval_list base calls vs es m)"
      using Cons.IH [of ?t] Cons.prems(1,3) code_at_append [OF c] stk(1) by simp
    show ?thesis
    proof (cases "eval_list base calls vs es m")
      case None
      then show ?thesis using es stk(4) xm by (simp add: leads_list_def)
    next
      case (Some xsm)
      then obtain xs m' where xsm: "eval_list base calls vs es m = Some (xs, m')"
        by (cases xsm) simp
      from es obtain stk' where stk': "length xs = length es" "length stk' = FINSH_STACK_MAX"
          "take (?p + 1) stk' = take (?p + 1) stk"
          "map (\<lambda>i. stk' ! (?p + 1 + i)) [0..<length es] = map word_of_int xs"
          "finsh_vm_loop calls ?t = finsh_vm_loop calls (after ?t ?d stk' (?p + 1 + length es) m')"
        by (auto simp: xsm leads_list_def)
      have "stk' ! ?p = stk ! ?p" using cells_below [OF stk'(3,2) stk(1)] by simp
      then have p: "stk' ! ?p = word_of_int x" using stk(3) by auto
      have "take ?p stk' = take ?p stk" using stk'(3) by (metis min.absorb1 le_add1 take_take)
      moreover have "map (\<lambda>i. stk' ! (?p + i)) [0..<Suc (length es)] = map word_of_int (x # xs)"
        using p stk'(4) unfolding upt_conv_Cons [OF zero_less_Suc] map_Suc_upt [symmetric]
        by (simp add: comp_def)
      ultimately show ?thesis using stk stk' xm xsm
        by (auto simp: leads_list_def simp del: upt_Suc intro!: exI [of _ stk'])
    qed
  qed
qed

lemma depth_positive: "1 \<le> depth e"
  by (induction e) auto

text \<open>Two operands, and a tail that works on their cells.\<close>

lemma leads_two:
  fixes s :: vm
  defines "p \<equiv> finsh_sp s"
  assumes "calls_keep calls" and a: "runs_well base calls vs a" and b: "runs_well base calls vs b"
    and c: "code_at s (code_of base vs a @ code_of base vs b @ rest)"
    and d: "p + max (depth a) (1 + depth b) \<le> FINSH_STACK_MAX"
    and v: "vars_mapped base (length vs) (vm_ram s)"
    and rest: "\<And>x y u. code_at u rest \<Longrightarrow> finsh_sp u = p + 2 \<Longrightarrow> p + 2 \<le> FINSH_STACK_MAX \<Longrightarrow>
      read_cell (yields vs a) (finsh_vm_stack u ! p) = x \<Longrightarrow>
      read_cell (yields vs b) (finsh_vm_stack u ! (p + 1)) = y \<Longrightarrow>
      leads calls u rest p w (f x y (vm_ram u))"
  shows "leads calls s (code_of base vs a @ code_of base vs b @ rest) p w
    (eval base calls vs a (vm_ram s) \<bind> (\<lambda>(x, m). eval base calls vs b m \<bind> (\<lambda>(y, m). f x y m)))"
proof (rule leads_bind [OF runs_wellD [OF a, of s, folded p_def] order_refl])
  let ?ca = "code_of base vs a" and ?cb = "code_of base vs b"
  show "code_at s ?ca" using code_at_append [OF c] by simp
  show "p + depth a \<le> FINSH_STACK_MAX" using d by simp
  show "vars_mapped base (length vs) (vm_ram s)" by (rule v)
  fix x m stk
  assume x: "eval base calls vs a (vm_ram s) = Some (x, m)" "length stk = FINSH_STACK_MAX"
    "read_cell (yields vs a) (stk ! p) = x"
  let ?t = "after s ?ca stk (p + 1) m"
  have c: "code_at ?t (?cb @ rest)" using code_at_append [OF c] x(2) by simp
  show "leads calls ?t (?cb @ rest) p w (eval base calls vs b m \<bind> (\<lambda>(y, m). f x y m))"
  proof (rule leads_bind [OF runs_wellD [OF b, of ?t, unfolded after_simps]])
    show "code_at ?t ?cb" using code_at_append [OF c] by simp
    show "p + 1 + depth b \<le> FINSH_STACK_MAX" using d by simp
    show "vars_mapped base (length vs) m"
      by (rule vars_mapped_mono [OF v eval_dom [OF assms(2) x(1)]])
    fix y m' stk'
    assume y: "length stk' = FINSH_STACK_MAX" "take (p + 1) stk' = take (p + 1) (finsh_vm_stack ?t)"
      "read_cell (yields vs b) (stk' ! (p + 1)) = y"
    let ?u = "after ?t ?cb stk' (p + 1 + 1) m'"
    have "stk' ! p = stk ! p" using cells_below [OF y(2,1)] x(2) by simp
    then have "read_cell (yields vs a) (stk' ! p) = x" using x(3) by simp
    moreover have "code_at ?u rest" using code_at_append [OF c] y(1) by blast
    moreover have "p + 2 \<le> FINSH_STACK_MAX" using d depth_positive [of b] by simp
    ultimately show "leads calls ?u rest p w (f x y m')"
      using rest [of ?u x y] y(3) by simp
  qed simp
qed

lemma runs_bin:
  assumes "calls_keep calls" and "runs_well base calls vs a" "runs_well base calls vs b"
    and "supported vs (EBin op a b)"
  shows "runs_well base calls vs (EBin op a b)"
  unfolding runs_well_def
proof (intro allI impI)
  fix s :: vm
  let ?e = "EBin op a b" and ?p = "finsh_sp s"
  assume c: "code_at s (code_of base vs ?e)" and d: "?p + depth ?e \<le> FINSH_STACK_MAX"
    and v: "vars_mapped base (length vs) (vm_ram s)"
  from assms(4) obtain w where w: "width_of vs a = Some w" "w \<le> yields vs b"
    by (auto split: option.splits)
  note narrow = read_narrow [OF width_yields [OF w(1)]] read_narrow [OF w(2)]
  have "leads calls s (code_of base vs a @ code_of base vs b @ [op_bin op w]) ?p w
     (eval base calls vs a (vm_ram s) \<bind> (\<lambda>(x, m). eval base calls vs b m \<bind>
       (\<lambda>(y, m). bop_sem op (cast w x) (cast w y) \<bind> (\<lambda>r. Some (cast w r, m)))))"
  proof (rule leads_two [OF assms(1-3)])
    fix x y and u :: vm
    assume "code_at u [op_bin op w]" "finsh_sp u = ?p + 2" "?p + 2 \<le> FINSH_STACK_MAX"
      and "read_cell (yields vs a) (finsh_vm_stack u ! ?p) = x"
      and "read_cell (yields vs b) (finsh_vm_stack u ! (?p + 1)) = y"
    then show "leads calls u [op_bin op w] ?p w
        (bop_sem op (cast w x) (cast w y) \<bind> (\<lambda>r. Some (cast w r, vm_ram u)))"
      using narrow(1) [of "finsh_vm_stack u ! ?p"] narrow(2) [of "finsh_vm_stack u ! (?p + 1)"]
      by (intro leads_bin) simp_all
  qed (use c d v w in simp_all)
  then show "leads calls s (code_of base vs ?e) ?p (yields vs ?e) (eval base calls vs ?e (vm_ram s))"
    using w by (simp add: yields_def case_prod_unfold)
qed

lemma runs_store:
  assumes "calls_keep calls" and "runs_well base calls vs a" "runs_well base calls vs b"
    and "supported vs (EStore a b)"
  shows "runs_well base calls vs (EStore a b)"
  unfolding runs_well_def
proof (intro allI impI)
  fix s :: vm
  let ?e = "EStore a b" and ?p = "finsh_sp s"
  assume c: "code_at s (code_of base vs ?e)" and d: "?p + depth ?e \<le> FINSH_STACK_MAX"
    and v: "vars_mapped base (length vs) (vm_ram s)"
  from assms(4) obtain w where w: "width_of vs a = Some w" "w \<le> yields vs b"
      "yields vs a = W32"
    by (auto split: option.splits)
  note narrow = read_narrow [OF w(2)]
  have "leads calls s (code_of base vs a @ code_of base vs b @ [op_st w, op_ld_stack w]) ?p w
     (eval base calls vs a (vm_ram s) \<bind> (\<lambda>(x, m). eval base calls vs b m \<bind>
       (\<lambda>(y, m). store w m (word_of_int x) y \<bind> (\<lambda>m. Some (cast w y, m)))))"
    by (rule leads_two [OF assms(1-3)])
      (use c d v w in \<open>simp_all, auto intro!: leads_store simp: narrow\<close>)
  then show "leads calls s (code_of base vs ?e) ?p (yields vs ?e) (eval base calls vs ?e (vm_ram s))"
    using w by (simp add: yields_def case_prod_unfold)
qed

lemma cast_compl: "cast w (NOT (cast w x)) = cast w (NOT x)"
proof -
  have "word_of_int (NOT (uint b)) = NOT b" "word_of_int (NOT (sint h)) = NOT h"
    "word_of_int (NOT (sint d)) = NOT d" "NOT (word_of_int x :: u8) = word_of_int (NOT x)"
    "NOT (word_of_int x :: u16) = word_of_int (NOT x)" "NOT (word_of_int x :: u32) = word_of_int (NOT x)"
    for b :: u8 and h :: u16 and d :: u32
    by (rule bit_word_eqI, simp add: bit_simps)+
  then show ?thesis by (cases w) (simp_all del: word_of_int_uint)
qed

lemma leads_compl:
  assumes "code_at t [op_compl w]" and "finsh_sp t = p + 1" "p + 1 \<le> FINSH_STACK_MAX"
    and "read_cell w (finsh_vm_stack t ! p) = cast w x"
  shows "leads calls t [op_compl w] p w (Some (cast w (NOT x), vm_ram t))"
proof -
  have l: "length (finsh_vm_stack t) = FINSH_STACK_MAX" using assms(1) by (simp add: code_at_def)
  have sp: "1 \<le> finsh_sp t" "finsh_sp t \<le> FINSH_STACK_MAX" "finsh_sp t - 1 = p"
    using assms(2,3) by simp_all
  have "leads calls t ([op_compl w] @ []) p w (Some (cast w (NOT x), vm_ram t))"
    by (rule leads_run [OF run_compl [OF assms(1) sp(1,2), unfolded sp(3) assms(4)]])
      (use l assms(2,3) in \<open>auto intro!: leads_done simp: cast_compl\<close>)
  then show ?thesis by simp
qed

lemma runs_place:
  assumes "supported vs (EPlace p)"
  shows "runs_well base calls vs (EPlace p)"
proof -
  from assms obtain w where "place_width vs p = Some w" by auto
  then show ?thesis using leads_value [of _ w "place_addr base p" calls]
    by (simp add: runs_well_def yields_def)
qed

lemma runs_compl:
  assumes a: "runs_well base calls vs a" and "supported vs (ECompl a)"
  shows "runs_well base calls vs (ECompl a)"
  unfolding runs_well_def
proof (intro allI impI)
  fix s :: vm
  let ?e = "ECompl a" and ?p = "finsh_sp s"
  assume c: "code_at s (code_of base vs ?e)" and d: "?p + depth ?e \<le> FINSH_STACK_MAX"
    and v: "vars_mapped base (length vs) (vm_ram s)"
  from assms(2) obtain w where w: "width_of vs a = Some w" by auto
  have c: "code_at s (code_of base vs a @ [op_compl w])" using c w by simp
  have "leads calls s (code_of base vs a @ [op_compl w]) ?p w
     (eval base calls vs a (vm_ram s) \<bind> (\<lambda>(x, m). Some (cast w (NOT x), m)))"
  proof (rule leads_bind [OF runs_wellD [OF a] order_refl])
    fix x m stk
    assume stk: "length stk = FINSH_STACK_MAX" "read_cell (yields vs a) (stk ! ?p) = x"
    have "code_at (after s (code_of base vs a) stk (?p + 1) m) [op_compl w]"
      using code_at_append [OF c] stk(1) by blast
    then show "leads calls (after s (code_of base vs a) stk (?p + 1) m) [op_compl w] ?p w
        (Some (cast w (NOT x), m))"
      using leads_compl [of "after s (code_of base vs a) stk (?p + 1) m" w ?p x calls]
        read_narrow [OF width_yields [OF w]] stk(2) d depth_positive [of a] by simp
  qed (use code_at_append [OF c] d v in simp_all)
  then show "leads calls s (code_of base vs ?e) ?p (yields vs ?e) (eval base calls vs ?e (vm_ram s))"
    using w by (simp add: yields_def)
qed

lemma runs_deref:
  assumes a: "runs_well base calls vs a" and "supported vs (EDeref a)"
  shows "runs_well base calls vs (EDeref a)"
  unfolding runs_well_def
proof (intro allI impI)
  fix s :: vm
  let ?e = "EDeref a" and ?p = "finsh_sp s"
  assume c: "code_at s (code_of base vs ?e)" and d: "?p + depth ?e \<le> FINSH_STACK_MAX"
    and v: "vars_mapped base (length vs) (vm_ram s)"
  from assms(2) obtain w where w: "width_of vs a = Some w" and y: "yields vs a = W32" by auto
  have c: "code_at s (code_of base vs a @ [op_ld_stack w])" using c w by simp
  have "leads calls s (code_of base vs a @ [op_ld_stack w]) ?p w
     (eval base calls vs a (vm_ram s) \<bind>
       (\<lambda>(x, m). load w m (word_of_int x) \<bind> (\<lambda>v. Some (v, m))))"
  proof (rule leads_bind [OF runs_wellD [OF a] order_refl])
    fix x m stk
    assume stk: "length stk = FINSH_STACK_MAX" "read_cell (yields vs a) (stk ! ?p) = x"
    have "code_at (after s (code_of base vs a) stk (?p + 1) m) [op_ld_stack w]"
      using code_at_append [OF c] stk(1) by blast
    then show "leads calls (after s (code_of base vs a) stk (?p + 1) m) [op_ld_stack w] ?p w
        (load w m (word_of_int x) \<bind> (\<lambda>v. Some (v, m)))"
      using leads_ld_stack [of "after s (code_of base vs a) stk (?p + 1) m" w ?p "word_of_int x" calls]
        stk(2) y d depth_positive [of a] by auto
  qed (use code_at_append [OF c] d v in simp_all)
  then show "leads calls s (code_of base vs ?e) ?p (yields vs ?e) (eval base calls vs ?e (vm_ram s))"
    using w by (simp add: yields_def)
qed

lemma runs_assign:
  assumes b: "runs_well base calls vs b" and "supported vs (EAssign p b)"
  shows "runs_well base calls vs (EAssign p b)"
  unfolding runs_well_def
proof (intro allI impI)
  fix s :: vm
  let ?e = "EAssign p b" and ?p = "finsh_sp s" and ?a = "place_addr base p"
  let ?ca = "[FINSH_OP_LD_DWORD] @ FINSH_SET32 ?a" and ?cb = "code_of base vs b"
  assume c: "code_at s (code_of base vs ?e)" and d: "?p + depth ?e \<le> FINSH_STACK_MAX"
    and v: "vars_mapped base (length vs) (vm_ram s)"
  from assms(2) obtain w where w: "place_width vs p = Some w" "w \<le> yields vs b"
    by (auto split: option.splits)
  let ?st = "[op_st w, op_ld_stack w]"
  have c: "code_at s (?ca @ ?cb @ ?st)" using c w by simp
  have "leads calls s (?ca @ ?cb @ ?st) ?p w (Some (sint ?a, vm_ram s) \<bind> (\<lambda>(x, m).
      eval base calls vs b m \<bind> (\<lambda>(y, m). store w m ?a y \<bind> (\<lambda>m. Some (cast w y, m)))))"
  proof (rule leads_bind [OF leads_address order_refl])
    show "code_at s ?ca" using code_at_append [OF c] by blast
    show "?p < FINSH_STACK_MAX" using d by simp
    fix x m stk
    assume x: "Some (sint ?a, vm_ram s) = Some (x, m)" "length stk = FINSH_STACK_MAX"
      "read_cell W32 (stk ! ?p) = x"
    let ?t = "after s ?ca stk (?p + 1) m"
    have c: "code_at ?t (?cb @ ?st)" using code_at_append [OF c] x(2) by blast
    show "leads calls ?t (?cb @ ?st) ?p w (eval base calls vs b m \<bind>
        (\<lambda>(y, m). store w m ?a y \<bind> (\<lambda>m. Some (cast w y, m))))"
    proof (rule leads_bind [OF runs_wellD [OF b, of ?t, unfolded after_simps]])
      show "code_at ?t ?cb" using code_at_append [OF c] by blast
      show "?p + 1 + depth b \<le> FINSH_STACK_MAX" using d by simp
      show "vars_mapped base (length vs) m" using v x(1) by simp
      fix y m' stk'
      assume y: "length stk' = FINSH_STACK_MAX"
        "take (?p + 1) stk' = take (?p + 1) (finsh_vm_stack ?t)"
        "read_cell (yields vs b) (stk' ! (?p + 1)) = y"
      let ?u = "after ?t ?cb stk' (?p + 1 + 1) m'"
      have "stk' ! ?p = stk ! ?p" using cells_below [OF y(2,1)] x(2) by simp
      then have "stk' ! ?p = ?a" using x(1,3) by (simp, metis signed_word_eqI)
      moreover have "code_at ?u ?st" using code_at_append [OF c] y(1) by blast
      moreover have "?p + 2 \<le> FINSH_STACK_MAX" using d depth_positive [of b] by simp
      ultimately show "leads calls ?u ?st ?p w
          (store w m' ?a y \<bind> (\<lambda>m. Some (cast w y, m)))"
        using leads_store [of ?u w ?p ?a y calls] y(3) read_narrow [OF w(2)] by simp
    qed simp
  qed
  then show "leads calls s (code_of base vs ?e) ?p (yields vs ?e) (eval base calls vs ?e (vm_ram s))"
    using w by (simp add: yields_def)
qed

text \<open>The tail of an increment: the address and the value are on the stack.\<close>

lemma leads_incr:
  assumes c: "code_at t ([op_ld w] @ bytes w 1 @ [op_bin op w, op_st w] @ rest)"
    and sp: "finsh_sp t = p + 2" "p + 3 \<le> FINSH_STACK_MAX"
    and "finsh_vm_stack t ! p = a" "read_cell w (finsh_vm_stack t ! (p + 1)) = x"
    and "q \<le> p"
    and rest: "\<And>stk r m. store w (vm_ram t) a r = Some m \<Longrightarrow> bop_sem op x 1 = Some r \<Longrightarrow>
      length stk = FINSH_STACK_MAX \<Longrightarrow> take (p + 1) stk = take (p + 1) (finsh_vm_stack t) \<Longrightarrow>
      leads calls (after t ([op_ld w] @ bytes w 1 @ [op_bin op w, op_st w]) stk (p + 1) m) rest q w'
        (f r m)"
  shows "leads calls t ([op_ld w] @ bytes w 1 @ [op_bin op w, op_st w] @ rest) q w'
    (bop_sem op x 1 \<bind> (\<lambda>r. store w (vm_ram t) a r \<bind> f r))"
proof -
  let ?c1 = "[op_ld w] @ bytes w 1" and ?c2 = "[op_bin op w]" and ?c3 = "[op_st w]"
  let ?stk1 = "(finsh_vm_stack t)[p + 2 := put_cell w 1 (finsh_vm_stack t ! (p + 2))]"
  let ?t1 = "after t ?c1 ?stk1 (p + 2 + 1) (vm_ram t)"
  have c: "code_at t (?c1 @ ?c2 @ ?c3 @ rest)" using c by simp
  have l: "length (finsh_vm_stack t) = FINSH_STACK_MAX" using c by (simp add: code_at_def)
  have one: "cast w 1 = 1" by (cases w) simp_all
  have c1: "code_at ?t1 (?c2 @ ?c3 @ rest)" using code_at_append [OF c] l by simp
  have "leads calls t (?c1 @ ?c2 @ ?c3 @ rest) q w'
      (bop_sem op x 1 \<bind> (\<lambda>r. store w (vm_ram t) a r \<bind> f r))"
  proof (rule leads_run [where ?c = ?c1 and stk = ?stk1 and q = "p + 2 + 1"])
    show "finsh_vm_loop calls t = finsh_vm_loop calls ?t1"
      using run_ld [OF conjunct1 [OF code_at_append [OF c]], of calls] sp by simp
    show "take q ?stk1 = take q (finsh_vm_stack t)" using assms(6) by simp
    let ?stk2 = "\<lambda>r. ?stk1[p + 1 := put_cell w r (?stk1 ! (p + 1))]"
    let ?t2 = "\<lambda>r. after ?t1 ?c2 (?stk2 r) (p + 2) (vm_ram t)"
    show "leads calls ?t1 (?c2 @ ?c3 @ rest) q w'
        (bop_sem op x 1 \<bind> (\<lambda>r. store w (vm_ram t) a r \<bind> f r))"
    proof (rule leads_step [where stk = ?stk2 and q = "\<lambda>_. p + 2" and m = "\<lambda>_. vm_ram t"],
        goal_cases)
      case 1
      then show ?case
        using run_bin [OF conjunct1 [OF code_at_append [OF c1]], of calls] sp l assms(5) one
        by simp
    next
      case (2 r)
      have c2: "code_at (?t2 r) (?c3 @ rest)"
        using code_at_append [OF c1, of "?stk2 r" "p + 2" "vm_ram t"] l by simp
      have "finsh_vm_loop calls (?t2 r) = store w (vm_ram t) a r \<bind>
          (\<lambda>m. finsh_vm_loop calls (after (?t2 r) ?c3 (?stk2 r) (p + 1) m))"
        using run_st [OF conjunct1 [OF code_at_append [OF c2]], of calls] sp l assms(4)
        by (simp add: store_cast)
      then have "leads calls (?t2 r) (?c3 @ rest) q w' (store w (vm_ram t) a r \<bind> f r)"
      proof (rule leads_step)
        fix m assume m: "store w (vm_ram t) a r = Some m"
        have "take (p + 1) (?stk2 r) = take (p + 1) (finsh_vm_stack t)" by simp
        from rest [OF m 2 _ this] show "take q (?stk2 r) = take q (finsh_vm_stack (?t2 r)) \<and>
            leads calls (after (?t2 r) ?c3 (?stk2 r) (p + 1) m) rest q w' (f r m)"
          using l by simp
      qed
      then show ?case using assms(6) by simp
    qed
  qed
  then show ?thesis by simp
qed

lemma leads_reload:
  assumes "code_at t [FINSH_OP_LD_VALUE_DWORD_STACK]" and "finsh_sp t = p + 1"
    and "p + 1 \<le> FINSH_STACK_MAX" and "finsh_vm_stack t ! p = a"
    and "load w (vm_ram t) a = Some v" "load32 (vm_ram t) a \<noteq> None"
  shows "leads calls t [FINSH_OP_LD_VALUE_DWORD_STACK] p w (Some (v, vm_ram t))"
proof -
  obtain d where d: "load W32 (vm_ram t) a = Some d" using assms(6) by auto
  have c: "code_at t [op_ld_stack W32]" using assms(1) by simp
  have l: "length (finsh_vm_stack t) = FINSH_STACK_MAX" using assms(1) by (simp add: code_at_def)
  have sp: "1 \<le> finsh_sp t" "finsh_sp t \<le> FINSH_STACK_MAX" "finsh_sp t - 1 = p"
    using assms(2,3) by simp_all
  have "read_cell w (word_of_int d) = v"
    using read_narrow [of w W32 "word_of_int d"] load_low [OF d assms(5)] cast_cast [of w W32 d]
    by simp
  then have "leads calls t ([op_ld_stack W32] @ []) p w (Some (v, vm_ram t))"
    by (intro leads_run [OF run_ld_stack [OF c sp(1,2), unfolded sp(3) assms(4) d bind.bind_lunit]])
      (use l assms(2,3) in \<open>auto intro!: leads_done\<close>)
  then show ?thesis by simp
qed

lemma leads_pop:
  assumes "code_at t [FINSH_OP_POP]" and "finsh_sp t = p + 2"
    and "read_cell w (finsh_vm_stack t ! p) = v"
  shows "leads calls t [FINSH_OP_POP] p w (Some (v, vm_ram t))"
proof -
  have l: "length (finsh_vm_stack t) = FINSH_STACK_MAX" using assms(1) by (simp add: code_at_def)
  have sp: "1 \<le> finsh_sp t" "finsh_sp t - 1 = p + 1" using assms(2) by simp_all
  have "leads calls t ([FINSH_OP_POP] @ []) p w (Some (v, vm_ram t))"
    by (rule leads_run [OF run_pop [OF assms(1) sp(1), unfolded sp(2)]])
      (use l assms(3) in \<open>auto intro!: leads_done\<close>)
  then show ?thesis by simp
qed

lemma runs_preinc:
  assumes w: "place_width vs (Var i) = Some w"
  shows "runs_well base calls vs (EIncr True op i)"
  unfolding runs_well_def
proof (intro allI impI)
  fix s :: vm
  let ?e = "EIncr True op i" and ?p = "finsh_sp s" and ?a = "place_addr base (Var i)"
  let ?ca = "[FINSH_OP_LD_DWORD] @ FINSH_SET32 ?a" and ?cv = "[op_ld_value w] @ FINSH_SET32 ?a"
  let ?c1 = "[op_ld w] @ bytes w 1 @ [op_bin op w, op_st w]"
  let ?cl = "[FINSH_OP_LD_VALUE_DWORD_STACK]"
  assume c: "code_at s (code_of base vs ?e)" and d: "?p + depth ?e \<le> FINSH_STACK_MAX"
    and v: "vars_mapped base (length vs) (vm_ram s)"
  have i: "i < length vs" using w by (auto split: if_splits)
  have c: "code_at s (?ca @ ?cv @ ?c1 @ ?cl)" using c w by (simp add: code_incr_def)
  have "leads calls s (?ca @ ?cv @ ?c1 @ ?cl) ?p w (Some (sint ?a, vm_ram s) \<bind> (\<lambda>(_, m).
      load w m ?a \<bind> (\<lambda>x. Some (x, m)) \<bind> (\<lambda>(x, m). bop_sem op x 1 \<bind>
        (\<lambda>r. store w m ?a r \<bind> (\<lambda>m. Some (cast w r, m))))))"
  proof (rule leads_bind [OF leads_address order_refl])
    show "code_at s ?ca" using code_at_append [OF c] by blast
    show "?p < FINSH_STACK_MAX" using d by simp
    fix x m stk
    assume x: "Some (sint ?a, vm_ram s) = Some (x, m)" "length stk = FINSH_STACK_MAX"
      "read_cell W32 (stk ! ?p) = x"
    let ?t = "after s ?ca stk (?p + 1) m"
    have a: "stk ! ?p = ?a" using x(1,3) by (simp, metis signed_word_eqI)
    have c: "code_at ?t (?cv @ ?c1 @ ?cl)" using code_at_append [OF c] x(2) by blast
    show "leads calls ?t (?cv @ ?c1 @ ?cl) ?p w (load w m ?a \<bind> (\<lambda>x. Some (x, m)) \<bind>
        (\<lambda>(x, m). bop_sem op x 1 \<bind> (\<lambda>r. store w m ?a r \<bind> (\<lambda>m. Some (cast w r, m)))))"
    proof (rule leads_bind [OF leads_value [of ?t, unfolded after_simps]])
      show "code_at ?t ?cv" using code_at_append [OF c] by blast
      show "?p + 1 < FINSH_STACK_MAX" using d by simp
      fix y m' stk'
      assume y: "load w m ?a \<bind> (\<lambda>x. Some (x, m)) = Some (y, m')"
        "length stk' = FINSH_STACK_MAX"
        "take (?p + 1) stk' = take (?p + 1) (finsh_vm_stack ?t)" "read_cell w (stk' ! (?p + 1)) = y"
      let ?u = "after ?t ?cv stk' (?p + 1 + 1) m'"
      have m: "m' = vm_ram s" using x(1) y(1) by (auto simp: bind_Some_conv)
      have a': "stk' ! ?p = ?a" using cells_below [OF y(3,2)] x(2) a by simp
      have c: "code_at ?u (?c1 @ ?cl)" using code_at_append [OF c] y(2) by blast
      show "leads calls ?u (?c1 @ ?cl) ?p w
          (bop_sem op y 1 \<bind> (\<lambda>r. store w m' ?a r \<bind> (\<lambda>m. Some (cast w r, m))))"
        unfolding append.assoc
      proof (rule leads_incr [of ?u w op ?cl ?p ?a y ?p, unfolded after_simps])
        fix stk'' r m''
        assume r: "store w m' ?a r = Some m''" "length stk'' = FINSH_STACK_MAX"
          "take (?p + 1) stk'' = take (?p + 1) stk'"
        have "vars_mapped base (length vs) m''"
          using vars_mapped_mono [OF v store_dom [OF r(1) [unfolded m]]] .
        then have "load32 m'' ?a \<noteq> None" using vars_mapped_load32 i by simp
        moreover have "stk'' ! ?p = ?a" using cells_below [OF r(3,2) y(2)] a' by simp
        ultimately show "leads calls (after ?u ?c1 stk'' (?p + 1) m'') ?cl ?p w
            (Some (cast w r, m''))"
          using leads_reload [of "after ?u ?c1 stk'' (?p + 1) m''" ?p ?a w "cast w r" calls]
            load_store [OF r(1)] code_at_append [OF c] r(2) d by simp
      qed (use c d a' y(4) in simp_all)
    qed simp
  qed
  then show "leads calls s (code_of base vs ?e) ?p (yields vs ?e) (eval base calls vs ?e (vm_ram s))"
    using w by (simp add: yields_def code_incr_def)
qed

lemma runs_postinc:
  assumes w: "place_width vs (Var i) = Some w"
  shows "runs_well base calls vs (EIncr False op i)"
  unfolding runs_well_def
proof (intro allI impI)
  fix s :: vm
  let ?e = "EIncr False op i" and ?p = "finsh_sp s" and ?a = "place_addr base (Var i)"
  let ?ca = "[FINSH_OP_LD_DWORD] @ FINSH_SET32 ?a" and ?cv = "[op_ld_value w] @ FINSH_SET32 ?a"
  let ?c1 = "[op_ld w] @ bytes w 1 @ [op_bin op w, op_st w]" and ?cp = "[FINSH_OP_POP]"
  assume c: "code_at s (code_of base vs ?e)" and d: "?p + depth ?e \<le> FINSH_STACK_MAX"
  have c: "code_at s (?cv @ ?ca @ ?cv @ ?c1 @ ?cp)" using c w by (simp add: code_incr_def)
  let ?ld = "\<lambda>m. load w m ?a \<bind> (\<lambda>x. Some (x, m))"
  let ?st = "\<lambda>x m y. bop_sem op y 1 \<bind> (\<lambda>r. store w m ?a r \<bind> (\<lambda>m. Some (x, m)))"
  have "leads calls s (?cv @ ?ca @ ?cv @ ?c1 @ ?cp) ?p w (?ld (vm_ram s) \<bind> (\<lambda>(x, m).
      Some (sint ?a, m) \<bind> (\<lambda>(_, m). ?ld m \<bind> (\<lambda>(y, m). ?st x m y))))"
  proof (rule leads_bind [OF leads_value order_refl])
    show "code_at s ?cv" using code_at_append [OF c] by blast
    show "?p < FINSH_STACK_MAX" using d by simp
    fix x m stk
    assume x: "length stk = FINSH_STACK_MAX" "read_cell w (stk ! ?p) = x"
    let ?t = "after s ?cv stk (?p + 1) m"
    have c: "code_at ?t (?ca @ ?cv @ ?c1 @ ?cp)" using code_at_append [OF c] x(1) by blast
    show "leads calls ?t (?ca @ ?cv @ ?c1 @ ?cp) ?p w
        (Some (sint ?a, m) \<bind> (\<lambda>(_, m). ?ld m \<bind> (\<lambda>(y, m). ?st x m y)))"
    proof (rule leads_bind [OF leads_address [of ?t, unfolded after_simps]])
      show "code_at ?t ?ca" using code_at_append [OF c] by blast
      show "?p + 1 < FINSH_STACK_MAX" using d by simp
      fix z m' stk1
      assume z: "Some (sint ?a, m) = Some (z, m')" "length stk1 = FINSH_STACK_MAX"
        "take (?p + 1) stk1 = take (?p + 1) (finsh_vm_stack ?t)" "read_cell W32 (stk1 ! (?p + 1)) = z"
      have z': "stk1 ! (?p + 1) = ?a" using z(1,4) by (simp, metis signed_word_eqI)
      have x': "stk1 ! ?p = stk ! ?p" using cells_below [OF z(3,2)] x(1) by simp
      let ?u = "after ?t ?ca stk1 (?p + 1 + 1) m'"
      have c: "code_at ?u (?cv @ ?c1 @ ?cp)" using code_at_append [OF c] z(2) by blast
      show "leads calls ?u (?cv @ ?c1 @ ?cp) ?p w (?ld m' \<bind> (\<lambda>(y, m). ?st x m y))"
      proof (rule leads_bind [OF leads_value [of ?u, unfolded after_simps]])
        show "code_at ?u ?cv" using code_at_append [OF c] by blast
        show "?p + 1 + 1 < FINSH_STACK_MAX" using d by simp
        fix y m'' stk2
        assume y: "length stk2 = FINSH_STACK_MAX"
          "take (?p + 1 + 1) stk2 = take (?p + 1 + 1) (finsh_vm_stack ?u)"
          "read_cell w (stk2 ! (?p + 1 + 1)) = y"
        have y': "stk2 ! (?p + 1) = ?a" "stk2 ! ?p = stk ! ?p"
          using cells_below [OF y(2,1)] z(2) z' x' by simp_all
        let ?v = "after ?u ?cv stk2 (?p + 1 + 1 + 1) m''"
        have c: "code_at ?v (?c1 @ ?cp)" using code_at_append [OF c] y(1) by blast
        show "leads calls ?v (?c1 @ ?cp) ?p w (?st x m'' y)"
          unfolding append.assoc
        proof (rule leads_incr [of ?v w op ?cp "?p + 1" ?a y ?p, unfolded after_simps])
          fix stk3 r m3
          assume r: "length stk3 = FINSH_STACK_MAX"
            "take (?p + 1 + 1) stk3 = take (?p + 1 + 1) stk2"
          have "stk3 ! ?p = stk ! ?p" using cells_below [OF r(2,1) y(1)] y'(2) by simp
          then show "leads calls (after ?v ?c1 stk3 (?p + 1 + 1) m3) ?cp ?p w (Some (x, m3))"
            using leads_pop [of "after ?v ?c1 stk3 (?p + 1 + 1) m3" ?p w x calls]
              code_at_append [OF c] r(1) x(2) by simp
        qed (use c d y' y(3) in simp_all)
      qed simp
    qed simp
  qed
  then show "leads calls s (code_of base vs ?e) ?p (yields vs ?e) (eval base calls vs ?e (vm_ram s))"
    using w by (cases "load w (vm_ram s) ?a") (simp_all add: yields_def code_incr_def)
qed

lemma runs_call:
  assumes "calls_keep calls" and es: "\<forall>e \<in> set es. runs_well base calls vs e"
    and "supported vs (ECall sc es)"
  shows "runs_well base calls vs (ECall sc es)"
  unfolding runs_well_def
proof (intro allI impI)
  fix s :: vm
  let ?e = "ECall sc es" and ?p = "finsh_sp s" and ?f = "syscall_func sc"
  let ?cf = "[FINSH_OP_LD_DWORD] @ FINSH_SET32 ?f" and ?cs = "concat (map (code_of base vs) es)"
  let ?cc = "[FINSH_OP_SYSCALL, of_nat (length es)]"
  let ?call = "\<lambda>xs m. calls ?f (if xs = [] then [0] else map word_of_int xs) m \<bind>
      (\<lambda>(r, m). Some (sint r, m))"
  assume c: "code_at s (code_of base vs ?e)" and d: "?p + depth ?e \<le> FINSH_STACK_MAX"
    and v: "vars_mapped base (length vs) (vm_ram s)"
  have c: "code_at s (?cf @ ?cs @ ?cc)" using c by simp
  have "leads calls s (?cf @ ?cs @ ?cc) ?p W32 (Some (sint ?f, vm_ram s) \<bind> (\<lambda>(_, m).
      eval_list base calls vs es m \<bind> (\<lambda>(xs, m). ?call xs m)))"
  proof (rule leads_bind [OF leads_address order_refl])
    show "code_at s ?cf" using code_at_append [OF c] by blast
    show "?p < FINSH_STACK_MAX" using d by simp
    fix x m stk
    assume x: "Some (sint ?f, vm_ram s) = Some (x, m)" "length stk = FINSH_STACK_MAX"
      "read_cell W32 (stk ! ?p) = x"
    have f: "stk ! ?p = ?f" using x(1,3) by (simp, metis signed_word_eqI)
    let ?t = "after s ?cf stk (?p + 1) m"
    have c: "code_at ?t (?cs @ ?cc)" using code_at_append [OF c] x(2) by blast
    have "leads_list calls ?t ?cs (?p + 1) (length es) (eval_list base calls vs es m)"
      using runs_list [of calls es base vs ?t] assms x(1) v d code_at_append [OF c] by simp
    then show "leads calls ?t (?cs @ ?cc) ?p W32
        (eval_list base calls vs es m \<bind> (\<lambda>(xs, m). ?call xs m))"
    proof (cases "eval_list base calls vs es m")
      case (Some xsm)
      then obtain xs m' where xs: "eval_list base calls vs es m = Some (xs, m')" by (cases xsm) simp
      assume "leads_list calls ?t ?cs (?p + 1) (length es) (eval_list base calls vs es m)"
      then obtain stk' where stk': "length xs = length es" "length stk' = FINSH_STACK_MAX"
          "take (?p + 1) stk' = take (?p + 1) stk"
          "map (\<lambda>i. stk' ! (?p + 1 + i)) [0..<length es] = map word_of_int xs"
          "finsh_vm_loop calls ?t = finsh_vm_loop calls (after ?t ?cs stk' (?p + 1 + length es) m')"
        by (auto simp: xs leads_list_def)
      let ?u = "after ?t ?cs stk' (?p + 1 + length es) m'"
      have cc: "code_at ?u ?cc" using code_at_append [OF c] stk'(2) by blast
      have le: "length es \<le> 16" "?p + 1 + length es \<le> FINSH_STACK_MAX"
      proof -
        have "length es \<le> depth_list es" by (induction es) auto
        then show "?p + 1 + length es \<le> FINSH_STACK_MAX" using d by simp
      qed (use assms(3) in simp)
      have "stk' ! ?p = ?f" using cells_below [OF stk'(3,2) x(2)] f by simp
      then have "finsh_vm_loop calls ?u =
          calls ?f (if xs = [] then [0] else map word_of_int xs) m' \<bind>
          (\<lambda>x. finsh_vm_loop calls (after ?u ?cc (stk'[?p := fst x]) (?p + 1) (snd x)))"
        using run_call [OF cc le(1), of ?p calls] le(2) stk'(1,4)
        by (cases es) (auto simp: case_prod_unfold simp del: upt_Suc)
      then have "leads calls ?u (?cc @ []) ?p W32 (?call xs m')"
      proof (rule leads_step)
        fix r assume "calls ?f (if xs = [] then [0] else map word_of_int xs) m' = Some r"
        show "take ?p (stk'[?p := fst r]) = take ?p (finsh_vm_stack ?u) \<and>
            leads calls (after ?u ?cc (stk'[?p := fst r]) (?p + 1) (snd r)) [] ?p W32
              (case r of (r, m) \<Rightarrow> Some (sint r, m))"
          using stk'(2) d by (auto simp: case_prod_unfold intro!: leads_done)
      qed
      moreover have "take ?p stk' = take ?p stk" using stk'(3) by (metis min.absorb1 le_add1 take_take)
      ultimately show ?thesis
        using leads_run [OF stk'(5), of ?p ?cc W32] xs by simp
    qed (simp add: leads_list_def leads_def)
  qed
  then show "leads calls s (code_of base vs ?e) ?p (yields vs ?e) (eval base calls vs ?e (vm_ram s))"
    by (simp add: yields_def)
qed

lemma runs_expression:
  assumes "calls_keep calls"
  shows "supported vs e \<Longrightarrow> runs_well base calls vs e"
proof (induction e)
  case (EChar c)
  then show ?case using leads_const [of _ W8 "uint c" calls] by (simp add: runs_well_def yields_def)
next
  case (EInt n)
  then show ?case using leads_const [of _ W32 "sint n" calls] by (simp add: runs_well_def yields_def)
next
  case (ELong n)
  then show ?case using leads_const [of _ W32 "sint n" calls] by (simp add: runs_well_def yields_def)
next
  case (EPlace p)
  then show ?case by (rule runs_place)
next
  case (EBin op a b)
  then show ?case using runs_bin [OF assms] by simp
next
  case (ECompl a)
  then show ?case using runs_compl by simp
next
  case (EAssign p b)
  then show ?case using runs_assign by simp
next
  case (EIncr pre op i)
  then show ?case using runs_preinc runs_postinc by (cases pre) auto
next
  case (ECall sc es)
  then show ?case using runs_call [OF assms] by simp
next
  case (EDeref a)
  then show ?case using runs_deref by simp
next
  case (EStore a b)
  then show ?case using runs_store [OF assms] by simp
next
  case (EAddr p)
  then show ?case using leads_address [of _ "place_addr base p" calls]
    by (auto simp: runs_well_def yields_def)
qed

subsection \<open>Lines\<close>

lemma runs_line:
  assumes "calls_keep calls"
  shows "es \<noteq> [] \<Longrightarrow> \<forall>e \<in> set es. supported vs e \<and> depth e \<le> FINSH_STACK_MAX \<Longrightarrow>
    code_at s (code_of_line base vs es) \<Longrightarrow> finsh_sp s = 0 \<Longrightarrow>
    vars_mapped base (length vs) (vm_ram s) \<Longrightarrow>
    leads calls s (code_of_line base vs es) 0 (yields vs (last es))
      (eval_line base calls vs es (vm_ram s))"
proof (induction es arbitrary: s rule: induct_list012)
  case (3 e e' es)
  let ?c = "code_of base vs e" and ?d = "code_of_line base vs (e' # es)"
  have c: "code_at s (?c @ [FINSH_OP_POP] @ ?d)" using "3.prems"(3) by simp
  have "leads calls s (?c @ [FINSH_OP_POP] @ ?d) 0 (yields vs (last (e' # es)))
      (eval base calls vs e (vm_ram s) \<bind> (\<lambda>(_, m). eval_line base calls vs (e' # es) m))"
  proof (rule leads_bind [OF runs_wellD [OF runs_expression [OF assms]]])
    fix x m and stk :: "u32 list"
    assume x: "eval base calls vs e (vm_ram s) = Some (x, m)" "length stk = FINSH_STACK_MAX"
    let ?t = "after s ?c stk (finsh_sp s + 1) m"
    have c: "code_at ?t ([FINSH_OP_POP] @ ?d)" using code_at_append [OF c] x(2) by blast
    show "leads calls ?t ([FINSH_OP_POP] @ ?d) 0 (yields vs (last (e' # es)))
        (eval_line base calls vs (e' # es) m)"
    proof (rule leads_run [OF run_pop])
      let ?u = "after ?t [FINSH_OP_POP] (finsh_vm_stack ?t) (finsh_sp ?t - 1) (vm_ram ?t)"
      have "vars_mapped base (length vs) m"
        by (rule vars_mapped_mono [OF "3.prems"(5) eval_dom [OF assms x(1)]])
      then show "leads calls ?u ?d 0 (yields vs (last (e' # es)))
          (eval_line base calls vs (e' # es) m)"
        using "3.IH"(2) [of ?u] "3.prems"(2,4) code_at_append [OF c] x(2) by simp
    qed (use code_at_append [OF c] in simp_all)
  qed (use "3.prems" code_at_append [OF c] in simp_all)
  then show ?case by simp
next
  case (2 e)
  then show ?case using runs_wellD [OF runs_expression [OF assms]] by fastforce
qed simp

lemma line_computes:
  assumes "calls_keep calls" and "es \<noteq> []"
    and "\<forall>e \<in> set es. supported vs e \<and> depth e \<le> FINSH_STACK_MAX"
    and "length (code_of_line base vs es) \<le> FINSH_TEXT_MAX"
    and "vars_mapped base (length vs) (vm_ram s)" and "length (finsh_vm_stack s) = FINSH_STACK_MAX"
  shows "\<exists>s'. finsh_compiler_run base vs (map node_of es) 0 s = Some (0, s') \<and>
    (case eval_line base calls vs es (vm_ram s) of
       None \<Rightarrow> finsh_vm_run calls s' = None
     | Some (v, m) \<Rightarrow> \<exists>t. finsh_vm_run calls s' = Some t \<and> vm_ram t = m \<and>
         read_cell (yields vs (last es)) (finsh_stack_bottom t) = v)"
proof -
  let ?c = "code_of_line base vs es"
  let ?s = "s\<lparr>text_segment := ?c @ replicate (FINSH_TEXT_MAX - length ?c) 0,
    finsh_vm_stack := (finsh_vm_stack s)[0 := 0]\<rparr>"
  let ?t = "?s\<lparr>finsh_sp := 0, finsh_pc := 0\<rparr>"
  have 1: "finsh_compiler_run base vs (map node_of es) 0 s = Some (0, ?s)"
    using assms(3,4) by (simp add: finsh_compiler_run_def check_line compiles_line)
  have "code_at ?t ?c" using assms(4,6) by (simp add: code_at_def)
  then have l: "leads calls ?t ?c 0 (yields vs (last es)) (eval_line base calls vs es (vm_ram s))"
    using runs_line [OF assms(1,2,3), where s = ?t and base = base] assms(5) by simp
  have "case eval_line base calls vs es (vm_ram s) of
       None \<Rightarrow> finsh_vm_run calls ?s = None
     | Some (v, m) \<Rightarrow> \<exists>t. finsh_vm_run calls ?s = Some t \<and> vm_ram t = m \<and>
         read_cell (yields vs (last es)) (finsh_stack_bottom t) = v"
  proof (cases "eval_line base calls vs es (vm_ram s)")
    case None
    then show ?thesis using l by (simp add: leads_def finsh_vm_run_def)
  next
    case (Some vm)
    then obtain v m where vm: "eval_line base calls vs es (vm_ram s) = Some (v, m)"
      by (cases vm) simp
    with l obtain stk where stk: "read_cell (yields vs (last es)) (stk ! 0) = v"
        "finsh_vm_loop calls ?t = finsh_vm_loop calls (after ?t ?c stk 1 m)"
      by (auto simp: leads_def)
    have "finsh_vm_loop calls (after ?t ?c stk 1 m) =
        Some ((after ?t ?c stk 1 m)\<lparr>finsh_pc := FINSH_TEXT_MAX\<rparr>)"
      using assms(4) by (intro finsh_vm_loop_noop) (auto simp: nth_append)
    then show ?thesis using stk vm by (simp add: finsh_vm_run_def finsh_stack_bottom_def)
  qed
  with 1 show ?thesis by blast
qed

text \<open>C5. A line of the shell computes what its expressions mean: compiled without an error and
  run by the machine, every line of supported expressions ends with the value of its last statement
  in the bottom cell, which the shell prints, and with the memory the statements make; the machine
  faults (division by zero, shift by 32 or more, bad address) only if the reference evaluation has
  no value. The code has to fit the text segment and the expressions the stack.\<close>

theorem finsh_line_computes:
  assumes "calls_keep calls" and "es \<noteq> []"
    and "\<forall>e \<in> set es. supported vs e \<and> depth e \<le> FINSH_STACK_MAX"
    and "length (code_of_line base vs es) \<le> FINSH_TEXT_MAX"
    and "vars_mapped base (length vs) (vm_ram s)" and "length (finsh_vm_stack s) = FINSH_STACK_MAX"
  shows "\<exists>s'. finsh_compiler_run base vs (map node_of es) 0 s = Some (0, s') \<and>
    (case eval_line base calls vs es (vm_ram s) of
       None \<Rightarrow> finsh_vm_run calls s' = None
     | Some (v, m) \<Rightarrow> \<exists>t. finsh_vm_run calls s' = Some t \<and> vm_ram t = m \<and>
         read_cell (yields vs (last es)) (finsh_stack_bottom t) = v)"
  by (rule line_computes [OF assms])

end
