(* ===== verification/PrintSpec.thy ===== *)
theory PrintSpec
  imports Print
begin

text \<open>
  What formatted output promises. The text of a format is defined on its own: a number is a sign,
  zeros and the numeral of its absolute value in a field of the given width. The buffer gets as much
  of the text as it has room for, and nothing is stored outside it, as long as the pointer that
  counts the characters does not wrap around.
\<close>

subsection \<open>Numerals\<close>

function numeral_text :: "bool \<Rightarrow> nat \<Rightarrow> nat \<Rightarrow> str" where
  "numeral_text large b n =
     (if b < 2 \<or> n < b then [digit large n] else numeral_text large b (n div b) @ [digit large (n mod b)])"
  by pat_completeness auto

termination by (relation "measure (\<lambda>(_, _, n). n)") auto

declare numeral_text.simps [simp del]

definition decimal :: "int \<Rightarrow> str" where
  "decimal v = (if v < 0 then ''-'' else []) @ numeral_text False 10 (nat \<bar>v\<bar>)"

definition hexadecimal :: "nat \<Rightarrow> str" where
  "hexadecimal v = (let ds = numeral_text False 16 v in replicate (8 - length ds) (CHR ''0'') @ ds)"

lemma tmp_digits_zero [simp]: "tmp_digits large base 0 = []"
  by (subst tmp_digits.simps) simp

lemma divisor_ge: "2 \<le> divisor base"
  by (simp add: divisor_def)

lemma tmp_digits_numeral: "0 < n \<Longrightarrow> rev (tmp_digits large base n) = numeral_text large (divisor base) n"
proof (induction n rule: less_induct)
  case (less n)
  let ?b = "divisor base"
  have t: "rev (tmp_digits large base n) = rev (tmp_digits large base (n div ?b)) @ [digit large (n mod ?b)]"
    using less.prems by (subst tmp_digits.simps) (simp add: divide_def)
  show ?case
  proof (cases "n < ?b")
    case True
    then show ?thesis using t divisor_ge [of base] by (simp add: numeral_text.simps [of _ _ n])
  next
    case False
    then have "0 < n div ?b" "n div ?b < n"
      using less.prems divisor_ge [of base] by (simp_all add: div_greater_zero_iff)
    then show ?thesis
      using t less.IH False divisor_ge [of base] by (simp add: numeral_text.simps [of _ _ n])
  qed
qed

lemma tmp_number_numeral: "rev (tmp_number large base n) = numeral_text large (divisor base) (unat n)"
  using divisor_ge [of base]
  by (auto simp: tmp_number_def tmp_digits_numeral unat_gt_0 numeral_text.simps [of _ _ 0] digit_def)

lemma numeral_length: "2 \<le> b \<Longrightarrow> 0 < k \<Longrightarrow> n < b ^ k \<Longrightarrow> length (numeral_text large b n) \<le> k"
proof (induction k arbitrary: n)
  case (Suc k)
  show ?case
  proof (cases "n < b")
    case False
    then have "n div b < b ^ k" "k \<noteq> 0"
      using Suc.prems by (auto simp: less_mult_imp_div_less mult.commute intro: gr0I)
    then show ?thesis using Suc.IH [of "n div b"] Suc.prems False by (subst numeral_text.simps) simp
  qed (subst numeral_text.simps, simp)
qed simp

lemma numeral_word_length:
  assumes "2 \<le> b"
  shows "length (numeral_text large b (unat (n :: u32))) \<le> 32"
proof (rule numeral_length)
  have "unat n < 2 ^ 32" using unsigned_less [of n, where ?'a = nat] by simp
  also have "(2 :: nat) ^ 32 \<le> b ^ 32" using assms by (rule power_mono) simp
  finally show "unat n < b ^ 32" .
qed (use assms in simp_all)

subsection \<open>The text of a format\<close>

text \<open>A text in a field: spaces before or behind it, or zeros between its sign and its digits.\<close>

definition field :: "pflags \<Rightarrow> int \<Rightarrow> str \<Rightarrow> str \<Rightarrow> str" where
  "field type width sign body =
     (let n = nat (width - int (length sign + length body)) in
      if LEFT type then sign @ body @ replicate n (CHR '' '')
      else if ZEROPAD type then sign @ replicate n (CHR ''0'') @ body
      else replicate n (CHR '' '') @ sign @ body)"

definition sign_text :: "pflags \<Rightarrow> int \<Rightarrow> str" where
  "sign_text type v =
     (if v < 0 then ''-'' else if PLUS type then ''+'' else if SPACE type then '' '' else [])"

definition number_text :: "u32 \<Rightarrow> nat \<Rightarrow> int \<Rightarrow> int \<Rightarrow> pflags \<Rightarrow> str" where
  "number_text num radix width precision type =
     (let v = (if SIGN type then sint num else uint num);
          ds = numeral_text (LARGE type) radix (nat \<bar>v\<bar>)
      in field type width (if SIGN type then sign_text type v else [])
           (replicate (nat precision - length ds) (CHR ''0'') @ ds))"

text \<open>The text of one conversion; \<open>%o\<close> is printed with the radix 16.\<close>

definition conversion_text ::
    "pflags \<Rightarrow> int \<Rightarrow> int \<Rightarrow> char option \<Rightarrow> str \<Rightarrow> va list \<Rightarrow> (str \<times> va list \<times> str) option" where
  "conversion_text flags width precision qualifier fmt args =
     (let padded = field (flags\<lparr>ZEROPAD := False\<rparr>) width [];
          number = (\<lambda>radix flags fmt. map_option
            (\<lambda>(arg, args). (fmt, args, number_text (fetch_number qualifier flags arg) radix width
              precision flags)) (va_int args))
      in case fmt of
        [] \<Rightarrow> Some ([], args, ''%'')
      | c # fmt \<Rightarrow>
          if c = CHR ''c'' then
            map_option (\<lambda>(arg, args). (fmt, args, padded [char_of (unat (ucast arg :: u8))])) (va_int args)
          else if c = CHR ''s'' then
            map_option (\<lambda>(s, args). (fmt, args,
              padded (let s = (case s of None \<Rightarrow> ''(NULL)'' | Some s \<Rightarrow> s) in
                if precision > 0 then take (nat precision) s else s))) (va_str args)
          else if c = CHR ''p'' then
            map_option (\<lambda>(arg, args). (fmt, args,
              if width = - 1 then number_text arg 16 8 precision (flags\<lparr>ZEROPAD := True\<rparr>)
              else number_text arg 16 width precision flags)) (va_int args)
          else if c = CHR ''%'' then Some (fmt, args, ''%'')
          else if c = CHR ''o'' then number 16 flags fmt
          else if c = CHR ''X'' then number 16 (flags\<lparr>LARGE := True\<rparr>) fmt
          else if c = CHR ''x'' then number 16 flags fmt
          else if c = CHR ''d'' \<or> c = CHR ''i'' then number 10 (flags\<lparr>SIGN := True\<rparr>) fmt
          else if c = CHR ''u'' then number 10 flags fmt
          else Some (fmt, args, [CHR ''%'', c]))"

definition directive_text :: "str \<Rightarrow> va list \<Rightarrow> (str \<times> va list \<times> str) option" where
  "directive_text fmt args = do {
     (flags, width, precision, qualifier, fmt, args) \<leftarrow> parse_directive fmt args;
     conversion_text flags width precision qualifier fmt args }"

lemma branch:
  assumes "(if b then x else y) = Some z"
  obtains "x = Some z" | "y = Some z"
  using assms by (cases b) auto

lemma conversion_text_length:
  assumes "conversion_text flags w p q fmt args = Some (fmt', args', t)"
  shows "length fmt' \<le> length fmt"
proof (cases fmt)
  case (Cons c cs)
  from assms show ?thesis
    unfolding Cons conversion_text_def Let_def list.case by (elim branch) auto
qed (use assms in \<open>simp add: conversion_text_def\<close>)

lemma directive_text_length:
  "directive_text fmt args = Some (fmt', args', t) \<Longrightarrow> length fmt' \<le> length fmt"
  by (fastforce simp: directive_text_def bind_Some_conv
      dest: parse_directive_length conversion_text_length)

function formatted :: "str \<Rightarrow> va list \<Rightarrow> str option" where
  "formatted [] args = Some []"
| "formatted (c # fmt) args =
     (if c \<noteq> CHR ''%'' then map_option ((#) c) (formatted fmt args)
      else (case directive_text fmt args of
              None \<Rightarrow> None
            | Some (fmt, args, t) \<Rightarrow> map_option ((@) t) (formatted fmt args)))"
  by pat_completeness auto

termination
  by (relation "measure (\<lambda>(fmt, _). length fmt)") (auto dest!: directive_text_length simp: less_Suc_eq_le)

subsection \<open>What is stored\<close>

definition text_at :: "addr \<Rightarrow> str \<Rightarrow> addr \<rightharpoonup> char" where
  "text_at buf t = (\<lambda>a. if unat (a - buf) < length t then Some (t ! unat (a - buf)) else None)"

text \<open>
  The first \<open>room\<close> characters of \<open>t\<close> are in the buffer; the pointer has moved by its length. Behind
  the end of the buffer it may have moved up to \<open>d\<close> further.
\<close>

fun printing :: "addr \<Rightarrow> nat \<Rightarrow> nat \<Rightarrow> str \<Rightarrow> printed \<Rightarrow> bool" where
  "printing buf room d t (str, stored) \<longleftrightarrow>
     stored = text_at buf (take room t) \<and>
     (\<exists>e \<le> d. str = buf + of_nat (length t + e) \<and> (e \<noteq> 0 \<longrightarrow> room \<le> length t))"

text \<open>The pointer does not wrap around: a text of \<open>l\<close> characters fits, or there is memory enough.\<close>

definition no_wrap :: "addr \<Rightarrow> nat \<Rightarrow> nat \<Rightarrow> nat \<Rightarrow> bool" where
  "no_wrap buf room d l \<longleftrightarrow> l < room \<or> unat buf + l + d < 2 ^ 32"

definition buffer_end :: "addr \<Rightarrow> nat \<Rightarrow> addr \<Rightarrow> bool" where
  "buffer_end buf room end \<longleftrightarrow> 0 < room \<and> unat buf + room \<le> 2 ^ 32 \<and> unat end = unat buf + room - 1"

lemma no_wrap_less: "no_wrap buf room d l \<Longrightarrow> l' \<le> l \<Longrightarrow> d' \<le> d \<Longrightarrow> no_wrap buf room d' l'"
  by (auto simp: no_wrap_def)

lemma unat_ahead: "unat (buf :: addr) + n < 2 ^ 32 \<Longrightarrow> unat (buf + of_nat n) = unat buf + n"
  by (simp add: unat_word_ariths unat_of_nat)

lemma text_at_snoc:
  assumes "unat buf + length t < 2 ^ 32"
  shows "(text_at buf t)(buf + of_nat (length t) \<mapsto> c) = text_at buf (t @ [c])"
proof
  fix a
  define i p where "i = unat (a - buf)" and "p = buf + of_nat (length t)"
  have "unat (p - buf) = length t" using assms by (simp add: p_def unat_of_nat)
  moreover have "a = p" if "i = length t"
  proof -
    have "a - buf = of_nat (length t)"
      by (subst word_unat_eq_iff) (use that assms in \<open>simp add: i_def unat_of_nat\<close>)
    then show ?thesis by (simp add: p_def diff_eq_eq add.commute)
  qed
  ultimately have "a = p \<longleftrightarrow> i = length t" by (auto simp: i_def)
  then show "((text_at buf t)(buf + of_nat (length t) \<mapsto> c)) a = text_at buf (t @ [c]) a"
    unfolding p_def [symmetric] by (simp add: text_at_def i_def [symmetric] nth_append less_Suc_eq)
qed

text \<open>Where the pointer is, and whether a character is stored there.\<close>

lemma printing_at:
  assumes "printing buf room d t (str, stored)" and "buffer_end buf room end" and "no_wrap buf room d (length t)"
  obtains e where "e \<le> d" "str = buf + of_nat (length t + e)" "e \<noteq> 0 \<longrightarrow> room \<le> length t"
    "unat buf + (length t + e) < 2 ^ 32" "str \<le> end \<longleftrightarrow> length t < room" "stored = text_at buf (take room t)"
proof -
  obtain e where e: "e \<le> d" "str = buf + of_nat (length t + e)" "e \<noteq> 0 \<longrightarrow> room \<le> length t"
    and st: "stored = text_at buf (take room t)"
    using assms(1) by auto
  have b: "0 < room" "unat buf + room \<le> 2 ^ 32" "unat end = unat buf + room - 1"
    using assms(2) by (simp_all add: buffer_end_def)
  have lt: "unat buf + (length t + e) < 2 ^ 32"
    using assms(3) e b by (cases "length t < room") (auto simp: no_wrap_def)
  have "str \<le> end \<longleftrightarrow> length t + e < room"
    using b unat_ahead [OF lt] by (auto simp: word_le_nat_alt e(2))
  then have "str \<le> end \<longleftrightarrow> length t < room" using e(3) by auto
  then show ?thesis using that e lt st by blast
qed

lemma printing_inside:
  "printing buf room d t out \<Longrightarrow> buffer_end buf room end \<Longrightarrow> no_wrap buf room d (length t) \<Longrightarrow>
   fst out \<le> end \<longleftrightarrow> length t < room"
  by (metis prod.collapse printing_at)

lemma emit_printing:
  assumes "printing buf room d t out" and "buffer_end buf room end" and "no_wrap buf room d (length t)"
  shows "printing buf room d (t @ [c]) (emit end c out)"
proof -
  obtain str stored where out: "out = (str, stored)" by (cases out)
  obtain e where e: "e \<le> d" "str = buf + of_nat (length t + e)" "e \<noteq> 0 \<longrightarrow> room \<le> length t"
    and lt: "unat buf + (length t + e) < 2 ^ 32" and le: "str \<le> end \<longleftrightarrow> length t < room"
    and st: "stored = text_at buf (take room t)"
    by (rule printing_at [OF assms [unfolded out]])
  have p: "str + 1 = buf + of_nat (length (t @ [c]) + e)" by (simp add: e(2))
  have "room \<le> length (t @ [c])" if "e \<noteq> 0" using e(3) that by simp
  moreover have "(if str \<le> end then stored(str \<mapsto> c) else stored) = text_at buf (take room (t @ [c]))"
  proof (cases "length t < room")
    case True
    then have "e = 0" using e(3) by auto
    then have "stored(str \<mapsto> c) = text_at buf (t @ [c])"
      using text_at_snoc [of buf t c] lt True by (simp add: st e(2))
    then show ?thesis using True le by simp
  qed (simp add: le st)
  ultimately show ?thesis using e(1) p by (auto simp: out emit_def)
qed

lemma emit_all_simps [simp]:
  "emit_all end [] out = out" "emit_all end (c # cs) out = emit_all end cs (emit end c out)"
  by (simp_all add: emit_all_def)

lemma emit_all_append: "emit_all end (s @ t) out = emit_all end t (emit_all end s out)"
  by (simp add: emit_all_def)

lemma emit_all_printing:
  "printing buf room d t out \<Longrightarrow> buffer_end buf room end \<Longrightarrow> no_wrap buf room d (length (t @ cs)) \<Longrightarrow>
   printing buf room d (t @ cs) (emit_all end cs out)"
proof (induction cs arbitrary: t out)
  case (Cons c cs)
  have "printing buf room d (t @ [c]) (emit end c out)"
    by (rule emit_printing [OF Cons.prems(1,2)]) (rule no_wrap_less [OF Cons.prems(3)], simp_all)
  from Cons.IH [OF this Cons.prems(2)] Cons.prems(3) show ?case by simp
qed simp

lemma printing_mono: "printing buf room d t out \<Longrightarrow> d \<le> d' \<Longrightarrow> printing buf room d' t out"
  by (cases out) (use order_trans in fastforce)

text \<open>Behind the end it only matters how many characters come, and there may be one more.\<close>

lemma printing_behind:
  assumes w: "printing buf room d t out" and b: "buffer_end buf room end" and r: "room \<le> length t"
    and l: "length cs \<le> length cs'" "length cs' \<le> length cs + 1"
    and n: "no_wrap buf room (d + 1) (length (t @ cs))"
  shows "printing buf room (d + 1) (t @ cs) (emit_all end cs' out)"
proof -
  have "no_wrap buf room d (length (t @ cs'))" using n l r by (simp add: no_wrap_def)
  from emit_all_printing [OF w b this] obtain e where e: "e \<le> d"
    "fst (emit_all end cs' out) = buf + of_nat (length (t @ cs') + e)"
    "snd (emit_all end cs' out) = text_at buf (take room (t @ cs'))"
    by (cases "emit_all end cs' out") auto
  let ?e = "e + (length cs' - length cs)"
  have "length (t @ cs') + e = length (t @ cs) + ?e" using l(1) by simp
  then have "fst (emit_all end cs' out) = buf + of_nat (length (t @ cs) + ?e)" using e(2) by metis
  moreover have "?e \<le> d + 1" using e(1) l by simp
  ultimately show ?thesis
    using e(3) r by (cases "emit_all end cs' out") auto
qed

declare printing.simps [simp del]

subsection \<open>Numbers in a field\<close>

lemma print_sign_text:
  assumes "print_sign type num = (sign, n)"
  shows "sign = (if SIGN type then sign_text type (sint num) else [])" "length sign \<le> 1"
    "unat n = nat \<bar>if SIGN type then sint num else uint num\<bar>"
proof -
  have u: "unat w = nat (sint w)" if "0 \<le> sint w" for w :: u32
  proof -
    have "uint w = uint (word_of_int (sint w) :: u32)" by simp
    also have "\<dots> = sint w mod 2 ^ 32" by (simp only: uint_word_of_int) simp
    also have "\<dots> = sint w" using that sint_lt [of w] by simp
    finally show ?thesis by (simp add: nat_uint_eq [symmetric])
  qed
  have neg: "unat (- num) = nat (- sint num)" if "sint num < 0"
  proof -
    have "uint (- num) = uint (word_of_int (- sint num) :: u32)" by simp
    also have "\<dots> = - sint num mod 2 ^ 32" by (simp only: uint_word_of_int) simp
    also have "\<dots> = - sint num" using that sint_ge [of num] by simp
    finally show ?thesis by (simp add: nat_uint_eq [symmetric])
  qed
  show "sign = (if SIGN type then sign_text type (sint num) else [])" "length sign \<le> 1"
    using assms by (auto simp: print_sign_def sign_text_def split: if_splits)
  show "unat n = nat \<bar>if SIGN type then sint num else uint num\<bar>"
    using assms neg u [of num] by (auto simp: print_sign_def split: if_splits)
qed

lemma print_number_parts:
  assumes s: "- 1 \<le> s" and p: "precision < 2 ^ 31 - 5"
  obtains pre post post' where
    "number_text num (divisor base) s precision type = pre @ post"
    "print_number end num base s precision type out =
       Some (emit_all end (if fst (emit_all end pre out) \<le> end then post else post') (emit_all end pre out))"
    "length post \<le> length post'" "length post' \<le> length post + 1" "\<not> SIGN type \<Longrightarrow> post' = post"
proof -
  define type' where "type' = (if LEFT type then type\<lparr>ZEROPAD := False\<rparr> else type)"
  obtain sign n where sg: "print_sign type num = (sign, n)" by fastforce
  have "print_sign type' num = print_sign type num" by (simp add: print_sign_def type'_def)
  then have sg': "print_sign type' num = (sign, n)" using sg by simp
  note st = print_sign_text [OF sg]
  define ds where "ds = rev (tmp_number (LARGE type) base n)"
  define k where "k = (if int (length ds) > precision then int (length ds) else precision)"
  define body where "body = replicate (nat (k - int (length ds))) (CHR ''0'') @ ds"
  have "length ds \<le> 32"
    using numeral_word_length [OF divisor_ge] by (simp add: ds_def tmp_number_numeral)
  then have k: "0 \<le> k" "s - k > - (2 ^ 31) + 3" using s p by (auto simp: k_def)
  have field: "number_text num (divisor base) s precision type = field type s sign body"
  proof -
    have "nat precision - length ds = nat (k - int (length ds))" by (simp add: k_def) linarith
    moreover have "ds = numeral_text (LARGE type) (divisor base) (nat \<bar>if SIGN type then sint num else uint num\<bar>)"
      by (simp only: ds_def tmp_number_numeral st(3))
    ultimately show ?thesis
      using st(1) by (cases "SIGN type") (simp_all add: number_text_def Let_def body_def)
  qed
  have len: "int (length body) = k" by (simp add: body_def k_def)
  let ?m = "nat (s - k - int (length sign))"
  let ?c = "if ZEROPAD type' then CHR ''0'' else CHR '' ''"
  define pre where "pre = (if ZEROPAD type' \<or> LEFT type then [] else replicate ?m (CHR '' ''))"
  have print: "print_number end num base s precision type out = do {
     let n = s - k;
     (out, n) \<leftarrow> (if \<not> (ZEROPAD type' \<or> LEFT type)
       then pad end (CHR '' '') 0 (if sign \<noteq> [] \<and> n > 0 then n - 1 else n) out else Some (out, n));
     n \<leftarrow> (if sign \<noteq> [] \<and> fst out \<le> end then if n = - (2 ^ 31) then None else Some (n - 1) else Some n);
     (out, n) \<leftarrow> (if \<not> LEFT type then pad end ?c 0 n (emit_all end sign out) else Some (emit_all end sign out, n));
     (out, n) \<leftarrow> pad end (CHR '' '') 0 n (emit_all end body out);
     Some out }"
    by (simp add: print_number_def type'_def [symmetric] sg' ds_def [symmetric] k_def [symmetric] body_def emit_all_append Let_def)
      (simp add: type'_def k_def ds_def)
  have sign: "sign = [] \<or> length sign = 1" using st(2) by (cases sign) auto
  have unsigned: "\<not> SIGN type \<Longrightarrow> sign = []" using st(1) by simp
  note simps = print pad_def Let_def emit_all_append
  consider "LEFT type" | "\<not> LEFT type" "ZEROPAD type'" | "\<not> LEFT type" "\<not> ZEROPAD type'" by blast
  then show ?thesis
  proof cases
    case 1
    then have z: "\<not> ZEROPAD type'" by (simp add: type'_def)
    show ?thesis
      by (rule that [of "[]" "sign @ body @ replicate ?m (CHR '' '')" "sign @ body @ replicate (nat (s - k)) (CHR '' '')"])
        (use 1 z sign unsigned k len in \<open>auto simp: field field_def simps algebra_simps\<close>)
  next
    case 2
    then have z: "ZEROPAD type" by (simp add: type'_def)
    show ?thesis
      by (rule that [of "[]" "sign @ replicate ?m (CHR ''0'') @ body" "sign @ replicate (nat (s - k)) (CHR ''0'') @ body"])
        (use 2 z sign unsigned k len in \<open>auto simp: field field_def simps algebra_simps\<close>)
  next
    case 3
    then have z: "\<not> ZEROPAD type" by (simp add: type'_def)
    show ?thesis
      by (rule that [of "replicate ?m (CHR '' '')" "sign @ body" "sign @ body"])
        (use 3 z sign unsigned k len in \<open>auto simp: field field_def simps algebra_simps\<close>)
  qed
qed

lemma print_number_printing:
  assumes w: "printing buf room d t out" and b: "buffer_end buf room end"
    and s: "- 1 \<le> s" and p: "precision < 2 ^ 31 - 5"
    and n: "no_wrap buf room (d + 1) (length (t @ number_text num (divisor base) s precision type))"
  shows "\<exists>out'. print_number end num base s precision type out = Some out' \<and>
    printing buf room (d + 1) (t @ number_text num (divisor base) s precision type) out'"
proof -
  obtain pre post post' where parts:
    "number_text num (divisor base) s precision type = pre @ post"
    "print_number end num base s precision type out =
       Some (emit_all end (if fst (emit_all end pre out) \<le> end then post else post') (emit_all end pre out))"
    "length post \<le> length post'" "length post' \<le> length post + 1"
    by (rule print_number_parts [OF s p])
  let ?out = "emit_all end pre out"
  have np: "no_wrap buf room d (length (t @ pre))" "no_wrap buf room d (length ((t @ pre) @ post))"
    by (rule no_wrap_less [OF n]; simp add: parts(1))+
  have w1: "printing buf room d (t @ pre) ?out" by (rule emit_all_printing [OF w b np(1)])
  show ?thesis
  proof (cases "fst ?out \<le> end")
    case True
    have "printing buf room d ((t @ pre) @ post) (emit_all end post ?out)"
      by (rule emit_all_printing [OF w1 b np(2)])
    then have "printing buf room (d + 1) ((t @ pre) @ post) (emit_all end post ?out)"
      by (rule printing_mono) simp
    then show ?thesis using True parts by simp
  next
    case False
    then have "room \<le> length (t @ pre)" using printing_inside [OF w1 b np(1)] by simp
    then have "printing buf room (d + 1) ((t @ pre) @ post) (emit_all end post' ?out)"
      using n parts(1) by (intro printing_behind [OF w1 b _ parts(3,4)]) simp_all
    then show ?thesis using False parts by simp
  qed
qed

lemma number_text_precision: "nat precision \<le> length (number_text num radix s precision type)"
proof -
  have "length body \<le> length (field type s sign body)" for sign body by (simp add: field_def Let_def)
  from order_trans [OF _ this] show ?thesis by (simp add: number_text_def Let_def)
qed

lemma print_char_text:
  assumes "- 1 \<le> width"
  shows "print_char end flags width arg out =
    Some (emit_all end (field (flags\<lparr>ZEROPAD := False\<rparr>) width [] [char_of (unat (ucast arg :: u8))]) out)"
  using assms by (auto simp: print_char_def pad_pre_def field_def Let_def emit_all_append)

lemma print_string_text:
  assumes "- 1 \<le> width"
  shows "print_string end flags width precision s out =
    Some (emit_all end (field (flags\<lparr>ZEROPAD := False\<rparr>) width []
      (let s = (case s of None \<Rightarrow> ''(NULL)'' | Some s \<Rightarrow> s) in
       if precision > 0 then take (nat precision) s else s)) out)"
proof -
  define u where "u = (case s of None \<Rightarrow> ''(NULL)'' | Some s \<Rightarrow> s)"
  define len where "len = (if precision > 0 \<and> int (length u) > precision then precision else int (length u))"
  have t: "take (nat len) u = (if precision > 0 then take (nat precision) u else u)" "int (length (take (nat len) u)) = len"
    "0 \<le> len"
    by (auto simp: len_def)
  show ?thesis
    using assms t(2,3)
    by (auto simp: print_string_def u_def [symmetric] len_def [symmetric] pad_def field_def Let_def emit_all_append
        t(1) [symmetric])
qed

subsection \<open>Directives\<close>

lemma isdigit_code: "isdigit c \<Longrightarrow> (48 :: int) \<le> of_char c"
proof -
  assume "isdigit c"
  then have "int 48 \<le> int (of_char c)" by (simp only: of_nat_le_iff) (simp add: isdigit_def)
  also have "int (of_char c) = of_char c" by (rule of_nat_of_char)
  finally show ?thesis by simp
qed

lemma atoi_positive: "atoi_loop i s = Some (n, s') \<Longrightarrow> 0 \<le> i \<Longrightarrow> 0 \<le> n"
proof (induction i s rule: atoi_loop.induct)
  case (2 i c s)
  show ?case using 2 isdigit_code [of c] by (auto split: if_splits)
qed simp

lemma parse_directive_width:
  assumes "parse_directive fmt args = Some (flags, width, precision, qualifier, fmt', args')"
  shows "- 1 \<le> width"
proof -
  have n: "- 1 \<le> n \<or> (fmt \<noteq> [] \<and> hd fmt = CHR ''*'')" if "parse_number fmt args = Some (n, r)" for fmt args n r
    using that by (auto simp: parse_number_def skip_atoi_def split: list.splits if_splits dest!: atoi_positive isdigit_code)
  have "- 1 \<le> w" if "parse_width flags fmt args = Some (w, r)" for flags fmt args w r
    using that by (auto simp: parse_width_def split: bind_splits if_splits dest!: n)
  then show ?thesis using assms by (auto simp: parse_directive_def split: bind_splits prod.splits)
qed

text \<open>The code of a conversion does what the text of the conversion says.\<close>

definition stores :: "addr \<Rightarrow> nat \<Rightarrow> nat \<Rightarrow> str \<Rightarrow> (str \<times> va list \<times> printed) option \<Rightarrow>
    (str \<times> va list \<times> str) option \<Rightarrow> bool" where
  "stores buf room d t x y \<longleftrightarrow>
     (case y of
        None \<Rightarrow> x = None
      | Some (fmt, args, u) \<Rightarrow>
          int (length u) < 2 ^ 31 - 5 \<and> no_wrap buf room (d + 1) (length (t @ u)) \<longrightarrow>
          (\<exists>out. x = Some (fmt, args, out) \<and> printing buf room (d + 1) (t @ u) out))"

lemma stores_if:
  "stores buf room d t x y \<Longrightarrow> stores buf room d t x' y' \<Longrightarrow>
   stores buf room d t (if b then x else x') (if b then y else y')"
  by simp

lemma stores_emit:
  assumes "printing buf room d t out" and "buffer_end buf room end"
  shows "stores buf room d t (Some (fmt, args, emit_all end u out)) (Some (fmt, args, u))"
proof -
  have "printing buf room (d + 1) (t @ u) (emit_all end u out)" if "no_wrap buf room (d + 1) (length (t @ u))"
  proof -
    have "no_wrap buf room d (length (t @ u))" by (rule no_wrap_less [OF that]) simp_all
    from emit_all_printing [OF assms this] show ?thesis by (rule printing_mono) simp
  qed
  then show ?thesis by (simp add: stores_def)
qed

lemma stores_map:
  assumes "\<And>a r. x = Some (a, r) \<Longrightarrow> stores buf room d t (f a r) (Some (fmt, r, g a))"
  shows "stores buf room d t (x \<bind> (\<lambda>(a, r). f a r)) (map_option (\<lambda>(a, r). (fmt, r, g a)) x)"
  using assms by (cases x) (auto simp: stores_def)

lemma stores_number:
  assumes "printing buf room d t out" and "buffer_end buf room end" and "- 1 \<le> width"
  shows "stores buf room d t
    (print_number end num base width precision type out \<bind> (\<lambda>out. Some (fmt, args, out)))
    (Some (fmt, args, number_text num (divisor base) width precision type))"
proof -
  let ?u = "number_text num (divisor base) width precision type"
  have "\<exists>out'. print_number end num base width precision type out = Some out' \<and>
      printing buf room (d + 1) (t @ ?u) out'"
    if "int (length ?u) < 2 ^ 31 - 5" "no_wrap buf room (d + 1) (length (t @ ?u))"
  proof (rule print_number_printing [OF assms _ that(2)])
    show "precision < 2 ^ 31 - 5"
      using that(1) number_text_precision [of precision num "divisor base" width type] by linarith
  qed
  then show ?thesis by (auto simp: stores_def)
qed

lemma convert_stores:
  assumes w: "printing buf room d t out" "buffer_end buf room end" "- 1 \<le> width"
  shows "stores buf room d t (convert end flags width precision q fmt args out)
    (conversion_text flags width precision q fmt args)"
proof (cases fmt)
  case Nil
  then show ?thesis
    using stores_emit [OF w(1,2), of "[]" args "''%''"] by (simp add: convert_def conversion_text_def)
next
  case (Cons c cs)
  note e1 = stores_emit [OF w(1,2), of _ _ "''%''", simplified] stores_emit [OF w(1,2), of _ _ "[CHR ''%'', c]", simplified]
  have d: "divisor 8 = 16" "divisor 16 = 16" "divisor 10 = 10" by (simp_all add: divisor_def)
  have p: "stores buf room d t ((if b then print_number end n 16 8 p f1 out else print_number end n 16 width p f2 out)
        \<bind> (\<lambda>out. Some (fmt, r, out)))
      (Some (fmt, r, if b then number_text n 16 8 p f1 else number_text n 16 width p f2))" for b n p f1 f2 fmt r
    using stores_number [OF w(1,2), of 8 n 16] stores_number [OF w, of n 16] by (simp add: d)
  note num = stores_number [OF w, of _ 10, unfolded d] stores_number [OF w, of _ 16, unfolded d]
    stores_number [OF w, of _ 8, unfolded d]
  show ?thesis
    unfolding Cons convert_def conversion_text_def Let_def list.case print_char_text [OF w(3)]
      print_string_text [OF w(3)] bind.bind_lunit
    by (intro stores_if stores_map stores_emit [OF w(1,2)] e1 num p)
qed

lemma directive_stores:
  assumes "printing buf room d t out" "buffer_end buf room end"
  shows "stores buf room d t (directive end fmt args out) (directive_text fmt args)"
proof (cases "parse_directive fmt args")
  case None
  then show ?thesis by (simp add: directive_def directive_text_def stores_def)
next
  case (Some r)
  then obtain flags width precision q fmt' args' where
    r: "parse_directive fmt args = Some (flags, width, precision, q, fmt', args')" by (cases r) auto
  from convert_stores [OF assms parse_directive_width [OF r]] show ?thesis
    using r by (simp add: directive_def directive_text_def)
qed

text \<open>Code and text read the format and the arguments alike.\<close>

definition reads_like :: "(str \<times> va list \<times> printed) option \<Rightarrow> (str \<times> va list \<times> str) option \<Rightarrow> bool" where
  "reads_like x y \<longleftrightarrow> (\<forall>fmt args out. x = Some (fmt, args, out) \<longrightarrow> (\<exists>u. y = Some (fmt, args, u)))"

lemma reads_like_if:
  "reads_like x y \<Longrightarrow> reads_like x' y' \<Longrightarrow> reads_like (if b then x else x') (if b then y else y')"
  by simp

lemma reads_like_map:
  "(\<And>a r. x = Some (a, r) \<Longrightarrow> reads_like (f a r) (Some (fmt, r, g a))) \<Longrightarrow>
   reads_like (x \<bind> (\<lambda>(a, r). f a r)) (map_option (\<lambda>(a, r). (fmt, r, g a)) x)"
  by (cases x) (auto simp: reads_like_def)

lemma reads_like_bind: "reads_like (x \<bind> (\<lambda>out. Some (fmt, args, out))) (Some (fmt, args, u))"
  by (cases x) (auto simp: reads_like_def)

lemma reads_like_Some: "reads_like (Some (fmt, args, out)) (Some (fmt, args, u))"
  by (simp add: reads_like_def)

lemma convert_reads:
  "reads_like (convert end flags width precision q fmt args out)
    (conversion_text flags width precision q fmt args)"
proof (cases fmt)
  case (Cons c cs)
  show ?thesis
    unfolding Cons convert_def conversion_text_def Let_def list.case
    by (intro reads_like_if reads_like_map reads_like_bind reads_like_Some)
qed (simp add: convert_def conversion_text_def reads_like_def)

lemma directive_reads: "reads_like (directive end fmt args out) (directive_text fmt args)"
proof (cases "parse_directive fmt args")
  case (Some r)
  then show ?thesis by (cases r) (simp add: directive_def directive_text_def convert_reads)
qed (simp add: directive_def reads_like_def)

lemma loop_fails: "formatted fmt args = None \<Longrightarrow> vsnprintf_loop end fmt args out = None"
proof (induction "end" fmt args out rule: vsnprintf_loop.induct)
  case (2 "end" c fmt args out)
  show ?case
  proof (cases "c = CHR ''%'' \<and> directive end fmt args out \<noteq> None")
    case True
    then obtain fmt' args' out' where d: "directive end fmt args out = Some (fmt', args', out')" by auto
    then obtain u where "directive_text fmt args = Some (fmt', args', u)"
      using directive_reads [of "end" fmt args out] by (auto simp: reads_like_def)
    then show ?thesis using 2(2) [OF _ d] 2(3) True d by simp
  qed (use 2 in \<open>auto split: option.splits\<close>)
qed simp

text \<open>Each directive may move the pointer one further, behind the end.\<close>

lemma loop_stores:
  assumes "buffer_end buf room end"
  shows "printing buf room d t out \<Longrightarrow> formatted fmt args = Some u \<Longrightarrow> int (length u) < 2 ^ 31 - 5 \<Longrightarrow>
    no_wrap buf room (d + length fmt) (length (t @ u)) \<Longrightarrow>
    \<exists>out'. vsnprintf_loop end fmt args out = Some out' \<and> printing buf room (d + length fmt) (t @ u) out'"
proof (induction fmt args arbitrary: d t out u rule: formatted.induct)
  case (2 c fmt args)
  note b = assms
  show ?case
  proof (cases "c = CHR ''%''")
    case False
    then obtain v where v: "formatted fmt args = Some v" "u = c # v" using "2.prems"(2) by auto
    have "no_wrap buf room d (length t)" by (rule no_wrap_less [OF "2.prems"(4)]) simp_all
    then have "printing buf room (d + 1) (t @ [c]) (emit end c out)"
      using printing_mono [OF emit_printing [OF "2.prems"(1) b]] by simp
    from "2.IH"(1) [OF False this v(1)] show ?thesis
      using False "2.prems"(3,4) v(2) by simp
  next
    case True
    then obtain fmt' args' v w where v: "directive_text fmt args = Some (fmt', args', v)"
      "formatted fmt' args' = Some w" "u = v @ w"
      using "2.prems"(2) by (auto split: option.splits)
    have l: "length fmt' \<le> length fmt" using directive_text_length [OF v(1)] .
    have "no_wrap buf room (d + 1) (length (t @ v))" by (rule no_wrap_less [OF "2.prems"(4)]) (simp_all add: v(3))
    moreover have "int (length v) < 2 ^ 31 - 5" using "2.prems"(3) by (simp add: v(3))
    ultimately obtain out' where out': "directive end fmt args out = Some (fmt', args', out')"
      "printing buf room (d + 1) (t @ v) out'"
      using directive_stores [OF "2.prems"(1) b, of fmt args] v(1) by (auto simp: stores_def)
    have w: "int (length w) < 2 ^ 31 - 5" using "2.prems"(3) by (simp add: v(3))
    have "no_wrap buf room (d + 1 + length fmt') (length ((t @ v) @ w))"
      by (rule no_wrap_less [OF "2.prems"(4)]) (use l in \<open>simp_all add: v(3)\<close>)
    from "2.IH"(2) [OF _ v(1) refl refl out'(2) v(2) w this] True obtain out'' where out'':
      "vsnprintf_loop end fmt' args' out' = Some out''"
      "printing buf room (d + 1 + length fmt') (t @ u) out''" by (auto simp: v(3))
    have "printing buf room (d + length (c # fmt)) (t @ u) out''"
      by (rule printing_mono [OF out''(2)]) (use l in simp)
    then show ?thesis using True out'(1) out''(1) by simp
  qed
qed (use printing_mono in auto)

subsection \<open>Properties\<close>

lemma buffer_end_size:
  assumes "0 < n" and "unat buf + unat n \<le> 2 ^ 32"
  shows "buffer_end buf (unat n) (buf + n - 1)" "\<not> buf + n - 1 < buf"
proof -
  have n: "0 < unat n" using assms(1) by (simp add: word_less_nat_alt)
  moreover have "unat (n - 1) = unat n - 1"
    using assms(1) by (simp add: unat_minus_one word_gt_0)
  ultimately have "unat (buf + (n - 1)) = unat buf + unat n - 1"
    using assms(2) by (subst unat_add_lem [THEN iffD1]) simp_all
  moreover have "buf + n - 1 = buf + (n - 1)" by (rule add_diff_eq [symmetric])
  ultimately have "unat (buf + n - 1) = unat buf + unat n - 1" by (simp only:)
  then show "buffer_end buf (unat n) (buf + n - 1)" "\<not> buf + n - 1 < buf"
    using n assms(2) by (simp_all add: buffer_end_def word_less_nat_alt)
qed

lemma text_at_last:
  assumes "unat buf + length t < 2 ^ 32"
  shows "(text_at buf (t @ [x]))(buf + of_nat (length t) \<mapsto> c) = text_at buf (t @ [c])"
  using text_at_snoc [OF assms, of c] text_at_snoc [OF assms, of x] by (metis fun_upd_upd)

lemma vsnprintf_stores:
  assumes "0 < n" and "unat buf + unat n \<le> 2 ^ 32" and t: "formatted fmt args = Some t"
    and l: "int (length t) < 2 ^ 31 - 5" "length t < unat n \<or> unat buf + length t + length fmt < 2 ^ 32"
  shows "\<exists>len. rt_vsnprintf buf n fmt args =
      Some (of_nat len, text_at buf (take (unat n - 1) t @ [CHR 0x00])) \<and>
    (if length t < unat n then len = length t else unat n \<le> len \<and> len \<le> length t + length fmt)"
proof -
  define room where "room = unat n"
  define last where "last = buf + n - 1"
  note b = buffer_end_size [OF assms(1,2), folded room_def last_def]
  have nw: "no_wrap buf room (0 + length fmt) (length ([] @ t))" using l(2) by (simp add: no_wrap_def room_def)
  have "printing buf room 0 [] (buf, Map.empty)" by (auto simp: printing.simps text_at_def)
  from loop_stores [OF b(1) this t l(1) nw] obtain str stored where r:
    "vsnprintf_loop last fmt args (buf, Map.empty) = Some (str, stored)"
    "printing buf room (length fmt) t (str, stored)" by auto
  from nw have nw': "no_wrap buf room (length fmt) (length t)" by simp
  obtain e where e: "e \<le> length fmt" "str = buf + of_nat (length t + e)" "e \<noteq> 0 \<longrightarrow> room \<le> length t"
    "unat buf + (length t + e) < 2 ^ 32" "str \<le> last \<longleftrightarrow> length t < room" "stored = text_at buf (take room t)"
    by (rule printing_at [OF r(2) b(1) nw'])
  have room: "0 < room" "unat buf + room \<le> 2 ^ 32" using b(1) by (simp_all add: buffer_end_def)
  have "rt_vsnprintf buf n fmt args = Some (of_nat (length t + e),
      if length t < room then stored(str \<mapsto> CHR 0x00) else stored(last \<mapsto> CHR 0x00))"
    using r(1) b(2) e(2,5) by (simp add: rt_vsnprintf_def last_def)
  moreover have "(if length t < room then stored(str \<mapsto> CHR 0x00) else stored(last \<mapsto> CHR 0x00)) =
      text_at buf (take (room - 1) t @ [CHR 0x00])"
  proof (cases "length t < room")
    case True
    then have "e = 0" using e(3) by auto
    then show ?thesis using True text_at_snoc [of buf t] e by simp
  next
    case False
    let ?s = "take (room - 1) t"
    have s: "take room t = ?s @ [t ! (room - 1)]" "length ?s = room - 1"
      using False room(1) take_Suc_conv_app_nth [of "room - 1" t] by simp_all
    have "unat (buf + of_nat (room - 1)) = unat buf + (room - 1)" by (rule unat_ahead) (use room in simp)
    also have "\<dots> = unat last" using b(1) room by (simp add: buffer_end_def)
    finally have "last = buf + of_nat (length ?s)" by (simp only: word_unat_eq_iff s(2))
    then show ?thesis
      using False text_at_last [of buf ?s "t ! (room - 1)" "CHR 0x00"] room s e(6) by simp
  qed
  ultimately show ?thesis
    using e(1,3) unfolding room_def by (intro exI [of _ "length t + e"]) auto
qed


lemma number_text_decimal:
  "number_text n 10 (- 1) (- 1) (no_flags\<lparr>SIGN := True\<rparr>) = decimal (sint n)"
  by (simp add: number_text_def field_def sign_text_def no_flags_def decimal_def Let_def)

lemma number_text_hexadecimal:
  "number_text n 16 8 (- 1) (no_flags\<lparr>ZEROPAD := True\<rparr>) = hexadecimal (unat n)"
proof -
  have "nat (8 - int k) = 8 - k" for k by simp
  then show ?thesis by (simp add: number_text_def field_def no_flags_def hexadecimal_def Let_def)
qed

lemma decimal_length: "length (decimal (sint (n :: u32))) \<le> 11"
proof -
  have "nat \<bar>sint n\<bar> < 10 ^ 10" using sint_lt [of n] sint_ge [of n] by simp
  then have "length (numeral_text False 10 (nat \<bar>sint n\<bar>)) \<le> 10" by (intro numeral_length) simp_all
  then show ?thesis by (cases "sint n < 0") (simp_all add: decimal_def)
qed

text \<open>The directives that are used below.\<close>

lemma directives:
  "directive_text (CHR ''d'' # fmt) (VInt v # args) = Some (fmt, args, decimal (sint v))"
  "directive_text (CHR ''0'' # CHR ''8'' # CHR ''x'' # fmt) (VInt v # args) = Some (fmt, args, hexadecimal (unat v))"
  "directive_text (CHR ''c'' # fmt) (VInt v # args) = Some (fmt, args, [char_of (unat (ucast v :: u8))])"
  "directive_text (CHR ''s'' # fmt) (VStr (Some s) # args) = Some (fmt, args, s)"
proof -
  note simps = directive_text_def parse_directive_def parse_width_def parse_number_def skip_atoi_def
    parse_precision_def parse_qualifier_def conversion_text_def fetch_number_def isdigit_def
  show "directive_text (CHR ''d'' # fmt) (VInt v # args) = Some (fmt, args, decimal (sint v))"
    by (simp add: simps number_text_decimal)
  show "directive_text (CHR ''0'' # CHR ''8'' # CHR ''x'' # fmt) (VInt v # args) = Some (fmt, args, hexadecimal (unat v))"
    by (simp add: simps number_text_hexadecimal)
  show "directive_text (CHR ''c'' # fmt) (VInt v # args) = Some (fmt, args, [char_of (unat (ucast v :: u8))])"
    "directive_text (CHR ''s'' # fmt) (VStr (Some s) # args) = Some (fmt, args, s)"
    by (simp_all add: simps field_def no_flags_def)
qed

text \<open>C25. \<open>%d\<close> prints the decimal numeral of the signed number, with a minus sign if it is negative and
  without leading zeros, for every number of 32 bits and every buffer of 12 bytes or more; the
  length of the numeral is returned.\<close>

theorem rt_vsnprintf_decimal:
  assumes "12 \<le> unat k" and "unat buf + unat k \<le> 2 ^ 32"
  shows "rt_vsnprintf buf k ''%d'' [VInt n] =
    Some (of_nat (length (decimal (sint n))), text_at buf (decimal (sint n) @ [CHR 0x00]))"
proof -
  have "0 < k" using assms(1) by (simp add: word_less_nat_alt)
  moreover have "formatted ''%d'' [VInt n] = Some (decimal (sint n))" by (simp add: directives)
  ultimately show ?thesis
    using vsnprintf_stores [of k buf "''%d''" "[VInt n]" "decimal (sint n)"] assms decimal_length [of n] by auto
qed

theorem rt_vsnprintf_decimal_witness:
  "rt_vsnprintf 0x20000000 16 ''%d'' [VInt (- 1024)] = Some (5, text_at 0x20000000 (''-1024'' @ [CHR 0x00]))"
proof -
  have "decimal (- 1024) = ''-1024''" by code_simp
  then show ?thesis using rt_vsnprintf_decimal [of 16 "0x20000000" "- 1024"] by simp
qed


text \<open>What is read back from the buffer.\<close>

lemma those_Some: "those (map (\<lambda>i. Some (f i)) xs) = Some (map f xs)"
  by (induction xs) simp_all

lemma read_text:
  assumes "n \<le> length t" and "n \<le> 2 ^ 32"
  shows "read_chars buf n (text_at buf t) = Some (take n t)"
proof -
  have "map (\<lambda>i. text_at buf t (buf + of_nat i)) [0..<n] = map (\<lambda>i. Some (t ! i)) [0..<n]"
    using assms by (auto simp: text_at_def unat_of_nat)
  also have "those \<dots> = Some (map ((!) t) [0..<n])" by (rule those_Some)
  also have "map ((!) t) [0..<n] = take n t" using assms(1) by (auto intro: nth_equalityI)
  finally show ?thesis by (simp add: read_chars_def)
qed

lemma kprintf_text:
  assumes "formatted fmt args = Some t" and "length t < 127" and "unat buf + 127 \<le> 2 ^ 32"
  shows "rt_kprintf buf fmt args = Some t"
proof -
  have b: "(0 :: u32) < 127" "unat buf + unat (127 :: u32) \<le> 2 ^ 32" using assms(3) by simp_all
  have v: "rt_vsnprintf buf 127 fmt args = Some (of_nat (length t), text_at buf (t @ [CHR 0x00]))"
    using vsnprintf_stores [OF b assms(1)] assms(2) by auto
  have u: "unat (of_nat (length t) :: u32) = length t" using assms(2) by (simp add: unat_of_nat)
  then have "\<not> (127 :: u32) < of_nat (length t)" using assms(2) by (simp add: word_less_nat_alt)
  then show ?thesis
    using v u read_text [of "length t" "t @ [CHR 0x00]" buf] assms(2) by (simp add: rt_kprintf_def)
qed

text \<open>
  Where the pointer does wrap around, the end of the buffer protects nothing: after two numbers in
  the widest fields the NUL is printing before the beginning of the buffer.
\<close>

lemma emit_all_moves: "fst (emit_all end cs out) = fst out + of_nat (length cs)"
  by (induction cs arbitrary: out) (auto simp: emit_def split_beta)

lemma field_length: "length (field type width sign body) = max (nat width) (length sign + length body)"
  by (auto simp: field_def Let_def)

lemma directive_wide:
  "\<exists>out'. directive end (''*u'' @ fmt) (VInt 0x7fffffff # VInt 1 # args) out = Some (fmt, args, out') \<and>
     fst out' = fst out + 0x7fffffff"
proof -
  obtain pre post where p: "number_text 1 (divisor 10) 0x7fffffff (- 1) no_flags = pre @ post"
    "print_number end 1 10 0x7fffffff (- 1) no_flags out = Some (emit_all end post (emit_all end pre out))"
    by (rule print_number_parts [of "0x7fffffff" "- 1" 1 10 no_flags "end" out]) (simp_all add: no_flags_def)
  have "length (numeral_text False 10 1) = 1" by (subst numeral_text.simps) simp
  then have "length pre + length post = 0x7fffffff"
    using arg_cong [OF p(1), of length]
    by (simp add: number_text_def field_length divisor_def no_flags_def Let_def)
  then have "(of_nat (length pre) :: addr) + of_nat (length post) = 0x7fffffff"
    by (simp only: of_nat_add [symmetric]) simp
  then have "fst (emit_all end post (emit_all end pre out)) = fst out + 0x7fffffff"
    by (simp add: emit_all_moves add.assoc)
  moreover have "directive end (''*u'' @ fmt) (VInt 0x7fffffff # VInt 1 # args) out =
      Some (fmt, args, emit_all end post (emit_all end pre out))"
    using p(2) by (simp add: directive_def parse_directive_def parse_width_def parse_number_def
        parse_precision_def parse_qualifier_def convert_def fetch_number_def isdigit_def no_flags_def)
  ultimately show ?thesis by blast
qed

theorem rt_vsnprintf_wraps:
  assumes "0 < n" and "unat buf + unat n \<le> 2 ^ 32" and "2 \<le> unat buf"
  shows "\<exists>len stored.
    rt_vsnprintf buf n ''%*u%*u'' [VInt 0x7fffffff, VInt 1, VInt 0x7fffffff, VInt 1] = Some (len, stored) \<and>
    stored (buf - 2) = Some (CHR 0x00)"
proof -
  note b = buffer_end_size [OF assms(1,2)]
  define last where "last = buf + n - 1"
  obtain o1 where o1: "directive last (''*u'' @ ''%*u'') [VInt 0x7fffffff, VInt 1, VInt 0x7fffffff, VInt 1]
      (buf, Map.empty) = Some (''%*u'', [VInt 0x7fffffff, VInt 1], o1)" "fst o1 = buf + 0x7fffffff"
    using directive_wide [of last "''%*u''" "[VInt 0x7fffffff, VInt 1]" "(buf, Map.empty)"] by auto
  obtain o2 where o2: "directive last (''*u'' @ []) [VInt 0x7fffffff, VInt 1] o1 = Some ([], [], o2)"
    "fst o2 = buf - 2"
    using directive_wide [of last "[]" "[]" o1] o1(2) by auto
  have "vsnprintf_loop last ''%*u%*u'' [VInt 0x7fffffff, VInt 1, VInt 0x7fffffff, VInt 1] (buf, Map.empty) = Some o2"
    using o1(1) o2(1) by simp
  moreover have "unat (buf - 2) = unat buf - 2"
    using assms(3) by (subst unat_sub) (simp_all add: word_le_nat_alt)
  then have "buf - 2 \<le> last"
    using b(1) by (simp add: word_le_nat_alt buffer_end_def last_def [symmetric])
  ultimately show ?thesis
    using b(2) o2(2) by (cases o2) (simp add: rt_vsnprintf_def last_def [symmetric])
qed

theorem rt_vsnprintf_wraps_witness:
  "\<exists>len stored. rt_vsnprintf 0x20000000 16 ''%*u%*u'' [VInt 0x7fffffff, VInt 1, VInt 0x7fffffff, VInt 1] =
     Some (len, stored) \<and> stored 0x1ffffffe = Some (CHR 0x00)"
  using rt_vsnprintf_wraps [of 16 "0x20000000"] by simp

end
