(* ===== verification/FinshTop.thy ===== *)
theory FinshTop
  imports FinshEdit FinshParse FinshRun PrintSpec
begin

text \<open>
  The shell as a whole: keys are typed, the line is scanned, parsed, compiled and run, and the value
  it has by the reference semantics of \<open>FinshSem\<close> appears on the console.
\<close>

subsection \<open>The value on the console\<close>

text \<open>The line that shows a cell of the stack: its character if it is printable, the signed number in
  decimal, and its 32 bits in hexadecimal.\<close>

definition value_line :: "u32 \<Rightarrow> string" where
  "value_line c =
     (let ch = unat (ucast c :: u8) in
      if 0x20 < ch \<and> ch < 0x7e then [CHR 0x09, CHR 0x27, char_of ch, CHR 0x27, CHR '','', CHR '' '']
      else [CHR 0x09]) @
     decimal (sint c) @ '', 0x'' @ hexadecimal (unat c) @ [CHR 0x0A]"

lemma byte_twice [simp]: "(ucast (ucast b :: u32) :: u8) = b"
  by (rule bit_word_eqI) (simp add: bit_simps)

lemma formatted_value:
  "formatted (CHR 0x09 # [CHR 0x27] @ ''%c'' @ [CHR 0x27] @ '', %d, 0x%08x'' @ [CHR 0x0A])
     [VInt (ucast (ucast v :: u8)), VInt v, VInt v] =
   Some ([CHR 0x09, CHR 0x27, char_of (unat (ucast v :: u8)), CHR 0x27, CHR '','', CHR '' ''] @
     decimal (sint v) @ '', 0x'' @ hexadecimal (unat v) @ [CHR 0x0A])"
  "formatted (CHR 0x09 # ''%d, 0x%08x'' @ [CHR 0x0A]) [VInt v, VInt v] =
   Some ([CHR 0x09] @ decimal (sint v) @ '', 0x'' @ hexadecimal (unat v) @ [CHR 0x0A])"
  by (simp_all add: directives)

lemma hexadecimal_length: "length (hexadecimal (unat (v :: u32))) \<le> 8"
proof -
  have "unat v < 16 ^ 8" using unsigned_less [of v, where ?'a = nat] by simp
  then have "length (numeral_text False 16 (unat v)) \<le> 8" by (intro numeral_length) simp_all
  then show ?thesis by (simp add: hexadecimal_def Let_def)
qed

lemma show_text_line:
  assumes "formatted fmt args = Some t" and "length t < 127" and "unat (rt_log_buf s) + 127 \<le> 2 ^ 32"
  shows "show_text fmt args s = Some (s\<lparr>console := console s @ t\<rparr>)"
  using kprintf_text [OF assms] by (simp add: show_text_def)

lemma formatted_plain:
  "formatted FINSH_PROMPT [] = Some FINSH_PROMPT" "formatted [CHR 0x0A] [] = Some [CHR 0x0A]"
  by simp_all

text \<open>The line feed that is echoed when the line is run.\<close>

definition newline :: "finsh_shell \<Rightarrow> string" where
  "newline s = (if echo_mode s \<noteq> 0 then [CHR 0x0A] else [])"

lemma echo_newline_line:
  "unat (rt_log_buf s) + 127 \<le> 2 ^ 32 \<Longrightarrow> echo_newline s = Some (s\<lparr>console := console s @ newline s\<rparr>)"
  by (simp add: echo_newline_def newline_def show_text_line [OF formatted_plain(2)])

lemma show_value_line:
  assumes "unat (rt_log_buf s) + 127 \<le> 2 ^ 32"
  shows "show_value v s = Some (s\<lparr>console := console s @ value_line v\<rparr>)"
proof -
  have "length (value_line v) < 127" using decimal_length [of v] hexadecimal_length [of v] by (simp add: value_line_def Let_def)
  then show ?thesis
    using show_text_line [OF formatted_value(1) _ assms] show_text_line [OF formatted_value(2) _ assms]
    by (auto simp: show_value_def value_line_def Let_def)
qed


subsection \<open>From the line to its value\<close>

lemma vm_loop_stack: "finsh_vm_loop calls s = Some t \<Longrightarrow> length (finsh_vm_stack t) = length (finsh_vm_stack s)"
proof (induction calls s rule: finsh_vm_loop.induct)
  case (1 calls s)
  show ?case
  proof (cases "finsh_pc s < FINSH_TEXT_MAX")
    case True
    then obtain u where u: "vm_step calls s = Some u" "finsh_vm_loop calls u = Some t"
      using "1.prems" by (subst (asm) finsh_vm_loop.simps) (auto simp: bind_Some_conv)
    then show ?thesis using "1.IH" [OF True u] vm_step_moves [OF u(1)] by (simp add: moves_def)
  next
    case False
    then show ?thesis using "1.prems" by (subst (asm) finsh_vm_loop.simps) simp
  qed
qed

lemma compiler_run_ram:
  "finsh_compiler_run base vs node err (s\<lparr>vm_ram := m\<rparr>) =
   map_option (\<lambda>(e, s). (e, s\<lparr>vm_ram := m\<rparr>)) (finsh_compiler_run base vs node err s)"
  by (simp add: finsh_compiler_run_def split_beta Let_def split: bind_split)

lemma compiler_run_stack:
  "finsh_compiler_run base vs node err s = Some (e, t) \<Longrightarrow> length (finsh_vm_stack t) = length (finsh_vm_stack s)"
  by (auto simp: finsh_compiler_run_def split_beta Let_def split: bind_splits if_splits)

lemma eval_line_dom:
  assumes "calls_keep calls"
  shows "eval_line base calls vs es m = Some (v, m') \<Longrightarrow> dom m \<subseteq> dom m'"
proof (induction es arbitrary: m rule: induct_list012)
  case (3 e e' es)
  from "3.prems" obtain x m1 where x: "eval base calls vs e m = Some (x, m1)"
    "eval_line base calls vs (e' # es) m1 = Some (v, m')" by (auto split: bind_splits)
  have "dom m1 \<subseteq> dom m'" by (rule "3.IH"(2) [OF x(2)])
  then show ?case using eval_dom [OF assms x(1)] by blast
qed (simp_all add: eval_dom [OF assms])

lemma errno_id: "global_errno (p :: finsh_parser) = e \<Longrightarrow> p\<lparr>global_errno := e\<rparr> = p"
  by simp

text \<open>A shell that waits for a line.\<close>

definition parser_ready :: "finsh_shell \<Rightarrow> bool" where
  "parser_ready s \<longleftrightarrow>
     (let p = shell_parser s in
      global_errno p = FINSH_ERROR_OK \<and> node_count p = 0 \<and>
      vars_mapped (global_variable_base p) (length (global_variables p)) (parser_ram p)) \<and>
     length (finsh_vm_stack (shell_vm s)) = FINSH_STACK_MAX \<and> unat (rt_log_buf s) + 127 \<le> 2 ^ 32"

definition ready :: "finsh_shell \<Rightarrow> bool" where
  "ready s \<longleftrightarrow>
     shows_text s ([], []) \<and> length (cmd_history s) = FINSH_HISTORY_LINES \<and> parser_ready s"

text \<open>The statements \<open>fs\<close> can be read, compiled and run with \<open>n\<close> rounds of the parser.\<close>

definition runnable :: "nat \<Rightarrow> finsh_parser \<Rightarrow> fexp list \<Rightarrow> bool" where
  "runnable n p fs \<longleftrightarrow>
     fs \<noteq> [] \<and> 0 < n \<and>
     (\<forall>f \<in> set fs. written p f \<and> rounds f + length fs < n \<and>
        supported (global_variables p) f \<and> depth f \<le> FINSH_STACK_MAX) \<and>
     sum_list (map (\<lambda>f. tree_nodes (node_of f)) fs) \<le> FINSH_NODE_MAX \<and>
     length (code_of_line (global_variable_base p) (global_variables p) fs) \<le> FINSH_TEXT_MAX"

text \<open>Variables and tables are the same, only their values in memory may differ.\<close>

definition same_tables :: "finsh_parser \<Rightarrow> finsh_parser \<Rightarrow> bool" where
  "same_tables p q \<longleftrightarrow>
     global_variables q = global_variables p \<and> sysvar_table q = sysvar_table p \<and>
     global_sysvar_list q = global_sysvar_list p \<and> syscall_table q = syscall_table p \<and>
     global_syscall_list q = global_syscall_list p \<and> global_variable_base q = global_variable_base p"

lemma flush_sel [simp]:
  "global_errno (finsh_flush p) = FINSH_ERROR_OK" "node_count (finsh_flush p) = 0"
  "parser_ram (finsh_flush p) = parser_ram p" "same_tables q (finsh_flush p) = same_tables q p"
  "global_variables (finsh_flush p) = global_variables p"
  "global_variable_base (finsh_flush p) = global_variable_base p"
  by (simp_all add: finsh_flush_def finsh_error_init_def finsh_node_init_def finsh_parser_init_def
      finsh_token_init_def same_tables_def)

lemma run_line_value:
  fixes s :: finsh_shell
  defines "p \<equiv> shell_parser s"
  assumes "parser_ready s" and "calls_keep calls" and "runnable n p fs"
    and "spelled (line_lexemes (global_variables p) fs) text"
  shows "case eval_line (global_variable_base p) calls (global_variables p) fs (parser_ram p) of
      None \<Rightarrow> finsh_run_line n calls text s = None
    | Some (v, m) \<Rightarrow> \<exists>s' c. finsh_run_line n calls text s = Some s' \<and> keeps_keyboard s s' \<and>
        parser_ready s' \<and> same_tables p (shell_parser s') \<and> parser_ram (shell_parser s') = m \<and>
        console s' = console s @ newline s @ value_line c \<and>
        read_cell (yields (global_variables p) (last fs)) c = v"
proof -
  let ?vs = "global_variables p" and ?b = "global_variable_base p" and ?m = "parser_ram p"
  have r: "fs \<noteq> []" "0 < n" "\<forall>f \<in> set fs. written p f \<and> rounds f + length fs < n"
    "\<forall>f \<in> set fs. supported ?vs f \<and> depth f \<le> FINSH_STACK_MAX"
    "length (code_of_line ?b ?vs fs) \<le> FINSH_TEXT_MAX"
    and nodes: "sum_list (map (\<lambda>f. tree_nodes (node_of f)) fs) \<le> FINSH_NODE_MAX"
    using assms(4) by (auto simp: runnable_def)
  have pr: "global_errno p = FINSH_ERROR_OK" "node_count p = 0" "vars_mapped ?b (length ?vs) ?m"
    "length (finsh_vm_stack (shell_vm s)) = FINSH_STACK_MAX" "unat (rt_log_buf s) + 127 \<le> 2 ^ 32"
    using assms(2) by (simp_all add: parser_ready_def p_def Let_def)
  obtain q where q: "finsh_parser_run n text p = Some (map node_of fs, q)"
    "grown (sum_list (map (\<lambda>f. tree_nodes (node_of f)) fs)) p q"
    using parser_run_grown [OF assms(5) r(3,2)] nodes pr(2) by auto
  note g = grown_tables [OF q(2)]
  let ?vm = "(shell_vm s)\<lparr>vm_ram := ?m\<rparr>" and ?s = "s\<lparr>console := console s @ newline s\<rparr>"
  have "vars_mapped ?b (length ?vs) (vm_ram ?vm)" "length (finsh_vm_stack ?vm) = FINSH_STACK_MAX"
    using pr by simp_all
  from line_computes [OF assms(3) r(1,4,5) this] obtain vm where vm:
    "finsh_compiler_run ?b ?vs (map node_of fs) 0 ?vm = Some (0, vm)"
    "case eval_line ?b calls ?vs fs ?m of None \<Rightarrow> finsh_vm_run calls vm = None
     | Some (v, m) \<Rightarrow> \<exists>t. finsh_vm_run calls vm = Some t \<and> vm_ram t = m \<and>
         read_cell (yields ?vs (last fs)) (finsh_stack_bottom t) = v" by auto
  then obtain vm0 where vm0: "finsh_compiler_run ?b ?vs (map node_of fs) 0 (shell_vm s) = Some (0, vm0)"
    "vm0\<lparr>vm_ram := ?m\<rparr> = vm" by (auto simp: compiler_run_ram)
  have run: "finsh_run_line n calls text s =
      map_option (\<lambda>s. s\<lparr>shell_parser := finsh_flush (shell_parser s)\<rparr>)
        (run_code calls (?s\<lparr>shell_vm := vm0, shell_parser := q\<rparr>))"
    using q(1) vm0(1) pr(1) g
    by (simp add: finsh_run_line_def echo_newline_line [OF pr(5)] compile_root_def p_def map_conv_bind_option comp_def errno_id)
  have len: "length (finsh_vm_stack vm) = FINSH_STACK_MAX"
    using compiler_run_stack [OF vm(1)] pr(4) by simp
  have code: "run_code calls (?s\<lparr>shell_vm := vm0, shell_parser := q\<rparr>) =
      finsh_vm_run calls vm \<bind> (\<lambda>t. show_value (finsh_stack_bottom t)
        (?s\<lparr>shell_vm := t, shell_parser := q\<lparr>parser_ram := vm_ram t\<rparr>\<rparr>))"
    using vm0(2) g by (simp add: run_code_def Let_def)
  show ?thesis
  proof (cases "eval_line ?b calls ?vs fs ?m")
    case None
    then show ?thesis using vm(2) run code by simp
  next
    case (Some r)
    then obtain v m where e: "eval_line ?b calls ?vs fs ?m = Some (v, m)" by (cases r) simp
    with vm(2) obtain t where t: "finsh_vm_run calls vm = Some t" "vm_ram t = m"
      "read_cell (yields ?vs (last fs)) (finsh_stack_bottom t) = v" by auto
    let ?c = "finsh_stack_bottom t"
    let ?u = "?s\<lparr>shell_vm := t, shell_parser := finsh_flush (q\<lparr>parser_ram := m\<rparr>),
      console := console ?s @ value_line ?c\<rparr>"
    have u: "finsh_run_line n calls text s = Some ?u"
      using run code t(1,2) show_value_line [of "?s\<lparr>shell_vm := t, shell_parser := q\<lparr>parser_ram := m\<rparr>\<rparr>" ?c] pr(5)
      by simp
    have "vars_mapped ?b (length ?vs) m"
      by (rule vars_mapped_mono [OF pr(3) eval_line_dom [OF assms(3) e]])
    moreover have "length (finsh_vm_stack t) = FINSH_STACK_MAX"
      using t(1) vm_loop_stack len by (fastforce simp: finsh_vm_run_def)
    ultimately have "parser_ready ?u" using pr(5) g by (simp add: parser_ready_def Let_def)
    moreover have "same_tables p (q\<lparr>parser_ram := m\<rparr>)" using g by (simp add: same_tables_def)
    then have "same_tables p (shell_parser ?u)" by simp
    ultimately show ?thesis using e u t(3) run_line_keeps [OF u] by auto
  qed
qed

lemma runs_from_ready:
  "runs_from s t \<Longrightarrow> parser_ready s \<Longrightarrow>
   parser_ready t \<and> shell_parser t = shell_parser s \<and> console t = console s \<and> newline t = newline s"
  by (simp add: runs_from_def parser_ready_def newline_def Let_def)

lemma shell_computes:
  assumes "ready s" and "calls_keep calls"
    and "edits_fit es ([], [])" and "typed es \<noteq> []" and "length (typed es) + 1 < FINSH_CMD_SIZE"
    and "runnable n (shell_parser s) fs"
    and "spelled (line_lexemes (global_variables (shell_parser s)) fs) (typed es @ '';'')"
  shows "case eval_line (global_variable_base (shell_parser s)) calls (global_variables (shell_parser s)) fs
        (parser_ram (shell_parser s)) of
      None \<Rightarrow> shell_read n calls (concat (map keys_of es) @ CHR 0x0A # keys) s = None
    | Some (v, m) \<Rightarrow> \<exists>s' c. shell_read n calls (concat (map keys_of es) @ CHR 0x0A # keys) s = Some (keys, s') \<and>
        ready s' \<and> same_tables (shell_parser s) (shell_parser s') \<and> parser_ram (shell_parser s') = m \<and>
        console s' = console s @ newline s @ value_line c @ FINSH_PROMPT \<and>
        read_cell (yields (global_variables (shell_parser s)) (last fs)) c = v"
proof -
  have s: "shows_text s ([], [])" "length (cmd_history s) = FINSH_HISTORY_LINES" "parser_ready s"
    using assms(1) by (simp_all add: ready_def)
  from typed_line [OF s(1) assms(3,4) s(2), of n calls keys] assms(5) obtain t where t:
    "runs_from s t" "newest t (typed es)"
    "shell_read n calls (concat (map keys_of es) @ CHR 0x0A # keys) s =
      finsh_run_line n calls (typed es @ '';'') t \<bind> (\<lambda>s. map_option (Pair keys) (line_over s))" by auto
  note r = runs_from_ready [OF t(1) s(3)]
  have cl: "line_over s' = Some (clear_line (s'\<lparr>console := console s' @ FINSH_PROMPT\<rparr>)) \<and>
      ready (clear_line (s'\<lparr>console := console s' @ FINSH_PROMPT\<rparr>))"
    if "keeps_keyboard t s'" "parser_ready s'" for s'
  proof -
    have "stat s' = WAIT_NORMAL" "length (cmd_history s') = FINSH_HISTORY_LINES"
      using that(1) t(1,2) by (simp_all add: keeps_keyboard_def runs_from_def newest_def)
    then show ?thesis
      using that(2) show_text_line [OF formatted_plain(1), of s']
      by (simp add: line_over_def ready_def shows_text_def clear_line_def parser_ready_def Let_def)
  qed
  from run_line_value [of t calls n fs "typed es @ '';''"] assms(2,6,7) r show ?thesis
    using t(3) cl by (fastforce simp: clear_line_def split: option.splits prod.splits)
qed

text \<open>C4. The shell computes: whatever keys a line of supported statements is typed with, the line feed
  that ends it shows, in decimal and in hexadecimal, the 32 bit cell of the stack that holds the
  value which the reference semantics gives the line, leaves the memory the statements make, and
  shows the prompt, ready for the next line. A value of 32 bits is the number shown. Of a value of
  8 or 16 bits only the low bits of what is shown are determined: the shell prints the whole cell,
  whose other bits the line may not have set. The machine faults exactly if the line has no value
  (division by zero, shift by 32 or more, bad address).\<close>

theorem finsh_shell_computes:
  assumes "ready s" and "calls_keep calls"
    and "edits_fit es ([], [])" and "typed es \<noteq> []" and "length (typed es) + 1 < FINSH_CMD_SIZE"
    and "runnable n (shell_parser s) fs"
    and "spelled (line_lexemes (global_variables (shell_parser s)) fs) (typed es @ '';'')"
  shows "case eval_line (global_variable_base (shell_parser s)) calls (global_variables (shell_parser s)) fs
        (parser_ram (shell_parser s)) of
      None \<Rightarrow> shell_read n calls (concat (map keys_of es) @ CHR 0x0A # keys) s = None
    | Some (v, m) \<Rightarrow> \<exists>s' c. shell_read n calls (concat (map keys_of es) @ CHR 0x0A # keys) s = Some (keys, s') \<and>
        ready s' \<and> same_tables (shell_parser s) (shell_parser s') \<and> parser_ram (shell_parser s') = m \<and>
        console s' = console s @ newline s @ value_line c @ FINSH_PROMPT \<and>
        read_cell (yields (global_variables (shell_parser s)) (last fs)) c = v \<and>
        (yields (global_variables (shell_parser s)) (last fs) = W32 \<longrightarrow> sint c = v)"
proof -
  have "read_cell W32 c = sint c" for c by simp
  with shell_computes [OF assms, of keys] show ?thesis by (fastforce split: option.splits prod.splits)
qed

end
