(* ===== verification/FinshLimits.thy ===== *)
theory FinshLimits
  imports FinshRun
begin

text \<open>
  Lines of the shell outside of what \<open>FinshRun\<close> supports, and what becomes of them: a call as the
  first operand, an operand narrower than the operation, and code longer than the text segment.
\<close>

subsection \<open>A line that works\<close>

definition vs_example :: "finsh_var list" where
  "vs_example = \<lparr>fv_name = ''a'', fv_type = finsh_type_int\<rparr> # tl finsh_var_init"

definition vm_example :: vm where
  "vm_example = \<lparr>finsh_vm_stack = replicate FINSH_STACK_MAX 0,
     text_segment = replicate FINSH_TEXT_MAX 0, finsh_sp = 0, finsh_pc = 0, vm_ram = (\<lambda>_. Some 0)\<rparr>"

text \<open>\<open>a = 2 + 3 * 4; ++a\<close>\<close>

definition line_example :: "fexp list" where
  "line_example =
    [EAssign (Var 0) (EBin Add (ELong 2) (EBin Mul (ELong 3) (ELong 4))), EIncr True Add 0]"

lemma example_checks:
  "\<forall>e \<in> set line_example. supported vs_example e \<and> depth e \<le> FINSH_STACK_MAX"
  "length (code_of_line b vs_example line_example) \<le> FINSH_TEXT_MAX"
  "vars_mapped b n (vm_ram vm_example)" "length (finsh_vm_stack vm_example) = FINSH_STACK_MAX"
  "line_example \<noteq> []"
  by (simp_all add: line_example_def vs_example_def vars_mapped_def vm_example_def code_incr_def
      yields_def FINSH_SET32_def)

lemma example_value:
  "map_option fst (eval_line b (\<lambda>_ _ _. None) vs_example line_example (vm_ram vm_example)) = Some 15"
  by (simp add: line_example_def vs_example_def vm_example_def store_def load32_def
      FINSH_SET32_def FINSH_GET32_def add.assoc)

theorem finsh_line_computes_witness:
  "\<exists>s' t. finsh_compiler_run 0x20000000 vs_example (map node_of line_example) 0 vm_example =
      Some (0, s') \<and>
    finsh_vm_run (\<lambda>_ _ _. None) s' = Some t \<and> finsh_stack_bottom t = 15"
proof -
  have "calls_keep (\<lambda>_ _ _. None)" by (simp add: calls_keep_def)
  note run = finsh_line_computes [OF this example_checks(5,1,2,3,4), of "0x20000000"]
  obtain m where m: "eval_line 0x20000000 (\<lambda>_ _ _. None) vs_example line_example
      (vm_ram vm_example) = Some (15, m)"
    using example_value [of "0x20000000"] by auto
  have "yields vs_example (last line_example) = W32"
    by (simp add: line_example_def vs_example_def yields_def)
  with run m obtain s' t where "finsh_compiler_run 0x20000000 vs_example (map node_of line_example) 0
      vm_example = Some (0, s')" "finsh_vm_run (\<lambda>_ _ _. None) s' = Some t"
      "sint (finsh_stack_bottom t) = 15"
    by auto
  moreover from this(3) have "finsh_stack_bottom t = 15"
    by (intro signed_word_eqI) simp
  ultimately show ?thesis by blast
qed

subsection \<open>Code longer than the text segment\<close>

lemma code_of_line_replicate:
  "n \<noteq> 0 \<Longrightarrow> length (code_of_line b vs (replicate n e)) + 1 = n * (length (code_of b vs e) + 1)"
proof (induction n)
  case (Suc n)
  then show ?case by (cases n) simp_all
qed simp

text \<open>Nothing bounds the code by the size of the text segment: six statements \<open>a++\<close> on an \<open>int\<close>,
  24 characters and 12 of the 16 nodes, compile to 143 bytes, and the compiler writes beyond its
  128.\<close>

theorem finsh_text_overflows:
  assumes "place_width vs (Var i) = Some W32" and "6 \<le> n"
  shows "finsh_compiler_run b vs (replicate n (node_of (EIncr False Add i))) err s = None"
proof -
  let ?e = "EIncr False Add i"
  have sup: "\<forall>e \<in> set (replicate n ?e). supported vs e" using assms(1) by auto
  have "length (code_of b vs ?e) = 23"
    using assms(1) by (simp add: code_incr_def)
  then have "length (code_of_line b vs (replicate n ?e)) + 1 = n * 24"
    using code_of_line_replicate [of n b vs ?e] assms(2) by simp
  then have "\<not> length (code_of_line b vs (replicate n ?e)) \<le> FINSH_TEXT_MAX"
    using assms(2) by linarith
  then show ?thesis
    using check_line [OF sup, of err] compiles_line [OF sup, of b err]
    by (simp add: finsh_compiler_run_def)
qed

theorem finsh_text_overflows_witness:
  "finsh_compiler_run 0x20000000 vs_example (replicate 6 (node_of (EIncr False Add 0))) 0 vm_example
    = None"
  by (rule finsh_text_overflows) (simp_all add: vs_example_def)

subsection \<open>A call as the first operand\<close>

lemma check_call_operand:
  assumes "supported vs (ECall sc es)" "supported vs b"
  shows "finsh_type_check vs 0 [node_of (EBin op (ECall sc es) b)] err =
    ([Node (bop_node op) 0 0 0 id_null [checked vs (ECall sc es), checked vs b]], err)"
  using assms check_node [OF assms(1)] check_node [OF assms(2)]
  by (simp add: sys_node_def del: supported.simps node_of.simps(9) checked.simps(9))

lemma compiles_call_operand:
  assumes "supported vs (ECall sc es)" "supported vs b"
  shows "compiles_to base vs (Node (bop_node op) 0 0 0 id_null [checked vs (ECall sc es), checked vs b])
    ((code_of base vs (ECall sc es) @ code_of base vs b) @ [])"
proof (rule compiles_toI)
  show "finsh_compile base vs [checked vs (ECall sc es), checked vs b] err =
      Some (code_of base vs (ECall sc es) @ code_of base vs b, err)" for err
    by (intro compiles_to_cons compiles_to_nil compiles assms)
  show "code_node base vs (bop_node op) 0 0 0 id_null [checked vs (ECall sc es), checked vs b] err =
      Some ([], err)" for err
    by (cases op) (simp_all add: code_node_def code_op_def)
qed

text \<open>The machine on a freshly compiled line, and what it makes of the rest of the segment.\<close>

definition loaded :: "u8 list \<Rightarrow> vm \<Rightarrow> vm" where
  "loaded c s =
    s\<lparr>text_segment := c @ replicate (FINSH_TEXT_MAX - length c) 0,
      finsh_vm_stack := (finsh_vm_stack s)[0 := 0]\<rparr>"

lemma loaded_runs:
  assumes "length c \<le> FINSH_TEXT_MAX" "length (finsh_vm_stack s) = FINSH_STACK_MAX"
  shows "code_at ((loaded c s)\<lparr>finsh_sp := 0, finsh_pc := 0\<rparr>) c"
    and "finsh_vm_loop calls (after ((loaded c s)\<lparr>finsh_sp := 0, finsh_pc := 0\<rparr>) c stk p m) =
      Some ((after ((loaded c s)\<lparr>finsh_sp := 0, finsh_pc := 0\<rparr>) c stk p m)
        \<lparr>finsh_pc := FINSH_TEXT_MAX\<rparr>)"
  using assms
  by (simp_all add: code_at_def loaded_def finsh_vm_loop_noop nth_append)

text \<open>C7. A call has no width for the compiler, so an operator whose first operand is a call is
  not compiled at all: \<open>f(..) + b\<close> evaluates both operands and has the value of \<open>f(..)\<close>, for every
  operator and without an error.\<close>

theorem finsh_call_loses_operator:
  assumes "calls_keep calls" and "supported vs (ECall sc es)" "supported vs b"
    and "max (depth (ECall sc es)) (1 + depth b) \<le> FINSH_STACK_MAX"
    and "length (code_of base vs (ECall sc es) @ code_of base vs b) \<le> FINSH_TEXT_MAX"
    and "vars_mapped base (length vs) (vm_ram s)" and "length (finsh_vm_stack s) = FINSH_STACK_MAX"
    and "eval base calls vs (ECall sc es) (vm_ram s) = Some (x, m)"
    and "eval base calls vs b m = Some (y, m')"
  shows "\<exists>s' t. finsh_compiler_run base vs [node_of (EBin op (ECall sc es) b)] 0 s = Some (0, s') \<and>
    finsh_vm_run calls s' = Some t \<and> vm_ram t = m' \<and> sint (finsh_stack_bottom t) = x"
proof -
  let ?a = "ECall sc es"
  let ?ca = "code_of base vs ?a" and ?cb = "code_of base vs b"
  let ?s = "loaded (?ca @ ?cb) s"
  let ?t = "?s\<lparr>finsh_sp := 0, finsh_pc := 0\<rparr>"
  have 1: "finsh_compiler_run base vs [node_of (EBin op ?a b)] 0 s = Some (0, ?s)"
    using assms(5) check_call_operand [OF assms(2,3)]
      compiles_to_nil [OF compiles_call_operand [OF assms(2,3)]]
    by (simp add: finsh_compiler_run_def loaded_def del: code_of.simps node_of.simps checked.simps)
  have c: "code_at ?t (?ca @ ?cb)" by (rule loaded_runs [OF assms(5,7)])
  have ram: "vm_ram ?t = vm_ram s" by (simp add: loaded_def)
  have "leads calls ?t ?ca 0 W32 (Some (x, m))"
    using runs_wellD [OF runs_expression [OF assms(1,2)] conjunct1 [OF code_at_append [OF c]]]
      assms(4,6,8) by (simp add: ram yields_def del: code_of.simps depth.simps eval.simps)
  then obtain stk where stk: "length stk = FINSH_STACK_MAX" "sint (stk ! 0) = x"
      "finsh_vm_loop calls ?t = finsh_vm_loop calls (after ?t ?ca stk 1 m)"
    by (auto simp: leads_def)
  let ?u = "after ?t ?ca stk 1 m"
  have "vars_mapped base (length vs) m"
    by (rule vars_mapped_mono [OF assms(6) eval_dom [OF assms(1,8)]])
  moreover have "code_at ?u ?cb" using code_at_append [OF c] stk(1) by blast
  ultimately have "leads calls ?u ?cb 1 (yields vs b) (Some (y, m'))"
    using runs_wellD [OF runs_expression [OF assms(1,3)], where s = ?u and base = base] assms(4,9) by simp
  then obtain stk' where stk': "length stk' = FINSH_STACK_MAX" "take 1 stk' = take 1 stk"
      "finsh_vm_loop calls ?u = finsh_vm_loop calls (after ?t (?ca @ ?cb) stk' 2 m')"
    by (auto simp: leads_def numeral_2_eq_2)
  have "stk' ! 0 = stk ! 0" using cells_below [OF stk'(2,1) stk(1)] by simp
  moreover have "finsh_vm_run calls ?s =
      Some ((after ?t (?ca @ ?cb) stk' 2 m')\<lparr>finsh_pc := FINSH_TEXT_MAX\<rparr>)"
    unfolding finsh_vm_run_def stk(3) stk'(3) by (rule loaded_runs [OF assms(5,7)])
  ultimately show ?thesis using 1 stk(2) by (simp add: finsh_stack_bottom_def)
qed

text \<open>\<open>f(3) + 5\<close>, where \<open>f\<close> returns its argument.\<close>

definition syscall_example :: finsh_syscall where
  "syscall_example = \<lparr>syscall_self = 0x100, syscall_name = ''f'', syscall_func = 0x200\<rparr>"

definition calls_example :: syscalls where
  "calls_example f ps m = Some (hd ps, m)"

theorem finsh_call_loses_operator_witness:
  "\<exists>s' t. finsh_compiler_run 0x20000000 vs_example
      [node_of (EBin Add (ECall syscall_example [ELong 3]) (ELong 5))] 0 vm_example = Some (0, s') \<and>
    finsh_vm_run calls_example s' = Some t \<and> vm_ram t = vm_ram vm_example \<and>
    sint (finsh_stack_bottom t) = 3"
  by (rule finsh_call_loses_operator [where m = "vm_ram vm_example" and y = 5])
    (simp_all add: calls_keep_def calls_example_def example_checks yields_def
      syscall_example_def vm_example_def vars_mapped_def)

subsection \<open>An operand narrower than the operation\<close>

text \<open>A character constant fills one byte of its cell, and an addition to a \<open>long\<close> reads all four:
  the value of \<open>n + 'c'\<close> depends on what an earlier line left in the second cell of the stack, of
  which only the first is cleared.\<close>

theorem finsh_narrow_operand_stale:
  assumes "length (finsh_vm_stack s) = FINSH_STACK_MAX"
  shows "\<exists>s' t. finsh_compiler_run base vs [node_of (EBin Add (ELong n) (EChar c))] 0 s =
      Some (0, s') \<and>
    finsh_vm_run calls s' = Some t \<and>
    finsh_stack_bottom t = n + set_char_value c (finsh_vm_stack s ! 1)"
proof -
  let ?c1 = "[op_ld W32] @ bytes W32 (sint n)" and ?c2 = "[op_ld W8] @ bytes W8 (uint c)"
  let ?c = "?c1 @ ?c2 @ [op_bin Add W32]"
  let ?s = "loaded ?c s"
  let ?t = "?s\<lparr>finsh_sp := 0, finsh_pc := 0\<rparr>"
  have 1: "finsh_compiler_run base vs [node_of (EBin Add (ELong n) (EChar c))] 0 s = Some (0, ?s)"
    by (simp add: finsh_compiler_run_def sys_node_def child_is_addr_def leaf_data_type_def
        code_node_def code_op_def loaded_def)
  have c: "code_at ?t ?c" using assms by (intro loaded_runs) simp_all
  let ?stk1 = "(finsh_vm_stack ?t)[0 := n]"
  let ?u = "after ?t ?c1 ?stk1 1 (vm_ram ?t)"
  have l: "length ?stk1 = FINSH_STACK_MAX" using assms by (simp add: loaded_def)
  have u: "finsh_vm_loop calls ?t = finsh_vm_loop calls ?u"
    using run_ld [OF conjunct1 [OF code_at_append [OF c]], of calls] by simp
  have c1: "code_at ?u (?c2 @ [op_bin Add W32])" using code_at_append [OF c] l by blast
  let ?stk2 = "?stk1[1 := set_char_value c (finsh_vm_stack s ! 1)]"
  let ?v = "after ?u ?c2 ?stk2 2 (vm_ram ?t)"
  have "?stk1 ! 1 = finsh_vm_stack s ! 1" by (simp add: loaded_def)
  then have v: "finsh_vm_loop calls ?u = finsh_vm_loop calls ?v"
    using run_ld [OF conjunct1 [OF code_at_append [OF c1]], of calls] by (simp add: numeral_2_eq_2)
  have c2: "code_at ?v [op_bin Add W32]" using code_at_append [OF c1] l by (metis length_list_update)
  let ?r = "n + set_char_value c (finsh_vm_stack s ! 1)"
  have "finsh_vm_loop calls ?v = finsh_vm_loop calls (after ?t ?c (?stk2[0 := ?r]) 1 (vm_ram ?t))"
    using run_bin [OF c2, of calls] l by (simp del: op_bin.simps)
  also have "\<dots> = Some ((after ?t ?c (?stk2[0 := ?r]) 1 (vm_ram ?t))\<lparr>finsh_pc := FINSH_TEXT_MAX\<rparr>)"
    using assms by (intro loaded_runs) simp_all
  finally show ?thesis using 1 u v l
    by (simp add: finsh_vm_run_def finsh_stack_bottom_def loaded_def)
qed

theorem finsh_narrow_operand_stale_witness:
  "\<exists>s' t. finsh_compiler_run 0x20000000 vs_example [node_of (EBin Add (ELong 1) (EChar 2))] 0
      (vm_example\<lparr>finsh_vm_stack := 0 # 0x100 # replicate 62 0\<rparr>) = Some (0, s') \<and>
    finsh_vm_run (\<lambda>_ _ _. None) s' = Some t \<and> finsh_stack_bottom t = 0x103"
  using finsh_narrow_operand_stale
    [of "vm_example\<lparr>finsh_vm_stack := 0 # 0x100 # replicate 62 0\<rparr>" "0x20000000" vs_example 1 2
      "\<lambda>_ _ _. None"]
  by (simp add: set_char_value_def)

end
