(* ===== verification/FinshExample.thy ===== *)
theory FinshExample
  imports FinshTop FinshLimits
begin

text \<open>
  A shell with one variable, on which the theorems about the shell are applied: lines that are typed,
  mistyped and corrected, read, run and shown.
\<close>

subsection \<open>Spelling a line without blanks\<close>

definition spell :: "lexeme list \<Rightarrow> string" where
  "spell xs = concat (map lexeme_text xs)"

fun spellable :: "lexeme list \<Rightarrow> bool" where
  "spellable [] = True"
| "spellable (x # xs) = (lexeme_ok x \<and> apart x (spell xs) \<and> spellable xs)"

lemma spelled_spell: "spellable xs \<Longrightarrow> spelled xs (spell xs)"
proof (induction xs)
  case (Cons x xs)
  then have "spelled (x # xs) ([] @ lexeme_text x @ spell xs)" by (intro spelled_Cons) simp_all
  then show ?case by (simp add: spell_def)
qed (simp add: spell_def)

subsection \<open>The shell\<close>

definition parser_example :: finsh_parser where
  "parser_example = \<lparr>tk_eof = False, tk_replay = False, tk_position = 0,
     current_token = finsh_token_type_bad, tk_value = 0,
     tk_string = replicate FINSH_STRING_MAX (CHR 0x00), tk_line = [], global_errno = 0,
     node_count = 0, global_variables = vs_example, sysvar_table = [], global_sysvar_list = [],
     syscall_table = map (\<lambda>w. \<lparr>syscall_self = 0, syscall_name = w, syscall_func = 0\<rparr>)
       [''list_thread'', ''list_timer'', ''version'', ''__clear''],
     global_syscall_list = [], string_heap = finsh_heap_init, finsh_heap_base = 0x20001000,
     global_variable_base = 0x20000000, parser_ram = (\<lambda>_. Some 0)\<rparr>"

definition shell_example :: finsh_shell where
  "shell_example = \<lparr>stat = WAIT_NORMAL, echo_mode = 1, current_history = 0, history_count = 0,
     cmd_history = replicate FINSH_HISTORY_LINES (replicate FINSH_CMD_SIZE (CHR 0x00)),
     shell_parser = parser_example, shell_vm = vm_example,
     line = replicate FINSH_CMD_SIZE (CHR 0x00), line_position = 0, line_curpos = 0,
     rt_log_buf = 0x20002000, console = []\<rparr>"

lemma ready_example: "ready shell_example"
  by (simp add: ready_def shell_example_def shows_text_def parser_ready_def parser_example_def
      vm_example_def vars_mapped_def Let_def)

text \<open>\<open>a=2+3*5\<close>, and the last digit is mended.\<close>

definition keys_example :: "edit list" where
  "keys_example = map Ins ''a=2+3*5'' @ [Del, Ins (CHR ''4'')]"

definition statements_example :: "fexp list" where
  "statements_example = [EAssign (Var 0) (EBin Add (EInt 2) (EBin Mul (EInt 3) (EInt 4)))]"

lemma typed_example: "typed keys_example = ''a=2+3*4''" "edits_fit keys_example ([], [])"
  by (simp_all add: keys_example_def typed_def plain_def Let_def)

lemma words_example:
  "found parser_example ''a'' (FINSH_IDTYPE_VAR, id_var 0)"
  by (simp add: found_def parser_example_def vs_example_def same_name_def)

lemma runnable_example: "runnable 20 parser_example statements_example"
  using words_example
  by (simp add: runnable_def statements_example_def place_found_def parser_example_def vs_example_def
      negation_def yields_def FINSH_SET32_def sys_node_def)

lemma digits_example: "dec 2 = ''2''" "dec 3 = ''3''" "dec 4 = ''4''"
  by code_simp+

lemma spelled_example:
  "spelled (line_lexemes vs_example statements_example) ''a=2+3*4;''"
proof -
  have xs: "line_lexemes vs_example statements_example =
      [Word ''a'', Op finsh_token_type_assign, Num 2, Op finsh_token_type_add, Num 3,
       Op finsh_token_type_mul, Num 4, Op finsh_token_type_semicolon]" (is "_ = ?xs")
    by (simp add: line_lexemes_def statements_example_def vs_example_def negation_def)
  have "spell ?xs = ''a=2+3*4;''" by (simp add: spell_def digits_example)
  moreover have "spellable ?xs"
    by (simp add: spell_def digits_example is_separator_def is_digit_def ord_def word_text_def
        finsh_name_table_def)
  ultimately show ?thesis using xs spelled_spell by metis
qed

lemma no_calls: "calls_keep (\<lambda>_ _ _. None)"
  by (simp add: calls_keep_def)

lemma value_example:
  "map_option fst (eval_line 0x20000000 (\<lambda>_ _ _. None) vs_example statements_example
     (parser_ram parser_example)) = Some 14"
  by (simp add: statements_example_def vs_example_def parser_example_def store_def FINSH_SET32_def add.assoc)

lemma shown_example: "value_line 14 = [CHR 0x09] @ ''14, 0x0000000e'' @ [CHR 0x0A]"
  by code_simp

theorem finsh_shell_computes_witness:
  "\<exists>s'. shell_read 20 (\<lambda>_ _ _. None) (concat (map keys_of keys_example) @ [CHR 0x0A, CHR ''b'']) shell_example =
      Some (''b'', s') \<and>
    ready s' \<and> console s' = [CHR 0x0A, CHR 0x09] @ ''14, 0x0000000e'' @ [CHR 0x0A] @ ''finsh>>''"
proof -
  have sel: "shell_parser shell_example = parser_example" "global_variables parser_example = vs_example"
    "global_variable_base parser_example = 0x20000000" "console shell_example = []"
    "newline shell_example = [CHR 0x0A]"
    by (simp_all add: shell_example_def parser_example_def newline_def)
  have r: "runnable 20 (shell_parser shell_example) statements_example"
    "spelled (line_lexemes (global_variables (shell_parser shell_example)) statements_example)
       (typed keys_example @ '';'')"
    using runnable_example spelled_example by (simp_all add: sel typed_example)
  have t: "typed keys_example \<noteq> []" "length (typed keys_example) + 1 < FINSH_CMD_SIZE"
    by (simp_all add: typed_example)
  note run = finsh_shell_computes [OF ready_example no_calls typed_example(2) t r, of "''b''"]
  obtain m where m: "eval_line 0x20000000 (\<lambda>_ _ _. None) vs_example statements_example
      (parser_ram parser_example) = Some (14, m)"
    using value_example by auto
  have "yields vs_example (last statements_example) = W32"
    by (simp add: statements_example_def vs_example_def yields_def)
  with run m sel obtain s' c where s': "shell_read 20 (\<lambda>_ _ _. None)
      (concat (map keys_of keys_example) @ CHR 0x0A # ''b'') shell_example = Some (''b'', s')"
    "ready s'" "console s' = [CHR 0x0A] @ value_line c @ FINSH_PROMPT" "sint c = 14" by auto
  have "c = 14" using s'(4) by (intro signed_word_eqI) simp
  then show ?thesis using s' shown_example by (intro exI [of _ s']) simp
qed

subsection \<open>The parts of the shell\<close>

theorem finsh_parser_reads_line_witness:
  "\<exists>self'. finsh_parser_run 20 ''a=2+3*4;'' parser_example = Some (map node_of statements_example, self') \<and>
    global_errno self' = 0"
proof -
  have e: "global_variables parser_example = vs_example" "global_errno parser_example = 0"
    by (simp_all add: parser_example_def)
  have r: "\<forall>e \<in> set statements_example. written parser_example e \<and> rounds e + length statements_example < 20"
    "node_count parser_example + sum_list (map (\<lambda>e. tree_nodes (node_of e)) statements_example) \<le> FINSH_NODE_MAX"
    using runnable_example by (auto simp: runnable_def parser_example_def)
  have "spelled (line_lexemes (global_variables parser_example) statements_example) ''a=2+3*4;''"
    using spelled_example by (simp add: e)
  from finsh_parser_reads_line [OF this r(1) _ r(2)] show ?thesis by (auto simp: e)
qed

lemma shows_example: "shows_text shell_example ([], [])" "length (cmd_history shell_example) = FINSH_HISTORY_LINES"
  using ready_example by (simp_all add: ready_def)

text \<open>\<open>ab\<close>, the cursor goes left, and a space is put in between.\<close>

theorem shell_edits_line_witness:
  "\<exists>s'. shell_read 20 (\<lambda>_ _ _. None) [CHR ''a'', CHR ''b'', CHR 0x1B, CHR 0x5B, CHR 0x44, CHR '' ''] shell_example =
      Some ([], s') \<and> shows_text s' (''a '', ''b'')"
  using shell_edits_line [OF shows_example(1),
      where es = "[Ins (CHR ''a''), Ins (CHR ''b''), CursorLeft, Ins (CHR '' '')]" and n = 20 and calls = "\<lambda>_ _ _. None"]
  by (auto simp: plain_def Let_def)

theorem shell_long_line_not_discarded_witness:
  "shell_read 20 (\<lambda>_ _ _. None) (replicate 80 (CHR ''1'') @ ''2'' @ [CHR 0x0A]) shell_example = None"
  using shell_long_line_not_discarded [OF shows_example(1), of "replicate 80 (CHR ''1'')" "''2''" 20 "\<lambda>_ _ _. None" "[]"]
  by (simp add: plain_def)

theorem list_prefix_longest_witness:
  "list_prefix parser_example ''li'' = Some ''list_t''"
proof -
  have ne: "completions parser_example ''li'' \<noteq> []"
    by (simp add: completions_def parser_example_def str_is_prefix_def)
  have c: "completions parser_example ''li'' = [''list_thread'', ''list_timer'']"
    by (simp add: completions_def parser_example_def str_is_prefix_def)
  obtain t where t: "list_prefix parser_example ''li'' = Some t" "prefix t ''list_thread''" "prefix t ''list_timer''"
    "\<And>u. prefix u ''list_thread'' \<Longrightarrow> prefix u ''list_timer'' \<Longrightarrow> prefix u t"
    using list_prefix_longest [of "''li''" parser_example] ne unfolding c by auto
  have "prefix ''list_t'' t" by (rule t(4)) simp_all
  then have "t = ''list_t''" using t(2,3) by (auto simp: prefix_Cons)
  then show ?thesis using t(1) by simp
qed

theorem shell_up_recalls_witness:
  "\<exists>s' s''. shell_read 20 (\<lambda>_ _ _. None) (concat (map keys_of keys_example) @ [CHR 0x0A]) shell_example =
      Some ([], s') \<and>
    shell_read 20 (\<lambda>_ _ _. None) [CHR 0x1B, CHR 0x5B, CHR 0x41] s' = Some ([], s'') \<and>
    shows_text s'' (''a=2+3*4'', [])"
proof -
  have sel: "shell_parser shell_example = parser_example" "global_variables parser_example = vs_example"
    "global_variable_base parser_example = 0x20000000"
    by (simp_all add: shell_example_def parser_example_def)
  have r: "runnable 20 (shell_parser shell_example) statements_example"
    "spelled (line_lexemes (global_variables (shell_parser shell_example)) statements_example)
       (typed keys_example @ '';'')"
    using runnable_example spelled_example by (simp_all add: sel typed_example)
  have t: "typed keys_example \<noteq> []" "length (typed keys_example) + 1 < FINSH_CMD_SIZE"
    by (simp_all add: typed_example)
  obtain s' where s': "shell_read 20 (\<lambda>_ _ _. None) (concat (map keys_of keys_example) @ [CHR 0x0A]) shell_example =
      Some ([], s')"
    using shell_computes [OF ready_example no_calls typed_example(2) t r, of "[]"] value_example
    by (auto simp: sel)
  from shell_up_recalls [OF shows_example(1) typed_example(2) t(1) shows_example(2) s'] s'
  show ?thesis by (auto simp: typed_example)
qed

end
