(* ===== verification/DfsPath.thy ===== *)
theory DfsPath
  imports Print
begin

text \<open>
  Paths, the functions \<open>dfs_normalize_path\<close> and \<open>dfs_subdir\<close> of \<open>components/dfs/src/dfs.c\<close>. The
  normalisation works in place: \<open>buf\<close> is the allocated block from \<open>fullpath\<close> on, \<open>src\<close> and \<open>dst\<close> are
  positions in it. \<open>None\<close> is an access beyond the block, on either side of it.
\<close>

abbreviation "SLASH \<equiv> CHR ''/''"
abbreviation "DOT \<equiv> CHR ''.''"

definition get_char :: "string \<Rightarrow> nat \<Rightarrow> char option" where
  "get_char buf i = (if i < length buf then Some (buf ! i) else None)"

definition put_char :: "string \<Rightarrow> nat \<Rightarrow> char \<Rightarrow> string option" where
  "put_char buf i c = (if i < length buf then Some (buf[i := c]) else None)"

text \<open>The position of the first character from \<open>src\<close> on that is no slash.\<close>

definition skip_slashes :: "string \<Rightarrow> nat \<Rightarrow> nat option" where
  "skip_slashes buf src =
     (let src' = src + length (takeWhile (\<lambda>c. c = SLASH) (drop src buf)) in
      if src' < length buf then Some src' else None)"

text \<open>The loop that copies a name: the character it stops at, the block, \<open>src\<close> behind it and \<open>dst\<close>.\<close>

function copy_name :: "string \<Rightarrow> nat \<Rightarrow> nat \<Rightarrow> (char \<times> string \<times> nat \<times> nat) option" where
  "copy_name buf src dst =
     (if src < length buf
      then (let c = buf ! src in
            if c \<noteq> CHR 0x00 \<and> c \<noteq> SLASH
            then if dst < length buf then copy_name (buf[dst := c]) (src + 1) (dst + 1) else None
            else Some (c, buf, src + 1, dst))
      else None)"
  by pat_completeness auto

termination by (relation "measure (\<lambda>(buf, src, _). length buf - src)") auto

declare copy_name.simps [simp del]

text \<open>One round of the loop: on to the next name, one directory up, or the end of the path.\<close>

datatype norm_result = Onward string nat nat | Up nat | Over string nat

definition norm_copy :: "string \<Rightarrow> nat \<Rightarrow> nat \<Rightarrow> norm_result option" where
  "norm_copy buf src dst = do {
     (c, buf, src, dst) \<leftarrow> copy_name buf src dst;
     if c = SLASH then do {
       buf \<leftarrow> put_char buf dst SLASH;
       src \<leftarrow> skip_slashes buf src;
       Some (Onward buf src (dst + 1)) }
     else Some (Over buf dst) }"

definition norm_step :: "string \<Rightarrow> nat \<Rightarrow> nat \<Rightarrow> norm_result option" where
  "norm_step buf src dst = do {
     c \<leftarrow> get_char buf src;
     if c = DOT then do {
       c1 \<leftarrow> get_char buf (src + 1);
       if c1 = CHR 0x00 then norm_copy buf (src + 1) dst
       else if c1 = SLASH then do {
         src \<leftarrow> skip_slashes buf (src + 2);
         Some (Onward buf src dst) }
       else if c1 = DOT then do {
         c2 \<leftarrow> get_char buf (src + 2);
         if c2 = CHR 0x00 then Some (Up (src + 2))
         else if c2 = SLASH then map_option Up (skip_slashes buf (src + 3))
         else norm_copy buf src dst }
       else norm_copy buf src dst }
     else norm_copy buf src dst }"

text \<open>\<open>up_one\<close>: back over the name before \<open>dst\<close>.\<close>

definition up_one :: "string \<Rightarrow> nat \<Rightarrow> nat" where
  "up_one buf dst = dst - 1 - length (takeWhile (\<lambda>c. c \<noteq> SLASH) (rev (take (dst - 1) buf)))"

lemma copy_name_moves:
  "copy_name buf src dst = Some (c, buf', src', dst') \<Longrightarrow> length buf' = length buf \<and> src < src'"
proof (induction buf src dst rule: copy_name.induct)
  case (1 buf src dst)
  show ?case
    using 1(2) 1(1) [OF _ refl] by (subst (asm) copy_name.simps) (fastforce simp: Let_def split: if_splits)
qed

lemma skip_slashes_moves: "skip_slashes buf src = Some src' \<Longrightarrow> src \<le> src' \<and> src' < length buf"
  by (auto simp: skip_slashes_def Let_def split: if_splits)

lemma norm_copy_moves:
  "norm_copy buf src dst = Some (Onward buf' src' dst') \<Longrightarrow>
    length buf' = length buf \<and> src < src' \<and> src' < length buf"
  "norm_copy buf src dst \<noteq> Some (Up src')"
  by (auto simp: norm_copy_def put_char_def split: bind_splits if_splits
      dest!: copy_name_moves skip_slashes_moves)

lemma norm_step_moves:
  "norm_step buf src dst = Some (Onward buf' src' dst') \<Longrightarrow>
    length buf' = length buf \<and> src < src' \<and> src' < length buf"
  "norm_step buf src dst = Some (Up src') \<Longrightarrow> src < src' \<and> src' < length buf"
  by (auto simp: norm_step_def get_char_def norm_copy_moves(2) split: bind_splits if_splits
      dest!: norm_copy_moves(1) skip_slashes_moves)

text \<open>
  The loop. The inner option is \<open>RT_NULL\<close>, returned when a \<open>..\<close> leads before the beginning of the
  block.
\<close>

function norm_loop :: "string \<Rightarrow> nat \<Rightarrow> nat \<Rightarrow> (string \<times> nat) option option" where
  "norm_loop buf src dst =
     (case norm_step buf src dst of
        None \<Rightarrow> None
      | Some (Onward buf src dst) \<Rightarrow> norm_loop buf src dst
      | Some (Up src) \<Rightarrow> if dst = 0 then Some None else norm_loop buf src (up_one buf dst)
      | Some (Over buf dst) \<Rightarrow> Some (Some (buf, dst)))"
  by pat_completeness auto

termination
  by (relation "measure (\<lambda>(buf, src, _). length buf - src)")
    (auto dest!: norm_step_moves intro: diff_less_mono2)

declare norm_loop.simps [simp del]

text \<open>The end of the path: without a last slash, unless that is all there is.\<close>

definition norm_end :: "string \<Rightarrow> nat \<Rightarrow> string option" where
  "norm_end buf dst = do {
     buf \<leftarrow> put_char buf dst (CHR 0x00);
     if dst = 0 then None
     else if dst - 1 \<noteq> 0 \<and> buf ! (dst - 1) = SLASH then put_char buf (dst - 1) (CHR 0x00)
     else Some buf }"

definition normalize :: "string \<Rightarrow> string option option" where
  "normalize buf = do {
     r \<leftarrow> norm_loop buf 0 0;
     case r of
       None \<Rightarrow> Some None
     | Some (buf, dst) \<Rightarrow> do { buf \<leftarrow> norm_end buf dst; path \<leftarrow> c_string buf; Some (Some path) } }"

text \<open>The path below a directory; \<open>None\<close> if it is shorter than the directory.\<close>

definition dfs_subdir :: "string \<Rightarrow> string \<Rightarrow> string option option" where
  "dfs_subdir directory filename =
     (if length directory = length filename then Some None
      else if length filename < length directory then None
      else
        (let dir = length directory;
             dir = (if filename ! dir \<noteq> SLASH \<and> dir \<noteq> 0 then dir - 1 else dir)
         in Some (Some (drop dir filename))))"

end
