(* ===== verification/DfsNames.thy ===== *)
theory DfsNames
  imports DfsPath
begin

text \<open>
  What the normalisation of a path means: the path is a list of names, \<open>.\<close> stays where it is and
  \<open>..\<close> leads one name back. That works as long as no \<open>..\<close> leads above the root.
\<close>

subsection \<open>Paths as lists of names\<close>

lemma dropWhile_shorter: "dropWhile p s = c # s' \<Longrightarrow> length s' < length s"
  by (metis Suc_le_eq length_Cons length_dropWhile_le)

function names :: "string \<Rightarrow> string list" where
  "names s =
     (case dropWhile (\<lambda>c. c = SLASH) s of
        [] \<Rightarrow> []
      | c # s \<Rightarrow> takeWhile (\<lambda>c. c \<noteq> SLASH) (c # s) # names (dropWhile (\<lambda>c. c \<noteq> SLASH) (c # s)))"
  by pat_completeness auto

termination
proof (relation "measure length")
  fix s c s'
  assume s: "dropWhile (\<lambda>c. c = SLASH) s = c # s'"
  then have "c \<noteq> SLASH" using hd_dropWhile [of "\<lambda>c. c = SLASH" s] by simp
  then have "length (dropWhile (\<lambda>c. c \<noteq> SLASH) (c # s')) \<le> length s'" by (simp add: length_dropWhile_le)
  then show "(dropWhile (\<lambda>c. c \<noteq> SLASH) (c # s'), s) \<in> measure length"
    using dropWhile_shorter [OF s] by simp
qed simp

declare names.simps [simp del]

lemma names_simps [simp]:
  "names [] = []" "names (SLASH # s) = names s"
  by (subst names.simps, simp)+

lemma names_Cons:
  "c \<noteq> SLASH \<Longrightarrow> names (c # s) =
    takeWhile (\<lambda>c. c \<noteq> SLASH) (c # s) # names (dropWhile (\<lambda>c. c \<noteq> SLASH) (c # s))"
  by (subst names.simps) simp

lemma names_dropWhile: "names (dropWhile (\<lambda>c. c = SLASH) s) = names s"
  by (induction s) auto

lemma names_word:
  assumes "w \<noteq> []" and "SLASH \<notin> set w"
  shows "names w = [w]" and "names (w @ SLASH # s) = w # names s"
proof -
  obtain c w' where w: "w = c # w'" "c \<noteq> SLASH" "\<forall>c \<in> set w'. c \<noteq> SLASH"
    using assms by (cases w) auto
  show "names w = [w]" using names_Cons [OF w(2), of w'] w
    by (simp add: takeWhile_eq_all_conv [THEN iffD2] dropWhile_eq_Nil_conv [THEN iffD2])
  show "names (w @ SLASH # s) = w # names s"
    using names_Cons [OF w(2), of "w' @ SLASH # s"] w by (simp add: takeWhile_append2 dropWhile_append2)
qed

text \<open>A name at a time; the first component tells whether the path still begins at the root.\<close>

fun walk :: "bool \<Rightarrow> string list \<Rightarrow> string list \<Rightarrow> (bool \<times> string list) option" where
  "walk r st [] = Some (r, rev st)"
| "walk r st (n # ns) =
     (if n = ''.'' then walk r st ns
      else if n = ''..''
        then (case st of
                [] \<Rightarrow> if r then walk False [] ns else None
              | _ # st \<Rightarrow> walk r st ns)
      else walk r (n # st) ns)"

text \<open>The meaning of a path: there is none if it leads above the root.\<close>

fun resolve :: "string list \<Rightarrow> string list \<Rightarrow> string list option" where
  "resolve st [] = Some (rev st)"
| "resolve st (n # ns) =
     (if n = ''.'' then resolve st ns
      else if n = ''..'' then (case st of [] \<Rightarrow> None | _ # st \<Rightarrow> resolve st ns)
      else resolve (n # st) ns)"

definition path_of :: "string list \<Rightarrow> string" where
  "path_of ns = (if ns = [] then ''/'' else concat (map (\<lambda>n. SLASH # n) ns))"

lemma walk_rooted: "walk True st ns = Some (True, ms) \<longleftrightarrow> resolve st ns = Some ms"
proof -
  have f: "walk False st ns \<noteq> Some (True, ms)" for st ns
    by (induction ns arbitrary: st) (auto split: list.splits)
  show ?thesis by (induction ns arbitrary: st) (auto simp: f split: list.splits)
qed

subsection \<open>The loop\<close>

definition root :: "bool \<Rightarrow> string" where
  "root r = (if r then ''/'' else [])"

text \<open>The text the loop has built for a stack of names.\<close>

definition built :: "bool \<Rightarrow> string list \<Rightarrow> string" where
  "built r ns = root r @ concat (map (\<lambda>n. n @ [SLASH]) ns)"

definition word :: "string \<Rightarrow> bool" where
  "word n \<longleftrightarrow> n \<noteq> [] \<and> SLASH \<notin> set n \<and> CHR 0x00 \<notin> set n"

text \<open>The state of the loop before a name: \<open>s\<close> is what is left of the path.\<close>

definition at_name :: "string \<Rightarrow> nat \<Rightarrow> nat \<Rightarrow> bool \<Rightarrow> string list \<Rightarrow> string \<Rightarrow> bool" where
  "at_name buf src dst r st s \<longleftrightarrow>
     dst \<le> src \<and> src < length buf \<and> take dst buf = built r (rev st) \<and> (\<forall>n \<in> set st. word n) \<and>
     (\<exists>z. drop src buf = s @ CHR 0x00 # z) \<and> CHR 0x00 \<notin> set s \<and> (s = [] \<or> hd s \<noteq> SLASH)"

lemma get_char_drop: "drop i buf = c # cs \<Longrightarrow> get_char buf i = Some c"
  by (metis drop_eq_Nil get_char_def hd_drop_conv_nth linorder_not_le list.distinct(1) list.sel(1))

lemma get_char_drop_more: "drop i buf = xs @ c # cs \<Longrightarrow> get_char buf (i + length xs) = Some c"
  by (rule get_char_drop [of _ _ _ cs]) (metis add.commute append_eq_conv_conj drop_drop)

lemma skip_slashes_drop:
  assumes "drop src buf = s @ CHR 0x00 # z" and "CHR 0x00 \<notin> set s"
  obtains src' z' where "skip_slashes buf src = Some src'" "src \<le> src'" "src' < length buf"
    "drop src' buf = dropWhile (\<lambda>c. c = SLASH) s @ CHR 0x00 # z"
proof -
  let ?p = "\<lambda>c. c = SLASH"
  have t: "takeWhile ?p (s @ CHR 0x00 # z) = takeWhile ?p s" "dropWhile ?p (s @ CHR 0x00 # z) = dropWhile ?p s @ CHR 0x00 # z"
    by (induction s) simp_all
  have d: "drop (src + length (takeWhile ?p s)) buf = dropWhile ?p s @ CHR 0x00 # z"
    by (metis add.commute assms(1) drop_drop dropWhile_eq_drop t)
  then have "src + length (takeWhile ?p s) < length buf"
    by (metis append_is_Nil_conv drop_eq_Nil linorder_not_le list.distinct(1))
  then show ?thesis using that d assms(1) t(1) by (simp add: skip_slashes_def Let_def)
qed

lemma copy_name_word:
  assumes "drop src buf = w @ x # z" and "dst \<le> src" and "x = CHR 0x00 \<or> x = SLASH"
    and "SLASH \<notin> set w" and "CHR 0x00 \<notin> set w"
  shows "\<exists>buf'. copy_name buf src dst = Some (x, buf', src + length w + 1, dst + length w) \<and>
    length buf' = length buf \<and> take (dst + length w) buf' = take dst buf @ w \<and>
    drop (src + length w) buf' = x # z"
  using assms
proof (induction w arbitrary: buf src dst)
  case Nil
  have "src < length buf" "buf ! src = x"
    using get_char_drop [of src buf x z] Nil.prems(1) by (auto simp: get_char_def split: if_splits)
  then show ?case using Nil.prems by (subst copy_name.simps) auto
next
  case (Cons c w)
  have b: "src < length buf" "buf ! src = c"
    using get_char_drop [of src buf c "w @ x # z"] Cons.prems(1) by (auto simp: get_char_def split: if_splits)
  let ?buf = "buf[dst := c]"
  have "drop (src + 1) buf = w @ x # z" using Cons.prems(1) by (simp add: drop_Suc flip: tl_drop)
  then have "drop (src + 1) ?buf = w @ x # z" using Cons.prems(2) by simp
  from Cons.IH [OF this, of "dst + 1"] Cons.prems(2-5) obtain buf' where
    "copy_name ?buf (src + 1) (dst + 1) = Some (x, buf', src + 1 + length w + 1, dst + 1 + length w)"
    "length buf' = length ?buf" "take (dst + 1 + length w) buf' = take (dst + 1) ?buf @ w"
    "drop (src + 1 + length w) buf' = x # z" by auto
  moreover have "take (dst + 1) ?buf = take dst buf @ [c]"
    using b(1) Cons.prems(2) by (simp add: take_Suc_conv_app_nth)
  moreover have "copy_name buf src dst = copy_name ?buf (src + 1) (dst + 1)"
    using b Cons.prems(2,4,5) by (subst copy_name.simps) auto
  ultimately show ?case by auto
qed

lemma norm_copy_word:
  assumes "drop src buf = w @ x # z" and "dst \<le> src" and "SLASH \<notin> set w" and "CHR 0x00 \<notin> set w"
  shows "x = CHR 0x00 \<Longrightarrow> \<exists>buf'. norm_copy buf src dst = Some (Over buf' (dst + length w)) \<and>
      length buf' = length buf \<and> take (dst + length w) buf' = take dst buf @ w"
    and "x = SLASH \<Longrightarrow> z = s @ CHR 0x00 # z' \<Longrightarrow> CHR 0x00 \<notin> set s \<Longrightarrow>
      \<exists>buf' src'. norm_copy buf src dst = Some (Onward buf' src' (dst + length w + 1)) \<and>
        length buf' = length buf \<and> dst + length w + 1 \<le> src' \<and> src' < length buf \<and>
        take (dst + length w + 1) buf' = take dst buf @ w @ [SLASH] \<and>
        drop src' buf' = dropWhile (\<lambda>c. c = SLASH) s @ CHR 0x00 # z'"
proof -
  assume "x = CHR 0x00"
  then show "\<exists>buf'. norm_copy buf src dst = Some (Over buf' (dst + length w)) \<and>
      length buf' = length buf \<and> take (dst + length w) buf' = take dst buf @ w"
    using copy_name_word [OF assms(1,2) _ assms(3,4)] by (auto simp: norm_copy_def)
next
  assume x: "x = SLASH" and z: "z = s @ CHR 0x00 # z'" "CHR 0x00 \<notin> set s"
  from x copy_name_word [OF assms(1,2) _ assms(3,4)] obtain b where
    b: "copy_name buf src dst = Some (x, b, src + length w + 1, dst + length w)"
      "length b = length buf" "take (dst + length w) b = take dst buf @ w" "drop (src + length w) b = x # z"
    by blast
  have l: "dst + length w < length b"
    using get_char_drop [OF b(4)] assms(2) by (auto simp: get_char_def split: if_splits)
  let ?b = "b[dst + length w := SLASH]"
  have "drop (src + length w + 1) b = z" using b(4) by (simp add: drop_Suc flip: tl_drop)
  then have "drop (src + length w + 1) ?b = s @ CHR 0x00 # z'" using assms(2) z(1) by simp
  from skip_slashes_drop [OF this z(2)] obtain src' where
    src': "skip_slashes ?b (src + length w + 1) = Some src'" "src + length w + 1 \<le> src'" "src' < length ?b"
      "drop src' ?b = dropWhile (\<lambda>c. c = SLASH) s @ CHR 0x00 # z'" .
  moreover have "take (dst + length w + 1) ?b = take dst buf @ w @ [SLASH]"
    using l b(3) by (simp add: take_Suc_conv_app_nth)
  ultimately show "\<exists>buf' src'. norm_copy buf src dst = Some (Onward buf' src' (dst + length w + 1)) \<and>
        length buf' = length buf \<and> dst + length w + 1 \<le> src' \<and> src' < length buf \<and>
        take (dst + length w + 1) buf' = take dst buf @ w @ [SLASH] \<and>
        drop src' buf' = dropWhile (\<lambda>c. c = SLASH) s @ CHR 0x00 # z'"
    using b x l assms(2) by (auto simp: norm_copy_def put_char_def)
qed

text \<open>The name the loop looks at, and whether it is \<open>.\<close>, \<open>..\<close> or another one.\<close>

lemma norm_step_plain:
  assumes "drop src buf = w @ x # z" and "word w" and "x = CHR 0x00 \<or> x = SLASH" and "w \<noteq> ''.''" "w \<noteq> ''..''"
  shows "norm_step buf src dst = norm_copy buf src dst"
proof -
  obtain c w' where w: "w = c # w'" using assms(2) by (cases w) (auto simp: word_def)
  then have c: "get_char buf src = Some c" using assms(1) get_char_drop by simp
  show ?thesis
  proof (cases "c = DOT")
    case True
    then obtain d w'' where d: "w' = d # w''" using w assms(4) by (cases w') auto
    have d1: "get_char buf (src + 1) = Some d" "d \<noteq> CHR 0x00" "d \<noteq> SLASH"
      using get_char_drop_more [of src buf "[c]" d "w'' @ x # z"] assms(1,2) w d by (auto simp: word_def)
    show ?thesis
    proof (cases "d = DOT")
      case True
      then obtain e v where e: "w'' = e # v" using w d \<open>c = DOT\<close> assms(5) by (cases w'') auto
      have "get_char buf (src + 2) = Some e" "e \<noteq> CHR 0x00" "e \<noteq> SLASH"
        using get_char_drop_more [of src buf "[c, d]" e "v @ x # z"] assms(1,2) w d e by (auto simp: word_def)
      then show ?thesis using c d1 by (simp add: norm_step_def)
    qed (use c d1 in \<open>simp add: norm_step_def\<close>)
  qed (use c in \<open>simp add: norm_step_def\<close>)
qed

lemma norm_step_dots:
  shows "drop src buf = DOT # CHR 0x00 # z \<Longrightarrow> norm_step buf src dst = norm_copy buf (src + 1) dst"
    "drop src buf = DOT # SLASH # z \<Longrightarrow>
      norm_step buf src dst = map_option (\<lambda>src. Onward buf src dst) (skip_slashes buf (src + 2))"
    "drop src buf = DOT # DOT # CHR 0x00 # z \<Longrightarrow> norm_step buf src dst = Some (Up (src + 2))"
    "drop src buf = DOT # DOT # SLASH # z \<Longrightarrow>
      norm_step buf src dst = map_option Up (skip_slashes buf (src + 3))"
  using get_char_drop [of src buf] get_char_drop_more [of src buf "[_]"] get_char_drop_more [of src buf "[_, _]"]
  by (simp_all add: norm_step_def map_conv_bind_option comp_def)

lemma up_one_built:
  assumes "take dst buf = built r (rev (c # st))" and "dst \<le> length buf" and "word c"
  shows "up_one buf dst = length (built r (rev st))" "take (up_one buf dst) buf = built r (rev st)" "0 < dst"
proof -
  let ?t = "built r (rev st)"
  have t: "take dst buf = ?t @ c @ [SLASH]" using assms(1) by (simp add: built_def)
  have d: "dst = length ?t + length c + 1" using arg_cong [OF t, of length] assms(2) by simp
  then show "0 < dst" by simp
  have "take (dst - 1) buf = take (dst - 1) (take dst buf)" by (simp add: take_take)
  also have "\<dots> = ?t @ c" unfolding t by (simp add: d)
  finally have c: "take (dst - 1) buf = ?t @ c" .
  have "takeWhile (\<lambda>c. c \<noteq> SLASH) (rev ?t) = []"
    by (cases st) (auto simp: built_def root_def)
  moreover have "\<forall>x \<in> set (rev c). x \<noteq> SLASH" using assms(3) by (auto simp: word_def)
  ultimately have "takeWhile (\<lambda>c. c \<noteq> SLASH) (rev (?t @ c)) = rev c"
    using takeWhile_append2 [of "rev c" "\<lambda>c. c \<noteq> SLASH" "rev ?t"] by simp
  moreover have "up_one buf dst = dst - 1 - length (takeWhile (\<lambda>c. c \<noteq> SLASH) (rev (?t @ c)))"
    by (simp only: up_one_def c)
  ultimately show u: "up_one buf dst = length ?t" using d by simp
  have "take (length ?t) buf = take (length ?t) (take dst buf)" using d by (simp add: take_take)
  then show "take (up_one buf dst) buf = ?t" by (simp add: u t)
qed

text \<open>What the loop ends with: the text of the names, with or without the last slash.\<close>

definition over :: "bool \<Rightarrow> string list \<Rightarrow> string \<Rightarrow> nat \<Rightarrow> bool" where
  "over r ns buf dst \<longleftrightarrow>
     dst < length buf \<and> (\<forall>n \<in> set ns. word n) \<and>
     (take dst buf = built r ns \<or> ns \<noteq> [] \<and> take dst buf = butlast (built r ns))"

definition loop_meets :: "(bool \<times> string list) option \<Rightarrow> (string \<times> nat) option option \<Rightarrow> bool" where
  "loop_meets w res \<longleftrightarrow>
     (case w of None \<Rightarrow> res = Some None
      | Some (r, ns) \<Rightarrow> \<exists>buf dst. res = Some (Some (buf, dst)) \<and> over r ns buf dst)"

lemma at_name_dst: "at_name buf src dst r st s \<Longrightarrow> length (built r (rev st)) = dst"
  by (metis at_name_def dual_order.strict_trans2 length_take min.absorb2 order_less_imp_le)

lemma word_takeWhile:
  assumes "s \<noteq> []" and "hd s \<noteq> SLASH" and "CHR 0x00 \<notin> set s"
  obtains w where "word w" "s = w" | w s' where "word w" "s = w @ SLASH # s'"
proof -
  let ?w = "takeWhile (\<lambda>c. c \<noteq> SLASH) s"
  have w: "word ?w" using assms by (cases s) (auto simp: word_def dest: set_takeWhileD)
  show ?thesis
  proof (cases "dropWhile (\<lambda>c. c \<noteq> SLASH) s")
    case Nil
    then show ?thesis using w that(1) by (metis append_Nil2 takeWhile_dropWhile_id)
  next
    case (Cons c s')
    then have "c = SLASH" using hd_dropWhile [of "\<lambda>c. c \<noteq> SLASH" s] by simp
    then show ?thesis using w that(2) [of ?w s'] Cons by (metis takeWhile_dropWhile_id)
  qed
qed

lemma norm_loop_walk: "at_name buf src dst r st s \<Longrightarrow> loop_meets (walk r st (names s)) (norm_loop buf src dst)"
proof (induction "length buf - src" arbitrary: buf src dst r st s rule: less_induct)
  case less
  obtain z where a: "dst \<le> src" "src < length buf" "take dst buf = built r (rev st)" "\<forall>n \<in> set st. word n"
    "drop src buf = s @ CHR 0x00 # z" "CHR 0x00 \<notin> set s" "s = [] \<or> hd s \<noteq> SLASH"
    using less.prems by (auto simp: at_name_def)
  have onward: "loop_meets (walk r' st' (names s')) (norm_loop buf' src' dst')"
    if "length buf' = length buf" "src < src'" "src' < length buf" "dst' \<le> src'"
      "take dst' buf' = built r' (rev st')" "\<forall>n \<in> set st'. word n" "CHR 0x00 \<notin> set s'"
      "drop src' buf' = dropWhile (\<lambda>c. c = SLASH) s' @ CHR 0x00 # z" for buf' src' dst' r' st' s'
  proof -
    let ?s = "dropWhile (\<lambda>c. c = SLASH) s'"
    have "?s = [] \<or> hd ?s \<noteq> SLASH" using hd_dropWhile [of "\<lambda>c. c = SLASH" s'] by blast
    moreover have "CHR 0x00 \<notin> set ?s" using that(7) set_dropWhileD by fast
    ultimately have at: "at_name buf' src' dst' r' st' ?s"
      unfolding at_name_def using that by (intro conjI exI [of _ z]) simp_all
    have "length buf' - src' < length buf - src" using that(1-3) by simp
    from less.hyps [OF this at] show ?thesis by (simp only: names_dropWhile)
  qed
  have stop: "loop_meets (Some (r, ns)) (norm_loop buf src dst)"
    if "norm_step buf src dst = Some (Over buf' dst')" "over r ns buf' dst'" for buf' dst' ns
    using that by (subst norm_loop.simps) (auto simp: loop_meets_def)
  have up: "loop_meets (case st of [] \<Rightarrow> if r then walk False [] (names s') else None | _ # st \<Rightarrow> walk r st (names s'))
      (norm_loop buf src dst)"
    if u: "norm_step buf src dst = Some (Up src')" "src < src'" "src' < length buf" "CHR 0x00 \<notin> set s'"
      "drop src' buf = dropWhile (\<lambda>c. c = SLASH) s' @ CHR 0x00 # z" for src' s'
  proof (cases st)
    case (Cons c st')
    have b: "take dst buf = built r (rev (c # st'))" "dst \<le> length buf" "word c" using a Cons by auto
    from u up_one_built [OF b] a(1,4) Cons show ?thesis
      using onward [of buf src' "up_one buf dst" r st' s'] at_name_dst [OF less.prems]
      by (subst norm_loop.simps) (auto simp: up_one_def intro: order_trans)
  next
    case Nil
    show ?thesis
    proof (cases r)
      case True
      have "dst = 1" using at_name_dst [OF less.prems] Nil True by (simp add: built_def root_def)
      then show ?thesis using u Nil True onward [of buf src' 0 False "[]" s']
        by (subst norm_loop.simps) (simp add: up_one_def built_def root_def)
    next
      case False
      have "dst = 0" using at_name_dst [OF less.prems] Nil False by (simp add: built_def root_def)
      then show ?thesis using u Nil False by (subst norm_loop.simps) (simp add: loop_meets_def)
    qed
  qed
  have l: "length (s @ CHR 0x00 # z) = length buf - src" using arg_cong [OF a(5), of length] by simp
  show ?case
  proof (cases "s = []")
    case True
    then have "get_char buf src = Some (CHR 0x00)" using a(5) get_char_drop by simp
    then have "norm_step buf src dst = norm_copy buf src dst" by (simp add: norm_step_def)
    then obtain b where "norm_step buf src dst = Some (Over b dst)" "length b = length buf" "take dst b = take dst buf"
      using norm_copy_word(1) [of src buf "[]" "CHR 0x00" z dst] a(1,5) True by auto
    then show ?thesis using stop [of b dst "rev st"] a True by (simp add: over_def)
  next
    case False
    then have "hd s \<noteq> SLASH" using a(7) by simp
    from word_takeWhile [OF False this a(6)] show ?thesis
    proof cases
      case (1 w)
      then have nm: "names s = [w]" using names_word(1) by (simp add: word_def)
      consider "w = ''.''" | "w = ''..''" | "w \<noteq> ''.''" "w \<noteq> ''..''" by blast
      then show ?thesis
      proof cases
        case 1
        then have d: "drop src buf = DOT # CHR 0x00 # z" using a(5) \<open>s = w\<close> by simp
        then have "drop (src + 1) buf = CHR 0x00 # z" by (simp add: drop_Suc flip: tl_drop)
        then obtain b where "norm_step buf src dst = Some (Over b dst)" "length b = length buf" "take dst b = take dst buf"
          using norm_copy_word(1) [of "src + 1" buf "[]" "CHR 0x00" z dst] a(1) norm_step_dots(1) [OF d] by auto
        then show ?thesis using stop [of b dst "rev st"] a nm 1 by (simp add: over_def)
      next
        case 2
        then have d: "drop src buf = DOT # DOT # CHR 0x00 # z" using a(5) \<open>s = w\<close> by simp
        then have "drop (src + 2) buf = CHR 0x00 # z" by (simp add: numeral_2_eq_2 drop_Suc flip: tl_drop)
        moreover have "src + 2 < length buf" using l \<open>s = w\<close> 2 by simp
        moreover have "walk r st (names s) =
            (case st of [] \<Rightarrow> if r then walk False [] (names []) else None | _ # st \<Rightarrow> walk r st (names []))"
          using nm 2 by (cases st) simp_all
        ultimately show ?thesis using up [OF norm_step_dots(3) [OF d], of "[]"] by simp
      next
        case 3
        have d: "drop src buf = w @ CHR 0x00 # z" using a(5) \<open>s = w\<close> by simp
        then obtain b where "norm_step buf src dst = Some (Over b (dst + length w))" "length b = length buf"
          "take (dst + length w) b = take dst buf @ w"
          using norm_copy_word(1) [OF d a(1)] norm_step_plain [OF d 1(1) _ 3] 1(1) by (auto simp: word_def)
        then show ?thesis using stop [of b "dst + length w" "rev (w # st)"] a(1-4) l 1 nm 3
          by (auto simp: over_def built_def butlast_append)
      qed
    next
      case (2 w s')
      then have nm: "names s = w # names s'" using names_word(2) by (simp add: word_def)
      have d: "drop src buf = w @ SLASH # s' @ CHR 0x00 # z" and s': "CHR 0x00 \<notin> set s'"
        using a(5,6) 2(2) by simp_all
      consider "w = ''.''" | "w = ''..''" | "w \<noteq> ''.''" "w \<noteq> ''..''" by blast
      then show ?thesis
      proof cases
        case 1
        then have e: "drop src buf = DOT # SLASH # s' @ CHR 0x00 # z" using d by simp
        then have "drop (src + 2) buf = s' @ CHR 0x00 # z" by (simp add: numeral_2_eq_2 drop_Suc flip: tl_drop)
        from skip_slashes_drop [OF this s'] obtain src' where k: "skip_slashes buf (src + 2) = Some src'"
          "src + 2 \<le> src'" "src' < length buf" "drop src' buf = dropWhile (\<lambda>c. c = SLASH) s' @ CHR 0x00 # z" .
        then have "norm_step buf src dst = Some (Onward buf src' dst)" using norm_step_dots(2) [OF e] by simp
        then have "norm_loop buf src dst = norm_loop buf src' dst" by (subst norm_loop.simps) simp
        then show ?thesis using onward [of buf src' dst r st s'] k a(1,3,4) s' nm 1 by simp
      next
        case 2
        then have e: "drop src buf = DOT # DOT # SLASH # s' @ CHR 0x00 # z" using d by simp
        then have "drop (src + 3) buf = s' @ CHR 0x00 # z" by (simp add: numeral_3_eq_3 drop_Suc flip: tl_drop)
        from skip_slashes_drop [OF this s'] obtain src' where k: "skip_slashes buf (src + 3) = Some src'"
          "src + 3 \<le> src'" "src' < length buf" "drop src' buf = dropWhile (\<lambda>c. c = SLASH) s' @ CHR 0x00 # z" .
        then show ?thesis using up [of src' s'] norm_step_dots(4) [OF e] s' nm 2 by simp
      next
        case 3
        obtain b src' where k: "norm_step buf src dst = Some (Onward b src' (dst + length w + 1))"
          "length b = length buf" "dst + length w + 1 \<le> src'" "src' < length buf"
          "take (dst + length w + 1) b = take dst buf @ w @ [SLASH]"
          "drop src' b = dropWhile (\<lambda>c. c = SLASH) s' @ CHR 0x00 # z"
          using norm_copy_word(2) [OF d a(1) _ _ refl refl s'] norm_step_plain [OF d 2(1) _ 3] 2(1)
          by (auto simp: word_def)
        have "src < src'" using norm_step_moves(1) [OF k(1)] by simp
        moreover have "norm_loop buf src dst = norm_loop b src' (dst + length w + 1)"
          using k(1) by (subst norm_loop.simps) simp
        ultimately show ?thesis
          using onward [of b src' "dst + length w + 1" r "w # st" s'] k a(3,4) s' nm 2(1) 3 by (simp add: built_def)
      qed
    qed
  qed
qed

subsection \<open>The path\<close>

lemma built_no_NUL: "\<forall>n \<in> set ns. word n \<Longrightarrow> CHR 0x00 \<notin> set (built r ns)"
  by (auto simp: built_def root_def word_def split: if_splits)

definition strip :: "string \<Rightarrow> string" where
  "strip t = (if length t > 1 \<and> last t = SLASH then butlast t else t)"

lemma c_string_update:
  assumes "i < length buf" and "CHR 0x00 \<notin> set (take i buf)"
  shows "c_string (buf[i := CHR 0x00]) = Some (take i buf)"
proof -
  have "buf[i := CHR 0x00] = take i buf @ CHR 0x00 # drop (Suc i) buf" using assms(1) by (rule upd_conv_take_nth_drop)
  then show ?thesis using assms(2) by (auto simp: c_string_def takeWhile_append)
qed

lemma norm_end_strip:
  assumes "0 < dst" and "dst < length buf" and "CHR 0x00 \<notin> set (take dst buf)"
  shows "norm_end buf dst \<bind> c_string = Some (strip (take dst buf))"
proof -
  let ?b = "buf[dst := CHR 0x00]"
  have t: "last (take dst buf) = buf ! (dst - 1)" "butlast (take dst buf) = take (dst - 1) buf"
    using assms(1,2) last_conv_nth [of "take dst buf"] by (cases "buf = []"; simp add: butlast_take)+
  have n: "CHR 0x00 \<notin> set (take (dst - 1) buf)"
    using assms(3) set_take_subset_set_take [of "dst - 1" dst buf] by auto
  have "take (dst - 1) ?b = take (dst - 1) buf" using assms(1) by simp
  then have "c_string (?b[dst - 1 := CHR 0x00]) = Some (take (dst - 1) buf)"
    using c_string_update [of "dst - 1" ?b] n assms(1,2) by simp
  moreover have "dst - Suc 0 < length buf" using assms(2) by simp
  ultimately show ?thesis
    using c_string_update [OF assms(2,3)] assms(1,2) t
    by (simp add: norm_end_def put_char_def strip_def)
qed

lemma strip_built:
  assumes "\<forall>n \<in> set ns. word n"
  shows "strip (built True ns) = path_of ns" "ns \<noteq> [] \<Longrightarrow> strip (butlast (built True ns)) = path_of ns"
proof -
  have b: "built True ns = (if ns = [] then ''/'' else path_of ns @ ''/'')"
    by (induction ns) (auto simp: built_def root_def path_of_def split: if_splits)
  have l: "last (path_of ns) \<noteq> SLASH" "1 < length (path_of ns)" if ne: "ns \<noteq> []"
  proof -
    obtain ms n where ns: "ns = ms @ [n]" using ne by (cases ns rule: rev_cases) auto
    then have "word n" using assms by simp
    then have "last n \<noteq> SLASH" "n \<noteq> []" by (metis word_def last_in_set)+
    then show "last (path_of ns) \<noteq> SLASH" "1 < length (path_of ns)"
      using ns by (auto simp: path_of_def)
  qed
  show "strip (built True ns) = path_of ns"
  proof (cases "ns = []")
    case True
    then show ?thesis by (simp add: built_def root_def strip_def path_of_def)
  next
    case False
    then have "path_of ns \<noteq> []" using l(2) by auto
    then show ?thesis using l False by (simp add: b strip_def)
  qed
  show "ns \<noteq> [] \<Longrightarrow> strip (butlast (built True ns)) = path_of ns"
    using l by (simp add: b strip_def)
qed

lemma normalize_walk:
  assumes "CHR 0x00 \<notin> set s"
  shows "case walk True [] (names s) of
      None \<Rightarrow> normalize (SLASH # s @ [CHR 0x00]) = Some None
    | Some (r, ns) \<Rightarrow>
        if r then normalize (SLASH # s @ [CHR 0x00]) = Some (Some (path_of ns))
        else \<forall>q. normalize (SLASH # s @ [CHR 0x00]) \<noteq> Some (Some (SLASH # q))"
proof -
  let ?buf = "SLASH # s @ [CHR 0x00]"
  have d: "drop 0 ?buf = [] @ SLASH # s @ [CHR 0x00]" by simp
  obtain b src where b: "norm_copy ?buf 0 0 = Some (Onward b src 1)" "length b = length ?buf"
    "1 \<le> src" "src < length ?buf" "take 1 b = [SLASH]" "drop src b = dropWhile (\<lambda>c. c = SLASH) s @ [CHR 0x00]"
    using norm_copy_word(2) [OF d order_refl _ _ refl refl assms] by auto
  have "norm_step ?buf 0 0 = norm_copy ?buf 0 0" by (simp add: norm_step_def get_char_def)
  then have st: "norm_loop ?buf 0 0 = norm_loop b src 1" using b(1) by (subst norm_loop.simps) simp
  let ?s = "dropWhile (\<lambda>c. c = SLASH) s"
  have "?s = [] \<or> hd ?s \<noteq> SLASH" using hd_dropWhile [of "\<lambda>c. c = SLASH" s] by blast
  moreover have "CHR 0x00 \<notin> set ?s" using assms set_dropWhileD by fast
  ultimately have "at_name b src 1 True [] ?s"
    using b by (simp add: at_name_def built_def root_def)
  from norm_loop_walk [OF this] have m: "loop_meets (walk True [] (names s)) (norm_loop ?buf 0 0)"
    unfolding st by (simp only: names_dropWhile)
  show ?thesis
  proof (cases "walk True [] (names s)")
    case None
    then show ?thesis using m by (simp add: loop_meets_def normalize_def)
  next
    case (Some rn)
    obtain r ns where rn: "walk True [] (names s) = Some (r, ns)" using Some by (cases rn) auto
    with m obtain buf dst where o: "norm_loop ?buf 0 0 = Some (Some (buf, dst))" "over r ns buf dst"
      by (auto simp: loop_meets_def)
    let ?t = "take dst buf"
    have t: "dst < length buf" "\<forall>n \<in> set ns. word n" "?t = built r ns \<or> ns \<noteq> [] \<and> ?t = butlast (built r ns)"
      using o(2) by (auto simp: over_def)
    have nul: "CHR 0x00 \<notin> set ?t" using t(3) built_no_NUL [OF t(2), of r] by (auto dest: in_set_butlastD)
    have e: "normalize ?buf = (if dst = 0 then None else Some (Some (strip ?t)))"
    proof (cases "dst = 0")
      case True
      then show ?thesis using o(1) t(1) by (simp add: normalize_def norm_end_def put_char_def)
    next
      case False
      then show ?thesis using o(1) norm_end_strip [of dst buf] t(1) nul
        by (auto simp: normalize_def bind_eq_Some_conv)
    qed
    show ?thesis
    proof (cases r)
      case True
      have "dst \<noteq> 0"
      proof
        assume "dst = 0"
        then show False using t(3) True by (cases ns) (auto simp: built_def root_def butlast_append)
      qed
      then have "normalize ?buf = Some (Some (path_of ns))"
        using e t(3) strip_built [OF t(2)] True by auto
      then show ?thesis using rn True by simp
    next
      case False
      have "hd (strip ?t) \<noteq> SLASH" if ne: "strip ?t \<noteq> []"
      proof (cases ns)
        case Nil
        then have "?t = []" using t(3) False by (simp add: built_def root_def)
        then have "strip ?t = []" by (simp only: strip_def) simp
        then show ?thesis using ne by simp
      next
        case (Cons n ns')
        then obtain c n' where n: "n = c # n'" "c \<noteq> SLASH" using t(2) by (cases n) (auto simp: word_def)
        then obtain q where "?t = c # q" using t(3) Cons False
          by (auto simp: built_def root_def butlast_append)
        then show ?thesis using n(2) by (simp only: strip_def) simp
      qed
      then have "strip ?t \<noteq> SLASH # q" for q by (metis list.distinct(1) list.sel(1))
      then show ?thesis using rn False e by simp
    qed
  qed
qed

end
