(* ===== verification/Dfs.thy ===== *)
theory Dfs
  imports DfsNames Object "HOL-Library.Sublist"
begin

text \<open>
  The tables of the device file system, \<open>components/dfs/src/dfs.c\<close> and \<open>dfs_fs.c\<close>: file descriptors,
  types of file systems and mounted file systems, and the path functions with their memory. A path on
  the heap is its address with its text. The file system lock delimits a step. What the mounted file
  systems do is not part of the model.
\<close>

abbreviation (input) DFS_FD_MAX :: nat where "DFS_FD_MAX \<equiv> 4"
abbreviation (input) DFS_FILESYSTEMS_MAX :: nat where "DFS_FILESYSTEMS_MAX \<equiv> 2"
abbreviation (input) DFS_FD_MAGIC :: u16 where "DFS_FD_MAGIC \<equiv> 0xfdfd"

type_synonym heap_text = "addr \<times> string"

record dfs_filesystem =
  dev_id :: addr
  fs_path :: "heap_text option"
  fs_ops :: addr
  fs_data :: u32

record dfs_fd =
  fd_magic :: u16
  fd_type :: u16
  fd_path :: "heap_text option"
  fd_ref :: int
  fd_fs :: "nat option"
  fd_flags :: u32
  fd_size :: u32
  fd_pos :: u32
  fd_data :: u32

subsection \<open>File descriptors\<close>

definition fd_clear :: dfs_fd where
  "fd_clear = \<lparr>fd_magic = 0, fd_type = 0, fd_path = None, fd_ref = 0, fd_fs = None, fd_flags = 0,
     fd_size = 0, fd_pos = 0, fd_data = 0\<rparr>"

definition fd_new :: "dfs_fd list \<Rightarrow> int \<times> dfs_fd list" where
  "fd_new tab =
     (let idx = length (takeWhile (\<lambda>d. fd_ref d > 0) tab) in
      if idx = DFS_FD_MAX then (- 1, tab)
      else (int idx, tab[idx := (tab ! idx)\<lparr>fd_ref := 1, fd_magic := DFS_FD_MAGIC\<rparr>]))"

definition fd_get :: "int \<Rightarrow> dfs_fd list \<Rightarrow> (nat option \<times> dfs_fd list) option" where
  "fd_get fd tab =
     (if fd < 0 \<or> int DFS_FD_MAX \<le> fd then Some (None, tab)
      else
        (let i = nat fd; d = tab ! i in
         if fd_magic d \<noteq> DFS_FD_MAGIC then Some (None, tab)
         else if fd_ref d = 2 ^ 31 - 1 then None
         else Some (Some i, tab[i := d\<lparr>fd_ref := fd_ref d + 1\<rparr>])))"

definition fd_put :: "nat \<Rightarrow> dfs_fd list \<Rightarrow> dfs_fd list" where
  "fd_put i tab =
     (let d = (tab ! i)\<lparr>fd_ref := fd_ref (tab ! i) - 1\<rparr> in
      tab[i := if fd_ref d = 0 then fd_clear else d])"

text \<open>A descriptor that is fetched and put back leaves the table as it was.\<close>

lemma fd_get_put:
  "fd_get fd tab = Some (Some i, tab') \<Longrightarrow> 0 < fd_ref (tab ! i) \<Longrightarrow> length tab = DFS_FD_MAX \<Longrightarrow> fd_put i tab' = tab"
  by (auto simp: fd_get_def fd_put_def Let_def split: if_splits)

text \<open>A new descriptor is one that was not in use; there is none only if all are.\<close>

lemma fd_new_unused:
  assumes "length tab = DFS_FD_MAX"
  shows "case fd_new tab of (fd, tab') \<Rightarrow>
    (fd = - 1 \<and> tab' = tab \<and> (\<forall>d \<in> set tab. 0 < fd_ref d)) \<or>
    (\<exists>i < DFS_FD_MAX. fd = int i \<and> fd_ref (tab ! i) \<le> 0 \<and> fd_ref (tab' ! i) = 1 \<and>
       fd_get fd tab' = Some (Some i, tab'[i := (tab' ! i)\<lparr>fd_ref := 2\<rparr>]))"
proof -
  let ?p = "\<lambda>d. 0 < fd_ref d" and ?i = "length (takeWhile (\<lambda>d. 0 < fd_ref d) tab)"
  show ?thesis
  proof (cases "?i = DFS_FD_MAX")
    case True
    then have "takeWhile ?p tab = tab" using takeWhile_eq_take [of ?p tab] assms by simp
    then have "\<forall>d \<in> set tab. ?p d" by (simp add: takeWhile_eq_all_conv)
    then show ?thesis using True by (simp add: fd_new_def)
  next
    case False
    then have i: "?i < length tab" using length_takeWhile_le [of ?p tab] assms by simp
    then have "\<not> ?p (tab ! ?i)" by (rule nth_length_takeWhile)
    then show ?thesis using False i assms
      by (auto simp: fd_new_def fd_get_def Let_def intro!: exI [of _ ?i])
  qed
qed

subsection \<open>File systems\<close>

text \<open>The name of a type of file system is found at the address of its operations.\<close>

definition dfs_register :: "(addr \<Rightarrow> string) \<Rightarrow> addr \<Rightarrow> addr list \<Rightarrow> int \<times> addr list" where
  "dfs_register name ops tab =
     (if \<exists>p \<in> set tab. p \<noteq> 0 \<and> name p = name ops then (- 1, tab)
      else
        (let empty = length (takeWhile (\<lambda>p. p \<noteq> 0) tab) in
         (0, if empty < length tab then tab[empty := ops] else tab)))"

text \<open>A type of file system cannot be registered twice, once the table has it.\<close>

lemma dfs_register_twice:
  assumes "dfs_register name ops tab = (0, tab')" and "0 \<in> set tab" and "ops \<noteq> 0"
  shows "dfs_register name ops tab' = (- 1, tab')"
proof -
  have "takeWhile (\<lambda>p. p \<noteq> 0) tab \<noteq> tab" using assms(2) set_takeWhileD [of 0 "\<lambda>p. p \<noteq> 0" tab] by force
  then have "length (takeWhile (\<lambda>p. p \<noteq> 0) tab) < length tab"
    by (metis length_takeWhile_le nat_less_le take_all_iff takeWhile_eq_take le_refl)
  then have "ops \<in> set tab'" using assms(1) by (auto simp: dfs_register_def Let_def set_update_memI split: if_splits)
  then show ?thesis using assms(3) by (auto simp: dfs_register_def)
qed

definition lookup_step ::
    "string \<Rightarrow> nat \<times> dfs_filesystem \<Rightarrow> nat option \<times> nat \<Rightarrow> nat option \<times> nat" where
  "lookup_step path = (\<lambda>(i, iter) (fs, prefixlen).
     case fs_path iter of
       None \<Rightarrow> (fs, prefixlen)
     | Some (_, mp) \<Rightarrow>
         if fs_ops iter = 0 then (fs, prefixlen)
         else if length mp < prefixlen \<or> take (length mp) path \<noteq> mp then (fs, prefixlen)
         else if length mp > 1 \<and> length path > length mp \<and> path ! length mp \<noteq> SLASH then (fs, prefixlen)
         else (Some i, length mp))"

definition dfs_filesystem_lookup :: "string \<Rightarrow> dfs_filesystem list \<Rightarrow> nat option" where
  "dfs_filesystem_lookup path tab = fst (fold (lookup_step path) (enumerate 0 tab) (None, 0))"

definition dfs_filesystem_get_mounted_path :: "addr \<Rightarrow> dfs_filesystem list \<Rightarrow> heap_text option" where
  "dfs_filesystem_get_mounted_path dev tab =
     (case find (\<lambda>iter. fs_ops iter \<noteq> 0 \<and> dev_id iter = dev) tab of
        None \<Rightarrow> None | Some iter \<Rightarrow> fs_path iter)"

subsection \<open>Paths\<close>

definition normalize_in :: "addr \<Rightarrow> string \<Rightarrow> kernel \<Rightarrow> (heap_text option \<times> kernel) option" where
  "normalize_in fullpath buf k = do {
     r \<leftarrow> normalize buf;
     case r of
       None \<Rightarrow> do { k \<leftarrow> RT_KERNEL_FREE fullpath k; Some (None, k) }
     | Some path \<Rightarrow> Some (Some (fullpath, path), k) }"

text \<open>Without \<open>DFS_USING_WORKDIR\<close> a relative path needs a directory; what is printed then is left out.\<close>

definition dfs_normalize_path ::
    "string option \<Rightarrow> string \<Rightarrow> kernel \<Rightarrow> (heap_text option \<times> kernel) option" where
  "dfs_normalize_path directory filename k =
     (if take 1 filename \<noteq> [SLASH]
      then (case directory of
              None \<Rightarrow> Some (None, k)
            | Some directory \<Rightarrow> do {
                let n = of_nat (length directory + length filename + 2);
                (p, k) \<leftarrow> RT_KERNEL_MALLOC n k;
                case p of
                  None \<Rightarrow> Some (None, k)
                | Some fullpath \<Rightarrow> do {
                    (_, stored) \<leftarrow> rt_snprintf fullpath n ''%s/%s'' [VStr (Some directory), VStr (Some filename)];
                    buf \<leftarrow> read_chars fullpath (unat n) stored;
                    normalize_in fullpath buf k } })
      else do {
        (p, k) \<leftarrow> RT_KERNEL_MALLOC (of_nat (length filename + 1)) k;
        case p of
          None \<Rightarrow> Some (None, k)
        | Some fullpath \<Rightarrow> normalize_in fullpath (filename @ [CHR 0x00]) k })"

text \<open>C30. A path is resolved: an absolute path with empty names, \<open>.\<close> and \<open>..\<close> in it becomes the path of
  the names it means, on a block of the heap as long as the path was, unless there is no memory. The
  path may not lead above the root.\<close>

theorem dfs_normalize_path_resolves:
  assumes "CHR 0x00 \<notin> set s" and "resolve [] (names s) = Some ns"
  shows "dfs_normalize_path dir (SLASH # s) k =
    map_option (\<lambda>(p, k). (map_option (\<lambda>a. (a, path_of ns)) p, k)) (RT_KERNEL_MALLOC (of_nat (length s + 2)) k)"
proof -
  have "normalize (SLASH # s @ [CHR 0x00]) = Some (Some (path_of ns))"
    using normalize_walk [OF assms(1)] assms(2) walk_rooted [of "[]" "names s" ns] by simp
  then show ?thesis
    by (cases "RT_KERNEL_MALLOC (of_nat (length s + 2)) k")
      (auto simp: dfs_normalize_path_def normalize_in_def add.commute split: option.splits)
qed

text \<open>C32. A path that leads above the root is not refused: whatever it is taken for, it is no absolute
  path. It may be a relative one (\<open>/../a\<close> becomes \<open>a\<close>), or the end of the loop reads and may write
  before the block (\<open>/..\<close>).\<close>

theorem dfs_normalize_path_above_root:
  assumes "CHR 0x00 \<notin> set s" and "resolve [] (names s) = None"
  shows "dfs_normalize_path dir (SLASH # s) k \<noteq> Some (Some (a, SLASH # q), k')"
proof -
  have "normalize (SLASH # s @ [CHR 0x00]) \<noteq> Some (Some (SLASH # q))"
    using normalize_walk [OF assms(1)] assms(2) walk_rooted [of "[]" "names s"]
    by (auto split: option.splits prod.splits if_splits)
  then show ?thesis
    by (auto simp: dfs_normalize_path_def normalize_in_def split: option.splits bind_splits)
qed

theorem dfs_normalize_path_resolves_witness:
  "\<forall>k. dfs_normalize_path None ''/a//b/./c/../d/'' k =
    map_option (\<lambda>(p, k). (map_option (\<lambda>a. (a, ''/a/b/d'')) p, k)) (RT_KERNEL_MALLOC 16 k)"
proof -
  have "resolve [] (names ''a//b/./c/../d/'') = Some [''a'', ''b'', ''d'']" by code_simp
  then show ?thesis
    using dfs_normalize_path_resolves [of "''a//b/./c/../d/''" "[''a'', ''b'', ''d'']" None]
    by (simp add: path_of_def)
qed

theorem dfs_normalize_path_above_root_witness:
  "\<forall>k a q k'. dfs_normalize_path None ''/a/../../b'' k \<noteq> Some (Some (a, SLASH # q), k')"
proof -
  have "resolve [] (names ''a/../../b'') = None" by code_simp
  then show ?thesis using dfs_normalize_path_above_root [of "''a/../../b''" None] by simp
qed

subsection \<open>Looking up a file system\<close>

text \<open>A mount point covers a path, as the loop tests it.\<close>

definition covers :: "string \<Rightarrow> string \<Rightarrow> bool" where
  "covers mp path \<longleftrightarrow> take (length mp) path = mp \<and>
     (length mp > 1 \<and> length path > length mp \<longrightarrow> path ! length mp = SLASH)"

abbreviation (input) joined :: "string list \<Rightarrow> string" where
  "joined ns \<equiv> concat (map (\<lambda>n. SLASH # n) ns)"

lemma word_eq:
  assumes "n @ u = m @ v" and "SLASH \<notin> set n" "SLASH \<notin> set m" and "u = [] \<or> hd u = SLASH" "v = [] \<or> hd v = SLASH"
  shows "n = m \<and> u = v"
proof -
  have t: "takeWhile (\<lambda>c. c \<noteq> SLASH) (x @ y) = x" if "SLASH \<notin> set x" "y = [] \<or> hd y = SLASH" for x y
    using that by (induction x) (cases y; auto)+
  have "n = m" using t [OF assms(2,4)] t [OF assms(3,5)] assms(1) by simp
  then show ?thesis using assms(1) by simp
qed

lemma joined_prefix:
  assumes "\<forall>n \<in> set ms. word n" and "\<forall>n \<in> set ns. word n"
  shows "(\<exists>r. joined ns = joined ms @ r \<and> (r = [] \<or> hd r = SLASH)) \<longleftrightarrow> prefix ms ns"
  using assms
proof (induction ms arbitrary: ns)
  case Nil
  then show ?case by (cases ns) auto
next
  case (Cons m ms)
  show ?case
  proof (cases ns)
    case (Cons n ns')
    have j: "joined xs = [] \<or> hd (joined xs) = SLASH" for xs by (cases xs) auto
    have "n = m \<and> joined ns' = joined ms @ r"
      if "n @ joined ns' = m @ joined ms @ r" "r = [] \<or> hd r = SLASH" for r
    proof (rule word_eq [OF that(1)])
      show "joined ms @ r = [] \<or> hd (joined ms @ r) = SLASH" using j [of ms] that(2) by (cases ms) auto
      show "joined ns' = [] \<or> hd (joined ns') = SLASH" by (rule j)
    qed (use Cons.prems \<open>ns = n # ns'\<close> in \<open>auto simp: word_def\<close>)
    then have "(\<exists>r. joined ns = joined (m # ms) @ r \<and> (r = [] \<or> hd r = SLASH)) \<longleftrightarrow>
        n = m \<and> (\<exists>r. joined ns' = joined ms @ r \<and> (r = [] \<or> hd r = SLASH))"
      using Cons by auto
    then show ?thesis using Cons.IH [of ns'] Cons.prems Cons by auto
  qed simp
qed

lemma covers_split:
  assumes "1 < length p"
  shows "covers p q \<longleftrightarrow> (\<exists>r. q = p @ r \<and> (r = [] \<or> hd r = SLASH))"
proof
  assume c: "covers p q"
  let ?r = "drop (length p) q"
  have q: "q = p @ ?r" using c by (metis append_take_drop_id covers_def)
  have "?r = [] \<or> hd ?r = SLASH"
  proof (cases "length p < length q")
    case True
    then show ?thesis using c assms by (simp add: covers_def hd_drop_conv_nth)
  qed simp
  then show "\<exists>r. q = p @ r \<and> (r = [] \<or> hd r = SLASH)" using q by blast
next
  assume "\<exists>r. q = p @ r \<and> (r = [] \<or> hd r = SLASH)"
  then obtain r where "q = p @ r" "r = [] \<or> hd r = SLASH" by blast
  then show "covers p q" by (cases r) (auto simp: covers_def)
qed

lemma covers_prefix:
  assumes "\<forall>n \<in> set ms. word n" and "\<forall>n \<in> set ns. word n"
  shows "covers (path_of ms) (path_of ns) \<longleftrightarrow> prefix ms ns"
proof (cases "ms = [] \<or> ns = []")
  case True
  have l: "1 < length (joined xs)" if "xs \<noteq> []" "\<forall>n \<in> set xs. word n" for xs
    using that by (cases xs) (auto simp: word_def Suc_le_eq)
  show ?thesis
  proof (cases "ms = []")
    case False
    then have ns: "ns = []" and p: "path_of ms = joined ms" using True by (simp_all add: path_of_def)
    have "length (take (length (joined ms)) [SLASH]) < length (joined ms)" using l [OF False assms(1)] by simp
    then have "take (length (joined ms)) [SLASH] \<noteq> joined ms" by (metis less_irrefl)
    then show ?thesis using ns p False by (simp add: covers_def path_of_def)
  qed (auto simp: covers_def path_of_def neq_Nil_conv)
next
  case False
  then have p: "path_of ms = joined ms" "path_of ns = joined ns" by (simp_all add: path_of_def)
  have "1 < length (joined ms)" using False assms(1) by (cases ms) (auto simp: word_def)
  then have "covers (joined ms) (joined ns) \<longleftrightarrow> (\<exists>r. joined ns = joined ms @ r \<and> (r = [] \<or> hd r = SLASH))"
    by (rule covers_split)
  then show ?thesis using joined_prefix [OF assms] p by simp
qed

lemma longer_path: "word x \<Longrightarrow> length (path_of ms) < length (path_of (ms @ x # xs))"
  by (cases x) (auto simp: path_of_def word_def)

definition mounted :: "dfs_filesystem \<Rightarrow> bool" where
  "mounted iter \<longleftrightarrow> fs_path iter \<noteq> None \<and> fs_ops iter \<noteq> 0"

definition mount_point :: "dfs_filesystem \<Rightarrow> string" where
  "mount_point iter = (case fs_path iter of None \<Rightarrow> [] | Some (_, mp) \<Rightarrow> mp)"

definition best :: "string \<Rightarrow> dfs_filesystem list \<Rightarrow> nat option \<times> nat \<Rightarrow> bool" where
  "best path tab = (\<lambda>(fs, n).
     (case fs of
        None \<Rightarrow> n = 0
      | Some i \<Rightarrow> i < length tab \<and> mounted (tab ! i) \<and> covers (mount_point (tab ! i)) path \<and>
          n = length (mount_point (tab ! i))) \<and>
     (\<forall>j < length tab. mounted (tab ! j) \<and> covers (mount_point (tab ! j)) path \<longrightarrow>
        fs \<noteq> None \<and> length (mount_point (tab ! j)) \<le> n))"

lemma lookup_step_best:
  assumes "best path tab (fs, n)"
  shows "best path (tab @ [x]) (lookup_step path (length tab, x) (fs, n))"
proof -
  have "lookup_step path (length tab, x) (fs, n) =
      (if mounted x \<and> n \<le> length (mount_point x) \<and> covers (mount_point x) path
       then (Some (length tab), length (mount_point x)) else (fs, n))"
    by (auto simp: lookup_step_def mounted_def mount_point_def covers_def split: option.splits)
  then show ?thesis
    using assms by (auto simp: best_def nth_append less_Suc_eq split: option.splits if_splits)
qed

lemma lookup_best: "best path tab (fold (lookup_step path) (enumerate 0 tab) (None, 0))"
proof (induction tab rule: rev_induct)
  case (snoc x tab)
  then show ?case
    using lookup_step_best by (cases "fold (lookup_step path) (enumerate 0 tab) (None, 0)")
      (auto simp: enumerate_append_eq)
qed (simp add: best_def)

text \<open>C31. A path belongs to the file system with the longest mount point: where the mount points are
  paths of names, the lookup of a path returns one whose mount point has all others above the path
  above it, and nothing only if no mount point is above the path.\<close>

theorem dfs_filesystem_lookup_longest:
  assumes "\<forall>i < length tab. mounted (tab ! i) \<longrightarrow>
      mount_point (tab ! i) = path_of (mp i) \<and> (\<forall>n \<in> set (mp i). word n)"
    and "\<forall>n \<in> set ns. word n"
  shows "case dfs_filesystem_lookup (path_of ns) tab of
      None \<Rightarrow> \<forall>i < length tab. mounted (tab ! i) \<longrightarrow> \<not> prefix (mp i) ns
    | Some i \<Rightarrow> i < length tab \<and> mounted (tab ! i) \<and> prefix (mp i) ns \<and>
        (\<forall>j < length tab. mounted (tab ! j) \<and> prefix (mp j) ns \<longrightarrow> prefix (mp j) (mp i))"
proof -
  have c: "covers (mount_point (tab ! i)) (path_of ns) \<longleftrightarrow> prefix (mp i) ns"
    if "i < length tab" "mounted (tab ! i)" for i
    using that assms(1) covers_prefix [OF _ assms(2)] by auto
  obtain fs n where fs: "fold (lookup_step (path_of ns)) (enumerate 0 tab) (None, 0) = (fs, n)" by fastforce
  then have b: "best (path_of ns) tab (fs, n)" using lookup_best by metis
  show ?thesis
  proof (cases fs)
    case None
    then show ?thesis using b c fs by (auto simp: best_def dfs_filesystem_lookup_def)
  next
    case (Some i)
    have i: "i < length tab" "mounted (tab ! i)" "prefix (mp i) ns" "n = length (path_of (mp i))"
      using b c assms(1) Some by (auto simp: best_def)
    have "prefix (mp j) (mp i)" if j: "j < length tab" "mounted (tab ! j)" "prefix (mp j) ns" for j
    proof (rule ccontr)
      assume "\<not> prefix (mp j) (mp i)"
      then have "prefix (mp i) (mp j)" using prefix_same_cases [OF j(3) i(3)] by blast
      then obtain zs where zs: "mp j = mp i @ zs" by (rule prefixE)
      with \<open>\<not> prefix (mp j) (mp i)\<close> obtain x xs where x: "mp j = mp i @ x # xs" by (cases zs) simp_all
      have w: "\<forall>n \<in> set (mp j). word n" using assms(1) j by auto
      then have "word x" using x by auto
      then have "length (path_of (mp i)) < length (path_of (mp j))"
        unfolding x by (rule longer_path)
      moreover have "length (mount_point (tab ! j)) \<le> n" using b j c [OF j(1,2)] by (simp add: best_def)
      then have "length (path_of (mp j)) \<le> length (path_of (mp i))" using assms(1) j i(4) by simp
      ultimately show False by simp
    qed
    then show ?thesis using i fs Some by (simp add: dfs_filesystem_lookup_def)
  qed
qed

theorem dfs_filesystem_lookup_longest_witness:
  "dfs_filesystem_lookup ''/mnt/sd/x''
      [\<lparr>dev_id = 1, fs_path = Some (256, ''/mnt/sd''), fs_ops = 16, fs_data = 0\<rparr>,
       \<lparr>dev_id = 2, fs_path = Some (512, ''/''), fs_ops = 32, fs_data = 0\<rparr>] = Some 0"
proof -
  let ?tab = "[\<lparr>dev_id = 1, fs_path = Some (256, ''/mnt/sd''), fs_ops = 16, fs_data = 0\<rparr>,
    \<lparr>dev_id = 2, fs_path = Some (512, ''/''), fs_ops = 32, fs_data = 0\<rparr>]"
  let ?mp = "\<lambda>i. if i = 0 then [''mnt'', ''sd''] else []" and ?ns = "[''mnt'', ''sd'', ''x'']"
  have m: "\<forall>i < length ?tab. mounted (?tab ! i) \<longrightarrow>
      mount_point (?tab ! i) = path_of (?mp i) \<and> (\<forall>n \<in> set (?mp i). word n)"
    by (simp add: All_less_Suc2 mounted_def mount_point_def path_of_def word_def)
  have "\<forall>n \<in> set ?ns. word n" by (simp add: word_def)
  from dfs_filesystem_lookup_longest [OF m this]
  have "dfs_filesystem_lookup (path_of ?ns) ?tab = Some 0"
    by (auto simp: All_less_Suc2 mounted_def split: option.splits if_splits)
  then show ?thesis by (simp add: path_of_def)
qed

end
