(* ===== verification/Spec2Isabelle.thy ===== *)
theory Spec2Isabelle
  imports ThreadSpec System Lifecycle Mutex Event MsgQueue Mempool RingSpec Pipe FinshExample Dfs
begin

text \<open>
  The kernel of RT-Thread 2.1.0 (\<open>src/src\<close>, \<open>src/include\<close>), the IPC of its driver framework
  (\<open>src/components/drivers/src\<close>), its shell (\<open>src/components/finsh\<close>) and the paths and tables of its
  file system layer (\<open>src/components/dfs/src\<close>).

  \<^bold>\<open>The program.\<close> A preemptive kernel for one core. \<open>thread.c\<close> and \<open>scheduler.c\<close> keep the threads
  and one ready queue per priority with a bit map of the non-empty ones; \<open>clock.c\<close> and \<open>timer.c\<close>
  keep the tick and the list of running timers, from whose callbacks sleeping threads are woken;
  \<open>ipc.c\<close> and \<open>mempool.c\<close> put threads on the waiting list of a semaphore, mutex, event, mailbox,
  message queue or memory pool and take them off; \<open>object.c\<close> names all of these and keeps them in
  one container per class; \<open>mem.c\<close> provides the memory of the dynamic ones; \<open>idle.c\<close> frees what
  exited threads leave behind; \<open>device.c\<close> and the files of the driver framework (ring buffers, data
  queues, completions, pipes) stand on top. The shell is a thread that reads keys, edits a line,
  and scans, parses, compiles and runs it: lines are expressions of C over variables, system
  variables and functions, compiled to the byte code of a small stack machine.

  \<^bold>\<open>Configuration.\<close> That of \<open>bsp/stm32f407VGT6/rtconfig.h\<close>: 32 priorities, names of 8 bytes,
  100 ticks a second, a skip list of one level, assertions, overflow check, small-memory heap, all
  of the IPC, the C shell with symbol tables and history; soft timers, modules, memheap, slab and
  msh are off, hooks are not installed. Plain \<open>char\<close> is unsigned, as the ABI of the processor has it.

  \<^bold>\<open>Conventions.\<close> Integers have the width of the code and wrap around (\<open>u8\<close>, \<open>u16\<close>, \<open>u32\<close>,
  \<open>s32\<close>). The state is one record, \<open>kernel\<close>; a structure is a record found by its address. An
  operation is a function of the kernel; its value is \<open>None\<close> where the code does not return or where
  its behaviour is undefined: a failed assertion, a pointer that is not there, an access beyond a
  buffer, a loop that does not end. A call that may block returns \<open>Done\<close> of its result, or \<open>Blocked\<close>
  of the locals it needs once it runs again; what it does then is the operation of the same name with
  the suffix \<open>_wake\<close>. Interrupts are disabled for the length of an operation or of such a part, so an
  operation is one step. Functions the kernel calls through pointers (timer callbacks, clean-up
  functions, drivers, indications, the functions a line of the shell calls) are parameters. The
  doubly linked lists are sequences, which theory \<open>RtList\<close> justifies.

  The parser of the shell is recursive over the input, and its functions take a number \<open>n\<close> of rounds,
  \<open>None\<close> when they are used up. \<open>FinshGrammar\<close> defines \<open>rounds e\<close>, linear in the size of an expression,
  and shows that the parser returns for every line whose statements take fewer than \<open>n\<close>; \<open>n = 20\<close> is
  enough for the examples. All other loops are shown to end, or are fixed points whose value \<open>None\<close>
  means that they do not.

  \<^bold>\<open>Theories: the kernel.\<close>
  \<^item> \<open>Prelude\<close>: widths, errors, alignment, lemmas on words, sequences and maps, the collections of
    hints that carry the proofs.
  \<^item> \<open>RtList\<close> (\<open>rtservice.h\<close>): the pointer operations on doubly linked lists over a store of nodes.
    The locale \<open>list_ops\<close> is their contract; sequences and the pointer operations both satisfy it.
  \<^item> \<open>Kservice\<close>, \<open>Print\<close>, \<open>PrintSpec\<close> (\<open>kservice.c\<close>): find-first-set by table, memory and string
    routines, each shown equal to its specification; formatted output, whose stores go through a
    pointer of 32 bits and a test against the end of the buffer, and which puts as much of the text of
    its format into the buffer as fits and nothing beside it, numbers as numerals in a field, unless
    the pointer wraps around.
  \<^item> \<open>Mem\<close> (\<open>mem.c\<close>): the heap over a byte memory with its block headers. The blocks partition the
    region and no two free ones are adjacent; first fit, no overlap, realloc keeps the contents. The
    locale \<open>allocator\<close> is what its clients rely on.
  \<^item> \<open>Kernel\<close> (\<open>rtdef.h\<close>, \<open>irq.c\<close>, parts of \<open>clock.c\<close> and \<open>kservice.c\<close>): the structures and
    the state. \<open>Object\<close> (\<open>object.c\<close>): the containers.
  \<^item> \<open>Timer\<close>, \<open>Clock\<close>, \<open>ClockSpec\<close> (\<open>timer.c\<close>, \<open>clock.c\<close>): the list stays sorted relative to the
    tick at which it was last looked at, across the wrap-around of the tick; the tick handler ends and
    wakes exactly the threads whose time has come. The locale \<open>timeout_callback\<close> states what a
    callback must keep; a callback that releases a semaphore satisfies it.
  \<^item> \<open>Sched\<close>, \<open>Thread\<close>, \<open>ThreadSpec\<close> (\<open>scheduler.c\<close>, \<open>thread.c\<close>, \<open>cpuport.c\<close>): the invariant
    \<open>kernel_inv\<close> ties the lists, the states of the threads, the bit map and the timers together; every
    operation keeps it, and \<open>rt_schedule\<close> picks the first thread of the highest ready priority.
  \<^item> \<open>Ipc\<close>, \<open>Semaphore\<close>, \<open>Mutex\<close>, \<open>Event\<close> (\<open>ipc.c\<close>): waiting lists by arrival or by priority, and
    for each kind of object an abstract specification that its operations implement.
  \<^item> \<open>Fifo\<close>: the interface of a bounded queue (locales \<open>fifo\<close>, \<open>abs_calls\<close>, \<open>fifo_calls\<close>) with the
    lemmas on runs of calls; \<open>Mailbox\<close>, \<open>MsgQueue\<close> (\<open>ipc.c\<close>) and \<open>RingSpec\<close> over \<open>Ringbuffer\<close> (\<open>ringbuffer.c\<close>)
    interpret it. \<open>Pool\<close>: nodes of equal size in a buffer, shared by \<open>MsgQueue\<close> and
    \<open>Mempool\<close> (\<open>mempool.c\<close>).
  \<^item> \<open>Idle\<close> (\<open>idle.c\<close>): one clean-up by the idle thread, for any clean-up functions that keep the
    contract of the locale \<open>cleanup_function\<close>. \<open>Device\<close> (\<open>device.c\<close>), \<open>Driveripc\<close>
    (\<open>completion.c\<close>, \<open>dataqueue.c\<close>), \<open>Pipe\<close> (\<open>pipe.c\<close>): the operations, hand-over to threads that
    wait, and what happens when a driver fails or a wait times out.
  \<^item> \<open>DfsPath\<close>, \<open>DfsNames\<close>, \<open>Dfs\<close> (\<open>dfs.c\<close>, \<open>dfs_fs.c\<close>): the normalisation of a path, which rewrites
    it in place, resolves the names of the path; descriptors; the look-up of a mounted file system
    finds the longest mount point above a path.
  \<^item> \<open>System\<close>: the components together. Any run of yields, sleeps, semaphore calls and ticks keeps one
    invariant and never gets stuck; the locale \<open>system_callback\<close> is what the callbacks of timers must
    keep for this. \<open>Lifecycle\<close>: a thread that is created, started, deleted and cleaned up gives back
    its memory and its name.
  \<^item> \<open>Scenario\<close>: one concrete kernel state on which the theorems are instantiated.

  \<^bold>\<open>Theories: the shell.\<close>
  \<^item> \<open>FinshVm\<close> (\<open>finsh_vm.c\<close>, \<open>finsh_ops.c\<close>): the stack machine with all its operations on bytes, words
    and double words. \<open>FinshNode\<close> (\<open>finsh_var.c\<close>, \<open>finsh_vm.c\<close>, \<open>finsh_node.h\<close>): variables, tables of
    system variables and calls, nodes. \<open>FinshHeap\<close> (\<open>finsh_heap.c\<close>): the heap of the strings.
  \<^item> \<open>FinshToken\<close> (\<open>finsh_token.c\<close>), \<open>FinshParser\<close> (\<open>finsh_parser.c\<close>, \<open>finsh_node.c\<close>),
    \<open>FinshCompiler\<close> (\<open>finsh_compiler.c\<close>), \<open>FinshShell\<close> (\<open>shell.c\<close>, \<open>finsh_init.c\<close>, the completion of
    \<open>cmd.c\<close>): from keys to byte code, and the loop of the thread.
  \<^item> \<open>FinshSem\<close>: the expressions and their reference semantics on integers and memory, without a
    stack. \<open>FinshCode\<close>: type check and compiler produce \<open>code_of\<close>; \<open>FinshRun\<close>: the machine on that code
    has the value and the memory of the semantics. \<open>FinshLimits\<close>: lines for which it has not.
  \<^item> \<open>FinshLex\<close>, \<open>FinshGrammar\<close>, \<open>FinshParse\<close>: which texts spell an expression, and that scanner and
    parser give back its tree. \<open>FinshEdit\<close>: the line buffer as two texts around a cursor, history,
    completion. \<open>FinshTop\<close>: from the keys to the value on the console. \<open>FinshExample\<close>: a shell on which
    the theorems are instantiated.

  \<^bold>\<open>Not modelled.\<close> The device the console writes to; the echo of single keys and the tables the shell
  prints (output only); the context switch (assembler: it is the change of \<open>current\<close>); \<open>module.c\<close>,
  \<open>memheap.c\<close>, \<open>slab.c\<close>, msh (off in this configuration); \<open>components.c\<close> (initialisation through
  linker sections); work queues and portals; mounting, the operations on files and the drivers of the
  file systems; the bus drivers, network stacks, graphics, language bindings, board and processor support.
\<close>

end
